(* ===== verification/Prelude.thy ===== *)
theory Prelude
  imports Complex_Main "HOL-Library.Multiset" "HOL-Library.Sublist" "HOL-Library.Monad_Syntax"
begin

text \<open>
  Shared by every component: the collections of rewrite rules, the failure values of
  the source (\<open>abort\<close>, \<open>assert\<close>, a null or dangling pointer), the wrap-around of
  its machine integers, and the lemmas on lists and arrays that several components use.
\<close>

named_theorems queue_simps \<open>functional behaviour of queue operations\<close>
named_theorems wf_intros \<open>preservation of the components' invariants\<close>

section \<open>Failures as values\<close>

text \<open>
  \<open>Abort\<close> is a call of \<open>abort()\<close>, \<open>Assertion\<close> a failed \<open>assert\<close>,
  \<open>Null_Deref\<close> a read or write through a null pointer, \<open>Bad_Index\<close> an array
  access out of bounds, \<open>Exit\<close> a call of \<open>exit\<close>, \<open>No_Return\<close> a loop that does
  not end and \<open>Div_By_Zero\<close> a division of integers by zero.
\<close>

datatype failure = Abort | Assertion | Null_Deref | Bad_Index | Exit | No_Return | Div_By_Zero

type_synonym 'a res = "failure + 'a"

abbreviation Ok :: "'a \<Rightarrow> 'a res" where
  "Ok \<equiv> Inr"

abbreviation Fail :: "failure \<Rightarrow> 'a res" where
  "Fail \<equiv> Inl"

fun res_bind :: "'a res \<Rightarrow> ('a \<Rightarrow> 'b res) \<Rightarrow> 'b res" where
  "res_bind (Inl e) f = Inl e"
| "res_bind (Inr a) f = f a"

lemma res_bind_Ok_iff [simp]:
  "res_bind r f = Inr b \<longleftrightarrow> (\<exists>a. r = Inr a \<and> f a = Inr b)"
  by (cases r) auto

lemma res_bind_Fail_iff:
  "res_bind r f = Inl e \<longleftrightarrow> r = Inl e \<or> (\<exists>a. r = Inr a \<and> f a = Inl e)"
  by (cases r) auto

lemma res_bind_assoc: "res_bind (res_bind r f) g = res_bind r (\<lambda>a. res_bind (f a) g)"
  by (cases r) auto

lemma res_bind_cong [fundef_cong]:
  "r = r' \<Longrightarrow> (\<And>a. r' = Inr a \<Longrightarrow> f a = g a) \<Longrightarrow> res_bind r f = res_bind r' g"
  by (cases r') auto

section \<open>Machine integers\<close>

text \<open>Two's complement wrap-around of signed and unsigned machine integers.\<close>

definition wrap_s64 :: "int \<Rightarrow> int" where
  "wrap_s64 x = (x + 2 ^ 63) mod 2 ^ 64 - 2 ^ 63"

definition wrap_s32 :: "int \<Rightarrow> int" where
  "wrap_s32 x = (x + 2 ^ 31) mod 2 ^ 32 - 2 ^ 31"

definition wrap_s16 :: "int \<Rightarrow> int" where
  "wrap_s16 x = (x + 2 ^ 15) mod 2 ^ 16 - 2 ^ 15"

definition wrap_u32 :: "nat \<Rightarrow> nat" where
  "wrap_u32 x = x mod 2 ^ 32"

lemma wrap_s64_id [simp]: "- (2 ^ 63) \<le> x \<Longrightarrow> x < 2 ^ 63 \<Longrightarrow> wrap_s64 x = x"
  by (simp add: wrap_s64_def)

lemma wrap_s32_id [simp]: "- (2 ^ 31) \<le> x \<Longrightarrow> x < 2 ^ 31 \<Longrightarrow> wrap_s32 x = x"
  by (simp add: wrap_s32_def)

lemma wrap_s16_id [simp]: "- (2 ^ 15) \<le> x \<Longrightarrow> x < 2 ^ 15 \<Longrightarrow> wrap_s16 x = x"
  by (simp add: wrap_s16_def)

lemma wrap_u32_id [simp]: "x < 2 ^ 32 \<Longrightarrow> wrap_u32 x = x"
  by (simp add: wrap_u32_def)

lemma wrap_u32_less: "wrap_u32 x < 2 ^ 32"
  by (simp add: wrap_u32_def)

text \<open>Division of C: the quotient is truncated towards zero.\<close>

definition c_div :: "int \<Rightarrow> int \<Rightarrow> int" where
  "c_div a b = sgn a * sgn b * (\<bar>a\<bar> div \<bar>b\<bar>)"

definition c_mod :: "int \<Rightarrow> int \<Rightarrow> int" where
  "c_mod a b = a - c_div a b * b"

lemma c_div_nonneg [simp]: "0 \<le> a \<Longrightarrow> 0 < b \<Longrightarrow> c_div a b = a div b"
  by (cases "a = 0") (simp_all add: c_div_def)

lemma c_mod_nonneg [simp]: "0 \<le> a \<Longrightarrow> 0 < b \<Longrightarrow> c_mod a b = a mod b"
  by (simp add: c_mod_def minus_div_mult_eq_mod)

text \<open>A conversion of a \<open>double\<close> to an integer truncates towards zero; \<open>fmod\<close> is that of C.\<close>

definition trunc :: "real \<Rightarrow> int" where
  "trunc x = (if 0 \<le> x then \<lfloor>x\<rfloor> else \<lceil>x\<rceil>)"

definition fmod :: "real \<Rightarrow> real \<Rightarrow> real" where
  "fmod x y = x - of_int (trunc (x / y)) * y"

lemma trunc_of_int [simp]: "trunc (of_int i) = i"
  by (simp add: trunc_def)

lemma trunc_nonneg: "0 \<le> x \<Longrightarrow> trunc x = \<lfloor>x\<rfloor>"
  by (simp add: trunc_def)

section \<open>Lists and arrays\<close>

lemma remove1_append_notin [simp]: "x \<notin> set xs \<Longrightarrow> remove1 x (xs @ ys) = xs @ remove1 x ys"
  by (induction xs) auto

lemma filter_remove1_sort_key:
  assumes "distinct xs"
  shows "sort_key f (remove1 x xs) = remove1 x (sort_key f xs)"
proof -
  have "sort_key f (filter (\<lambda>y. y \<noteq> x) xs) = filter (\<lambda>y. y \<noteq> x) (sort_key f xs)"
    by (simp add: filter_sort)
  then show ?thesis
    using assms by (simp add: distinct_remove1_removeAll removeAll_filter_not_eq [symmetric])
       (metis (mono_tags, lifting) filter_cong removeAll_filter_not_eq)
qed

lemma sorted_filter_all:
  "(\<And>x. x \<in> set xs \<Longrightarrow> P x) \<Longrightarrow> (\<And>y. y \<in> set ys \<Longrightarrow> \<not> P y) \<Longrightarrow> filter P (xs @ ys) = xs"
  by (simp add: filter_empty_conv)

text \<open>
  Stable insertion from the back of the ties: the new element goes behind the elements
  with the same key. Inserting the elements of a list one after the other sorts it stably.
\<close>

fun insert_after :: "('a \<Rightarrow> 'k::linorder) \<Rightarrow> 'a \<Rightarrow> 'a list \<Rightarrow> 'a list" where
  "insert_after f x [] = [x]"
| "insert_after f x (y # ys) = (if f x < f y then x # y # ys else y # insert_after f x ys)"

lemma insert_after_insort:
  "insort_key f a (insert_after f x ys) = insert_after f x (insort_key f a ys)"
  by (induction ys) auto

lemma sort_key_snoc: "sort_key f (xs @ [x]) = insert_after f x (sort_key f xs)"
  by (induction xs) (simp_all add: insert_after_insort)

lemma set_insert_after [simp]: "set (insert_after f x ys) = insert x (set ys)"
  by (induction ys) auto

lemma mset_insert_after [simp]: "mset (insert_after f x ys) = add_mset x (mset ys)"
  by (induction ys) auto

lemma sorted_insert_after: "sorted (map f ys) \<Longrightarrow> sorted (map f (insert_after f x ys))"
  by (induction ys) auto

lemma insert_after_append:
  "(\<And>y. y \<in> set ys \<Longrightarrow> f y \<le> f x) \<Longrightarrow>
   insert_after f x (ys @ zs) = ys @ insert_after f x zs"
  by (induction ys) (auto simp: not_less [symmetric])

lemma insert_after_front:
  "(\<And>z. z \<in> set zs \<Longrightarrow> f x < f z) \<Longrightarrow> insert_after f x zs = x # zs"
  by (cases zs) auto

lemma hd_insort_key:
  "ys \<noteq> [] \<Longrightarrow> hd (insort_key f x ys) = (if f x \<le> f (hd ys) then x else hd ys)"
  by (cases ys) auto

lemma sort_key_Nil_iff [simp]: "sort_key f xs = [] \<longleftrightarrow> xs = []"
  by (metis length_0_conv length_sort)

lemma mset_map_distinct:
  "mset xs = mset ys \<Longrightarrow> distinct (map f xs) \<longleftrightarrow> distinct (map f ys)"
  by (metis mset_map mset_eq_imp_distinct_iff)

lemma map_remove1_inj:
  "distinct (map f xs) \<Longrightarrow> x \<in> set xs \<Longrightarrow> map f (remove1 x xs) = remove1 (f x) (map f xs)"
  by (induction xs) (auto, metis imageI)

text \<open>An array is a list that is only updated by index; a swap is a permutation.\<close>

definition array_swap :: "'a list \<Rightarrow> nat \<Rightarrow> nat \<Rightarrow> 'a list" where
  "array_swap xs i j = xs[i := xs ! j, j := xs ! i]"

lemma length_array_swap [simp]: "length (array_swap xs i j) = length xs"
  by (simp add: array_swap_def)

lemma nth_array_swap:
  "i < length xs \<Longrightarrow> j < length xs \<Longrightarrow>
   array_swap xs i j ! k = (if k = j then xs ! i else if k = i then xs ! j else xs ! k)"
  by (cases "k < length xs") (auto simp: array_swap_def nth_list_update)

lemma mset_array_swap:
  "i < length xs \<Longrightarrow> j < length xs \<Longrightarrow> mset (array_swap xs i j) = mset xs"
  by (simp add: array_swap_def mset_swap)

text \<open>Replacing one element of a list of lists.\<close>

lemma mset_concat_update:
  "i < length xss \<Longrightarrow> mset (concat (xss[i := ys])) + mset (xss ! i) = mset (concat xss) + mset ys"
proof (induction xss arbitrary: i)
  case (Cons a xss)
  show ?case
  proof (cases i)
    case (Suc j)
    with Cons.prems Cons.IH [of j] show ?thesis by (simp add: ac_simps)
  qed simp
qed simp

lemma sum_list_update_int:
  fixes f :: "'a \<Rightarrow> int"
  shows "i < length xs \<Longrightarrow> sum_list (map f (xs[i := y])) = sum_list (map f xs) - f (xs ! i) + f y"
  by (induction xs arbitrary: i) (auto split: nat.split)

end
