(* ===== verification/Event_Queue.thy ===== *)
theory Event_Queue
  imports Prelude
begin

text \<open>
  The events of \<open>common/scheduler.h\<close> and the contract that every scheduler
  queue of the simulator promises. The abstract state is the list of pending events in
  the order in which they were inserted; the next event is the first inserted among
  those with the least time (\<open>earliest\<close>). The locale \<open>event_queue\<close> names the
  operations of class \<open>Scheduler\<close> (\<open>insert\<close>, \<open>deque\<close>, \<open>head\<close>,
  \<open>cancel\<close>, \<open>lookup\<close>) and their laws; the theories \<open>List_Scheduler\<close>,
  \<open>Heap_Scheduler\<close>, \<open>Splay_Scheduler\<close> and \<open>Calendar_Scheduler\<close> interpret it.
\<close>

section \<open>Events\<close>

text \<open>
  \<open>ev_addr\<close> is the address of the object: two events are the same object when their
  addresses are equal. The links \<open>next_\<close> and \<open>prev_\<close> are the structure of the queue
  that holds the event and are modelled there. Times (\<open>double\<close> in the code) are
  real numbers.
\<close>

record event =
  ev_addr :: nat
  ev_handler :: nat
  ev_time :: real
  ev_uid :: int

definition ev_negate_uid :: "event \<Rightarrow> event" where
  "ev_negate_uid e = e\<lparr>ev_uid := - ev_uid e\<rparr>"

lemma ev_negate_uid_simps [simp]:
  "ev_addr (ev_negate_uid e) = ev_addr e" "ev_time (ev_negate_uid e) = ev_time e"
  "ev_handler (ev_negate_uid e) = ev_handler e" "ev_uid (ev_negate_uid e) = - ev_uid e"
  by (simp_all add: ev_negate_uid_def)

text \<open>An event object is in a queue at most once.\<close>

abbreviation distinct_events :: "event list \<Rightarrow> bool" where
  "distinct_events xs \<equiv> distinct (map ev_addr xs)"

lemma distinct_events_distinct: "distinct_events xs \<Longrightarrow> distinct xs"
  by (simp add: distinct_map)

lemma distinct_events_remove1:
  "distinct_events xs \<Longrightarrow> distinct_events (remove1 e xs)"
  by (metis distinct_remove1 distinct_map inj_on_subset set_remove1_subset)

lemma distinct_events_eq:
  "distinct_events xs \<Longrightarrow> a \<in> set xs \<Longrightarrow> b \<in> set xs \<Longrightarrow> ev_addr a = ev_addr b \<Longrightarrow> a = b"
  by (auto simp: distinct_map inj_on_def)

section \<open>The abstract queue: pending events in order of insertion\<close>

fun earliest :: "event list \<Rightarrow> event" where
  "earliest [] = undefined"
| "earliest [x] = x"
| "earliest (x # xs) =
     (let m = earliest xs in if ev_time x \<le> ev_time m then x else m)"

definition pending_order :: "event list \<Rightarrow> event list" where
  "pending_order xs = sort_key ev_time xs"

lemma earliest_in_set: "xs \<noteq> [] \<Longrightarrow> earliest xs \<in> set xs"
  by (induction xs rule: earliest.induct) (auto simp: Let_def)

lemma earliest_least: "x \<in> set xs \<Longrightarrow> ev_time (earliest xs) \<le> ev_time x"
  by (induction xs rule: earliest.induct) (auto simp: Let_def)

lemma earliest_fifo:
  "xs \<noteq> [] \<Longrightarrow> \<exists>us vs. xs = us @ earliest xs # vs \<and>
     (\<forall>u \<in> set us. ev_time (earliest xs) < ev_time u)"
proof (induction xs rule: earliest.induct)
  case (2 x)
  then show ?case by (intro exI [of _ "[]"]) simp
next
  case (3 x y ys)
  let ?m = "earliest (y # ys)"
  from 3 obtain us vs where uv: "y # ys = us @ ?m # vs"
    "\<forall>u \<in> set us. ev_time ?m < ev_time u" by auto
  show ?case
  proof (cases "ev_time x \<le> ev_time ?m")
    case True
    then show ?thesis by (intro exI [of _ "[]"] exI [of _ "y # ys"]) (simp add: Let_def)
  next
    case False
    with uv show ?thesis by (intro exI [of _ "x # us"] exI [of _ vs]) (auto simp: Let_def)
  qed
qed auto

lemma earliest_unique:
  "(\<And>u. u \<in> set us \<Longrightarrow> ev_time m < ev_time u) \<Longrightarrow>
   (\<And>v. v \<in> set vs \<Longrightarrow> ev_time m \<le> ev_time v) \<Longrightarrow> earliest (us @ m # vs) = m"
proof (induction us)
  case Nil
  then show ?case using earliest_in_set [of vs] by (cases vs) (force simp: Let_def)+
next
  case (Cons u us)
  then have "earliest (us @ m # vs) = m" by auto
  moreover have "earliest (u # us @ m # vs) = (let e = earliest (us @ m # vs) in
      if ev_time u \<le> ev_time e then u else e)"
    by (cases "us @ m # vs") auto
  ultimately show ?case using Cons.prems(1) [of u] by (simp add: Let_def)
qed

lemma hd_pending_order: "xs \<noteq> [] \<Longrightarrow> hd (pending_order xs) = earliest xs"
  by (induction xs rule: earliest.induct) (auto simp: pending_order_def hd_insort_key Let_def)

lemma pending_order_Nil [simp]: "pending_order xs = [] \<longleftrightarrow> xs = []"
  by (simp add: pending_order_def)

lemma set_pending_order [simp]: "set (pending_order xs) = set xs"
  by (simp add: pending_order_def)

lemma sorted_pending_order: "sorted (map ev_time (pending_order xs))"
  by (simp add: pending_order_def)

lemma pending_order_snoc:
  "pending_order (xs @ [e]) = insert_after ev_time e (pending_order xs)"
  by (simp add: pending_order_def sort_key_snoc)

lemma pending_order_remove1:
  "distinct_events xs \<Longrightarrow> pending_order (remove1 e xs) = remove1 e (pending_order xs)"
  by (simp add: pending_order_def filter_remove1_sort_key distinct_events_distinct)

lemma distinct_pending_order [simp]: "distinct_events (pending_order xs) = distinct_events xs"
proof -
  have "mset (map ev_addr (pending_order xs)) = mset (map ev_addr xs)"
    by (simp add: pending_order_def)
  then show ?thesis by (rule mset_eq_imp_distinct_iff)
qed

lemma pending_order_Cons:
  "xs \<noteq> [] \<Longrightarrow> distinct_events xs \<Longrightarrow>
   pending_order xs = earliest xs # pending_order (remove1 (earliest xs) xs)"
  by (cases "pending_order xs")
     (use hd_pending_order [of xs] in \<open>auto simp: pending_order_remove1\<close>)

lemma pending_order_deque:
  "distinct_events xs \<Longrightarrow> pending_order xs = e # q \<Longrightarrow>
   xs \<noteq> [] \<and> e = earliest xs \<and> q = pending_order (remove1 e xs)"
  by (metis list.inject list.discI pending_order_Cons pending_order_Nil)

section \<open>The interface of the scheduler queues\<close>

datatype eq_op = Insert event | Deque | Cancel event

text \<open>
  A run of operations and what each \<open>Deque\<close> returns. The operations of the queue are
  arguments, as the virtual functions of class \<open>Scheduler\<close> are.
\<close>

fun eq_run ::
  "(event \<Rightarrow> 'q \<Rightarrow> 'q) \<Rightarrow> ('q \<Rightarrow> event option \<times> 'q) \<Rightarrow> (event \<Rightarrow> 'q \<Rightarrow> 'q) \<Rightarrow>
   eq_op list \<Rightarrow> 'q \<Rightarrow> event option list" where
  "eq_run ins deq can [] q = []"
| "eq_run ins deq can (Insert e # ops) q = eq_run ins deq can ops (ins e q)"
| "eq_run ins deq can (Deque # ops) q =
     (case deq q of (r, q') \<Rightarrow> r # eq_run ins deq can ops q')"
| "eq_run ins deq can (Cancel e # ops) q = eq_run ins deq can ops (can e q)"

text \<open>The same run on the abstract queue.\<close>

fun spec_run :: "eq_op list \<Rightarrow> event list \<Rightarrow> event option list" where
  "spec_run [] xs = []"
| "spec_run (Insert e # ops) xs = spec_run ops (xs @ [e])"
| "spec_run (Deque # ops) xs =
     (if xs = [] then None # spec_run ops xs
      else Some (earliest xs) # spec_run ops (remove1 (earliest xs) xs))"
| "spec_run (Cancel e # ops) xs = spec_run ops (remove1 e xs)"

text \<open>
  What a client has to respect: an event that is in the queue is not inserted again, the
  identifiers of inserted events increase (\<open>Scheduler::schedule\<close> draws them from a
  counter), and only an event that is in the queue is cancelled (\<open>cancel\<close>: it is an
  error to call this routine when the event is not actually in the queue).
\<close>

fun valid_ops :: "eq_op list \<Rightarrow> event list \<Rightarrow> bool" where
  "valid_ops [] xs = True"
| "valid_ops (Insert e # ops) xs =
     (ev_addr e \<notin> ev_addr ` set xs \<and> 0 < ev_uid e \<and> (\<forall>x \<in> set xs. ev_uid x < ev_uid e) \<and>
      valid_ops ops (xs @ [e]))"
| "valid_ops (Deque # ops) xs =
     (if xs = [] then valid_ops ops xs else valid_ops ops (remove1 (earliest xs) xs))"
| "valid_ops (Cancel e # ops) xs = (e \<in> set xs \<and> valid_ops ops (remove1 e xs))"

fun count_inserts :: "eq_op list \<Rightarrow> nat" where
  "count_inserts [] = 0"
| "count_inserts (Insert e # ops) = Suc (count_inserts ops)"
| "count_inserts (_ # ops) = count_inserts ops"

text \<open>
  \<open>repr q xs\<close>: the queue \<open>q\<close> holds the events \<open>xs\<close>, inserted in this order.
  \<open>room q n\<close>: \<open>q\<close> can take \<open>n\<close> more insertions without a counter of its
  implementation wrapping around. \<open>adm e\<close>: \<open>e\<close> is an event that the implementation can take;
  every implementation can take events at times from 0 on.
\<close>

locale event_queue =
  fixes empty :: 'q
    and ins :: "event \<Rightarrow> 'q \<Rightarrow> 'q"
    and deq :: "'q \<Rightarrow> event option \<times> 'q"
    and front :: "'q \<Rightarrow> event option"
    and can :: "event \<Rightarrow> 'q \<Rightarrow> 'q"
    and find :: "int \<Rightarrow> 'q \<Rightarrow> event option"
    and repr :: "'q \<Rightarrow> event list \<Rightarrow> bool"
    and room :: "'q \<Rightarrow> nat \<Rightarrow> bool"
    and adm :: "event \<Rightarrow> bool"
  assumes adm_time: "0 \<le> ev_time e \<Longrightarrow> adm e"
    and repr_distinct: "repr q xs \<Longrightarrow> distinct_events xs"
    and repr_empty: "repr empty []"
    and repr_ins: "repr q xs \<Longrightarrow> room q (Suc n) \<Longrightarrow> adm e \<Longrightarrow> ev_addr e \<notin> ev_addr ` set xs \<Longrightarrow>
          (\<And>x. x \<in> set xs \<Longrightarrow> ev_uid x < ev_uid e) \<Longrightarrow> repr (ins e q) (xs @ [e])"
    and room_ins: "repr q xs \<Longrightarrow> room q (Suc n) \<Longrightarrow> room (ins e q) n"
    and deq_empty: "repr q [] \<Longrightarrow> deq q = (None, q)"
    and deq_earliest: "repr q xs \<Longrightarrow> xs \<noteq> [] \<Longrightarrow> fst (deq q) = Some (earliest xs)"
    and repr_deq: "repr q xs \<Longrightarrow> xs \<noteq> [] \<Longrightarrow>
          repr (snd (deq q)) (remove1 (earliest xs) xs)"
    and room_deq: "repr q xs \<Longrightarrow> room q n \<Longrightarrow> room (snd (deq q)) n"
    and front_deq: "repr q xs \<Longrightarrow> front q = fst (deq q)"
    and repr_can: "repr q xs \<Longrightarrow> e \<in> set xs \<Longrightarrow> 0 < ev_uid e \<Longrightarrow> repr (can e q) (remove1 e xs)"
    and room_can: "repr q xs \<Longrightarrow> room q n \<Longrightarrow> e \<in> set xs \<Longrightarrow> room (can e q) n"
    and find_Some: "repr q xs \<Longrightarrow> find u q = Some e \<Longrightarrow> e \<in> set xs \<and> ev_uid e = u"
    and find_None: "repr q xs \<Longrightarrow> find u q = None \<Longrightarrow> e \<in> set xs \<Longrightarrow> ev_uid e \<noteq> u"
begin

lemma deq_None_iff: "repr q xs \<Longrightarrow> fst (deq q) = None \<longleftrightarrow> xs = []"
  by (cases "xs = []") (auto simp: deq_empty deq_earliest)

lemma deq_least:
  "repr q xs \<Longrightarrow> fst (deq q) = Some e \<Longrightarrow> e \<in> set xs \<and> (\<forall>x \<in> set xs. ev_time e \<le> ev_time x)"
  by (cases "xs = []") (auto simp: deq_empty deq_earliest earliest_in_set earliest_least)

lemma front_None_iff: "repr q xs \<Longrightarrow> front q = None \<longleftrightarrow> xs = []"
  by (simp add: front_deq deq_None_iff)

lemma find_iff:
  "repr q xs \<Longrightarrow> (\<exists>e. find u q = Some e) \<longleftrightarrow> (\<exists>e \<in> set xs. ev_uid e = u)"
  by (cases "find u q") (auto dest: find_Some find_None)

lemma find_unique:
  "repr q xs \<Longrightarrow> distinct (map ev_uid xs) \<Longrightarrow> e \<in> set xs \<Longrightarrow> find (ev_uid e) q = Some e"
  by (metis distinct_map find_None find_Some inj_on_def not_Some_eq)

text \<open>An implementation answers every valid sequence of operations as the abstract queue.\<close>

lemma run_refines:
  "repr q xs \<Longrightarrow> room q (count_inserts ops) \<Longrightarrow> valid_ops ops xs \<Longrightarrow>
   (\<And>x. x \<in> set xs \<Longrightarrow> 0 < ev_uid x) \<Longrightarrow> (\<And>e. Insert e \<in> set ops \<Longrightarrow> adm e) \<Longrightarrow>
   eq_run ins deq can ops q = spec_run ops xs"
proof (induction ops arbitrary: q xs)
  case Nil
  show ?case by simp
next
  case (Cons oper ops)
  show ?case
  proof (cases oper)
    case (Insert e)
    then have "adm e" using Cons.prems(5) by simp
    with Insert Cons.prems(1-3) have "repr (ins e q) (xs @ [e])" "room (ins e q) (count_inserts ops)"
      by (auto intro: repr_ins room_ins)
    with Insert Cons.prems(3-5) Cons.IH [of "ins e q" "xs @ [e]"] show ?thesis by auto
  next
    case Deque
    show ?thesis
    proof (cases "xs = []")
      case True
      with Deque Cons.prems Cons.IH [of q "[]"] show ?thesis by (simp add: deq_empty)
    next
      case False
      with Deque Cons.prems Cons.IH [of "snd (deq q)" "remove1 (earliest xs) xs"]
      show ?thesis
        by (auto simp: repr_deq room_deq deq_earliest prod.case_eq_if dest: notin_set_remove1)
    qed
  next
    case (Cancel e)
    with Cons.prems Cons.IH [of "can e q" "remove1 e xs"] show ?thesis
      by (auto intro: repr_can room_can dest: notin_set_remove1)
  qed
qed

text \<open>Emptying the queue delivers the pending events by time, ties in insertion order.\<close>

lemma drain_order:
  "repr q xs \<Longrightarrow> room q 0 \<Longrightarrow> n = length xs \<Longrightarrow>
   eq_run ins deq can (replicate n Deque) q = map Some (pending_order xs)"
proof (induction n arbitrary: q xs)
  case 0
  then show ?case by simp
next
  case (Suc n)
  then have ne: "xs \<noteq> []" and dist: "distinct_events xs" by (auto simp: repr_distinct)
  have "length (remove1 (earliest xs) xs) = n"
    using Suc.prems ne by (simp add: length_remove1 earliest_in_set)
  then have "eq_run ins deq can (replicate n Deque) (snd (deq q)) =
      map Some (pending_order (remove1 (earliest xs) xs))"
    using Suc.prems ne by (intro Suc.IH) (simp_all add: repr_deq room_deq)
  with Suc.prems(1) ne dist show ?case
    by (simp add: deq_earliest pending_order_Cons prod.case_eq_if)
qed

end

end
