(* ===== verification/Scheduler.thy ===== *)
theory Scheduler
  imports Event_Queue
begin

text \<open>
  The base class \<open>Scheduler\<close> of \<open>common/scheduler.cc\<close>: \<open>schedule\<close>, \<open>dispatch\<close>
  and \<open>run\<close>. Its queue is reached through virtual functions, so the definitions take
  \<open>insert\<close>, \<open>deque\<close> and \<open>cancel\<close> as arguments. A handler is called with the clock and
  its event; it changes its own state \<open>'w\<close> (the simulated network) and calls the
  scheduler back: these calls are the list of actions it returns.
\<close>

record 'q sched =
  sc_queue :: 'q
  sc_clock :: real
  sc_halted :: bool
  sc_next_uid :: int

definition sched_new :: "'q \<Rightarrow> 'q sched" where
  "sched_new q = \<lparr>sc_queue = q, sc_clock = 0, sc_halted = False, sc_next_uid = 1\<rparr>"

datatype action =
    Act_Schedule "nat option" event real
  | Act_Cancel event
  | Act_Halt

type_synonym 'w handler = "real \<Rightarrow> event \<Rightarrow> 'w \<Rightarrow> 'w \<times> action list"

text \<open>
  A null handler, an event that is already pending (\<open>uid_ > 0\<close>) and an exhausted
  counter abort the program; a negative delay is only warned about.
\<close>

definition sched_schedule ::
  "(event \<Rightarrow> 'q \<Rightarrow> 'q) \<Rightarrow> nat option \<Rightarrow> event \<Rightarrow> real \<Rightarrow> 'q sched \<Rightarrow> (event \<times> 'q sched) res" where
  "sched_schedule ins h e delay s =
     (case h of
        None \<Rightarrow> Fail Abort
      | Some g \<Rightarrow>
          if ev_uid e > 0 then Fail Abort
          else if sc_next_uid s < 0 then Fail Abort
          else
            let e' = e\<lparr>ev_uid := sc_next_uid s, ev_handler := g, ev_time := sc_clock s + delay\<rparr>
            in Ok (e', s\<lparr>sc_next_uid := wrap_s64 (sc_next_uid s + 1), sc_queue := ins e' (sc_queue s)\<rparr>))"

fun sched_perform ::
  "(event \<Rightarrow> 'q \<Rightarrow> 'q) \<Rightarrow> (event \<Rightarrow> 'q \<Rightarrow> 'q) \<Rightarrow> action list \<Rightarrow> 'q sched \<Rightarrow> 'q sched res" where
  "sched_perform ins can [] s = Ok s"
| "sched_perform ins can (Act_Schedule h e d # acts) s =
     res_bind (sched_schedule ins h e d s) (\<lambda>(_, s'). sched_perform ins can acts s')"
| "sched_perform ins can (Act_Cancel e # acts) s =
     sched_perform ins can acts (s\<lparr>sc_queue := can e (sc_queue s)\<rparr>)"
| "sched_perform ins can (Act_Halt # acts) s =
     sched_perform ins can acts (s\<lparr>sc_halted := True\<rparr>)"

definition sched_dispatch ::
  "(event \<Rightarrow> 'q \<Rightarrow> 'q) \<Rightarrow> (event \<Rightarrow> 'q \<Rightarrow> 'q) \<Rightarrow> 'w handler \<Rightarrow> event \<Rightarrow> real \<Rightarrow>
   'w \<times> 'q sched \<Rightarrow> ('w \<times> 'q sched) res" where
  "sched_dispatch ins can hdl p t ws =
     (case ws of (w, s) \<Rightarrow>
        if t < sc_clock s then Fail Abort
        else case hdl t (ev_negate_uid p) w of (w', acts) \<Rightarrow>
          res_bind (sched_perform ins can acts (s\<lparr>sc_clock := t\<rparr>)) (\<lambda>s'. Ok (w', s')))"

text \<open>
  The main loop. It may run forever, so it takes fuel; \<open>None\<close> is "still running".
\<close>

fun sched_run ::
  "(event \<Rightarrow> 'q \<Rightarrow> 'q) \<Rightarrow> ('q \<Rightarrow> event option \<times> 'q) \<Rightarrow> (event \<Rightarrow> 'q \<Rightarrow> 'q) \<Rightarrow> 'w handler \<Rightarrow>
   nat \<Rightarrow> 'w \<times> 'q sched \<Rightarrow> ('w \<times> 'q sched) res option" where
  "sched_run ins deq can hdl 0 ws = None"
| "sched_run ins deq can hdl (Suc n) (w, s) =
     (if sc_halted s then Some (Ok (w, s))
      else case deq (sc_queue s) of
          (None, q') \<Rightarrow> Some (Ok (w, s\<lparr>sc_queue := q'\<rparr>))
        | (Some p, q') \<Rightarrow>
            (case sched_dispatch ins can hdl p (ev_time p) (w, s\<lparr>sc_queue := q'\<rparr>) of
               Inl err \<Rightarrow> Some (Fail err)
             | Inr ws' \<Rightarrow> sched_run ins deq can hdl n ws'))"

section \<open>The abstract scheduler\<close>

text \<open>The same program on the abstract queue: pending events in order of insertion.\<close>

definition abs_insert :: "event \<Rightarrow> event list \<Rightarrow> event list" where
  "abs_insert e xs = xs @ [e]"

definition abs_deque :: "event list \<Rightarrow> event option \<times> event list" where
  "abs_deque xs = (if xs = [] then (None, []) else (Some (earliest xs), remove1 (earliest xs) xs))"

definition abs_cancel :: "event \<Rightarrow> event list \<Rightarrow> event list" where
  "abs_cancel e xs = remove1 e xs"

type_synonym abs_sched = "event list sched"

text \<open>
  What the simulation has to respect: it schedules events that are not pending, with a
  handler and a delay that is not negative, less than \<open>bound\<close> of them in all, and cancels
  pending events only.
\<close>

fun acts_valid :: "int \<Rightarrow> action list \<Rightarrow> abs_sched \<Rightarrow> bool" where
  "acts_valid bound [] a = True"
| "acts_valid bound (Act_Schedule h e d # acts) a =
     (h \<noteq> None \<and> ev_uid e \<le> 0 \<and> 0 \<le> d \<and> ev_addr e \<notin> ev_addr ` set (sc_queue a) \<and>
      sc_next_uid a < bound \<and>
      (case sched_schedule abs_insert h e d a of
         Inl _ \<Rightarrow> False | Inr (_, a') \<Rightarrow> acts_valid bound acts a'))"
| "acts_valid bound (Act_Cancel e # acts) a =
     (e \<in> set (sc_queue a) \<and> acts_valid bound acts (a\<lparr>sc_queue := abs_cancel e (sc_queue a)\<rparr>))"
| "acts_valid bound (Act_Halt # acts) a = acts_valid bound acts (a\<lparr>sc_halted := True\<rparr>)"

fun run_valid :: "int \<Rightarrow> 'w handler \<Rightarrow> nat \<Rightarrow> 'w \<times> abs_sched \<Rightarrow> bool" where
  "run_valid bound hdl 0 ws = True"
| "run_valid bound hdl (Suc n) (w, a) =
     (if sc_halted a then True
      else case abs_deque (sc_queue a) of
          (None, _) \<Rightarrow> True
        | (Some p, q) \<Rightarrow>
            (let t = ev_time p; a1 = a\<lparr>sc_queue := q, sc_clock := t\<rparr> in
             case hdl t (ev_negate_uid p) w of (w', acts) \<Rightarrow>
               acts_valid bound acts a1 \<and>
               (case sched_perform abs_insert abs_cancel acts a1 of
                  Inl _ \<Rightarrow> False | Inr a2 \<Rightarrow> run_valid bound hdl n (w', a2))))"

definition sched_inv :: "int \<Rightarrow> abs_sched \<Rightarrow> bool" where
  "sched_inv bound a \<longleftrightarrow> bound < 2 ^ 63 \<and> 0 < sc_next_uid a \<and> 0 \<le> sc_clock a \<and> distinct_events (sc_queue a) \<and>
     (\<forall>x \<in> set (sc_queue a). sc_clock a \<le> ev_time x \<and> 0 < ev_uid x \<and> ev_uid x < sc_next_uid a)"

lemma sched_inv_new: "bound < 2 ^ 63 \<Longrightarrow> sched_inv bound (sched_new [])"
  by (simp add: sched_inv_def sched_new_def)

lemma sched_schedule_Ok:
  "sched_schedule ins h e d s = Ok (e', s') \<Longrightarrow>
   \<exists>g. h = Some g \<and> ev_uid e \<le> 0 \<and> 0 \<le> sc_next_uid s \<and>
     e' = e\<lparr>ev_uid := sc_next_uid s, ev_handler := g, ev_time := sc_clock s + d\<rparr> \<and>
     s' = s\<lparr>sc_next_uid := wrap_s64 (sc_next_uid s + 1), sc_queue := ins e' (sc_queue s)\<rparr>"
  by (auto simp: sched_schedule_def Let_def split: option.splits if_splits)

lemma sched_inv_schedule:
  assumes "sched_inv bound a" "sched_schedule abs_insert h e d a = Ok (e', a')"
    "0 \<le> d" "ev_addr e \<notin> ev_addr ` set (sc_queue a)" "sc_next_uid a < bound"
  shows "sched_inv bound a' \<and> sc_clock a' = sc_clock a \<and> sc_next_uid a' = sc_next_uid a + 1"
proof -
  obtain g where a': "a' = a\<lparr>sc_next_uid := wrap_s64 (sc_next_uid a + 1),
      sc_queue := sc_queue a @ [e\<lparr>ev_uid := sc_next_uid a, ev_handler := g, ev_time := sc_clock a + d\<rparr>]\<rparr>"
    using sched_schedule_Ok [OF assms(2)] by (auto simp: abs_insert_def)
  have "wrap_s64 (sc_next_uid a + 1) = sc_next_uid a + 1"
    using assms by (intro wrap_s64_id) (auto simp: sched_inv_def)
  with assms a' show ?thesis by (auto simp: sched_inv_def)
qed

lemma sched_inv_cancel:
  "sched_inv bound a \<Longrightarrow> sched_inv bound (a\<lparr>sc_queue := abs_cancel e (sc_queue a)\<rparr>)"
  by (auto simp: sched_inv_def abs_cancel_def distinct_events_remove1 dest: notin_set_remove1)

lemma abs_deque_Some:
  "abs_deque xs = (Some p, q) \<Longrightarrow> p \<in> set xs \<and> q = remove1 p xs \<and> (\<forall>x \<in> set xs. ev_time p \<le> ev_time x)"
  by (auto simp: abs_deque_def earliest_in_set earliest_least split: if_splits)

lemma sched_inv_deque:
  assumes "sched_inv bound a" "abs_deque (sc_queue a) = (Some p, q)"
  shows "sched_inv bound (a\<lparr>sc_queue := q, sc_clock := ev_time p\<rparr>) \<and> sc_clock a \<le> ev_time p"
  using assms abs_deque_Some [OF assms(2)]
  by (auto simp: sched_inv_def distinct_events_remove1 dest: notin_set_remove1)

lemma acts_valid_perform:
  "sched_inv bound a \<Longrightarrow> acts_valid bound acts a \<Longrightarrow>
   \<exists>a'. sched_perform abs_insert abs_cancel acts a = Ok a' \<and> sched_inv bound a' \<and> sc_clock a' = sc_clock a"
proof (induction bound acts a rule: acts_valid.induct)
  case (2 bound h e d acts a)
  then obtain e' a' where s: "sched_schedule abs_insert h e d a = Ok (e', a')" "acts_valid bound acts a'"
    by (auto split: sum.splits)
  with 2 sched_inv_schedule [of bound a h e d e' a'] show ?case by auto
next
  case (3 bound e acts a)
  then show ?case using sched_inv_cancel [of bound a e] by auto
next
  case (4 bound acts a)
  then show ?case by (auto simp: sched_inv_def)
qed simp

section \<open>Every scheduler queue runs the simulation as the abstract one\<close>

definition sched_rel ::
  "('q \<Rightarrow> event list \<Rightarrow> bool) \<Rightarrow> ('q \<Rightarrow> nat \<Rightarrow> bool) \<Rightarrow> int \<Rightarrow> 'q sched \<Rightarrow> abs_sched \<Rightarrow> bool" where
  "sched_rel repr room bound s a \<longleftrightarrow> repr (sc_queue s) (sc_queue a) \<and> sc_clock s = sc_clock a \<and>
     sc_halted s = sc_halted a \<and> sc_next_uid s = sc_next_uid a \<and>
     room (sc_queue s) (nat (bound - sc_next_uid a))"

text \<open>What a run shows of the simulation: still running, aborted, or its final state.\<close>

definition run_outcome :: "('w \<times> 'q sched) res option \<Rightarrow> ('w \<times> real \<times> bool \<times> int) res option" where
  "run_outcome r = map_option (map_sum id (\<lambda>(w, s). (w, sc_clock s, sc_halted s, sc_next_uid s))) r"

context event_queue
begin

abbreviation "rel \<equiv> sched_rel repr room"

lemma sched_rel_new: "room empty (nat (bound - 1)) \<Longrightarrow> rel bound (sched_new empty) (sched_new [])"
  by (simp add: sched_rel_def sched_new_def repr_empty)

lemma schedule_sim:
  assumes R: "rel bound s a" and inv: "sched_inv bound a"
    and a': "sched_schedule abs_insert h e d a = Ok (e', a')"
    and d: "0 \<le> d" and ok: "ev_addr e \<notin> ev_addr ` set (sc_queue a)" "sc_next_uid a < bound"
  shows "\<exists>s'. sched_schedule ins h e d s = Ok (e', s') \<and> rel bound s' a'"
proof -
  let ?n = "nat (bound - (sc_next_uid a + 1))"
  have n: "nat (bound - sc_next_uid a) = Suc ?n" using ok(2) by simp
  have w: "wrap_s64 (sc_next_uid a + 1) = sc_next_uid a + 1"
    using inv ok(2) by (intro wrap_s64_id) (auto simp: sched_inv_def)
  obtain g where g: "h = Some g" "ev_uid e \<le> 0"
    "e' = e\<lparr>ev_uid := sc_next_uid a, ev_handler := g, ev_time := sc_clock a + d\<rparr>"
    "a' = a\<lparr>sc_next_uid := sc_next_uid a + 1, sc_queue := sc_queue a @ [e']\<rparr>"
    using sched_schedule_Ok [OF a'] w by (auto simp: abs_insert_def)
  have r: "repr (sc_queue s) (sc_queue a)" "room (sc_queue s) (Suc ?n)"
    using R n by (simp_all add: sched_rel_def)
  have "0 \<le> ev_time e'" using inv d g(3) by (simp add: sched_inv_def)
  then have "repr (ins e' (sc_queue s)) (sc_queue a @ [e'])"
    using r ok(1) g(3) inv by (intro repr_ins adm_time) (auto simp: sched_inv_def)
  moreover have "room (ins e' (sc_queue s)) ?n" using r by (rule room_ins)
  ultimately have "rel bound (s\<lparr>sc_next_uid := sc_next_uid a + 1, sc_queue := ins e' (sc_queue s)\<rparr>) a'"
    using R g by (simp add: sched_rel_def)
  moreover have "sched_schedule ins h e d s =
      Ok (e', s\<lparr>sc_next_uid := sc_next_uid a + 1, sc_queue := ins e' (sc_queue s)\<rparr>)"
    using R g w inv by (simp add: sched_rel_def sched_schedule_def sched_inv_def Let_def)
  ultimately show ?thesis by blast
qed

lemma cancel_sim:
  "rel bound s a \<Longrightarrow> sched_inv bound a \<Longrightarrow> e \<in> set (sc_queue a) \<Longrightarrow>
   rel bound (s\<lparr>sc_queue := can e (sc_queue s)\<rparr>) (a\<lparr>sc_queue := abs_cancel e (sc_queue a)\<rparr>)"
  by (auto simp: sched_rel_def sched_inv_def abs_cancel_def intro: repr_can room_can)

lemma perform_sim:
  "rel bound s a \<Longrightarrow> sched_inv bound a \<Longrightarrow> acts_valid bound acts a \<Longrightarrow>
   sched_perform abs_insert abs_cancel acts a = Ok a' \<Longrightarrow>
   \<exists>s'. sched_perform ins can acts s = Ok s' \<and> rel bound s' a'"
proof (induction bound acts a arbitrary: s a' rule: acts_valid.induct)
  case (2 bound h e d acts a)
  then obtain e1 a1 where a1: "sched_schedule abs_insert h e d a = Ok (e1, a1)" "acts_valid bound acts a1"
    "sched_perform abs_insert abs_cancel acts a1 = Ok a'" by (auto split: sum.splits)
  then obtain s1 where s1: "sched_schedule ins h e d s = Ok (e1, s1)" "rel bound s1 a1"
    using schedule_sim [OF 2(2,3) a1(1)] 2(4) by auto
  have "sched_inv bound a1" using sched_inv_schedule [OF 2(3) a1(1)] 2(4) by auto
  with 2(1) [OF a1(1) refl s1(2) _ a1(2,3)] s1 show ?case by auto
next
  case (3 bound e acts a)
  then show ?case using sched_inv_cancel [of bound a e] cancel_sim [of bound s a e] by simp
next
  case (4 bound acts a)
  then show ?case by (simp add: sched_rel_def sched_inv_def)
qed simp

text \<open>
  The simulation: a run on this queue and the run on the abstract queue return together,
  with the same network state, clock and pending events, and no run aborts.
\<close>

definition run_rel :: "int \<Rightarrow> real \<Rightarrow> ('w \<times> 'q sched) res option \<Rightarrow> ('w \<times> abs_sched) res option \<Rightarrow> bool" where
  "run_rel bound t0 r r' \<longleftrightarrow> (r = None \<and> r' = None) \<or>
     (\<exists>w s a. r = Some (Ok (w, s)) \<and> r' = Some (Ok (w, a)) \<and> rel bound s a \<and>
        sched_inv bound a \<and> t0 \<le> sc_clock a)"

lemma run_rel_outcome: "run_rel bound t0 r r' \<Longrightarrow> run_outcome r = run_outcome r'"
  by (auto simp: run_rel_def run_outcome_def sched_rel_def)

lemma run_rel_safe: "run_rel bound t0 r r' \<Longrightarrow> r \<noteq> Some (Fail err)"
  by (auto simp: run_rel_def)

lemma run_rel_mono: "run_rel bound t r r' \<Longrightarrow> t0 \<le> t \<Longrightarrow> run_rel bound t0 r r'"
  by (auto simp: run_rel_def)

lemma run_sim:
  "rel bound s a \<Longrightarrow> sched_inv bound a \<Longrightarrow> run_valid bound hdl n (w, a) \<Longrightarrow>
   run_rel bound (sc_clock a) (sched_run ins deq can hdl n (w, s))
     (sched_run abs_insert abs_deque abs_cancel hdl n (w, a))"
proof (induction n arbitrary: w s a)
  case 0
  then show ?case by (simp add: run_rel_def)
next
  case (Suc n)
  note R = Suc.prems(1) and inv = Suc.prems(2)
  have q: "repr (sc_queue s) (sc_queue a)" "sc_halted s = sc_halted a" "sc_clock s = sc_clock a"
    using R by (simp_all add: sched_rel_def)
  show ?case
  proof (cases "sc_halted a")
    case True
    with q R inv show ?thesis by (simp add: run_rel_def)
  next
    case run: False
    show ?thesis
    proof (cases "sc_queue a = []")
      case True
      with q deq_empty [of "sc_queue s"] R inv run show ?thesis
        by (simp add: run_rel_def abs_deque_def sched_rel_def sched_inv_def)
    next
      case False
      let ?p = "earliest (sc_queue a)"
      let ?qa = "remove1 ?p (sc_queue a)"
      have d: "abs_deque (sc_queue a) = (Some ?p, ?qa)" using False by (simp add: abs_deque_def)
      obtain q' where dc: "deq (sc_queue s) = (Some ?p, q')"
        using deq_earliest [OF q(1) False] by (metis prod.collapse)
      let ?a1 = "a\<lparr>sc_queue := ?qa, sc_clock := ev_time ?p\<rparr>"
      let ?s1 = "s\<lparr>sc_queue := q', sc_clock := ev_time ?p\<rparr>"
      have inv1: "sched_inv bound ?a1" "sc_clock a \<le> ev_time ?p"
        using sched_inv_deque [OF inv d] by auto
      have rel1: "rel bound ?s1 ?a1"
        using R repr_deq [OF q(1) False] room_deq [OF q(1)] dc by (simp add: sched_rel_def)
      obtain w' acts where h: "hdl (ev_time ?p) (ev_negate_uid ?p) w = (w', acts)" by fastforce
      have va: "acts_valid bound acts ?a1" using Suc.prems(3) run d h by (simp add: Let_def)
      obtain a2 where a2: "sched_perform abs_insert abs_cancel acts ?a1 = Ok a2" "sched_inv bound a2"
        "sc_clock a2 = ev_time ?p"
        using acts_valid_perform [OF inv1(1) va] by auto
      obtain s2 where s2: "sched_perform ins can acts ?s1 = Ok s2" "rel bound s2 a2"
        using perform_sim [OF rel1 inv1(1) va a2(1)] by blast
      have "run_valid bound hdl n (w', a2)" using Suc.prems(3) run d h a2 by (simp add: Let_def)
      from run_rel_mono [OF Suc.IH [OF s2(2) a2(2) this]] inv1(2) a2(3)
      have "run_rel bound (sc_clock a) (sched_run ins deq can hdl n (w', s2))
        (sched_run abs_insert abs_deque abs_cancel hdl n (w', a2))" by simp
      with run q d dc h a2 s2 inv1(2) show ?thesis
        by (simp add: sched_dispatch_def not_less [symmetric])
    qed
  qed
qed

lemma run_refines_abs:
  assumes "room empty (nat (bound - 1))" "bound < 2 ^ 63"
    and "acts_valid bound init (sched_new [])"
    and "sched_perform abs_insert abs_cancel init (sched_new []) = Ok a"
    and "run_valid bound hdl n (w, a)"
  shows "\<exists>s. sched_perform ins can init (sched_new empty) = Ok s \<and>
    run_rel bound 0 (sched_run ins deq can hdl n (w, s)) (sched_run abs_insert abs_deque abs_cancel hdl n (w, a))"
proof -
  note inv0 = sched_inv_new [OF assms(2)] and rel0 = sched_rel_new [OF assms(1)]
  obtain s where s: "sched_perform ins can init (sched_new empty) = Ok s" "rel bound s a"
    using perform_sim [OF rel0 inv0 assms(3,4)] by blast
  have "sched_inv bound a" "sc_clock a = 0"
    using acts_valid_perform [OF inv0 assms(3)] assms(4) by (auto simp: sched_new_def)
  with run_sim [OF s(2) _ assms(5)] s show ?thesis by auto
qed

end

end
