(* ===== verification/Timer.thy ===== *)
theory Timer
  imports Scheduler
begin

text \<open>
  Class \<open>TimerHandler\<close> of \<open>common/timer-handler.h\<close> and \<open>common/timer-handler.cc\<close>: a
  timer that owns one event and is idle, pending or being handled. The scheduler it uses
  is any queue with \<open>insert\<close> and \<open>cancel\<close>; \<open>expire\<close>, which every timer of the simulator
  fills in, is an argument. The member \<open>event_\<close> and the event that is dispatched to
  \<open>handle\<close> are one object.
\<close>

datatype timer_status = TIMER_IDLE | TIMER_PENDING | TIMER_HANDLING

record timer =
  tm_status :: timer_status
  tm_event :: event
  tm_this :: nat

definition timer_new :: "nat \<Rightarrow> nat \<Rightarrow> timer" where
  "timer_new this addr = \<lparr>tm_status = TIMER_IDLE,
     tm_event = \<lparr>ev_addr = addr, ev_handler = 0, ev_time = 0, ev_uid = 0\<rparr>, tm_this = this\<rparr>"

definition timer_sched0 ::
  "(event \<Rightarrow> 'q \<Rightarrow> 'q) \<Rightarrow> real \<Rightarrow> timer \<times> 'q sched \<Rightarrow> (timer \<times> 'q sched) res" where
  "timer_sched0 ins delay ts =
     (case ts of (tm, s) \<Rightarrow>
        res_bind (sched_schedule ins (Some (tm_this tm)) (tm_event tm) delay s)
          (\<lambda>(e, s'). Ok (tm\<lparr>tm_event := e\<rparr>, s')))"

definition timer_cancel0 ::
  "(event \<Rightarrow> 'q \<Rightarrow> 'q) \<Rightarrow> timer \<times> 'q sched \<Rightarrow> timer \<times> 'q sched" where
  "timer_cancel0 can ts =
     (case ts of (tm, s) \<Rightarrow>
        let e = tm_event tm in
        (tm\<lparr>tm_event := if ev_uid e \<le> 0 then e else ev_negate_uid e\<rparr>,
         s\<lparr>sc_queue := can e (sc_queue s)\<rparr>))"

definition timer_set_status :: "timer_status \<Rightarrow> timer \<times> 'q sched \<Rightarrow> timer \<times> 'q sched" where
  "timer_set_status st ts = (case ts of (tm, s) \<Rightarrow> (tm\<lparr>tm_status := st\<rparr>, s))"

definition timer_cancel ::
  "(event \<Rightarrow> 'q \<Rightarrow> 'q) \<Rightarrow> timer \<times> 'q sched \<Rightarrow> (timer \<times> 'q sched) res" where
  "timer_cancel can ts =
     (if tm_status (fst ts) \<noteq> TIMER_PENDING then Fail Abort
      else Ok (timer_set_status TIMER_IDLE (timer_cancel0 can ts)))"

definition timer_force_cancel ::
  "(event \<Rightarrow> 'q \<Rightarrow> 'q) \<Rightarrow> timer \<times> 'q sched \<Rightarrow> timer \<times> 'q sched" where
  "timer_force_cancel can ts =
     (if tm_status (fst ts) = TIMER_PENDING then timer_set_status TIMER_IDLE (timer_cancel0 can ts)
      else ts)"

definition timer_sched ::
  "(event \<Rightarrow> 'q \<Rightarrow> 'q) \<Rightarrow> real \<Rightarrow> timer \<times> 'q sched \<Rightarrow> (timer \<times> 'q sched) res" where
  "timer_sched ins delay ts =
     (if tm_status (fst ts) \<noteq> TIMER_IDLE then Fail Abort
      else res_bind (timer_sched0 ins delay ts) (\<lambda>ts'. Ok (timer_set_status TIMER_PENDING ts')))"

definition timer_resched ::
  "(event \<Rightarrow> 'q \<Rightarrow> 'q) \<Rightarrow> (event \<Rightarrow> 'q \<Rightarrow> 'q) \<Rightarrow> real \<Rightarrow> timer \<times> 'q sched \<Rightarrow>
   (timer \<times> 'q sched) res" where
  "timer_resched ins can delay ts =
     (let ts1 = (if tm_status (fst ts) = TIMER_PENDING then timer_cancel0 can ts else ts)
      in res_bind (timer_sched0 ins delay ts1) (\<lambda>ts'. Ok (timer_set_status TIMER_PENDING ts')))"

definition timer_handle ::
  "(event \<Rightarrow> timer \<times> 'q sched \<Rightarrow> (timer \<times> 'q sched) res) \<Rightarrow> event \<Rightarrow> timer \<times> 'q sched \<Rightarrow>
   (timer \<times> 'q sched) res" where
  "timer_handle expire e ts =
     (if tm_status (fst ts) \<noteq> TIMER_PENDING then Fail Abort
      else res_bind (expire e ((fst ts)\<lparr>tm_status := TIMER_HANDLING, tm_event := e\<rparr>, snd ts))
        (\<lambda>ts'. Ok (if tm_status (fst ts') = TIMER_HANDLING
                   then timer_set_status TIMER_IDLE ts' else ts')))"

lemmas timer_defs = timer_sched0_def timer_cancel0_def timer_set_status_def timer_cancel_def
  timer_force_cancel_def timer_sched_def timer_resched_def timer_handle_def

section \<open>A timer is pending exactly when its event is in the queue\<close>

definition timer_inv ::
  "('q \<Rightarrow> event list \<Rightarrow> bool) \<Rightarrow> timer \<Rightarrow> 'q sched \<Rightarrow> event list \<Rightarrow> bool" where
  "timer_inv repr tm s xs \<longleftrightarrow> repr (sc_queue s) xs \<and> 0 < sc_next_uid s \<and>
     (\<forall>x \<in> set xs. 0 < ev_uid x \<and> ev_uid x < sc_next_uid s) \<and>
     (if tm_status tm = TIMER_PENDING then tm_event tm \<in> set xs
      else ev_uid (tm_event tm) \<le> 0 \<and> ev_addr (tm_event tm) \<notin> ev_addr ` set xs)"

definition timer_armed :: "timer \<Rightarrow> 'q sched \<Rightarrow> real \<Rightarrow> event" where
  "timer_armed tm s delay = (tm_event tm)\<lparr>ev_uid := sc_next_uid s, ev_handler := tm_this tm,
     ev_time := sc_clock s + delay\<rparr>"

lemma remove1_addr_notin:
  "distinct_events xs \<Longrightarrow> e \<in> set xs \<Longrightarrow> ev_addr e \<notin> ev_addr ` set (remove1 e xs)"
  by (induction xs) (auto dest: notin_set_remove1, metis imageI)

lemma timer_inv_idle:
  "timer_inv repr tm s xs \<Longrightarrow> tm_status tm \<noteq> TIMER_PENDING \<Longrightarrow>
   timer_inv repr (tm\<lparr>tm_status := TIMER_IDLE\<rparr>) s xs"
  by (simp add: timer_inv_def)

context event_queue
begin

lemma timer_sched0_ok:
  assumes inv: "timer_inv repr (tm\<lparr>tm_status := TIMER_IDLE\<rparr>) s xs"
    and room: "room (sc_queue s) (Suc n)" and uid: "sc_next_uid s < 2 ^ 63 - 1"
    and adm: "adm (timer_armed tm s d)"
  obtains s' where
    "timer_sched0 ins d (tm, s) = Ok (tm\<lparr>tm_event := timer_armed tm s d\<rparr>, s')"
    "timer_inv repr (tm\<lparr>tm_event := timer_armed tm s d, tm_status := TIMER_PENDING\<rparr>) s'
       (xs @ [timer_armed tm s d])"
    "sc_clock s' = sc_clock s" "sc_halted s' = sc_halted s" "room (sc_queue s') n"
proof -
  let ?e = "timer_armed tm s d"
  let ?s = "s\<lparr>sc_next_uid := sc_next_uid s + 1, sc_queue := ins ?e (sc_queue s)\<rparr>"
  have r: "repr (sc_queue s) xs" "ev_addr (tm_event tm) \<notin> ev_addr ` set xs"
    "\<And>x. x \<in> set xs \<Longrightarrow> ev_uid x < sc_next_uid s" "0 < sc_next_uid s"
    using inv by (auto simp: timer_inv_def)
  have "repr (ins ?e (sc_queue s)) (xs @ [?e])"
    using r room adm by (intro repr_ins) (auto simp: timer_armed_def)
  moreover have "room (ins ?e (sc_queue s)) n" using r(1) room by (rule room_ins)
  moreover have "wrap_s64 (sc_next_uid s + 1) = sc_next_uid s + 1"
    using r uid by (intro wrap_s64_id) auto
  moreover have "\<forall>x \<in> set xs. ev_uid x \<le> sc_next_uid s" using r(3) by (simp add: less_imp_le)
  ultimately show ?thesis
    using that [of ?s] inv
    by (auto simp: timer_inv_def timer_sched0_def sched_schedule_def timer_armed_def Let_def)
qed

lemma timer_cancel0_ok:
  assumes inv: "timer_inv repr tm s xs" and st: "tm_status tm = TIMER_PENDING"
    and room: "room (sc_queue s) n"
  shows "\<exists>tm' s'. timer_cancel0 can (tm, s) = (tm', s') \<and> sc_clock s' = sc_clock s \<and>
    tm_event tm' = ev_negate_uid (tm_event tm) \<and> tm_this tm' = tm_this tm \<and>
    room (sc_queue s') n \<and> sc_next_uid s' = sc_next_uid s \<and> sc_halted s' = sc_halted s \<and>
    timer_inv repr (tm'\<lparr>tm_status := TIMER_IDLE\<rparr>) s' (remove1 (tm_event tm) xs)"
proof -
  let ?e = "tm_event tm"
  have r: "repr (sc_queue s) xs" "?e \<in> set xs" "0 < ev_uid ?e" "distinct_events xs"
    using inv st repr_distinct by (auto simp: timer_inv_def)
  have "repr (can ?e (sc_queue s)) (remove1 ?e xs)" using r by (intro repr_can)
  moreover have "room (can ?e (sc_queue s)) n" using r room by (intro room_can)
  ultimately show ?thesis
    using inv st r remove1_addr_notin [OF r(4,2)]
    by (auto simp: timer_cancel0_def timer_inv_def Let_def dest: notin_set_remove1)
qed

lemma timer_sched_pending:
  assumes "timer_inv repr tm s xs" "tm_status tm = TIMER_IDLE"
    and "room (sc_queue s) (Suc n)" "sc_next_uid s < 2 ^ 63 - 1" "adm (timer_armed tm s d)"
  shows "\<exists>tm' s'. timer_sched ins d (tm, s) = Ok (tm', s') \<and> tm_status tm' = TIMER_PENDING \<and>
    tm_event tm' = timer_armed tm s d \<and> timer_inv repr tm' s' (xs @ [tm_event tm'])"
proof -
  have "timer_inv repr (tm\<lparr>tm_status := TIMER_IDLE\<rparr>) s xs"
    using assms(1,2) by (intro timer_inv_idle) simp_all
  from timer_sched0_ok [OF this assms(3-5)] obtain s' where
    "timer_sched0 ins d (tm, s) = Ok (tm\<lparr>tm_event := timer_armed tm s d\<rparr>, s')"
    "timer_inv repr (tm\<lparr>tm_event := timer_armed tm s d, tm_status := TIMER_PENDING\<rparr>) s'
       (xs @ [timer_armed tm s d])" .
  then show ?thesis
    using assms(2) by (auto simp: timer_sched_def timer_set_status_def)
qed

lemma timer_resched_pending:
  assumes inv: "timer_inv repr tm s xs"
    and room: "room (sc_queue s) (Suc n)" and uid: "sc_next_uid s < 2 ^ 63 - 1"
    and adm: "adm (timer_armed tm s d)"
  shows "\<exists>tm' s'. timer_resched ins can d (tm, s) = Ok (tm', s') \<and> tm_status tm' = TIMER_PENDING \<and>
    tm_event tm' = timer_armed tm s d \<and>
    timer_inv repr tm' s' (remove1 (tm_event tm) xs @ [tm_event tm']) \<and> room (sc_queue s') n"
proof (cases "tm_status tm = TIMER_PENDING")
  case True
  from timer_cancel0_ok [OF inv True room] obtain tm1 s1 where
    c: "timer_cancel0 can (tm, s) = (tm1, s1)" "sc_clock s1 = sc_clock s"
      "tm_event tm1 = ev_negate_uid (tm_event tm)" "tm_this tm1 = tm_this tm"
      "room (sc_queue s1) (Suc n)" "sc_next_uid s1 = sc_next_uid s"
      "timer_inv repr (tm1\<lparr>tm_status := TIMER_IDLE\<rparr>) s1 (remove1 (tm_event tm) xs)"
    by blast
  have a: "timer_armed tm1 s1 d = timer_armed tm s d"
    using c by (simp add: timer_armed_def ev_negate_uid_def)
  have uid1: "sc_next_uid s1 < 2 ^ 63 - 1" using c(6) uid by simp
  from timer_sched0_ok [OF c(7,5) uid1, of d, unfolded a, OF adm] obtain s' where
    "timer_sched0 ins d (tm1, s1) = Ok (tm1\<lparr>tm_event := timer_armed tm s d\<rparr>, s')"
    "timer_inv repr (tm1\<lparr>tm_event := timer_armed tm s d, tm_status := TIMER_PENDING\<rparr>) s'
       (remove1 (tm_event tm) xs @ [timer_armed tm s d])" "room (sc_queue s') n" .
  then show ?thesis
    using True c(1) by (auto simp: timer_resched_def timer_set_status_def)
next
  case False
  then have "remove1 (tm_event tm) xs = xs"
    using inv by (intro remove1_idem) (auto simp: timer_inv_def)
  moreover from timer_sched0_ok [OF timer_inv_idle [OF inv False] room uid adm] obtain s' where
    "timer_sched0 ins d (tm, s) = Ok (tm\<lparr>tm_event := timer_armed tm s d\<rparr>, s')"
    "timer_inv repr (tm\<lparr>tm_event := timer_armed tm s d, tm_status := TIMER_PENDING\<rparr>) s'
       (xs @ [timer_armed tm s d])" "room (sc_queue s') n" .
  ultimately show ?thesis using False
    by (auto simp: timer_resched_def timer_set_status_def)
qed

lemma timer_cancel_idle:
  assumes "timer_inv repr tm s xs" "tm_status tm = TIMER_PENDING" "room (sc_queue s) n"
  shows "\<exists>tm' s'. timer_cancel can (tm, s) = Ok (tm', s') \<and> tm_status tm' = TIMER_IDLE \<and>
    timer_inv repr tm' s' (remove1 (tm_event tm) xs)"
  using timer_cancel0_ok [OF assms] assms(2)
  by (auto simp: timer_cancel_def timer_set_status_def)

lemma timer_force_cancel_not_pending:
  assumes "timer_inv repr tm s xs" "room (sc_queue s) n"
  shows "\<exists>tm' s' xs'. timer_force_cancel can (tm, s) = (tm', s') \<and> tm_status tm' \<noteq> TIMER_PENDING \<and>
    timer_inv repr tm' s' xs'"
  using timer_cancel0_ok [OF assms(1) _ assms(2)] assms(1)
  by (cases "tm_status tm = TIMER_PENDING")
     (fastforce simp: timer_force_cancel_def timer_set_status_def)+

text \<open>
  A timer event that is dispatched finds its timer pending, and leaves it idle unless
  \<open>expire\<close> set it again.
\<close>

lemma timer_dispatch_inv:
  assumes "timer_inv repr tm s xs" "tm_status tm = TIMER_PENDING" "tm_event tm = earliest xs"
  shows "timer_inv repr (tm\<lparr>tm_status := TIMER_HANDLING, tm_event := ev_negate_uid (tm_event tm)\<rparr>)
    (s\<lparr>sc_queue := snd (deq (sc_queue s)), sc_clock := t\<rparr>) (remove1 (tm_event tm) xs)"
proof -
  have r: "repr (sc_queue s) xs" "tm_event tm \<in> set xs"
    using assms(1,2) by (simp_all add: timer_inv_def)
  then have "xs \<noteq> []" by auto
  with repr_deq [OF r(1)] assms(3) have "repr (snd (deq (sc_queue s))) (remove1 (tm_event tm) xs)"
    by simp
  with assms(1,2) remove1_addr_notin [OF repr_distinct [OF r(1)] r(2)] r(2) show ?thesis
    by (auto simp: timer_inv_def dest: notin_set_remove1)
qed

end

lemma timer_handle_idle:
  assumes "tm_status tm = TIMER_PENDING"
    and "expire e (tm\<lparr>tm_status := TIMER_HANDLING, tm_event := e\<rparr>, s) = Ok (tm', s')"
  shows "\<exists>tm''. timer_handle expire e (tm, s) = Ok (tm'', s') \<and> tm_status tm'' \<noteq> TIMER_HANDLING \<and>
    (tm_status tm' \<noteq> TIMER_HANDLING \<longrightarrow> tm'' = tm')"
  using assms by (auto simp: timer_handle_def timer_set_status_def)

lemma timer_misuse_aborts:
  "tm_status (fst ts) \<noteq> TIMER_IDLE \<Longrightarrow> timer_sched ins d ts = Fail Abort"
  "tm_status (fst ts) \<noteq> TIMER_PENDING \<Longrightarrow> timer_cancel can ts = Fail Abort"
  "tm_status (fst ts) \<noteq> TIMER_PENDING \<Longrightarrow> timer_handle expire e ts = Fail Abort"
  by (simp_all add: timer_defs)

end
