(* ===== verification/List_Scheduler.thy ===== *)
theory List_Scheduler
  imports Timer
begin

text \<open>
  Class \<open>ListScheduler\<close> of \<open>common/scheduler.h\<close>: the queue is a singly linked
  list in order of time, here the list of its events from \<open>queue_\<close> on. The loops walk
  the links by pointer to pointer, so inserting and unlinking are recursions on the list.
\<close>

fun ls_insert :: "event \<Rightarrow> event list \<Rightarrow> event list" where
  "ls_insert e [] = [e]"
| "ls_insert e (p # ps) =
     (if ev_time e < ev_time p then e # p # ps else p # ls_insert e ps)"

fun ls_unlink :: "event \<Rightarrow> event list \<Rightarrow> event list res" where
  "ls_unlink e [] = Fail Abort"
| "ls_unlink e (p # ps) =
     (if ev_addr p = ev_addr e then Ok ps
      else res_bind (ls_unlink e ps) (\<lambda>qs. Ok (p # qs)))"

text \<open>\<open>cancel\<close> returns the queue and the event object, whose \<open>uid_\<close> it negates.\<close>

definition ls_cancel :: "event \<Rightarrow> event list \<Rightarrow> (event list \<times> event) res" where
  "ls_cancel e q =
     (if ev_uid e \<le> 0 then Ok (q, e)
      else res_bind (ls_unlink e q) (\<lambda>q'. Ok (q', ev_negate_uid e)))"

fun ls_lookup :: "int \<Rightarrow> event list \<Rightarrow> event option" where
  "ls_lookup u [] = None"
| "ls_lookup u (p # ps) = (if ev_uid p = u then Some p else ls_lookup u ps)"

definition ls_deque :: "event list \<Rightarrow> event option \<times> event list" where
  "ls_deque q = (case q of [] \<Rightarrow> (None, []) | e # q' \<Rightarrow> (Some e, q'))"

definition ls_head :: "event list \<Rightarrow> event option" where
  "ls_head q = (case q of [] \<Rightarrow> None | e # q' \<Rightarrow> Some e)"

section \<open>Correctness\<close>

lemma ls_insert_after: "ls_insert e q = insert_after ev_time e q"
  by (induction q) auto

lemma ls_unlink_present:
  "distinct_events q \<Longrightarrow> e \<in> set q \<Longrightarrow> ls_unlink e q = Ok (remove1 e q)"
  by (induction q) auto

lemma ls_unlink_absent: "ev_addr e \<notin> ev_addr ` set q \<Longrightarrow> ls_unlink e q = Fail Abort"
  by (induction q) auto

lemma ls_lookup_Some: "ls_lookup u q = Some e \<Longrightarrow> e \<in> set q \<and> ev_uid e = u"
  by (induction q) (auto split: if_splits)

lemma ls_lookup_None: "ls_lookup u q = None \<longleftrightarrow> (\<forall>e \<in> set q. ev_uid e \<noteq> u)"
  by (induction q) auto

text \<open>The queue after a cancellation that finds its event.\<close>

definition ls_can :: "event \<Rightarrow> event list \<Rightarrow> event list" where
  "ls_can e q = (case ls_cancel e q of Inr (q', _) \<Rightarrow> q' | Inl _ \<Rightarrow> q)"

lemma ls_can_present:
  "distinct_events q \<Longrightarrow> e \<in> set q \<Longrightarrow> 0 < ev_uid e \<Longrightarrow> ls_can e q = remove1 e q"
  by (simp add: ls_can_def ls_cancel_def ls_unlink_present)

definition ls_repr :: "event list \<Rightarrow> event list \<Rightarrow> bool" where
  "ls_repr q xs \<longleftrightarrow> distinct_events xs \<and> q = pending_order xs"

lemma ls_repr_insert:
  "ls_repr q xs \<Longrightarrow> ev_addr e \<notin> ev_addr ` set xs \<Longrightarrow> ls_repr (ls_insert e q) (xs @ [e])"
  by (simp add: ls_repr_def ls_insert_after pending_order_snoc)

lemma ls_deque_repr:
  "ls_repr q xs \<Longrightarrow> xs \<noteq> [] \<Longrightarrow>
   fst (ls_deque q) = Some (earliest xs) \<and> ls_repr (snd (ls_deque q)) (remove1 (earliest xs) xs)"
  by (simp add: ls_repr_def ls_deque_def pending_order_Cons distinct_events_remove1)

lemma ls_repr_cancel:
  "ls_repr q xs \<Longrightarrow> e \<in> set xs \<Longrightarrow> 0 < ev_uid e \<Longrightarrow> ls_repr (ls_can e q) (remove1 e xs)"
  by (simp add: ls_repr_def ls_can_present pending_order_remove1 distinct_events_remove1)

interpretation lsq: event_queue "[]" ls_insert ls_deque ls_head ls_can ls_lookup ls_repr
  "\<lambda>_ _. True" "\<lambda>_. True"
proof unfold_locales
  show "ls_repr q xs \<Longrightarrow> ls_lookup u q = Some e \<Longrightarrow> e \<in> set xs \<and> ev_uid e = u" for q xs u e
    by (auto simp: ls_repr_def dest: ls_lookup_Some)
  show "ls_repr q xs \<Longrightarrow> ls_lookup u q = None \<Longrightarrow> e \<in> set xs \<Longrightarrow> ev_uid e \<noteq> u" for q xs u e
    by (auto simp: ls_repr_def ls_lookup_None)
  show "ls_repr q xs \<Longrightarrow> ls_head q = fst (ls_deque q)" for q xs
    by (simp add: ls_head_def ls_deque_def split: list.splits)
  show "ls_repr q [] \<Longrightarrow> ls_deque q = (None, q)" for q
    by (simp add: ls_repr_def ls_deque_def pending_order_def)
qed (simp_all add: ls_repr_insert ls_deque_repr ls_repr_cancel,
     simp_all add: ls_repr_def pending_order_def)

end
