(* ===== verification/Binary_Heap.thy ===== *)
theory Binary_Heap
  imports Prelude "HOL-Library.Product_Lexorder"
begin

text \<open>
  Class \<open>Heap\<close> of \<open>common/heap.h\<close> and \<open>common/scheduler.cc\<close>: a binary heap in an
  array of elements with a key and a secondary key that counts insertions, so that equal
  keys leave the heap in the order in which they entered it. The array is a list of
  \<open>h_maxsize\<close> elements; \<open>he_elem\<close> is \<open>None\<close> where the code has a null pointer.
  Indices are natural numbers: the code computes \<open>parent(0)\<close> too, whose value it never
  uses. The counter \<open>h_s_key\<close> is an \<open>unsigned int\<close> and wraps around; the sizes are unbounded here (in the
  code the doubling of \<open>h_maxsize\<close> would wrap around beyond \<open>2 ^ 31\<close> elements, 48 gigabytes).
\<close>

record 'a heap_elem =
  he_key :: real
  he_s_key :: nat
  he_elem :: "'a option"

record 'a ns_heap =
  h_elems :: "'a heap_elem list"
  h_s_key :: nat
  h_size :: nat
  h_maxsize :: nat
  h_iter :: nat

definition null_elem :: "'a heap_elem" where
  "null_elem = \<lparr>he_key = 0, he_s_key = 0, he_elem = None\<rparr>"

definition heap_new :: "nat \<Rightarrow> 'a ns_heap" where
  "heap_new n = \<lparr>h_elems = replicate n null_elem, h_s_key = 0, h_size = 0,
     h_maxsize = n, h_iter = 0\<rparr>"

definition heap_parent :: "nat \<Rightarrow> nat" where
  "heap_parent i = (i - 1) div 2"

lemma heap_parent_less [simp, termination_simp]: "0 < i \<Longrightarrow> heap_parent i < i"
  by (simp add: heap_parent_def)

lemma heap_parent_le [simp]: "heap_parent i \<le> i"
  by (simp add: heap_parent_def)

lemma heap_parent_bound [simp]: "i < n \<Longrightarrow> heap_parent i < n"
  using heap_parent_le [of i] by linarith

lemma heap_parent_neq [simp]: "0 < i \<Longrightarrow> heap_parent i \<noteq> i" "0 < i \<Longrightarrow> i \<noteq> heap_parent i"
  by (metis heap_parent_less less_irrefl)+

lemma heap_parent2_neq [simp]: "0 < i \<Longrightarrow> heap_parent (heap_parent i) \<noteq> i"
  by (cases "heap_parent i = 0") (auto dest!: heap_parent_less simp: heap_parent_def)

definition heap_left :: "nat \<Rightarrow> nat" where
  "heap_left i = i * 2 + 1"

definition heap_right :: "nat \<Rightarrow> nat" where
  "heap_right i = (i + 1) * 2"

definition key_less_than :: "real \<Rightarrow> nat \<Rightarrow> real \<Rightarrow> nat \<Rightarrow> bool" where
  "key_less_than k1 ks1 k2 ks2 \<longleftrightarrow> k1 < k2 \<or> (k1 = k2 \<and> ks1 < ks2)"

text \<open>\<open>heap_member\<close>: index of the element plus one, or 0.\<close>

fun heap_member_loop :: "'a option \<Rightarrow> 'a heap_elem list \<Rightarrow> nat \<Rightarrow> nat" where
  "heap_member_loop x [] i = 0"
| "heap_member_loop x (he # hes) i =
     (if he_elem he = x then Suc i else heap_member_loop x hes (Suc i))"

definition heap_member :: "'a option \<Rightarrow> 'a ns_heap \<Rightarrow> nat" where
  "heap_member x h = heap_member_loop x (take (h_size h) (h_elems h)) 0"

definition heap_min :: "'a ns_heap \<Rightarrow> 'a option" where
  "heap_min h = (if 0 < h_size h then he_elem (h_elems h ! 0) else None)"

text \<open>The loop \<open>Heapify\<close> of \<open>heap_extract_min\<close> on the first \<open>n\<close> elements.\<close>

definition heap_try :: "'a heap_elem list \<Rightarrow> nat \<Rightarrow> nat \<Rightarrow> nat" where
  "heap_try a n i =
     (let l = heap_left i; r = heap_right i in
      if r < n then
        (if key_less_than (he_key (a ! l)) (he_s_key (a ! l)) (he_key (a ! r)) (he_s_key (a ! r))
         then l else r)
      else if l < n then l else i)"

lemma heap_try_bounds: "i < n \<Longrightarrow> i \<le> heap_try a n i \<and> heap_try a n i < n"
  by (auto simp: heap_try_def heap_left_def heap_right_def Let_def)

function heapify :: "'a heap_elem list \<Rightarrow> nat \<Rightarrow> nat \<Rightarrow> 'a heap_elem list" where
  "heapify a n i =
     (if i < n then
        (let x = heap_try a n i in
         if x \<noteq> i \<and> key_less_than (he_key (a ! x)) (he_s_key (a ! x))
              (he_key (a ! i)) (he_s_key (a ! i))
         then heapify (array_swap a i x) n x
         else a)
      else a)"
  by pat_completeness auto
termination
proof (relation "measure (\<lambda>(a, n, i). n - i)", goal_cases)
  case (2 a n i x)
  then show ?case using heap_try_bounds [of i n a] by auto
qed simp

declare heapify.simps [simp del]

definition heap_extract_min :: "'a ns_heap \<Rightarrow> 'a option \<times> 'a ns_heap" where
  "heap_extract_min h =
     (if h_size h = 0 then (None, h)
      else let least = he_elem (h_elems h ! 0);
               n = h_size h - 1;
               a = (h_elems h)[0 := h_elems h ! n]
           in (least, h\<lparr>h_elems := heapify a n 0, h_size := n\<rparr>))"

text \<open>The loop of \<open>heap_delete\<close> that swaps an element up to the root.\<close>

fun heap_lift :: "'a heap_elem list \<Rightarrow> nat \<Rightarrow> 'a heap_elem list" where
  "heap_lift a i = (if i = 0 then a
     else heap_lift (array_swap a i (heap_parent i)) (heap_parent i))"

declare heap_lift.simps [simp del]

definition heap_delete :: "'a option \<Rightarrow> 'a ns_heap \<Rightarrow> nat \<times> 'a ns_heap" where
  "heap_delete x h =
     (let i = heap_member x h in
      if i = 0 then (0, h)
      else (1, snd (heap_extract_min (h\<lparr>h_elems := heap_lift (h_elems h) (i - 1)\<rparr>))))"

text \<open>The loop of \<open>heap_insert\<close>: elements above the hole at \<open>i\<close> move down.\<close>

fun heap_sift :: "real \<Rightarrow> nat \<Rightarrow> 'a heap_elem list \<Rightarrow> nat \<Rightarrow> 'a heap_elem list \<times> nat" where
  "heap_sift key sk a i =
     (if 0 < i \<and>
         key_less_than key sk (he_key (a ! heap_parent i)) (he_s_key (a ! heap_parent i))
      then heap_sift key sk (a[i := a ! heap_parent i]) (heap_parent i)
      else (a, i))"

declare heap_sift.simps [simp del]

definition heap_grow :: "'a ns_heap \<Rightarrow> 'a ns_heap" where
  "heap_grow h =
     (if h_maxsize h = h_size h
      then h\<lparr>h_maxsize := h_maxsize h * 2,
             h_elems := h_elems h @ replicate (h_maxsize h) null_elem\<rparr>
      else h)"

definition heap_insert :: "real \<Rightarrow> 'a option \<Rightarrow> 'a ns_heap \<Rightarrow> 'a ns_heap" where
  "heap_insert key x h0 =
     (let h = heap_grow h0;
          (a, i) = heap_sift key (h_s_key h) (h_elems h) (h_size h)
      in h\<lparr>h_elems := a[i := \<lparr>he_key = key, he_s_key = h_s_key h, he_elem = x\<rparr>],
           h_size := Suc (h_size h),
           h_s_key := wrap_u32 (Suc (h_s_key h))\<rparr>)"

definition heap_iter_init :: "'a ns_heap \<Rightarrow> 'a option \<times> 'a ns_heap" where
  "heap_iter_init h = (heap_min h, h\<lparr>h_iter := 1\<rparr>)"

definition heap_iter :: "'a ns_heap \<Rightarrow> 'a option \<times> 'a ns_heap" where
  "heap_iter h =
     (if h_iter h \<ge> h_size h then (None, h\<lparr>h_iter := 0\<rparr>)
      else (he_elem (h_elems h ! h_iter h), h\<lparr>h_iter := Suc (h_iter h)\<rparr>))"

section \<open>The heap order\<close>

definition he_rank :: "'a heap_elem \<Rightarrow> real \<times> nat" where
  "he_rank e = (he_key e, he_s_key e)"

lemma key_less_than_rank:
  "key_less_than (he_key x) (he_s_key x) (he_key y) (he_s_key y) \<longleftrightarrow> he_rank x < he_rank y"
  by (auto simp: key_less_than_def he_rank_def)

lemma key_less_than_rank':
  "key_less_than k s (he_key y) (he_s_key y) \<longleftrightarrow> (k, s) < he_rank y"
  by (auto simp: key_less_than_def he_rank_def)

definition heap_order :: "'a heap_elem list \<Rightarrow> nat \<Rightarrow> bool" where
  "heap_order a n \<longleftrightarrow> (\<forall>j. 0 < j \<longrightarrow> j < n \<longrightarrow> he_rank (a ! heap_parent j) \<le> he_rank (a ! j))"

text \<open>The heap order but for the element at \<open>i\<close>: the neighbours of \<open>i\<close> are ordered.\<close>

definition order_but :: "'a heap_elem list \<Rightarrow> nat \<Rightarrow> nat \<Rightarrow> bool" where
  "order_but a n i \<longleftrightarrow>
     (\<forall>j. 0 < j \<longrightarrow> j < n \<longrightarrow> j \<noteq> i \<longrightarrow> heap_parent j \<noteq> i \<longrightarrow> he_rank (a ! heap_parent j) \<le> he_rank (a ! j)) \<and>
     (\<forall>c. 0 < c \<longrightarrow> c < n \<longrightarrow> heap_parent c = i \<longrightarrow> 0 < i \<longrightarrow> he_rank (a ! heap_parent i) \<le> he_rank (a ! c))"

lemma heap_orderD: "heap_order a n \<Longrightarrow> 0 < j \<Longrightarrow> j < n \<Longrightarrow> he_rank (a ! heap_parent j) \<le> he_rank (a ! j)"
  by (simp add: heap_order_def)

lemma order_butD:
  "order_but a n i \<Longrightarrow> 0 < j \<Longrightarrow> j < n \<Longrightarrow> j \<noteq> i \<Longrightarrow> heap_parent j \<noteq> i \<Longrightarrow>
   he_rank (a ! heap_parent j) \<le> he_rank (a ! j)"
  "order_but a n i \<Longrightarrow> 0 < c \<Longrightarrow> c < n \<Longrightarrow> heap_parent c = i \<Longrightarrow> 0 < i \<Longrightarrow>
   he_rank (a ! heap_parent i) \<le> he_rank (a ! c)"
  by (simp_all add: order_but_def)

lemma heap_order_imp_but: "heap_order a n \<Longrightarrow> i < n \<Longrightarrow> order_but a n i"
  unfolding order_but_def
  by (meson heap_orderD order_trans)

lemma heap_order_imp_but_last: "heap_order a n \<Longrightarrow> order_but a (Suc n) n"
  unfolding order_but_def
  by (metis heap_orderD heap_parent_less less_SucE less_Suc_eq_le linorder_not_le)

lemma order_but_update: "order_but a n i \<Longrightarrow> order_but (a[i := x]) n i"
  unfolding order_but_def by (auto simp: nth_list_update)

lemma order_but_step:
  assumes "order_but a n i" "0 < i" "i < n"
    and same: "\<And>k. k \<noteq> i \<Longrightarrow> k \<noteq> heap_parent i \<Longrightarrow> b ! k = a ! k" and moved: "b ! i = a ! heap_parent i"
  shows "order_but b n (heap_parent i)"
  unfolding order_but_def
proof (intro conjI allI impI)
  fix j assume j: "0 < j" "j < n" "j \<noteq> heap_parent i" "heap_parent j \<noteq> heap_parent i"
  show "he_rank (b ! heap_parent j) \<le> he_rank (b ! j)"
  proof (cases "heap_parent j = i")
    case True
    with j assms(1,2) have "he_rank (a ! heap_parent i) \<le> he_rank (a ! j)" by (intro order_butD(2))
    moreover have "j \<noteq> i" using True \<open>0 < j\<close> by auto
    ultimately show ?thesis using True j same moved by simp
  next
    case False
    moreover have "j \<noteq> i" using j by auto
    ultimately show ?thesis using j same assms(1) by (simp add: order_butD(1))
  qed
next
  fix c assume c: "0 < c" "c < n" "heap_parent c = heap_parent i" "0 < heap_parent i"
  have p: "heap_parent (heap_parent i) \<noteq> i" "heap_parent i \<noteq> i" "heap_parent (heap_parent i) \<noteq> heap_parent i" using c assms(2) by auto
  with c assms have up: "he_rank (a ! heap_parent (heap_parent i)) \<le> he_rank (a ! heap_parent i)"
    by (intro order_butD(1)) auto
  show "he_rank (b ! heap_parent (heap_parent i)) \<le> he_rank (b ! c)"
  proof (cases "c = i")
    case True
    with up moved same p show ?thesis by simp
  next
    case False
    with c p assms(1) have "he_rank (a ! heap_parent c) \<le> he_rank (a ! c)"
      by (intro order_butD(1)) auto
    moreover have "c \<noteq> heap_parent i" using c by auto
    ultimately show ?thesis using up c False p same by (simp add: order_trans)
  qed
qed

lemma order_but_fill:
  assumes "order_but a n i" "i < length a"
    and "0 < i \<Longrightarrow> he_rank (a ! heap_parent i) \<le> he_rank x"
    and "\<And>c. 0 < c \<Longrightarrow> c < n \<Longrightarrow> heap_parent c = i \<Longrightarrow> he_rank x \<le> he_rank (a ! c)"
  shows "heap_order (a[i := x]) n"
  unfolding heap_order_def
proof (intro allI impI)
  fix j assume j: "0 < j" "j < n"
  consider "j = i" | "j \<noteq> i" "heap_parent j = i" | "j \<noteq> i" "heap_parent j \<noteq> i" by blast
  then show "he_rank (a[i := x] ! heap_parent j) \<le> he_rank (a[i := x] ! j)"
  proof cases
    case 1
    moreover from 1 j have "heap_parent j \<noteq> j" by simp
    ultimately show ?thesis using assms j by simp
  next
    case 2
    with assms j show ?thesis by simp
  next
    case 3
    with assms(1) j show ?thesis by (simp add: order_butD(1))
  qed
qed

lemma heap_root_least: "heap_order a n \<Longrightarrow> i < n \<Longrightarrow> he_rank (a ! 0) \<le> he_rank (a ! i)"
proof (induction i rule: less_induct)
  case (less i)
  show ?case
  proof (cases "i = 0")
    case False
    then have "heap_parent i < i" by auto
    with less have "he_rank (a ! 0) \<le> he_rank (a ! heap_parent i)" by auto
    also have "\<dots> \<le> he_rank (a ! i)" using less False by (auto intro: heap_orderD)
    finally show ?thesis .
  qed simp
qed

section \<open>Extracting the minimum\<close>

lemma par_cases: "0 < j \<Longrightarrow> heap_parent j = i \<longleftrightarrow> j = heap_left i \<or> j = heap_right i"
  by (auto simp: heap_parent_def heap_left_def heap_right_def)

lemma heap_try_least:
  assumes "i < n" "0 < c" "c < n" "heap_parent c = i"
  shows "heap_try a n i \<noteq> i \<and> he_rank (a ! heap_try a n i) \<le> he_rank (a ! c)"
  using assms(2,3) par_cases [of c i] assms(4)
  by (auto simp: heap_try_def Let_def key_less_than_rank heap_left_def heap_right_def)

lemma heap_try_par: "i < n \<Longrightarrow> heap_try a n i \<noteq> i \<Longrightarrow> heap_parent (heap_try a n i) = i"
  by (auto simp: heap_parent_def heap_try_def Let_def heap_left_def heap_right_def
      split: if_splits)

text \<open>
  The element at \<open>i\<close> may be too large for its place: everything else is in order. The
  other use of \<open>order_but\<close>, with the element at \<open>i\<close> moving down.
\<close>

definition order_below :: "'a heap_elem list \<Rightarrow> nat \<Rightarrow> nat \<Rightarrow> bool" where
  "order_below a n i \<longleftrightarrow> order_but a n i \<and> (0 < i \<longrightarrow> he_rank (a ! heap_parent i) \<le> he_rank (a ! i))"

lemma order_below_step:
  assumes "order_below a n i" "i < n" "n \<le> length a" "x = heap_try a n i" "x \<noteq> i"
    and less: "he_rank (a ! x) < he_rank (a ! i)"
  shows "order_below (array_swap a i x) n x"
proof -
  have x: "i < x" "x < n" "heap_parent x = i"
    using assms heap_try_bounds [of i n a] heap_try_par [of i n a] by auto
  have b: "array_swap a i x ! k = (if k = x then a ! i else if k = i then a ! x else a ! k)" for k
    using assms x by (intro nth_array_swap) auto
  have but: "order_but a n i" using assms by (simp add: order_below_def)
  have "order_but (array_swap a i x) n x"
    unfolding order_but_def
  proof (intro conjI allI impI)
    fix j assume j: "0 < j" "j < n" "j \<noteq> x" "heap_parent j \<noteq> x"
    show "he_rank (array_swap a i x ! heap_parent j) \<le> he_rank (array_swap a i x ! j)"
    proof (cases "heap_parent j = i")
      case True
      with j heap_try_least [of i n j a] assms have "he_rank (a ! x) \<le> he_rank (a ! j)" by auto
      moreover have "j \<noteq> i" using True j by auto
      ultimately show ?thesis using True j b by simp
    next
      case False
      show ?thesis
      proof (cases "j = i")
        case True
        then have "he_rank (a ! heap_parent i) \<le> he_rank (a ! x)"
          using order_butD(2) [OF but, of x] x j by auto
        moreover have "heap_parent i \<noteq> i" using True j by auto
        ultimately show ?thesis using True j b x by auto
      next
        case False
        with \<open>heap_parent j \<noteq> i\<close> j b order_butD(1) [OF but] show ?thesis by simp
      qed
    qed
  next
    fix c assume c: "0 < c" "c < n" "heap_parent c = x" "0 < x"
    then have "c \<noteq> i" "c \<noteq> x" "heap_parent c \<noteq> i"
      using x heap_parent_le [of c] by auto
    with c order_butD(1) [OF but, of c] x b show
      "he_rank (array_swap a i x ! heap_parent x) \<le> he_rank (array_swap a i x ! c)" by simp
  qed
  with x b less show ?thesis by (simp add: order_below_def less_imp_le)
qed

lemma heapify_order:
  "order_below a n i \<Longrightarrow> i < n \<Longrightarrow> n \<le> length a \<Longrightarrow> heap_order (heapify a n i) n"
proof (induction a n i rule: heapify.induct)
  case (1 a n i)
  let ?x = "heap_try a n i"
  show ?case
  proof (cases "?x \<noteq> i \<and> he_rank (a ! ?x) < he_rank (a ! i)")
    case True
    with 1 have "order_below (array_swap a i ?x) n ?x"
      by (intro order_below_step) auto
    with 1 True heap_try_bounds [of i n a] show ?thesis
      by (subst heapify.simps) (simp add: key_less_than_rank Let_def)
  next
    case False
    then have eq: "heapify a n i = a"
      by (subst heapify.simps) (auto simp: key_less_than_rank Let_def)
    have "he_rank (a ! i) \<le> he_rank (a ! c)" if "0 < c" "c < n" "heap_parent c = i" for c
      using False heap_try_least [OF "1.prems"(2) that, of a] by auto
    then have "heap_order (a[i := a ! i]) n"
      using "1.prems" by (intro order_but_fill) (simp_all add: order_below_def)
    with eq show ?thesis by simp
  qed
qed

lemma length_heapify [simp]: "length (heapify a n i) = length a"
  by (induction a n i rule: heapify.induct) (subst heapify.simps, simp add: Let_def)

lemma drop_array_swap: "i < n \<Longrightarrow> j < n \<Longrightarrow> drop n (array_swap a i j) = drop n a"
  by (simp add: array_swap_def)

lemma mset_take_swap:
  "i < n \<Longrightarrow> j < n \<Longrightarrow> n \<le> length a \<Longrightarrow> mset (take n (array_swap a i j)) = mset (take n a)"
  using mset_swap [of j "take n a" i]
  by (simp add: array_swap_def take_update_swap)

lemma mset_heapify: "n \<le> length a \<Longrightarrow> mset (take n (heapify a n i)) = mset (take n a)"
proof (induction a n i rule: heapify.induct)
  case (1 a n i)
  then show ?case
    using heap_try_bounds [of i n a]
    by (subst heapify.simps) (simp add: Let_def mset_take_swap)
qed

section \<open>Inserting\<close>

lemma mset_hole_step:
  "i < n \<Longrightarrow> p < n \<Longrightarrow> n \<le> length a \<Longrightarrow> i \<noteq> p \<Longrightarrow>
   mset (take n (a[i := a ! p, p := x])) = mset (take n (a[i := x]))"
  using mset_take_swap [of i n p "a[i := x]"]
  by (simp add: array_swap_def list_update_swap [of i p])

lemma heap_sift_correct:
  assumes "order_but a n i" "i < n" "n \<le> length a"
    and "\<And>c. 0 < c \<Longrightarrow> c < n \<Longrightarrow> heap_parent c = i \<Longrightarrow> (key, sk) \<le> he_rank (a ! c)"
    and "heap_sift key sk a i = (b, k)"
    and "he_rank x = (key, sk)"
  shows "heap_order (b[k := x]) n \<and> length b = length a \<and>
    mset (take n (b[k := x])) = mset (take n (a[i := x]))"
  using assms
proof (induction key sk a i arbitrary: b k rule: heap_sift.induct)
  case (1 key sk a i)
  show ?case
  proof (cases "0 < i \<and> (key, sk) < he_rank (a ! heap_parent i)")
    case True
    let ?a = "a[i := a ! heap_parent i]"
    have p: "heap_parent i < i" using True by auto
    have rec: "heap_sift key sk ?a (heap_parent i) = (b, k)"
      using "1.prems"(5) True by (subst (asm) heap_sift.simps) (simp add: key_less_than_rank' Let_def)
    have "order_but ?a n (heap_parent i)"
      using "1.prems" True p by (intro order_but_step [of a n i]) auto
    moreover have "(key, sk) \<le> he_rank (?a ! c)" if "0 < c" "c < n" "heap_parent c = heap_parent i" for c
    proof (cases "c = i")
      case False
      then have "he_rank (a ! heap_parent c) \<le> he_rank (a ! c)"
        using that p "1.prems"(1) True by (intro order_butD(1) [of a n i]) auto
      then show ?thesis using False True that by auto
    qed (use True "1.prems" in \<open>auto simp: less_imp_le\<close>)
    ultimately have "heap_order (b[k := x]) n \<and> length b = length ?a \<and>
        mset (take n (b[k := x])) = mset (take n (?a[heap_parent i := x]))"
      using "1.IH" [of b k] True rec p "1.prems"
      by (simp add: key_less_than_rank')
    then show ?thesis using mset_hole_step [of i n "heap_parent i" a x] p "1.prems" by simp
  next
    case False
    then have "b = a" "k = i"
      using "1.prems"(5)
      by (subst (asm) heap_sift.simps; auto simp: key_less_than_rank' Let_def)+
    then show ?thesis
      using "1.prems" False by (auto intro!: order_but_fill simp: not_less)
  qed
qed

section \<open>Lifting an element to the root\<close>

lemma length_heap_lift [simp]: "length (heap_lift a i) = length a"
  by (induction a i rule: heap_lift.induct) (subst heap_lift.simps, simp)

lemma heap_lift_correct:
  "order_but a n i \<Longrightarrow> i < n \<Longrightarrow> n \<le> length a \<Longrightarrow>
   order_but (heap_lift a i) n 0 \<and> heap_lift a i ! 0 = a ! i \<and>
   mset (take n (heap_lift a i)) = mset (take n a)"
proof (induction a i rule: heap_lift.induct)
  case (1 a i)
  show ?case
  proof (cases "i = 0")
    case True
    with "1.prems" show ?thesis by (simp add: heap_lift.simps [of a 0])
  next
    case False
    then have p: "heap_parent i < i" by auto
    let ?a = "array_swap a i (heap_parent i)"
    have b: "?a ! k = (if k = heap_parent i then a ! i else if k = i then a ! heap_parent i else a ! k)" for k
      using 1 p by (intro nth_array_swap) auto
    have "order_but ?a n (heap_parent i)"
      using 1 False p b by (intro order_but_step [of a n i]) auto
    then have "order_but (heap_lift ?a (heap_parent i)) n 0 \<and> heap_lift ?a (heap_parent i) ! 0 = ?a ! heap_parent i \<and>
        mset (take n (heap_lift ?a (heap_parent i))) = mset (take n ?a)"
      using "1.prems" by (intro "1.IH" [OF False]) simp_all
    moreover have "heap_lift a i = heap_lift ?a (heap_parent i)"
      using False by (subst heap_lift.simps) simp
    moreover have "mset (take n ?a) = mset (take n a)"
      using 1 p by (intro mset_take_swap) auto
    ultimately show ?thesis using b by simp
  qed
qed

section \<open>The heap as a queue of its elements in order of insertion\<close>

definition heap_content :: "'a ns_heap \<Rightarrow> 'a heap_elem list" where
  "heap_content h = take (h_size h) (h_elems h)"

definition heap_seq :: "'a ns_heap \<Rightarrow> 'a heap_elem list" where
  "heap_seq h = sort_key he_s_key (heap_content h)"

definition heap_wf :: "'a ns_heap \<Rightarrow> bool" where
  "heap_wf h \<longleftrightarrow> length (h_elems h) = h_maxsize h \<and> 0 < h_maxsize h \<and> h_size h \<le> h_maxsize h \<and>
     heap_order (h_elems h) (h_size h) \<and> distinct (map he_s_key (heap_content h)) \<and>
     (\<forall>e \<in> set (heap_content h). he_s_key e < h_s_key h)"

lemma length_heap_content: "heap_wf h \<Longrightarrow> length (heap_content h) = h_size h"
  by (simp add: heap_wf_def heap_content_def)

lemma nth_heap_content: "i < h_size h \<Longrightarrow> heap_content h ! i = h_elems h ! i"
  by (simp add: heap_content_def)

lemma heap_elem_in_content: "heap_wf h \<Longrightarrow> i < h_size h \<Longrightarrow> h_elems h ! i \<in> set (heap_content h)"
  by (metis length_heap_content nth_heap_content nth_mem)

lemma heap_wf_new: "0 < n \<Longrightarrow> heap_wf (heap_new n)"
  by (simp add: heap_wf_def heap_new_def heap_content_def heap_order_def)

lemma mset_heap_seq [simp]: "mset (heap_seq h) = mset (heap_content h)"
  by (simp add: heap_seq_def)

lemma set_heap_seq [simp]: "set (heap_seq h) = set (heap_content h)"
  by (simp add: heap_seq_def)

lemma heap_wf_distinct:
  assumes "heap_wf h"
  shows "distinct (heap_content h)" "distinct (heap_seq h)" "inj_on he_s_key (set (heap_content h))"
  using assms by (auto simp: heap_wf_def distinct_map heap_seq_def)

lemma length_heap_seq: "heap_wf h \<Longrightarrow> length (heap_seq h) = h_size h"
  by (simp add: heap_seq_def heap_content_def heap_wf_def)

lemma distinct_heap_seq_keys: "heap_wf h \<Longrightarrow> distinct (map he_s_key (heap_seq h))"
  using mset_map_distinct [of "heap_seq h" "heap_content h" he_s_key] by (simp add: heap_wf_def)

lemma sorted_heap_seq: "sorted (map he_s_key (heap_seq h))"
  by (simp add: heap_seq_def)

lemma heap_seq_unique:
  "mset ys = mset (heap_content h) \<Longrightarrow> sorted (map he_s_key ys) \<Longrightarrow> distinct (map he_s_key ys) \<Longrightarrow>
   heap_seq h = ys"
  unfolding heap_seq_def
  by (rule sort_key_inj_key_eq) (auto simp: distinct_map dest: mset_eq_setD)

lemma heap_wf_grow [simp]: "heap_wf h \<Longrightarrow> heap_wf (heap_grow h)"
  by (auto simp: heap_wf_def heap_grow_def heap_content_def heap_order_def nth_append)

lemma heap_grow_simps [simp]:
  "h_size (heap_grow h) = h_size h" "h_s_key (heap_grow h) = h_s_key h"
  "h_iter (heap_grow h) = h_iter h"
  by (simp_all add: heap_grow_def)

lemma heap_grow_room: "heap_wf h \<Longrightarrow> h_size h < h_maxsize (heap_grow h)"
  by (auto simp: heap_wf_def heap_grow_def)

lemma heap_content_grow [simp]: "heap_wf h \<Longrightarrow> heap_content (heap_grow h) = heap_content h"
  by (auto simp: heap_wf_def heap_grow_def heap_content_def)

lemma heap_insert_content:
  fixes key :: real and v :: "'a option"
  assumes "heap_wf h"
  defines "x \<equiv> \<lparr>he_key = key, he_s_key = h_s_key h, he_elem = v\<rparr>"
  shows "heap_order (h_elems (heap_insert key v h)) (Suc (h_size h)) \<and>
    length (h_elems (heap_insert key v h)) = h_maxsize (heap_insert key v h) \<and>
    mset (heap_content (heap_insert key v h)) = add_mset x (mset (heap_content h))"
proof -
  let ?g = "heap_grow h" and ?n = "Suc (h_size h)"
  obtain b k where bk: "heap_sift key (h_s_key h) (h_elems ?g) (h_size h) = (b, k)" by fastforce
  have wf: "heap_wf ?g" using assms by simp
  have len: "?n \<le> length (h_elems ?g)"
    using wf heap_grow_room [OF assms(1)] by (simp add: heap_wf_def)
  have "order_but (h_elems ?g) ?n (h_size h)"
    using wf by (intro heap_order_imp_but_last) (simp add: heap_wf_def)
  moreover have "heap_parent c \<noteq> h_size h" if "0 < c" "c < ?n" for c
    using that heap_parent_less [of c] by linarith
  ultimately have "heap_order (b[k := x]) ?n \<and> length b = length (h_elems ?g) \<and>
      mset (take ?n (b[k := x])) = mset (take ?n ((h_elems ?g)[h_size h := x]))"
    using len bk by (intro heap_sift_correct) (auto simp: x_def he_rank_def)
  moreover have "take ?n ((h_elems ?g)[h_size h := x]) = heap_content ?g @ [x]"
    using len by (simp add: take_Suc_conv_app_nth heap_content_def)
  moreover have "length (h_elems ?g) = h_maxsize ?g" using wf by (simp add: heap_wf_def)
  ultimately show ?thesis
    using bk assms(1) by (simp add: heap_insert_def Let_def heap_content_def [of "_\<lparr>h_s_key := _\<rparr>"] x_def)
qed

lemma heap_insert_size [simp]: "h_size (heap_insert key v h) = Suc (h_size h)"
  by (simp add: heap_insert_def Let_def split: prod.split)

lemma heap_insert_s_key [simp]: "h_s_key (heap_insert key v h) = wrap_u32 (Suc (h_s_key h))"
  by (simp add: heap_insert_def Let_def split: prod.split)

lemma heap_insert_maxsize: "h_maxsize (heap_insert key v h) = h_maxsize (heap_grow h)"
  by (simp add: heap_insert_def Let_def split: prod.split)

lemma heap_insert_correct:
  assumes wf: "heap_wf h" and room: "Suc (h_s_key h) < 2 ^ 32"
  shows "heap_wf (heap_insert key v h) \<and>
    heap_seq (heap_insert key v h) =
      heap_seq h @ [\<lparr>he_key = key, he_s_key = h_s_key h, he_elem = v\<rparr>]"
proof -
  let ?x = "\<lparr>he_key = key, he_s_key = h_s_key h, he_elem = v\<rparr>" and ?h = "heap_insert key v h"
  note c = heap_insert_content [OF wf, of key v]
  have old: "\<forall>e \<in> set (heap_content h). he_s_key e < h_s_key h" "distinct (map he_s_key (heap_content h))"
    using wf by (simp_all add: heap_wf_def)
  have "set (heap_content ?h) = insert ?x (set (heap_content h))"
    using c mset_eq_setD [of "heap_content ?h" "?x # heap_content h"] by simp
  moreover have "distinct (map he_s_key (heap_content ?h))"
    using c old mset_map_distinct [of "heap_content ?h" "?x # heap_content h" he_s_key] by auto
  moreover have "0 < h_maxsize ?h" "Suc (h_size h) \<le> h_maxsize ?h"
    using heap_grow_room [OF wf] by (simp_all add: heap_insert_maxsize)
  ultimately have "heap_wf ?h"
    using c room old by (auto simp: heap_wf_def less_SucI)
  moreover have "heap_seq ?h = heap_seq h @ [?x]"
  proof (rule heap_seq_unique)
    show "mset (heap_seq h @ [?x]) = mset (heap_content ?h)" using c by simp
    show "sorted (map he_s_key (heap_seq h @ [?x]))"
      using old sorted_heap_seq [of h] by (auto simp: sorted_append less_imp_le)
    have "distinct (map he_s_key (heap_seq h))"
      using old mset_map_distinct [of "heap_seq h" "heap_content h" he_s_key] by simp
    then show "distinct (map he_s_key (heap_seq h @ [?x]))" using old by auto
  qed
  ultimately show ?thesis by blast
qed

text \<open>Removing the element at the root, whatever its rank is.\<close>

lemma mset_last_to_root:
  "0 < n \<Longrightarrow> n < length e \<Longrightarrow>
   add_mset (e ! 0) (mset (take n (e[0 := e ! n]))) = mset (take (Suc n) e)"
  by (cases e; cases n) (simp_all add: take_Suc_conv_app_nth)

lemma heap_extract_root:
  assumes "length (h_elems h) = h_maxsize h" "h_size h \<le> h_maxsize h" "0 < h_size h"
    and "order_but (h_elems h) (h_size h) 0"
  shows "heap_order (h_elems (snd (heap_extract_min h))) (h_size h - 1) \<and>
    fst (heap_extract_min h) = he_elem (h_elems h ! 0) \<and>
    add_mset (h_elems h ! 0) (mset (heap_content (snd (heap_extract_min h)))) = mset (heap_content h)"
proof -
  let ?n = "h_size h - 1" and ?e = "h_elems h"
  let ?a = "?e[0 := ?e ! ?n]"
  have len: "?n \<le> length ?a" "?n < length ?e" using assms by auto
  have "order_but ?e ?n 0" using assms(4) by (auto simp: order_but_def)
  then have "order_below ?a ?n 0" by (simp add: order_below_def order_but_update)
  then have "heap_order (heapify ?a ?n 0) ?n"
    using len heapify_order [of ?a ?n 0] by (cases "?n = 0") (simp_all add: heap_order_def)
  moreover have "mset (take ?n (heapify ?a ?n 0)) = mset (take ?n ?a)"
    using len by (intro mset_heapify)
  moreover have "add_mset (?e ! 0) (mset (take ?n ?a)) = mset (take (Suc ?n) ?e)"
  proof (cases "?n = 0")
    case True
    with assms show ?thesis by (cases ?e) auto
  next
    case False
    with len show ?thesis by (intro mset_last_to_root) auto
  qed
  ultimately show ?thesis
    using assms by (simp add: heap_extract_min_def Let_def heap_content_def)
qed

lemma heap_extract_simps [simp]:
  "h_s_key (snd (heap_extract_min h)) = h_s_key h"
  "h_maxsize (snd (heap_extract_min h)) = h_maxsize h"
  "h_size (snd (heap_extract_min h)) = h_size h - 1"
  "length (h_elems (snd (heap_extract_min h))) = length (h_elems h)"
  by (simp_all add: heap_extract_min_def Let_def)

lemma heap_content_remove:
  assumes "heap_wf h" "heap_order (h_elems g) (h_size g)" "h_s_key g = h_s_key h"
    "h_maxsize g = h_maxsize h" "h_size g \<le> h_size h" "length (h_elems g) = h_maxsize h"
    and m: "add_mset r (mset (heap_content g)) = mset (heap_content h)"
  shows "heap_wf g \<and> heap_seq g = remove1 r (heap_seq h)"
proof -
  have d: "distinct (map he_s_key (r # heap_content g))"
    using assms(1) m mset_map_distinct [of "r # heap_content g" "heap_content h" he_s_key]
    by (simp add: heap_wf_def)
  have s: "set (heap_content h) = insert r (set (heap_content g))"
    using mset_eq_setD [of "r # heap_content g" "heap_content h"] m by simp
  have "heap_wf g" using assms d s by (auto simp: heap_wf_def)
  moreover have "heap_seq g = remove1 r (heap_seq h)"
  proof (rule heap_seq_unique)
    show "mset (remove1 r (heap_seq h)) = mset (heap_content g)"
      using m by (metis add_mset_remove_trivial mset_heap_seq mset_remove1)
    show "sorted (map he_s_key (remove1 r (heap_seq h)))"
      using sorted_heap_seq [of h] by (rule sorted_map_remove1)
    have "distinct (map he_s_key (heap_seq h))"
      using assms(1) mset_map_distinct [of "heap_seq h" "heap_content h" he_s_key]
      by (simp add: heap_wf_def)
    then show "distinct (map he_s_key (remove1 r (heap_seq h)))"
      by (metis distinct_map distinct_remove1 inj_on_subset set_remove1_subset)
  qed
  ultimately show ?thesis by blast
qed

lemma heap_extract_min_correct:
  assumes wf: "heap_wf h" and ne: "0 < h_size h"
  obtains r where "r \<in> set (heap_seq h)" "\<forall>y \<in> set (heap_seq h). he_rank r \<le> he_rank y"
    "fst (heap_extract_min h) = he_elem r" "heap_wf (snd (heap_extract_min h))"
    "heap_seq (snd (heap_extract_min h)) = remove1 r (heap_seq h)"
proof -
  let ?r = "h_elems h ! 0"
  have ho: "heap_order (h_elems h) (h_size h)" and sz: "h_size h \<le> length (h_elems h)"
    and len: "length (h_elems h) = h_maxsize h" "h_size h \<le> h_maxsize h"
    using wf by (simp_all add: heap_wf_def)
  note e = heap_extract_root [OF len ne heap_order_imp_but [OF ho ne]]
  have "?r \<in> set (heap_seq h)"
    using ne sz by (auto simp: heap_content_def in_set_conv_nth intro!: exI [of _ 0])
  moreover have "\<forall>y \<in> set (heap_seq h). he_rank ?r \<le> he_rank y"
    using heap_root_least [OF ho] by (auto simp: heap_content_def in_set_conv_nth)
  moreover have "heap_wf (snd (heap_extract_min h)) \<and>
      heap_seq (snd (heap_extract_min h)) = remove1 ?r (heap_seq h)"
    using e len by (intro heap_content_remove [OF wf]) simp_all
  ultimately show ?thesis using e that by blast
qed

section \<open>Deleting an element\<close>

lemma heap_member_loop_found:
  "heap_member_loop x hes i \<noteq> 0 \<Longrightarrow>
   i < heap_member_loop x hes i \<and> heap_member_loop x hes i \<le> i + length hes \<and>
   he_elem (hes ! (heap_member_loop x hes i - 1 - i)) = x"
proof (induction x hes i rule: heap_member_loop.induct)
  case (2 x he hes i)
  show ?case
  proof (cases "he_elem he = x")
    case False
    with 2 have *: "Suc i < heap_member_loop x hes (Suc i)"
      "heap_member_loop x hes (Suc i) \<le> Suc i + length hes"
      "he_elem (hes ! (heap_member_loop x hes (Suc i) - 1 - Suc i)) = x" by auto
    then have "heap_member_loop x hes (Suc i) - 1 - i = Suc (heap_member_loop x hes (Suc i) - 1 - Suc i)"
      by linarith
    with * False show ?thesis by simp
  qed simp
qed simp

lemma heap_member_loop_zero:
  "heap_member_loop x hes i = 0 \<longleftrightarrow> x \<notin> he_elem ` set hes"
  by (induction x hes i rule: heap_member_loop.induct) auto

lemma heap_delete_absent:
  "v \<notin> he_elem ` set (heap_seq h) \<Longrightarrow> heap_delete v h = (0, h)"
  by (simp add: heap_delete_def heap_member_def heap_content_def [symmetric] heap_member_loop_zero)

lemma heap_delete_present:
  assumes wf: "heap_wf h" and mem: "v \<in> he_elem ` set (heap_seq h)"
  obtains r where "r \<in> set (heap_seq h)" "he_elem r = v" "fst (heap_delete v h) = 1"
    "heap_wf (snd (heap_delete v h))" "heap_seq (snd (heap_delete v h)) = remove1 r (heap_seq h)"
    "h_s_key (snd (heap_delete v h)) = h_s_key h"
proof -
  define i where "i = heap_member v h - 1"
  have ho: "heap_order (h_elems h) (h_size h)" and len: "length (h_elems h) = h_maxsize h"
    and sz: "h_size h \<le> h_maxsize h" using wf by (simp_all add: heap_wf_def)
  have m: "heap_member v h \<noteq> 0"
    using mem by (simp add: heap_member_def heap_content_def [symmetric] heap_member_loop_zero)
  then have i: "i < h_size h" and v: "he_elem (h_elems h ! i) = v"
    using heap_member_loop_found [of v "take (h_size h) (h_elems h)" 0] len sz
    by (auto simp: heap_member_def i_def)
  let ?a = "heap_lift (h_elems h) i" and ?r = "h_elems h ! i"
  let ?g = "h\<lparr>h_elems := ?a\<rparr>"
  have l: "order_but ?a (h_size h) 0 \<and> ?a ! 0 = ?r \<and>
      mset (take (h_size h) ?a) = mset (take (h_size h) (h_elems h))"
    using i len sz by (intro heap_lift_correct heap_order_imp_but [OF ho]) auto
  have e: "heap_order (h_elems (snd (heap_extract_min ?g))) (h_size h - 1)"
    "add_mset ?r (mset (heap_content (snd (heap_extract_min ?g)))) = mset (heap_content h)"
    using heap_extract_root [of ?g] l i len sz by (auto simp: heap_content_def)
  have d: "heap_delete v h = (1, snd (heap_extract_min ?g))"
    using m by (simp add: heap_delete_def i_def)
  have "heap_wf (snd (heap_extract_min ?g)) \<and>
      heap_seq (snd (heap_extract_min ?g)) = remove1 ?r (heap_seq h)"
    using e len sz by (intro heap_content_remove [OF wf]) simp_all
  moreover have "?r \<in> set (heap_seq h)"
    using i len sz by (auto simp: heap_content_def in_set_conv_nth)
  ultimately show ?thesis using that [of ?r] d v by simp
qed

end
