(* ===== verification/Heap_Scheduler.thy ===== *)
theory Heap_Scheduler
  imports Timer Binary_Heap
begin

text \<open>
  Class \<open>HeapScheduler\<close> of \<open>common/scheduler.h\<close>: the event queue kept in a binary heap
  keyed by event time. It interprets \<open>event_queue\<close> as long as the 32-bit insertion
  counter of the heap does not wrap around; after a wrap-around events of the same time
  can leave the queue in the wrong order (\<open>hs_wrap_breaks_fifo\<close>).
\<close>

type_synonym heap_queue = "event ns_heap"

definition hs_new :: heap_queue where
  "hs_new = heap_new 32"

definition hs_insert :: "event \<Rightarrow> heap_queue \<Rightarrow> heap_queue" where
  "hs_insert e h = heap_insert (ev_time e) (Some e) h"

text \<open>
  \<open>cancel\<close> negates the \<open>uid_\<close> of the object and then deletes it from the heap. The heap
  compares pointers; in the model an event of the queue is found by its value.
\<close>

definition hs_cancel :: "event \<Rightarrow> heap_queue \<Rightarrow> heap_queue \<times> event" where
  "hs_cancel e h =
     (if ev_uid e \<le> 0 then (h, e)
      else (snd (heap_delete (Some e) h), ev_negate_uid e))"

definition hs_deque :: "heap_queue \<Rightarrow> event option \<times> heap_queue" where
  "hs_deque h = heap_extract_min h"

definition hs_head :: "heap_queue \<Rightarrow> event option" where
  "hs_head h = heap_min h"

text \<open>The loop of \<open>lookup\<close> over the iterator of the heap.\<close>

function hs_lookup_loop :: "int \<Rightarrow> event option \<Rightarrow> heap_queue \<Rightarrow> event option \<times> heap_queue" where
  "hs_lookup_loop u None h = (None, h)"
| "hs_lookup_loop u (Some e) h =
     (if ev_uid e = u then (Some e, h)
      else hs_lookup_loop u (fst (heap_iter h)) (snd (heap_iter h)))"
  by pat_completeness auto
termination
  by (relation "measure (\<lambda>(u, e, h). case e of None \<Rightarrow> 0 | Some _ \<Rightarrow> Suc (h_size h - h_iter h))")
     (auto simp: heap_iter_def split: option.splits)

definition hs_lookup :: "int \<Rightarrow> heap_queue \<Rightarrow> event option \<times> heap_queue" where
  "hs_lookup u h = hs_lookup_loop u (fst (heap_iter_init h)) (snd (heap_iter_init h))"

section \<open>Correctness\<close>

text \<open>The elements of the heap in order of insertion are the pending events.\<close>

abbreviation he_event :: "event heap_elem \<Rightarrow> event" where
  "he_event r \<equiv> the (he_elem r)"

definition hs_repr :: "heap_queue \<Rightarrow> event list \<Rightarrow> bool" where
  "hs_repr h xs \<longleftrightarrow> heap_wf h \<and> distinct_events xs \<and> xs = map he_event (heap_seq h) \<and>
     (\<forall>r \<in> set (heap_content h). he_elem r \<noteq> None \<and> he_key r = ev_time (he_event r))"

definition hs_room :: "heap_queue \<Rightarrow> nat \<Rightarrow> bool" where
  "hs_room h n \<longleftrightarrow> h_s_key h + n < 2 ^ 32"

definition hs_can :: "event \<Rightarrow> heap_queue \<Rightarrow> heap_queue" where
  "hs_can e h = fst (hs_cancel e h)"

definition hs_find :: "int \<Rightarrow> heap_queue \<Rightarrow> event option" where
  "hs_find u h = fst (hs_lookup u h)"

lemma hs_repr_length: "hs_repr h xs \<Longrightarrow> h_size h = length xs"
  by (metis hs_repr_def length_heap_seq length_map)

lemma hs_repr_insert:
  assumes "hs_repr h xs" "hs_room h (Suc n)" "ev_addr e \<notin> ev_addr ` set xs"
  shows "hs_repr (hs_insert e h) (xs @ [e])"
proof -
  let ?x = "\<lparr>he_key = ev_time e, he_s_key = h_s_key h, he_elem = Some e\<rparr>"
  have ins: "heap_wf (hs_insert e h)" "heap_seq (hs_insert e h) = heap_seq h @ [?x]"
    using assms heap_insert_correct [of h "ev_time e" "Some e"]
    by (simp_all add: hs_repr_def hs_room_def hs_insert_def)
  then have "set (heap_content (hs_insert e h)) = insert ?x (set (heap_content h))"
    using set_heap_seq [of "hs_insert e h"] set_heap_seq [of h] by simp
  with ins assms show ?thesis unfolding hs_repr_def by auto
qed

lemma hs_repr_distinct: "hs_repr h xs \<Longrightarrow> distinct (map he_event (heap_seq h))"
  by (metis hs_repr_def distinct_events_distinct)

lemma hs_repr_elem:
  "hs_repr h xs \<Longrightarrow> r \<in> set (heap_content h) \<Longrightarrow>
   he_elem r = Some (he_event r) \<and> he_key r = ev_time (he_event r) \<and> he_event r \<in> set xs"
  by (auto simp: hs_repr_def)

lemma hs_repr_event:
  assumes "hs_repr h xs" "e \<in> set xs"
  obtains r where "r \<in> set (heap_content h)" "he_elem r = Some e"
  using assms by (auto simp: hs_repr_def)

text \<open>Removing the heap element that holds \<open>e\<close> removes \<open>e\<close> from the pending events.\<close>

lemma hs_repr_removed:
  assumes "hs_repr h xs" "r \<in> set (heap_seq h)" "heap_wf g"
    and g: "heap_seq g = remove1 r (heap_seq h)"
  shows "hs_repr g (remove1 (he_event r) xs)"
proof -
  have "set (heap_content g) \<subseteq> set (heap_content h)"
    using g set_heap_seq [of g] set_heap_seq [of h] set_remove1_subset by metis
  then show ?thesis
    using assms map_remove1_inj [OF hs_repr_distinct [OF assms(1)] assms(2)]
    by (auto simp: hs_repr_def distinct_events_remove1)
qed

lemma hs_root_earliest:
  assumes "hs_repr h xs" "r \<in> set (heap_seq h)"
    and least: "\<forall>y \<in> set (heap_seq h). he_rank r \<le> he_rank y"
  shows "he_event r = earliest xs"
proof -
  obtain L1 L2 where L: "heap_seq h = L1 @ r # L2" using assms(2) by (meson split_list)
  have set: "set (heap_content h) = set L1 \<union> {r} \<union> set L2"
    using L set_heap_seq [of h] by auto
  note elem = hs_repr_elem [OF assms(1)]
  have keys: "he_s_key y < he_s_key r" if "y \<in> set L1" for y
  proof -
    have "heap_wf h" using assms(1) by (simp add: hs_repr_def)
    then have "sorted_wrt (<) (map he_s_key (heap_seq h))"
      using sorted_heap_seq [of h] distinct_heap_seq_keys [of h] by (simp add: strict_sorted_iff)
    with L that show ?thesis by (simp add: sorted_wrt_append)
  qed
  have "earliest (map he_event L1 @ he_event r # map he_event L2) = he_event r"
  proof (rule earliest_unique)
    fix u assume "u \<in> set (map he_event L1)"
    then obtain y where y: "y \<in> set L1" "u = he_event y" by auto
    with least L have "he_rank r \<le> he_rank y" by auto
    with keys [OF y(1)] have "he_key r < he_key y" by (auto simp: he_rank_def)
    with elem [of r] elem [of y] set y show "ev_time (he_event r) < ev_time u" by auto
  next
    fix v assume "v \<in> set (map he_event L2)"
    then obtain y where y: "y \<in> set L2" "v = he_event y" by auto
    with least L have "he_rank r \<le> he_rank y" by auto
    then have "he_key r \<le> he_key y" by (auto simp: he_rank_def)
    with elem [of r] elem [of y] set y show "ev_time (he_event r) \<le> ev_time v" by auto
  qed
  with assms(1) L show ?thesis by (simp add: hs_repr_def)
qed

lemma hs_deque_repr:
  assumes "hs_repr h xs" "xs \<noteq> []"
  shows "fst (hs_deque h) = Some (earliest xs) \<and> hs_repr (snd (hs_deque h)) (remove1 (earliest xs) xs)"
proof -
  have wf: "heap_wf h" using assms(1) by (simp add: hs_repr_def)
  have sz: "0 < h_size h" using hs_repr_length [OF assms(1)] assms(2) by simp
  from heap_extract_min_correct [OF wf sz] obtain r where
    r: "r \<in> set (heap_seq h)" "\<forall>y \<in> set (heap_seq h). he_rank r \<le> he_rank y"
      "fst (heap_extract_min h) = he_elem r" "heap_wf (snd (heap_extract_min h))"
      "heap_seq (snd (heap_extract_min h)) = remove1 r (heap_seq h)" by blast
  have e: "he_event r = earliest xs" using assms(1) r(1,2) by (rule hs_root_earliest)
  have "hs_repr (snd (heap_extract_min h)) (remove1 (he_event r) xs)"
    using assms(1) r(1,4,5) by (rule hs_repr_removed)
  moreover have "he_elem r = Some (earliest xs)"
    using hs_repr_elem [OF assms(1), of r] r(1) e by simp
  ultimately show ?thesis using e r(3) by (simp add: hs_deque_def)
qed

lemma hs_repr_cancel:
  assumes "hs_repr h xs" "e \<in> set xs" "0 < ev_uid e"
  shows "hs_repr (hs_can e h) (remove1 e xs)"
proof -
  have mem: "Some e \<in> he_elem ` set (heap_seq h)"
    using assms(1,2) by (auto elim!: hs_repr_event intro: image_eqI [OF sym])
  have wf: "heap_wf h" using assms by (simp add: hs_repr_def)
  from heap_delete_present [OF wf mem] obtain r where
    r: "r \<in> set (heap_seq h)" "he_elem r = Some e" "heap_wf (snd (heap_delete (Some e) h))"
      "heap_seq (snd (heap_delete (Some e) h)) = remove1 r (heap_seq h)" by metis
  have "hs_repr (snd (heap_delete (Some e) h)) (remove1 (he_event r) xs)"
    using assms(1) r(1,3,4) by (rule hs_repr_removed)
  with r(2) assms(3) show ?thesis by (simp add: hs_can_def hs_cancel_def)
qed

lemma heap_delete_s_key [simp]: "h_s_key (snd (heap_delete v h)) = h_s_key h"
  by (cases "heap_member v h = 0") (simp_all add: heap_delete_def)

lemma hs_s_key_cancel [simp]: "h_s_key (hs_can e h) = h_s_key h"
  by (cases "ev_uid e \<le> 0") (simp_all add: hs_can_def hs_cancel_def)

lemma hs_room_cancel: "hs_room h n \<Longrightarrow> hs_room (hs_can e h) n"
  unfolding hs_room_def by (simp only: hs_s_key_cancel)

text \<open>The iterator walks through the array once.\<close>

lemma hs_content_Some:
  assumes "hs_repr h xs" "i < h_size h"
  obtains e where "he_elem (h_elems h ! i) = Some e" "e \<in> set xs"
proof -
  have "heap_wf h" using assms(1) by (simp add: hs_repr_def)
  then have "h_elems h ! i \<in> set (heap_content h)"
    using assms(2) by (rule heap_elem_in_content)
  with hs_repr_elem [OF assms(1)] that show ?thesis by blast
qed

lemma hs_repr_iter [simp]: "hs_repr (h\<lparr>h_iter := i\<rparr>) xs = hs_repr h xs"
  by (simp add: hs_repr_def heap_wf_def heap_seq_def heap_content_def)

lemma hs_lookup_loop_correct:
  "hs_repr h xs \<Longrightarrow> 0 < h_iter h \<Longrightarrow> (\<And>e. x = Some e \<Longrightarrow> e \<in> set xs) \<Longrightarrow>
   fst (hs_lookup_loop u x h) = Some e \<Longrightarrow> e \<in> set xs \<and> ev_uid e = u"
proof (induction u x h rule: hs_lookup_loop.induct)
  case (2 u y h)
  show ?case
  proof (cases "ev_uid y = u \<or> h_iter h \<ge> h_size h")
    case True
    with 2 show ?thesis by (auto simp: heap_iter_def split: if_splits)
  next
    case False
    obtain z where "he_elem (h_elems h ! h_iter h) = Some z" "z \<in> set xs"
      using 2 False by (meson hs_content_Some linorder_not_le)
    with 2 False show ?thesis by (simp add: heap_iter_def)
  qed
qed simp

lemma hs_lookup_loop_none:
  assumes "hs_repr h xs" "0 < h_iter h" "x = Some y" "fst (hs_lookup_loop u x h) = None"
  shows "ev_uid y \<noteq> u \<and> (\<forall>i e. h_iter h \<le> i \<longrightarrow> i < h_size h \<longrightarrow>
      he_elem (h_elems h ! i) = Some e \<longrightarrow> ev_uid e \<noteq> u)"
  using assms
proof (induction u x h arbitrary: y rule: hs_lookup_loop.induct)
  case (2 u y' h)
  then have [simp]: "y' = y" by simp
  have y: "ev_uid y \<noteq> u" using "2.prems"(4) by auto
  show ?case
  proof (cases "h_iter h \<ge> h_size h")
    case True
    with y show ?thesis by auto
  next
    case False
    obtain z where z: "he_elem (h_elems h ! h_iter h) = Some z" "z \<in> set xs"
      using "2.prems"(1) False by (meson hs_content_Some linorder_not_le)
    have it: "fst (heap_iter h) = Some z" "snd (heap_iter h) = h\<lparr>h_iter := Suc (h_iter h)\<rparr>"
      using False z by (simp_all add: heap_iter_def)
    have "hs_lookup_loop u (Some y') h = hs_lookup_loop u (fst (heap_iter h)) (snd (heap_iter h))"
      using y by simp
    with "2.prems"(4) have "fst (hs_lookup_loop u (fst (heap_iter h)) (snd (heap_iter h))) = None"
      by metis
    from "2.IH" [OF _ _ _ it(1) this] y "2.prems"(1)
    have rec: "ev_uid z \<noteq> u" "\<And>i e. Suc (h_iter h) \<le> i \<Longrightarrow> i < h_size h \<Longrightarrow>
      he_elem (h_elems h ! i) = Some e \<Longrightarrow> ev_uid e \<noteq> u"
      by (simp_all add: it)
    show ?thesis
    proof (intro conjI allI impI)
      fix i e assume i: "h_iter h \<le> i" "i < h_size h" "he_elem (h_elems h ! i) = Some e"
      show "ev_uid e \<noteq> u"
      proof (cases "i = h_iter h")
        case True
        with i z rec(1) show ?thesis by simp
      next
        case False
        with i rec(2) [of i e] show ?thesis by simp
      qed
    qed (rule y)
  qed
qed simp

lemma hs_find_Some: "hs_repr h xs \<Longrightarrow> hs_find u h = Some e \<Longrightarrow> e \<in> set xs \<and> ev_uid e = u"
proof -
  assume h: "hs_repr h xs" and f: "hs_find u h = Some e"
  show ?thesis
  proof (rule hs_lookup_loop_correct)
    show "hs_repr (h\<lparr>h_iter := 1\<rparr>) xs" using h by simp
    show "fst (hs_lookup_loop u (heap_min h) (h\<lparr>h_iter := 1\<rparr>)) = Some e"
      using f by (simp add: hs_find_def hs_lookup_def heap_iter_init_def)
    show "y \<in> set xs" if "heap_min h = Some y" for y
      using that hs_content_Some [OF h, of 0] by (auto simp: heap_min_def split: if_splits)
  qed simp
qed

lemma hs_find_None:
  assumes h: "hs_repr h xs" and f: "hs_find u h = None" and e: "e \<in> set xs"
  shows "ev_uid e \<noteq> u"
proof -
  have sz: "0 < h_size h" using h e by (cases xs) (auto simp: hs_repr_length)
  obtain y where y: "he_elem (h_elems h ! 0) = Some y" using hs_content_Some [OF h sz] by blast
  let ?g = "h\<lparr>h_iter := 1\<rparr>"
  have "fst (hs_lookup_loop u (Some y) ?g) = None"
    using f sz y by (simp add: hs_find_def hs_lookup_def heap_iter_init_def heap_min_def)
  from hs_lookup_loop_none [OF _ _ refl this, of xs] h
  have none: "ev_uid y \<noteq> u" "\<And>i e. 1 \<le> i \<Longrightarrow> i < h_size h \<Longrightarrow>
      he_elem (h_elems h ! i) = Some e \<Longrightarrow> ev_uid e \<noteq> u"
    by simp_all
  obtain r where r: "r \<in> set (heap_content h)" "he_elem r = Some e"
    using hs_repr_event [OF h e] by blast
  then obtain i where "i < h_size h" "he_elem (h_elems h ! i) = Some e"
    by (auto simp: heap_content_def in_set_conv_nth)
  with none(1) none(2) [of i e] y show ?thesis by (cases "i = 0") simp_all
qed

interpretation hsq: event_queue hs_new hs_insert hs_deque hs_head hs_can hs_find hs_repr hs_room "\<lambda>_. True"
proof unfold_locales
  show "hs_repr q xs \<Longrightarrow> distinct_events xs" for q xs unfolding hs_repr_def by blast
  show "hs_repr hs_new []"
    by (simp add: hs_repr_def hs_new_def heap_wf_new) (simp add: heap_seq_def heap_new_def heap_content_def)
  show "hs_repr q [] \<Longrightarrow> hs_deque q = (None, q)" for q
    using hs_repr_length [of q "[]"] by (simp add: hs_deque_def heap_extract_min_def)
  show "hs_repr q xs \<Longrightarrow> hs_head q = fst (hs_deque q)" for q xs
    by (simp add: hs_head_def heap_min_def hs_deque_def heap_extract_min_def Let_def)
  show "hs_repr q xs \<Longrightarrow> hs_room q n \<Longrightarrow> hs_room (snd (hs_deque q)) n" for q xs n
    by (simp add: hs_room_def hs_deque_def)
  show "hs_repr q xs \<Longrightarrow> hs_room q (Suc n) \<Longrightarrow> hs_room (hs_insert e q) n" for q xs n e
    by (simp add: hs_room_def hs_insert_def)
qed (simp_all add: hs_repr_insert hs_deque_repr hs_repr_cancel hs_room_cancel hs_find_Some hs_find_None)

end
