(* ===== verification/Splay_Scheduler.thy ===== *)
theory Splay_Scheduler
  imports Timer "HOL-Library.Product_Lexorder"
begin

text \<open>
  Class \<open>SplayScheduler\<close> of \<open>common/splay-scheduler.cc\<close>: the event queue as a binary
  search tree by event time, whose nodes are the events (\<open>prev_\<close> is the left and
  \<open>next_\<close> the right link). \<open>insert\<close> splays top-down: it cuts the tree along the search
  path into a left and a right tree, growing the left tree at its bottom right (\<open>l\<close>) and
  the right tree at its bottom left (\<open>r\<close>). The two growing trees are lists of the nodes
  on these spines, whose missing child is the place the pointer refers to.
\<close>

datatype splay = SNil | SNode splay event splay

record splay_queue =
  sp_root :: splay
  sp_qsize :: int

definition sp_new :: splay_queue where
  "sp_new = \<lparr>sp_root = SNil, sp_qsize = 0\<rparr>"

fun close_left :: "(splay \<times> event) list \<Rightarrow> splay \<Rightarrow> splay" where
  "close_left [] t = t"
| "close_left ((a, x) # L) t = SNode a x (close_left L t)"

fun close_right :: "(event \<times> splay) list \<Rightarrow> splay \<Rightarrow> splay" where
  "close_right [] t = t"
| "close_right ((x, b) # R) t = SNode (close_right R t) x b"

text \<open>The loop of \<open>insert\<close>: rotate, link, until the rest of the tree is empty.\<close>

function sp_split ::
  "real \<Rightarrow> splay \<Rightarrow> (splay \<times> event) list \<Rightarrow> (event \<times> splay) list \<Rightarrow> splay \<times> splay" where
  "sp_split time SNil L R = (close_left L SNil, close_right R SNil)"
| "sp_split time (SNode a x b) L R =
     (if time < ev_time x then
        (case a of
           SNil \<Rightarrow> (close_left L SNil, close_right R (SNode a x b))
         | SNode a1 y a2 \<Rightarrow>
             (if time < ev_time y
              then sp_split time a1 L (R @ [(y, SNode a2 x b)])
              else sp_split time a L (R @ [(x, b)])))
      else
        (case b of
           SNil \<Rightarrow> (close_left L (SNode a x b), close_right R SNil)
         | SNode b1 y b2 \<Rightarrow>
             (if time \<ge> ev_time y
              then sp_split time b2 (L @ [(SNode a x b1, y)]) R
              else sp_split time b (L @ [(a, x)]) R)))"
  by pat_completeness auto
termination by (relation "measure (\<lambda>(k, t, L, R). size t)") auto

definition sp_insert :: "event \<Rightarrow> splay_queue \<Rightarrow> splay_queue" where
  "sp_insert n s =
     (if sp_root s = SNil then \<lparr>sp_root = SNode SNil n SNil, sp_qsize = sp_qsize s + 1\<rparr>
      else let (l, r) = sp_split (ev_time n) (sp_root s) [] []
           in \<lparr>sp_root = SNode l n r, sp_qsize = sp_qsize s + 1\<rparr>)"

fun sp_leftmost :: "splay \<Rightarrow> event option" where
  "sp_leftmost SNil = None"
| "sp_leftmost (SNode SNil x b) = Some x"
| "sp_leftmost (SNode a x b) = sp_leftmost a"

definition sp_head :: "splay_queue \<Rightarrow> event option" where
  "sp_head s = sp_leftmost (sp_root s)"

text \<open>The loop of \<open>deque\<close> on the left subtree \<open>l\<close>: zig-zig down to the first event.\<close>

fun sp_deque_left :: "splay \<Rightarrow> event option \<times> splay" where
  "sp_deque_left SNil = (None, SNil)"
| "sp_deque_left (SNode SNil y b) = (Some y, b)"
| "sp_deque_left (SNode (SNode SNil z c) y b) = (Some z, SNode c y b)"
| "sp_deque_left (SNode (SNode (SNode p w q) z c) y b) =
     (let (m, p') = sp_deque_left (SNode p w q) in (m, SNode p' z (SNode c y b)))"

definition sp_deque :: "splay_queue \<Rightarrow> event option \<times> splay_queue" where
  "sp_deque s =
     (case sp_root s of
        SNil \<Rightarrow> (None, s)
      | SNode SNil x b \<Rightarrow> (Some x, \<lparr>sp_root = b, sp_qsize = sp_qsize s - 1\<rparr>)
      | SNode a x b \<Rightarrow>
          (let (m, a') = sp_deque_left a
           in (m, \<lparr>sp_root = SNode a' x b, sp_qsize = sp_qsize s - 1\<rparr>)))"

text \<open>\<open>cancel\<close>: unlink the successor of the event and put it in its place.\<close>

fun sp_take_left :: "splay \<Rightarrow> event option \<times> splay" where
  "sp_take_left SNil = (None, SNil)"
| "sp_take_left (SNode SNil z c) = (Some z, c)"
| "sp_take_left (SNode a y c) = (let (m, a') = sp_take_left a in (m, SNode a' y c))"

definition sp_join :: "splay \<Rightarrow> splay \<Rightarrow> splay" where
  "sp_join a b =
     (if b = SNil then a
      else if a = SNil then b
      else case b of
          SNode SNil y c \<Rightarrow> SNode a y c
        | _ \<Rightarrow> (case sp_take_left b of (Some q, b') \<Rightarrow> SNode a q b' | (None, b') \<Rightarrow> a))"

fun sp_unlink :: "event \<Rightarrow> splay \<Rightarrow> splay res" where
  "sp_unlink e SNil = Fail Abort"
| "sp_unlink e (SNode a x b) =
     (if ev_addr x = ev_addr e then Ok (sp_join a b)
      else if ev_time e > ev_time x \<or> (ev_time e = ev_time x \<and> ev_uid e > ev_uid x)
      then res_bind (sp_unlink e b) (\<lambda>b'. Ok (SNode a x b'))
      else res_bind (sp_unlink e a) (\<lambda>a'. Ok (SNode a' x b)))"

definition sp_cancel :: "event \<Rightarrow> splay_queue \<Rightarrow> (splay_queue \<times> event) res" where
  "sp_cancel e s =
     (if ev_uid e \<le> 0 then Ok (s, e)
      else res_bind (sp_unlink e (sp_root s))
        (\<lambda>t. Ok (\<lparr>sp_root = t, sp_qsize = sp_qsize s - 1\<rparr>, ev_negate_uid e)))"

fun sp_uid_lookup :: "int \<Rightarrow> splay \<Rightarrow> event option" where
  "sp_uid_lookup u SNil = None"
| "sp_uid_lookup u (SNode a x b) =
     (if ev_uid x = u then Some x
      else case sp_uid_lookup u a of Some e \<Rightarrow> Some e | None \<Rightarrow> sp_uid_lookup u b)"

definition sp_lookup :: "int \<Rightarrow> splay_queue \<Rightarrow> event option" where
  "sp_lookup u s = sp_uid_lookup u (sp_root s)"

fun sp_validate :: "splay \<Rightarrow> nat res" where
  "sp_validate SNil = Ok 0"
| "sp_validate (SNode a x b) =
     (if (case a of SNil \<Rightarrow> True | SNode _ y _ \<Rightarrow> ev_time x \<ge> ev_time y) \<and>
         (case b of SNil \<Rightarrow> True | SNode _ y _ \<Rightarrow> ev_time x \<le> ev_time y)
      then res_bind (sp_validate a) (\<lambda>m. res_bind (sp_validate b) (\<lambda>n. Ok (1 + m + n)))
      else Fail Assertion)"

section \<open>Correctness\<close>

fun inorder :: "splay \<Rightarrow> event list" where
  "inorder SNil = []"
| "inorder (SNode a x b) = inorder a @ x # inorder b"

fun left_events :: "(splay \<times> event) list \<Rightarrow> event list" where
  "left_events [] = []"
| "left_events ((a, x) # L) = inorder a @ x # left_events L"

fun right_events :: "(event \<times> splay) list \<Rightarrow> event list" where
  "right_events [] = []"
| "right_events ((x, b) # R) = right_events R @ x # inorder b"

lemma inorder_close [simp]:
  "inorder (close_left L t) = left_events L @ inorder t"
  "inorder (close_right R t) = inorder t @ right_events R"
  by (induction L t rule: close_left.induct, simp_all)
     (induction R t rule: close_right.induct, simp_all)

lemma left_events_snoc [simp]: "left_events (L @ [(a, x)]) = left_events L @ inorder a @ [x]"
  by (induction L) auto

lemma right_events_snoc [simp]: "right_events (R @ [(x, b)]) = x # inorder b @ right_events R"
  by (induction R) auto

abbreviation time_sorted :: "event list \<Rightarrow> bool" where
  "time_sorted xs \<equiv> sorted (map ev_time xs)"

text \<open>Splitting cuts the events behind the last one that is not later than \<open>time\<close>.\<close>

lemma sp_split_correct:
  "time_sorted (inorder t) \<Longrightarrow> sp_split k t L R = (l, r) \<Longrightarrow>
   \<exists>us vs. inorder t = us @ vs \<and> inorder l = left_events L @ us \<and> inorder r = vs @ right_events R \<and>
     (\<forall>u \<in> set us. ev_time u \<le> k) \<and> (\<forall>v \<in> set vs. k < ev_time v)"
proof (induction k t L R rule: sp_split.induct)
  case (1 k L R)
  then show ?case by auto
next
  case (2 k a x b L R)
  have srt: "time_sorted (inorder a)" "time_sorted (inorder b)"
    "\<forall>u \<in> set (inorder a). ev_time u \<le> ev_time x" "\<forall>v \<in> set (inorder b). ev_time x \<le> ev_time v"
    using "2.prems"(1) by (auto simp: sorted_append)
  show ?case
  proof (cases "k < ev_time x")
    case True
    show ?thesis
    proof (cases a)
      case SNil
      with True 2 srt show ?thesis
        by (intro exI [of _ "[]"] exI [of _ "inorder (SNode a x b)"]) (auto intro: less_le_trans)
    next
      case (SNode a1 y a2)
      show ?thesis
      proof (cases "k < ev_time y")
        case early: True
        have "sp_split k a1 L (R @ [(y, SNode a2 x b)]) = (l, r)"
          using "2.prems"(2) True SNode early by simp
        from "2.IH"(1) [OF True SNode early _ this] srt SNode
        obtain us vs where uv: "inorder a1 = us @ vs" "inorder l = left_events L @ us"
          "inorder r = vs @ right_events (R @ [(y, SNode a2 x b)])"
          "\<forall>u \<in> set us. ev_time u \<le> k" "\<forall>v \<in> set vs. k < ev_time v"
          by (auto simp: sorted_append)
        show ?thesis
          using uv True SNode early srt
          by (intro exI [of _ us] exI [of _ "vs @ y # inorder a2 @ x # inorder b"])
             (auto simp: sorted_append intro: less_le_trans)
      next
        case late: False
        have "sp_split k a L (R @ [(x, b)]) = (l, r)"
          using "2.prems"(2) True SNode late by simp
        from "2.IH"(2) [OF True SNode late _ this] srt
        obtain us vs where uv: "inorder a = us @ vs" "inorder l = left_events L @ us"
          "inorder r = vs @ right_events (R @ [(x, b)])"
          "\<forall>u \<in> set us. ev_time u \<le> k" "\<forall>v \<in> set vs. k < ev_time v" by auto
        show ?thesis
          using uv True srt
          by (intro exI [of _ us] exI [of _ "vs @ x # inorder b"]) (auto intro: less_le_trans)
      qed
    qed
  next
    case False
    show ?thesis
    proof (cases b)
      case SNil
      with False 2 srt show ?thesis
        by (intro exI [of _ "inorder (SNode a x b)"] exI [of _ "[]"]) (auto intro: order_trans)
    next
      case (SNode b1 y b2)
      show ?thesis
      proof (cases "k \<ge> ev_time y")
        case late: True
        have "sp_split k b2 (L @ [(SNode a x b1, y)]) R = (l, r)"
          using "2.prems"(2) False SNode late by simp
        from "2.IH"(3) [OF False SNode late _ this] srt SNode
        obtain us vs where uv: "inorder b2 = us @ vs"
          "inorder l = left_events (L @ [(SNode a x b1, y)]) @ us" "inorder r = vs @ right_events R"
          "\<forall>u \<in> set us. ev_time u \<le> k" "\<forall>v \<in> set vs. k < ev_time v"
          by (auto simp: sorted_append)
        show ?thesis
          using uv False SNode late srt
          by (intro exI [of _ "inorder a @ x # inorder b1 @ y # us"] exI [of _ vs])
             (auto simp: sorted_append intro: order_trans)
      next
        case early: False
        have "sp_split k b (L @ [(a, x)]) R = (l, r)"
          using "2.prems"(2) False SNode early by simp
        from "2.IH"(4) [OF False SNode early _ this] srt
        obtain us vs where uv: "inorder b = us @ vs" "inorder l = left_events (L @ [(a, x)]) @ us"
          "inorder r = vs @ right_events R"
          "\<forall>u \<in> set us. ev_time u \<le> k" "\<forall>v \<in> set vs. k < ev_time v" by auto
        show ?thesis
          using uv False srt
          by (intro exI [of _ "inorder a @ x # us"] exI [of _ vs]) (auto intro: order_trans)
      qed
    qed
  qed
qed

lemma inorder_insert:
  assumes "time_sorted (inorder (sp_root s))"
  shows "inorder (sp_root (sp_insert e s)) = insert_after ev_time e (inorder (sp_root s))"
proof -
  obtain l r where lr: "sp_split (ev_time e) (sp_root s) [] [] = (l, r)" by fastforce
  from sp_split_correct [OF assms this] obtain us vs where
    uv: "inorder (sp_root s) = us @ vs" "inorder l = us" "inorder r = vs"
    "\<forall>u \<in> set us. ev_time u \<le> ev_time e" "\<forall>v \<in> set vs. ev_time e < ev_time v" by auto
  then have "insert_after ev_time e (us @ vs) = us @ e # vs"
    by (simp add: insert_after_append insert_after_front)
  with lr uv show ?thesis by (cases "sp_root s") (simp_all add: sp_insert_def)
qed

lemma sp_deque_left_inorder:
  "t \<noteq> SNil \<Longrightarrow> sp_deque_left t = (m, t') \<Longrightarrow> \<exists>e. m = Some e \<and> inorder t = e # inorder t'"
  by (induction t arbitrary: m t' rule: sp_deque_left.induct) (auto split: prod.splits)

lemma sp_deque_inorder:
  "sp_root s \<noteq> SNil \<Longrightarrow> \<exists>e. fst (sp_deque s) = Some e \<and>
     inorder (sp_root s) = e # inorder (sp_root (snd (sp_deque s)))"
  using sp_deque_left_inorder
  by (fastforce simp: sp_deque_def split: splay.splits prod.splits)

lemma sp_take_left_inorder:
  "t \<noteq> SNil \<Longrightarrow> sp_take_left t = (m, t') \<Longrightarrow> \<exists>e. m = Some e \<and> inorder t = e # inorder t'"
  by (induction t arbitrary: m t' rule: sp_take_left.induct) (auto split: prod.splits)

lemma inorder_join [simp]: "inorder (sp_join a b) = inorder a @ inorder b"
  using sp_take_left_inorder [of b]
  by (fastforce simp: sp_join_def split: splay.splits prod.splits option.splits)

lemma sp_leftmost_hd: "sp_leftmost t = (if t = SNil then None else Some (hd (inorder t)))"
  by (induction t rule: sp_leftmost.induct) (auto simp: hd_append)

lemma sp_uid_lookup_Some: "sp_uid_lookup u t = Some e \<Longrightarrow> e \<in> set (inorder t) \<and> ev_uid e = u"
  by (induction t) (auto split: if_splits option.splits)

lemma sp_uid_lookup_None: "sp_uid_lookup u t = None \<longleftrightarrow> (\<forall>e \<in> set (inorder t). ev_uid e \<noteq> u)"
  by (induction t) (auto split: option.splits)

lemma inorder_Nil_iff [simp]: "inorder t = [] \<longleftrightarrow> t = SNil"
  by (cases t) auto

lemma sp_validate_sorted:
  "time_sorted (inorder t) \<Longrightarrow> sp_validate t = Ok (length (inorder t))"
  by (induction t) (auto simp: sorted_append split: splay.splits)

text \<open>
  Cancelling finds the event by time and, among events of one time, by \<open>uid_\<close>; this needs
  the events of one time in the order of their identifiers.
\<close>

definition ev_key :: "event \<Rightarrow> real \<times> int" where
  "ev_key e = (ev_time e, ev_uid e)"

abbreviation key_sorted :: "event list \<Rightarrow> bool" where
  "key_sorted xs \<equiv> sorted_wrt (\<lambda>x y. ev_key x < ev_key y) xs"

lemma sp_unlink_correct:
  "key_sorted (inorder t) \<Longrightarrow> distinct_events (inorder t) \<Longrightarrow> e \<in> set (inorder t) \<Longrightarrow>
   \<exists>t'. sp_unlink e t = Ok t' \<and> inorder t' = remove1 e (inorder t)"
proof (induction t)
  case (SNode a x b)
  show ?case
  proof (cases "ev_addr x = ev_addr e")
    case True
    then have "x = e" using SNode.prems distinct_events_eq [of "inorder (SNode a x b)" x e] by auto
    with SNode.prems show ?thesis by (auto simp: remove1_append)
  next
    case False
    show ?thesis
    proof (cases "ev_key x < ev_key e")
      case True
      then have gt: "ev_time e > ev_time x \<or> (ev_time e = ev_time x \<and> ev_uid e > ev_uid x)"
        by (auto simp: ev_key_def)
      have "e \<notin> set (inorder a)" using SNode.prems True by (auto simp: sorted_wrt_append)
      with SNode False gt show ?thesis by (auto simp: sorted_wrt_append)
    next
      case nless: False
      then have ngt: "\<not> (ev_time e > ev_time x \<or> (ev_time e = ev_time x \<and> ev_uid e > ev_uid x))"
        by (auto simp: ev_key_def)
      have "e \<in> set (inorder a)" using SNode.prems nless False by (auto simp: sorted_wrt_append)
      with SNode False ngt show ?thesis by (auto simp: sorted_wrt_append remove1_append)
    qed
  qed
qed simp

lemma key_sorted_insert_after:
  "key_sorted xs \<Longrightarrow> (\<And>x. x \<in> set xs \<Longrightarrow> ev_uid x < ev_uid e) \<Longrightarrow>
   key_sorted (insert_after ev_time e xs)"
  by (induction xs) (auto simp: ev_key_def)

lemma key_sorted_pending:
  "sorted_wrt (<) (map ev_uid xs) \<Longrightarrow> key_sorted (pending_order xs)"
proof (induction xs rule: rev_induct)
  case Nil
  then show ?case by (simp add: pending_order_def)
next
  case (snoc e xs)
  then show ?case
    by (auto simp: pending_order_snoc sorted_wrt_append intro!: key_sorted_insert_after)
qed

definition sp_repr :: "splay_queue \<Rightarrow> event list \<Rightarrow> bool" where
  "sp_repr s xs \<longleftrightarrow> distinct_events xs \<and> sorted_wrt (<) (map ev_uid xs) \<and>
     inorder (sp_root s) = pending_order xs \<and> sp_qsize s = int (length xs)"

definition sp_can :: "event \<Rightarrow> splay_queue \<Rightarrow> splay_queue" where
  "sp_can e s = (case sp_cancel e s of Inr (s', _) \<Rightarrow> s' | Inl _ \<Rightarrow> s)"

lemma sorted_uid_remove1:
  "sorted_wrt (<) (map ev_uid xs) \<Longrightarrow> sorted_wrt (<) (map ev_uid (remove1 e xs))"
  by (induction xs) (auto dest: notin_set_remove1)

lemma sp_insert_qsize [simp]: "sp_qsize (sp_insert e s) = sp_qsize s + 1"
  by (simp add: sp_insert_def split: prod.split)

lemma sp_deque_qsize: "sp_root s \<noteq> SNil \<Longrightarrow> sp_qsize (snd (sp_deque s)) = sp_qsize s - 1"
  by (auto simp: sp_deque_def split: splay.splits prod.splits)

lemma sp_repr_insert:
  "sp_repr s xs \<Longrightarrow> ev_addr e \<notin> ev_addr ` set xs \<Longrightarrow> (\<And>x. x \<in> set xs \<Longrightarrow> ev_uid x < ev_uid e) \<Longrightarrow>
   sp_repr (sp_insert e s) (xs @ [e])"
  by (simp add: sp_repr_def inorder_insert sorted_pending_order pending_order_snoc sorted_wrt_append)

lemma sp_deque_repr:
  assumes "sp_repr s xs" "xs \<noteq> []"
  shows "fst (sp_deque s) = Some (earliest xs) \<and> sp_repr (snd (sp_deque s)) (remove1 (earliest xs) xs)"
proof -
  have "inorder (sp_root s) \<noteq> []" using assms by (simp add: sp_repr_def del: inorder_Nil_iff)
  then have root: "sp_root s \<noteq> SNil" by simp
  from sp_deque_inorder [OF root] obtain e where
    e: "fst (sp_deque s) = Some e" "pending_order xs = e # inorder (sp_root (snd (sp_deque s)))"
    using assms by (auto simp: sp_repr_def)
  then have "e = earliest xs \<and> inorder (sp_root (snd (sp_deque s))) = pending_order (remove1 e xs)"
    using assms pending_order_deque by (metis sp_repr_def)
  with e assms root show ?thesis
    by (auto simp: sp_repr_def sp_deque_qsize distinct_events_remove1 sorted_uid_remove1
        length_remove1 earliest_in_set of_nat_diff Suc_le_eq)
qed

lemma sp_cancel_correct:
  assumes "sp_repr s xs" "e \<in> set xs" "0 < ev_uid e"
  obtains s' where "sp_cancel e s = Ok (s', ev_negate_uid e)" "sp_repr s' (remove1 e xs)"
proof -
  have "key_sorted (inorder (sp_root s))" "distinct_events (inorder (sp_root s))"
    "e \<in> set (inorder (sp_root s))"
    using assms by (simp_all add: sp_repr_def key_sorted_pending)
  from sp_unlink_correct [OF this] obtain t where
    t: "sp_unlink e (sp_root s) = Ok t" "inorder t = remove1 e (inorder (sp_root s))" by blast
  let ?s = "\<lparr>sp_root = t, sp_qsize = sp_qsize s - 1\<rparr>"
  have "0 < length xs" using assms(2) by (cases xs) auto
  then have "sp_repr ?s (remove1 e xs)"
    using assms(1,2) t by (simp add: sp_repr_def distinct_events_remove1 sorted_uid_remove1
        pending_order_remove1 length_remove1 of_nat_diff Suc_le_eq)
  moreover have "sp_cancel e s = Ok (?s, ev_negate_uid e)"
    using t assms(3) by (simp add: sp_cancel_def)
  ultimately show ?thesis using that by blast
qed

interpretation spq: event_queue sp_new sp_insert sp_deque sp_head sp_can sp_lookup sp_repr
  "\<lambda>_ _. True" "\<lambda>_. True"
proof unfold_locales
  show "sp_repr q xs \<Longrightarrow> sp_head q = fst (sp_deque q)" for q xs
    using sp_deque_inorder [of q] sp_leftmost_hd [of "sp_root q"]
    by (cases "sp_root q = SNil") (auto simp: sp_head_def sp_deque_def)
  show "sp_repr q xs \<Longrightarrow> e \<in> set xs \<Longrightarrow> 0 < ev_uid e \<Longrightarrow> sp_repr (sp_can e q) (remove1 e xs)" for q xs e
    by (metis (no_types, lifting) case_prod_conv sp_can_def sp_cancel_correct sum.case(2))
  show "sp_repr q xs \<Longrightarrow> sp_lookup u q = Some e \<Longrightarrow> e \<in> set xs \<and> ev_uid e = u" for q xs u e
    using sp_uid_lookup_Some [of u "sp_root q" e] by (simp add: sp_lookup_def sp_repr_def)
  show "sp_repr q xs \<Longrightarrow> sp_lookup u q = None \<Longrightarrow> e \<in> set xs \<Longrightarrow> ev_uid e \<noteq> u" for q xs u e
    using sp_uid_lookup_None [of u "sp_root q"] by (simp add: sp_lookup_def sp_repr_def)
  show "sp_repr q [] \<Longrightarrow> sp_deque q = (None, q)" for q
    by (simp add: sp_repr_def pending_order_def sp_deque_def)
qed (simp_all add: sp_repr_insert sp_deque_repr,
     simp_all add: sp_repr_def sp_new_def pending_order_def)

end
