(* ===== verification/Calendar_Queue.thy ===== *)
theory Calendar_Queue
  imports Event_Queue
begin

text \<open>
  Class \<open>CalendarScheduler\<close> of \<open>common/scheduler.cc\<close>: events are hashed by time into an array
  of buckets, each a circular list in order of time, here the list of its events from \<open>list_\<close> on.
  The width of a bucket and the number of buckets adapt to the events (\<open>resize\<close>).
\<close>

record bucket =
  bk_list :: "event list"
  bk_count :: int

record calendar =
  ca_min_bin_width :: real
  ca_adjust :: nat
  ca_time_to_newwidth :: nat
  ca_head_search :: nat
  ca_insert_search :: nat
  ca_round_num :: int
  ca_gap_num :: int
  ca_last_time :: real
  ca_avg_gap :: real
  ca_width :: real
  ca_diff0 :: real
  ca_diff1 :: real
  ca_diff2 :: real
  ca_stat_qsize :: int
  ca_nbuckets :: nat
  ca_lastbucket :: int
  ca_top :: int
  ca_bot :: int
  ca_buckets :: "bucket list"
  ca_qsize :: int
  ca_clock :: real

definition bucket_new :: bucket where
  "bucket_new = \<lparr>bk_list = [], bk_count = 0\<rparr>"

section \<open>The hash function\<close>

definition cal_hash :: "real \<Rightarrow> nat \<Rightarrow> real \<Rightarrow> int" where
  "cal_hash width n t = trunc (fmod (t / width) (real n))"

section \<open>Insertion\<close>

text \<open>
  \<open>insert\<close> into a bucket searches from the tail and goes behind events of equal time; the
  second result is the number of events it passes. \<open>insert2\<close> searches from the head and goes
  before events of equal time.
\<close>

definition bk_place :: "event \<Rightarrow> event list \<Rightarrow> event list \<times> nat" where
  "bk_place e xs =
     (let later = takeWhile (\<lambda>x. ev_time e < ev_time x) (rev xs)
      in (rev (dropWhile (\<lambda>x. ev_time e < ev_time x) (rev xs)) @ e # rev later, length later))"

definition bk_insert :: "event \<Rightarrow> bucket \<Rightarrow> bucket \<times> bool \<times> nat" where
  "bk_insert e b =
     (case bk_list b of
        [] \<Rightarrow> (\<lparr>bk_list = [e], bk_count = bk_count b + 1\<rparr>, True, 0)
      | h # t \<Rightarrow>
          if ev_time e < ev_time h then (\<lparr>bk_list = e # h # t, bk_count = bk_count b + 1\<rparr>, True, 1)
          else
            let (xs, k) = bk_place e (h # t);
                after = rev (h # t) ! k;
                uniq = ev_time after < ev_time e
            in (\<lparr>bk_list = xs, bk_count = bk_count b + (if uniq then 1 else 0)\<rparr>, uniq, Suc k))"

definition bk_insert2 :: "event \<Rightarrow> bucket \<Rightarrow> bucket \<times> bool" where
  "bk_insert2 e b =
     (case bk_list b of
        [] \<Rightarrow> (\<lparr>bk_list = [e], bk_count = bk_count b + 1\<rparr>, True)
      | h # t \<Rightarrow>
          let xs = h # t;
              front = (if ev_time (last xs) < ev_time e then xs else takeWhile (\<lambda>x. ev_time x < ev_time e) xs);
              back = drop (length front) xs;
              ys = front @ e # back;
              next = (if back = [] then hd ys else hd back);
              uniq = (ev_time next \<noteq> ev_time e)
          in (\<lparr>bk_list = ys, bk_count = bk_count b + (if uniq then 1 else 0)\<rparr>, uniq))"

definition cal_reinit :: "nat \<Rightarrow> real \<Rightarrow> real \<Rightarrow> calendar \<Rightarrow> calendar" where
  "cal_reinit nbuck bwidth start c =
     (let d0 = bwidth * real nbuck / 2
      in c\<lparr>ca_buckets := replicate nbuck bucket_new, ca_width := bwidth, ca_nbuckets := nbuck,
           ca_qsize := 0, ca_stat_qsize := 0, ca_lastbucket := cal_hash bwidth nbuck start,
           ca_diff0 := d0, ca_diff1 := d0 + bwidth, ca_diff2 := bwidth * real nbuck,
           ca_bot := int (nbuck div 2) - 2, ca_top := int (nbuck * 2)\<rparr>)"

definition cal_new :: "nat \<Rightarrow> real \<Rightarrow> calendar \<Rightarrow> calendar" where
  "cal_new adjust min_width c =
     (let c1 = c\<lparr>ca_adjust := adjust, ca_min_bin_width := min_width, ca_clock := 0\<rparr>;
          c2 = (if adjust \<noteq> 0
                then c1\<lparr>ca_avg_gap := -2, ca_last_time := -2, ca_gap_num := 0, ca_head_search := 0,
                        ca_insert_search := 0, ca_round_num := 0, ca_time_to_newwidth := adjust\<rparr>
                else c1)
      in cal_reinit 4 1 (ca_clock c2) c2)"

definition cal_insert2 :: "event \<Rightarrow> calendar \<Rightarrow> calendar res" where
  "cal_insert2 e c =
     (let i = cal_hash (ca_width c) (ca_nbuckets c) (ev_time e)
      in if i < 0 \<or> nat i \<ge> length (ca_buckets c) then Fail Bad_Index
         else let (b, uniq) = bk_insert2 e (ca_buckets c ! nat i)
              in Ok (c\<lparr>ca_buckets := (ca_buckets c)[nat i := b], ca_qsize := ca_qsize c + 1,
                       ca_stat_qsize := ca_stat_qsize c + (if uniq then 1 else 0)\<rparr>))"

section \<open>Changing the size or the width\<close>

fun insert_all :: "event list \<Rightarrow> calendar \<Rightarrow> calendar res" where
  "insert_all [] c = Ok c"
| "insert_all (e # es) c = res_bind (cal_insert2 e c) (insert_all es)"

definition max_bucket :: "bucket list \<Rightarrow> nat" where
  "max_bucket bs =
     foldl (\<lambda>m i. if bk_count (bs ! i) > bk_count (bs ! m) then i else m) 0 [1..<length bs]"

definition cal_newwidth :: "nat \<Rightarrow> calendar \<Rightarrow> (real \<times> calendar) res" where
  "cal_newwidth newsize c =
     (let c1 = (if ca_adjust c \<noteq> 0 then c\<lparr>ca_time_to_newwidth := ca_adjust c\<rparr> else c)
      in if ca_adjust c \<noteq> 0 \<and> ca_avg_gap c > 0 then Ok (ca_avg_gap c * 4, c1)
         else
           let b = ca_buckets c ! max_bucket (ca_buckets c);
               nsamples = bk_count b
           in if nsamples \<le> 4 then Ok (ca_width c, c1)
              else if bk_list b = [] then Fail Null_Deref
              else
                let nw = ev_time (last (bk_list b)) - ev_time (hd (bk_list b))
                in if nw \<le> 0 then Fail Assertion
                   else Ok (nw / (if int newsize < nsamples then real newsize else of_int nsamples) * 4, c1))"

text \<open>The last part of \<open>resize\<close>: new buckets, filled from the old ones.\<close>

definition cal_rebuild :: "nat \<Rightarrow> real \<Rightarrow> real \<Rightarrow> calendar \<Rightarrow> calendar res" where
  "cal_rebuild newsize bwidth start c =
     res_bind (insert_all (concat (map (\<lambda>b. rev (bk_list b)) (ca_buckets c))) (cal_reinit newsize bwidth start c))
       (\<lambda>c1. Ok (c1\<lparr>ca_head_search := 0, ca_insert_search := 0, ca_round_num := 0\<rparr>))"

definition cal_resize :: "nat \<Rightarrow> real \<Rightarrow> calendar \<Rightarrow> calendar res" where
  "cal_resize newsize start c =
     (if newsize = ca_nbuckets c then
        let w0 = (if ca_head_search c \<noteq> 0 then real (ca_head_search c) else 1);
            w1 = (if ca_insert_search c \<noteq> 0 then w0 / real (ca_insert_search c) else w0);
            w2 = sqrt w1 * ca_width c
        in if w2 < ca_min_bin_width c then
             (if ca_time_to_newwidth c > 0
              then Ok (c\<lparr>ca_time_to_newwidth := ca_time_to_newwidth c - 1, ca_head_search := 0,
                         ca_insert_search := 0, ca_round_num := 0\<rparr>)
              else res_bind (cal_newwidth newsize c) (\<lambda>(w, c1). cal_rebuild newsize w start c1))
           else cal_rebuild newsize w2 start c
      else res_bind (cal_newwidth newsize c) (\<lambda>(w, c1). cal_rebuild (max newsize 4) w start c1))"

definition cal_insert :: "event \<Rightarrow> calendar \<Rightarrow> calendar res" where
  "cal_insert e c =
     (let i = cal_hash (ca_width c) (ca_nbuckets c) (ev_time e);
          c0 = (if ca_clock c > ev_time e then c\<lparr>ca_clock := ev_time e, ca_lastbucket := i\<rparr> else c)
      in if i < 0 \<or> nat i \<ge> length (ca_buckets c) then Fail Bad_Index
         else
           let (b, uniq, search) = bk_insert e (ca_buckets c0 ! nat i);
               c1 = c0\<lparr>ca_buckets := (ca_buckets c0)[nat i := b], ca_qsize := ca_qsize c0 + 1,
                       ca_stat_qsize := ca_stat_qsize c0 + (if uniq then 1 else 0),
                       ca_insert_search := ca_insert_search c0 + search\<rparr>
           in if ca_stat_qsize c1 > ca_top c1 then cal_resize (ca_nbuckets c1 * 2) (ca_clock c1) c1
              else Ok c1)"

section \<open>The earliest event\<close>

text \<open>
  One \<open>CAL_DEQUEUE\<close> at bucket \<open>i\<close>: \<open>Inl\<close> is the jump to \<open>found_l\<close> with the bucket and the
  event, \<open>Inr\<close> the earliest head of a bucket seen so far.
\<close>

type_synonym seen = "(nat \<times> event) option"

definition cal_probe :: "real \<Rightarrow> nat \<Rightarrow> seen \<Rightarrow> calendar \<Rightarrow> (nat \<times> event) + seen" where
  "cal_probe diff i m c =
     (case bk_list (ca_buckets c ! i) of
        [] \<Rightarrow> Inr m
      | e # _ \<Rightarrow>
          if ev_time e - ca_clock c < diff then Inl (i, e)
          else Inr (case m of
                 None \<Rightarrow> Some (i, e)
               | Some (l, x) \<Rightarrow> if ev_time x > ev_time e then Some (i, e) else m))"

definition cal_next :: "nat \<Rightarrow> nat \<Rightarrow> nat" where
  "cal_next n i = (if Suc i = n then 0 else Suc i)"

text \<open>The last bucket is left unchecked: the earlier of its head and the earliest seen.\<close>

definition cal_final :: "nat \<Rightarrow> seen \<Rightarrow> calendar \<Rightarrow> (nat \<times> event) res" where
  "cal_final i m c =
     (case (m, bk_list (ca_buckets c ! i)) of
        (None, []) \<Rightarrow> Fail Null_Deref
      | (None, e # _) \<Rightarrow> Ok (i, e)
      | (Some (l, x), []) \<Rightarrow> Ok (l, x)
      | (Some (l, x), e # _) \<Rightarrow> if ev_time x < ev_time e then Ok (l, x) else Ok (i, e))"

partial_function (option) cal_year ::
  "nat \<Rightarrow> nat \<Rightarrow> seen \<Rightarrow> nat \<Rightarrow> calendar \<Rightarrow> ((nat \<times> event) res \<times> nat) option" where
  "cal_year stop i m k c =
     (if i = stop then Some (cal_final i m c, k)
      else case cal_probe (ca_diff2 c) i m c of
          Inl r \<Rightarrow> Some (Ok r, Suc k)
        | Inr m' \<Rightarrow> cal_year stop (cal_next (ca_nbuckets c) i) m' (Suc k) c)"

definition cal_search :: "calendar \<Rightarrow> ((nat \<times> event) res \<times> nat) option" where
  "cal_search c =
     (let n = ca_nbuckets c; i = nat (ca_lastbucket c);
          stop = (if i \<noteq> 0 then i - 1 else n - 1)
      in case cal_probe (ca_diff0 c) i None c of
           Inl r \<Rightarrow> Some (Ok r, 1)
         | Inr m0 \<Rightarrow>
             (case cal_probe (ca_diff1 c) (cal_next n i) m0 c of
                Inl r \<Rightarrow> Some (Ok r, 2)
              | Inr m1 \<Rightarrow> cal_year stop (cal_next n (cal_next n i)) m1 2 c))"

definition cal_head :: "calendar \<Rightarrow> (event option \<times> calendar) res" where
  "cal_head c =
     (if ca_qsize c = 0 then Ok (None, c)
      else case cal_search c of
          None \<Rightarrow> Fail No_Return
        | Some (Inl err, _) \<Rightarrow> Fail err
        | Some (Inr (l, e), k) \<Rightarrow>
            Ok (Some e, c\<lparr>ca_head_search := ca_head_search c + k, ca_lastbucket := int l, ca_clock := ev_time e\<rparr>))"

text \<open>The samples of the gap between departures, and the change of width they lead to.\<close>

definition cal_sample :: "event \<Rightarrow> calendar \<Rightarrow> calendar res" where
  "cal_sample e c =
     (if ca_adjust c = 0 then Ok c
      else if ca_last_time c < 0 then Ok (c\<lparr>ca_last_time := ev_time e\<rparr>)
      else
        let c1 = c\<lparr>ca_gap_num := ca_gap_num c + 1\<rparr>
        in if ca_gap_num c1 \<ge> ca_qsize c1 then
             let c2 = c1\<lparr>ca_avg_gap := (ev_time e - ca_last_time c1) / of_int (ca_gap_num c1), ca_gap_num := 0,
                         ca_last_time := ev_time e, ca_round_num := ca_round_num c1 + 1\<rparr>
             in if ca_round_num c2 > 20 \<and>
                   (ca_head_search c2 > ca_insert_search c2 * 2 \<or> ca_insert_search c2 > ca_head_search c2 * 2)
                then res_bind (cal_resize (ca_nbuckets c2) (ca_clock c2) c2) (\<lambda>c3. Ok (c3\<lparr>ca_round_num := 0\<rparr>))
                else if ca_round_num c2 > 100
                then Ok (c2\<lparr>ca_round_num := 0, ca_head_search := 0, ca_insert_search := 0\<rparr>)
                else Ok c2
           else Ok c1)"

text \<open>Unlinking the first event \<open>e\<close> of bucket \<open>l\<close>.\<close>

definition cal_unlink_head :: "event \<Rightarrow> nat \<Rightarrow> calendar \<Rightarrow> calendar" where
  "cal_unlink_head e l c =
     (let b = ca_buckets c ! l; rest = tl (bk_list b);
          uniq = (rest = [] \<or> ev_time (hd rest) \<noteq> ev_time e)
      in c\<lparr>ca_buckets := (ca_buckets c)[l := \<lparr>bk_list = rest, bk_count = bk_count b - (if uniq then 1 else 0)\<rparr>],
           ca_stat_qsize := ca_stat_qsize c - (if uniq then 1 else 0), ca_qsize := ca_qsize c - 1\<rparr>)"

definition cal_deque :: "calendar \<Rightarrow> (event option \<times> calendar) res" where
  "cal_deque c =
     res_bind (cal_head c) (\<lambda>(r, c0).
       case r of
         None \<Rightarrow> Ok (None, c0)
       | Some e \<Rightarrow>
           res_bind (cal_sample e c0) (\<lambda>c1.
             if ca_lastbucket c1 < 0 \<or> nat (ca_lastbucket c1) \<ge> length (ca_buckets c1) then Fail Bad_Index
             else
               let c2 = cal_unlink_head e (nat (ca_lastbucket c1)) c1
               in if ca_stat_qsize c2 < ca_bot c2
                  then res_bind (cal_resize (ca_nbuckets c2 div 2) (ca_clock c2) c2) (\<lambda>c3. Ok (Some e, c3))
                  else Ok (Some e, c2)))"

section \<open>Cancellation and lookup\<close>

text \<open>
  The neighbours of the event at position \<open>k\<close> of a circular list: it is the only one of its time
  if it is alone or both differ from it. An event that is in no list has null links.
\<close>

fun index_of :: "event \<Rightarrow> event list \<Rightarrow> nat option" where
  "index_of e [] = None"
| "index_of e (x # xs) = (if ev_addr x = ev_addr e then Some 0 else map_option Suc (index_of e xs))"

definition cal_cancel :: "event \<Rightarrow> calendar \<Rightarrow> (calendar \<times> event) res" where
  "cal_cancel e c =
     (if ev_uid e \<le> 0 then Ok (c, e)
      else
        let i = cal_hash (ca_width c) (ca_nbuckets c) (ev_time e)
        in if i < 0 \<or> nat i \<ge> length (ca_buckets c) then Fail Bad_Index
           else
             let b = ca_buckets c ! nat i; xs = bk_list b; n = length xs
             in case index_of e xs of
                  None \<Rightarrow> Fail Null_Deref
                | Some k \<Rightarrow>
                    let nxt = xs ! (if Suc k = n then 0 else Suc k);
                        prv = xs ! (if k = 0 then n - 1 else k - 1);
                        uniq = (n = 1 \<or> ev_time nxt \<noteq> ev_time e \<and> ev_time prv \<noteq> ev_time e);
                        b1 = \<lparr>bk_list = take k xs @ drop (Suc k) xs, bk_count = bk_count b - (if uniq then 1 else 0)\<rparr>;
                        c1 = c\<lparr>ca_buckets := (ca_buckets c)[nat i := b1], ca_qsize := ca_qsize c - 1,
                               ca_stat_qsize := ca_stat_qsize c - (if uniq then 1 else 0)\<rparr>
                    in if ca_stat_qsize c1 < 0 \<or> bk_count b1 < 0 \<or> bk_count b1 = 0 \<and> bk_list b1 \<noteq> []
                       then Fail Assertion
                       else Ok (c1, ev_negate_uid e))"

definition cal_lookup :: "int \<Rightarrow> calendar \<Rightarrow> event option" where
  "cal_lookup u c = find (\<lambda>e. ev_uid e = u) (concat (map bk_list (ca_buckets c)))"

end
