(* ===== verification/Calendar_Scheduler.thy ===== *)
theory Calendar_Scheduler
  imports Calendar_Queue Timer
begin

text \<open>
  Correctness of the calendar queue. The abstract state is the list \<open>P\<close> of pending events in
  the order of delivery; bucket \<open>i\<close> holds those that are hashed to \<open>i\<close>, in the same order.
\<close>

section \<open>The hash function\<close>

lemma cal_hash_floor:
  assumes "0 < w" "0 < n" "0 \<le> t"
  shows "cal_hash w n t = \<lfloor>t / w\<rfloor> mod int n"
proof -
  have "\<lfloor>t / w / real n\<rfloor> = \<lfloor>t / w\<rfloor> div int n" using floor_divide_real_eq_div [of "int n" "t / w"] assms(2) by simp
  then have "fmod (t / w) (real n) = t / w - of_int (\<lfloor>t / w\<rfloor> div int n * int n)"
    using assms by (simp add: fmod_def trunc_def)
  also have "\<lfloor>\<dots>\<rfloor> = \<lfloor>t / w\<rfloor> - \<lfloor>t / w\<rfloor> div int n * int n" by (simp only: floor_diff_of_int)
  also have "\<dots> = \<lfloor>t / w\<rfloor> mod int n" by (simp add: minus_div_mult_eq_mod)
  finally have f: "\<lfloor>fmod (t / w) (real n)\<rfloor> = \<lfloor>t / w\<rfloor> mod int n" .
  moreover have "0 \<le> \<lfloor>t / w\<rfloor> mod int n" using assms(2) by simp
  ultimately have "0 \<le> fmod (t / w) (real n)" by linarith
  with f show ?thesis by (simp add: cal_hash_def trunc_def)
qed

lemma cal_hash_range:
  assumes "0 < w" "0 < n" "0 \<le> t"
  shows "0 \<le> cal_hash w n t" "nat (cal_hash w n t) < n"
  using assms by (simp_all add: cal_hash_floor nat_less_iff)

section \<open>Placing an event in a bucket\<close>

abbreviation sorted_events :: "event list \<Rightarrow> bool" where
  "sorted_events xs \<equiv> sorted (map ev_time xs)"

lemma insert_after_split:
  assumes "sorted (map f xs)"
  shows "insert_after f x xs = takeWhile (\<lambda>y. f y \<le> f x) xs @ x # dropWhile (\<lambda>y. f y \<le> f x) xs"
  using assms by (induction xs) auto

lemma insort_key_split:
  assumes "sorted (map f xs)"
  shows "insort_key f x xs = takeWhile (\<lambda>y. f y < f x) xs @ x # dropWhile (\<lambda>y. f y < f x) xs"
  using assms by (induction xs) auto

lemma sorted_dropWhile_gt:
  fixes f :: "'a \<Rightarrow> real"
  shows "sorted (map f xs) \<Longrightarrow> y \<in> set (dropWhile (\<lambda>y. f y \<le> v) xs) \<Longrightarrow> v < f y"
  by (induction xs) (auto split: if_splits)

lemma while_append:
  "(\<forall>y \<in> set ys. P y) \<Longrightarrow> (\<forall>z \<in> set zs. \<not> P z) \<Longrightarrow>
   takeWhile P (ys @ zs) = ys \<and> dropWhile P (ys @ zs) = zs"
  by (induction ys) (auto simp: takeWhile_eq_Nil_iff dropWhile_eq_self_iff)

lemma sorted_last: "sorted (map f xs) \<Longrightarrow> y \<in> set xs \<Longrightarrow> f y \<le> f (last xs)"
  by (induction xs) auto

lemma sorted_takeWhile_rev:
  fixes f :: "'a \<Rightarrow> real"
  assumes "sorted (map f xs)"
  shows "rev (takeWhile (\<lambda>y. f x < f y) (rev xs)) = dropWhile (\<lambda>y. f y \<le> f x) xs"
    and "rev (dropWhile (\<lambda>y. f x < f y) (rev xs)) = takeWhile (\<lambda>y. f y \<le> f x) xs"
proof -
  let ?a = "takeWhile (\<lambda>y. f y \<le> f x) xs" and ?b = "dropWhile (\<lambda>y. f y \<le> f x) xs"
  have a: "\<forall>y \<in> set ?a. \<not> f x < f y" by (auto dest: set_takeWhileD)
  have b: "\<forall>y \<in> set ?b. f x < f y" using sorted_dropWhile_gt [OF assms] by blast
  have xs: "rev xs = rev ?b @ rev ?a" by (metis rev_append takeWhile_dropWhile_id)
  have "takeWhile (\<lambda>y. f x < f y) (rev xs) = rev ?b \<and> dropWhile (\<lambda>y. f x < f y) (rev xs) = rev ?a"
    unfolding xs using a b by (intro while_append) auto
  then show "rev (takeWhile (\<lambda>y. f x < f y) (rev xs)) = ?b" "rev (dropWhile (\<lambda>y. f x < f y) (rev xs)) = ?a"
    by simp_all
qed

lemma bk_place_after:
  assumes "sorted_events xs"
  shows "bk_place e xs = (insert_after ev_time e xs, length (dropWhile (\<lambda>y. ev_time y \<le> ev_time e) xs))"
proof -
  have "length (takeWhile (\<lambda>y. ev_time e < ev_time y) (rev xs)) = length (dropWhile (\<lambda>y. ev_time y \<le> ev_time e) xs)"
    using sorted_takeWhile_rev(1) [OF assms, of e] by (metis length_rev)
  then show ?thesis
    by (simp add: bk_place_def Let_def sorted_takeWhile_rev [OF assms] insert_after_split [OF assms])
qed

text \<open>The counter of a bucket is the number of different times in it.\<close>

definition bucket_ok :: "bucket \<Rightarrow> bool" where
  "bucket_ok b \<longleftrightarrow> sorted_events (bk_list b) \<and> bk_count b = int (card (ev_time ` set (bk_list b)))"

lemma last_le_eq:
  assumes "sorted (map f ys)" "ys \<noteq> []" "\<forall>y \<in> set ys. f y \<le> v"
  shows "f (last ys) < v \<longleftrightarrow> v \<notin> f ` set ys"
proof
  assume "f (last ys) < v"
  moreover note sorted_last [OF assms(1)]
  ultimately show "v \<notin> f ` set ys" by force
next
  assume "v \<notin> f ` set ys"
  moreover have "last ys \<in> set ys" using assms(2) by simp
  ultimately show "f (last ys) < v" using assms(3) by (metis image_eqI order_less_le)
qed

lemma bk_insert_ok:
  assumes "bucket_ok b"
  obtains k where "bk_insert e b =
    (\<lparr>bk_list = insert_after ev_time e (bk_list b),
      bk_count = bk_count b + (if ev_time e \<in> ev_time ` set (bk_list b) then 0 else 1)\<rparr>,
     ev_time e \<notin> ev_time ` set (bk_list b), k)"
proof (cases "bk_list b")
  case Nil
  then show ?thesis using that by (simp add: bk_insert_def)
next
  case (Cons h t)
  have s: "sorted_events (h # t)" using assms Cons by (simp add: bucket_ok_def)
  show ?thesis
  proof (cases "ev_time e < ev_time h")
    case True
    then have "ev_time e \<notin> ev_time ` set (h # t)" using s by force
    then show ?thesis using that True Cons by (simp add: bk_insert_def)
  next
    case False
    let ?a = "takeWhile (\<lambda>y. ev_time y \<le> ev_time e) (h # t)"
    let ?b = "dropWhile (\<lambda>y. ev_time y \<le> ev_time e) (h # t)"
    have ne: "?a \<noteq> []" using False by simp
    have split: "h # t = ?a @ ?b" by simp
    have "rev (h # t) ! length ?b = last ?a"
    proof -
      have "rev (h # t) ! length ?b = (rev ?b @ rev ?a) ! length ?b" by (metis rev_append split)
      also have "\<dots> = rev ?a ! 0" by (simp add: nth_append)
      also have "\<dots> = last ?a" using ne by (simp add: rev_nth last_conv_nth)
      finally show ?thesis .
    qed
    moreover have "ev_time (last ?a) < ev_time e \<longleftrightarrow> ev_time e \<notin> ev_time ` set (h # t)"
    proof -
      have "sorted_events ?a" using s by (metis map_append sorted_append split)
      moreover have "\<forall>y \<in> set ?a. ev_time y \<le> ev_time e" by (metis set_takeWhileD)
      ultimately have "ev_time (last ?a) < ev_time e \<longleftrightarrow> ev_time e \<notin> ev_time ` set ?a"
        using ne by (intro last_le_eq)
      moreover have "ev_time e \<notin> ev_time ` set ?b" using sorted_dropWhile_gt [OF s] by fastforce
      ultimately show ?thesis by (metis Un_iff image_Un set_append split)
    qed
    ultimately show ?thesis
      using that False Cons by (simp add: bk_insert_def bk_place_after [OF s] Let_def del: rev.simps set_simps)
  qed
qed


lemma bk_insert2_ok:
  assumes "bucket_ok b"
  shows "bk_insert2 e b =
    (\<lparr>bk_list = insort_key ev_time e (bk_list b),
      bk_count = bk_count b + (if ev_time e \<in> ev_time ` set (bk_list b) then 0 else 1)\<rparr>,
     ev_time e \<notin> ev_time ` set (bk_list b))"
proof (cases "bk_list b")
  case Nil
  then show ?thesis by (simp add: bk_insert2_def)
next
  case (Cons h t)
  have s: "sorted_events (h # t)" using assms Cons by (simp add: bucket_ok_def)
  let ?a = "takeWhile (\<lambda>y. ev_time y < ev_time e) (h # t)"
  let ?b = "dropWhile (\<lambda>y. ev_time y < ev_time e) (h # t)"
  have front: "(if ev_time (last (h # t)) < ev_time e then h # t else ?a) = ?a"
  proof (cases "ev_time (last (h # t)) < ev_time e")
    case True
    then have "\<forall>y \<in> set (h # t). ev_time y < ev_time e"
      using sorted_last [OF s] order_le_less_trans by blast
    then have "?a = h # t" by (simp only: takeWhile_eq_all_conv)
    then show ?thesis by simp
  qed simp
  have rest: "drop (length ?a) (h # t) = ?b" by (metis dropWhile_eq_drop)
  have nxt: "ev_time (if ?b = [] then hd (?a @ e # ?b) else hd ?b) \<noteq> ev_time e \<longleftrightarrow> ev_time e \<notin> ev_time ` set (h # t)"
  proof (cases "?b = []")
    case True
    then have "?a = h # t" by (metis append_Nil2 takeWhile_dropWhile_id)
    moreover from this have "\<forall>y \<in> set (h # t). ev_time y < ev_time e" by (metis set_takeWhileD)
    ultimately show ?thesis using True by auto
  next
    case False
    then obtain z zs where z: "?b = z # zs" by (cases ?b) auto
    have ge: "ev_time e \<le> ev_time z" using hd_dropWhile [OF False] z by (simp del: dropWhile.simps)
    have split: "h # t = ?a @ z # zs" by (metis takeWhile_dropWhile_id z)
    have "sorted_events (?a @ z # zs)" using s split by metis
    then have zs: "\<forall>y \<in> set zs. ev_time z \<le> ev_time y" by (simp add: sorted_append del: takeWhile.simps)
    have "\<forall>y \<in> set ?a. ev_time y \<noteq> ev_time e" using set_takeWhileD by fastforce
    then have "ev_time e \<in> ev_time ` set (?a @ z # zs) \<longleftrightarrow> ev_time z = ev_time e" using ge zs by force
    then show ?thesis using z split by (simp del: dropWhile.simps takeWhile.simps)
  qed
  show ?thesis
    unfolding bk_insert2_def Cons list.case Let_def front rest
    using nxt insort_key_split [OF s, of e] by (simp del: dropWhile.simps takeWhile.simps insort_key.simps)
qed


section \<open>The buckets hold the pending events\<close>

definition buckets_hold :: "real \<Rightarrow> nat \<Rightarrow> bucket list \<Rightarrow> event list \<Rightarrow> bool" where
  "buckets_hold w n bs P \<longleftrightarrow> length bs = n \<and>
     (\<forall>i < n. bk_list (bs ! i) = filter (\<lambda>e. cal_hash w n (ev_time e) = int i) P \<and>
        bk_count (bs ! i) = int (card (ev_time ` set (bk_list (bs ! i)))))"

definition cal_inv :: "calendar \<Rightarrow> event list \<Rightarrow> bool" where
  "cal_inv c P \<longleftrightarrow> 4 \<le> ca_nbuckets c \<and> 0 < ca_width c \<and> 0 \<le> ca_clock c \<and>
     ca_lastbucket c = cal_hash (ca_width c) (ca_nbuckets c) (ca_clock c) \<and>
     ca_diff0 c = ca_width c * real (ca_nbuckets c) / 2 \<and> ca_diff1 c = ca_diff0 c + ca_width c \<and>
     ca_diff2 c = ca_width c * real (ca_nbuckets c) \<and>
     (\<forall>e \<in> set P. ca_clock c \<le> ev_time e) \<and> sorted_events P \<and> distinct_events P \<and>
     buckets_hold (ca_width c) (ca_nbuckets c) (ca_buckets c) P \<and>
     ca_qsize c = int (length P) \<and> ca_stat_qsize c = sum_list (map bk_count (ca_buckets c))"

lemma buckets_hold_ok:
  "buckets_hold w n bs P \<Longrightarrow> sorted_events P \<Longrightarrow> i < n \<Longrightarrow> bucket_ok (bs ! i)"
  by (simp add: buckets_hold_def bucket_ok_def sorted_filter)

lemma buckets_hold_update:
  assumes "buckets_hold w n bs P" "i < n"
    and "bk_list b = filter (\<lambda>e. cal_hash w n (ev_time e) = int i) Q" "bk_count b = int (card (ev_time ` set (bk_list b)))"
    and "\<And>j. j \<noteq> i \<Longrightarrow> filter (\<lambda>e. cal_hash w n (ev_time e) = int j) Q = filter (\<lambda>e. cal_hash w n (ev_time e) = int j) P"
  shows "buckets_hold w n (bs[i := b]) Q"
proof -
  have len: "length bs = n" using assms(1) by (simp add: buckets_hold_def)
  have "bk_list (bs[i := b] ! j) = filter (\<lambda>e. cal_hash w n (ev_time e) = int j) Q \<and>
      bk_count (bs[i := b] ! j) = int (card (ev_time ` set (bk_list (bs[i := b] ! j))))" if "j < n" for j
  proof (cases "j = i")
    case True
    with assms(2-4) len show ?thesis by simp
  next
    case False
    have "bk_list (bs ! j) = filter (\<lambda>e. cal_hash w n (ev_time e) = int j) P \<and>
        bk_count (bs ! j) = int (card (ev_time ` set (bk_list (bs ! j))))"
      using assms(1) that by (simp add: buckets_hold_def)
    with False assms(5) [OF False] show ?thesis by simp
  qed
  with len show ?thesis by (simp add: buckets_hold_def)
qed

lemma filter_insert_after:
  "sorted (map f xs) \<Longrightarrow> filter Q (insert_after f x xs) =
     (if Q x then insert_after f x (filter Q xs) else filter Q xs)"
proof (induction xs)
  case (Cons y ys)
  then show ?case
    by (auto intro!: insert_after_front [symmetric] dest: order_less_le_trans)
qed simp

lemma filter_insort_iff:
  "sorted (map f xs) \<Longrightarrow> filter Q (insort_key f x xs) =
     (if Q x then insort_key f x (filter Q xs) else filter Q xs)"
  by (auto simp: filter_insort filter_insort_triv)

text \<open>Adding \<open>e\<close> to its bucket, on either side of the events of equal time.\<close>

lemma buckets_hold_add:
  assumes hold: "buckets_hold w n bs P" and w: "0 < w" "0 < n" "0 \<le> ev_time e"
    and i: "i = nat (cal_hash w n (ev_time e))"
    and Q: "set Q = insert e (set P)"
    and b: "bk_list b = filter (\<lambda>x. cal_hash w n (ev_time x) = int i) Q"
      "bk_count b = bk_count (bs ! i) + (if ev_time e \<in> ev_time ` set (bk_list (bs ! i)) then 0 else 1)"
    and other: "\<And>j. j \<noteq> i \<Longrightarrow> filter (\<lambda>x. cal_hash w n (ev_time x) = int j) Q = filter (\<lambda>x. cal_hash w n (ev_time x) = int j) P"
  shows "buckets_hold w n (bs[i := b]) Q"
    and "sum_list (map bk_count (bs[i := b])) =
      sum_list (map bk_count bs) + (if ev_time e \<in> ev_time ` set (bk_list (bs ! i)) then 0 else 1)"
proof -
  have r: "cal_hash w n (ev_time e) = int i" "i < n" using cal_hash_range [OF w] i by simp_all
  have old: "bk_list (bs ! i) = filter (\<lambda>x. cal_hash w n (ev_time x) = int i) P"
    "bk_count (bs ! i) = int (card (ev_time ` set (bk_list (bs ! i))))" "length bs = n"
    using hold r(2) by (simp_all add: buckets_hold_def)
  have "set (bk_list b) = insert e (set (bk_list (bs ! i)))" using Q r(1) by (auto simp: b(1) old(1))
  then have "bk_count b = int (card (ev_time ` set (bk_list b)))"
    by (simp add: b(2) old(2) card_insert_if)
  from buckets_hold_update [OF hold r(2) b(1) this other] show "buckets_hold w n (bs[i := b]) Q" .
  show "sum_list (map bk_count (bs[i := b])) =
      sum_list (map bk_count bs) + (if ev_time e \<in> ev_time ` set (bk_list (bs ! i)) then 0 else 1)"
    using r(2) old(3) sum_list_update_int [of i bs bk_count b] by (simp add: b(2))
qed

lemma cal_inv_hash:
  assumes "cal_inv c P" "0 \<le> t"
  shows "0 \<le> cal_hash (ca_width c) (ca_nbuckets c) t"
    "nat (cal_hash (ca_width c) (ca_nbuckets c) t) < length (ca_buckets c)"
    "length (ca_buckets c) = ca_nbuckets c"
  using cal_hash_range [of "ca_width c" "ca_nbuckets c" t] assms by (simp_all add: cal_inv_def buckets_hold_def)

lemma cal_insert2_ok:
  assumes inv: "cal_inv c P" and e: "ca_clock c \<le> ev_time e" "ev_addr e \<notin> ev_addr ` set P"
  shows "\<exists>c'. cal_insert2 e c = Ok c' \<and> cal_inv c' (insort_key ev_time e P) \<and> ca_clock c' = ca_clock c"
proof -
  let ?w = "ca_width c" and ?n = "ca_nbuckets c"
  have t: "0 \<le> ev_time e" and wn: "0 < ?w" "0 < ?n" and s: "sorted_events P"
    and hold: "buckets_hold ?w ?n (ca_buckets c) P"
    using inv e(1) by (auto simp: cal_inv_def)
  define i where "i = nat (cal_hash ?w ?n (ev_time e))"
  have i: "cal_hash ?w ?n (ev_time e) = int i" "i < length (ca_buckets c)" "i < ?n"
    using cal_inv_hash [OF inv t] by (simp_all add: i_def)
  let ?b = "ca_buckets c ! i"
  note ins = bk_insert2_ok [OF buckets_hold_ok [OF hold s i(3)], of e]
  let ?b' = "\<lparr>bk_list = insort_key ev_time e (bk_list ?b),
      bk_count = bk_count ?b + (if ev_time e \<in> ev_time ` set (bk_list ?b) then 0 else 1)\<rparr>"
  have l: "bk_list ?b = filter (\<lambda>x. cal_hash ?w ?n (ev_time x) = int i) P"
    using hold i(3) by (simp add: buckets_hold_def)
  have b': "bk_list ?b' = filter (\<lambda>x. cal_hash ?w ?n (ev_time x) = int i) (insort_key ev_time e P)"
    using i(1) by (simp add: filter_insort_iff [OF s] l)
  have other: "filter (\<lambda>x. cal_hash ?w ?n (ev_time x) = int j) (insort_key ev_time e P) =
      filter (\<lambda>x. cal_hash ?w ?n (ev_time x) = int j) P" if "j \<noteq> i" for j
    using i(1) that by (simp add: filter_insort_iff [OF s])
  have sets: "set (insort_key ev_time e P) = insert e (set P)" by (simp add: set_insort_key)
  note add = buckets_hold_add [OF hold wn t i_def sets b' _ other]
  have hold': "buckets_hold ?w ?n ((ca_buckets c)[i := ?b']) (insort_key ev_time e P)"
    "sum_list (map bk_count ((ca_buckets c)[i := ?b'])) =
      ca_stat_qsize c + (if ev_time e \<in> ev_time ` set (bk_list ?b) then 0 else 1)"
    using add inv by (simp_all add: cal_inv_def)
  let ?c = "c\<lparr>ca_buckets := (ca_buckets c)[i := ?b'], ca_qsize := ca_qsize c + 1,
      ca_stat_qsize := ca_stat_qsize c + (if ev_time e \<notin> ev_time ` set (bk_list ?b) then 1 else 0)\<rparr>"
  have "cal_insert2 e c = Ok ?c"
    using i ins by (simp add: cal_insert2_def Let_def)
  moreover have "distinct_events (insort_key ev_time e P)"
  proof -
    have "mset (map ev_addr (insort_key ev_time e P)) = mset (ev_addr e # map ev_addr P)" by simp
    then have "distinct_events (insort_key ev_time e P) \<longleftrightarrow> distinct (ev_addr e # map ev_addr P)"
      by (rule mset_eq_imp_distinct_iff)
    then show ?thesis using inv e(2) by (auto simp: cal_inv_def)
  qed
  then have "cal_inv ?c (insort_key ev_time e P)"
    using inv e(1) hold' s by (auto simp: cal_inv_def sorted_insort_key set_insort_key)
  ultimately show ?thesis by auto
qed


section \<open>Resizing\<close>

lemma insert_all_ok:
  "cal_inv c P \<Longrightarrow> (\<forall>e \<in> set es. ca_clock c \<le> ev_time e) \<Longrightarrow> distinct (map ev_addr es) \<Longrightarrow>
   ev_addr ` set es \<inter> ev_addr ` set P = {} \<Longrightarrow>
   \<exists>c'. insert_all es c = Ok c' \<and> cal_inv c' (fold (insort_key ev_time) es P) \<and> ca_clock c' = ca_clock c"
proof (induction es arbitrary: c P)
  case (Cons e es)
  then obtain c1 where c1: "cal_insert2 e c = Ok c1" "cal_inv c1 (insort_key ev_time e P)" "ca_clock c1 = ca_clock c"
    using cal_insert2_ok [OF Cons.prems(1), of e] by auto
  have "ev_addr ` set es \<inter> ev_addr ` set (insort_key ev_time e P) = {}"
    using Cons.prems(3,4) by (auto simp: set_insort_key)
  with Cons.IH [OF c1(2)] Cons.prems(2,3) c1 show ?case by simp
qed auto

lemma fold_insort_sort: "fold (insort_key f) es [] = sort_key f (rev es)"
proof -
  have "fold (insort_key f) es [] = foldr (insort_key f) (rev es) []" by (simp add: foldr_conv_fold)
  then show ?thesis by (simp add: sort_key_def)
qed

text \<open>Reading the buckets from the last to the first and sorting stably gives the pending order back.\<close>

lemma filter_concat_one:
  assumes "i < length xss" "\<And>j. j < length xss \<Longrightarrow> j \<noteq> i \<Longrightarrow> filter Q (xss ! j) = []"
  shows "filter Q (concat xss) = filter Q (xss ! i)"
  using assms
proof (induction xss arbitrary: i)
  case (Cons xs xss)
  have tl: "filter Q (xss ! j) = []" if "j < length xss" "Suc j \<noteq> i" for j
    using Cons.prems(2) [of "Suc j"] that by simp
  show ?case
  proof (cases i)
    case 0
    then have "\<forall>ys \<in> set xss. filter Q ys = []" using tl by (auto simp: in_set_conv_nth)
    then have "filter Q (concat xss) = []" by (simp add: filter_concat)
    with 0 show ?thesis by simp
  next
    case (Suc k)
    have "filter Q xs = []" using Cons.prems(2) [of 0] Suc by simp
    moreover have "filter Q (concat xss) = filter Q (xss ! k)"
      by (rule Cons.IH) (use Cons.prems(1) Suc tl in auto)
    ultimately show ?thesis using Suc by simp
  qed
qed simp

definition bucket_events :: "bucket list \<Rightarrow> event list" where
  "bucket_events bs = concat (map (\<lambda>b. rev (bk_list b)) bs)"

lemma rev_bucket_events: "rev (bucket_events bs) = concat (rev (map bk_list bs))"
  by (simp add: bucket_events_def rev_concat rev_map o_def)

lemma bucket_events_time:
  assumes hold: "buckets_hold w n bs P" and w: "0 < w" "0 < n" "0 \<le> t"
  shows "filter (\<lambda>e. ev_time e = t) (rev (bucket_events bs)) = filter (\<lambda>e. ev_time e = t) P"
proof -
  define i where "i = nat (cal_hash w n t)"
  have i: "cal_hash w n t = int i" "i < n" using cal_hash_range [OF w] by (simp_all add: i_def)
  have len: "length bs = n"
    and l: "\<And>j. j < n \<Longrightarrow> bk_list (bs ! j) = filter (\<lambda>e. cal_hash w n (ev_time e) = int j) P"
    using hold by (simp_all add: buckets_hold_def)
  let ?xss = "rev (map bk_list bs)"
  have nth: "?xss ! j = bk_list (bs ! (n - Suc j))" if "j < n" for j
    using that len by (simp add: rev_nth)
  have one: "filter (\<lambda>e. ev_time e = t) (bk_list (bs ! j)) =
      (if j = i then filter (\<lambda>e. ev_time e = t) P else [])" if "j < n" for j
    using i(1) by (auto simp: l [OF that] filter_empty_conv intro: filter_cong)
  have "filter (\<lambda>e. ev_time e = t) (concat ?xss) = filter (\<lambda>e. ev_time e = t) (?xss ! (n - Suc i))"
    by (rule filter_concat_one) (use i(2) len nth one in auto)
  also have "\<dots> = filter (\<lambda>e. ev_time e = t) P" using i(2) nth [of "n - Suc i"] one [OF i(2)] by simp
  finally show ?thesis by (simp add: rev_bucket_events)
qed

lemma set_bucket_events:
  assumes hold: "buckets_hold w n bs P" and w: "0 < w" "0 < n" and t: "\<forall>e \<in> set P. 0 \<le> ev_time e"
  shows "mset (bucket_events bs) = mset P"
proof (rule multiset_eqI)
  fix e
  have "set (bk_list b) \<subseteq> set P" if "b \<in> set bs" for b
    using hold that by (auto simp: buckets_hold_def in_set_conv_nth [of b])
  then have sub: "set (bucket_events bs) \<subseteq> set P" by (auto simp: bucket_events_def)
  show "count (mset (bucket_events bs)) e = count (mset P) e"
  proof (cases "e \<in> set P")
    case False
    with sub have "e \<notin> set (bucket_events bs)" by blast
    with False show ?thesis by (metis count_eq_zero_iff set_mset_mset)
  next
    case True
    then have f: "filter (\<lambda>x. ev_time x = ev_time e) (rev (bucket_events bs)) = filter (\<lambda>x. ev_time x = ev_time e) P"
      using t by (intro bucket_events_time [OF hold w]) simp
    have cnt: "count (mset xs) e = count (mset (filter (\<lambda>x. ev_time x = ev_time e) xs)) e" for xs
      by simp
    show ?thesis by (metis cnt f mset_rev)
  qed
qed

lemma bucket_events_sort:
  assumes hold: "buckets_hold w n bs P" and w: "0 < w" "0 < n" and t: "\<forall>e \<in> set P. 0 \<le> ev_time e"
    and s: "sorted_events P"
  shows "sort_key ev_time (rev (bucket_events bs)) = P"
proof (rule properties_for_sort_key)
  show "mset P = mset (rev (bucket_events bs))" using set_bucket_events [OF hold w t] by simp
  show "filter (\<lambda>x. ev_time k = ev_time x) P = filter (\<lambda>x. ev_time k = ev_time x) (rev (bucket_events bs))"
    if "k \<in> set P" for k
    using bucket_events_time [OF hold w, of "ev_time k"] t that by (simp add: eq_commute)
  show "sorted_events P" by (rule s)
qed

lemma cal_reinit_inv:
  assumes "4 \<le> n" "0 < w" "0 \<le> ca_clock c"
  shows "cal_inv (cal_reinit n w (ca_clock c) c) []"
  using assms by (simp add: cal_inv_def cal_reinit_def buckets_hold_def bucket_new_def Let_def
      map_replicate_const sum_list_replicate)

lemma cal_rebuild_ok:
  assumes inv: "cal_inv c P" and n: "4 \<le> n" "0 < w"
  shows "\<exists>c'. cal_rebuild n w (ca_clock c) c = Ok c' \<and> cal_inv c' P \<and> ca_clock c' = ca_clock c"
proof -
  let ?c = "cal_reinit n w (ca_clock c) c" and ?es = "bucket_events (ca_buckets c)"
  have c: "0 \<le> ca_clock c" "\<forall>e \<in> set P. ca_clock c \<le> ev_time e" "sorted_events P" "distinct_events P"
    and hold: "buckets_hold (ca_width c) (ca_nbuckets c) (ca_buckets c) P" "0 < ca_width c" "0 < ca_nbuckets c"
    using inv by (auto simp: cal_inv_def)
  have t: "\<forall>e \<in> set P. 0 \<le> ev_time e" using c(1,2) by force
  note m = set_bucket_events [OF hold t]
  have "set ?es = set P" using m by (rule mset_eq_setD)
  moreover have "distinct (map ev_addr ?es)"
    using m c(4) by (metis mset_map mset_eq_imp_distinct_iff)
  moreover have "ca_clock ?c = ca_clock c" by (simp add: cal_reinit_def Let_def)
  ultimately obtain c' where c': "insert_all ?es ?c = Ok c'" "cal_inv c' (fold (insort_key ev_time) ?es [])" "ca_clock c' = ca_clock c"
    using insert_all_ok [OF cal_reinit_inv [OF n c(1)], of ?es] c(2) by auto
  have "cal_inv c' P"
    using c'(2) by (simp add: fold_insort_sort bucket_events_sort [OF hold t c(3)])
  then have "cal_inv (c'\<lparr>ca_head_search := 0, ca_insert_search := 0, ca_round_num := 0\<rparr>) P"
    by (simp add: cal_inv_def)
  with c' show ?thesis by (simp add: cal_rebuild_def bucket_events_def)
qed

lemma max_bucket_less: "bs \<noteq> [] \<Longrightarrow> max_bucket bs < length bs"
proof -
  have "m < length bs \<Longrightarrow> foldl (\<lambda>m i. if bk_count (bs ! i) > bk_count (bs ! m) then i else m) m is < length bs"
    if "\<forall>i \<in> set is. i < length bs" for m "is"
    using that by (induction "is" arbitrary: m) auto
  then show "bs \<noteq> [] \<Longrightarrow> max_bucket bs < length bs" by (simp add: max_bucket_def)
qed

lemma card_sorted_span:
  assumes "sorted_events xs" "1 < card (ev_time ` set xs)"
  shows "xs \<noteq> []" "ev_time (hd xs) < ev_time (last xs)"
proof -
  show ne: "xs \<noteq> []" using assms(2) by auto
  show "ev_time (hd xs) < ev_time (last xs)"
  proof (rule ccontr)
    assume "\<not> ev_time (hd xs) < ev_time (last xs)"
    moreover have "ev_time (hd xs) \<le> ev_time y" if "y \<in> set xs" for y
      using assms(1) that by (cases xs) auto
    ultimately have "ev_time y = ev_time (hd xs)" if "y \<in> set xs" for y
      using sorted_last [OF assms(1) that] that by force
    then have "ev_time ` set xs \<subseteq> {ev_time (hd xs)}" by auto
    then have "card (ev_time ` set xs) \<le> 1" by (metis card.empty card_insert_le_m1 card_mono finite.emptyI finite.insertI
      is_singletonI is_singleton_altdef le_numeral_extra(4))
    with assms(2) show False by simp
  qed
qed

lemma cal_newwidth_ok:
  assumes inv: "cal_inv c P" and n: "0 < newsize"
  shows "\<exists>w c'. cal_newwidth newsize c = Ok (w, c') \<and> 0 < w \<and> cal_inv c' P \<and> ca_clock c' = ca_clock c \<and>
    ca_nbuckets c' = ca_nbuckets c"
proof -
  let ?c = "if ca_adjust c \<noteq> 0 then c\<lparr>ca_time_to_newwidth := ca_adjust c\<rparr> else c"
  have c: "cal_inv ?c P" "ca_clock ?c = ca_clock c" "ca_nbuckets ?c = ca_nbuckets c"
    using inv by (simp_all add: cal_inv_def)
  show ?thesis
  proof (cases "ca_adjust c \<noteq> 0 \<and> 0 < ca_avg_gap c")
    case True
    with c show ?thesis by (simp add: cal_newwidth_def Let_def)
  next
    case gap: False
    have hold: "buckets_hold (ca_width c) (ca_nbuckets c) (ca_buckets c) P" and s: "sorted_events P"
      and w: "0 < ca_width c" and n4: "4 \<le> ca_nbuckets c"
      using inv by (simp_all add: cal_inv_def)
    let ?m = "max_bucket (ca_buckets c)"
    have len: "length (ca_buckets c) = ca_nbuckets c" using hold by (simp add: buckets_hold_def)
    then have "ca_buckets c \<noteq> []" using n4 by auto
    then have m: "?m < ca_nbuckets c" using max_bucket_less len by metis
    let ?b = "ca_buckets c ! ?m"
    have b: "bucket_ok ?b" by (rule buckets_hold_ok [OF hold s m])
    show ?thesis
    proof (cases "bk_count ?b \<le> 4")
      case True
      with gap c w show ?thesis by (auto simp: cal_newwidth_def Let_def)
    next
      case False
      then have "1 < card (ev_time ` set (bk_list ?b))" using b by (simp add: bucket_ok_def)
      with b have "bk_list ?b \<noteq> []" "ev_time (hd (bk_list ?b)) < ev_time (last (bk_list ?b))"
        by (auto simp: bucket_ok_def dest: card_sorted_span)
      with False gap c n show ?thesis by (auto simp: cal_newwidth_def Let_def)
    qed
  qed
qed

lemma cal_resize_ok:
  assumes inv: "cal_inv c P" and n: "0 < newsize"
  shows "\<exists>c'. cal_resize newsize (ca_clock c) c = Ok c' \<and> cal_inv c' P \<and> ca_clock c' = ca_clock c"
proof -
  have n4: "4 \<le> ca_nbuckets c" "0 < ca_width c" using inv by (simp_all add: cal_inv_def)
  obtain w1 c1 where nw: "cal_newwidth newsize c = Ok (w1, c1)" "0 < w1" "cal_inv c1 P" "ca_clock c1 = ca_clock c"
    using cal_newwidth_ok [OF inv n] by blast
  let ?w = "sqrt (let w0 = (if ca_head_search c \<noteq> 0 then real (ca_head_search c) else 1)
      in if ca_insert_search c \<noteq> 0 then w0 / real (ca_insert_search c) else w0) * ca_width c"
  have w: "0 < ?w" using n4(2) by (simp add: Let_def)
  consider (same) "newsize = ca_nbuckets c" "\<not> ?w < ca_min_bin_width c"
    | (wait) "newsize = ca_nbuckets c" "?w < ca_min_bin_width c" "0 < ca_time_to_newwidth c"
    | (new) "newsize = ca_nbuckets c" "?w < ca_min_bin_width c" "ca_time_to_newwidth c = 0"
    | (grow) "newsize \<noteq> ca_nbuckets c" by fastforce
  then show ?thesis
  proof cases
    case same
    with cal_rebuild_ok [OF inv _ w, of newsize] n4(1) show ?thesis
      unfolding cal_resize_def Let_def by simp
  next
    case wait
    have "cal_inv (c\<lparr>ca_time_to_newwidth := ca_time_to_newwidth c - 1, ca_head_search := 0,
        ca_insert_search := 0, ca_round_num := 0\<rparr>) P"
      using inv by (simp add: cal_inv_def)
    with wait show ?thesis unfolding cal_resize_def Let_def by simp
  next
    case new
    with cal_rebuild_ok [OF nw(3) _ nw(2), of newsize] n4(1) nw show ?thesis
      unfolding cal_resize_def Let_def by simp
  next
    case grow
    with cal_rebuild_ok [OF nw(3) _ nw(2), of "max newsize 4"] nw show ?thesis
      unfolding cal_resize_def by simp
  qed
qed


section \<open>Insertion\<close>

lemma insert_after_distinct:
  assumes "distinct_events P" "ev_addr e \<notin> ev_addr ` set P"
  shows "distinct_events (insert_after f e P)"
proof -
  have "mset (map ev_addr (insert_after f e P)) = mset (ev_addr e # map ev_addr P)" by simp
  then have "distinct_events (insert_after f e P) \<longleftrightarrow> distinct (ev_addr e # map ev_addr P)"
    by (rule mset_eq_imp_distinct_iff)
  with assms show ?thesis by auto
qed

lemma cal_inv_earlier:
  assumes "cal_inv c P" "0 \<le> t" "t < ca_clock c"
  shows "cal_inv (c\<lparr>ca_clock := t, ca_lastbucket := cal_hash (ca_width c) (ca_nbuckets c) t\<rparr>) P"
  using assms by (fastforce simp: cal_inv_def)

lemma cal_insert_ok:
  assumes inv0: "cal_inv c0 P" and t: "0 \<le> ev_time e" and new: "ev_addr e \<notin> ev_addr ` set P"
  shows "\<exists>c'. cal_insert e c0 = Ok c' \<and> cal_inv c' (insert_after ev_time e P)"
proof -
  define c where "c = (if ca_clock c0 > ev_time e
    then c0\<lparr>ca_clock := ev_time e, ca_lastbucket := cal_hash (ca_width c0) (ca_nbuckets c0) (ev_time e)\<rparr> else c0)"
  have inv: "cal_inv c P" using inv0 cal_inv_earlier [OF inv0 t] by (simp add: c_def)
  have same: "ca_width c = ca_width c0" "ca_nbuckets c = ca_nbuckets c0" "ca_buckets c = ca_buckets c0"
    by (simp_all add: c_def)
  have early: "ca_clock c \<le> ev_time e" by (simp add: c_def)
  let ?w = "ca_width c" and ?n = "ca_nbuckets c"
  have wn: "0 < ?w" "0 < ?n" and s: "sorted_events P"
    and hold: "buckets_hold ?w ?n (ca_buckets c) P"
    using inv by (auto simp: cal_inv_def)
  define i where "i = nat (cal_hash ?w ?n (ev_time e))"
  have i: "cal_hash ?w ?n (ev_time e) = int i" "i < length (ca_buckets c)" "i < ?n"
    using cal_inv_hash [OF inv t] by (simp_all add: i_def)
  let ?b = "ca_buckets c ! i"
  obtain k where ins: "bk_insert e ?b =
    (\<lparr>bk_list = insert_after ev_time e (bk_list ?b),
      bk_count = bk_count ?b + (if ev_time e \<in> ev_time ` set (bk_list ?b) then 0 else 1)\<rparr>,
     ev_time e \<notin> ev_time ` set (bk_list ?b), k)"
    using bk_insert_ok [OF buckets_hold_ok [OF hold s i(3)], of e] by blast
  let ?b' = "\<lparr>bk_list = insert_after ev_time e (bk_list ?b),
      bk_count = bk_count ?b + (if ev_time e \<in> ev_time ` set (bk_list ?b) then 0 else 1)\<rparr>"
  have l: "bk_list ?b = filter (\<lambda>x. cal_hash ?w ?n (ev_time x) = int i) P"
    using hold i(3) by (simp add: buckets_hold_def)
  have b': "bk_list ?b' = filter (\<lambda>x. cal_hash ?w ?n (ev_time x) = int i) (insert_after ev_time e P)"
    using i(1) by (simp add: filter_insert_after [OF s] l)
  have other: "filter (\<lambda>x. cal_hash ?w ?n (ev_time x) = int j) (insert_after ev_time e P) =
      filter (\<lambda>x. cal_hash ?w ?n (ev_time x) = int j) P" if "j \<noteq> i" for j
    using i(1) that by (simp add: filter_insert_after [OF s])
  note add = buckets_hold_add [OF hold wn t i_def set_insert_after b' _ other]
  have hold': "buckets_hold ?w ?n ((ca_buckets c)[i := ?b']) (insert_after ev_time e P)"
    "sum_list (map bk_count ((ca_buckets c)[i := ?b'])) =
      ca_stat_qsize c + (if ev_time e \<in> ev_time ` set (bk_list ?b) then 0 else 1)"
    using add inv by (simp_all add: cal_inv_def)
  let ?c = "c\<lparr>ca_buckets := (ca_buckets c)[i := ?b'], ca_qsize := ca_qsize c + 1,
      ca_stat_qsize := ca_stat_qsize c + (if ev_time e \<notin> ev_time ` set (bk_list ?b) then 1 else 0),
      ca_insert_search := ca_insert_search c + k\<rparr>"
  have len: "length (insert_after ev_time e P) = Suc (length P)"
    by (metis mset_insert_after size_add_mset size_mset)
  have inv': "cal_inv ?c (insert_after ev_time e P)"
    using inv early hold' sorted_insert_after [OF s] insert_after_distinct [OF _ new]
    by (auto simp: cal_inv_def len)
  have "cal_insert e c0 = (if ca_stat_qsize ?c > ca_top ?c then cal_resize (ca_nbuckets ?c * 2) (ca_clock ?c) ?c else Ok ?c)"
    using i ins unfolding cal_insert_def Let_def unfolding c_def [symmetric] unfolding same [symmetric] by simp
  with inv' cal_resize_ok [OF inv', of "ca_nbuckets ?c * 2"] wn(2) show ?thesis by auto
qed

section \<open>The search for the earliest event\<close>

text \<open>The bucket that the search looks at after \<open>k\<close> others.\<close>

definition nth_probe :: "calendar \<Rightarrow> nat \<Rightarrow> nat" where
  "nth_probe c k = (nat (ca_lastbucket c) + k) mod ca_nbuckets c"

definition seen_ok :: "calendar \<Rightarrow> nat \<Rightarrow> seen \<Rightarrow> bool" where
  "seen_ok c k m \<longleftrightarrow>
     (case m of
        None \<Rightarrow> \<forall>j < k. bk_list (ca_buckets c ! nth_probe c j) = []
      | Some (l, x) \<Rightarrow> (\<exists>j < k. l = nth_probe c j \<and> (\<exists>t. bk_list (ca_buckets c ! l) = x # t)) \<and>
          (\<forall>j < k. \<forall>e t. bk_list (ca_buckets c ! nth_probe c j) = e # t \<longrightarrow> ev_time x \<le> ev_time e))"

text \<open>No event of the first \<open>k\<close> buckets lies in the year's part of its bucket.\<close>

definition not_due :: "calendar \<Rightarrow> nat \<Rightarrow> bool" where
  "not_due c k \<longleftrightarrow> (\<forall>j < k. \<forall>e t. bk_list (ca_buckets c ! nth_probe c j) = e # t \<longrightarrow>
     ca_clock c + real (Suc j) * ca_width c \<le> ev_time e)"

definition found_ok :: "calendar \<Rightarrow> event list \<Rightarrow> nat \<times> event \<Rightarrow> bool" where
  "found_ok c P r \<longleftrightarrow> (case r of (l, e) \<Rightarrow> l < ca_nbuckets c \<and> (\<exists>t. bk_list (ca_buckets c ! l) = e # t) \<and>
     (\<forall>x \<in> set P. ev_time e \<le> ev_time x))"

lemma nth_probe_less: "cal_inv c P \<Longrightarrow> nth_probe c k < ca_nbuckets c"
  by (simp add: nth_probe_def cal_inv_def)

lemma bucket_head:
  assumes "cal_inv c P" "i < ca_nbuckets c" "bk_list (ca_buckets c ! i) = e # t"
  shows "e \<in> set P" "cal_hash (ca_width c) (ca_nbuckets c) (ev_time e) = int i"
    "\<And>x. x \<in> set P \<Longrightarrow> cal_hash (ca_width c) (ca_nbuckets c) (ev_time x) = int i \<Longrightarrow> ev_time e \<le> ev_time x"
proof -
  let ?Q = "\<lambda>x. cal_hash (ca_width c) (ca_nbuckets c) (ev_time x) = int i"
  have l: "filter ?Q P = e # t" and s: "sorted_events P"
    using assms by (simp_all add: cal_inv_def buckets_hold_def)
  from l have "e \<in> set (filter ?Q P)" by simp
  then show "e \<in> set P" "?Q e" by simp_all
  have "sorted_events (e # t)" using sorted_filter [OF s, of ?Q] l by simp
  moreover fix x assume "x \<in> set P" "?Q x"
  then have "x \<in> set (e # t)" using l [symmetric] by simp
  ultimately show "ev_time e \<le> ev_time x" by auto
qed

lemma bucket_empty:
  assumes "cal_inv c P" "i < ca_nbuckets c" "bk_list (ca_buckets c ! i) = []" "x \<in> set P"
  shows "cal_hash (ca_width c) (ca_nbuckets c) (ev_time x) \<noteq> int i"
  using assms by (auto simp: cal_inv_def buckets_hold_def filter_empty_conv)

lemma nth_probe_int:
  assumes "cal_inv c P"
  shows "int (nth_probe c k) = (\<lfloor>ca_clock c / ca_width c\<rfloor> + int k) mod int (ca_nbuckets c)"
proof -
  have "ca_lastbucket c = \<lfloor>ca_clock c / ca_width c\<rfloor> mod int (ca_nbuckets c)" "0 < ca_nbuckets c"
    using assms cal_hash_floor [of "ca_width c" "ca_nbuckets c" "ca_clock c"] by (auto simp: cal_inv_def)
  then show ?thesis by (simp add: nth_probe_def zmod_int mod_simps)
qed

lemma event_hash:
  assumes "cal_inv c P" "x \<in> set P"
  shows "cal_hash (ca_width c) (ca_nbuckets c) (ev_time x) = \<lfloor>ev_time x / ca_width c\<rfloor> mod int (ca_nbuckets c)"
    "\<lfloor>ca_clock c / ca_width c\<rfloor> \<le> \<lfloor>ev_time x / ca_width c\<rfloor>"
proof -
  have "0 < ca_width c" "0 < ca_nbuckets c" "0 \<le> ca_clock c" "ca_clock c \<le> ev_time x"
    using assms by (auto simp: cal_inv_def)
  then show "cal_hash (ca_width c) (ca_nbuckets c) (ev_time x) = \<lfloor>ev_time x / ca_width c\<rfloor> mod int (ca_nbuckets c)"
    "\<lfloor>ca_clock c / ca_width c\<rfloor> \<le> \<lfloor>ev_time x / ca_width c\<rfloor>"
    by (auto intro!: cal_hash_floor floor_mono divide_right_mono)
qed

lemma floor_cell:
  fixes w t :: real
  assumes "0 < w"
  shows "of_int \<lfloor>t / w\<rfloor> * w \<le> t" "t < (of_int \<lfloor>t / w\<rfloor> + 1) * w"
  using pos_le_divide_eq [OF assms, of "of_int \<lfloor>t / w\<rfloor>" t] pos_divide_less_eq [OF assms, of t "of_int \<lfloor>t / w\<rfloor> + 1"]
    floor_correct [of "t / w"] by simp_all

lemma due_found:
  assumes inv: "cal_inv c P" and k: "k < ca_nbuckets c" and nd: "not_due c k"
    and e: "bk_list (ca_buckets c ! nth_probe c k) = e # t"
    and soon: "ev_time e - ca_clock c < d" "d \<le> ca_width c * (real (ca_nbuckets c) + real k - 1)"
  shows "found_ok c P (nth_probe c k, e)"
proof -
  let ?w = "ca_width c" and ?n = "ca_nbuckets c"
  let ?B = "\<lfloor>ca_clock c / ?w\<rfloor>"
  let ?b = "\<lambda>x. \<lfloor>ev_time x / ?w\<rfloor>"
  have w: "0 < ?w" and n: "0 < ?n" using inv by (simp_all add: cal_inv_def)
  note less = nth_probe_less [OF inv, of k]
  note hd = bucket_head [OF inv less e]
  have cell: "ca_clock c < (of_int ?B + 1) * ?w" by (rule floor_cell [OF w])
  have "of_int (?b e) * ?w \<le> ev_time e" by (rule floor_cell [OF w])
  also have "\<dots> < ca_clock c + ?w * (real ?n + real k - 1)" using soon by simp
  also have "\<dots> < (of_int ?B + 1) * ?w + ?w * (real ?n + real k - 1)" using cell by simp
  also have "\<dots> = of_int (?B + int ?n + int k) * ?w" by (simp add: algebra_simps)
  finally have up: "?b e < ?B + int ?n + int k" using w by (simp only: mult_less_cancel_right_pos of_int_less_iff)
  have lo: "?B \<le> ?b e" by (rule event_hash(2) [OF inv hd(1)])
  have "?b e mod int ?n = (?B + int k) mod int ?n"
    using event_hash(1) [OF inv hd(1)] hd(2) nth_probe_int [OF inv, of k] by simp
  then have dvd: "int ?n dvd ?b e - (?B + int k)" by (simp add: mod_eq_dvd_iff)
  have be: "?b e = ?B + int k"
  proof (rule ccontr)
    assume "?b e \<noteq> ?B + int k"
    then have "?b e - (?B + int k) \<noteq> 0" by simp
    from dvd_imp_le_int [OF this dvd] have "int ?n \<le> \<bar>?b e - (?B + int k)\<bar>" by simp
    with up lo k show False by linarith
  qed
  have "ev_time e \<le> ev_time x" if x: "x \<in> set P" for x
  proof (rule ccontr)
    assume "\<not> ev_time e \<le> ev_time x"
    then have lt: "ev_time x < ev_time e" by simp
    then have "?b x \<le> ?b e" using w by (intro floor_mono divide_right_mono) auto
    then obtain j where j: "?b x = ?B + int j" "j \<le> k"
      using event_hash(2) [OF inv x] be zle_iff_zadd by auto
    have hx: "cal_hash ?w ?n (ev_time x) = int (nth_probe c j)"
      using event_hash(1) [OF inv x] nth_probe_int [OF inv, of j] j(1) by simp
    show False
    proof (cases "j = k")
      case True
      with hd(3) [OF x] hx lt show False by simp
    next
      case False
      then have jk: "j < k" using j(2) by simp
      obtain h s where h: "bk_list (ca_buckets c ! nth_probe c j) = h # s"
        using bucket_empty [OF inv nth_probe_less [OF inv] _ x, of j] hx
        by (cases "bk_list (ca_buckets c ! nth_probe c j)") auto
      have "ev_time h \<le> ev_time x" by (rule bucket_head(3) [OF inv nth_probe_less [OF inv] h x hx])
      moreover have "ca_clock c + real (Suc j) * ?w \<le> ev_time h" using nd jk h by (simp add: not_due_def)
      moreover have "ev_time x < (of_int (?B + int j) + 1) * ?w" using floor_cell(2) [OF w, of "ev_time x"] j(1) by simp
      moreover have "of_int ?B * ?w \<le> ca_clock c" by (rule floor_cell [OF w])
      ultimately show False by (simp add: algebra_simps)
    qed
  qed
  with e less show ?thesis by (simp add: found_ok_def)
qed

text \<open>A probe finds the earliest event or extends what has been seen.\<close>

lemma cal_probe_step:
  assumes inv: "cal_inv c P" and k: "k < ca_nbuckets c" and nd: "not_due c k" and m: "seen_ok c k m"
    and d: "real (Suc k) * ca_width c \<le> d" "d \<le> ca_width c * (real (ca_nbuckets c) + real k - 1)"
  shows "(\<exists>r. cal_probe d (nth_probe c k) m c = Inl r \<and> found_ok c P r) \<or>
    (\<exists>m'. cal_probe d (nth_probe c k) m c = Inr m' \<and> not_due c (Suc k) \<and> seen_ok c (Suc k) m')"
proof (cases "bk_list (ca_buckets c ! nth_probe c k)")
  case Nil
  then have "cal_probe d (nth_probe c k) m c = Inr m" by (simp add: cal_probe_def)
  moreover have "not_due c (Suc k)" using nd Nil by (auto simp: not_due_def less_Suc_eq)
  moreover have "seen_ok c (Suc k) m"
    using m Nil by (auto simp: seen_ok_def less_Suc_eq split: option.splits)
  ultimately show ?thesis by blast
next
  case (Cons e t)
  show ?thesis
  proof (cases "ev_time e - ca_clock c < d")
    case True
    with due_found [OF inv k nd Cons True d(2)] Cons show ?thesis by (simp add: cal_probe_def)
  next
    case False
    let ?m = "case m of None \<Rightarrow> Some (nth_probe c k, e)
      | Some (l, x) \<Rightarrow> if ev_time x > ev_time e then Some (nth_probe c k, e) else m"
    have "cal_probe d (nth_probe c k) m c = Inr ?m" using Cons False by (simp add: cal_probe_def)
    moreover have "not_due c (Suc k)" using nd Cons False d(1) by (auto simp: not_due_def less_Suc_eq)
    moreover have "seen_ok c (Suc k) ?m"
    proof (cases m)
      case None
      then show ?thesis using m Cons by (auto simp: seen_ok_def less_Suc_eq)
    next
      case (Some lx)
      obtain l x where lx: "lx = (l, x)" by (cases lx)
      then show ?thesis using m Cons Some by (force simp: seen_ok_def less_Suc_eq)
    qed
    ultimately show ?thesis by blast
  qed
qed

lemma nth_probe_surj:
  assumes "cal_inv c P" "i < ca_nbuckets c"
  shows "\<exists>j < ca_nbuckets c. nth_probe c j = i"
proof -
  let ?n = "ca_nbuckets c" and ?l = "nat (ca_lastbucket c)"
  have "?l < ?n" using assms cal_hash_range [of "ca_width c" ?n "ca_clock c"] by (auto simp: cal_inv_def)
  then have "(?l + (i + ?n - ?l) mod ?n) mod ?n = i" using assms(2) by (simp add: mod_simps)
  then show ?thesis using assms by (intro exI [of _ "(i + ?n - ?l) mod ?n"]) (auto simp: nth_probe_def)
qed

lemma cal_final_ok:
  assumes inv: "cal_inv c P" and k: "Suc k = ca_nbuckets c" and m: "seen_ok c k m" and ne: "P \<noteq> []"
  shows "\<exists>r. cal_final (nth_probe c k) m c = Ok r \<and> found_ok c P r"
proof -
  have minimal: "found_ok c P (l, e)"
    if l: "l < ca_nbuckets c" "bk_list (ca_buckets c ! l) = e # t"
      and le: "\<And>j h s. j < ca_nbuckets c \<Longrightarrow> bk_list (ca_buckets c ! nth_probe c j) = h # s \<Longrightarrow> ev_time e \<le> ev_time h" for l e t
  proof -
    have "ev_time e \<le> ev_time x" if x: "x \<in> set P" for x
    proof -
      have "0 \<le> ev_time x" using inv x by (force simp: cal_inv_def)
      note h = cal_inv_hash [OF inv this]
      then obtain j where j: "j < ca_nbuckets c" "int (nth_probe c j) = cal_hash (ca_width c) (ca_nbuckets c) (ev_time x)"
        using nth_probe_surj [OF inv, of "nat (cal_hash (ca_width c) (ca_nbuckets c) (ev_time x))"] by auto
      obtain y ys where y: "bk_list (ca_buckets c ! nth_probe c j) = y # ys"
        using bucket_empty [OF inv nth_probe_less [OF inv] _ x, of j] j(2)
        by (cases "bk_list (ca_buckets c ! nth_probe c j)") auto
      with le [OF j(1) y] bucket_head(3) [OF inv nth_probe_less [OF inv] y x] j(2) show ?thesis by simp
    qed
    with l show ?thesis by (auto simp: found_ok_def)
  qed
  have cases: "j < k \<or> j = k" if "j < ca_nbuckets c" for j using that k by linarith
  have less: "nth_probe c k < ca_nbuckets c" by (rule nth_probe_less [OF inv])
  show ?thesis
  proof (cases m)
    case None
    then have empty: "\<forall>j < k. bk_list (ca_buckets c ! nth_probe c j) = []" using m by (simp add: seen_ok_def)
    have "bk_list (ca_buckets c ! nth_probe c k) \<noteq> []"
    proof
      assume a: "bk_list (ca_buckets c ! nth_probe c k) = []"
      obtain x where x: "x \<in> set P" using ne by (cases P) auto
      then have "0 \<le> ev_time x" using inv by (force simp: cal_inv_def)
      note h = cal_inv_hash [OF inv this]
      then obtain j where j: "j < ca_nbuckets c" "int (nth_probe c j) = cal_hash (ca_width c) (ca_nbuckets c) (ev_time x)"
        using nth_probe_surj [OF inv, of "nat (cal_hash (ca_width c) (ca_nbuckets c) (ev_time x))"] by auto
      have "bk_list (ca_buckets c ! nth_probe c j) = []" using a empty cases [OF j(1)] by blast
      with bucket_empty [OF inv nth_probe_less [OF inv] this x] j(2) show False by simp
    qed
    then obtain e t where e: "bk_list (ca_buckets c ! nth_probe c k) = e # t"
      by (cases "bk_list (ca_buckets c ! nth_probe c k)") auto
    have "found_ok c P (nth_probe c k, e)"
      by (rule minimal [OF less e]) (use empty e cases in force)
    with None e show ?thesis by (simp add: cal_final_def)
  next
    case (Some lx)
    obtain l x where lx: "m = Some (l, x)" using Some by (cases lx) auto
    then obtain j0 t0 where x: "j0 < k" "l = nth_probe c j0" "bk_list (ca_buckets c ! l) = x # t0"
      and least: "\<And>j e t. j < k \<Longrightarrow> bk_list (ca_buckets c ! nth_probe c j) = e # t \<Longrightarrow> ev_time x \<le> ev_time e"
      using m by (auto simp: seen_ok_def)
    have l: "l < ca_nbuckets c" using x(2) nth_probe_less [OF inv] by simp
    show ?thesis
    proof (cases "\<exists>e t. bk_list (ca_buckets c ! nth_probe c k) = e # t \<and> \<not> ev_time x < ev_time e")
      case True
      then obtain e t where e: "bk_list (ca_buckets c ! nth_probe c k) = e # t" "ev_time e \<le> ev_time x" by auto
      have "found_ok c P (nth_probe c k, e)"
      proof (rule minimal [OF less e(1)])
        fix j h s assume j: "j < ca_nbuckets c" "bk_list (ca_buckets c ! nth_probe c j) = h # s"
        from cases [OF j(1)] show "ev_time e \<le> ev_time h"
          using least [OF _ j(2)] j(2) e by auto
      qed
      with lx e show ?thesis by (simp add: cal_final_def)
    next
      case False
      have "found_ok c P (l, x)"
      proof (rule minimal [OF l x(3)])
        fix j h s assume j: "j < ca_nbuckets c" "bk_list (ca_buckets c ! nth_probe c j) = h # s"
        from cases [OF j(1)] show "ev_time x \<le> ev_time h"
          using least [OF _ j(2)] j(2) False by auto
      qed
      with lx False show ?thesis by (cases "bk_list (ca_buckets c ! nth_probe c k)") (auto simp: cal_final_def)
    qed
  qed
qed

lemma nth_probe_Suc: "cal_inv c P \<Longrightarrow> cal_next (ca_nbuckets c) (nth_probe c k) = nth_probe c (Suc k)"
  by (simp add: cal_next_def nth_probe_def mod_Suc)

lemma nth_probe_inj:
  assumes "cal_inv c P" "j < ca_nbuckets c" "k < ca_nbuckets c" "nth_probe c j = nth_probe c k"
  shows "j = k"
proof -
  have "int (nth_probe c j) = int (nth_probe c k)" using assms(4) by simp
  then have "int (ca_nbuckets c) dvd int j - int k"
    unfolding nth_probe_int [OF assms(1)] by (simp add: mod_eq_dvd_iff)
  then have "int j - int k = 0 \<or> int (ca_nbuckets c) \<le> \<bar>int j - int k\<bar>"
    using dvd_imp_le_int [of "int j - int k" "int (ca_nbuckets c)"] by (cases "int j - int k = 0") simp_all
  with assms(2,3) show ?thesis by linarith
qed

lemma cal_year_ok:
  assumes inv: "cal_inv c P" and ne: "P \<noteq> []"
  shows "2 \<le> k \<Longrightarrow> k < ca_nbuckets c \<Longrightarrow> not_due c k \<Longrightarrow> seen_ok c k m \<Longrightarrow>
    \<exists>r n'. cal_year (nth_probe c (ca_nbuckets c - 1)) (nth_probe c k) m n c = Some (Ok r, n') \<and> found_ok c P r"
proof (induction "ca_nbuckets c - k" arbitrary: k m n)
  case (Suc x)
  let ?n = "ca_nbuckets c"
  show ?case
  proof (cases "Suc k = ?n")
    case True
    then have "nth_probe c (?n - 1) = nth_probe c k" by (metis diff_Suc_1)
    with cal_final_ok [OF inv True Suc.prems(4) ne] show ?thesis
      by (subst cal_year.simps) auto
  next
    case False
    then have k: "Suc k < ?n" using Suc.prems(2) by simp
    have stop: "nth_probe c k \<noteq> nth_probe c (?n - 1)"
      using nth_probe_inj [OF inv Suc.prems(2), of "?n - 1"] k by auto
    have w: "0 < ca_width c" and d: "ca_diff2 c = ca_width c * real ?n" using inv by (simp_all add: cal_inv_def)
    have d1: "real (Suc k) * ca_width c \<le> ca_diff2 c" using k w by (simp add: d mult.commute)
    have d2: "ca_diff2 c \<le> ca_width c * (real ?n + real k - 1)" using Suc.prems(1) w by (simp add: d)
    show ?thesis
      using cal_probe_step [OF inv Suc.prems(2-4) d1 d2]
    proof (elim disjE exE conjE, goal_cases)
      case (1 r)
      with stop show ?thesis by (subst cal_year.simps) simp
    next
      case (2 m')
      have "x = ?n - Suc k" using Suc.hyps(2) by simp
      from Suc.hyps(1) [OF this _ k 2(2,3), of "Suc n"] Suc.prems(1) 2(1) stop show ?thesis
        by (subst cal_year.simps) (simp add: nth_probe_Suc [OF inv])
    qed
  qed
qed simp

lemma cal_search_ok:
  assumes inv: "cal_inv c P" and ne: "P \<noteq> []"
  shows "\<exists>r n'. cal_search c = Some (Ok r, n') \<and> found_ok c P r"
proof -
  let ?n = "ca_nbuckets c" and ?w = "ca_width c"
  have w: "0 < ?w" and n: "4 \<le> ?n"
    and d: "ca_diff0 c = ?w * real ?n / 2" "ca_diff1 c = ca_diff0 c + ?w"
    using inv by (simp_all add: cal_inv_def)
  have l: "nat (ca_lastbucket c) < ?n"
    using inv cal_hash_range [of ?w ?n "ca_clock c"] by (auto simp: cal_inv_def)
  then have p0: "nat (ca_lastbucket c) = nth_probe c 0" by (simp add: nth_probe_def)
  have stop: "(if nth_probe c 0 \<noteq> 0 then nth_probe c 0 - 1 else ?n - 1) = nth_probe c (?n - 1)"
  proof (cases "nth_probe c 0")
    case 0
    then have "nat (ca_lastbucket c) = 0" using p0 by simp
    then have "nth_probe c (?n - 1) = ?n - 1" using n by (simp only: nth_probe_def) simp
    with 0 show ?thesis by simp
  next
    case (Suc i)
    then have a: "nat (ca_lastbucket c) + (?n - 1) = i + ?n" using p0 n by simp
    have "i < ?n" using l Suc p0 by simp
    then have "nth_probe c (?n - 1) = i" unfolding nth_probe_def a by simp
    with Suc show ?thesis by simp
  qed
  have wn: "4 * ?w \<le> ?w * real ?n" using w n by (simp add: mult.commute)
  have e: "?w * (real ?n + real 0 - 1) = ?w * real ?n - ?w" "?w * (real ?n + real (Suc 0) - 1) = ?w * real ?n"
    "real (Suc 0) * ?w = ?w" "real (Suc (Suc 0)) * ?w = 2 * ?w" by (simp_all add: algebra_simps)
  have b0: "real (Suc 0) * ?w \<le> ca_diff0 c" "ca_diff0 c \<le> ?w * (real ?n + real 0 - 1)"
    unfolding d e using wn w by linarith+
  have b1: "real (Suc (Suc 0)) * ?w \<le> ca_diff1 c" "ca_diff1 c \<le> ?w * (real ?n + real (Suc 0) - 1)"
    unfolding d e using wn w by linarith+
  have start: "not_due c 0" "seen_ok c 0 None" by (simp_all add: not_due_def seen_ok_def)
  have search: "cal_search c = (case cal_probe (ca_diff0 c) (nth_probe c 0) None c of
       Inl r \<Rightarrow> Some (Ok r, 1)
     | Inr m0 \<Rightarrow> (case cal_probe (ca_diff1 c) (nth_probe c (Suc 0)) m0 c of
            Inl r \<Rightarrow> Some (Ok r, 2)
          | Inr m1 \<Rightarrow> cal_year (nth_probe c (?n - 1)) (nth_probe c (Suc (Suc 0))) m1 2 c))"
    unfolding cal_search_def Let_def p0 stop nth_probe_Suc [OF inv] ..
  have k0: "0 < ?n" using n by simp
  show ?thesis
    using cal_probe_step [OF inv k0 start b0]
  proof (elim disjE exE conjE, goal_cases)
    case (1 r)
    then show ?case unfolding search by simp
  next
    case (2 m0)
    have k1: "Suc 0 < ?n" "Suc (Suc 0) < ?n" using n by simp_all
    show ?case
      using cal_probe_step [OF inv k1(1) 2(2,3) b1]
    proof (elim disjE exE conjE, goal_cases)
      case (1 r)
      with 2 show ?case unfolding search by simp
    next
      case 3: (2 m1)
      from cal_year_ok [OF inv ne _ k1(2) 3(2,3), of 2] 3(1) 2(1) show ?case unfolding search by simp
    qed
  qed
qed

lemma found_first:
  assumes inv: "cal_inv c (m # P)" and r: "found_ok c (m # P) (l, e)"
  shows "e = m" "int l = cal_hash (ca_width c) (ca_nbuckets c) (ev_time m)"
proof -
  obtain t where l: "l < ca_nbuckets c" "bk_list (ca_buckets c ! l) = e # t" "ev_time e \<le> ev_time m"
    using r by (auto simp: found_ok_def)
  note hd = bucket_head [OF inv l(1,2)]
  have "ev_time m \<le> ev_time e" using hd(1) inv by (auto simp: cal_inv_def)
  then have t: "ev_time m = ev_time e" using l(3) by simp
  have "filter (\<lambda>x. cal_hash (ca_width c) (ca_nbuckets c) (ev_time x) = int l) (m # P) = e # t"
    using inv l(1,2) by (simp add: cal_inv_def buckets_hold_def)
  then show "e = m" using hd(2) t by simp
  then show "int l = cal_hash (ca_width c) (ca_nbuckets c) (ev_time m)" using hd(2) by simp
qed

lemma cal_head_ok:
  assumes inv: "cal_inv c (m # P)"
  shows "\<exists>c'. cal_head c = Ok (Some m, c') \<and> cal_inv c' (m # P) \<and> ca_clock c' = ev_time m"
proof -
  obtain l e n' where s: "cal_search c = Some (Ok (l, e), n')" "found_ok c (m # P) (l, e)"
    using cal_search_ok [OF inv] by auto
  note f = found_first [OF inv s(2)]
  have q: "ca_qsize c \<noteq> 0" using inv by (simp add: cal_inv_def)
  let ?c = "c\<lparr>ca_head_search := ca_head_search c + n', ca_lastbucket := int l, ca_clock := ev_time e\<rparr>"
  have "cal_inv ?c (m # P)" using inv f by (force simp: cal_inv_def)
  with s q f(1) show ?thesis by (simp add: cal_head_def)
qed

lemma cal_head_empty: "cal_inv c [] \<Longrightarrow> cal_head c = Ok (None, c)"
  by (simp add: cal_head_def cal_inv_def)

section \<open>Removing an event\<close>

lemma cal_sample_ok:
  assumes inv: "cal_inv c P"
  shows "\<exists>c'. cal_sample e c = Ok c' \<and> cal_inv c' P \<and> ca_clock c' = ca_clock c"
proof -
  have upd: "cal_inv (c\<lparr>ca_last_time := t\<rparr>) P" "cal_inv (c\<lparr>ca_gap_num := g\<rparr>) P"
    "cal_inv (c\<lparr>ca_avg_gap := a, ca_gap_num := g, ca_last_time := t, ca_round_num := r\<rparr>) P"
    "cal_inv (c\<lparr>ca_avg_gap := a, ca_gap_num := g, ca_last_time := t, ca_round_num := r, ca_head_search := h,
       ca_insert_search := s\<rparr>) P" for t g a r h s
    using inv by (simp_all add: cal_inv_def)
  let ?c = "c\<lparr>ca_avg_gap := (ev_time e - ca_last_time c) / of_int (ca_gap_num c + 1), ca_gap_num := 0,
      ca_last_time := ev_time e, ca_round_num := ca_round_num c + 1\<rparr>"
  have n: "0 < ca_nbuckets c" using inv by (simp add: cal_inv_def)
  have "cal_inv ?c P" by (rule upd(3))
  from cal_resize_ok [OF this n] obtain c3 where
    c3: "cal_resize (ca_nbuckets c) (ca_clock c) ?c = Ok c3" "cal_inv c3 P" "ca_clock c3 = ca_clock c" by auto
  have "cal_inv (c3\<lparr>ca_round_num := 0\<rparr>) P" using c3(2) by (simp add: cal_inv_def)
  with c3 upd inv show ?thesis by (simp add: cal_sample_def Let_def)
qed

lemma card_times_Cons:
  "sorted_events (e # xs) \<Longrightarrow>
   card (ev_time ` set (e # xs)) = card (ev_time ` set xs) + (if xs = [] \<or> ev_time (hd xs) \<noteq> ev_time e then 1 else 0)"
  by (cases xs) (auto simp: card_insert_if)

lemma cal_unlink_head_ok:
  assumes inv: "cal_inv c (m # P)" and clock: "ca_clock c = ev_time m"
  shows "cal_inv (cal_unlink_head m (nat (ca_lastbucket c)) c) P" "ca_lastbucket c \<ge> 0"
    "nat (ca_lastbucket c) < length (ca_buckets c)"
proof -
  let ?w = "ca_width c" and ?n = "ca_nbuckets c"
  have wn: "0 < ?w" "0 < ?n" "0 \<le> ev_time m" "ca_lastbucket c = cal_hash ?w ?n (ev_time m)" and s: "sorted_events (m # P)"
    and hold: "buckets_hold ?w ?n (ca_buckets c) (m # P)"
    using inv clock by (auto simp: cal_inv_def)
  define l where "l = nat (ca_lastbucket c)"
  have l: "cal_hash ?w ?n (ev_time m) = int l" "l < ?n" "l < length (ca_buckets c)" "0 \<le> ca_lastbucket c"
    using cal_hash_range [OF wn(1-3)] wn(4) hold by (simp_all add: l_def buckets_hold_def)
  show "ca_lastbucket c \<ge> 0" "nat (ca_lastbucket c) < length (ca_buckets c)" using l by (simp_all add: l_def)
  let ?b = "ca_buckets c ! l"
  define rest where "rest = filter (\<lambda>e. cal_hash ?w ?n (ev_time e) = int l) P"
  have b: "bk_list ?b = m # rest" "bk_count ?b = int (card (ev_time ` set (bk_list ?b)))"
    using hold l(1,2) by (simp_all add: buckets_hold_def rest_def)
  have sb: "sorted_events (m # rest)" using buckets_hold_ok [OF hold s l(2)] b(1) by (simp add: bucket_ok_def)
  define u :: int where "u = (if rest = [] \<or> ev_time (hd rest) \<noteq> ev_time m then 1 else 0)"
  define b' where "b' = \<lparr>bk_list = rest, bk_count = bk_count ?b - u\<rparr>"
  have cnt: "bk_count b' = int (card (ev_time ` set (bk_list b')))"
    using card_times_Cons [OF sb] b by (auto simp: b'_def u_def split: if_splits)
  have b'_list: "bk_list b' = filter (\<lambda>e. cal_hash ?w ?n (ev_time e) = int l) P" by (simp add: b'_def rest_def)
  have hold': "buckets_hold ?w ?n ((ca_buckets c)[l := b']) P"
    by (rule buckets_hold_update [OF hold l(2) b'_list cnt]) (use l(1) in auto)
  have stat: "sum_list (map bk_count ((ca_buckets c)[l := b'])) = ca_stat_qsize c - u"
    using inv sum_list_update_int [OF l(3), of bk_count b'] by (simp add: cal_inv_def b'_def)
  have "cal_unlink_head m l c = c\<lparr>ca_buckets := (ca_buckets c)[l := b'],
      ca_stat_qsize := ca_stat_qsize c - u, ca_qsize := ca_qsize c - 1\<rparr>"
    by (simp add: cal_unlink_head_def b(1) Let_def b'_def u_def)
  moreover have "cal_inv (c\<lparr>ca_buckets := (ca_buckets c)[l := b'],
      ca_stat_qsize := ca_stat_qsize c - u, ca_qsize := ca_qsize c - 1\<rparr>) P"
    using inv hold' stat by (simp add: cal_inv_def)
  ultimately show "cal_inv (cal_unlink_head m (nat (ca_lastbucket c)) c) P"
    unfolding l_def [symmetric] by simp
qed

lemma cal_deque_ok:
  assumes inv: "cal_inv c (m # P)"
  shows "\<exists>c'. cal_deque c = Ok (Some m, c') \<and> cal_inv c' P"
proof -
  obtain c0 where c0: "cal_head c = Ok (Some m, c0)" "cal_inv c0 (m # P)" "ca_clock c0 = ev_time m"
    using cal_head_ok [OF inv] by blast
  obtain c1 where c1: "cal_sample m c0 = Ok c1" "cal_inv c1 (m # P)" "ca_clock c1 = ev_time m"
    using cal_sample_ok [OF c0(2), of m] c0(3) by auto
  note u = cal_unlink_head_ok [OF c1(2,3)]
  let ?c = "cal_unlink_head m (nat (ca_lastbucket c1)) c1"
  have "4 \<le> ca_nbuckets ?c" using u(1) by (simp add: cal_inv_def)
  then have "0 < ca_nbuckets ?c div 2" by simp
  from cal_resize_ok [OF u(1) this] c0 c1 u show ?thesis
    by (auto simp: cal_deque_def Let_def)
qed

lemma cal_deque_empty: "cal_inv c [] \<Longrightarrow> cal_deque c = Ok (None, c)"
  by (simp add: cal_deque_def cal_head_empty)


section \<open>Cancellation and lookup\<close>

lemma index_of_Some: "index_of e xs = Some k \<Longrightarrow> k < length xs \<and> ev_addr (xs ! k) = ev_addr e"
  by (induction xs arbitrary: k) (auto split: if_splits)

lemma index_of_None: "index_of e xs = None \<longleftrightarrow> ev_addr e \<notin> ev_addr ` set xs"
  by (induction xs) auto

lemma index_of_nth:
  assumes "distinct_events xs" "e \<in> set xs"
  obtains k where "index_of e xs = Some k" "k < length xs" "xs ! k = e"
proof -
  obtain k where k: "index_of e xs = Some k" using assms(2) by (cases "index_of e xs") (auto simp: index_of_None)
  note s = index_of_Some [OF k]
  then have "xs ! k = e" using distinct_events_eq [OF assms(1) _ assms(2)] by simp
  with k s that show ?thesis by blast
qed

lemma remove1_nth:
  "distinct xs \<Longrightarrow> k < length xs \<Longrightarrow> remove1 (xs ! k) xs = take k xs @ drop (Suc k) xs"
  by (induction xs arbitrary: k) (auto simp: nth_Cons' gr0_conv_Suc)

text \<open>An event is the only one of its time if both neighbours in the circular list differ from it.\<close>

lemma neighbours_unique:
  assumes s: "sorted_events xs" and d: "distinct xs" and k: "k < length xs"
  shows "(length xs = 1 \<or>
      ev_time (xs ! (if Suc k = length xs then 0 else Suc k)) \<noteq> ev_time (xs ! k) \<and>
      ev_time (xs ! (if k = 0 then length xs - 1 else k - 1)) \<noteq> ev_time (xs ! k)) \<longleftrightarrow>
    ev_time (xs ! k) \<notin> ev_time ` set (take k xs @ drop (Suc k) xs)"
    (is "?u \<longleftrightarrow> ?rhs")
proof
  let ?n = "length xs"
  have le: "ev_time (xs ! i) \<le> ev_time (xs ! j)" if "i \<le> j" "j < ?n" for i j
    using sorted_nth_mono [OF s, of i j] that by simp
  have others: "?rhs \<longleftrightarrow> (\<forall>j < ?n. j \<noteq> k \<longrightarrow> ev_time (xs ! j) \<noteq> ev_time (xs ! k))"
  proof -
    have "set (take k xs @ drop (Suc k) xs) = set xs - {xs ! k}"
      using remove1_nth [OF d k] set_remove1_eq [OF d, of "xs ! k"] by simp
    also have "\<dots> = {xs ! j | j. j < ?n \<and> j \<noteq> k}"
      using nth_eq_iff_index_eq [OF d _ k] by (auto simp: in_set_conv_nth)
    finally have "ev_time ` set (take k xs @ drop (Suc k) xs) = {ev_time (xs ! j) | j. j < ?n \<and> j \<noteq> k}" by auto
    then show ?thesis by (simp only: mem_Collect_eq) metis
  qed
  show ?rhs if ?u
    unfolding others
  proof (intro allI impI)
    fix j assume j: "j < ?n" "j \<noteq> k"
    then have n1: "?n \<noteq> 1" using k by linarith
    then have u: "ev_time (xs ! (if Suc k = ?n then 0 else Suc k)) \<noteq> ev_time (xs ! k)"
      "ev_time (xs ! (if k = 0 then ?n - 1 else k - 1)) \<noteq> ev_time (xs ! k)" using that by auto
    show "ev_time (xs ! j) \<noteq> ev_time (xs ! k)"
    proof (cases "j < k")
      case True
      then have "ev_time (xs ! j) \<le> ev_time (xs ! (k - 1))" "ev_time (xs ! (k - 1)) \<le> ev_time (xs ! k)" "k \<noteq> 0"
        using le k by auto
      with u(2) show ?thesis by auto
    next
      case False
      then have "ev_time (xs ! Suc k) \<le> ev_time (xs ! j)" "ev_time (xs ! k) \<le> ev_time (xs ! Suc k)" "Suc k \<noteq> ?n"
        using le j by auto
      with u(1) show ?thesis by auto
    qed
  qed
  show ?u if ?rhs
  proof (cases "?n = 1")
    case False
    let ?j1 = "if Suc k = ?n then 0 else Suc k" and ?j2 = "if k = 0 then ?n - 1 else k - 1"
    have "?j1 < ?n" "?j1 \<noteq> k" "?j2 < ?n" "?j2 \<noteq> k" using k False by auto
    with that show ?thesis unfolding others by blast
  qed simp
qed

lemma cal_cancel_ok:
  assumes inv: "cal_inv c P" and e: "e \<in> set P" "0 < ev_uid e"
  shows "\<exists>c'. cal_cancel e c = Ok (c', ev_negate_uid e) \<and> cal_inv c' (remove1 e P)"
proof -
  let ?w = "ca_width c" and ?n = "ca_nbuckets c"
  have t: "0 \<le> ev_time e" using inv e(1) by (force simp: cal_inv_def)
  have s: "sorted_events P" and d: "distinct_events P" and hold: "buckets_hold ?w ?n (ca_buckets c) P"
    using inv by (simp_all add: cal_inv_def)
  note dP = distinct_events_distinct [OF d]
  define i where "i = nat (cal_hash ?w ?n (ev_time e))"
  have i: "cal_hash ?w ?n (ev_time e) = int i" "i < length (ca_buckets c)" "i < ?n"
    using cal_inv_hash [OF inv t] by (simp_all add: i_def)
  define Q where "Q = (\<lambda>i (x :: event). cal_hash ?w ?n (ev_time x) = int i)"
  define xs where "xs = bk_list (ca_buckets c ! i)"
  have xs: "xs = filter (Q i) P" and cnt: "bk_count (ca_buckets c ! i) = int (card (ev_time ` set xs))"
    using hold i(3) by (simp_all add: buckets_hold_def xs_def Q_def)
  have dxs: "distinct_events xs" unfolding xs using d by (simp add: distinct_map_filter)
  note dx = distinct_events_distinct [OF dxs]
  have sx: "sorted_events xs" unfolding xs by (rule sorted_filter [OF s])
  have exs: "e \<in> set xs" using e(1) i(1) by (simp add: xs Q_def)
  obtain k where k: "index_of e xs = Some k" "k < length xs" "xs ! k = e" by (rule index_of_nth [OF dxs exs])
  have rest: "take k xs @ drop (Suc k) xs = remove1 e xs" using remove1_nth [OF dx k(2)] k(3) by simp
  have fr: "filter (Q j) (remove1 e P) = (if j = i then remove1 e (filter (Q j) P) else filter (Q j) P)" for j
  proof (cases "j = i")
    case True
    have "Q i e" using i(1) by (simp add: Q_def)
    with True show ?thesis by (simp add: filter_remove1)
  next
    case False
    then have "e \<notin> set (filter (Q j) P)" using i(1) by (simp add: Q_def)
    with False show ?thesis by (simp add: filter_remove1 remove1_idem)
  qed
  define u where "u \<longleftrightarrow> ev_time e \<notin> ev_time ` set (remove1 e xs)"
  define b where "b = \<lparr>bk_list = remove1 e xs, bk_count = bk_count (ca_buckets c ! i) - (if u then 1 else 0)\<rparr>"
  have uniq: "(length xs = 1 \<or> ev_time (xs ! (if Suc k = length xs then 0 else Suc k)) \<noteq> ev_time e \<and>
      ev_time (xs ! (if k = 0 then length xs - 1 else k - 1)) \<noteq> ev_time e) \<longleftrightarrow> u"
    using neighbours_unique [OF sx dx k(2)] unfolding k(3) rest u_def .
  have "insert e (set (remove1 e xs)) = set xs" using exs dx by auto
  then have "ev_time ` set xs = insert (ev_time e) (ev_time ` set (remove1 e xs))" by (metis image_insert)
  then have "card (ev_time ` set xs) = card (ev_time ` set (remove1 e xs)) + (if u then 1 else 0)"
    by (simp add: card_insert_if u_def)
  then have cb: "bk_count b = int (card (ev_time ` set (bk_list b)))"
    by (simp add: b_def cnt)
  have lb: "bk_list b = filter (\<lambda>x. cal_hash ?w ?n (ev_time x) = int i) (remove1 e P)"
    using fr [of i] by (simp add: b_def xs Q_def)
  have hold': "buckets_hold ?w ?n ((ca_buckets c)[i := b]) (remove1 e P)"
    by (rule buckets_hold_update [OF hold i(3) lb cb]) (use fr in \<open>simp add: Q_def\<close>)
  have stat: "sum_list (map bk_count ((ca_buckets c)[i := b])) = ca_stat_qsize c - (if u then 1 else 0)"
    using inv sum_list_update_int [OF i(2), of bk_count b] by (simp add: cal_inv_def b_def)
  let ?c = "c\<lparr>ca_buckets := (ca_buckets c)[i := b], ca_qsize := ca_qsize c - 1,
      ca_stat_qsize := ca_stat_qsize c - (if u then 1 else 0)\<rparr>"
  have "int (length (remove1 e P)) = int (length P) - 1"
    using e(1) length_pos_if_in_set [OF e(1)] by (simp only: length_remove1 if_True)
  moreover have "sorted_events (remove1 e P)" by (rule sorted_map_remove1 [OF s])
  ultimately have inv': "cal_inv ?c (remove1 e P)"
    using inv hold' stat distinct_events_remove1 [OF d, of e] by (auto simp: cal_inv_def dest: notin_set_remove1)
  have "0 \<le> ca_stat_qsize ?c"
  proof -
    have "0 \<le> bk_count x" if "x \<in> set ((ca_buckets c)[i := b])" for x
      using hold' that by (auto simp: buckets_hold_def in_set_conv_nth)
    then have "0 \<le> sum_list (map bk_count ((ca_buckets c)[i := b]))" by (intro sum_list_nonneg) auto
    then show ?thesis by (simp only: stat) simp
  qed
  moreover have "0 \<le> bk_count b" "bk_count b = 0 \<longrightarrow> bk_list b = []" by (simp_all add: cb)
  ultimately have "cal_cancel e c = Ok (?c, ev_negate_uid e)"
    using e(2) i(2)
    unfolding cal_cancel_def Let_def i(1) nat_int xs_def [symmetric] k(1) option.case uniq rest b_def [symmetric]
    by auto
  with inv' show ?thesis by blast
qed

lemma cal_lookup_set:
  assumes "cal_inv c P"
  shows "set (concat (map bk_list (ca_buckets c))) = set P"
proof -
  have "\<forall>e \<in> set P. 0 \<le> ev_time e" using assms by (force simp: cal_inv_def)
  then have "mset (bucket_events (ca_buckets c)) = mset P"
    using assms by (intro set_bucket_events) (auto simp: cal_inv_def)
  then have "set (bucket_events (ca_buckets c)) = set P" by (rule mset_eq_setD)
  then show ?thesis by (simp add: bucket_events_def)
qed

section \<open>The calendar queue is a scheduler queue\<close>

text \<open>The operations as the scheduler calls them; no event is scheduled before time 0.\<close>

definition cal_ins :: "event \<Rightarrow> calendar \<Rightarrow> calendar" where
  "cal_ins e c = (case cal_insert e c of Inr c' \<Rightarrow> c' | Inl _ \<Rightarrow> c)"

definition cal_deq :: "calendar \<Rightarrow> event option \<times> calendar" where
  "cal_deq c = (case cal_deque c of Inr r \<Rightarrow> r | Inl _ \<Rightarrow> (None, c))"

definition cal_front :: "calendar \<Rightarrow> event option" where
  "cal_front c = (case cal_head c of Inr (r, _) \<Rightarrow> r | Inl _ \<Rightarrow> None)"

definition cal_can :: "event \<Rightarrow> calendar \<Rightarrow> calendar" where
  "cal_can e c = (case cal_cancel e c of Inr (c', _) \<Rightarrow> c' | Inl _ \<Rightarrow> c)"

definition cal_repr :: "calendar \<Rightarrow> event list \<Rightarrow> bool" where
  "cal_repr c xs \<longleftrightarrow> distinct_events xs \<and> cal_inv c (pending_order xs)"

lemma cal_new_inv: "cal_inv (cal_new adjust min_width c) []"
proof -
  have "cal_inv (cal_reinit 4 1 (ca_clock c) c) []" if "ca_clock c = 0" for c
    using that by (intro cal_reinit_inv) simp_all
  then show ?thesis by (simp add: cal_new_def Let_def)
qed

lemma cal_repr_ins:
  assumes "cal_repr c xs" "0 \<le> ev_time e" "ev_addr e \<notin> ev_addr ` set xs"
  shows "cal_repr (cal_ins e c) (xs @ [e])"
  using cal_insert_ok [of c "pending_order xs" e] assms
  by (auto simp: cal_repr_def cal_ins_def pending_order_snoc)

lemma cal_repr_deq:
  assumes "cal_repr c xs" "xs \<noteq> []"
  shows "\<exists>c'. cal_deq c = (Some (earliest xs), c') \<and> cal_repr c' (remove1 (earliest xs) xs)"
proof -
  have d: "distinct_events xs" and "cal_inv c (pending_order xs)" using assms(1) by (simp_all add: cal_repr_def)
  then have "cal_inv c (earliest xs # pending_order (remove1 (earliest xs) xs))"
    using pending_order_Cons [OF assms(2) d] by simp
  from cal_deque_ok [OF this] d show ?thesis
    by (auto simp: cal_deq_def cal_repr_def distinct_events_remove1)
qed

interpretation calq: event_queue "cal_new adjust min_width c0" cal_ins cal_deq cal_front cal_can cal_lookup cal_repr
  "\<lambda>_ _. True" "\<lambda>e. 0 \<le> ev_time e" for adjust min_width c0
proof unfold_locales
  show "cal_repr (cal_new adjust min_width c0) []" by (simp add: cal_repr_def pending_order_def cal_new_inv)
  show "cal_deq q = (None, q)" if "cal_repr q []" for q
    using that by (simp add: cal_repr_def pending_order_def cal_deq_def cal_deque_empty)
  show "cal_front q = fst (cal_deq q)" if r: "cal_repr q xs" for q xs
  proof (cases "xs = []")
    case True
    with r show ?thesis
      by (simp add: cal_repr_def pending_order_def cal_deq_def cal_deque_empty cal_front_def cal_head_empty)
  next
    case False
    have "cal_inv q (earliest xs # pending_order (remove1 (earliest xs) xs))"
      using r pending_order_Cons [OF False] by (simp add: cal_repr_def)
    from cal_head_ok [OF this] cal_repr_deq [OF r False] show ?thesis by (auto simp: cal_front_def)
  qed
  show "cal_repr (cal_can e q) (remove1 e xs)" if "cal_repr q xs" "e \<in> set xs" "0 < ev_uid e" for q xs e
    using cal_cancel_ok [of q "pending_order xs" e] that
    by (auto simp: cal_repr_def cal_can_def pending_order_remove1 distinct_events_remove1)
  show "e \<in> set xs \<and> ev_uid e = u" if "cal_repr q xs" "cal_lookup u q = Some e" for q xs u e
    using that cal_lookup_set [of q "pending_order xs"]
    by (auto simp: cal_repr_def cal_lookup_def find_Some_iff simp del: set_concat dest!: nth_mem)
  show "ev_uid e \<noteq> u" if "cal_repr q xs" "cal_lookup u q = None" "e \<in> set xs" for q xs u e
    using that cal_lookup_set [of q "pending_order xs"]
    by (auto simp: cal_repr_def cal_lookup_def find_None_iff simp del: set_concat)
qed (auto simp: cal_repr_ins dest: cal_repr_deq, simp_all add: cal_repr_def)

section \<open>Properties\<close>

text \<open>A run of operations in which every failure shows.\<close>

fun cal_run :: "eq_op list \<Rightarrow> calendar \<Rightarrow> event option list res" where
  "cal_run [] c = Ok []"
| "cal_run (Insert e # ops) c = res_bind (cal_insert e c) (cal_run ops)"
| "cal_run (Deque # ops) c =
     res_bind (cal_deque c) (\<lambda>(r, c'). res_bind (cal_run ops c') (\<lambda>rs. Ok (r # rs)))"
| "cal_run (Cancel e # ops) c = res_bind (cal_cancel e c) (\<lambda>(c', _). cal_run ops c')"

lemma cal_run_refines:
  "cal_repr c xs \<Longrightarrow> valid_ops ops xs \<Longrightarrow> (\<And>x. x \<in> set xs \<Longrightarrow> 0 < ev_uid x) \<Longrightarrow>
   (\<And>e. Insert e \<in> set ops \<Longrightarrow> 0 \<le> ev_time e) \<Longrightarrow> cal_run ops c = Ok (spec_run ops xs)"
proof (induction ops arbitrary: c xs)
  case (Cons oper ops)
  have P: "distinct_events xs" "cal_inv c (pending_order xs)" using Cons.prems(1) by (simp_all add: cal_repr_def)
  show ?case
  proof (cases oper)
    case (Insert e)
    with Cons.prems have t: "0 \<le> ev_time e" "ev_addr e \<notin> ev_addr ` set xs" by simp_all
    obtain c' where "cal_insert e c = Ok c'" using cal_insert_ok [OF P(2) t(1)] t(2) by auto
    moreover from this cal_repr_ins [OF Cons.prems(1) t] have "cal_repr c' (xs @ [e])" by (simp add: cal_ins_def)
    moreover have "cal_run ops c' = Ok (spec_run ops (xs @ [e]))"
      using Cons.prems Insert by (intro Cons.IH [OF calculation(2)]) auto
    ultimately show ?thesis using Insert by simp
  next
    case Deque
    show ?thesis
    proof (cases "xs = []")
      case True
      with P(2) have "cal_deque c = Ok (None, c)" by (simp add: pending_order_def cal_deque_empty)
      moreover have "cal_run ops c = Ok (spec_run ops [])"
        using Cons.prems Deque True by (intro Cons.IH) auto
      ultimately show ?thesis using Deque True by simp
    next
      case False
      obtain c' where c': "cal_deque c = Ok (Some (earliest xs), c')" "cal_repr c' (remove1 (earliest xs) xs)"
        using cal_deque_ok [of c "earliest xs" "pending_order (remove1 (earliest xs) xs)"] P pending_order_Cons [OF False P(1)]
        by (auto simp: cal_repr_def distinct_events_remove1)
      have "cal_run ops c' = Ok (spec_run ops (remove1 (earliest xs) xs))"
        using Cons.prems Deque False by (intro Cons.IH [OF c'(2)]) (auto dest: notin_set_remove1)
      with c'(1) Deque False show ?thesis by simp
    qed
  next
    case (Cancel e)
    with Cons.prems have e: "e \<in> set (pending_order xs)" "0 < ev_uid e" by auto
    obtain c' where c': "cal_cancel e c = Ok (c', ev_negate_uid e)" "cal_inv c' (remove1 e (pending_order xs))"
      using cal_cancel_ok [OF P(2) e] by blast
    then have "cal_repr c' (remove1 e xs)"
      using P(1) by (simp add: cal_repr_def pending_order_remove1 distinct_events_remove1)
    then have "cal_run ops c' = Ok (spec_run ops (remove1 e xs))"
      using Cons.prems Cancel by (intro Cons.IH) (auto dest: notin_set_remove1)
    with c'(1) Cancel show ?thesis by simp
  qed
qed simp

text \<open>
  C3: on every valid sequence of insertions at times from 0 on, cancellations and deques the
  calendar queue never fails, its search for the next event always ends, and it returns the
  events of the abstract queue, the earliest first and those of equal time in order of
  insertion, however often it changes the number or the width of its buckets.
\<close>

theorem calendar_refines:
  assumes "valid_ops ops []" "\<And>e. Insert e \<in> set ops \<Longrightarrow> 0 \<le> ev_time e"
  shows "cal_run ops (cal_new adjust min_width c) = Ok (spec_run ops [])"
proof -
  have "cal_repr (cal_new adjust min_width c) []" by (simp add: cal_repr_def pending_order_def cal_new_inv)
  from cal_run_refines [OF this assms(1)] assms(2) show ?thesis by simp
qed

definition demo_cal_event :: "nat \<Rightarrow> event" where
  "demo_cal_event n = \<lparr>ev_addr = n, ev_handler = 1, ev_time = real ((7 * n) mod 5), ev_uid = int n + 1\<rparr>"

theorem calendar_refines_witness:
  "\<forall>c. cal_run (map (\<lambda>n. Insert (demo_cal_event n)) [0..<12] @ [Deque, Deque, Deque]) (cal_new 10 (1 / 10 ^ 18) c) =
     Ok [Some (demo_cal_event 0), Some (demo_cal_event 5), Some (demo_cal_event 10)]"
proof -
  let ?ops = "map (\<lambda>n. Insert (demo_cal_event n)) [0..<12] @ [Deque, Deque, Deque]"
  have "valid_ops ?ops []" "spec_run ?ops [] = [Some (demo_cal_event 0), Some (demo_cal_event 5), Some (demo_cal_event 10)]"
    by (simp_all add: upt_rec demo_cal_event_def)
  moreover have "0 \<le> ev_time e" if "Insert e \<in> set ?ops" for e using that by (auto simp: demo_cal_event_def)
  ultimately show ?thesis using calendar_refines [of ?ops 10 "1 / 10 ^ 18"] by simp
qed

end
