(* ===== verification/Packet_Queue.thy ===== *)
theory Packet_Queue
  imports Prelude
begin

text \<open>
  Packets and class \<open>PacketQueue\<close> of \<open>queue/queue.h\<close> and \<open>queue/queue.cc\<close>: a
  singly linked list through the \<open>next_\<close> pointers of the packets, with head and tail
  pointers, a packet count and a byte count. The store holds the \<open>next_\<close> pointers and
  headers of all packets; the queue is shown to be a list of packet addresses.
\<close>

section \<open>Packets\<close>

text \<open>
  The header fields the queues read: \<open>size_\<close>, \<open>ptype_\<close> and
  \<open>ts_\<close> of \<open>hdr_cmn\<close>,
  \<open>flowid\<close>, \<open>prio\<close>, \<open>src\<close> and \<open>dst\<close> of \<open>hdr_ip\<close>, \<open>ect\<close> and \<open>ce\<close>
  of \<open>hdr_flags\<close>. \<open>pk_addr\<close> is the address of the packet.
\<close>

record packet =
  pk_addr :: nat
  pk_size :: int
  pk_ptype :: nat
  pk_timestamp :: real
  pk_flow :: int
  pk_prio :: int
  pk_src :: int
  pk_dst :: int
  pk_ect :: bool
  pk_ce :: bool

record store =
  st_next :: "nat \<Rightarrow> nat option"
  st_size :: "nat \<Rightarrow> int"

section \<open>The operations\<close>

record pqueue =
  pq_head :: "nat option"
  pq_tail :: "nat option"
  pq_len :: int
  pq_bytes :: int
  pq_iter :: "nat option"

type_synonym pq_state = "store \<times> pqueue"

definition set_next :: "nat \<Rightarrow> nat option \<Rightarrow> store \<Rightarrow> store" where
  "set_next a n st = st\<lparr>st_next := (st_next st)(a := n)\<rparr>"

definition pq_new :: "pqueue" where
  "pq_new = \<lparr>pq_head = None, pq_tail = None, pq_len = 0, pq_bytes = 0, pq_iter = None\<rparr>"

definition pq_enque :: "nat \<Rightarrow> pq_state \<Rightarrow> nat option \<times> pq_state" where
  "pq_enque p s =
     (let (st, q) = s;
          (st1, q1) = (case pq_tail q of
             None \<Rightarrow> (st, q\<lparr>pq_head := Some p, pq_tail := Some p\<rparr>)
           | Some t \<Rightarrow> (set_next t (Some p) st, q\<lparr>pq_tail := Some p\<rparr>))
      in (pq_tail q, set_next p None st1,
          q1\<lparr>pq_len := pq_len q + 1, pq_bytes := pq_bytes q + st_size st p\<rparr>))"

definition pq_deque :: "pq_state \<Rightarrow> nat option \<times> pq_state" where
  "pq_deque s =
     (let (st, q) = s in
      case pq_head q of
        None \<Rightarrow> (None, s)
      | Some p \<Rightarrow>
          let q1 = q\<lparr>pq_head := st_next st p\<rparr>;
              q2 = (if Some p = pq_tail q then q1\<lparr>pq_head := None, pq_tail := None\<rparr> else q1)
          in (Some p, st, q2\<lparr>pq_len := pq_len q - 1, pq_bytes := pq_bytes q - st_size st p\<rparr>))"

text \<open>
  The loops follow the links, which nothing in the code keeps acyclic: they are partial
  and \<open>None\<close> stands for a loop that does not end.
\<close>

partial_function (option) pq_lookup_loop ::
  "(nat \<Rightarrow> nat option) \<Rightarrow> nat option \<Rightarrow> int \<Rightarrow> nat option option" where
  "pq_lookup_loop nx p n =
     (case p of
        None \<Rightarrow> Some None
      | Some a \<Rightarrow> if n - 1 < 0 then Some (Some a) else pq_lookup_loop nx (nx a) (n - 1))"

definition pq_lookup :: "int \<Rightarrow> pq_state \<Rightarrow> nat option option" where
  "pq_lookup n s = pq_lookup_loop (st_next (fst s)) (pq_head (snd s)) n"

definition pq_unlink_after :: "nat \<Rightarrow> nat \<Rightarrow> pq_state \<Rightarrow> pq_state" where
  "pq_unlink_after pp p s =
     (let (st, q) = s;
          q1 = (if Some p = pq_tail q then q\<lparr>pq_tail := Some pp\<rparr> else q)
      in (set_next pp (st_next st p) st,
          q1\<lparr>pq_len := pq_len q - 1, pq_bytes := pq_bytes q - st_size st p\<rparr>))"

partial_function (option) pq_remove_loop ::
  "nat \<Rightarrow> nat option \<Rightarrow> nat option \<Rightarrow> pq_state \<Rightarrow> pq_state res option" where
  "pq_remove_loop target pp p s =
     (case p of
        None \<Rightarrow> Some (Fail Abort)
      | Some a \<Rightarrow>
          if a = target then
            (case pp of None \<Rightarrow> Some (Ok (snd (pq_deque s)))
             | Some b \<Rightarrow> Some (Ok (pq_unlink_after b a s)))
          else pq_remove_loop target (Some a) (st_next (fst s) a) s)"

definition pq_remove :: "nat \<Rightarrow> pq_state \<Rightarrow> pq_state res option" where
  "pq_remove target s = pq_remove_loop target None (pq_head (snd s)) s"

text \<open>The second \<open>remove\<close> trusts its caller: \<open>prev\<close> is dereferenced unless the packet is the head.\<close>

definition pq_remove_prev :: "nat option \<Rightarrow> nat option \<Rightarrow> pq_state \<Rightarrow> pq_state res" where
  "pq_remove_prev pkt prev s =
     (case pkt of
        None \<Rightarrow> Ok s
      | Some p \<Rightarrow>
          if pq_head (snd s) = Some p then Ok (snd (pq_deque s))
          else case prev of None \<Rightarrow> Fail Null_Deref | Some pp \<Rightarrow> Ok (pq_unlink_after pp p s))"

definition pq_enqueHead :: "nat \<Rightarrow> pq_state \<Rightarrow> pq_state" where
  "pq_enqueHead p s =
     (let (st, q) = s;
          q1 = (if pq_head q = None then q\<lparr>pq_tail := Some p\<rparr> else q)
      in (set_next p (pq_head q) st,
          q1\<lparr>pq_head := Some p, pq_len := pq_len q + 1, pq_bytes := pq_bytes q + st_size st p\<rparr>))"

definition pq_resetIterator :: "pq_state \<Rightarrow> pq_state" where
  "pq_resetIterator s = (fst s, (snd s)\<lparr>pq_iter := pq_head (snd s)\<rparr>)"

definition pq_getNext :: "pq_state \<Rightarrow> nat option \<times> pq_state" where
  "pq_getNext s =
     (case pq_iter (snd s) of
        None \<Rightarrow> (None, s)
      | Some a \<Rightarrow> (Some a, fst s, (snd s)\<lparr>pq_iter := st_next (fst s) a\<rparr>))"

section \<open>The queue as a list of packets\<close>

fun seg :: "(nat \<Rightarrow> nat option) \<Rightarrow> nat option \<Rightarrow> nat list \<Rightarrow> nat option \<Rightarrow> bool" where
  "seg nx h [] e = (h = e)"
| "seg nx h (a # as) e = (h = Some a \<and> seg nx (nx a) as e)"

lemma seg_append: "seg nx h (xs @ ys) e \<longleftrightarrow> (\<exists>m. seg nx h xs m \<and> seg nx m ys e)"
  by (induction xs arbitrary: h) auto

lemma seg_update [simp]: "a \<notin> set xs \<Longrightarrow> seg (nx(a := v)) h xs e = seg nx h xs e"
  by (induction xs arbitrary: h) auto

lemma seg_last: "seg nx h xs e \<Longrightarrow> xs \<noteq> [] \<Longrightarrow> nx (last xs) = e"
  by (induction xs arbitrary: h) (auto split: if_splits)

lemma seg_head: "seg nx h xs None \<Longrightarrow> h = (case xs of [] \<Rightarrow> None | a # _ \<Rightarrow> Some a)"
  by (cases xs) auto

definition pq_repr :: "pq_state \<Rightarrow> nat list \<Rightarrow> bool" where
  "pq_repr s xs \<longleftrightarrow> distinct xs \<and> seg (st_next (fst s)) (pq_head (snd s)) xs None \<and>
     pq_tail (snd s) = (if xs = [] then None else Some (last xs)) \<and>
     pq_len (snd s) = int (length xs) \<and> pq_bytes (snd s) = sum_list (map (st_size (fst s)) xs)"

lemma st_simps [simp]:
  "st_size (set_next a n st) = st_size st" "st_next (set_next a n st) = (st_next st)(a := n)"
  by (simp_all add: set_next_def)

lemma pq_repr_new: "pq_repr (st, pq_new) []"
  by (simp add: pq_repr_def pq_new_def)

lemma pq_enque_repr:
  assumes "pq_repr s xs" "p \<notin> set xs"
  shows "pq_repr (snd (pq_enque p s)) (xs @ [p]) \<and>
    fst (pq_enque p s) = (if xs = [] then None else Some (last xs))"
proof (cases xs rule: rev_cases)
  case Nil
  with assms show ?thesis by (cases s) (auto simp: pq_repr_def pq_enque_def)
next
  case (snoc ys y)
  obtain st q where s: "s = (st, q)" by (cases s)
  have "seg (st_next st) (pq_head q) ys (Some y)"
    using assms snoc s by (auto simp: pq_repr_def seg_append)
  with assms snoc s show ?thesis
    by (auto simp: pq_repr_def pq_enque_def seg_append)
qed

lemma pq_deque_Nil: "pq_repr s [] \<Longrightarrow> pq_deque s = (None, s)"
  by (cases s) (simp add: pq_repr_def pq_deque_def)

lemma pq_deque_repr:
  "pq_repr s (p # xs) \<Longrightarrow> fst (pq_deque s) = Some p \<and> pq_repr (snd (pq_deque s)) xs"
  by (cases s; cases xs rule: rev_cases)
     (auto simp: pq_repr_def pq_deque_def Let_def dest: seg_head split: if_splits)

lemma pq_lookup_loop_seg:
  "seg nx h xs None \<Longrightarrow> pq_lookup_loop nx h n =
     Some (if nat n < length xs then Some (xs ! nat n) else None)"
proof (induction xs arbitrary: h n)
  case Nil
  then show ?case by (subst pq_lookup_loop.simps) simp
next
  case (Cons a as)
  show ?case
  proof (cases "n - 1 < 0")
    case True
    with Cons show ?thesis by (subst pq_lookup_loop.simps) simp
  next
    case False
    then have "nat n = Suc (nat (n - 1))" by simp
    with False Cons show ?thesis by (subst pq_lookup_loop.simps) simp
  qed
qed

lemma pq_lookup_repr:
  "pq_repr s xs \<Longrightarrow> pq_lookup n s = Some (if nat n < length xs then Some (xs ! nat n) else None)"
  by (simp add: pq_lookup_def pq_repr_def pq_lookup_loop_seg)

lemma pq_unlink_after_repr:
  assumes "pq_repr s (xs @ b # a # ys)"
  shows "pq_repr (pq_unlink_after b a s) (xs @ b # ys)"
proof -
  obtain st q where s: "s = (st, q)" by (cases s)
  have seg: "seg (st_next st) (pq_head q) xs (Some b)" "seg (st_next st) (st_next st a) ys None"
    "distinct (xs @ b # a # ys)"
    using assms s by (auto simp: pq_repr_def seg_append)
  then have "seg ((st_next st)(b := st_next st a)) (pq_head q) (xs @ b # ys) None"
    by (auto simp: seg_append)
  moreover have "Some a = pq_tail q \<longleftrightarrow> ys = []"
    using assms s seg(3) by (auto simp: pq_repr_def last_append)
  ultimately show ?thesis
    using assms s by (auto simp: pq_repr_def pq_unlink_after_def Let_def)
qed

lemma pq_remove_loop_repr:
  "pq_repr s (xs @ ys) \<Longrightarrow> p = (case ys of [] \<Rightarrow> None | a # _ \<Rightarrow> Some a) \<Longrightarrow>
   pp = (if xs = [] then None else Some (last xs)) \<Longrightarrow> target \<notin> set xs \<Longrightarrow>
   (target \<in> set ys \<longrightarrow> (\<exists>s'. pq_remove_loop target pp p s = Some (Ok s') \<and>
      pq_repr s' (xs @ remove1 target ys) \<and> st_size (fst s') = st_size (fst s))) \<and>
   (target \<notin> set ys \<longrightarrow> pq_remove_loop target pp p s = Some (Fail Abort))"
proof (induction ys arbitrary: xs p pp)
  case Nil
  then show ?case by (subst pq_remove_loop.simps) simp
next
  case (Cons a as)
  have unfold: "pq_remove_loop target pp p s = (if a = target then
      (case pp of None \<Rightarrow> Some (Ok (snd (pq_deque s))) | Some b \<Rightarrow> Some (Ok (pq_unlink_after b a s)))
      else pq_remove_loop target (Some a) (st_next (fst s) a) s)"
    using Cons.prems(2) by (subst pq_remove_loop.simps) simp
  show ?case
  proof (cases "a = target")
    case True
    show ?thesis
    proof (cases xs rule: rev_cases)
      case Nil
      have "st_size (fst (snd (pq_deque s))) = st_size (fst s)"
        by (cases s) (simp add: pq_deque_def Let_def split: option.split)
      with Nil True Cons.prems unfold pq_deque_repr [of s a as] show ?thesis by simp
    next
      case (snoc zs b)
      have "st_size (fst (pq_unlink_after b a s)) = st_size (fst s)"
        by (cases s) (simp add: pq_unlink_after_def Let_def)
      with snoc True Cons.prems unfold pq_unlink_after_repr [of s zs b a as] show ?thesis by simp
    qed
  next
    case False
    have "seg (st_next (fst s)) (st_next (fst s) a) as None"
      using Cons.prems(1) by (auto simp: pq_repr_def seg_append)
    then have "st_next (fst s) a = (case as of [] \<Rightarrow> None | x # _ \<Rightarrow> Some x)" by (rule seg_head)
    with Cons.IH [of "xs @ [a]"] Cons.prems False unfold show ?thesis by auto
  qed
qed

lemma pq_repr_head: "pq_repr s xs \<Longrightarrow> pq_head (snd s) = (case xs of [] \<Rightarrow> None | a # _ \<Rightarrow> Some a)"
  unfolding pq_repr_def using seg_head by blast

lemma pq_remove_repr:
  "pq_repr s xs \<Longrightarrow> a \<in> set xs \<Longrightarrow>
   \<exists>s'. pq_remove a s = Some (Ok s') \<and> pq_repr s' (remove1 a xs) \<and> st_size (fst s') = st_size (fst s)"
  "pq_repr s xs \<Longrightarrow> a \<notin> set xs \<Longrightarrow> pq_remove a s = Some (Fail Abort)"
  using pq_remove_loop_repr [of s "[]" xs "pq_head (snd s)" None a] pq_repr_head [of s xs]
  by (auto simp: pq_remove_def)

lemma pq_remove_prev_repr:
  "pq_repr s (xs @ b # a # ys) \<Longrightarrow>
   \<exists>s'. pq_remove_prev (Some a) (Some b) s = Ok s' \<and> pq_repr s' (xs @ b # ys)"
  using pq_unlink_after_repr [of s xs b a ys]
  by (cases xs) (auto simp: pq_remove_prev_def pq_repr_def)

lemma pq_enqueHead_repr:
  "pq_repr s xs \<Longrightarrow> p \<notin> set xs \<Longrightarrow> pq_repr (pq_enqueHead p s) (p # xs)"
  by (cases s; cases xs) (auto simp: pq_repr_def pq_enqueHead_def Let_def)

lemma pq_size_simps [simp]:
  "st_size (fst (snd (pq_enque p s))) = st_size (fst s)"
  "st_size (fst (snd (pq_deque s))) = st_size (fst s)"
  "st_size (fst (pq_enqueHead p s)) = st_size (fst s)"
  by (cases s, auto simp: pq_enque_def pq_deque_def pq_enqueHead_def Let_def split: option.split)+

text \<open>The iterator delivers the packets of the queue from head to tail, then null.\<close>

fun pq_walk :: "nat \<Rightarrow> pq_state \<Rightarrow> nat option list" where
  "pq_walk 0 s = []"
| "pq_walk (Suc n) s = (case pq_getNext s of (r, s') \<Rightarrow> r # pq_walk n s')"

lemma pq_getNext_cases:
  "pq_iter q = None \<Longrightarrow> pq_getNext (st, q) = (None, st, q)"
  "pq_iter q = Some a \<Longrightarrow> pq_getNext (st, q) = (Some a, st, q\<lparr>pq_iter := st_next st a\<rparr>)"
  by (simp_all add: pq_getNext_def)

lemma pq_walk_seg:
  "seg (st_next st) (pq_iter q) xs None \<Longrightarrow>
   pq_walk (Suc (length xs)) (st, q) = map Some xs @ [None]"
proof (induction xs arbitrary: q)
  case Nil
  then show ?case by (simp add: pq_getNext_cases)
next
  case (Cons a xs)
  then have "pq_walk (Suc (length xs)) (st, q\<lparr>pq_iter := st_next st a\<rparr>) = map Some xs @ [None]"
    by simp
  moreover have "pq_getNext (st, q) = (Some a, st, q\<lparr>pq_iter := st_next st a\<rparr>)"
    using Cons.prems by (simp add: pq_getNext_cases)
  ultimately show ?case by (simp del: pq_walk.simps add: pq_walk.simps(2) [of "Suc (length xs)"])
qed

lemma pq_iterate: "pq_repr s xs \<Longrightarrow>
   pq_walk (Suc (length xs)) (pq_resetIterator s) = map Some xs @ [None]"
  by (cases s) (simp add: pq_resetIterator_def pq_repr_def pq_walk_seg del: pq_walk.simps)

section \<open>The interface of a packet queue\<close>

datatype pq_op = Enq nat | Enq_Head nat | Deq | Look int | Remove nat

text \<open>A run of operations and the packets that \<open>deque\<close> and \<open>lookup\<close> return.\<close>

fun pq_run ::
  "(nat \<Rightarrow> 's \<Rightarrow> 's) \<Rightarrow> (nat \<Rightarrow> 's \<Rightarrow> 's) \<Rightarrow> ('s \<Rightarrow> nat option \<times> 's) \<Rightarrow>
   (int \<Rightarrow> 's \<Rightarrow> nat option option) \<Rightarrow> (nat \<Rightarrow> 's \<Rightarrow> 's res option) \<Rightarrow>
   pq_op list \<Rightarrow> 's \<Rightarrow> (nat option list \<times> 's) res option" where
  "pq_run enq push deq look rmv [] s = Some (Ok ([], s))"
| "pq_run enq push deq look rmv (Enq a # ops) s = pq_run enq push deq look rmv ops (enq a s)"
| "pq_run enq push deq look rmv (Enq_Head a # ops) s = pq_run enq push deq look rmv ops (push a s)"
| "pq_run enq push deq look rmv (Deq # ops) s =
     map_option (map_sum id (apfst (Cons (fst (deq s))))) (pq_run enq push deq look rmv ops (snd (deq s)))"
| "pq_run enq push deq look rmv (Look n # ops) s =
     (case look n s of
        None \<Rightarrow> None
      | Some r \<Rightarrow> map_option (map_sum id (apfst (Cons r))) (pq_run enq push deq look rmv ops s))"
| "pq_run enq push deq look rmv (Remove a # ops) s =
     (case rmv a s of
        None \<Rightarrow> None
      | Some (Inl e) \<Rightarrow> Some (Fail e)
      | Some (Inr s') \<Rightarrow> pq_run enq push deq look rmv ops s')"

text \<open>The same on a list of packets.\<close>

fun list_run :: "pq_op list \<Rightarrow> nat list \<Rightarrow> (nat option list \<times> nat list) res" where
  "list_run [] xs = Ok ([], xs)"
| "list_run (Enq a # ops) xs = list_run ops (xs @ [a])"
| "list_run (Enq_Head a # ops) xs = list_run ops (a # xs)"
| "list_run (Deq # ops) xs =
     map_sum id (apfst (Cons (if xs = [] then None else Some (hd xs)))) (list_run ops (tl xs))"
| "list_run (Look n # ops) xs =
     map_sum id (apfst (Cons (if nat n < length xs then Some (xs ! nat n) else None))) (list_run ops xs)"
| "list_run (Remove a # ops) xs = (if a \<in> set xs then list_run ops (remove1 a xs) else Fail Abort)"

text \<open>A packet is in the queue at most once.\<close>

fun list_valid :: "pq_op list \<Rightarrow> nat list \<Rightarrow> bool" where
  "list_valid [] xs = True"
| "list_valid (Enq a # ops) xs = (a \<notin> set xs \<and> list_valid ops (xs @ [a]))"
| "list_valid (Enq_Head a # ops) xs = (a \<notin> set xs \<and> list_valid ops (a # xs))"
| "list_valid (Deq # ops) xs = list_valid ops (tl xs)"
| "list_valid (Look n # ops) xs = list_valid ops xs"
| "list_valid (Remove a # ops) xs = (a \<in> set xs \<longrightarrow> list_valid ops (remove1 a xs))"

locale packet_fifo =
  fixes enq push :: "nat \<Rightarrow> 's \<Rightarrow> 's"
    and deq :: "'s \<Rightarrow> nat option \<times> 's"
    and look :: "int \<Rightarrow> 's \<Rightarrow> nat option option"
    and rmv :: "nat \<Rightarrow> 's \<Rightarrow> 's res option"
    and repr :: "'s \<Rightarrow> nat list \<Rightarrow> bool"
  assumes repr_enq: "repr s xs \<Longrightarrow> a \<notin> set xs \<Longrightarrow> repr (enq a s) (xs @ [a])"
    and repr_push: "repr s xs \<Longrightarrow> a \<notin> set xs \<Longrightarrow> repr (push a s) (a # xs)"
    and deq_repr: "repr s xs \<Longrightarrow>
          fst (deq s) = (if xs = [] then None else Some (hd xs)) \<and> repr (snd (deq s)) (tl xs)"
    and look_repr: "repr s xs \<Longrightarrow>
          look n s = Some (if nat n < length xs then Some (xs ! nat n) else None)"
    and rmv_in: "repr s xs \<Longrightarrow> a \<in> set xs \<Longrightarrow> \<exists>s'. rmv a s = Some (Ok s') \<and> repr s' (remove1 a xs)"
    and rmv_out: "repr s xs \<Longrightarrow> a \<notin> set xs \<Longrightarrow> rmv a s = Some (Fail Abort)"
begin

text \<open>Every valid run ends and returns what the list returns; only a bad \<open>remove\<close> aborts.\<close>

definition run_agrees :: "(nat option list \<times> 's) res option \<Rightarrow> (nat option list \<times> nat list) res \<Rightarrow> bool" where
  "run_agrees r l \<longleftrightarrow> (case l of
     Inl e \<Rightarrow> r = Some (Fail e)
   | Inr (out, xs) \<Rightarrow> \<exists>s. r = Some (Ok (out, s)) \<and> repr s xs)"

lemma run_agrees_Cons:
  "run_agrees r l \<Longrightarrow>
   run_agrees (map_option (map_sum id (apfst (Cons x))) r) (map_sum id (apfst (Cons x)) l)"
  by (cases l) (auto simp: run_agrees_def)

lemma run_list:
  "repr s xs \<Longrightarrow> list_valid ops xs \<Longrightarrow>
   run_agrees (pq_run enq push deq look rmv ops s) (list_run ops xs)"
proof (induction ops arbitrary: s xs)
  case Nil
  then show ?case by (simp add: run_agrees_def)
next
  case (Cons oper ops)
  show ?case
  proof (cases oper)
    case Deq
    with Cons.prems deq_repr [OF Cons.prems(1)] show ?thesis
      by (simp add: run_agrees_Cons Cons.IH)
  next
    case (Look n)
    with Cons.prems look_repr [OF Cons.prems(1), of n] show ?thesis
      by (simp only: pq_run.simps list_run.simps list_valid.simps option.case)
         (intro run_agrees_Cons Cons.IH)
  next
    case (Remove a)
    show ?thesis
    proof (cases "a \<in> set xs")
      case True
      obtain s' where "rmv a s = Some (Ok s')" "repr s' (remove1 a xs)"
        using rmv_in [OF Cons.prems(1) True] by blast
      with Remove True Cons.prems show ?thesis by (simp add: Cons.IH)
    next
      case False
      with Remove rmv_out [OF Cons.prems(1) False] show ?thesis by (simp add: run_agrees_def)
    qed
  qed (use Cons in \<open>auto intro: repr_enq repr_push\<close>)
qed

end

interpretation pq: packet_fifo "\<lambda>a s. snd (pq_enque a s)" pq_enqueHead pq_deque pq_lookup pq_remove pq_repr
proof unfold_locales
  show "fst (pq_deque s) = (if xs = [] then None else Some (hd xs)) \<and> pq_repr (snd (pq_deque s)) (tl xs)"
    if "pq_repr s xs" for s xs
    using that pq_deque_repr by (cases xs) (auto simp: pq_deque_Nil)
  show "\<exists>s'. pq_remove a s = Some (Ok s') \<and> pq_repr s' (remove1 a xs)"
    if "pq_repr s xs" "a \<in> set xs" for s xs a
    using pq_remove_repr(1) [OF that] by blast
qed (simp_all add: pq_enque_repr pq_enqueHead_repr pq_lookup_repr pq_remove_repr(2))

section \<open>Properties\<close>

text \<open>
  C28: the linked packet queue behaves as a list: every sequence of \<open>enque\<close>,
  \<open>enqueHead\<close>, \<open>deque\<close>, \<open>lookup\<close> and \<open>remove\<close> on it ends and returns what the list
  returns, aborting only where a packet is removed that is not queued; the length and
  byte counts stay exact.
\<close>

theorem packet_queue_refines_list:
  assumes "pq_repr s xs" "list_valid ops xs"
  shows "case list_run ops xs of
      Inl e \<Rightarrow> pq_run (\<lambda>a s. snd (pq_enque a s)) pq_enqueHead pq_deque pq_lookup pq_remove ops s = Some (Fail e)
    | Inr (out, ys) \<Rightarrow> \<exists>s'. pq_run (\<lambda>a s. snd (pq_enque a s)) pq_enqueHead pq_deque pq_lookup pq_remove ops s =
          Some (Ok (out, s')) \<and> pq_repr s' ys \<and> pq_len (snd s') = int (length ys) \<and>
          pq_bytes (snd s') = sum_list (map (st_size (fst s')) ys)"
  using pq.run_list [OF assms]
  by (auto simp: pq.run_agrees_def pq_repr_def split: sum.splits)

definition demo_pq :: pq_state where
  "demo_pq = (\<lparr>st_next = \<lambda>_. Some 7, st_size = \<lambda>_. 40\<rparr>, pq_new)"

theorem packet_queue_refines_list_witness:
  "\<exists>s'. pq_run (\<lambda>a s. snd (pq_enque a s)) pq_enqueHead pq_deque pq_lookup pq_remove
     [Enq 1, Enq 2, Enq_Head 3, Remove 2, Look 1, Deq] demo_pq = Some (Ok ([Some 1, Some 3], s')) \<and>
     pq_repr s' [1] \<and> pq_len (snd s') = 1"
proof -
  have "pq_repr demo_pq []" by (simp add: demo_pq_def pq_repr_new)
  moreover have "list_valid [Enq 1, Enq 2, Enq_Head 3, Remove 2, Look 1, Deq] []"
    and "list_run [Enq 1, Enq 2, Enq_Head 3, Remove 2, Look 1, Deq] [] = Ok ([Some 1, Some 3], [1])"
    by simp_all
  ultimately show ?thesis
    using packet_queue_refines_list [of demo_pq "[]" "[Enq 1, Enq 2, Enq_Head 3, Remove 2, Look 1, Deq]"]
    by simp blast
qed

end
