(* ===== verification/Queue_Base.thy ===== *)
theory Queue_Base
  imports Packet_Queue
begin

text \<open>
  Class \<open>Queue\<close> of \<open>queue/queue.h\<close> and \<open>queue/queue.cc\<close>: the part every queueing
  discipline shares. \<open>enque\<close> and \<open>deque\<close> are virtual in the code and arguments here;
  a discipline is a record that extends \<open>qbase\<close>. An operation returns the packets it
  drops. The locale \<open>queue_discipline\<close> states what a discipline promises, and what
  follows for the link that the queue feeds: no packet is lost, and the link is idle only
  when the queue is empty.
\<close>

section \<open>The state\<close>

record qbase =
  qb_qlim :: int
  qb_blocked :: bool
  qb_unblock_on_resume :: bool
  qb_true_ave :: real
  qb_total_time :: real
  qb_last_change :: real
  qb_old_util :: real
  qb_util_weight :: real
  qb_util_check_intv :: real
  qb_period_begin :: real
  qb_cur_util :: real
  qb_buf_slot :: nat
  qb_util_buf :: "real list"
  qb_util_records :: nat

abbreviation link_state :: "bool \<Rightarrow> real" where
  "link_state b \<equiv> (if b then 1 else 0)"

section \<open>Utilization of the link and average queue size\<close>

text \<open>The loop of \<open>utilUpdate\<close>; \<open>g\<close> counts the rounds that \<open>guard\<close> still allows.\<close>

fun util_loop :: "nat \<Rightarrow> real \<Rightarrow> real \<Rightarrow> real \<Rightarrow> real \<Rightarrow> 'a qbase_scheme \<Rightarrow> 'a qbase_scheme" where
  "util_loop 0 tot intv int_end ls q = q"
| "util_loop (Suc g) tot intv int_end ls q =
     (if tot + intv > qb_util_check_intv q
      then util_loop g tot (intv - qb_util_check_intv q) int_end ls
        (q\<lparr>qb_period_begin := int_end,
           qb_util_buf := (qb_util_buf q)[qb_buf_slot q := qb_cur_util q],
           qb_buf_slot := (qb_buf_slot q + 1) mod qb_util_records q,
           qb_cur_util := ls\<rparr>)
      else q)"

definition q_utilUpdate :: "real \<Rightarrow> real \<Rightarrow> real \<Rightarrow> 'a qbase_scheme \<Rightarrow> 'a qbase_scheme" where
  "q_utilUpdate int_begin int_end ls q =
     (let decay = exp (- qb_util_weight q * (int_end - int_begin));
          q1 = q\<lparr>qb_old_util := ls + (qb_old_util q - ls) * decay\<rparr>;
          intv = int_end - int_begin;
          tot = int_begin - qb_period_begin q
      in if qb_util_records q = 0 then q1
         else if intv \<noteq> 0 \<or> tot \<noteq> 0 then
           util_loop (qb_util_records q) tot intv int_end ls
             (q1\<lparr>qb_cur_util := (ls * intv + qb_cur_util q * tot) / (intv + tot)\<rparr>)
         else q1)"

definition q_touch :: "real \<Rightarrow> 'a qbase_scheme \<Rightarrow> 'a qbase_scheme" where
  "q_touch now q = (q_utilUpdate (qb_last_change q) now (link_state (qb_blocked q)) q)\<lparr>qb_last_change := now\<rparr>"

definition q_utilization :: "real \<Rightarrow> 'a qbase_scheme \<Rightarrow> real \<times> 'a qbase_scheme" where
  "q_utilization now q = (qb_old_util (q_touch now q), q_touch now q)"

definition q_peak_utilization :: "real \<Rightarrow> 'a qbase_scheme \<Rightarrow> real \<times> 'a qbase_scheme" where
  "q_peak_utilization now q =
     (if qb_util_records q = 0 then q_utilization now q
      else (fold (\<lambda>u peak. if u > peak then u else peak)
              (take (qb_util_records q) (qb_util_buf (q_touch now q))) 0, q_touch now q))"

definition q_updateStats :: "real \<Rightarrow> int \<Rightarrow> 'a qbase_scheme \<Rightarrow> 'a qbase_scheme" where
  "q_updateStats now queuesize q =
     (let newtime = now - qb_total_time q in
      if newtime > 0 then
        q\<lparr>qb_true_ave := (qb_total_time q * qb_true_ave q + newtime * real_of_int queuesize) / now,
          qb_total_time := now\<rparr>
      else q)"

section \<open>Receiving, resuming and emptying the queue\<close>

text \<open>\<open>enque\<close> returns the packets it drops; both may fail (an abort, a null pointer).\<close>

type_synonym 'd enq_fun = "real \<Rightarrow> packet \<Rightarrow> 'd \<Rightarrow> ('d \<times> packet list) res"
type_synonym 'd deq_fun = "real \<Rightarrow> 'd \<Rightarrow> (packet option \<times> 'd) res"

definition q_recv ::
  "'a qbase_scheme enq_fun \<Rightarrow> 'a qbase_scheme deq_fun \<Rightarrow> real \<Rightarrow> packet \<Rightarrow> 'a qbase_scheme \<Rightarrow>
   (packet option \<times> packet list \<times> 'a qbase_scheme) res" where
  "q_recv enq deq now p q =
     res_bind (enq now p q) (\<lambda>(q1, drops).
       if qb_blocked q1 then Ok (None, drops, q1)
       else res_bind (deq now q1) (\<lambda>(r, q2).
         case r of
           None \<Rightarrow> Ok (None, drops, q2)
         | Some x \<Rightarrow> Ok (Some x, drops, (q_touch now q2)\<lparr>qb_blocked := True\<rparr>)))"

definition q_resume ::
  "'a qbase_scheme deq_fun \<Rightarrow> real \<Rightarrow> 'a qbase_scheme \<Rightarrow> (packet option \<times> 'a qbase_scheme) res" where
  "q_resume deq now q =
     res_bind (deq now q) (\<lambda>(r, q1).
       case r of
         Some x \<Rightarrow> Ok (Some x, q1)
       | None \<Rightarrow> Ok (None, (q_touch now q1)\<lparr>qb_blocked := \<not> qb_unblock_on_resume q1\<rparr>))"

partial_function (option) q_drain ::
  "'d deq_fun \<Rightarrow> real \<Rightarrow> 'd \<Rightarrow> packet list \<Rightarrow> (packet list \<times> 'd) res option" where
  "q_drain deq now q drops =
     (case deq now q of
        Inl e \<Rightarrow> Some (Fail e)
      | Inr r \<Rightarrow>
         (case fst r of
            None \<Rightarrow> Some (Ok (drops, snd r))
          | Some p \<Rightarrow> q_drain deq now (snd r) (drops @ [p])))"

definition q_reset ::
  "'a qbase_scheme deq_fun \<Rightarrow> real \<Rightarrow> 'a qbase_scheme \<Rightarrow> (packet list \<times> 'a qbase_scheme) res option" where
  "q_reset deq now q = q_drain deq now (q\<lparr>qb_total_time := 0, qb_true_ave := 0\<rparr>) []"

section \<open>The utilization stays in the unit interval\<close>

abbreviation unit_real :: "real \<Rightarrow> bool" where
  "unit_real x \<equiv> 0 \<le> x \<and> x \<le> 1"

definition util_inv :: "'a qbase_scheme \<Rightarrow> bool" where
  "util_inv q \<longleftrightarrow> unit_real (qb_old_util q) \<and> unit_real (qb_cur_util q) \<and>
     (\<forall>u \<in> set (qb_util_buf q). unit_real u) \<and> length (qb_util_buf q) = qb_util_records q \<and>
     (0 < qb_util_records q \<longrightarrow> qb_buf_slot q < qb_util_records q) \<and>
     qb_period_begin q \<le> qb_last_change q \<and> 0 \<le> qb_util_weight q"

lemma unit_convex:
  assumes "unit_real x" "unit_real y" "0 \<le> a" "0 \<le> b" "0 < a + b"
  shows "unit_real ((x * a + y * b) / (a + b))"
proof -
  have "x * a \<le> a" "y * b \<le> b" using assms by (auto intro: mult_left_le_one_le)
  then show ?thesis using assms by (simp add: field_simps)
qed

lemma unit_decay:
  assumes "unit_real x" "unit_real l" "0 \<le> d" "d \<le> 1"
  shows "unit_real (l + (x - l) * d)"
  using unit_convex [of x l d "1 - d"] assms by (simp add: algebra_simps)

lemma util_loop_inv:
  assumes "(\<forall>u \<in> set (qb_util_buf q). unit_real u)" "unit_real (qb_cur_util q)" "unit_real ls"
    and "length (qb_util_buf q) = qb_util_records q" "qb_buf_slot q < qb_util_records q"
  shows "let r = util_loop g tot intv t ls q in (\<forall>u \<in> set (qb_util_buf r). unit_real u) \<and>
    unit_real (qb_cur_util r) \<and> length (qb_util_buf r) = qb_util_records q \<and>
    qb_buf_slot r < qb_util_records q"
  using assms
proof (induction g tot intv t ls q rule: util_loop.induct)
  case (2 g tot intv t ls q)
  show ?case
  proof (cases "tot + intv > qb_util_check_intv q")
    case True
    have "(\<forall>u \<in> set ((qb_util_buf q)[qb_buf_slot q := qb_cur_util q]). unit_real u)"
      using "2.prems" by (auto dest!: set_update_subset_insert [THEN subsetD])
    with True 2 show ?thesis by simp
  qed (use 2 in simp)
qed simp

lemma util_loop_frame [simp]:
  "qb_old_util (util_loop g tot intv t ls q) = qb_old_util q"
  "qb_blocked (util_loop g tot intv t ls q) = qb_blocked q"
  "qb_qlim (util_loop g tot intv t ls q) = qb_qlim q"
  "qb_unblock_on_resume (util_loop g tot intv t ls q) = qb_unblock_on_resume q"
  "qb_util_records (util_loop g tot intv t ls q) = qb_util_records q"
  "qb_util_weight (util_loop g tot intv t ls q) = qb_util_weight q"
  "qbase.more (util_loop g tot intv t ls q) = qbase.more q"
  by (induction g tot intv t ls q rule: util_loop.induct) simp_all

lemma util_loop_begin:
  "qb_period_begin q \<le> t \<Longrightarrow> qb_period_begin (util_loop g tot intv t ls q) \<le> t"
  by (induction g tot intv t ls q rule: util_loop.induct) simp_all

lemma q_touch_frame [simp]:
  "qb_blocked (q_touch now q) = qb_blocked q" "qb_qlim (q_touch now q) = qb_qlim q"
  "qb_unblock_on_resume (q_touch now q) = qb_unblock_on_resume q"
  "qb_last_change (q_touch now q) = now" "qbase.more (q_touch now q) = qbase.more q"
  "qb_util_records (q_touch now q) = qb_util_records q"
  by (simp_all add: q_touch_def q_utilUpdate_def Let_def)

lemma q_touch_inv:
  assumes inv: "util_inv q" and t: "qb_last_change q \<le> now"
  shows "util_inv (q_touch now q)"
proof -
  let ?ls = "link_state (qb_blocked q)" and ?i = "now - qb_last_change q"
    and ?tot = "qb_last_change q - qb_period_begin q"
  let ?q1 = "q\<lparr>qb_old_util := ?ls + (qb_old_util q - ?ls) * exp (- qb_util_weight q * ?i)\<rparr>"
  have ls: "unit_real ?ls" by simp
  have "0 \<le> qb_util_weight q * ?i" using inv t by (simp add: util_inv_def)
  then have old: "unit_real (?ls + (qb_old_util q - ?ls) * exp (- qb_util_weight q * ?i))"
    using inv by (intro unit_decay) (auto simp: util_inv_def)
  have pos: "0 \<le> ?i" "0 \<le> ?tot" using inv t by (simp_all add: util_inv_def)
  show ?thesis
  proof (cases "qb_util_records q = 0 \<or> (?i = 0 \<and> ?tot = 0)")
    case True
    with inv t old show ?thesis
      by (auto simp: q_touch_def q_utilUpdate_def util_inv_def Let_def)
  next
    case False
    then have ne: "?i \<noteq> 0 \<or> ?tot \<noteq> 0" and rec: "0 < qb_util_records q" by auto
    let ?q2 = "?q1\<lparr>qb_cur_util := (?ls * ?i + qb_cur_util q * ?tot) / (?i + ?tot)\<rparr>"
    let ?r = "util_loop (qb_util_records q) ?tot ?i now ?ls ?q2"
    have "0 < ?i + ?tot" using ne pos by linarith
    then have "unit_real (qb_cur_util ?q2)"
      using unit_convex [OF ls, of "qb_cur_util q" ?i ?tot] inv pos by (simp add: util_inv_def)
    then have "let r = ?r in (\<forall>u \<in> set (qb_util_buf r). unit_real u) \<and>
        unit_real (qb_cur_util r) \<and> length (qb_util_buf r) = qb_util_records ?q2 \<and>
        qb_buf_slot r < qb_util_records ?q2"
      using inv rec by (intro util_loop_inv) (auto simp: util_inv_def)
    moreover have "qb_period_begin ?r \<le> now"
      using inv t by (intro util_loop_begin) (simp add: util_inv_def)
    moreover have "q_touch now q = ?r\<lparr>qb_last_change := now\<rparr>"
      using rec ne by (simp add: q_touch_def q_utilUpdate_def Let_def)
    ultimately show ?thesis using inv old by (simp add: util_inv_def Let_def)
  qed
qed

lemma peak_fold:
  "(\<forall>u \<in> set us. unit_real u) \<Longrightarrow> unit_real m \<Longrightarrow>
   unit_real (fold (\<lambda>u peak. if u > peak then u else peak) us m) \<and>
   (\<forall>u \<in> insert m (set us). u \<le> fold (\<lambda>u peak. if u > peak then u else peak) us m)"
proof (induction us arbitrary: m)
  case (Cons a us)
  let ?f = "fold (\<lambda>u peak. if u > peak then u else peak) us (if a > m then a else m)"
  have "unit_real ?f" "(if a > m then a else m) \<le> ?f" "\<forall>u \<in> set us. u \<le> ?f"
    using Cons.IH [of "if a > m then a else m"] Cons.prems by simp_all
  moreover from this(2) have "m \<le> ?f" "a \<le> ?f" by (simp_all split: if_splits)
  ultimately show ?case by simp
qed simp

lemma q_peak_bounds:
  assumes "util_inv q" "qb_last_change q \<le> now"
  shows "unit_real (fst (q_peak_utilization now q)) \<and> util_inv (snd (q_peak_utilization now q)) \<and>
    (qb_util_records q \<noteq> 0 \<longrightarrow>
      (\<forall>u \<in> set (qb_util_buf (snd (q_peak_utilization now q))). u \<le> fst (q_peak_utilization now q)))"
proof -
  have inv: "util_inv (q_touch now q)" using q_touch_inv [OF assms] .
  then have buf: "\<forall>u \<in> set (qb_util_buf (q_touch now q)). unit_real u"
    "length (qb_util_buf (q_touch now q)) = qb_util_records q" by (simp_all add: util_inv_def)
  show ?thesis
    using inv buf peak_fold [OF buf(1), of 0]
    by (simp add: q_peak_utilization_def q_utilization_def util_inv_def)
qed

section \<open>The average queue size\<close>

text \<open>The time integral of the queue size over samples of time and size.\<close>

fun stats_run :: "(real \<times> int) list \<Rightarrow> 'a qbase_scheme \<Rightarrow> 'a qbase_scheme" where
  "stats_run [] q = q"
| "stats_run ((t, n) # ss) q = stats_run ss (q_updateStats t n q)"

fun size_integral :: "real \<Rightarrow> (real \<times> int) list \<Rightarrow> real" where
  "size_integral t0 [] = 0"
| "size_integral t0 ((t, n) # ss) = (t - t0) * real_of_int n + size_integral t ss"

fun end_time :: "real \<Rightarrow> (real \<times> int) list \<Rightarrow> real" where
  "end_time t0 [] = t0"
| "end_time t0 ((t, n) # ss) = end_time t ss"

lemma stats_run_integral:
  "0 \<le> qb_total_time q \<Longrightarrow> sorted_wrt (\<le>) (qb_total_time q # map fst ss) \<Longrightarrow>
   qb_total_time (stats_run ss q) = end_time (qb_total_time q) ss \<and>
   qb_true_ave (stats_run ss q) * qb_total_time (stats_run ss q) =
     qb_true_ave q * qb_total_time q + size_integral (qb_total_time q) ss"
proof (induction ss arbitrary: q)
  case (Cons s ss)
  obtain t n where s: "s = (t, n)" by (cases s)
  let ?q = "q_updateStats t n q"
  have u: "qb_total_time ?q = t" "qb_true_ave ?q * t =
      qb_true_ave q * qb_total_time q + (t - qb_total_time q) * real_of_int n"
    using Cons.prems s by (auto simp: q_updateStats_def Let_def)
  have "0 \<le> qb_total_time ?q" "sorted_wrt (\<le>) (qb_total_time ?q # map fst ss)"
    using Cons.prems s u(1) by auto
  from Cons.IH [OF this] u s show ?case by auto
qed simp

section \<open>The contract of a queueing discipline\<close>

abbreviation addrs :: "packet list \<Rightarrow> nat multiset" where
  "addrs xs \<equiv> mset (map pk_addr xs)"

text \<open>
  A discipline accepts every packet that is not queued yet: the packet, by its address,
  is queued or dropped, and so is every packet queued before. A discipline may mark a
  packet (ECN), so packets are identified by address.
\<close>

definition enq_ok ::
  "('a qbase_scheme \<Rightarrow> packet list) \<Rightarrow> ('a qbase_scheme \<Rightarrow> bool) \<Rightarrow> packet \<Rightarrow> 'a qbase_scheme \<Rightarrow>
   ('a qbase_scheme \<times> packet list) res \<Rightarrow> bool" where
  "enq_ok content ok p q r \<longleftrightarrow> (\<exists>q' drops. r = Ok (q', drops) \<and> ok q' \<and>
     addrs (content q') + addrs drops = add_mset (pk_addr p) (addrs (content q)) \<and>
     qb_blocked q' = qb_blocked q \<and> qb_unblock_on_resume q' = qb_unblock_on_resume q)"

text \<open>A queue that holds packets delivers one of them.\<close>

definition deq_ok ::
  "('a qbase_scheme \<Rightarrow> packet list) \<Rightarrow> ('a qbase_scheme \<Rightarrow> bool) \<Rightarrow> 'a qbase_scheme \<Rightarrow>
   (packet option \<times> 'a qbase_scheme) res \<Rightarrow> bool" where
  "deq_ok content ok q r \<longleftrightarrow> (\<exists>x q'. r = Ok (x, q') \<and> ok q' \<and>
     qb_blocked q' = qb_blocked q \<and> qb_unblock_on_resume q' = qb_unblock_on_resume q \<and>
     (case x of
        None \<Rightarrow> content q = [] \<and> content q' = []
      | Some p \<Rightarrow> addrs (content q) = add_mset (pk_addr p) (addrs (content q'))))"

text \<open>
  The link that a queue feeds calls the queue back (\<open>resume\<close>) when it has sent a
  packet; \<open>adm\<close> tells which packets may arrive. The record keeps what arrived, what was sent and what was dropped.
\<close>

record 'd link =
  lk_queue :: 'd
  lk_busy :: bool
  lk_arrived :: "packet list"
  lk_sent :: "packet list"
  lk_dropped :: "packet list"

definition link_arrive ::
  "'a qbase_scheme enq_fun \<Rightarrow> 'a qbase_scheme deq_fun \<Rightarrow> real \<Rightarrow> packet \<Rightarrow>
   'a qbase_scheme link \<Rightarrow> 'a qbase_scheme link res" where
  "link_arrive enq deq now p l =
     res_bind (q_recv enq deq now p (lk_queue l)) (\<lambda>(out, drops, q).
       Ok (l\<lparr>lk_queue := q, lk_busy := lk_busy l \<or> out \<noteq> None, lk_arrived := lk_arrived l @ [p],
         lk_sent := lk_sent l @ (case out of None \<Rightarrow> [] | Some x \<Rightarrow> [x]),
         lk_dropped := lk_dropped l @ drops\<rparr>))"

definition link_done ::
  "'a qbase_scheme deq_fun \<Rightarrow> real \<Rightarrow> 'a qbase_scheme link \<Rightarrow> 'a qbase_scheme link res" where
  "link_done deq now l =
     res_bind (q_resume deq now (lk_queue l)) (\<lambda>(out, q).
       Ok (l\<lparr>lk_queue := q, lk_busy := out \<noteq> None,
         lk_sent := lk_sent l @ (case out of None \<Rightarrow> [] | Some x \<Rightarrow> [x])\<rparr>))"

inductive link_step ::
  "(packet \<Rightarrow> bool) \<Rightarrow> 'a qbase_scheme enq_fun \<Rightarrow> 'a qbase_scheme deq_fun \<Rightarrow>
   'a qbase_scheme link \<Rightarrow> 'a qbase_scheme link res \<Rightarrow> bool"
  for adm enq deq where
    arrive: "adm p \<Longrightarrow> pk_addr p \<notin> pk_addr ` set (lk_arrived l) \<Longrightarrow>
      link_step adm enq deq l (link_arrive enq deq now p l)"
  | finish: "lk_busy l \<Longrightarrow> link_step adm enq deq l (link_done deq now l)"

definition link_start :: "'d \<Rightarrow> 'd link" where
  "link_start q0 = \<lparr>lk_queue = q0, lk_busy = False, lk_arrived = [], lk_sent = [], lk_dropped = []\<rparr>"

inductive link_reach ::
  "(packet \<Rightarrow> bool) \<Rightarrow> 'a qbase_scheme enq_fun \<Rightarrow> 'a qbase_scheme deq_fun \<Rightarrow>
   'a qbase_scheme \<Rightarrow> 'a qbase_scheme link res \<Rightarrow> bool"
  for adm enq deq q0 where
    start: "link_reach adm enq deq q0 (Ok (link_start q0))"
  | step: "link_reach adm enq deq q0 (Ok l) \<Longrightarrow> link_step adm enq deq l l' \<Longrightarrow> link_reach adm enq deq q0 l'"

inductive_cases link_step_cases: "link_step adm enq deq l l'"

locale queue_discipline =
  fixes enq :: "'a qbase_scheme enq_fun"
    and deq :: "'a qbase_scheme deq_fun"
    and adm :: "packet \<Rightarrow> bool"
    and content :: "'a qbase_scheme \<Rightarrow> packet list"
    and inv :: "'a qbase_scheme \<Rightarrow> bool"
  assumes enq: "inv q \<Longrightarrow> adm p \<Longrightarrow> pk_addr p \<notin> pk_addr ` set (content q) \<Longrightarrow> enq_ok content inv p q (enq now p q)"
    and deq: "inv q \<Longrightarrow> deq_ok content inv q (deq now q)"
    and inv_frame: "inv q \<Longrightarrow> qbase.more r = qbase.more q \<Longrightarrow> qb_qlim r = qb_qlim q \<Longrightarrow> inv r"
    and content_frame: "qbase.more r = qbase.more q \<Longrightarrow> content r = content q"
begin

lemma deq_cases:
  assumes "inv q"
  obtains (empty) q' where "deq now q = Ok (None, q')" "content q = []" "content q' = []"
      "inv q'" "qb_blocked q' = qb_blocked q" "qb_unblock_on_resume q' = qb_unblock_on_resume q"
    | (packet) p q' where "deq now q = Ok (Some p, q')"
      "addrs (content q) = add_mset (pk_addr p) (addrs (content q'))"
      "inv q'" "qb_blocked q' = qb_blocked q" "qb_unblock_on_resume q' = qb_unblock_on_resume q"
  using deq [OF assms, of now] that by (auto simp: deq_ok_def split: option.splits)

definition link_inv :: "'a qbase_scheme link \<Rightarrow> bool" where
  "link_inv l \<longleftrightarrow> inv (lk_queue l) \<and> qb_unblock_on_resume (lk_queue l) \<and>
     qb_blocked (lk_queue l) = lk_busy l \<and> (\<not> lk_busy l \<longrightarrow> content (lk_queue l) = []) \<and>
     addrs (lk_arrived l) = addrs (lk_sent l) + addrs (lk_dropped l) + addrs (content (lk_queue l))"

lemma content_touch [simp]: "content ((q_touch now q)\<lparr>qb_blocked := b\<rparr>) = content q"
  by (rule content_frame) simp

lemma inv_touch: "inv q \<Longrightarrow> inv ((q_touch now q)\<lparr>qb_blocked := b\<rparr>)"
  by (erule inv_frame) simp_all

lemma link_inv_arrive:
  assumes "link_inv l" "adm p" "pk_addr p \<notin> pk_addr ` set (lk_arrived l)"
  shows "\<exists>l'. link_arrive enq deq now p l = Ok l' \<and> link_inv l'"
proof -
  let ?q = "lk_queue l"
  note adm = assms(2)
  have inv: "inv ?q"
    and m: "addrs (lk_arrived l) = addrs (lk_sent l) + addrs (lk_dropped l) + addrs (content ?q)"
    using assms(1) by (simp_all add: link_inv_def)
  have "pk_addr ` set (content ?q) \<subseteq> pk_addr ` set (lk_arrived l)"
    using arg_cong [OF m, of set_mset] by auto
  then have fresh: "pk_addr p \<notin> pk_addr ` set (content ?q)" using assms(3) by blast
  obtain q1 drops where q1: "enq now p ?q = Ok (q1, drops)" "inv q1"
    "addrs (content q1) + addrs drops = add_mset (pk_addr p) (addrs (content ?q))"
    "qb_blocked q1 = qb_blocked ?q" "qb_unblock_on_resume q1 = qb_unblock_on_resume ?q"
    using enq [OF inv adm fresh, of now] by (auto simp: enq_ok_def)
  have bal: "addrs (lk_arrived l @ [p]) =
      addrs (lk_sent l) + addrs (lk_dropped l @ drops) + addrs (content q1)"
    using m q1(3) by (simp add: ac_simps)
  show ?thesis
  proof (cases "qb_blocked ?q")
    case True
    then show ?thesis
      using assms(1) q1 bal by (simp add: link_arrive_def q_recv_def link_inv_def)
  next
    case free: False
    from q1(2) show ?thesis
    proof (cases rule: deq_cases [where now = now])
      case (empty q')
      then show ?thesis
        using assms(1) free q1 bal by (simp add: link_arrive_def q_recv_def link_inv_def)
    next
      case (packet x q')
      then show ?thesis
        using assms(1) free q1 bal
        by (simp add: link_arrive_def q_recv_def link_inv_def inv_touch)
    qed
  qed
qed

lemma link_inv_done:
  assumes "link_inv l" "lk_busy l"
  shows "\<exists>l'. link_done deq now l = Ok l' \<and> link_inv l'"
proof -
  from assms have "inv (lk_queue l)" by (simp add: link_inv_def)
  then show ?thesis
  proof (cases rule: deq_cases [where now = now])
    case (empty q')
    with assms show ?thesis by (simp add: link_done_def q_resume_def link_inv_def inv_touch)
  next
    case (packet p q')
    with assms show ?thesis by (simp add: link_done_def q_resume_def link_inv_def)
  qed
qed

text \<open>No step fails, no packet is lost, and the link is idle only if the queue is empty.\<close>

lemma link_reach_inv:
  assumes "link_reach adm enq deq q0 r" "inv q0" "content q0 = []" "\<not> qb_blocked q0"
    "qb_unblock_on_resume q0"
  shows "\<exists>l. r = Ok l \<and> link_inv l"
  using assms
proof (induction rule: link_reach.induct)
  case start
  then show ?case by (simp add: link_inv_def link_start_def)
next
  case (step l l')
  then show ?case
    by (auto elim!: link_step_cases dest: link_inv_arrive link_inv_done)
qed

text \<open>Emptying the queue ends and drops just the packets it holds.\<close>

lemma drain_content:
  "inv q \<Longrightarrow> n = length (content q) \<Longrightarrow>
   \<exists>drops' q'. q_drain deq now q drops = Some (Ok (drops @ drops', q')) \<and>
     addrs drops' = addrs (content q) \<and> content q' = [] \<and> inv q'"
proof (induction n arbitrary: q drops)
  case 0
  from 0(1) show ?case
  proof (cases rule: deq_cases [where now = now])
    case (empty q')
    then show ?thesis by (subst q_drain.simps) simp
  qed (use 0 in simp)
next
  case (Suc n)
  from Suc.prems(1) show ?case
  proof (cases rule: deq_cases [where now = now])
    case (empty q')
    with Suc.prems show ?thesis by simp
  next
    case (packet p q')
    have "size (addrs (content q)) = Suc (size (addrs (content q')))" using packet(2) by simp
    then have "n = length (content q')" using Suc.prems(2) by simp
    from Suc.IH [OF packet(3) this, of "drops @ [p]"] obtain ds q'' where
      "q_drain deq now q' (drops @ [p]) = Some (Ok (drops @ p # ds, q''))"
      "addrs ds = addrs (content q')" "content q'' = []" "inv q''" by auto
    with packet have "q_drain deq now q drops = Some (Ok (drops @ p # ds, q'')) \<and>
        addrs (p # ds) = addrs (content q) \<and> content q'' = [] \<and> inv q''"
      by (subst q_drain.simps) simp
    then show ?thesis by blast
  qed
qed

lemma reset_content:
  assumes "inv q"
  shows "\<exists>drops q'. q_reset deq now q = Some (Ok (drops, q')) \<and>
    addrs drops = addrs (content q) \<and> content q' = [] \<and> inv q'"
proof -
  let ?q = "q\<lparr>qb_total_time := 0, qb_true_ave := 0\<rparr>"
  have "inv ?q" using assms by (rule inv_frame) simp_all
  moreover have "content ?q = content q" by (rule content_frame) simp
  ultimately show ?thesis using drain_content [of ?q _ now "[]"] by (simp add: q_reset_def)
qed

end

text \<open>A discipline that keeps the order of arrival.\<close>

locale fifo_discipline = queue_discipline +
  assumes enq_order: "inv q \<Longrightarrow> adm p \<Longrightarrow> pk_addr p \<notin> pk_addr ` set (content q) \<Longrightarrow> enq now p q = Ok (q', drops) \<Longrightarrow>
      subseq (map pk_addr (content q')) (map pk_addr (content q) @ [pk_addr p])"
    and deq_order: "inv q \<Longrightarrow> deq now q = Ok (Some p, q') \<Longrightarrow>
      map pk_addr (content q) = pk_addr p # map pk_addr (content q')"
begin

definition in_order :: "'a qbase_scheme link \<Rightarrow> bool" where
  "in_order l \<longleftrightarrow>
     subseq (map pk_addr (lk_sent l @ content (lk_queue l))) (map pk_addr (lk_arrived l))"

lemma in_order_send:
  assumes "subseq (map pk_addr (s @ content q)) as" "inv q" "deq now q = Ok (Some p, q')"
  shows "subseq (map pk_addr ((s @ [p]) @ content q')) as"
  using assms deq_order [OF assms(2,3)] by simp

lemma in_order_arrive:
  assumes l: "link_inv l" "in_order l" and adm: "adm p" and new: "pk_addr p \<notin> pk_addr ` set (lk_arrived l)"
    and l': "link_arrive enq deq now p l = Ok l'"
  shows "in_order l'"
proof -
  let ?q = "lk_queue l"
  have inv: "inv ?q"
    and m: "addrs (lk_arrived l) = addrs (lk_sent l) + addrs (lk_dropped l) + addrs (content ?q)"
    using l(1) by (simp_all add: link_inv_def)
  have "pk_addr ` set (content ?q) \<subseteq> pk_addr ` set (lk_arrived l)"
    using arg_cong [OF m, of set_mset] by auto
  then have fresh: "pk_addr p \<notin> pk_addr ` set (content ?q)" using new by blast
  obtain q1 drops where q1: "enq now p ?q = Ok (q1, drops)" "inv q1"
    using enq [OF inv adm fresh, of now] by (auto simp: enq_ok_def)
  have "subseq (map pk_addr (lk_sent l @ content ?q) @ [pk_addr p]) (map pk_addr (lk_arrived l @ [p]))"
    using list_emb_append_mono [OF l(2) [unfolded in_order_def], of "[pk_addr p]" "[pk_addr p]"] by simp
  moreover have "subseq (map pk_addr (lk_sent l @ content q1)) (map pk_addr (lk_sent l @ content ?q) @ [pk_addr p])"
    using list_emb_append_mono [OF subseq_order.order_refl [of "map pk_addr (lk_sent l)"]
      enq_order [OF inv adm fresh q1(1)]] by simp
  ultimately have s1: "subseq (map pk_addr (lk_sent l @ content q1)) (map pk_addr (lk_arrived l @ [p]))"
    using subseq_order.order_trans by blast
  show ?thesis
  proof (cases "qb_blocked q1")
    case True
    with l' q1 s1 show ?thesis by (auto simp: link_arrive_def q_recv_def in_order_def)
  next
    case free: False
    from q1(2) show ?thesis
    proof (cases rule: deq_cases [where now = now])
      case (empty q')
      with l' q1 s1 free show ?thesis by (auto simp: link_arrive_def q_recv_def in_order_def)
    next
      case (packet x q')
      have "subseq (map pk_addr ((lk_sent l @ [x]) @ content q')) (map pk_addr (lk_arrived l @ [p]))"
        using s1 q1(2) packet(1) by (rule in_order_send)
      with l' q1 free packet show ?thesis by (auto simp: link_arrive_def q_recv_def in_order_def)
    qed
  qed
qed

lemma in_order_done:
  assumes l: "link_inv l" "in_order l" and l': "link_done deq now l = Ok l'"
  shows "in_order l'"
proof -
  have inv: "inv (lk_queue l)" using l(1) by (simp add: link_inv_def)
  then show ?thesis
  proof (cases rule: deq_cases [where now = now])
    case (empty q')
    with l l' show ?thesis by (auto simp: link_done_def q_resume_def in_order_def)
  next
    case (packet p q')
    have "subseq (map pk_addr ((lk_sent l @ [p]) @ content q')) (map pk_addr (lk_arrived l))"
      using l(2) inv packet(1) unfolding in_order_def by (rule in_order_send)
    with packet l' show ?thesis by (auto simp: link_done_def q_resume_def in_order_def)
  qed
qed

lemma link_reach_order:
  assumes "link_reach adm enq deq q0 r" "inv q0" "content q0 = []" "\<not> qb_blocked q0"
    "qb_unblock_on_resume q0"
  shows "\<exists>l. r = Ok l \<and> link_inv l \<and> in_order l"
  using assms
proof (induction rule: link_reach.induct)
  case start
  then show ?case by (simp add: link_inv_def link_start_def in_order_def)
next
  case (step l l')
  then have l: "link_inv l" "in_order l" by auto
  from step.hyps(2) show ?case
  proof (cases rule: link_step.cases)
    case (arrive p now)
    from link_inv_arrive [OF l(1) arrive(2,3), of now] arrive(1) in_order_arrive [OF l arrive(2,3), of now]
    show ?thesis by auto
  next
    case (finish now)
    from link_inv_done [OF l(1) finish(2), of now] finish(1) in_order_done [OF l, of now]
    show ?thesis by auto
  qed
qed

end

section \<open>Properties\<close>

text \<open>
  the measured utilization of the link and its peak over the recent periods stay
  between 0 and 1, and the peak is at least every recorded period, when time goes forward.
\<close>

theorem peak_utilization_bounds:
  assumes "util_inv q" "qb_last_change q \<le> now"
  shows "0 \<le> fst (q_peak_utilization now q) \<and> fst (q_peak_utilization now q) \<le> 1 \<and>
    util_inv (snd (q_peak_utilization now q)) \<and>
    (qb_util_records q \<noteq> 0 \<longrightarrow>
      (\<forall>u \<in> set (qb_util_buf (snd (q_peak_utilization now q))). u \<le> fst (q_peak_utilization now q)))"
  using q_peak_bounds [OF assms] by blast

definition demo_qbase :: qbase where
  "demo_qbase = \<lparr>qb_qlim = 5, qb_blocked = False, qb_unblock_on_resume = True, qb_true_ave = 0,
     qb_total_time = 0, qb_last_change = 0, qb_old_util = 0, qb_util_weight = 1, qb_util_check_intv = 1,
     qb_period_begin = 0, qb_cur_util = 0, qb_buf_slot = 0, qb_util_buf = [0, 0], qb_util_records = 2\<rparr>"

theorem peak_utilization_bounds_witness:
  "fst (q_peak_utilization 3 (demo_qbase\<lparr>qb_blocked := True\<rparr>)) \<le> 1"
  using peak_utilization_bounds [of "demo_qbase\<lparr>qb_blocked := True\<rparr>" 3]
  by (simp add: demo_qbase_def util_inv_def)

text \<open>
  the average queue size that \<open>updateStats\<close> keeps is the exact time average: average
  times elapsed time is the integral of the sampled queue sizes.
\<close>

theorem true_average_is_time_average:
  assumes "0 \<le> qb_total_time q" "sorted_wrt (\<le>) (qb_total_time q # map fst ss)"
  shows "qb_true_ave (stats_run ss q) * qb_total_time (stats_run ss q) =
    qb_true_ave q * qb_total_time q + size_integral (qb_total_time q) ss"
  using stats_run_integral [OF assms] by blast

theorem true_average_is_time_average_witness:
  "qb_true_ave (stats_run [(1, 4), (2, 2), (4, 1)] demo_qbase) * 4 = 8"
  using true_average_is_time_average [of demo_qbase "[(1, 4), (2, 2), (4, 1)]"]
    stats_run_integral [of demo_qbase "[(1, 4), (2, 2), (4, 1)]"]
  by (simp add: demo_qbase_def)

end
