(* ===== verification/Drop_Tail.thy ===== *)
theory Drop_Tail
  imports Queue_Base
begin

text \<open>
  The first-in-first-out disciplines: \<open>DropTail\<close> (\<open>queue/drop-tail.h\<close>,
  \<open>queue/drop-tail.cc\<close>), \<open>DropTailT\<close> (\<open>queue/drop-tailT.cc\<close>) and \<open>Tque\<close>
  (\<open>queue/tque.cc\<close>). Their \<open>PacketQueue\<close> is the list of its packets, head first
  (\<open>Packet_Queue\<close> shows that it is one).
\<close>

abbreviation list_bytes :: "packet list \<Rightarrow> int" where
  "list_bytes xs \<equiv> sum_list (map pk_size xs)"

abbreviation list_len :: "packet list \<Rightarrow> int" where
  "list_len xs \<equiv> int (length xs)"

definition fifo_deque :: "packet list \<Rightarrow> packet option \<times> packet list" where
  "fifo_deque xs = (case xs of [] \<Rightarrow> (None, []) | x # ys \<Rightarrow> (Some x, ys))"

lemma fifo_deque_simps [simp]:
  "fifo_deque [] = (None, [])" "fifo_deque (x # ys) = (Some x, ys)"
  by (simp_all add: fifo_deque_def)

section \<open>DropTail\<close>

record droptail = qbase +
  dt_q :: "packet list"
  dt_drop_front :: bool
  dt_summarystats :: bool
  dt_qib :: bool
  dt_mean_pktsize :: int
  dt_pktcnt_pers :: int
  dt_fperpkt :: "(real \<times> int) list"

definition dt_qlimBytes :: "droptail \<Rightarrow> int" where
  "dt_qlimBytes d = wrap_s32 (qb_qlim d * dt_mean_pktsize d)"

definition dt_full :: "packet \<Rightarrow> droptail \<Rightarrow> bool" where
  "dt_full p d \<longleftrightarrow> (\<not> dt_qib d \<and> list_len (dt_q d) + 1 \<ge> qb_qlim d) \<or>
     (dt_qib d \<and> list_bytes (dt_q d) + pk_size p \<ge> dt_qlimBytes d)"

definition dt_stats :: "real \<Rightarrow> droptail \<Rightarrow> droptail" where
  "dt_stats now d =
     (if dt_summarystats d
      then q_updateStats now (if dt_qib d then list_bytes (dt_q d) else list_len (dt_q d)) d
      else d)"

definition dt_enque :: "droptail enq_fun" where
  "dt_enque now p d0 =
     (let d = dt_stats now (d0\<lparr>dt_pktcnt_pers := wrap_s32 (dt_pktcnt_pers d0 + 1)\<rparr>) in
      if dt_full p d then
        (if dt_drop_front d then
           (case fifo_deque (dt_q d @ [p]) of
              (Some pp, q) \<Rightarrow> Ok (d\<lparr>dt_q := q\<rparr>, [pp])
            | (None, q) \<Rightarrow> Fail Null_Deref)
         else Ok (d, [p]))
      else Ok (d\<lparr>dt_q := dt_q d @ [p]\<rparr>, []))"

definition dt_deque :: "droptail deq_fun" where
  "dt_deque now d0 =
     (let d = dt_stats now d0 in
      case fifo_deque (dt_q d) of (r, q) \<Rightarrow> Ok (r, d\<lparr>dt_q := q\<rparr>))"

text \<open>
  The loop of \<open>shrink_queue\<close>. On an empty queue (a negative limit) it drops a null
  pointer, or aborts in \<open>PacketQueue::remove\<close>.
\<close>

definition over_limit :: "bool \<Rightarrow> int \<Rightarrow> int \<Rightarrow> packet list \<Rightarrow> bool" where
  "over_limit qib lm lim_bytes xs \<longleftrightarrow>
     (\<not> qib \<and> list_len xs > lm) \<or> (qib \<and> list_bytes xs > lim_bytes)"

function shrink_loop ::
  "bool \<Rightarrow> int \<Rightarrow> int \<Rightarrow> bool \<Rightarrow> packet list \<Rightarrow> packet list \<Rightarrow> (packet list \<times> packet list) res" where
  "shrink_loop qib lm lim_bytes front xs drops =
     (if over_limit qib lm lim_bytes xs then
        (if front then
           (case xs of
              [] \<Rightarrow> Fail Null_Deref
            | x # ys \<Rightarrow> shrink_loop qib lm lim_bytes front ys (drops @ [x]))
         else if xs = [] then Fail Abort
         else shrink_loop qib lm lim_bytes front (butlast xs) (drops @ [last xs]))
      else Ok (xs, drops))"
  by pat_completeness auto
termination
  by (relation "measure (\<lambda>(_, _, _, _, xs, _). length xs)") auto

declare shrink_loop.simps [simp del]

definition dt_shrink_queue :: "droptail \<Rightarrow> (droptail \<times> packet list) res" where
  "dt_shrink_queue d =
     res_bind (shrink_loop (dt_qib d) (qb_qlim d) (dt_qlimBytes d) (dt_drop_front d) (dt_q d) [])
       (\<lambda>(q, drops). Ok (d\<lparr>dt_q := q\<rparr>, drops))"

definition dt_over :: "real \<Rightarrow> droptail \<Rightarrow> droptail" where
  "dt_over now d = d\<lparr>dt_fperpkt := dt_fperpkt d @ [(now, dt_pktcnt_pers d)], dt_pktcnt_pers := 0\<rparr>"

definition dt_reset :: "real \<Rightarrow> droptail \<Rightarrow> (packet list \<times> droptail) res option" where
  "dt_reset now d = q_reset dt_deque now d"

section \<open>DropTailT\<close>

record droptailt = qbase +
  tt_q :: "packet list"
  tt_drop_front :: bool
  tt_qib :: bool
  tt_mean_pktsize :: int
  tt_linkflag :: int
  tt_pktcnt_pers_td :: int
  tt_timeDelay_pers :: real
  tt_ftimedelay1 :: "(real \<times> real) list"
  tt_ftimedelay2 :: "real list"

definition tt_enque :: "droptailt enq_fun" where
  "tt_enque now p d =
     (let d1 = (if tt_linkflag d = 1 \<and> pk_ptype p \<noteq> 5
                then d\<lparr>tt_pktcnt_pers_td := wrap_s32 (tt_pktcnt_pers_td d + 1),
                       tt_timeDelay_pers := tt_timeDelay_pers d + (now - pk_timestamp p)\<rparr>
                else d)
      in Ok (d1\<lparr>tt_q := tt_q d1 @ [p]\<rparr>, []))"

definition tt_deque :: "droptailt deq_fun" where
  "tt_deque now d = (case fifo_deque (tt_q d) of (r, q) \<Rightarrow> Ok (r, d\<lparr>tt_q := q\<rparr>))"

definition tt_shrink_queue :: "droptailt \<Rightarrow> (droptailt \<times> packet list) res" where
  "tt_shrink_queue d =
     res_bind (shrink_loop (tt_qib d) (qb_qlim d) (wrap_s32 (qb_qlim d * tt_mean_pktsize d))
         (tt_drop_front d) (tt_q d) [])
       (\<lambda>(q, drops). Ok (d\<lparr>tt_q := q\<rparr>, drops))"

definition tt_putTimedelay :: "real \<Rightarrow> droptailt \<Rightarrow> droptailt" where
  "tt_putTimedelay now d =
     (let d1 = (if tt_pktcnt_pers_td d \<noteq> 0 then
                  (let x = tt_timeDelay_pers d / real_of_int (tt_pktcnt_pers_td d) in
                   d\<lparr>tt_ftimedelay1 := tt_ftimedelay1 d @ [(now, x * 1000)],
                     tt_ftimedelay2 := tt_ftimedelay2 d @ [x]\<rparr>)
                else d)
      in d1\<lparr>tt_timeDelay_pers := 0, tt_pktcnt_pers_td := 0\<rparr>)"

section \<open>Tque\<close>

record tque = qbase +
  tq_q :: "packet list"
  tq_mytime :: real
  tq_pktcnt_pers :: int
  tq_pktcnt :: int
  tq_count :: int
  tq_tin :: real
  tq_fperpkt :: "int list"
  tq_test_itv :: "real list"

text \<open>The members that \<open>Tque\<close> sets; \<open>pktcnt\<close> has no initial value in the code.\<close>

definition tq_init :: "int \<Rightarrow> tque \<Rightarrow> tque" where
  "tq_init pktcnt d = d\<lparr>tq_q := [], tq_mytime := 0, tq_pktcnt_pers := 0, tq_pktcnt := pktcnt,
     tq_count := 0, tq_tin := -1, tq_fperpkt := [], tq_test_itv := []\<rparr>"

definition tq_enque :: "tque enq_fun" where
  "tq_enque now p d0 =
     (let d1 = d0\<lparr>tq_q := tq_q d0 @ [p]\<rparr>;
          d2 = (if pk_ptype p = 28 then
                  (if tq_tin d1 \<noteq> -1 then d1\<lparr>tq_test_itv := tq_test_itv d1 @ [now - tq_tin d1]\<rparr> else d1)
                    \<lparr>tq_tin := now\<rparr>
                else d1);
          d3 = d2\<lparr>tq_pktcnt := wrap_s32 (tq_pktcnt d2 + 1), tq_pktcnt_pers := wrap_s32 (tq_pktcnt_pers d2 + 1)\<rparr>
      in Ok (if now \<ge> tq_mytime d3 then d3\<lparr>tq_mytime := tq_mytime d3 + 10\<rparr> else d3, []))"

definition tq_deque :: "tque deq_fun" where
  "tq_deque now d = (case fifo_deque (tq_q d) of (r, q) \<Rightarrow> Ok (r, d\<lparr>tq_q := q\<rparr>))"

definition tq_over :: "real \<Rightarrow> tque \<Rightarrow> tque" where
  "tq_over now d = d\<lparr>tq_fperpkt := tq_fperpkt d @ [tq_pktcnt_pers d], tq_pktcnt_pers := 0\<rparr>"

definition tq_totalpkt :: "tque \<Rightarrow> tque" where
  "tq_totalpkt d = d\<lparr>tq_count := wrap_s32 (tq_count d + 1), tq_pktcnt := 0\<rparr>"

section \<open>The three disciplines keep the contract\<close>

lemma q_updateStats_frame [simp]:
  "qb_blocked (q_updateStats t n q) = qb_blocked q" "qb_qlim (q_updateStats t n q) = qb_qlim q"
  "qb_unblock_on_resume (q_updateStats t n q) = qb_unblock_on_resume q"
  "qbase.more (q_updateStats t n q) = qbase.more q"
  by (simp_all add: q_updateStats_def Let_def)

lemma dt_more: "qbase.more r = qbase.more q \<Longrightarrow> dt_q r = dt_q q" for q :: droptail
  by (cases q, cases r, simp)

lemma dt_stats_frame [simp]:
  "dt_q (dt_stats now d) = dt_q d" "dt_qib (dt_stats now d) = dt_qib d"
  "dt_drop_front (dt_stats now d) = dt_drop_front d" "qb_qlim (dt_stats now d) = qb_qlim d"
  "dt_mean_pktsize (dt_stats now d) = dt_mean_pktsize d" "qb_blocked (dt_stats now d) = qb_blocked d"
  "qb_unblock_on_resume (dt_stats now d) = qb_unblock_on_resume d"
  by (simp_all add: dt_stats_def q_updateStats_def Let_def)

interpretation dtq: fifo_discipline dt_enque dt_deque "\<lambda>_. True" dt_q "\<lambda>_. True"
proof unfold_locales
  show "enq_ok dt_q (\<lambda>_. True) p q (dt_enque now p q)" for q p now
    by (cases "dt_q q") (simp_all add: dt_enque_def enq_ok_def Let_def)
  show "deq_ok dt_q (\<lambda>_. True) q (dt_deque now q)" for q now
    by (cases "dt_q q") (simp_all add: dt_deque_def deq_ok_def Let_def)
  show "qbase.more r = qbase.more q \<Longrightarrow> dt_q r = dt_q q" for r q :: droptail
    by (rule dt_more)
  show "subseq (map pk_addr (dt_q q')) (map pk_addr (dt_q q) @ [pk_addr p])"
    if "dt_enque now p q = Ok (q', drops)" for now p q q' drops
    using that by (cases "dt_q q") (auto simp: dt_enque_def Let_def split: if_splits)
  show "map pk_addr (dt_q q) = pk_addr p # map pk_addr (dt_q q')"
    if "dt_deque now q = Ok (Some p, q')" for now p q q'
    using that by (cases "dt_q q") (auto simp: dt_deque_def Let_def)
qed simp

lemma tt_more: "qbase.more r = qbase.more q \<Longrightarrow> tt_q r = tt_q q" for q :: droptailt
  by (cases q, cases r, simp)

interpretation ttq: fifo_discipline tt_enque tt_deque "\<lambda>_. True" tt_q "\<lambda>_. True"
proof unfold_locales
  show "enq_ok tt_q (\<lambda>_. True) p q (tt_enque now p q)" for q p now
    by (simp add: tt_enque_def enq_ok_def Let_def)
  show "deq_ok tt_q (\<lambda>_. True) q (tt_deque now q)" for q now
    by (cases "tt_q q") (simp_all add: tt_deque_def deq_ok_def)
  show "qbase.more r = qbase.more q \<Longrightarrow> tt_q r = tt_q q" for r q :: droptailt
    by (rule tt_more)
  show "subseq (map pk_addr (tt_q q')) (map pk_addr (tt_q q) @ [pk_addr p])"
    if "tt_enque now p q = Ok (q', drops)" for now p q q' drops
    using that by (auto simp: tt_enque_def Let_def)
  show "map pk_addr (tt_q q) = pk_addr p # map pk_addr (tt_q q')"
    if "tt_deque now q = Ok (Some p, q')" for now p q q'
    using that by (cases "tt_q q") (auto simp: tt_deque_def)
qed simp

lemma tq_more: "qbase.more r = qbase.more q \<Longrightarrow> tq_q r = tq_q q" for q :: tque
  by (cases q, cases r, simp)

interpretation tqq: fifo_discipline tq_enque tq_deque "\<lambda>_. True" tq_q "\<lambda>_. True"
proof unfold_locales
  show "enq_ok tq_q (\<lambda>_. True) p q (tq_enque now p q)" for q p now
    by (simp add: tq_enque_def enq_ok_def Let_def)
  show "deq_ok tq_q (\<lambda>_. True) q (tq_deque now q)" for q now
    by (cases "tq_q q") (simp_all add: tq_deque_def deq_ok_def)
  show "qbase.more r = qbase.more q \<Longrightarrow> tq_q r = tq_q q" for r q :: tque
    by (rule tq_more)
  show "subseq (map pk_addr (tq_q q')) (map pk_addr (tq_q q) @ [pk_addr p])"
    if "tq_enque now p q = Ok (q', drops)" for now p q q' drops
    using that by (auto simp: tq_enque_def Let_def)
  show "map pk_addr (tq_q q) = pk_addr p # map pk_addr (tq_q q')"
    if "tq_deque now q = Ok (Some p, q')" for now p q q'
    using that by (cases "tq_q q") (auto simp: tq_deque_def)
qed simp

section \<open>Bounds of DropTail\<close>

text \<open>In packet mode at most \<open>limit_ - 1\<close> packets are queued, at most none for a limit below 1.\<close>

definition dt_bounded :: "droptail \<Rightarrow> bool" where
  "dt_bounded d \<longleftrightarrow> (if dt_qib d then list_bytes (dt_q d) < dt_qlimBytes d \<or> dt_q d = []
     else list_len (dt_q d) < qb_qlim d \<or> dt_q d = [])"

lemma dt_qlimBytes_frame [simp]:
  "dt_qlimBytes (dt_stats now d) = dt_qlimBytes d"
  "dt_qlimBytes (d\<lparr>dt_pktcnt_pers := n\<rparr>) = dt_qlimBytes d" "dt_qlimBytes (d\<lparr>dt_q := q\<rparr>) = dt_qlimBytes d"
  by (simp_all add: dt_qlimBytes_def)

lemma dt_enque_bounded:
  assumes "dt_bounded d" "\<not> dt_qib d \<or> \<not> dt_drop_front d" "dt_enque now p d = Ok (d', drops)"
  shows "dt_bounded d'"
  using assms
  by (cases "dt_q d") (auto simp: dt_bounded_def dt_enque_def dt_full_def Let_def split: if_splits)

lemma dt_deque_bounded:
  assumes "dt_bounded d" "\<forall>p \<in> set (dt_q d). 0 \<le> pk_size p" "dt_deque now d = Ok (r, d')"
  shows "dt_bounded d'"
  using assms by (cases "dt_q d") (auto simp: dt_bounded_def dt_deque_def Let_def)

text \<open>FIFO: what stays is in order of arrival, and \<open>deque\<close> takes the oldest packet.\<close>

lemma dt_enque_order:
  "dt_enque now p d = Ok (d', drops) \<Longrightarrow>
   dt_q d' = (if dt_full p (dt_stats now d) then (if dt_drop_front d then tl (dt_q d @ [p]) else dt_q d)
      else dt_q d @ [p])"
proof -
  assume *: "dt_enque now p d = Ok (d', drops)"
  have "dt_full p (dt_stats now (d\<lparr>dt_pktcnt_pers := n\<rparr>)) = dt_full p (dt_stats now d)" for n
    by (simp add: dt_full_def)
  then show ?thesis
    using * by (cases "dt_q d") (auto simp: dt_enque_def Let_def split: if_splits)
qed

text \<open>\<open>shrink_queue\<close> keeps a suffix or a prefix of the queue that is within the limit.\<close>

lemma shrink_loop_front:
  "shrink_loop qib lm lb True xs drops = Ok (ys, ds) \<Longrightarrow>
   \<not> over_limit qib lm lb ys \<and> drops @ xs = ds @ ys"
proof (induction qib lm lb True xs drops arbitrary: ys ds rule: shrink_loop.induct)
  case (1 qib lm lb xs drops)
  show ?case
  proof (cases "over_limit qib lm lb xs")
    case False
    with 1(3) show ?thesis by (simp add: shrink_loop.simps [of _ _ _ _ xs])
  next
    case True
    with 1(3) obtain z zs where "xs = z # zs"
      "shrink_loop qib lm lb True zs (drops @ [z]) = Ok (ys, ds)"
      by (auto simp: shrink_loop.simps [of _ _ _ _ xs] split: list.splits)
    with 1(1) [OF True TrueI, of z zs] show ?thesis by simp
  qed
qed

lemma shrink_loop_tail:
  "shrink_loop qib lm lb False xs drops = Ok (ys, ds) \<Longrightarrow>
   \<not> over_limit qib lm lb ys \<and> drops @ rev xs = ds @ rev ys"
proof (induction qib lm lb False xs drops arbitrary: ys ds rule: shrink_loop.induct)
  case (1 qib lm lb xs drops)
  show ?case
  proof (cases "over_limit qib lm lb xs")
    case False
    with 1(3) show ?thesis by (simp add: shrink_loop.simps [of _ _ _ _ xs])
  next
    case True
    with 1(3) have "xs \<noteq> []"
      "shrink_loop qib lm lb False (butlast xs) (drops @ [last xs]) = Ok (ys, ds)"
      by (auto simp: shrink_loop.simps [of _ _ _ _ xs] split: if_splits)
    with 1(2) [OF True] show ?thesis by (cases xs rule: rev_cases) auto
  qed
qed

lemma shrink_loop_ok:
  "0 \<le> lm \<Longrightarrow> 0 \<le> lb \<Longrightarrow> \<exists>r. shrink_loop qib lm lb front xs drops = Ok r"
proof (induction qib lm lb front xs drops rule: shrink_loop.induct)
  case (1 qib lm lb front xs drops)
  show ?case
  proof (cases "over_limit qib lm lb xs")
    case True
    then have "xs \<noteq> []" using 1(3,4) by (auto simp: over_limit_def)
    with True 1 show ?thesis
      by (cases xs; cases front)
         (simp_all add: shrink_loop.simps [of qib lm lb _ "_ # _" drops] del: butlast.simps last.simps)
  qed (simp add: shrink_loop.simps [of qib lm lb front xs drops])
qed

lemma dt_shrink_correct:
  assumes "0 \<le> qb_qlim d" "0 \<le> dt_qlimBytes d"
  shows "\<exists>d' drops. dt_shrink_queue d = Ok (d', drops) \<and>
    \<not> over_limit (dt_qib d) (qb_qlim d) (dt_qlimBytes d) (dt_q d') \<and>
    dt_q d = (if dt_drop_front d then drops @ dt_q d' else dt_q d' @ rev drops)"
proof -
  obtain q drops where r: "shrink_loop (dt_qib d) (qb_qlim d) (dt_qlimBytes d) (dt_drop_front d)
      (dt_q d) [] = Ok (q, drops)"
    using shrink_loop_ok [OF assms, of "dt_qib d" "dt_drop_front d" "dt_q d" "[]"] by auto
  show ?thesis
  proof (cases "dt_drop_front d")
    case True
    with r shrink_loop_front [of "dt_qib d" "qb_qlim d" "dt_qlimBytes d" "dt_q d" "[]" q drops]
    show ?thesis by (simp add: dt_shrink_queue_def)
  next
    case False
    with r shrink_loop_tail [of "dt_qib d" "qb_qlim d" "dt_qlimBytes d" "dt_q d" "[]" q drops]
    show ?thesis by (simp add: dt_shrink_queue_def rev_eq_append_conv)
  qed
qed

section \<open>Properties\<close>

text \<open>
  C32: whatever arrives at a link with a drop-tail queue and whenever the link finishes,
  no step fails, every packet is sent, dropped or queued exactly once, packets leave in
  order of arrival, and the link is idle only when the queue is empty.
\<close>

theorem droptail_link_conserves:
  assumes "link_reach (\<lambda>_. True) dt_enque dt_deque q0 r" "dt_q q0 = []" "\<not> qb_blocked q0" "qb_unblock_on_resume q0"
  shows "\<exists>l. r = Ok l \<and>
    addrs (lk_arrived l) = addrs (lk_sent l) + addrs (lk_dropped l) + addrs (dt_q (lk_queue l)) \<and>
    subseq (map pk_addr (lk_sent l @ dt_q (lk_queue l))) (map pk_addr (lk_arrived l)) \<and>
    (\<not> lk_busy l \<longrightarrow> dt_q (lk_queue l) = [])"
  using dtq.link_reach_order [OF assms(1) TrueI assms(2-4)]
  by (auto simp: dtq.link_inv_def dtq.in_order_def)

definition demo_droptail :: droptail where
  "demo_droptail = qbase.extend demo_qbase (droptail.fields [] False False False 500 0 [])"

definition demo_packet :: "nat \<Rightarrow> packet" where
  "demo_packet n = \<lparr>pk_addr = n, pk_size = 500, pk_ptype = 28, pk_timestamp = 0, pk_flow = 0, pk_prio = 0,
     pk_src = 5, pk_dst = 6, pk_ect = True, pk_ce = False\<rparr>"

lemmas demo_queue_defs = demo_droptail_def demo_qbase_def demo_packet_def droptail.defs qbase.defs

theorem droptail_link_conserves_witness:
  "\<exists>l. link_arrive dt_enque dt_deque 1 (demo_packet 7) (link_start demo_droptail) = Ok l \<and>
     addrs (lk_arrived l) = addrs (lk_sent l) + addrs (lk_dropped l) + addrs (dt_q (lk_queue l))"
proof -
  have "link_reach (\<lambda>_. True) dt_enque dt_deque demo_droptail
      (link_arrive dt_enque dt_deque 1 (demo_packet 7) (link_start demo_droptail))"
    by (rule link_reach.step [OF link_reach.start]) (rule link_step.arrive, simp_all add: link_start_def)
  from droptail_link_conserves [OF this] show ?thesis
    by (simp add: demo_queue_defs) blast
qed

text \<open>
  measured in packets, a drop-tail queue that holds fewer than \<open>limit_\<close> packets still
  does after \<open>enque\<close>, so at most \<open>limit_ - 1\<close> packets are ever queued; measured in bytes
  the same holds for the byte limit when it drops the arriving packet.
\<close>

theorem droptail_limit:
  assumes "dt_bounded d" "\<not> dt_qib d \<or> \<not> dt_drop_front d" "dt_enque now p d = Ok (d', drops)"
  shows "dt_bounded d' \<and> (\<not> dt_qib d' \<and> dt_q d' \<noteq> [] \<longrightarrow> list_len (dt_q d') \<le> qb_qlim d' - 1)"
proof -
  have "dt_bounded d'" by (rule dt_enque_bounded [OF assms])
  then show ?thesis by (auto simp: dt_bounded_def split: if_splits)
qed

theorem droptail_limit_witness:
  "\<exists>d drops. dt_enque 1 (demo_packet 7) demo_droptail = Ok (d, drops) \<and> list_len (dt_q d) \<le> qb_qlim d - 1"
proof -
  obtain d where d: "dt_enque 1 (demo_packet 7) demo_droptail = Ok (d, [])" "\<not> dt_qib d" "dt_q d \<noteq> []"
    by (simp add: dt_enque_def dt_stats_def dt_full_def demo_queue_defs)
  with droptail_limit [of demo_droptail 1 "demo_packet 7" d "[]"] show ?thesis
    by (simp add: demo_queue_defs dt_bounded_def)
qed

text \<open>
  in bytes with \<open>drop_front_\<close> the limit does not hold: a large packet that arrives at
  a full queue evicts one small packet, and the queue exceeds its byte limit.
\<close>

theorem drop_front_exceeds_bytes:
  assumes "dt_qib d" "dt_drop_front d" "dt_q d = x # xs" "dt_full p d"
    and "dt_qlimBytes d < list_bytes xs + pk_size p"
  shows "\<exists>d'. dt_enque now p d = Ok (d', [x]) \<and> list_bytes (dt_q d') > dt_qlimBytes d'"
proof -
  have "dt_full p (dt_stats now (d\<lparr>dt_pktcnt_pers := n\<rparr>))" for n
    using assms(4) by (simp add: dt_full_def)
  with assms show ?thesis by (simp add: dt_enque_def Let_def)
qed

definition demo_full :: droptail where
  "demo_full = demo_droptail\<lparr>dt_qib := True, dt_drop_front := True,
     dt_q := [(demo_packet 1)\<lparr>pk_size := 40\<rparr>, demo_packet 2, demo_packet 3, demo_packet 4, demo_packet 5]\<rparr>"

theorem drop_front_exceeds_bytes_witness:
  "\<exists>d'. dt_enque 1 ((demo_packet 6)\<lparr>pk_size := 1500\<rparr>) demo_full = Ok (d', [(demo_packet 1)\<lparr>pk_size := 40\<rparr>]) \<and>
     list_bytes (dt_q d') > dt_qlimBytes d'"
  using drop_front_exceeds_bytes [of demo_full "(demo_packet 1)\<lparr>pk_size := 40\<rparr>"
    "[demo_packet 2, demo_packet 3, demo_packet 4, demo_packet 5]" "(demo_packet 6)\<lparr>pk_size := 1500\<rparr>" 1]
  by (simp add: demo_full_def demo_queue_defs dt_full_def dt_qlimBytes_def)

text \<open>
  C34: \<open>shrink_queue\<close> ends, brings the queue within its limit and drops a prefix of the
  queue (with \<open>drop_front_\<close>) or a suffix, the last packet first.
\<close>

theorem shrink_queue_within_limit:
  assumes "0 \<le> qb_qlim d" "0 \<le> dt_qlimBytes d"
  shows "\<exists>d' drops. dt_shrink_queue d = Ok (d', drops) \<and>
    \<not> over_limit (dt_qib d) (qb_qlim d) (dt_qlimBytes d) (dt_q d') \<and>
    dt_q d = (if dt_drop_front d then drops @ dt_q d' else dt_q d' @ rev drops)"
  by (rule dt_shrink_correct [OF assms])

theorem shrink_queue_within_limit_witness:
  "\<exists>d' drops. dt_shrink_queue (demo_full\<lparr>dt_qib := False, qb_qlim := 2\<rparr>) = Ok (d', drops) \<and>
     drops @ dt_q d' = dt_q demo_full"
  using shrink_queue_within_limit [of "demo_full\<lparr>dt_qib := False, qb_qlim := 2\<rparr>"]
  by (auto simp: demo_full_def demo_queue_defs dt_qlimBytes_def)

end
