(* ===== verification/Red.thy ===== *)
theory Red
  imports Drop_Tail
begin

text \<open>
  Class \<open>REDQueue\<close> of \<open>queue/red.h\<close> and \<open>queue/red.cc\<close>: Random Early Detection
  with the adaptive variants of the repository (Adaptive RED, Feng's, and the ones
  switched on by \<open>pared_\<close>, \<open>hared_\<close> and \<open>fared_\<close>). Doubles are real numbers and
  the counters are not wrapped around. A division of doubles by zero, which gives an infinity or
  no number in the code, is 0 here (as in HOL) where the text says nothing else; a division
  of integers by zero is the failure \<open>Div_By_Zero\<close>. The random numbers that the queue draws are two
  sequences, of uniform deviates (\<open>Random::uniform\<close>) and of positive integers
  (\<open>Random::integer\<close>), read at the position \<open>rd_draw\<close>. The output files are lists.
\<close>

section \<open>The state\<close>

record edp =
  ed_mean_pktsize :: int
  ed_idle_pktsize :: int
  ed_bytes :: bool
  ed_wait :: bool
  ed_setbit :: bool
  ed_gentle :: bool
  ed_th_min :: real
  ed_th_min_pkts :: real
  ed_th_max :: real
  ed_th_max_pkts :: real
  ed_max_p_inv :: real
  ed_mark_p :: real
  ed_use_mark_p :: bool
  ed_q_w :: real
  ed_adaptive :: int
  ed_cautious :: int
  ed_alpha :: real
  ed_beta :: real
  ed_interval :: real
  ed_targetdelay :: real
  ed_top :: real
  ed_bottom :: real
  ed_feng_adaptive :: int
  ed_ptc :: real
  ed_delay :: real

datatype red_status = Above | Below | Between

record edv =
  v_ave :: real
  v_prob1 :: real
  v_slope :: real
  v_prob :: real
  v_a :: real
  v_b :: real
  v_c :: real
  v_d :: real
  v_count :: int
  v_count_bytes :: int
  v_old :: bool
  v_cur_max_p :: real
  v_lastset :: real
  v_status :: red_status

record red = qbase +
  rd_q :: "packet list"
  rd_qib :: bool
  rd_summarystats :: bool
  rd_drop_front :: bool
  rd_drop_rand :: bool
  rd_ns1_compat :: bool
  rd_link :: "(real \<times> real) option"
  rd_de_drop :: bool
  rd_curq :: int
  rd_edp :: edp
  rd_edv :: edv
  rd_idle :: bool
  rd_idletime :: real
  rd_tin :: real
  rd_pktcnt_pers_lp :: int
  rd_pktcnt_pers_tp :: int
  rd_pktcnt_pers_td :: int
  rd_pktcnt_pers :: int
  rd_pktcnt_pers_level :: int
  rd_pktcnt_pers_maxp :: int
  rd_pktcnt_pers_F :: int
  rd_drop_cnt_pers :: int
  rd_tp_cnt_pers :: int
  rd_pertime :: real
  rd_timeDelay_pers :: real
  rd_pared :: int
  rd_hared :: int
  rd_fared :: int
  rd_ek :: "real list"
  rd_xk :: "real list"
  rd_wk1 :: "real list"
  rd_Ctn1 :: real
  rd_avgtn1 :: real
  rd_test_itv :: "real list"
  rd_fperpkt :: "(real \<times> int) list"
  rd_flosspkt :: "(real \<times> real) list"
  rd_fthroughput :: "(real \<times> real) list"
  rd_ftimedelay :: "(real \<times> real) list"
  rd_ftimedelay2 :: "real list"
  rd_unif :: "nat \<Rightarrow> real"
  rd_pint :: "nat \<Rightarrow> nat"
  rd_draw :: nat

definition E1 :: real where "E1 = 89.48349"
definition D1 :: real where "D1 = 4.60072"

definition level_scale :: "real list" where
  "level_scale = [5.57895, 5.63293, 5.19220, 4.71527, 4.14248, 3.98733, 3.58955, 0.00000]"

text \<open>\<open>pow (x, 0)\<close> is 1.\<close>

definition c_pow :: "real \<Rightarrow> real \<Rightarrow> real" where
  "c_pow x y = (if y = 0 then 1 else x powr y)"

abbreviation upd_edp :: "(edp \<Rightarrow> edp) \<Rightarrow> red \<Rightarrow> red" where
  "upd_edp f d \<equiv> d\<lparr>rd_edp := f (rd_edp d)\<rparr>"

abbreviation upd_edv :: "(edv \<Rightarrow> edv) \<Rightarrow> red \<Rightarrow> red" where
  "upd_edv f d \<equiv> d\<lparr>rd_edv := f (rd_edv d)\<rparr>"

abbreviation rd_qsize :: "red \<Rightarrow> int" where
  "rd_qsize d \<equiv> (if rd_qib d then list_bytes (rd_q d) else list_len (rd_q d))"

section \<open>Parameters and reset\<close>

definition rd_initialize_params :: "real \<Rightarrow> red \<Rightarrow> red" where
  "rd_initialize_params bw d =
     (let e0 = rd_edp d;
          e1 = (if ed_q_w e0 = 0 then e0\<lparr>ed_q_w := 1 - exp (- 1 / ed_ptc e0)\<rparr>
                else if ed_q_w e0 = -1 then
                  (let rtt = 3 * (ed_delay e0 + 1 / ed_ptc e0);
                       rtt' = (if rtt < 0.1 then 0.1 else rtt)
                   in e0\<lparr>ed_q_w := 1 - exp (- 1 / (10 * rtt' * ed_ptc e0))\<rparr>)
                else if ed_q_w e0 = -2 then e0\<lparr>ed_q_w := 1 - exp (- 10 / ed_ptc e0)\<rparr>
                else e0);
          e2 = (if ed_th_min_pkts e1 = 0 then
                  (let targetqueue = ed_targetdelay e1 * ed_ptc e1
                   in e1\<lparr>ed_th_min_pkts := if 5 < targetqueue / 2 then targetqueue / 2 else 5\<rparr>)
                else e1);
          e3 = (if ed_th_max_pkts e2 = 0 then e2\<lparr>ed_th_max_pkts := 3 * ed_th_min_pkts e2\<rparr> else e2);
          e4 = (if ed_bottom e3 = 0 then
                  (let bottom1 = 80000 / bw in e3\<lparr>ed_bottom := if bottom1 < 0.01 then bottom1 else 0.01\<rparr>)
                else e3)
      in d\<lparr>rd_edp := e4\<rparr>)"

text \<open>The command \<open>link\<close> (bandwidth and delay of the outgoing link).\<close>

definition rd_set_link :: "real \<Rightarrow> real \<Rightarrow> red \<Rightarrow> red" where
  "rd_set_link bw delay d =
     (let e = (rd_edp d)\<lparr>ed_ptc := bw / (8 * real_of_int (ed_mean_pktsize (rd_edp d))), ed_delay := delay\<rparr>;
          d1 = d\<lparr>rd_link := Some (bw, delay), rd_edp := e\<rparr>
      in if ed_q_w e \<le> 0 \<or> ed_th_min_pkts e = 0 \<or> ed_th_max_pkts e = 0
         then rd_initialize_params bw d1 else d1)"

section \<open>Adapting the maximum drop probability\<close>

definition rd_updateMaxPFeng :: "real \<Rightarrow> red \<Rightarrow> red" where
  "rd_updateMaxPFeng new_ave d =
     (let e = rd_edp d; v0 = rd_edv d;
          v1 = (if ed_th_min e < new_ave \<and> new_ave < ed_th_max e then v0\<lparr>v_status := Between\<rparr> else v0);
          v2 = (if new_ave < ed_th_min e \<and> v_status v1 \<noteq> Below
                then v1\<lparr>v_status := Below, v_cur_max_p := v_cur_max_p v1 / ed_alpha e\<rparr> else v1);
          v3 = (if new_ave > ed_th_max e \<and> v_status v2 \<noteq> Above
                then v2\<lparr>v_status := Above, v_cur_max_p := v_cur_max_p v2 * ed_beta e\<rparr> else v2)
      in d\<lparr>rd_edv := v3\<rparr>)"

definition rd_updateMaxP :: "real \<Rightarrow> real \<Rightarrow> red \<Rightarrow> red" where
  "rd_updateMaxP new_ave now d =
     (let e = rd_edp d; v = rd_edv d;
          part = 0.4 * (ed_th_max e - ed_th_min e);
          v1 = (if new_ave < ed_th_min e + part \<and> v_cur_max_p v > ed_bottom e
                then v\<lparr>v_cur_max_p := v_cur_max_p v * ed_beta e\<rparr>
                else if new_ave > ed_th_max e - part \<and> ed_top e > v_cur_max_p v then
                  (let alpha = (if ed_alpha e > 0.25 * v_cur_max_p v then 0.25 * v_cur_max_p v else ed_alpha e)
                   in v\<lparr>v_cur_max_p := v_cur_max_p v + alpha\<rparr>)
                else v)
      in d\<lparr>rd_edv := v1\<lparr>v_lastset := now\<rparr>\<rparr>)"

definition level_of :: "int \<Rightarrow> int" where
  "level_of n =
     (let x = real_of_int n in
      if x < E1 - 3 * D1 then 1
      else if x \<ge> E1 - 3 * D1 \<and> x < E1 - 2 * D1 then 2
      else if x \<ge> E1 - 2 * D1 \<and> x < E1 - D1 then 3
      else if x \<ge> E1 - D1 \<and> x < E1 then 4
      else if x \<ge> E1 \<and> x < E1 + D1 then 5
      else if x \<ge> E1 + D1 \<and> x < E1 + 2 * D1 then 6
      else if x \<ge> E1 + 2 * D1 \<and> x < E1 + 3 * D1 then 7
      else if x \<ge> E1 + 3 * D1 then 8
      else 0)"

definition rd_getLevel :: "red \<Rightarrow> int \<times> red" where
  "rd_getLevel d = (level_of (rd_pktcnt_pers_level d), d\<lparr>rd_pktcnt_pers_level := 0\<rparr>)"

definition rd_updateMaxPYZR :: "real \<Rightarrow> real \<Rightarrow> red \<Rightarrow> red" where
  "rd_updateMaxPYZR new_ave now d0 =
     (let (level, d) = rd_getLevel d0;
          e = rd_edp d; v = rd_edv d; lv = real_of_int level;
          part = 0.4 * (ed_th_max e - ed_th_min e);
          d1 = (if new_ave < ed_th_min e + part \<and> v_cur_max_p v > ed_bottom e then
                  (let beta = (if lv < 5 then 0.83 + 0.07 * 0.2 * (lv - 1) else 0.9)
                   in d\<lparr>rd_edp := e\<lparr>ed_beta := beta\<rparr>, rd_edv := v\<lparr>v_cur_max_p := v_cur_max_p v * beta\<rparr>\<rparr>)
                else if new_ave > ed_th_max e - part \<and> ed_top e > v_cur_max_p v then
                  (let alpha = (if lv > 6 then 0.25 * v_cur_max_p v * 0.125 * (lv - 1)
                                else if v_cur_max_p v / 4 \<le> ed_alpha e then v_cur_max_p v / 4
                                else ed_alpha e)
                   in d\<lparr>rd_edv := v\<lparr>v_cur_max_p := v_cur_max_p v + alpha\<rparr>\<rparr>)
                else d)
      in upd_edv (\<lambda>v. v\<lparr>v_lastset := now\<rparr>) d1)"

definition rd_updateMaxP_H :: "real \<Rightarrow> real \<Rightarrow> red \<Rightarrow> red" where
  "rd_updateMaxP_H new_ave now d =
     (let e2 = rd_ek d ! 1; e1 = rd_ek d ! 0; e0 = real_of_int (list_len (rd_q d)) - 25;
          x = rd_xk d;
          xk = [e0 - e1, e0 - e2, e1 - e2, e0, e0 - 2 * e1 + e2,
                real_of_int (c_div (10 * rd_pktcnt_pers_maxp d) 375 - 1), x ! 5, x ! 6, 0.9];
          tempk = sum_list (map2 (*) (rd_wk1 d) xk);
          wk = map2 (\<lambda>w xi. w + 100 * e0 * xi) (rd_wk1 d) xk
      in d\<lparr>rd_ek := [e0, e1, e2], rd_xk := xk, rd_wk1 := wk, rd_pktcnt_pers_maxp := 0,
          rd_edv := (rd_edv d)\<lparr>v_cur_max_p := max 0 (min tempk 0.5) * 1.4, v_lastset := now\<rparr>\<rparr>)"

section \<open>The average queue size\<close>

text \<open>The loop \<open>while (--m >= 1) new_ave *= 1.0 - q_w\<close>.\<close>

function decay_loop :: "int \<Rightarrow> real \<Rightarrow> real \<Rightarrow> real" where
  "decay_loop m x q_w = (if m - 1 \<ge> 1 then decay_loop (m - 1) (x * (1 - q_w)) q_w else x)"
  by pat_completeness auto
termination
  by (relation "measure (\<lambda>(m, _, _). nat m)") auto

declare decay_loop.simps [simp del]

definition rd_new_ave :: "int \<Rightarrow> int \<Rightarrow> real \<Rightarrow> real \<Rightarrow> real" where
  "rd_new_ave nqueued m ave q_w =
     decay_loop m ave q_w * (1 - q_w) + q_w * real_of_int nqueued"

definition rd_estimator :: "int \<Rightarrow> int \<Rightarrow> real \<Rightarrow> real \<Rightarrow> real \<Rightarrow> red \<Rightarrow> real \<times> red" where
  "rd_estimator nqueued m ave q_w now d0 =
     (let new_ave = rd_new_ave nqueued m ave q_w;
          e = rd_edp d0;
          d1 = (if ed_adaptive e = 1 then
                  (if ed_feng_adaptive e = 1 then rd_updateMaxPFeng new_ave d0
                   else if now > v_lastset (rd_edv d0) + ed_interval e then rd_updateMaxP new_ave now d0
                   else d0)
                else d0);
          d2 = (if rd_pared d1 = 1 then rd_updateMaxPYZR new_ave now d1 else d1);
          d3 = (if rd_pared d2 = 2 \<and> now > v_lastset (rd_edv d2) + rd_pertime d2
                then rd_updateMaxPYZR new_ave now d2 else d2);
          d4 = (if rd_hared d3 = 1 \<and> now > v_lastset (rd_edv d3) + rd_pertime d3
                then rd_updateMaxP_H new_ave now d3 else d3)
      in (new_ave, d4))"

definition rd_estimator_P :: "int \<Rightarrow> int \<Rightarrow> real \<Rightarrow> real \<Rightarrow> real \<Rightarrow> red \<Rightarrow> real \<times> red" where
  "rd_estimator_P nqueued m ave q_w now d =
     (let new_ave = rd_new_ave nqueued m ave q_w in (new_ave, rd_updateMaxPYZR new_ave now d))"

definition rd_estimator_F :: "int \<Rightarrow> real \<Rightarrow> real \<Rightarrow> real \<Rightarrow> red \<Rightarrow> real \<times> red" where
  "rd_estimator_F nqueued ave q_w now d0 =
     (let (level, d) = rd_getLevel d0;
          Atn1 = real_of_int (rd_pktcnt_pers_F d) * (level_scale ! nat (level - 1)) / real_of_int level;
          Qtn1 = max (real_of_int nqueued + Atn1 - rd_Ctn1 d * 0.1) 0;
          avgt1 = (1 - q_w) * ave + q_w * real_of_int nqueued;
          avgtn1 = (1 - q_w) * avgt1 + q_w * Qtn1
      in (avgt1, rd_updateMaxPYZR avgtn1 now (d\<lparr>rd_avgtn1 := avgtn1\<rparr>)))"

text \<open>The obsolete estimator, with \<open>RED_EWMA\<close> defined.\<close>

definition rd_run_estimator :: "int \<Rightarrow> int \<Rightarrow> red \<Rightarrow> red" where
  "rd_run_estimator nqueued m d =
     upd_edv (\<lambda>v. v\<lparr>v_ave := decay_loop m (v_ave v) (ed_q_w (rd_edp d)) * (1 - ed_q_w (rd_edp d)) +
       ed_q_w (rd_edp d) * real_of_int nqueued\<rparr>) d"

section \<open>The drop probability\<close>

definition rd_calculate_p_new ::
  "real \<Rightarrow> real \<Rightarrow> bool \<Rightarrow> real \<Rightarrow> real \<Rightarrow> real \<Rightarrow> real \<Rightarrow> real \<Rightarrow> real" where
  "rd_calculate_p_new ave th_max gentle a b c d max_p =
     (let p = (if gentle \<and> ave \<ge> th_max then c * ave + d
               else if \<not> gentle \<and> ave \<ge> th_max then 1
               else (a * ave + b) * max_p)
      in if p > 1 then 1 else p)"

definition rd_calculate_p ::
  "real \<Rightarrow> real \<Rightarrow> bool \<Rightarrow> real \<Rightarrow> real \<Rightarrow> real \<Rightarrow> real \<Rightarrow> real \<Rightarrow> real" where
  "rd_calculate_p ave th_max gentle a b c d max_p_inv =
     rd_calculate_p_new ave th_max gentle a b c d (1 / max_p_inv)"

text \<open>
  \<open>rd_modified\<close> is the value that \<open>modify_p\<close> returns. Counting bytes, \<open>modify_p\<close> divides
  two integers, \<open>count_bytes / mean_pktsize\<close>, and the program is stopped when
  \<open>mean_pktsize\<close> is 0.
\<close>

definition rd_modified ::
  "real \<Rightarrow> int \<Rightarrow> int \<Rightarrow> bool \<Rightarrow> int \<Rightarrow> bool \<Rightarrow> int \<Rightarrow> real" where
  "rd_modified p0 cnt cnt_bytes bytes mean_pktsize wait sz =
     (let count1 = real_of_int (if bytes then c_div cnt_bytes mean_pktsize else cnt);
          p1 = (if wait then
                  (if count1 * p0 < 1 then 0
                   else if count1 * p0 < 2 then p0 / (2 - count1 * p0)
                   else 1)
                else if count1 * p0 < 1 then p0 / (1 - count1 * p0)
                else 1);
          p2 = (if bytes \<and> p1 < 1 then (p1 * real_of_int sz) / real_of_int mean_pktsize else p1)
      in if p2 > 1 then 1 else p2)"

definition rd_modify_p ::
  "real \<Rightarrow> int \<Rightarrow> int \<Rightarrow> bool \<Rightarrow> int \<Rightarrow> bool \<Rightarrow> int \<Rightarrow> real res" where
  "rd_modify_p p0 cnt cnt_bytes bytes mean_pktsize wait sz =
     (if bytes \<and> mean_pktsize = 0 then Fail Div_By_Zero
      else Ok (rd_modified p0 cnt cnt_bytes bytes mean_pktsize wait sz))"

definition rd_uniform :: "red \<Rightarrow> real \<times> red" where
  "rd_uniform d = (rd_unif d (rd_draw d), d\<lparr>rd_draw := Suc (rd_draw d)\<rparr>)"

definition rd_integer :: "nat \<Rightarrow> red \<Rightarrow> int \<times> red" where
  "rd_integer k d = (int (rd_pint d (rd_draw d) mod k), d\<lparr>rd_draw := Suc (rd_draw d)\<rparr>)"

text \<open>The queue size that the average would have decayed to within 50 ms.\<close>

definition rd_decayed_ave :: "red \<Rightarrow> real" where
  "rd_decayed_ave d =
     c_pow (1 - ed_q_w (rd_edp d)) (ed_ptc (rd_edp d) * 0.05) * v_ave (rd_edv d)"

text \<open>
  \<open>drop_early\<close> returns whether to drop, and the packet, on which it may set \<open>ce\<close>.
  Where \<open>decayed\<close> is 0 the ratio of the code is infinite.
\<close>

definition rd_drop_early :: "packet \<Rightarrow> red \<Rightarrow> (bool \<times> packet \<times> red) res" where
  "rd_drop_early p d0 =
     (let e = rd_edp d0; v = rd_edv d0;
          prob1 = rd_calculate_p_new (v_ave v) (ed_th_max e) (ed_gentle e) (v_a v) (v_b v) (v_c v) (v_d v)
                    (v_cur_max_p v)
      in res_bind (rd_modify_p prob1 (v_count v) (v_count_bytes v) (ed_bytes e) (ed_mean_pktsize e)
                     (ed_wait e) (pk_size p)) (\<lambda>prob.
           let d1 = d0\<lparr>rd_edv := v\<lparr>v_prob1 := prob1, v_prob := prob\<rparr>\<rparr>;
               decayed = rd_decayed_ave d1
           in if ed_cautious e = 1 \<and> real_of_int (rd_qsize d1) < decayed then Ok (False, p, d1)
              else
                (let (u0, d2) = rd_uniform d1;
                     ratio = real_of_int (rd_qsize d2) / decayed;
                     u = (if ed_cautious e = 2 \<and> decayed \<noteq> 0 \<and> ratio < 1 then u0 * (1 / ratio) else u0)
                 in if u \<le> prob then
                      (let d3 = upd_edv (\<lambda>v. v\<lparr>v_count := 0, v_count_bytes := 0\<rparr>) d2
                       in if ed_setbit e \<and> pk_ect p \<and> (\<not> ed_use_mark_p e \<or> prob1 < ed_mark_p e)
                          then Ok (False, p\<lparr>pk_ce := True\<rparr>, d3) else Ok (True, p, d3))
                    else Ok (False, p, d2))))"

text \<open>With equal thresholds the quotient of the code is not a number and \<open>u <= pb\<close> is false.\<close>

definition rd_drop_early_F :: "red \<Rightarrow> bool \<times> red" where
  "rd_drop_early_F d =
     (let (u, d1) = rd_uniform d; e = rd_edp d1;
          pb = v_cur_max_p (rd_edv d1) * (rd_avgtn1 d1 - ed_th_min e) / (ed_th_max e - ed_th_min e)
      in (ed_th_max e \<noteq> ed_th_min e \<and> u \<le> pb, d1))"

section \<open>Receiving and sending packets\<close>

text \<open>\<open>PacketQueue::lookup\<close> and \<open>PacketQueue::remove\<close> on the list of packets.\<close>

definition fifo_lookup :: "int \<Rightarrow> packet list \<Rightarrow> packet option" where
  "fifo_lookup n xs = (if nat n < length xs then Some (xs ! nat n) else None)"

fun fifo_remove :: "nat \<Rightarrow> packet list \<Rightarrow> packet list res" where
  "fifo_remove a [] = Fail Abort"
| "fifo_remove a (x # xs) =
     (if pk_addr x = a then Ok xs else res_bind (fifo_remove a xs) (\<lambda>ys. Ok (x # ys)))"

definition rd_pickPacketToDrop :: "red \<Rightarrow> packet option \<times> red" where
  "rd_pickPacketToDrop d =
     (let n = list_len (rd_q d);
          (victim, d1) = (if rd_drop_front d then (min 1 (n - 1), d)
                          else if rd_drop_rand d then rd_integer (length (rd_q d)) d
                          else (n - 1, d))
      in (fifo_lookup victim (rd_q d1), d1))"

definition rd_deque :: "red deq_fun" where
  "rd_deque now d0 =
     (let d1 = (if rd_summarystats d0 then q_updateStats now (rd_qsize d0) d0 else d0) in
      case fifo_deque (rd_q d1) of
        (Some p, q) \<Rightarrow>
          let d2 = d1\<lparr>rd_q := q, rd_idle := False\<rparr> in
          Ok (Some p,
            if pk_ptype p = 28
            then d2\<lparr>rd_pktcnt_pers_tp := rd_pktcnt_pers_tp d2 + 1,
                    rd_tp_cnt_pers := rd_tp_cnt_pers d2 + pk_size p,
                    rd_pktcnt_pers_td := rd_pktcnt_pers_td d2 + 1,
                    rd_timeDelay_pers := rd_timeDelay_pers d2 + (now - pk_timestamp p)\<rparr>
            else d2)
      | (None, q) \<Rightarrow> Ok (None, d1\<lparr>rd_q := q, rd_idle := True, rd_idletime := now\<rparr>))"

text \<open>The counters of the repository: data packets have type 28, acks type 5.\<close>

definition rd_count_arrival :: "real \<Rightarrow> packet \<Rightarrow> red \<Rightarrow> red" where
  "rd_count_arrival now p d =
     (if pk_ptype p = 28 then
        d\<lparr>rd_pktcnt_pers_lp := rd_pktcnt_pers_lp d + 1, rd_pktcnt_pers := rd_pktcnt_pers d + 1,
          rd_pktcnt_pers_level := rd_pktcnt_pers_level d + 1,
          rd_pktcnt_pers_maxp := rd_pktcnt_pers_maxp d + 1, rd_pktcnt_pers_F := rd_pktcnt_pers_F d + 1,
          rd_test_itv := (if rd_tin d \<noteq> -1 then rd_test_itv d @ [now - rd_tin d] else rd_test_itv d),
          rd_tin := now\<rparr>
      else d)"

definition rd_idle_packets :: "real \<Rightarrow> red \<Rightarrow> int \<times> red" where
  "rd_idle_packets now d =
     (if rd_idle d then
        (let e = rd_edp d;
             ptc = (if ed_cautious e = 3
                    then ed_ptc e * real_of_int (ed_mean_pktsize e) / real_of_int (ed_idle_pktsize e)
                    else ed_ptc e)
         in (trunc (ptc * (now - rd_idletime d)), d\<lparr>rd_idle := False\<rparr>))
      else (0, d))"

definition rd_average :: "real \<Rightarrow> int \<Rightarrow> red \<Rightarrow> red" where
  "rd_average now m d =
     (if rd_fared d = 1 then
        (if now > v_lastset (rd_edv d) + rd_pertime d then
           (let (a, d1) = rd_estimator_F (rd_qsize d) (v_ave (rd_edv d)) 0.045 now d
            in upd_edv (\<lambda>v. v\<lparr>v_ave := a\<rparr>) d1)
         else d)
      else
        (let (a, d1) = rd_estimator (rd_qsize d) (m + 1) (v_ave (rd_edv d)) (ed_q_w (rd_edp d)) now d
         in upd_edv (\<lambda>v. v\<lparr>v_ave := a\<rparr>) d1))"

datatype droptype = DTYPE_NONE | DTYPE_FORCED | DTYPE_UNFORCED

definition rd_early_type :: "packet \<Rightarrow> red \<Rightarrow> (droptype \<times> packet \<times> red) res" where
  "rd_early_type p d =
     (let e = rd_edp d; qavg = v_ave (rd_edv d) in
      if qavg \<ge> ed_th_min e \<and> rd_qsize d > 1 then
        (if \<not> ed_use_mark_p e \<and>
            ((\<not> ed_gentle e \<and> qavg \<ge> ed_th_max e) \<or> (ed_gentle e \<and> qavg \<ge> 2 * ed_th_max e))
         then Ok (DTYPE_FORCED, p, d)
         else if \<not> v_old (rd_edv d) then
           Ok (DTYPE_NONE, p, upd_edv (\<lambda>v. v\<lparr>v_count := 1, v_count_bytes := pk_size p, v_old := True\<rparr>) d)
         else res_bind (rd_drop_early p d) (\<lambda>(dropped, p', d').
                Ok (if dropped then DTYPE_UNFORCED else DTYPE_NONE, p', d')))
      else Ok (DTYPE_NONE, p, upd_edv (\<lambda>v. v\<lparr>v_prob := 0, v_old := False\<rparr>) d))"

definition rd_fared_type :: "droptype \<Rightarrow> red \<Rightarrow> droptype \<times> red" where
  "rd_fared_type t d =
     (if rd_fared d = 1 then
        (if rd_avgtn1 d < ed_th_min (rd_edp d) then (DTYPE_NONE, d)
         else if rd_avgtn1 d > ed_th_max (rd_edp d) then (DTYPE_FORCED, d)
         else (let (dropped, d') = rd_drop_early_F d in (if dropped then DTYPE_FORCED else DTYPE_NONE, d')))
      else (t, d))"

definition rd_qlimit :: "red \<Rightarrow> int" where
  "rd_qlimit d = (if rd_qib d then wrap_s32 (qb_qlim d * ed_mean_pktsize (rd_edp d)) else qb_qlim d)"

definition rd_forced_drop :: "red \<Rightarrow> (red \<times> packet list) res" where
  "rd_forced_drop d0 =
     (let (r, d) = rd_pickPacketToDrop d0 in
      case r of
        None \<Rightarrow> Fail Null_Deref
      | Some x \<Rightarrow> res_bind (fifo_remove (pk_addr x) (rd_q d)) (\<lambda>q.
          let d1 = d\<lparr>rd_q := q, rd_drop_cnt_pers := rd_drop_cnt_pers d + (if pk_ptype x \<noteq> 5 then 1 else 0)\<rparr>;
              d2 = (if rd_ns1_compat d1 then d1
                    else upd_edv (\<lambda>v. v\<lparr>v_count := 0, v_count_bytes := 0\<rparr>) d1)
          in Ok (d2, [x])))"

text \<open>The last part of \<open>enque\<close>: queue or drop the packet according to the drop type.\<close>

definition rd_admit :: "droptype \<Rightarrow> packet \<Rightarrow> red \<Rightarrow> (red \<times> packet list) res" where
  "rd_admit t p d =
     (case t of
        DTYPE_UNFORCED \<Rightarrow>
          Ok (if rd_de_drop d \<or> pk_ptype p = 5 then d
              else d\<lparr>rd_drop_cnt_pers := rd_drop_cnt_pers d + 1\<rparr>, [p])
      | DTYPE_NONE \<Rightarrow> Ok (d\<lparr>rd_q := rd_q d @ [p]\<rparr>, [])
      | DTYPE_FORCED \<Rightarrow> rd_forced_drop (d\<lparr>rd_q := rd_q d @ [p]\<rparr>))"

definition rd_enque :: "red enq_fun" where
  "rd_enque now p d0 =
     (let d1 = rd_count_arrival now p d0;
          (m, d2) = rd_idle_packets now d1;
          d3 = rd_average now m d2;
          d4 = (if rd_summarystats d3 then q_updateStats now (rd_qsize d3) d3 else d3);
          d5 = upd_edv (\<lambda>v. v\<lparr>v_count := v_count v + 1, v_count_bytes := v_count_bytes v + pk_size p\<rparr>) d4;
          qlen = rd_qsize d5
      in res_bind (rd_early_type p (d5\<lparr>rd_curq := qlen\<rparr>)) (\<lambda>(t1, p1, d6).
           let (t2, d7) = rd_fared_type t1 d6
           in rd_admit (if qlen \<ge> rd_qlimit d7 then DTYPE_FORCED else t2) p1 d7))"

definition rd_reset :: "real \<Rightarrow> red \<Rightarrow> (packet list \<times> red) res option" where
  "rd_reset now d0 =
     (let d1 = (case rd_link d0 of
                  None \<Rightarrow> d0
                | Some (bw, _) \<Rightarrow> rd_initialize_params bw
                    (upd_edp (\<lambda>e. e\<lparr>ed_ptc := bw / (8 * real_of_int (ed_mean_pktsize e))\<rparr>) d0));
          e0 = rd_edp d1;
          e1 = (if ed_th_max_pkts e0 = 0 then e0\<lparr>ed_th_max_pkts := 3 * ed_th_min_pkts e0\<rparr> else e0);
          s = (if rd_qib d1 then real_of_int (ed_mean_pktsize e1) else 1);
          e2 = e1\<lparr>ed_th_min := ed_th_min_pkts e1 * s, ed_th_max := ed_th_max_pkts e1 * s\<rparr>;
          diff = ed_th_max e2 - ed_th_min e2;
          th_diff = (if diff = 0 then 1 else diff);
          v = (rd_edv d1)\<lparr>v_ave := 0, v_slope := 0, v_count := 0, v_count_bytes := 0, v_old := False,
                 v_a := 1 / th_diff, v_cur_max_p := 1 / ed_max_p_inv e2, v_b := - ed_th_min e2 / th_diff,
                 v_lastset := 0\<rparr>;
          v' = (if ed_gentle e2 then v\<lparr>v_c := (1 - v_cur_max_p v) / ed_th_max e2, v_d := 2 * v_cur_max_p v - 1\<rparr>
                else v)
      in q_reset rd_deque now (d1\<lparr>rd_edp := e2, rd_edv := v', rd_idle := True, rd_idletime := now\<rparr>))"

section \<open>The statistics files\<close>

text \<open>
  Every statistic goes to two files, the first with times and the second without. Only for
  the delay do they differ otherwise: the first is in milliseconds, the second in seconds.
\<close>

definition rd_putArrival :: "real \<Rightarrow> red \<Rightarrow> red" where
  "rd_putArrival now d = d\<lparr>rd_fperpkt := rd_fperpkt d @ [(now, rd_pktcnt_pers d)], rd_pktcnt_pers := 0\<rparr>"

definition rd_putDroprate :: "real \<Rightarrow> red \<Rightarrow> red" where
  "rd_putDroprate now d =
     (let x = (if rd_pktcnt_pers_lp d \<noteq> 0
               then real_of_int (rd_drop_cnt_pers d) / real_of_int (rd_pktcnt_pers_lp d) else 0)
      in d\<lparr>rd_flosspkt := rd_flosspkt d @ [(now, x)], rd_drop_cnt_pers := 0, rd_pktcnt_pers_lp := 0\<rparr>)"

definition rd_putThroughput_bit :: "real \<Rightarrow> red \<Rightarrow> red" where
  "rd_putThroughput_bit now d =
     (let x = (if rd_pktcnt_pers_tp d \<noteq> 0 then real_of_int (rd_tp_cnt_pers d) / rd_pertime d else 0)
      in d\<lparr>rd_fthroughput := rd_fthroughput d @ [(now, x)], rd_tp_cnt_pers := 0, rd_pktcnt_pers_tp := 0\<rparr>)"

definition rd_putTimedelay :: "real \<Rightarrow> red \<Rightarrow> red" where
  "rd_putTimedelay now d =
     (let x = (if rd_pktcnt_pers_td d \<noteq> 0
               then rd_timeDelay_pers d / real_of_int (rd_pktcnt_pers_td d) else 0)
      in d\<lparr>rd_ftimedelay := rd_ftimedelay d @ [(now, x * 1000)], rd_ftimedelay2 := rd_ftimedelay2 d @ [x],
            rd_timeDelay_pers := 0, rd_pktcnt_pers_td := 0\<rparr>)"

text \<open>The command \<open>over\<close> at the end of a measuring interval.\<close>

definition rd_over :: "real \<Rightarrow> red \<Rightarrow> red" where
  "rd_over now d = rd_putArrival now (rd_putThroughput_bit now (rd_putDroprate now d))"

end
