(* ===== verification/Red_Correct.thy ===== *)
theory Red_Correct
  imports Red
begin

text \<open>
  Correctness of \<open>REDQueue\<close>: it keeps the contract of a queueing discipline as long as it
  does not divide by a \<open>mean_pktsize_\<close> of 0, and the queue stays within its limit.
\<close>

section \<open>The parts of the state that the drop decision does not change\<close>

definition rd_frame :: "red \<Rightarrow> packet list \<times> bool \<times> bool \<times> int \<times> bool \<times> int \<times> bool \<times> bool \<times> int" where
  "rd_frame d = (rd_q d, qb_blocked d, qb_unblock_on_resume d, qb_qlim d, rd_qib d,
     ed_mean_pktsize (rd_edp d), ed_bytes (rd_edp d), rd_de_drop d, rd_fared d)"

lemma rd_frame_stats [simp]: "rd_frame (q_updateStats now n d) = rd_frame d"
  by (simp add: rd_frame_def q_updateStats_def Let_def)

lemma rd_frame_count [simp]: "rd_frame (rd_count_arrival now p d) = rd_frame d"
  by (simp add: rd_frame_def rd_count_arrival_def)

lemma rd_frame_idle [simp]: "rd_frame (snd (rd_idle_packets now d)) = rd_frame d"
  by (simp add: rd_frame_def rd_idle_packets_def Let_def)

lemma rd_frame_level [simp]: "rd_frame (snd (rd_getLevel d)) = rd_frame d"
  by (simp add: rd_frame_def rd_getLevel_def)

lemma rd_frame_Feng [simp]: "rd_frame (rd_updateMaxPFeng a d) = rd_frame d"
  by (simp add: rd_frame_def rd_updateMaxPFeng_def Let_def)

lemma rd_frame_MaxP [simp]: "rd_frame (rd_updateMaxP a now d) = rd_frame d"
  by (simp add: rd_frame_def rd_updateMaxP_def Let_def)

lemma rd_frame_YZR [simp]: "rd_frame (rd_updateMaxPYZR a now d) = rd_frame d"
  by (simp add: rd_frame_def rd_updateMaxPYZR_def rd_getLevel_def Let_def)

lemma rd_frame_H [simp]: "rd_frame (rd_updateMaxP_H a now d) = rd_frame d"
  by (simp add: rd_frame_def rd_updateMaxP_H_def Let_def)

lemma rd_frame_estimator [simp]: "rd_frame (snd (rd_estimator n m a w now d)) = rd_frame d"
  by (simp add: rd_estimator_def Let_def)

lemma rd_frame_avgtn1 [simp]: "rd_frame (d\<lparr>rd_avgtn1 := x\<rparr>) = rd_frame d"
  by (simp add: rd_frame_def)

lemma rd_frame_edv [simp]: "rd_frame (d\<lparr>rd_edv := v\<rparr>) = rd_frame d"
  by (simp add: rd_frame_def)

lemma rd_frame_curq [simp]: "rd_frame (d\<lparr>rd_curq := x\<rparr>) = rd_frame d"
  by (simp add: rd_frame_def)

lemma rd_frame_estimator_F [simp]: "rd_frame (snd (rd_estimator_F n a w now d)) = rd_frame d"
  by (simp add: rd_estimator_F_def rd_getLevel_def Let_def) (simp add: rd_frame_def)

lemma rd_frame_average [simp]: "rd_frame (rd_average now m d) = rd_frame d"
  by (simp add: rd_average_def Let_def prod.case_eq_if)

lemma rd_frame_uniform [simp]: "rd_frame (snd (rd_uniform d)) = rd_frame d"
  by (simp add: rd_frame_def rd_uniform_def)

text \<open>The division of \<open>modify_p\<close> is defined.\<close>

definition rd_divides :: "red \<Rightarrow> bool" where
  "rd_divides d \<longleftrightarrow> (ed_bytes (rd_edp d) \<longrightarrow> ed_mean_pktsize (rd_edp d) \<noteq> 0)"

lemma rd_divides_frame: "rd_frame d = rd_frame d' \<Longrightarrow> rd_divides d = rd_divides d'"
  by (simp add: rd_frame_def rd_divides_def)

lemma rd_divides_q: "rd_frame (d'\<lparr>rd_q := q\<rparr>) = rd_frame d \<Longrightarrow> rd_divides d' = rd_divides d"
  by (simp add: rd_frame_def rd_divides_def)

lemma rd_drop_early_ok:
  assumes "rd_divides d"
  obtains b p' d' where "rd_drop_early p d = Ok (b, p', d')" "rd_frame d' = rd_frame d" "pk_addr p' = pk_addr p"
proof -
  obtain pr where "rd_modify_p (rd_calculate_p_new (v_ave (rd_edv d)) (ed_th_max (rd_edp d)) (ed_gentle (rd_edp d))
      (v_a (rd_edv d)) (v_b (rd_edv d)) (v_c (rd_edv d)) (v_d (rd_edv d)) (v_cur_max_p (rd_edv d)))
      (v_count (rd_edv d)) (v_count_bytes (rd_edv d)) (ed_bytes (rd_edp d)) (ed_mean_pktsize (rd_edp d))
      (ed_wait (rd_edp d)) (pk_size p) = Ok pr"
    using assms by (auto simp: rd_modify_p_def rd_divides_def)
  then have "\<exists>x. rd_drop_early p d = Ok x \<and> rd_frame (snd (snd x)) = rd_frame d \<and> pk_addr (fst (snd x)) = pk_addr p"
    by (simp add: rd_drop_early_def Let_def prod.case_eq_if del: split_paired_Ex)
  with that show ?thesis by (metis prod.collapse)
qed

lemma rd_early_type_ok:
  assumes "rd_divides d"
  obtains t p' d' where "rd_early_type p d = Ok (t, p', d')" "rd_frame d' = rd_frame d" "pk_addr p' = pk_addr p"
proof -
  obtain b p' d' where "rd_drop_early p d = Ok (b, p', d')" "rd_frame d' = rd_frame d" "pk_addr p' = pk_addr p"
    using rd_drop_early_ok [OF assms] .
  then have "\<exists>t p' d'. rd_early_type p d = Ok (t, p', d') \<and> rd_frame d' = rd_frame d \<and> pk_addr p' = pk_addr p"
    by (simp add: rd_early_type_def Let_def)
  with that show ?thesis by blast
qed

lemma rd_fared_type_frame [simp]: "rd_frame (snd (rd_fared_type t d)) = rd_frame d"
  by (simp add: rd_fared_type_def rd_drop_early_F_def Let_def prod.case_eq_if)

lemma rd_qsize_frame: "rd_frame d = rd_frame d' \<Longrightarrow> rd_qsize d = rd_qsize d'"
  by (simp add: rd_frame_def)

lemma rd_qlimit_frame: "rd_frame d = rd_frame d' \<Longrightarrow> rd_qlimit d = rd_qlimit d'"
  by (simp add: rd_frame_def rd_qlimit_def)

section \<open>The contract of a queueing discipline\<close>

abbreviation distinct_packets :: "packet list \<Rightarrow> bool" where
  "distinct_packets xs \<equiv> distinct (map pk_addr xs)"

lemma fifo_remove_present:
  "distinct_packets xs \<Longrightarrow> x \<in> set xs \<Longrightarrow> fifo_remove (pk_addr x) xs = Ok (remove1 x xs)"
  by (induction xs) auto

lemma distinct_packets_remove1: "distinct_packets xs \<Longrightarrow> distinct_packets (remove1 x xs)"
  by (metis distinct_map distinct_remove1 inj_on_subset set_remove1_subset)

lemma addrs_remove1: "x \<in> set xs \<Longrightarrow> addrs xs = add_mset (pk_addr x) (addrs (remove1 x xs))"
  by (induction xs) auto

lemma subseq_remove1: "subseq (remove1 x xs) xs"
  by (induction xs) auto

lemma fifo_lookup_in:
  "xs \<noteq> [] \<Longrightarrow> n < list_len xs \<Longrightarrow> \<exists>x. fifo_lookup n xs = Some x \<and> x \<in> set xs"
  by (cases "nat n < length xs") (auto simp: fifo_lookup_def)

lemma rd_pick_in_queue:
  assumes "rd_q d \<noteq> []"
  shows "\<exists>x d'. rd_pickPacketToDrop d = (Some x, d') \<and> x \<in> set (rd_q d) \<and> rd_frame d' = rd_frame d"
proof -
  let ?n = "list_len (rd_q d)"
  have n: "0 < ?n" using assms by simp
  consider (front) "rd_drop_front d" | (rand) "\<not> rd_drop_front d" "rd_drop_rand d"
    | (tail) "\<not> rd_drop_front d" "\<not> rd_drop_rand d" by blast
  then show ?thesis
  proof cases
    case front
    have "min 1 (?n - 1) < ?n" using n by simp
    from fifo_lookup_in [OF assms this] front show ?thesis by (auto simp: rd_pickPacketToDrop_def)
  next
    case rand
    let ?r = "int (rd_pint d (rd_draw d) mod length (rd_q d))"
    have "?r < ?n" using assms by (simp del: of_nat_mod)
    from fifo_lookup_in [OF assms this] rand show ?thesis
      by (auto simp: rd_pickPacketToDrop_def rd_integer_def rd_frame_def simp del: of_nat_mod)
  next
    case tail
    from fifo_lookup_in [OF assms, of "?n - 1"] tail show ?thesis by (auto simp: rd_pickPacketToDrop_def)
  qed
qed

lemma rd_forced_drop_ok:
  assumes "rd_q d \<noteq> []" "distinct_packets (rd_q d)"
  shows "\<exists>x d'. rd_forced_drop d = Ok (d', [x]) \<and> x \<in> set (rd_q d) \<and> rd_q d' = remove1 x (rd_q d) \<and>
    rd_frame (d'\<lparr>rd_q := rd_q d\<rparr>) = rd_frame d"
proof -
  obtain x d1 where x: "rd_pickPacketToDrop d = (Some x, d1)" "x \<in> set (rd_q d)" "rd_frame d1 = rd_frame d"
    using rd_pick_in_queue [OF assms(1)] by blast
  then have "rd_q d1 = rd_q d" by (simp add: rd_frame_def)
  with x assms(2) show ?thesis
    by (auto simp: rd_forced_drop_def fifo_remove_present rd_frame_def Let_def)
qed

text \<open>What \<open>enque\<close> does to the queue: append, append and drop one packet, or drop.\<close>

definition rd_decide :: "real \<Rightarrow> packet \<Rightarrow> red \<Rightarrow> (droptype \<times> packet \<times> red) res" where
  "rd_decide now p d0 =
     (let d1 = rd_count_arrival now p d0;
          (m, d2) = rd_idle_packets now d1;
          d3 = rd_average now m d2;
          d4 = (if rd_summarystats d3 then q_updateStats now (rd_qsize d3) d3 else d3);
          d5 = upd_edv (\<lambda>v. v\<lparr>v_count := v_count v + 1, v_count_bytes := v_count_bytes v + pk_size p\<rparr>) d4;
          qlen = rd_qsize d5
      in res_bind (rd_early_type p (d5\<lparr>rd_curq := qlen\<rparr>)) (\<lambda>(t1, p1, d6).
           let (t2, d7) = rd_fared_type t1 d6
           in Ok (if qlen \<ge> rd_qlimit d7 then DTYPE_FORCED else t2, p1, d7)))"

lemma rd_enque_decide:
  "rd_enque now p d = res_bind (rd_decide now p d) (\<lambda>(t, p', d'). rd_admit t p' d')"
proof -
  obtain m d2 where i: "rd_idle_packets now (rd_count_arrival now p d) = (m, d2)" by fastforce
  define d3 where "d3 = rd_average now m d2"
  define d4 where "d4 = (if rd_summarystats d3 then q_updateStats now (rd_qsize d3) d3 else d3)"
  define d5 where
    "d5 = upd_edv (\<lambda>v. v\<lparr>v_count := v_count v + 1, v_count_bytes := v_count_bytes v + pk_size p\<rparr>) d4"
  show ?thesis
    unfolding rd_enque_def rd_decide_def Let_def i prod.case d3_def [symmetric] d4_def [symmetric]
      d5_def [symmetric] res_bind_assoc
    by (rule arg_cong [where f = "res_bind _"]) (simp add: fun_eq_iff prod.case_eq_if split del: if_split)
qed

text \<open>The state in which the drop type is decided: the average and the counters are updated.\<close>

definition rd_arrived :: "real \<Rightarrow> packet \<Rightarrow> red \<Rightarrow> red" where
  "rd_arrived now p d0 =
     (let (m, d2) = rd_idle_packets now (rd_count_arrival now p d0);
          d3 = rd_average now m d2;
          d4 = (if rd_summarystats d3 then q_updateStats now (rd_qsize d3) d3 else d3);
          d5 = upd_edv (\<lambda>v. v\<lparr>v_count := v_count v + 1, v_count_bytes := v_count_bytes v + pk_size p\<rparr>) d4
      in d5\<lparr>rd_curq := rd_qsize d5\<rparr>)"

lemma rd_frame_arrived [simp]: "rd_frame (rd_arrived now p d) = rd_frame d"
  by (simp add: rd_arrived_def Let_def prod.case_eq_if)

lemma rd_decide_steps:
  assumes "rd_early_type p (rd_arrived now p d) = Ok (t1, p1, d6)" "rd_frame d6 = rd_frame d"
  shows "rd_decide now p d = Ok (if rd_qsize d \<ge> rd_qlimit d then DTYPE_FORCED else fst (rd_fared_type t1 d6), p1,
    snd (rd_fared_type t1 d6))"
proof -
  let ?d6 = "rd_arrived now p d" and ?f = "rd_fared_type t1 d6"
  have 7: "rd_frame (snd ?f) = rd_frame d" using assms(2) by simp
  have "rd_decide now p d =
      Ok (if rd_qsize ?d6 \<ge> rd_qlimit (snd ?f) then DTYPE_FORCED else fst ?f, p1, snd ?f)"
  proof -
    obtain m d2 where i: "rd_idle_packets now (rd_count_arrival now p d) = (m, d2)" by fastforce
    define d3 where "d3 = rd_average now m d2"
    define d4 where "d4 = (if rd_summarystats d3 then q_updateStats now (rd_qsize d3) d3 else d3)"
    define d5 where
      "d5 = upd_edv (\<lambda>v. v\<lparr>v_count := v_count v + 1, v_count_bytes := v_count_bytes v + pk_size p\<rparr>) d4"
    note ds = i d3_def [symmetric] d4_def [symmetric] d5_def [symmetric]
    have "rd_arrived now p d = d5\<lparr>rd_curq := rd_qsize d5\<rparr>"
      by (simp only: rd_arrived_def Let_def prod.case ds)
    moreover from this have "rd_qsize ?d6 = rd_qsize d5" by simp
    moreover have "rd_decide now p d = res_bind (rd_early_type p (d5\<lparr>rd_curq := rd_qsize d5\<rparr>)) (\<lambda>(t1, p1, d6).
        case rd_fared_type t1 d6 of (t2, d7) \<Rightarrow>
          Ok (if rd_qsize d5 \<ge> rd_qlimit d7 then DTYPE_FORCED else t2, p1, d7))"
      by (simp only: rd_decide_def Let_def prod.case ds)
    ultimately show ?thesis using assms(1) by (simp only: res_bind.simps prod.case_eq_if fst_conv snd_conv)
  qed
  then show ?thesis
    using rd_qsize_frame [of ?d6 d] rd_qlimit_frame [OF 7] by simp
qed

lemma rd_decide_ok:
  assumes "rd_divides d"
  obtains t p' d' where "rd_decide now p d = Ok (t, p', d')" "rd_frame d' = rd_frame d" "pk_addr p' = pk_addr p"
    "rd_qsize d \<ge> rd_qlimit d \<Longrightarrow> t = DTYPE_FORCED"
proof -
  have "rd_divides (rd_arrived now p d)" using assms rd_divides_frame [of "rd_arrived now p d" d] by simp
  then obtain t1 p1 d6 where e: "rd_early_type p (rd_arrived now p d) = Ok (t1, p1, d6)"
    "rd_frame d6 = rd_frame d" "pk_addr p1 = pk_addr p"
    by (rule rd_early_type_ok [of _ p]) simp
  show ?thesis by (rule that [OF rd_decide_steps [OF e(1,2)]]) (use e in simp_all)
qed

lemma rd_admit_ok:
  assumes "distinct_packets (rd_q d)" "pk_addr p \<notin> pk_addr ` set (rd_q d)"
  shows "\<exists>d' drops. rd_admit t p d = Ok (d', drops) \<and> distinct_packets (rd_q d') \<and>
    addrs (rd_q d') + addrs drops = add_mset (pk_addr p) (addrs (rd_q d)) \<and>
    rd_frame (d'\<lparr>rd_q := rd_q d\<rparr>) = rd_frame d \<and>
    (t = DTYPE_NONE \<longrightarrow> rd_q d' = rd_q d @ [p] \<and> drops = []) \<and>
    (t = DTYPE_UNFORCED \<longrightarrow> rd_q d' = rd_q d \<and> drops = [p]) \<and>
    (t = DTYPE_FORCED \<longrightarrow> (\<exists>x \<in> set (rd_q d @ [p]). drops = [x] \<and> rd_q d' = remove1 x (rd_q d @ [p])))"
proof (cases t)
  case DTYPE_FORCED
  let ?d = "d\<lparr>rd_q := rd_q d @ [p]\<rparr>"
  have "rd_q ?d \<noteq> []" and dist: "distinct_packets (rd_q ?d)" using assms by auto
  then obtain x d' where x: "rd_forced_drop ?d = Ok (d', [x])" "x \<in> set (rd_q ?d)"
    "rd_q d' = remove1 x (rd_q ?d)" "rd_frame (d'\<lparr>rd_q := rd_q ?d\<rparr>) = rd_frame ?d"
    using rd_forced_drop_ok by blast
  have "rd_frame (d'\<lparr>rd_q := rd_q d\<rparr>) = rd_frame d" using x(4) by (simp add: rd_frame_def)
  moreover have "addrs (rd_q d') + {#pk_addr x#} = addrs (rd_q ?d)"
    using addrs_remove1 [OF x(2)] x(3) by simp
  moreover have "distinct_packets (rd_q d')"
    using distinct_packets_remove1 [OF dist] x(3) by simp
  ultimately show ?thesis using DTYPE_FORCED x by (auto simp: rd_admit_def)
next
  case DTYPE_NONE
  with assms show ?thesis by (simp add: rd_admit_def rd_frame_def)
next
  case DTYPE_UNFORCED
  with assms show ?thesis by (simp add: rd_admit_def rd_frame_def)
qed

definition rd_inv :: "red \<Rightarrow> bool" where
  "rd_inv d \<longleftrightarrow> distinct_packets (rd_q d) \<and> rd_divides d"

lemma rd_enque_cases:
  assumes "rd_inv d" "pk_addr p \<notin> pk_addr ` set (rd_q d)"
  obtains t p' d1 d' drops where "rd_decide now p d = Ok (t, p', d1)" "rd_frame d1 = rd_frame d"
    "pk_addr p' = pk_addr p" "rd_admit t p' d1 = Ok (d', drops)" "rd_enque now p d = Ok (d', drops)"
    "rd_inv d'" "addrs (rd_q d') + addrs drops = add_mset (pk_addr p) (addrs (rd_q d))"
    "rd_frame (d'\<lparr>rd_q := rd_q d\<rparr>) = rd_frame d"
    "t = DTYPE_NONE \<Longrightarrow> rd_q d' = rd_q d @ [p']" "t = DTYPE_UNFORCED \<Longrightarrow> rd_q d' = rd_q d"
    "t = DTYPE_FORCED \<Longrightarrow> \<exists>x \<in> set (rd_q d @ [p']). rd_q d' = remove1 x (rd_q d @ [p'])"
    "rd_qsize d \<ge> rd_qlimit d \<Longrightarrow> t = DTYPE_FORCED"
proof -
  have "rd_divides d" using assms(1) by (simp add: rd_inv_def)
  then obtain t p' d1 where dec: "rd_decide now p d = Ok (t, p', d1)"
    and fr: "rd_frame d1 = rd_frame d" "pk_addr p' = pk_addr p" "rd_qsize d \<ge> rd_qlimit d \<Longrightarrow> t = DTYPE_FORCED"
    using rd_decide_ok [of d now p] by metis
  then have q: "rd_q d1 = rd_q d" by (simp add: rd_frame_def)
  have pre: "distinct_packets (rd_q d1)" "pk_addr p' \<notin> pk_addr ` set (rd_q d1)"
    using assms fr q by (simp_all add: rd_inv_def)
  from rd_admit_ok [OF pre, of t] obtain d' drops where
    "rd_admit t p' d1 = Ok (d', drops)" "distinct_packets (rd_q d')"
    "addrs (rd_q d') + addrs drops = add_mset (pk_addr p') (addrs (rd_q d1))"
    "rd_frame (d'\<lparr>rd_q := rd_q d1\<rparr>) = rd_frame d1"
    "t = DTYPE_NONE \<longrightarrow> rd_q d' = rd_q d1 @ [p'] \<and> drops = []"
    "t = DTYPE_UNFORCED \<longrightarrow> rd_q d' = rd_q d1 \<and> drops = [p']"
    "t = DTYPE_FORCED \<longrightarrow> (\<exists>x \<in> set (rd_q d1 @ [p']). drops = [x] \<and> rd_q d' = remove1 x (rd_q d1 @ [p']))"
    by blast
  with that [of t p' d1 d' drops] dec fr q assms(1) show ?thesis
    using rd_divides_q [of "rd_q d" d' d] by (auto simp: rd_enque_decide rd_inv_def)
qed

lemma rd_deque_cases:
  "rd_q d = [] \<Longrightarrow> \<exists>d'. rd_deque now d = Ok (None, d') \<and> rd_frame d' = rd_frame d \<and> rd_idle d'"
  "rd_q d = p # ps \<Longrightarrow> \<exists>d'. rd_deque now d = Ok (Some p, d') \<and> rd_q d' = ps \<and>
     rd_frame (d'\<lparr>rd_q := rd_q d\<rparr>) = rd_frame d \<and> \<not> rd_idle d'"
  by (auto simp: rd_deque_def rd_frame_def q_updateStats_def Let_def)

lemma rd_more: "qbase.more r = qbase.more q \<Longrightarrow> rd_q r = rd_q q \<and> rd_edp r = rd_edp q" for q :: red
  by (cases q, cases r, simp)

interpretation redq: fifo_discipline rd_enque rd_deque "\<lambda>_. True" rd_q rd_inv
proof unfold_locales
  show "enq_ok rd_q rd_inv p q (rd_enque now p q)"
    if "rd_inv q" "pk_addr p \<notin> pk_addr ` set (rd_q q)" for q p now
    using that
    by (rule rd_enque_cases [where now = now]) (simp add: enq_ok_def rd_frame_def)
  show "deq_ok rd_q rd_inv q (rd_deque now q)" if "rd_inv q" for q now
  proof (cases "rd_q q")
    case Nil
    with rd_deque_cases(1) [OF Nil, of now] that show ?thesis
      by (auto simp: deq_ok_def rd_inv_def rd_frame_def rd_divides_def)
  next
    case (Cons p ps)
    with rd_deque_cases(2) [OF Cons, of now] that show ?thesis
      by (auto simp: deq_ok_def rd_inv_def rd_frame_def rd_divides_def)
  qed
  show "qbase.more r = qbase.more q \<Longrightarrow> rd_q r = rd_q q" for r q :: red
    using rd_more [of r q] by simp
  show "rd_inv q \<Longrightarrow> qbase.more r = qbase.more q \<Longrightarrow> qb_qlim r = qb_qlim q \<Longrightarrow> rd_inv r" for r q :: red
    using rd_more [of r q] by (simp add: rd_inv_def rd_divides_def)
  show "subseq (map pk_addr (rd_q q')) (map pk_addr (rd_q q) @ [pk_addr p])"
    if "rd_inv q" "pk_addr p \<notin> pk_addr ` set (rd_q q)" "rd_enque now p q = Ok (q', drops)" for now p q q' drops
    using that(1,2)
  proof (rule rd_enque_cases [where now = now])
    fix t p' d1 d' ds
    assume a: "pk_addr p' = pk_addr p" "rd_enque now p q = Ok (d', ds)"
      "t = DTYPE_NONE \<Longrightarrow> rd_q d' = rd_q q @ [p']" "t = DTYPE_UNFORCED \<Longrightarrow> rd_q d' = rd_q q"
      "t = DTYPE_FORCED \<Longrightarrow> \<exists>x \<in> set (rd_q q @ [p']). rd_q d' = remove1 x (rd_q q @ [p'])"
    have "subseq (rd_q d') (rd_q q @ [p'])"
      using a(3-5) by (cases t) (auto simp: subseq_remove1)
    then have "subseq (map pk_addr (rd_q d')) (map pk_addr (rd_q q @ [p']))" by (rule subseq_map)
    with a that(3) show ?thesis by simp
  qed
  show "map pk_addr (rd_q q) = pk_addr p # map pk_addr (rd_q q')"
    if "rd_deque now q = Ok (Some p, q')" for now p q q'
    using that rd_deque_cases(1) [of q now] rd_deque_cases(2) [of q _ _ now] by (cases "rd_q q") fastforce+
qed

text \<open>The limit: counted in packets, the queue never holds more than \<open>limit_\<close>.\<close>

lemma rd_enque_limit:
  assumes "rd_inv d" "pk_addr p \<notin> pk_addr ` set (rd_q d)" "\<not> rd_qib d"
    and "list_len (rd_q d) \<le> max 0 (qb_qlim d)"
  shows "\<exists>d' drops. rd_enque now p d = Ok (d', drops) \<and> list_len (rd_q d') \<le> max 0 (qb_qlim d')"
  using assms(1,2)
proof (rule rd_enque_cases [where now = now])
  fix t p' d1 d' drops
  assume a: "rd_enque now p d = Ok (d', drops)" "rd_frame (d'\<lparr>rd_q := rd_q d\<rparr>) = rd_frame d"
    "t = DTYPE_NONE \<Longrightarrow> rd_q d' = rd_q d @ [p']" "t = DTYPE_UNFORCED \<Longrightarrow> rd_q d' = rd_q d"
    "t = DTYPE_FORCED \<Longrightarrow> \<exists>x \<in> set (rd_q d @ [p']). rd_q d' = remove1 x (rd_q d @ [p'])"
    "rd_qsize d \<ge> rd_qlimit d \<Longrightarrow> t = DTYPE_FORCED"
  have lm: "qb_qlim d' = qb_qlim d" using a(2) by (simp add: rd_frame_def)
  have "list_len (rd_q d') \<le> max 0 (qb_qlim d)"
  proof (cases t)
    case DTYPE_NONE
    with a(3,6) assms(3) show ?thesis by (fastforce simp: rd_qlimit_def)
  next
    case DTYPE_FORCED
    with a(5) obtain x where "x \<in> set (rd_q d @ [p'])" "rd_q d' = remove1 x (rd_q d @ [p'])" by blast
    then have "length (rd_q d') = length (rd_q d)" by (simp only: length_remove1 if_True) simp
    with assms(4) show ?thesis by simp
  qed (use a(4) assms(4) in simp)
  with a(1) lm show ?thesis by simp
qed

end
