(* ===== verification/Red_Probability.thy ===== *)
theory Red_Probability
  imports Red_Correct
begin

text \<open>
  The numbers of \<open>REDQueue\<close>: the average queue size, the drop probability, the spacing
  of early drops and the adaptation of \<open>max_p\<close>.
\<close>

section \<open>The average queue size is an exponentially weighted moving average\<close>

lemma decay_loop_closed: "decay_loop m x w = x * (1 - w) ^ nat (m - 1)"
proof (induction m x w rule: decay_loop.induct)
  case (1 m x w)
  show ?case
  proof (cases "m - 1 \<ge> 1")
    case True
    then have "nat (m - 1) = Suc (nat (m - 1 - 1))" by simp
    with True 1 show ?thesis by (subst decay_loop.simps) simp
  next
    case False
    then show ?thesis by (subst decay_loop.simps) simp
  qed
qed

lemma rd_new_ave_closed:
  "rd_new_ave n m ave w = ave * (1 - w) ^ nat (max 1 m) + w * real_of_int n"
proof -
  have "nat (max 1 m) = Suc (nat (m - 1))" by simp
  then show ?thesis by (simp add: rd_new_ave_def decay_loop_closed)
qed

lemma rd_new_ave_bounds:
  assumes w: "0 \<le> w" "w \<le> 1" and ave: "0 \<le> ave" "ave \<le> real_of_int b" and n: "0 \<le> n" "n \<le> b"
  shows "0 \<le> rd_new_ave n m ave w \<and> rd_new_ave n m ave w \<le> real_of_int b"
proof -
  let ?k = "nat (m - 1)"
  have k: "0 \<le> (1 - w) ^ ?k" "(1 - w) ^ ?k \<le> 1" using w by (simp_all add: power_le_one)
  have x: "0 \<le> ave * (1 - w) ^ ?k" "ave * (1 - w) ^ ?k \<le> real_of_int b"
    using k ave mult_left_le [of "(1 - w) ^ ?k" ave] by (simp, linarith)
  have "ave * (1 - w) ^ ?k * (1 - w) \<le> real_of_int b * (1 - w)"
    using x w by (intro mult_right_mono) simp_all
  moreover have "w * real_of_int n \<le> w * real_of_int b" using w n by (intro mult_left_mono) simp_all
  ultimately have "ave * (1 - w) ^ ?k * (1 - w) + w * real_of_int n \<le> real_of_int b"
    by (simp add: algebra_simps)
  with x w n show ?thesis by (simp add: rd_new_ave_def decay_loop_closed)
qed

section \<open>The drop probability before spacing\<close>

text \<open>
  \<open>reset\<close> computes the coefficients from the thresholds and from its value \<open>m0\<close> of
  \<open>max_p\<close>. The adaptive variants change \<open>max_p\<close> afterwards, and not the coefficients, so the
  current value is not tied to \<open>m0\<close>.
\<close>

definition rd_tuned :: "real \<Rightarrow> red \<Rightarrow> bool" where
  "rd_tuned m0 d \<longleftrightarrow> (let e = rd_edp d; v = rd_edv d in
     0 \<le> ed_th_min e \<and> ed_th_min e < ed_th_max e \<and> 0 < m0 \<and> m0 \<le> 1 \<and> 0 \<le> v_cur_max_p v \<and>
     v_a v = 1 / (ed_th_max e - ed_th_min e) \<and> v_b v = - ed_th_min e / (ed_th_max e - ed_th_min e) \<and>
     (ed_gentle e \<longrightarrow> v_c v = (1 - m0) / ed_th_max e \<and> v_d v = 2 * m0 - 1))"

definition rd_prob :: "red \<Rightarrow> real \<Rightarrow> real" where
  "rd_prob d ave = (let e = rd_edp d; v = rd_edv d in
     rd_calculate_p_new ave (ed_th_max e) (ed_gentle e) (v_a v) (v_b v) (v_c v) (v_d v) (v_cur_max_p v))"

abbreviation rd_max_p :: "red \<Rightarrow> real" where
  "rd_max_p d \<equiv> v_cur_max_p (rd_edv d)"

text \<open>
  The ramp from \<open>th_min\<close> to \<open>th_max\<close> climbs to the current \<open>max_p\<close>, the one from there to
  twice \<open>th_max\<close> (in gentle mode) begins at \<open>m0\<close>.
\<close>

definition red_ramp :: "red \<Rightarrow> real \<Rightarrow> real" where
  "red_ramp d ave = rd_max_p d * (ave - ed_th_min (rd_edp d)) / (ed_th_max (rd_edp d) - ed_th_min (rd_edp d))"

definition red_gentle :: "real \<Rightarrow> red \<Rightarrow> real \<Rightarrow> real" where
  "red_gentle m0 d ave = m0 + (1 - m0) * (ave - ed_th_max (rd_edp d)) / ed_th_max (rd_edp d)"

definition red_curve :: "real \<Rightarrow> red \<Rightarrow> real \<Rightarrow> real" where
  "red_curve m0 d ave =
     (if ave < ed_th_max (rd_edp d) then min 1 (red_ramp d ave)
      else if ed_gentle (rd_edp d) then min 1 (red_gentle m0 d ave)
      else 1)"

lemma rd_tunedD:
  assumes "rd_tuned m0 d"
  shows "0 \<le> ed_th_min (rd_edp d)" "ed_th_min (rd_edp d) < ed_th_max (rd_edp d)" "0 < ed_th_max (rd_edp d)"
    "0 < m0" "m0 \<le> 1" "0 \<le> rd_max_p d"
  using assms by (simp_all add: rd_tuned_def Let_def)

lemma rd_prob_curve:
  assumes "rd_tuned m0 d"
  shows "rd_prob d ave = red_curve m0 d ave"
proof -
  let ?lo = "ed_th_min (rd_edp d)" and ?hi = "ed_th_max (rd_edp d)"
  have "v_a (rd_edv d) * ave + v_b (rd_edv d) = (ave - ?lo) / (?hi - ?lo)"
    using assms by (simp add: rd_tuned_def Let_def diff_divide_distrib)
  then have "(v_a (rd_edv d) * ave + v_b (rd_edv d)) * rd_max_p d = red_ramp d ave"
    by (simp add: red_ramp_def)
  moreover have "v_c (rd_edv d) * ave + v_d (rd_edv d) = red_gentle m0 d ave" if "ed_gentle (rd_edp d)"
  proof -
    have "(1 - m0) / ?hi * ave + (2 * m0 - 1) = red_gentle m0 d ave"
      using rd_tunedD(3) [OF assms] by (simp add: red_gentle_def field_simps)
    with assms that show ?thesis by (simp add: rd_tuned_def Let_def)
  qed
  ultimately show ?thesis
    by (auto simp: rd_prob_def rd_calculate_p_new_def red_curve_def Let_def min_def)
qed

lemma red_ramp_mono: "rd_tuned m0 d \<Longrightarrow> x \<le> y \<Longrightarrow> red_ramp d x \<le> red_ramp d y"
  unfolding red_ramp_def using rd_tunedD [of m0 d] by (intro divide_right_mono mult_left_mono) simp_all

lemma red_ramp_nonneg: "rd_tuned m0 d \<Longrightarrow> ed_th_min (rd_edp d) \<le> x \<Longrightarrow> 0 \<le> red_ramp d x"
  unfolding red_ramp_def using rd_tunedD [of m0 d] by simp

lemma red_ramp_top: "rd_tuned m0 d \<Longrightarrow> red_ramp d (ed_th_max (rd_edp d)) = rd_max_p d"
  unfolding red_ramp_def using rd_tunedD [of m0 d] by simp

lemma red_gentle_mono: "rd_tuned m0 d \<Longrightarrow> x \<le> y \<Longrightarrow> red_gentle m0 d x \<le> red_gentle m0 d y"
  unfolding red_gentle_def using rd_tunedD [of m0 d]
  by (intro add_left_mono divide_right_mono mult_left_mono) simp_all

lemma red_gentle_bottom: "red_gentle m0 d (ed_th_max (rd_edp d)) = m0"
  by (simp add: red_gentle_def)

lemma red_curve_range:
  assumes "rd_tuned m0 d" "ed_th_min (rd_edp d) \<le> x"
  shows "0 \<le> red_curve m0 d x \<and> red_curve m0 d x \<le> 1"
proof -
  have "0 \<le> red_gentle m0 d x" if "ed_th_max (rd_edp d) \<le> x"
    using red_gentle_mono [OF assms(1) that] rd_tunedD(4) [OF assms(1)] by (simp add: red_gentle_bottom)
  with red_ramp_nonneg [OF assms] show ?thesis by (simp add: red_curve_def)
qed

text \<open>
  The curve never falls on either side of \<open>th_max\<close>; there it falls only in gentle mode and
  when \<open>max_p\<close> has been raised since \<open>reset\<close>.
\<close>

lemma red_curve_mono:
  assumes t: "rd_tuned m0 d" and le: "x \<le> y"
    and side: "y < ed_th_max (rd_edp d) \<or> ed_th_max (rd_edp d) \<le> x \<or> \<not> ed_gentle (rd_edp d) \<or> rd_max_p d \<le> m0"
  shows "red_curve m0 d x \<le> red_curve m0 d y"
proof -
  let ?hi = "ed_th_max (rd_edp d)"
  note r = red_ramp_mono [OF t] and g = red_gentle_mono [OF t]
  consider "y < ?hi" | "?hi \<le> x" | "x < ?hi" "?hi \<le> y" by linarith
  then show ?thesis
  proof cases
    case 1
    with le r [OF le] show ?thesis by (simp add: red_curve_def min_def)
  next
    case 2
    with le g [OF le] show ?thesis by (simp add: red_curve_def min_def)
  next
    case 3
    have "red_ramp d x \<le> rd_max_p d" using r [of x ?hi] 3 by (simp add: red_ramp_top [OF t])
    moreover have "m0 \<le> red_gentle m0 d y" using g [of ?hi y] 3 by (simp add: red_gentle_bottom)
    ultimately show ?thesis using 3 side by (auto simp: red_curve_def min_def)
  qed
qed

lemma red_curve_points:
  assumes "rd_tuned m0 d"
  shows "red_curve m0 d (ed_th_min (rd_edp d)) = 0"
    and "ed_gentle (rd_edp d) \<Longrightarrow> red_curve m0 d (ed_th_max (rd_edp d)) = m0"
    and "ed_gentle (rd_edp d) \<Longrightarrow> red_curve m0 d (2 * ed_th_max (rd_edp d)) = 1"
  using rd_tunedD [OF assms] by (simp_all add: red_curve_def red_ramp_def red_gentle_def)

text \<open>With a raised \<open>max_p\<close> some average below \<open>th_max\<close> has a higher drop probability than \<open>th_max\<close>.\<close>

lemma red_curve_jumps:
  assumes t: "rd_tuned m0 d" and "ed_gentle (rd_edp d)" "m0 < 1" "m0 < rd_max_p d"
  shows "\<exists>ave. ed_th_min (rd_edp d) \<le> ave \<and> ave < ed_th_max (rd_edp d) \<and>
    rd_prob d (ed_th_max (rd_edp d)) < rd_prob d ave"
proof -
  let ?lo = "ed_th_min (rd_edp d)" and ?hi = "ed_th_max (rd_edp d)" and ?m = "rd_max_p d"
  have pos: "0 < ?m" "?lo < ?hi" using assms(4) rd_tunedD [OF t] by simp_all
  define k where "k = (m0 + ?m) / (2 * ?m)"
  have k: "k < 1" "0 \<le> k" "?m * k = (m0 + ?m) / 2"
    using assms(4) pos rd_tunedD(4) [OF t] by (simp_all add: k_def)
  define w where "w = k * (?hi - ?lo)"
  have w: "w < ?hi - ?lo" "0 \<le> w"
    using k(1,2) pos mult_strict_right_mono [of k 1 "?hi - ?lo"] by (simp_all add: w_def)
  have "red_ramp d (?lo + w) = (m0 + ?m) / 2"
    using pos k(3) by (simp add: red_ramp_def w_def mult.assoc [symmetric])
  with w(1) have "red_curve m0 d ?hi < red_curve m0 d (?lo + w)"
    using assms(3,4) by (simp add: red_curve_def red_gentle_bottom assms(2) min_def)
  with w show ?thesis by (intro exI [of _ "?lo + w"]) (simp add: rd_prob_curve [OF t])
qed

section \<open>Early drops are uniformly spaced\<close>

lemma rd_modified_bounds:
  assumes "0 \<le> p" "p \<le> 1" "0 \<le> cnt" "0 \<le> sz" "0 < mps" "0 \<le> cb"
  shows "0 \<le> rd_modified p cnt cb bytes mps wait sz \<and> rd_modified p cnt cb bytes mps wait sz \<le> 1"
proof -
  let ?c = "real_of_int (if bytes then c_div cb mps else cnt)"
  let ?p1 = "if wait then (if ?c * p < 1 then 0 else if ?c * p < 2 then p / (2 - ?c * p) else 1)
    else if ?c * p < 1 then p / (1 - ?c * p) else 1"
  have "0 \<le> ?p1" using assms by simp
  then have "0 \<le> (?p1 * real_of_int sz) / real_of_int mps" using assms by simp
  with \<open>0 \<le> ?p1\<close> show ?thesis unfolding rd_modified_def Let_def by (simp del: c_div_nonneg)
qed

lemma spacing_product:
  fixes p c :: real
  assumes "k \<le> n" "\<And>i. k \<le> i \<Longrightarrow> i < n \<Longrightarrow> 0 < c - real i * p"
  shows "(\<Prod>i = k..<n. 1 - p / (c - real i * p)) * (c - real k * p) =
    c - real n * p"
  using assms
proof (induction n rule: dec_induct)
  case (step n)
  let ?P = "\<Prod>i = k..<n. 1 - p / (c - real i * p)" and ?x = "1 - p / (c - real n * p)"
  have "(\<Prod>i = k..<Suc n. 1 - p / (c - real i * p)) * (c - real k * p) = ?x * (?P * (c - real k * p))"
    using step.hyps by (simp add: prod.atLeastLessThan_Suc)
  also have "?P * (c - real k * p) = c - real n * p" using step by auto
  also have "?x * (c - real n * p) = c - real (Suc n) * p"
    using step.prems [of n] step.hyps by (simp add: field_simps)
  finally show ?case .
qed simp

text \<open>
  \<open>count\<close> is 1 for the first packet after a drop. Without waiting, the probability that
  the next drop hits the packet numbered \<open>n\<close> is the same for all \<open>n\<close> below \<open>1 / p\<close>; with
  waiting, no packet before \<open>1 / p\<close> is dropped, and it is the same for all \<open>n\<close> between
  \<open>1 / p\<close> and \<open>2 / p\<close>.
\<close>

definition drop_at :: "real \<Rightarrow> bool \<Rightarrow> nat \<Rightarrow> real" where
  "drop_at p wait n =
     (\<Prod>i = 1..<n. 1 - rd_modified p (int i) 0 False 1 wait 0) * rd_modified p (int n) 0 False 1 wait 0"

lemma modify_plain:
  "real n * p < 1 \<Longrightarrow> 0 \<le> p \<Longrightarrow> p / (1 - real n * p) \<le> 1 \<Longrightarrow>
   rd_modified p (int n) 0 False 1 False 0 = p / (1 - real n * p)"
  by (simp add: rd_modified_def)

lemma drop_at_uniform:
  assumes p: "0 < p" and n: "1 \<le> n" "real (n + 1) * p \<le> 1"
  shows "drop_at p False n = p / (1 - p)"
proof -
  have mp: "rd_modified p (int i) 0 False 1 False 0 = p / (1 - real i * p) \<and> 0 < 1 - real i * p"
    if "i \<le> n" for i
  proof -
    have "real (i + 1) * p \<le> real (n + 1) * p" using that p by (intro mult_right_mono) simp_all
    then have "real i * p + p \<le> 1" using n by (simp add: algebra_simps)
    moreover from this p have "real i * p < 1" by linarith
    ultimately show ?thesis using p by (simp add: rd_modified_def)
  qed
  have pos: "0 < 1 - p" using mp [of 1] n by simp
  have "(\<Prod>i = 1..<n. 1 - rd_modified p (int i) 0 False 1 False 0) = (\<Prod>i = 1..<n. 1 - p / (1 - real i * p))"
    using mp by (intro prod.cong) auto
  moreover have "(\<Prod>i = 1..<n. 1 - p / (1 - real i * p)) * (1 - real 1 * p) = 1 - real n * p"
    using spacing_product [of 1 n 1 p] n(1) mp by (cases "n = 1") auto
  ultimately have "(\<Prod>i = 1..<n. 1 - rd_modified p (int i) 0 False 1 False 0) = (1 - real n * p) / (1 - p)"
    using pos by (simp add: eq_divide_eq)
  then show ?thesis using mp [of n] by (simp add: drop_at_def)
qed

lemma drop_at_wait:
  assumes p: "0 < p" and k: "1 \<le> k" "real k * p \<ge> 1" "\<And>i. i < k \<Longrightarrow> real i * p < 1"
    and n: "k \<le> n" "real (n + 1) * p \<le> 2"
  shows "drop_at p True n = p / (2 - real k * p)"
proof -
  have mp: "rd_modified p (int i) 0 False 1 True 0 = p / (2 - real i * p) \<and> 0 < 2 - real i * p"
    if "k \<le> i" "i \<le> n" for i
  proof -
    have "real (i + 1) * p \<le> real (n + 1) * p" using that p by (intro mult_right_mono) simp_all
    then have "real i * p + p \<le> 2" using n by (simp add: algebra_simps)
    moreover from this p have "real i * p < 2" by linarith
    moreover have "1 \<le> real i * p" using k(2) that p mult_right_mono [of "real k" "real i" p] by linarith
    ultimately show ?thesis using p by (simp add: rd_modified_def)
  qed
  have none: "rd_modified p (int i) 0 False 1 True 0 = 0" if "i < k" for i
    using k(3) [OF that] by (simp add: rd_modified_def)
  have "(\<Prod>i = 1..<n. 1 - rd_modified p (int i) 0 False 1 True 0) =
      (\<Prod>i = k..<n. 1 - p / (2 - real i * p))"
  proof -
    have "{1..<n} = {1..<k} \<union> {k..<n}" "{1..<k} \<inter> {k..<n} = {}" using k n by auto
    then have "(\<Prod>i = 1..<n. 1 - rd_modified p (int i) 0 False 1 True 0) =
        (\<Prod>i = 1..<k. 1 - rd_modified p (int i) 0 False 1 True 0) *
        (\<Prod>i = k..<n. 1 - rd_modified p (int i) 0 False 1 True 0)"
      by (simp add: prod.union_disjoint)
    moreover have "(\<Prod>i = 1..<k. 1 - rd_modified p (int i) 0 False 1 True 0) = 1"
      using none by simp
    moreover have "(\<Prod>i = k..<n. 1 - rd_modified p (int i) 0 False 1 True 0) =
        (\<Prod>i = k..<n. 1 - p / (2 - real i * p))"
      using mp by (intro prod.cong) auto
    ultimately show ?thesis by simp
  qed
  moreover have "(\<Prod>i = k..<n. 1 - p / (2 - real i * p)) * (2 - real k * p) = 2 - real n * p"
    using spacing_product [of k n 2 p] n(1) mp by (cases "k = n") auto
  ultimately have "(\<Prod>i = 1..<n. 1 - rd_modified p (int i) 0 False 1 True 0) =
      (2 - real n * p) / (2 - real k * p)"
    using mp [of k] n(1) by (simp add: eq_divide_eq)
  then show ?thesis using mp [of n] n(1) by (simp add: drop_at_def)
qed

section \<open>The adaptation of \<open>max_p\<close>\<close>

lemma rd_updateMaxP_bounds:
  assumes e: "e = rd_edp d" "0 < ed_beta e" "ed_beta e \<le> 1" "0 \<le> ed_alpha e" "0 < ed_bottom e"
    "ed_bottom e \<le> ed_top e"
    and m: "ed_bottom e * ed_beta e \<le> rd_max_p d" "rd_max_p d \<le> 5 / 4 * ed_top e"
  shows "ed_bottom e * ed_beta e \<le> rd_max_p (rd_updateMaxP a now d) \<and>
    rd_max_p (rd_updateMaxP a now d) \<le> 5 / 4 * ed_top e"
proof -
  let ?m = "rd_max_p d" and ?m' = "rd_max_p (rd_updateMaxP a now d)"
  have pos: "0 < ?m" using e(2,5) m(1) mult_pos_pos [of "ed_bottom e" "ed_beta e"] by linarith
  let ?part = "0.4 * (ed_th_max e - ed_th_min e)"
  let ?x = "if ed_alpha e > 0.25 * ?m then 0.25 * ?m else ed_alpha e"
  have "?m' = (if a < ed_th_min e + ?part \<and> ?m > ed_bottom e then ?m * ed_beta e
      else if a > ed_th_max e - ?part \<and> ed_top e > ?m then ?m + ?x else ?m)"
    by (simp add: rd_updateMaxP_def Let_def e(1))
  moreover have "0 \<le> ?x" "?x \<le> ?m / 4" using pos e(4) by simp_all
  ultimately consider (down) "?m' = ?m * ed_beta e" "?m > ed_bottom e"
    | (up) x where "?m' = ?m + x" "0 \<le> x" "x \<le> ?m / 4" "?m < ed_top e" | (same) "?m' = ?m"
    by (metis (no_types, lifting))
  then show ?thesis
  proof cases
    case down
    have "ed_bottom e * ed_beta e \<le> ?m * ed_beta e" using down(2) e(2) by simp
    moreover have "?m * ed_beta e \<le> ?m" using e(2,3) pos by (simp add: mult_left_le)
    ultimately show ?thesis using down(1) m(2) by linarith
  next
    case up
    then show ?thesis using m(1) by linarith
  next
    case same
    then show ?thesis using m by simp
  qed
qed

lemma rd_updateMaxP_direction:
  assumes e: "e = rd_edp d" "0 < ed_beta e" "ed_beta e < 1" "0 < ed_alpha e" "0 < rd_max_p d"
    "ed_th_min e < ed_th_max e"
    and part: "part = 0.4 * (ed_th_max e - ed_th_min e)"
  shows "a < ed_th_min e + part \<Longrightarrow> ed_bottom e < rd_max_p d \<Longrightarrow> rd_max_p (rd_updateMaxP a now d) < rd_max_p d"
    and "ed_th_max e - part < a \<Longrightarrow> rd_max_p d < ed_top e \<Longrightarrow> rd_max_p d < rd_max_p (rd_updateMaxP a now d)"
    and "ed_th_min e + part \<le> a \<Longrightarrow> a \<le> ed_th_max e - part \<Longrightarrow> rd_max_p (rd_updateMaxP a now d) = rd_max_p d"
proof -
  have res: "rd_max_p (rd_updateMaxP a now d) =
      (if a < ed_th_min e + part \<and> rd_max_p d > ed_bottom e then rd_max_p d * ed_beta e
       else if a > ed_th_max e - part \<and> ed_top e > rd_max_p d
       then rd_max_p d + (if ed_alpha e > 0.25 * rd_max_p d then 0.25 * rd_max_p d else ed_alpha e)
       else rd_max_p d)"
    by (simp add: rd_updateMaxP_def Let_def e(1) part)
  have lt: "ed_th_min e + part < ed_th_max e - part" using e(6) part by (simp add: field_simps)
  show "a < ed_th_min e + part \<Longrightarrow> ed_bottom e < rd_max_p d \<Longrightarrow> rd_max_p (rd_updateMaxP a now d) < rd_max_p d"
    using res e by simp
  show "ed_th_max e - part < a \<Longrightarrow> rd_max_p d < ed_top e \<Longrightarrow> rd_max_p d < rd_max_p (rd_updateMaxP a now d)"
    using res e lt by simp
  show "ed_th_min e + part \<le> a \<Longrightarrow> a \<le> ed_th_max e - part \<Longrightarrow> rd_max_p (rd_updateMaxP a now d) = rd_max_p d"
    using res by simp
qed

text \<open>Every variant of the adaptation leaves the coefficients as they are and \<open>max_p\<close> nonnegative.\<close>

lemma rd_tuned_keep:
  assumes "rd_tuned m0 d" "0 \<le> rd_max_p d'" "ed_th_min (rd_edp d') = ed_th_min (rd_edp d)"
    "ed_th_max (rd_edp d') = ed_th_max (rd_edp d)" "ed_gentle (rd_edp d') = ed_gentle (rd_edp d)"
    "v_a (rd_edv d') = v_a (rd_edv d)" "v_b (rd_edv d') = v_b (rd_edv d)"
    "v_c (rd_edv d') = v_c (rd_edv d)" "v_d (rd_edv d') = v_d (rd_edv d)"
  shows "rd_tuned m0 d'"
  using assms by (simp add: rd_tuned_def Let_def)

lemma level_of_range: "1 \<le> level_of n \<and> level_of n \<le> 8"
  by (auto simp: level_of_def Let_def)

lemma rd_tuned_adapted:
  assumes t: "rd_tuned m0 d" and "0 \<le> ed_alpha (rd_edp d)" "0 \<le> ed_beta (rd_edp d)"
  shows "rd_tuned m0 (rd_updateMaxPFeng a d)" "rd_tuned m0 (rd_updateMaxP a now d)"
    "rd_tuned m0 (rd_updateMaxPYZR a now d)" "rd_tuned m0 (rd_updateMaxP_H a now d)"
proof -
  have m: "0 \<le> rd_max_p d" using rd_tunedD [OF t] by simp
  have l: "1 \<le> level_of (rd_pktcnt_pers_level d)" using level_of_range by simp
  show "rd_tuned m0 (rd_updateMaxPFeng a d)"
    using m assms(2,3) by (intro rd_tuned_keep [OF t]) (simp_all add: rd_updateMaxPFeng_def Let_def)
  show "rd_tuned m0 (rd_updateMaxP a now d)"
    using m assms(2,3) by (intro rd_tuned_keep [OF t]) (simp_all add: rd_updateMaxP_def Let_def)
  show "rd_tuned m0 (rd_updateMaxPYZR a now d)"
    using m l assms(2) by (intro rd_tuned_keep [OF t]) (simp_all add: rd_updateMaxPYZR_def rd_getLevel_def Let_def)
  show "rd_tuned m0 (rd_updateMaxP_H a now d)"
    using m by (intro rd_tuned_keep [OF t]) (simp_all add: rd_updateMaxP_H_def Let_def)
qed

lemma rd_updateMaxPYZR_cases:
  assumes "0 \<le> ed_alpha (rd_edp d)" "0 < rd_max_p d" and lv_def: "lv = level_of (rd_pktcnt_pers_level d)"
  obtains (down) b where "rd_max_p (rd_updateMaxPYZR a now d) = rd_max_p d * b" "83 / 100 \<le> b" "b \<le> 9 / 10"
      "lv = 1 \<Longrightarrow> b = 83 / 100" "ed_bottom (rd_edp d) < rd_max_p d"
      "a < ed_th_min (rd_edp d) + 0.4 * (ed_th_max (rd_edp d) - ed_th_min (rd_edp d))"
    | (up) x where "rd_max_p (rd_updateMaxPYZR a now d) = rd_max_p d + x" "0 \<le> x" "x \<le> rd_max_p d / 4"
      "lv \<le> 6 \<Longrightarrow> x = min (rd_max_p d / 4) (ed_alpha (rd_edp d))" "rd_max_p d < ed_top (rd_edp d)"
    | (same) "rd_max_p (rd_updateMaxPYZR a now d) = rd_max_p d"
proof -
  let ?e = "rd_edp d" and ?m = "rd_max_p d" and ?l = "real_of_int lv"
  let ?part = "0.4 * (ed_th_max ?e - ed_th_min ?e)"
  let ?down = "a < ed_th_min ?e + ?part \<and> ?m > ed_bottom ?e"
  let ?up = "a > ed_th_max ?e - ?part \<and> ed_top ?e > ?m"
  let ?b = "if ?l < 5 then 0.83 + 0.07 * 0.2 * (?l - 1) else 0.9"
  let ?x = "if ?l > 6 then 0.25 * ?m * 0.125 * (?l - 1) else if ?m / 4 \<le> ed_alpha ?e then ?m / 4 else ed_alpha ?e"
  have lv: "1 \<le> lv" "lv \<le> 8" using level_of_range by (simp_all add: lv_def)
  have res: "rd_max_p (rd_updateMaxPYZR a now d) = (if ?down then ?m * ?b else if ?up then ?m + ?x else ?m)"
    by (simp add: rd_updateMaxPYZR_def rd_getLevel_def Let_def lv_def)
  consider "?down" | "\<not> ?down" "?up" | "\<not> ?down" "\<not> ?up" by blast
  then show ?thesis
  proof cases
    case 1
    have "lv = 1 \<or> lv = 2 \<or> lv = 3 \<or> lv = 4 \<or> 5 \<le> lv" using lv by linarith
    then have "83 / 100 \<le> ?b" "?b \<le> 9 / 10" "lv = 1 \<Longrightarrow> ?b = 83 / 100" by auto
    moreover have "rd_max_p (rd_updateMaxPYZR a now d) = ?m * ?b" unfolding res using 1 by (rule if_P)
    ultimately show ?thesis using 1 by (intro down [of ?b]) simp_all
  next
    case 2
    have "0.25 * ?m * 0.125 * (?l - 1) \<le> 0.25 * ?m * 0.125 * 7" "0 \<le> 0.25 * ?m * 0.125 * (?l - 1)"
      using lv assms(2) by (simp_all add: mult_left_mono)
    then have "0 \<le> ?x" "?x \<le> 0.25 * ?m" using assms(1,2) by auto
    moreover have "lv \<le> 6 \<Longrightarrow> ?x = min (?m / 4) (ed_alpha ?e)" by (auto simp: min_def)
    moreover have "rd_max_p (rd_updateMaxPYZR a now d) = ?m + ?x"
      unfolding res by (rule trans [OF if_not_P [OF 2(1)] if_P [OF 2(2)]])
    ultimately show ?thesis using conjunct2 [OF 2(2)] by (intro up [of ?x]) simp_all
  next
    case 3
    have "rd_max_p (rd_updateMaxPYZR a now d) = ?m"
      unfolding res by (rule trans [OF if_not_P [OF 3(1)] if_not_P [OF 3(2)]])
    then show ?thesis by (rule same)
  qed
qed

lemma rd_updateMaxPYZR_bounds:
  assumes "0 \<le> ed_alpha (rd_edp d)" "0 < ed_bottom (rd_edp d)" "ed_bottom (rd_edp d) \<le> ed_top (rd_edp d)"
    and m: "83 / 100 * ed_bottom (rd_edp d) \<le> rd_max_p d" "rd_max_p d \<le> 5 / 4 * ed_top (rd_edp d)"
  shows "83 / 100 * ed_bottom (rd_edp d) \<le> rd_max_p (rd_updateMaxPYZR a now d) \<and>
    rd_max_p (rd_updateMaxPYZR a now d) \<le> 5 / 4 * ed_top (rd_edp d)"
proof -
  have "0 < 83 / 100 * ed_bottom (rd_edp d)" using assms(2) by simp
  with m(1) have pos: "0 < rd_max_p d" by linarith
  from assms(1) pos refl show ?thesis
  proof (cases rule: rd_updateMaxPYZR_cases [where a = a and now = now])
    case (down b)
    have "83 / 100 * ed_bottom (rd_edp d) \<le> b * rd_max_p d"
      using down assms(2) by (intro mult_mono) simp_all
    moreover have "rd_max_p d * b \<le> rd_max_p d" using down pos by (simp add: mult_left_le)
    ultimately show ?thesis using down(1) m(2) by (simp add: mult.commute)
  next
    case (up x)
    then show ?thesis using m(1) by linarith
  next
    case same
    then show ?thesis using m by simp
  qed
qed

text \<open>
  \<open>estimator_F\<close> reads the level, which clears the counter, before \<open>updateMaxPYZR\<close> reads
  it again: the adaptation there always works at level 1.
\<close>

lemma rd_estimator_F_level:
  assumes "0 \<le> ed_alpha (rd_edp d)" "0 < rd_max_p d"
  shows "rd_max_p (snd (rd_estimator_F n a w now d)) \<in>
    {rd_max_p d, 83 / 100 * rd_max_p d, rd_max_p d + min (rd_max_p d / 4) (ed_alpha (rd_edp d))}"
proof -
  obtain b d1 where d1: "snd (rd_estimator_F n a w now d) = rd_updateMaxPYZR b now d1"
    "rd_edp d1 = rd_edp d" "rd_edv d1 = rd_edv d" "rd_pktcnt_pers_level d1 = 0"
    by (simp add: rd_estimator_F_def rd_getLevel_def Let_def)
  have l1: "level_of (rd_pktcnt_pers_level d1) = 1"
    using d1(4) by (simp add: level_of_def E1_def D1_def)
  have "0 \<le> ed_alpha (rd_edp d1)" "0 < rd_max_p d1" using assms d1 by simp_all
  from this refl show ?thesis
  proof (cases rule: rd_updateMaxPYZR_cases [where a = b and now = now])
    case (down x)
    then show ?thesis using d1 l1 by simp
  next
    case (up x)
    then show ?thesis using d1 l1 by simp
  next
    case same
    then show ?thesis using d1 by simp
  qed
qed

lemma rd_updateMaxP_H_bounds: "0 \<le> rd_max_p (rd_updateMaxP_H a now d) \<and> rd_max_p (rd_updateMaxP_H a now d) \<le> 0.7"
  by (simp add: rd_updateMaxP_H_def Let_def max_def min_def)

section \<open>A nearly empty queue accepts every packet\<close>

lemma rd_decide_short:
  assumes "rd_qsize d \<le> 1" "rd_qsize d < rd_qlimit d" "rd_fared d \<noteq> 1"
  shows "\<exists>d'. rd_decide now p d = Ok (DTYPE_NONE, p, d') \<and> rd_q d' = rd_q d"
proof -
  let ?d6 = "rd_arrived now p d"
  have fr: "rd_frame ?d6 = rd_frame d" by simp
  have "rd_qsize ?d6 \<le> 1" using rd_qsize_frame [OF fr] assms(1) by simp
  then have e: "rd_early_type p ?d6 = Ok (DTYPE_NONE, p, upd_edv (\<lambda>v. v\<lparr>v_prob := 0, v_old := False\<rparr>) ?d6)"
    (is "_ = Ok (_, _, ?d7)") by (simp add: rd_early_type_def Let_def)
  have 7: "rd_frame ?d7 = rd_frame d" by simp
  then have "rd_fared_type DTYPE_NONE ?d7 = (DTYPE_NONE, ?d7)"
    using assms(3) by (simp add: rd_fared_type_def rd_frame_def)
  with rd_decide_steps [OF e 7] assms(2) 7 show ?thesis by (simp add: rd_frame_def)
qed

lemma rd_enque_short:
  assumes "rd_qsize d \<le> 1" "rd_qsize d < rd_qlimit d" "rd_fared d \<noteq> 1"
  shows "\<exists>d'. rd_enque now p d = Ok (d', []) \<and> rd_q d' = rd_q d @ [p]"
proof -
  obtain d1 where d1: "rd_decide now p d = Ok (DTYPE_NONE, p, d1)" "rd_q d1 = rd_q d"
    using rd_decide_short [OF assms] by blast
  then show ?thesis by (simp add: rd_enque_decide rd_admit_def)
qed

section \<open>Emptying the queue keeps the parameters\<close>

lemma rd_deque_params: "rd_deque now d = Ok (r, d') \<Longrightarrow> rd_edp d' = rd_edp d \<and> rd_edv d' = rd_edv d"
proof -
  let ?d1 = "if rd_summarystats d then q_updateStats now (rd_qsize d) d else d"
  have "rd_edp ?d1 = rd_edp d" "rd_edv ?d1 = rd_edv d" by (simp_all add: q_updateStats_def Let_def)
  moreover assume "rd_deque now d = Ok (r, d')"
  ultimately show ?thesis
    unfolding rd_deque_def Let_def
    by (cases "rd_q ?d1") (auto split: if_splits)
qed

lemma rd_drain_params_n:
  "n = length (rd_q d) \<Longrightarrow> q_drain rd_deque now d ds = Some (Ok (drops, d')) \<Longrightarrow>
   rd_edp d' = rd_edp d \<and> rd_edv d' = rd_edv d"
proof (induction n arbitrary: d ds)
  case 0
  then obtain d1 where "rd_deque now d = Ok (None, d1)" using rd_deque_cases(1) [of d now] by auto
  with 0 rd_deque_params [of now d None d1] show ?case by (auto simp: q_drain.simps [of _ _ d])
next
  case (Suc n)
  then obtain p ps where q: "rd_q d = p # ps" by (cases "rd_q d") auto
  then obtain d1 where d1: "rd_deque now d = Ok (Some p, d1)" "rd_q d1 = ps"
    using rd_deque_cases(2) [of d p ps now] by auto
  have "q_drain rd_deque now d1 (ds @ [p]) = Some (Ok (drops, d'))"
    using Suc.prems(2) d1(1) by (simp add: q_drain.simps [of _ _ d])
  with Suc.IH [of d1 "ds @ [p]"] Suc.prems(1) q d1(2) rd_deque_params [OF d1(1)] show ?case by simp
qed

lemmas rd_drain_params = rd_drain_params_n [OF refl]

section \<open>Properties\<close>

text \<open>
  C16: whatever arrives at a link with a RED queue and whenever the link finishes, no step
  fails, every packet is sent, dropped or queued exactly once, packets leave in order of
  arrival, and the link is idle only when the queue is empty. A RED queue that counts bytes
  must have been given a \<open>mean_pktsize_\<close> other than 0: with 0 the division of \<open>modify_p\<close>
  stops the program (\<open>red_zero_pktsize_traps\<close>).
\<close>

theorem red_link_conserves:
  assumes "link_reach (\<lambda>_. True) rd_enque rd_deque q0 r" "rd_q q0 = []" "\<not> qb_blocked q0" "qb_unblock_on_resume q0"
    and "ed_bytes (rd_edp q0) \<longrightarrow> ed_mean_pktsize (rd_edp q0) \<noteq> 0"
  shows "\<exists>l. r = Ok l \<and>
    addrs (lk_arrived l) = addrs (lk_sent l) + addrs (lk_dropped l) + addrs (rd_q (lk_queue l)) \<and>
    subseq (map pk_addr (lk_sent l @ rd_q (lk_queue l))) (map pk_addr (lk_arrived l)) \<and>
    (\<not> lk_busy l \<longrightarrow> rd_q (lk_queue l) = [])"
proof -
  have "rd_inv q0" using assms(2,5) by (simp add: rd_inv_def rd_divides_def)
  from redq.link_reach_order [OF assms(1) this assms(2-4)] show ?thesis
    by (auto simp: redq.link_inv_def redq.in_order_def)
qed

definition demo_edp :: edp where
  "demo_edp = \<lparr>ed_mean_pktsize = 500, ed_idle_pktsize = 100, ed_bytes = False, ed_wait = False,
     ed_setbit = False, ed_gentle = True, ed_th_min = 5, ed_th_min_pkts = 5, ed_th_max = 15,
     ed_th_max_pkts = 15, ed_max_p_inv = 10, ed_mark_p = 1/10, ed_use_mark_p = False, ed_q_w = 1/2,
     ed_adaptive = 1, ed_cautious = 0, ed_alpha = 1/100, ed_beta = 9/10, ed_interval = 1/2,
     ed_targetdelay = 0, ed_top = 1/2, ed_bottom = 1/100, ed_feng_adaptive = 0, ed_ptc = 100, ed_delay = 0\<rparr>"

definition demo_edv :: edv where
  "demo_edv = \<lparr>v_ave = 0, v_prob1 = 0, v_slope = 0, v_prob = 0, v_a = 1/10, v_b = -1/2, v_c = 9/150, v_d = -8/10,
     v_count = 0, v_count_bytes = 0, v_old = False, v_cur_max_p = 1/10, v_lastset = 0, v_status = Between\<rparr>"

definition demo_red :: red where
  "demo_red = qbase.extend (demo_qbase\<lparr>qb_qlim := 50\<rparr>)
     (red.fields [] False False False False False None False 0 demo_edp demo_edv True 0 (-1)
        0 0 0 0 0 0 0 0 0 (1/10) 0 0 0 0 [0, 0, 0] [0, 0, 0, 0, 0, 0, 0, 0, 0] [0, 0, 0, 0, 0, 0, 0, 0, 0]
        0 0 [] [] [] [] [] [] (\<lambda>_. 1/2) (\<lambda>_. 1) 0)"

lemmas demo_red_defs = demo_red_def demo_edp_def demo_edv_def demo_qbase_def red.defs qbase.defs

theorem red_link_conserves_witness:
  "\<exists>l. link_arrive rd_enque rd_deque 1 (demo_packet 7) (link_start demo_red) = Ok l \<and>
     addrs (lk_arrived l) = addrs (lk_sent l) + addrs (lk_dropped l) + addrs (rd_q (lk_queue l))"
proof -
  have "link_reach (\<lambda>_. True) rd_enque rd_deque demo_red
      (link_arrive rd_enque rd_deque 1 (demo_packet 7) (link_start demo_red))"
    by (rule link_reach.step [OF link_reach.start]) (rule link_step.arrive, simp_all add: link_start_def)
  moreover have "rd_q demo_red = []" "\<not> qb_blocked demo_red" "qb_unblock_on_resume demo_red"
    "ed_bytes (rd_edp demo_red) \<longrightarrow> ed_mean_pktsize (rd_edp demo_red) \<noteq> 0"
    by (simp_all add: demo_red_defs)
  ultimately show ?thesis using red_link_conserves by blast
qed

text \<open>
  The trap that the hypothesis excludes: a queue in bytes with \<open>mean_pktsize_\<close> 0, two packets
  in it and an average above \<open>th_min\<close>, stops at the next arrival.
\<close>

lemma red_zero_pktsize_traps:
  "rd_enque 1 (demo_packet 7) (demo_red\<lparr>rd_q := [demo_packet 8, demo_packet 9], rd_idle := False,
     rd_edp := demo_edp\<lparr>ed_bytes := True, ed_mean_pktsize := 0, ed_adaptive := 0\<rparr>,
     rd_edv := demo_edv\<lparr>v_ave := 10, v_old := True\<rparr>\<rparr>) = Fail Div_By_Zero"
  by (simp add: rd_enque_def rd_count_arrival_def rd_idle_packets_def rd_average_def rd_estimator_def
    rd_new_ave_def decay_loop_closed rd_early_type_def rd_drop_early_def rd_modify_p_def demo_red_defs
    demo_packet_def Let_def)

text \<open>
  counted in packets, a RED queue of at most \<open>limit_\<close> packets accepts any new packet
  without failing and stays within \<open>limit_\<close>, whatever it draws and however its parameters
  are set (but for the division by zero above).
\<close>

theorem red_limit:
  assumes "distinct_packets (rd_q d)" "rd_divides d" "pk_addr p \<notin> pk_addr ` set (rd_q d)" "\<not> rd_qib d"
    and "list_len (rd_q d) \<le> max 0 (qb_qlim d)"
  shows "\<exists>d' drops. rd_enque now p d = Ok (d', drops) \<and> list_len (rd_q d') \<le> max 0 (qb_qlim d')"
  by (rule rd_enque_limit [unfolded rd_inv_def, OF conjI [OF assms(1,2)] assms(3-5)])

theorem red_limit_witness:
  "\<exists>d' drops. rd_enque 1 (demo_packet 7) (demo_red\<lparr>rd_q := [demo_packet 8], qb_qlim := 1\<rparr>) = Ok (d', drops) \<and>
     list_len (rd_q d') \<le> max 0 (qb_qlim d')"
proof -
  let ?d = "demo_red\<lparr>rd_q := [demo_packet 8], qb_qlim := 1\<rparr>"
  have "distinct_packets (rd_q ?d)" "rd_divides ?d" "pk_addr (demo_packet 7) \<notin> pk_addr ` set (rd_q ?d)" "\<not> rd_qib ?d"
    "list_len (rd_q ?d) \<le> max 0 (qb_qlim ?d)"
    by (simp_all add: rd_divides_def demo_red_defs demo_packet_def)
  then show ?thesis by (rule red_limit)
qed

text \<open>
  C17: the drop probability before spacing. The coefficients are those that \<open>reset\<close> computed
  from the thresholds and its \<open>max_p\<close>, here \<open>m0\<close>; the current \<open>max_p\<close> may have been changed
  by the adaptive variants, which leave the coefficients as they are. For averages from
  \<open>th_min\<close> on the result is a probability. Below \<open>th_max\<close> it is the line from 0 at \<open>th_min\<close>
  to the current \<open>max_p\<close>, cut at 1. From \<open>th_max\<close> on it is 1, or in gentle mode the line from
  \<open>m0\<close> at \<open>th_max\<close> to 1 at twice \<open>th_max\<close>. It does not decrease with the average, except at
  \<open>th_max\<close> in gentle mode, and there only when \<open>max_p\<close> is greater than \<open>m0\<close>; then it does.
\<close>

theorem red_drop_probability:
  assumes "rd_tuned m0 d" "lo = ed_th_min (rd_edp d)" "hi = ed_th_max (rd_edp d)" "lo \<le> ave"
  shows "0 \<le> rd_prob d ave \<and> rd_prob d ave \<le> 1 \<and>
    (ave < hi \<longrightarrow> rd_prob d ave = min 1 (rd_max_p d * (ave - lo) / (hi - lo))) \<and>
    (hi \<le> ave \<and> ed_gentle (rd_edp d) \<longrightarrow> rd_prob d ave = min 1 (m0 + (1 - m0) * (ave - hi) / hi)) \<and>
    (hi \<le> ave \<and> \<not> ed_gentle (rd_edp d) \<longrightarrow> rd_prob d ave = 1) \<and>
    (ave \<le> ave' \<and> (ave' < hi \<or> hi \<le> ave \<or> \<not> ed_gentle (rd_edp d) \<or> rd_max_p d \<le> m0) \<longrightarrow>
      rd_prob d ave \<le> rd_prob d ave') \<and>
    rd_prob d lo = 0 \<and> (ed_gentle (rd_edp d) \<longrightarrow> rd_prob d hi = m0 \<and> rd_prob d (2 * hi) = 1) \<and>
    (ed_gentle (rd_edp d) \<and> m0 < 1 \<and> m0 < rd_max_p d \<longrightarrow>
      (\<exists>x. lo \<le> x \<and> x < hi \<and> rd_prob d hi < rd_prob d x))"
proof (intro conjI)
  show "ed_gentle (rd_edp d) \<and> m0 < 1 \<and> m0 < rd_max_p d \<longrightarrow> (\<exists>x. lo \<le> x \<and> x < hi \<and> rd_prob d hi < rd_prob d x)"
    using red_curve_jumps [OF assms(1)] assms(2,3) by blast
qed (use red_curve_range [OF assms(1), of ave] red_curve_mono [OF assms(1), of ave ave']
    red_curve_points [OF assms(1)] assms(2-4) in
    \<open>simp_all add: rd_prob_curve [OF assms(1)], simp_all add: red_curve_def red_ramp_def red_gentle_def\<close>)

text \<open>After one increase of \<open>max_p\<close> from 1/10 to 11/100 the curve falls at \<open>th_max\<close>.\<close>

theorem red_drop_probability_witness:
  "let d = rd_updateMaxP 20 1 demo_red in
     rd_prob d 5 = 0 \<and> rd_prob d 10 = 55 / 1000 \<and> rd_prob d (149 / 10) = 1089 / 10000 \<and> rd_prob d 15 = 1 / 10 \<and>
     rd_prob d 30 = 1"
proof -
  let ?d = "rd_updateMaxP 20 1 demo_red"
  have e: "rd_edp ?d = demo_edp" "rd_edv ?d = demo_edv\<lparr>v_cur_max_p := 11 / 100, v_lastset := 1\<rparr>"
    by (simp_all add: rd_updateMaxP_def demo_red_defs)
  have t: "rd_tuned (1 / 10) ?d" by (simp add: rd_tuned_def e) (simp add: demo_edp_def demo_edv_def)
  from red_drop_probability [OF t refl refl, of 10] red_drop_probability [OF t refl refl, of "149 / 10"]
  show ?thesis by (simp add: e Let_def) (simp add: demo_edp_def demo_edv_def)
qed

text \<open>
  \<open>reset\<close> sets the coefficients of the drop probability from sensible parameters
  and leaves an empty queue, dropping what it held.
\<close>

theorem red_reset_tunes:
  assumes "distinct_packets (rd_q d)" "rd_link d = None" "\<not> rd_qib d"
    and "e = rd_edp d" "0 \<le> ed_th_min_pkts e" "ed_th_min_pkts e < ed_th_max_pkts e" "1 \<le> ed_max_p_inv e" "rd_divides d"
  shows "\<exists>drops d'. rd_reset now d = Some (Ok (drops, d')) \<and> addrs drops = addrs (rd_q d) \<and>
    rd_q d' = [] \<and> rd_tuned (rd_max_p d') d' \<and> rd_max_p d' = 1 / ed_max_p_inv e"
proof -
  obtain d1 where d1: "rd_reset now d = q_reset rd_deque now d1" "rd_q d1 = rd_q d" "rd_tuned (rd_max_p d1) d1"
    "rd_max_p d1 = 1 / ed_max_p_inv e" "rd_divides d1"
    using assms by (simp add: rd_reset_def Let_def rd_tuned_def rd_divides_def)
  have "rd_inv d1" using assms(1) d1(2,5) by (simp add: rd_inv_def)
  from redq.reset_content [OF this, of now] obtain drops d' where
    "rd_reset now d = Some (Ok (drops, d'))" "addrs drops = addrs (rd_q d)" "rd_q d' = []"
    using d1 by auto
  moreover from this(1) d1 have "rd_edp d' = rd_edp d1 \<and> rd_edv d' = rd_edv d1"
    by (simp add: q_reset_def) (drule rd_drain_params, simp)
  ultimately show ?thesis using d1(3,4) by (auto simp: rd_tuned_def)
qed

theorem red_reset_tunes_witness:
  "\<exists>drops d'. rd_reset 3 (demo_red\<lparr>rd_q := [demo_packet 8]\<rparr>) = Some (Ok (drops, d')) \<and> addrs drops = {#8#} \<and>
     rd_tuned (rd_max_p d') d' \<and> rd_max_p d' = 1 / 10"
proof -
  let ?d = "demo_red\<lparr>rd_q := [demo_packet 8]\<rparr>"
  have e: "rd_edp ?d = demo_edp" by (simp add: demo_red_defs)
  have "distinct_packets (rd_q ?d)" "rd_link ?d = None" "\<not> rd_qib ?d" "addrs (rd_q ?d) = {#8#}"
    "rd_divides ?d"
    by (simp_all add: demo_red_defs demo_packet_def rd_divides_def)
  with red_reset_tunes [of ?d "rd_edp ?d" 3] show ?thesis
    unfolding e by (simp add: demo_edp_def) blast
qed

text \<open>
  C18: early drops are spaced uniformly (\<open>modify_p\<close>). Without \<open>wait_\<close>, for a constant
  probability \<open>p\<close>, the next drop hits the first, second, ... packet after the last drop
  with the same probability \<open>p / (1 - p)\<close> each, up to the packet numbered \<open>1 / p - 1\<close>.
\<close>

theorem red_uniform_spacing:
  assumes "0 < p" "1 \<le> n" "real (n + 1) * p \<le> 1"
  shows "(\<Prod>i = 1..<n. 1 - rd_modified p (int i) 0 False 1 False 0) *
    rd_modified p (int n) 0 False 1 False 0 = p / (1 - p)"
  using drop_at_uniform [OF assms] by (simp add: drop_at_def)

theorem red_uniform_spacing_witness:
  "(\<Prod>i = 1..<3. 1 - rd_modified (1 / 4) (int i) 0 False 1 False 0) *
    rd_modified (1 / 4) (int 3) 0 False 1 False 0 = 1 / 3"
  using red_uniform_spacing [of "1 / 4" 3] by simp

text \<open>
  With \<open>wait_\<close> no packet is dropped before the packet numbered \<open>1 / p\<close>, and from then
  on the next drop is again uniformly distributed, up to \<open>2 / p\<close>. Here \<open>k\<close> is the first
  number with \<open>k * p >= 1\<close>.
\<close>

theorem red_uniform_spacing_wait:
  assumes "0 < p" "1 \<le> k" "real k * p \<ge> 1" "\<And>i. i < k \<Longrightarrow> real i * p < 1"
    and "k \<le> n" "real (n + 1) * p \<le> 2"
  shows "(\<Prod>i = 1..<n. 1 - rd_modified p (int i) 0 False 1 True 0) *
    rd_modified p (int n) 0 False 1 True 0 = p / (2 - real k * p)"
  using drop_at_wait [OF assms] by (simp add: drop_at_def)

theorem red_uniform_spacing_wait_witness:
  "(\<Prod>i = 1..<6. 1 - rd_modified (1 / 4) (int i) 0 False 1 True 0) *
    rd_modified (1 / 4) (int 6) 0 False 1 True 0 = 1 / 4"
  using red_uniform_spacing_wait [of "1 / 4" 4 6] by simp

text \<open>
  the average queue size is the exponentially weighted moving average of the queue
  sizes, decayed once for every packet that could have been sent while the queue was idle,
  and it stays between 0 and any bound on the queue size.
\<close>

theorem red_average_ewma:
  assumes "0 \<le> w" "w \<le> 1" "0 \<le> ave" "ave \<le> real_of_int b" "0 \<le> n" "n \<le> b"
  shows "fst (rd_estimator n m ave w now d) = ave * (1 - w) ^ nat (max 1 m) + w * real_of_int n \<and>
    0 \<le> fst (rd_estimator n m ave w now d) \<and> fst (rd_estimator n m ave w now d) \<le> real_of_int b"
  using rd_new_ave_bounds [OF assms, of m] rd_new_ave_closed [of n m ave w]
  by (simp add: rd_estimator_def Let_def)

theorem red_average_ewma_witness:
  "fst (rd_estimator 10 3 8 (1 / 2) 1 demo_red) = 6"
  using red_average_ewma [of "1 / 2" 8 10 10 3 1 demo_red] by (simp add: power3_eq_cube)

text \<open>
  C33: Adaptive RED lowers \<open>max_p\<close> when the average queue is below the target range, raises
  it when it is above and leaves it alone within, and keeps it between \<open>bottom * beta\<close> and
  5/4 of \<open>top\<close> (the bounds are tested before the change, so \<open>bottom\<close> and \<open>top\<close>
  themselves can be overstepped).
\<close>

theorem adaptive_red_max_p:
  assumes "e = rd_edp d" "0 < ed_beta e" "ed_beta e < 1" "0 < ed_alpha e" "0 < ed_bottom e"
    "ed_bottom e \<le> ed_top e" "ed_th_min e < ed_th_max e"
    and "ed_bottom e * ed_beta e \<le> rd_max_p d" "rd_max_p d \<le> 5 / 4 * ed_top e"
    and "part = 0.4 * (ed_th_max e - ed_th_min e)" and "d' = rd_updateMaxP a now d"
  shows "(a < ed_th_min e + part \<and> ed_bottom e < rd_max_p d \<longrightarrow> rd_max_p d' < rd_max_p d) \<and>
    (ed_th_max e - part < a \<and> rd_max_p d < ed_top e \<longrightarrow> rd_max_p d < rd_max_p d') \<and>
    (ed_th_min e + part \<le> a \<and> a \<le> ed_th_max e - part \<longrightarrow> rd_max_p d' = rd_max_p d) \<and>
    ed_bottom e * ed_beta e \<le> rd_max_p d' \<and> rd_max_p d' \<le> 5 / 4 * ed_top e"
proof -
  have pos: "0 < rd_max_p d" using assms(2,5,8) mult_pos_pos [of "ed_bottom e" "ed_beta e"] by linarith
  note dir = rd_updateMaxP_direction [OF assms(1-4) pos assms(7,10), of a now]
  note bnd = rd_updateMaxP_bounds [OF assms(1,2) _ _ assms(5,6,8,9), of a now]
  show ?thesis using dir bnd assms(3,4,11) by simp
qed

theorem adaptive_red_max_p_witness:
  "rd_max_p (rd_updateMaxP 20 1 demo_red) > rd_max_p demo_red \<and> rd_max_p (rd_updateMaxP 20 1 demo_red) \<le> 5 / 8"
proof -
  have e: "rd_edp demo_red = demo_edp" "rd_edv demo_red = demo_edv" by (simp_all add: demo_red_defs)
  from adaptive_red_max_p [of demo_edp demo_red "0.4 * 10" _ 20 1]
  show ?thesis unfolding e by (simp add: demo_edp_def demo_edv_def)
qed

text \<open>
  The variant switched on by \<open>pared_\<close> keeps \<open>max_p\<close> between 0.83 of \<open>bottom\<close> and
  5/4 of \<open>top\<close>, for every traffic level.
\<close>

theorem pared_max_p_bounds:
  assumes "0 \<le> ed_alpha (rd_edp d)" "0 < ed_bottom (rd_edp d)" "ed_bottom (rd_edp d) \<le> ed_top (rd_edp d)"
    and "83 / 100 * ed_bottom (rd_edp d) \<le> rd_max_p d" "rd_max_p d \<le> 5 / 4 * ed_top (rd_edp d)"
  shows "83 / 100 * ed_bottom (rd_edp d) \<le> rd_max_p (rd_updateMaxPYZR a now d) \<and>
    rd_max_p (rd_updateMaxPYZR a now d) \<le> 5 / 4 * ed_top (rd_edp d)"
  by (rule rd_updateMaxPYZR_bounds [OF assms])

theorem pared_max_p_bounds_witness:
  "rd_max_p (rd_updateMaxPYZR 20 1 demo_red) \<le> 5 / 8"
proof -
  have e: "rd_edp demo_red = demo_edp" "rd_edv demo_red = demo_edv" by (simp_all add: demo_red_defs)
  from pared_max_p_bounds [of demo_red 20 1] show ?thesis unfolding e by (simp add: demo_edp_def demo_edv_def)
qed

text \<open>
  In the variant switched on by \<open>fared_\<close> the traffic level has no effect on the
  adaptation of \<open>max_p\<close>: \<open>estimator_F\<close> reads the level, which clears the packet counter,
  before \<open>updateMaxPYZR\<close> reads it again, so \<open>max_p\<close> only moves as at level 1.
\<close>

theorem fared_ignores_level:
  assumes "0 \<le> ed_alpha (rd_edp d)" "0 < rd_max_p d"
  shows "rd_max_p (snd (rd_estimator_F n a w now d)) \<in>
    {rd_max_p d, 83 / 100 * rd_max_p d, rd_max_p d + min (rd_max_p d / 4) (ed_alpha (rd_edp d))}"
  by (rule rd_estimator_F_level [OF assms])

theorem fared_ignores_level_witness:
  "rd_max_p (snd (rd_estimator_F 40 10 (1 / 2) 1 (demo_red\<lparr>rd_pktcnt_pers_level := 200\<rparr>))) \<in>
    {1 / 10, 83 / 1000, 11 / 100}"
proof -
  let ?d = "demo_red\<lparr>rd_pktcnt_pers_level := 200\<rparr>"
  have e: "rd_edp ?d = demo_edp" "rd_edv ?d = demo_edv" by (simp_all add: demo_red_defs)
  from fared_ignores_level [of ?d 40 10 "1 / 2" 1] show ?thesis
    unfolding e by (simp add: demo_edp_def demo_edv_def)
qed

text \<open>
  A RED queue that holds at most one packet, below its limit, accepts every packet and
  drops none, whatever the average queue size is (unless \<open>fared_\<close> decides).
\<close>

theorem red_short_queue_accepts:
  assumes "rd_qsize d \<le> 1" "rd_qsize d < rd_qlimit d" "rd_fared d \<noteq> 1"
  shows "\<exists>d'. rd_enque now p d = Ok (d', []) \<and> rd_q d' = rd_q d @ [p]"
  by (rule rd_enque_short [OF assms])

theorem red_short_queue_accepts_witness:
  "\<exists>d'. rd_enque 1 (demo_packet 7) demo_red = Ok (d', []) \<and> rd_q d' = [demo_packet 7]"
proof -
  have "rd_qsize demo_red \<le> 1" "rd_qsize demo_red < rd_qlimit demo_red" "rd_fared demo_red \<noteq> 1" "rd_q demo_red = []"
    by (simp_all add: demo_red_defs rd_qlimit_def)
  with red_short_queue_accepts [of demo_red 1 "demo_packet 7"] show ?thesis by simp
qed

end
