(* ===== verification/Own_Red.thy ===== *)
theory Own_Red
  imports Drop_Tail
begin

text \<open>
  The repository's own RED queues: \<open>Myred\<close> (\<open>queue/myred.cc\<close>), \<open>Ared\<close>, which adapts
  \<open>maxp\<close> (\<open>queue/ared.cc\<close>), and \<open>Pared\<close>, which adapts it with the level of the traffic
  (\<open>queue/pared.cc\<close>). The three classes repeat their common members and methods word by
  word; the definitions \<open>own_\<close> model that common code once, and the records extend each other.
  The files a queue writes are lists; \<open>rnd n\<close> is the result of the \<open>n\<close>-th call of \<open>rand()\<close>.
  Computations on \<open>double\<close> are on reals.
\<close>

section \<open>The state\<close>

record ored = qbase +
  or_q :: "packet list"
  or_avg :: real
  or_avgL :: real
  or_wq :: real
  or_minth :: int
  or_maxth :: int
  or_pd :: real
  or_maxp :: real
  or_mytime :: real
  or_pktcnt_pers_lp :: int
  or_pktcnt_pers_tp :: int
  or_pktcnt_pers_td :: int
  or_pktcnt :: int
  or_dpktcnt :: int
  or_opktcnt :: int
  or_timeDelay :: real
  or_count :: int
  or_pertime :: real
  or_draws :: nat
  or_cout :: "(int \<times> int) list"
  or_fqlength1 :: "(real \<times> int) list"
  or_fqlength2 :: "int list"
  or_favg1 :: "(real \<times> real) list"
  or_favg2 :: "real list"
  or_flosspkt1 :: "(real \<times> real) list"
  or_flosspkt2 :: "real list"
  or_fthroughput1 :: "(real \<times> real) list"
  or_fthroughput2 :: "real list"
  or_ftimedelay1 :: "(real \<times> real) list"
  or_ftimedelay2 :: "real list"

record ared = ored +
  ar_mintarget :: real
  ar_maxtarget :: real
  ar_alpha :: real
  ar_beta :: real

record pared = ared +
  pa_E1 :: real
  pa_D1 :: real
  pa_pktcnt_pers :: int

text \<open>
  The constructors. \<open>junk\<close> is the value that \<open>pktcnt\<close>, which they do not set, happens to
  have; \<open>pertime\<close> is the value bound from Tcl.
\<close>

definition my_init :: "int \<Rightarrow> real \<Rightarrow> 'a ored_scheme \<Rightarrow> 'a ored_scheme" where
  "my_init junk pertime d = d\<lparr>or_q := [], or_avgL := 0, or_avg := 0, or_wq := 0.002, or_minth := 5,
     or_maxth := 15, or_pd := 0, or_maxp := 0.1, or_mytime := 0, or_pktcnt_pers_lp := 0,
     or_pktcnt_pers_tp := 0, or_pktcnt_pers_td := 0, or_pktcnt := junk, or_dpktcnt := 0,
     or_opktcnt := 0, or_timeDelay := 0, or_count := 0, or_pertime := pertime, or_draws := 0,
     or_cout := [], or_fqlength1 := [], or_fqlength2 := [], or_favg1 := [], or_favg2 := [],
     or_flosspkt1 := [], or_flosspkt2 := [], or_fthroughput1 := [], or_fthroughput2 := [],
     or_ftimedelay1 := [], or_ftimedelay2 := []\<rparr>"

definition small_alpha :: "real \<Rightarrow> real" where
  "small_alpha maxp = (if maxp / 4 \<le> 0.01 then maxp / 4 else 0.01)"

definition ar_init :: "int \<Rightarrow> real \<Rightarrow> 'a ared_scheme \<Rightarrow> 'a ared_scheme" where
  "ar_init junk pertime d0 = (let d = my_init junk pertime d0 in
     d\<lparr>ar_mintarget := of_int (or_minth d) + 0.4 * of_int (or_maxth d - or_minth d),
       ar_maxtarget := of_int (or_minth d) + 0.6 * of_int (or_maxth d - or_minth d),
       ar_alpha := small_alpha (or_maxp d), ar_beta := 0.9\<rparr>)"

definition pa_init :: "int \<Rightarrow> real \<Rightarrow> 'a pared_scheme \<Rightarrow> 'a pared_scheme" where
  "pa_init junk pertime d =
     (ar_init junk pertime d)\<lparr>pa_E1 := 2377.28180, pa_D1 := 302.00101, pa_pktcnt_pers := 0\<rparr>"

section \<open>Queueing\<close>

definition own_arrival :: "'a ored_scheme \<Rightarrow> 'a ored_scheme" where
  "own_arrival d = d\<lparr>or_pktcnt_pers_td := wrap_s32 (or_pktcnt_pers_td d + 1),
     or_pktcnt_pers_lp := wrap_s32 (or_pktcnt_pers_lp d + 1),
     or_pktcnt_pers_tp := wrap_s32 (or_pktcnt_pers_tp d + 1)\<rparr>"

definition own_accept :: "real \<Rightarrow> packet \<Rightarrow> 'a ored_scheme \<Rightarrow> 'a ored_scheme" where
  "own_accept now p d = d\<lparr>or_q := or_q d @ [p],
     or_timeDelay := or_timeDelay d + (now - pk_timestamp p), or_pktcnt := wrap_s32 (or_pktcnt d + 1)\<rparr>"

definition own_drop :: "'a ored_scheme \<Rightarrow> 'a ored_scheme" where
  "own_drop d = d\<lparr>or_dpktcnt := wrap_s32 (or_dpktcnt d + 1)\<rparr>"

definition own_chance :: "'a ored_scheme \<Rightarrow> real" where
  "own_chance d = (or_avg d - of_int (or_minth d)) / of_int (or_maxth d - or_minth d) * or_maxp d"

definition own_admit :: "(nat \<Rightarrow> int) \<Rightarrow> 'a ored_scheme enq_fun" where
  "own_admit rnd now p d =
     (if list_len (or_q d) \<ge> 35 then Ok (own_drop d, [p])
      else if or_avg d < of_int (or_minth d) then Ok (own_accept now p (d\<lparr>or_pd := 0\<rparr>), [])
      else if or_avg d \<ge> of_int (or_minth d) \<and> or_avg d < of_int (or_maxth d) then
        (let d1 = d\<lparr>or_pd := own_chance d, or_draws := Suc (or_draws d)\<rparr>;
             a = rnd (or_draws d) mod 100
         in if real_of_int a \<le> or_pd d1 * 100 then Ok (own_drop d1, [p])
            else Ok (own_accept now p d1, []))
      else if or_avg d \<ge> of_int (or_maxth d) then Ok (own_drop (d\<lparr>or_pd := 1\<rparr>), [p])
      else Ok (d, []))"

definition my_enque :: "(nat \<Rightarrow> int) \<Rightarrow> ored enq_fun" where
  "my_enque rnd now p d = own_admit rnd now p (own_arrival d)"

definition ar_enque :: "(nat \<Rightarrow> int) \<Rightarrow> ared enq_fun" where
  "ar_enque rnd now p d = own_admit rnd now p (own_arrival d)"

definition pa_enque :: "(nat \<Rightarrow> int) \<Rightarrow> pared enq_fun" where
  "pa_enque rnd now p d0 =
     (let d = own_arrival d0 in
      own_admit rnd now p (d\<lparr>pa_pktcnt_pers := wrap_s32 (pa_pktcnt_pers d + 1)\<rparr>))"

definition own_deque :: "'a ored_scheme deq_fun" where
  "own_deque now d0 =
     (let d = d0\<lparr>or_opktcnt := wrap_s32 (or_opktcnt d0 + 1)\<rparr> in
      case fifo_deque (or_q d) of (r, q) \<Rightarrow> Ok (r, d\<lparr>or_q := q\<rparr>))"

section \<open>The average queue size and the adaptation\<close>

definition own_average :: "'a ored_scheme \<Rightarrow> 'a ored_scheme" where
  "own_average d =
     (let avg = (1 - or_wq d) * or_avgL d + or_wq d * of_int (list_len (or_q d))
      in d\<lparr>or_avg := avg, or_avgL := avg\<rparr>)"

definition my_getAvg :: "ored \<Rightarrow> ored" where
  "my_getAvg d = own_average d"

definition ar_getAvg :: "ared \<Rightarrow> ared" where
  "ar_getAvg d0 =
     (let d = own_average d0;
          d1 = (if or_avg d > ar_maxtarget d \<and> or_maxp d \<le> 0.5
                then d\<lparr>or_maxp := or_maxp d + ar_alpha d\<rparr>
                else if or_avg d < ar_mintarget d \<and> or_maxp d \<ge> 0.01
                then d\<lparr>or_maxp := or_maxp d * ar_beta d\<rparr>
                else d)
      in d1\<lparr>ar_alpha := small_alpha (or_maxp d1)\<rparr>)"

definition pa_getLevel :: "pared \<Rightarrow> int" where
  "pa_getLevel d =
     (let n = real_of_int (pa_pktcnt_pers d); E = pa_E1 d; D = pa_D1 d in
      if n < E - 3 * D then 1
      else if n \<ge> E - 3 * D \<and> n < E - 2 * D then 2
      else if n \<ge> E - 2 * D \<and> n < E - D then 3
      else if n \<ge> E - D \<and> n < E then 4
      else if n \<ge> E \<and> n < E + D then 5
      else if n \<ge> E + D \<and> n < E + 2 * D then 6
      else if n \<ge> E + 2 * D \<and> n < E + 3 * D then 7
      else if n \<ge> E + 3 * D then 8
      else 0)"

definition pa_getAvg :: "pared \<Rightarrow> pared" where
  "pa_getAvg d0 =
     (let d = own_average d0; level = pa_getLevel d in
      if or_avg d > ar_maxtarget d \<and> or_maxp d < 0.5 then
        (let alpha = (if level \<ge> 5 then 0.25 * or_maxp d * 0.125 * of_int (level - 1)
                      else small_alpha (or_maxp d))
         in d\<lparr>ar_alpha := alpha, or_maxp := or_maxp d + alpha\<rparr>)
      else if or_avg d < ar_mintarget d \<and> or_maxp d > 0.01 then
        (let beta = (if level < 5 then 0.83 + 0.07 * 0.2 * of_int (level - 1) else 0.9)
         in d\<lparr>ar_beta := beta, or_maxp := or_maxp d * beta\<rparr>)
      else d)"

section \<open>Statistics\<close>

definition own_totalpkt :: "'a ored_scheme \<Rightarrow> 'a ored_scheme" where
  "own_totalpkt d =
     (let n = wrap_s32 (or_count d + 1)
      in d\<lparr>or_count := n, or_cout := or_cout d @ [(n, or_pktcnt d)], or_pktcnt := 0\<rparr>)"

definition own_putQl :: "real \<Rightarrow> 'a ored_scheme \<Rightarrow> 'a ored_scheme" where
  "own_putQl now d = d\<lparr>or_fqlength1 := or_fqlength1 d @ [(now, list_len (or_q d))],
     or_fqlength2 := or_fqlength2 d @ [list_len (or_q d)]\<rparr>"

definition own_putAvg :: "real \<Rightarrow> 'a ored_scheme \<Rightarrow> 'a ored_scheme" where
  "own_putAvg now d = d\<lparr>or_favg1 := or_favg1 d @ [(now, or_avg d)], or_favg2 := or_favg2 d @ [or_avg d]\<rparr>"

definition own_putLp :: "real \<Rightarrow> 'a ored_scheme \<Rightarrow> 'a ored_scheme" where
  "own_putLp now d =
     (let x = (if or_pktcnt_pers_lp d \<noteq> 0 then real_of_int (or_dpktcnt d) / of_int (or_pktcnt_pers_lp d)
               else 0)
      in d\<lparr>or_flosspkt1 := or_flosspkt1 d @ [(now, x)], or_flosspkt2 := or_flosspkt2 d @ [x],
           or_dpktcnt := 0, or_pktcnt_pers_lp := 0\<rparr>)"

definition own_putTp :: "real \<Rightarrow> 'a ored_scheme \<Rightarrow> 'a ored_scheme" where
  "own_putTp now d =
     (let x = (if or_pktcnt_pers_tp d \<noteq> 0 then real_of_int (or_opktcnt d) / or_pertime d else 0)
      in d\<lparr>or_fthroughput1 := or_fthroughput1 d @ [(now, x)], or_fthroughput2 := or_fthroughput2 d @ [x],
           or_opktcnt := 0, or_pktcnt_pers_tp := 0\<rparr>)"

definition own_putTd :: "real \<Rightarrow> 'a ored_scheme \<Rightarrow> 'a ored_scheme" where
  "own_putTd now d =
     (let x = (if or_pktcnt_pers_td d \<noteq> 0 then or_timeDelay d / of_int (or_pktcnt_pers_td d) else 0)
      in d\<lparr>or_ftimedelay1 := or_ftimedelay1 d @ [(now, x)], or_ftimedelay2 := or_ftimedelay2 d @ [x],
           or_timeDelay := 0, or_pktcnt_pers_td := 0\<rparr>)"

text \<open>The commands from Tcl; \<open>None\<close> passes the command on to \<open>Queue::command\<close>.\<close>

definition own_output :: "real \<Rightarrow> 'a ored_scheme \<Rightarrow> 'a ored_scheme" where
  "own_output now d = own_putTp now (own_putLp now (own_putAvg now (own_putQl now d)))"

definition own_command ::
  "('a ored_scheme \<Rightarrow> 'a ored_scheme) \<Rightarrow> real \<Rightarrow> string list \<Rightarrow> 'a ored_scheme \<Rightarrow> 'a ored_scheme option" where
  "own_command getAvg now argv d =
     (if length argv = 2 then
        (if argv ! 1 = ''totalpkt'' then Some (own_totalpkt d)
         else if argv ! 1 = ''getAvg'' then Some (getAvg d)
         else if argv ! 1 = ''output'' then Some (own_output now d)
         else None)
      else None)"

definition my_command :: "real \<Rightarrow> string list \<Rightarrow> ored \<Rightarrow> ored option" where
  "my_command = own_command my_getAvg"

definition ar_command :: "real \<Rightarrow> string list \<Rightarrow> ared \<Rightarrow> ared option" where
  "ar_command = own_command ar_getAvg"

definition pa_command :: "real \<Rightarrow> string list \<Rightarrow> pared \<Rightarrow> pared option" where
  "pa_command = own_command pa_getAvg"

section \<open>Invariants\<close>

definition or_inv :: "'a ored_scheme \<Rightarrow> bool" where
  "or_inv d \<longleftrightarrow> length (or_q d) \<le> 35 \<and> 0 \<le> or_avg d \<and> or_avg d \<le> 35 \<and> or_avgL d = or_avg d \<and>
     unit_real (or_pd d) \<and> unit_real (or_maxp d) \<and> or_wq d = 0.002 \<and> or_minth d = 5 \<and> or_maxth d = 15"

definition my_inv :: "ored \<Rightarrow> bool" where
  "my_inv d \<longleftrightarrow> or_inv d \<and> or_maxp d = 0.1"

definition ar_inv :: "ared \<Rightarrow> bool" where
  "ar_inv d \<longleftrightarrow> or_inv d \<and> 0.009 \<le> or_maxp d \<and> or_maxp d \<le> 0.51 \<and>
     0 \<le> ar_alpha d \<and> ar_alpha d \<le> 0.01 \<and> ar_beta d = 0.9"

definition pa_inv :: "pared \<Rightarrow> bool" where
  "pa_inv d \<longleftrightarrow> or_inv d \<and> 0.0083 \<le> or_maxp d \<and> or_maxp d \<le> 0.609375 \<and>
     pa_E1 d = 2377.28180 \<and> pa_D1 d = 302.00101"

text \<open>
  The counters after \<open>n\<close> arrivals, as long as \<open>n\<close> fits in an \<open>int\<close>: the drops counted
  for the loss rate are at most the arrivals, and every loss rate written is a rate.
\<close>

definition or_counts :: "nat \<Rightarrow> 'a ored_scheme \<Rightarrow> bool" where
  "or_counts n d \<longleftrightarrow> (int n < 2 ^ 31 \<longrightarrow> 0 \<le> or_dpktcnt d \<and> or_dpktcnt d \<le> or_pktcnt_pers_lp d \<and>
     or_pktcnt_pers_lp d \<le> int n \<and> (\<forall>x \<in> set (or_flosspkt2 d). unit_real x))"

definition pa_counts :: "nat \<Rightarrow> pared \<Rightarrow> bool" where
  "pa_counts n d \<longleftrightarrow> or_counts n d \<and> (int n < 2 ^ 31 \<longrightarrow> pa_pktcnt_pers d = int n)"

lemma or_inv_init [simp]: "or_inv (my_init junk pertime d)" "or_counts 0 (my_init junk pertime d)"
  by (simp_all add: or_inv_def my_init_def or_counts_def)

lemma own_chance_unit: "or_inv d \<Longrightarrow> 5 \<le> or_avg d \<Longrightarrow> or_avg d < 15 \<Longrightarrow> unit_real (own_chance d)"
  using mult_le_one [of "(or_avg d - 5) / 10" "or_maxp d"] by (simp add: own_chance_def or_inv_def)

text \<open>The outcome of \<open>own_admit\<close>.\<close>

lemma own_admit_cases:
  assumes "or_inv d"
  obtains (accept) pd draws where "unit_real pd" "length (or_q d) < 35"
      "own_admit rnd now p d = Ok (own_accept now p (d\<lparr>or_pd := pd, or_draws := draws\<rparr>), [])"
    | (drop) pd draws where "unit_real pd"
      "own_admit rnd now p d = Ok (own_drop (d\<lparr>or_pd := pd, or_draws := draws\<rparr>), [p])"
proof -
  have upd: "d\<lparr>or_pd := or_pd d, or_draws := or_draws d\<rparr> = d"
    "d\<lparr>or_pd := c, or_draws := or_draws d\<rparr> = d\<lparr>or_pd := c\<rparr>" for c by simp_all
  consider "length (or_q d) \<ge> 35" | "length (or_q d) < 35" "or_avg d < 5"
    | "length (or_q d) < 35" "5 \<le> or_avg d" "or_avg d < 15" | "length (or_q d) < 35" "15 \<le> or_avg d"
    by linarith
  then show ?thesis
  proof cases
    case 1
    then show ?thesis using assms drop [of "or_pd d" "or_draws d"] by (simp add: own_admit_def or_inv_def)
  next
    case 2
    then show ?thesis using assms accept [of 0 "or_draws d"] by (simp add: own_admit_def or_inv_def)
  next
    case 3
    with assms have "\<not> 35 \<le> list_len (or_q d)" "\<not> or_avg d < of_int (or_minth d)"
      "of_int (or_minth d) \<le> or_avg d \<and> or_avg d < of_int (or_maxth d)" by (simp_all add: or_inv_def)
    with 3 show ?thesis
      using own_chance_unit [OF assms] accept [of "own_chance d" "Suc (or_draws d)"]
        drop [of "own_chance d" "Suc (or_draws d)"]
      by (cases "real_of_int (rnd (or_draws d) mod 100) \<le> own_chance d * 100")
         (simp_all add: own_admit_def Let_def)
  next
    case 4
    then show ?thesis using assms drop [of 1 "or_draws d"] by (simp add: own_admit_def or_inv_def)
  qed
qed

lemma own_admit_ok:
  assumes "or_inv d"
  obtains d' drops where "own_admit rnd now p d = Ok (d', drops)" "or_inv d'"
    "addrs (or_q d') + addrs drops = add_mset (pk_addr p) (addrs (or_q d))"
    "qb_blocked d' = qb_blocked d" "qb_unblock_on_resume d' = qb_unblock_on_resume d"
    "subseq (map pk_addr (or_q d')) (map pk_addr (or_q d) @ [pk_addr p])"
    "or_maxp d' = or_maxp d" "ored.more d' = ored.more d"
    "or_pktcnt_pers_lp d' = or_pktcnt_pers_lp d" "or_flosspkt2 d' = or_flosspkt2 d"
    "or_dpktcnt d' = (if drops = [] then or_dpktcnt d else wrap_s32 (or_dpktcnt d + 1))"
  using assms
proof (cases rule: own_admit_cases [of d rnd now p])
  case (accept pd draws)
  show ?thesis
    by (rule that [OF accept(3)]) (use assms accept in \<open>simp_all add: own_accept_def or_inv_def\<close>)
next
  case (drop pd draws)
  show ?thesis
    by (rule that [OF drop(2)]) (use assms drop in \<open>simp_all add: own_drop_def or_inv_def prefix_imp_subseq\<close>)
qed

lemma own_arrival_frame [simp]:
  "or_inv (own_arrival d) = or_inv d" "or_q (own_arrival d) = or_q d" "or_maxp (own_arrival d) = or_maxp d"
  "qb_blocked (own_arrival d) = qb_blocked d" "or_dpktcnt (own_arrival d) = or_dpktcnt d"
  "qb_unblock_on_resume (own_arrival d) = qb_unblock_on_resume d"
  "or_flosspkt2 (own_arrival d) = or_flosspkt2 d" "ored.more (own_arrival d) = ored.more d"
  "or_pktcnt_pers_lp (own_arrival d) = wrap_s32 (or_pktcnt_pers_lp d + 1)"
  by (simp_all add: own_arrival_def or_inv_def)

lemma own_average_inv:
  assumes "or_inv d"
  shows "or_inv (own_average d)"
proof -
  have wq: "or_wq d = 0.002" and avg: "or_avgL d = or_avg d" "0 \<le> or_avg d" "or_avg d \<le> 35"
    and len: "length (or_q d) \<le> 35"
    using assms by (simp_all only: or_inv_def)
  have "(1 - 0.002) * or_avg d + 0.002 * real (length (or_q d)) \<le> 35" using avg len by simp
  with assms wq avg show ?thesis by (simp only: own_average_def or_inv_def Let_def) simp
qed

lemma own_average_frame [simp]:
  "or_q (own_average d) = or_q d" "or_maxp (own_average d) = or_maxp d"
  "qb_blocked (own_average d) = qb_blocked d" "qb_unblock_on_resume (own_average d) = qb_unblock_on_resume d"
  "or_dpktcnt (own_average d) = or_dpktcnt d" "or_pktcnt_pers_lp (own_average d) = or_pktcnt_pers_lp d"
  "or_flosspkt2 (own_average d) = or_flosspkt2 d" "ored.more (own_average d) = ored.more d"
  by (simp_all add: own_average_def Let_def)

text \<open>\<open>output\<close> and \<open>totalpkt\<close> only write files and clear counters.\<close>

lemma own_statistics_frame [simp]:
  "or_inv (own_output now d) = or_inv d" "or_inv (own_totalpkt d) = or_inv d"
  "or_q (own_output now d) = or_q d" "or_q (own_totalpkt d) = or_q d"
  "or_maxp (own_output now d) = or_maxp d" "or_maxp (own_totalpkt d) = or_maxp d"
  "qb_blocked (own_output now d) = qb_blocked d" "qb_blocked (own_totalpkt d) = qb_blocked d"
  "qb_unblock_on_resume (own_output now d) = qb_unblock_on_resume d"
  "qb_unblock_on_resume (own_totalpkt d) = qb_unblock_on_resume d"
  "ored.more (own_output now d) = ored.more d" "ored.more (own_totalpkt d) = ored.more d"
  "or_counts n (own_totalpkt d) = or_counts n d"
  by (simp_all add: own_output_def own_totalpkt_def own_putQl_def own_putAvg_def own_putLp_def
      own_putTp_def or_inv_def or_counts_def Let_def)

lemma own_output_counts: "or_counts n d \<Longrightarrow> or_counts n (own_output now d)"
  by (auto simp: own_output_def own_putQl_def own_putAvg_def own_putLp_def own_putTp_def or_counts_def Let_def
      divide_le_eq)

lemma own_admit_counts:
  assumes "or_inv d" "or_counts n d" "own_admit rnd now p (own_arrival d) = Ok (d', drops)"
  shows "or_counts (Suc n) d'"
proof -
  have "or_inv (own_arrival d)" using assms(1) by simp
  then show ?thesis
    using assms(2,3) by (cases rule: own_admit_ok [of _ rnd now p]) (auto simp: or_counts_def)
qed

lemma own_deque_counts: "or_counts n d \<Longrightarrow> own_deque now d = Ok (r, d') \<Longrightarrow> or_counts n d'"
  by (cases "or_q d") (auto simp: own_deque_def or_counts_def)

section \<open>The contract of the three queues\<close>

text \<open>
  A link with one of these queues: packets arrive, the link finishes, and commands come
  from Tcl, in any order.
\<close>

inductive own_reach ::
  "'a ored_scheme enq_fun \<Rightarrow> 'a ored_scheme deq_fun \<Rightarrow>
   (real \<Rightarrow> string list \<Rightarrow> 'a ored_scheme \<Rightarrow> 'a ored_scheme option) \<Rightarrow>
   'a ored_scheme \<Rightarrow> 'a ored_scheme link res \<Rightarrow> bool"
  for enq deq cmd q0 where
    own_start: "own_reach enq deq cmd q0 (Ok (link_start q0))"
  | own_link: "own_reach enq deq cmd q0 (Ok l) \<Longrightarrow> link_step (\<lambda>_. True) enq deq l r \<Longrightarrow>
      own_reach enq deq cmd q0 r"
  | own_cmd: "own_reach enq deq cmd q0 (Ok l) \<Longrightarrow> cmd now argv (lk_queue l) = Some q \<Longrightarrow>
      own_reach enq deq cmd q0 (Ok (l\<lparr>lk_queue := q\<rparr>))"

text \<open>
  What the three provide: a first-in-first-out discipline whose commands leave the queue
  alone, and counters that record the number of arrivals (\<open>counts\<close>).
\<close>

locale own_red = fifo_discipline enq deq "\<lambda>_. True" or_q inv
  for enq :: "'a ored_scheme enq_fun" and deq :: "'a ored_scheme deq_fun"
    and inv :: "'a ored_scheme \<Rightarrow> bool" +
  fixes cmd :: "real \<Rightarrow> string list \<Rightarrow> 'a ored_scheme \<Rightarrow> 'a ored_scheme option"
    and counts :: "nat \<Rightarrow> 'a ored_scheme \<Rightarrow> bool"
  assumes cmd: "inv q \<Longrightarrow> cmd now argv q = Some q' \<Longrightarrow> inv q' \<and> or_q q' = or_q q \<and>
      qb_blocked q' = qb_blocked q \<and> qb_unblock_on_resume q' = qb_unblock_on_resume q"
    and counts_enq: "inv q \<Longrightarrow> counts n q \<Longrightarrow> enq now p q = Ok (q', drops) \<Longrightarrow> counts (Suc n) q'"
    and counts_deq: "counts n q \<Longrightarrow> deq now q = Ok (x, q') \<Longrightarrow> counts n q'"
    and counts_cmd: "counts n q \<Longrightarrow> cmd now argv q = Some q' \<Longrightarrow> counts n q'"
    and counts_frame: "counts n q \<Longrightarrow> qbase.more r = qbase.more q \<Longrightarrow> counts n r"
begin

abbreviation own_inv :: "'a ored_scheme link \<Rightarrow> bool" where
  "own_inv l \<equiv> link_inv l \<and> in_order l \<and> counts (length (lk_arrived l)) (lk_queue l)"

lemma counts_touch: "counts n q \<Longrightarrow> counts n ((q_touch now q)\<lparr>qb_blocked := b\<rparr>)"
  by (erule counts_frame) simp

lemma own_inv_arrive:
  assumes l: "own_inv l" and new: "pk_addr p \<notin> pk_addr ` set (lk_arrived l)"
  shows "\<exists>l'. link_arrive enq deq now p l = Ok l' \<and> own_inv l'"
proof -
  obtain l' where l': "link_arrive enq deq now p l = Ok l'" "link_inv l'"
    using link_inv_arrive [of l p now] assms by auto
  moreover have "in_order l'" using in_order_arrive [of l p now l'] assms l'(1) by auto
  moreover have "counts (length (lk_arrived l')) (lk_queue l')"
  proof -
    let ?n = "Suc (length (lk_arrived l))"
    have inv: "inv (lk_queue l)" using l by (simp add: link_inv_def)
    obtain q1 drops where q1: "enq now p (lk_queue l) = Ok (q1, drops)"
      using l'(1) by (auto simp: link_arrive_def q_recv_def)
    then have c1: "counts ?n q1" using counts_enq inv l by blast
    show ?thesis
    proof (cases "qb_blocked q1")
      case True
      with q1 c1 l'(1) show ?thesis by (auto simp: link_arrive_def q_recv_def)
    next
      case False
      then obtain x q2 where d: "deq now q1 = Ok (x, q2)"
        using q1 l'(1) by (auto simp: link_arrive_def q_recv_def split: if_splits)
      with c1 have "counts ?n q2" "counts ?n ((q_touch now q2)\<lparr>qb_blocked := True\<rparr>)"
        using counts_deq counts_touch by blast+
      with False d q1 l'(1) show ?thesis
        by (cases x) (auto simp: link_arrive_def q_recv_def)
    qed
  qed
  ultimately show ?thesis by blast
qed

lemma own_inv_done:
  assumes l: "own_inv l" "lk_busy l"
  shows "\<exists>l'. link_done deq now l = Ok l' \<and> own_inv l'"
proof -
  obtain l' where l': "link_done deq now l = Ok l'" "link_inv l'"
    using link_inv_done [of l now] assms by auto
  moreover have "in_order l'" using in_order_done [of l now l'] assms l'(1) by auto
  moreover have "counts (length (lk_arrived l')) (lk_queue l')"
  proof -
    have inv: "inv (lk_queue l)" using l by (simp add: link_inv_def)
    then show ?thesis
    proof (cases rule: deq_cases [where now = now])
      case (empty q')
      with l l'(1) show ?thesis
        by (auto simp: link_done_def q_resume_def intro!: counts_touch counts_deq [OF _ empty(1)])
    next
      case (packet p q')
      with l l'(1) show ?thesis
        by (auto simp: link_done_def q_resume_def intro!: counts_deq [OF _ packet(1)])
    qed
  qed
  ultimately show ?thesis by blast
qed

lemma own_inv_cmd: "own_inv l \<Longrightarrow> cmd now argv (lk_queue l) = Some q \<Longrightarrow> own_inv (l\<lparr>lk_queue := q\<rparr>)"
  using cmd [of "lk_queue l" now argv q] counts_cmd [of "length (lk_arrived l)" "lk_queue l" now argv q]
  by (auto simp: link_inv_def in_order_def)

lemma own_reach_inv:
  assumes "own_reach enq deq cmd q0 r" "inv q0" "counts 0 q0" "or_q q0 = []" "\<not> qb_blocked q0"
    "qb_unblock_on_resume q0"
  shows "\<exists>l. r = Ok l \<and> own_inv l"
  using assms
proof (induction rule: own_reach.induct)
  case own_start
  then show ?case by (simp add: link_inv_def in_order_def link_start_def)
next
  case (own_link l r)
  then have l: "own_inv l" by simp
  from own_link.hyps(2) show ?case
  proof (cases rule: link_step.cases)
    case (arrive p now)
    then show ?thesis using own_inv_arrive [OF l, of p now] by auto
  next
    case (finish now)
    then show ?thesis using own_inv_done [OF l, of now] by auto
  qed
next
  case (own_cmd l now argv q)
  then have "own_inv l" by simp
  from own_inv_cmd [OF this own_cmd.hyps(2)] show ?case by blast
qed

end

lemma own_admit_enq_ok:
  assumes "or_inv d" "or_q d = or_q q" "qb_blocked d = qb_blocked q"
    "qb_unblock_on_resume d = qb_unblock_on_resume q"
    and "\<And>d'. or_inv d' \<Longrightarrow> or_maxp d' = or_maxp d \<Longrightarrow> ored.more d' = ored.more d \<Longrightarrow> I d'"
  shows "enq_ok or_q I p q (own_admit rnd now p d)"
  using assms by (cases rule: own_admit_ok [of d rnd now p]) (simp_all add: enq_ok_def)

lemma own_deque_deq_ok:
  assumes "or_inv d"
    and "\<And>d'. or_inv d' \<Longrightarrow> or_maxp d' = or_maxp d \<Longrightarrow> ored.more d' = ored.more d \<Longrightarrow> I d'"
  shows "deq_ok or_q I d (own_deque now d)"
  using assms by (cases "or_q d") (simp_all add: own_deque_def deq_ok_def or_inv_def)

lemma own_deque_order:
  "own_deque now d = Ok (Some p, d') \<Longrightarrow> map pk_addr (or_q d) = pk_addr p # map pk_addr (or_q d')"
  by (cases "or_q d") (auto simp: own_deque_def)

lemma own_admit_order:
  "or_inv d \<Longrightarrow> own_admit rnd now p d = Ok (d', drops) \<Longrightarrow>
   subseq (map pk_addr (or_q d')) (map pk_addr (or_q d) @ [pk_addr p])"
  by (cases rule: own_admit_ok [of d rnd now p]) auto

text \<open>A step of the base class leaves the members of the queue alone.\<close>

lemma own_more:
  fixes q r :: "'a ored_scheme"
  assumes "qbase.more r = qbase.more q"
  shows "or_q r = or_q q" "or_inv r = or_inv q" "or_maxp r = or_maxp q" "ored.more r = ored.more q"
    "or_counts n r = or_counts n q"
  using assms by (cases q; cases r; simp add: or_inv_def or_counts_def)+

lemmas own_contract = own_admit_enq_ok own_deque_deq_ok own_deque_order own_admit_order own_more(1)

lemma own_average_idle [simp]: "or_counts n (own_average d) = or_counts n d"
  by (simp add: or_counts_def)

lemma own_command_cases:
  assumes "own_command getAvg now argv d = Some d'"
  obtains "d' = own_totalpkt d" | "d' = getAvg d" | "d' = own_output now d"
  using assms by (auto simp: own_command_def split: if_splits)

lemma own_command_ok:
  assumes "own_command getAvg now argv d = Some d'" "I d" "or_inv d"
    and "\<And>d'. or_inv d' \<Longrightarrow> or_maxp d' = or_maxp d \<Longrightarrow> ored.more d' = ored.more d \<Longrightarrow> I d'"
    and "I (getAvg d)" "or_q (getAvg d) = or_q d" "qb_blocked (getAvg d) = qb_blocked d"
    and "qb_unblock_on_resume (getAvg d) = qb_unblock_on_resume d"
  shows "I d' \<and> or_q d' = or_q d \<and> qb_blocked d' = qb_blocked d \<and>
    qb_unblock_on_resume d' = qb_unblock_on_resume d"
  using assms(1) by (cases rule: own_command_cases) (use assms in simp_all)

lemma own_command_counts:
  "own_command getAvg now argv d = Some d' \<Longrightarrow> or_counts n d \<Longrightarrow> or_counts n (getAvg d) \<Longrightarrow> or_counts n d'"
  by (erule own_command_cases) (simp_all add: own_output_counts)

interpretation myred: own_red "my_enque rnd" own_deque my_inv my_command or_counts for rnd
proof unfold_locales
  fix q q' r :: ored and p :: packet and now and drops and n and x and argv
  show "enq_ok or_q my_inv p q (my_enque rnd now p q)" if "my_inv q"
    using that unfolding my_enque_def by (intro own_admit_enq_ok) (auto simp: my_inv_def)
  show "deq_ok or_q my_inv q (own_deque now q)" if "my_inv q"
    using that by (intro own_deque_deq_ok) (auto simp: my_inv_def)
  show "my_inv r" if "my_inv q" "qbase.more r = qbase.more q"
    using that own_more [of r q] by (simp add: my_inv_def)
  show "or_q r = or_q q" if "qbase.more r = qbase.more q"
    using that by (rule own_more)
  show "subseq (map pk_addr (or_q q')) (map pk_addr (or_q q) @ [pk_addr p])"
    if "my_inv q" "my_enque rnd now p q = Ok (q', drops)"
    using that own_admit_order [of "own_arrival q" rnd now p q' drops] by (simp add: my_inv_def my_enque_def)
  show "map pk_addr (or_q q) = pk_addr p # map pk_addr (or_q q')" if "own_deque now q = Ok (Some p, q')"
    using that by (rule own_deque_order)
  show "my_inv q' \<and> or_q q' = or_q q \<and> qb_blocked q' = qb_blocked q \<and>
      qb_unblock_on_resume q' = qb_unblock_on_resume q"
    if "my_inv q" "my_command now argv q = Some q'"
    using that(2) unfolding my_command_def
    by (rule own_command_ok) (use that in \<open>auto simp: my_inv_def my_getAvg_def own_average_inv\<close>)
  show "or_counts (Suc n) q'" if "my_inv q" "or_counts n q" "my_enque rnd now p q = Ok (q', drops)"
    using that own_admit_counts by (auto simp: my_inv_def my_enque_def)
  show "or_counts n q'" if "or_counts n q" "own_deque now q = Ok (x, q')"
    using that by (rule own_deque_counts)
  show "or_counts n q'" if "or_counts n q" "my_command now argv q = Some q'"
    using that own_command_counts [of my_getAvg now argv q q' n] by (simp add: my_command_def my_getAvg_def)
  show "or_counts n r" if "or_counts n q" "qbase.more r = qbase.more q"
    using that own_more [of r q] by simp
qed

lemma ared_more:
  fixes q r :: ared
  assumes "ored.more r = ored.more q"
  shows "ar_alpha r = ar_alpha q" "ar_beta r = ar_beta q"
  using assms by (cases q; cases r; simp)+

lemma pared_more:
  fixes q r :: pared
  assumes "ored.more r = ored.more q"
  shows "pa_E1 r = pa_E1 q" "pa_D1 r = pa_D1 q" "pa_pktcnt_pers r = pa_pktcnt_pers q"
  using assms by (cases q; cases r; simp)+

lemma ar_inv_or: "ar_inv q \<Longrightarrow> or_inv q"
  by (simp add: ar_inv_def)

lemma pa_inv_or: "pa_inv q \<Longrightarrow> or_inv q"
  by (simp add: pa_inv_def)

lemma ar_inv_frame: "ar_inv q \<Longrightarrow> or_inv r \<Longrightarrow> or_maxp r = or_maxp q \<Longrightarrow> ored.more r = ored.more q \<Longrightarrow> ar_inv r"
  using ared_more [of r q] by (simp add: ar_inv_def)

lemma pa_inv_frame: "pa_inv q \<Longrightarrow> or_inv r \<Longrightarrow> or_maxp r = or_maxp q \<Longrightarrow> ored.more r = ored.more q \<Longrightarrow> pa_inv r"
  using pared_more [of r q] by (simp add: pa_inv_def)

lemma ared_average [simp]:
  fixes d :: ared
  shows "ar_alpha (own_average d) = ar_alpha d" "ar_beta (own_average d) = ar_beta d"
  using ared_more [of "own_average d" d] by simp_all

lemma small_alpha_bounds: "0 \<le> maxp \<Longrightarrow> 0 \<le> small_alpha maxp \<and> small_alpha maxp \<le> 0.01"
  by (simp add: small_alpha_def)

lemma or_inv_maxp: "or_inv d \<Longrightarrow> unit_real m \<Longrightarrow> or_inv (d\<lparr>or_maxp := m\<rparr>)"
  by (simp add: or_inv_def)

lemma ar_getAvg_ok:
  assumes "ar_inv d"
  shows "ar_inv (ar_getAvg d)"
proof -
  let ?a = "own_average d"
  have a: "or_inv ?a" using assms by (simp add: ar_inv_def own_average_inv)
  have m: "0.009 \<le> or_maxp d" "or_maxp d \<le> 0.51" "0 \<le> ar_alpha d" "ar_alpha d \<le> 0.01"
    and b: "ar_beta d = 0.9"
    using assms by (simp_all only: ar_inv_def)
  have "ar_inv (d1\<lparr>ar_alpha := small_alpha (or_maxp d1)\<rparr>)"
    if "d1 = ?a\<lparr>or_maxp := mp\<rparr>" "0.009 \<le> mp" "mp \<le> 0.51" for d1 :: ared and mp
    using or_inv_maxp [OF a, of mp] small_alpha_bounds [of mp] that b
    by (simp add: ar_inv_def or_inv_def)
  from this [of "?a\<lparr>or_maxp := mp\<rparr>" mp for mp] this [of ?a "or_maxp d"] m show ?thesis
    by (simp add: ar_getAvg_def Let_def b)
qed

lemma ar_getAvg_frame [simp]:
  "or_q (ar_getAvg d) = or_q d" "qb_blocked (ar_getAvg d) = qb_blocked d"
  "qb_unblock_on_resume (ar_getAvg d) = qb_unblock_on_resume d" "or_counts n (ar_getAvg d) = or_counts n d"
  by (simp_all add: ar_getAvg_def Let_def or_counts_def)

interpretation ared: own_red "ar_enque rnd" own_deque ar_inv ar_command or_counts for rnd
proof unfold_locales
  fix q q' r :: ared and p :: packet and now and drops and n and x and argv
  show "enq_ok or_q ar_inv p q (ar_enque rnd now p q)" if "ar_inv q"
    using that unfolding ar_enque_def by (intro own_admit_enq_ok ar_inv_frame [OF that]) (auto simp: ar_inv_def)
  show "deq_ok or_q ar_inv q (own_deque now q)" if "ar_inv q"
    using that by (intro own_deque_deq_ok ar_inv_frame [OF that]) (auto simp: ar_inv_def)
  show "ar_inv r" if "ar_inv q" "qbase.more r = qbase.more q"
    using that own_more [of r q] by (intro ar_inv_frame [OF that(1)]) (auto simp: ar_inv_def)
  show "or_q r = or_q q" if "qbase.more r = qbase.more q"
    using that by (rule own_more)
  show "subseq (map pk_addr (or_q q')) (map pk_addr (or_q q) @ [pk_addr p])"
    if "ar_inv q" "ar_enque rnd now p q = Ok (q', drops)"
    using that own_admit_order [of "own_arrival q" rnd now p q' drops] by (simp add: ar_inv_def ar_enque_def)
  show "map pk_addr (or_q q) = pk_addr p # map pk_addr (or_q q')" if "own_deque now q = Ok (Some p, q')"
    using that by (rule own_deque_order)
  show "ar_inv q' \<and> or_q q' = or_q q \<and> qb_blocked q' = qb_blocked q \<and>
      qb_unblock_on_resume q' = qb_unblock_on_resume q"
    if "ar_inv q" "ar_command now argv q = Some q'"
    using that(2) unfolding ar_command_def
    by (rule own_command_ok)
       (use that in \<open>auto intro: ar_getAvg_ok ar_inv_frame dest: ar_inv_or\<close>)
  show "or_counts (Suc n) q'" if "ar_inv q" "or_counts n q" "ar_enque rnd now p q = Ok (q', drops)"
    using that own_admit_counts by (auto simp: ar_inv_def ar_enque_def)
  show "or_counts n q'" if "or_counts n q" "own_deque now q = Ok (x, q')"
    using that by (rule own_deque_counts)
  show "or_counts n q'" if "or_counts n q" "ar_command now argv q = Some q'"
    using that own_command_counts [of ar_getAvg now argv q q' n] by (simp add: ar_command_def)
  show "or_counts n r" if "or_counts n q" "qbase.more r = qbase.more q"
    using that own_more [of r q] by simp
qed

text \<open>The level of the traffic and the step it allows.\<close>

lemma pa_getLevel_range:
  assumes "pa_D1 d \<ge> 0"
  shows "1 \<le> pa_getLevel d \<and> pa_getLevel d \<le> 8"
  using assms by (simp add: pa_getLevel_def Let_def)

lemma pa_getLevel_average [simp]: "pa_getLevel (own_average d) = pa_getLevel d"
  using pared_more [of "own_average d" d] by (simp add: pa_getLevel_def)

lemma pa_beta_bounds:
  fixes x :: real
  assumes "1 \<le> x" "x \<le> 4"
  shows "0.83 \<le> 0.83 + 0.07 * 0.2 * (x - 1)" "0.83 + 0.07 * 0.2 * (x - 1) \<le> 1"
  using assms by (simp_all add: field_simps)

lemma pa_getAvg_ok:
  assumes "pa_inv d"
  shows "pa_inv (pa_getAvg d)"
proof -
  let ?a = "own_average d" and ?m = "or_maxp d" and ?l = "pa_getLevel d"
  have a: "pa_inv ?a"
    by (rule pa_inv_frame [OF assms]) (use own_average_inv pa_inv_or assms in auto)
  have ed: "pa_E1 d = 2377.28180" "pa_D1 d = 302.00101" and m: "0.0083 \<le> ?m"
    using assms by (simp_all only: pa_inv_def)
  have l: "1 \<le> real_of_int ?l" "real_of_int ?l \<le> 8"
    using pa_getLevel_range [of d] ed by simp_all
  have upd: "pa_inv (?a\<lparr>ar_alpha := x, or_maxp := mp\<rparr>)" "pa_inv (?a\<lparr>ar_beta := x, or_maxp := mp\<rparr>)"
    if "0.0083 \<le> mp" "mp \<le> 0.609375" for x mp
    using a that by (simp_all add: pa_inv_def or_inv_def)
  have up: "?m * (real_of_int ?l - 1) \<le> 0.5 * 7" "0 \<le> ?m * (real_of_int ?l - 1)" if "?m < 0.5"
    using that m l mult_mono [of ?m "0.5" "real_of_int ?l - 1" 7] by simp_all
  have down: "0.0083 \<le> ?m * (0.83 + 0.07 * 0.2 * (real_of_int ?l - 1))"
      "?m * (0.83 + 0.07 * 0.2 * (real_of_int ?l - 1)) \<le> 0.609375"
    if "0.01 < ?m" "?l < 5"
  proof -
    define b where "b = 0.83 + 0.07 * 0.2 * (real_of_int ?l - 1)"
    have "real_of_int ?l \<le> 4" using that(2) by linarith
    then have "0.83 \<le> b" "b \<le> 1" using l(1) pa_beta_bounds unfolding b_def by blast+
    moreover have "?m \<le> 0.609375" using assms by (simp only: pa_inv_def)
    ultimately have "0.0083 \<le> ?m * b" "?m * b \<le> 0.609375"
      using mult_mono [of "0.01" ?m "0.83" b] mult_mono [of ?m "0.609375" b 1] that(1) by simp_all
    then show "0.0083 \<le> ?m * (0.83 + 0.07 * 0.2 * (real_of_int ?l - 1))"
      "?m * (0.83 + 0.07 * 0.2 * (real_of_int ?l - 1)) \<le> 0.609375"
      by (simp_all only: b_def)
  qed
  show ?thesis
  proof (cases "ar_maxtarget ?a < or_avg ?a \<and> ?m < 0.5")
    case True
    let ?x = "if 5 \<le> ?l then 0.25 * ?m * 0.125 * of_int (?l - 1) else small_alpha ?m"
    have "0 \<le> ?x" "?x \<le> 0.109375"
      using True up small_alpha_bounds [of ?m] m by simp_all
    moreover have "0.0083 \<le> ?m + x \<and> ?m + x \<le> 0.609375" if "0 \<le> x" "x \<le> 0.109375" for x
      using that True m by simp
    ultimately have "0.0083 \<le> ?m + ?x" "?m + ?x \<le> 0.609375" by blast+
    from upd(1) [OF this, of ?x] True show ?thesis
      by (cases "5 \<le> ?l") (simp_all add: pa_getAvg_def Let_def)
  next
    case False
    show ?thesis
    proof (cases "or_avg ?a < ar_mintarget ?a \<and> 0.01 < ?m")
      case True
      let ?x = "if ?l < 5 then 0.83 + 0.07 * 0.2 * of_int (?l - 1) else (0.9 :: real)"
      have "?m \<le> 0.609375" using assms by (simp only: pa_inv_def)
      then have "0.0083 \<le> ?m * ?x" "?m * ?x \<le> 0.609375" using True down by simp_all
      from upd(2) [OF this, of ?x] True False show ?thesis
        by (cases "?l < 5"; cases "ar_maxtarget ?a < or_avg ?a") (simp_all add: pa_getAvg_def Let_def)
    qed (use a False in \<open>auto simp: pa_getAvg_def Let_def\<close>)
  qed
qed

lemma pa_getAvg_frame [simp]:
  "or_q (pa_getAvg d) = or_q d" "qb_blocked (pa_getAvg d) = qb_blocked d"
  "qb_unblock_on_resume (pa_getAvg d) = qb_unblock_on_resume d"
  "or_counts n (pa_getAvg d) = or_counts n d" "pa_pktcnt_pers (pa_getAvg d) = pa_pktcnt_pers d"
  using pared_more [of "own_average d" d] by (simp_all add: pa_getAvg_def Let_def or_counts_def)

lemma pa_statistics_frame [simp]:
  fixes d :: pared
  shows
  "pa_pktcnt_pers (own_output now d) = pa_pktcnt_pers d" "pa_pktcnt_pers (own_totalpkt d) = pa_pktcnt_pers d"
  using pared_more [of "own_output now d" d] pared_more [of "own_totalpkt d" d] by simp_all

lemma pa_inv_arrival:
  assumes "pa_inv d"
  shows "pa_inv ((own_arrival d)\<lparr>pa_pktcnt_pers := n\<rparr>)"
proof -
  have "pa_inv (own_arrival d)"
    by (rule pa_inv_frame [OF assms]) (use pa_inv_or [OF assms] in simp_all)
  then show ?thesis by (simp add: pa_inv_def or_inv_def)
qed

lemma pa_counts_admit:
  assumes "pa_inv d" "pa_counts n d" "pa_enque rnd now p d = Ok (d', drops)"
  shows "pa_counts (Suc n) d'"
proof -
  let ?c = "wrap_s32 (pa_pktcnt_pers d + 1)"
  let ?d = "d\<lparr>pa_pktcnt_pers := ?c\<rparr>"
  have eq: "(own_arrival d)\<lparr>pa_pktcnt_pers := c\<rparr> = own_arrival (d\<lparr>pa_pktcnt_pers := c\<rparr>)" for c
    by (simp add: own_arrival_def)
  have q: "own_admit rnd now p (own_arrival ?d) = Ok (d', drops)"
    using assms(3) pared_more [of "own_arrival d" d] by (simp add: pa_enque_def Let_def eq)
  have inv: "or_inv ?d" using assms(1) by (simp add: pa_inv_def or_inv_def)
  have "or_counts n ?d" using assms(2) by (simp add: pa_counts_def or_counts_def)
  from own_admit_counts [OF inv this q] have "or_counts (Suc n) d'" .
  moreover have "pa_pktcnt_pers d' = ?c"
  proof -
    have "or_inv (own_arrival ?d)" using inv by simp
    then show ?thesis
      using q pared_more [of d' ?d] by (cases rule: own_admit_ok [of _ rnd now p]) auto
  qed
  ultimately show ?thesis using assms(2) by (simp add: pa_counts_def)
qed

interpretation pared: own_red "pa_enque rnd" own_deque pa_inv pa_command pa_counts for rnd
proof unfold_locales
  fix q q' r :: pared and p :: packet and now and drops and n and x and argv
  show "enq_ok or_q pa_inv p q (pa_enque rnd now p q)" if "pa_inv q"
    unfolding pa_enque_def Let_def
    by (rule own_admit_enq_ok)
       (auto intro: pa_inv_or [OF pa_inv_arrival [OF that]] pa_inv_frame [OF pa_inv_arrival [OF that]])
  show "deq_ok or_q pa_inv q (own_deque now q)" if "pa_inv q"
    using that by (intro own_deque_deq_ok pa_inv_frame [OF that]) (auto simp: pa_inv_def)
  show "pa_inv r" if "pa_inv q" "qbase.more r = qbase.more q"
    using that own_more [of r q] by (intro pa_inv_frame [OF that(1)]) (auto simp: pa_inv_def)
  show "or_q r = or_q q" if "qbase.more r = qbase.more q"
    using that by (rule own_more)
  show "subseq (map pk_addr (or_q q')) (map pk_addr (or_q q) @ [pk_addr p])"
    if "pa_inv q" "pa_enque rnd now p q = Ok (q', drops)"
    using own_admit_order [of "(own_arrival q)\<lparr>pa_pktcnt_pers := wrap_s32 (pa_pktcnt_pers (own_arrival q) + 1)\<rparr>" rnd now p q' drops]
      that(2) pa_inv_or [OF pa_inv_arrival [OF that(1)]] by (simp add: pa_enque_def Let_def)
  show "map pk_addr (or_q q) = pk_addr p # map pk_addr (or_q q')" if "own_deque now q = Ok (Some p, q')"
    using that by (rule own_deque_order)
  show "pa_inv q' \<and> or_q q' = or_q q \<and> qb_blocked q' = qb_blocked q \<and>
      qb_unblock_on_resume q' = qb_unblock_on_resume q"
    if "pa_inv q" "pa_command now argv q = Some q'"
    using that(2) unfolding pa_command_def
    by (rule own_command_ok) (use that in \<open>auto intro: pa_getAvg_ok pa_inv_frame dest: pa_inv_or\<close>)
  show "pa_counts (Suc n) q'" if "pa_inv q" "pa_counts n q" "pa_enque rnd now p q = Ok (q', drops)"
    using that by (rule pa_counts_admit)
  show "pa_counts n q'" if "pa_counts n q" "own_deque now q = Ok (x, q')"
    using that own_deque_counts [of n q now x q'] pared_more [of q' q]
    by (cases "or_q q") (auto simp: pa_counts_def own_deque_def)
  show "pa_counts n q'" if "pa_counts n q" "pa_command now argv q = Some q'"
    using that own_command_counts [of pa_getAvg now argv q q' n] unfolding pa_command_def
    by (auto elim!: own_command_cases simp: pa_counts_def)
  show "pa_counts n r" if "pa_counts n q" "qbase.more r = qbase.more q"
    using that own_more [of r q] pared_more [of r q] by (simp add: pa_counts_def)
qed

text \<open>The constructors establish the invariants.\<close>

lemma own_init_inv:
  "my_inv (my_init junk pertime q)" "ar_inv (ar_init junk pertime q')" "pa_inv (pa_init junk pertime q'')"
  "pa_counts 0 (pa_init junk pertime q'')"
  by (simp_all add: my_inv_def ar_inv_def pa_inv_def pa_init_def ar_init_def my_init_def or_inv_def
      small_alpha_def pa_counts_def or_counts_def Let_def)

lemma own_init_frame [simp]:
  "or_counts 0 (ar_init junk pertime q')" "or_q (my_init junk pertime q) = []"
  "or_q (ar_init junk pertime q') = []" "or_q (pa_init junk pertime q'') = []"
  "qb_blocked (my_init junk pertime q) = qb_blocked q" "qb_blocked (ar_init junk pertime q') = qb_blocked q'"
  "qb_blocked (pa_init junk pertime q'') = qb_blocked q''"
  "qb_unblock_on_resume (my_init junk pertime q) = qb_unblock_on_resume q"
  "qb_unblock_on_resume (ar_init junk pertime q') = qb_unblock_on_resume q'"
  "qb_unblock_on_resume (pa_init junk pertime q'') = qb_unblock_on_resume q''"
  by (simp_all add: pa_init_def ar_init_def my_init_def or_counts_def Let_def)

text \<open>The number of draws, of a hundred, that drop the packet.\<close>

lemma card_at_most:
  assumes "0 \<le> x" "x < 100"
  shows "card {a \<in> {0..<100::int}. real_of_int a \<le> x} = nat \<lfloor>x\<rfloor> + 1"
proof -
  have "{a \<in> {0..<100::int}. real_of_int a \<le> x} = {0..\<lfloor>x\<rfloor>}"
    using assms by (auto simp: le_floor_iff intro: order_le_less_trans)
  then show ?thesis using assms(1) by (simp add: nat_add_distrib)
qed

lemma own_chance_below:
  assumes "or_inv d" "5 \<le> or_avg d" "or_avg d < 15"
  shows "own_chance d < 1"
proof -
  have "own_chance d \<le> (or_avg d - 5) / 10 * 1"
    using assms mult_left_mono [of "or_maxp d" 1 "(or_avg d - 5) / 10"] by (simp add: own_chance_def or_inv_def)
  then show ?thesis using assms(3) by simp
qed

lemma own_admit_draw:
  assumes "or_inv d" "length (or_q d) < 35" "0 \<le> a" "a < 100"
  shows "(\<exists>d'. own_admit (\<lambda>_. a) now p d = Ok (d', [p])) \<longleftrightarrow>
    (if or_avg d < 5 then False else if or_avg d < 15 then real_of_int a \<le> 100 * own_chance d else True)"
  using assms by (simp add: own_admit_def or_inv_def Let_def mult.commute)

lemma own_arrival_chance [simp]:
  "own_chance (own_arrival d) = own_chance d" "or_avg (own_arrival d) = or_avg d"
  by (simp_all add: own_chance_def own_arrival_def)

section \<open>Properties\<close>

text \<open>What holds of a link with one of the three queues.\<close>

definition own_link_ok :: "'a ored_scheme link \<Rightarrow> bool" where
  "own_link_ok l \<longleftrightarrow>
     addrs (lk_arrived l) = addrs (lk_sent l) + addrs (lk_dropped l) + addrs (or_q (lk_queue l)) \<and>
     subseq (map pk_addr (lk_sent l @ or_q (lk_queue l))) (map pk_addr (lk_arrived l)) \<and>
     (\<not> lk_busy l \<longrightarrow> or_q (lk_queue l) = []) \<and> list_len (or_q (lk_queue l)) \<le> 35 \<and>
     0 \<le> or_avg (lk_queue l) \<and> or_avg (lk_queue l) \<le> 35 \<and> unit_real (or_pd (lk_queue l)) \<and>
     (int (length (lk_arrived l)) < 2 ^ 31 \<longrightarrow> (\<forall>x \<in> set (or_flosspkt2 (lk_queue l)). unit_real x))"

text \<open>
  C13: however packets arrive, the link finishes and Tcl calls \<open>getAvg\<close>, \<open>output\<close> and
  \<open>totalpkt\<close>, a link with the \<open>Myred\<close>, \<open>Ared\<close> or \<open>Pared\<close> queue never fails; every packet
  is sent, dropped or queued once and in order of arrival, the link is idle only when the queue
  is empty, at most 35 packets are queued, the average and the drop probability keep their
  bounds, every loss rate written is between 0 and 1, and the adapted \<open>maxp\<close> stays between
  0.009 and 0.51 (\<open>Ared\<close>) and between 0.0083 and 0.609375 (\<open>Pared\<close>).
\<close>

theorem own_red_links_safe:
  assumes "own_reach (my_enque rnd) own_deque my_command (my_init junk pertime q1) r1"
    and "own_reach (ar_enque rnd) own_deque ar_command (ar_init junk pertime q2) r2"
    and "own_reach (pa_enque rnd) own_deque pa_command (pa_init junk pertime q3) r3"
    and "\<not> qb_blocked q1" "\<not> qb_blocked q2" "\<not> qb_blocked q3"
    and "qb_unblock_on_resume q1" "qb_unblock_on_resume q2" "qb_unblock_on_resume q3"
  shows "(\<exists>l. r1 = Ok l \<and> own_link_ok l \<and> or_maxp (lk_queue l) = 0.1) \<and>
    (\<exists>l. r2 = Ok l \<and> own_link_ok l \<and> 0.009 \<le> or_maxp (lk_queue l) \<and> or_maxp (lk_queue l) \<le> 0.51) \<and>
    (\<exists>l. r3 = Ok l \<and> own_link_ok l \<and> 0.0083 \<le> or_maxp (lk_queue l) \<and> or_maxp (lk_queue l) \<le> 0.609375)"
proof (intro conjI)
  note defs = own_link_ok_def or_inv_def
  show "\<exists>l. r1 = Ok l \<and> own_link_ok l \<and> or_maxp (lk_queue l) = 0.1"
  proof -
    obtain l where "r1 = Ok l" "myred.own_inv l"
      using myred.own_reach_inv [OF assms(1) own_init_inv(1) or_inv_init(2)] assms(4,7) by auto
    then show ?thesis
      by (auto simp: defs my_inv_def or_counts_def myred.link_inv_def myred.in_order_def)
  qed
  show "\<exists>l. r2 = Ok l \<and> own_link_ok l \<and> 0.009 \<le> or_maxp (lk_queue l) \<and> or_maxp (lk_queue l) \<le> 0.51"
  proof -
    obtain l where "r2 = Ok l" "ared.own_inv l"
      using ared.own_reach_inv [OF assms(2) own_init_inv(2) own_init_frame(1)] assms(5,8) by auto
    then show ?thesis
      by (auto simp: defs ar_inv_def or_counts_def ared.link_inv_def ared.in_order_def)
  qed
  show "\<exists>l. r3 = Ok l \<and> own_link_ok l \<and> 0.0083 \<le> or_maxp (lk_queue l) \<and> or_maxp (lk_queue l) \<le> 0.609375"
  proof -
    obtain l where "r3 = Ok l" "pared.own_inv l"
      using pared.own_reach_inv [OF assms(3) own_init_inv(3,4)] assms(6,9) by auto
    then show ?thesis
      by (auto simp: defs pa_inv_def pa_counts_def or_counts_def pared.link_inv_def pared.in_order_def)
  qed
qed

definition demo_ored :: ored where
  "demo_ored = qbase.extend demo_qbase (ored.fields [] 0 0 0 0 0 0 0 0 0 0 0 0 0 0 0 0 0 0
     [] [] [] [] [] [] [] [] [] [] [])"

definition demo_ared :: ared where
  "demo_ared = ored.extend demo_ored (ared.fields 0 0 0 0)"

definition demo_pared :: pared where
  "demo_pared = ared.extend demo_ared (pared.fields 0 0 0)"

lemma demo_own_idle [simp]:
  "\<not> qb_blocked demo_ored" "\<not> qb_blocked demo_ared" "\<not> qb_blocked demo_pared"
  "qb_unblock_on_resume demo_ored" "qb_unblock_on_resume demo_ared" "qb_unblock_on_resume demo_pared"
  by (simp_all add: demo_ored_def demo_ared_def demo_pared_def demo_qbase_def ored.defs ared.defs qbase.defs)

lemma own_reach_one: "own_reach enq deq cmd q0 (link_arrive enq deq now p (link_start q0))"
  by (rule own_link [OF own_start]) (rule link_step.arrive, simp_all add: link_start_def)

theorem own_red_links_safe_witness:
  "(\<exists>l. link_arrive (my_enque (\<lambda>_. 7)) own_deque 1 (demo_packet 1) (link_start (my_init 0 1 demo_ored)) = Ok l \<and>
      own_link_ok l) \<and>
   (\<exists>l. link_arrive (ar_enque (\<lambda>_. 7)) own_deque 1 (demo_packet 2) (link_start (ar_init 0 1 demo_ared)) = Ok l \<and>
      own_link_ok l) \<and>
   (\<exists>l. link_arrive (pa_enque (\<lambda>_. 7)) own_deque 1 (demo_packet 3) (link_start (pa_init 0 1 demo_pared)) = Ok l \<and>
      own_link_ok l)"
  using own_red_links_safe [OF own_reach_one own_reach_one own_reach_one demo_own_idle] by blast

text \<open>
  C14: below 35 queued packets, of the hundred values of \<open>rand() % 100\<close> none drops the
  packet while the average is below \<open>minth\<close>, all do from \<open>maxth\<close> on, and in between the
  computed chance, in percent, rounded down and plus one: the comparison \<open>a <= pd*100\<close>
  drops one percent more than the drop probability, also where that is 0.
\<close>

theorem own_red_drop_chance:
  assumes "or_inv d" "length (or_q d) < 35"
  shows "card {a \<in> {0..<100}. \<exists>d'. own_admit (\<lambda>_. a) now p (own_arrival d) = Ok (d', [p])} =
    (if or_avg d < 5 then 0
     else if or_avg d < 15 then nat \<lfloor>100 * ((or_avg d - 5) / 10 * or_maxp d)\<rfloor> + 1
     else 100)"
proof -
  have chance: "own_chance d = (or_avg d - 5) / 10 * or_maxp d"
    using assms(1) by (simp add: own_chance_def or_inv_def)
  have "{a \<in> {0..<100}. \<exists>d'. own_admit (\<lambda>_. a) now p (own_arrival d) = Ok (d', [p])} =
    {a \<in> {0..<100}. if or_avg d < 5 then False else if or_avg d < 15
       then real_of_int a \<le> 100 * own_chance d else True}"
    using own_admit_draw [of "own_arrival d" _ now p] assms by (intro Collect_cong conj_cong refl) simp
  moreover have "card {a \<in> {0..<100::int}. real_of_int a \<le> 100 * own_chance d} =
      nat \<lfloor>100 * own_chance d\<rfloor> + 1" if "5 \<le> or_avg d" "or_avg d < 15"
    using card_at_most [of "100 * own_chance d"] own_chance_below [OF assms(1) that]
      own_chance_unit [OF assms(1) that] by simp
  moreover have "{a. 0 \<le> a \<and> a < (100::int)} = {0..<100}" by auto
  ultimately show ?thesis
    by (cases "or_avg d < 5"; cases "or_avg d < 15") (simp_all only: chance [symmetric] if_True if_False, simp_all)
qed

theorem own_red_drop_chance_witness:
  "card {a \<in> {0..<100}. \<exists>d'. own_admit (\<lambda>_. a) 1 (demo_packet 1)
      (own_arrival ((my_init 0 1 demo_ored)\<lparr>or_avg := 5, or_avgL := 5\<rparr>)) = Ok (d', [demo_packet 1])} = 1"
  by (subst own_red_drop_chance) (simp_all add: or_inv_def my_init_def)

text \<open>
  C15: the level of the traffic that \<open>Pared\<close> computes is one more than the number of its
  seven thresholds that are reached by the number of all packets that ever arrived, because
  \<open>pktcnt_pers\<close> is never reset: the level never falls, and after 3284 packets it is 8 for good.
\<close>

theorem pared_level_never_falls:
  assumes "own_reach (pa_enque rnd) own_deque pa_command (pa_init junk pertime q0) (Ok l)"
    and "\<not> qb_blocked q0" "qb_unblock_on_resume q0" "int (length (lk_arrived l)) < 2 ^ 31"
  shows "pa_getLevel (lk_queue l) =
    1 + int (length (filter (\<lambda>i. 2377.28180 + i * 302.00101 \<le> real (length (lk_arrived l))) [-3, -2, -1, 0, 1, 2, 3]))"
proof -
  have "pa_inv (lk_queue l)" "pa_counts (length (lk_arrived l)) (lk_queue l)"
    using pared.own_reach_inv [OF assms(1)] assms(2,3) own_init_inv(3,4) by (auto simp: pared.link_inv_def)
  with assms(4) have "pa_pktcnt_pers (lk_queue l) = int (length (lk_arrived l))"
    "pa_E1 (lk_queue l) = 2377.28180" "pa_D1 (lk_queue l) = 302.00101"
    by (simp_all only: pa_inv_def pa_counts_def)
  then show ?thesis by (simp only: pa_getLevel_def Let_def) simp
qed

theorem pared_level_never_falls_witness:
  "\<exists>l. link_arrive (pa_enque (\<lambda>_. 7)) own_deque 1 (demo_packet 3) (link_start (pa_init 0 1 demo_pared)) = Ok l \<and>
     pa_getLevel (lk_queue l) = 1"
proof -
  have reach: "own_reach (pa_enque (\<lambda>_. 7)) own_deque pa_command (pa_init 0 1 demo_pared)
      (link_arrive (pa_enque (\<lambda>_. 7)) own_deque 1 (demo_packet 3) (link_start (pa_init 0 1 demo_pared)))"
    by (rule own_reach_one)
  obtain l where l: "link_arrive (pa_enque (\<lambda>_. 7)) own_deque 1 (demo_packet 3)
      (link_start (pa_init 0 1 demo_pared)) = Ok l"
    using pared.own_reach_inv [OF reach own_init_inv(3,4)] by auto
  then have "length (lk_arrived l) = 1" by (auto simp: link_arrive_def link_start_def)
  with pared_level_never_falls [OF reach [unfolded l]] l show ?thesis by simp
qed

end
