(* ===== verification/Deficit_Round_Robin.thy ===== *)
theory Deficit_Round_Robin
  imports Drop_Tail
begin

text \<open>
  Class \<open>DRR\<close> of \<open>queue/drr.cc\<close>: deficit round robin over hash buckets. The array of
  buckets is a list of flows, empty while the pointer \<open>drr\<close> is null. The circular list of
  active flows through \<open>next\<close> and \<open>prev\<close> is the list of bucket indexes from \<open>curr\<close> on:
  activating a flow puts it before \<open>curr\<close>, that is last, and \<open>curr = curr->next\<close> rotates.
\<close>

unbundle bit_operations_syntax

record flow =
  fl_q :: "packet list"
  fl_pkts :: int
  fl_bcount :: int
  fl_deficit :: int
  fl_turn :: bool
  fl_src :: int

definition flow_new :: flow where
  "flow_new = \<lparr>fl_q = [], fl_pkts = 0, fl_bcount = 0, fl_deficit = 0, fl_turn = False, fl_src = -1\<rparr>"

record drr = qbase +
  dr_buckets :: int
  dr_blimit :: int
  dr_quantum :: int
  dr_mask :: bool
  dr_bytecnt :: int
  dr_pktcnt :: int
  dr_flwcnt :: int
  dr_ring :: "nat list"
  dr_flows :: "flow list"

abbreviation upd_flow :: "nat \<Rightarrow> (flow \<Rightarrow> flow) \<Rightarrow> drr \<Rightarrow> drr" where
  "upd_flow w f d \<equiv> d\<lparr>dr_flows := (dr_flows d)[w := f (dr_flows d ! w)]\<rparr>"

section \<open>The operations\<close>

text \<open>The constructor; \<open>bind\<close> overwrites the parameters with the values set in Tcl.\<close>

definition dr_new :: "qbase \<Rightarrow> int \<Rightarrow> int \<Rightarrow> int \<Rightarrow> bool \<Rightarrow> drr" where
  "dr_new base buckets blimit quantum msk =
     qbase.extend base (drr.fields buckets blimit quantum msk 0 0 0 [] [])"

definition dr_hash :: "bool \<Rightarrow> int \<Rightarrow> int" where
  "dr_hash msk saddr =
     (let i = (if msk then saddr AND 65520 else saddr)
      in c_mod (i + i div 2 ^ 8 + (- (i div 2 ^ 4) - 1)) (2 * 2 ^ 23 - 1) + 1)"

text \<open>\<open>activate\<close> and \<open>idle\<close> of the circular list.\<close>

definition ring_activate :: "nat \<Rightarrow> nat list \<Rightarrow> nat list" where
  "ring_activate w ring = ring @ [w]"

definition ring_idle :: "nat \<Rightarrow> nat list \<Rightarrow> nat list" where
  "ring_idle w ring = remove1 w ring"

definition ring_max :: "(nat \<Rightarrow> int) \<Rightarrow> nat \<Rightarrow> nat list \<Rightarrow> nat" where
  "ring_max bc n ring =
     foldl (\<lambda>m i. let t = ring ! (i mod length ring) in if bc m < bc t then t else m) (hd ring) [0..<n]"

definition dr_getMaxflow :: "drr \<Rightarrow> nat option" where
  "dr_getMaxflow d =
     (if dr_ring d = [] then None
      else Some (ring_max (\<lambda>w. fl_bcount (dr_flows d ! w)) (nat (dr_flwcnt d)) (dr_ring d)))"

text \<open>The loop of \<open>enque\<close> that drops from the flow with most bytes.\<close>

function dr_drop_loop :: "drr \<Rightarrow> packet list \<Rightarrow> (drr \<times> packet list) res" where
  "dr_drop_loop d drops =
     (if dr_bytecnt d > dr_blimit d then
        (case dr_getMaxflow d of
           None \<Rightarrow> Fail Null_Deref
         | Some w \<Rightarrow>
             if w \<ge> length (dr_flows d) then Fail Bad_Index
             else case fl_q (dr_flows d ! w) of
                 [] \<Rightarrow> Fail Null_Deref
               | p # ps \<Rightarrow>
                   let f = dr_flows d ! w;
                       f' = f\<lparr>fl_q := ps, fl_bcount := fl_bcount f - pk_size p, fl_pkts := fl_pkts f - 1\<rparr>;
                       d1 = d\<lparr>dr_flows := (dr_flows d)[w := f'], dr_bytecnt := dr_bytecnt d - pk_size p,
                              dr_pktcnt := dr_pktcnt d - 1\<rparr>;
                       d2 = (if fl_pkts f' = 0
                             then d1\<lparr>dr_ring := ring_idle w (dr_ring d1), dr_flwcnt := dr_flwcnt d1 - 1\<rparr>
                             else d1)
                   in dr_drop_loop d2 (drops @ [p]))
      else Ok (d, drops))"
  by pat_completeness auto
termination
proof (relation "measure (\<lambda>(d, _). length (concat (map fl_q (dr_flows d))))", simp, goal_cases)
  case (1 d drops w p ps f f' d1 d2)
  let ?qs = "map fl_q (dr_flows d)"
  have w: "w < length ?qs" "?qs ! w = p # ps" using 1 by auto
  have "size (mset (concat (?qs[w := ps])) + mset (?qs ! w)) = size (mset (concat ?qs) + mset ps)"
    using mset_concat_update [OF w(1), of ps] by (rule arg_cong)
  then have "length (concat (?qs[w := ps])) < length (concat ?qs)" using w(2) by simp
  moreover have "map fl_q (dr_flows d2) = ?qs[w := ps]" using 1 by (simp add: map_update)
  ultimately show ?case by simp
qed

declare dr_drop_loop.simps [simp del]

definition dr_enque :: "drr enq_fun" where
  "dr_enque now p d0 =
     (let d1 = (if dr_flows d0 = [] then d0\<lparr>dr_flows := replicate (nat (dr_buckets d0)) flow_new\<rparr> else d0);
          which = c_mod (dr_hash (dr_mask d1) (pk_src p)) (dr_buckets d1);
          w = nat which
      in if dr_buckets d1 = 0 then Fail Div_By_Zero
         else if which < 0 \<or> w \<ge> length (dr_flows d1) then Fail Bad_Index
         else
           let compare = (if dr_mask d1 then pk_src p AND 65520 else pk_src p);
               f = dr_flows d1 ! w;
               f1 = f\<lparr>fl_src := if fl_src f = -1 then compare else fl_src f,
                      fl_q := fl_q f @ [p], fl_pkts := fl_pkts f + 1, fl_bcount := fl_bcount f + pk_size p\<rparr>;
               d2 = d1\<lparr>dr_pktcnt := dr_pktcnt d1 + 1, dr_bytecnt := dr_bytecnt d1 + pk_size p\<rparr>;
               d3 = (if fl_pkts f1 = 1
                     then d2\<lparr>dr_flows := (dr_flows d2)[w := f1\<lparr>fl_deficit := 0\<rparr>],
                             dr_ring := ring_activate w (dr_ring d2), dr_flwcnt := dr_flwcnt d2 + 1\<rparr>
                     else d2\<lparr>dr_flows := (dr_flows d2)[w := f1]\<rparr>)
           in dr_drop_loop d3 [])"

text \<open>The loop of \<open>deque\<close>: it need not end, for instance with a quantum of 0.\<close>

partial_function (option) dr_serve :: "drr \<Rightarrow> (packet option \<times> drr) res option" where
  "dr_serve d =
     (case dr_ring d of
        [] \<Rightarrow> Some (Fail Null_Deref)
      | w # ws \<Rightarrow>
          if w \<ge> length (dr_flows d) then Some (Fail Bad_Index)
          else
            let f0 = dr_flows d ! w;
                f = (if fl_turn f0 then f0 else f0\<lparr>fl_deficit := fl_deficit f0 + dr_quantum d, fl_turn := True\<rparr>)
            in case fl_q f of
                [] \<Rightarrow> Some (Fail Null_Deref)
              | p # ps \<Rightarrow>
                  if fl_deficit f \<ge> pk_size p then
                    let f1 = f\<lparr>fl_deficit := fl_deficit f - pk_size p, fl_q := ps,
                               fl_bcount := fl_bcount f - pk_size p, fl_pkts := fl_pkts f - 1\<rparr>;
                        d1 = d\<lparr>dr_pktcnt := dr_pktcnt d - 1, dr_bytecnt := dr_bytecnt d - pk_size p\<rparr>
                    in Some (Ok (Some p,
                         if fl_pkts f1 = 0
                         then d1\<lparr>dr_flows := (dr_flows d1)[w := f1\<lparr>fl_turn := False, fl_deficit := 0\<rparr>],
                                 dr_flwcnt := dr_flwcnt d1 - 1, dr_ring := ring_idle w (dr_ring d1)\<rparr>
                         else d1\<lparr>dr_flows := (dr_flows d1)[w := f1]\<rparr>))
                  else dr_serve (d\<lparr>dr_flows := (dr_flows d)[w := f\<lparr>fl_turn := False\<rparr>], dr_ring := ws @ [w]\<rparr>))"

definition dr_deque :: "drr deq_fun" where
  "dr_deque now d =
     (if dr_bytecnt d = 0 then Ok (None, d)
      else case dr_serve d of None \<Rightarrow> Fail No_Return | Some r \<Rightarrow> r)"

text \<open>The commands that change the parameters.\<close>

definition dr_clear :: "drr \<Rightarrow> drr res" where
  "dr_clear d =
     (if \<exists>f \<in> set (dr_flows d). fl_pkts f \<noteq> 0 then Fail Exit else Ok (d\<lparr>dr_flows := []\<rparr>))"

definition dr_set_blimit :: "int \<Rightarrow> drr \<Rightarrow> drr res" where
  "dr_set_blimit n d = (if dr_bytecnt d > n then Fail Exit else Ok (d\<lparr>dr_blimit := n\<rparr>))"

definition dr_set_buckets :: "int \<Rightarrow> drr \<Rightarrow> drr res" where
  "dr_set_buckets n d = res_bind (dr_clear d) (\<lambda>d1. Ok (d1\<lparr>dr_buckets := n\<rparr>))"

section \<open>The invariant\<close>

text \<open>
  The counters of a flow are exact, packets have at most \<open>mx\<close> bytes, and the deficit of a
  flow is less than \<open>mx\<close>, plus one quantum while it is the flow's turn.
\<close>

abbreviation flow_ok :: "int \<Rightarrow> int \<Rightarrow> flow \<Rightarrow> bool" where
  "flow_ok mx qt f \<equiv> fl_pkts f = list_len (fl_q f) \<and> fl_bcount f = list_bytes (fl_q f) \<and>
     (\<forall>p \<in> set (fl_q f). 0 < pk_size p \<and> pk_size p \<le> mx) \<and>
     0 \<le> fl_deficit f \<and> fl_deficit f < mx + (if fl_turn f then qt else 0)"

definition dr_content :: "drr \<Rightarrow> packet list" where
  "dr_content d = concat (map fl_q (dr_flows d))"

definition dr_inv :: "int \<Rightarrow> drr \<Rightarrow> bool" where
  "dr_inv mx d \<longleftrightarrow> 0 < mx \<and> 0 < dr_buckets d \<and> 0 < dr_quantum d \<and> 0 \<le> dr_blimit d \<and>
     (dr_flows d = [] \<or> length (dr_flows d) = nat (dr_buckets d)) \<and>
     (\<forall>f \<in> set (dr_flows d). flow_ok mx (dr_quantum d) f) \<and>
     distinct (dr_ring d) \<and>
     (\<forall>w. w \<in> set (dr_ring d) \<longleftrightarrow> w < length (dr_flows d) \<and> fl_q (dr_flows d ! w) \<noteq> []) \<and>
     dr_flwcnt d = int (length (dr_ring d)) \<and>
     dr_bytecnt d = sum_list (map (\<lambda>f. list_bytes (fl_q f)) (dr_flows d)) \<and>
     dr_pktcnt d = sum_list (map (\<lambda>f. list_len (fl_q f)) (dr_flows d))"

text \<open>Replacing the flows, with the counters and the ring that belong to them.\<close>

lemma dr_inv_updateI:
  assumes inv: "dr_inv mx d" and len: "length fs = length (dr_flows d)"
    and ok: "\<forall>f \<in> set fs. flow_ok mx (dr_quantum d) f"
    and ring: "distinct ring" "\<And>w. w \<in> set ring \<longleftrightarrow> w < length fs \<and> fl_q (fs ! w) \<noteq> []"
    and cnt: "c = int (length ring)" "b = sum_list (map (\<lambda>f. list_bytes (fl_q f)) fs)"
      "n = sum_list (map (\<lambda>f. list_len (fl_q f)) fs)"
  shows "dr_inv mx (d\<lparr>dr_flows := fs, dr_bytecnt := b, dr_pktcnt := n, dr_ring := ring, dr_flwcnt := c\<rparr>)"
proof -
  have c: "0 < mx" "0 < dr_buckets d" "0 < dr_quantum d" "0 \<le> dr_blimit d"
    "fs = [] \<or> length fs = nat (dr_buckets d)"
    using inv len unfolding dr_inv_def by auto
  show ?thesis
    unfolding dr_inv_def by (intro conjI allI) (use c in \<open>simp_all add: ring cnt\<close>, use ok in auto)
qed

lemma dr_new_inv: "0 < mx \<Longrightarrow> 0 < n \<Longrightarrow> 0 < qt \<Longrightarrow> 0 \<le> lm \<Longrightarrow> dr_inv mx (dr_new base n lm qt msk)"
  by (simp add: dr_inv_def dr_new_def qbase.defs drr.defs)

lemma list_bytes_pos: "(\<forall>p \<in> set xs. 0 < pk_size p) \<Longrightarrow> 0 \<le> list_bytes xs \<and> (xs \<noteq> [] \<longrightarrow> 0 < list_bytes xs)"
  by (induction xs) auto

lemma sum_bytes_zero:
  assumes "\<forall>f \<in> set fs. \<forall>p \<in> set (fl_q f). 0 < pk_size p"
  shows "0 \<le> sum_list (map (\<lambda>f. list_bytes (fl_q f)) fs) \<and>
    (sum_list (map (\<lambda>f. list_bytes (fl_q f)) fs) = 0 \<longleftrightarrow> concat (map fl_q fs) = [])"
  using assms
proof (induction fs)
  case (Cons f fs)
  then show ?case using list_bytes_pos [of "fl_q f"] by (cases "fl_q f = []") auto
qed simp

lemma dr_bytecnt_zero:
  assumes "dr_inv mx d"
  shows "0 \<le> dr_bytecnt d" "dr_bytecnt d = 0 \<longleftrightarrow> dr_content d = []"
proof -
  have "\<forall>f \<in> set (dr_flows d). \<forall>p \<in> set (fl_q f). 0 < pk_size p" "dr_bytecnt d = sum_list (map (\<lambda>f. list_bytes (fl_q f)) (dr_flows d))"
    using assms by (auto simp: dr_inv_def)
  from sum_bytes_zero [OF this(1)] this(2) show "0 \<le> dr_bytecnt d" "dr_bytecnt d = 0 \<longleftrightarrow> dr_content d = []"
    by (simp_all add: dr_content_def)
qed

lemma dr_ring_flow:
  assumes "dr_inv mx d" "w \<in> set (dr_ring d)"
  shows "w < length (dr_flows d)" "fl_q (dr_flows d ! w) \<noteq> []" "flow_ok mx (dr_quantum d) (dr_flows d ! w)"
  using assms by (auto simp: dr_inv_def)

lemma dr_ring_Nil:
  assumes "dr_inv mx d"
  shows "dr_ring d = [] \<longleftrightarrow> dr_content d = []"
proof
  assume "dr_ring d = []"
  then have "\<And>w. w < length (dr_flows d) \<Longrightarrow> fl_q (dr_flows d ! w) = []"
    using assms by (auto simp: dr_inv_def)
  then show "dr_content d = []" by (auto simp: dr_content_def in_set_conv_nth)
next
  assume c: "dr_content d = []"
  have "w \<notin> set (dr_ring d)" for w
  proof
    assume "w \<in> set (dr_ring d)"
    from dr_ring_flow [OF assms this] c show False by (auto simp: dr_content_def)
  qed
  then show "dr_ring d = []" by (cases "dr_ring d") auto
qed

section \<open>Replacing the head packets of a flow\<close>

lemma content_update:
  assumes "w < length (dr_flows d)"
  shows "addrs (dr_content (d\<lparr>dr_flows := (dr_flows d)[w := f]\<rparr>)) + addrs (fl_q (dr_flows d ! w)) =
    addrs (dr_content d) + addrs (fl_q f)"
proof -
  have "mset (concat ((map fl_q (dr_flows d))[w := fl_q f])) + mset (map fl_q (dr_flows d) ! w) =
      mset (concat (map fl_q (dr_flows d))) + mset (fl_q f)"
    using assms by (intro mset_concat_update) simp
  then have "image_mset pk_addr (mset (concat ((map fl_q (dr_flows d))[w := fl_q f])) + mset (map fl_q (dr_flows d) ! w)) =
      image_mset pk_addr (mset (concat (map fl_q (dr_flows d))) + mset (fl_q f))" by (rule arg_cong)
  with assms show ?thesis by (simp add: dr_content_def map_update)
qed

text \<open>Taking the first packet of an active flow, whatever happens to its deficit.\<close>

definition dr_take :: "nat \<Rightarrow> int \<Rightarrow> bool \<Rightarrow> drr \<Rightarrow> drr" where
  "dr_take w deficit turn d =
     (let f = dr_flows d ! w; n = pk_size (hd (fl_q f));
          f' = f\<lparr>fl_q := tl (fl_q f), fl_bcount := fl_bcount f - n, fl_pkts := fl_pkts f - 1,
                 fl_deficit := deficit, fl_turn := turn\<rparr>;
          d' = d\<lparr>dr_flows := (dr_flows d)[w := f'], dr_bytecnt := dr_bytecnt d - n, dr_pktcnt := dr_pktcnt d - 1\<rparr>
      in if tl (fl_q f) = [] then d'\<lparr>dr_ring := remove1 w (dr_ring d), dr_flwcnt := dr_flwcnt d - 1\<rparr> else d')"

lemma dr_take_inv:
  assumes inv: "dr_inv mx d" and w: "w \<in> set (dr_ring d)"
    and df: "0 \<le> df" "df < mx + (if t then dr_quantum d else 0)"
  shows "dr_inv mx (dr_take w df t d)"
    and "addrs (dr_content d) = add_mset (pk_addr (hd (fl_q (dr_flows d ! w)))) (addrs (dr_content (dr_take w df t d)))"
proof -
  note fl = dr_ring_flow [OF inv w]
  let ?f = "dr_flows d ! w"
  obtain p ps where q: "fl_q ?f = p # ps" using fl(2) by (cases "fl_q ?f") auto
  let ?f' = "?f\<lparr>fl_q := ps, fl_bcount := fl_bcount ?f - pk_size p, fl_pkts := fl_pkts ?f - 1,
     fl_deficit := df, fl_turn := t\<rparr>"
  let ?fs = "(dr_flows d)[w := ?f']"
  have ok': "flow_ok mx (dr_quantum d) ?f'" using fl(3) q df by simp
  have all: "\<forall>f \<in> set ?fs. flow_ok mx (dr_quantum d) f"
  proof
    fix f assume "f \<in> set ?fs"
    then have "f = ?f' \<or> f \<in> set (dr_flows d)" using set_update_subset_insert by fastforce
    then show "flow_ok mx (dr_quantum d) f" using inv ok' by (auto simp: dr_inv_def)
  qed
  have sums: "sum_list (map (\<lambda>f. list_bytes (fl_q f)) ?fs) = dr_bytecnt d - pk_size p"
    "sum_list (map (\<lambda>f. list_len (fl_q f)) ?fs) = dr_pktcnt d - 1"
    using inv q sum_list_update_int [OF fl(1), of "\<lambda>f. list_bytes (fl_q f)" ?f']
      sum_list_update_int [OF fl(1), of "\<lambda>f. list_len (fl_q f)" ?f'] by (simp_all add: dr_inv_def)
  let ?ring = "if ps = [] then remove1 w (dr_ring d) else dr_ring d"
  have c: "0 < mx" "0 < dr_buckets d" "0 < dr_quantum d" "0 \<le> dr_blimit d"
    "dr_flows d = [] \<or> length (dr_flows d) = nat (dr_buckets d)" "distinct (dr_ring d)"
    "dr_flwcnt d = int (length (dr_ring d))"
    and act: "\<And>v. v \<in> set (dr_ring d) \<longleftrightarrow> v < length (dr_flows d) \<and> fl_q (dr_flows d ! v) \<noteq> []"
    using inv unfolding dr_inv_def by blast+
  have mem: "v \<in> set ?ring \<longleftrightarrow> v < length ?fs \<and> fl_q (?fs ! v) \<noteq> []" for v
  proof (cases "v = w")
    case True
    with w fl(1) c(6) show ?thesis by simp
  next
    case False
    then have "v \<in> set ?ring \<longleftrightarrow> v \<in> set (dr_ring d)" by simp
    with False show ?thesis by (simp only: act) simp
  qed
  have r: "distinct ?ring" "(if ps = [] then dr_flwcnt d - 1 else dr_flwcnt d) = int (length ?ring)"
    using c(6,7) w length_pos_if_in_set [OF w]
    by (simp_all add: length_remove1 of_nat_diff Suc_le_eq)
  have take: "dr_take w df t d = d\<lparr>dr_flows := ?fs, dr_bytecnt := dr_bytecnt d - pk_size p,
      dr_pktcnt := dr_pktcnt d - 1, dr_ring := if ps = [] then remove1 w (dr_ring d) else dr_ring d,
      dr_flwcnt := if ps = [] then dr_flwcnt d - 1 else dr_flwcnt d\<rparr>"
    using q by (simp add: dr_take_def Let_def)
  show "dr_inv mx (dr_take w df t d)"
    unfolding take by (rule dr_inv_updateI [OF inv _ all r(1) mem r(2) sums(1) [symmetric] sums(2) [symmetric]]) simp
  show "addrs (dr_content d) = add_mset (pk_addr (hd (fl_q ?f))) (addrs (dr_content (dr_take w df t d)))"
    using content_update [OF fl(1), of ?f'] q unfolding take by (simp add: dr_content_def)
qed

lemma dr_take_frame [simp]:
  "qb_blocked (dr_take w df t d) = qb_blocked d" "qb_unblock_on_resume (dr_take w df t d) = qb_unblock_on_resume d"
  "dr_blimit (dr_take w df t d) = dr_blimit d"
  "dr_bytecnt (dr_take w df t d) = dr_bytecnt d - pk_size (hd (fl_q (dr_flows d ! w)))"
  by (simp_all add: dr_take_def Let_def)

section \<open>Dropping from the longest flow\<close>

lemma ring_max_mem: "ring \<noteq> [] \<Longrightarrow> ring_max bc n ring \<in> set ring"
proof (induction n)
  case 0
  then show ?case by (simp add: ring_max_def)
next
  case (Suc n)
  then show ?case by (auto simp: ring_max_def Let_def intro!: nth_mem)
qed

lemma ring_max_max:
  "i < n \<Longrightarrow> i < length ring \<Longrightarrow> bc (ring ! i) \<le> bc (ring_max bc n ring)"
proof (induction n)
  case (Suc n)
  then show ?case by (cases "i = n") (auto simp: ring_max_def Let_def)
qed simp

lemma dr_drop_loop_ok:
  "dr_inv mx d \<Longrightarrow> \<exists>d' ds. dr_drop_loop d drops = Ok (d', drops @ ds) \<and> dr_inv mx d' \<and>
     addrs (dr_content d') + addrs ds = addrs (dr_content d) \<and> dr_bytecnt d' \<le> dr_blimit d' \<and>
     qb_blocked d' = qb_blocked d \<and> qb_unblock_on_resume d' = qb_unblock_on_resume d"
proof (induction "length (dr_content d)" arbitrary: d drops rule: less_induct)
  case less
  note inv = less.prems
  show ?case
  proof (cases "dr_bytecnt d > dr_blimit d")
    case False
    with inv show ?thesis by (subst dr_drop_loop.simps) auto
  next
    case True
    have "dr_blimit d \<ge> 0" using inv by (simp add: dr_inv_def)
    then have "dr_content d \<noteq> []" using True dr_bytecnt_zero [OF inv] by auto
    then have ne: "dr_ring d \<noteq> []" using dr_ring_Nil [OF inv] by simp
    let ?w = "ring_max (\<lambda>w. fl_bcount (dr_flows d ! w)) (nat (dr_flwcnt d)) (dr_ring d)"
    have w: "?w \<in> set (dr_ring d)" by (rule ring_max_mem [OF ne])
    note fl = dr_ring_flow [OF inv w]
    obtain p ps where q: "fl_q (dr_flows d ! ?w) = p # ps" using fl(2) by (cases "fl_q (dr_flows d ! ?w)") auto
    let ?f = "dr_flows d ! ?w"
    let ?d = "dr_take ?w (fl_deficit ?f) (fl_turn ?f) d"
    have step: "dr_drop_loop d drops = dr_drop_loop ?d (drops @ [p])"
    proof -
      have m: "dr_getMaxflow d = Some ?w" using ne by (simp add: dr_getMaxflow_def)
      have n: "fl_pkts ?f - 1 = 0 \<longleftrightarrow> ps = []" using fl(3) q by simp
      show ?thesis
        using True fl(1) q n
        unfolding dr_drop_loop.simps [of d drops] m option.case dr_take_def Let_def ring_idle_def
        by (cases "ps = []") simp_all
    qed
    have "0 \<le> fl_deficit ?f" "fl_deficit ?f < mx + (if fl_turn ?f then dr_quantum d else 0)" using fl(3) by simp_all
    note t = dr_take_inv [OF inv w this]
    have "size (addrs (dr_content d)) = Suc (size (addrs (dr_content ?d)))" using t(2) by simp
    then have "length (dr_content ?d) < length (dr_content d)" by simp
    from less.hyps [OF this t(1), of "drops @ [p]"] obtain d' ds where
      "dr_drop_loop ?d (drops @ [p]) = Ok (d', (drops @ [p]) @ ds)" "dr_inv mx d'"
      "addrs (dr_content d') + addrs ds = addrs (dr_content ?d)" "dr_bytecnt d' \<le> dr_blimit d'"
      "qb_blocked d' = qb_blocked d" "qb_unblock_on_resume d' = qb_unblock_on_resume d" by auto
    with step t(2) q have "dr_drop_loop d drops = Ok (d', drops @ (p # ds)) \<and> dr_inv mx d' \<and>
        addrs (dr_content d') + addrs (p # ds) = addrs (dr_content d) \<and> dr_bytecnt d' \<le> dr_blimit d' \<and>
        qb_blocked d' = qb_blocked d \<and> qb_unblock_on_resume d' = qb_unblock_on_resume d" by simp
    then show ?thesis by blast
  qed
qed

section \<open>Arrival of a packet\<close>

lemma dr_hash_nonneg: "0 \<le> s \<Longrightarrow> 0 \<le> dr_hash m s"
proof -
  assume s: "0 \<le> s"
  define i where "i = (if m then s AND 65520 else s)"
  have i: "0 \<le> i" using s by (simp add: i_def)
  let ?x = "i + i div 2 ^ 8 + (- (i div 2 ^ 4) - 1)"
  have "- 1 \<le> ?x" using i by simp
  then have "?x = - 1 \<or> 0 \<le> ?x" by linarith
  then have "- 1 \<le> c_mod ?x (2 * 2 ^ 23 - 1)"
  proof
    assume "?x = - 1"
    then show ?thesis by (simp add: c_mod_def c_div_def)
  qed simp
  then show ?thesis by (simp add: dr_hash_def i_def Let_def)
qed

lemma dr_alloc_inv:
  assumes "dr_inv mx d" "dr_flows d = []"
  shows "dr_inv mx (d\<lparr>dr_flows := replicate (nat (dr_buckets d)) flow_new\<rparr>)"
    and "dr_content (d\<lparr>dr_flows := replicate (nat (dr_buckets d)) flow_new\<rparr>) = dr_content d"
proof -
  have c: "0 < mx" "0 < dr_buckets d" "0 < dr_quantum d" "0 \<le> dr_blimit d" "dr_ring d = []" "dr_flwcnt d = 0"
    "dr_bytecnt d = 0" "dr_pktcnt d = 0"
    using assms dr_ring_Nil [OF assms(1)] by (auto simp: dr_inv_def dr_content_def)
  show "dr_inv mx (d\<lparr>dr_flows := replicate (nat (dr_buckets d)) flow_new\<rparr>)"
    using c by (simp add: dr_inv_def flow_new_def map_replicate_const sum_list_replicate)
  show "dr_content (d\<lparr>dr_flows := replicate (nat (dr_buckets d)) flow_new\<rparr>) = dr_content d"
    using assms(2) by (simp add: dr_content_def flow_new_def map_replicate_const)
qed

definition dr_put :: "nat \<Rightarrow> int \<Rightarrow> packet \<Rightarrow> drr \<Rightarrow> drr" where
  "dr_put w src p d =
     (let f = dr_flows d ! w
      in d\<lparr>dr_flows := (dr_flows d)[w := f\<lparr>fl_src := src, fl_q := fl_q f @ [p], fl_pkts := fl_pkts f + 1,
             fl_bcount := fl_bcount f + pk_size p, fl_deficit := if fl_q f = [] then 0 else fl_deficit f\<rparr>],
           dr_bytecnt := dr_bytecnt d + pk_size p, dr_pktcnt := dr_pktcnt d + 1,
           dr_ring := if fl_q f = [] then dr_ring d @ [w] else dr_ring d,
           dr_flwcnt := if fl_q f = [] then dr_flwcnt d + 1 else dr_flwcnt d\<rparr>)"

lemma dr_put_order:
  "dr_put w src p d =
     (let f = dr_flows d ! w
      in d\<lparr>dr_pktcnt := dr_pktcnt d + 1, dr_bytecnt := dr_bytecnt d + pk_size p,
           dr_flows := (dr_flows d)[w := f\<lparr>fl_src := src, fl_q := fl_q f @ [p], fl_pkts := fl_pkts f + 1,
             fl_bcount := fl_bcount f + pk_size p, fl_deficit := if fl_q f = [] then 0 else fl_deficit f\<rparr>],
           dr_ring := if fl_q f = [] then dr_ring d @ [w] else dr_ring d,
           dr_flwcnt := if fl_q f = [] then dr_flwcnt d + 1 else dr_flwcnt d\<rparr>)"
  by (simp add: dr_put_def Let_def)

lemma dr_put_inv:
  assumes inv: "dr_inv mx d" and w: "w < length (dr_flows d)" and p: "0 < pk_size p" "pk_size p \<le> mx"
  shows "dr_inv mx (dr_put w src p d)"
    and "addrs (dr_content (dr_put w src p d)) = add_mset (pk_addr p) (addrs (dr_content d))"
    and "qb_blocked (dr_put w src p d) = qb_blocked d"
    and "qb_unblock_on_resume (dr_put w src p d) = qb_unblock_on_resume d"
proof -
  let ?f = "dr_flows d ! w"
  have f: "flow_ok mx (dr_quantum d) ?f" and q: "0 < dr_quantum d"
    using inv w by (auto simp: dr_inv_def)
  let ?f' = "?f\<lparr>fl_src := src, fl_q := fl_q ?f @ [p], fl_pkts := fl_pkts ?f + 1,
             fl_bcount := fl_bcount ?f + pk_size p, fl_deficit := if fl_q ?f = [] then 0 else fl_deficit ?f\<rparr>"
  let ?fs = "(dr_flows d)[w := ?f']"
  have ok': "flow_ok mx (dr_quantum d) ?f'" using f p q by simp
  have all: "\<forall>f \<in> set ?fs. flow_ok mx (dr_quantum d) f"
  proof
    fix f assume "f \<in> set ?fs"
    then have "f = ?f' \<or> f \<in> set (dr_flows d)" using set_update_subset_insert by fastforce
    then show "flow_ok mx (dr_quantum d) f" using inv ok' by (auto simp: dr_inv_def)
  qed
  have c: "distinct (dr_ring d)" "dr_flwcnt d = int (length (dr_ring d))"
    "dr_bytecnt d = sum_list (map (\<lambda>f. list_bytes (fl_q f)) (dr_flows d))"
    "dr_pktcnt d = sum_list (map (\<lambda>f. list_len (fl_q f)) (dr_flows d))"
    and act: "\<And>v. v \<in> set (dr_ring d) \<longleftrightarrow> v < length (dr_flows d) \<and> fl_q (dr_flows d ! v) \<noteq> []"
    using inv unfolding dr_inv_def by blast+
  have sums: "dr_bytecnt d + pk_size p = sum_list (map (\<lambda>f. list_bytes (fl_q f)) ?fs)"
    "dr_pktcnt d + 1 = sum_list (map (\<lambda>f. list_len (fl_q f)) ?fs)"
    using sum_list_update_int [OF w, of "\<lambda>f. list_bytes (fl_q f)" ?f']
      sum_list_update_int [OF w, of "\<lambda>f. list_len (fl_q f)" ?f'] by (simp_all add: c(3,4))
  let ?ring = "if fl_q ?f = [] then dr_ring d @ [w] else dr_ring d"
  have wr: "w \<in> set (dr_ring d) \<longleftrightarrow> fl_q ?f \<noteq> []" using act [of w] w by simp
  have mem: "v \<in> set ?ring \<longleftrightarrow> v < length ?fs \<and> fl_q (?fs ! v) \<noteq> []" for v
  proof (cases "v = w")
    case True
    with w wr show ?thesis by simp
  next
    case False
    then have "v \<in> set ?ring \<longleftrightarrow> v \<in> set (dr_ring d)" by simp
    with False show ?thesis by (simp only: act) simp
  qed
  have r: "distinct ?ring" "(if fl_q ?f = [] then dr_flwcnt d + 1 else dr_flwcnt d) = int (length ?ring)"
    using c(1,2) wr by simp_all
  show "dr_inv mx (dr_put w src p d)"
    unfolding dr_put_def Let_def by (rule dr_inv_updateI [OF inv _ all r(1) mem r(2) sums]) simp
  show "addrs (dr_content (dr_put w src p d)) = add_mset (pk_addr p) (addrs (dr_content d))"
    using content_update [OF w, of ?f'] by (simp add: dr_put_def Let_def dr_content_def)
qed (simp_all add: dr_put_def Let_def)

lemma dr_enque_ok:
  assumes inv: "dr_inv mx d" and p: "0 < pk_size p" "pk_size p \<le> mx" "0 \<le> pk_src p"
  shows "\<exists>d' drops. dr_enque now p d = Ok (d', drops) \<and> dr_inv mx d' \<and>
     addrs (dr_content d') + addrs drops = add_mset (pk_addr p) (addrs (dr_content d)) \<and>
     dr_bytecnt d' \<le> dr_blimit d' \<and>
     qb_blocked d' = qb_blocked d \<and> qb_unblock_on_resume d' = qb_unblock_on_resume d"
proof -
  define d1 where "d1 = (if dr_flows d = [] then d\<lparr>dr_flows := replicate (nat (dr_buckets d)) flow_new\<rparr> else d)"
  have d1: "dr_inv mx d1" "dr_content d1 = dr_content d" "qb_blocked d1 = qb_blocked d"
    "qb_unblock_on_resume d1 = qb_unblock_on_resume d" "0 < dr_buckets d1" "length (dr_flows d1) = nat (dr_buckets d1)"
    using inv dr_alloc_inv [OF inv] by (auto simp: d1_def dr_inv_def)
  define which where "which = c_mod (dr_hash (dr_mask d1) (pk_src p)) (dr_buckets d1)"
  have wh: "0 \<le> which" "nat which < length (dr_flows d1)"
    using d1(5,6) dr_hash_nonneg [OF p(3), of "dr_mask d1"] by (simp_all add: which_def)
  let ?f = "dr_flows d1 ! nat which"
  define src where "src = (if fl_src ?f = -1 then if dr_mask d1 then pk_src p AND 65520 else pk_src p else fl_src ?f)"
  have "flow_ok mx (dr_quantum d1) ?f" using d1(1) wh by (auto simp: dr_inv_def)
  then have n: "fl_pkts ?f + 1 = 1 \<longleftrightarrow> fl_q ?f = []" by simp
  have "dr_enque now p d = dr_drop_loop (dr_put (nat which) src p d1) []"
    using wh n d1(5) unfolding dr_enque_def d1_def [symmetric] Let_def which_def [symmetric] dr_put_order src_def ring_activate_def
    by (cases ?f; cases "fl_q ?f = []"; cases "dr_mask d1"; cases "fl_src ?f = -1") simp_all
  moreover note put = dr_put_inv [OF d1(1) wh(2) p(1,2), of src]
  ultimately show ?thesis using dr_drop_loop_ok [OF put(1), of "[]"] put(2-4) d1(2-4) by auto
qed

section \<open>Departure of a packet\<close>

text \<open>Each turn of the loop that serves nobody raises a deficit or ends a turn.\<close>

definition flow_work :: "int \<Rightarrow> flow \<Rightarrow> int" where
  "flow_work m f = 2 * (m - fl_deficit f) + (if fl_turn f then 1 else 0)"

definition dr_work :: "int \<Rightarrow> drr \<Rightarrow> nat" where
  "dr_work mx d = nat (sum_list (map (flow_work (mx + dr_quantum d)) (dr_flows d)))"

text \<open>The two ways an iteration ends, for the active flow \<open>w\<close> that has the turn.\<close>

definition dr_head_deficit :: "nat \<Rightarrow> drr \<Rightarrow> int" where
  "dr_head_deficit w d =
     (let f = dr_flows d ! w in if fl_turn f then fl_deficit f else fl_deficit f + dr_quantum d)"

definition dr_sent :: "nat \<Rightarrow> drr \<Rightarrow> drr" where
  "dr_sent w d =
     (let ps = fl_q (dr_flows d ! w); last = (tl ps = [])
      in dr_take w (if last then 0 else dr_head_deficit w d - pk_size (hd ps)) (\<not> last) d)"

definition dr_skip :: "nat \<Rightarrow> drr \<Rightarrow> drr" where
  "dr_skip w d = d\<lparr>dr_flows := (dr_flows d)[w := (dr_flows d ! w)\<lparr>fl_deficit := dr_head_deficit w d, fl_turn := False\<rparr>],
                   dr_ring := tl (dr_ring d) @ [w]\<rparr>"

lemma dr_serve_step:
  assumes inv: "dr_inv mx d" and ring: "dr_ring d = w # ws"
  shows "dr_serve d =
    (if dr_head_deficit w d \<ge> pk_size (hd (fl_q (dr_flows d ! w)))
     then Some (Ok (Some (hd (fl_q (dr_flows d ! w))), dr_sent w d)) else dr_serve (dr_skip w d))"
proof -
  have "w \<in> set (dr_ring d)" by (simp add: ring)
  note fl = dr_ring_flow [OF inv this]
  obtain p ps where pq: "fl_q (dr_flows d ! w) = p # ps" using fl(2) by (cases "fl_q (dr_flows d ! w)") auto
  have n: "fl_pkts (dr_flows d ! w) - 1 = 0 \<longleftrightarrow> ps = []" using fl(3) pq by simp
  show ?thesis
    using fl(1) pq n ring
    by (subst dr_serve.simps, cases "dr_flows d ! w")
      (cases "fl_turn (dr_flows d ! w)"; cases "ps = []";
       simp add: dr_sent_def dr_skip_def dr_head_deficit_def dr_take_def ring_idle_def Let_def)
qed

lemma dr_head_deficit_bounds:
  assumes "dr_inv mx d" "w \<in> set (dr_ring d)"
  shows "0 \<le> dr_head_deficit w d" "dr_head_deficit w d < mx + dr_quantum d"
  using dr_ring_flow(3) [OF assms] assms(1) by (auto simp: dr_head_deficit_def Let_def dr_inv_def)

lemma dr_sent_inv:
  assumes inv: "dr_inv mx d" and w: "w \<in> set (dr_ring d)"
    and enough: "dr_head_deficit w d \<ge> pk_size (hd (fl_q (dr_flows d ! w)))"
  shows "dr_inv mx (dr_sent w d)"
    and "addrs (dr_content d) = add_mset (pk_addr (hd (fl_q (dr_flows d ! w)))) (addrs (dr_content (dr_sent w d)))"
    and "qb_blocked (dr_sent w d) = qb_blocked d" "qb_unblock_on_resume (dr_sent w d) = qb_unblock_on_resume d"
proof -
  note fl = dr_ring_flow [OF inv w]
  have "0 < pk_size (hd (fl_q (dr_flows d ! w)))" using fl(2,3) by simp
  then have b: "0 \<le> (if tl (fl_q (dr_flows d ! w)) = [] then 0 else dr_head_deficit w d - pk_size (hd (fl_q (dr_flows d ! w))))"
    "(if tl (fl_q (dr_flows d ! w)) = [] then 0 else dr_head_deficit w d - pk_size (hd (fl_q (dr_flows d ! w)))) <
       mx + (if \<not> tl (fl_q (dr_flows d ! w)) = [] then dr_quantum d else 0)"
    using enough dr_head_deficit_bounds [OF inv w] inv by (auto simp: dr_inv_def)
  note take = dr_take_inv [OF inv w b]
  show "dr_inv mx (dr_sent w d)" using take(1) unfolding dr_sent_def Let_def .
  show "addrs (dr_content d) = add_mset (pk_addr (hd (fl_q (dr_flows d ! w)))) (addrs (dr_content (dr_sent w d)))"
    using take(2) unfolding dr_sent_def Let_def .
qed (simp_all add: dr_sent_def Let_def)

lemma dr_skip_inv:
  assumes inv: "dr_inv mx d" and ring: "dr_ring d = w # ws"
    and short: "dr_head_deficit w d < pk_size (hd (fl_q (dr_flows d ! w)))"
  shows "dr_inv mx (dr_skip w d)"
    and "addrs (dr_content (dr_skip w d)) = addrs (dr_content d)"
    and "dr_work mx (dr_skip w d) < dr_work mx d"
proof -
  have w: "w \<in> set (dr_ring d)" by (simp add: ring)
  note fl = dr_ring_flow [OF inv w]
  have q: "0 < dr_quantum d" using inv by (simp add: dr_inv_def)
  let ?f0 = "dr_flows d ! w"
  let ?f' = "?f0\<lparr>fl_deficit := dr_head_deficit w d, fl_turn := False\<rparr>"
  let ?fs = "(dr_flows d)[w := ?f']"
  have skip: "dr_skip w d = d\<lparr>dr_flows := ?fs, dr_ring := ws @ [w]\<rparr>" by (simp add: dr_skip_def ring)
  have c: "distinct (dr_ring d)" "dr_flwcnt d = int (length (dr_ring d))"
    "dr_bytecnt d = sum_list (map (\<lambda>f. list_bytes (fl_q f)) (dr_flows d))"
    "dr_pktcnt d = sum_list (map (\<lambda>f. list_len (fl_q f)) (dr_flows d))"
    and act: "\<And>v. v \<in> set (dr_ring d) \<longleftrightarrow> v < length (dr_flows d) \<and> fl_q (dr_flows d ! v) \<noteq> []"
    using inv unfolding dr_inv_def by blast+
  have "pk_size (hd (fl_q ?f0)) \<le> mx" using fl(2,3) by simp
  then have ok': "flow_ok mx (dr_quantum d) ?f'"
    using fl(3) dr_head_deficit_bounds(1) [OF inv w] short by simp
  have all: "\<forall>f \<in> set ?fs. flow_ok mx (dr_quantum d) f"
  proof
    fix f assume "f \<in> set ?fs"
    then have "f = ?f' \<or> f \<in> set (dr_flows d)" using set_update_subset_insert by fastforce
    then show "flow_ok mx (dr_quantum d) f" using inv ok' by (auto simp: dr_inv_def)
  qed
  have same: "dr_bytecnt d = sum_list (map (\<lambda>f. list_bytes (fl_q f)) ?fs)"
    "dr_pktcnt d = sum_list (map (\<lambda>f. list_len (fl_q f)) ?fs)"
    using sum_list_update_int [OF fl(1), of "\<lambda>f. list_bytes (fl_q f)" ?f']
      sum_list_update_int [OF fl(1), of "\<lambda>f. list_len (fl_q f)" ?f'] by (simp_all add: c(3,4))
  have mem: "v \<in> set (ws @ [w]) \<longleftrightarrow> v < length ?fs \<and> fl_q (?fs ! v) \<noteq> []" for v
  proof -
    have "v \<in> set (ws @ [w]) \<longleftrightarrow> v \<in> set (dr_ring d)" by (auto simp: ring)
    then show ?thesis by (simp only: act) (cases "v = w"; simp)
  qed
  have r: "distinct (ws @ [w])" "dr_flwcnt d = int (length (ws @ [w]))" using c(1,2) ring by simp_all
  have "dr_inv mx (d\<lparr>dr_flows := ?fs, dr_bytecnt := dr_bytecnt d, dr_pktcnt := dr_pktcnt d,
      dr_ring := ws @ [w], dr_flwcnt := dr_flwcnt d\<rparr>)"
    by (rule dr_inv_updateI [OF inv _ all r(1) mem r(2) same]) simp
  then show "dr_inv mx (dr_skip w d)" by (simp add: skip)
  show "addrs (dr_content (dr_skip w d)) = addrs (dr_content d)"
    using content_update [OF fl(1), of ?f'] by (simp add: skip dr_content_def)
  have "0 \<le> flow_work (mx + dr_quantum d) f" if "f \<in> set ?fs" for f
    using all that q by (auto simp: flow_work_def)
  then have "0 \<le> sum_list (map (flow_work (mx + dr_quantum d)) ?fs)" by (intro sum_list_nonneg) auto
  moreover have "sum_list (map (flow_work (mx + dr_quantum d)) ?fs) < sum_list (map (flow_work (mx + dr_quantum d)) (dr_flows d))"
    using sum_list_update_int [OF fl(1), of "flow_work (mx + dr_quantum d)" ?f'] q
    by (simp add: flow_work_def dr_head_deficit_def Let_def)
  ultimately show "dr_work mx (dr_skip w d) < dr_work mx d" by (simp add: dr_work_def skip)
qed

lemma dr_serve_induct [consumes 2, case_names sent skip]:
  assumes "dr_inv mx d" "dr_ring d \<noteq> []"
    and sent: "\<And>d w ws. dr_inv mx d \<Longrightarrow> dr_ring d = w # ws \<Longrightarrow>
      dr_head_deficit w d \<ge> pk_size (hd (fl_q (dr_flows d ! w))) \<Longrightarrow>
      P d (Some (Ok (Some (hd (fl_q (dr_flows d ! w))), dr_sent w d)))"
    and skip: "\<And>d w ws r. dr_inv mx d \<Longrightarrow> dr_ring d = w # ws \<Longrightarrow>
      dr_head_deficit w d < pk_size (hd (fl_q (dr_flows d ! w))) \<Longrightarrow> P (dr_skip w d) r \<Longrightarrow> P d r"
  shows "P d (dr_serve d)"
  using assms(1,2)
proof (induction "dr_work mx d" arbitrary: d rule: less_induct)
  case less
  obtain w ws where ring: "dr_ring d = w # ws" using less.prems(2) by (cases "dr_ring d") auto
  show ?case
  proof (cases "dr_head_deficit w d \<ge> pk_size (hd (fl_q (dr_flows d ! w)))")
    case True
    then show ?thesis using sent [OF less.prems(1) ring] by (simp add: dr_serve_step [OF less.prems(1) ring])
  next
    case False
    then have short: "dr_head_deficit w d < pk_size (hd (fl_q (dr_flows d ! w)))" by simp
    note sk = dr_skip_inv [OF less.prems(1) ring this]
    have "dr_ring (dr_skip w d) \<noteq> []" by (simp add: dr_skip_def)
    from skip [OF less.prems(1) ring short less.hyps [OF sk(3,1) this]] False show ?thesis
      by (simp add: dr_serve_step [OF less.prems(1) ring])
  qed
qed

lemma dr_skip_frame [simp]:
  "qb_blocked (dr_skip w d) = qb_blocked d" "qb_unblock_on_resume (dr_skip w d) = qb_unblock_on_resume d"
  by (simp_all add: dr_skip_def)

lemma dr_serve_ok:
  assumes "dr_inv mx d" "dr_ring d \<noteq> []"
  shows "\<exists>p d'. dr_serve d = Some (Ok (Some p, d')) \<and> dr_inv mx d' \<and>
     addrs (dr_content d) = add_mset (pk_addr p) (addrs (dr_content d')) \<and>
     qb_blocked d' = qb_blocked d \<and> qb_unblock_on_resume d' = qb_unblock_on_resume d"
  using assms
proof (induction rule: dr_serve_induct)
  case (sent d w ws)
  then have "w \<in> set (dr_ring d)" by simp
  from dr_sent_inv [OF sent(1) this sent(3)] show ?case by blast
next
  case (skip d w ws r)
  from dr_skip_inv(2) [OF skip(1-3)] skip(4) show ?case by simp
qed

lemma dr_deque_ok:
  assumes "dr_inv mx d"
  shows "deq_ok dr_content (dr_inv mx) d (dr_deque now d)"
proof (cases "dr_content d = []")
  case True
  with assms show ?thesis using dr_bytecnt_zero [OF assms] by (simp add: dr_deque_def deq_ok_def)
next
  case False
  then have "dr_bytecnt d \<noteq> 0" "dr_ring d \<noteq> []" using dr_bytecnt_zero(2) [OF assms] dr_ring_Nil [OF assms] by simp_all
  with dr_serve_ok [OF assms] show ?thesis by (auto simp: dr_deque_def deq_ok_def)
qed

lemma drr_more:
  assumes "qbase.more r = qbase.more q"
  shows "dr_buckets r = dr_buckets q" "dr_blimit r = dr_blimit q" "dr_quantum r = dr_quantum q"
    "dr_flows r = dr_flows q" "dr_ring r = dr_ring q" "dr_flwcnt r = dr_flwcnt q"
    "dr_bytecnt r = dr_bytecnt q" "dr_pktcnt r = dr_pktcnt q"
  using assms by (cases q; cases r; simp)+

definition dr_adm :: "int \<Rightarrow> packet \<Rightarrow> bool" where
  "dr_adm mx p \<longleftrightarrow> 0 < pk_size p \<and> pk_size p \<le> mx \<and> 0 \<le> pk_src p"

interpretation drrq: queue_discipline dr_enque dr_deque "dr_adm mx" dr_content "dr_inv mx" for mx
proof unfold_locales
  show "enq_ok dr_content (dr_inv mx) p q (dr_enque now p q)" if "dr_inv mx q" "dr_adm mx p" for q p now
    using dr_enque_ok [OF that(1), of p now] that(2) by (auto simp: enq_ok_def dr_adm_def)
  show "deq_ok dr_content (dr_inv mx) q (dr_deque now q)" if "dr_inv mx q" for q now
    using that by (rule dr_deque_ok)
  show "dr_inv mx r" if "dr_inv mx q" "qbase.more r = qbase.more q" for q r :: drr
    using that(1) unfolding dr_inv_def drr_more [OF that(2)] .
  show "dr_content r = dr_content q" if "qbase.more r = qbase.more q" for q r :: drr
    by (simp add: dr_content_def drr_more [OF that])
qed

section \<open>Fairness\<close>

text \<open>
  For a flow that stays active, \<open>dr_credit\<close> counts the bytes sent plus the deficit that is
  not from a turn still open. It only changes when the flow's turn ends, by one quantum.
  \<open>before\<close> is the order of two flows in the circular list.
\<close>

definition dr_credit :: "nat \<Rightarrow> drr \<Rightarrow> int" where
  "dr_credit w d =
     (let f = dr_flows d ! w
      in fl_deficit f - fl_bcount f - (if fl_turn f then dr_quantum d else 0))"

fun before :: "nat \<Rightarrow> nat \<Rightarrow> nat list \<Rightarrow> bool" where
  "before i j [] = False"
| "before i j (w # ws) = (w = i \<or> w \<noteq> j \<and> before i j ws)"

definition dr_lead :: "nat \<Rightarrow> nat \<Rightarrow> drr \<Rightarrow> int" where
  "dr_lead i j d = dr_credit i d - dr_credit j d - (if before j i (dr_ring d) then dr_quantum d else 0)"

lemma before_snoc: "w \<noteq> i \<Longrightarrow> before i j (ws @ [w]) = before i j ws"
  by (induction ws) auto

lemma before_notin: "i \<notin> set ws \<Longrightarrow> \<not> before i j ws"
  by (induction ws) auto

lemma before_in: "i \<in> set ws \<Longrightarrow> j \<notin> set ws \<Longrightarrow> before i j ws"
  by (induction ws) auto

lemma before_snoc_in: "i \<notin> set ws \<Longrightarrow> j \<in> set ws \<Longrightarrow> \<not> before i j (ws @ [i])"
  by (induction ws) (auto dest: before_notin)

lemma before_remove1: "w \<noteq> i \<Longrightarrow> w \<noteq> j \<Longrightarrow> before i j (remove1 w ws) = before i j ws"
  by (induction ws) auto

lemma dr_lead_skip:
  assumes inv: "dr_inv mx d" and ring: "dr_ring d = w # ws" and ij: "i \<noteq> j" "i \<in> set (dr_ring d)" "j \<in> set (dr_ring d)"
  shows "dr_lead i j (dr_skip w d) = dr_lead i j d"
proof -
  have "w \<in> set (dr_ring d)" by (simp add: ring)
  note fl = dr_ring_flow [OF inv this]
  have dist: "w \<notin> set ws" using inv ring by (simp add: dr_inv_def)
  have credit: "dr_credit v (dr_skip w d) = dr_credit v d + (if v = w then dr_quantum d else 0)" for v
    using fl(1) by (auto simp: dr_credit_def dr_skip_def dr_head_deficit_def Let_def nth_list_update)
  have r: "dr_ring (dr_skip w d) = ws @ [w]" "dr_quantum (dr_skip w d) = dr_quantum d" by (simp_all add: dr_skip_def ring)
  consider "w = i" | "w = j" | "w \<noteq> i" "w \<noteq> j" by blast
  then show ?thesis
  proof cases
    case 1
    then have "j \<in> set ws" "i \<notin> set ws" using ij ring dist by auto
    then have "before j i (ws @ [i])" by (simp add: before_snoc ij(1) before_in)
    then show ?thesis using ij unfolding 1 [symmetric] by (simp add: dr_lead_def credit r ring)
  next
    case 2
    then have "i \<in> set ws" "j \<notin> set ws" using ij ring dist by auto
    then have "\<not> before j i (ws @ [j])" by (simp add: before_snoc_in)
    then show ?thesis using ij unfolding 2 [symmetric] by (simp add: dr_lead_def credit r ring)
  next
    case 3
    then show ?thesis by (simp add: dr_lead_def credit r ring before_snoc)
  qed
qed

lemma dr_take_ring: "set (dr_ring (dr_take w df t d)) \<subseteq> set (dr_ring d)"
  by (simp add: dr_take_def Let_def set_remove1_subset)

lemma dr_lead_sent:
  assumes inv: "dr_inv mx d" and w: "w \<in> set (dr_ring d)"
    and ij: "i \<noteq> j" "i \<in> set (dr_ring (dr_sent w d))" "j \<in> set (dr_ring (dr_sent w d))"
  shows "dr_lead i j (dr_sent w d) = dr_lead i j d"
proof -
  note fl = dr_ring_flow [OF inv w]
  have dist: "distinct (dr_ring d)" using inv by (simp add: dr_inv_def)
  obtain p ps where pq: "fl_q (dr_flows d ! w) = p # ps" using fl(2) by (cases "fl_q (dr_flows d ! w)") auto
  have quantum: "dr_quantum (dr_sent w d) = dr_quantum d" by (simp add: dr_sent_def dr_take_def Let_def)
  have ring: "dr_ring (dr_sent w d) = (if ps = [] then remove1 w (dr_ring d) else dr_ring d)"
    by (simp add: dr_sent_def dr_take_def Let_def pq)
  have ne: "ps = [] \<Longrightarrow> w \<noteq> i \<and> w \<noteq> j" using ij(2,3) dist by (auto simp: ring)
  have credit: "dr_credit v (dr_sent w d) = dr_credit v d" if "ps = [] \<Longrightarrow> w \<noteq> v" for v
    using that fl(1) pq
    by (cases "v = w") (auto simp: dr_credit_def dr_sent_def dr_take_def dr_head_deficit_def Let_def)
  have "before j i (dr_ring (dr_sent w d)) = before j i (dr_ring d)"
    using ne by (simp add: ring before_remove1)
  with ne show ?thesis by (simp add: dr_lead_def quantum credit)
qed

lemma dr_serve_lead:
  assumes "dr_inv mx d" "dr_ring d \<noteq> []" "i \<noteq> j"
  shows "\<forall>p d'. dr_serve d = Some (Ok (p, d')) \<longrightarrow> i \<in> set (dr_ring d') \<longrightarrow> j \<in> set (dr_ring d') \<longrightarrow>
     i \<in> set (dr_ring d) \<and> j \<in> set (dr_ring d) \<and> dr_lead i j d' = dr_lead i j d \<and> dr_quantum d' = dr_quantum d"
  using assms(1,2)
proof (induction rule: dr_serve_induct)
  case (sent d w ws)
  then have w: "w \<in> set (dr_ring d)" by simp
  have "set (dr_ring (dr_sent w d)) \<subseteq> set (dr_ring d)" "dr_quantum (dr_sent w d) = dr_quantum d"
    using dr_take_ring by (simp_all add: dr_sent_def Let_def) (simp add: dr_take_def Let_def)
  with dr_lead_sent [OF sent(1) w assms(3)] show ?case by auto
next
  case (skip d w ws r)
  have "set (dr_ring (dr_skip w d)) = set (dr_ring d)" "dr_quantum (dr_skip w d) = dr_quantum d"
    using skip(2) by (auto simp: dr_skip_def)
  with skip(4) dr_lead_skip [OF skip(1,2) assms(3)] show ?case by auto
qed

text \<open>A run of departures with no arrival between them.\<close>

fun dr_deques :: "nat \<Rightarrow> real \<Rightarrow> drr \<Rightarrow> drr res" where
  "dr_deques 0 now d = Ok d"
| "dr_deques (Suc n) now d = res_bind (dr_deque now d) (\<lambda>(_, d'). dr_deques n now d')"

lemma dr_deques_lead:
  assumes "dr_inv mx d" "i \<noteq> j" "dr_deques n now d = Ok d'" "i \<in> set (dr_ring d')" "j \<in> set (dr_ring d')"
  shows "dr_inv mx d' \<and> i \<in> set (dr_ring d) \<and> j \<in> set (dr_ring d) \<and> dr_lead i j d' = dr_lead i j d \<and>
    dr_quantum d' = dr_quantum d"
  using assms(1,3)
proof (induction n arbitrary: d)
  case 0
  with assms show ?case by simp
next
  case (Suc n)
  from Suc.prems(2) obtain x d1 where d1: "dr_deque now d = Ok (x, d1)" "dr_deques n now d1 = Ok d'"
    by (cases "dr_deque now d") auto
  have inv1: "dr_inv mx d1" using dr_deque_ok [OF Suc.prems(1), of now] d1(1) by (auto simp: deq_ok_def)
  note IH = Suc.IH [OF inv1 d1(2)]
  show ?case
  proof (cases "dr_bytecnt d = 0")
    case True
    with d1 IH show ?thesis by (simp add: dr_deque_def)
  next
    case False
    then have "dr_ring d \<noteq> []" using dr_bytecnt_zero(2) dr_ring_Nil Suc.prems(1) by blast
    moreover have "dr_serve d = Some (Ok (x, d1))" using d1(1) False by (simp add: dr_deque_def split: option.splits)
    ultimately show ?thesis using dr_serve_lead [OF Suc.prems(1) _ assms(2)] IH by auto
  qed
qed

lemma dr_credit_bounds:
  assumes "dr_inv mx d" "w \<in> set (dr_ring d)"
  shows "- dr_quantum d \<le> dr_credit w d + fl_bcount (dr_flows d ! w)"
    and "dr_credit w d + fl_bcount (dr_flows d ! w) < mx"
  using dr_ring_flow(3) [OF assms] assms(1) by (auto simp: dr_credit_def dr_inv_def Let_def)

section \<open>Properties\<close>

text \<open>
  whatever packets of 1 to \<open>mx\<close> bytes arrive at a link with a deficit round robin queue,
  no step fails (in particular the loop of \<open>deque\<close> always ends), every packet is sent,
  dropped or queued exactly once, and the link is idle only when the queue is empty.
\<close>

theorem drr_link_conserves:
  assumes "link_reach (dr_adm mx) dr_enque dr_deque q0 r" "dr_inv mx q0" "dr_content q0 = []"
    "\<not> qb_blocked q0" "qb_unblock_on_resume q0"
  shows "\<exists>l. r = Ok l \<and>
    addrs (lk_arrived l) = addrs (lk_sent l) + addrs (lk_dropped l) + addrs (dr_content (lk_queue l)) \<and>
    (\<not> lk_busy l \<longrightarrow> dr_content (lk_queue l) = [])"
  using drrq.link_reach_inv [OF assms] by (auto simp: drrq.link_inv_def)

definition demo_flow :: "nat \<Rightarrow> flow" where
  "demo_flow n = \<lparr>fl_q = map demo_packet [10 * n..<10 * n + 4], fl_pkts = 4, fl_bcount = 2000, fl_deficit = 0,
     fl_turn = False, fl_src = -1\<rparr>"

definition demo_drr :: "flow list \<Rightarrow> drr" where
  "demo_drr fs = qbase.extend demo_qbase
     (drr.fields 2 5000 250 False (2000 * int (length fs)) (4 * int (length fs)) (int (length fs)) [0..<length fs] fs)"

lemmas demo_drr_defs = demo_drr_def demo_flow_def demo_qbase_def demo_packet_def drr.defs qbase.defs

lemma demo_drr_inv: "dr_inv 500 (demo_drr [])" "dr_inv 500 (demo_drr [demo_flow 0, demo_flow 1])"
  by (auto simp: dr_inv_def demo_drr_defs upt_rec less_Suc_eq)

theorem drr_link_conserves_witness:
  "\<exists>l. link_arrive dr_enque dr_deque 1 (demo_packet 7) (link_start (demo_drr [])) = Ok l \<and>
     addrs (lk_arrived l) = addrs (lk_sent l) + addrs (lk_dropped l) + addrs (dr_content (lk_queue l))"
proof -
  have "dr_adm 500 (demo_packet 7)" by (simp add: dr_adm_def demo_packet_def)
  then have "link_reach (dr_adm 500) dr_enque dr_deque (demo_drr [])
      (link_arrive dr_enque dr_deque 1 (demo_packet 7) (link_start (demo_drr [])))"
    by (intro link_reach.step [OF link_reach.start] link_step.arrive) (simp_all add: link_start_def)
  from drr_link_conserves [OF this demo_drr_inv(1)] show ?thesis
    by (simp add: demo_drr_defs dr_content_def) blast
qed

text \<open>
  C29: deficit round robin is fair: over any number of departures, two flows that both stay
  backlogged are served the same number of bytes up to two packets and three quanta,
  whatever the sizes of their packets.
\<close>

theorem drr_fair:
  assumes "dr_inv mx d" "dr_deques n now d = Ok d'" "i \<noteq> j" "i \<in> set (dr_ring d')" "j \<in> set (dr_ring d')"
  shows "\<bar>(fl_bcount (dr_flows d ! i) - fl_bcount (dr_flows d' ! i)) -
     (fl_bcount (dr_flows d ! j) - fl_bcount (dr_flows d' ! j))\<bar> < 2 * mx + 3 * dr_quantum d"
proof -
  note l = dr_deques_lead [OF assms(1,3,2,4,5)]
  then have l': "dr_inv mx d'" "i \<in> set (dr_ring d)" "j \<in> set (dr_ring d)" "dr_lead i j d' = dr_lead i j d"
    "dr_quantum d' = dr_quantum d" by blast+
  have "0 < dr_quantum d" using assms(1) by (simp add: dr_inv_def)
  then show ?thesis
    using l'(4,5) dr_credit_bounds [OF assms(1) l'(2)] dr_credit_bounds [OF assms(1) l'(3)]
      dr_credit_bounds [OF l'(1) assms(4)] dr_credit_bounds [OF l'(1) assms(5)]
    by (auto simp: dr_lead_def split: if_splits)
qed

lemma demo_drr_run:
  "\<exists>d. dr_deques 3 0 (demo_drr [demo_flow 0, demo_flow 1]) = Ok d \<and> dr_ring d = [0, 1] \<and>
     map fl_bcount (dr_flows d) = [1000, 1500]"
  by (simp add: eval_nat_numeral dr_deque_def dr_serve.simps demo_drr_defs Let_def ring_idle_def upt_rec)

theorem drr_fair_witness:
  "\<exists>d. dr_deques 3 0 (demo_drr [demo_flow 0, demo_flow 1]) = Ok d \<and>
     \<bar>(2000 - fl_bcount (dr_flows d ! 0)) - (2000 - fl_bcount (dr_flows d ! 1))\<bar> < 1750"
proof -
  obtain d where d: "dr_deques 3 0 (demo_drr [demo_flow 0, demo_flow 1]) = Ok d" "dr_ring d = [0, 1]"
    using demo_drr_run by blast
  with drr_fair [OF demo_drr_inv(2) d(1), of 0 1] show ?thesis
    by (simp add: demo_drr_defs)
qed

text \<open>
  after any arrival the buckets hold at most \<open>blimit_\<close> bytes: packets of the flow with
  most bytes are dropped until they do, and only as many packets leave as are reported
  dropped.
\<close>

theorem drr_limit:
  assumes "dr_inv mx d" "dr_adm mx p" "dr_enque now p d = Ok (d', drops)"
  shows "dr_bytecnt d' \<le> dr_blimit d' \<and> dr_bytecnt d' = list_bytes (dr_content d') \<and>
    addrs (dr_content d') + addrs drops = add_mset (pk_addr p) (addrs (dr_content d))"
proof -
  have p: "0 < pk_size p" "pk_size p \<le> mx" "0 \<le> pk_src p" using assms(2) by (simp_all add: dr_adm_def)
  have "sum_list (map (\<lambda>f. list_bytes (fl_q f)) fs) = list_bytes (concat (map fl_q fs))" for fs
    by (induction fs) simp_all
  then show ?thesis
    using dr_enque_ok [OF assms(1) p, of now] assms(3) by (auto simp: dr_inv_def dr_content_def)
qed

theorem drr_limit_witness:
  "\<exists>d drops. dr_enque 0 (demo_packet 7) (demo_drr [demo_flow 0, demo_flow 1]) = Ok (d, drops) \<and>
     dr_bytecnt d \<le> dr_blimit d"
proof -
  have "dr_adm 500 (demo_packet 7)" by (simp add: dr_adm_def demo_packet_def)
  moreover from this obtain d drops where "dr_enque 0 (demo_packet 7) (demo_drr [demo_flow 0, demo_flow 1]) = Ok (d, drops)"
    using dr_enque_ok [OF demo_drr_inv(2), of "demo_packet 7" 0] by (auto simp: dr_adm_def)
  ultimately show ?thesis using drr_limit [OF demo_drr_inv(2)] by blast
qed

end
