(* ===== verification/Weighted_Round_Robin.thy ===== *)
theory Weighted_Round_Robin
  imports Deficit_Round_Robin
begin

text \<open>
  Class \<open>DWRR\<close> of \<open>queue/dwrr.cc\<close>: deficit round robin in which the quantum of a flow is
  multiplied with its weight, the address of its source, and the flows are served in order of weight. The
  array \<open>weights\<close> holds the weights of the active flows in descending order, and \<open>cerprique\<close> is the
  position in it of the flow whose turn it is. The circular list is modelled as for \<open>DRR\<close>.
  The credit of a turn, \<open>weight * quantum_\<close>, wraps around at 32 bits; the counters of bytes and packets,
  which the limit of the queue bounds, are not wrapped around.
\<close>

record wflow =
  wf_q :: "packet list"
  wf_pkts :: int
  wf_bcount :: int
  wf_deficit :: int
  wf_site :: int
  wf_turn :: bool
  wf_weight :: int

text \<open>The constructor does not set \<open>weight\<close>; \<open>junk\<close> is what the memory holds.\<close>

definition wflow_new :: "int \<Rightarrow> wflow" where
  "wflow_new junk = \<lparr>wf_q = [], wf_pkts = 0, wf_bcount = 0, wf_deficit = 0, wf_site = 0, wf_turn = False,
     wf_weight = junk\<rparr>"

record dwrr = qbase +
  dw_flows :: "wflow list"
  dw_ring :: "nat list"
  dw_buckets :: int
  dw_blimit :: int
  dw_quantum :: int
  dw_bytecnt :: int
  dw_pktcnt :: int
  dw_flwcnt :: int
  dw_weights :: "int list"
  dw_cerprique :: int

definition dw_new :: "(nat \<Rightarrow> int) \<Rightarrow> qbase \<Rightarrow> int \<Rightarrow> int \<Rightarrow> dwrr" where
  "dw_new junk base buckets blimit =
     qbase.extend base (dwrr.fields [] [] buckets blimit 2000 0 0 0 (map junk [0..<16]) 0)"

section \<open>Sorting the weights\<close>

text \<open>The two loops of \<open>rearr\<close>: a bubble sort into descending order.\<close>

definition bubble_step :: "int list \<Rightarrow> nat \<Rightarrow> int list" where
  "bubble_step ws j = (if ws ! j < ws ! Suc j then ws[j := ws ! Suc j, Suc j := ws ! j] else ws)"

definition bubble_pass :: "nat \<Rightarrow> int list \<Rightarrow> int list" where
  "bubble_pass m ws = foldl bubble_step ws [0..<m]"

definition bubble_sort :: "int list \<Rightarrow> int list" where
  "bubble_sort ws = (let n = length ws in foldl (\<lambda>xs i. bubble_pass (n - i - 1) xs) ws [0..<n])"

section \<open>The operations\<close>

text \<open>The weights of the first \<open>n\<close> flows of the circular list from \<open>head\<close> on.\<close>

definition ring_weights :: "wflow list \<Rightarrow> nat list \<Rightarrow> nat \<Rightarrow> int list" where
  "ring_weights fs ring n = map (\<lambda>i. wf_weight (fs ! (ring ! (i mod length ring)))) [0..<n]"

definition dw_rearr :: "dwrr \<Rightarrow> dwrr" where
  "dw_rearr d =
     (if dw_ring d = [] then d
      else d\<lparr>dw_weights := bubble_sort (ring_weights (dw_flows d) (dw_ring d) (nat (dw_flwcnt d))),
             dw_cerprique := 0\<rparr>)"

lemma dw_rearr_frame [simp]:
  "dw_flows (dw_rearr d) = dw_flows d" "dw_ring (dw_rearr d) = dw_ring d" "dw_flwcnt (dw_rearr d) = dw_flwcnt d"
  "dw_bytecnt (dw_rearr d) = dw_bytecnt d" "dw_pktcnt (dw_rearr d) = dw_pktcnt d" "dw_blimit (dw_rearr d) = dw_blimit d"
  "dw_quantum (dw_rearr d) = dw_quantum d" "dw_buckets (dw_rearr d) = dw_buckets d"
  "qb_blocked (dw_rearr d) = qb_blocked d" "qb_unblock_on_resume (dw_rearr d) = qb_unblock_on_resume d"
  by (simp_all add: dw_rearr_def)

definition dw_getMaxflow :: "dwrr \<Rightarrow> nat option" where
  "dw_getMaxflow d =
     (if dw_ring d = [] then None
      else Some (ring_max (\<lambda>w. wf_bcount (dw_flows d ! w)) (nat (dw_flwcnt d)) (dw_ring d)))"

function dw_drop_loop :: "dwrr \<Rightarrow> packet list \<Rightarrow> (dwrr \<times> packet list) res" where
  "dw_drop_loop d drops =
     (if dw_bytecnt d > dw_blimit d then
        (case dw_getMaxflow d of
           None \<Rightarrow> Fail Null_Deref
         | Some w \<Rightarrow>
             if w \<ge> length (dw_flows d) then Fail Bad_Index
             else case wf_q (dw_flows d ! w) of
                 [] \<Rightarrow> Fail Null_Deref
               | p # ps \<Rightarrow>
                   let f = dw_flows d ! w;
                       f' = f\<lparr>wf_q := ps, wf_bcount := wf_bcount f - pk_size p, wf_pkts := wf_pkts f - 1\<rparr>;
                       d1 = d\<lparr>dw_flows := (dw_flows d)[w := f'], dw_bytecnt := dw_bytecnt d - pk_size p,
                              dw_pktcnt := dw_pktcnt d - 1\<rparr>;
                       d2 = (if wf_pkts f' = 0
                             then dw_rearr (d1\<lparr>dw_ring := ring_idle w (dw_ring d1), dw_flwcnt := dw_flwcnt d1 - 1\<rparr>)
                             else d1)
                   in dw_drop_loop d2 (drops @ [p]))
      else Ok (d, drops))"
  by pat_completeness auto

termination
proof (relation "measure (\<lambda>(d, _). length (concat (map wf_q (dw_flows d))))", simp, goal_cases)
  case (1 d drops w p ps f f' d1 d2)
  let ?qs = "map wf_q (dw_flows d)"
  have w: "w < length ?qs" "?qs ! w = p # ps" using 1 by auto
  have "size (mset (concat (?qs[w := ps])) + mset (?qs ! w)) = size (mset (concat ?qs) + mset ps)"
    using mset_concat_update [OF w(1), of ps] by (rule arg_cong)
  then have "length (concat (?qs[w := ps])) < length (concat ?qs)" using w(2) by simp
  moreover have "map wf_q (dw_flows d2) = ?qs[w := ps]" using 1 by (simp add: map_update)
  ultimately show ?case by simp
qed

declare dw_drop_loop.simps [simp del]

definition dw_enque :: "(nat \<Rightarrow> int) \<Rightarrow> dwrr enq_fun" where
  "dw_enque junk now p d0 =
     (let d1 = (if dw_flows d0 = [] then d0\<lparr>dw_flows := map (\<lambda>i. wflow_new (junk i)) [0..<nat (dw_buckets d0)]\<rparr> else d0);
          which = c_mod (pk_src p) (dw_buckets d1);
          w = nat which
      in if dw_buckets d1 = 0 then Fail Div_By_Zero
         else if which < 0 \<or> w \<ge> length (dw_flows d1) then Fail Bad_Index
         else
           let f = dw_flows d1 ! w;
               f1 = f\<lparr>wf_q := wf_q f @ [p], wf_pkts := wf_pkts f + 1, wf_bcount := wf_bcount f + pk_size p\<rparr>;
               d2 = d1\<lparr>dw_pktcnt := dw_pktcnt d1 + 1, dw_bytecnt := dw_bytecnt d1 + pk_size p\<rparr>;
               d3 = (if wf_pkts f1 = 1
                     then dw_rearr (d2\<lparr>dw_flows := (dw_flows d2)[w := f1\<lparr>wf_deficit := 0, wf_weight := pk_src p, wf_site := which\<rparr>],
                             dw_ring := ring_activate w (dw_ring d2), dw_flwcnt := dw_flwcnt d2 + 1\<rparr>)
                     else d2\<lparr>dw_flows := (dw_flows d2)[w := f1]\<rparr>)
           in dw_drop_loop d3 [])"

text \<open>\<open>moveMaxweight\<close> walks the circular list until it meets the weight whose turn it is.\<close>

partial_function (option) dw_walk :: "int \<Rightarrow> wflow list \<Rightarrow> nat list \<Rightarrow> nat list res option" where
  "dw_walk target fs ring =
     (case ring of
        [] \<Rightarrow> Some (Fail Null_Deref)
      | w # ws \<Rightarrow>
          if w \<ge> length fs then Some (Fail Bad_Index)
          else if wf_weight (fs ! w) = target then Some (Ok ring) else dw_walk target fs (ws @ [w]))"

definition dw_moveMaxweight :: "dwrr \<Rightarrow> nat list res option" where
  "dw_moveMaxweight d =
     (if dw_cerprique d < 0 \<or> nat (dw_cerprique d) \<ge> length (dw_weights d) then Some (Fail Bad_Index)
      else dw_walk (dw_weights d ! nat (dw_cerprique d)) (dw_flows d) (dw_ring d))"

text \<open>One pass of the loop of \<open>deque\<close>: a packet, or the state for the next pass.\<close>

definition dw_turn :: "dwrr \<Rightarrow> ((packet \<times> dwrr) + dwrr) res option" where
  "dw_turn d0 =
     (case dw_moveMaxweight d0 of
        None \<Rightarrow> None
      | Some (Inl err) \<Rightarrow> Some (Fail err)
      | Some (Inr []) \<Rightarrow> Some (Fail Null_Deref)
      | Some (Inr (w # ws)) \<Rightarrow>
          let d = d0\<lparr>dw_ring := w # ws\<rparr>;
              f0 = dw_flows d ! w;
              f = (if wf_turn f0 then f0 else f0\<lparr>wf_deficit := wrap_s32 (wf_deficit f0 + wrap_s32 (wf_weight f0 * dw_quantum d)),
                             wf_turn := True\<rparr>)
          in case wf_q f of
              [] \<Rightarrow> Some (Fail Null_Deref)
            | p # ps \<Rightarrow>
                if wf_deficit f \<ge> pk_size p then
                  let f1 = f\<lparr>wf_deficit := wf_deficit f - pk_size p, wf_q := ps,
                             wf_bcount := wf_bcount f - pk_size p, wf_pkts := wf_pkts f - 1\<rparr>;
                      d1 = d\<lparr>dw_pktcnt := dw_pktcnt d - 1, dw_bytecnt := dw_bytecnt d - pk_size p\<rparr>
                  in Some (Ok (Inl (p,
                       if wf_pkts f1 = 0
                       then dw_rearr (d1\<lparr>dw_flows := (dw_flows d1)[w := f1\<lparr>wf_turn := False, wf_deficit := 0\<rparr>],
                              dw_flwcnt := dw_flwcnt d1 - 1, dw_ring := ring_idle w (dw_ring d1)\<rparr>)
                       else d1\<lparr>dw_flows := (dw_flows d1)[w := f1]\<rparr>)))
                else
                  let c = dw_cerprique d + 1
                  in Some (Ok (Inr (d\<lparr>dw_flows := (dw_flows d)[w := f\<lparr>wf_turn := False\<rparr>],
                                      dw_cerprique := if c \<ge> dw_flwcnt d then 0 else c\<rparr>))))"

partial_function (option) dw_serve :: "dwrr \<Rightarrow> (packet option \<times> dwrr) res option" where
  "dw_serve d =
     (case dw_turn d of
        None \<Rightarrow> None
      | Some (Inl err) \<Rightarrow> Some (Fail err)
      | Some (Inr (Inl (p, d'))) \<Rightarrow> Some (Ok (Some p, d'))
      | Some (Inr (Inr d')) \<Rightarrow> dw_serve d')"

definition dw_deque :: "dwrr deq_fun" where
  "dw_deque now d =
     (if dw_bytecnt d = 0 then Ok (None, d)
      else case dw_serve d of None \<Rightarrow> Fail No_Return | Some r \<Rightarrow> r)"

definition dw_set_blimit :: "int \<Rightarrow> dwrr \<Rightarrow> dwrr res" where
  "dw_set_blimit n d = (if dw_bytecnt d > n then Fail Exit else Ok (d\<lparr>dw_blimit := n\<rparr>))"

section \<open>The bubble sort\<close>

lemma length_bubble_step [simp]: "length (bubble_step ws j) = length ws"
  by (simp add: bubble_step_def)

lemma bubble_pass_0 [simp]: "bubble_pass 0 ws = ws"
  by (simp add: bubble_pass_def)

lemma bubble_pass_Suc: "bubble_pass (Suc m) ws = bubble_step (bubble_pass m ws) m"
  by (simp add: bubble_pass_def)

lemma length_bubble_pass [simp]: "length (bubble_pass m ws) = length ws"
  by (induction m) (simp_all add: bubble_pass_Suc)

text \<open>A pass over \<open>m\<close> neighbours moves the least of the first \<open>m + 1\<close> elements to position \<open>m\<close>.\<close>

lemma mset_take_bubble:
  assumes "Suc m < length xs"
  shows "mset (take (Suc (Suc m)) (xs[m := xs ! Suc m, Suc m := xs ! m])) = mset (take (Suc (Suc m)) xs)"
proof -
  have upd: "length us = m \<Longrightarrow> (us @ [a, b])[m := b, Suc m := a] = us @ [b, a]" for us and a b :: 'a
    by (auto simp: list_update_append)
  have "take (Suc (Suc m)) (xs[m := xs ! Suc m, Suc m := xs ! m]) = (take m xs) @ [xs ! Suc m, xs ! m]"
    using assms by (simp add: take_Suc_conv_app_nth take_update_swap upd)
  moreover have "take (Suc (Suc m)) xs = take m xs @ [xs ! m, xs ! Suc m]"
    using assms by (simp add: take_Suc_conv_app_nth)
  ultimately show ?thesis by simp
qed

lemma bubble_pass_min:
  "m < length ws \<Longrightarrow> mset (take (Suc m) (bubble_pass m ws)) = mset (take (Suc m) ws) \<and>
     drop (Suc m) (bubble_pass m ws) = drop (Suc m) ws \<and>
     (\<forall>i \<le> m. bubble_pass m ws ! m \<le> bubble_pass m ws ! i)"
proof (induction m)
  case (Suc m)
  let ?xs = "bubble_pass m ws"
  have IH: "mset (take (Suc m) ?xs) = mset (take (Suc m) ws)" "drop (Suc m) ?xs = drop (Suc m) ws"
    "\<forall>i \<le> m. ?xs ! m \<le> ?xs ! i" using Suc by simp_all
  have len: "Suc m < length ?xs" using Suc.prems by simp
  have same: "?xs ! Suc m = ws ! Suc m" using IH(2) len by (metis hd_drop_conv_nth length_bubble_pass)
  have "drop (Suc (Suc m)) ?xs = drop (Suc (Suc m)) ws" using IH(2) by (metis drop_Suc tl_drop)
  moreover have "mset (take (Suc (Suc m)) ?xs) = mset (take (Suc (Suc m)) ws)"
    using len IH(1) same Suc.prems by (simp add: take_Suc_conv_app_nth [of "Suc m"])
  ultimately show ?case
    using IH(3) len mset_take_bubble [OF len]
    by (auto simp: bubble_pass_Suc bubble_step_def nth_list_update le_Suc_eq)
qed simp

definition bubbled :: "nat \<Rightarrow> int list \<Rightarrow> int list \<Rightarrow> bool" where
  "bubbled k ws xs \<longleftrightarrow> mset xs = mset ws \<and> sorted_wrt (\<ge>) (drop (length ws - k) xs) \<and>
     (\<forall>x \<in> set (take (length ws - k) xs). \<forall>y \<in> set (drop (length ws - k) xs). y \<le> x)"

lemma bubbled_pass:
  assumes b: "bubbled k ws xs" and k: "k < length ws"
  shows "bubbled (Suc k) ws (bubble_pass (length ws - k - 1) xs)"
proof -
  define m where "m = length ws - k - 1"
  have len: "length xs = length ws" using b by (metis bubbled_def size_mset)
  have m: "m < length xs" "length ws - k = Suc m" "length ws - Suc k = m" using k len by (simp_all add: m_def)
  let ?ys = "bubble_pass m xs"
  note p = bubble_pass_min [OF m(1)]
  have "mset ?ys = mset (take (Suc m) ?ys) + mset (drop (Suc m) ?ys)" by (metis append_take_drop_id mset_append)
  also have "\<dots> = mset (take (Suc m) xs) + mset (drop (Suc m) xs)" using p by simp
  also have "\<dots> = mset xs" by (metis append_take_drop_id mset_append)
  finally have ms: "mset ?ys = mset ws" using b by (simp add: bubbled_def)
  have dy: "drop m ?ys = ?ys ! m # drop (Suc m) xs" using m(1) p by (simp add: Cons_nth_drop_Suc [symmetric])
  have ty: "set (take (Suc m) ?ys) = set (take (Suc m) xs)" using p by (metis mset_eq_setD)
  have ym: "?ys ! m \<in> set (take (Suc m) xs)"
    using m(1) ty by (metis in_set_conv_nth length_bubble_pass length_take less_Suc_eq min_less_iff_conj nth_take)
  have old: "sorted_wrt (\<ge>) (drop (Suc m) xs)" "\<And>x y. x \<in> set (take (Suc m) xs) \<Longrightarrow> y \<in> set (drop (Suc m) xs) \<Longrightarrow> y \<le> x"
    using b m(2) by (auto simp: bubbled_def)
  have "sorted_wrt (\<ge>) (drop m ?ys)" unfolding dy using old ym by simp
  moreover have "y \<le> x" if x: "x \<in> set (take m ?ys)" and y: "y \<in> set (drop m ?ys)" for x y
  proof (cases "y = ?ys ! m")
    case True
    obtain i where "i < m" "x = ?ys ! i" using x m(1) by (auto simp: in_set_conv_nth)
    with p True show ?thesis by simp
  next
    case False
    then have "y \<in> set (drop (Suc m) xs)" using y by (simp add: dy)
    moreover have "x \<in> set (take (Suc m) xs)" using x ty set_take_subset_set_take [of m "Suc m" ?ys] by auto
    ultimately show ?thesis using old(2) by blast
  qed
  ultimately show ?thesis using ms m(3) by (simp add: bubbled_def flip: m_def)
qed

lemma bubbled_loop:
  "k \<le> length ws \<Longrightarrow> bubbled k ws (foldl (\<lambda>xs i. bubble_pass (length ws - i - 1) xs) ws [0..<k])"
proof (induction k)
  case (Suc k)
  then show ?case using bubbled_pass [of k ws] by simp
qed (simp add: bubbled_def)

lemma bubble_sort_sorts: "sorted_wrt (\<ge>) (bubble_sort ws)" "mset (bubble_sort ws) = mset ws"
  using bubbled_loop [of "length ws" ws] by (simp_all add: bubble_sort_def bubbled_def Let_def)

lemma bubble_sort_eq: "bubble_sort ws = rev (sort ws)"
proof -
  have "sort ws = rev (bubble_sort ws)"
    using bubble_sort_sorts [of ws] by (intro properties_for_sort) (simp_all add: sorted_wrt_rev)
  then show ?thesis by simp
qed

lemma length_bubble_sort [simp]: "length (bubble_sort ws) = length ws"
  by (metis bubble_sort_sorts(2) size_mset)

section \<open>Walking to the flow of a weight\<close>

lemma dw_walk_split:
  "\<forall>x \<in> set xs. x < length fs \<and> wf_weight (fs ! x) \<noteq> target \<Longrightarrow> w < length fs \<Longrightarrow> wf_weight (fs ! w) = target \<Longrightarrow>
   dw_walk target fs (xs @ w # ys) = Some (Ok (w # ys @ xs))"
proof (induction xs arbitrary: ys)
  case Nil
  then show ?case by (subst dw_walk.simps) simp
next
  case (Cons x xs)
  have "dw_walk target fs ((x # xs) @ w # ys) = dw_walk target fs (xs @ w # (ys @ [x]))"
    using Cons.prems(1) by (subst dw_walk.simps) simp
  also have "\<dots> = Some (Ok (w # (ys @ [x]) @ xs))" using Cons.prems by (intro Cons.IH) auto
  finally show ?case by simp
qed

lemma dw_walk_finds:
  assumes "\<forall>w \<in> set ring. w < length fs" "target \<in> (\<lambda>w. wf_weight (fs ! w)) ` set ring"
  shows "\<exists>w ws. dw_walk target fs ring = Some (Ok (w # ws)) \<and> mset (w # ws) = mset ring \<and> wf_weight (fs ! w) = target"
proof -
  obtain xs w ys where "ring = xs @ w # ys" "wf_weight (fs ! w) = target" "\<forall>x \<in> set xs. wf_weight (fs ! x) \<noteq> target"
    using split_list_first_prop [of ring "\<lambda>w. wf_weight (fs ! w) = target"] assms(2) by auto
  with dw_walk_split [of xs fs target w ys] assms(1) show ?thesis by auto
qed

section \<open>The invariant\<close>

abbreviation wflow_ok :: "int \<Rightarrow> int \<Rightarrow> wflow \<Rightarrow> bool" where
  "wflow_ok mx qt f \<equiv> wf_pkts f = list_len (wf_q f) \<and> wf_bcount f = list_bytes (wf_q f) \<and>
     (\<forall>p \<in> set (wf_q f). 0 < pk_size p \<and> pk_size p \<le> mx) \<and>
     (wf_q f \<noteq> [] \<longrightarrow> 0 < wf_weight f \<and> mx + wf_weight f * qt \<le> 2 ^ 31 \<and> 0 \<le> wf_deficit f \<and>
        wf_deficit f < mx + (if wf_turn f then wf_weight f * qt else 0))"

text \<open>
  The packets of the invariant: at most \<open>mx\<close> bytes, from a positive address that is small enough for a
  packet and the credit of a turn (the quantum is 2000) to fit into 32 bits.
\<close>

definition dw_adm :: "int \<Rightarrow> packet \<Rightarrow> bool" where
  "dw_adm mx p \<longleftrightarrow> 0 < pk_size p \<and> pk_size p \<le> mx \<and> 0 < pk_src p \<and> mx + pk_src p * 2000 \<le> 2 ^ 31"

definition dw_content :: "dwrr \<Rightarrow> packet list" where
  "dw_content d = concat (map wf_q (dw_flows d))"

definition dw_core :: "int \<Rightarrow> dwrr \<Rightarrow> bool" where
  "dw_core mx d \<longleftrightarrow> 0 < mx \<and> 0 < dw_buckets d \<and> dw_quantum d = 2000 \<and> 0 \<le> dw_blimit d \<and>
     (dw_flows d = [] \<or> length (dw_flows d) = nat (dw_buckets d)) \<and>
     (\<forall>f \<in> set (dw_flows d). wflow_ok mx (dw_quantum d) f) \<and>
     distinct (dw_ring d) \<and>
     (\<forall>w. w \<in> set (dw_ring d) \<longleftrightarrow> w < length (dw_flows d) \<and> wf_q (dw_flows d ! w) \<noteq> []) \<and>
     dw_flwcnt d = int (length (dw_ring d)) \<and>
     dw_bytecnt d = sum_list (map (\<lambda>f. list_bytes (wf_q f)) (dw_flows d)) \<and>
     dw_pktcnt d = sum_list (map (\<lambda>f. list_len (wf_q f)) (dw_flows d))"

text \<open>\<open>weights\<close> are the weights of the active flows and \<open>cerprique\<close> is a position in them.\<close>

definition dw_order :: "dwrr \<Rightarrow> bool" where
  "dw_order d \<longleftrightarrow> (dw_ring d \<noteq> [] \<longrightarrow>
     mset (dw_weights d) = mset (map (\<lambda>w. wf_weight (dw_flows d ! w)) (dw_ring d)) \<and>
     sorted_wrt (\<ge>) (dw_weights d) \<and> 0 \<le> dw_cerprique d \<and> dw_cerprique d < int (length (dw_ring d)))"

definition dw_inv :: "int \<Rightarrow> dwrr \<Rightarrow> bool" where
  "dw_inv mx d \<longleftrightarrow> dw_core mx d \<and> dw_order d"

lemma dw_core_updateI:
  assumes inv: "dw_core mx d" and len: "length fs = length (dw_flows d)"
    and ok: "\<forall>f \<in> set fs. wflow_ok mx (dw_quantum d) f"
    and ring: "distinct ring" "\<And>w. w \<in> set ring \<longleftrightarrow> w < length fs \<and> wf_q (fs ! w) \<noteq> []"
    and cnt: "c = int (length ring)" "b = sum_list (map (\<lambda>f. list_bytes (wf_q f)) fs)"
      "n = sum_list (map (\<lambda>f. list_len (wf_q f)) fs)"
  shows "dw_core mx (d\<lparr>dw_flows := fs, dw_bytecnt := b, dw_pktcnt := n, dw_ring := ring, dw_flwcnt := c\<rparr>)"
proof -
  have c: "0 < mx" "0 < dw_buckets d" "dw_quantum d = 2000" "0 \<le> dw_blimit d"
    "fs = [] \<or> length fs = nat (dw_buckets d)"
    using inv len unfolding dw_core_def by auto
  show ?thesis
    unfolding dw_core_def
    by (intro conjI allI) (use c in \<open>simp_all add: ring cnt\<close>, use ok in \<open>auto split: if_splits\<close>)
qed

lemma dw_core_rearr [simp]: "dw_core mx (dw_rearr d) = dw_core mx d"
  unfolding dw_core_def by simp

lemma dw_content_rearr [simp]: "dw_content (dw_rearr d) = dw_content d"
  by (simp add: dw_content_def)

lemma dw_order_rearr:
  assumes "dw_core mx d"
  shows "dw_order (dw_rearr d)"
proof (cases "dw_ring d = []")
  case False
  have n: "nat (dw_flwcnt d) = length (dw_ring d)" using assms by (simp add: dw_core_def)
  have "ring_weights (dw_flows d) (dw_ring d) (length (dw_ring d)) = map (\<lambda>w. wf_weight (dw_flows d ! w)) (dw_ring d)"
    by (intro nth_equalityI) (simp_all add: ring_weights_def)
  then show ?thesis
    using False n by (simp add: dw_order_def dw_rearr_def bubble_sort_sorts)
qed (simp add: dw_order_def dw_rearr_def)

lemma dw_inv_rearr: "dw_core mx d \<Longrightarrow> dw_inv mx (dw_rearr d)"
  by (simp add: dw_inv_def dw_order_rearr)

lemma dw_sum_zero:
  assumes "\<forall>f \<in> set fs. \<forall>p \<in> set (wf_q f). 0 < pk_size p"
  shows "0 \<le> sum_list (map (\<lambda>f. list_bytes (wf_q f)) fs) \<and>
    (sum_list (map (\<lambda>f. list_bytes (wf_q f)) fs) = 0 \<longleftrightarrow> concat (map wf_q fs) = [])"
  using assms
proof (induction fs)
  case (Cons f fs)
  then show ?case using list_bytes_pos [of "wf_q f"] by (cases "wf_q f = []") auto
qed simp

lemma dw_bytecnt_zero:
  assumes "dw_core mx d"
  shows "0 \<le> dw_bytecnt d" "dw_bytecnt d = 0 \<longleftrightarrow> dw_content d = []"
proof -
  have "\<forall>f \<in> set (dw_flows d). \<forall>p \<in> set (wf_q f). 0 < pk_size p" "dw_bytecnt d = sum_list (map (\<lambda>f. list_bytes (wf_q f)) (dw_flows d))"
    using assms by (auto simp: dw_core_def)
  from dw_sum_zero [OF this(1)] this(2) show "0 \<le> dw_bytecnt d" "dw_bytecnt d = 0 \<longleftrightarrow> dw_content d = []"
    by (simp_all add: dw_content_def)
qed

lemma dw_ring_flow:
  assumes "dw_core mx d" "w \<in> set (dw_ring d)"
  shows "w < length (dw_flows d)" "wf_q (dw_flows d ! w) \<noteq> []" "wflow_ok mx (dw_quantum d) (dw_flows d ! w)"
  using assms by (auto simp: dw_core_def)

lemma dw_ring_Nil:
  assumes "dw_core mx d"
  shows "dw_ring d = [] \<longleftrightarrow> dw_content d = []"
proof
  assume "dw_ring d = []"
  then have "\<And>w. w < length (dw_flows d) \<Longrightarrow> wf_q (dw_flows d ! w) = []"
    using assms by (auto simp: dw_core_def)
  then show "dw_content d = []" by (auto simp: dw_content_def in_set_conv_nth)
next
  assume c: "dw_content d = []"
  have "w \<notin> set (dw_ring d)" for w
  proof
    assume "w \<in> set (dw_ring d)"
    from dw_ring_flow [OF assms this] c show False by (auto simp: dw_content_def)
  qed
  then show "dw_ring d = []" by (cases "dw_ring d") auto
qed

lemma dw_content_update:
  assumes "w < length (dw_flows d)"
  shows "addrs (dw_content (d\<lparr>dw_flows := (dw_flows d)[w := f]\<rparr>)) + addrs (wf_q (dw_flows d ! w)) =
    addrs (dw_content d) + addrs (wf_q f)"
proof -
  have "mset (concat ((map wf_q (dw_flows d))[w := wf_q f])) + mset (map wf_q (dw_flows d) ! w) =
      mset (concat (map wf_q (dw_flows d))) + mset (wf_q f)"
    using assms by (intro mset_concat_update) simp
  then have "image_mset pk_addr (mset (concat ((map wf_q (dw_flows d))[w := wf_q f])) + mset (map wf_q (dw_flows d) ! w)) =
      image_mset pk_addr (mset (concat (map wf_q (dw_flows d))) + mset (wf_q f))" by (rule arg_cong)
  with assms show ?thesis by (simp add: dw_content_def map_update)
qed

text \<open>The circular list may start anywhere.\<close>

lemma dw_inv_rotate:
  assumes inv: "dw_inv mx d" and m: "mset ring = mset (dw_ring d)"
  shows "dw_inv mx (d\<lparr>dw_ring := ring\<rparr>)"
proof -
  have s: "set ring = set (dw_ring d)" "length ring = length (dw_ring d)" "distinct ring = distinct (dw_ring d)"
    using m mset_eq_setD mset_eq_length mset_eq_imp_distinct_iff by blast+
  then have e: "ring = [] \<longleftrightarrow> dw_ring d = []" by auto
  have "dw_core mx (d\<lparr>dw_ring := ring\<rparr>)"
    using inv s unfolding dw_inv_def dw_core_def by (auto split: if_splits)
  moreover have "dw_order (d\<lparr>dw_ring := ring\<rparr>)"
    using inv m s(2) e by (simp add: dw_inv_def dw_order_def)
  ultimately show ?thesis by (simp add: dw_inv_def)
qed

text \<open>Taking the first packet of an active flow.\<close>

definition dw_take :: "nat \<Rightarrow> int \<Rightarrow> bool \<Rightarrow> dwrr \<Rightarrow> dwrr" where
  "dw_take w deficit turn d =
     (let f = dw_flows d ! w; n = pk_size (hd (wf_q f)); last = (tl (wf_q f) = []);
          f' = f\<lparr>wf_q := tl (wf_q f), wf_bcount := wf_bcount f - n, wf_pkts := wf_pkts f - 1,
                 wf_deficit := deficit, wf_turn := turn\<rparr>;
          d' = d\<lparr>dw_flows := (dw_flows d)[w := f'], dw_bytecnt := dw_bytecnt d - n, dw_pktcnt := dw_pktcnt d - 1,
                 dw_ring := if last then remove1 w (dw_ring d) else dw_ring d,
                 dw_flwcnt := if last then dw_flwcnt d - 1 else dw_flwcnt d\<rparr>
      in if last then dw_rearr d' else d')"

lemma dw_take_inv:
  assumes inv: "dw_inv mx d" and w: "w \<in> set (dw_ring d)"
    and df: "0 \<le> df" "df < mx + (if t then wf_weight (dw_flows d ! w) * dw_quantum d else 0)"
  shows "dw_inv mx (dw_take w df t d)"
    and "addrs (dw_content d) = add_mset (pk_addr (hd (wf_q (dw_flows d ! w)))) (addrs (dw_content (dw_take w df t d)))"
proof -
  have core: "dw_core mx d" using inv by (simp add: dw_inv_def)
  note fl = dw_ring_flow [OF core w]
  let ?f = "dw_flows d ! w"
  obtain p ps where q: "wf_q ?f = p # ps" using fl(2) by (cases "wf_q ?f") auto
  define f' where "f' = ?f\<lparr>wf_q := ps, wf_bcount := wf_bcount ?f - pk_size p, wf_pkts := wf_pkts ?f - 1,
     wf_deficit := df, wf_turn := t\<rparr>"
  define fs where "fs = (dw_flows d)[w := f']"
  have ok': "wflow_ok mx (dw_quantum d) f'" using fl(3) q df by (auto simp: f'_def split: if_splits)
  have all: "\<forall>f \<in> set fs. wflow_ok mx (dw_quantum d) f"
  proof
    fix f assume "f \<in> set fs"
    then have "f = f' \<or> f \<in> set (dw_flows d)" unfolding fs_def using set_update_subset_insert by fastforce
    then show "wflow_ok mx (dw_quantum d) f" using core ok' by (auto simp: dw_core_def)
  qed
  have c: "distinct (dw_ring d)" "dw_flwcnt d = int (length (dw_ring d))"
    "dw_bytecnt d = sum_list (map (\<lambda>f. list_bytes (wf_q f)) (dw_flows d))"
    "dw_pktcnt d = sum_list (map (\<lambda>f. list_len (wf_q f)) (dw_flows d))"
    and act: "\<And>v. v \<in> set (dw_ring d) \<longleftrightarrow> v < length (dw_flows d) \<and> wf_q (dw_flows d ! v) \<noteq> []"
    using core unfolding dw_core_def by blast+
  have len: "length fs = length (dw_flows d)" by (simp add: fs_def)
  have nth: "fs ! v = (if v = w then f' else dw_flows d ! v)" for v using fl(1) by (simp add: fs_def nth_list_update)
  have sums: "dw_bytecnt d - pk_size p = sum_list (map (\<lambda>f. list_bytes (wf_q f)) fs)"
    "dw_pktcnt d - 1 = sum_list (map (\<lambda>f. list_len (wf_q f)) fs)"
    using q sum_list_update_int [OF fl(1), of "\<lambda>f. list_bytes (wf_q f)" f']
      sum_list_update_int [OF fl(1), of "\<lambda>f. list_len (wf_q f)" f'] by (simp_all add: c(3,4) fs_def f'_def)
  define ring where "ring = (if ps = [] then remove1 w (dw_ring d) else dw_ring d)"
  have mem: "v \<in> set ring \<longleftrightarrow> v < length fs \<and> wf_q (fs ! v) \<noteq> []" for v
  proof (cases "v = w")
    case True
    with w fl(1) c(1) show ?thesis by (simp add: ring_def nth len f'_def)
  next
    case False
    then have "v \<in> set ring \<longleftrightarrow> v \<in> set (dw_ring d)" by (simp add: ring_def)
    with False show ?thesis by (simp only: act nth len) simp
  qed
  have r: "distinct ring" "(if ps = [] then dw_flwcnt d - 1 else dw_flwcnt d) = int (length ring)"
    using c(1,2) w length_pos_if_in_set [OF w]
    by (simp_all add: ring_def length_remove1 of_nat_diff Suc_le_eq)
  let ?d = "d\<lparr>dw_flows := fs, dw_bytecnt := dw_bytecnt d - pk_size p,
      dw_pktcnt := dw_pktcnt d - 1, dw_ring := ring, dw_flwcnt := if ps = [] then dw_flwcnt d - 1 else dw_flwcnt d\<rparr>"
  have take: "dw_take w df t d = (if ps = [] then dw_rearr ?d else ?d)"
    using q by (simp add: dw_take_def Let_def ring_def fs_def f'_def)
  have core': "dw_core mx ?d" by (rule dw_core_updateI [OF core len all r(1) mem r(2) sums])
  show "dw_inv mx (dw_take w df t d)"
  proof (cases "ps = []")
    case True
    with dw_inv_rearr [OF core'] show ?thesis by (simp add: take)
  next
    case False
    have "wf_weight (fs ! v) = wf_weight (dw_flows d ! v)" for v by (simp add: nth f'_def)
    then have "dw_order ?d" using inv False by (simp add: dw_inv_def dw_order_def ring_def)
    with core' False show ?thesis by (simp add: take dw_inv_def)
  qed
  have "dw_content (dw_take w df t d) = dw_content (d\<lparr>dw_flows := (dw_flows d)[w := f']\<rparr>)"
    unfolding take by (simp add: dw_content_def fs_def)
  then show "addrs (dw_content d) = add_mset (pk_addr (hd (wf_q ?f))) (addrs (dw_content (dw_take w df t d)))"
    using dw_content_update [OF fl(1), of f'] q by (simp add: f'_def)
qed

lemma dw_take_frame [simp]:
  "qb_blocked (dw_take w df t d) = qb_blocked d" "qb_unblock_on_resume (dw_take w df t d) = qb_unblock_on_resume d"
  "dw_blimit (dw_take w df t d) = dw_blimit d"
  by (simp_all add: dw_take_def Let_def)

section \<open>Arrival of a packet\<close>

lemma dw_drop_loop_ok:
  "dw_inv mx d \<Longrightarrow> \<exists>d' ds. dw_drop_loop d drops = Ok (d', drops @ ds) \<and> dw_inv mx d' \<and>
     addrs (dw_content d') + addrs ds = addrs (dw_content d) \<and> dw_bytecnt d' \<le> dw_blimit d' \<and>
     qb_blocked d' = qb_blocked d \<and> qb_unblock_on_resume d' = qb_unblock_on_resume d"
proof (induction "length (dw_content d)" arbitrary: d drops rule: less_induct)
  case less
  note inv = less.prems
  have core: "dw_core mx d" using inv by (simp add: dw_inv_def)
  show ?case
  proof (cases "dw_bytecnt d > dw_blimit d")
    case False
    with inv show ?thesis by (subst dw_drop_loop.simps) auto
  next
    case True
    have "dw_blimit d \<ge> 0" using core by (simp add: dw_core_def)
    then have "dw_content d \<noteq> []" using True dw_bytecnt_zero [OF core] by auto
    then have ne: "dw_ring d \<noteq> []" using dw_ring_Nil [OF core] by simp
    let ?w = "ring_max (\<lambda>w. wf_bcount (dw_flows d ! w)) (nat (dw_flwcnt d)) (dw_ring d)"
    have w: "?w \<in> set (dw_ring d)" by (rule ring_max_mem [OF ne])
    note fl = dw_ring_flow [OF core w]
    obtain p ps where q: "wf_q (dw_flows d ! ?w) = p # ps" using fl(2) by (cases "wf_q (dw_flows d ! ?w)") auto
    let ?f = "dw_flows d ! ?w"
    let ?d = "dw_take ?w (wf_deficit ?f) (wf_turn ?f) d"
    have step: "dw_drop_loop d drops = dw_drop_loop ?d (drops @ [p])"
    proof -
      have m: "dw_getMaxflow d = Some ?w" using ne by (simp add: dw_getMaxflow_def)
      have n: "wf_pkts ?f - 1 = 0 \<longleftrightarrow> ps = []" using fl(3) q by simp
      show ?thesis
        using True fl(1) q n
        unfolding dw_drop_loop.simps [of d drops] m option.case dw_take_def Let_def ring_idle_def
        by (cases "ps = []") simp_all
    qed
    have "0 \<le> wf_deficit ?f" "wf_deficit ?f < mx + (if wf_turn ?f then wf_weight ?f * dw_quantum d else 0)"
      using fl(2,3) by simp_all
    note t = dw_take_inv [OF inv w this]
    have "size (addrs (dw_content d)) = Suc (size (addrs (dw_content ?d)))" using t(2) by simp
    then have "length (dw_content ?d) < length (dw_content d)" by simp
    from less.hyps [OF this t(1), of "drops @ [p]"] obtain d' ds where
      "dw_drop_loop ?d (drops @ [p]) = Ok (d', (drops @ [p]) @ ds)" "dw_inv mx d'"
      "addrs (dw_content d') + addrs ds = addrs (dw_content ?d)" "dw_bytecnt d' \<le> dw_blimit d'"
      "qb_blocked d' = qb_blocked d" "qb_unblock_on_resume d' = qb_unblock_on_resume d" by auto
    with step t(2) q have "dw_drop_loop d drops = Ok (d', drops @ (p # ds)) \<and> dw_inv mx d' \<and>
        addrs (dw_content d') + addrs (p # ds) = addrs (dw_content d) \<and> dw_bytecnt d' \<le> dw_blimit d' \<and>
        qb_blocked d' = qb_blocked d \<and> qb_unblock_on_resume d' = qb_unblock_on_resume d" by simp
    then show ?thesis by blast
  qed
qed

lemma dw_alloc_inv:
  assumes "dw_inv mx d" "dw_flows d = []"
  shows "dw_inv mx (d\<lparr>dw_flows := map (\<lambda>i. wflow_new (junk i)) [0..<nat (dw_buckets d)]\<rparr>)"
    and "dw_content (d\<lparr>dw_flows := map (\<lambda>i. wflow_new (junk i)) [0..<nat (dw_buckets d)]\<rparr>) = dw_content d"
proof -
  have c: "0 < mx" "0 < dw_buckets d" "dw_quantum d = 2000" "0 \<le> dw_blimit d" "dw_ring d = []" "dw_flwcnt d = 0"
    "dw_bytecnt d = 0" "dw_pktcnt d = 0"
    using assms dw_ring_Nil [of mx d] by (auto simp: dw_inv_def dw_core_def dw_content_def)
  show "dw_inv mx (d\<lparr>dw_flows := map (\<lambda>i. wflow_new (junk i)) [0..<nat (dw_buckets d)]\<rparr>)"
    using c by (simp add: dw_inv_def dw_order_def dw_core_def wflow_new_def o_def map_replicate_const sum_list_replicate)
  show "dw_content (d\<lparr>dw_flows := map (\<lambda>i. wflow_new (junk i)) [0..<nat (dw_buckets d)]\<rparr>) = dw_content d"
    using assms(2) by (simp add: dw_content_def wflow_new_def o_def)
qed

definition dw_put :: "nat \<Rightarrow> int \<Rightarrow> packet \<Rightarrow> dwrr \<Rightarrow> dwrr" where
  "dw_put w which p d =
     (let f = dw_flows d ! w; first = (wf_q f = []);
          f1 = f\<lparr>wf_q := wf_q f @ [p], wf_pkts := wf_pkts f + 1, wf_bcount := wf_bcount f + pk_size p\<rparr>;
          f2 = (if first then f1\<lparr>wf_deficit := 0, wf_weight := pk_src p, wf_site := which\<rparr> else f1);
          d' = d\<lparr>dw_flows := (dw_flows d)[w := f2], dw_bytecnt := dw_bytecnt d + pk_size p, dw_pktcnt := dw_pktcnt d + 1,
                 dw_ring := if first then dw_ring d @ [w] else dw_ring d,
                 dw_flwcnt := if first then dw_flwcnt d + 1 else dw_flwcnt d\<rparr>
      in if first then dw_rearr d' else d')"

lemma dw_put_inv:
  assumes inv: "dw_inv mx d" and w: "w < length (dw_flows d)"
    and p: "dw_adm mx p"
  shows "dw_inv mx (dw_put w which p d)"
    and "addrs (dw_content (dw_put w which p d)) = add_mset (pk_addr p) (addrs (dw_content d))"
    and "qb_blocked (dw_put w which p d) = qb_blocked d"
    and "qb_unblock_on_resume (dw_put w which p d) = qb_unblock_on_resume d"
proof -
  have core: "dw_core mx d" using inv by (simp add: dw_inv_def)
  let ?f = "dw_flows d ! w"
  have f: "wflow_ok mx (dw_quantum d) ?f" and q: "dw_quantum d = 2000" "0 < mx"
    using core w by (auto simp: dw_core_def)
  note p = p [unfolded dw_adm_def]
  define f1 where "f1 = ?f\<lparr>wf_q := wf_q ?f @ [p], wf_pkts := wf_pkts ?f + 1, wf_bcount := wf_bcount ?f + pk_size p\<rparr>"
  define f2 where "f2 = (if wf_q ?f = [] then f1\<lparr>wf_deficit := 0, wf_weight := pk_src p, wf_site := which\<rparr> else f1)"
  define fs where "fs = (dw_flows d)[w := f2]"
  have ok': "wflow_ok mx (dw_quantum d) f2" using f p q by (auto simp: f1_def f2_def split: if_splits)
  have all: "\<forall>f \<in> set fs. wflow_ok mx (dw_quantum d) f"
  proof
    fix f assume "f \<in> set fs"
    then have "f = f2 \<or> f \<in> set (dw_flows d)" unfolding fs_def using set_update_subset_insert by fastforce
    then show "wflow_ok mx (dw_quantum d) f" using core ok' by (auto simp: dw_core_def)
  qed
  have c: "distinct (dw_ring d)" "dw_flwcnt d = int (length (dw_ring d))"
    "dw_bytecnt d = sum_list (map (\<lambda>f. list_bytes (wf_q f)) (dw_flows d))"
    "dw_pktcnt d = sum_list (map (\<lambda>f. list_len (wf_q f)) (dw_flows d))"
    and act: "\<And>v. v \<in> set (dw_ring d) \<longleftrightarrow> v < length (dw_flows d) \<and> wf_q (dw_flows d ! v) \<noteq> []"
    using core unfolding dw_core_def by blast+
  have len: "length fs = length (dw_flows d)" by (simp add: fs_def)
  have nth: "fs ! v = (if v = w then f2 else dw_flows d ! v)" for v using w by (simp add: fs_def nth_list_update)
  have q2: "wf_q f2 = wf_q ?f @ [p]" by (simp add: f2_def f1_def)
  have sums: "dw_bytecnt d + pk_size p = sum_list (map (\<lambda>f. list_bytes (wf_q f)) fs)"
    "dw_pktcnt d + 1 = sum_list (map (\<lambda>f. list_len (wf_q f)) fs)"
    using sum_list_update_int [OF w, of "\<lambda>f. list_bytes (wf_q f)" f2]
      sum_list_update_int [OF w, of "\<lambda>f. list_len (wf_q f)" f2] by (simp_all add: c(3,4) fs_def q2)
  define ring where "ring = (if wf_q ?f = [] then dw_ring d @ [w] else dw_ring d)"
  have wr: "w \<in> set (dw_ring d) \<longleftrightarrow> wf_q ?f \<noteq> []" using act [of w] w by simp
  have mem: "v \<in> set ring \<longleftrightarrow> v < length fs \<and> wf_q (fs ! v) \<noteq> []" for v
  proof (cases "v = w")
    case True
    with w wr show ?thesis by (simp add: ring_def nth len q2)
  next
    case False
    then have "v \<in> set ring \<longleftrightarrow> v \<in> set (dw_ring d)" by (simp add: ring_def)
    with False show ?thesis by (simp only: act nth len) simp
  qed
  have r: "distinct ring" "(if wf_q ?f = [] then dw_flwcnt d + 1 else dw_flwcnt d) = int (length ring)"
    using c(1,2) wr by (simp_all add: ring_def)
  let ?d = "d\<lparr>dw_flows := fs, dw_bytecnt := dw_bytecnt d + pk_size p, dw_pktcnt := dw_pktcnt d + 1,
      dw_ring := ring, dw_flwcnt := if wf_q ?f = [] then dw_flwcnt d + 1 else dw_flwcnt d\<rparr>"
  have put: "dw_put w which p d = (if wf_q ?f = [] then dw_rearr ?d else ?d)"
    by (simp add: dw_put_def Let_def ring_def fs_def f2_def f1_def)
  have core': "dw_core mx ?d" by (rule dw_core_updateI [OF core len all r(1) mem r(2) sums])
  show "dw_inv mx (dw_put w which p d)"
  proof (cases "wf_q ?f = []")
    case True
    with dw_inv_rearr [OF core'] show ?thesis by (simp add: put)
  next
    case False
    then have "wf_weight (fs ! v) = wf_weight (dw_flows d ! v)" for v by (simp add: nth f1_def f2_def)
    then have "dw_order ?d" using inv False by (simp add: dw_inv_def dw_order_def ring_def)
    with core' False show ?thesis by (simp add: put dw_inv_def)
  qed
  have "dw_content (dw_put w which p d) = dw_content (d\<lparr>dw_flows := (dw_flows d)[w := f2]\<rparr>)"
    unfolding put by (simp add: dw_content_def fs_def)
  then show "addrs (dw_content (dw_put w which p d)) = add_mset (pk_addr p) (addrs (dw_content d))"
    using dw_content_update [OF w, of f2] by (simp add: q2)
qed (simp_all add: dw_put_def Let_def)

lemma dw_put_code:
  assumes "wf_pkts (dw_flows d ! w) + 1 = 1 \<longleftrightarrow> wf_q (dw_flows d ! w) = []"
  shows "dw_put w which p d =
    (let f = dw_flows d ! w;
         f1 = f\<lparr>wf_q := wf_q f @ [p], wf_pkts := wf_pkts f + 1, wf_bcount := wf_bcount f + pk_size p\<rparr>;
         d2 = d\<lparr>dw_pktcnt := dw_pktcnt d + 1, dw_bytecnt := dw_bytecnt d + pk_size p\<rparr>
     in if wf_pkts f1 = 1
        then dw_rearr (d2\<lparr>dw_flows := (dw_flows d2)[w := f1\<lparr>wf_deficit := 0, wf_weight := pk_src p, wf_site := which\<rparr>],
               dw_ring := ring_activate w (dw_ring d2), dw_flwcnt := dw_flwcnt d2 + 1\<rparr>)
        else d2\<lparr>dw_flows := (dw_flows d2)[w := f1]\<rparr>)"
proof -
  have cong: "a = b \<Longrightarrow> dw_rearr a = dw_rearr b" for a b by simp
  show ?thesis
    using assms by (cases "wf_q (dw_flows d ! w) = []") (auto simp: dw_put_def ring_activate_def Let_def intro!: cong)
qed

lemma dw_enque_ok:
  assumes inv: "dw_inv mx d" and p: "dw_adm mx p"
  shows "\<exists>d' drops. dw_enque junk now p d = Ok (d', drops) \<and> dw_inv mx d' \<and>
     addrs (dw_content d') + addrs drops = add_mset (pk_addr p) (addrs (dw_content d)) \<and>
     dw_bytecnt d' \<le> dw_blimit d' \<and>
     qb_blocked d' = qb_blocked d \<and> qb_unblock_on_resume d' = qb_unblock_on_resume d"
proof -
  define d1 where "d1 = (if dw_flows d = [] then d\<lparr>dw_flows := map (\<lambda>i. wflow_new (junk i)) [0..<nat (dw_buckets d)]\<rparr> else d)"
  have d1: "dw_inv mx d1" "dw_content d1 = dw_content d" "qb_blocked d1 = qb_blocked d"
    "qb_unblock_on_resume d1 = qb_unblock_on_resume d" "0 < dw_buckets d1" "length (dw_flows d1) = nat (dw_buckets d1)"
    using inv dw_alloc_inv [OF inv] by (auto simp: d1_def dw_inv_def dw_core_def)
  define which where "which = c_mod (pk_src p) (dw_buckets d1)"
  have wh: "0 \<le> which" "nat which < length (dw_flows d1)"
    using d1(5,6) p by (simp_all add: which_def dw_adm_def)
  let ?f = "dw_flows d1 ! nat which"
  have "wflow_ok mx (dw_quantum d1) ?f" using d1(1) wh by (auto simp: dw_inv_def dw_core_def)
  then have n: "wf_pkts ?f + 1 = 1 \<longleftrightarrow> wf_q ?f = []" by simp
  have "dw_enque junk now p d = dw_drop_loop (dw_put (nat which) which p d1) []"
    using wh d1(5) unfolding dw_put_code [OF n] dw_enque_def unfolding d1_def [symmetric] Let_def which_def [symmetric] by simp
  moreover note put = dw_put_inv [OF d1(1) wh(2) p, of which]
  ultimately show ?thesis using dw_drop_loop_ok [OF put(1), of "[]"] put(2-4) d1(2-4) by auto
qed

section \<open>Service\<close>

lemma dw_moveMaxweight_ok:
  assumes inv: "dw_inv mx d" and ne: "dw_ring d \<noteq> []"
  shows "\<exists>w ws. dw_moveMaxweight d = Some (Ok (w # ws)) \<and> mset (w # ws) = mset (dw_ring d) \<and>
    wf_weight (dw_flows d ! w) = dw_weights d ! nat (dw_cerprique d)"
proof -
  let ?c = "nat (dw_cerprique d)"
  have o: "mset (dw_weights d) = mset (map (\<lambda>w. wf_weight (dw_flows d ! w)) (dw_ring d))"
    "0 \<le> dw_cerprique d" "dw_cerprique d < int (length (dw_ring d))"
    using inv ne by (auto simp: dw_inv_def dw_order_def)
  have len: "length (dw_weights d) = length (dw_ring d)" using o(1) by (metis length_map size_mset)
  then have c: "?c < length (dw_weights d)" using o(2,3) by linarith
  then have "dw_weights d ! ?c \<in> set (dw_weights d)" by (rule nth_mem)
  then have mem: "dw_weights d ! ?c \<in> (\<lambda>w. wf_weight (dw_flows d ! w)) ` set (dw_ring d)"
    using mset_eq_setD [OF o(1)] by simp
  have "\<forall>w \<in> set (dw_ring d). w < length (dw_flows d)"
    using dw_ring_flow(1) inv by (auto simp: dw_inv_def)
  from dw_walk_finds [OF this mem] obtain w ws where
    "dw_walk (dw_weights d ! ?c) (dw_flows d) (dw_ring d) = Some (Ok (w # ws))" "mset (w # ws) = mset (dw_ring d)"
    "wf_weight (dw_flows d ! w) = dw_weights d ! ?c" by auto
  then show ?thesis using o(2) c by (simp add: dw_moveMaxweight_def)
qed

text \<open>What a turn does, in terms of the flow it is given to.\<close>

definition dw_credit :: "dwrr \<Rightarrow> nat \<Rightarrow> int" where
  "dw_credit d w = (let f = dw_flows d ! w
     in if wf_turn f then wf_deficit f else wrap_s32 (wf_deficit f + wrap_s32 (wf_weight f * dw_quantum d)))"

definition dw_sent :: "dwrr \<Rightarrow> nat \<Rightarrow> nat list \<Rightarrow> dwrr" where
  "dw_sent d w ws = (let q = wf_q (dw_flows d ! w) in
     dw_take w (if tl q = [] then 0 else dw_credit d w - pk_size (hd q)) (tl q \<noteq> []) (d\<lparr>dw_ring := w # ws\<rparr>))"

definition dw_skip :: "dwrr \<Rightarrow> nat \<Rightarrow> nat list \<Rightarrow> dwrr" where
  "dw_skip d w ws =
     d\<lparr>dw_ring := w # ws, dw_flows := (dw_flows d)[w := (dw_flows d ! w)\<lparr>wf_deficit := dw_credit d w, wf_turn := False\<rparr>],
       dw_cerprique := if dw_cerprique d + 1 \<ge> dw_flwcnt d then 0 else dw_cerprique d + 1\<rparr>"

lemma dw_turn_cases:
  assumes inv: "dw_inv mx d" and m: "dw_moveMaxweight d = Some (Ok (w # ws))" "mset (w # ws) = mset (dw_ring d)"
  shows "dw_turn d =
    (if pk_size (hd (wf_q (dw_flows d ! w))) \<le> dw_credit d w
     then Some (Ok (Inl (hd (wf_q (dw_flows d ! w)), dw_sent d w ws)))
     else Some (Ok (Inr (dw_skip d w ws))))"
proof -
  have w: "w \<in> set (dw_ring d)" using m(2) mset_eq_setD by fastforce
  have core: "dw_core mx d" using inv by (simp add: dw_inv_def)
  note fl = dw_ring_flow [OF core w]
  let ?f = "dw_flows d ! w"
  obtain p ps where q: "wf_q ?f = p # ps" using fl(2) by (cases "wf_q ?f") auto
  have n: "wf_pkts ?f - 1 = 0 \<longleftrightarrow> ps = []" using fl(3) q by simp
  have cong: "a = b \<Longrightarrow> dw_rearr a = dw_rearr b" "f = g \<Longrightarrow> xs[w := f] = xs[w := g]" for a b f g and xs :: "wflow list"
    by simp_all
  show ?thesis
    using m(1) q n
    by (cases "wf_turn ?f"; cases "ps = []")
      (auto simp: dw_turn_def dw_credit_def dw_sent_def dw_skip_def dw_take_def ring_idle_def Let_def
        intro!: cong dwrr.equality wflow.equality)
qed

text \<open>Within the invariant the credit does not wrap around.\<close>

lemma dw_credit_exact:
  assumes "dw_inv mx d" "w \<in> set (dw_ring d)"
  shows "dw_credit d w = (let f = dw_flows d ! w
    in if wf_turn f then wf_deficit f else wf_deficit f + wf_weight f * dw_quantum d)"
proof -
  have core: "dw_core mx d" using assms by (simp add: dw_inv_def)
  let ?f = "dw_flows d ! w"
  have b: "0 < mx" "0 < wf_weight ?f" "mx + wf_weight ?f * 2000 \<le> 2 ^ 31" "0 \<le> wf_deficit ?f"
    "\<not> wf_turn ?f \<Longrightarrow> wf_deficit ?f < mx" "dw_quantum d = 2000"
    using dw_ring_flow [OF core assms(2)] core by (auto simp: dw_core_def)
  then have "wrap_s32 (wf_weight ?f * 2000) = wf_weight ?f * 2000" by simp
  moreover have "wrap_s32 (wf_deficit ?f + wf_weight ?f * 2000) = wf_deficit ?f + wf_weight ?f * 2000"
    if "\<not> wf_turn ?f" using b(1-4) b(5) [OF that] by (intro wrap_s32_id) linarith+
  ultimately show ?thesis using b(6) by (simp add: dw_credit_def Let_def)
qed

lemma dw_credit_bounds:
  assumes "dw_inv mx d" "w \<in> set (dw_ring d)"
  shows "0 < wf_weight (dw_flows d ! w) * dw_quantum d" "0 \<le> dw_credit d w"
    "dw_credit d w < mx + wf_weight (dw_flows d ! w) * dw_quantum d"
proof -
  have core: "dw_core mx d" using assms by (simp add: dw_inv_def)
  then have "0 < dw_quantum d" by (simp add: dw_core_def)
  with dw_ring_flow [OF core assms(2)] show "0 < wf_weight (dw_flows d ! w) * dw_quantum d" "0 \<le> dw_credit d w"
    "dw_credit d w < mx + wf_weight (dw_flows d ! w) * dw_quantum d"
    unfolding dw_credit_exact [OF assms] by (auto simp: Let_def split: if_splits)
qed

lemma dw_sent_inv:
  assumes inv: "dw_inv mx d" and m: "mset (w # ws) = mset (dw_ring d)"
    and le: "pk_size (hd (wf_q (dw_flows d ! w))) \<le> dw_credit d w"
  shows "dw_inv mx (dw_sent d w ws)"
    and "addrs (dw_content d) = add_mset (pk_addr (hd (wf_q (dw_flows d ! w)))) (addrs (dw_content (dw_sent d w ws)))"
proof -
  have w: "w \<in> set (dw_ring d)" using m mset_eq_setD by fastforce
  have core: "dw_core mx d" and mx: "0 < mx" using inv by (auto simp: dw_inv_def dw_core_def)
  define q where "q = wf_q (dw_flows d ! w)"
  have p: "0 < pk_size (hd q)" using dw_ring_flow(2,3) [OF core w] by (simp add: q_def)
  define df where "df = (if tl q = [] then 0 else dw_credit d w - pk_size (hd q))"
  let ?d = "d\<lparr>dw_ring := w # ws\<rparr>"
  have df: "0 \<le> df" "df < mx + (if tl q \<noteq> [] then wf_weight (dw_flows ?d ! w) * dw_quantum ?d else 0)"
    using dw_credit_bounds [OF inv w] le p mx by (auto simp: df_def q_def)
  have sent: "dw_sent d w ws = dw_take w df (tl q \<noteq> []) ?d" by (simp add: dw_sent_def q_def df_def)
  have c: "dw_content ?d = dw_content d" by (simp add: dw_content_def)
  note t = dw_take_inv [OF dw_inv_rotate [OF inv m] _ df, simplified c]
  show "dw_inv mx (dw_sent d w ws)" unfolding sent by (rule t(1)) simp
  show "addrs (dw_content d) = add_mset (pk_addr (hd (wf_q (dw_flows d ! w)))) (addrs (dw_content (dw_sent d w ws)))"
    unfolding sent using t(2) by simp
qed

text \<open>The work left: a turn that sends nothing takes some of it, because the flow is granted its quantum
  or loses the turn it has.\<close>

definition dw_flow_work :: "int \<Rightarrow> int \<Rightarrow> wflow \<Rightarrow> int" where
  "dw_flow_work mx qt f =
     (if wf_q f = [] then 0 else 2 * (mx + wf_weight f * qt - wf_deficit f) + (if wf_turn f then 1 else 0))"

definition dw_work :: "int \<Rightarrow> dwrr \<Rightarrow> int" where
  "dw_work mx d = sum_list (map (dw_flow_work mx (dw_quantum d)) (dw_flows d))"

lemma dw_work_nonneg:
  assumes "dw_inv mx d"
  shows "0 \<le> dw_work mx d"
proof -
  have q: "0 < dw_quantum d" and ok: "\<forall>f \<in> set (dw_flows d). wflow_ok mx (dw_quantum d) f"
    using assms by (auto simp: dw_inv_def dw_core_def)
  have "0 \<le> dw_flow_work mx (dw_quantum d) f" if "f \<in> set (dw_flows d)" for f
  proof (cases "wf_q f = []")
    case False
    with ok that q have "0 < wf_weight f * dw_quantum d" by simp
    with False bspec [OF ok that] show ?thesis by (simp add: dw_flow_work_def split: if_splits)
  qed (simp add: dw_flow_work_def)
  then show ?thesis unfolding dw_work_def by (intro sum_list_nonneg) auto
qed

lemma dw_skip_inv:
  assumes inv: "dw_inv mx d" and m: "mset (w # ws) = mset (dw_ring d)"
    and gt: "\<not> pk_size (hd (wf_q (dw_flows d ! w))) \<le> dw_credit d w"
  shows "dw_inv mx (dw_skip d w ws)" and "dw_content (dw_skip d w ws) = dw_content d"
    and "dw_work mx (dw_skip d w ws) < dw_work mx d"
proof -
  have w: "w \<in> set (dw_ring d)" using m mset_eq_setD by fastforce
  have core: "dw_core mx d" using inv by (simp add: dw_inv_def)
  note fl = dw_ring_flow [OF core w] and cr = dw_credit_bounds [OF inv w]
  let ?f = "dw_flows d ! w" and ?d = "d\<lparr>dw_ring := w # ws\<rparr>"
  define f' where "f' = ?f\<lparr>wf_deficit := dw_credit d w, wf_turn := False\<rparr>"
  define fs where "fs = (dw_flows d)[w := f']"
  define c where "c = (if dw_cerprique d + 1 \<ge> dw_flwcnt d then 0 else dw_cerprique d + 1)"
  have inv': "dw_inv mx ?d" by (rule dw_inv_rotate [OF inv m])
  have mx: "pk_size (hd (wf_q ?f)) \<le> mx" using fl(2,3) by simp
  have "dw_credit d w < mx" using mx gt by linarith
  then have ok': "wflow_ok mx (dw_quantum d) f'" using fl(2,3) cr(2) by (simp add: f'_def)
  have nth: "fs ! v = (if v = w then f' else dw_flows d ! v)" for v using fl(1) by (simp add: fs_def nth_list_update)
  have q: "map wf_q fs = map wf_q (dw_flows d)" by (simp add: fs_def f'_def map_update fl(1) list_update_same_conv)
  have sums: "map (\<lambda>f. list_bytes (wf_q f)) fs = map (\<lambda>f. list_bytes (wf_q f)) (dw_flows d)"
    "map (\<lambda>f. list_len (wf_q f)) fs = map (\<lambda>f. list_len (wf_q f)) (dw_flows d)"
    by (simp_all add: fs_def f'_def map_update fl(1) list_update_same_conv)
  have skip: "dw_skip d w ws = d\<lparr>dw_ring := w # ws, dw_flows := fs, dw_cerprique := c\<rparr>"
    by (simp add: dw_skip_def fs_def f'_def c_def)
  have core': "dw_core mx (d\<lparr>dw_flows := fs, dw_bytecnt := dw_bytecnt d, dw_pktcnt := dw_pktcnt d, dw_ring := w # ws,
      dw_flwcnt := dw_flwcnt d\<rparr>)"
  proof (rule dw_core_updateI [OF core])
    show "\<forall>f \<in> set fs. wflow_ok mx (dw_quantum d) f"
    proof
      fix f assume "f \<in> set fs"
      then have "f = f' \<or> f \<in> set (dw_flows d)" unfolding fs_def using set_update_subset_insert by fastforce
      then show "wflow_ok mx (dw_quantum d) f" using core ok' by (auto simp: dw_core_def)
    qed
    show "v \<in> set (w # ws) \<longleftrightarrow> v < length fs \<and> wf_q (fs ! v) \<noteq> []" for v
    proof -
      have set: "set (w # ws) = set (dw_ring d)" by (rule mset_eq_setD [OF m])
      have act: "v \<in> set (dw_ring d) \<longleftrightarrow> v < length (dw_flows d) \<and> wf_q (dw_flows d ! v) \<noteq> []"
        using core unfolding dw_core_def by blast
      have len: "length fs = length (dw_flows d)" by (simp add: fs_def)
      show ?thesis unfolding set act nth len using fl(2) by (simp add: f'_def)
    qed
  next
    show "distinct (w # ws)" "dw_flwcnt d = int (length (w # ws))"
      using inv' by (simp_all add: dw_inv_def dw_core_def)
    show "dw_bytecnt d = sum_list (map (\<lambda>f. list_bytes (wf_q f)) fs)" "dw_pktcnt d = sum_list (map (\<lambda>f. list_len (wf_q f)) fs)"
      unfolding sums using core by (simp_all add: dw_core_def)
  qed (simp add: fs_def)
  have wt: "wf_weight (fs ! v) = wf_weight (dw_flows d ! v)" for v by (simp add: nth f'_def)
  have n: "dw_flwcnt d = int (length (w # ws))" using inv' by (simp add: dw_inv_def dw_core_def)
  have "dw_order (dw_skip d w ws)"
    using inv' n by (auto simp: dw_inv_def dw_order_def skip wt c_def)
  moreover have "dw_core mx (dw_skip d w ws)" using core' unfolding dw_core_def skip by (auto split: if_splits)
  ultimately show "dw_inv mx (dw_skip d w ws)" by (simp add: dw_inv_def)
  show "dw_content (dw_skip d w ws) = dw_content d" by (simp add: dw_content_def skip q)
  have "dw_flow_work mx (dw_quantum d) f' < dw_flow_work mx (dw_quantum d) ?f"
    using fl(2) cr(1) by (simp add: dw_flow_work_def f'_def dw_credit_exact [OF inv w] Let_def)
  then show "dw_work mx (dw_skip d w ws) < dw_work mx d"
    using sum_list_update_int [OF fl(1), of "dw_flow_work mx (dw_quantum d)" f'] by (simp add: dw_work_def skip fs_def)
qed

lemma dw_sent_skip_frame [simp]:
  "qb_blocked (dw_sent d w ws) = qb_blocked d" "qb_unblock_on_resume (dw_sent d w ws) = qb_unblock_on_resume d"
  "dw_blimit (dw_sent d w ws) = dw_blimit d"
  "qb_blocked (dw_skip d w ws) = qb_blocked d" "qb_unblock_on_resume (dw_skip d w ws) = qb_unblock_on_resume d"
  "dw_blimit (dw_skip d w ws) = dw_blimit d"
  by (simp_all add: dw_sent_def dw_skip_def Let_def)

lemma dw_serve_ok:
  "dw_inv mx d \<Longrightarrow> dw_content d \<noteq> [] \<Longrightarrow> \<exists>p d'. dw_serve d = Some (Ok (Some p, d')) \<and> dw_inv mx d' \<and>
     addrs (dw_content d) = add_mset (pk_addr p) (addrs (dw_content d')) \<and>
     qb_blocked d' = qb_blocked d \<and> qb_unblock_on_resume d' = qb_unblock_on_resume d \<and> dw_blimit d' = dw_blimit d"
proof (induction "nat (dw_work mx d)" arbitrary: d rule: less_induct)
  case less
  note inv = less.prems(1)
  have "dw_ring d \<noteq> []" using less.prems dw_ring_Nil [of mx d] by (simp add: dw_inv_def)
  from dw_moveMaxweight_ok [OF inv this] obtain w ws where
    m: "dw_moveMaxweight d = Some (Ok (w # ws))" "mset (w # ws) = mset (dw_ring d)" by blast
  note turn = dw_turn_cases [OF inv m]
  show ?case
  proof (cases "pk_size (hd (wf_q (dw_flows d ! w))) \<le> dw_credit d w")
    case True
    then show ?thesis using dw_sent_inv [OF inv m(2) True] turn by (subst dw_serve.simps) simp
  next
    case False
    note s = dw_skip_inv [OF inv m(2) False]
    have "nat (dw_work mx (dw_skip d w ws)) < nat (dw_work mx d)" using s(3) dw_work_nonneg [OF s(1)] by linarith
    from less.hyps [OF this s(1)] less.prems(2) s(2) show ?thesis using turn False by (subst dw_serve.simps) simp
  qed
qed

lemma dw_deque_ok:
  assumes inv: "dw_inv mx d"
  shows "deq_ok dw_content (dw_inv mx) d (dw_deque now d)"
proof (cases "dw_content d = []")
  case True
  then show ?thesis using inv dw_bytecnt_zero [of mx d] by (simp add: dw_inv_def dw_deque_def deq_ok_def)
next
  case False
  then have "dw_bytecnt d \<noteq> 0" using inv dw_bytecnt_zero [of mx d] by (simp add: dw_inv_def)
  with dw_serve_ok [OF inv False] show ?thesis by (auto simp: dw_deque_def deq_ok_def)
qed

section \<open>A queue discipline\<close>

lemma dwrr_more:
  assumes "qbase.more r = qbase.more q"
  shows "dw_buckets r = dw_buckets q" "dw_blimit r = dw_blimit q" "dw_quantum r = dw_quantum q"
    "dw_flows r = dw_flows q" "dw_ring r = dw_ring q" "dw_flwcnt r = dw_flwcnt q"
    "dw_bytecnt r = dw_bytecnt q" "dw_pktcnt r = dw_pktcnt q" "dw_weights r = dw_weights q"
    "dw_cerprique r = dw_cerprique q"
  using assms by (cases q; cases r; simp)+

interpretation dwrrq: queue_discipline "dw_enque junk" dw_deque "dw_adm mx" dw_content "dw_inv mx" for junk mx
proof unfold_locales
  show "enq_ok dw_content (dw_inv mx) p q (dw_enque junk now p q)" if "dw_inv mx q" "dw_adm mx p" for q p now
    using dw_enque_ok [OF that, of junk now] by (auto simp: enq_ok_def)
  show "deq_ok dw_content (dw_inv mx) q (dw_deque now q)" if "dw_inv mx q" for q now
    using that by (rule dw_deque_ok)
  show "dw_inv mx r" if "dw_inv mx q" "qbase.more r = qbase.more q" for q r :: dwrr
    using that(1) unfolding dw_inv_def dw_core_def dw_order_def dwrr_more [OF that(2)] .
  show "dw_content r = dw_content q" if "qbase.more r = qbase.more q" for q r :: dwrr
    by (simp add: dw_content_def dwrr_more [OF that])
qed

lemma dw_new_inv: "0 < mx \<Longrightarrow> 0 < n \<Longrightarrow> 0 \<le> lm \<Longrightarrow> dw_inv mx (dw_new junk base n lm)"
  by (simp add: dw_inv_def dw_core_def dw_order_def dw_new_def dwrr.defs qbase.defs)

lemma dw_new_frame [simp]:
  "dw_content (dw_new junk base n lm) = []" "qb_blocked (dw_new junk base n lm) = qb_blocked base"
  "qb_unblock_on_resume (dw_new junk base n lm) = qb_unblock_on_resume base"
  by (simp_all add: dw_content_def dw_new_def dwrr.defs qbase.defs)

text \<open>The flow that is served when the priority index is at the first weight.\<close>

lemma dw_greatest_first:
  assumes "dw_inv mx d" "dw_content d \<noteq> []" "dw_cerprique d = 0" "mx \<le> 2000"
    "\<forall>w \<in> set (dw_ring d). \<not> wf_turn (dw_flows d ! w)"
  shows "\<exists>w \<in> set (dw_ring d). \<exists>d'. dw_deque now d = Ok (Some (hd (wf_q (dw_flows d ! w))), d') \<and>
    (\<forall>v \<in> set (dw_ring d). wf_weight (dw_flows d ! v) \<le> wf_weight (dw_flows d ! w)) \<and>
    dw_weights d = rev (sort (map (\<lambda>w. wf_weight (dw_flows d ! w)) (dw_ring d)))"
proof -
  have core: "dw_core mx d" and b: "dw_bytecnt d \<noteq> 0" and ne: "dw_ring d \<noteq> []"
    using assms(1,2) dw_bytecnt_zero [of mx d] dw_ring_Nil [of mx d] by (auto simp: dw_inv_def)
  let ?wt = "\<lambda>w. wf_weight (dw_flows d ! w)"
  have o: "mset (dw_weights d) = mset (map ?wt (dw_ring d))" "sorted_wrt (\<ge>) (dw_weights d)"
    using assms(1) ne by (auto simp: dw_inv_def dw_order_def)
  have "sort (map ?wt (dw_ring d)) = rev (dw_weights d)"
    using o by (intro properties_for_sort) (simp_all add: sorted_wrt_rev)
  then have ws: "dw_weights d = rev (sort (map ?wt (dw_ring d)))" by simp
  from dw_moveMaxweight_ok [OF assms(1) ne] obtain w ws where
    m: "dw_moveMaxweight d = Some (Ok (w # ws))" "mset (w # ws) = mset (dw_ring d)" "?wt w = dw_weights d ! 0"
    using assms(3) by auto
  have w: "w \<in> set (dw_ring d)" using m(2) mset_eq_setD by fastforce
  have top: "x \<le> dw_weights d ! 0" if "x \<in> set (dw_weights d)" for x
    using that o(2) by (cases "dw_weights d") auto
  have "?wt v \<le> ?wt w" if "v \<in> set (dw_ring d)" for v
    using top [of "?wt v"] that mset_eq_setD [OF o(1)] m(3) by simp
  moreover have "pk_size (hd (wf_q (dw_flows d ! w))) \<le> dw_credit d w"
  proof -
    note fl = dw_ring_flow [OF core w]
    have "pk_size (hd (wf_q (dw_flows d ! w))) \<le> mx" using fl(2,3) by simp
    moreover have "2000 \<le> ?wt w * dw_quantum d" "0 \<le> wf_deficit (dw_flows d ! w)"
      using fl(2,3) core by (simp_all add: dw_core_def)
    ultimately show ?thesis
      unfolding dw_credit_exact [OF assms(1) w] using assms(4,5) w by (simp add: Let_def)
  qed
  then have "dw_deque now d = Ok (Some (hd (wf_q (dw_flows d ! w))), dw_sent d w ws)"
    using b dw_turn_cases [OF assms(1) m(1,2)] by (simp add: dw_deque_def dw_serve.simps)
  ultimately show ?thesis using w ws by blast
qed

section \<open>Turns that never end\<close>

lemma dw_serve_stuck:
  assumes "dw_turn d = Some (Ok (Inr d))"
  shows "dw_serve d = None"
proof (rule ccontr)
  assume "dw_serve d \<noteq> None"
  then obtain y where "dw_serve d = Some y" by auto
  then have "dw_turn d \<noteq> Some (Ok (Inr d))"
    by (rule dw_serve.raw_induct [rotated]) (auto split: option.splits sum.splits)
  with assms show False by simp
qed

section \<open>Properties\<close>

text \<open>
  C35: the weighted round robin queue conserves packets: as long as every packet comes from a
  positive address that is small enough (\<open>mx + address * 2000\<close> at most \<open>2 ^ 31\<close>, for packets of at most
  \<open>mx\<close> bytes), no step of a link with a new queue of this kind fails, its loops end, every packet
  is sent, dropped or queued exactly once, and the link is idle only when the queue is empty. The
  packets left out are those for which the code fails: address 0 (\<open>dwrr_address_zero_hangs\<close>), addresses
  whose credit wraps around to 0 (\<open>dwrr_large_address_hangs\<close>) and negative ones
  (\<open>dwrr_negative_address_fails\<close>).
\<close>

theorem dwrr_link_conserves:
  assumes "link_reach (dw_adm mx) (dw_enque junk) dw_deque (dw_new jw base buckets blimit) r"
    "0 < mx" "0 < buckets" "0 \<le> blimit" "\<not> qb_blocked base" "qb_unblock_on_resume base"
  shows "\<exists>l. r = Ok l \<and>
    addrs (lk_arrived l) = addrs (lk_sent l) + addrs (lk_dropped l) + addrs (dw_content (lk_queue l)) \<and>
    (\<not> lk_busy l \<longrightarrow> dw_content (lk_queue l) = [])"
  using dwrrq.link_reach_inv [OF assms(1) dw_new_inv [OF assms(2-4)]] assms(5,6)
  by (auto simp: dwrrq.link_inv_def)

theorem dwrr_link_conserves_witness:
  "\<exists>l. link_arrive (dw_enque (\<lambda>_. 0)) dw_deque 1 ((demo_packet 7)\<lparr>pk_src := 3\<rparr>)
       (link_start (dw_new (\<lambda>_. 0) demo_qbase 16 20000)) = Ok l \<and>
     addrs (lk_arrived l) = addrs (lk_sent l) + addrs (lk_dropped l) + addrs (dw_content (lk_queue l))"
proof -
  let ?p = "(demo_packet 7)\<lparr>pk_src := 3\<rparr>" and ?q = "dw_new (\<lambda>_. 0) demo_qbase 16 20000"
  have "dw_adm 500 ?p" by (simp add: dw_adm_def demo_packet_def)
  then have "link_reach (dw_adm 500) (dw_enque (\<lambda>_. 0)) dw_deque ?q
      (link_arrive (dw_enque (\<lambda>_. 0)) dw_deque 1 ?p (link_start ?q))"
    by (intro link_reach.step [OF link_reach.start] link_step.arrive) (simp_all add: link_start_def)
  from dwrr_link_conserves [OF this] show ?thesis by (simp add: demo_qbase_def) blast
qed

text \<open>
  A packet whose address gives no credit is never taken from a queue that holds nothing else:
  every turn leaves the state as it is.
\<close>

lemma dw_no_credit_hangs:
  assumes src: "0 \<le> pk_src p" "wrap_s32 (pk_src p * 2000) = 0"
    and sz: "0 < pk_size p" "pk_size p \<le> blimit" and "0 < buckets"
  shows "\<exists>d. dw_enque junk now p (dw_new jw base buckets blimit) = Ok (d, []) \<and> dw_deque now' d = Fail No_Return"
proof -
  let ?d0 = "dw_new jw base buckets blimit"
  define w where "w = nat (pk_src p mod buckets)"
  define f where "f = (wflow_new (junk w))\<lparr>wf_q := [p], wf_pkts := 1, wf_bcount := pk_size p, wf_deficit := 0,
     wf_weight := pk_src p, wf_site := pk_src p mod buckets\<rparr>"
  define fs where "fs = (map (\<lambda>i. wflow_new (junk i)) [0..<nat buckets])[w := f]"
  define d where "d = ?d0\<lparr>dw_flows := fs, dw_pktcnt := 1, dw_bytecnt := pk_size p, dw_ring := [w],
     dw_flwcnt := 1, dw_weights := [pk_src p], dw_cerprique := 0\<rparr>"
  have w: "w < nat buckets" using assms(5) by (simp add: w_def)
  have f0: "fs ! w = f" "w < length fs" using w by (simp_all add: fs_def)
  have wh: "c_mod (pk_src p) buckets = pk_src p mod buckets" "\<not> pk_src p mod buckets < 0"
    using assms(1,5) by (simp_all add: not_less)
  note new = dw_new_def dwrr.defs qbase.defs
  have "dw_enque junk now p ?d0 = dw_drop_loop d []"
    using w wh(2) assms(5) unfolding dw_enque_def Let_def
    by (simp add: d_def fs_def f_def new wflow_new_def wh(1) w_def [symmetric] dw_rearr_def ring_activate_def
      ring_weights_def bubble_sort_def)
  also have "\<dots> = Ok (d, [])" using sz by (subst dw_drop_loop.simps) (simp add: d_def new)
  finally have enq: "dw_enque junk now p ?d0 = Ok (d, [])" .
  have mv: "dw_moveMaxweight d = Some (Ok [w])"
    using f0 by (simp add: dw_moveMaxweight_def d_def dw_walk.simps f_def)
  have "dw_turn d = Some (Ok (Inr d))"
    using f0 sz src(2) unfolding dw_turn_def mv
    by (simp add: d_def f_def wflow_new_def Let_def new list_update_same_conv)
  then have "dw_deque now' d = Fail No_Return"
    using sz dw_serve_stuck [of d] by (simp add: dw_deque_def d_def)
  with enq show ?thesis by blast
qed

text \<open>
  C31: a packet from address 0 gives its flow the weight 0, and no turn then grants it any
  bytes: taking the packet from a queue that holds nothing else never returns.
\<close>

theorem dwrr_address_zero_hangs:
  assumes "pk_src p = 0" "0 < pk_size p" "pk_size p \<le> blimit" "0 < buckets"
  shows "\<exists>d. dw_enque junk now p (dw_new jw base buckets blimit) = Ok (d, []) \<and> dw_deque now' d = Fail No_Return"
  using dw_no_credit_hangs [OF _ _ assms(2-4)] assms(1) by simp

theorem dwrr_address_zero_hangs_witness:
  "\<exists>d. dw_enque (\<lambda>_. 0) 0 ((demo_packet 7)\<lparr>pk_src := 0\<rparr>) (dw_new (\<lambda>_. 0) demo_qbase 16 20000) = Ok (d, []) \<and>
     dw_deque 1 d = Fail No_Return"
  by (rule dwrr_address_zero_hangs) (simp_all add: demo_packet_def)

text \<open>Address \<open>2 ^ 28\<close> hangs as well, because \<open>2 ^ 28 * 2000\<close> is a multiple of \<open>2 ^ 32\<close>.\<close>

lemma dwrr_large_address_hangs:
  "\<exists>d. dw_enque (\<lambda>_. 0) 0 ((demo_packet 7)\<lparr>pk_src := 2 ^ 28\<rparr>) (dw_new (\<lambda>_. 0) demo_qbase 16 20000) = Ok (d, []) \<and>
     dw_deque 1 d = Fail No_Return"
  by (rule dw_no_credit_hangs) (simp_all add: demo_packet_def wrap_s32_def)

text \<open>The remainder of a negative address is a negative index, unless it is 0.\<close>

lemma dwrr_negative_address_fails:
  assumes "c_mod (pk_src p) buckets < 0" "0 < buckets"
  shows "dw_enque junk now p (dw_new jw base buckets blimit) = Fail Bad_Index"
  using assms by (simp add: dw_enque_def dw_new_def dwrr.defs qbase.defs Let_def)

lemma dwrr_negative_address_example:
  "dw_enque (\<lambda>_. 0) 0 ((demo_packet 7)\<lparr>pk_src := -1\<rparr>) (dw_new (\<lambda>_. 0) demo_qbase 16 20000) = Fail Bad_Index"
  by (rule dwrr_negative_address_fails) (simp_all add: demo_packet_def c_mod_def c_div_def)


text \<open>
  Three packets, from the addresses 1, 1 and 2: the first is sent at once, and then the one from
  address 2 is served before the one from address 1.
\<close>

definition demo_source :: "nat \<Rightarrow> int \<Rightarrow> packet" where
  "demo_source a s = (demo_packet a)\<lparr>pk_src := s\<rparr>"

lemma demo_source_simps [simp]:
  "pk_src (demo_source a s) = s" "pk_size (demo_source a s) = 500" "pk_addr (demo_source a s) = a"
  by (simp_all add: demo_source_def demo_packet_def)

definition demo_arrive :: "nat \<Rightarrow> int \<Rightarrow> dwrr link \<Rightarrow> dwrr link res" where
  "demo_arrive a s l = link_arrive (dw_enque (\<lambda>_. 0)) dw_deque 0 (demo_source a s) l"

definition demo_dwrr :: "dwrr" where
  "demo_dwrr = dw_new (\<lambda>_. 0) demo_qbase 2 5000"

lemmas demo_dwrr_defs = demo_dwrr_def dw_new_def demo_qbase_def demo_packet_def dwrr.defs qbase.defs

lemmas demo_eval = demo_arrive_def link_start_def link_arrive_def q_recv_def dw_enque_def
  dw_rearr_def ring_activate_def ring_idle_def ring_weights_def bubble_sort_def bubble_pass_def bubble_step_def
  dw_drop_loop.simps wflow_new_def upt_rec c_mod_def c_div_def Let_def

lemmas demo_deque = dw_deque_def dw_serve.simps dw_turn_def dw_moveMaxweight_def dw_walk.simps

lemma demo_first:
  "\<exists>l. demo_arrive 7 1 (link_start demo_dwrr) = Ok l \<and> lk_arrived l = [demo_source 7 1] \<and>
     qb_blocked (lk_queue l) \<and> dw_ring (lk_queue l) = [] \<and> dw_flwcnt (lk_queue l) = 0 \<and>
     dw_bytecnt (lk_queue l) = 0 \<and> dw_blimit (lk_queue l) = 5000 \<and>
     dw_buckets (lk_queue l) = 2 \<and>
     dw_flows (lk_queue l) = [wflow_new 0, (wflow_new 0)\<lparr>wf_weight := 1, wf_site := 1\<rparr>]"
  by (simp add: demo_eval demo_deque demo_dwrr_defs dwrr_more [OF q_touch_frame(5)])

lemma demo_next:
  assumes "qb_blocked (lk_queue l)" "dw_ring (lk_queue l) = []" "dw_flwcnt (lk_queue l) = 0"
    "dw_bytecnt (lk_queue l) = 0" "dw_blimit (lk_queue l) = 5000" "dw_buckets (lk_queue l) = 2"
    "dw_flows (lk_queue l) = [wflow_new 0, (wflow_new 0)\<lparr>wf_weight := 1, wf_site := 1\<rparr>]"
  shows "\<exists>l2. demo_arrive 8 1 l = Ok l2 \<and> lk_arrived l2 = lk_arrived l @ [demo_source 8 1] \<and>
    qb_blocked (lk_queue l2) \<and> dw_ring (lk_queue l2) = [1] \<and> dw_flwcnt (lk_queue l2) = 1 \<and>
    dw_bytecnt (lk_queue l2) = 500 \<and> dw_blimit (lk_queue l2) = 5000 \<and>
    dw_buckets (lk_queue l2) = 2 \<and>
    dw_flows (lk_queue l2) = [wflow_new 0, (wflow_new 0)\<lparr>wf_q := [demo_source 8 1], wf_pkts := 1,
      wf_bcount := 500, wf_weight := 1, wf_site := 1\<rparr>]"
  using assms by (simp add: demo_eval)

lemma demo_last:
  assumes "qb_blocked (lk_queue l)" "dw_ring (lk_queue l) = [1]" "dw_flwcnt (lk_queue l) = 1"
    "dw_bytecnt (lk_queue l) = 500" "dw_blimit (lk_queue l) = 5000" "dw_buckets (lk_queue l) = 2"
    "dw_flows (lk_queue l) = [wflow_new 0, (wflow_new 0)\<lparr>wf_q := [demo_source 8 1], wf_pkts := 1,
       wf_bcount := 500, wf_weight := 1, wf_site := 1\<rparr>]"
  shows "\<exists>l3. demo_arrive 10 2 l = Ok l3 \<and> dw_ring (lk_queue l3) = [1, 0] \<and> dw_cerprique (lk_queue l3) = 0 \<and>
    dw_flows (lk_queue l3) = [(wflow_new 0)\<lparr>wf_q := [demo_source 10 2], wf_pkts := 1, wf_bcount := 500,
      wf_weight := 2, wf_site := 0\<rparr>, (wflow_new 0)\<lparr>wf_q := [demo_source 8 1], wf_pkts := 1,
      wf_bcount := 500, wf_weight := 1, wf_site := 1\<rparr>]"
  using assms by (simp add: demo_eval)

lemma demo_reach:
  assumes "link_reach (dw_adm 500) (dw_enque (\<lambda>_. 0)) dw_deque demo_dwrr (Ok l)"
    and "demo_arrive a s l = Ok l'" "0 < s" "s \<le> 1000" "a \<notin> pk_addr ` set (lk_arrived l)"
  shows "link_reach (dw_adm 500) (dw_enque (\<lambda>_. 0)) dw_deque demo_dwrr (Ok l')"
proof -
  have "dw_adm 500 (demo_source a s)" using assms(3,4) by (simp add: dw_adm_def)
  with assms(5) have "link_step (dw_adm 500) (dw_enque (\<lambda>_. 0)) dw_deque l (demo_arrive a s l)"
    unfolding demo_arrive_def by (intro link_step.arrive) simp_all
  with assms(1,2) show ?thesis by (metis link_reach.step)
qed


end
