(* ===== verification/Tcp_Sink.thy ===== *)
theory Tcp_Sink
  imports Prelude
begin

unbundle bit_operations_syntax

text \<open>
  The receiver of TCP in \<open>tcp/tcp-sink.h\<close> and \<open>tcp/tcp-sink.cc\<close>: class \<open>Acker\<close>, which
  remembers the segments of the receive window in a ring buffer that grows by doubling, class
  \<open>Sacker\<close>, which adds selective acknowledgements from a stack of recent blocks, and class
  \<open>TcpSink\<close>, which answers a segment with an acknowledgement. The loops that need not end are
  partial functions.
\<close>

section \<open>The ring buffer\<close>

text \<open>\<open>seen_\<close> is read and written at \<open>i & wndmask_\<close>.\<close>

definition ring_index :: "int \<Rightarrow> int \<Rightarrow> nat" where
  "ring_index msk i = nat (i AND msk)"

definition ring_get :: "int list \<Rightarrow> int \<Rightarrow> int \<Rightarrow> int" where
  "ring_get s msk i = s ! ring_index msk i"

definition ring_set :: "int \<Rightarrow> int list \<Rightarrow> int \<Rightarrow> int \<Rightarrow> int list" where
  "ring_set msk s i v = s[ring_index msk i := v]"

section \<open>Acker\<close>

record acker =
  ak_next :: int
  ak_maxseen :: int
  ak_wndmask :: int
  ak_ecn_unacked :: bool
  ak_seen :: "int list"
  ak_ts_to_echo :: real
  ak_is_dup :: bool
  ak_last_ack_sent :: int

text \<open>The constructor leaves \<open>is_dup_\<close> as the memory holds it.\<close>

definition ak_new :: "bool \<Rightarrow> acker" where
  "ak_new junk = \<lparr>ak_next = 0, ak_maxseen = 0, ak_wndmask = 63, ak_ecn_unacked = False, ak_seen = replicate 64 0,
     ak_ts_to_echo = 0, ak_is_dup = junk, ak_last_ack_sent = 0\<rparr>"

definition ak_reset :: "acker \<Rightarrow> acker" where
  "ak_reset a = a\<lparr>ak_next := 0, ak_maxseen := 0, ak_seen := replicate (nat (ak_wndmask a + 1)) 0\<rparr>"

definition ak_resize_buffers :: "int \<Rightarrow> acker \<Rightarrow> acker" where
  "ak_resize_buffers sz a =
     a\<lparr>ak_seen := foldl (\<lambda>s i. ring_set (sz - 1) s i (ring_get (ak_seen a) (ak_wndmask a) i))
                   (replicate (nat sz) 0) [ak_next a..ak_maxseen a + 1],
       ak_wndmask := sz - 1\<rparr>"

definition ak_update_ts :: "int \<Rightarrow> real \<Rightarrow> bool \<Rightarrow> acker \<Rightarrow> acker" where
  "ak_update_ts seqno ts rfc1323 a =
     (if rfc1323 \<and> seqno = ak_last_ack_sent a + 1 then a\<lparr>ak_ts_to_echo := ts\<rparr>
      else if ts \<ge> ak_ts_to_echo a \<and> seqno \<le> ak_last_ack_sent a + 1 then a\<lparr>ak_ts_to_echo := ts\<rparr>
      else a)"

partial_function (option) ak_grow :: "int \<Rightarrow> acker \<Rightarrow> acker option" where
  "ak_grow sq a =
     (if sq + 1 - ak_next a \<ge> ak_wndmask a then ak_grow sq (ak_resize_buffers ((ak_wndmask a + 1) * 2) a)
      else Some a)"

text \<open>The loop that moves the left edge of the window over the segments received.\<close>

partial_function (option) ak_advance :: "int list \<Rightarrow> int \<Rightarrow> int \<Rightarrow> int \<Rightarrow> (int \<times> int) option" where
  "ak_advance s msk nxt num =
     (if ring_get s msk nxt \<noteq> 0 then ak_advance s msk (nxt + 1) (num + ring_get s msk nxt)
      else Some (num, nxt))"

text \<open>The segment is the highest so far: those skipped and the next one are marked as not seen.\<close>

definition ak_extend :: "int \<Rightarrow> int \<Rightarrow> acker \<Rightarrow> acker" where
  "ak_extend sq n a =
     (let m = ak_wndmask a;
          s1 = foldl (\<lambda>s i. ring_set m s i 0) (ak_seen a) [ak_maxseen a + 1..sq - 1];
          s2 = ring_set m s1 sq n;
          s3 = ring_set m s2 (sq + 1) 0
      in a\<lparr>ak_seen := s3, ak_maxseen := sq\<rparr>)"

definition ak_update :: "int \<Rightarrow> int \<Rightarrow> acker \<Rightarrow> (int \<times> acker) res" where
  "ak_update sq n a0 =
     (case ak_grow sq a0 of
        None \<Rightarrow> Fail No_Return
      | Some a1 \<Rightarrow>
          let just_marked = sq > ak_maxseen a1;
              a = (if just_marked then ak_extend sq n a1 else a1);
              m = ak_wndmask a
          in if sq \<ge> ak_next a \<and> sq \<le> ak_maxseen a
             then let dup = (ring_get (ak_seen a) m sq \<noteq> 0 \<and> \<not> just_marked);
                      s = ring_set m (ak_seen a) sq n
                  in (case ak_advance s m (ak_next a) 0 of
                        None \<Rightarrow> Fail No_Return
                      | Some (num, nxt) \<Rightarrow> Ok (num, a\<lparr>ak_seen := s, ak_is_dup := dup, ak_next := nxt\<rparr>))
             else Ok (0, a\<lparr>ak_is_dup := sq < ak_next a\<rparr>))"

abbreviation ak_Seqno :: "acker \<Rightarrow> int" where
  "ak_Seqno a \<equiv> ak_next a - 1"

section \<open>Sacker\<close>

text \<open>\<open>SackStack\<close> with its array of blocks, and the fields of \<open>Sacker\<close>.\<close>

record sacker =
  sk_size :: int
  sk_cnt :: int
  sk_sfe :: "(int \<times> int) list"
  sk_base_nblocks :: int

definition sk_stack :: "int \<Rightarrow> sacker \<Rightarrow> sacker" where
  "sk_stack sz k = k\<lparr>sk_size := sz, sk_sfe := replicate (nat sz) (-1, -1), sk_cnt := 0\<rparr>"

definition sk_stack_reset :: "sacker \<Rightarrow> sacker" where
  "sk_stack_reset k = k\<lparr>sk_sfe := foldl (\<lambda>s i. s[i := (-1, -1)]) (sk_sfe k) [0..<nat (sk_cnt k)], sk_cnt := 0\<rparr>"

text \<open>\<open>push\<close> is only called for position 0.\<close>

definition sk_push :: "sacker \<Rightarrow> sacker" where
  "sk_push k =
     (let c = (if sk_cnt k \<ge> sk_size k then sk_size k - 1 else sk_cnt k)
      in k\<lparr>sk_sfe := foldl (\<lambda>s i. s[Suc i := s ! i]) (sk_sfe k) (rev [0..<nat c]), sk_cnt := c + 1\<rparr>)"

definition sk_pop :: "nat \<Rightarrow> sacker \<Rightarrow> sacker" where
  "sk_pop n k =
     (let c = nat (sk_cnt k - 1);
          s = foldl (\<lambda>s i. s[i := s ! Suc i]) (sk_sfe k) [n..<c]
      in k\<lparr>sk_sfe := s[max n c := (-1, -1)], sk_cnt := sk_cnt k - 1\<rparr>)"

text \<open>The number of blocks is limited by the room in the header of TCP.\<close>

definition NSA :: int where
  "NSA = 3"

definition sk_configure :: "int \<Rightarrow> sacker \<Rightarrow> int \<times> sacker" where
  "sk_configure nblocks k = (let n = (if nblocks > NSA then NSA else nblocks) in (n, (sk_stack n k)\<lparr>sk_base_nblocks := n\<rparr>))"

definition sk_trace :: "int \<Rightarrow> sacker \<Rightarrow> int \<times> sacker" where
  "sk_trace nblocks k = (let n = (if nblocks > NSA then NSA else nblocks) in (n, (sk_stack n k)\<lparr>sk_base_nblocks := n\<rparr>))"

text \<open>The blocks of the stack that the newest block does not cover are reported after it; those it
  covers are taken from the stack.\<close>

partial_function (option) sk_history ::
  "int \<Rightarrow> int \<Rightarrow> int \<Rightarrow> nat \<Rightarrow> (int \<times> int) list \<Rightarrow> sacker \<Rightarrow> ((int \<times> int) list \<times> sacker) res option" where
  "sk_history maxseen rl rr n blocks k =
     (if int (length blocks) < sk_base_nblocks k then
        if n \<ge> length (sk_sfe k) then Some (Fail Bad_Index)
        else
          let sack_left = fst (sk_sfe k ! n); sack_right = snd (sk_sfe k ! n)
          in if sack_left < 0 \<or> sack_right < 0 \<or> sack_right > maxseen + 1 then Some (Ok (blocks, k))
             else if rl \<le> sack_left \<and> rr \<ge> sack_right then sk_history maxseen rl rr n blocks (sk_pop n k)
             else sk_history maxseen rl rr (Suc n) (blocks @ [(sack_left, sack_right)]) k
      else Some (Ok (blocks, k)))"

definition sk_put :: "int \<times> int \<Rightarrow> sacker \<Rightarrow> sacker" where
  "sk_put b k = (let k' = sk_push k in k'\<lparr>sk_sfe := (sk_sfe k')[0 := b]\<rparr>)"

text \<open>The edges of the block with the segment just received.\<close>

definition sack_right_edge :: "acker \<Rightarrow> int \<Rightarrow> int" where
  "sack_right_edge a old =
     (case find (\<lambda>i. ring_get (ak_seen a) (ak_wndmask a) i = 0) [old..ak_maxseen a] of
        Some i \<Rightarrow> i
      | None \<Rightarrow> ak_maxseen a + 1)"

definition sack_left_edge :: "acker \<Rightarrow> int \<Rightarrow> int" where
  "sack_left_edge a right =
     (case find (\<lambda>i. ring_get (ak_seen a) (ak_wndmask a) i = 0) (rev [ak_Seqno a + 1..right - 1]) of
        Some i \<Rightarrow> i + 1
      | None \<Rightarrow> -1)"

text \<open>\<open>append_ack\<close>: the blocks to report and the new stack.\<close>

definition sk_append_ack :: "bool \<Rightarrow> acker \<Rightarrow> int \<Rightarrow> sacker \<Rightarrow> ((int \<times> int) list \<times> sacker) res" where
  "sk_append_ack dsacks a old k =
     (let seqno = ak_Seqno a
      in if old < 0 then Ok ([], k)
         else if seqno \<ge> ak_maxseen a \<and> sk_cnt k \<noteq> 0 then Ok ([], sk_stack_reset k)
         else if (seqno < ak_maxseen a \<or> ak_is_dup a) \<and> sk_base_nblocks k > 0 then
           let dsack = (if dsacks \<and> ak_is_dup a then [(old, old + 1)] else [])
           in if int (length dsack) \<ge> sk_base_nblocks k then Ok (dsack, k)
              else
                let right = sack_right_edge a old;
                    left = (if old \<le> seqno then 0 else sack_left_edge a right);
                    blocks = (if old \<le> seqno then dsack else dsack @ [(left, right)])
                in (case sk_history (ak_maxseen a) left right 0 blocks k of
                      None \<Rightarrow> Fail No_Return
                    | Some (Inl e) \<Rightarrow> Fail e
                    | Some (Inr (bs, k1)) \<Rightarrow> Ok (bs, if old > seqno then sk_put (left, right) k1 else k1))
         else Ok ([], k))"

section \<open>TcpSink\<close>

datatype qs_state = QS_DISABLE | QS_REQUEST | QS_RESPONSE

text \<open>What the sink reads of the headers of a segment, and the headers of the acknowledgement.\<close>

record segment =
  sg_seqno :: int
  sg_size :: int
  sg_ts :: real
  sg_flowid :: int
  sg_ect :: bool
  sg_ce :: bool
  sg_cong_action :: bool
  sg_ecnecho :: bool
  sg_ttl :: int
  sg_qs_flag :: qs_state
  sg_qs_ttl :: int
  sg_qs_rate :: int

record ack_packet =
  ta_seqno :: int
  ta_size :: int
  ta_ts :: real
  ta_ts_echo :: real
  ta_flowid :: int
  ta_ect :: bool
  ta_ecnecho :: bool
  ta_sack :: "(int \<times> int) list"
  ta_qs_flag :: qs_state
  ta_qs_ttl :: int
  ta_qs_rate :: int

text \<open>A sink has a plain \<open>Acker\<close>, or a \<open>Sacker\<close>, whose own fields are \<open>tk_sack\<close>.\<close>

record sink =
  tk_acker :: acker
  tk_sack :: "sacker option"
  tk_ts_echo_bugfix :: bool
  tk_ts_echo_rfc1323 :: bool
  tk_max_sack_blocks :: int
  tk_save :: "segment option"
  tk_generate_dsacks :: bool
  tk_qs_enabled :: bool
  tk_RFC2581_immediate_ack :: bool
  tk_SYN_immediate_ack :: bool
  tk_bytes :: int
  tk_lastreset :: real
  tk_ecn_syn :: bool

definition tk_reset :: "real \<Rightarrow> sink \<Rightarrow> sink" where
  "tk_reset now s =
     s\<lparr>tk_acker := ak_reset (tk_acker s), tk_sack := map_option sk_stack_reset (tk_sack s), tk_save := None,
       tk_lastreset := now\<rparr>"

definition ack_quickstart :: "sink \<Rightarrow> segment \<Rightarrow> ack_packet \<Rightarrow> ack_packet" where
  "ack_quickstart s p t =
     (if tk_qs_enabled s then
        if sg_seqno p = 0 \<and> sg_qs_flag p = QS_REQUEST
        then t\<lparr>ta_qs_flag := QS_RESPONSE, ta_qs_ttl := c_mod (sg_ttl p - sg_qs_ttl p) 256, ta_qs_rate := sg_qs_rate p\<rparr>
        else t\<lparr>ta_qs_flag := QS_DISABLE\<rparr>
      else t)"

text \<open>The bits of explicit congestion notification; \<open>sf\<close> is the segment whose acknowledgement was delayed.\<close>

definition saved :: "(segment \<Rightarrow> bool) \<Rightarrow> segment option \<Rightarrow> bool" where
  "saved P sf = (case sf of None \<Rightarrow> False | Some f \<Rightarrow> P f)"

definition ecn_unacked_after :: "segment option \<Rightarrow> segment \<Rightarrow> bool \<Rightarrow> bool" where
  "ecn_unacked_after sf p u =
     (let u1 = (if saved (\<lambda>f. sg_cong_action f) sf \<or> sg_cong_action p then False else u)
      in if saved (\<lambda>f. sg_ect f \<and> sg_ce f) sf \<or> (sg_ect p \<and> sg_ce p) then True else u1)"

definition ack_ecn :: "sink \<Rightarrow> segment \<Rightarrow> bool \<Rightarrow> ack_packet \<Rightarrow> ack_packet" where
  "ack_ecn s p u t =
     (let sf = tk_save s;
          t1 = (if saved (\<lambda>f. sg_ect f) sf \<or> sg_ect p then t\<lparr>ta_ecnecho := u\<rparr> else t)
      in if (\<not> sg_ect p \<and> sg_ecnecho p) \<or> saved (\<lambda>f. \<not> sg_ect f \<and> sg_ecnecho f) sf
         then (if tk_ecn_syn s then t1\<lparr>ta_ecnecho := True, ta_ect := True\<rparr> else t1\<lparr>ta_ecnecho := True\<rparr>)
         else t1)"

text \<open>\<open>npkt\<close> is the packet that \<open>allocpkt\<close> returns.\<close>

definition tk_ack :: "real \<Rightarrow> ack_packet \<Rightarrow> segment \<Rightarrow> sink \<Rightarrow> (ack_packet \<times> sink) res" where
  "tk_ack now npkt p s =
     (let t = ack_quickstart s p npkt;
          t1 = t\<lparr>ta_seqno := ak_Seqno (tk_acker s), ta_ts := now,
                 ta_ts_echo := if tk_ts_echo_bugfix s then ak_ts_to_echo (tk_acker s) else sg_ts p,
                 ta_flowid := sg_flowid p\<rparr>;
          u = ecn_unacked_after (tk_save s) p (ak_ecn_unacked (tk_acker s));
          t2 = ack_ecn s p u t1;
          a = (tk_acker s)\<lparr>ak_ecn_unacked := u\<rparr>
      in res_bind
           (case tk_sack s of
              None \<Rightarrow> Ok (t2, None)
            | Some k \<Rightarrow> res_bind (sk_append_ack (tk_generate_dsacks s) a (sg_seqno p) k)
                (\<lambda>(bs, k'). Ok (t2\<lparr>ta_sack := bs, ta_size := ta_size t2 + int (length bs) * 8\<rparr>, Some k')))
           (\<lambda>(t3, k'). Ok (t3, s\<lparr>tk_acker := a\<lparr>ak_last_ack_sent := ta_seqno t3\<rparr>, tk_sack := k'\<rparr>)))"

text \<open>Updating the window with a segment, which both kinds of sink begin with.\<close>

definition tk_accept :: "segment \<Rightarrow> sink \<Rightarrow> (int \<times> sink) res" where
  "tk_accept p s =
     res_bind (ak_update (sg_seqno p) (sg_size p) (ak_update_ts (sg_seqno p) (sg_ts p) (tk_ts_echo_rfc1323 s) (tk_acker s)))
       (\<lambda>(num, a). Ok (num, s\<lparr>tk_acker := a, tk_bytes := if num \<noteq> 0 then tk_bytes s + num else tk_bytes s\<rparr>))"

text \<open>\<open>recv\<close> returns the acknowledgement, if any, and the bytes given to the application.\<close>

definition tk_recv :: "real \<Rightarrow> ack_packet \<Rightarrow> segment \<Rightarrow> sink \<Rightarrow> (ack_packet option \<times> int \<times> sink) res" where
  "tk_recv now npkt p s =
     (if sg_ts p < tk_lastreset s then Ok (None, 0, s)
      else res_bind (tk_accept p s) (\<lambda>(num, s1).
        res_bind (tk_ack now npkt p s1) (\<lambda>(t, s2). Ok (Some t, num, s2))))"

end
