(* ===== verification/Tcp_Sink_Correct.thy ===== *)
theory Tcp_Sink_Correct
  imports Tcp_Sink
begin

unbundle bit_operations_syntax

text \<open>
  Correctness of the TCP receiver of \<open>Tcp_Sink\<close>. The abstract state is the set of the segment
  numbers received; the sizes of the segments are a function of their numbers. The ring buffer holds
  the size of each segment received and 0 for each one missing, from the left edge of the window to
  one past its right edge, and the window is always smaller than the buffer.
\<close>

section \<open>The ring buffer\<close>

definition ring_ok :: "nat \<Rightarrow> int \<Rightarrow> int list \<Rightarrow> bool" where
  "ring_ok n msk s \<longleftrightarrow> msk = 2 ^ n - 1 \<and> length s = 2 ^ n"

lemma ring_index_mod: "ring_index (2 ^ n - 1) i = nat (i mod 2 ^ n)"
  by (metis mask_eq_exp_minus_1 ring_index_def take_bit_eq_mask take_bit_eq_mod)

lemma ring_index_less: "ring_ok n msk s \<Longrightarrow> ring_index msk i < length s"
  by (simp add: ring_ok_def ring_index_mod nat_less_iff)

lemma ring_index_inj:
  assumes "\<bar>i - j\<bar> < 2 ^ n" "i \<noteq> j"
  shows "ring_index (2 ^ n - 1) i \<noteq> ring_index (2 ^ n - 1) j"
proof
  assume "ring_index (2 ^ n - 1) i = ring_index (2 ^ n - 1) j"
  then have "nat (i mod 2 ^ n) = nat (j mod 2 ^ n)" by (simp only: ring_index_mod)
  then have "i mod 2 ^ n = j mod 2 ^ n" by (metis eq_nat_nat_iff pos_mod_sign zero_less_numeral zero_less_power)
  then have "2 ^ n dvd i - j" by (simp add: mod_eq_dvd_iff)
  with assms(2) have "2 ^ n \<le> \<bar>i - j\<bar>" by (meson abs_dvd_iff dvd_abs_iff dvd_imp_le_int eq_iff_diff_eq_0 zdvd_imp_le zero_less_abs_iff)
  with assms(1) show False by simp
qed

lemma ring_ok_set [simp]: "ring_ok n msk (ring_set msk' s i v) = ring_ok n msk s"
  by (simp add: ring_ok_def ring_set_def)

lemma ring_get_set:
  assumes "ring_ok n msk s" "\<bar>i - j\<bar> < 2 ^ n"
  shows "ring_get (ring_set msk s j v) msk i = (if i = j then v else ring_get s msk i)"
  using ring_index_inj [OF assms(2)] ring_index_less [OF assms(1)] assms(1)
  by (auto simp: ring_get_def ring_set_def ring_ok_def)

lemma ring_fill:
  "ring_ok n msk s \<Longrightarrow> b - a < 2 ^ n \<Longrightarrow> \<forall>i \<in> {a..b}. \<bar>j - i\<bar> < 2 ^ n \<Longrightarrow>
   ring_ok n msk (foldl (\<lambda>s i. ring_set msk s i (f i)) s [a..b]) \<and>
   ring_get (foldl (\<lambda>s i. ring_set msk s i (f i)) s [a..b]) msk j = (if j \<in> {a..b} then f j else ring_get s msk j)"
proof (induction a b arbitrary: s rule: upto.induct)
  case (1 a b)
  show ?case
  proof (cases "a \<le> b")
    case True
    then have "\<bar>j - a\<bar> < 2 ^ n" using 1 by simp
    then have "ring_get (ring_set msk s a (f a)) msk j = (if j = a then f a else ring_get s msk j)"
      using 1(2) ring_get_set by blast
    then show ?thesis
      using 1 True by (simp add: upto.simps [of a b], cases "j = a") auto
  qed (use 1 in simp)
qed

section \<open>The window\<close>

definition seen_value :: "(int \<Rightarrow> int) \<Rightarrow> int set \<Rightarrow> int \<Rightarrow> int" where
  "seen_value sz R i = (if i \<in> R then sz i else 0)"

definition acker_win :: "(int \<Rightarrow> int) \<Rightarrow> int set \<Rightarrow> acker \<Rightarrow> bool" where
  "acker_win sz R a \<longleftrightarrow> (\<exists>n. ring_ok n (ak_wndmask a) (ak_seen a)) \<and>
     0 \<le> ak_next a \<and> ak_next a \<le> ak_maxseen a + 1 \<and> ak_maxseen a + 1 - ak_next a < ak_wndmask a \<and>
     (\<forall>i. ak_next a \<le> i \<and> i \<le> ak_maxseen a + 1 \<longrightarrow> ring_get (ak_seen a) (ak_wndmask a) i = seen_value sz R i) \<and>
     {0..<ak_next a} \<subseteq> R \<and> R \<subseteq> {0..ak_maxseen a}"

definition acker_inv :: "(int \<Rightarrow> int) \<Rightarrow> int set \<Rightarrow> acker \<Rightarrow> bool" where
  "acker_inv sz R a \<longleftrightarrow> acker_win sz R a \<and> ak_next a \<notin> R"

lemma ak_new_inv: "acker_inv sz {} (ak_new junk)"
proof -
  have "ring_ok 6 63 (replicate 64 (0 :: int))" by (simp add: ring_ok_def)
  moreover have "ring_get (replicate 64 (0 :: int)) 63 i = 0" for i
    using ring_index_less [of 6 63 "replicate 64 (0 :: int)" i] by (simp add: ring_ok_def ring_get_def)
  ultimately show ?thesis by (auto simp: acker_inv_def acker_win_def ak_new_def seen_value_def)
qed

lemma ak_resize_inv:
  assumes i: "acker_inv sz R a"
  shows "acker_inv sz R (ak_resize_buffers ((ak_wndmask a + 1) * 2) a)"
proof -
  have inv: "acker_win sz R a" "ak_next a \<notin> R" using i by (auto simp: acker_inv_def)
  obtain n where n: "ring_ok n (ak_wndmask a) (ak_seen a)" using inv by (auto simp: acker_win_def)
  then have m: "ak_wndmask a = 2 ^ n - 1" by (simp add: ring_ok_def)
  let ?m = "2 ^ Suc n - 1 :: int" and ?f = "ring_get (ak_seen a) (ak_wndmask a)"
  let ?s = "replicate (nat (2 ^ Suc n)) (0 :: int)"
  let ?t = "foldl (\<lambda>s i. ring_set ?m s i (?f i)) ?s [ak_next a..ak_maxseen a + 1]"
  have s: "ring_ok (Suc n) ?m ?s" by (simp add: ring_ok_def nat_mult_distrib nat_power_eq)
  have w: "ak_maxseen a + 1 - ak_next a < 2 ^ Suc n" 
  proof -
    have "(0 :: int) < 2 ^ n" "ak_maxseen a + 1 - ak_next a < 2 ^ n - 1" using inv m by (simp_all add: acker_win_def)
    then show ?thesis by (simp only: power_Suc)
  qed
  have t: "ring_ok (Suc n) ?m ?t \<and> ring_get ?t ?m j = ?f j" if "ak_next a \<le> j" "j \<le> ak_maxseen a + 1" for j
  proof -
    have "\<forall>i \<in> {ak_next a..ak_maxseen a + 1}. \<bar>j - i\<bar> < 2 ^ Suc n" using w that by auto
    from ring_fill [OF s w this, of ?f] that show ?thesis by auto
  qed
  have "ak_resize_buffers ((ak_wndmask a + 1) * 2) a = a\<lparr>ak_seen := ?t, ak_wndmask := ?m\<rparr>"
    by (simp add: ak_resize_buffers_def m mult.commute)
  moreover have "ring_ok (Suc n) ?m ?t" using t [of "ak_next a"] inv by (simp add: acker_win_def)
  moreover have "ak_wndmask a \<le> ?m"
  proof -
    have "(0 :: int) < 2 ^ n" by simp
    then show ?thesis unfolding m power_Suc by linarith
  qed
  ultimately show ?thesis using inv t unfolding acker_inv_def acker_win_def
    by (auto intro!: exI [of _ "Suc n"] simp del: power_Suc)
qed

lemma ak_resize_frame [simp]:
  "ak_next (ak_resize_buffers z a) = ak_next a" "ak_maxseen (ak_resize_buffers z a) = ak_maxseen a"
  "ak_wndmask (ak_resize_buffers z a) = z - 1" "ak_is_dup (ak_resize_buffers z a) = ak_is_dup a"
  "ak_ts_to_echo (ak_resize_buffers z a) = ak_ts_to_echo a"
  "ak_ecn_unacked (ak_resize_buffers z a) = ak_ecn_unacked a"
  "ak_last_ack_sent (ak_resize_buffers z a) = ak_last_ack_sent a"
  by (simp_all add: ak_resize_buffers_def)

lemma ak_grow_ok:
  "acker_inv sz R a \<Longrightarrow> \<exists>a'. ak_grow sq a = Some a' \<and> acker_inv sz R a' \<and> sq + 1 - ak_next a' < ak_wndmask a' \<and>
     ak_next a' = ak_next a \<and> ak_maxseen a' = ak_maxseen a \<and> ak_last_ack_sent a' = ak_last_ack_sent a \<and>
     ak_ecn_unacked a' = ak_ecn_unacked a \<and> ak_ts_to_echo a' = ak_ts_to_echo a"
proof (induction "nat (sq + 2 - ak_next a - ak_wndmask a)" arbitrary: a rule: less_induct)
  case less
  show ?case
  proof (cases "sq + 1 - ak_next a \<ge> ak_wndmask a")
    case True
    let ?a = "ak_resize_buffers ((ak_wndmask a + 1) * 2) a"
    have "0 \<le> ak_wndmask a" using less.prems by (auto simp: acker_inv_def acker_win_def)
    then have "nat (sq + 2 - ak_next ?a - ak_wndmask ?a) < nat (sq + 2 - ak_next a - ak_wndmask a)" using True by simp
    from less.hyps [OF this ak_resize_inv [OF less.prems]] True show ?thesis by (subst ak_grow.simps) simp
  qed (use less.prems in \<open>subst ak_grow.simps, auto\<close>)
qed

lemma ak_advance_ok:
  assumes "\<And>i. 0 < sz i" "e \<notin> R"
  shows "nxt \<le> e \<Longrightarrow> \<forall>i. nxt \<le> i \<and> i \<le> e \<longrightarrow> ring_get s m i = seen_value sz R i \<Longrightarrow>
    \<exists>nx. ak_advance s m nxt acc = Some (acc + (\<Sum>i \<in> {nxt..<nx}. sz i), nx) \<and> nxt \<le> nx \<and> nx \<le> e \<and>
      {nxt..<nx} \<subseteq> R \<and> nx \<notin> R"
proof (induction "nat (e - nxt)" arbitrary: nxt acc rule: less_induct)
  case less
  have v: "ring_get s m nxt = seen_value sz R nxt" using less.prems by simp
  show ?case
  proof (cases "nxt \<in> R")
    case True
    then have n: "nxt < e" using less.prems(1) assms(2) by (cases "nxt = e") auto
    then have "nat (e - (nxt + 1)) < nat (e - nxt)" by simp
    from less.hyps [OF this, of "acc + sz nxt"] n less.prems(2) obtain nx where
      nx: "ak_advance s m (nxt + 1) (acc + sz nxt) = Some (acc + sz nxt + (\<Sum>i \<in> {nxt + 1..<nx}. sz i), nx)"
        "nxt + 1 \<le> nx" "nx \<le> e" "{nxt + 1..<nx} \<subseteq> R" "nx \<notin> R" by auto
    have "{nxt..<nx} = insert nxt {nxt + 1..<nx}" using nx(2) by auto
    then have "(\<Sum>i \<in> {nxt..<nx}. sz i) = sz nxt + (\<Sum>i \<in> {nxt + 1..<nx}. sz i)" "{nxt..<nx} \<subseteq> R"
      using nx(4) True by simp_all
    moreover have "sz nxt \<noteq> 0" using assms(1) [of nxt] by simp
    ultimately show ?thesis using nx v True by (subst ak_advance.simps) (auto simp: seen_value_def)
  next
    case False
    then show ?thesis using less.prems(1) v by (subst ak_advance.simps) (auto simp: seen_value_def)
  qed
qed

lemma ak_mark_win:
  assumes win: "acker_win sz R a" and sq: "ak_next a \<le> sq" "sq \<le> ak_maxseen a" and pos: "0 < sz sq"
  shows "acker_win sz (insert sq R) (a\<lparr>ak_seen := ring_set (ak_wndmask a) (ak_seen a) sq (sz sq)\<rparr>)"
proof -
  obtain n where n: "ring_ok n (ak_wndmask a) (ak_seen a)" using win by (auto simp: acker_win_def)
  then have m: "ak_wndmask a = 2 ^ n - 1" by (simp add: ring_ok_def)
  have "ring_get (ring_set (ak_wndmask a) (ak_seen a) sq (sz sq)) (ak_wndmask a) i = seen_value sz (insert sq R) i"
    if "ak_next a \<le> i" "i \<le> ak_maxseen a + 1" for i
  proof -
    have "ak_maxseen a + 1 - ak_next a < 2 ^ n - 1" using win m by (simp add: acker_win_def)
    then have "\<bar>i - sq\<bar> < 2 ^ n" using that sq by linarith
    from ring_get_set [OF n this] win that show ?thesis by (auto simp: acker_win_def seen_value_def)
  qed
  then show ?thesis using win n sq unfolding acker_win_def by (auto intro!: exI [of _ n])
qed

lemma ak_extend_win:
  assumes win: "acker_win sz R a" and sq: "ak_maxseen a < sq" "sq + 1 - ak_next a < ak_wndmask a"
  shows "acker_win sz (insert sq R) (ak_extend sq (sz sq) a)"
proof -
  obtain n where n: "ring_ok n (ak_wndmask a) (ak_seen a)" using win by (auto simp: acker_win_def)
  then have m: "ak_wndmask a = 2 ^ n - 1" by (simp add: ring_ok_def)
  let ?m = "ak_wndmask a"
  let ?s = "foldl (\<lambda>s i. ring_set ?m s i 0) (ak_seen a) [ak_maxseen a + 1..sq - 1]"
  let ?t = "ring_set ?m (ring_set ?m ?s sq (sz sq)) (sq + 1) 0"
  have w: "0 \<le> ak_next a" "ak_next a \<le> ak_maxseen a + 1" "R \<subseteq> {0..ak_maxseen a}" "{0..<ak_next a} \<subseteq> R"
    using win by (auto simp: acker_win_def)
  have ok: "ring_ok n ?m ?t \<and> ring_get ?t ?m i = seen_value sz (insert sq R) i" if i: "ak_next a \<le> i" "i \<le> sq + 1" for i
  proof -
    have f: "sq - 1 - (ak_maxseen a + 1) < 2 ^ n" "\<forall>j \<in> {ak_maxseen a + 1..sq - 1}. \<bar>i - j\<bar> < 2 ^ n"
      "\<bar>i - sq\<bar> < 2 ^ n" "\<bar>i - (sq + 1)\<bar> < 2 ^ n"
      using i w sq m by auto
    note fill = ring_fill [OF n f(1,2), of "\<lambda>_. 0"]
    have s: "ring_ok n ?m ?s" "ring_ok n ?m (ring_set ?m ?s sq (sz sq))" using fill by simp_all
    have "ring_get ?t ?m i = (if i = sq + 1 then 0 else if i = sq then sz sq
        else if i \<in> {ak_maxseen a + 1..sq - 1} then 0 else ring_get (ak_seen a) ?m i)"
      using ring_get_set [OF s(2) f(4)] ring_get_set [OF s(1) f(3)] fill by simp
    moreover have "ring_get (ak_seen a) ?m i = seen_value sz R i" if "i \<le> ak_maxseen a"
      using win that i by (simp add: acker_win_def)
    moreover have "i \<notin> R" if "ak_maxseen a < i" using w(3) that by auto
    ultimately show ?thesis using s(2) sq(1) i by (auto simp: seen_value_def)
  qed
  have "ring_ok n ?m ?t" using ok [of sq] sq w by simp
  then show ?thesis using w ok sq unfolding acker_win_def ak_extend_def Let_def
    by (auto intro!: exI [of _ n])
qed

lemma ak_extend_frame [simp]:
  "ak_next (ak_extend sq z a) = ak_next a" "ak_maxseen (ak_extend sq z a) = sq"
  "ak_wndmask (ak_extend sq z a) = ak_wndmask a" "ak_ts_to_echo (ak_extend sq z a) = ak_ts_to_echo a"
  "ak_ecn_unacked (ak_extend sq z a) = ak_ecn_unacked a"
  "ak_last_ack_sent (ak_extend sq z a) = ak_last_ack_sent a"
  by (simp_all add: ak_extend_def Let_def)

lemma ak_update_ok:
  assumes pos: "\<And>i. 0 < sz i" and inv: "acker_inv sz R a0" and sq: "0 \<le> sq"
  shows "\<exists>num a'. ak_update sq (sz sq) a0 = Ok (num, a') \<and> acker_inv sz (insert sq R) a' \<and>
    num = (\<Sum>i \<in> {ak_next a0..<ak_next a'}. sz i) \<and> ak_next a0 \<le> ak_next a' \<and> ak_is_dup a' = (sq \<in> R) \<and>
    ak_maxseen a' = max (ak_maxseen a0) sq \<and> ak_last_ack_sent a' = ak_last_ack_sent a0 \<and>
    ak_ecn_unacked a' = ak_ecn_unacked a0 \<and> ak_ts_to_echo a' = ak_ts_to_echo a0"
proof -
  from ak_grow_ok [OF inv, of sq] obtain a1 where g: "ak_grow sq a0 = Some a1" "acker_inv sz R a1"
    "sq + 1 - ak_next a1 < ak_wndmask a1" "ak_next a1 = ak_next a0" "ak_maxseen a1 = ak_maxseen a0"
    "ak_last_ack_sent a1 = ak_last_ack_sent a0" "ak_ecn_unacked a1 = ak_ecn_unacked a0"
    "ak_ts_to_echo a1 = ak_ts_to_echo a0" by blast
  have win: "acker_win sz R a1" "ak_next a1 \<notin> R" using g(2) by (simp_all add: acker_inv_def)
  have w: "ak_next a1 \<le> ak_maxseen a1 + 1" "R \<subseteq> {0..ak_maxseen a1}" "{0..<ak_next a1} \<subseteq> R"
    using win by (auto simp: acker_win_def)
  show ?thesis
  proof (cases "sq < ak_next a1")
    case True
    then have "sq \<in> R" "\<not> sq > ak_maxseen a1" using w sq by auto
    then have "acker_inv sz (insert sq R) (a1\<lparr>ak_is_dup := True\<rparr>)" "max (ak_maxseen a0) sq = ak_maxseen a1"
      using g(2,5) by (simp_all add: acker_inv_def acker_win_def insert_absorb)
    then show ?thesis using True \<open>sq \<in> R\<close> \<open>\<not> sq > ak_maxseen a1\<close> g by (simp add: ak_update_def Let_def)
  next
    case False
    define a where "a = (if sq > ak_maxseen a1 then ak_extend sq (sz sq) a1 else a1)"
    define R1 where "R1 = (if sq > ak_maxseen a1 then insert sq R else R)"
    have a: "acker_win sz R1 a" "ak_next a = ak_next a0" "ak_maxseen a = max (ak_maxseen a0) sq"
      "ak_last_ack_sent a = ak_last_ack_sent a0" "ak_ecn_unacked a = ak_ecn_unacked a0"
      "ak_ts_to_echo a = ak_ts_to_echo a0" "sq \<le> ak_maxseen a" "insert sq R1 = insert sq R"
      using ak_extend_win [OF win(1) _ g(3)] win(1) g by (auto simp: a_def R1_def)
    let ?s = "ring_set (ak_wndmask a) (ak_seen a) sq (sz sq)"
    have n: "ak_next a \<le> sq" using False g(4) a(2) by simp
    have win': "acker_win sz (insert sq R) (a\<lparr>ak_seen := ?s\<rparr>)"
      using ak_mark_win [OF a(1) n a(7) pos] a(8) by simp
    then have v: "\<forall>i. ak_next a \<le> i \<and> i \<le> ak_maxseen a + 1 \<longrightarrow> ring_get ?s (ak_wndmask a) i = seen_value sz (insert sq R) i"
      and e: "ak_maxseen a + 1 \<notin> insert sq R" "ak_next a \<le> ak_maxseen a + 1"
      by (auto simp: acker_win_def)
    from ak_advance_ok [OF pos e(1) e(2) v, of 0] obtain nx where
      nx: "ak_advance ?s (ak_wndmask a) (ak_next a) 0 = Some (\<Sum>i \<in> {ak_next a..<nx}. sz i, nx)"
        "ak_next a \<le> nx" "nx \<le> ak_maxseen a + 1" "{ak_next a..<nx} \<subseteq> insert sq R" "nx \<notin> insert sq R"
      by auto
    define d where "d = (ring_get (ak_seen a) (ak_wndmask a) sq \<noteq> 0 \<and> \<not> sq > ak_maxseen a1)"
    have d: "d = (sq \<in> R)"
    proof (cases "sq > ak_maxseen a1")
      case True
      then show ?thesis using w(2) by (auto simp: d_def)
    next
      case nj: False
      have "ring_get (ak_seen a1) (ak_wndmask a1) sq = seen_value sz R sq"
        using win(1) False nj by (simp add: acker_win_def)
      then show ?thesis using nj pos [of sq] by (auto simp: d_def a_def seen_value_def)
    qed
    have eq: "ak_update sq (sz sq) a0 = Ok (\<Sum>i \<in> {ak_next a..<nx}. sz i, a\<lparr>ak_seen := ?s, ak_is_dup := d, ak_next := nx\<rparr>)"
      using nx(1) n a(7) g(1) unfolding ak_update_def by (simp add: a_def [symmetric] d_def Let_def)
    have "acker_inv sz (insert sq R) (a\<lparr>ak_seen := ?s, ak_is_dup := d, ak_next := nx\<rparr>)"
    proof -
      have "{0..<nx} = {0..<ak_next a} \<union> {ak_next a..<nx}" using win' nx(2) by (auto simp: acker_win_def)
      then show ?thesis using win' nx unfolding acker_inv_def acker_win_def by auto
    qed
    with eq d nx(2) a show ?thesis by simp
  qed
qed

section \<open>The stack of blocks\<close>

definition sk_repr :: "sacker \<Rightarrow> (int \<times> int) list \<Rightarrow> bool" where
  "sk_repr k es \<longleftrightarrow> sk_cnt k = int (length es) \<and> length es \<le> nat (sk_size k) \<and> 0 < sk_size k \<and>
     sk_base_nblocks k = sk_size k \<and> sk_sfe k = es @ replicate (nat (sk_size k) - length es) (-1, -1)"

lemma shift_right:
  "c < length xs \<Longrightarrow> foldl (\<lambda>s i. s[Suc i := s ! i]) xs (rev [0..<c]) = take 1 xs @ take c xs @ drop (Suc c) xs"
proof (induction c arbitrary: xs)
  case 0
  then show ?case by (cases xs) auto
next
  case (Suc c)
  let ?xs = "xs[Suc c := xs ! c]"
  have "foldl (\<lambda>s i. s[Suc i := s ! i]) xs (rev [0..<Suc c]) = take 1 ?xs @ take c ?xs @ drop (Suc c) ?xs"
    using Suc by simp
  also have "drop (Suc c) ?xs = xs ! c # drop (Suc (Suc c)) xs"
    using Suc.prems by (simp add: drop_update_swap Cons_nth_drop_Suc [symmetric])
  finally show ?case using Suc.prems by (simp add: take_Suc_conv_app_nth)
qed

lemma shift_left:
  "n \<le> c \<Longrightarrow> c < length xs \<Longrightarrow>
   foldl (\<lambda>s i. s[i := s ! Suc i]) xs [n..<c] = take n xs @ drop (Suc n) (take (Suc c) xs) @ drop c xs"
proof (induction c)
  case (Suc c)
  show ?case
  proof (cases "n = Suc c")
    case False
    let ?ys = "take n xs @ drop (Suc n) (take (Suc c) xs) @ drop c xs"
    have n: "n \<le> c" using Suc.prems False by simp
    then have "foldl (\<lambda>s i. s[i := s ! Suc i]) xs [n..<Suc c] = ?ys[c := ?ys ! Suc c]" using Suc by simp
    also have "\<dots> = take n xs @ drop (Suc n) (take (Suc c) xs) @ (drop c xs)[0 := xs ! Suc c]"
      using n Suc.prems by (simp add: list_update_append nth_append)
    also have "(drop c xs)[0 := xs ! Suc c] = xs ! Suc c # drop (Suc c) xs"
      using Suc.prems by (simp add: Cons_nth_drop_Suc [symmetric])
    also have "drop (Suc n) (take (Suc c) xs) @ xs ! Suc c # drop (Suc c) xs = drop (Suc n) (take (Suc (Suc c)) xs) @ drop (Suc c) xs"
      using n Suc.prems by (simp add: take_Suc_conv_app_nth [of "Suc c"])
    finally show ?thesis .
  qed (use Suc.prems in simp)
qed simp

lemma fill_prefix: "n \<le> length xs \<Longrightarrow> foldl (\<lambda>s i. s[i := v]) xs [0..<n] = replicate n v @ drop n xs"
proof (induction n)
  case (Suc n)
  then show ?case
    by (simp add: list_update_append Cons_nth_drop_Suc [symmetric] replicate_append_same)
qed simp

lemma sk_stack_repr: "0 < n \<Longrightarrow> sk_repr ((sk_stack n k)\<lparr>sk_base_nblocks := n\<rparr>) []"
  by (simp add: sk_repr_def sk_stack_def)

lemma sk_reset_repr:
  assumes "sk_repr k es"
  shows "sk_repr (sk_stack_reset k) []"
proof -
  have "nat (sk_size k) = length es + (nat (sk_size k) - length es)" using assms by (simp add: sk_repr_def)
  then have "replicate (nat (sk_size k)) (-1 :: int, -1 :: int) =
      replicate (length es) (-1, -1) @ replicate (nat (sk_size k) - length es) (-1, -1)"
    by (metis replicate_add)
  then show ?thesis using assms by (simp add: sk_repr_def sk_stack_reset_def fill_prefix)
qed

lemma sk_put_repr:
  assumes "sk_repr k es"
  shows "sk_repr (sk_put b k) (take (nat (sk_size k)) (b # es))"
proof -
  define z where "z = nat (sk_size k)"
  define c where "c = (if length es = z then z - 1 else length es)"
  have r: "sk_cnt k = int (length es)" "length es \<le> z" "0 < z" "sk_size k = int z" "sk_base_nblocks k = int z"
    "sk_sfe k = es @ replicate (z - length es) (-1, -1)"
    using assms by (auto simp: sk_repr_def z_def)
  have c: "c < z" "c \<le> length es" "nat (if sk_cnt k \<ge> sk_size k then sk_size k - 1 else sk_cnt k) = c"
    "(if sk_cnt k \<ge> sk_size k then sk_size k - 1 else sk_cnt k) + 1 = int (Suc c)"
    using r(1-4) by (auto simp: c_def)
  have len: "length (sk_sfe k) = z" using r(2,6) by simp
  have ne: "take 1 (sk_sfe k) = [hd (sk_sfe k)]" using len r(3) by (cases "sk_sfe k") auto
  have "sk_sfe (sk_put b k) = b # take c es @ drop (Suc c) (sk_sfe k)"
  proof -
    have "take c (sk_sfe k) = take c es" using r(6) c(2) by simp
    then show ?thesis
      using shift_right [of c "sk_sfe k"] c(1) len ne unfolding sk_put_def sk_push_def Let_def c(3) by simp
  qed
  moreover have "drop (Suc c) (sk_sfe k) = replicate (z - Suc c) (-1, -1)"
    using r(2,6) by (auto simp: c_def)
  moreover have "take z (b # es) = b # take c es" using r(2,3) by (cases z) (auto simp: c_def take_Suc)
  moreover have "sk_cnt (sk_put b k) = int (Suc c)" using c(4) by (simp add: sk_put_def sk_push_def Let_def)
  moreover have "sk_size (sk_put b k) = int z" "sk_base_nblocks (sk_put b k) = int z"
    using r(4,5) by (simp_all add: sk_put_def sk_push_def Let_def)
  ultimately show ?thesis using c r(3) by (simp add: sk_repr_def flip: z_def)
qed

lemma sk_pop_repr:
  assumes "sk_repr k es" "n < length es"
  shows "sk_repr (sk_pop n k) (take n es @ drop (Suc n) es)"
proof -
  define z where "z = nat (sk_size k)"
  define c where "c = length es - 1"
  have r: "sk_cnt k = int (length es)" "length es \<le> z" "sk_size k = int z" "sk_base_nblocks k = int z"
    "sk_sfe k = es @ replicate (z - length es) (-1, -1)" "0 < z"
    using assms by (auto simp: sk_repr_def z_def)
  have c: "n \<le> c" "Suc c = length es" "nat (sk_cnt k - 1) = c" "max n c = c" "c < length (sk_sfe k)"
    using assms(2) r by (auto simp: c_def)
  have t: "take n (sk_sfe k) = take n es" "take (Suc c) (sk_sfe k) = es" "drop c (sk_sfe k) = es ! c # replicate (z - length es) (-1, -1)"
    using r(5) c(1,2) by (simp_all add: Cons_nth_drop_Suc [symmetric])
  have "sk_sfe (sk_pop n k) = (take n es @ drop (Suc n) es @ es ! c # replicate (z - length es) (-1, -1))[c := (-1, -1)]"
    using shift_left [OF c(1,5)] unfolding sk_pop_def Let_def c(3,4) t by simp
  also have "\<dots> = take n es @ drop (Suc n) es @ (-1, -1) # replicate (z - length es) (-1, -1)"
  proof -
    have l: "length (take n es @ drop (Suc n) es) = c" using c(1,2) by simp
    show ?thesis
      using list_update_length [of "take n es @ drop (Suc n) es" "es ! c" "replicate (z - length es) (-1, -1)" "(-1, -1)"]
      unfolding l by simp
  qed
  also have "(-1, -1) # replicate (z - length es) (-1, -1) = replicate (z - c) (-1 :: int, -1 :: int)"
    using r(2) c(2) by (metis Suc_diff_le diff_Suc_Suc replicate_Suc)
  finally show ?thesis using r c assms(2) by (simp add: sk_repr_def sk_pop_def Let_def flip: z_def) arith
qed

section \<open>Selective acknowledgements\<close>

text \<open>A block may be reported when every segment in it has been received.\<close>

definition block_ok :: "int set \<Rightarrow> int \<times> int \<Rightarrow> bool" where
  "block_ok R b \<longleftrightarrow> 0 \<le> fst b \<and> fst b < snd b \<and> {fst b..<snd b} \<subseteq> R"

lemma block_ok_mono: "R \<subseteq> S \<Longrightarrow> block_ok R b \<Longrightarrow> block_ok S b"
  by (auto simp: block_ok_def)

lemma sk_history_ok:
  "sk_repr k (pre @ suf) \<Longrightarrow> n = length pre \<Longrightarrow> n \<le> length blocks \<Longrightarrow> int (length blocks) \<le> sk_size k \<Longrightarrow>
   \<exists>bs k' es'. sk_history M rl rr n blocks k = Some (Ok (blocks @ bs, k')) \<and> sk_repr k' es' \<and>
     set bs \<subseteq> set suf \<and> set es' \<subseteq> set (pre @ suf) \<and> int (length (blocks @ bs)) \<le> sk_size k \<and>
     sk_size k' = sk_size k"
proof (induction suf arbitrary: k pre n blocks)
  case Nil
  have "n < length (sk_sfe k) \<and> sk_sfe k ! n = (-1, -1)" if "int (length blocks) < sk_base_nblocks k"
    using Nil that by (auto simp: sk_repr_def nth_append)
  then show ?case using Nil by (subst sk_history.simps) (auto simp: Let_def)
next
  case (Cons b suf)
  have b: "n < length (sk_sfe k)" "sk_sfe k ! n = b" using Cons.prems by (auto simp: sk_repr_def nth_append)
  have base: "sk_base_nblocks k = sk_size k" using Cons.prems(1) by (simp add: sk_repr_def)
  show ?case
  proof (cases "int (length blocks) < sk_size k \<and> \<not> (fst b < 0 \<or> snd b < 0 \<or> snd b > M + 1)")
    case False
    then have "sk_history M rl rr n blocks k = Some (Ok (blocks, k))"
      using b base by (subst sk_history.simps) (auto simp: Let_def)
    then show ?thesis using Cons.prems by (intro exI [of _ "[]"] exI [of _ k] exI [of _ "pre @ b # suf"]) simp
  next
    case go: True
    show ?thesis
    proof (cases "rl \<le> fst b \<and> rr \<ge> snd b")
      case True
      have pop: "sk_repr (sk_pop n k) (pre @ suf)" "sk_size (sk_pop n k) = sk_size k"
        using sk_pop_repr [OF Cons.prems(1), of n] Cons.prems(2) by (simp_all add: sk_pop_def Let_def)
      have "sk_history M rl rr n blocks k = sk_history M rl rr n blocks (sk_pop n k)"
        using b base go True by (subst sk_history.simps) (auto simp: Let_def)
      then show ?thesis
        using Cons.IH [OF pop(1) Cons.prems(2,3)] Cons.prems(4) pop(2) by fastforce
    next
      case False
      have "sk_history M rl rr n blocks k = sk_history M rl rr (Suc n) (blocks @ [b]) k"
        using b base go False by (subst sk_history.simps) (auto simp: Let_def)
      moreover have "sk_repr k ((pre @ [b]) @ suf)" using Cons.prems(1) by simp
      from Cons.IH [OF this, of "Suc n" "blocks @ [b]"] Cons.prems go obtain bs k' es' where
        "sk_history M rl rr (Suc n) (blocks @ [b]) k = Some (Ok ((blocks @ [b]) @ bs, k'))" "sk_repr k' es'"
        "set bs \<subseteq> set suf" "set es' \<subseteq> set ((pre @ [b]) @ suf)" "int (length ((blocks @ [b]) @ bs)) \<le> sk_size k"
        "sk_size k' = sk_size k" by auto
      ultimately show ?thesis
        by (intro exI [of _ "b # bs"] exI [of _ k'] exI [of _ es']) auto
    qed
  qed
qed

lemma find_split:
  "find P xs = Some x \<Longrightarrow> \<exists>ys zs. xs = ys @ x # zs \<and> P x \<and> (\<forall>y \<in> set ys. \<not> P y)"
proof (induction xs)
  case (Cons y xs)
  show ?case
  proof (cases "P y")
    case True
    then show ?thesis using Cons.prems by (intro exI [of _ "[]"] exI [of _ xs]) simp
  next
    case False
    then obtain ys zs where "xs = ys @ x # zs" "P x" "\<forall>y \<in> set ys. \<not> P y" using Cons by auto
    then show ?thesis using False by (intro exI [of _ "y # ys"] exI [of _ zs]) simp
  qed
qed simp

lemma upto_split:
  "[a..b] = ys @ x # zs \<Longrightarrow> a \<le> x \<and> x \<le> b \<and> set ys = {a..<x} \<and> set zs = {x<..b}"
proof (induction ys arbitrary: a)
  case Nil
  then have "a \<le> b" by (cases "a \<le> b") simp_all
  with Nil have "x = a" "zs = [a + 1..b]" by (auto simp: upto.simps [of a b])
  with \<open>a \<le> b\<close> show ?case by auto
next
  case (Cons y ys)
  then have "a \<le> b" by (cases "a \<le> b") simp_all
  with Cons.prems have y: "y = a" "[a + 1..b] = ys @ x # zs" by (auto simp: upto.simps [of a b])
  from Cons.IH [OF y(2)] y(1) show ?case by auto
qed

lemma seen_zero_iff:
  assumes "\<And>i. 0 < sz i" "acker_inv sz R a" "ak_next a \<le> i" "i \<le> ak_maxseen a + 1"
  shows "ring_get (ak_seen a) (ak_wndmask a) i = 0 \<longleftrightarrow> i \<notin> R"
proof -
  have "ring_get (ak_seen a) (ak_wndmask a) i = seen_value sz R i" using assms by (simp add: acker_inv_def acker_win_def)
  with assms(1) [of i] show ?thesis by (simp add: seen_value_def)
qed

lemma sack_right_edge_ok:
  assumes pos: "\<And>i. 0 < sz i" and inv: "acker_inv sz R a" and old: "ak_Seqno a < old" "old \<in> R"
  shows "old < sack_right_edge a old \<and> sack_right_edge a old \<notin> R \<and> {old..<sack_right_edge a old} \<subseteq> R \<and>
    sack_right_edge a old \<le> ak_maxseen a + 1"
proof -
  let ?P = "\<lambda>i. ring_get (ak_seen a) (ak_wndmask a) i = 0"
  have R: "R \<subseteq> {0..ak_maxseen a}" using inv by (simp add: acker_inv_def acker_win_def)
  have z: "?P i \<longleftrightarrow> i \<notin> R" if "old \<le> i" "i \<le> ak_maxseen a + 1" for i
    using seen_zero_iff [OF pos inv, of i] that old(1) by simp
  show ?thesis
  proof (cases "find ?P [old..ak_maxseen a]")
    case None
    have nz: "\<forall>i \<in> {old..ak_maxseen a}. \<not> ?P i" using None by (simp add: find_None_iff)
    have "{old..<ak_maxseen a + 1} \<subseteq> R"
    proof
      fix i assume "i \<in> {old..<ak_maxseen a + 1}"
      then show "i \<in> R" using nz z [of i] by auto
    qed
    moreover have "ak_maxseen a + 1 \<notin> R" "old \<le> ak_maxseen a" using R old(2) by auto
    ultimately show ?thesis unfolding sack_right_edge_def None by simp
  next
    case (Some r)
    from find_split [OF Some] obtain ys zs where ys: "[old..ak_maxseen a] = ys @ r # zs" "?P r" "\<forall>i \<in> set ys. \<not> ?P i"
      by blast
    from upto_split [OF ys(1)] have r: "old \<le> r" "r \<le> ak_maxseen a" "set ys = {old..<r}" by simp_all
    have nr: "r \<notin> R" using z [of r] ys(2) r by simp
    have "{old..<r} \<subseteq> R"
    proof
      fix i assume "i \<in> {old..<r}"
      then show "i \<in> R" using ys(3) r z [of i] by auto
    qed
    moreover have "old < r" using nr old(2) r(1) by (cases "old = r") auto
    ultimately show ?thesis using nr r unfolding sack_right_edge_def Some by simp
  qed
qed

lemma sack_left_edge_ok:
  assumes pos: "\<And>i. 0 < sz i" and inv: "acker_inv sz R a" and r: "ak_next a < r" "r \<le> ak_maxseen a + 1"
  shows "ak_next a < sack_left_edge a r \<and> sack_left_edge a r \<le> r \<and> sack_left_edge a r - 1 \<notin> R \<and> {sack_left_edge a r..<r} \<subseteq> R"
proof -
  let ?P = "\<lambda>i. ring_get (ak_seen a) (ak_wndmask a) i = 0"
  have z: "?P i \<longleftrightarrow> i \<notin> R" if "ak_next a \<le> i" "i \<le> ak_maxseen a + 1" for i
    by (rule seen_zero_iff [OF pos inv that])
  have "ak_next a \<notin> R" using inv by (simp add: acker_inv_def)
  then have "?P (ak_next a)" using z [of "ak_next a"] r by simp
  then have "find ?P (rev [ak_next a..r - 1]) \<noteq> None" using r by (auto simp: find_None_iff)
  then obtain h where Some: "find ?P (rev [ak_next a..r - 1]) = Some h" by auto
  from find_split [OF Some] obtain ys zs where ys: "rev [ak_next a..r - 1] = ys @ h # zs" "?P h" "\<forall>i \<in> set ys. \<not> ?P i"
    by blast
  from ys(1) have "[ak_next a..r - 1] = rev zs @ h # rev ys" by (simp add: rev_swap)
  from upto_split [OF this] have h: "ak_next a \<le> h" "h \<le> r - 1" "set ys = {h<..r - 1}" by simp_all
  have "{h + 1..<r} \<subseteq> R"
  proof
    fix i assume "i \<in> {h + 1..<r}"
    then show "i \<in> R" using ys(3) h r z [of i] by auto
  qed
  moreover have "h \<notin> R" using z [of h] ys(2) h r by simp
  ultimately show ?thesis using h Some by (simp add: sack_left_edge_def)
qed

lemma sk_append_ack_ok:
  assumes pos: "\<And>i. 0 < sz i" and inv: "acker_inv sz R a" and old: "old \<in> R"
    and k: "sk_repr k es" "\<forall>b \<in> set es. block_ok R b"
  shows "\<exists>bs k' es'. sk_append_ack ds a old k = Ok (bs, k') \<and> sk_repr k' es' \<and> (\<forall>b \<in> set es'. block_ok R b) \<and>
    (\<forall>b \<in> set bs. block_ok R b) \<and> int (length bs) \<le> sk_size k \<and> sk_size k' = sk_size k \<and>
    (ak_Seqno a < old \<and> \<not> (ds \<and> ak_is_dup a) \<longrightarrow>
       bs \<noteq> [] \<and> fst (hd bs) \<le> old \<and> old < snd (hd bs) \<and> fst (hd bs) - 1 \<notin> R \<and> snd (hd bs) \<notin> R)"
proof -
  have R: "R \<subseteq> {0..ak_maxseen a}" "0 \<le> ak_next a" using inv by (auto simp: acker_inv_def acker_win_def)
  have old0: "0 \<le> old" "old \<le> ak_maxseen a" using R old by auto
  have size: "0 < sk_size k" "sk_base_nblocks k = sk_size k" using k by (auto simp: sk_repr_def)
  define dsack where "dsack = (if ds \<and> ak_is_dup a then [(old, old + 1)] else [])"
  have d: "\<forall>b \<in> set dsack. block_ok R b" "length dsack \<le> 1" using old old0 by (auto simp: dsack_def block_ok_def)
  have dn: "ds \<and> ak_is_dup a \<longleftrightarrow> dsack \<noteq> []" by (simp add: dsack_def)
  consider (reset) "ak_Seqno a \<ge> ak_maxseen a" "sk_cnt k \<noteq> 0"
    | (none) "\<not> (ak_Seqno a \<ge> ak_maxseen a \<and> sk_cnt k \<noteq> 0)" "\<not> (ak_Seqno a < ak_maxseen a \<or> ak_is_dup a)"
    | (full) "\<not> (ak_Seqno a \<ge> ak_maxseen a \<and> sk_cnt k \<noteq> 0)" "ak_Seqno a < ak_maxseen a \<or> ak_is_dup a"
        "int (length dsack) \<ge> sk_size k"
    | (blocks) "\<not> (ak_Seqno a \<ge> ak_maxseen a \<and> sk_cnt k \<noteq> 0)" "ak_Seqno a < ak_maxseen a \<or> ak_is_dup a"
        "int (length dsack) < sk_size k"
    by linarith
  then show ?thesis
  proof cases
    case reset
    then have "sk_append_ack ds a old k = Ok ([], sk_stack_reset k)" "sk_size (sk_stack_reset k) = sk_size k"
      using old0 by (simp_all add: sk_append_ack_def sk_stack_reset_def Let_def)
    moreover note sk_reset_repr [OF k(1)]
    ultimately show ?thesis using reset old0 size by auto
  next
    case none
    then have "sk_append_ack ds a old k = Ok ([], k)" using old0 unfolding sk_append_ack_def Let_def by auto
    then show ?thesis using none old0 k size by auto
  next
    case full
    then have "sk_append_ack ds a old k = Ok (dsack, k)"
      using old0 size unfolding sk_append_ack_def Let_def dsack_def [symmetric] by auto
    moreover have "dsack \<noteq> []" using full(3) size by auto
    ultimately show ?thesis using full d k size dn by auto
  next
    case blocks
    define r where "r = sack_right_edge a old"
    define l where "l = (if old \<le> ak_Seqno a then 0 else sack_left_edge a r)"
    define bl where "bl = (if old \<le> ak_Seqno a then dsack else dsack @ [(l, r)])"
    have lr: "block_ok R (l, r) \<and> l \<le> old \<and> old < r \<and> l - 1 \<notin> R \<and> r \<notin> R" if o: "\<not> old \<le> ak_Seqno a"
    proof -
      have o': "ak_Seqno a < old" using o by simp
      note re = sack_right_edge_ok [OF pos inv o' old]
      have "ak_next a < r" "r \<le> ak_maxseen a + 1" using re o' by (auto simp: r_def)
      note le = sack_left_edge_ok [OF pos inv this]
      have "l \<le> old"
      proof (rule ccontr)
        assume "\<not> l \<le> old"
        then have "old \<le> l - 1" "l - 1 < r" using le o by (auto simp: l_def)
        then have "l - 1 \<in> R" using re by (auto simp: r_def)
        then show False using le o by (simp add: l_def)
      qed
      then show ?thesis using le re o R(2) by (auto simp: l_def r_def block_ok_def)
    qed
    have blen: "int (length bl) \<le> sk_size k" and bok: "\<forall>b \<in> set bl. block_ok R b"
      using blocks(3) d lr by (auto simp: bl_def)
    have "sk_repr k ([] @ es)" using k(1) by simp
    from sk_history_ok [OF this, of 0 bl "ak_maxseen a" l r] blen obtain bs k1 es' where
      h: "sk_history (ak_maxseen a) l r 0 bl k = Some (Ok (bl @ bs, k1))" "sk_repr k1 es'"
      "set bs \<subseteq> set es" "set es' \<subseteq> set es" "int (length (bl @ bs)) \<le> sk_size k" "sk_size k1 = sk_size k" by auto
    have app: "sk_append_ack ds a old k = Ok (bl @ bs, if old > ak_Seqno a then sk_put (l, r) k1 else k1)"
      using blocks old0 size h(1)
      unfolding sk_append_ack_def Let_def dsack_def [symmetric] r_def [symmetric] l_def [symmetric] bl_def [symmetric] by auto
    have all: "\<forall>b \<in> set (bl @ bs). block_ok R b" using bok h(3) k(2) by auto
    show ?thesis
    proof (cases "old \<le> ak_Seqno a")
      case True
      then show ?thesis using app all h k(2) by (intro exI [of _ "bl @ bs"] exI [of _ k1] exI [of _ es']) auto
    next
      case False
      note put = sk_put_repr [OF h(2), of "(l, r)"]
      have put': "\<forall>b \<in> set (take (nat (sk_size k1)) ((l, r) # es')). block_ok R b"
      proof -
        have "set (take (nat (sk_size k1)) ((l, r) # es')) \<subseteq> insert (l, r) (set es')"
          using set_take_subset [of "nat (sk_size k1)" "(l, r) # es'"] by simp
        then show ?thesis using lr [OF False] h(4) k(2) by blast
      qed
      have "sk_size (sk_put (l, r) k1) = sk_size k" using h(6) by (simp add: sk_put_def sk_push_def Let_def)
      moreover have "hd (bl @ bs) = (l, r)" "bl @ bs \<noteq> []" if "\<not> (ds \<and> ak_is_dup a)"
        using that dn False by (simp_all add: bl_def)
      ultimately show ?thesis using app all h(5) put put' lr [OF False] False
        by (intro exI [of _ "bl @ bs"] exI [of _ "sk_put (l, r) k1"] exI [of _ "take (nat (sk_size k1)) ((l, r) # es')"]) auto
    qed
  qed
qed

section \<open>The sink\<close>

definition sink_inv :: "(int \<Rightarrow> int) \<Rightarrow> int set \<Rightarrow> sink \<Rightarrow> bool" where
  "sink_inv sz R s \<longleftrightarrow> acker_inv sz R (tk_acker s) \<and>
     (case tk_sack s of None \<Rightarrow> True | Some k \<Rightarrow> \<exists>es. sk_repr k es \<and> (\<forall>b \<in> set es. block_ok R b))"

definition sink_blocks :: "sink \<Rightarrow> int" where
  "sink_blocks s = (case tk_sack s of None \<Rightarrow> 0 | Some k \<Rightarrow> sk_size k)"

lemma ak_update_ts_inv [simp]: "acker_inv sz R (ak_update_ts q t f a) = acker_inv sz R a"
  by (simp add: ak_update_ts_def acker_inv_def acker_win_def)

lemma ak_update_ts_frame [simp]:
  "ak_next (ak_update_ts q t f a) = ak_next a" "ak_maxseen (ak_update_ts q t f a) = ak_maxseen a"
  by (simp_all add: ak_update_ts_def)

lemma tk_accept_ok:
  assumes pos: "\<And>i. 0 < sz i" and inv: "sink_inv sz R s" and p: "0 \<le> sg_seqno p" "sg_size p = sz (sg_seqno p)"
  shows "\<exists>num s'. tk_accept p s = Ok (num, s') \<and> sink_inv sz (insert (sg_seqno p) R) s' \<and>
    num = (\<Sum>i \<in> {ak_next (tk_acker s)..<ak_next (tk_acker s')}. sz i) \<and>
    ak_next (tk_acker s) \<le> ak_next (tk_acker s') \<and> tk_bytes s' = tk_bytes s + num \<and>
    ak_is_dup (tk_acker s') = (sg_seqno p \<in> R) \<and> s' = s\<lparr>tk_acker := tk_acker s', tk_bytes := tk_bytes s'\<rparr>"
proof -
  let ?a = "ak_update_ts (sg_seqno p) (sg_ts p) (tk_ts_echo_rfc1323 s) (tk_acker s)"
  have a: "acker_inv sz R ?a" using inv by (simp add: sink_inv_def)
  from ak_update_ok [of sz, OF pos a p(1)] obtain num a' where
    u: "ak_update (sg_seqno p) (sz (sg_seqno p)) ?a = Ok (num, a')" "acker_inv sz (insert (sg_seqno p) R) a'"
    "num = (\<Sum>i \<in> {ak_next ?a..<ak_next a'}. sz i)" "ak_next ?a \<le> ak_next a'" "ak_is_dup a' = (sg_seqno p \<in> R)"
    by blast
  have "sink_inv sz (insert (sg_seqno p) R) (s\<lparr>tk_acker := a', tk_bytes := tk_bytes s + num\<rparr>)"
    using inv u(2) block_ok_mono [OF subset_insertI]
    by (cases "tk_sack s") (simp_all add: sink_inv_def, blast)
  then show ?thesis using u p(2) by (auto simp: tk_accept_def)
qed

definition first_block_maximal :: "int set \<Rightarrow> int \<Rightarrow> (int \<times> int) list \<Rightarrow> bool" where
  "first_block_maximal R q bs \<longleftrightarrow>
     bs \<noteq> [] \<and> fst (hd bs) \<le> q \<and> q < snd (hd bs) \<and> fst (hd bs) - 1 \<notin> R \<and> snd (hd bs) \<notin> R"

definition sack_correct :: "int set \<Rightarrow> int \<Rightarrow> int \<Rightarrow> bool \<Rightarrow> ack_packet \<Rightarrow> bool" where
  "sack_correct R n q dsack t \<longleftrightarrow> list_all (block_ok R) (ta_sack t) \<and> int (length (ta_sack t)) \<le> n \<and>
     (ta_seqno t < q \<and> \<not> dsack \<longrightarrow> first_block_maximal R q (ta_sack t))"

lemma tk_ack_ok:
  assumes pos: "\<And>i. 0 < sz i" and inv: "sink_inv sz R s" and p: "sg_seqno p \<in> R"
  shows "\<exists>t s'. tk_ack now np p s = Ok (t, s') \<and> sink_inv sz R s' \<and> ta_seqno t = ak_Seqno (tk_acker s) \<and>
    ak_next (tk_acker s') = ak_next (tk_acker s) \<and> sink_blocks s' = sink_blocks s \<and>
    tk_save s' = tk_save s \<and> tk_lastreset s' = tk_lastreset s \<and> tk_bytes s' = tk_bytes s \<and>
    tk_RFC2581_immediate_ack s' = tk_RFC2581_immediate_ack s \<and> tk_SYN_immediate_ack s' = tk_SYN_immediate_ack s \<and>
    tk_generate_dsacks s' = tk_generate_dsacks s \<and> (tk_sack s' = None \<longleftrightarrow> tk_sack s = None) \<and>
    (tk_sack s \<noteq> None \<longrightarrow>
       sack_correct R (sink_blocks s) (sg_seqno p) (tk_generate_dsacks s \<and> ak_is_dup (tk_acker s)) t)"
proof -
  define u where "u = ecn_unacked_after (tk_save s) p (ak_ecn_unacked (tk_acker s))"
  define a where "a = (tk_acker s)\<lparr>ak_ecn_unacked := u\<rparr>"
  define t2 where "t2 = ack_ecn s p u ((ack_quickstart s p np)\<lparr>ta_seqno := ak_Seqno (tk_acker s), ta_ts := now,
     ta_ts_echo := if tk_ts_echo_bugfix s then ak_ts_to_echo (tk_acker s) else sg_ts p, ta_flowid := sg_flowid p\<rparr>)"
  have t2: "ta_seqno t2 = ak_Seqno (tk_acker s)" by (simp add: t2_def ack_ecn_def Let_def)
  have a: "acker_inv sz R a" "acker_inv sz R (a\<lparr>ak_last_ack_sent := n\<rparr>)" "ak_next a = ak_next (tk_acker s)"
    "ak_is_dup a = ak_is_dup (tk_acker s)" for n
    using inv by (simp_all add: sink_inv_def a_def acker_inv_def acker_win_def)
  show ?thesis
  proof (cases "tk_sack s")
    case None
    then have "tk_ack now np p s = Ok (t2, s\<lparr>tk_acker := a\<lparr>ak_last_ack_sent := ta_seqno t2\<rparr>, tk_sack := None\<rparr>)"
      by (simp add: tk_ack_def Let_def t2_def u_def a_def)
    then show ?thesis using None t2 a by (simp add: sink_inv_def sink_blocks_def)
  next
    case (Some k)
    obtain es where es: "sk_repr k es" "\<forall>b \<in> set es. block_ok R b" using inv Some by (auto simp: sink_inv_def)
    from sk_append_ack_ok [of sz, OF pos a(1) p es, of "tk_generate_dsacks s"] obtain bs k' es' where
      k: "sk_append_ack (tk_generate_dsacks s) a (sg_seqno p) k = Ok (bs, k')" "sk_repr k' es'" "\<forall>b \<in> set es'. block_ok R b"
      "\<forall>b \<in> set bs. block_ok R b" "int (length bs) \<le> sk_size k" "sk_size k' = sk_size k"
      "ak_Seqno a < sg_seqno p \<and> \<not> (tk_generate_dsacks s \<and> ak_is_dup a) \<longrightarrow> first_block_maximal R (sg_seqno p) bs"
      by (auto simp: first_block_maximal_def)
    define t where "t = t2\<lparr>ta_sack := bs, ta_size := ta_size t2 + int (length bs) * 8\<rparr>"
    have "tk_ack now np p s = Ok (t, s\<lparr>tk_acker := a\<lparr>ak_last_ack_sent := ta_seqno t\<rparr>, tk_sack := Some k'\<rparr>)"
      using Some k(1) by (simp add: tk_ack_def Let_def t2_def u_def a_def t_def)
    moreover have "sink_inv sz R (s\<lparr>tk_acker := a\<lparr>ak_last_ack_sent := ta_seqno t\<rparr>, tk_sack := Some k'\<rparr>)"
      using a(2) k(2,3) by (auto simp: sink_inv_def)
    ultimately show ?thesis using Some t2 a k by (simp add: t_def sink_blocks_def sack_correct_def list_all_iff)
  qed
qed

text \<open>An arrival: its time, the packet to fill in for the acknowledgement, the segment. \<open>seqs\<close> is the
  set of the segment numbers in a list of arrivals.\<close>

type_synonym arrival = "real \<times> ack_packet \<times> segment"

fun tk_run :: "arrival list \<Rightarrow> sink \<Rightarrow> ((ack_packet option \<times> int) list \<times> sink) res" where
  "tk_run [] s = Ok ([], s)"
| "tk_run ((now, np, p) # xs) s =
     res_bind (tk_recv now np p s) (\<lambda>(t, num, s1). res_bind (tk_run xs s1) (\<lambda>(ts, s2). Ok ((t, num) # ts, s2)))"

definition seqs :: "arrival list \<Rightarrow> int set" where
  "seqs xs = (\<lambda>(_, _, p). sg_seqno p) ` set xs"

definition arrivals_ok :: "(int \<Rightarrow> int) \<Rightarrow> real \<Rightarrow> arrival list \<Rightarrow> bool" where
  "arrivals_ok sz start xs \<longleftrightarrow> list_all (\<lambda>(_, _, p). 0 \<le> sg_seqno p \<and> sg_size p = sz (sg_seqno p) \<and> start \<le> sg_ts p) xs"

text \<open>What holds of the acknowledgement of the last of the segments \<open>R\<close>, and of the bytes delivered so far.\<close>

definition ack_correct :: "(int \<Rightarrow> int) \<Rightarrow> int set \<Rightarrow> int \<Rightarrow> ack_packet \<Rightarrow> bool" where
  "ack_correct sz R bytes t \<longleftrightarrow> -1 \<le> ta_seqno t \<and> {0..ta_seqno t} \<subseteq> R \<and> ta_seqno t + 1 \<notin> R \<and> bytes = (\<Sum>i \<in> {0..ta_seqno t}. sz i)"

lemma tk_recv_ok:
  assumes pos: "\<And>i. 0 < sz i" and inv: "sink_inv sz R s" and p: "0 \<le> sg_seqno p" "sg_size p = sz (sg_seqno p)"
    "tk_lastreset s \<le> sg_ts p"
    and bytes: "bytes = (\<Sum>i \<in> {0..<ak_next (tk_acker s)}. sz i)"
  shows "\<exists>t num s'. tk_recv now np p s = Ok (Some t, num, s') \<and> sink_inv sz (insert (sg_seqno p) R) s' \<and>
    tk_lastreset s' = tk_lastreset s \<and> sink_blocks s' = sink_blocks s \<and> tk_generate_dsacks s' = tk_generate_dsacks s \<and>
    (tk_sack s' = None \<longleftrightarrow> tk_sack s = None) \<and>
    bytes + num = (\<Sum>i \<in> {0..<ak_next (tk_acker s')}. sz i) \<and>
    ack_correct sz (insert (sg_seqno p) R) (bytes + num) t \<and>
    (tk_sack s \<noteq> None \<longrightarrow> sack_correct (insert (sg_seqno p) R) (sink_blocks s) (sg_seqno p)
       (tk_generate_dsacks s \<and> sg_seqno p \<in> R) t)"
proof -
  let ?R = "insert (sg_seqno p) R"
  from tk_accept_ok [of sz, OF pos inv p(1,2)] obtain num s1 where
    s1: "tk_accept p s = Ok (num, s1)" "sink_inv sz ?R s1"
      "num = (\<Sum>i \<in> {ak_next (tk_acker s)..<ak_next (tk_acker s1)}. sz i)"
      "ak_next (tk_acker s) \<le> ak_next (tk_acker s1)" "ak_is_dup (tk_acker s1) = (sg_seqno p \<in> R)"
      "s1 = s\<lparr>tk_acker := tk_acker s1, tk_bytes := tk_bytes s1\<rparr>" by blast
  have frame: "tk_lastreset s1 = tk_lastreset s" "sink_blocks s1 = sink_blocks s" "tk_generate_dsacks s1 = tk_generate_dsacks s"
    "tk_sack s1 = tk_sack s"
    by (subst s1(6); simp add: sink_blocks_def)+
  from tk_ack_ok [of sz, OF pos s1(2) insertI1, of now np] obtain t s2 where
    s2: "tk_ack now np p s1 = Ok (t, s2)" "sink_inv sz ?R s2" "ta_seqno t = ak_Seqno (tk_acker s1)"
      "ak_next (tk_acker s2) = ak_next (tk_acker s1)" "sink_blocks s2 = sink_blocks s1" "tk_lastreset s2 = tk_lastreset s1"
      "tk_generate_dsacks s2 = tk_generate_dsacks s1" "tk_sack s2 = None \<longleftrightarrow> tk_sack s1 = None"
      "tk_sack s1 \<noteq> None \<longrightarrow>
        sack_correct ?R (sink_blocks s1) (sg_seqno p) (tk_generate_dsacks s1 \<and> ak_is_dup (tk_acker s1)) t"
    by (elim exE conjE) (rule that; assumption)
  have n: "0 \<le> ak_next (tk_acker s)" "{0..<ak_next (tk_acker s1)} \<subseteq> ?R" "ak_next (tk_acker s1) \<notin> ?R"
    using inv s1(2) by (simp_all add: sink_inv_def acker_inv_def acker_win_def)
  have "{0..<ak_next (tk_acker s1)} = {0..<ak_next (tk_acker s)} \<union> {ak_next (tk_acker s)..<ak_next (tk_acker s1)}"
    using n(1) s1(4) by auto
  then have b: "bytes + num = (\<Sum>i \<in> {0..<ak_next (tk_acker s1)}. sz i)"
    unfolding bytes s1(3) by (simp add: sum.union_disjoint)
  have "{0..ta_seqno t} = {0..<ak_next (tk_acker s1)}" using s2(3) by auto
  then have "ack_correct sz ?R (bytes + num) t" using n s1(4) s2(3) b by (simp add: ack_correct_def)
  moreover have "tk_recv now np p s = Ok (Some t, num, s2)" using p(3) s1(1) s2(1) by (simp add: tk_recv_def)
  ultimately show ?thesis using s2 s1(5) frame b by simp
qed

lemma tk_run_ok:
  assumes pos: "\<And>i. 0 < sz i"
  shows "sink_inv sz R s \<Longrightarrow> arrivals_ok sz (tk_lastreset s) xs \<Longrightarrow> bytes = (\<Sum>i \<in> {0..<ak_next (tk_acker s)}. sz i) \<Longrightarrow>
    \<exists>out s'. tk_run xs s = Ok (out, s') \<and> length out = length xs \<and>
      (\<forall>i < length xs. \<exists>t. fst (out ! i) = Some t \<and>
         ack_correct sz (R \<union> seqs (take (Suc i) xs)) (bytes + sum_list (map snd (take (Suc i) out))) t \<and>
         (tk_sack s \<noteq> None \<longrightarrow> sack_correct (R \<union> seqs (take (Suc i) xs)) (sink_blocks s) (sg_seqno (snd (snd (xs ! i))))
           (tk_generate_dsacks s \<and> sg_seqno (snd (snd (xs ! i))) \<in> R \<union> seqs (take i xs)) t))"
proof (induction xs arbitrary: R s bytes)
  case (Cons x xs)
  obtain now np p where x: "x = (now, np, p)" by (cases x) auto
  have p: "0 \<le> sg_seqno p" "sg_size p = sz (sg_seqno p)" "tk_lastreset s \<le> sg_ts p"
    using Cons.prems(2) x by (simp_all add: arrivals_ok_def)
  from tk_recv_ok [of sz, OF pos Cons.prems(1) p Cons.prems(3), of now np] obtain t num s1 where
    r: "tk_recv now np p s = Ok (Some t, num, s1)" "sink_inv sz (insert (sg_seqno p) R) s1"
      "tk_lastreset s1 = tk_lastreset s" "sink_blocks s1 = sink_blocks s" "tk_generate_dsacks s1 = tk_generate_dsacks s"
      "tk_sack s1 = None \<longleftrightarrow> tk_sack s = None" "bytes + num = (\<Sum>i \<in> {0..<ak_next (tk_acker s1)}. sz i)"
      "ack_correct sz (insert (sg_seqno p) R) (bytes + num) t"
      "tk_sack s \<noteq> None \<longrightarrow> sack_correct (insert (sg_seqno p) R) (sink_blocks s) (sg_seqno p)
         (tk_generate_dsacks s \<and> sg_seqno p \<in> R) t"
    by (elim exE conjE) (rule that; assumption)
  have ok: "arrivals_ok sz (tk_lastreset s1) xs" using Cons.prems(2) r(3) by (simp add: arrivals_ok_def)
  from Cons.IH [OF r(2) ok r(7)] obtain out s' where
    run: "tk_run xs s1 = Ok (out, s')" "length out = length xs"
    "\<And>i. i < length xs \<Longrightarrow> \<exists>t. fst (out ! i) = Some t \<and>
       ack_correct sz (insert (sg_seqno p) R \<union> seqs (take (Suc i) xs)) (bytes + num + sum_list (map snd (take (Suc i) out))) t \<and>
       (tk_sack s1 \<noteq> None \<longrightarrow> sack_correct (insert (sg_seqno p) R \<union> seqs (take (Suc i) xs)) (sink_blocks s1) (sg_seqno (snd (snd (xs ! i))))
         (tk_generate_dsacks s1 \<and> sg_seqno (snd (snd (xs ! i))) \<in> insert (sg_seqno p) R \<union> seqs (take i xs)) t)"
    by blast
  have sq: "R \<union> seqs (x # ys) = insert (sg_seqno p) R \<union> seqs ys" "seqs [] = {}" for ys by (auto simp: seqs_def x)
  have "tk_run (x # xs) s = Ok ((Some t, num) # out, s')" using r(1) run(1) by (simp add: x)
  moreover have "\<exists>t'. fst (((Some t, num) # out) ! i) = Some t' \<and>
       ack_correct sz (R \<union> seqs (take (Suc i) (x # xs))) (bytes + sum_list (map snd (take (Suc i) ((Some t, num) # out)))) t' \<and>
       (tk_sack s \<noteq> None \<longrightarrow> sack_correct (R \<union> seqs (take (Suc i) (x # xs))) (sink_blocks s) (sg_seqno (snd (snd ((x # xs) ! i))))
         (tk_generate_dsacks s \<and> sg_seqno (snd (snd ((x # xs) ! i))) \<in> R \<union> seqs (take i (x # xs))) t')"
    if i: "i < length (x # xs)" for i
  proof (cases i)
    case 0
    then show ?thesis using r(8,9) sq(1) [of "[]"] by (simp add: x sq(2))
  next
    case (Suc j)
    have "R \<union> seqs (take (Suc i) (x # xs)) = insert (sg_seqno p) R \<union> seqs (take (Suc j) xs)"
      "R \<union> seqs (take i (x # xs)) = insert (sg_seqno p) R \<union> seqs (take j xs)"
      using Suc sq(1) by simp_all
    moreover have "bytes + sum_list (map snd (take (Suc i) ((Some t, num) # out))) = bytes + num + sum_list (map snd (take (Suc j) out))"
      using Suc by simp
    ultimately show ?thesis using run(3) [of j] Suc i r(4-6) by (simp add: add.assoc)
  qed
  ultimately show ?case using run(2) by (intro exI [of _ "(Some t, num) # out"] exI [of _ s']) simp
qed simp

section \<open>Properties\<close>

text \<open>
  C23: whatever the order in which segments arrive, repeated or not, the sink answers each of them,
  none of its loops runs forever, the acknowledged number is the last before the first
  segment missing, and the bytes delivered so far are those of the segments up to it.
\<close>

theorem tcp_sink_acknowledges:
  assumes "\<And>i. 0 < sz i" "tk_acker s = ak_new junk" "tk_sack s = None" "arrivals_ok sz (tk_lastreset s) xs"
  shows "\<exists>out s'. tk_run xs s = Ok (out, s') \<and> length out = length xs \<and>
    (\<forall>i. i < length xs \<longrightarrow> (\<exists>t. fst (out ! i) = Some t \<and>
       ack_correct sz (seqs (take (Suc i) xs)) (sum_list (map snd (take (Suc i) out))) t))"
proof -
  have "sink_inv sz {} s" using assms(2,3) ak_new_inv [of sz junk] by (simp add: sink_inv_def)
  moreover have "0 = (\<Sum>i \<in> {0..<ak_next (tk_acker s)}. sz i)" using assms(2) by (simp add: ak_new_def)
  ultimately obtain out s' where "tk_run xs s = Ok (out, s')" "length out = length xs"
    "\<forall>i < length xs. \<exists>t. fst (out ! i) = Some t \<and>
       ack_correct sz ({} \<union> seqs (take (Suc i) xs)) (0 + sum_list (map snd (take (Suc i) out))) t"
    using tk_run_ok [of sz, OF assms(1) _ assms(4), of "{}" 0] by blast
  then show ?thesis by auto
qed

definition demo_segment :: "int \<Rightarrow> segment" where
  "demo_segment n = \<lparr>sg_seqno = n, sg_size = 1000, sg_ts = 0, sg_flowid = 1, sg_ect = False, sg_ce = False,
     sg_cong_action = False, sg_ecnecho = False, sg_ttl = 32, sg_qs_flag = QS_DISABLE, sg_qs_ttl = 0, sg_qs_rate = 0\<rparr>"

definition demo_npkt :: ack_packet where
  "demo_npkt = \<lparr>ta_seqno = 0, ta_size = 40, ta_ts = 0, ta_ts_echo = 0, ta_flowid = 0, ta_ect = False,
     ta_ecnecho = False, ta_sack = [], ta_qs_flag = QS_DISABLE, ta_qs_ttl = 0, ta_qs_rate = 0\<rparr>"

definition demo_sink :: "sacker option \<Rightarrow> sink" where
  "demo_sink k = \<lparr>tk_acker = ak_new False, tk_sack = k, tk_ts_echo_bugfix = False, tk_ts_echo_rfc1323 = False,
     tk_max_sack_blocks = 3, tk_save = None, tk_generate_dsacks = False, tk_qs_enabled = False,
     tk_RFC2581_immediate_ack = False, tk_SYN_immediate_ack = False, tk_bytes = 0, tk_lastreset = 0, tk_ecn_syn = False\<rparr>"

definition demo_arrivals :: "arrival list" where
  "demo_arrivals = map (\<lambda>n. (1, demo_npkt, demo_segment n)) [0, 2, 1]"

lemma demo_arrivals_ok: "arrivals_ok (\<lambda>_. 1000) 0 demo_arrivals"
  by (simp add: arrivals_ok_def demo_arrivals_def demo_segment_def)

theorem tcp_sink_acknowledges_witness:
  "\<exists>out s' t. tk_run demo_arrivals (demo_sink None) = Ok (out, s') \<and> fst (out ! 2) = Some t \<and>
     ta_seqno t = 2 \<and> sum_list (map snd (take 3 out)) = 3000"
proof -
  have "arrivals_ok (\<lambda>_. 1000) (tk_lastreset (demo_sink None)) demo_arrivals"
    using demo_arrivals_ok by (simp add: demo_sink_def)
  from tcp_sink_acknowledges [OF _ _ _ this, of False] obtain out s' where
    run: "tk_run demo_arrivals (demo_sink None) = Ok (out, s')"
    "\<exists>t. fst (out ! 2) = Some t \<and>
       ack_correct (\<lambda>_. 1000) (seqs (take 3 demo_arrivals)) (sum_list (map snd (take 3 out))) t"
    by (force simp: demo_sink_def demo_arrivals_def eval_nat_numeral)
  then obtain t where t: "fst (out ! 2) = Some t"
    "ack_correct (\<lambda>_. 1000) {0, 2, 1} (sum_list (map snd (take 3 out))) t"
    by (auto simp: seqs_def demo_arrivals_def demo_segment_def)
  then have c: "-1 \<le> ta_seqno t" "{0..ta_seqno t} \<subseteq> {0, 2, 1}" "ta_seqno t + 1 \<notin> {0, 2, 1}"
    "sum_list (map snd (take 3 out)) = (\<Sum>i \<in> {0..ta_seqno t}. 1000)" by (auto simp: ack_correct_def)
  have "ta_seqno t \<le> 2" using c(2) by (cases "ta_seqno t \<le> 2") (auto dest: subsetD [of _ _ 3])
  then have "ta_seqno t = 2" using c(1,3) by auto
  with c(4) run(1) t(1) show ?thesis by auto
qed

text \<open>
  C24: a sink with selective acknowledgements reports at most as many blocks as configured and as fit
  the header; every segment in a block has been received, so the sender never
  discards a lost one; and unless a duplicate is reported, the first block is the whole run
  of segments around the one just received.
\<close>

theorem tcp_sack_blocks:
  assumes "\<And>i. 0 < sz i" "tk_acker s = ak_new junk" "tk_sack s = Some (snd (sk_configure n k))" "0 < n"
    "arrivals_ok sz (tk_lastreset s) xs"
  shows "\<exists>out s'. tk_run xs s = Ok (out, s') \<and> length out = length xs \<and>
    (\<forall>i. i < length xs \<longrightarrow> (\<exists>t. fst (out ! i) = Some t \<and>
       sack_correct (seqs (take (Suc i) xs)) (min n NSA) (sg_seqno (snd (snd (xs ! i))))
         (tk_generate_dsacks s \<and> sg_seqno (snd (snd (xs ! i))) \<in> seqs (take i xs)) t))"
proof -
  have m: "sk_configure n k = (min n NSA, (sk_stack (min n NSA) k)\<lparr>sk_base_nblocks := min n NSA\<rparr>)"
    by (simp add: sk_configure_def Let_def min_def)
  have "sk_repr (snd (sk_configure n k)) []" using assms(4) by (simp add: m sk_stack_repr NSA_def)
  then have "sink_inv sz {} s" using assms(2,3) ak_new_inv [of sz junk] by (auto simp: sink_inv_def)
  moreover have "0 = (\<Sum>i \<in> {0..<ak_next (tk_acker s)}. sz i)" using assms(2) by (simp add: ak_new_def)
  moreover have "tk_sack s \<noteq> None" "sink_blocks s = min n NSA" using assms(3) by (simp_all add: sink_blocks_def m sk_stack_def)
  ultimately obtain out s' where "tk_run xs s = Ok (out, s')" "length out = length xs"
    "\<forall>i < length xs. \<exists>t. fst (out ! i) = Some t \<and>
       sack_correct ({} \<union> seqs (take (Suc i) xs)) (min n NSA) (sg_seqno (snd (snd (xs ! i))))
         (tk_generate_dsacks s \<and> sg_seqno (snd (snd (xs ! i))) \<in> {} \<union> seqs (take i xs)) t"
    using tk_run_ok [of sz, OF assms(1) _ assms(5), of "{}" 0] by fastforce
  then show ?thesis by auto
qed

theorem tcp_sack_blocks_witness:
  "\<exists>out s' t. tk_run demo_arrivals (demo_sink (Some (snd (sk_configure 3 \<lparr>sk_size = 0, sk_cnt = 0, sk_sfe = [],
       sk_base_nblocks = -1\<rparr>)))) = Ok (out, s') \<and> fst (out ! 1) = Some t \<and>
     list_all (block_ok {0, 2}) (ta_sack t)"
proof -
  let ?k = "\<lparr>sk_size = 0, sk_cnt = 0, sk_sfe = [], sk_base_nblocks = -1\<rparr>"
  let ?s = "demo_sink (Some (snd (sk_configure 3 ?k)))"
  have ok: "arrivals_ok (\<lambda>_. 1000) (tk_lastreset ?s) demo_arrivals"
    using demo_arrivals_ok by (simp add: demo_sink_def)
  have "\<exists>out s'. tk_run demo_arrivals ?s = Ok (out, s') \<and> length out = length demo_arrivals \<and>
    (\<forall>i. i < length demo_arrivals \<longrightarrow> (\<exists>t. fst (out ! i) = Some t \<and>
       sack_correct (seqs (take (Suc i) demo_arrivals)) (min 3 NSA) (sg_seqno (snd (snd (demo_arrivals ! i))))
         (tk_generate_dsacks ?s \<and> sg_seqno (snd (snd (demo_arrivals ! i))) \<in> seqs (take i demo_arrivals)) t))"
    by (rule tcp_sack_blocks [OF _ _ _ _ ok, of False]) (simp_all add: demo_sink_def)
  then obtain out s' where run: "tk_run demo_arrivals ?s = Ok (out, s')"
    "\<And>i. i < length demo_arrivals \<Longrightarrow> \<exists>t. fst (out ! i) = Some t \<and>
       sack_correct (seqs (take (Suc i) demo_arrivals)) (min 3 NSA) (sg_seqno (snd (snd (demo_arrivals ! i))))
         (tk_generate_dsacks ?s \<and> sg_seqno (snd (snd (demo_arrivals ! i))) \<in> seqs (take i demo_arrivals)) t"
    by (elim exE conjE) (rule that; blast)
  have "1 < length demo_arrivals" by (simp add: demo_arrivals_def)
  from run(2) [OF this] obtain t where t: "fst (out ! 1) = Some t" "list_all (block_ok (seqs (take (Suc 1) demo_arrivals))) (ta_sack t)"
    unfolding sack_correct_def by blast
  have "seqs (take (Suc 1) demo_arrivals) = {0, 2}" by (auto simp: seqs_def demo_arrivals_def demo_segment_def)
  with run(1) t show ?thesis by metis
qed

end
