(* ===== verification/Delayed_Ack.thy ===== *)
theory Delayed_Ack
  imports Tcp_Sink_Correct Timer Heap_Scheduler
begin

text \<open>
  Class \<open>DelAckSink\<close> of \<open>tcp/tcp-sink.cc\<close>, the TCP sink that delays the acknowledgement
  of a segment in sequence until the next one or until its timer expires. The state is the sink, and
  the timer with the scheduler; the timer's \<open>expire\<close> calls \<open>timeout\<close>, which only changes the
  sink.
\<close>

type_synonym 'q delack = "sink \<times> timer \<times> 'q sched"

definition da_reset :: "(event \<Rightarrow> 'q \<Rightarrow> 'q) \<Rightarrow> real \<Rightarrow> 'q delack \<Rightarrow> 'q delack res" where
  "da_reset can now d =
     (case d of (s, ts) \<Rightarrow>
        res_bind (if tm_status (fst ts) = TIMER_PENDING then timer_cancel can ts else Ok ts)
          (\<lambda>ts'. Ok (tk_reset now s, ts')))"

text \<open>Whether a segment in sequence is answered at once all the same.\<close>

definition da_immediate :: "segment \<Rightarrow> sink \<Rightarrow> bool" where
  "da_immediate p s \<longleftrightarrow> tk_RFC2581_immediate_ack s \<and> sg_seqno p < ak_maxseen (tk_acker s) \<or>
     tk_SYN_immediate_ack s \<and> sg_seqno p = 0"

definition da_recv ::
  "(event \<Rightarrow> 'q \<Rightarrow> 'q) \<Rightarrow> (event \<Rightarrow> 'q \<Rightarrow> 'q) \<Rightarrow> real \<Rightarrow> ack_packet \<Rightarrow> segment \<Rightarrow> 'q delack \<Rightarrow>
   (ack_packet option \<times> int \<times> 'q delack) res" where
  "da_recv ins can interval npkt p d =
     (case d of (s, ts) \<Rightarrow>
        if sg_ts p < tk_lastreset s then Ok (None, 0, d)
        else res_bind (tk_accept p s) (\<lambda>(num, s1).
          if tm_status (fst ts) \<noteq> TIMER_PENDING \<and> sg_seqno p = ak_Seqno (tk_acker s1) \<and> \<not> da_immediate p s1
          then res_bind (timer_resched ins can interval ts) (\<lambda>ts'. Ok (None, num, s1\<lparr>tk_save := Some p\<rparr>, ts'))
          else res_bind (if tm_status (fst ts) = TIMER_PENDING then timer_cancel can ts else Ok ts) (\<lambda>ts'.
            res_bind (tk_ack (sc_clock (snd ts')) npkt p s1) (\<lambda>(t, s2). Ok (Some t, num, s2\<lparr>tk_save := None\<rparr>, ts')))))"

definition da_timeout :: "real \<Rightarrow> ack_packet \<Rightarrow> sink \<Rightarrow> (ack_packet option \<times> sink) res" where
  "da_timeout now npkt s =
     (case tk_save s of
        None \<Rightarrow> Ok (None, s)
      | Some p \<Rightarrow> res_bind (tk_ack now npkt p s) (\<lambda>(t, s'). Ok (Some t, s'\<lparr>tk_save := None\<rparr>)))"

definition da_handle :: "ack_packet \<Rightarrow> event \<Rightarrow> 'q delack \<Rightarrow> (ack_packet option \<times> 'q delack) res" where
  "da_handle npkt e d =
     (case d of (s, ts) \<Rightarrow>
        res_bind (timer_handle (\<lambda>_ ts'. Ok ts') e ts) (\<lambda>ts'.
          res_bind (da_timeout (sc_clock (snd ts')) npkt s) (\<lambda>(t, s'). Ok (t, s', ts'))))"

section \<open>Every segment is answered\<close>

text \<open>A segment waits for its acknowledgement exactly while the timer is pending.\<close>

definition da_inv ::
  "('q \<Rightarrow> event list \<Rightarrow> bool) \<Rightarrow> (int \<Rightarrow> int) \<Rightarrow> int set \<Rightarrow> 'q delack \<Rightarrow> event list \<Rightarrow> bool" where
  "da_inv repr sz R d xs \<longleftrightarrow> (case d of (s, tm, c) \<Rightarrow>
     sink_inv sz R s \<and> timer_inv repr tm c xs \<and> tm_status tm \<noteq> TIMER_HANDLING \<and>
     (tk_save s \<noteq> None \<longleftrightarrow> tm_status tm = TIMER_PENDING) \<and> (\<forall>p. tk_save s = Some p \<longrightarrow> sg_seqno p \<in> R))"

lemma sink_inv_save [simp]: "sink_inv sz R (s\<lparr>tk_save := x\<rparr>) = sink_inv sz R s"
  by (simp add: sink_inv_def)

context event_queue
begin

lemma da_recv_ok:
  assumes pos: "\<And>i. 0 < sz i" and inv: "da_inv repr sz R (s, tm, c) xs"
    and p: "0 \<le> sg_seqno p" "sg_size p = sz (sg_seqno p)" "tk_lastreset s \<le> sg_ts p"
    and room: "room (sc_queue c) (Suc n)" and uid: "sc_next_uid c < 2 ^ 63 - 1"
    and adm: "adm (timer_armed tm c interval)"
  shows "\<exists>t num s' tm' c' ys. da_recv ins can interval np p (s, tm, c) = Ok (t, num, s', tm', c') \<and>
    da_inv repr sz (insert (sg_seqno p) R) (s', tm', c') ys \<and>
    (case t of
       Some a \<Rightarrow> tk_save s' = None \<and> ta_seqno a = ak_Seqno (tk_acker s')
     | None \<Rightarrow> tk_save s = None \<and> tk_save s' = Some p \<and> sg_seqno p = ak_Seqno (tk_acker s') \<and>
         timer_armed tm c interval \<in> set ys)"
proof -
  let ?R = "insert (sg_seqno p) R"
  have i: "sink_inv sz R s" "timer_inv repr tm c xs" "tm_status tm \<noteq> TIMER_HANDLING"
    "tk_save s \<noteq> None \<longleftrightarrow> tm_status tm = TIMER_PENDING" using inv by (auto simp: da_inv_def)
  from tk_accept_ok [of sz, OF pos i(1) p(1,2)] obtain num s1 where
    s1: "tk_accept p s = Ok (num, s1)" "sink_inv sz ?R s1" "s1 = s\<lparr>tk_acker := tk_acker s1, tk_bytes := tk_bytes s1\<rparr>"
    by blast
  let ?delay = "tm_status tm \<noteq> TIMER_PENDING \<and> sg_seqno p = ak_Seqno (tk_acker s1) \<and> \<not> da_immediate p s1"
  show ?thesis
  proof (cases ?delay)
    case True
    from timer_resched_pending [OF i(2) room uid adm] obtain tm' c' where
      r: "timer_resched ins can interval (tm, c) = Ok (tm', c')" "tm_status tm' = TIMER_PENDING"
      "tm_event tm' = timer_armed tm c interval" "timer_inv repr tm' c' (remove1 (tm_event tm) xs @ [tm_event tm'])" by blast
    have "da_recv ins can interval np p (s, tm, c) = Ok (None, num, s1\<lparr>tk_save := Some p\<rparr>, tm', c')"
      using True p(3) s1(1) r(1) by (simp add: da_recv_def)
    moreover have "da_inv repr sz ?R (s1\<lparr>tk_save := Some p\<rparr>, tm', c') (remove1 (tm_event tm) xs @ [tm_event tm'])"
      using s1(2) r by (simp add: da_inv_def)
    moreover have "tk_save s = None" using i(4) True by blast
    ultimately show ?thesis using True r(3) by fastforce
  next
    case False
    have "\<exists>tm' c' ys. (if tm_status tm = TIMER_PENDING then timer_cancel can (tm, c) else Ok (tm, c)) = Ok (tm', c') \<and>
        tm_status tm' = TIMER_IDLE \<and> timer_inv repr tm' c' ys"
    proof (cases "tm_status tm = TIMER_PENDING")
      case True
      from timer_cancel_idle [OF i(2) True room] True show ?thesis by auto
    next
      case idle: False
      then have "tm_status tm = TIMER_IDLE" using i(3) by (cases "tm_status tm") auto
      with i(2) idle show ?thesis by auto
    qed
    then obtain tm' c' ys where
      t: "(if tm_status tm = TIMER_PENDING then timer_cancel can (tm, c) else Ok (tm, c)) = Ok (tm', c')"
      "tm_status tm' = TIMER_IDLE" "timer_inv repr tm' c' ys" by blast
    from tk_ack_ok [of sz, OF pos s1(2) insertI1, of "sc_clock c'" np] obtain a s2 where
      a: "tk_ack (sc_clock c') np p s1 = Ok (a, s2)" "sink_inv sz ?R s2" "ta_seqno a = ak_Seqno (tk_acker s1)"
      "ak_next (tk_acker s2) = ak_next (tk_acker s1)" by (elim exE conjE) (rule that; assumption)
    have "da_recv ins can interval np p (s, tm, c) = Ok (Some a, num, s2\<lparr>tk_save := None\<rparr>, tm', c')"
      using False p(3) s1(1) t(1) a(1) by (auto simp: da_recv_def split: if_splits)
    moreover have "da_inv repr sz ?R (s2\<lparr>tk_save := None\<rparr>, tm', c') ys"
      using a(2) t(2,3) by (simp add: da_inv_def)
    ultimately show ?thesis using a(3,4) by fastforce
  qed
qed

text \<open>The expiry of the timer, dispatched by the scheduler.\<close>

lemma da_handle_ok:
  assumes pos: "\<And>i. 0 < sz i" and inv: "da_inv repr sz R (s, tm, c) xs"
    and pending: "tk_save s \<noteq> None" and first: "tm_event tm = earliest xs"
  shows "\<exists>a s' tm' c'. da_handle np (ev_negate_uid (tm_event tm))
      (s, tm, c\<lparr>sc_queue := snd (deq (sc_queue c)), sc_clock := ev_time (tm_event tm)\<rparr>) = Ok (Some a, s', tm', c') \<and>
    da_inv repr sz R (s', tm', c') (remove1 (tm_event tm) xs) \<and> tk_save s' = None \<and>
    ta_seqno a = ak_Seqno (tk_acker s) \<and> ak_next (tk_acker s') = ak_next (tk_acker s)"
proof -
  let ?c = "c\<lparr>sc_queue := snd (deq (sc_queue c)), sc_clock := ev_time (tm_event tm)\<rparr>"
  let ?e = "ev_negate_uid (tm_event tm)"
  obtain p where p: "tk_save s = Some p" using pending by auto
  have i: "sink_inv sz R s" "timer_inv repr tm c xs" "tm_status tm = TIMER_PENDING" "sg_seqno p \<in> R"
    using inv p by (auto simp: da_inv_def)
  from timer_dispatch_inv [OF i(2,3) first, of "ev_time (tm_event tm)"]
  have "timer_inv repr (tm\<lparr>tm_status := TIMER_IDLE, tm_event := ?e\<rparr>) ?c (remove1 (tm_event tm) xs)"
    by (simp add: timer_inv_def)
  moreover have "timer_handle (\<lambda>_ ts'. Ok ts') ?e (tm, ?c) = Ok (tm\<lparr>tm_status := TIMER_IDLE, tm_event := ?e\<rparr>, ?c)"
    using i(3) by (simp add: timer_handle_def timer_set_status_def)
  moreover from tk_ack_ok [of sz, OF pos i(1,4), of "sc_clock ?c" np] obtain a s2 where
    "tk_ack (sc_clock ?c) np p s = Ok (a, s2)" "sink_inv sz R s2" "ta_seqno a = ak_Seqno (tk_acker s)"
    "ak_next (tk_acker s2) = ak_next (tk_acker s)" by (elim exE conjE) (rule that; assumption)
  ultimately show ?thesis using p by (simp add: da_handle_def da_timeout_def da_inv_def)
qed

end

section \<open>Properties\<close>

text \<open>
  C25: a sink that delays acknowledgements, run with the heap scheduler, answers every segment: a
  segment is answered at once, or it is the last in sequence, no other segment waits and the
  timer is pending for it; when the timer expires the acknowledgement is sent, with the
  number of the last segment in sequence.
\<close>

theorem delayed_ack_answers:
  assumes "\<And>i. 0 < sz i" "da_inv hs_repr sz R (s, tm, c) xs"
    "0 \<le> sg_seqno p" "sg_size p = sz (sg_seqno p)" "tk_lastreset s \<le> sg_ts p"
    "hs_room (sc_queue c) 1" "sc_next_uid c < 2 ^ 63 - 1"
  shows "\<exists>t num s' tm' c' ys. da_recv hs_insert hs_can interval np p (s, tm, c) = Ok (t, num, s', tm', c') \<and>
    da_inv hs_repr sz (insert (sg_seqno p) R) (s', tm', c') ys \<and>
    (case t of
       Some a \<Rightarrow> tk_save s' = None \<and> ta_seqno a = ak_Seqno (tk_acker s')
     | None \<Rightarrow> tk_save s = None \<and> tk_save s' = Some p \<and> sg_seqno p = ak_Seqno (tk_acker s') \<and>
         timer_armed tm c interval \<in> set ys) \<and>
    (tk_save s' \<noteq> None \<and> tm_event tm' = earliest ys \<longrightarrow>
       (\<exists>a d'. da_handle np (ev_negate_uid (tm_event tm'))
          (s', tm', c'\<lparr>sc_queue := snd (hs_deque (sc_queue c')), sc_clock := ev_time (tm_event tm')\<rparr>) = Ok (Some a, d') \<and>
          ta_seqno a = ak_Seqno (tk_acker s')))"
proof -
  have room: "hs_room (sc_queue c) (Suc 0)" using assms(6) by simp
  from hsq.da_recv_ok [of sz, OF assms(1-5) room assms(7), of interval np] obtain t num s' tm' c' ys where
    r: "da_recv hs_insert hs_can interval np p (s, tm, c) = Ok (t, num, s', tm', c')"
    "da_inv hs_repr sz (insert (sg_seqno p) R) (s', tm', c') ys"
    "case t of
       Some a \<Rightarrow> tk_save s' = None \<and> ta_seqno a = ak_Seqno (tk_acker s')
     | None \<Rightarrow> tk_save s = None \<and> tk_save s' = Some p \<and> sg_seqno p = ak_Seqno (tk_acker s') \<and>
         timer_armed tm c interval \<in> set ys" by auto
  with hsq.da_handle_ok [of sz, OF assms(1) r(2), of np] show ?thesis by blast
qed

theorem delayed_ack_answers_witness:
  "\<exists>num s' tm' c'. da_recv hs_insert hs_can (1 / 10) demo_npkt (demo_segment 0) (demo_sink None, timer_new 3 4, sched_new hs_new) =
     Ok (None, num, s', tm', c') \<and> tk_save s' = Some (demo_segment 0)"
proof -
  let ?d = "(demo_sink None, timer_new 3 4, sched_new hs_new)"
  have inv: "da_inv hs_repr (\<lambda>_. 1000) {} ?d []"
    using hsq.repr_empty ak_new_inv [of "\<lambda>_. 1000" False]
    by (simp add: da_inv_def sink_inv_def demo_sink_def timer_inv_def timer_new_def sched_new_def)
  have p: "0 \<le> sg_seqno (demo_segment 0)" "sg_size (demo_segment 0) = 1000" "tk_lastreset (demo_sink None) \<le> sg_ts (demo_segment 0)"
    by (simp_all add: demo_segment_def demo_sink_def)
  have c: "hs_room (sc_queue (sched_new hs_new)) 1" "sc_next_uid (sched_new hs_new) < 2 ^ 63 - 1"
    by (simp_all add: hs_room_def hs_new_def heap_new_def sched_new_def)
  have pos: "\<And>i :: int. 0 < (1000 :: int)" by simp
  from delayed_ack_answers [OF pos inv p c, of "1 / 10" demo_npkt] obtain t num s' tm' c' ys where
    r: "da_recv hs_insert hs_can (1 / 10) demo_npkt (demo_segment 0) ?d = Ok (t, num, s', tm', c')"
    "case t of
       Some a \<Rightarrow> tk_save s' = None \<and> ta_seqno a = ak_Seqno (tk_acker s')
     | None \<Rightarrow> tk_save (demo_sink None) = None \<and> tk_save s' = Some (demo_segment 0) \<and>
         sg_seqno (demo_segment 0) = ak_Seqno (tk_acker s') \<and> timer_armed (timer_new 3 4) (sched_new hs_new) (1 / 10) \<in> set ys"
    by (elim exE conjE) (rule that; assumption)
  have sink: "sink_inv (\<lambda>_. 1000) {} (demo_sink None)" using inv by (simp add: da_inv_def)
  from tk_accept_ok [of "\<lambda>_. 1000", OF _ sink p(1,2)] obtain n s1 where
    acc: "tk_accept (demo_segment 0) (demo_sink None) = Ok (n, s1)" "sink_inv (\<lambda>_. 1000) {sg_seqno (demo_segment 0)} s1"
    "s1 = (demo_sink None)\<lparr>tk_acker := tk_acker s1, tk_bytes := tk_bytes s1\<rparr>" by auto
  have fl: "\<not> tk_RFC2581_immediate_ack s1" "\<not> tk_SYN_immediate_ack s1" by (subst acc(3); simp add: demo_sink_def)+
  have n: "0 \<le> ak_next (tk_acker s1)" "{0..<ak_next (tk_acker s1)} \<subseteq> {0}" "ak_next (tk_acker s1) \<noteq> 0"
    using acc(2) by (auto simp: sink_inv_def acker_inv_def acker_win_def demo_segment_def)
  have "ak_next (tk_acker s1) \<le> 1"
  proof (rule ccontr)
    assume "\<not> ak_next (tk_acker s1) \<le> 1"
    then have "1 \<in> {0..<ak_next (tk_acker s1)}" by simp
    then have "(1 :: int) \<in> {0}" by (rule subsetD [OF n(2)])
    then show False by simp
  qed
  with n have "sg_seqno (demo_segment 0) = ak_Seqno (tk_acker s1)" by (simp add: demo_segment_def)
  then have "da_recv hs_insert hs_can (1 / 10) demo_npkt (demo_segment 0) ?d =
      res_bind (timer_resched hs_insert hs_can (1 / 10) (timer_new 3 4, sched_new hs_new))
        (\<lambda>ts'. Ok (None, n, s1\<lparr>tk_save := Some (demo_segment 0)\<rparr>, ts'))"
    using p(3) acc(1) fl by (simp add: da_recv_def timer_new_def da_immediate_def)
  with r(1) have "t = None" by auto
  with r show ?thesis by auto
qed

end
