(* ===== verification/Rng.thy ===== *)
theory Rng
  imports Prelude
begin

unbundle bit_operations_syntax

text \<open>
  The random number generator of \<open>tools/rng.cc\<close> and \<open>tools/rng.h\<close>: MRG32k3a with its
  streams and substreams. The components of its vectors and matrices are doubles that hold integers
  below \<open>2 ^ 53\<close>, on which addition, subtraction and multiplication are exact: they are integers
  here. Every other operation on doubles, the divisions and the arithmetic on the random numbers, is the
  exact operation followed by a rounding, the argument \<open>fl\<close>.
\<close>

section \<open>Arithmetic modulo m\<close>

text \<open>The conversion to \<open>long\<close> truncates.\<close>

definition to_long :: "real \<Rightarrow> int" where
  "to_long x = (if x < 0 then \<lceil>x\<rceil> else \<lfloor>x\<rfloor>)"

definition fl_quotient :: "(real \<Rightarrow> real) \<Rightarrow> int \<Rightarrow> int \<Rightarrow> int" where
  "fl_quotient fl v m = to_long (fl (real_of_int v / real_of_int m))"

definition MultModM :: "(real \<Rightarrow> real) \<Rightarrow> int \<Rightarrow> int \<Rightarrow> int \<Rightarrow> int \<Rightarrow> int" where
  "MultModM fl a s c m =
     (let v = a * s + c;
          v' = (if v \<ge> 2 ^ 53 \<or> v \<le> - (2 ^ 53)
                then let a1 = c_div a 131072;
                         a' = a - a1 * 131072;
                         w = a1 * s;
                         w' = w - fl_quotient fl w m * m
                     in w' * 131072 + a' * s + c
                else v);
          r = v' - fl_quotient fl v' m * m
      in if r < 0 then r + m else r)"

type_synonym vec3 = "int \<times> int \<times> int"
type_synonym mat3 = "vec3 \<times> vec3 \<times> vec3"

definition row_times :: "(real \<Rightarrow> real) \<Rightarrow> int \<Rightarrow> vec3 \<Rightarrow> vec3 \<Rightarrow> int" where
  "row_times fl m r s =
     (case (r, s) of ((a0, a1, a2), (s0, s1, s2)) \<Rightarrow>
        MultModM fl a2 s2 (MultModM fl a1 s1 (MultModM fl a0 s0 0 m) m) m)"

definition MatVecModM :: "(real \<Rightarrow> real) \<Rightarrow> mat3 \<Rightarrow> vec3 \<Rightarrow> int \<Rightarrow> vec3" where
  "MatVecModM fl A s m = (case A of (r0, r1, r2) \<Rightarrow> (row_times fl m r0 s, row_times fl m r1 s, row_times fl m r2 s))"

definition transpose3 :: "mat3 \<Rightarrow> mat3" where
  "transpose3 A = (case A of ((a, b, c), (d, e, f), (g, h, i)) \<Rightarrow> ((a, d, g), (b, e, h), (c, f, i)))"

text \<open>The columns of the product are the products with the columns.\<close>

definition MatMatModM :: "(real \<Rightarrow> real) \<Rightarrow> mat3 \<Rightarrow> mat3 \<Rightarrow> int \<Rightarrow> mat3" where
  "MatMatModM fl A B m =
     (case transpose3 B of (v0, v1, v2) \<Rightarrow>
        transpose3 (MatVecModM fl A v0 m, MatVecModM fl A v1 m, MatVecModM fl A v2 m))"

definition MatTwoPowModM :: "(real \<Rightarrow> real) \<Rightarrow> mat3 \<Rightarrow> int \<Rightarrow> nat \<Rightarrow> mat3" where
  "MatTwoPowModM fl A m e = ((\<lambda>B. MatMatModM fl B B m) ^^ e) A"

fun mat_pow_loop :: "(real \<Rightarrow> real) \<Rightarrow> int \<Rightarrow> nat \<Rightarrow> mat3 \<Rightarrow> mat3 \<Rightarrow> mat3" where
  "mat_pow_loop fl m n W B =
     (if n > 0
      then mat_pow_loop fl m (n div 2) (MatMatModM fl W W m) (if n mod 2 \<noteq> 0 then MatMatModM fl W B m else B)
      else B)"

declare mat_pow_loop.simps [simp del]

definition MatPowModM :: "(real \<Rightarrow> real) \<Rightarrow> mat3 \<Rightarrow> int \<Rightarrow> nat \<Rightarrow> mat3" where
  "MatPowModM fl A m n = mat_pow_loop fl m n A ((1, 0, 0), (0, 1, 0), (0, 0, 1))"

section \<open>The constants\<close>

abbreviation rng_m1 :: int where "rng_m1 \<equiv> 4294967087"
abbreviation rng_m2 :: int where "rng_m2 \<equiv> 4294944443"

definition rng_norm :: "(real \<Rightarrow> real) \<Rightarrow> real" where
  "rng_norm fl = fl (1 / (real_of_int rng_m1 + 1))"

definition rng_fact :: real where
  "rng_fact = 1 / 2 ^ 24"

definition InvA1 :: mat3 where
  "InvA1 = ((184888585, 0, 1945170933), (1, 0, 0), (0, 1, 0))"

definition InvA2 :: mat3 where
  "InvA2 = ((0, 360363334, 4225571728), (1, 0, 0), (0, 1, 0))"

definition A1p0 :: mat3 where
  "A1p0 = ((0, 1, 0), (0, 0, 1), (-810728, 1403580, 0))"

definition A2p0 :: mat3 where
  "A2p0 = ((0, 1, 0), (0, 0, 1), (-1370589, 0, 527612))"

definition A1p76 :: mat3 where
  "A1p76 = ((82758667, 1871391091, 4127413238), (3672831523, 69195019, 1871391091),
     (3672091415, 3528743235, 69195019))"

definition A2p76 :: mat3 where
  "A2p76 = ((1511326704, 3759209742, 1610795712), (4292754251, 1511326704, 3889917532),
     (3859662829, 4292754251, 3708466080))"

definition A1p127 :: mat3 where
  "A1p127 = ((2427906178, 3580155704, 949770784), (226153695, 1230515664, 3580155704),
     (1988835001, 986791581, 1230515664))"

definition A2p127 :: mat3 where
  "A2p127 = ((1464411153, 277697599, 1610723613), (32183930, 1464411153, 1022607788),
     (2824425944, 32183930, 2093834863))"

section \<open>Streams\<close>

text \<open>A state of six numbers is the pair of the vectors of the two components.\<close>

type_synonym rng_state = "vec3 \<times> vec3"

record rng =
  rg_Cg :: rng_state
  rg_Bg :: rng_state
  rg_Ig :: rng_state
  rg_anti :: bool
  rg_inc_prec :: bool

text \<open>The statics: the seed of the next stream, the number of heuristic seeds taken.\<close>

record rng_package =
  pk_next_seed :: rng_state
  pk_heuristic_sequence :: int

definition rng_package_new :: rng_package where
  "rng_package_new = \<lparr>pk_next_seed = ((12345, 12345, 12345), (12345, 12345, 12345)), pk_heuristic_sequence = 0\<rparr>"

definition CheckSeed :: "rng_state \<Rightarrow> bool" where
  "CheckSeed sd = (case sd of ((a, b, c), (d, e, f)) \<Rightarrow>
     \<not> (a \<ge> rng_m1 \<or> b \<ge> rng_m1 \<or> c \<ge> rng_m1) \<and> \<not> (d \<ge> rng_m2 \<or> e \<ge> rng_m2 \<or> f \<ge> rng_m2) \<and>
     \<not> (a = 0 \<and> b = 0 \<and> c = 0) \<and> \<not> (d = 0 \<and> e = 0 \<and> f = 0))"

text \<open>One step of each component.\<close>

definition next_component :: "(real \<Rightarrow> real) \<Rightarrow> int \<Rightarrow> int \<Rightarrow> int" where
  "next_component fl p m = (let r = p - fl_quotient fl p m * m in if r < 0 then r + m else r)"

definition rng_U01 :: "(real \<Rightarrow> real) \<Rightarrow> rng \<Rightarrow> real \<times> rng" where
  "rng_U01 fl g =
     (case rg_Cg g of ((c0, c1, c2), (c3, c4, c5)) \<Rightarrow>
        let p1 = next_component fl (1403580 * c1 - 810728 * c0) rng_m1;
            p2 = next_component fl (527612 * c5 - 1370589 * c3) rng_m2;
            u = (if p1 > p2 then fl (real_of_int (p1 - p2) * rng_norm fl)
                 else fl (real_of_int (p1 - p2 + rng_m1) * rng_norm fl))
        in (if rg_anti g then fl (1 - u) else u, g\<lparr>rg_Cg := ((c1, c2, p1), (c4, c5, p2))\<rparr>))"

definition rng_U01d :: "(real \<Rightarrow> real) \<Rightarrow> rng \<Rightarrow> real \<times> rng" where
  "rng_U01d fl g =
     (let (u, g1) = rng_U01 fl g; (u', g2) = rng_U01 fl g1
      in if rg_anti g
         then (let w = fl (u + fl (fl (u' - 1) * rng_fact)) in (if w < 0 then fl (w + 1) else w, g2))
         else (let w = fl (u + fl (u' * rng_fact)) in (if w < 1 then w else fl (w - 1), g2)))"

definition rand_u01 :: "(real \<Rightarrow> real) \<Rightarrow> rng \<Rightarrow> real \<times> rng" where
  "rand_u01 fl g = (if rg_inc_prec g then rng_U01d fl g else rng_U01 fl g)"

text \<open>
  \<open>high - low + 1\<close> is converted to an unsigned 64-bit integer and that to a double; the product is truncated,
  and the sum with \<open>low\<close> is a 64-bit integer.
\<close>

definition rand_int :: "(real \<Rightarrow> real) \<Rightarrow> int \<Rightarrow> int \<Rightarrow> rng \<Rightarrow> int \<times> rng" where
  "rand_int fl low high g =
     (let (u, g') = rand_u01 fl g
      in (wrap_s64 (low + \<lfloor>fl (fl (real_of_int ((high - low + 1) mod 2 ^ 64)) * u)\<rfloor>), g'))"

definition rng_next :: "(real \<Rightarrow> real) \<Rightarrow> rng \<Rightarrow> int \<times> rng" where
  "rng_next fl g = rand_int fl 0 2147483647 g"

definition MatVec2 :: "(real \<Rightarrow> real) \<Rightarrow> mat3 \<Rightarrow> mat3 \<Rightarrow> rng_state \<Rightarrow> rng_state" where
  "MatVec2 fl A B s = (case s of (u, v) \<Rightarrow> (MatVecModM fl A u rng_m1, MatVecModM fl B v rng_m2))"

text \<open>\<open>init\<close>: the stream starts at the next seed, which moves to the next stream.\<close>

definition rng_init :: "(real \<Rightarrow> real) \<Rightarrow> rng_package \<Rightarrow> rng \<times> rng_package" where
  "rng_init fl pkg =
     (let s = pk_next_seed pkg
      in (\<lparr>rg_Cg = s, rg_Bg = s, rg_Ig = s, rg_anti = False, rg_inc_prec = False\<rparr>,
          pkg\<lparr>pk_next_seed := MatVec2 fl A1p127 A2p127 s\<rparr>))"

definition rng_reset_start_stream :: "rng \<Rightarrow> rng" where
  "rng_reset_start_stream g = g\<lparr>rg_Cg := rg_Ig g, rg_Bg := rg_Ig g\<rparr>"

definition rng_reset_start_substream :: "rng \<Rightarrow> rng" where
  "rng_reset_start_substream g = g\<lparr>rg_Cg := rg_Bg g\<rparr>"

definition rng_reset_next_substream :: "(real \<Rightarrow> real) \<Rightarrow> rng \<Rightarrow> rng" where
  "rng_reset_next_substream fl g =
     (let s = MatVec2 fl A1p76 A2p76 (rg_Bg g) in g\<lparr>rg_Bg := s, rg_Cg := s\<rparr>)"

definition rng_set_package_seed :: "rng_state \<Rightarrow> rng_package \<Rightarrow> rng_package res" where
  "rng_set_package_seed sd pkg = (if \<not> CheckSeed sd then Fail Abort else Ok (pkg\<lparr>pk_next_seed := sd\<rparr>))"

definition rng_set_seed_vec :: "rng_state \<Rightarrow> rng \<Rightarrow> rng res" where
  "rng_set_seed_vec sd g = (if \<not> CheckSeed sd then Fail Abort else Ok (g\<lparr>rg_Cg := sd, rg_Bg := sd, rg_Ig := sd\<rparr>))"

definition rng_advance_state :: "(real \<Rightarrow> real) \<Rightarrow> int \<Rightarrow> int \<Rightarrow> rng \<Rightarrow> rng" where
  "rng_advance_state fl e c g =
     (let C1 = (if c \<ge> 0 then MatPowModM fl A1p0 rng_m1 (nat c) else MatPowModM fl InvA1 rng_m1 (nat (- c)));
          C2 = (if c \<ge> 0 then MatPowModM fl A2p0 rng_m2 (nat c) else MatPowModM fl InvA2 rng_m2 (nat (- c)));
          B1 = (if e > 0 then MatTwoPowModM fl A1p0 rng_m1 (nat e) else MatTwoPowModM fl InvA1 rng_m1 (nat (- e)));
          B2 = (if e > 0 then MatTwoPowModM fl A2p0 rng_m2 (nat e) else MatTwoPowModM fl InvA2 rng_m2 (nat (- e)));
          D1 = (if e \<noteq> 0 then MatMatModM fl B1 C1 rng_m1 else C1);
          D2 = (if e \<noteq> 0 then MatMatModM fl B2 C2 rng_m2 else C2)
      in g\<lparr>rg_Cg := MatVec2 fl D1 D2 (rg_Cg g)\<rparr>)"

definition rng_increased_precis :: "bool \<Rightarrow> rng \<Rightarrow> rng" where
  "rng_increased_precis b g = g\<lparr>rg_inc_prec := b\<rparr>"

definition rng_set_antithetic :: "bool \<Rightarrow> rng \<Rightarrow> rng" where
  "rng_set_antithetic b g = g\<lparr>rg_anti := b\<rparr>"

definition rng_get_state :: "rng \<Rightarrow> rng_state" where
  "rng_get_state g = rg_Cg g"

section \<open>Seeds\<close>

datatype seed_source = RAW_SEED_SOURCE | PREDEF_SEED_SOURCE | HEURISTIC_SEED_SOURCE

definition predef_seeds :: "int list" where
  "predef_seeds =
    [1973272912, 188312339, 1072664641, 694388766,
     2009044369, 934100682, 1972392646, 1936856304,
     1598189534, 1822174485, 1871883252, 558746720,
     605846893, 1384311643, 2081634991, 1644999263,
     773370613, 358485174, 1996632795, 1000004583,
     1769370802, 1895218768, 186872697, 1859168769,
     349544396, 1996610406, 222735214, 1334983095,
     144443207, 720236707, 762772169, 437720306,
     939612284, 425414105, 1998078925, 981631283,
     1024155645, 822780843, 701857417, 960703545,
     2101442385, 2125204119, 2041095833, 89865291,
     898723423, 1859531344, 764283187, 1349341884,
     678622600, 778794064, 1319566104, 1277478588,
     538474442, 683102175, 999157082, 985046914,
     722594620, 1695858027, 1700738670, 1995749838,
     1147024708, 346983590, 565528207, 513791680]"

text \<open>A seed that is not zero, converted to an unsigned 64-bit integer, becomes all six numbers, first of the
  package, then of the stream; the case of zero is added by \<open>rng_set_seed_any\<close> below.\<close>

definition rng_set_seed_long :: "(real \<Rightarrow> real) \<Rightarrow> int \<Rightarrow> rng_package \<Rightarrow> (rng \<times> rng_package) res" where
  "rng_set_seed_long fl seed pkg =
     (let s = seed mod 2 ^ 64
      in res_bind (rng_set_package_seed ((s, s, s), (s, s, s)) pkg) (\<lambda>pkg'. Ok (rng_init fl pkg')))"

fun rng_toss :: "(real \<Rightarrow> real) \<Rightarrow> nat \<Rightarrow> rng \<Rightarrow> rng" where
  "rng_toss fl 0 g = g"
| "rng_toss fl (Suc n) g = rng_toss fl n (snd (rng_next fl g))"

text \<open>\<open>tv n\<close> is the exclusive or of the seconds and microseconds of the host's clock when the \<open>n\<close>-th
  heuristic seed is taken. A heuristic seed that happens to be 0 asks for another one, and both are
  followed by 128 numbers that are thrown away.\<close>

partial_function (option) rng_heuristic ::
  "(real \<Rightarrow> real) \<Rightarrow> (int \<Rightarrow> int) \<Rightarrow> rng_package \<Rightarrow> (rng \<times> rng_package) res option" where
  "rng_heuristic fl tv pkg =
     (let n = pk_heuristic_sequence pkg + 1;
          pkg1 = pkg\<lparr>pk_heuristic_sequence := n\<rparr>;
          seed = (tv n XOR push_bit 8 n) AND 2147483647
      in Option.bind (if seed = 0 then rng_heuristic fl tv pkg1 else Some (rng_set_seed_long fl seed pkg1))
           (\<lambda>r. Some (res_bind r (\<lambda>(g, pkg2). Ok (rng_toss fl 128 g, pkg2)))))"

definition rng_set_seed_any ::
  "(real \<Rightarrow> real) \<Rightarrow> (int \<Rightarrow> int) \<Rightarrow> int \<Rightarrow> rng_package \<Rightarrow> (rng \<times> rng_package) res" where
  "rng_set_seed_any fl tv seed pkg =
     (if seed = 0
      then (case rng_heuristic fl tv pkg of None \<Rightarrow> Fail No_Return | Some r \<Rightarrow> r)
      else rng_set_seed_long fl seed pkg)"

definition rng_set_seed ::
  "(real \<Rightarrow> real) \<Rightarrow> (int \<Rightarrow> int) \<Rightarrow> seed_source \<Rightarrow> int \<Rightarrow> rng_package \<Rightarrow> (rng \<times> rng_package) res" where
  "rng_set_seed fl tv source seed pkg =
     (case source of
        RAW_SEED_SOURCE \<Rightarrow>
          if seed \<le> 0 \<or> seed \<ge> 2147483647 then Fail Abort else rng_set_seed_long fl seed pkg
      | PREDEF_SEED_SOURCE \<Rightarrow>
          if seed < 0 \<or> seed \<ge> 64 then Fail Abort
          else rng_set_seed_long fl (predef_seeds ! nat seed) pkg
      | HEURISTIC_SEED_SOURCE \<Rightarrow>
          (case rng_heuristic fl tv pkg of None \<Rightarrow> Fail No_Return | Some r \<Rightarrow> r))"

section \<open>The previous generator\<close>

text \<open>\<open>RNGImplementation\<close>, compiled with \<open>OLD_RNG\<close>: the generator of Park and Miller with the reduction of
  Carta, which needs no division.\<close>

definition old_rng_next :: "int \<Rightarrow> int" where
  "old_rng_next seed =
     (let L = 16807 * (seed AND 0xffff);
          H = 16807 * drop_bit 16 seed;
          s1 = push_bit 16 (H AND 0x7fff) + L;
          s2 = s1 - 0x7fffffff;
          s3 = s2 + drop_bit 15 H
      in if s3 \<le> 0 then s3 + 0x7fffffff else s3)"

end
