(* ===== verification/Rounding.thy ===== *)
theory Rounding
  imports Prelude
begin

text \<open>
  The arithmetic of \<open>double\<close>: an operation gives a double that is nearest to the exact result. The
  bounds of the exponent are left out: the numbers to which this is applied are 0 or have absolute
  values between \<open>2 ^ -128\<close> and \<open>2 ^ 128\<close>. What is shown of \<open>nearest\<close> holds for every way to break ties;
  \<open>dbl\<close>, which breaks them to even as the IEEE standard does by default, is an instance.
\<close>

definition is_double :: "real \<Rightarrow> bool" where
  "is_double x \<longleftrightarrow> (\<exists>m e :: int. \<bar>m\<bar> \<le> 2 ^ 53 \<and> x = of_int m * 2 powi e)"

definition nearest :: "(real \<Rightarrow> real) \<Rightarrow> bool" where
  "nearest fl \<longleftrightarrow> (\<forall>x. is_double (fl x) \<and> (\<forall>y. is_double y \<longrightarrow> \<bar>fl x - x\<bar> \<le> \<bar>y - x\<bar>))"

section \<open>Doubles\<close>

lemma is_doubleI: "\<bar>m\<bar> \<le> 2 ^ 53 \<Longrightarrow> is_double (of_int m * 2 powi e)"
  unfolding is_double_def by blast

lemma is_double_int: "\<bar>m\<bar> \<le> 2 ^ 53 \<Longrightarrow> is_double (of_int m)"
  using is_doubleI [of m 0] by simp

lemma is_double_0_1 [simp]: "is_double 0" "is_double 1"
  using is_double_int [of 0] is_double_int [of 1] by simp_all

lemma powi2_pos [simp]: "0 < (2 :: real) powi e"
  by simp

lemma powi2_mono: "a \<le> b \<Longrightarrow> (2 :: real) powi a \<le> 2 powi b"
  by (rule power_int_increasing) simp_all

lemma powi2_strict_mono: "a < b \<Longrightarrow> (2 :: real) powi a < 2 powi b"
  by (rule power_int_strict_increasing) simp_all

lemma powi2_add: "(2 :: real) powi (a + b) = 2 powi a * 2 powi b"
  by (simp add: power_int_add)

lemma powi2_minus_53: "(2 :: real) powi (-53) = 1 / 2 ^ 53"
  by (simp add: power_int_def power_one_over)

text \<open>Doubles of size at least \<open>2 ^ k\<close> are multiples of \<open>2 ^ (k - 52)\<close>.\<close>

lemma is_double_multiple:
  assumes "is_double x" "2 powi k \<le> \<bar>x\<bar>"
  shows "\<exists>j :: int. x = of_int j * 2 powi (k - 52)"
proof -
  obtain m e where m: "\<bar>m\<bar> \<le> 2 ^ 53" "x = of_int m * 2 powi e" using assms(1) unfolding is_double_def by blast
  have e53: "(2 :: real) ^ 53 * 2 powi e = 2 powi (e + 53)" by (simp add: power_int_add)
  have "real_of_int \<bar>m\<bar> \<le> real_of_int (2 ^ 53)" using m(1) by (simp only: of_int_le_iff)
  then have "\<bar>x\<bar> \<le> 2 ^ 53 * 2 powi e" by (simp add: m(2) abs_mult)
  then have le: "2 powi k \<le> (2 :: real) powi (e + 53)" using assms(2) unfolding e53 by linarith
  have ke: "k \<le> e + 53" using powi2_strict_mono [of "e + 53" k] le by (rule_tac ccontr) simp
  show ?thesis
  proof (cases "k - 52 \<le> e")
    case True
    then have "e = int (nat (e - (k - 52))) + (k - 52)" by simp
    then have "(2 :: real) powi e = 2 ^ nat (e - (k - 52)) * 2 powi (k - 52)"
      by (metis powi2_add power_int_of_nat)
    then have "x = of_int (m * 2 ^ nat (e - (k - 52))) * 2 powi (k - 52)" by (simp add: m(2))
    then show ?thesis by blast
  next
    case False
    then have k: "k = e + 53" using ke by simp
    have "(2 :: real) powi k = 2 ^ 53 * 2 powi e" by (simp only: k e53)
    then have "2 ^ 53 \<le> real_of_int \<bar>m\<bar>" using assms(2) by (simp add: m(2) abs_mult)
    then have "real_of_int (2 ^ 53) \<le> real_of_int \<bar>m\<bar>" by simp
    then have "2 ^ 53 \<le> \<bar>m\<bar>" by (simp only: of_int_le_iff)
    then have "m = 2 * (sgn m * 2 ^ 52)" using m(1) by (cases "0 \<le> m") auto
    then have "x = of_int (sgn m * 2 ^ 52) * (2 * 2 powi e)" unfolding m(2)
      by (metis (no_types, opaque_lifting) mult.assoc mult.commute of_int_mult of_int_numeral)
    moreover have "(2 :: real) * 2 powi e = 2 powi (k - 52)" using powi2_add [of 1 e] by (simp add: k add.commute)
    ultimately show ?thesis by metis
  qed
qed

lemma powi2_minus: "(2 :: real) powi (- int k) = 1 / 2 ^ k"
  by (simp add: power_int_minus divide_inverse)

lemma is_double_frac: "\<bar>m\<bar> \<le> 2 ^ 53 \<Longrightarrow> is_double (of_int m / 2 ^ k)"
  using is_doubleI [of m "- int k"] by (simp add: powi2_minus)

section \<open>Rounding to a nearest double\<close>

lemma nearestD:
  assumes "nearest fl"
  shows "is_double (fl x)" "is_double y \<Longrightarrow> \<bar>fl x - x\<bar> \<le> \<bar>y - x\<bar>"
  using assms by (simp_all add: nearest_def)

lemma nearest_id: "nearest fl \<Longrightarrow> is_double y \<Longrightarrow> fl y = y"
  using nearestD(2) [of fl y y] by simp

lemma nearest_mono:
  assumes "nearest fl" "x \<le> y"
  shows "fl x \<le> fl y"
proof (rule ccontr)
  assume a: "\<not> fl x \<le> fl y"
  have "\<bar>fl x - x\<bar> \<le> \<bar>fl y - x\<bar>" "\<bar>fl y - y\<bar> \<le> \<bar>fl x - y\<bar>" using nearestD [OF assms(1)] by blast+
  then have "fl x + fl y \<le> 2 * x" "2 * y \<le> fl x + fl y" using a by linarith+
  then have "x = y" using assms(2) by simp
  then show False using a by simp
qed

lemma nearest_ge: "nearest fl \<Longrightarrow> is_double c \<Longrightarrow> c \<le> x \<Longrightarrow> c \<le> fl x"
  using nearest_mono [of fl c x] nearest_id [of fl c] by simp

lemma nearest_le: "nearest fl \<Longrightarrow> is_double c \<Longrightarrow> x \<le> c \<Longrightarrow> fl x \<le> c"
  using nearest_mono [of fl x c] nearest_id [of fl c] by simp

text \<open>A result is known when the exact value is less than half a step from it.\<close>

lemma nearest_eq:
  assumes fl: "nearest fl" and j: "2 ^ 52 < j" "j \<le> 2 ^ 53"
    and x: "\<bar>x - of_int j * 2 powi e\<bar> < 2 powi e / 2"
  shows "fl x = of_int j * 2 powi e"
proof -
  let ?c = "of_int j * (2 :: real) powi e"
  have "is_double ?c" using j by (intro is_doubleI) simp
  from nearestD(2) [OF fl this, of x] have "\<bar>fl x - x\<bar> < 2 powi e / 2" using x by linarith
  then have c: "\<bar>fl x - ?c\<bar> < 2 powi e" using x by linarith
  have "real_of_int (2 ^ 52 + 1) \<le> of_int j" using j by (simp only: of_int_le_iff)
  then have "(2 ^ 52 + 1) * 2 powi e \<le> ?c" by (intro mult_right_mono) simp_all
  then have "2 ^ 52 * 2 powi e \<le> fl x" using c unfolding distrib_right by linarith
  moreover have "(2 :: real) powi (e + 52) = 2 ^ 52 * 2 powi e" by (simp add: power_int_add)
  ultimately have "2 powi (e + 52) \<le> \<bar>fl x\<bar>" by linarith
  from is_double_multiple [OF nearestD(1) [OF fl] this] obtain i :: int where i: "fl x = of_int i * 2 powi e" by auto
  then have "\<bar>fl x - ?c\<bar> = of_int \<bar>i - j\<bar> * 2 powi e" by (simp add: abs_mult flip: left_diff_distrib)
  then have "real_of_int \<bar>i - j\<bar> < 1" using c by simp
  then have "i = j" by linarith
  with i show ?thesis by simp
qed

lemma nearest_frac:
  "nearest fl \<Longrightarrow> 2 ^ 52 < j \<Longrightarrow> j \<le> 2 ^ 53 \<Longrightarrow> \<bar>x - of_int j / 2 ^ k\<bar> < 1 / 2 ^ Suc k \<Longrightarrow> fl x = of_int j / 2 ^ k"
  using nearest_eq [of fl j x "- int k"] by (simp add: powi2_minus)

text \<open>Below a power of two the doubles keep their distance from it: a product with a factor below 1 stays below.\<close>

lemma double_below_1:
  assumes "is_double u" "u < 1"
  shows "u \<le> 1 - 1 / 2 ^ 53"
proof (cases "1 / 2 \<le> u")
  case True
  then have "2 powi (-1) \<le> \<bar>u\<bar>" by simp
  from is_double_multiple [OF assms(1) this] obtain j :: int where j: "u = of_int j * 2 powi (-53)" by auto
  note e = powi2_minus_53
  have "real_of_int j < real_of_int (2 ^ 53)" using assms(2) by (simp add: j e divide_less_eq)
  then have "j \<le> 2 ^ 53 - 1" by (simp only: of_int_less_iff)
  then have "real_of_int j \<le> real_of_int (2 ^ 53 - 1)" by (simp only: of_int_le_iff)
  then show ?thesis by (simp add: j e field_simps)
next
  case False
  then show ?thesis by simp
qed

lemma nearest_product_less:
  fixes n :: int
  assumes fl: "nearest fl" and n: "0 < n" "n \<le> 2 ^ 53" and u: "u \<le> 1 - 1 / 2 ^ 53"
  shows "fl (of_int n * u) < of_int n"
proof (cases "n = 1")
  case True
  have "is_double (of_int (2 ^ 53 - 1) * 2 powi (-53))" by (intro is_doubleI) simp
  moreover have "of_int (2 ^ 53 - 1) * 2 powi (-53) = 1 - 1 / (2 :: real) ^ 53"
    unfolding powi2_minus_53 by (simp add: field_simps)
  ultimately have "fl u \<le> 1 - 1 / 2 ^ 53" using nearest_le [OF fl _ u] by simp
  also have "\<dots> < 1" by simp
  finally show ?thesis using True by simp
next
  case False
  obtain k where k: "2 ^ k < n" "n \<le> 2 ^ Suc k" "k \<le> 52"
  proof -
    define P where "P = (\<lambda>k. n \<le> (2 :: int) ^ Suc k)"
    define K where "K = (LEAST k. P k)"
    have "P 52" using n(2) by (simp add: P_def)
    then have K: "P K" "K \<le> 52" unfolding K_def by (rule LeastI, rule Least_le)
    have "2 ^ K < n"
    proof (cases K)
      case (Suc i)
      then have "\<not> P i" using not_less_Least [of i P] by (simp add: K_def)
      then show ?thesis by (simp add: P_def Suc)
    qed (use n(1) False in simp)
    with K show ?thesis using that unfolding P_def by blast
  qed
  define s where "s = (2 :: real) powi (int k - 52)"
  have s: "0 < s" "2 ^ k = s * 2 ^ 52"
    by (simp_all add: s_def power_int_diff)
  let ?y = "of_int n - s" and ?x = "of_int n * u"
  have "is_double ?y"
  proof -
    have "(2 :: int) ^ (52 - k) * n \<le> 2 ^ (52 - k) * 2 ^ Suc k" using k(2) by simp
    also have "\<dots> = 2 ^ 53" using k(3) by (simp flip: power_add)
    finally have "is_double (of_int (2 ^ (52 - k) * n - 1) * 2 powi (int k - 52))"
      using n(1) by (intro is_doubleI) simp
    moreover have 1: "(2 :: real) ^ (52 - k) * s = 1"
      using k(3) by (simp add: s_def power_int_diff power_diff)
    have "real_of_int (2 ^ (52 - k) * n - 1) * s = of_int n * (2 ^ (52 - k) * s) - s" by (simp add: algebra_simps)
    then have "real_of_int (2 ^ (52 - k) * n - 1) * s = ?y" unfolding 1 by simp
    ultimately show ?thesis by (simp add: s_def)
  qed
  then have near: "\<bar>fl ?x - ?x\<bar> \<le> \<bar>?y - ?x\<bar>" by (rule nearestD(2) [OF fl])
  have "real_of_int (2 ^ k) < of_int n" using k(1) by (simp only: of_int_less_iff)
  then have half: "s / 2 < of_int n / 2 ^ 53" using s(2) by simp
  have "?x \<le> of_int n * (1 - 1 / 2 ^ 53)" using u n(1) by (intro mult_left_mono) simp_all
  then have "?x \<le> of_int n - of_int n / 2 ^ 53" by (simp add: right_diff_distrib)
  with near half s(1) show ?thesis by linarith
qed

section \<open>The relative error\<close>

text \<open>The integer nearest to a real number, to even in a tie.\<close>

definition round_even :: "real \<Rightarrow> int" where
  "round_even y = (let f = \<lfloor>y\<rfloor>; d = y - of_int f
     in if d < 1 / 2 then f else if d > 1 / 2 then f + 1 else if even f then f else f + 1)"

lemma round_even_nearest: "\<bar>of_int (round_even y) - y\<bar> \<le> \<bar>of_int j - y\<bar>"
proof -
  define f where "f = \<lfloor>y\<rfloor>"
  have f: "of_int f \<le> y" "y < of_int f + 1" by (simp_all add: f_def)
  have "j \<le> f \<or> f + 1 \<le> j" by linarith
  then have "of_int j \<le> real_of_int f \<or> real_of_int f + 1 \<le> of_int j" by linarith
  then show ?thesis using f unfolding round_even_def Let_def f_def [symmetric] by auto
qed

lemma round_even_half: "\<bar>of_int (round_even y) - y\<bar> \<le> 1 / 2"
proof -
  have "\<bar>of_int (round y) - y\<bar> \<le> 1 / 2" by (rule of_int_round_abs_le)
  with round_even_nearest [of y "round y"] show ?thesis by linarith
qed

definition dbl_exp :: "real \<Rightarrow> int" where
  "dbl_exp x = \<lfloor>log 2 \<bar>x\<bar>\<rfloor> - 52"

definition dbl :: "real \<Rightarrow> real" where
  "dbl x = (if x = 0 then 0 else of_int (round_even (x / 2 powi dbl_exp x)) * 2 powi dbl_exp x)"

lemma dbl_exp_bounds:
  assumes "x \<noteq> 0"
  shows "2 ^ 52 * 2 powi dbl_exp x \<le> \<bar>x\<bar>" "\<bar>x\<bar> < 2 ^ 53 * 2 powi dbl_exp x"
proof -
  let ?l = "\<lfloor>log 2 \<bar>x\<bar>\<rfloor>"
  have p: "(2 :: real) powi ?l = 2 powr of_int ?l" by (simp add: powr_real_of_int')
  have x: "\<bar>x\<bar> = 2 powr log 2 \<bar>x\<bar>" using assms by simp
  have "(2 :: real) powr of_int ?l \<le> 2 powr log 2 \<bar>x\<bar>" by (rule powr_mono) simp_all
  then have lo: "(2 :: real) powi ?l \<le> \<bar>x\<bar>" unfolding p x [symmetric] .
  have "2 powr log 2 \<bar>x\<bar> < (2 :: real) powr (of_int ?l + 1)" by (rule powr_less_mono) (simp_all add: floor_eq_iff)
  also have "\<dots> = 2 * 2 powi ?l" by (simp add: p powr_add)
  finally have hi: "\<bar>x\<bar> < 2 * 2 powi ?l" using x by simp
  have "(2 :: real) powi ?l = 2 ^ 52 * 2 powi dbl_exp x" by (simp add: dbl_exp_def power_int_diff)
  with lo hi show "2 ^ 52 * 2 powi dbl_exp x \<le> \<bar>x\<bar>" "\<bar>x\<bar> < 2 ^ 53 * 2 powi dbl_exp x" by simp_all
qed

lemma dbl_scaled:
  fixes x :: real
  shows "\<bar>of_int i * 2 powi e - x\<bar> = \<bar>of_int i - x / 2 powi e\<bar> * 2 powi e"
proof -
  have "of_int i * 2 powi e - x = (of_int i - x / 2 powi e) * 2 powi e" by (simp add: left_diff_distrib)
  then show ?thesis by (simp add: abs_mult)
qed

lemma dbl_nearest: "nearest dbl"
proof -
  have "is_double (dbl x) \<and> (\<forall>y. is_double y \<longrightarrow> \<bar>dbl x - x\<bar> \<le> \<bar>y - x\<bar>)" for x
  proof (cases "x = 0")
    case False
    define e where "e = dbl_exp x"
    define s where "s = (2 :: real) powi e"
    define i where "i = round_even (x / s)"
    have s: "0 < s" "2 ^ 52 * s \<le> \<bar>x\<bar>" "\<bar>x\<bar> < 2 ^ 53 * s"
      using dbl_exp_bounds [OF False] by (simp_all add: s_def e_def)
    have d: "dbl x = of_int i * s" using False by (simp add: dbl_def i_def s_def e_def)
    have near: "\<bar>of_int i * s - x\<bar> \<le> \<bar>of_int j * s - x\<bar>" for j
      using round_even_nearest [of "x / s" j] s(1)
      by (simp add: dbl_scaled s_def i_def mult_right_mono)
    have "\<bar>of_int i * s - x\<bar> = \<bar>of_int i - x / s\<bar> * s" by (simp add: s_def dbl_scaled)
    moreover have "\<bar>of_int i - x / s\<bar> * s \<le> 1 / 2 * s"
      using round_even_half [of "x / s"] s(1) unfolding i_def by (intro mult_right_mono) simp_all
    ultimately have "\<bar>of_int i * s - x\<bar> \<le> s / 2" by linarith
    then have "\<bar>of_int i * s\<bar> < (2 ^ 53 + 1) * s" using s unfolding distrib_right by linarith
    then have "real_of_int \<bar>i\<bar> < real_of_int (2 ^ 53 + 1)" using s(1) by (simp add: abs_mult)
    then have "\<bar>i\<bar> < 2 ^ 53 + 1" by (simp only: of_int_less_iff)
    then have "\<bar>i\<bar> \<le> 2 ^ 53" by simp
    then have "is_double (dbl x)" unfolding d s_def by (rule is_doubleI)
    moreover have "\<bar>dbl x - x\<bar> \<le> \<bar>y - x\<bar>" if y: "is_double y" for y
    proof (cases "2 ^ 52 * s \<le> \<bar>y\<bar>")
      case True
      have "(2 :: real) powi (e + 52) = 2 ^ 52 * s" by (simp add: s_def power_int_add)
      with is_double_multiple [OF y, of "e + 52"] True obtain j :: int where "y = of_int j * s" by (auto simp: s_def)
      with near [of j] show ?thesis by (simp add: d)
    next
      case False
      have "\<bar>dbl x - x\<bar> \<le> \<bar>x\<bar> - 2 ^ 52 * s"
      proof (cases "0 \<le> x")
        case True
        with near [of "2 ^ 52"] s(2) show ?thesis by (simp add: d)
      next
        case neg: False
        with near [of "- (2 ^ 52)"] s(2) show ?thesis by (simp add: d)
      qed
      with False show ?thesis by linarith
    qed
    ultimately show ?thesis by blast
  qed (simp add: dbl_def)
  then show ?thesis by (simp add: nearest_def)
qed

text \<open>The relative error is at most \<open>2 ^ -53\<close>.\<close>

lemma nearest_relative:
  assumes "nearest fl"
  shows "\<bar>fl x - x\<bar> \<le> \<bar>x\<bar> / 2 ^ 53"
proof (cases "x = 0")
  case True
  then show ?thesis using nearest_id [OF assms, of 0] by simp
next
  case False
  define s where "s = (2 :: real) powi dbl_exp x"
  have "\<bar>fl x - x\<bar> \<le> \<bar>dbl x - x\<bar>" by (rule nearestD(2) [OF assms nearestD(1) [OF dbl_nearest]])
  also have "\<dots> = \<bar>of_int (round_even (x / s)) - x / s\<bar> * s"
    using False by (simp add: dbl_def s_def dbl_scaled)
  also have "\<dots> \<le> 1 / 2 * s" by (intro mult_right_mono round_even_half) (simp add: s_def)
  also have "\<dots> \<le> \<bar>x\<bar> / 2 ^ 53" using dbl_exp_bounds(1) [OF False] by (simp add: s_def)
  finally show ?thesis .
qed

end
