(* ===== verification/Rng_Correct.thy ===== *)
theory Rng_Correct
  imports Rng Rounding
begin

unbundle bit_operations_syntax

text \<open>
  Correctness of the random number generator of \<open>Rng\<close>. For the states all that is assumed of the rounding
  \<open>fl\<close> is \<open>ieee\<close>: integers are exact and the relative error is at most
  \<open>2 ^ -53\<close> for numbers of moderate size. For the random numbers it is \<open>nearest\<close>, which implies it. Vectors and matrices modulo \<open>m\<close> act on states; the powers
  of the transition matrices in the code are checked by repeated squaring modulo their characteristic
  polynomials.
\<close>

section \<open>Rounded division\<close>

definition ieee :: "(real \<Rightarrow> real) \<Rightarrow> bool" where
  "ieee fl \<longleftrightarrow> (\<forall>n :: int. \<bar>n\<bar> \<le> 2 ^ 53 \<longrightarrow> fl (real_of_int n) = real_of_int n) \<and>
     (\<forall>x. 1 / 2 ^ 64 \<le> \<bar>x\<bar> \<and> \<bar>x\<bar> \<le> 2 ^ 64 \<longrightarrow> \<bar>fl x - x\<bar> \<le> \<bar>x\<bar> / 2 ^ 53)"

lemma ieee_exact: "ieee (\<lambda>x. x)"
  by (simp add: ieee_def)

lemma nearest_ieee: "nearest fl \<Longrightarrow> ieee fl"
  using nearest_relative [of fl] nearest_id [of fl] is_double_int by (auto simp: ieee_def)

lemma ieee_close:
  assumes "ieee fl" "0 < m" "m < 2 ^ 32" "\<bar>v\<bar> < 2 ^ 53" "v \<noteq> 0"
  shows "\<bar>fl (real_of_int v / real_of_int m) - real_of_int v / real_of_int m\<bar> < 1 / real_of_int m"
proof -
  let ?q = "real_of_int v / real_of_int m"
  have m: "0 < real_of_int m" "real_of_int m < 2 ^ 32" using assms(2,3) by simp_all
  have v: "1 \<le> real_of_int \<bar>v\<bar>" using assms(5) by linarith
  have "real_of_int \<bar>v\<bar> < real_of_int (2 ^ 53)" using assms(4) by (simp only: of_int_less_iff)
  then have v53: "real_of_int \<bar>v\<bar> < 2 ^ 53" by simp
  note v = v v53
  have q: "\<bar>?q\<bar> = real_of_int \<bar>v\<bar> / real_of_int m" using m by simp
  have "1 / 2 ^ 64 \<le> 1 / real_of_int m" using m by (intro divide_left_mono) auto
  also have "\<dots> \<le> \<bar>?q\<bar>" unfolding q using v m by (intro divide_right_mono) auto
  finally have lo: "1 / 2 ^ 64 \<le> \<bar>?q\<bar>" .
  have "\<bar>?q\<bar> \<le> real_of_int \<bar>v\<bar>" unfolding q using v m assms(2) by (simp add: divide_le_eq mult_le_cancel_left1)
  then have hi: "\<bar>?q\<bar> \<le> 2 ^ 64" using v by simp
  have "\<bar>fl ?q - ?q\<bar> \<le> \<bar>?q\<bar> / 2 ^ 53" using assms(1) lo hi unfolding ieee_def by blast
  also have "\<dots> < 1 / real_of_int m" unfolding q using v m by (simp add: field_simps)
  finally show ?thesis .
qed

lemma fl_quotient_nonneg:
  assumes fl: "ieee fl" and m: "0 < m" "m < 2 ^ 32" and v: "0 \<le> v" "v < 2 ^ 53" and s: "s = 1 \<or> s = -1"
  shows "fl_quotient fl (s * v) m = s * (v div m)"
proof -
  define k where "k = v div m"
  define r where "r = v mod m"
  have vk: "v = k * m + r" "0 \<le> r" "r < m" "0 \<le> k" using m v by (simp_all add: k_def r_def pos_imp_zdiv_nonneg_iff)
  have "k \<le> v" unfolding k_def using v m by (simp add: zdiv_mono2 [of v 1 m, simplified] int_one_le_iff_zero_less)
  then have k53: "\<bar>s * k\<bar> \<le> 2 ^ 53" using v vk(4) s by auto
  show ?thesis
  proof (cases "r = 0")
    case True
    then have "real_of_int (s * v) / real_of_int m = real_of_int (s * k)" using vk(1) m by simp
    moreover have "fl (real_of_int (s * k)) = real_of_int (s * k)" using fl k53 unfolding ieee_def by blast
    ultimately show ?thesis
      unfolding fl_quotient_def to_long_def k_def [symmetric] by (simp only: ceiling_of_int floor_of_int if_cancel)
  next
    case False
    define q where "q = real_of_int v / real_of_int m"
    define y where "y = fl (real_of_int (s * v) / real_of_int m)"
    have rm: "0 < real_of_int m" using m by simp
    have q: "q = real_of_int k + real_of_int r / real_of_int m" using vk(1) rm by (simp add: q_def field_simps)
    have "v \<noteq> 0" using False by (auto simp: r_def)
    then have ne: "s * v \<noteq> 0" "\<bar>s * v\<bar> < 2 ^ 53" using s v by auto
    from ieee_close [OF fl m ne(2,1)] have c: "\<bar>y - real_of_int s * q\<bar> < 1 / real_of_int m"
      by (simp add: y_def q_def)
    have r1: "1 / real_of_int m \<le> real_of_int r / real_of_int m" "real_of_int r / real_of_int m \<le> 1 - 1 / real_of_int m"
      using False vk rm by (simp_all add: field_simps)
    from s show ?thesis
    proof
      assume s1: "s = 1"
      then have "real_of_int k < y" "y < real_of_int k + 1" using c r1 q by (simp_all add: abs_less_iff)
      moreover from this have "\<lfloor>y\<rfloor> = k" "0 \<le> y" using vk(4) by (simp_all add: floor_eq_iff)
      ultimately show ?thesis using s1 by (simp add: fl_quotient_def to_long_def y_def flip: k_def)
    next
      assume s1: "s = -1"
      then have "- real_of_int k - 1 < y" "y < - real_of_int k" using c r1 q by (simp_all add: abs_less_iff)
      moreover from this have "\<lceil>y\<rceil> = - k" "y < 0" using vk(4) by (simp_all add: ceiling_eq_iff)
      ultimately show ?thesis using s1 by (simp add: fl_quotient_def to_long_def y_def flip: k_def)
    qed
  qed
qed

lemma fl_quotient_eq:
  assumes "ieee fl" "0 < m" "m < 2 ^ 32" "\<bar>v\<bar> < 2 ^ 53"
  shows "fl_quotient fl v m = c_div v m"
proof (cases "0 \<le> v")
  case True
  then show ?thesis using fl_quotient_nonneg [OF assms(1-3), of v 1] assms by simp
next
  case False
  then show ?thesis using fl_quotient_nonneg [OF assms(1-3), of "- v" "-1"] assms by (simp add: c_div_def)
qed

text \<open>What is left after the division, made nonnegative.\<close>

lemma c_mod_facts:
  assumes "0 < m"
  shows "c_mod v m mod m = v mod m" "\<bar>c_mod v m\<bar> < m" "(if c_mod v m < 0 then c_mod v m + m else c_mod v m) = v mod m"
proof -
  have e: "c_mod v m = v - c_div v m * m" by (simp add: c_mod_def)
  show 1: "c_mod v m mod m = v mod m" unfolding e by (simp add: mod_diff_eq [symmetric])
  show 2: "\<bar>c_mod v m\<bar> < m"
  proof (cases "0 \<le> v")
    case True
    then show ?thesis using assms by simp
  next
    case False
    then have "c_mod v m = - ((- v) mod m)" using assms by (simp add: e c_div_def minus_div_mult_eq_mod [symmetric])
    then show ?thesis using assms by (simp add: abs_less_iff)
  qed
  show "(if c_mod v m < 0 then c_mod v m + m else c_mod v m) = v mod m"
  proof (cases "c_mod v m < 0")
    case True
    then have "(c_mod v m + m) mod m = c_mod v m + m" using 2 by (intro mod_pos_pos_trivial) auto
    then show ?thesis using True 1 by simp
  next
    case False
    then have "c_mod v m mod m = c_mod v m" using 2 by (intro mod_pos_pos_trivial) auto
    then show ?thesis using False 1 by simp
  qed
qed

lemma reduce_eq:
  assumes "ieee fl" "0 < m" "m < 2 ^ 32" "\<bar>v\<bar> < 2 ^ 53"
  shows "v - fl_quotient fl v m * m = c_mod v m"
  using fl_quotient_eq [OF assms] by (simp add: c_mod_def)

lemma MultModM_eq:
  assumes fl: "ieee fl" and m: "0 < m" "m < 2 ^ 32" and b: "\<bar>a\<bar> < 2 ^ 32" "\<bar>s\<bar> < 2 ^ 32" "0 \<le> c" "c < 2 ^ 32"
  shows "MultModM fl a s c m = (a * s + c) mod m"
proof -
  define a1 where "a1 = c_div a 131072"
  define a' where "a' = a - a1 * 131072"
  define w' where "w' = a1 * s - fl_quotient fl (a1 * s) m * m"
  define v' where "v' = (if a * s + c \<ge> 2 ^ 53 \<or> a * s + c \<le> - (2 ^ 53) then w' * 131072 + a' * s + c else a * s + c)"
  have a': "\<bar>a'\<bar> < 131072" using c_mod_facts(2) [of 131072 a] by (simp add: a'_def a1_def c_mod_def)
  have aeq: "a = a1 * 131072 + a'" by (simp add: a'_def)
  have "\<bar>a1\<bar> * 131072 \<le> \<bar>a\<bar>"
  proof -
    have "\<bar>a\<bar> div 131072 * 131072 \<le> \<bar>a\<bar>" 
      using div_mult_mod_eq [of "\<bar>a\<bar>" 131072] pos_mod_sign [of 131072 "\<bar>a\<bar>"] by linarith
    then show ?thesis by (simp add: a1_def c_div_def abs_mult)
  qed
  then have a1: "\<bar>a1\<bar> < 2 ^ 15" using b(1) by simp
  have "\<bar>a1 * s\<bar> < 2 ^ 15 * 2 ^ 32" unfolding abs_mult using a1 b(2) by (intro mult_strict_mono') auto
  then have w53: "\<bar>a1 * s\<bar> < 2 ^ 53" by simp
  have w': "w' = c_mod (a1 * s) m" using reduce_eq [OF fl m w53] by (simp add: w'_def)
  have wb: "\<bar>w' * 131072\<bar> < 2 ^ 32 * 131072" using c_mod_facts(2) [OF m(1), of "a1 * s"] m(2) by (simp add: w' abs_mult)
  have "\<bar>a' * s\<bar> < 131072 * 2 ^ 32" unfolding abs_mult using a' b(2) by (intro mult_strict_mono') auto
  then have v53: "\<bar>v'\<bar> < 2 ^ 53" using wb b(3,4) by (auto simp: v'_def abs_less_iff)
  have vm: "v' mod m = (a * s + c) mod m"
  proof -
    have "(w' * 131072 + a' * s + c) mod m = (a1 * s * 131072 + a' * s + c) mod m"
      using c_mod_facts(1) [OF m(1), of "a1 * s"] unfolding w' by (metis mod_add_left_eq mod_mult_left_eq)
    also have "a1 * s * 131072 + a' * s + c = a * s + c" by (subst aeq) (simp add: algebra_simps)
    finally show ?thesis by (simp add: v'_def)
  qed
  have "MultModM fl a s c m = (if v' - fl_quotient fl v' m * m < 0 then v' - fl_quotient fl v' m * m + m else v' - fl_quotient fl v' m * m)"
    by (simp add: MultModM_def Let_def v'_def w'_def a'_def a1_def)
  also have "\<dots> = v' mod m" unfolding reduce_eq [OF fl m v53] by (rule c_mod_facts(3) [OF m(1)])
  finally show ?thesis using vm by simp
qed

section \<open>Vectors and matrices\<close>

definition dot3 :: "int \<Rightarrow> vec3 \<Rightarrow> vec3 \<Rightarrow> int" where
  "dot3 m r s = (case (r, s) of ((a0, a1, a2), (s0, s1, s2)) \<Rightarrow> (a0 * s0 + a1 * s1 + a2 * s2) mod m)"

definition mv3 :: "int \<Rightarrow> mat3 \<Rightarrow> vec3 \<Rightarrow> vec3" where
  "mv3 m A s = (case A of (r0, r1, r2) \<Rightarrow> (dot3 m r0 s, dot3 m r1 s, dot3 m r2 s))"

definition mm3 :: "int \<Rightarrow> mat3 \<Rightarrow> mat3 \<Rightarrow> mat3" where
  "mm3 m A B = (case transpose3 B of (v0, v1, v2) \<Rightarrow> transpose3 (mv3 m A v0, mv3 m A v1, mv3 m A v2))"

definition all3 :: "('a \<Rightarrow> bool) \<Rightarrow> 'a \<times> 'a \<times> 'a \<Rightarrow> bool" where
  "all3 P v = (case v of (a, b, c) \<Rightarrow> P a \<and> P b \<and> P c)"

lemma all3_simps [simp]: "all3 P (a, b, c) \<longleftrightarrow> P a \<and> P b \<and> P c"
  by (simp add: all3_def)

definition reduced :: "int \<Rightarrow> vec3 \<Rightarrow> bool" where
  "reduced m = all3 (\<lambda>x. 0 \<le> x \<and> x < m)"

definition small :: "mat3 \<Rightarrow> bool" where
  "small = all3 (all3 (\<lambda>x. \<bar>x\<bar> < 2 ^ 32))"

lemma dot3_range: "0 < m \<Longrightarrow> 0 \<le> dot3 m r s \<and> dot3 m r s < m"
  by (auto simp: dot3_def split: prod.splits)

lemma mv3_reduced: "0 < m \<Longrightarrow> reduced m (mv3 m A s)"
  using dot3_range by (simp add: mv3_def reduced_def split: prod.splits)

lemma transpose3_all3 [simp]: "all3 (all3 P) (transpose3 A) = all3 (all3 P) A"
  by (auto simp: transpose3_def split: prod.splits)

lemma mm3_small:
  assumes "0 < m" "m < 2 ^ 32"
  shows "small (mm3 m A B)"
proof -
  have "all3 (\<lambda>x. \<bar>x\<bar> < 2 ^ 32) (mv3 m A s)" for s
    using mv3_reduced [OF assms(1), of A s] assms(2) by (auto simp: reduced_def all3_def split: prod.splits)
  then show ?thesis by (simp add: mm3_def small_def split: prod.splits)
qed

lemma row_times_eq:
  assumes "ieee fl" "0 < m" "m < 2 ^ 32" "all3 (\<lambda>x. \<bar>x\<bar> < 2 ^ 32) r" "all3 (\<lambda>x. \<bar>x\<bar> < 2 ^ 32) s"
  shows "row_times fl m r s = dot3 m r s"
proof -
  obtain a0 a1 a2 s0 s1 s2 where rs: "r = (a0, a1, a2)" "s = (s0, s1, s2)" by (metis prod.exhaust)
  have b: "0 \<le> x mod m" "x mod m < 2 ^ 32" for x
    using assms(2,3) pos_mod_bound [of m x] by (simp, linarith)
  have "row_times fl m r s = (a2 * s2 + (a1 * s1 + a0 * s0 mod m) mod m) mod m"
    using assms b by (simp add: row_times_def rs MultModM_eq)
  then show ?thesis by (simp add: dot3_def rs mod_simps ac_simps)
qed

lemma reduced_bounded: "m < 2 ^ 32 \<Longrightarrow> reduced m s \<Longrightarrow> all3 (\<lambda>x. \<bar>x\<bar> < 2 ^ 32) s"
  by (auto simp: reduced_def all3_def split: prod.splits)

lemma MatVecModM_eq:
  assumes "ieee fl" "0 < m" "m < 2 ^ 32" "small A" "all3 (\<lambda>x. \<bar>x\<bar> < 2 ^ 32) s"
  shows "MatVecModM fl A s m = mv3 m A s"
  using assms row_times_eq [OF assms(1-3) _ assms(5)]
  by (auto simp: MatVecModM_def mv3_def small_def split: prod.splits)

lemma MatMatModM_eq:
  assumes "ieee fl" "0 < m" "m < 2 ^ 32" "small A" "small B"
  shows "MatMatModM fl A B m = mm3 m A B"
proof -
  obtain v0 v1 v2 where v: "transpose3 B = (v0, v1, v2)" by (metis prod.exhaust)
  have "all3 (all3 (\<lambda>x. \<bar>x\<bar> < 2 ^ 32)) (v0, v1, v2)" using assms(5) v by (metis small_def transpose3_all3)
  then show ?thesis using MatVecModM_eq [OF assms(1-4)] by (simp add: MatMatModM_def mm3_def v)
qed

lemma mm3_act: "mv3 m (mm3 m A B) s = mv3 m A (mv3 m B s)"
proof -
  obtain a b c d e f g h i where A: "A = ((a, b, c), (d, e, f), (g, h, i))" by (metis prod.exhaust)
  obtain a' b' c' d' e' f' g' h' i' where B: "B = ((a', b', c'), (d', e', f'), (g', h', i'))" by (metis prod.exhaust)
  obtain x y z where s: "s = (x, y, z)" by (metis prod.exhaust)
  have row: "((u * a' + v * d' + w * g') mod m * x + (u * b' + v * e' + w * h') mod m * y + (u * c' + v * f' + w * i') mod m * z) mod m =
    (u * ((a' * x + b' * y + c' * z) mod m) + v * ((d' * x + e' * y + f' * z) mod m) + w * ((g' * x + h' * y + i' * z) mod m)) mod m"
    for u v w
  proof -
    have "((u * a' + v * d' + w * g') mod m * x + (u * b' + v * e' + w * h') mod m * y + (u * c' + v * f' + w * i') mod m * z) mod m =
      ((u * a' + v * d' + w * g') * x + (u * b' + v * e' + w * h') * y + (u * c' + v * f' + w * i') * z) mod m"
      by (intro mod_add_cong mod_mult_cong) simp_all
    also have "\<dots> = (u * (a' * x + b' * y + c' * z) + v * (d' * x + e' * y + f' * z) + w * (g' * x + h' * y + i' * z)) mod m"
      by (simp add: algebra_simps)
    also have "\<dots> = (u * ((a' * x + b' * y + c' * z) mod m) + v * ((d' * x + e' * y + f' * z) mod m) + w * ((g' * x + h' * y + i' * z) mod m)) mod m"
      by (intro mod_add_cong mod_mult_cong) simp_all
    finally show ?thesis .
  qed
  show ?thesis by (simp add: A B s mm3_def mv3_def dot3_def transpose3_def row)
qed

lemma mv3_mod: "mv3 m ((a mod m, b mod m, c mod m), (d mod m, e mod m, f mod m), (g mod m, h mod m, i mod m)) s =
    mv3 m ((a, b, c), (d, e, f), (g, h, i)) s"
proof -
  have "((u mod m) * x + (v mod m) * y + (w mod m) * z) mod m = (u * x + v * y + w * z) mod m" for u v w x y z
    by (intro mod_add_cong mod_mult_cong) simp_all
  then show ?thesis by (simp add: mv3_def dot3_def split: prod.splits)
qed

lemma mv3_one: "reduced m s \<Longrightarrow> mv3 m ((1, 0, 0), (0, 1, 0), (0, 0, 1)) s = s"
  by (auto simp: mv3_def dot3_def reduced_def all3_def split: prod.splits)

section \<open>Powers\<close>

lemma funpow_cong_inv:
  assumes "\<And>x. P x \<Longrightarrow> f x = g x" "\<And>x. P x \<Longrightarrow> P (g x)" "P x"
  shows "(f ^^ n) x = (g ^^ n) x \<and> P ((g ^^ n) x)"
  by (induction n) (use assms in auto)

lemma MatTwoPowModM_eq:
  assumes "ieee fl" "0 < m" "m < 2 ^ 32" "small A"
  shows "MatTwoPowModM fl A m e = ((\<lambda>B. mm3 m B B) ^^ e) A" "small (MatTwoPowModM fl A m e)"
proof -
  have "(\<And>B. small B \<Longrightarrow> MatMatModM fl B B m = mm3 m B B)" "(\<And>B. small B \<Longrightarrow> small (mm3 m B B))"
    using MatMatModM_eq [OF assms(1-3)] mm3_small [OF assms(2,3)] by blast+
  from funpow_cong_inv [where P = small and f = "\<lambda>B. MatMatModM fl B B m" and g = "\<lambda>B. mm3 m B B", OF this assms(4), of e]
  show "MatTwoPowModM fl A m e = ((\<lambda>B. mm3 m B B) ^^ e) A" "small (MatTwoPowModM fl A m e)"
    by (simp_all add: MatTwoPowModM_def)
qed

lemma square_act: "mv3 m (((\<lambda>B. mm3 m B B) ^^ e) A) s = (mv3 m A ^^ 2 ^ e) s"
proof (induction e arbitrary: s)
  case (Suc e)
  have "mv3 m (((\<lambda>B. mm3 m B B) ^^ Suc e) A) s = (mv3 m A ^^ 2 ^ e) ((mv3 m A ^^ 2 ^ e) s)"
    by (simp add: mm3_act Suc.IH)
  then show ?case by (simp add: funpow_add [symmetric, THEN fun_cong, unfolded o_def] mult_2)
qed simp

lemma mat_pow_loop_0 [simp]: "mat_pow_loop fl m 0 W B = B"
  by (subst mat_pow_loop.simps) simp

lemma mat_pow_loop_act:
  assumes fl: "ieee fl" and m: "0 < m" "m < 2 ^ 32"
  shows "small W \<Longrightarrow> small B \<Longrightarrow> small (mat_pow_loop fl m n W B) \<and>
    mv3 m (mat_pow_loop fl m n W B) s = (mv3 m W ^^ n) (mv3 m B s)"
proof (induction n arbitrary: W B rule: less_induct)
  case (less n)
  show ?case
  proof (cases "n = 0")
    case True
    then show ?thesis using less.prems by simp
  next
    case False
    let ?W = "mm3 m W W" and ?B = "if n mod 2 \<noteq> 0 then mm3 m W B else B"
    have eq: "mat_pow_loop fl m n W B = mat_pow_loop fl m (n div 2) ?W ?B"
      using False less.prems MatMatModM_eq [OF fl m] by (subst mat_pow_loop.simps) auto
    have sm: "small ?W" "small ?B" using less.prems mm3_small [OF m] by auto
    have W2: "mv3 m ?W = mv3 m W \<circ> mv3 m W" by (rule ext) (simp add: mm3_act)
    have "(mv3 m ?W ^^ (n div 2)) x = (mv3 m W ^^ (2 * (n div 2))) x" for x
    proof -
      have "mv3 m W \<circ> mv3 m W = mv3 m W ^^ 2" by (simp add: numeral_2_eq_2)
      then show ?thesis unfolding W2 by (simp add: funpow_mult)
    qed
    moreover have "mv3 m ?B s = (mv3 m W ^^ (n mod 2)) (mv3 m B s)" by (auto simp: mm3_act mod2_eq_if)
    ultimately have "(mv3 m ?W ^^ (n div 2)) (mv3 m ?B s) = (mv3 m W ^^ (2 * (n div 2) + n mod 2)) (mv3 m B s)"
      by (simp only: funpow_add o_apply)
    then show ?thesis using less.IH [OF _ sm, of "n div 2"] False by (simp add: eq)
  qed
qed

lemma MatPowModM_act:
  assumes "ieee fl" "0 < m" "m < 2 ^ 32" "small A" "reduced m s"
  shows "mv3 m (MatPowModM fl A m n) s = (mv3 m A ^^ n) s" "small (MatPowModM fl A m n)"
proof -
  have "small ((1, 0, 0), (0, 1, 0), (0, 0, 1))" by (simp add: small_def)
  from mat_pow_loop_act [OF assms(1-4) this, of n s] mv3_one [OF assms(5)]
  show "mv3 m (MatPowModM fl A m n) s = (mv3 m A ^^ n) s" "small (MatPowModM fl A m n)"
    by (simp_all add: MatPowModM_def)
qed

section \<open>Squaring a companion matrix\<close>

text \<open>A polynomial in the companion matrix of \<open>x ^ 3 = p * x ^ 2 + q * x + r\<close> is given by its first row.\<close>

fun shift_row :: "int \<Rightarrow> int \<Rightarrow> int \<Rightarrow> vec3 \<Rightarrow> vec3" where
  "shift_row p q r (a, b, c) = (r * c, a + q * c, b + p * c)"

definition comp3 :: "int \<Rightarrow> int \<Rightarrow> int \<Rightarrow> vec3 \<Rightarrow> mat3" where
  "comp3 p q r c = (c, shift_row p q r c, shift_row p q r (shift_row p q r c))"

definition mod_vec :: "int \<Rightarrow> vec3 \<Rightarrow> vec3" where
  "mod_vec m v = (case v of (a, b, c) \<Rightarrow> (a mod m, b mod m, c mod m))"

definition mod_mat :: "int \<Rightarrow> mat3 \<Rightarrow> mat3" where
  "mod_mat m A = (case A of (u, v, w) \<Rightarrow> (mod_vec m u, mod_vec m v, mod_vec m w))"

lemma mv3_mod_mat: "mv3 m (mod_mat m A) s = mv3 m A s"
  by (simp add: mod_mat_def mod_vec_def mv3_mod split: prod.splits)

lemma mm3_mod_mat: "mm3 m (mod_mat m A) (mod_mat m B) = mm3 m A B"
proof -
  have d: "((u mod m) * (x mod m) + (v mod m) * (y mod m) + (w mod m) * (z mod m)) mod m = (u * x + v * y + w * z) mod m"
    for u v w x y z by (intro mod_add_cong mod_mult_cong) simp_all
  show ?thesis by (simp add: mod_mat_def mod_vec_def mm3_def mv3_def dot3_def transpose3_def d split: prod.splits)
qed

lemma mod_vec_shift:
  assumes "mod_vec m u = mod_vec m v"
  shows "mod_vec m (shift_row p q r u) = mod_vec m (shift_row p q r v)"
proof -
  obtain a b c a' b' c' where u: "u = (a, b, c)" "v = (a', b', c')" by (metis prod.exhaust)
  have e: "a mod m = a' mod m" "b mod m = b' mod m" "c mod m = c' mod m" using assms by (simp_all add: mod_vec_def u)
  have "(r * c) mod m = (r * c') mod m" "(a + q * c) mod m = (a' + q * c') mod m" "(b + p * c) mod m = (b' + p * c') mod m"
    using e by (intro mod_add_cong mod_mult_cong; simp)+
  then show ?thesis by (simp add: mod_vec_def u)
qed

lemma mod_mat_comp: "mod_vec m u = mod_vec m v \<Longrightarrow> mod_mat m (comp3 p q r u) = mod_mat m (comp3 p q r v)"
  unfolding mod_mat_def comp3_def prod.case by (intro arg_cong2 [where f = Pair] mod_vec_shift)

fun poly_sq :: "int \<Rightarrow> int \<Rightarrow> int \<Rightarrow> vec3 \<Rightarrow> vec3" where
  "poly_sq p q r (a, b, c) =
     (let x4 = c * c; x3 = 2 * b * c + p * x4
      in (a * a + r * x3, 2 * a * b + q * x3 + r * x4, b * b + 2 * a * c + p * x3 + q * x4))"

lemma comp3_sq: "mm3 m (comp3 p q r c) (comp3 p q r c) = mod_mat m (comp3 p q r (poly_sq p q r c))"
proof -
  obtain x y z where c: "c = (x, y, z)" by (metis prod.exhaust)
  have cong: "u = v \<Longrightarrow> u mod m = v mod m" for u v by simp
  show ?thesis
    unfolding c by (simp add: comp3_def mm3_def mv3_def dot3_def transpose3_def mod_mat_def mod_vec_def Let_def)
      (intro conjI cong; simp add: algebra_simps)
qed

text \<open>The reduction \<open>red\<close> keeps the coefficients below \<open>2 ^ 34\<close> without a division; \<open>w\<close> is \<open>2 ^ 32\<close> modulo \<open>m\<close>.\<close>

definition red :: "int \<Rightarrow> int \<Rightarrow> int" where
  "red w x = take_bit 32 x + w * drop_bit 32 x"

lemma red_mod:
  assumes "w mod m = 2 ^ 32 mod m"
  shows "red w x mod m = x mod m"
proof -
  have "red w x mod m = (take_bit 32 x + 2 ^ 32 * drop_bit 32 x) mod m"
    unfolding red_def using assms by (intro mod_add_cong mod_mult_cong) simp_all
  also have "take_bit 32 x + 2 ^ 32 * drop_bit 32 x = x" by (simp add: take_bit_eq_mod drop_bit_eq_div)
  finally show ?thesis .
qed

fun csq_iter :: "int \<Rightarrow> int \<Rightarrow> int \<Rightarrow> int \<Rightarrow> nat \<Rightarrow> vec3 \<Rightarrow> vec3" where
  "csq_iter w p q r 0 c = c"
| "csq_iter w p q r (Suc n) (a, b, c) =
     (let x4 = red w (red w (c * c)); x3 = red w (red w (2 * b * c + p * x4))
      in csq_iter w p q r n
        (red w (red w (a * a + r * x3)), red w (red w (2 * a * b + q * x3 + r * x4)),
         red w (red w (b * b + 2 * a * c + p * x3 + q * x4))))"

lemma csq_iter_mod:
  assumes w: "w mod m = 2 ^ 32 mod m"
  shows "mod_mat m (comp3 p q r (csq_iter w p q r n c)) = mod_mat m (((\<lambda>B. mm3 m B B) ^^ n) (comp3 p q r c))"
proof (induction n arbitrary: c)
  case (Suc n)
  obtain x y z where c: "c = (x, y, z)" by (metis prod.exhaust)
  define x4 where "x4 = red w (red w (z * z))"
  define x3 where "x3 = red w (red w (2 * y * z + p * x4))"
  define d where "d = (red w (red w (x * x + r * x3)), red w (red w (2 * x * y + q * x3 + r * x4)),
         red w (red w (y * y + 2 * x * z + p * x3 + q * x4)))"
  define S where "S = (\<lambda>B. mm3 m B B)"
  note rm = red_mod [OF w]
  have x4: "x4 mod m = (z * z) mod m" by (simp add: rm x4_def)
  have "(2 * y * z + p * x4) mod m = (2 * y * z + p * (z * z)) mod m"
    using x4 by (intro mod_add_cong mod_mult_cong refl)
  then have x3: "x3 mod m = (2 * y * z + p * (z * z)) mod m" by (simp add: rm x3_def)
  have "mod_vec m d = mod_vec m (poly_sq p q r c)"
    unfolding c d_def poly_sq.simps Let_def mod_vec_def prod.case rm
    using x3 x4 by (intro arg_cong2 [where f = Pair] mod_add_cong mod_mult_cong refl)
  then have step: "mod_mat m (comp3 p q r d) = S (comp3 p q r c)"
    unfolding comp3_sq S_def by (rule mod_mat_comp)
  have "csq_iter w p q r (Suc n) c = csq_iter w p q r n d"
    by (simp add: c d_def x4_def x3_def Let_def)
  then have "mod_mat m (comp3 p q r (csq_iter w p q r (Suc n) c)) = mod_mat m ((S ^^ n) (comp3 p q r d))"
    using Suc.IH [of d] by (simp add: S_def)
  also have "\<dots> = mod_mat m ((S ^^ Suc n) (comp3 p q r c))"
  proof (cases n)
    case 0
    have "mod_mat m (S A) = S A" for A
      by (simp add: S_def mod_mat_def mod_vec_def mm3_def mv3_def dot3_def transpose3_def split: prod.splits)
    then show ?thesis using step 0 by simp
  next
    case (Suc k)
    have "S (comp3 p q r d) = S (S (comp3 p q r c))"
      unfolding step [symmetric] by (simp add: S_def mm3_mod_mat)
    then show ?thesis using Suc by (simp add: funpow_Suc_right del: funpow.simps)
  qed
  finally show ?case unfolding S_def .
qed simp

section \<open>The constants of the code\<close>

lemma row_A1p76: "mod_vec rng_m1 (csq_iter 209 0 1403580 4294156359 76 (0, 1, 0)) = (82758667, 1871391091, 4127413238)"
  by code_simp

lemma row_A1p127:
  "mod_vec rng_m1 (csq_iter 209 0 1403580 4294156359 51 (82758667, 1871391091, 4127413238)) = (2427906178, 3580155704, 949770784)"
  by code_simp

lemma row_A2p76: "mod_vec rng_m2 (csq_iter 22853 527612 0 4293573854 76 (0, 1, 0)) = (1511326704, 3759209742, 1610795712)"
  by code_simp

lemma row_A2p127:
  "mod_vec rng_m2 (csq_iter 22853 527612 0 4293573854 51 (1511326704, 3759209742, 1610795712)) = (1464411153, 277697599, 1610723613)"
  by code_simp

lemma comp3_power:
  assumes w: "w mod m = 2 ^ 32 mod m" and row: "mod_vec m (csq_iter w p q r n c) = c'" and c': "mod_vec m c' = c'"
    and B: "mod_mat m B = mod_mat m (comp3 p q r c')"
  shows "mv3 m B s = (mv3 m (comp3 p q r c) ^^ 2 ^ n) s"
proof -
  have "mod_vec m c' = mod_vec m (csq_iter w p q r n c)" using row c' by simp
  then have "mod_mat m (comp3 p q r c') = mod_mat m (((\<lambda>B. mm3 m B B) ^^ n) (comp3 p q r c))"
    unfolding csq_iter_mod [OF w, symmetric] by (rule mod_mat_comp)
  then have "mv3 m (mod_mat m B) s = mv3 m (mod_mat m (((\<lambda>B. mm3 m B B) ^^ n) (comp3 p q r c))) s" using B by simp
  then have "mv3 m B s = mv3 m (((\<lambda>B. mm3 m B B) ^^ n) (comp3 p q r c)) s" by (simp only: mv3_mod_mat)
  then show ?thesis by (simp add: square_act)
qed

lemmas companion_defs = comp3_def mod_mat_def mod_vec_def

lemma A1_act: "mv3 rng_m1 A1p0 = mv3 rng_m1 (comp3 0 1403580 4294156359 (0, 1, 0))"
proof
  fix s
  have "mod_mat rng_m1 A1p0 = mod_mat rng_m1 (comp3 0 1403580 4294156359 (0, 1, 0))"
    by (simp add: companion_defs A1p0_def)
  then show "mv3 rng_m1 A1p0 s = mv3 rng_m1 (comp3 0 1403580 4294156359 (0, 1, 0)) s" by (metis mv3_mod_mat)
qed

lemma A2_act: "mv3 rng_m2 A2p0 = mv3 rng_m2 (comp3 527612 0 4293573854 (0, 1, 0))"
proof
  fix s
  have "mod_mat rng_m2 A2p0 = mod_mat rng_m2 (comp3 527612 0 4293573854 (0, 1, 0))"
    by (simp add: companion_defs A2p0_def)
  then show "mv3 rng_m2 A2p0 s = mv3 rng_m2 (comp3 527612 0 4293573854 (0, 1, 0)) s" by (metis mv3_mod_mat)
qed

lemma A1p76_act: "mv3 rng_m1 A1p76 s = (mv3 rng_m1 A1p0 ^^ 2 ^ 76) s"
  unfolding A1_act
  by (rule comp3_power [OF _ row_A1p76]) (simp_all add: companion_defs A1p76_def)

lemma A2p76_act: "mv3 rng_m2 A2p76 s = (mv3 rng_m2 A2p0 ^^ 2 ^ 76) s"
  unfolding A2_act
  by (rule comp3_power [OF _ row_A2p76]) (simp_all add: companion_defs A2p76_def)

lemma funpow_twice:
  fixes f g :: "'a \<Rightarrow> 'a"
  assumes "\<And>x. f x = (g ^^ 2 ^ a) x"
  shows "(f ^^ 2 ^ b) x = (g ^^ 2 ^ (a + b)) x"
proof -
  have f: "f = g ^^ 2 ^ a" using assms by (rule ext)
  show ?thesis unfolding f funpow_mult power_add ..
qed

lemma A1p127_act: "mv3 rng_m1 A1p127 s = (mv3 rng_m1 A1p0 ^^ 2 ^ 127) s"
proof -
  let ?c = "comp3 0 1403580 4294156359 (82758667, 1871391091, 4127413238)"
  have "mod_mat rng_m1 A1p76 = mod_mat rng_m1 ?c" by (simp add: companion_defs A1p76_def)
  then have c: "mv3 rng_m1 ?c x = (mv3 rng_m1 A1p0 ^^ 2 ^ 76) x" for x
    unfolding A1p76_act [symmetric] by (metis mv3_mod_mat)
  have "mv3 rng_m1 A1p127 s = (mv3 rng_m1 ?c ^^ 2 ^ 51) s"
    by (rule comp3_power [OF _ row_A1p127]) (simp_all add: companion_defs A1p127_def)
  also have "\<dots> = (mv3 rng_m1 A1p0 ^^ 2 ^ (76 + 51)) s" using c by (rule funpow_twice)
  finally show ?thesis by (simp only: numeral_plus_numeral semiring_norm)
qed

lemma A2p127_act: "mv3 rng_m2 A2p127 s = (mv3 rng_m2 A2p0 ^^ 2 ^ 127) s"
proof -
  let ?c = "comp3 527612 0 4293573854 (1511326704, 3759209742, 1610795712)"
  have "mod_mat rng_m2 A2p76 = mod_mat rng_m2 ?c" by (simp add: companion_defs A2p76_def)
  then have c: "mv3 rng_m2 ?c x = (mv3 rng_m2 A2p0 ^^ 2 ^ 76) x" for x
    unfolding A2p76_act [symmetric] by (metis mv3_mod_mat)
  have "mv3 rng_m2 A2p127 s = (mv3 rng_m2 ?c ^^ 2 ^ 51) s"
    by (rule comp3_power [OF _ row_A2p127]) (simp_all add: companion_defs A2p127_def)
  also have "\<dots> = (mv3 rng_m2 A2p0 ^^ 2 ^ (76 + 51)) s" using c by (rule funpow_twice)
  finally show ?thesis by (simp only: numeral_plus_numeral semiring_norm)
qed

lemma inverses:
  "mm3 rng_m1 InvA1 A1p0 = ((1, 0, 0), (0, 1, 0), (0, 0, 1))" "mm3 rng_m1 A1p0 InvA1 = ((1, 0, 0), (0, 1, 0), (0, 0, 1))"
  "mm3 rng_m2 InvA2 A2p0 = ((1, 0, 0), (0, 1, 0), (0, 0, 1))" "mm3 rng_m2 A2p0 InvA2 = ((1, 0, 0), (0, 1, 0), (0, 0, 1))"
  by (simp_all add: mm3_def mv3_def dot3_def transpose3_def InvA1_def A1p0_def InvA2_def A2p0_def)

lemma constants_small:
  "small A1p0" "small A2p0" "small InvA1" "small InvA2" "small A1p76" "small A2p76" "small A1p127" "small A2p127"
  by (simp_all add: small_def A1p0_def A2p0_def InvA1_def InvA2_def A1p76_def A2p76_def A1p127_def A2p127_def)

section \<open>Steps of the state\<close>

definition state_reduced :: "rng_state \<Rightarrow> bool" where
  "state_reduced s \<longleftrightarrow> reduced rng_m1 (fst s) \<and> reduced rng_m2 (snd s)"

text \<open>A valid state: both components are reduced and neither is zero.\<close>

definition rng_valid :: "rng_state \<Rightarrow> bool" where
  "rng_valid s \<longleftrightarrow> state_reduced s \<and> fst s \<noteq> (0, 0, 0) \<and> snd s \<noteq> (0, 0, 0)"

definition step_fwd :: "rng_state \<Rightarrow> rng_state" where
  "step_fwd s = (mv3 rng_m1 A1p0 (fst s), mv3 rng_m2 A2p0 (snd s))"

definition step_back :: "rng_state \<Rightarrow> rng_state" where
  "step_back s = (mv3 rng_m1 InvA1 (fst s), mv3 rng_m2 InvA2 (snd s))"

lemma step_reduced [simp]: "state_reduced (step_fwd s)" "state_reduced (step_back s)"
  by (simp_all add: state_reduced_def step_fwd_def step_back_def mv3_reduced)

lemma step_inverse:
  assumes "state_reduced s"
  shows "step_back (step_fwd s) = s" "step_fwd (step_back s) = s"
  using assms by (simp_all add: state_reduced_def step_fwd_def step_back_def mm3_act [symmetric] inverses mv3_one)

lemma mv3_zero: "mv3 m A (0, 0, 0) = (0, 0, 0)"
  by (simp add: mv3_def dot3_def split: prod.splits)

lemma step_valid:
  assumes "rng_valid s"
  shows "rng_valid (step_fwd s)" "rng_valid (step_back s)"
proof -
  have s: "state_reduced s" "fst s \<noteq> (0, 0, 0)" "snd s \<noteq> (0, 0, 0)" using assms by (simp_all add: rng_valid_def)
  have "fst (step_fwd s) \<noteq> (0, 0, 0)"
    using step_inverse(1) [OF s(1)] s(2) by (metis fst_conv mv3_zero step_back_def)
  moreover have "snd (step_fwd s) \<noteq> (0, 0, 0)"
    using step_inverse(1) [OF s(1)] s(3) by (metis snd_conv mv3_zero step_back_def)
  moreover have "fst (step_back s) \<noteq> (0, 0, 0)"
    using step_inverse(2) [OF s(1)] s(2) by (metis fst_conv mv3_zero step_fwd_def)
  moreover have "snd (step_back s) \<noteq> (0, 0, 0)"
    using step_inverse(2) [OF s(1)] s(3) by (metis snd_conv mv3_zero step_fwd_def)
  ultimately show "rng_valid (step_fwd s)" "rng_valid (step_back s)" by (simp_all add: rng_valid_def)
qed

lemma step_fwd_pow: "(step_fwd ^^ n) s = ((mv3 rng_m1 A1p0 ^^ n) (fst s), (mv3 rng_m2 A2p0 ^^ n) (snd s))"
  by (induction n) (simp_all add: step_fwd_def)

lemma step_back_pow: "(step_back ^^ n) s = ((mv3 rng_m1 InvA1 ^^ n) (fst s), (mv3 rng_m2 InvA2 ^^ n) (snd s))"
  by (induction n) (simp_all add: step_back_def)

lemma pow_reduced: "state_reduced s \<Longrightarrow> state_reduced ((step_fwd ^^ n) s)" "state_reduced s \<Longrightarrow> state_reduced ((step_back ^^ n) s)"
  by (cases n; simp)+

lemma pow_valid: "rng_valid s \<Longrightarrow> rng_valid ((step_fwd ^^ n) s)"
  by (induction n) (simp_all add: step_valid)

text \<open>\<open>steps k\<close> goes \<open>k\<close> steps forward, or \<open>- k\<close> back.\<close>

definition steps :: "int \<Rightarrow> rng_state \<Rightarrow> rng_state" where
  "steps k s = (if 0 \<le> k then (step_fwd ^^ nat k) s else (step_back ^^ nat (- k)) s)"

lemma steps_0 [simp]: "steps 0 s = s"
  by (simp add: steps_def)

lemma steps_reduced: "state_reduced s \<Longrightarrow> state_reduced (steps k s)"
  by (simp add: steps_def pow_reduced)

lemma steps_succ:
  assumes "state_reduced s"
  shows "steps (k + 1) s = step_fwd (steps k s)"
proof (cases "0 \<le> k")
  case True
  then show ?thesis by (simp add: steps_def nat_add_distrib)
next
  case False
  then obtain n where k: "k = - int (Suc n)" by (metis negD not_le)
  have "step_fwd ((step_back ^^ Suc n) s) = (step_back ^^ n) s"
    using step_inverse(2) [OF pow_reduced(2) [OF assms, of n]] by simp
  then show ?thesis by (simp add: steps_def k nat_add_distrib del: funpow.simps)
qed

lemma steps_pred:
  assumes "state_reduced s"
  shows "steps (k - 1) s = step_back (steps k s)"
  using steps_succ [OF assms, of "k - 1"] step_inverse(1) [OF steps_reduced [OF assms, of "k - 1"]] by simp

lemma steps_add:
  assumes "state_reduced s"
  shows "steps (a + b) s = steps a (steps b s)"
proof (induction a rule: int_induct [where k = 0])
  case (step1 i)
  have "steps (i + 1 + b) s = step_fwd (steps (i + b) s)" using steps_succ [OF assms, of "i + b"] by (simp add: ac_simps)
  then show ?case using step1 steps_succ [OF steps_reduced [OF assms, of b], of i] by simp
next
  case (step2 i)
  have "steps (i - 1 + b) s = step_back (steps (i + b) s)" using steps_pred [OF assms, of "i + b"] by (simp add: algebra_simps)
  then show ?case using step2 steps_pred [OF steps_reduced [OF assms, of b], of i] by simp
qed simp

section \<open>The operations on streams\<close>

lemma next_component_eq:
  assumes "ieee fl" "0 < m" "m < 2 ^ 32" "\<bar>p\<bar> < 2 ^ 53"
  shows "next_component fl p m = p mod m"
  using c_mod_facts(3) [OF assms(2), of p] by (simp add: next_component_def Let_def reduce_eq [OF assms])

lemma rng_U01_state:
  assumes fl: "ieee fl" and v: "state_reduced (rg_Cg g)"
  shows "snd (rng_U01 fl g) = g\<lparr>rg_Cg := step_fwd (rg_Cg g)\<rparr>"
proof -
  obtain c0 c1 c2 c3 c4 c5 where c: "rg_Cg g = ((c0, c1, c2), (c3, c4, c5))" by (metis prod.exhaust)
  have r: "0 \<le> c0" "c0 < rng_m1" "0 \<le> c1" "c1 < rng_m1" "0 \<le> c2" "c2 < rng_m1" "0 \<le> c3" "c3 < rng_m2" "0 \<le> c4" "c4 < rng_m2"
    "0 \<le> c5" "c5 < rng_m2"
    using v by (simp_all add: c state_reduced_def reduced_def)
  have "\<bar>1403580 * c1 - 810728 * c0\<bar> < 2 ^ 53" "\<bar>527612 * c5 - 1370589 * c3\<bar> < 2 ^ 53" using r by auto
  then have p: "next_component fl (1403580 * c1 - 810728 * c0) rng_m1 = (1403580 * c1 - 810728 * c0) mod rng_m1"
    "next_component fl (527612 * c5 - 1370589 * c3) rng_m2 = (527612 * c5 - 1370589 * c3) mod rng_m2"
    using next_component_eq [OF fl] by simp_all
  have "step_fwd (rg_Cg g) =
      ((c1, c2, (1403580 * c1 - 810728 * c0) mod rng_m1), (c4, c5, (527612 * c5 - 1370589 * c3) mod rng_m2))"
    using r by (simp add: c step_fwd_def mv3_def dot3_def A1p0_def A2p0_def)
  then show ?thesis by (simp add: rng_U01_def c p Let_def)
qed

lemma rng_U01_pow:
  assumes fl: "ieee fl" and v: "state_reduced (rg_Cg g)"
  shows "((\<lambda>h. snd (rng_U01 fl h)) ^^ n) g = g\<lparr>rg_Cg := (step_fwd ^^ n) (rg_Cg g)\<rparr>"
proof (induction n)
  case (Suc n)
  have "state_reduced ((step_fwd ^^ n) (rg_Cg g))" using v by (rule pow_reduced)
  with rng_U01_state [OF fl, of "g\<lparr>rg_Cg := (step_fwd ^^ n) (rg_Cg g)\<rparr>"] Suc show ?case by simp
qed simp

lemma MatVec2_eq:
  assumes "ieee fl" "small A" "small B" "state_reduced s"
  shows "MatVec2 fl A B s = (mv3 rng_m1 A (fst s), mv3 rng_m2 B (snd s))"
  using assms reduced_bounded [of rng_m1 "fst s"] reduced_bounded [of rng_m2 "snd s"]
  by (auto simp: MatVec2_def MatVecModM_eq state_reduced_def split: prod.splits)

lemma MatVec2_jumps:
  assumes "ieee fl" "state_reduced s"
  shows "MatVec2 fl A1p76 A2p76 s = (step_fwd ^^ 2 ^ 76) s" "MatVec2 fl A1p127 A2p127 s = (step_fwd ^^ 2 ^ 127) s"
  unfolding step_fwd_pow MatVec2_eq [OF assms(1) constants_small(5,6) assms(2)]
    MatVec2_eq [OF assms(1) constants_small(7,8) assms(2)] A1p76_act A2p76_act A1p127_act A2p127_act by simp_all

definition jump_length :: "int \<Rightarrow> int" where
  "jump_length e = (if e > 0 then 2 ^ nat e else if e < 0 then - (2 ^ nat (- e)) else 0)"

lemma advance_steps:
  assumes fl: "ieee fl" and v: "state_reduced (rg_Cg g)"
  shows "rng_advance_state fl e c g = g\<lparr>rg_Cg := steps (jump_length e + c) (rg_Cg g)\<rparr>"
proof -
  obtain u w where uw: "rg_Cg g = (u, w)" by (cases "rg_Cg g")
  have r: "reduced rng_m1 u" "reduced rng_m2 w" using v by (simp_all add: uw state_reduced_def)
  have m: "0 < rng_m1" "rng_m1 < 2 ^ 32" "0 < rng_m2" "rng_m2 < 2 ^ 32" by simp_all
  define C1 where "C1 = (if c \<ge> 0 then MatPowModM fl A1p0 rng_m1 (nat c) else MatPowModM fl InvA1 rng_m1 (nat (- c)))"
  define C2 where "C2 = (if c \<ge> 0 then MatPowModM fl A2p0 rng_m2 (nat c) else MatPowModM fl InvA2 rng_m2 (nat (- c)))"
  define B1 where "B1 = (if e > 0 then MatTwoPowModM fl A1p0 rng_m1 (nat e) else MatTwoPowModM fl InvA1 rng_m1 (nat (- e)))"
  define B2 where "B2 = (if e > 0 then MatTwoPowModM fl A2p0 rng_m2 (nat e) else MatTwoPowModM fl InvA2 rng_m2 (nat (- e)))"
  note p1 = MatPowModM_act [OF fl m(1,2) _ r(1)] and p2 = MatPowModM_act [OF fl m(3,4) _ r(2)]
  have sC: "small C1" "small C2" unfolding C1_def C2_def using p1(2) p2(2) constants_small by auto
  have C: "(mv3 rng_m1 C1 u, mv3 rng_m2 C2 w) = steps c (u, w)"
    using p1(1) p2(1) constants_small by (simp add: C1_def C2_def steps_def step_fwd_pow step_back_pow)
  note t1 = MatTwoPowModM_eq [OF fl m(1,2)] and t2 = MatTwoPowModM_eq [OF fl m(3,4)]
  have sB: "small B1" "small B2" unfolding B1_def B2_def using t1(2) t2(2) constants_small by auto
  have B: "(mv3 rng_m1 B1 (fst x), mv3 rng_m2 B2 (snd x)) = steps (jump_length e) x" if "e \<noteq> 0" for x
  proof (cases "e > 0")
    case True
    then show ?thesis using constants_small
      by (simp add: B1_def B2_def t1(1) t2(1) square_act steps_def jump_length_def step_fwd_pow nat_power_eq)
  next
    case False
    then have "e < 0" using that by simp
    then have "steps (jump_length e) x = (step_back ^^ 2 ^ nat (- e)) x"
      by (simp add: steps_def jump_length_def nat_power_eq)
    then show ?thesis using False constants_small
      by (simp add: B1_def B2_def t1(1) t2(1) square_act step_back_pow)
  qed
  define D1 where "D1 = (if e \<noteq> 0 then MatMatModM fl B1 C1 rng_m1 else C1)"
  define D2 where "D2 = (if e \<noteq> 0 then MatMatModM fl B2 C2 rng_m2 else C2)"
  have D: "D1 = (if e \<noteq> 0 then mm3 rng_m1 B1 C1 else C1)" "D2 = (if e \<noteq> 0 then mm3 rng_m2 B2 C2 else C2)"
    using MatMatModM_eq [OF fl m(1,2) sB(1) sC(1)] MatMatModM_eq [OF fl m(3,4) sB(2) sC(2)] by (simp_all add: D1_def D2_def)
  have sD: "small D1" "small D2" using D sC mm3_small m by simp_all
  have adv: "rng_advance_state fl e c g = g\<lparr>rg_Cg := MatVec2 fl D1 D2 (rg_Cg g)\<rparr>"
    by (simp add: rng_advance_state_def Let_def D1_def D2_def B1_def B2_def C1_def C2_def)
  have "MatVec2 fl D1 D2 (u, w) = (mv3 rng_m1 D1 u, mv3 rng_m2 D2 w)"
    using MatVec2_eq [OF fl sD, of "(u, w)"] r by (simp add: state_reduced_def)
  also have "\<dots> = steps (jump_length e) (steps c (u, w))"
  proof (cases "e = 0")
    case True
    then show ?thesis using C by (simp add: D jump_length_def)
  next
    case False
    from B [OF this, of "steps c (u, w)"] show ?thesis using False by (simp add: D mm3_act C [symmetric])
  qed
  also have "\<dots> = steps (jump_length e + c) (u, w)" using steps_add [of "(u, w)"] v uw by simp
  finally show ?thesis using adv uw by simp
qed

section \<open>Ranges\<close>

lemma rng_valid_reduced: "rng_valid s \<Longrightarrow> state_reduced s"
  by (simp add: rng_valid_def)

text \<open>The random numbers of \<open>U01\<close>: the difference of the components is between 1 and \<open>m1\<close>.\<close>

lemma rng_U01_value:
  assumes "ieee fl" "rng_valid (rg_Cg g)"
  obtains n where "0 < n" "n \<le> rng_m1"
    "fst (rng_U01 fl g) = (let u = fl (real_of_int n * rng_norm fl) in if rg_anti g then fl (1 - u) else u)"
proof -
  obtain c0 c1 c2 c3 c4 c5 where c: "rg_Cg g = ((c0, c1, c2), (c3, c4, c5))" by (metis prod.exhaust)
  define p1 where "p1 = next_component fl (1403580 * c1 - 810728 * c0) rng_m1"
  define p2 where "p2 = next_component fl (527612 * c5 - 1370589 * c3) rng_m2"
  have "rg_Cg (snd (rng_U01 fl g)) = ((c1, c2, p1), (c4, c5, p2))"
    by (simp add: rng_U01_def c Let_def p1_def p2_def)
  moreover have "state_reduced (rg_Cg (snd (rng_U01 fl g)))"
    using rng_U01_state [OF assms(1) rng_valid_reduced [OF assms(2)]] by simp
  ultimately have p: "0 \<le> p1" "p1 < rng_m1" "0 \<le> p2" "p2 < rng_m2" by (simp_all add: state_reduced_def reduced_def)
  define n where "n = (if p1 > p2 then p1 - p2 else p1 - p2 + rng_m1)"
  have "0 < n" "n \<le> rng_m1" using p by (auto simp: n_def)
  moreover have "fst (rng_U01 fl g) = (let u = fl (real_of_int n * rng_norm fl) in if rg_anti g then fl (1 - u) else u)"
    by (simp add: rng_U01_def c Let_def n_def flip: p1_def p2_def)
  ultimately show ?thesis by (rule that)
qed

lemma double_33: "is_double (1 / 2 ^ 33)" "is_double (1 - 1 / 2 ^ 33)"
  using is_double_frac [of 1 33] is_double_frac [of "2 ^ 33 - 1" 33] by (simp_all add: diff_divide_distrib)

lemma rng_U01_range:
  assumes fl: "nearest fl" and v: "rng_valid (rg_Cg g)"
  shows "1 / 2 ^ 33 \<le> fst (rng_U01 fl g) \<and> fst (rng_U01 fl g) \<le> 1 - 1 / 2 ^ 33"
proof -
  obtain n where n: "0 < n" "n \<le> rng_m1"
    "fst (rng_U01 fl g) = (let u = fl (real_of_int n * rng_norm fl) in if rg_anti g then fl (1 - u) else u)"
    using rng_U01_value [OF nearest_ieee [OF fl] v] .
  let ?N = "rng_norm fl" and ?u = "fl (real_of_int n * rng_norm fl)"
  define q where "q = 1 / (real_of_int rng_m1 + 1)"
  have "0 \<le> q" by (simp add: q_def)
  then have "q - q / 2 ^ 53 \<le> ?N" "?N \<le> q + q / 2 ^ 53"
    using nearest_relative [OF fl, of q] unfolding rng_norm_def q_def [symmetric] by linarith+
  moreover have "1 / 2 ^ 33 \<le> q - q / 2 ^ 53" "real_of_int rng_m1 * (q + q / 2 ^ 53) \<le> 1 - 1 / 2 ^ 33"
    by (simp_all add: q_def)
  ultimately have N: "1 / 2 ^ 33 \<le> ?N" "real_of_int rng_m1 * ?N \<le> 1 - 1 / 2 ^ 33"
    using mult_left_mono [of ?N "q + q / 2 ^ 53" "real_of_int rng_m1"] by linarith+
  have r: "1 \<le> real_of_int n" "real_of_int n \<le> real_of_int rng_m1" using n(1,2) by linarith+
  have "0 \<le> ?N" using N(1) by (rule order_trans [rotated]) simp
  then have "1 * ?N \<le> real_of_int n * ?N" "real_of_int n * ?N \<le> real_of_int rng_m1 * ?N"
    using r by (intro mult_right_mono; simp)+
  then have "1 / 2 ^ 33 \<le> real_of_int n * ?N" "real_of_int n * ?N \<le> 1 - 1 / 2 ^ 33" using N by linarith+
  then have u: "1 / 2 ^ 33 \<le> ?u" "?u \<le> 1 - 1 / 2 ^ 33"
    using nearest_ge [OF fl double_33(1)] nearest_le [OF fl double_33(2)] by blast+
  then have "1 / 2 ^ 33 \<le> fl (1 - ?u)" "fl (1 - ?u) \<le> 1 - 1 / 2 ^ 33"
    using nearest_ge [OF fl double_33(1), of "1 - ?u"] nearest_le [OF fl double_33(2), of "1 - ?u"] by simp_all
  with u show ?thesis by (simp add: n(3) Let_def)
qed

lemma rng_U01_double: "nearest fl \<Longrightarrow> is_double (fst (rng_U01 fl g))"
  by (simp add: rng_U01_def nearestD(1) Let_def split: prod.splits)

text \<open>The two cases of \<open>U01d\<close>.\<close>

lemma extended_plain:
  assumes fl: "nearest fl" and u: "0 < u" "u \<le> 1 - 1 / 2 ^ 33" "0 < u'" "u' \<le> 1" and w: "w = fl (u + fl (u' * rng_fact))"
  shows "0 \<le> (if w < 1 then w else fl (w - 1)) \<and> (if w < 1 then w else fl (w - 1)) < 1"
proof -
  have f: "is_double rng_fact" "0 < rng_fact" using is_double_frac [of 1 24] by (simp_all add: rng_fact_def)
  have "u' * rng_fact \<le> 1 * rng_fact" "0 \<le> u' * rng_fact" using u f by (intro mult_right_mono, auto)
  then have p: "fl (u' * rng_fact) \<le> rng_fact" "0 \<le> fl (u' * rng_fact)"
    using nearest_le [OF fl f(1)] nearest_ge [OF fl is_double_0_1(1)] by simp_all
  then have "0 \<le> w" unfolding w using u(1) nearest_ge [OF fl is_double_0_1(1)] by simp
  moreover have "fl (w - 1) < 1 \<and> 0 \<le> fl (w - 1)" if "1 \<le> w"
  proof -
    have d: "is_double (1 + rng_fact)" "is_double rng_fact"
      using is_double_frac [of "2 ^ 24 + 1" 24] f by (simp_all add: rng_fact_def)
    have "u + fl (u' * rng_fact) \<le> 1 + rng_fact" using p(1) u(2) by simp
    then have "w \<le> 1 + rng_fact" unfolding w by (rule nearest_le [OF fl d(1)])
    then have "fl (w - 1) \<le> rng_fact" by (intro nearest_le [OF fl d(2)]) simp
    moreover have "rng_fact < 1" by (simp add: rng_fact_def)
    moreover have "0 \<le> fl (w - 1)" using that by (intro nearest_ge [OF fl is_double_0_1(1)]) simp
    ultimately show ?thesis by linarith
  qed
  ultimately show ?thesis by simp
qed

lemma extended_antithetic:
  assumes fl: "nearest fl" and u: "0 < u" "u \<le> 1 - 1 / 2 ^ 33" "0 < u'" "u' \<le> 1"
    and w: "w = fl (u + fl (fl (u' - 1) * rng_fact))"
  shows "0 \<le> (if w < 0 then fl (w + 1) else w) \<and> (if w < 0 then fl (w + 1) else w) \<le> 1"
proof -
  have d: "is_double (- 1)" "is_double (- rng_fact)" "0 < rng_fact" "rng_fact < 1"
    using is_double_int [of "- 1"] is_double_frac [of "- 1" 24] by (simp_all add: rng_fact_def)
  have "- 1 \<le> fl (u' - 1)" using u(3) by (intro nearest_ge [OF fl d(1)]) simp
  moreover have "fl (u' - 1) \<le> 0" using u(4) by (intro nearest_le [OF fl is_double_0_1(1)]) simp
  ultimately have "- 1 * rng_fact \<le> fl (u' - 1) * rng_fact" "fl (u' - 1) * rng_fact \<le> 0"
    using d(3) by (intro mult_right_mono, auto simp: mult_nonpos_nonneg)
  then have p: "- rng_fact \<le> fl (fl (u' - 1) * rng_fact)" "fl (fl (u' - 1) * rng_fact) \<le> 0"
    using nearest_ge [OF fl d(2)] nearest_le [OF fl is_double_0_1(1)] by simp_all
  have "w \<le> 1" unfolding w using p(2) u(2) by (intro nearest_le [OF fl is_double_0_1(2)]) simp
  moreover have "- rng_fact \<le> w" unfolding w using p(1) u(1) by (intro nearest_ge [OF fl d(2)]) simp
  then have "0 \<le> fl (w + 1)" using d(4) by (intro nearest_ge [OF fl is_double_0_1(1)]) simp
  moreover have "fl (w + 1) \<le> 1" if "w < 0" using that by (intro nearest_le [OF fl is_double_0_1(2)]) simp
  ultimately show ?thesis by simp
qed

lemma rand_u01_ok:
  assumes nr: "nearest fl" and v: "rng_valid (rg_Cg g)"
  shows "rng_valid (rg_Cg (snd (rand_u01 fl g)))" "0 \<le> fst (rand_u01 fl g)" "fst (rand_u01 fl g) \<le> 1"
    "\<not> (rg_anti g \<and> rg_inc_prec g) \<Longrightarrow> fst (rand_u01 fl g) < 1"
    "\<not> rg_inc_prec g \<Longrightarrow> 0 < fst (rand_u01 fl g)"
    "is_double (fst (rand_u01 fl g))"
proof -
  let ?g1 = "snd (rng_U01 fl g)"
  let ?u = "fst (rng_U01 fl g)" and ?u' = "fst (rng_U01 fl ?g1)"
  have fl: "ieee fl" by (rule nearest_ieee [OF nr])
  have st: "?g1 = g\<lparr>rg_Cg := step_fwd (rg_Cg g)\<rparr>" by (rule rng_U01_state [OF fl rng_valid_reduced [OF v]])
  then have v1: "rng_valid (rg_Cg ?g1)" using step_valid [OF v] by simp
  have v2: "rng_valid (rg_Cg (snd (rng_U01 fl ?g1)))"
    using rng_U01_state [OF fl rng_valid_reduced [OF v1]] step_valid [OF v1] by simp
  have pos: "(0 :: real) < 1 / 2 ^ 33" by simp
  have u: "0 < ?u" "?u \<le> 1 - 1 / 2 ^ 33" and u': "0 < ?u'" "?u' \<le> 1 - 1 / 2 ^ 33"
    using rng_U01_range [OF nr v] rng_U01_range [OF nr v1] pos by linarith+
  then have lt: "?u < 1" "?u' \<le> 1" using pos by linarith+
  define w where "w = fl (?u + fl (fl (?u' - 1) * rng_fact))"
  define w' where "w' = fl (?u + fl (?u' * rng_fact))"
  define x where "x = (if w < 0 then fl (w + 1) else w)"
  define x' where "x' = (if w' < 1 then w' else fl (w' - 1))"
  have d: "rng_U01d fl g = (if rg_anti g then x else x', snd (rng_U01 fl ?g1))"
    by (simp add: rng_U01d_def x_def x'_def w_def w'_def Let_def split: prod.splits)
  have x: "0 \<le> x" "x \<le> 1" "0 \<le> x'" "x' < 1"
    using extended_antithetic [OF nr u u'(1) lt(2) w_def] extended_plain [OF nr u u'(1) lt(2) w'_def]
    by (simp_all add: x_def x'_def)
  have dd: "is_double x" "is_double x'" using nearestD(1) [OF nr] by (simp_all add: x_def x'_def w_def w'_def)
  show "rng_valid (rg_Cg (snd (rand_u01 fl g)))" using v1 v2 by (simp add: rand_u01_def d)
  show "0 \<le> fst (rand_u01 fl g)" using x u by (simp add: rand_u01_def d)
  show "fst (rand_u01 fl g) \<le> 1" using x lt by (simp add: rand_u01_def d)
  show "fst (rand_u01 fl g) < 1" if "\<not> (rg_anti g \<and> rg_inc_prec g)"
    using that x lt by (auto simp: rand_u01_def d)
  show "0 < fst (rand_u01 fl g)" if "\<not> rg_inc_prec g" using that u by (simp add: rand_u01_def)
  show "is_double (fst (rand_u01 fl g))"
    using dd rng_U01_double [OF nr, of g] by (simp add: rand_u01_def d)
qed

text \<open>A random integer, from the random number.\<close>

lemma rand_int_value:
  assumes nr: "nearest fl" and b: "low \<le> high" "high - low + 1 \<le> 2 ^ 53" "- (2 ^ 63) \<le> low" "high + 1 < 2 ^ 63"
    and u: "0 \<le> fst (rand_u01 fl g)" "fst (rand_u01 fl g) \<le> 1"
  shows "rand_int fl low high g = (low + \<lfloor>fl (real_of_int (high - low + 1) * fst (rand_u01 fl g))\<rfloor>, snd (rand_u01 fl g))"
    and "low \<le> fst (rand_int fl low high g)" "fst (rand_int fl low high g) \<le> high + 1"
proof -
  let ?n = "high - low + 1" and ?u = "fst (rand_u01 fl g)"
  let ?x = "fl (real_of_int ?n * ?u)"
  have n: "?n mod 2 ^ 64 = ?n" using b by (intro mod_pos_pos_trivial) simp_all
  have dn: "is_double (real_of_int ?n)" using b by (intro is_double_int) simp
  have "0 \<le> real_of_int ?n * ?u" using b(1) u(1) by (intro mult_nonneg_nonneg) simp_all
  then have x0: "0 \<le> ?x" by (rule nearest_ge [OF nr is_double_0_1(1)])
  have "real_of_int ?n * ?u \<le> real_of_int ?n * 1" using b(1) u(2) by (intro mult_left_mono) simp_all
  then have xn: "?x \<le> real_of_int ?n" by (intro nearest_le [OF nr dn]) simp
  have f: "0 \<le> \<lfloor>?x\<rfloor>" using x0 by simp
  have "\<lfloor>?x\<rfloor> \<le> ?n" using xn by (simp only: floor_mono [OF xn, unfolded floor_of_int])
  with f have w: "low \<le> low + \<lfloor>?x\<rfloor>" "low + \<lfloor>?x\<rfloor> \<le> high + 1" by linarith+
  then have "wrap_s64 (low + \<lfloor>?x\<rfloor>) = low + \<lfloor>?x\<rfloor>" using b(3,4) by (intro wrap_s64_id) linarith+
  then show e: "rand_int fl low high g = (low + \<lfloor>?x\<rfloor>, snd (rand_u01 fl g))"
    unfolding rand_int_def n nearest_id [OF nr dn] by (simp add: Let_def prod.case_eq_if)
  show "low \<le> fst (rand_int fl low high g)" "fst (rand_int fl low high g) \<le> high + 1" unfolding e using w by simp_all
qed

lemma substream_pow:
  assumes "ieee fl" "state_reduced (rg_Bg g)" "MatVec2 fl A1p76 A2p76 (rg_Bg g) = (step_fwd ^^ n) (rg_Bg g)"
  shows "rng_reset_next_substream fl g =
    (let h = ((\<lambda>h. snd (rng_U01 fl h)) ^^ n) (rng_reset_start_substream g) in h\<lparr>rg_Bg := rg_Cg h\<rparr>)"
  using assms(3) rng_U01_pow [OF assms(1), of "rng_reset_start_substream g" n] assms(2)
  by (simp add: rng_reset_next_substream_def rng_reset_start_substream_def Let_def)

lemma stream_pow:
  assumes "ieee fl" "state_reduced (pk_next_seed pkg)" "MatVec2 fl A1p127 A2p127 (pk_next_seed pkg) = (step_fwd ^^ n) (pk_next_seed pkg)"
  shows "pk_next_seed (snd (rng_init fl pkg)) = rg_Cg (((\<lambda>h. snd (rng_U01 fl h)) ^^ n) (fst (rng_init fl pkg)))"
  using assms(3) rng_U01_pow [OF assms(1), of "fst (rng_init fl pkg)" n] assms(2)
  by (simp add: rng_init_def Let_def)

section \<open>Properties\<close>

text \<open>
  C36: the constants of the generator space its streams as promised: the next substream starts where
  \<open>2 ^ 76\<close> random numbers after the start of this one would have led, and the next stream
  \<open>2 ^ 127\<close> numbers after the start of this one, for any rounding of divisions
  that obeys the IEEE standard.
\<close>

theorem rng_stream_spacing:
  assumes "ieee fl" "rng_valid (rg_Bg g)" "rng_valid (pk_next_seed pkg)"
  shows "rng_reset_next_substream fl g =
      (let h = ((\<lambda>h. snd (rng_U01 fl h)) ^^ 2 ^ 76) (rng_reset_start_substream g) in h\<lparr>rg_Bg := rg_Cg h\<rparr>) \<and>
    pk_next_seed (snd (rng_init fl pkg)) = rg_Cg (((\<lambda>h. snd (rng_U01 fl h)) ^^ 2 ^ 127) (fst (rng_init fl pkg)))"
proof -
  have v: "state_reduced (rg_Bg g)" "state_reduced (pk_next_seed pkg)" using assms(2,3) by (simp_all add: rng_valid_reduced)
  show ?thesis
    by (intro conjI substream_pow stream_pow assms(1) v MatVec2_jumps)
qed

lemma default_seed_valid: "rng_valid (pk_next_seed rng_package_new)"
  by (simp add: rng_package_new_def rng_valid_def state_reduced_def reduced_def)

theorem rng_stream_spacing_witness:
  "pk_next_seed (snd (rng_init (\<lambda>x. x) rng_package_new)) =
     rg_Cg (((\<lambda>h. snd (rng_U01 (\<lambda>x. x) h)) ^^ 2 ^ 127) (fst (rng_init (\<lambda>x. x) rng_package_new)))"
proof -
  have "rng_valid (rg_Bg (fst (rng_init (\<lambda>x. x) rng_package_new)))"
    using default_seed_valid by (simp add: rng_init_def Let_def)
  from rng_stream_spacing [OF ieee_exact this default_seed_valid] show ?thesis by (rule conjunct2)
qed

text \<open>
  C37: \<open>advance_state e c\<close> jumps by \<open>n = 2 ^ e + c\<close> numbers (\<open>- 2 ^ (- e) + c\<close> for negative \<open>e\<close>,
  \<open>c\<close> for zero): forward it reaches the state that generating \<open>n\<close> numbers does, and
  after a jump backward generating \<open>- n\<close> numbers returns to the start.
\<close>

theorem rng_advance_state_jumps:
  assumes "ieee fl" "rng_valid (rg_Cg g)"
  shows "(0 \<le> jump_length e + c \<longrightarrow>
      rng_advance_state fl e c g = ((\<lambda>h. snd (rng_U01 fl h)) ^^ nat (jump_length e + c)) g) \<and>
    (jump_length e + c < 0 \<longrightarrow>
      ((\<lambda>h. snd (rng_U01 fl h)) ^^ nat (- (jump_length e + c))) (rng_advance_state fl e c g) = g)"
proof (intro conjI impI)
  have v: "state_reduced (rg_Cg g)" using assms(2) by (rule rng_valid_reduced)
  note adv = advance_steps [OF assms(1) v, of e c]
  define n where "n = jump_length e + c"
  show "rng_advance_state fl e c g = ((\<lambda>h. snd (rng_U01 fl h)) ^^ nat (jump_length e + c)) g" if "0 \<le> jump_length e + c"
    using that adv by (simp add: rng_U01_pow [OF assms(1) v] steps_def)
  show "((\<lambda>h. snd (rng_U01 fl h)) ^^ nat (- (jump_length e + c))) (rng_advance_state fl e c g) = g" if "jump_length e + c < 0"
  proof -
    have s: "state_reduced (steps n (rg_Cg g))" by (rule steps_reduced [OF v])
    have "0 \<le> - n" using that by (simp add: n_def)
    then have "(step_fwd ^^ nat (- n)) (steps n (rg_Cg g)) = steps (- n) (steps n (rg_Cg g))"
      by (simp add: steps_def [of "- n"])
    also have "\<dots> = rg_Cg g" using steps_add [OF v, of "- n" n] by simp
    finally have "(step_fwd ^^ nat (- n)) (steps n (rg_Cg g)) = rg_Cg g" .
    then show ?thesis using rng_U01_pow [OF assms(1), of "g\<lparr>rg_Cg := steps n (rg_Cg g)\<rparr>" "nat (- n)"] s adv
      by (simp flip: n_def)
  qed
qed

definition demo_rng :: rng where
  "demo_rng = fst (rng_init (\<lambda>x. x) rng_package_new)"

lemma demo_rng_valid: "rng_valid (rg_Cg demo_rng)"
  using default_seed_valid by (simp add: demo_rng_def rng_init_def Let_def)

theorem rng_advance_state_jumps_witness:
  "rng_advance_state (\<lambda>x. x) 3 2 demo_rng = ((\<lambda>h. snd (rng_U01 (\<lambda>x. x) h)) ^^ 10) demo_rng"
  using rng_advance_state_jumps [OF ieee_exact demo_rng_valid, of 3 2] by (simp add: jump_length_def)

text \<open>
  C38: jumping back undoes jumping forward: \<open>advance_state\<close> with the signs of both arguments
  changed restores the state.
\<close>

theorem rng_advance_roundtrip:
  assumes "ieee fl" "rng_valid (rg_Cg g)"
  shows "rng_advance_state fl (- e) (- c) (rng_advance_state fl e c g) = g"
proof -
  have v: "state_reduced (rg_Cg g)" using assms(2) by (rule rng_valid_reduced)
  let ?n = "jump_length e + c"
  have j: "jump_length (- e) + - c = - ?n" by (simp add: jump_length_def)
  have "state_reduced (steps ?n (rg_Cg g))" by (rule steps_reduced [OF v])
  then have "rng_advance_state fl (- e) (- c) (rng_advance_state fl e c g) = g\<lparr>rg_Cg := steps (- ?n) (steps ?n (rg_Cg g))\<rparr>"
    using advance_steps [OF assms(1), of "g\<lparr>rg_Cg := steps ?n (rg_Cg g)\<rparr>" "- e" "- c"]
    by (simp only: advance_steps [OF assms(1) v] j) simp
  then show ?thesis using steps_add [OF v, of "- ?n" ?n] by simp
qed

theorem rng_advance_roundtrip_witness:
  "rng_advance_state (\<lambda>x. x) (-7) 5 (rng_advance_state (\<lambda>x. x) 7 (-5) demo_rng) = demo_rng"
  using rng_advance_roundtrip [OF ieee_exact demo_rng_valid, of 7 "-5"] by simp

text \<open>
  C39: from a valid state the random numbers, with every operation on doubles rounded to a nearest one, lie
  in \<open>[0, 1)\<close>, except that 1 is possible with antithetic numbers of increased precision (and is
  reached, \<open>rng_one_reached\<close>); without increased precision they are not 0. For a range of at most \<open>2 ^ 53\<close>
  integers the random integers lie between their bounds, except that with antithetic numbers of increased
  precision the upper bound can be exceeded by 1. The state stays valid: reduced modulo its moduli, with
  neither component zero.
\<close>

theorem rng_outputs_in_range:
  assumes "nearest fl" "rng_valid (rg_Cg g)"
    and "low \<le> high" "high - low + 1 \<le> 2 ^ 53" "- (2 ^ 63) \<le> low" "high + 1 < 2 ^ 63"
    and "plain = (\<not> (rg_anti g \<and> rg_inc_prec g))"
  shows "rng_valid (rg_Cg (snd (rand_u01 fl g))) \<and> 0 \<le> fst (rand_u01 fl g) \<and> fst (rand_u01 fl g) \<le> 1 \<and>
    (plain \<longrightarrow> fst (rand_u01 fl g) < 1) \<and> (\<not> rg_inc_prec g \<longrightarrow> 0 < fst (rand_u01 fl g)) \<and>
    low \<le> fst (rand_int fl low high g) \<and> fst (rand_int fl low high g) \<le> high + 1 \<and>
    (plain \<longrightarrow> fst (rand_int fl low high g) \<le> high) \<and>
    snd (rand_int fl low high g) = snd (rand_u01 fl g)"
proof -
  note u = rand_u01_ok [OF assms(1,2)] and i = rand_int_value [OF assms(1,3-6) rand_u01_ok(2,3) [OF assms(1,2)]]
  have "fst (rand_int fl low high g) \<le> high" if plain
  proof -
    let ?n = "high - low + 1"
    have "fst (rand_u01 fl g) \<le> 1 - 1 / 2 ^ 53"
      using that u(4,6) assms(7) by (intro double_below_1) simp_all
    then have "fl (real_of_int ?n * fst (rand_u01 fl g)) < real_of_int ?n"
      using assms(3,4) by (intro nearest_product_less [OF assms(1)]) simp_all
    then have "\<lfloor>fl (real_of_int ?n * fst (rand_u01 fl g))\<rfloor> < ?n" by (simp only: floor_less_iff)
    then show ?thesis unfolding i(1) by simp
  qed
  with u i assms(7) show ?thesis by simp
qed

theorem rng_outputs_in_range_witness:
  "1 \<le> fst (rand_int dbl 1 6 demo_rng) \<and> fst (rand_int dbl 1 6 demo_rng) \<le> 6"
  using rng_outputs_in_range [OF dbl_nearest demo_rng_valid, of 1 6 True] by (simp add: demo_rng_def rng_init_def Let_def)

text \<open>
  A state from which antithetic numbers of increased precision give 1, and a die 7: the sum of the two
  halves of the number is negative and so near to 0 that adding 1 gives 1.
\<close>

definition demo_top :: rng where
  "demo_top = \<lparr>rg_Cg = ((0, 1, 13), (0, 881828871, 1226359468)), rg_Bg = ((0, 1, 13), (0, 881828871, 1226359468)),
     rg_Ig = ((0, 1, 13), (0, 881828871, 1226359468)), rg_anti = True, rg_inc_prec = True\<rparr>"

lemma demo_top_valid: "rng_valid (rg_Cg demo_top)"
  by (simp add: demo_top_def rng_valid_def state_reduced_def reduced_def)

lemma rng_one_reached:
  assumes nr: "nearest fl"
  shows "fst (rand_u01 fl demo_top) = 1" "fst (rand_int fl 1 6 demo_top) = 7"
proof -
  have fl: "ieee fl" by (rule nearest_ieee [OF nr])
  note nc = next_component_eq [OF fl]
  note fr = nearest_frac [OF nr]
  have N: "rng_norm fl = 4503599845474315 / 2 ^ 84"
    unfolding rng_norm_def using fr [of 4503599845474315 "1 / 4294967088" 84] by simp
  have P1: "fl (4294967087 * rng_norm fl) = 9007199252643841 / 2 ^ 53"
    unfolding N using fr [of 9007199252643841 "4294967087 * (4503599845474315 / 2 ^ 84)" 53] by simp
  have P2: "fl (16777209 * rng_norm fl) = 9007195932852064 / 2 ^ 61"
    unfolding N using fr [of 9007195932852064 "16777209 * (4503599845474315 / 2 ^ 84)" 61] by simp
  have A: "fl (1 - 9007199252643841 / 2 ^ 53) = 2097151 / 2 ^ 53"
    using nearest_id [OF nr is_double_frac [of 2097151 53]] by simp
  have B: "fl (1 - 9007195932852064 / 2 ^ 61) = 8972014895628289 / 2 ^ 53"
    using fr [of 8972014895628289 "1 - 9007195932852064 / 2 ^ 61" 53] by simp
  have C: "fl (8972014895628289 / 2 ^ 53 - 1) = - 35184359112703 / 2 ^ 53"
    using nearest_id [OF nr is_double_frac [of "- 35184359112703" 53]] by simp
  have D: "fl (- 35184359112703 / 2 ^ 53 * rng_fact) = - 35184359112703 / 2 ^ 77"
    using nearest_id [OF nr is_double_frac [of "- 35184359112703" 77]] by (simp add: rng_fact_def)
  have W: "fl (2097151 / 2 ^ 53 + - 35184359112703 / 2 ^ 77) = - 3801087 / 2 ^ 77"
    using nearest_id [OF nr is_double_frac [of "- 3801087" 77]] by simp
  have R: "fl (- 3801087 / 2 ^ 77 + 1) = 1"
    using fr [of "2 ^ 53" "- 3801087 / 2 ^ 77 + 1" 53] by simp
  define g1 where "g1 = snd (rng_U01 fl demo_top)"
  have "fst (rng_U01 fl demo_top) = fl (1 - fl (4294967087 * rng_norm fl))"
    using nc by (simp add: rng_U01_def demo_top_def Let_def)
  then have 1: "fst (rng_U01 fl demo_top) = 2097151 / 2 ^ 53" unfolding P1 A .
  have "fst (rng_U01 fl g1) = fl (1 - fl (16777209 * rng_norm fl))"
    using nc by (simp add: g1_def rng_U01_def demo_top_def Let_def)
  then have 2: "fst (rng_U01 fl g1) = 8972014895628289 / 2 ^ 53" unfolding P2 B .
  have d: "rng_U01d fl demo_top = (let w = fl (fst (rng_U01 fl demo_top) + fl (fl (fst (rng_U01 fl g1) - 1) * rng_fact))
      in (if w < 0 then fl (w + 1) else w, snd (rng_U01 fl g1)))"
    by (simp add: rng_U01d_def Let_def prod.case_eq_if g1_def) (simp add: demo_top_def)
  have "rng_U01d fl demo_top = (1, snd (rng_U01 fl g1))"
    unfolding d 1 2 C D W Let_def R by simp
  then show one: "fst (rand_u01 fl demo_top) = 1" by (simp add: rand_u01_def demo_top_def)
  show "fst (rand_int fl 1 6 demo_top) = 7"
    using rand_int_value(1) [OF nr, of 1 6 demo_top] one nearest_id [OF nr is_double_int [of 6]] by simp
qed

text \<open>
  C40: a raw seed outside \<open>1 .. 2 ^ 31 - 2\<close> or a predefined one outside \<open>0 .. 63\<close> aborts; any other
  yields a stream in a valid state, and the next seed of the package stays valid.
\<close>

theorem rng_set_seed_checks:
  assumes "ieee fl" "source \<noteq> HEURISTIC_SEED_SOURCE"
  shows "case rng_set_seed fl tv source seed pkg of
      Inl e \<Rightarrow> e = Abort \<and> \<not> (if source = RAW_SEED_SOURCE then 0 < seed \<and> seed < 2 ^ 31 - 1 else 0 \<le> seed \<and> seed < 64)
    | Inr (g, pkg') \<Rightarrow> (if source = RAW_SEED_SOURCE then 0 < seed \<and> seed < 2 ^ 31 - 1 else 0 \<le> seed \<and> seed < 64) \<and>
        rng_valid (rg_Cg g) \<and> rg_Bg g = rg_Cg g \<and> rg_Ig g = rg_Cg g \<and> rng_valid (pk_next_seed pkg')"
proof -
  have long: "\<exists>g pkg'. rng_set_seed_long fl n pkg = Ok (g, pkg') \<and> rng_valid (rg_Cg g) \<and> rg_Bg g = rg_Cg g \<and> rg_Ig g = rg_Cg g \<and>
      rng_valid (pk_next_seed pkg')" if n: "0 < n" "n < 2 ^ 31 - 1" for n
  proof -
    let ?s = "((n, n, n), (n, n, n))"
    have s: "CheckSeed ?s" "rng_valid ?s" using n by (simp_all add: CheckSeed_def rng_valid_def state_reduced_def reduced_def)
    have "rng_valid (MatVec2 fl A1p127 A2p127 ?s)"
      unfolding MatVec2_jumps(2) [OF assms(1) rng_valid_reduced [OF s(2)]] by (rule pow_valid [OF s(2)])
    moreover have "n mod 2 ^ 64 = n" using n by (intro mod_pos_pos_trivial) simp_all
    ultimately show ?thesis using s by (simp add: rng_set_seed_long_def rng_set_package_seed_def rng_init_def Let_def)
  qed
  have "list_all (\<lambda>n. 0 < n \<and> n < 2 ^ 31 - 1) predef_seeds" "length predef_seeds = 64" by (simp_all add: predef_seeds_def)
  then have pre: "0 < predef_seeds ! nat seed" "predef_seeds ! nat seed < 2 ^ 31 - 1" if "0 \<le> seed" "seed < 64"
    using that by (auto simp: list_all_length)
  show ?thesis
  proof (cases source)
    case RAW_SEED_SOURCE
    with long [of seed] show ?thesis by (auto simp: rng_set_seed_def)
  next
    case PREDEF_SEED_SOURCE
    with long [OF pre] show ?thesis by (cases "seed < 0 \<or> seed \<ge> 64") (auto simp: rng_set_seed_def)
  qed (use assms(2) in simp)
qed

theorem rng_set_seed_checks_witness:
  "(case rng_set_seed (\<lambda>x. x) (\<lambda>_. 0) PREDEF_SEED_SOURCE 64 rng_package_new of Inl e \<Rightarrow> e = Abort | Inr r \<Rightarrow> False) \<and>
   (case rng_set_seed (\<lambda>x. x) (\<lambda>_. 0) RAW_SEED_SOURCE 7 rng_package_new of Inl e \<Rightarrow> False | Inr r \<Rightarrow> rng_valid (rg_Cg (fst r)))"
  using rng_set_seed_checks [OF ieee_exact, where source = PREDEF_SEED_SOURCE and tv = "\<lambda>_. 0" and seed = 64 and pkg = rng_package_new]
    rng_set_seed_checks [OF ieee_exact, where source = RAW_SEED_SOURCE and tv = "\<lambda>_. 0" and seed = 7 and pkg = rng_package_new]
  by (auto split: sum.splits)

text \<open>
  the previous generator, with its masks and shifts instead of a division, computes \<open>16807\<close> times the
  seed modulo \<open>2 ^ 31 - 1\<close> for every seed in range, and stays in range.
\<close>

theorem old_rng_is_multiplicative:
  assumes "0 < seed" "seed < 2 ^ 31 - 1"
  shows "old_rng_next seed = 16807 * seed mod (2 ^ 31 - 1) \<and> 0 < old_rng_next seed \<and> old_rng_next seed < 2 ^ 31 - 1"
proof -
  define lo where "lo = seed mod 65536"
  define hi where "hi = seed div 65536"
  have seed: "seed = hi * 65536 + lo" "0 \<le> lo" "lo < 65536" "0 \<le> hi" "hi < 32768"
    using assms by (simp_all add: lo_def hi_def)
  define h0 where "h0 = (16807 * hi) mod 32768"
  define h1 where "h1 = (16807 * hi) div 32768"
  have h: "16807 * hi = h1 * 32768 + h0" "0 \<le> h0" "h0 < 32768" "0 \<le> h1" "h1 < 16807"
    using seed(4,5) by (simp_all add: h0_def h1_def)
  have masks: "seed AND 65535 = lo" "16807 * hi AND 32767 = h0"
    using take_bit_eq_mask [of 16 seed] take_bit_eq_mask [of 15 "16807 * hi"]
    by (simp_all add: take_bit_eq_mod lo_def h0_def mask_eq_exp_minus_1)
  define s where "s = h0 * 65536 + 16807 * lo - 2147483647 + h1"
  have old: "old_rng_next seed = (if s \<le> 0 then s + 2147483647 else s)"
    using masks by (simp add: old_rng_next_def Let_def drop_bit_eq_div push_bit_eq_mult s_def h1_def flip: hi_def)
  have val: "16807 * seed = (h1 + 1) * 2147483647 + s" unfolding seed(1) using h(1) by (simp add: s_def algebra_simps)
  have b: "- 2147483647 \<le> s" "s < 2147483647" using seed h by (auto simp: s_def)
  have ne: "s mod 2147483647 \<noteq> 0"
  proof
    assume "s mod 2147483647 = 0"
    then have d: "2147483647 dvd 16807 * seed" unfolding val by auto
    have "coprime (2147483647 :: int) 16807" by code_simp
    then have "2147483647 dvd seed" using d by (simp add: coprime_dvd_mult_right_iff)
    then show False using assms zdvd_imp_le [of 2147483647 seed] by simp
  qed
  have "16807 * seed mod 2147483647 = s mod 2147483647" unfolding val by (rule mod_mult_self3)
  moreover have "s mod 2147483647 = (if s \<le> 0 then s + 2147483647 else s) \<and> s \<noteq> 0 \<and> s \<noteq> - 2147483647"
  proof (cases "s \<le> 0")
    case True
    have z: "s \<noteq> 0" "s \<noteq> - 2147483647" using ne by auto
    have "s mod 2147483647 = (s + 2147483647) mod 2147483647" by simp
    also have "\<dots> = s + 2147483647" using True z b by (intro mod_pos_pos_trivial) auto
    finally show ?thesis using True z by simp
  next
    case False
    then show ?thesis using b by simp
  qed
  ultimately show ?thesis using old b by auto
qed

theorem old_rng_is_multiplicative_witness:
  "old_rng_next 1 = 16807 \<and> old_rng_next 1622650073 = 984943658"
  using old_rng_is_multiplicative [of 1] old_rng_is_multiplicative [of 1622650073] by simp

end
