(* ===== verification/Routing.thy ===== *)
theory Routing
  imports Prelude
begin

text \<open>
  The route computation of \<open>routing/route.cc\<close>: \<open>RouteLogic\<close> keeps a square matrix of link costs that grows with
  the node numbers, computes the next hops from every node to every other one, and answers lookups. Nodes are numbered from 1; row and
  column 0 are not used. A null pointer \<open>adj_\<close> or \<open>route_\<close> is \<open>None\<close>; the entries of type \<open>void*\<close> are numbers, 0 the null
  pointer. Costs are real numbers.
\<close>

section \<open>The matrix of costs\<close>

record adj_entry =
  ae_cost :: real
  ae_entry :: nat

record route_entry =
  re_next_hop :: nat
  re_entry :: nat

record route_logic =
  rl_adj :: "adj_entry list option"
  rl_route :: "route_entry list option"
  rl_size :: nat

definition RL_INFINITY :: real where
  "RL_INFINITY = 16383"

definition INDEX :: "nat \<Rightarrow> nat \<Rightarrow> nat \<Rightarrow> nat" where
  "INDEX i j N = N * i + j"

definition rl_new :: route_logic where
  "rl_new = \<lparr>rl_adj = None, rl_route = None, rl_size = 0\<rparr>"

definition rl_reset_all :: "route_logic \<Rightarrow> route_logic" where
  "rl_reset_all r = r\<lparr>rl_adj := None, rl_route := None, rl_size := 0\<rparr>"

definition rl_alloc :: "nat \<Rightarrow> route_logic \<Rightarrow> route_logic" where
  "rl_alloc n r = r\<lparr>rl_size := n, rl_adj := Some (replicate (n * n) \<lparr>ae_cost = RL_INFINITY, ae_entry = 0\<rparr>)\<rparr>"

text \<open>The size doubles until node \<open>n\<close> fits.\<close>

function grow_size :: "nat \<Rightarrow> nat \<Rightarrow> nat" where
  "grow_size m n = (if 0 < m \<and> m \<le> n then grow_size (2 * m) n else m)"
  by pat_completeness auto
termination by (relation "measure (\<lambda>(m, n). n + 1 - m)") auto

declare grow_size.simps [simp del]

definition copy_row :: "adj_entry list \<Rightarrow> nat \<Rightarrow> nat \<Rightarrow> nat \<Rightarrow> adj_entry list \<Rightarrow> adj_entry list" where
  "copy_row old osize m i xs =
     foldl (\<lambda>xs j. xs[INDEX i j m := (xs ! INDEX i j m)\<lparr>ae_cost := ae_cost (old ! INDEX i j osize)\<rparr>]) xs [0..<osize]"

definition rl_check :: "nat \<Rightarrow> route_logic \<Rightarrow> route_logic" where
  "rl_check n r =
     (if n < rl_size r then r
      else let osize = rl_size r;
               old = (case rl_adj r of None \<Rightarrow> [] | Some a \<Rightarrow> a);
               m = grow_size (if osize = 0 then 16 else osize) n;
               r1 = rl_alloc m r
           in r1\<lparr>rl_adj := map_option (\<lambda>a. foldl (\<lambda>xs i. copy_row old osize m i xs) a [0..<osize]) (rl_adj r1)\<rparr>)"

definition rl_set_cost :: "nat \<Rightarrow> nat \<Rightarrow> real \<Rightarrow> route_logic \<Rightarrow> route_logic" where
  "rl_set_cost src dst cost r =
     (let i = INDEX src dst (rl_size r)
      in r\<lparr>rl_adj := map_option (\<lambda>a. a[i := (a ! i)\<lparr>ae_cost := cost\<rparr>]) (rl_adj r)\<rparr>)"

definition rl_insert :: "nat \<Rightarrow> nat \<Rightarrow> real \<Rightarrow> route_logic \<Rightarrow> route_logic" where
  "rl_insert src dst cost r = rl_set_cost src dst cost (rl_check dst (rl_check src r))"

definition rl_insert_entry :: "nat \<Rightarrow> nat \<Rightarrow> real \<Rightarrow> nat \<Rightarrow> route_logic \<Rightarrow> route_logic" where
  "rl_insert_entry src dst cost e r =
     (let r1 = rl_set_cost src dst cost (rl_check dst (rl_check src r));
          i = INDEX src dst (rl_size r1)
      in r1\<lparr>rl_adj := map_option (\<lambda>a. a[i := (a ! i)\<lparr>ae_entry := e\<rparr>]) (rl_adj r1)\<rparr>)"

definition rl_reset :: "nat \<Rightarrow> nat \<Rightarrow> route_logic \<Rightarrow> route_logic res" where
  "rl_reset src dst r =
     (if \<not> (src < rl_size r \<and> dst < rl_size r) then Fail Assertion
      else Ok (rl_set_cost src dst RL_INFINITY r))"

section \<open>Routes\<close>

abbreviation ADJ :: "adj_entry list \<Rightarrow> nat \<Rightarrow> nat \<Rightarrow> nat \<Rightarrow> real" where
  "ADJ a n i j \<equiv> ae_cost (a ! INDEX i j n)"

record dijkstra =
  dj_parent :: "nat list"
  dj_hopcnt :: "real list"
  dj_route :: "route_entry list"

text \<open>The route to all neighbours first.\<close>

definition dj_neighbour :: "adj_entry list \<Rightarrow> nat \<Rightarrow> nat \<Rightarrow> dijkstra \<Rightarrow> nat \<Rightarrow> dijkstra" where
  "dj_neighbour a n k d v =
     (if dj_parent d ! v \<noteq> k
      then let d1 = d\<lparr>dj_hopcnt := (dj_hopcnt d)[v := ADJ a n k v]\<rparr>
           in if ADJ a n k v \<noteq> RL_INFINITY
              then d1\<lparr>dj_route := (dj_route d1)[INDEX k v n := \<lparr>re_next_hop = v, re_entry = ae_entry (a ! INDEX k v n)\<rparr>]\<rparr>
              else d1
      else d)"

text \<open>The node nearest to the subtree that has been routed, 0 when there is none.\<close>

definition dj_nearest :: "nat \<Rightarrow> nat \<Rightarrow> dijkstra \<Rightarrow> nat" where
  "dj_nearest n k d =
     foldl (\<lambda>b w. if dj_parent d ! w \<noteq> k \<and> dj_hopcnt d ! w < dj_hopcnt d ! b then w else b) 0 [1..<n]"

definition dj_relax :: "adj_entry list \<Rightarrow> nat \<Rightarrow> nat \<Rightarrow> nat \<Rightarrow> dijkstra \<Rightarrow> nat \<Rightarrow> dijkstra" where
  "dj_relax a n k b d w =
     (if dj_parent d ! w \<noteq> k \<and> dj_hopcnt d ! b + ADJ a n b w < dj_hopcnt d ! w
      then d\<lparr>dj_route := (dj_route d)[INDEX k w n := dj_route d ! INDEX k b n],
             dj_hopcnt := (dj_hopcnt d)[w := dj_hopcnt d ! b + ADJ a n b w]\<rparr>
      else d)"

definition dj_round :: "adj_entry list \<Rightarrow> nat \<Rightarrow> nat \<Rightarrow> dijkstra \<Rightarrow> dijkstra" where
  "dj_round a n k d =
     (let d1 = d\<lparr>dj_hopcnt := (dj_hopcnt d)[0 := RL_INFINITY]\<rparr>;
          b = dj_nearest n k d1;
          d2 = d1\<lparr>dj_parent := (dj_parent d1)[b := k]\<rparr>
      in if b = 0 then d2 else foldl (dj_relax a n k b) d2 [1..<n])"

definition dj_source :: "adj_entry list \<Rightarrow> nat \<Rightarrow> dijkstra \<Rightarrow> nat \<Rightarrow> dijkstra" where
  "dj_source a n d k =
     foldl (\<lambda>d _. dj_round a n k d)
       (foldl (dj_neighbour a n k) (d\<lparr>dj_parent := [0..<n]\<rparr>) [1..<n]) [1..<n]"

text \<open>\<open>new double[n]\<close> leaves the contents \<open>junk\<close> of the memory in \<open>hopcnt\<close>.\<close>

definition routes_of :: "(nat \<Rightarrow> real) \<Rightarrow> adj_entry list \<Rightarrow> nat \<Rightarrow> route_entry list" where
  "routes_of junk a n =
     (let d0 = \<lparr>dj_parent = [0..<n], dj_hopcnt = map junk [0..<n],
                dj_route = replicate (n * n) \<lparr>re_next_hop = 0, re_entry = 0\<rparr>\<rparr>;
          d = foldl (dj_source a n) d0 [1..<n]
      in foldl (\<lambda>xs k. xs[INDEX k k n := \<lparr>re_next_hop = k, re_entry = 0\<rparr>]) (dj_route d) [1..<n])"

definition rl_compute_routes :: "(nat \<Rightarrow> real) \<Rightarrow> route_logic \<Rightarrow> route_logic" where
  "rl_compute_routes junk r =
     (case rl_adj r of None \<Rightarrow> r | Some a \<Rightarrow> r\<lparr>rl_route := Some (routes_of junk a (rl_size r))\<rparr>)"

text \<open>-1 is returned before the routes are computed and for an unreachable destination, -2 for an unknown node.\<close>

definition rl_lookup_flat :: "int \<Rightarrow> int \<Rightarrow> route_logic \<Rightarrow> int res" where
  "rl_lookup_flat sid did r =
     (let src = sid + 1; dst = did + 1; n = int (rl_size r)
      in case rl_route r of
           None \<Rightarrow> Ok (-1)
         | Some rt \<Rightarrow>
             if src \<ge> n \<or> dst \<ge> n then Ok (-2)
             else let i = n * src + dst
                  in if i < 0 \<or> i \<ge> int (length rt) then Fail Bad_Index
                     else Ok (int (re_next_hop (rt ! nat i)) - 1))"

end
