(* ===== verification/Routing_Correct.thy ===== *)
theory Routing_Correct
  imports Routing
begin

text \<open>
  Paths of links and their costs, the invariant of the rounds of \<open>compute_routes\<close>, and the properties: the next hops form a
  shortest path from every node to every other one, and growing the matrix keeps its costs.
\<close>

section \<open>The matrix\<close>

lemma INDEX_less: "i < n \<Longrightarrow> j < n \<Longrightarrow> INDEX i j n < n * n"
proof -
  assume "i < n" "j < n"
  then have "n * i + j < n * Suc i" by simp
  also have "\<dots> \<le> n * n" using \<open>i < n\<close> by (intro mult_le_mono2) simp
  finally show ?thesis by (simp add: INDEX_def)
qed

lemma INDEX_inj: "j < n \<Longrightarrow> j' < n \<Longrightarrow> INDEX i j n = INDEX i' j' n \<longleftrightarrow> i = i' \<and> j = j'"
proof -
  assume j: "j < n" "j' < n"
  have "i = i' \<and> j = j'" if e: "n * i + j = n * i' + j'"
  proof -
    have "(n * i + j) div n = i" "(n * i' + j') div n = i'" using j by simp_all
    with e have "i = i'" by simp
    with e show ?thesis by simp
  qed
  then show ?thesis by (auto simp: INDEX_def)
qed

lemma nth_update_INDEX:
  "length xs = n * n \<Longrightarrow> i < n \<Longrightarrow> j < n \<Longrightarrow> i' < n \<Longrightarrow> j' < n \<Longrightarrow>
   xs[INDEX i j n := x] ! INDEX i' j' n = (if i = i' \<and> j = j' then x else xs ! INDEX i' j' n)"
  by (auto simp: nth_list_update INDEX_less INDEX_inj)

section \<open>Paths\<close>

definition rl_link :: "adj_entry list \<Rightarrow> nat \<Rightarrow> nat \<Rightarrow> nat \<Rightarrow> bool" where
  "rl_link a n i j \<longleftrightarrow> 1 \<le> i \<and> i < n \<and> 1 \<le> j \<and> j < n \<and> ADJ a n i j \<noteq> RL_INFINITY"

fun is_path :: "adj_entry list \<Rightarrow> nat \<Rightarrow> nat list \<Rightarrow> bool" where
  "is_path a n [] = False"
| "is_path a n [x] = (1 \<le> x \<and> x < n)"
| "is_path a n (x # y # p) = (rl_link a n x y \<and> is_path a n (y # p))"

fun path_cost :: "adj_entry list \<Rightarrow> nat \<Rightarrow> nat list \<Rightarrow> real" where
  "path_cost a n (x # y # p) = ADJ a n x y + path_cost a n (y # p)"
| "path_cost a n p = 0"

lemma is_path_snoc: "p \<noteq> [] \<Longrightarrow> is_path a n (p @ [w]) \<longleftrightarrow> is_path a n p \<and> rl_link a n (last p) w"
  by (induction a n p rule: is_path.induct) (auto simp: rl_link_def)

lemma path_cost_snoc: "p \<noteq> [] \<Longrightarrow> path_cost a n (p @ [w]) = path_cost a n p + ADJ a n (last p) w"
  by (induction a n p rule: path_cost.induct) auto

lemma is_path_last: "is_path a n p \<Longrightarrow> 1 \<le> last p \<and> last p < n"
  by (induction a n p rule: is_path.induct) auto

lemma is_path_hd: "is_path a n p \<Longrightarrow> 1 \<le> hd p \<and> hd p < n"
  by (cases "(a, n, p)" rule: is_path.cases) (auto simp: rl_link_def)

text \<open>The costs that the computation is made for: between 0 (not included) and the infinite cost.\<close>

definition costs_ok :: "adj_entry list \<Rightarrow> nat \<Rightarrow> bool" where
  "costs_ok a n \<longleftrightarrow> (\<forall>i \<in> {1..<n}. \<forall>j \<in> {1..<n}. 0 < ADJ a n i j \<and> ADJ a n i j \<le> RL_INFINITY)"

lemma costs_okD: "costs_ok a n \<Longrightarrow> 1 \<le> i \<Longrightarrow> i < n \<Longrightarrow> 1 \<le> j \<Longrightarrow> j < n \<Longrightarrow> 0 < ADJ a n i j \<and> ADJ a n i j \<le> RL_INFINITY"
  by (simp add: costs_ok_def)

lemma path_cost_nonneg: "costs_ok a n \<Longrightarrow> is_path a n p \<Longrightarrow> 0 \<le> path_cost a n p"
proof (induction a n p rule: path_cost.induct)
  case (1 a n x y p)
  then show ?case using costs_okD [of a n x y] by (auto simp: rl_link_def)
qed auto

lemma is_path_start:
  assumes "is_path a n p" "hd p \<noteq> last p"
  obtains u q where "p = hd p # u # q" "rl_link a n (hd p) u" "is_path a n (u # q)"
    "path_cost a n p = ADJ a n (hd p) u + path_cost a n (u # q)" "last (u # q) = last p"
proof (cases "(a, n, p)" rule: is_path.cases)
  case (3 a' n' x y q)
  then show ?thesis using assms that [of y q] by auto
qed (use assms in auto)

section \<open>The loops\<close>

definition dj_sized :: "nat \<Rightarrow> dijkstra \<Rightarrow> bool" where
  "dj_sized n d \<longleftrightarrow> length (dj_parent d) = n \<and> length (dj_hopcnt d) = n \<and> length (dj_route d) = n * n"

lemma upt_snoc: "1 \<le> m \<Longrightarrow> [1..<Suc m] = [1..<m] @ [m]"
  by simp

abbreviation hop :: "dijkstra \<Rightarrow> nat \<Rightarrow> real" where
  "hop d v \<equiv> dj_hopcnt d ! v"

abbreviation rte :: "nat \<Rightarrow> dijkstra \<Rightarrow> nat \<Rightarrow> nat \<Rightarrow> nat" where
  "rte n d i j \<equiv> re_next_hop (dj_route d ! INDEX i j n)"

lemma neighbour_loop:
  assumes "dj_sized n d" "1 \<le> k" "k < n" "dj_parent d = [0..<n]" "1 \<le> m" "m \<le> n"
  shows "let d' = foldl (dj_neighbour a n k) d [1..<m] in
    dj_sized n d' \<and> dj_parent d' = dj_parent d \<and>
    (\<forall>v < n. hop d' v = (if 1 \<le> v \<and> v < m \<and> v \<noteq> k then ADJ a n k v else hop d v)) \<and>
    (\<forall>i < n. \<forall>j < n. rte n d' i j = (if i = k \<and> 1 \<le> j \<and> j < m \<and> j \<noteq> k \<and> ADJ a n k j \<noteq> RL_INFINITY then j else rte n d i j))"
  using assms(5,6)
proof (induction m rule: dec_induct)
  case base
  then show ?case using assms(1) by simp
next
  case (step m)
  define d' where "d' = foldl (dj_neighbour a n k) d [1..<m]"
  have IH: "dj_sized n d'" "dj_parent d' = [0..<n]"
    "\<And>v. v < n \<Longrightarrow> hop d' v = (if 1 \<le> v \<and> v < m \<and> v \<noteq> k then ADJ a n k v else hop d v)"
    "\<And>i j. i < n \<Longrightarrow> j < n \<Longrightarrow> rte n d' i j = (if i = k \<and> 1 \<le> j \<and> j < m \<and> j \<noteq> k \<and> ADJ a n k j \<noteq> RL_INFINITY then j else rte n d i j)"
    using step.IH [OF Suc_leD [OF step.prems], folded d'_def, unfolded Let_def] assms(4) by simp_all
  have f: "foldl (dj_neighbour a n k) d [1..<Suc m] = dj_neighbour a n k d' m"
    using step.hyps by (simp add: d'_def upt_snoc)
  have m: "m < n" "1 \<le> m" using step by simp_all
  have l: "length (dj_hopcnt d') = n" "length (dj_route d') = n * n" "length (dj_parent d') = n"
    using IH(1) by (simp_all add: dj_sized_def)
  define r where "r = (if ADJ a n k m \<noteq> RL_INFINITY
      then (dj_route d')[INDEX k m n := \<lparr>re_next_hop = m, re_entry = ae_entry (a ! INDEX k m n)\<rparr>] else dj_route d')"
  have r: "length r = n * n"
    "\<And>i j. i < n \<Longrightarrow> j < n \<Longrightarrow> re_next_hop (r ! INDEX i j n) = (if i = k \<and> j = m \<and> ADJ a n k m \<noteq> RL_INFINITY then m else rte n d' i j)"
    using l m assms(3) by (auto simp: r_def nth_update_INDEX)
  show ?case
  proof (cases "m = k")
    case True
    then have "dj_neighbour a n k d' m = d'" using m by (simp add: dj_neighbour_def IH(2))
    then show ?thesis unfolding f Let_def using IH(1,2) True assms(4) by (simp add: IH(3,4) less_Suc_eq) auto
  next
    case False
    then have d: "dj_neighbour a n k d' m = d'\<lparr>dj_hopcnt := (dj_hopcnt d')[m := ADJ a n k m], dj_route := r\<rparr>"
      using m by (simp add: dj_neighbour_def IH(2) r_def)
    have s: "dj_sized n (dj_neighbour a n k d' m)" unfolding d using l r(1) by (simp add: dj_sized_def)
    show ?thesis unfolding f Let_def
      using s False m assms(4) by (auto simp add: d l r(2) nth_list_update IH(2,3,4) less_Suc_eq)
  qed
qed

lemma relax_loop:
  assumes "dj_sized n d" "1 \<le> k" "k < n" "1 \<le> b" "b < n" "dj_parent d ! b = k" "1 \<le> m" "m \<le> n"
  shows "let d' = foldl (dj_relax a n k b) d [1..<m];
             better = \<lambda>w. 1 \<le> w \<and> w < m \<and> dj_parent d ! w \<noteq> k \<and> hop d b + ADJ a n b w < hop d w in
    dj_sized n d' \<and> dj_parent d' = dj_parent d \<and>
    (\<forall>v < n. hop d' v = (if better v then hop d b + ADJ a n b v else hop d v)) \<and>
    (\<forall>i < n. \<forall>j < n. rte n d' i j = (if i = k \<and> better j then rte n d k b else rte n d i j))"
  using assms(7,8)
proof (induction m rule: dec_induct)
  case base
  then show ?case using assms(1) by simp
next
  case (step m)
  define d' where "d' = foldl (dj_relax a n k b) d [1..<m]"
  have IH: "dj_sized n d'" "dj_parent d' = dj_parent d"
    "\<And>v. v < n \<Longrightarrow> hop d' v = (if 1 \<le> v \<and> v < m \<and> dj_parent d ! v \<noteq> k \<and> hop d b + ADJ a n b v < hop d v then hop d b + ADJ a n b v else hop d v)"
    "\<And>i j. i < n \<Longrightarrow> j < n \<Longrightarrow> rte n d' i j = (if i = k \<and> 1 \<le> j \<and> j < m \<and> dj_parent d ! j \<noteq> k \<and> hop d b + ADJ a n b j < hop d j then rte n d k b else rte n d i j)"
    using step.IH [OF Suc_leD [OF step.prems], folded d'_def, unfolded Let_def] by simp_all
  have f: "foldl (dj_relax a n k b) d [1..<Suc m] = dj_relax a n k b d' m"
    using step.hyps by (simp add: d'_def upt_snoc)
  have m: "m < n" "1 \<le> m" using step by simp_all
  have e: "hop d' b = hop d b" "rte n d' k b = rte n d k b" "hop d' m = hop d m"
    using IH m assms(2-6) by auto
  have l: "length (dj_hopcnt d') = n" "length (dj_route d') = n * n" "length (dj_parent d') = n"
    using IH(1) by (simp_all add: dj_sized_def)
  show ?case
  proof (cases "dj_parent d ! m \<noteq> k \<and> hop d b + ADJ a n b m < hop d m")
    case True
    then have r: "dj_relax a n k b d' m = d'\<lparr>dj_route := (dj_route d')[INDEX k m n := dj_route d' ! INDEX k b n],
        dj_hopcnt := (dj_hopcnt d')[m := hop d b + ADJ a n b m]\<rparr>"
      by (simp add: dj_relax_def e IH(2))
    have s: "dj_sized n (dj_relax a n k b d' m)" "dj_parent (dj_relax a n k b d' m) = dj_parent d"
      unfolding r using IH(1,2) by (simp_all add: dj_sized_def)
    show ?thesis unfolding f Let_def
      using s True m assms(3) by (simp add: r l nth_list_update nth_update_INDEX e less_Suc_eq) (auto simp: IH(3,4) e)
  next
    case False
    then have r: "dj_relax a n k b d' m = d'" by (auto simp: dj_relax_def e IH(2))
    show ?thesis unfolding f Let_def r using IH(1,2) False by (simp add: IH(3,4) less_Suc_eq) auto
  qed
qed

lemma nearest_loop:
  assumes "hop d 0 = RL_INFINITY" "1 \<le> m"
  shows "let b = foldl (\<lambda>b w. if dj_parent d ! w \<noteq> k \<and> hop d w < hop d b then w else b) 0 [1..<m] in
    (b = 0 \<or> 1 \<le> b \<and> b < m \<and> dj_parent d ! b \<noteq> k \<and> hop d b < RL_INFINITY) \<and>
    (\<forall>w. 1 \<le> w \<and> w < m \<and> dj_parent d ! w \<noteq> k \<longrightarrow> hop d b \<le> hop d w)"
  using assms(2)
proof (induction m rule: dec_induct)
  case base
  then show ?case by simp
next
  case (step m)
  then show ?case using assms(1) by (auto simp: Let_def upt_snoc less_Suc_eq le_Suc_eq)
qed

section \<open>The rounds\<close>

text \<open>
  The invariant of the rounds for source \<open>k\<close>: every finite distance is the cost of a path whose first
  hop is the route, the nodes that have been routed are at their shortest distance, and the others are no further than
  through any routed node.
\<close>

definition routed :: "nat \<Rightarrow> nat \<Rightarrow> dijkstra \<Rightarrow> nat set" where
  "routed n k d = {v. 1 \<le> v \<and> v < n \<and> v \<noteq> k \<and> dj_parent d ! v = k}"

definition path_via :: "adj_entry list \<Rightarrow> nat \<Rightarrow> nat \<Rightarrow> nat \<Rightarrow> nat \<Rightarrow> real \<Rightarrow> bool" where
  "path_via a n k u v c \<longleftrightarrow>
     (\<exists>p. is_path a n (k # u # p) \<and> last (k # u # p) = v \<and> path_cost a n (k # u # p) = c)"

definition reached :: "adj_entry list \<Rightarrow> nat \<Rightarrow> nat \<Rightarrow> dijkstra \<Rightarrow> nat \<Rightarrow> bool" where
  "reached a n k d v \<longleftrightarrow>
     (if hop d v < RL_INFINITY then path_via a n k (rte n d k v) v (hop d v) else rte n d k v = 0)"

definition dj_inv :: "adj_entry list \<Rightarrow> nat \<Rightarrow> nat \<Rightarrow> dijkstra \<Rightarrow> bool" where
  "dj_inv a n k d \<longleftrightarrow> dj_sized n d \<and> dj_parent d ! k = k \<and>
     (\<forall>v. 1 \<le> v \<and> v < n \<and> v \<noteq> k \<longrightarrow> reached a n k d v \<and> hop d v \<le> ADJ a n k v) \<and>
     (\<forall>v \<in> routed n k d. hop d v < RL_INFINITY \<and>
        (\<forall>p. is_path a n p \<and> hd p = k \<and> last p = v \<longrightarrow> hop d v \<le> path_cost a n p) \<and>
        (\<forall>w. 1 \<le> w \<and> w < n \<and> w \<noteq> k \<and> w \<notin> routed n k d \<longrightarrow> hop d w \<le> hop d v + ADJ a n v w))"

text \<open>A path that ends outside the routed nodes passes one of those outside that is no further.\<close>

lemma path_leaves:
  assumes "dj_inv a n k d" "costs_ok a n" "1 \<le> k" "k < n"
  shows "is_path a n p \<Longrightarrow> hd p = k \<Longrightarrow> last p \<noteq> k \<Longrightarrow> last p \<notin> routed n k d \<Longrightarrow>
    \<exists>y. 1 \<le> y \<and> y < n \<and> y \<noteq> k \<and> y \<notin> routed n k d \<and> hop d y \<le> path_cost a n p"
proof (induction p rule: rev_induct)
  case (snoc w p)
  have p: "p \<noteq> []" using snoc.prems by auto
  then have q: "is_path a n p" "rl_link a n (last p) w" "hd p = k" and w: "1 \<le> w" "w < n" "w \<noteq> k" "w \<notin> routed n k d"
    using snoc.prems by (auto simp: is_path_snoc rl_link_def)
  have x: "1 \<le> last p" "last p < n" using is_path_last [OF q(1)] by auto
  have c: "path_cost a n (p @ [w]) = path_cost a n p + ADJ a n (last p) w" "0 \<le> path_cost a n p" "0 < ADJ a n (last p) w"
    using path_cost_snoc [OF p] path_cost_nonneg [OF assms(2) q(1)] costs_okD [OF assms(2) x w(1,2)] by auto
  consider "last p = k" | "last p \<noteq> k" "last p \<notin> routed n k d" | "last p \<in> routed n k d" by auto
  then show ?case
  proof cases
    case 1
    then have "hop d w \<le> ADJ a n k w" using assms(1) w by (simp add: dj_inv_def)
    then show ?thesis using w c 1 by (intro exI [of _ w]) simp
  next
    case 2
    then obtain y where "1 \<le> y \<and> y < n \<and> y \<noteq> k \<and> y \<notin> routed n k d \<and> hop d y \<le> path_cost a n p"
      using snoc.IH q by blast
    then show ?thesis using c by (intro exI [of _ y]) simp
  next
    case 3
    then have "hop d w \<le> hop d (last p) + ADJ a n (last p) w" "hop d (last p) \<le> path_cost a n p"
      using assms(1) w q unfolding dj_inv_def by blast+
    then show ?thesis using w c by (intro exI [of _ w]) simp
  qed
qed simp

definition stuck :: "nat \<Rightarrow> nat \<Rightarrow> dijkstra \<Rightarrow> bool" where
  "stuck n k d \<longleftrightarrow> (\<forall>v. 1 \<le> v \<and> v < n \<and> v \<noteq> k \<and> v \<notin> routed n k d \<longrightarrow> RL_INFINITY \<le> hop d v)"

lemma dj_inv_hop0:
  assumes "dj_inv a n k d"
  shows "dj_inv a n k (d\<lparr>dj_hopcnt := (dj_hopcnt d)[0 := x]\<rparr>)"
proof -
  let ?d = "d\<lparr>dj_hopcnt := (dj_hopcnt d)[0 := x]\<rparr>"
  have s: "routed n k ?d = routed n k d" "dj_sized n ?d = dj_sized n d" by (simp_all add: routed_def dj_sized_def)
  have h: "hop ?d v = hop d v" "reached a n k ?d v = reached a n k d v" if "1 \<le> v" for v
    using that by (simp_all add: reached_def)
  have r: "(dj_hopcnt d)[0 := x] ! v = hop d v" if "v \<in> routed n k d" for v using that by (simp add: routed_def)
  show ?thesis using assms h r by (simp add: dj_inv_def s cong: ball_cong)
qed

lemma path_via_cost: "path_via a n k u v c \<Longrightarrow> costs_ok a n \<Longrightarrow> 0 \<le> c"
  using path_cost_nonneg by (auto simp: path_via_def simp del: is_path.simps path_cost.simps)

lemma path_via_snoc: "path_via a n k u v c \<Longrightarrow> rl_link a n v w \<Longrightarrow> path_via a n k u w (c + ADJ a n v w)"
proof -
  assume "path_via a n k u v c" and link: "rl_link a n v w"
  then obtain p where p: "is_path a n (k # u # p)" "last (k # u # p) = v" "path_cost a n (k # u # p) = c"
    unfolding path_via_def by blast
  have "is_path a n ((k # u # p) @ [w])" "path_cost a n ((k # u # p) @ [w]) = c + ADJ a n v w"
    using is_path_snoc [of "k # u # p" a n w] path_cost_snoc [of "k # u # p" a n w] p link by simp_all
  then show ?thesis unfolding path_via_def by (intro exI [of _ "p @ [w]"]) simp
qed

lemma dj_round_nearer:
  assumes inv: "dj_inv a n k d" and ok: "costs_ok a n" and k: "1 \<le> k" "k < n"
    and b: "1 \<le> b" "b < n" "b \<notin> routed n k d" "b \<noteq> k" "hop d b < RL_INFINITY"
    and least: "\<And>w. 1 \<le> w \<Longrightarrow> w < n \<Longrightarrow> w \<noteq> k \<Longrightarrow> w \<notin> routed n k d \<Longrightarrow> hop d b \<le> hop d w"
  defines "d2 \<equiv> d\<lparr>dj_parent := (dj_parent d)[b := k]\<rparr>"
  defines "d' \<equiv> foldl (dj_relax a n k b) d2 [1..<n]"
  shows "dj_inv a n k d' \<and> routed n k d' = insert b (routed n k d) \<and>
    (\<forall>i < n. \<forall>j < n. i \<noteq> k \<longrightarrow> rte n d' i j = rte n d i j)"
proof -
  have sized: "dj_sized n d" "dj_sized n d2" and par: "dj_parent d ! k = k" using inv by (simp_all add: dj_inv_def dj_sized_def d2_def)
  have par2: "dj_parent d2 ! v = (if v = b then k else dj_parent d ! v)" if "v < n" for v
    using sized(1) that by (simp add: d2_def dj_sized_def nth_list_update)
  have same: "dj_hopcnt d2 = dj_hopcnt d" "dj_route d2 = dj_route d" by (simp_all add: d2_def)
  define better where "better v \<longleftrightarrow> v \<noteq> b \<and> v \<noteq> k \<and> v \<notin> routed n k d \<and> hop d b + ADJ a n b v < hop d v" for v
  have R: "dj_sized n d'" "dj_parent d' = dj_parent d2"
    and hop': "\<And>v. 1 \<le> v \<Longrightarrow> v < n \<Longrightarrow> hop d' v = (if better v then hop d b + ADJ a n b v else hop d v)"
    and rte': "\<And>v. 1 \<le> v \<Longrightarrow> v < n \<Longrightarrow> rte n d' k v = (if better v then rte n d k b else rte n d k v)"
      "\<And>i j. i < n \<Longrightarrow> j < n \<Longrightarrow> i \<noteq> k \<Longrightarrow> rte n d' i j = rte n d i j"
  proof -
    have "dj_parent d2 ! b = k" using par2 [OF b(2)] by simp
    note R = relax_loop [OF sized(2) k b(1,2) this _ order_refl, of a, folded d'_def, unfolded Let_def same]
    have n: "1 \<le> n" using k by simp
    have cond: "1 \<le> v \<and> v < n \<and> dj_parent d2 ! v \<noteq> k \<and> hop d b + ADJ a n b v < hop d v \<longleftrightarrow> better v" if "1 \<le> v" "v < n" for v
      using that par2 [OF that(2)] par by (auto simp: better_def routed_def)
    show "dj_sized n d'" "dj_parent d' = dj_parent d2" using R n by blast+
    show "hop d' v = (if better v then hop d b + ADJ a n b v else hop d v)" if "1 \<le> v" "v < n" for v
      using R [OF n] that cond [OF that] by simp
    show "rte n d' k v = (if better v then rte n d k b else rte n d k v)" if "1 \<le> v" "v < n" for v
      using R [OF n] that cond [OF that] k(2) by simp
    show "rte n d' i j = rte n d i j" if "i < n" "j < n" "i \<noteq> k" for i j
      using R [OF n] that by simp
  qed
  have routed': "routed n k d' = insert b (routed n k d)"
    using b par2 by (auto simp: routed_def R(2) split: if_splits)
  have inv1: "reached a n k d v" "hop d v \<le> ADJ a n k v" if "1 \<le> v" "v < n" "v \<noteq> k" for v
    using inv that by (simp_all add: dj_inv_def)
  have p: "path_via a n k (rte n d k b) b (hop d b)" using inv1(1) [OF b(1,2,4)] b(5) by (simp add: reached_def)
  have A: "reached a n k d' v \<and> hop d' v \<le> ADJ a n k v" if v: "1 \<le> v" "v < n" "v \<noteq> k" for v
  proof (cases "better v")
    case True
    have lt: "hop d b + ADJ a n b v < hop d v" using True by (simp add: better_def)
    have le: "hop d v \<le> ADJ a n k v" "ADJ a n k v \<le> RL_INFINITY" using inv1 [OF v] costs_okD [OF ok k v(1,2)] by simp_all
    have "0 \<le> hop d b" by (rule path_via_cost [OF p ok])
    then have "ADJ a n b v \<noteq> RL_INFINITY" using lt le by linarith
    then have link: "rl_link a n b v" using b v by (simp add: rl_link_def)
    have "path_via a n k (rte n d k b) v (hop d b + ADJ a n b v)" by (rule path_via_snoc [OF p link])
    then show ?thesis using True lt le v by (simp add: reached_def hop' rte')
  next
    case False
    then show ?thesis using inv1 [OF v] v by (simp add: reached_def hop' rte')
  qed
  have le': "hop d' w \<le> hop d w" if "1 \<le> w" "w < n" for w using that by (auto simp: hop' better_def)
  have unchanged: "hop d' v = hop d v" if "v \<in> routed n k d'" for v
    using that b unfolding routed' by (auto simp: hop' better_def routed_def)
  have B: "hop d v < RL_INFINITY \<and> (\<forall>p. is_path a n p \<and> hd p = k \<and> last p = v \<longrightarrow> hop d v \<le> path_cost a n p) \<and>
      (\<forall>w. 1 \<le> w \<and> w < n \<and> w \<noteq> k \<and> w \<notin> routed n k d' \<longrightarrow> hop d' w \<le> hop d v + ADJ a n v w)" if "v \<in> routed n k d'" for v
  proof (cases "v = b")
    case True
    have "hop d b \<le> path_cost a n p" if "is_path a n p" "hd p = k" "last p = b" for p
      using path_leaves [OF inv ok k that(1,2)] that(3) b(3,4) least by fastforce
    moreover have "hop d' w \<le> hop d b + ADJ a n b w" if "1 \<le> w" "w < n" "w \<noteq> k" "w \<notin> routed n k d'" for w
      using that unfolding routed' by (auto simp: hop' better_def)
    ultimately show ?thesis using True b(5) by auto
  next
    case False
    then have v: "v \<in> routed n k d" using that by (simp add: routed')
    have "hop d' w \<le> hop d v + ADJ a n v w" if "1 \<le> w" "w < n" "w \<noteq> k" "w \<notin> routed n k d'" for w
    proof -
      have "hop d w \<le> hop d v + ADJ a n v w" using inv v that unfolding dj_inv_def routed' by blast
      then show ?thesis using le' [OF that(1,2)] by linarith
    qed
    moreover have "hop d v < RL_INFINITY \<and> (\<forall>p. is_path a n p \<and> hd p = k \<and> last p = v \<longrightarrow> hop d v \<le> path_cost a n p)"
      using inv v unfolding dj_inv_def by blast
    ultimately show ?thesis by blast
  qed
  have "dj_parent d' ! k = k" using par par2 [OF k(2)] b(4) by (simp add: R(2))
  then have "dj_inv a n k d'" using R(1) A B unchanged unfolding dj_inv_def by simp
  then show ?thesis using routed' rte'(2) by simp
qed

text \<open>A round either routes one more node or finds that nothing is left to do.\<close>

lemma dj_round_inv:
  assumes inv: "dj_inv a n k d" and ok: "costs_ok a n" and k: "1 \<le> k" "k < n"
  defines "d' \<equiv> dj_round a n k d"
  shows "dj_inv a n k d' \<and> (stuck n k d' \<or> \<not> stuck n k d \<and> card (routed n k d') = Suc (card (routed n k d))) \<and>
    (\<forall>i < n. \<forall>j < n. i \<noteq> k \<longrightarrow> rte n d' i j = rte n d i j)"
proof -
  define d1 where "d1 = d\<lparr>dj_hopcnt := (dj_hopcnt d)[0 := RL_INFINITY]\<rparr>"
  have inv1: "dj_inv a n k d1" unfolding d1_def by (rule dj_inv_hop0 [OF inv])
  then have sized: "dj_sized n d1" "dj_parent d1 ! k = k" by (simp_all add: dj_inv_def)
  have h: "hop d1 v = hop d v" if "1 \<le> v" for v using that by (simp add: d1_def)
  have r1: "routed n k d1 = routed n k d" by (simp add: routed_def d1_def)
  have st: "stuck n k d1 = stuck n k d" using h by (auto simp: stuck_def r1)
  have h0: "hop d1 0 = RL_INFINITY" using inv k by (simp add: d1_def dj_inv_def dj_sized_def)
  have out: "dj_parent d1 ! v \<noteq> k \<longleftrightarrow> v \<noteq> k \<and> v \<notin> routed n k d1" if "1 \<le> v" "v < n" for v
    using that sized(2) by (auto simp: routed_def)
  define b where "b = dj_nearest n k d1"
  have "1 \<le> n" using k by simp
  from nearest_loop [OF h0 this, of k]
  have near: "b = 0 \<or> 1 \<le> b \<and> b < n \<and> dj_parent d1 ! b \<noteq> k \<and> hop d1 b < RL_INFINITY"
    and least: "\<And>w. 1 \<le> w \<Longrightarrow> w < n \<Longrightarrow> w \<noteq> k \<Longrightarrow> w \<notin> routed n k d1 \<Longrightarrow> hop d1 b \<le> hop d1 w"
    by (auto simp: Let_def b_def dj_nearest_def out)
  define d2 where "d2 = d1\<lparr>dj_parent := (dj_parent d1)[b := k]\<rparr>"
  have d': "d' = (if b = 0 then d2 else foldl (dj_relax a n k b) d2 [1..<n])"
    by (simp add: d'_def dj_round_def Let_def b_def d1_def d2_def)
  have rte1: "rte n d1 = rte n d" by (simp add: d1_def fun_eq_iff)
  show ?thesis
  proof (cases "b = 0")
    case True
    have par: "dj_parent d2 ! v = dj_parent d1 ! v" if "1 \<le> v" for v using that by (simp add: d2_def True)
    have r2: "routed n k d2 = routed n k d1" using par by (auto simp: routed_def)
    have re: "reached a n k d2 v = reached a n k d1 v" for v by (simp add: reached_def d2_def)
    have "dj_sized n d2" using sized by (simp add: dj_sized_def d2_def)
    then have "dj_inv a n k d2" using inv1 par [OF k(1)] unfolding dj_inv_def r2 re by (simp add: d2_def)
    moreover have "stuck n k d2" using least h0 unfolding stuck_def r2 True by (simp add: d2_def)
    ultimately show ?thesis using True by (simp add: d') (simp add: d2_def d1_def)
  next
    case False
    then have b: "1 \<le> b" "b < n" "b \<notin> routed n k d1" "b \<noteq> k" "hop d1 b < RL_INFINITY" using near out by auto
    note N = dj_round_nearer [OF inv1 ok k b least, folded d2_def]
    have "finite (routed n k d1)" by (simp add: routed_def)
    then have "card (routed n k d') = Suc (card (routed n k d))" using N False b(3) by (simp add: d' r1)
    moreover have "\<not> stuck n k d" using b h [OF b(1)] by (auto simp: stuck_def r1 not_le)
    ultimately show ?thesis using N False by (simp add: d') (simp add: d1_def)
  qed
qed

lemma dj_rounds:
  assumes ok: "costs_ok a n" and k: "1 \<le> k" "k < n"
  shows "dj_inv a n k d \<Longrightarrow>
    let d' = foldl (\<lambda>d _. dj_round a n k d) d xs in
    dj_inv a n k d' \<and> (stuck n k d' \<or> length xs \<le> card (routed n k d')) \<and>
    (\<forall>i < n. \<forall>j < n. i \<noteq> k \<longrightarrow> rte n d' i j = rte n d i j)"
proof (induction xs rule: rev_induct)
  case Nil
  then show ?case by simp
next
  case (snoc x xs)
  define d1 where "d1 = foldl (\<lambda>d _. dj_round a n k d) d xs"
  note IH = snoc.IH [OF snoc.prems, folded d1_def, unfolded Let_def]
  have "dj_inv a n k d1" using IH by blast
  note R = dj_round_inv [OF this ok k]
  have "foldl (\<lambda>d _. dj_round a n k d) d (xs @ [x]) = dj_round a n k d1" by (simp add: d1_def)
  then show ?case using IH R by (auto simp: Let_def)
qed

section \<open>All routes\<close>

text \<open>The first hop of a shortest path, 0 when there is no path of finite cost.\<close>

definition route_ok :: "adj_entry list \<Rightarrow> nat \<Rightarrow> nat \<Rightarrow> nat \<Rightarrow> nat \<Rightarrow> bool" where
  "route_ok a n k v u \<longleftrightarrow>
     (if \<exists>p. is_path a n p \<and> hd p = k \<and> last p = v \<and> path_cost a n p < RL_INFINITY
      then \<exists>c. path_via a n k u v c \<and> (\<forall>p. is_path a n p \<and> hd p = k \<and> last p = v \<longrightarrow> c \<le> path_cost a n p)
      else u = 0)"

lemma stuck_route_ok:
  assumes inv: "dj_inv a n k d" and st: "stuck n k d" and ok: "costs_ok a n" and k: "1 \<le> k" "k < n" and v: "1 \<le> v" "v < n" "v \<noteq> k"
  shows "route_ok a n k v (rte n d k v)"
proof (cases "v \<in> routed n k d")
  case True
  have re: "reached a n k d v" using inv v by (simp add: dj_inv_def)
  have h: "hop d v < RL_INFINITY" "\<And>p. is_path a n p \<Longrightarrow> hd p = k \<Longrightarrow> last p = v \<Longrightarrow> hop d v \<le> path_cost a n p"
    using inv True unfolding dj_inv_def by blast+
  have via: "path_via a n k (rte n d k v) v (hop d v)" using re h(1) by (simp add: reached_def)
  then obtain p where "is_path a n (k # p) \<and> last (k # p) = v \<and> path_cost a n (k # p) = hop d v"
    unfolding path_via_def by blast
  with h(1) have "\<exists>p. is_path a n p \<and> hd p = k \<and> last p = v \<and> path_cost a n p < RL_INFINITY"
    by (metis list.sel(1))
  with via h(2) show ?thesis unfolding route_ok_def by (simp only: if_True) blast
next
  case False
  have re: "reached a n k d v" using inv v by (simp add: dj_inv_def)
  have "RL_INFINITY \<le> hop d v" using st v False by (simp add: stuck_def)
  then have z: "rte n d k v = 0" using re by (simp add: reached_def)
  have "RL_INFINITY \<le> path_cost a n p" if "is_path a n p" "hd p = k" "last p = v" for p
    using path_leaves [OF inv ok k that(1,2)] that(3) v False st unfolding stuck_def by fastforce
  then have "\<not> (\<exists>p. is_path a n p \<and> hd p = k \<and> last p = v \<and> path_cost a n p < RL_INFINITY)" by fastforce
  then show ?thesis using z unfolding route_ok_def by (simp only: if_False)
qed

lemma dj_source_ok:
  assumes ok: "costs_ok a n" and k: "1 \<le> k" "k < n" and sz: "dj_sized n d" and row: "\<And>j. j < n \<Longrightarrow> rte n d k j = 0"
  shows "let d' = dj_source a n d k in dj_sized n d' \<and>
    (\<forall>v. 1 \<le> v \<and> v < n \<and> v \<noteq> k \<longrightarrow> route_ok a n k v (rte n d' k v)) \<and>
    (\<forall>i < n. \<forall>j < n. i \<noteq> k \<longrightarrow> rte n d' i j = rte n d i j)"
proof -
  define d0 where "d0 = d\<lparr>dj_parent := [0..<n]\<rparr>"
  have d0: "dj_sized n d0" "dj_parent d0 = [0..<n]" "dj_route d0 = dj_route d" using sz by (simp_all add: d0_def dj_sized_def)
  define d1 where "d1 = foldl (dj_neighbour a n k) d0 [1..<n]"
  have n: "1 \<le> n" using k by simp
  note N = neighbour_loop [OF d0(1) k d0(2) n order_refl, of a, folded d1_def, unfolded Let_def d0(2,3)]
  have par: "dj_parent d1 = [0..<n]" using N by simp
  have h1: "hop d1 v = ADJ a n k v" if "1 \<le> v" "v < n" "v \<noteq> k" for v using N that by simp
  have r1: "rte n d1 k v = (if ADJ a n k v \<noteq> RL_INFINITY then v else 0)" if "1 \<le> v" "v < n" "v \<noteq> k" for v
    using N that k row by simp
  have e: "routed n k d1 = {}" using par by (auto simp: routed_def)
  have re: "reached a n k d1 v" if v: "1 \<le> v" "v < n" "v \<noteq> k" for v
  proof (cases "ADJ a n k v = RL_INFINITY")
    case True
    then show ?thesis using h1 [OF v] r1 [OF v] by (simp add: reached_def)
  next
    case False
    then have "is_path a n (k # v # []) \<and> path_cost a n (k # v # []) = ADJ a n k v" using k v by (simp add: rl_link_def)
    then have "path_via a n k v v (ADJ a n k v)" unfolding path_via_def by (intro exI [of _ "[]"]) simp
    then show ?thesis using False costs_okD [OF ok k v(1,2)] by (simp add: reached_def h1 [OF v] r1 [OF v])
  qed
  have "dj_sized n d1" using N by blast
  moreover have "dj_parent d1 ! k = k" using par k by simp
  ultimately have "dj_inv a n k d1" unfolding dj_inv_def using re h1 by (simp add: e)
  note R = dj_rounds [OF ok k this, of "[1..<n]"]
  define d' where "d' = dj_source a n d k"
  have d': "foldl (\<lambda>d _. dj_round a n k d) d1 [1..<n] = d'" by (simp add: d'_def dj_source_def d1_def d0_def)
  note R = R [unfolded d' Let_def]
  have "routed n k d' \<subseteq> {1..<n} - {k}" by (auto simp: routed_def)
  then have "card (routed n k d') \<le> card ({1..<n} - {k})" by (intro card_mono) auto
  also have "\<dots> = n - 1 - 1" using k by (simp add: card_Diff_subset)
  finally have "card (routed n k d') < n - 1" using k by linarith
  then have st: "dj_inv a n k d'" "stuck n k d'" using R by auto
  have same: "rte n d' i j = rte n d i j" if "i < n" "j < n" "i \<noteq> k" for i j using R N that by simp
  have "dj_sized n d'" using st by (simp add: dj_inv_def)
  with stuck_route_ok [OF st ok k] same show ?thesis by (simp add: Let_def flip: d'_def)
qed

lemma routes_loop:
  assumes ok: "costs_ok a n" and sz: "dj_sized n d" and row: "\<And>i j. i < n \<Longrightarrow> j < n \<Longrightarrow> rte n d i j = 0" and "1 \<le> m" "m \<le> n"
  shows "let d' = foldl (dj_source a n) d [1..<m] in dj_sized n d' \<and>
    (\<forall>k v. 1 \<le> k \<and> k < m \<and> 1 \<le> v \<and> v < n \<and> v \<noteq> k \<longrightarrow> route_ok a n k v (rte n d' k v)) \<and>
    (\<forall>i < n. \<forall>j < n. m \<le> i \<longrightarrow> rte n d' i j = 0)"
  using assms(4,5)
proof (induction m rule: dec_induct)
  case base
  then show ?case using sz row by simp
next
  case (step m)
  define d' where "d' = foldl (dj_source a n) d [1..<m]"
  note IH = step.IH [OF Suc_leD [OF step.prems], folded d'_def, unfolded Let_def]
  have m: "1 \<le> m" "m < n" using step by simp_all
  have f: "foldl (dj_source a n) d [1..<Suc m] = dj_source a n d' m" using m by (simp add: d'_def)
  have "dj_sized n d'" "\<And>j. j < n \<Longrightarrow> rte n d' m j = 0" using IH m by simp_all
  note S = dj_source_ok [OF ok m this, unfolded Let_def]
  show ?case unfolding f Let_def
  proof (intro conjI allI impI)
    show "dj_sized n (dj_source a n d' m)" using S by blast
    show "route_ok a n k v (rte n (dj_source a n d' m) k v)" if "1 \<le> k \<and> k < Suc m \<and> 1 \<le> v \<and> v < n \<and> v \<noteq> k" for k v
      using S IH that m by (cases "k = m") simp_all
    show "rte n (dj_source a n d' m) i j = 0" if "i < n" "j < n" "Suc m \<le> i" for i j
      using S IH that by simp
  qed
qed

lemma diagonal_loop:
  assumes "length xs = n * n" "1 \<le> m" "m \<le> n"
  shows "let xs' = foldl (\<lambda>xs k. xs[INDEX k k n := \<lparr>re_next_hop = k, re_entry = 0\<rparr>]) xs [1..<m] in length xs' = n * n \<and>
    (\<forall>i < n. \<forall>j < n. re_next_hop (xs' ! INDEX i j n) = (if i = j \<and> 1 \<le> i \<and> i < m then i else re_next_hop (xs ! INDEX i j n)))"
  using assms(2,3)
proof (induction m rule: dec_induct)
  case base
  then show ?case using assms(1) by simp
next
  case (step m)
  then show ?case by (auto simp: Let_def upt_snoc nth_update_INDEX less_Suc_eq)
qed

lemma routes_of_ok:
  assumes ok: "costs_ok a n" and n: "1 \<le> n"
  shows "length (routes_of junk a n) = n * n \<and>
    (\<forall>k v. 1 \<le> k \<and> k < n \<and> 1 \<le> v \<and> v < n \<longrightarrow>
       (if k = v then re_next_hop (routes_of junk a n ! INDEX k v n) = v
        else route_ok a n k v (re_next_hop (routes_of junk a n ! INDEX k v n))))"
proof -
  define d0 where "d0 = \<lparr>dj_parent = [0..<n], dj_hopcnt = map junk [0..<n],
    dj_route = replicate (n * n) \<lparr>re_next_hop = 0, re_entry = 0\<rparr>\<rparr>"
  have d0: "dj_sized n d0" "\<And>i j. i < n \<Longrightarrow> j < n \<Longrightarrow> rte n d0 i j = 0"
    by (simp_all add: d0_def dj_sized_def INDEX_less)
  define d where "d = foldl (dj_source a n) d0 [1..<n]"
  note L = routes_loop [OF ok d0 n order_refl, folded d_def, unfolded Let_def]
  have len: "length (dj_route d) = n * n" using L by (simp add: dj_sized_def)
  have r: "routes_of junk a n = foldl (\<lambda>xs k. xs[INDEX k k n := \<lparr>re_next_hop = k, re_entry = 0\<rparr>]) (dj_route d) [1..<n]"
    by (simp add: routes_of_def d_def d0_def)
  note D = diagonal_loop [OF len n order_refl, folded r, unfolded Let_def]
  show ?thesis using D L by simp
qed

section \<open>Forwarding\<close>

text \<open>The nodes that a packet visits when each node asks for the next hop, for at most \<open>m\<close> hops.\<close>

fun rl_forward :: "route_logic \<Rightarrow> nat \<Rightarrow> nat \<Rightarrow> nat \<Rightarrow> nat list" where
  "rl_forward r 0 s d = [s]"
| "rl_forward r (Suc m) s d =
     (if s = d then [s]
      else case rl_lookup_flat (int s) (int d) r of
             Inr h \<Rightarrow> if h < 0 then [s] else s # rl_forward r m (nat h) d
           | Inl e \<Rightarrow> [s])"

definition shortest :: "adj_entry list \<Rightarrow> nat \<Rightarrow> nat \<Rightarrow> nat \<Rightarrow> real \<Rightarrow> bool" where
  "shortest a n k v c \<longleftrightarrow> (\<exists>p. is_path a n p \<and> hd p = k \<and> last p = v \<and> path_cost a n p = c) \<and>
     (\<forall>p. is_path a n p \<and> hd p = k \<and> last p = v \<longrightarrow> c \<le> path_cost a n p)"

lemma shortest_route:
  assumes s: "shortest a n k v c" "c < RL_INFINITY" and r: "route_ok a n k v u"
  shows "rl_link a n k u" "shortest a n u v (c - ADJ a n k u)"
proof -
  have "\<exists>p. is_path a n p \<and> hd p = k \<and> last p = v \<and> path_cost a n p < RL_INFINITY"
    using s unfolding shortest_def by blast
  with r obtain c' where via: "path_via a n k u v c'" and least: "\<And>p. is_path a n p \<Longrightarrow> hd p = k \<Longrightarrow> last p = v \<Longrightarrow> c' \<le> path_cost a n p"
    unfolding route_ok_def by (simp only: if_True) blast
  from via obtain p where p: "is_path a n (k # u # p)" "last (k # u # p) = v" "path_cost a n (k # u # p) = c'"
    unfolding path_via_def by blast
  have "c \<le> c'" using s(1) p unfolding shortest_def by (metis list.sel(1))
  moreover have "c' \<le> c" using s(1) least unfolding shortest_def by blast
  ultimately have c: "c' = c" by simp
  show link: "rl_link a n k u" using p(1) by simp
  have least': "c - ADJ a n k u \<le> path_cost a n q" if "is_path a n q" "hd q = u" "last q = v" for q
  proof -
    note h = that
    obtain t where q: "q = u # t" using h(1,2) by (cases q) simp_all
    have "c \<le> path_cost a n (k # q)" using least [of "k # q"] that link by (simp add: c q split: if_splits)
    then show ?thesis by (simp add: q)
  qed
  show "shortest a n u v (c - ADJ a n k u)" unfolding shortest_def
  proof
    show "\<exists>p. is_path a n p \<and> hd p = u \<and> last p = v \<and> path_cost a n p = c - ADJ a n k u"
      using p c by (intro exI [of _ "u # p"]) auto
  qed (use least' in blast)
qed

lemma rl_lookup_computed:
  fixes junk :: "nat \<Rightarrow> real"
  assumes "rl_adj r = Some a" "rl_size r = n" "costs_ok a n" "Suc s < n" "Suc d < n" "s \<noteq> d"
  defines "r' \<equiv> rl_compute_routes junk r"
  shows "\<exists>u. rl_lookup_flat (int s) (int d) r' = Ok (int u - 1) \<and> route_ok a n (Suc s) (Suc d) u"
proof -
  let ?rt = "routes_of junk a n"
  have n: "1 \<le> n" using assms(4) by simp
  note R = routes_of_ok [OF assms(3) n, of junk]
  have e: "int n * (int s + 1) + (int d + 1) = int (INDEX (Suc s) (Suc d) n)" by (simp add: INDEX_def algebra_simps)
  have r: "rl_route r' = Some ?rt" "rl_size r' = n" using assms(1,2) by (simp_all add: r'_def rl_compute_routes_def)
  have l: "INDEX (Suc s) (Suc d) n < length ?rt" using R INDEX_less [OF assms(4,5)] by simp
  have c: "\<not> (int s + 1 \<ge> int n \<or> int d + 1 \<ge> int n)"
    "\<not> (int (INDEX (Suc s) (Suc d) n) < 0 \<or> int (INDEX (Suc s) (Suc d) n) \<ge> int (length ?rt))" using assms(4,5) l by simp_all
  have "rl_lookup_flat (int s) (int d) r' = Ok (int (re_next_hop (?rt ! INDEX (Suc s) (Suc d) n)) - 1)"
    unfolding rl_lookup_flat_def Let_def r option.case e if_not_P [OF c(1)] if_not_P [OF c(2)] by simp
  moreover have "route_ok a n (Suc s) (Suc d) (re_next_hop (?rt ! INDEX (Suc s) (Suc d) n))"
    using R assms(4,5,6) by simp
  ultimately show ?thesis by blast
qed

lemma rl_forward_shortest:
  fixes junk :: "nat \<Rightarrow> real"
  assumes "rl_adj r = Some a" "rl_size r = n" "costs_ok a n" "Suc d < n"
  defines "r' \<equiv> rl_compute_routes junk r"
  defines "closer \<equiv> \<lambda>c. {x \<in> {1..<n}. \<exists>q. is_path a n q \<and> hd q = x \<and> last q = Suc d \<and> path_cost a n q < c}"
  shows "Suc s < n \<Longrightarrow> shortest a n (Suc s) (Suc d) c \<Longrightarrow> c < RL_INFINITY \<Longrightarrow>
    \<exists>m. let p = map Suc (rl_forward r' m s d) in is_path a n p \<and> hd p = Suc s \<and> last p = Suc d \<and> path_cost a n p = c"
proof (induction "card (closer c)" arbitrary: s c rule: less_induct)
  case less
  show ?case
  proof (cases "s = d")
    case True
    have "c \<le> 0" using less.prems(2) assms(4) unfolding shortest_def True by (metis is_path.simps(2) last.simps le_add1 list.sel(1) path_cost.simps(3) plus_1_eq_Suc)
    moreover have "0 \<le> c" using less.prems(2) path_cost_nonneg [OF assms(3)] unfolding shortest_def by blast
    ultimately show ?thesis using True assms(4) by (intro exI [of _ 0]) simp
  next
    case False
    obtain u where u: "rl_lookup_flat (int s) (int d) r' = Ok (int u - 1)" "route_ok a n (Suc s) (Suc d) u"
      using rl_lookup_computed [OF assms(1-3) less.prems(1) assms(4) False, of junk] by (auto simp: r'_def)
    note S = shortest_route [OF less.prems(2,3) u(2)]
    let ?c = "c - ADJ a n (Suc s) u"
    have n: "1 \<le> u" "u < n" using S(1) by (simp_all add: rl_link_def)
    have pos: "0 < ADJ a n (Suc s) u" using costs_okD [OF assms(3) _ less.prems(1) n] by simp
    have fin: "finite (closer c)" by (simp add: closer_def)
    have sub: "closer ?c \<subseteq> closer c" using pos by (auto simp: closer_def)
    have "u \<in> closer c" using S(2) pos n unfolding closer_def shortest_def by force
    moreover have "u \<notin> closer ?c" using S(2) unfolding closer_def shortest_def by force
    ultimately have "card (closer ?c) < card (closer c)" using fin sub by (intro psubset_card_mono) auto
    moreover have su: "Suc (u - 1) = u" using n by simp
    moreover have "?c < RL_INFINITY" using pos less.prems(3) by simp
    ultimately obtain m where m: "is_path a n (map Suc (rl_forward r' m (u - 1) d))" "hd (map Suc (rl_forward r' m (u - 1) d)) = u"
      "last (map Suc (rl_forward r' m (u - 1) d)) = Suc d" "path_cost a n (map Suc (rl_forward r' m (u - 1) d)) = ?c"
      using less.hyps [of ?c "u - 1"] n S(2) by (auto simp: Let_def)
    obtain t where t: "map Suc (rl_forward r' m (u - 1) d) = u # t" using m(1,2) by (cases "map Suc (rl_forward r' m (u - 1) d)") auto
    have "nat (int u - 1) = u - 1" "\<not> int u - 1 < 0" using n by auto
    then have "map Suc (rl_forward r' (Suc m) s d) = Suc s # u # t" using False u(1) t by simp
    then show ?thesis using m S(1) unfolding t by (intro exI [of _ "Suc m"]) (simp add: Let_def)
  qed
qed

section \<open>Growth\<close>

definition rl_wf :: "route_logic \<Rightarrow> bool" where
  "rl_wf r \<longleftrightarrow> (case rl_adj r of None \<Rightarrow> rl_size r = 0 | Some a \<Rightarrow> length a = rl_size r * rl_size r)"

text \<open>The cost of a link; a link of a node outside the matrix has infinite cost.\<close>

definition rl_cost :: "route_logic \<Rightarrow> nat \<Rightarrow> nat \<Rightarrow> real" where
  "rl_cost r i j =
     (case rl_adj r of
        None \<Rightarrow> RL_INFINITY
      | Some a \<Rightarrow> if i < rl_size r \<and> j < rl_size r then ADJ a (rl_size r) i j else RL_INFINITY)"

lemma grow_size_ge: "0 < m \<Longrightarrow> m \<le> grow_size m n \<and> n < grow_size m n"
proof (induction m n rule: grow_size.induct)
  case (1 m n)
  then show ?case by (subst (1 2) grow_size.simps) (auto simp del: grow_size.simps split: if_splits)
qed

lemma copy_row_loop:
  assumes "length xs = m * m" "i < m" "k \<le> osize" "osize \<le> m"
  shows "let ys = foldl (\<lambda>xs j. xs[INDEX i j m := (xs ! INDEX i j m)\<lparr>ae_cost := ae_cost (old ! INDEX i j osize)\<rparr>]) xs [0..<k] in
    length ys = m * m \<and> (\<forall>i' < m. \<forall>j' < m. ADJ ys m i' j' = (if i' = i \<and> j' < k then ADJ old osize i j' else ADJ xs m i' j'))"
  using assms(3)
proof (induction k)
  case 0
  then show ?case using assms(1) by simp
next
  case (Suc k)
  then have "k < m" using assms(4) by simp
  with Suc assms(2) show ?case by (auto simp: Let_def nth_update_INDEX less_Suc_eq)
qed

lemma copy_rows_loop:
  assumes "length xs = m * m" "k \<le> osize" "osize \<le> m"
  shows "let ys = foldl (\<lambda>xs i. copy_row old osize m i xs) xs [0..<k] in
    length ys = m * m \<and> (\<forall>i < m. \<forall>j < m. ADJ ys m i j = (if i < k \<and> j < osize then ADJ old osize i j else ADJ xs m i j))"
  using assms(2)
proof (induction k)
  case 0
  then show ?case using assms(1) by simp
next
  case (Suc k)
  define ys where "ys = foldl (\<lambda>xs i. copy_row old osize m i xs) xs [0..<k]"
  note IH = Suc.IH [OF Suc_leD [OF Suc.prems], folded ys_def, unfolded Let_def]
  have k: "k < m" using Suc.prems assms(3) by simp
  have f: "foldl (\<lambda>xs i. copy_row old osize m i xs) xs [0..<Suc k] = copy_row old osize m k ys" by (simp add: ys_def)
  note C = copy_row_loop [OF conjunct1 [OF IH] k order_refl assms(3), of old, folded copy_row_def, unfolded Let_def]
  show ?case unfolding f Let_def using C IH by (auto simp: less_Suc_eq)
qed

lemma rl_check_grows:
  assumes "rl_wf r"
  shows "rl_wf (rl_check n r) \<and> n < rl_size (rl_check n r) \<and> rl_size r \<le> rl_size (rl_check n r) \<and> rl_adj (rl_check n r) \<noteq> None \<and>
    (\<forall>i j. rl_cost (rl_check n r) i j = rl_cost r i j) \<and> rl_route (rl_check n r) = rl_route r"
proof (cases "n < rl_size r")
  case True
  then show ?thesis using assms by (auto simp: rl_check_def rl_wf_def split: option.splits)
next
  case False
  define os where "os = rl_size r"
  define old where "old = (case rl_adj r of None \<Rightarrow> [] | Some a \<Rightarrow> a)"
  define m where "m = grow_size (if os = 0 then 16 else os) n"
  have m: "os \<le> m" "n < m" using grow_size_ge [of "if os = 0 then 16 else os" n] by (auto simp: m_def split: if_splits)
  let ?e = "\<lparr>ae_cost = RL_INFINITY, ae_entry = 0\<rparr>"
  define ys where "ys = foldl (\<lambda>xs i. copy_row old os m i xs) (replicate (m * m) ?e) [0..<os]"
  note C = copy_rows_loop [of "replicate (m * m) ?e" m os os old, OF length_replicate order_refl m(1), folded ys_def, unfolded Let_def]
  have c: "ADJ ys m i j = (if i < os \<and> j < os then ADJ old os i j else RL_INFINITY)" if "i < m" "j < m" for i j
    using C that by (simp add: INDEX_less)
  have r: "rl_check n r = r\<lparr>rl_size := m, rl_adj := Some ys\<rparr>"
    using False by (simp add: rl_check_def Let_def rl_alloc_def ys_def m_def os_def old_def)
  have "rl_cost (rl_check n r) i j = rl_cost r i j" for i j
    using c m assms by (cases "rl_adj r") (auto simp: r rl_cost_def old_def os_def rl_wf_def)
  then show ?thesis using m C by (auto simp: r rl_wf_def os_def)
qed

lemma rl_set_cost_updates:
  assumes "rl_wf r" "src < rl_size r" "dst < rl_size r"
  shows "rl_wf (rl_set_cost src dst c r) \<and> rl_size (rl_set_cost src dst c r) = rl_size r \<and>
    (\<forall>i j. rl_cost (rl_set_cost src dst c r) i j = (if i = src \<and> j = dst then c else rl_cost r i j))"
  using assms
  by (cases "rl_adj r") (auto simp: rl_set_cost_def rl_wf_def rl_cost_def Let_def nth_update_INDEX)

lemma rl_insert_cost:
  assumes "rl_wf r"
  shows "rl_wf (rl_insert x y c r) \<and> max x y < rl_size (rl_insert x y c r) \<and>
    (\<forall>i j. rl_cost (rl_insert x y c r) i j = (if i = x \<and> j = y then c else rl_cost r i j))"
proof -
  note G = rl_check_grows [OF assms, of x]
  have w: "rl_wf (rl_check x r)" using G by blast
  note H = rl_check_grows [OF w, of y]
  have "rl_wf (rl_check y (rl_check x r))" "x < rl_size (rl_check y (rl_check x r))" "y < rl_size (rl_check y (rl_check x r))"
    using G H by auto
  with rl_set_cost_updates [OF this, of c] G H show ?thesis by (simp add: rl_insert_def)
qed

section \<open>Properties\<close>

text \<open>
  \<open>insert\<close> sets the cost of one link and keeps every other, also when the matrix grows; \<open>reset\<close> makes
  the cost of a link infinite and fails its assertion exactly for a node outside the matrix.
\<close>

theorem rl_insert_reset_update:
  assumes "rl_wf r"
  shows "rl_wf (rl_insert src dst c r) \<and> max src dst < rl_size (rl_insert src dst c r) \<and>
    rl_cost (rl_insert src dst c r) = (rl_cost r)(src := (rl_cost r src)(dst := c)) \<and>
    (case rl_reset src dst r of
       Inl e \<Rightarrow> e = Assertion \<and> rl_size r \<le> max src dst
     | Inr r' \<Rightarrow> rl_wf r' \<and> max src dst < rl_size r \<and> rl_cost r' = (rl_cost r)(src := (rl_cost r src)(dst := RL_INFINITY)))"
proof -
  show ?thesis
    using rl_insert_cost [OF assms, of src dst c] rl_set_cost_updates [OF assms, of src dst RL_INFINITY]
    by (auto simp: rl_reset_def fun_eq_iff not_less)
qed

theorem rl_insert_reset_update_witness:
  "rl_cost (rl_insert 20 3 5 (rl_insert 1 2 7 rl_new)) 1 2 = 7"
proof -
  have "rl_wf rl_new" by (simp add: rl_wf_def rl_new_def)
  note A = rl_insert_reset_update [OF this, of 1 2 7]
  have "rl_wf (rl_insert 1 2 7 rl_new)" using A by blast
  with rl_insert_reset_update [OF this, of 20 3 5] A show ?thesis by simp
qed

lemma shortest_exists:
  assumes "costs_ok a n" "Suc s < n" "route_ok a n (Suc s) v u \<or> v = Suc s"
    "\<exists>p. is_path a n p \<and> hd p = Suc s \<and> last p = v \<and> path_cost a n p < RL_INFINITY"
  obtains c where "shortest a n (Suc s) v c" "c < RL_INFINITY"
proof (cases "v = Suc s")
  case True
  have "is_path a n [v] \<and> path_cost a n [v] = 0" using True assms(2) by simp
  then have "shortest a n (Suc s) v 0"
    using True path_cost_nonneg [OF assms(1)] unfolding shortest_def by (metis last.simps list.sel(1))
  then show thesis by (rule that) (simp add: RL_INFINITY_def)
next
  case False
  then have "\<exists>c. path_via a n (Suc s) u v c \<and> (\<forall>p. is_path a n p \<and> hd p = Suc s \<and> last p = v \<longrightarrow> c \<le> path_cost a n p)"
    using assms(3,4) unfolding route_ok_def by (simp only: if_True) blast
  then obtain c where c: "path_via a n (Suc s) u v c" "\<And>p. is_path a n p \<Longrightarrow> hd p = Suc s \<Longrightarrow> last p = v \<Longrightarrow> c \<le> path_cost a n p"
    by blast
  then have "shortest a n (Suc s) v c" unfolding shortest_def path_via_def by (metis list.sel(1))
  moreover have "c < RL_INFINITY" using assms(4) c(2) by fastforce
  ultimately show thesis by (rule that)
qed

text \<open>
  C10: when link costs are positive and at most the infinite cost, following the next hops that
  \<open>compute_routes\<close> finds leads from any node to any other along a path of least cost, whatever memory the distances
  start with; the lookup answers -1 exactly when every path costs at least 16383 or none exists.
\<close>

theorem routes_are_shortest:
  assumes "rl_adj r = Some a" "rl_size r = n" "costs_ok a n" "Suc s < n" "Suc d < n"
  shows "if \<exists>p. is_path a n p \<and> hd p = Suc s \<and> last p = Suc d \<and> path_cost a n p < RL_INFINITY
    then \<exists>m c. shortest a n (Suc s) (Suc d) c \<and>
      (let p = map Suc (rl_forward (rl_compute_routes junk r) m s d)
       in is_path a n p \<and> hd p = Suc s \<and> last p = Suc d \<and> path_cost a n p = c)
    else rl_lookup_flat (int s) (int d) (rl_compute_routes junk r) = Ok (-1)"
proof (cases "s = d")
  case True
  have "shortest a n (Suc s) (Suc s) 0"
    using path_cost_nonneg [OF assms(3)] assms(4) unfolding shortest_def by (auto intro: exI [of _ "[Suc s]"])
  moreover have "is_path a n [Suc s] \<and> path_cost a n [Suc s] = 0" using assms(4) by simp
  ultimately have F: "shortest a n (Suc s) (Suc d) 0 \<and>
      (let p = map Suc (rl_forward (rl_compute_routes junk r) 0 s d)
       in is_path a n p \<and> hd p = Suc s \<and> last p = Suc d \<and> path_cost a n p = 0)"
    using True by (simp add: Let_def)
  have P: "\<exists>p. is_path a n p \<and> hd p = Suc s \<and> last p = Suc d \<and> path_cost a n p < RL_INFINITY"
    by (rule exI [of _ "[Suc s]"]) (use True assms(4) in \<open>simp add: RL_INFINITY_def\<close>)
  show ?thesis unfolding if_P [OF P] by (rule exI [of _ 0], rule exI [of _ 0], rule F)
next
  case False
  obtain u where u: "rl_lookup_flat (int s) (int d) (rl_compute_routes junk r) = Ok (int u - 1)" "route_ok a n (Suc s) (Suc d) u"
    using rl_lookup_computed [OF assms False] by blast
  show ?thesis
  proof (cases "\<exists>p. is_path a n p \<and> hd p = Suc s \<and> last p = Suc d \<and> path_cost a n p < RL_INFINITY")
    case True
    obtain c where "shortest a n (Suc s) (Suc d) c" "c < RL_INFINITY"
      using shortest_exists [OF assms(3,4) _ True] u(2) by blast
    with rl_forward_shortest [OF assms(1-3,5,4) this, of junk] True show ?thesis by (simp only: if_True) blast
  next
    case False
    then have "u = 0" using u(2) unfolding route_ok_def by (simp only: if_False)
    then show ?thesis using u(1) False by (simp only: if_False) simp
  qed
qed

definition demo_net :: route_logic where
  "demo_net = rl_insert 2 3 1 (rl_insert 1 2 1 rl_new)"

lemma demo_net_cost: "rl_wf demo_net" "rl_cost demo_net i j = (if (i, j) \<in> {(1, 2), (2, 3)} then 1 else RL_INFINITY)" "3 < rl_size demo_net"
proof -
  have w: "rl_wf rl_new" "\<And>i j. rl_cost rl_new i j = RL_INFINITY" by (simp_all add: rl_wf_def rl_new_def rl_cost_def)
  note A = rl_insert_cost [OF w(1), of 1 2 1]
  have "rl_wf (rl_insert 1 2 1 rl_new)" using A by blast
  note B = rl_insert_cost [OF this, of 2 3 1]
  show "rl_wf demo_net" "rl_cost demo_net i j = (if (i, j) \<in> {(1, 2), (2, 3)} then 1 else RL_INFINITY)" "3 < rl_size demo_net"
    using A B w(2) unfolding demo_net_def by auto
qed

theorem routes_are_shortest_witness:
  "\<exists>m. let p = rl_forward (rl_compute_routes (\<lambda>_. 0) demo_net) m 0 2 in hd (map Suc p) = 1 \<and> last (map Suc p) = 3 \<and>
     path_cost (the (rl_adj demo_net)) (rl_size demo_net) (map Suc p) \<le> 2"
proof -
  obtain a where a: "rl_adj demo_net = Some a" using demo_net_cost(1,3) by (cases "rl_adj demo_net") (auto simp: rl_wf_def)
  define n where "n = rl_size demo_net"
  have n: "3 < n" using demo_net_cost(3) by (simp add: n_def)
  have c: "ADJ a n i j = (if (i, j) \<in> {(1, 2), (2, 3)} then 1 else RL_INFINITY)" if "i < n" "j < n" for i j
    using demo_net_cost(2) [of i j] that a by (simp add: rl_cost_def n_def)
  have ok: "costs_ok a n" unfolding costs_ok_def using c by (auto simp: RL_INFINITY_def)
  have p: "is_path a n [1, 2, 3]" "path_cost a n [1, 2, 3] = 2"
    using c [of 1 2] c [of 2 3] n by (auto simp: rl_link_def RL_INFINITY_def)
  have P: "is_path a n [1, 2, 3] \<and> hd [1, 2, 3] = Suc 0 \<and> last [1, 2, 3] = Suc 2 \<and> path_cost a n [1, 2, 3] < RL_INFINITY"
    using p by (simp add: RL_INFINITY_def)
  have lt: "Suc 0 < n" "Suc 2 < n" using n by simp_all
  have "\<exists>m c. shortest a n (Suc 0) (Suc 2) c \<and>
      (let p = map Suc (rl_forward (rl_compute_routes (\<lambda>_. 0) demo_net) m 0 2)
       in is_path a n p \<and> hd p = Suc 0 \<and> last p = Suc 2 \<and> path_cost a n p = c)"
    using routes_are_shortest [OF a n_def [symmetric] ok lt, of "\<lambda>_. 0", unfolded if_P [OF exI [of "\<lambda>p. is_path a n p \<and> hd p = Suc 0 \<and> last p = Suc 2 \<and> path_cost a n p < RL_INFINITY", OF P]]] .
  then obtain m c where m: "shortest a n (Suc 0) (Suc 2) c"
    "let p = map Suc (rl_forward (rl_compute_routes (\<lambda>_. 0) demo_net) m 0 2)
       in is_path a n p \<and> hd p = Suc 0 \<and> last p = Suc 2 \<and> path_cost a n p = c" by blast
  have "c \<le> path_cost a n [1, 2, 3]" using m(1) P unfolding shortest_def by blast
  then have "c \<le> 2" by (simp only: p(2))
  with m(2) show ?thesis unfolding n_def [symmetric] by (intro exI [of _ m]) (simp add: Let_def a)
qed

end
