(* ===== verification/Reassembly.thy ===== *)
theory Reassembly
  imports Prelude
begin

unbundle bit_operations_syntax

text \<open>
  The reassembly queue of \<open>tcp/rq.cc\<close> and \<open>tcp/rq.h\<close>, used by the full TCP agents and by the SACK senders: a doubly linked
  list of blocks in the order of their sequence numbers (FIFO) and a stack of the same blocks in the
  order of their insertion (LIFO). A block has an identity; the FIFO is the list of the blocks, the LIFO the list of their identities. A position
  in the FIFO stands for a pointer to a block, \<open>None\<close> for the null pointer. Sequence numbers are unbounded integers.
\<close>

section \<open>State\<close>

record seginfo =
  sg_id :: nat
  sg_start :: int
  sg_end :: int
  sg_pflags :: int
  sg_rqflags :: int
  sg_cnt :: int

record rqueue =
  rq_fifo :: "seginfo list"
  rq_lifo :: "nat list"
  rq_hint :: "nat option"
  rq_total :: int
  rq_rcv_nxt :: int
  rq_fresh :: nat

definition rq_new :: "int \<Rightarrow> rqueue" where
  "rq_new rcvnxt = \<lparr>rq_fifo = [], rq_lifo = [], rq_hint = None, rq_total = 0, rq_rcv_nxt = rcvnxt, rq_fresh = 0\<rparr>"

definition rq_empty :: "rqueue \<Rightarrow> bool" where
  "rq_empty r \<longleftrightarrow> rq_fifo r = []"

definition rq_maxseq :: "rqueue \<Rightarrow> int" where
  "rq_maxseq r = (if rq_fifo r \<noteq> [] then sg_end (last (rq_fifo r)) else -1)"

definition rq_minseq :: "rqueue \<Rightarrow> int" where
  "rq_minseq r = (if rq_fifo r \<noteq> [] then sg_start (hd (rq_fifo r)) else -1)"

section \<open>Links\<close>

definition rq_fremove :: "nat \<Rightarrow> rqueue \<Rightarrow> rqueue" where
  "rq_fremove i r =
     r\<lparr>rq_hint := (if rq_hint r = Some i then None else rq_hint r), rq_fifo := filter (\<lambda>s. sg_id s \<noteq> i) (rq_fifo r)\<rparr>"

definition rq_sremove :: "nat \<Rightarrow> rqueue \<Rightarrow> rqueue" where
  "rq_sremove i r =
     r\<lparr>rq_hint := (if rq_hint r = Some i then None else rq_hint r), rq_lifo := filter (\<lambda>j. j \<noteq> i) (rq_lifo r)\<rparr>"

definition rq_push :: "nat \<Rightarrow> rqueue \<Rightarrow> rqueue" where
  "rq_push i r = r\<lparr>rq_lifo := i # rq_lifo r\<rparr>"

definition rq_upd :: "nat \<Rightarrow> (seginfo \<Rightarrow> seginfo) \<Rightarrow> rqueue \<Rightarrow> rqueue" where
  "rq_upd i f r = r\<lparr>rq_fifo := map (\<lambda>s. if sg_id s = i then f s else s) (rq_fifo r)\<rparr>"

fun rq_cnts :: "seginfo list \<Rightarrow> int \<times> int" where
  "rq_cnts [] = (0, 0)"
| "rq_cnts (p # ps) = (case rq_cnts ps of (blks, bytes) \<Rightarrow> (blks + 1, bytes + (sg_end p - sg_start p)))"

definition rq_clear :: "rqueue \<Rightarrow> rqueue" where
  "rq_clear r = r\<lparr>rq_fifo := [], rq_lifo := [], rq_hint := None, rq_total := 0\<rparr>"

definition rq_init :: "int \<Rightarrow> rqueue \<Rightarrow> rqueue" where
  "rq_init rcvnxt r = rq_clear (r\<lparr>rq_rcv_nxt := rcvnxt\<rparr>)"

section \<open>Removal up to a sequence number\<close>

fun rq_clearto_loop :: "int \<Rightarrow> seginfo list \<Rightarrow> int \<Rightarrow> rqueue \<Rightarrow> int \<times> rqueue" where
  "rq_clearto_loop sq [] flag r = (flag, r)"
| "rq_clearto_loop sq (p # ps) flag r =
     (if sg_end p \<le> sq
      then rq_clearto_loop sq ps (flag OR sg_pflags p)
             (rq_fremove (sg_id p) (rq_sremove (sg_id p) (r\<lparr>rq_total := rq_total r - (sg_end p - sg_start p)\<rparr>)))
      else (flag, r))"

definition rq_clearto :: "int \<Rightarrow> rqueue \<Rightarrow> int \<times> rqueue" where
  "rq_clearto sq r =
     (let (flag, r1) = rq_clearto_loop sq (rq_fifo r) 0 r
      in case rq_fifo r1 of
           [] \<Rightarrow> (flag, r1)
         | p # ps \<Rightarrow>
             if sg_start p \<le> sq \<and> sg_end p > sq
             then (flag OR sg_pflags p,
                   r1\<lparr>rq_total := rq_total r1 - (sq - sg_start p), rq_fifo := p\<lparr>sg_start := sq\<rparr> # ps\<rparr>)
             else (flag, r1))"

definition rq_cleartonxt :: "rqueue \<Rightarrow> int \<times> rqueue" where
  "rq_cleartonxt r = rq_clearto (rq_rcv_nxt r) r"

text \<open>The blocks of the stack from its top; \<open>None\<close> would be a block that is not in the FIFO.\<close>

definition rq_gensack :: "nat \<Rightarrow> rqueue \<Rightarrow> (int \<times> int) option list" where
  "rq_gensack maxsblock r =
     map (\<lambda>i. map_option (\<lambda>s. (sg_start s, sg_end s)) (find (\<lambda>s. sg_id s = i) (rq_fifo r))) (take maxsblock (rq_lifo r))"

section \<open>The next hole\<close>

text \<open>The hole, and the number of blocks and bytes above it.\<close>

fun rq_hole_loop :: "int \<Rightarrow> seginfo list \<Rightarrow> int \<times> int \<times> int" where
  "rq_hole_loop sq [] = (-1, -1, -1)"
| "rq_hole_loop sq (p # ps) =
     (if sg_start p > sq then (sq, rq_cnts (p # ps))
      else if sg_start p \<le> sq \<and> sg_end p \<ge> sq
           then (sg_end p, if ps \<noteq> [] then rq_cnts ps else (-1, -1))
      else rq_hole_loop sq ps)"

definition rq_nexthole :: "int \<Rightarrow> rqueue \<Rightarrow> (int \<times> int \<times> int) \<times> rqueue" where
  "rq_nexthole sq r =
     (rq_hole_loop sq (rq_fifo r),
      r\<lparr>rq_hint := (case rq_fifo r of [] \<Rightarrow> None | p # ps \<Rightarrow> Some (sg_id p))\<rparr>)"

section \<open>Insertion\<close>

definition rq_delete :: "seginfo \<Rightarrow> rqueue \<Rightarrow> rqueue" where
  "rq_delete s r = rq_sremove (sg_id s) (rq_fremove (sg_id s) r)"

text \<open>\<open>p\<close> is the block before the new block \<open>n\<close>, \<open>q\<close> the one after.\<close>

definition rq_coalesce :: "seginfo option \<Rightarrow> seginfo \<Rightarrow> seginfo option \<Rightarrow> rqueue \<Rightarrow> (int \<times> rqueue) res" where
  "rq_coalesce p n q r =
     (let joins_p = (case p of None \<Rightarrow> False | Some ps \<Rightarrow> sg_end ps = sg_start n);
          joins_q = (case q of None \<Rightarrow> False | Some qs \<Rightarrow> sg_end n = sg_start qs);
          r1 = rq_fremove (sg_id n) (rq_sremove (sg_id n) r);
          (flags, p1, r2) =
            (if joins_p \<and> joins_q
             then let ps = the p; qs = the q;
                      ps1 = ps\<lparr>sg_end := sg_end qs, sg_cnt := sg_cnt ps + (sg_cnt n + sg_cnt qs),
                               sg_pflags := sg_pflags ps OR sg_pflags n\<rparr>
                  in (sg_pflags ps1, Some ps1,
                      rq_upd (sg_id ps) (\<lambda>_. ps1) (rq_fremove (sg_id qs) (rq_sremove (sg_id qs) r1)))
             else if joins_p
             then let ps = the p;
                      ps1 = ps\<lparr>sg_end := sg_end n, sg_pflags := sg_pflags ps OR sg_pflags n, sg_cnt := sg_cnt ps + sg_cnt n\<rparr>
                  in (sg_pflags ps1, Some ps1, rq_upd (sg_id ps) (\<lambda>_. ps1) r1)
             else if joins_q
             then let qs = the q;
                      qs1 = qs\<lparr>sg_start := sg_start n, sg_pflags := sg_pflags qs OR sg_pflags n, sg_cnt := sg_cnt qs + sg_cnt n\<rparr>
                  in (sg_pflags qs1, Some qs1, rq_upd (sg_id qs) (\<lambda>_. qs1) r1)
             else (0, p, r))
      in case p1 of
           None \<Rightarrow> Fail Null_Deref
         | Some ps \<Rightarrow> Ok (flags, r2\<lparr>rq_rcv_nxt := (if rq_rcv_nxt r2 \<ge> sg_start ps then sg_end ps else rq_rcv_nxt r2)\<rparr>))"

text \<open>\<open>endfast\<close>: a new block between the positions \<open>p\<close> and \<open>q\<close>.\<close>

definition seg_at :: "seginfo list \<Rightarrow> nat option \<Rightarrow> seginfo option" where
  "seg_at xs p = map_option (\<lambda>i. xs ! i) p"

definition rq_link ::
  "nat option \<Rightarrow> nat option \<Rightarrow> int \<Rightarrow> int \<Rightarrow> int \<Rightarrow> int \<Rightarrow> int \<Rightarrow> bool \<Rightarrow> rqueue \<Rightarrow> (int \<times> rqueue) res" where
  "rq_link p q st en tiflags rqflags initcnt needmerge r =
     (let n = \<lparr>sg_id = rq_fresh r, sg_start = st, sg_end = en, sg_pflags = tiflags, sg_rqflags = rqflags, sg_cnt = initcnt\<rparr>;
          xs = rq_fifo r;
          pre = (case p of None \<Rightarrow> [] | Some i \<Rightarrow> take (Suc i) xs);
          post = (case q of None \<Rightarrow> [] | Some j \<Rightarrow> drop j xs);
          r1 = (rq_push (sg_id n) r)\<lparr>rq_fifo := pre @ [n] @ post, rq_fresh := Suc (rq_fresh r),
                                      rq_total := rq_total r + (en - st)\<rparr>
      in if needmerge then rq_coalesce (seg_at xs p) n (seg_at xs q) r1
         else Ok (tiflags, if rq_rcv_nxt r1 \<ge> st then r1\<lparr>rq_rcv_nxt := en\<rparr> else r1))"

text \<open>The first block that begins at or after \<open>en\<close>, from the head; the last that ends at or before \<open>st\<close>, from the tail.\<close>

definition rq_after :: "int \<Rightarrow> seginfo list \<Rightarrow> nat option" where
  "rq_after en xs =
     (let j = length (takeWhile (\<lambda>s. sg_start s < en) xs) in if j = length xs then None else Some j)"

definition rq_before :: "int \<Rightarrow> seginfo list \<Rightarrow> nat option" where
  "rq_before st xs =
     (let i = length (dropWhile (\<lambda>s. sg_end s > st) (rev xs)) in if i = 0 then None else Some (i - 1))"

text \<open>Kill the blocks that are overlapped completely; stop at one that is the same.\<close>

datatype kill_result = Same int rqueue | Killed int int bool rqueue

fun rq_kill :: "int \<Rightarrow> int \<Rightarrow> seginfo list \<Rightarrow> int \<Rightarrow> int \<Rightarrow> bool \<Rightarrow> rqueue \<Rightarrow> kill_result" where
  "rq_kill st en [] tiflags initcnt altered r = Killed tiflags initcnt altered r"
| "rq_kill st en (s # ss) tiflags initcnt altered r =
     (if st = sg_start s \<and> en = sg_end s
      then Same (sg_pflags s OR tiflags) (rq_upd (sg_id s) (\<lambda>s. s\<lparr>sg_pflags := sg_pflags s OR tiflags\<rparr>) r)
      else if st \<le> sg_start s \<and> en \<ge> sg_end s
      then rq_kill st en ss (tiflags OR sg_pflags s) (initcnt + sg_cnt s) True
             (rq_delete s (r\<lparr>rq_total := rq_total r - (sg_end s - sg_start s)\<rparr>))
      else rq_kill st en ss tiflags initcnt altered r)"

lemma rq_kill_length:
  assumes "rq_kill st en ss tiflags initcnt altered r = Killed fl cnt alt r'"
  shows "length (rq_fifo r') \<le> length (rq_fifo r) \<and>
    (alt \<and> \<not> altered \<and> set ss \<subseteq> set (rq_fifo r) \<longrightarrow> length (rq_fifo r') < length (rq_fifo r))"
  using assms
proof (induction ss arbitrary: tiflags initcnt altered r)
  case (Cons s ss)
  define r1 where "r1 = rq_delete s (r\<lparr>rq_total := rq_total r - (sg_end s - sg_start s)\<rparr>)"
  have f: "rq_fifo r1 = filter (\<lambda>t. sg_id t \<noteq> sg_id s) (rq_fifo r)"
    by (simp add: r1_def rq_delete_def rq_sremove_def rq_fremove_def)
  have le: "length (rq_fifo r1) \<le> length (rq_fifo r)" by (simp add: f)
  have less: "length (rq_fifo r1) < length (rq_fifo r)" if "s \<in> set (rq_fifo r)"
    unfolding f using that by (intro length_filter_less) auto
  show ?case
  proof (cases "st = sg_start s \<and> en = sg_end s")
    case False
    show ?thesis
    proof (cases "st \<le> sg_start s \<and> en \<ge> sg_end s")
      case True
      then have k: "rq_kill st en ss (tiflags OR sg_pflags s) (initcnt + sg_cnt s) True r1 = Killed fl cnt alt r'"
        using Cons.prems False by (simp add: r1_def)
      from Cons.IH [OF this] le less show ?thesis by auto
    next
      case F: False
      have "rq_kill st en ss tiflags initcnt altered r = Killed fl cnt alt r'"
        using Cons.prems [unfolded rq_kill.simps if_not_P [OF False] if_not_P [OF F]] .
      from Cons.IH [OF this] show ?thesis by auto
    qed
  qed (use Cons.prems in simp)
qed simp

text \<open>The merges with a block that is overlapped on the left or on the right of the new one.\<close>

definition rq_left :: "nat \<Rightarrow> int \<Rightarrow> int \<Rightarrow> rqueue \<Rightarrow> rqueue" where
  "rq_left i st tiflags r =
     (let s = rq_fifo r ! i
      in r\<lparr>rq_total := (if st < sg_start s then rq_total r + (sg_start s - st) else rq_total r),
            rq_fifo := (rq_fifo r)[i := s\<lparr>sg_start := (if st < sg_start s then st else sg_start s),
                                          sg_pflags := sg_pflags s OR tiflags, sg_cnt := sg_cnt s + 1\<rparr>]\<rparr>)"

definition rq_right :: "nat \<Rightarrow> int \<Rightarrow> int \<Rightarrow> rqueue \<Rightarrow> rqueue" where
  "rq_right j en tiflags r =
     (let s = rq_fifo r ! j
      in r\<lparr>rq_total := (if en > sg_end s then rq_total r + (en - sg_end s) else rq_total r),
            rq_fifo := (rq_fifo r)[j := s\<lparr>sg_end := (if en > sg_end s then en else sg_end s),
                                          sg_pflags := sg_pflags s OR tiflags\<rparr>]\<rparr>)"

text \<open>Without a merge neither \<open>p\<close> nor \<open>q\<close> is the null pointer.\<close>

definition rq_merge ::
  "nat option \<Rightarrow> nat option \<Rightarrow> int \<Rightarrow> int \<Rightarrow> int \<Rightarrow> int \<Rightarrow> int \<Rightarrow> rqueue \<Rightarrow> (int \<times> rqueue) res" where
  "rq_merge p q st en tiflags rqflags initcnt r =
     (let xs = rq_fifo r
      in res_bind (case p of
                     None \<Rightarrow> Ok True
                   | Some i \<Rightarrow> if Suc i < length xs then Ok (sg_start (xs ! Suc i) < st) else Fail Null_Deref) (\<lambda>l.
         let i = (case p of None \<Rightarrow> 0 | Some i \<Rightarrow> Suc i);
             p1 = (if l then Some i else p);
             r1 = (if l then rq_left i st tiflags r else r);
             st1 = (if l then sg_end (xs ! i) else st);
             initcnt1 = (if l then initcnt - 1 else initcnt);
             ys = rq_fifo r1
         in res_bind (case q of
                        None \<Rightarrow> Ok True
                      | Some 0 \<Rightarrow> Fail Null_Deref
                      | Some (Suc j) \<Rightarrow> Ok (sg_end (ys ! j) > en)) (\<lambda>rt.
            let j = (case q of None \<Rightarrow> length ys - 1 | Some j \<Rightarrow> j - 1);
                q1 = (if rt then Some j else q);
                r2 = (if rt then rq_right j en tiflags r1 else r1);
                en1 = (if rt then sg_start (ys ! j) else en);
                zs = rq_fifo r2;
                fits = (case (p1, q1) of
                          (Some a, Some b) \<Rightarrow> b = Suc a \<and> sg_end (zs ! a) \<le> st1 \<and> sg_start (zs ! b) \<ge> en1 \<and>
                                              (sg_end (zs ! a) = st1 \<or> sg_start (zs ! b) = en1)
                        | _ \<Rightarrow> False)
            in if en1 \<le> st1
               then Ok (tiflags, if rq_rcv_nxt r2 \<ge> sg_start (hd zs) then r2\<lparr>rq_rcv_nxt := sg_end (hd zs)\<rparr> else r2)
               else rq_link p1 q1 st1 en1 tiflags rqflags initcnt1 (l \<or> rt \<or> fits) r2)))"

text \<open>The blocks from \<open>p\<close>, or the head, to the one before \<open>q\<close>.\<close>

definition rq_between :: "nat option \<Rightarrow> nat option \<Rightarrow> seginfo list \<Rightarrow> seginfo list" where
  "rq_between p q xs =
     drop (case p of None \<Rightarrow> 0 | Some i \<Rightarrow> i) (take (case q of None \<Rightarrow> length xs | Some j \<Rightarrow> j) xs)"

lemma rq_between_subset: "set (rq_between p q xs) \<subseteq> set xs"
  unfolding rq_between_def by (meson order_trans set_drop_subset set_take_subset)

text \<open>From \<open>again2\<close> on. When everything has been overlapped both \<open>p\<close> and \<open>q\<close> are null.\<close>

function rq_add_loop :: "int \<Rightarrow> int \<Rightarrow> int \<Rightarrow> int \<Rightarrow> int \<Rightarrow> rqueue \<Rightarrow> (int \<times> rqueue) res" where
  "rq_add_loop st en tiflags rqflags initcnt r =
     (let xs = rq_fifo r; q = rq_after en xs; p = rq_before st xs
      in if xs = [] then Fail Null_Deref
         else if st \<ge> sg_end (last xs)
         then rq_link (Some (length xs - 1)) None st en tiflags rqflags initcnt (st = sg_end (last xs)) r
         else if en \<le> sg_start (hd xs)
         then rq_link None (Some 0) st en tiflags rqflags initcnt (en = sg_start (hd xs)) r
         else case rq_kill st en (rq_between p q xs) tiflags initcnt False r of
                Same fl r' \<Rightarrow> Ok (fl, r')
              | Killed fl cnt altered r' \<Rightarrow>
                  if rq_empty r' then rq_link p q st en fl rqflags cnt False r'
                  else if altered then rq_add_loop st en fl rqflags cnt r'
                  else rq_merge p q st en fl rqflags cnt r')"
  by pat_completeness auto
termination
  by (relation "measure (\<lambda>(st, en, tiflags, rqflags, initcnt, r). length (rq_fifo r))")
     (auto dest!: rq_kill_length dest: rq_between_subset [THEN subsetD])

declare rq_add_loop.simps [simp del]

definition rq_add :: "int \<Rightarrow> int \<Rightarrow> int \<Rightarrow> int \<Rightarrow> rqueue \<Rightarrow> (int \<times> rqueue) res" where
  "rq_add st en tiflags rqflags r =
     (if en < st then Fail Abort
      else if rq_fifo r = []
      then if rq_lifo r \<noteq> [] then Fail Abort
           else let r1 = r\<lparr>rq_fifo := [\<lparr>sg_id = rq_fresh r, sg_start = st, sg_end = en, sg_pflags = tiflags,
                                         sg_rqflags = rqflags, sg_cnt = 1\<rparr>],
                            rq_lifo := [rq_fresh r], rq_fresh := Suc (rq_fresh r), rq_total := en - st\<rparr>
                in Ok (tiflags, if rq_rcv_nxt r1 \<ge> st then r1\<lparr>rq_rcv_nxt := en\<rparr> else r1)
      else rq_add_loop st en tiflags rqflags 1 r)"

end
