(* ===== verification/Reassembly_Correct.thy ===== *)
theory Reassembly_Correct
  imports Reassembly
begin

text \<open>
  The reassembly queue against the set of the bytes it has received: the blocks stay separated and in order, an insertion adds
  exactly its bytes, and \<open>rcv_nxt_\<close> moves over the bytes that have become contiguous.
\<close>

section \<open>The set of bytes\<close>

definition seg_bytes :: "seginfo \<Rightarrow> int set" where
  "seg_bytes s = {sg_start s..<sg_end s}"

definition rq_bytes :: "seginfo list \<Rightarrow> int set" where
  "rq_bytes xs = (\<Union>s \<in> set xs. seg_bytes s)"

definition segs_ok :: "seginfo list \<Rightarrow> bool" where
  "segs_ok xs \<longleftrightarrow> sorted_wrt (\<lambda>a b. sg_end a < sg_start b) xs \<and> (\<forall>s \<in> set xs. sg_start s < sg_end s)"

definition segs_total :: "seginfo list \<Rightarrow> int" where
  "segs_total xs = sum_list (map (\<lambda>s. sg_end s - sg_start s) xs)"

definition ids_ok :: "rqueue \<Rightarrow> bool" where
  "ids_ok r \<longleftrightarrow> distinct (map sg_id (rq_fifo r)) \<and> distinct (rq_lifo r) \<and> set (rq_lifo r) = sg_id ` set (rq_fifo r) \<and>
     (\<forall>i \<in> set (rq_lifo r). i < rq_fresh r)"

definition rq_ok :: "rqueue \<Rightarrow> bool" where
  "rq_ok r \<longleftrightarrow> segs_ok (rq_fifo r) \<and> ids_ok r \<and> rq_total r = segs_total (rq_fifo r)"

lemma rq_bytes_simps [simp]:
  "rq_bytes [] = {}" "rq_bytes (s # xs) = seg_bytes s \<union> rq_bytes xs" "rq_bytes (xs @ ys) = rq_bytes xs \<union> rq_bytes ys"
  by (auto simp: rq_bytes_def)

lemma segs_total_simps [simp]:
  "segs_total [] = 0" "segs_total (s # xs) = sg_end s - sg_start s + segs_total xs" "segs_total (xs @ ys) = segs_total xs + segs_total ys"
  by (simp_all add: segs_total_def)

lemma segs_ok_Nil [simp]: "segs_ok []"
  by (simp add: segs_ok_def)

lemma segs_ok_Cons: "segs_ok (s # xs) \<longleftrightarrow> sg_start s < sg_end s \<and> (\<forall>t \<in> set xs. sg_end s < sg_start t) \<and> segs_ok xs"
  by (auto simp: segs_ok_def)

lemma segs_ok_append:
  "segs_ok (xs @ ys) \<longleftrightarrow> segs_ok xs \<and> segs_ok ys \<and> (\<forall>s \<in> set xs. \<forall>t \<in> set ys. sg_end s < sg_start t)"
  by (auto simp: segs_ok_def sorted_wrt_append)

lemma segs_ok_pos: "segs_ok xs \<Longrightarrow> s \<in> set xs \<Longrightarrow> sg_start s < sg_end s"
  by (simp add: segs_ok_def)

lemma finite_rq_bytes [simp]: "finite (rq_bytes xs)"
  by (simp add: rq_bytes_def seg_bytes_def)

lemma segs_total_card: "segs_ok xs \<Longrightarrow> segs_total xs = int (card (rq_bytes xs))"
proof (induction xs)
  case (Cons s xs)
  then have ok: "segs_ok xs" "sg_start s < sg_end s" "\<And>t. t \<in> set xs \<Longrightarrow> sg_end s < sg_start t" by (simp_all add: segs_ok_Cons)
  have "seg_bytes s \<inter> rq_bytes xs = {}" using ok(3) by (force simp: rq_bytes_def seg_bytes_def)
  then have "card (seg_bytes s \<union> rq_bytes xs) = card (seg_bytes s) + card (rq_bytes xs)"
    by (intro card_Un_disjoint) (simp_all add: seg_bytes_def)
  then show ?case using Cons.IH [OF ok(1)] ok(2) by (simp add: seg_bytes_def)
qed simp

text \<open>Removing and changing the block at one place.\<close>

lemma other_id: "distinct (map sg_id (xs @ y # zs)) \<Longrightarrow> x \<in> set xs \<union> set zs \<Longrightarrow> sg_id x \<noteq> sg_id y"
  by (force simp: image_iff)

lemma filter_id: "distinct (map sg_id (xs @ y # zs)) \<Longrightarrow> filter (\<lambda>s. sg_id s \<noteq> sg_id y) (xs @ y # zs) = xs @ zs"
  using other_id [of xs y zs] by (simp add: filter_id_conv)

lemma map_id_upd:
  "distinct (map sg_id (xs @ y # zs)) \<Longrightarrow> map (\<lambda>s. if sg_id s = sg_id y then f s else s) (xs @ y # zs) = xs @ f y # zs"
  using other_id [of xs y zs] by (auto intro!: map_idI)

lemma ids_ok_upd:
  "ids_ok r \<Longrightarrow> map sg_id (rq_fifo r') = map sg_id (rq_fifo r) \<Longrightarrow> rq_lifo r' = rq_lifo r \<Longrightarrow> rq_fresh r' = rq_fresh r \<Longrightarrow> ids_ok r'"
  by (metis ids_ok_def list.set_map)

lemma ids_ok_delete:
  assumes "ids_ok r" "rq_fifo r = xs @ y # zs" "rq_fifo r' = xs @ zs" "rq_lifo r' = filter (\<lambda>j. j \<noteq> sg_id y) (rq_lifo r)"
    "rq_fresh r' = rq_fresh r"
  shows "ids_ok r'"
proof -
  have d: "distinct (map sg_id (xs @ y # zs))" using assms(1,2) by (simp add: ids_ok_def)
  have "sg_id ` set (rq_fifo r) - {sg_id y} = sg_id ` (set xs \<union> set zs)"
    using other_id [OF d] by (auto simp: assms(2))
  moreover have "distinct (map sg_id (xs @ zs))" using d by auto
  ultimately show ?thesis using assms unfolding ids_ok_def by (auto simp: set_diff_eq)
qed

section \<open>Linking a new block\<close>

text \<open>\<open>b\<close> is the block that now holds the bytes from \<open>st\<close> to \<open>en\<close>.\<close>

definition rq_grown :: "int \<Rightarrow> int \<Rightarrow> rqueue \<Rightarrow> rqueue \<Rightarrow> seginfo \<Rightarrow> bool" where
  "rq_grown st en r r' b \<longleftrightarrow> rq_ok r' \<and> rq_bytes (rq_fifo r') = rq_bytes (rq_fifo r) \<union> {st..<en} \<and>
     b \<in> set (rq_fifo r') \<and> sg_start b \<le> st \<and> en \<le> sg_end b \<and>
     rq_rcv_nxt r' = (if rq_rcv_nxt r \<ge> sg_start b then sg_end b else rq_rcv_nxt r)"

lemma link_push:
  assumes "ids_ok r" "rq_fifo r = A @ C" "sg_id n = rq_fresh r" "rq_fifo r1 = A @ n # C" "rq_lifo r1 = sg_id n # rq_lifo r"
    "rq_fresh r1 = Suc (rq_fresh r)"
  shows "ids_ok r1"
proof -
  have f: "sg_id s < rq_fresh r" if "s \<in> set A \<union> set C" for s using assms(1,2) that unfolding ids_ok_def by auto
  then have "sg_id n \<notin> sg_id ` (set A \<union> set C)" using assms(3) by force
  then show ?thesis using assms f unfolding ids_ok_def by (auto simp: less_Suc_eq)
qed

text \<open>What the coalescing does at the place of the new block.\<close>

definition joins_left :: "seginfo list \<Rightarrow> int \<Rightarrow> bool" where
  "joins_left A st \<longleftrightarrow> A \<noteq> [] \<and> sg_end (last A) = st"

definition joins_right :: "int \<Rightarrow> seginfo list \<Rightarrow> bool" where
  "joins_right en C \<longleftrightarrow> C \<noteq> [] \<and> en = sg_start (hd C)"

lemma coalesce_done:
  "rq_fifo X = F \<Longrightarrow> ids_ok X \<Longrightarrow> rq_total X = t \<Longrightarrow> c = d \<Longrightarrow>
   \<exists>fl r'. (Ok (f, X\<lparr>rq_rcv_nxt := c\<rparr>) :: (int \<times> rqueue) res) = Ok (fl, r') \<and> rq_fifo r' = F \<and> ids_ok r' \<and> rq_total r' = t \<and> rq_rcv_nxt r' = d"
  by (simp add: ids_ok_def)

lemma coalesce_fifo_eq:
  assumes ids: "ids_ok r1" and f: "rq_fifo r1 = A @ n # C" and j: "joins_left A (sg_start n) \<or> joins_right (sg_end n) C"
  defines "b \<equiv> (if joins_left A (sg_start n)
      then (if joins_right (sg_end n) C
            then (last A)\<lparr>sg_end := sg_end (hd C), sg_cnt := sg_cnt (last A) + (sg_cnt n + sg_cnt (hd C)),
                          sg_pflags := sg_pflags (last A) OR sg_pflags n\<rparr>
            else (last A)\<lparr>sg_end := sg_end n, sg_pflags := sg_pflags (last A) OR sg_pflags n, sg_cnt := sg_cnt (last A) + sg_cnt n\<rparr>)
      else (hd C)\<lparr>sg_start := sg_start n, sg_pflags := sg_pflags (hd C) OR sg_pflags n, sg_cnt := sg_cnt (hd C) + sg_cnt n\<rparr>)"
  shows "\<exists>fl r'. rq_coalesce (if A = [] then None else Some (last A)) n (if C = [] then None else Some (hd C)) r1 = Ok (fl, r') \<and>
     rq_fifo r' = (if joins_left A (sg_start n) then butlast A else A) @ b # (if joins_right (sg_end n) C then tl C else C) \<and>
     ids_ok r' \<and> rq_total r' = rq_total r1 \<and>
     rq_rcv_nxt r' = (if rq_rcv_nxt r1 \<ge> sg_start b then sg_end b else rq_rcv_nxt r1)"
proof -
  define r2 where "r2 = rq_fremove (sg_id n) (rq_sremove (sg_id n) r1)"
  have d: "distinct (map sg_id (A @ n # C))" using ids f by (simp add: ids_ok_def)
  have f2: "rq_fifo r2 = A @ C" using filter_id [OF d] by (simp add: r2_def rq_fremove_def rq_sremove_def f)
  have ids2: "ids_ok r2" by (rule ids_ok_delete [OF ids f f2]) (simp_all add: r2_def rq_fremove_def rq_sremove_def)
  have t2: "rq_total r2 = rq_total r1" "rq_rcv_nxt r2 = rq_rcv_nxt r1" by (simp_all add: r2_def rq_fremove_def rq_sremove_def)
  have pj: "(case if A = [] then None else Some (last A) of None \<Rightarrow> False | Some ps \<Rightarrow> sg_end ps = sg_start n) = joins_left A (sg_start n)"
    by (simp add: joins_left_def)
  have qj: "(case if C = [] then None else Some (hd C) of None \<Rightarrow> False | Some qs \<Rightarrow> sg_end n = sg_start qs) = joins_right (sg_end n) C"
    by (simp add: joins_right_def)
  note co = rq_coalesce_def [of "if A = [] then None else Some (last A)" n "if C = [] then None else Some (hd C)" r1,
      unfolded Let_def pj qj, folded r2_def]
  show ?thesis
  proof (cases "joins_left A (sg_start n)")
    case L: True
    then have A: "A = butlast A @ [last A]" "A \<noteq> []" by (simp_all add: joins_left_def)
    show ?thesis
    proof (cases "joins_right (sg_end n) C")
      case R: True
      then have C: "C = hd C # tl C" "C \<noteq> []" by (simp_all add: joins_right_def)
      define r3 where "r3 = rq_fremove (sg_id (hd C)) (rq_sremove (sg_id (hd C)) r2)"
      have f2': "rq_fifo r2 = A @ hd C # tl C" using f2 C by simp
      have d2: "distinct (map sg_id (A @ hd C # tl C))" using ids2 f2' by (simp add: ids_ok_def)
      have f3: "rq_fifo r3 = A @ tl C" using filter_id [OF d2] by (simp add: r3_def rq_fremove_def rq_sremove_def f2')
      have ids3: "ids_ok r3" by (rule ids_ok_delete [OF ids2 f2' f3]) (simp_all add: r3_def rq_fremove_def rq_sremove_def)
      have f3': "rq_fifo r3 = butlast A @ last A # tl C" using f3 A by (metis append.assoc append_Cons append_Nil)
      have d3: "distinct (map sg_id (butlast A @ last A # tl C))" using ids3 f3' by (simp add: ids_ok_def)
      have f4: "rq_fifo (rq_upd (sg_id (last A)) (\<lambda>_. b) r3) = butlast A @ b # tl C"
        using map_id_upd [OF d3, of "\<lambda>_. b"] by (simp add: rq_upd_def f3')
      have "sg_id b = sg_id (last A)" using L R by (simp add: b_def)
      then have ids4: "ids_ok (rq_upd (sg_id (last A)) (\<lambda>_. b) r3)"
        by (intro ids_ok_upd [OF ids3]) (simp_all add: f4 f3', simp_all add: rq_upd_def)
      have t3: "rq_total r3 = rq_total r1" "rq_rcv_nxt r3 = rq_rcv_nxt r1" using t2 by (simp_all add: r3_def rq_fremove_def rq_sremove_def)
      have e: "rq_coalesce (if A = [] then None else Some (last A)) n (if C = [] then None else Some (hd C)) r1 =
          Ok (sg_pflags b, (rq_upd (sg_id (last A)) (\<lambda>_. b) r3)\<lparr>rq_rcv_nxt := (if rq_rcv_nxt r1 \<ge> sg_start b then sg_end b else rq_rcv_nxt r1)\<rparr>)"
        unfolding co using L R A(2) C(2) t3 by (simp add: b_def rq_upd_def flip: r3_def)
      show ?thesis unfolding e by (rule coalesce_done) (use f4 ids4 t3 L R in \<open>simp_all add: rq_upd_def\<close>)
    next
      case R: False
      have f2': "rq_fifo r2 = butlast A @ last A # C" using f2 A by (metis append.assoc append_Cons append_Nil)
      have d2: "distinct (map sg_id (butlast A @ last A # C))" using ids2 f2' by (simp add: ids_ok_def)
      have f4: "rq_fifo (rq_upd (sg_id (last A)) (\<lambda>_. b) r2) = butlast A @ b # C"
        using map_id_upd [OF d2, of "\<lambda>_. b"] by (simp add: rq_upd_def f2')
      have "sg_id b = sg_id (last A)" using L R by (simp add: b_def)
      then have ids4: "ids_ok (rq_upd (sg_id (last A)) (\<lambda>_. b) r2)"
        by (intro ids_ok_upd [OF ids2]) (simp_all add: f4 f2', simp_all add: rq_upd_def)
      have e: "rq_coalesce (if A = [] then None else Some (last A)) n (if C = [] then None else Some (hd C)) r1 =
          Ok (sg_pflags b, (rq_upd (sg_id (last A)) (\<lambda>_. b) r2)\<lparr>rq_rcv_nxt := (if rq_rcv_nxt r1 \<ge> sg_start b then sg_end b else rq_rcv_nxt r1)\<rparr>)"
        unfolding co using L R A(2) t2 by (simp add: b_def rq_upd_def)
      show ?thesis unfolding e by (rule coalesce_done) (use f4 ids4 t2 L R in \<open>simp_all add: rq_upd_def\<close>)
    qed
  next
    case L: False
    then have R: "joins_right (sg_end n) C" using j by simp
    then have C: "C = hd C # tl C" "C \<noteq> []" by (simp_all add: joins_right_def)
    have f2': "rq_fifo r2 = A @ hd C # tl C" using f2 C by simp
    have d2: "distinct (map sg_id (A @ hd C # tl C))" using ids2 f2' by (simp add: ids_ok_def)
    have f4: "rq_fifo (rq_upd (sg_id (hd C)) (\<lambda>_. b) r2) = A @ b # tl C"
      using map_id_upd [OF d2, of "\<lambda>_. b"] by (simp add: rq_upd_def f2')
    have "sg_id b = sg_id (hd C)" using L R by (simp add: b_def)
    then have ids4: "ids_ok (rq_upd (sg_id (hd C)) (\<lambda>_. b) r2)"
      by (intro ids_ok_upd [OF ids2]) (simp_all add: f4 f2', simp_all add: rq_upd_def)
      have e: "rq_coalesce (if A = [] then None else Some (last A)) n (if C = [] then None else Some (hd C)) r1 =
          Ok (sg_pflags b, (rq_upd (sg_id (hd C)) (\<lambda>_. b) r2)\<lparr>rq_rcv_nxt := (if rq_rcv_nxt r1 \<ge> sg_start b then sg_end b else rq_rcv_nxt r1)\<rparr>)"
        unfolding co using L R C(2) t2 by (simp add: b_def rq_upd_def)
      show ?thesis unfolding e by (rule coalesce_done) (use f4 ids4 t2 L R in \<open>simp_all add: rq_upd_def\<close>)
  qed
qed

lemma coalesce_fifo:
  assumes "ids_ok r1" "rq_fifo r1 = A @ n # C" "joins_left A (sg_start n) \<or> joins_right (sg_end n) C"
  shows "\<exists>b. (\<exists>fl r'. rq_coalesce (if A = [] then None else Some (last A)) n (if C = [] then None else Some (hd C)) r1 = Ok (fl, r') \<and>
     rq_fifo r' = (if joins_left A (sg_start n) then butlast A else A) @ b # (if joins_right (sg_end n) C then tl C else C) \<and>
     ids_ok r' \<and> rq_total r' = rq_total r1 \<and>
     rq_rcv_nxt r' = (if rq_rcv_nxt r1 \<ge> sg_start b then sg_end b else rq_rcv_nxt r1)) \<and>
     sg_start b = (if joins_left A (sg_start n) then sg_start (last A) else sg_start n) \<and>
     sg_end b = (if joins_right (sg_end n) C then sg_end (hd C) else sg_end n)"
  by (rule exI, rule conjI, rule coalesce_fifo_eq [OF assms]) (use assms(3) in auto)

definition pos_before :: "seginfo list \<Rightarrow> nat option" where
  "pos_before A = (if A = [] then None else Some (length A - 1))"

definition pos_after :: "seginfo list \<Rightarrow> seginfo list \<Rightarrow> nat option" where
  "pos_after A C = (if C = [] then None else Some (length A))"

lemma seg_at_before: "seg_at (A @ C) (pos_before A) = (if A = [] then None else Some (last A))"
  by (simp add: seg_at_def pos_before_def nth_append last_conv_nth)

lemma seg_at_after: "seg_at (A @ C) (pos_after A C) = (if C = [] then None else Some (hd C))"
  by (simp add: seg_at_def pos_after_def nth_append hd_conv_nth)

lemma strictly_before:
  assumes "segs_ok A" "\<forall>s \<in> set A. sg_end s \<le> st"
  shows "\<forall>s \<in> set (if joins_left A st then butlast A else A). sg_end s < (if joins_left A st then sg_start (last A) else st)"
proof (cases "A = []")
  case False
  then obtain A' a where A: "A = A' @ [a]" by (metis append_butlast_last_id)
  have "sg_end s < sg_start a" if "s \<in> set A'" for s using assms(1) that by (simp add: A segs_ok_append)
  moreover have "sg_start a < sg_end a" "sg_end a \<le> st" using assms by (simp_all add: A segs_ok_append segs_ok_Cons)
  ultimately show ?thesis by (fastforce simp: A joins_left_def)
qed (simp add: joins_left_def)

lemma strictly_after:
  assumes "segs_ok C" "\<forall>s \<in> set C. en \<le> sg_start s"
  shows "\<forall>s \<in> set (if joins_right en C then tl C else C). (if joins_right en C then sg_end (hd C) else en) < sg_start s"
proof (cases C)
  case (Cons c C')
  have "sg_end c < sg_start s" if "s \<in> set C'" for s using assms(1) that by (simp add: Cons segs_ok_Cons)
  moreover have "sg_start c < sg_end c" "en \<le> sg_start c" using assms by (simp_all add: Cons segs_ok_Cons)
  ultimately show ?thesis by (fastforce simp: Cons joins_right_def)
qed (simp add: joins_right_def)

lemma link_grows:
  assumes ok: "rq_ok r" and f: "rq_fifo r = A @ C" and lt: "st < en"
    and before: "\<forall>s \<in> set A. sg_end s \<le> st" and after: "\<forall>s \<in> set C. en \<le> sg_start s"
    and nm: "nm \<longleftrightarrow> joins_left A st \<or> joins_right en C"
  shows "\<exists>fl r' b. rq_link (pos_before A) (pos_after A C) st en tf rf cnt nm r = Ok (fl, r') \<and> rq_grown st en r r' b \<and>
    sg_start b = (if joins_left A st then sg_start (last A) else st) \<and>
    sg_end b = (if joins_right en C then sg_end (hd C) else en)"
proof -
  define n where "n = \<lparr>sg_id = rq_fresh r, sg_start = st, sg_end = en, sg_pflags = tf, sg_rqflags = rf, sg_cnt = cnt\<rparr>"
  define r1 where "r1 = (rq_push (sg_id n) r)\<lparr>rq_fifo := A @ n # C, rq_fresh := Suc (rq_fresh r), rq_total := rq_total r + (en - st)\<rparr>"
  have n: "sg_start n = st" "sg_end n = en" "sg_id n = rq_fresh r" by (simp_all add: n_def)
  have segs: "segs_ok A" "segs_ok C" "\<forall>s \<in> set A. \<forall>t \<in> set C. sg_end s < sg_start t" and ids: "ids_ok r" and tot: "rq_total r = segs_total A + segs_total C"
    using ok f by (simp_all add: rq_ok_def segs_ok_append)
  have ids1: "ids_ok r1" by (rule link_push [OF ids f n(3)]) (simp_all add: r1_def rq_push_def)
  have pre: "(case pos_before A of None \<Rightarrow> [] | Some i \<Rightarrow> take (Suc i) (A @ C)) = A"
    by (cases A rule: rev_cases) (simp_all add: pos_before_def)
  have post: "(case pos_after A C of None \<Rightarrow> [] | Some j \<Rightarrow> drop j (A @ C)) = C" by (simp add: pos_after_def)
  have link: "rq_link (pos_before A) (pos_after A C) st en tf rf cnt nm r =
      (if nm then rq_coalesce (if A = [] then None else Some (last A)) n (if C = [] then None else Some (hd C)) r1
       else Ok (tf, if rq_rcv_nxt r1 \<ge> st then r1\<lparr>rq_rcv_nxt := en\<rparr> else r1))"
    unfolding rq_link_def Let_def f pre post seg_at_before seg_at_after by (simp add: n_def r1_def)
  let ?A = "if joins_left A st then butlast A else A" and ?C = "if joins_right en C then tl C else C"
  have blocks: "segs_ok (?A @ b # ?C) \<and> rq_bytes (?A @ b # ?C) = rq_bytes (A @ C) \<union> {st..<en} \<and>
      segs_total (?A @ b # ?C) = segs_total (A @ C) + (en - st)"
    if b: "sg_start b = (if joins_left A st then sg_start (last A) else st)" "sg_end b = (if joins_right en C then sg_end (hd C) else en)" for b
  proof -
    have A: "A = butlast A @ [last A]" if "joins_left A st" using that by (simp add: joins_left_def)
    have C: "C = hd C # tl C" if "joins_right en C" using that by (simp add: joins_right_def)
    have la: "sg_start (last A) < st" "sg_end (last A) = st" if "joins_left A st"
      using segs(1) that segs_ok_pos [of A "last A"] by (auto simp: joins_left_def)
    have hc: "en < sg_end (hd C)" "sg_start (hd C) = en" if "joins_right en C"
      using segs(2) that segs_ok_pos [of C "hd C"] by (auto simp: joins_right_def)
    have 1: "segs_ok ?A" using segs(1) A by (metis segs_ok_append)
    have 2: "segs_ok ?C" using segs(2) C by (metis segs_ok_Cons)
    have 3: "\<forall>s \<in> set ?A. sg_end s < sg_start b" using strictly_before [OF segs(1) before] by (simp add: b)
    have 4: "\<forall>s \<in> set ?C. sg_end b < sg_start s" using strictly_after [OF segs(2) after] by (simp add: b)
    have 5: "sg_start b < sg_end b" using lt la hc by (auto simp: b)
    have 6: "sg_end s < sg_start t" if "s \<in> set ?A" "t \<in> set ?C" for s t using 3 4 5 that by force
    have ba: "rq_bytes A = rq_bytes ?A \<union> (if joins_left A st then {sg_start (last A)..<st} else {})"
      using A la by (cases "joins_left A st") (simp, metis (no_types, lifting) rq_bytes_simps seg_bytes_def sup_bot.right_neutral, simp)
    have bc: "rq_bytes C = rq_bytes ?C \<union> (if joins_right en C then {en..<sg_end (hd C)} else {})"
      using C hc by (cases "joins_right en C") (simp, metis (no_types, lifting) rq_bytes_simps(2) seg_bytes_def sup_commute, simp)
    have ta: "segs_total A = segs_total ?A + (if joins_left A st then st - sg_start (last A) else 0)"
      using A la by (cases "joins_left A st") (simp, metis (no_types, lifting) add.right_neutral segs_total_simps, simp)
    have tc: "segs_total C = segs_total ?C + (if joins_right en C then sg_end (hd C) - en else 0)"
      using C hc by (cases "joins_right en C") (simp, metis (no_types, lifting) add.commute segs_total_simps(2), simp)
    have "seg_bytes b = {st..<en} \<union> (if joins_left A st then {sg_start (last A)..<st} else {}) \<union> (if joins_right en C then {en..<sg_end (hd C)} else {})"
      using lt la hc by (auto simp: seg_bytes_def b)
    then have "rq_bytes (?A @ b # ?C) = rq_bytes (A @ C) \<union> {st..<en}" by (simp only: rq_bytes_simps ba bc) blast
    moreover have "segs_total (?A @ b # ?C) = segs_total (A @ C) + (en - st)" by (simp only: segs_total_simps ta tc b) simp
    ultimately show ?thesis using 1 2 3 4 5 6 by (simp only: segs_ok_append segs_ok_Cons) auto
  qed
  have t1: "rq_total r1 = segs_total (A @ C) + (en - st)" "rq_rcv_nxt r1 = rq_rcv_nxt r" "rq_fifo r1 = A @ n # C"
    using tot by (simp_all add: r1_def rq_push_def)
  have cover: "sg_start b \<le> st \<and> en \<le> sg_end b"
    if b: "sg_start b = (if joins_left A st then sg_start (last A) else st)" "sg_end b = (if joins_right en C then sg_end (hd C) else en)" for b
    using b segs_ok_pos [OF segs(1), of "last A"] segs_ok_pos [OF segs(2), of "hd C"]
    by (auto simp: joins_left_def joins_right_def)
  show ?thesis
  proof (cases nm)
    case False
    then have j: "\<not> joins_left A st" "\<not> joins_right en C" using nm by simp_all
    let ?r = "if rq_rcv_nxt r1 \<ge> st then r1\<lparr>rq_rcv_nxt := en\<rparr> else r1"
    have "rq_fifo ?r = A @ n # C" "rq_total ?r = rq_total r1" using t1 by simp_all
    moreover have "ids_ok ?r" using ids1 by (simp add: ids_ok_def)
    ultimately have "rq_grown st en r ?r n"
      using blocks [of n] j n t1 by (simp add: rq_grown_def rq_ok_def f)
    then show ?thesis unfolding link using False j n by auto
  next
    case True
    then have "joins_left A (sg_start n) \<or> joins_right (sg_end n) C" using nm n by simp
    from coalesce_fifo [OF ids1 t1(3) this] obtain fl r' b where c:
      "rq_coalesce (if A = [] then None else Some (last A)) n (if C = [] then None else Some (hd C)) r1 = Ok (fl, r')"
      "rq_fifo r' = ?A @ b # ?C" "ids_ok r'" "rq_total r' = rq_total r1"
      "rq_rcv_nxt r' = (if rq_rcv_nxt r1 \<ge> sg_start b then sg_end b else rq_rcv_nxt r1)"
      and b: "sg_start b = (if joins_left A st then sg_start (last A) else st)" "sg_end b = (if joins_right en C then sg_end (hd C) else en)"
      unfolding n by blast
    have "rq_grown st en r r' b" using blocks [OF b] cover [OF b] c t1 by (simp add: rq_grown_def rq_ok_def f)
    then show ?thesis unfolding link using True c(1) b by auto
  qed
qed

section \<open>Merging with the blocks that overlap\<close>

lemma left_at:
  assumes "rq_fifo r = A @ b # D"
  obtains b' where "rq_left (length A) st tf r = r\<lparr>rq_total := rq_total r + (sg_start b - sg_start b'), rq_fifo := A @ b' # D\<rparr>"
    "sg_start b' = min st (sg_start b)" "sg_end b' = sg_end b" "sg_id b' = sg_id b"
proof -
  define b' where "b' = b\<lparr>sg_start := (if st < sg_start b then st else sg_start b), sg_pflags := sg_pflags b OR tf, sg_cnt := sg_cnt b + 1\<rparr>"
  have "rq_left (length A) st tf r = r\<lparr>rq_total := rq_total r + (sg_start b - sg_start b'), rq_fifo := A @ b' # D\<rparr>"
    by (simp add: rq_left_def Let_def assms nth_append list_update_append b'_def)
  then show thesis by (rule that) (simp_all add: b'_def min_def)
qed

lemma right_at:
  assumes "rq_fifo r = A @ b # D"
  obtains b' where "rq_right (length A) en tf r = r\<lparr>rq_total := rq_total r + (sg_end b' - sg_end b), rq_fifo := A @ b' # D\<rparr>"
    "sg_end b' = max en (sg_end b)" "sg_start b' = sg_start b" "sg_id b' = sg_id b"
proof -
  define b' where "b' = b\<lparr>sg_end := (if en > sg_end b then en else sg_end b), sg_pflags := sg_pflags b OR tf\<rparr>"
  have "rq_right (length A) en tf r = r\<lparr>rq_total := rq_total r + (sg_end b' - sg_end b), rq_fifo := A @ b' # D\<rparr>"
    by (simp add: rq_right_def Let_def assms nth_append list_update_append b'_def)
  then show thesis by (rule that) (simp_all add: b'_def max_def)
qed

text \<open>Widening a block in its place.\<close>

lemma widen_ok:
  assumes ok: "rq_ok r" and f: "rq_fifo r = A @ b # D"
    and b': "sg_id b' = sg_id b" "sg_start b' \<le> sg_start b" "sg_end b \<le> sg_end b'"
    and A: "\<forall>s \<in> set A. sg_end s < sg_start b'" and D: "\<forall>s \<in> set D. sg_end b' < sg_start s"
  defines "r' \<equiv> r\<lparr>rq_total := rq_total r + (sg_start b - sg_start b') + (sg_end b' - sg_end b), rq_fifo := A @ b' # D\<rparr>"
  shows "rq_ok r'" "rq_bytes (rq_fifo r') = rq_bytes (rq_fifo r) \<union> {sg_start b'..<sg_end b'}"
proof -
  have lt: "sg_start b < sg_end b" using ok f segs_ok_pos [of "rq_fifo r" b] by (simp add: rq_ok_def)
  have "ids_ok r" using ok by (simp add: rq_ok_def)
  then have "ids_ok r'" by (rule ids_ok_upd) (simp_all add: r'_def f b'(1))
  moreover have h: "segs_ok A" "segs_ok D" "\<forall>s \<in> set A. \<forall>t \<in> set D. sg_end s < sg_start t"
    using ok f by (simp_all add: rq_ok_def segs_ok_append segs_ok_Cons)
  have "sg_start b' < sg_end b'" using b'(2,3) lt by linarith
  with h A D have "segs_ok (A @ b' # D)" by (simp add: segs_ok_append segs_ok_Cons)
  ultimately show "rq_ok r'" using ok by (simp add: rq_ok_def r'_def f)
  have "seg_bytes b \<subseteq> {sg_start b'..<sg_end b'}" using b' by (auto simp: seg_bytes_def)
  moreover have "seg_bytes b' = {sg_start b'..<sg_end b'}" by (simp add: seg_bytes_def)
  moreover have "rq_fifo r' = A @ b' # D" by (simp add: r'_def)
  ultimately show "rq_bytes (rq_fifo r') = rq_bytes (rq_fifo r) \<union> {sg_start b'..<sg_end b'}"
    unfolding f by (simp only: rq_bytes_simps) blast
qed

definition overlaps :: "int \<Rightarrow> int \<Rightarrow> seginfo \<Rightarrow> bool" where
  "overlaps st en s \<longleftrightarrow> st < sg_end s \<and> sg_start s < en"

definition covered :: "int \<Rightarrow> int \<Rightarrow> seginfo \<Rightarrow> bool" where
  "covered st en s \<longleftrightarrow> st \<le> sg_start s \<and> sg_end s \<le> en"

lemma grown_link:
  assumes "rq_grown st1 en1 r2 r' b" "sg_start b \<le> st" "en \<le> sg_end b" "rq_rcv_nxt r2 = rq_rcv_nxt r"
    "rq_bytes (rq_fifo r2) \<union> {st1..<en1} = rq_bytes (rq_fifo r) \<union> {st..<en}"
  shows "rq_grown st en r r' b"
  using assms by (simp add: rq_grown_def)

text \<open>The early return looks at the first block only.\<close>

lemma head_grown:
  assumes ok: "rq_ok r2" and bytes: "rq_bytes (rq_fifo r2) = rq_bytes (rq_fifo r) \<union> {st..<en}" and r: "rq_rcv_nxt r2 = rq_rcv_nxt r"
    and b: "b \<in> set (rq_fifo r2)" "sg_start b \<le> st" "en \<le> sg_end b"
    and rcv: "\<forall>x \<in> rq_bytes (rq_fifo r). rq_rcv_nxt r < x" "rq_rcv_nxt r \<le> st"
  shows "rq_grown st en r
    (if rq_rcv_nxt r2 \<ge> sg_start (hd (rq_fifo r2)) then r2\<lparr>rq_rcv_nxt := sg_end (hd (rq_fifo r2))\<rparr> else r2) b"
proof -
  obtain h D where f: "rq_fifo r2 = h # D" using b(1) by (cases "rq_fifo r2") auto
  have h: "sg_start h < sg_end h" "\<forall>s \<in> set D. sg_end h < sg_start s" using ok by (simp_all add: rq_ok_def f segs_ok_Cons)
  have "sg_start h \<in> rq_bytes (rq_fifo r2)" using h(1) by (simp add: f seg_bytes_def)
  then have hs: "rq_rcv_nxt r < sg_start h \<or> st \<le> sg_start h" using rcv(1) unfolding bytes by auto
  show ?thesis
  proof (cases "rq_rcv_nxt r \<ge> sg_start h")
    case True
    then have "st = sg_start h" using hs rcv(2) by linarith
    then have "b = h" using b h unfolding f by force
    moreover have "rq_ok (r2\<lparr>rq_rcv_nxt := sg_end h\<rparr>)" using ok by (simp add: rq_ok_def ids_ok_def)
    ultimately show ?thesis using True b bytes r by (simp add: f rq_grown_def)
  next
    case False
    have "sg_start h \<le> sg_start b" using b(1) h unfolding f by force
    then show ?thesis using False b bytes r ok by (simp add: f rq_grown_def)
  qed
qed

lemma merge_none:
  assumes ok: "rq_ok r" and f: "rq_fifo r = A @ C" and lt: "st < en" and ne: "A \<noteq> []" "C \<noteq> []"
    and before: "\<forall>s \<in> set A. sg_end s \<le> st" and after: "\<forall>s \<in> set C. en \<le> sg_start s"
  shows "\<exists>fl r' b. rq_merge (pos_before A) (pos_after A C) st en tf rf cnt r = Ok (fl, r') \<and> rq_grown st en r r' b"
proof -
  obtain A' a where A: "A = A' @ [a]" using ne by (metis append_butlast_last_id)
  obtain c C' where C: "C = c # C'" using ne by (cases C) auto
  have e: "sg_end a \<le> st" "en \<le> sg_start c" using before after by (simp_all add: A C)
  have "rq_merge (pos_before A) (pos_after A C) st en tf rf cnt r =
      rq_link (pos_before A) (pos_after A C) st en tf rf cnt (joins_left A st \<or> joins_right en C) r"
    using e lt by (simp add: rq_merge_def Let_def f pos_before_def pos_after_def A C nth_append joins_left_def joins_right_def)
      (auto simp: eq_commute)
  with link_grows [OF ok f lt before after refl, of tf rf cnt] show ?thesis by auto
qed

text \<open>One block sticks out on the right only.\<close>

lemma merge_right:
  assumes ok: "rq_ok r" and f: "rq_fifo r = A @ b # C" and lt: "st < en" and ne: "A \<noteq> []"
    and before: "\<forall>s \<in> set A. sg_end s \<le> st" and b: "st \<le> sg_start b" "sg_start b < en" "en < sg_end b"
    and rcv: "\<forall>x \<in> rq_bytes (rq_fifo r). rq_rcv_nxt r < x" "rq_rcv_nxt r \<le> st"
  shows "\<exists>fl r' k. rq_merge (pos_before A) (pos_after (A @ [b]) C) st en tf rf cnt r = Ok (fl, r') \<and> rq_grown st en r r' k"
proof -
  obtain A' a where A: "A = A' @ [a]" using ne by (metis append_butlast_last_id)
  obtain b' where R: "rq_right (length A) en tf r = r\<lparr>rq_total := rq_total r + (sg_end b' - sg_end b), rq_fifo := A @ b' # C\<rparr>"
    "sg_end b' = max en (sg_end b)" "sg_start b' = sg_start b" "sg_id b' = sg_id b"
    using right_at [OF f] by blast
  define r2 where "r2 = rq_right (length A) en tf r"
  have segs: "segs_ok (A @ b # C)" using ok f by (simp add: rq_ok_def)
  have e': "sg_end b' = sg_end b" using R(2) b by simp
  have W: "rq_ok r2" "rq_bytes (rq_fifo r2) = rq_bytes (rq_fifo r) \<union> {sg_start b'..<sg_end b'}"
    using widen_ok [OF ok f R(4)] R(3) e' segs by (simp_all add: r2_def R(1) segs_ok_append segs_ok_Cons)
  have bytes: "rq_bytes (rq_fifo r2) = rq_bytes (rq_fifo r)" using W(2) R(3) e' by (auto simp: f seg_bytes_def)
  have f2: "rq_fifo r2 = A @ b' # C" and rcv2: "rq_rcv_nxt r2 = rq_rcv_nxt r" by (simp_all add: r2_def R(1))
  have a: "sg_end a \<le> st" using before by (simp add: A)
  have m: "rq_merge (pos_before A) (pos_after (A @ [b]) C) st en tf rf cnt r =
      (if sg_start b \<le> st
       then Ok (tf, if rq_rcv_nxt r2 \<ge> sg_start (hd (rq_fifo r2)) then r2\<lparr>rq_rcv_nxt := sg_end (hd (rq_fifo r2))\<rparr> else r2)
       else rq_link (pos_before A) (Some (length A)) st (sg_start b) tf rf cnt True r2)"
    using b a by (cases C) (simp_all add: rq_merge_def Let_def f pos_before_def pos_after_def nth_append A r2_def)
  show ?thesis
  proof (cases "sg_start b \<le> st")
    case True
    have "{st..<en} \<subseteq> rq_bytes (rq_fifo r)" using b True by (auto simp: f seg_bytes_def)
    then have "rq_bytes (rq_fifo r2) = rq_bytes (rq_fifo r) \<union> {st..<en}" unfolding bytes by blast
    then have "rq_grown st en r
        (if rq_rcv_nxt r2 \<ge> sg_start (hd (rq_fifo r2)) then r2\<lparr>rq_rcv_nxt := sg_end (hd (rq_fifo r2))\<rparr> else r2) b'"
      using b True e' R(3) rcv2 rcv by (intro head_grown [OF W(1)]) (simp_all add: f2)
    moreover have "rq_merge (pos_before A) (pos_after (A @ [b]) C) st en tf rf cnt r = Ok (tf,
        (if rq_rcv_nxt r2 \<ge> sg_start (hd (rq_fifo r2)) then r2\<lparr>rq_rcv_nxt := sg_end (hd (rq_fifo r2))\<rparr> else r2))"
      unfolding m using True by (simp only: if_True)
    ultimately show ?thesis by blast
  next
    case False
    have after: "\<forall>s \<in> set (b' # C). sg_start b \<le> sg_start s" using segs R(3) by (auto simp: segs_ok_append segs_ok_Cons)
    have q: "pos_after A (b' # C) = Some (length A)" by (simp add: pos_after_def)
    have j: "joins_right (sg_start b) (b' # C)" by (simp add: joins_right_def R(3))
    have lt': "st < sg_start b" using False by simp
    from link_grows [OF W(1) f2 lt' before after, of True tf rf cnt] j obtain fl r' b1 where L:
      "rq_link (pos_before A) (Some (length A)) st (sg_start b) tf rf cnt True r2 = Ok (fl, r')" "rq_grown st (sg_start b) r2 r' b1"
      "sg_end b1 = sg_end b'" by (auto simp: q)
    have "{sg_start b..<en} \<subseteq> seg_bytes b" "{st..<en} = {st..<sg_start b} \<union> {sg_start b..<en}"
      using b lt' by (auto simp: seg_bytes_def)
    moreover have "seg_bytes b \<subseteq> rq_bytes (rq_fifo r)" by (auto simp: f)
    ultimately have "rq_bytes (rq_fifo r2) \<union> {st..<sg_start b} = rq_bytes (rq_fifo r) \<union> {st..<en}" unfolding bytes by blast
    moreover have "sg_start b1 \<le> st" using L(2) by (simp add: rq_grown_def)
    moreover have "en \<le> sg_end b1" using L(3) b e' by simp
    ultimately have "rq_grown st en r r' b1" using rcv2 by (intro grown_link [OF L(2)])
    then show ?thesis unfolding m using False L(1) by auto
  qed
qed

text \<open>One block sticks out on the left, on both sides, or lies before all that is known.\<close>

lemma merge_left:
  assumes ok: "rq_ok r" and f: "rq_fifo r = A @ b # C" and lt: "st < en" and l: "A = [] \<or> sg_start b < st"
    and before: "\<forall>s \<in> set A. sg_end s \<le> st" and after: "\<forall>s \<in> set C. en \<le> sg_start s"
    and b: "st < sg_end b" "sg_start b < en" "\<not> covered st en b"
    and rcv: "\<forall>x \<in> rq_bytes (rq_fifo r). rq_rcv_nxt r < x" "rq_rcv_nxt r \<le> st"
  shows "\<exists>fl r' k. rq_merge (pos_before A) (pos_after (A @ [b]) C) st en tf rf cnt r = Ok (fl, r') \<and> rq_grown st en r r' k"
proof -
  obtain b' where L: "rq_left (length A) st tf r = r\<lparr>rq_total := rq_total r + (sg_start b - sg_start b'), rq_fifo := A @ b' # C\<rparr>"
    "sg_start b' = min st (sg_start b)" "sg_end b' = sg_end b" "sg_id b' = sg_id b"
    using left_at [OF f] by blast
  define r1 where "r1 = rq_left (length A) st tf r"
  have f1: "rq_fifo r1 = A @ b' # C" and rcv1: "rq_rcv_nxt r1 = rq_rcv_nxt r" by (simp_all add: r1_def L(1))
  have segs: "segs_ok A" "segs_ok C" "\<forall>s \<in> set A. sg_end s < sg_start b" "\<forall>s \<in> set C. sg_end b < sg_start s" "sg_start b < sg_end b"
    using ok f by (simp_all add: rq_ok_def segs_ok_append segs_ok_Cons)
  have A': "\<forall>s \<in> set A. sg_end s < sg_start b'" using segs(3) l L(2) by (auto simp: min_def)
  have p: "(case pos_before A of None \<Rightarrow> Ok True | Some i \<Rightarrow> if Suc i < length (A @ b # C) then Ok (sg_start ((A @ b # C) ! Suc i) < st) else Fail Null_Deref) = Ok True"
    "(case pos_before A of None \<Rightarrow> 0 | Some i \<Rightarrow> Suc i) = length A"
    using l by (auto simp: pos_before_def nth_append)
  have q: "(case pos_after (A @ [b]) C of None \<Rightarrow> Ok True | Some 0 \<Rightarrow> Fail Null_Deref | Some (Suc j) \<Rightarrow> Ok (sg_end ((A @ b' # C) ! j) > en)) =
      Ok (C = [] \<or> sg_end b > en)"
    "(case pos_after (A @ [b]) C of None \<Rightarrow> length (A @ b' # C) - 1 | Some j \<Rightarrow> j - 1) = length A"
    using L(3) by (auto simp: pos_after_def nth_append)
  define rt where "rt \<longleftrightarrow> C = [] \<or> sg_end b > en"
  have m: "rq_merge (pos_before A) (pos_after (A @ [b]) C) st en tf rf cnt r =
      (let r2 = (if rt then rq_right (length A) en tf r1 else r1); en1 = (if rt then sg_start b' else en); zs = rq_fifo r2
       in if en1 \<le> sg_end b
          then Ok (tf, if rq_rcv_nxt r2 \<ge> sg_start (hd zs) then r2\<lparr>rq_rcv_nxt := sg_end (hd zs)\<rparr> else r2)
          else rq_link (Some (length A)) (if rt then Some (length A) else pos_after (A @ [b]) C) (sg_end b) en1 tf rf (cnt - 1) True r2)"
    unfolding rq_merge_def Let_def f p res_bind.simps if_True r1_def [symmetric] f1 q rt_def nth_append_length by simp
  show ?thesis
  proof (cases rt)
    case True
    obtain b2 where R: "rq_right (length A) en tf r1 = r1\<lparr>rq_total := rq_total r1 + (sg_end b2 - sg_end b'), rq_fifo := A @ b2 # C\<rparr>"
      "sg_end b2 = max en (sg_end b')" "sg_start b2 = sg_start b'" "sg_id b2 = sg_id b'"
      using right_at [OF f1] by blast
    define r2 where "r2 = rq_right (length A) en tf r1"
    have r2: "r2 = r\<lparr>rq_total := rq_total r + (sg_start b - sg_start b2) + (sg_end b2 - sg_end b), rq_fifo := A @ b2 # C\<rparr>"
      unfolding r2_def R(1) unfolding r1_def L(1) by (simp add: L(3) R(3))
    have C': "\<forall>s \<in> set C. sg_end b2 < sg_start s" using True segs(4) L(3) R(2) by (auto simp: rt_def max_def)
    have s2: "sg_start b2 = min st (sg_start b)" "sg_end b2 = max en (sg_end b)" using L R by simp_all
    have A2: "\<forall>s \<in> set A. sg_end s < sg_start b2" using A' R(3) by simp
    have id2: "sg_id b2 = sg_id b" using L R by simp
    note W = widen_ok [OF ok f id2 _ _ A2 C', folded r2]
    have w: "rq_ok r2" "rq_bytes (rq_fifo r2) = rq_bytes (rq_fifo r) \<union> {sg_start b2..<sg_end b2}" using W s2 by simp_all
    have "{sg_start b2..<sg_end b2} = {st..<en} \<union> seg_bytes b" using s2 b lt segs(5) by (auto simp: seg_bytes_def)
    moreover have "seg_bytes b \<subseteq> rq_bytes (rq_fifo r)" by (auto simp: f)
    ultimately have "rq_bytes (rq_fifo r2) = rq_bytes (rq_fifo r) \<union> {st..<en}" using w(2) by blast
    from head_grown [OF w(1) this _ _ _ _ rcv, of b2] have "rq_grown st en r
        (if rq_rcv_nxt r2 \<ge> sg_start (hd (rq_fifo r2)) then r2\<lparr>rq_rcv_nxt := sg_end (hd (rq_fifo r2))\<rparr> else r2) b2"
      using s2 by (simp add: r2)
    moreover have "sg_start b' \<le> sg_end b" using L(2) segs(5) by simp
    moreover from this have "rq_merge (pos_before A) (pos_after (A @ [b]) C) st en tf rf cnt r = Ok (tf,
        (if rq_rcv_nxt r2 \<ge> sg_start (hd (rq_fifo r2)) then r2\<lparr>rq_rcv_nxt := sg_end (hd (rq_fifo r2))\<rparr> else r2))"
      unfolding m Let_def using True by (simp only: if_True r2_def)
    ultimately show ?thesis by blast
  next
    case False
    then have C: "C \<noteq> []" "sg_end b \<le> en" by (simp_all add: rt_def)
    then have sb: "sg_start b < st" using b(3) by (simp add: covered_def)
    then have s1: "sg_start b' = sg_start b" using L(2) by simp
    note W = widen_ok [OF ok f L(4) _ _ A', unfolded L(3), simplified s1, OF order_refl order_refl segs(4)]
    have r1: "r1 = r\<lparr>rq_fifo := A @ b' # C\<rparr>" unfolding r1_def L(1) by (simp add: s1)
    have w: "rq_ok r1" "rq_bytes (rq_fifo r1) = rq_bytes (rq_fifo r)"
      using W s1 L(3) by (simp_all add: r1 f seg_bytes_def)
    show ?thesis
    proof (cases "en \<le> sg_end b")
      case True
      have "{st..<en} \<subseteq> seg_bytes b" using True sb by (auto simp: seg_bytes_def)
      then have "rq_bytes (rq_fifo r1) = rq_bytes (rq_fifo r) \<union> {st..<en}" unfolding w(2) by (auto simp: f)
      from head_grown [OF w(1) this _ _ _ _ rcv, of b'] have "rq_grown st en r
          (if rq_rcv_nxt r1 \<ge> sg_start (hd (rq_fifo r1)) then r1\<lparr>rq_rcv_nxt := sg_end (hd (rq_fifo r1))\<rparr> else r1) b'"
        using s1 L(3) True sb by (simp add: r1)
      moreover have "rq_merge (pos_before A) (pos_after (A @ [b]) C) st en tf rf cnt r = Ok (tf,
          (if rq_rcv_nxt r1 \<ge> sg_start (hd (rq_fifo r1)) then r1\<lparr>rq_rcv_nxt := sg_end (hd (rq_fifo r1))\<rparr> else r1))"
        unfolding m Let_def using True False by (simp only: if_True if_False)
      ultimately show ?thesis by blast
    next
      case F: False
      have f': "rq_fifo r1 = (A @ [b']) @ C" using f1 by simp
      have lt': "sg_end b < en" using F by simp
      have bef: "\<forall>s \<in> set (A @ [b']). sg_end s \<le> sg_end b" using before b(1) L(3) by force
      have j: "joins_left (A @ [b']) (sg_end b)" by (simp add: joins_left_def L(3))
      have pq: "pos_before (A @ [b']) = Some (length A)" "pos_after (A @ [b']) C = pos_after (A @ [b]) C"
        by (simp_all add: pos_before_def pos_after_def)
      from link_grows [OF w(1) f' lt' bef after, of True tf rf "cnt - 1"] j obtain fl r' b1 where K:
        "rq_link (Some (length A)) (pos_after (A @ [b]) C) (sg_end b) en tf rf (cnt - 1) True r1 = Ok (fl, r')"
        "rq_grown (sg_end b) en r1 r' b1" "sg_start b1 = sg_start b'" by (auto simp: pq)
      have "{st..<en} = {st..<sg_end b} \<union> {sg_end b..<en}" "{st..<sg_end b} \<subseteq> seg_bytes b" using b(1) lt' sb by (auto simp: seg_bytes_def)
      moreover have "seg_bytes b \<subseteq> rq_bytes (rq_fifo r)" by (auto simp: f)
      ultimately have "rq_bytes (rq_fifo r1) \<union> {sg_end b..<en} = rq_bytes (rq_fifo r) \<union> {st..<en}" unfolding w(2) by blast
      moreover have "en \<le> sg_end b1" using K(2) by (simp add: rq_grown_def)
      moreover have "sg_start b1 \<le> st" using K(3) s1 sb by simp
      ultimately have "rq_grown st en r r' b1" using rcv1 by (intro grown_link [OF K(2)])
      moreover have "rq_merge (pos_before A) (pos_after (A @ [b]) C) st en tf rf cnt r = Ok (fl, r')"
        unfolding m Let_def using False F K(1) by (simp only: if_True if_False)
      ultimately show ?thesis by blast
    qed
  qed
qed

text \<open>The new block closes the gap between two blocks.\<close>

lemma merge_two:
  assumes ok: "rq_ok r" and f: "rq_fifo r = A @ b # c # C" and lt: "st < en"
    and before: "\<forall>s \<in> set A. sg_end s \<le> st" and after: "\<forall>s \<in> set C. en \<le> sg_start s"
    and b: "sg_start b < st" "st < sg_end b" and c: "sg_start c < en" "en < sg_end c"
  shows "\<exists>fl r' k. rq_merge (pos_before A) (pos_after (A @ [b, c]) C) st en tf rf cnt r = Ok (fl, r') \<and> rq_grown st en r r' k"
proof -
  obtain b' where L: "rq_left (length A) st tf r = r\<lparr>rq_total := rq_total r + (sg_start b - sg_start b'), rq_fifo := A @ b' # c # C\<rparr>"
    "sg_start b' = min st (sg_start b)" "sg_end b' = sg_end b" "sg_id b' = sg_id b"
    using left_at [OF f] by blast
  define r1 where "r1 = rq_left (length A) st tf r"
  have s1: "sg_start b' = sg_start b" using L(2) b by simp
  have r1: "r1 = r\<lparr>rq_fifo := A @ b' # c # C\<rparr>" unfolding r1_def L(1) by (simp add: s1)
  then have f1: "rq_fifo r1 = A @ b' # c # C" by simp
  then have f1': "rq_fifo r1 = (A @ [b']) @ c # C" by simp
  obtain c' where R: "rq_right (length (A @ [b'])) en tf r1 = r1\<lparr>rq_total := rq_total r1 + (sg_end c' - sg_end c), rq_fifo := (A @ [b']) @ c' # C\<rparr>"
    "sg_end c' = max en (sg_end c)" "sg_start c' = sg_start c" "sg_id c' = sg_id c"
    using right_at [OF f1'] by blast
  define r2 where "r2 = rq_right (length (A @ [b'])) en tf r1"
  have e2: "sg_end c' = sg_end c" using R(2) c by simp
  have r2: "r2 = r1\<lparr>rq_fifo := (A @ [b']) @ c' # C\<rparr>" unfolding r2_def R(1) by (simp add: e2)
  have segs: "\<forall>s \<in> set A. sg_end s < sg_start b" "\<forall>s \<in> set (c # C). sg_end b < sg_start s" "\<forall>s \<in> set (A @ [b]). sg_end s < sg_start c"
    "\<forall>s \<in> set C. sg_end c < sg_start s" "sg_start c < sg_end c" "sg_start b < sg_end b"
    using ok f by (auto simp: rq_ok_def segs_ok_append segs_ok_Cons)
  have "rq_ok r1" "rq_bytes (rq_fifo r1) = rq_bytes (rq_fifo r) \<union> {sg_start b'..<sg_end b'}"
    using widen_ok [OF ok f L(4), unfolded L(3) s1, OF order_refl order_refl segs(1) segs(2)] by (simp_all add: r1 s1 L(3))
  then have w1: "rq_ok r1" "rq_bytes (rq_fifo r1) = rq_bytes (rq_fifo r)" by (auto simp: f s1 L(3) seg_bytes_def)
  have segs3: "\<forall>s \<in> set (A @ [b']). sg_end s < sg_start c" using segs(3) L(3) by simp
  have "rq_ok r2" "rq_bytes (rq_fifo r2) = rq_bytes (rq_fifo r1) \<union> {sg_start c'..<sg_end c'}"
    using widen_ok [OF w1(1) f1' R(4), unfolded R(3) e2, OF order_refl order_refl segs3 segs(4)] by (simp_all add: r2 R(3) e2)
  then have w2: "rq_ok r2" "rq_bytes (rq_fifo r2) = rq_bytes (rq_fifo r1)" by (auto simp: f1 R(3) e2 seg_bytes_def)
  have p: "(case pos_before A of None \<Rightarrow> Ok True | Some i \<Rightarrow> if Suc i < length (A @ b # c # C) then Ok (sg_start ((A @ b # c # C) ! Suc i) < st) else Fail Null_Deref) = Ok True"
    "(case pos_before A of None \<Rightarrow> 0 | Some i \<Rightarrow> Suc i) = length A"
    using b by (auto simp: pos_before_def nth_append)
  have q: "(case pos_after (A @ [b, c]) C of None \<Rightarrow> Ok True | Some 0 \<Rightarrow> Fail Null_Deref | Some (Suc j) \<Rightarrow> Ok (sg_end ((A @ b' # c # C) ! j) > en)) = Ok True"
    "(case pos_after (A @ [b, c]) C of None \<Rightarrow> length (A @ b' # c # C) - 1 | Some j \<Rightarrow> j - 1) = length (A @ [b'])"
    using c by (auto simp: pos_after_def nth_append)
  have gap: "\<not> sg_start c \<le> sg_end b" using segs(2) by auto
  have nth: "(A @ b' # c # C) ! length (A @ [b']) = c" by (simp add: nth_append)
  have m: "rq_merge (pos_before A) (pos_after (A @ [b, c]) C) st en tf rf cnt r =
      rq_link (Some (length A)) (Some (Suc (length A))) (sg_end b) (sg_start c) tf rf (cnt - 1) True r2"
    unfolding rq_merge_def Let_def f p res_bind.simps if_True r1_def [symmetric] f1 q nth_append_length nth if_not_P [OF gap] by (simp add: r2_def)
  have f2: "rq_fifo r2 = (A @ [b']) @ (c' # C)" by (simp add: r2)
  have lt': "sg_end b < sg_start c" using gap by simp
  have bef: "\<forall>s \<in> set (A @ [b']). sg_end s \<le> sg_end b" using before b L(3) by force
  have aft: "\<forall>s \<in> set (c' # C). sg_start c \<le> sg_start s" using after c(1) R(3) by force
  have j: "joins_left (A @ [b']) (sg_end b)" "joins_right (sg_start c) (c' # C)" by (simp_all add: joins_left_def joins_right_def L(3) R(3))
  have pq: "pos_before (A @ [b']) = Some (length A)" "pos_after (A @ [b']) (c' # C) = Some (Suc (length A))"
    by (simp_all add: pos_before_def pos_after_def)
  from link_grows [OF w2(1) f2 lt' bef aft, of True tf rf "cnt - 1"] j obtain fl r' k where K:
    "rq_link (Some (length A)) (Some (Suc (length A))) (sg_end b) (sg_start c) tf rf (cnt - 1) True r2 = Ok (fl, r')"
    "rq_grown (sg_end b) (sg_start c) r2 r' k" "sg_start k = sg_start b'" "sg_end k = sg_end c'" by (auto simp: pq)
  have "{st..<en} \<subseteq> seg_bytes b \<union> {sg_end b..<sg_start c} \<union> seg_bytes c" "{sg_end b..<sg_start c} \<subseteq> {st..<en}"
    using b c by (auto simp: seg_bytes_def)
  moreover have "seg_bytes b \<union> seg_bytes c \<subseteq> rq_bytes (rq_fifo r)" by (auto simp: f)
  ultimately have "rq_bytes (rq_fifo r2) \<union> {sg_end b..<sg_start c} = rq_bytes (rq_fifo r) \<union> {st..<en}" unfolding w2(2) w1(2) by blast
  moreover have "sg_start k \<le> st" "en \<le> sg_end k" using K b c s1 e2 by simp_all
  moreover have "rq_rcv_nxt r2 = rq_rcv_nxt r" by (simp add: r2 r1)
  ultimately have "rq_grown st en r r' k" by (intro grown_link [OF K(2)])
  then show ?thesis unfolding m using K(1) by blast
qed

text \<open>Without a block that is covered, at most two blocks overlap.\<close>

lemma merge_grows:
  assumes ok: "rq_ok r" and f: "rq_fifo r = A @ B @ C" and lt: "st < en"
    and before: "\<forall>s \<in> set A. sg_end s \<le> st" and after: "\<forall>s \<in> set C. en \<le> sg_start s"
    and B: "\<forall>s \<in> set B. overlaps st en s \<and> \<not> covered st en s" "B = [] \<Longrightarrow> A \<noteq> [] \<and> C \<noteq> []"
    and rcv: "\<forall>x \<in> rq_bytes (rq_fifo r). rq_rcv_nxt r < x" "rq_rcv_nxt r \<le> st"
  shows "\<exists>fl r' k. rq_merge (pos_before A) (pos_after (A @ B) C) st en tf rf cnt r = Ok (fl, r') \<and> rq_grown st en r r' k"
proof -
  have segs: "segs_ok B" "\<forall>s \<in> set A. \<forall>t \<in> set B. sg_end s < sg_start t" using ok f by (simp_all add: rq_ok_def segs_ok_append)
  consider "B = []" | b where "B = [b]" | b c where "B = [b, c]" | b c d D where "B = b # c # d # D"
    by (metis neq_Nil_conv)
  then show ?thesis
  proof cases
    case 1
    then show ?thesis using merge_none [OF ok _ lt _ _ before after] f B(2) by auto
  next
    case 2
    have f': "rq_fifo r = A @ b # C" using f 2 by simp
    have o: "st < sg_end b" "sg_start b < en" "\<not> covered st en b" using B(1) by (simp_all add: 2 overlaps_def)
    show ?thesis
    proof (cases "A = [] \<or> sg_start b < st")
      case True
      show ?thesis using merge_left [OF ok f' lt True before after o rcv] by (simp add: 2)
    next
      case False
      then have "A \<noteq> []" "st \<le> sg_start b" "en < sg_end b" using o by (simp_all add: covered_def)
      then show ?thesis using merge_right [OF ok f' lt _ before _ o(2) _ rcv] by (simp add: 2)
    qed
  next
    case 3
    have f': "rq_fifo r = A @ b # c # C" using f 3 by simp
    have s: "sg_end b < sg_start c" "sg_start c < sg_end c" using segs(1) by (simp_all add: 3 segs_ok_Cons)
    have "st < sg_end b" "sg_start c < en" "\<not> covered st en b" "\<not> covered st en c" using B(1) by (simp_all add: 3 overlaps_def)
    then show ?thesis using merge_two [OF ok f' lt before after] s by (simp add: 3 covered_def)
  next
    case 4
    have "sg_end b < sg_start c" "sg_end c < sg_start d" using segs(1) by (simp_all add: 4 segs_ok_Cons)
    moreover have "st < sg_end b" "sg_start d < en" "\<not> covered st en c" using B(1) by (simp_all add: 4 overlaps_def)
    ultimately show ?thesis by (simp add: covered_def)
  qed
qed

section \<open>Killing the blocks that are covered\<close>

lemma kill_same:
  "s \<in> set ss \<Longrightarrow> sg_start s = st \<Longrightarrow> sg_end s = en \<Longrightarrow> \<forall>t \<in> set ss. t \<noteq> s \<longrightarrow> \<not> covered st en t \<Longrightarrow>
   rq_kill st en ss tf cnt alt r = Same (sg_pflags s OR tf) (rq_upd (sg_id s) (\<lambda>t. t\<lparr>sg_pflags := sg_pflags t OR tf\<rparr>) r)"
  by (induction ss) (auto simp: covered_def)

lemma delete_ok:
  assumes ok: "rq_ok r" and s: "s \<in> set (rq_fifo r)"
  defines "r' \<equiv> rq_delete s (r\<lparr>rq_total := rq_total r - (sg_end s - sg_start s)\<rparr>)"
  shows "rq_ok r' \<and> rq_fifo r' = filter (\<lambda>t. t \<noteq> s) (rq_fifo r) \<and> rq_rcv_nxt r' = rq_rcv_nxt r"
proof -
  obtain xs zs where f: "rq_fifo r = xs @ s # zs" using split_list [OF s] by blast
  have d: "distinct (map sg_id (xs @ s # zs))" using ok by (simp add: rq_ok_def ids_ok_def f)
  have f': "rq_fifo r' = xs @ zs" using filter_id [OF d] by (simp add: r'_def rq_delete_def rq_fremove_def rq_sremove_def f)
  have "distinct (xs @ s # zs)" using d by (simp only: distinct_map)
  then have "filter (\<lambda>t. t \<noteq> s) xs = xs" "filter (\<lambda>t. t \<noteq> s) zs = zs" by (auto simp: filter_id_conv)
  then have "filter (\<lambda>t. t \<noteq> s) (xs @ s # zs) = xs @ zs" by simp
  moreover have "ids_ok r" using ok by (simp add: rq_ok_def)
  then have "ids_ok r'" by (rule ids_ok_delete [OF _ f f']) (simp_all add: r'_def rq_delete_def rq_fremove_def rq_sremove_def)
  moreover have "segs_ok (xs @ zs)" using ok by (simp add: rq_ok_def f segs_ok_append segs_ok_Cons)
  moreover have "rq_total r' = segs_total (xs @ zs)"
    using ok by (simp add: rq_ok_def f r'_def rq_delete_def rq_fremove_def rq_sremove_def)
  moreover have "rq_rcv_nxt r' = rq_rcv_nxt r" by (simp add: r'_def rq_delete_def rq_fremove_def rq_sremove_def)
  ultimately show ?thesis by (simp add: rq_ok_def f f')
qed

lemma kill_killed:
  assumes "\<forall>s \<in> set ss. \<not> (sg_start s = st \<and> sg_end s = en)" "rq_ok r" "set ss \<subseteq> set (rq_fifo r)" "distinct ss"
  shows "\<exists>fl cnt' r'. rq_kill st en ss tf cnt alt r = Killed fl cnt' (alt \<or> (\<exists>s \<in> set ss. covered st en s)) r' \<and> rq_ok r' \<and>
    rq_fifo r' = filter (\<lambda>s. \<not> (s \<in> set ss \<and> covered st en s)) (rq_fifo r) \<and> rq_rcv_nxt r' = rq_rcv_nxt r"
  using assms
proof (induction ss arbitrary: tf cnt alt r)
  case Nil
  then show ?case by simp
next
  case (Cons s ss)
  have ne: "\<not> (st = sg_start s \<and> en = sg_end s)" using Cons.prems(1) by auto
  show ?case
  proof (cases "covered st en s")
    case True
    define r1 where "r1 = rq_delete s (r\<lparr>rq_total := rq_total r - (sg_end s - sg_start s)\<rparr>)"
    have D: "rq_ok r1" "rq_fifo r1 = filter (\<lambda>t. t \<noteq> s) (rq_fifo r)" "rq_rcv_nxt r1 = rq_rcv_nxt r"
      using delete_ok [OF Cons.prems(2), of s] Cons.prems(3) by (simp_all add: r1_def)
    have sub: "set ss \<subseteq> set (rq_fifo r1)" using Cons.prems(3,4) by (auto simp: D(2))
    have k: "rq_kill st en (s # ss) tf cnt alt r = rq_kill st en ss (tf OR sg_pflags s) (cnt + sg_cnt s) True r1"
      unfolding rq_kill.simps if_not_P [OF ne] using True by (simp add: covered_def r1_def)
    from Cons.IH [OF _ D(1) sub, of "tf OR sg_pflags s" "cnt + sg_cnt s" True] Cons.prems(1,4) obtain fl cnt' r' where
      "rq_kill st en ss (tf OR sg_pflags s) (cnt + sg_cnt s) True r1 = Killed fl cnt' True r'" "rq_ok r'"
      "rq_fifo r' = filter (\<lambda>s. \<not> (s \<in> set ss \<and> covered st en s)) (rq_fifo r1)" "rq_rcv_nxt r' = rq_rcv_nxt r1" by auto
    moreover have "filter (\<lambda>s. \<not> (s \<in> set ss \<and> covered st en s)) (rq_fifo r1) =
        filter (\<lambda>t. \<not> (t \<in> set (s # ss) \<and> covered st en t)) (rq_fifo r)"
      unfolding D(2) filter_filter using True by (intro filter_cong) auto
    ultimately show ?thesis using k True D(3) by simp
  next
    case False
    have k: "rq_kill st en (s # ss) tf cnt alt r = rq_kill st en ss tf cnt alt r"
      unfolding rq_kill.simps if_not_P [OF ne] using False by (auto simp: covered_def)
    from Cons.IH [of r tf cnt alt] Cons.prems obtain fl cnt' r' where
      "rq_kill st en ss tf cnt alt r = Killed fl cnt' (alt \<or> (\<exists>s \<in> set ss. covered st en s)) r'" "rq_ok r'"
      "rq_fifo r' = filter (\<lambda>s. \<not> (s \<in> set ss \<and> covered st en s)) (rq_fifo r)" "rq_rcv_nxt r' = rq_rcv_nxt r" by auto
    moreover have "filter (\<lambda>s. \<not> (s \<in> set ss \<and> covered st en s)) (rq_fifo r) =
        filter (\<lambda>t. \<not> (t \<in> set (s # ss) \<and> covered st en t)) (rq_fifo r)"
      using False by (intro filter_cong) auto
    ultimately show ?thesis using k False by simp
  qed
qed

lemma same_grows:
  assumes ok: "rq_ok r" and s: "s \<in> set (rq_fifo r)"
    and rcv: "\<forall>x \<in> rq_bytes (rq_fifo r). rq_rcv_nxt r < x"
  shows "rq_grown (sg_start s) (sg_end s) r (rq_upd (sg_id s) (\<lambda>t. t\<lparr>sg_pflags := sg_pflags t OR tf\<rparr>) r)
    (s\<lparr>sg_pflags := sg_pflags s OR tf\<rparr>)"
proof -
  let ?s = "s\<lparr>sg_pflags := sg_pflags s OR tf\<rparr>"
  obtain xs zs where f: "rq_fifo r = xs @ s # zs" using split_list [OF s] by blast
  have d: "distinct (map sg_id (xs @ s # zs))" using ok by (simp add: rq_ok_def ids_ok_def f)
  have e: "rq_upd (sg_id s) (\<lambda>t. t\<lparr>sg_pflags := sg_pflags t OR tf\<rparr>) r = r\<lparr>rq_fifo := xs @ ?s # zs\<rparr>"
    using map_id_upd [OF d, of "\<lambda>t. t\<lparr>sg_pflags := sg_pflags t OR tf\<rparr>"] by (simp add: rq_upd_def f)
  have segs: "\<forall>t \<in> set xs. sg_end t < sg_start s" "\<forall>t \<in> set zs. sg_end s < sg_start t" "sg_start s < sg_end s"
    using ok by (simp_all add: rq_ok_def f segs_ok_append segs_ok_Cons)
  have "rq_ok (r\<lparr>rq_fifo := xs @ ?s # zs\<rparr>)" "rq_bytes (xs @ ?s # zs) = rq_bytes (rq_fifo r) \<union> {sg_start s..<sg_end s}"
    using widen_ok [OF ok f, of ?s] segs by simp_all
  moreover have "sg_start s \<in> rq_bytes (rq_fifo r)" using segs(3) by (simp add: f seg_bytes_def)
  then have "rq_rcv_nxt r < sg_start s" using rcv by blast
  ultimately show ?thesis unfolding e rq_grown_def by simp
qed

section \<open>The whole insertion\<close>

text \<open>The blocks before, over and after the new one.\<close>

lemma three_parts:
  assumes "segs_ok xs" "st < en"
  obtains A B C where "xs = A @ B @ C" "\<forall>s \<in> set A. sg_end s \<le> st" "\<forall>s \<in> set B. overlaps st en s" "\<forall>s \<in> set C. en \<le> sg_start s"
proof -
  define A where "A = takeWhile (\<lambda>s. sg_end s \<le> st) xs"
  define D where "D = dropWhile (\<lambda>s. sg_end s \<le> st) xs"
  define B where "B = takeWhile (\<lambda>s. sg_start s < en) D"
  define C where "C = dropWhile (\<lambda>s. sg_start s < en) D"
  have xs: "xs = A @ D" "D = B @ C" by (simp_all add: A_def B_def C_def D_def)
  have segs: "segs_ok D" "segs_ok C" using assms(1) by (simp_all add: xs segs_ok_append)
  have D: "st < sg_end s" if "s \<in> set D" for s
  proof (cases D)
    case (Cons d D')
    have "st < sg_end d" using hd_dropWhile [of "\<lambda>s. sg_end s \<le> st" xs] Cons by (simp add: D_def [symmetric])
    moreover have "\<forall>t \<in> set D'. sg_end d < sg_end t" using segs(1) segs_ok_pos [OF segs(1)] by (fastforce simp: Cons segs_ok_Cons)
    ultimately show ?thesis using that by (auto simp: Cons)
  qed (use that in simp)
  have C: "en \<le> sg_start s" if "s \<in> set C" for s
  proof (cases C)
    case (Cons c C')
    have "en \<le> sg_start c" using hd_dropWhile [of "\<lambda>s. sg_start s < en" D] Cons by (simp add: C_def [symmetric])
    moreover have "\<forall>t \<in> set C'. sg_start c < sg_start t" using segs(2) by (force simp: Cons segs_ok_Cons)
    ultimately show ?thesis using that by (auto simp: Cons)
  qed (use that in simp)
  show thesis
  proof (rule that [of A B C])
    show "xs = A @ B @ C" using xs by simp
    show "\<forall>s \<in> set A. sg_end s \<le> st" by (auto simp: A_def dest: set_takeWhileD)
    show "\<forall>s \<in> set B. overlaps st en s" using D by (auto simp: overlaps_def B_def dest: set_takeWhileD)
  qed (use C in blast)
qed

lemma search_positions:
  assumes ok: "segs_ok (A @ B @ C)" and lt: "st < en" and A: "\<forall>s \<in> set A. sg_end s \<le> st"
    and B: "\<forall>s \<in> set B. overlaps st en s" and C: "\<forall>s \<in> set C. en \<le> sg_start s"
  shows "rq_before st (A @ B @ C) = pos_before A" "rq_after en (A @ B @ C) = pos_after (A @ B) C"
    "rq_between (pos_before A) (pos_after (A @ B) C) (A @ B @ C) = (if A = [] then [] else [last A]) @ B"
proof -
  have pos: "sg_start s < sg_end s" if "s \<in> set A \<union> set B \<union> set C" for s using segs_ok_pos [OF ok] that by simp
  have "sg_end s > st" if "s \<in> set (rev C @ rev B)" for s
    using that B C pos [of s] lt by (force simp: overlaps_def)
  then have d: "dropWhile (\<lambda>s. sg_end s > st) ((rev C @ rev B) @ rev A) = dropWhile (\<lambda>s. sg_end s > st) (rev A)"
    by (intro dropWhile_append2) auto
  have "dropWhile (\<lambda>s. sg_end s > st) (rev A) = rev A" using A by (cases A rule: rev_cases) (auto simp: not_less)
  with d have "length (dropWhile (\<lambda>s. sg_end s > st) (rev (A @ B @ C))) = length A" by simp
  then show "rq_before st (A @ B @ C) = pos_before A" by (simp add: rq_before_def pos_before_def)
  have "sg_start s < en" if "s \<in> set (A @ B)" for s
    using that A B pos [of s] lt by (force simp: overlaps_def)
  then have t: "takeWhile (\<lambda>s. sg_start s < en) ((A @ B) @ C) = (A @ B) @ takeWhile (\<lambda>s. sg_start s < en) C"
    by (intro takeWhile_append2) auto
  have "takeWhile (\<lambda>s. sg_start s < en) C = []" using C by (cases C) (auto simp: not_less)
  with t have "length (takeWhile (\<lambda>s. sg_start s < en) (A @ B @ C)) = length (A @ B)" by simp
  then show "rq_after en (A @ B @ C) = pos_after (A @ B) C" by (simp add: rq_after_def pos_after_def)
  show "rq_between (pos_before A) (pos_after (A @ B) C) (A @ B @ C) = (if A = [] then [] else [last A]) @ B"
    by (cases A rule: rev_cases) (simp_all add: rq_between_def pos_before_def pos_after_def)
qed

lemma exact_excludes:
  assumes ok: "segs_ok xs" and s: "s \<in> set xs" "sg_start s = st" "sg_end s = en" and t: "t \<in> set xs" "covered st en t"
  shows "t = s"
proof (rule ccontr)
  assume ne: "t \<noteq> s"
  obtain ys zs where xs: "xs = ys @ s # zs" using split_list [OF s(1)] by blast
  have "sg_start t < sg_end t" using segs_ok_pos [OF ok t(1)] .
  moreover have "t \<in> set ys \<or> t \<in> set zs" using t(1) ne by (auto simp: xs)
  ultimately show False using ok t(2) s(2,3) by (auto simp: xs segs_ok_append segs_ok_Cons covered_def)
qed

lemma bytes_filter_covered:
  "rq_bytes (filter (\<lambda>s. \<not> (P s \<and> covered st en s)) xs) \<union> {st..<en} = rq_bytes xs \<union> {st..<en}"
  by (auto simp: rq_bytes_def seg_bytes_def covered_def)

lemma add_loop_grows:
  assumes "st < en"
  shows "rq_ok r \<Longrightarrow> rq_fifo r \<noteq> [] \<Longrightarrow> \<forall>x \<in> rq_bytes (rq_fifo r). rq_rcv_nxt r < x \<Longrightarrow> rq_rcv_nxt r \<le> st \<Longrightarrow>
    \<exists>fl r' k. rq_add_loop st en tf rf cnt r = Ok (fl, r') \<and> rq_grown st en r r' k"
proof (induction "length (rq_fifo r)" arbitrary: tf cnt r rule: less_induct)
  case less
  have ok: "rq_ok r" and segs: "segs_ok (rq_fifo r)" using less.prems(1) by (simp_all add: rq_ok_def)
  obtain A B C where f: "rq_fifo r = A @ B @ C" and A: "\<forall>s \<in> set A. sg_end s \<le> st"
    and B: "\<forall>s \<in> set B. overlaps st en s" and C: "\<forall>s \<in> set C. en \<le> sg_start s"
    using three_parts [OF segs assms] by blast
  have pos: "sg_start s < sg_end s" if "s \<in> set (rq_fifo r)" for s using segs_ok_pos [OF segs that] .
  note S = search_positions [OF segs [unfolded f] assms A B C]
  have ne: "rq_fifo r \<noteq> []" by (rule less.prems(2))
  show ?case
  proof (cases "st \<ge> sg_end (last (rq_fifo r))")
    case fast: True
    have "C = []"
    proof (cases C rule: rev_cases)
      case (snoc C' c)
      then show ?thesis using fast C pos [of c] assms by (simp add: f)
    qed simp
    moreover from this have "B = []" using fast B by (cases B rule: rev_cases) (auto simp: f overlaps_def)
    ultimately have f': "rq_fifo r = A @ []" by (simp add: f)
    have "rq_add_loop st en tf rf cnt r = rq_link (pos_before A) (pos_after A []) st en tf rf cnt (st = sg_end (last A)) r"
      using ne fast unfolding rq_add_loop.simps [of st en tf rf cnt r] Let_def f' by (simp add: pos_before_def pos_after_def)
    moreover have "(st = sg_end (last A)) = (joins_left A st \<or> joins_right en [])"
      using ne f' by (auto simp: joins_left_def joins_right_def)
    ultimately show ?thesis using link_grows [OF ok f' assms A] by (simp del: append_Nil2) blast
  next
    case slow: False
    show ?thesis
    proof (cases "en \<le> sg_start (hd (rq_fifo r))")
      case fast: True
      have "A = []" using fast A pos [of "hd A"] assms by (cases A) (auto simp: f)
      moreover from this have "B = []" using fast B by (cases B) (auto simp: f overlaps_def)
      ultimately have f': "rq_fifo r = [] @ C" by (simp add: f)
      have "rq_add_loop st en tf rf cnt r = rq_link (pos_before []) (pos_after [] C) st en tf rf cnt (en = sg_start (hd C)) r"
        using ne fast slow unfolding rq_add_loop.simps [of st en tf rf cnt r] Let_def f' by (simp add: pos_before_def pos_after_def)
      moreover have "(en = sg_start (hd C)) = (joins_left [] st \<or> joins_right en C)"
        using ne f' by (auto simp: joins_left_def joins_right_def)
      ultimately show ?thesis using link_grows [OF ok f' assms _ C] by simp blast
    next
      case far: False
      define ss where "ss = (if A = [] then [] else [last A]) @ B"
      have sub: "set ss \<subseteq> set (rq_fifo r)" by (auto simp: ss_def f)
      have loop: "rq_add_loop st en tf rf cnt r = (case rq_kill st en ss tf cnt False r of
            Same fl r' \<Rightarrow> Ok (fl, r')
          | Killed fl cnt altered r' \<Rightarrow>
              if rq_empty r' then rq_link (pos_before A) (pos_after (A @ B) C) st en fl rf cnt False r'
              else if altered then rq_add_loop st en fl rf cnt r'
              else rq_merge (pos_before A) (pos_after (A @ B) C) st en fl rf cnt r')"
        unfolding rq_add_loop.simps [of st en tf rf cnt r] Let_def if_not_P [OF ne] if_not_P [OF slow] if_not_P [OF far]
        unfolding f S ss_def by (rule refl)
      show ?thesis
      proof (cases "\<exists>s \<in> set ss. sg_start s = st \<and> sg_end s = en")
        case True
        then obtain s where s: "s \<in> set ss" "sg_start s = st" "sg_end s = en" by blast
        have "\<forall>t \<in> set ss. t \<noteq> s \<longrightarrow> \<not> covered st en t" using exact_excludes [OF segs _ s(2,3)] s(1) sub by blast
        note K = kill_same [OF s this, of tf cnt False r]
        have "s \<in> set (rq_fifo r)" using s(1) sub by blast
        from same_grows [OF ok this less.prems(3), of tf] show ?thesis unfolding loop K s(2,3) by auto
      next
        case False
        have d: "distinct (rq_fifo r)" using ok by (simp add: rq_ok_def ids_ok_def distinct_map)
        then have "distinct ss" by (cases A rule: rev_cases) (auto simp: f ss_def)
        with kill_killed [OF _ ok sub, of st en tf cnt False] False obtain fl cnt' r' where
          K: "rq_kill st en ss tf cnt False r = Killed fl cnt' (\<exists>s \<in> set ss. covered st en s) r'" "rq_ok r'"
            "rq_fifo r' = filter (\<lambda>s. \<not> (s \<in> set ss \<and> covered st en s)) (rq_fifo r)" "rq_rcv_nxt r' = rq_rcv_nxt r" by auto
        have bytes: "rq_bytes (rq_fifo r') \<union> {st..<en} = rq_bytes (rq_fifo r) \<union> {st..<en}" unfolding K(3) by (rule bytes_filter_covered)
        have rcv: "\<forall>x \<in> rq_bytes (rq_fifo r'). rq_rcv_nxt r' < x" "rq_rcv_nxt r' \<le> st"
          using less.prems(3,4) unfolding K(3,4) by (auto simp: rq_bytes_def)
        have up: "rq_grown st en r q' k" if "rq_grown st en r' q' k" for q' k
          using that bytes K(4) by (simp add: rq_grown_def)
        have notA: "\<not> covered st en s" if "s \<in> set A" for s using that A pos [of s] by (force simp: covered_def f)
        have notC: "\<not> covered st en s" if "s \<in> set C" for s using that C pos [of s] by (force simp: covered_def f)
        show ?thesis
        proof (cases "rq_fifo r' = []")
          case True
          then have e: "rq_fifo r' = [] @ []" by simp
          have "s \<in> set ss \<and> covered st en s" if "s \<in> set (rq_fifo r)" for s using True that unfolding K(3) by (simp add: filter_empty_conv)
          then have all: "\<And>s. s \<in> set A \<union> set C \<Longrightarrow> covered st en s" by (auto simp: f)
          have AC: "A = []" "C = []" using all notA by (cases A, simp, force) (use all notC in \<open>cases C, simp, force\<close>)
          have "pos_after (A @ B) C = pos_after [] []" "pos_before A = pos_before []" by (simp_all add: AC pos_after_def)
          moreover have "False = (joins_left [] st \<or> joins_right en [])" by (simp add: joins_left_def joins_right_def)
          ultimately show ?thesis unfolding loop K(1) using link_grows [OF K(2) e assms, of False fl rf cnt'] up True
            by (simp add: rq_empty_def) blast
        next
          case nonempty: False
          show ?thesis
          proof (cases "\<exists>s \<in> set ss. covered st en s")
            case True
            then obtain s where s: "s \<in> set ss" "covered st en s" by blast
            then have "length (rq_fifo r') < length (rq_fifo r)" unfolding K(3) using sub by (intro length_filter_less [of s]) auto
            from less.hyps [OF this K(2) nonempty rcv, of fl cnt'] up show ?thesis
              unfolding loop K(1) using True nonempty by (simp add: rq_empty_def) blast
          next
            case none: False
            then have f': "rq_fifo r' = A @ B @ C" unfolding K(3) f by (auto simp: filter_id_conv)
            have B': "\<forall>s \<in> set B. overlaps st en s \<and> \<not> covered st en s" using B none by (auto simp: ss_def)
            have "A \<noteq> [] \<and> C \<noteq> []" if "B = []"
              using that ne slow far A C by (cases A rule: rev_cases; cases C) (auto simp: f)
            from merge_grows [OF K(2) f' assms A C B' this rcv, of fl rf cnt'] up show ?thesis
              unfolding loop K(1) using none nonempty by (simp add: rq_empty_def) blast
          qed
        qed
      qed
    qed
  qed
qed

section \<open>Removal\<close>

lemma clearto_loop:
  "rq_ok r \<Longrightarrow> rq_fifo r = ps \<Longrightarrow> \<exists>fl' r'. rq_clearto_loop sq ps fl r = (fl', r') \<and> rq_ok r' \<and>
     rq_fifo r' = dropWhile (\<lambda>s. sg_end s \<le> sq) ps \<and> rq_rcv_nxt r' = rq_rcv_nxt r"
proof (induction ps arbitrary: fl r)
  case (Cons p ps)
  show ?case
  proof (cases "sg_end p \<le> sq")
    case True
    define r1 where "r1 = rq_fremove (sg_id p) (rq_sremove (sg_id p) (r\<lparr>rq_total := rq_total r - (sg_end p - sg_start p)\<rparr>))"
    have e: "r1 = rq_delete p (r\<lparr>rq_total := rq_total r - (sg_end p - sg_start p)\<rparr>)"
      by (simp add: r1_def rq_delete_def rq_fremove_def rq_sremove_def)
    have "p \<in> set (rq_fifo r)" using Cons.prems(2) by simp
    from delete_ok [OF Cons.prems(1) this] have D: "rq_ok r1" "rq_fifo r1 = filter (\<lambda>t. t \<noteq> p) (p # ps)" "rq_rcv_nxt r1 = rq_rcv_nxt r"
      unfolding e [symmetric] by (simp_all add: Cons.prems(2))
    have "distinct (rq_fifo r)" using Cons.prems(1) by (simp add: rq_ok_def ids_ok_def distinct_map)
    then have "distinct (p # ps)" by (simp only: Cons.prems(2))
    then have "rq_fifo r1 = ps" unfolding D(2) by (auto simp: filter_id_conv)
    from Cons.IH [OF D(1) this, of "fl OR sg_pflags p"] True D(3) show ?thesis by (simp flip: r1_def)
  next
    case False
    then show ?thesis using Cons.prems by simp
  qed
qed simp

lemma clearto_bytes:
  assumes ok: "rq_ok r"
  shows "\<exists>fl r'. rq_clearto sq r = (fl, r') \<and> rq_ok r' \<and> rq_bytes (rq_fifo r') = {x \<in> rq_bytes (rq_fifo r). sq \<le> x} \<and>
    rq_rcv_nxt r' = rq_rcv_nxt r"
proof -
  obtain fl r1 where L: "rq_clearto_loop sq (rq_fifo r) 0 r = (fl, r1)" "rq_ok r1"
    "rq_fifo r1 = dropWhile (\<lambda>s. sg_end s \<le> sq) (rq_fifo r)" "rq_rcv_nxt r1 = rq_rcv_nxt r"
    using clearto_loop [OF ok refl, of sq 0] by blast
  have "rq_fifo r = takeWhile (\<lambda>s. sg_end s \<le> sq) (rq_fifo r) @ rq_fifo r1" by (simp add: L(3))
  then have "rq_bytes (rq_fifo r) = rq_bytes (takeWhile (\<lambda>s. sg_end s \<le> sq) (rq_fifo r)) \<union> rq_bytes (rq_fifo r1)"
    by (metis rq_bytes_simps(3))
  moreover have "x < sq" if "x \<in> rq_bytes (takeWhile (\<lambda>s. sg_end s \<le> sq) (rq_fifo r))" for x
    using that by (auto simp: rq_bytes_def seg_bytes_def dest!: set_takeWhileD)
  ultimately have bytes: "{x \<in> rq_bytes (rq_fifo r). sq \<le> x} = {x \<in> rq_bytes (rq_fifo r1). sq \<le> x}" by force
  show ?thesis
  proof (cases "rq_fifo r1")
    case Nil
    then show ?thesis using L(1,2,4) bytes by (simp add: rq_clearto_def)
  next
    case (Cons p ps)
    have "dropWhile (\<lambda>s. sg_end s \<le> sq) (rq_fifo r) = p # ps" using Cons L(3) by simp
    then have p: "sq < sg_end p" by (metis hd_dropWhile list.distinct(1) list.sel(1) not_le)
    have ps: "\<forall>s \<in> set ps. sg_end p < sg_start s" "sg_start p < sg_end p" using L(2) by (simp_all add: rq_ok_def Cons segs_ok_Cons)
    then have "rq_bytes ps \<subseteq> {x. sq \<le> x}" using p by (force simp: rq_bytes_def seg_bytes_def)
    then have right: "{x \<in> rq_bytes (rq_fifo r1). sq \<le> x} = {x \<in> seg_bytes p. sq \<le> x} \<union> rq_bytes ps" by (auto simp: Cons)
    show ?thesis
    proof (cases "sg_start p \<le> sq")
      case True
      let ?p = "p\<lparr>sg_start := sq\<rparr>"
      let ?r = "r1\<lparr>rq_total := rq_total r1 - (sq - sg_start p), rq_fifo := ?p # ps\<rparr>"
      have "ids_ok r1" using L(2) by (simp add: rq_ok_def)
      then have "ids_ok ?r" by (rule ids_ok_upd) (simp_all add: Cons)
      then have "rq_ok ?r" using L(2) p by (simp add: rq_ok_def Cons segs_ok_Cons)
      moreover have "rq_bytes (?p # ps) = {x \<in> rq_bytes (rq_fifo r). sq \<le> x}"
        unfolding bytes right using True by (auto simp: seg_bytes_def)
      ultimately show ?thesis using L(1,4) True p by (simp add: rq_clearto_def Cons)
    next
      case False
      then have "rq_bytes (rq_fifo r1) = {x \<in> rq_bytes (rq_fifo r). sq \<le> x}"
        unfolding bytes right by (auto simp: seg_bytes_def Cons)
      then show ?thesis using L(1,2,4) False by (simp add: rq_clearto_def Cons)
    qed
  qed
qed

lemma block_edges:
  assumes ok: "segs_ok xs" and b: "b \<in> set xs"
  shows "seg_bytes b \<subseteq> rq_bytes xs" "sg_end b \<notin> rq_bytes xs" "sg_start b - 1 \<notin> rq_bytes xs"
proof -
  obtain ys zs where xs: "xs = ys @ b # zs" using split_list [OF b] by blast
  have s: "\<forall>t \<in> set ys. sg_end t < sg_start b" "\<forall>t \<in> set zs. sg_end b < sg_start t" "sg_start b < sg_end b"
    using ok by (simp_all add: xs segs_ok_append segs_ok_Cons)
  show "seg_bytes b \<subseteq> rq_bytes xs" using b by (auto simp: rq_bytes_def)
  show "sg_end b \<notin> rq_bytes xs" "sg_start b - 1 \<notin> rq_bytes xs" using s by (force simp: xs rq_bytes_def seg_bytes_def)+
qed

section \<open>Properties\<close>

lemma rq_add_grows:
  assumes "rq_ok r" "st < en" "\<forall>x \<in> rq_bytes (rq_fifo r). rq_rcv_nxt r < x" "rq_rcv_nxt r \<le> st"
  shows "\<exists>fl r1 b. rq_add st en tf rf r = Ok (fl, r1) \<and> rq_grown st en r r1 b"
proof (cases "rq_fifo r = []")
  case True
  then have "rq_lifo r = []" using assms(1) by (simp add: rq_ok_def ids_ok_def)
  let ?n = "\<lparr>sg_id = rq_fresh r, sg_start = st, sg_end = en, sg_pflags = tf, sg_rqflags = rf, sg_cnt = 1\<rparr>"
  let ?r = "r\<lparr>rq_fifo := [?n], rq_lifo := [rq_fresh r], rq_fresh := Suc (rq_fresh r), rq_total := en - st\<rparr>"
  have "rq_grown st en r (if rq_rcv_nxt ?r \<ge> st then ?r\<lparr>rq_rcv_nxt := en\<rparr> else ?r) ?n"
    using assms(2) True by (auto simp: rq_grown_def rq_ok_def ids_ok_def segs_ok_Cons seg_bytes_def)
  moreover have "rq_add st en tf rf r = Ok (tf, if rq_rcv_nxt ?r \<ge> st then ?r\<lparr>rq_rcv_nxt := en\<rparr> else ?r)"
    using assms(2) True \<open>rq_lifo r = []\<close> by (simp add: rq_add_def Let_def)
  ultimately show ?thesis by blast
next
  case False
  then show ?thesis using add_loop_grows [OF assms(2,1) False assms(3,4), of tf rf 1] assms(2) by (simp add: rq_add_def)
qed

text \<open>
  C11: a segment that is not older than \<open>rcv_nxt_\<close> is always accepted: \<open>add\<close> never follows a null pointer and adds exactly its
  bytes, however it overlaps the blocks that are there; the blocks stay in order, separated and counted by
  \<open>total_\<close>; \<open>rcv_nxt_\<close> moves to the first byte that is missing; and \<open>cleartonxt\<close> then removes
  what is before it, which makes the queue ready for the next segment.
\<close>

theorem rq_add_reassembles:
  assumes "rq_ok r" "st < en" "\<forall>x \<in> rq_bytes (rq_fifo r). rq_rcv_nxt r < x" "rq_rcv_nxt r \<le> st"
  shows "\<exists>fl r1. rq_add st en tf rf r = Ok (fl, r1) \<and> rq_ok r1 \<and>
    rq_bytes (rq_fifo r1) = rq_bytes (rq_fifo r) \<union> {st..<en} \<and> rq_total r1 = int (card (rq_bytes (rq_fifo r1))) \<and>
    rq_rcv_nxt r \<le> rq_rcv_nxt r1 \<and> {rq_rcv_nxt r..<rq_rcv_nxt r1} \<subseteq> rq_bytes (rq_fifo r1) \<and> rq_rcv_nxt r1 \<notin> rq_bytes (rq_fifo r1) \<and>
    (let r2 = snd (rq_cleartonxt r1)
     in rq_ok r2 \<and> rq_rcv_nxt r2 = rq_rcv_nxt r1 \<and> rq_bytes (rq_fifo r2) = {x \<in> rq_bytes (rq_fifo r1). rq_rcv_nxt r1 < x})"
proof -
  obtain fl r1 b where A: "rq_add st en tf rf r = Ok (fl, r1)" and G: "rq_grown st en r r1 b"
    using rq_add_grows [OF assms, of tf rf] by blast
  have ok: "rq_ok r1" "segs_ok (rq_fifo r1)" and b: "b \<in> set (rq_fifo r1)" using G by (simp_all add: rq_grown_def rq_ok_def)
  note E = block_edges [OF ok(2) b]
  have bytes: "rq_bytes (rq_fifo r1) = rq_bytes (rq_fifo r) \<union> {st..<en}" using G by (simp add: rq_grown_def)
  have cover: "sg_start b \<le> st" "en \<le> sg_end b" using G by (simp_all add: rq_grown_def)
  have rcv: "rq_rcv_nxt r \<le> rq_rcv_nxt r1 \<and> {rq_rcv_nxt r..<rq_rcv_nxt r1} \<subseteq> rq_bytes (rq_fifo r1) \<and> rq_rcv_nxt r1 \<notin> rq_bytes (rq_fifo r1)"
  proof (cases "rq_rcv_nxt r \<ge> sg_start b")
    case True
    then have "rq_rcv_nxt r1 = sg_end b" using G by (simp add: rq_grown_def)
    moreover have "{rq_rcv_nxt r..<sg_end b} \<subseteq> seg_bytes b" using True by (auto simp: seg_bytes_def)
    ultimately show ?thesis using E cover assms(2,4) by auto
  next
    case False
    then have "rq_rcv_nxt r1 = rq_rcv_nxt r" using G by (simp add: rq_grown_def)
    moreover have "rq_rcv_nxt r \<notin> rq_bytes (rq_fifo r1)" unfolding bytes using assms(3) False cover by auto
    ultimately show ?thesis by simp
  qed
  obtain f2 r2 where C: "rq_cleartonxt r1 = (f2, r2)" "rq_ok r2" "rq_bytes (rq_fifo r2) = {x \<in> rq_bytes (rq_fifo r1). rq_rcv_nxt r1 \<le> x}"
    "rq_rcv_nxt r2 = rq_rcv_nxt r1"
    using clearto_bytes [OF ok(1), of "rq_rcv_nxt r1"] by (auto simp: rq_cleartonxt_def)
  have "{x \<in> rq_bytes (rq_fifo r1). rq_rcv_nxt r1 \<le> x} = {x \<in> rq_bytes (rq_fifo r1). rq_rcv_nxt r1 < x}"
    using rcv by (auto simp: less_le)
  then show ?thesis using A ok(1) bytes rcv C segs_total_card [OF ok(2)] ok(1) by (simp add: rq_ok_def)
qed

lemma rq_new_ok: "rq_ok (rq_new n)" "rq_fifo (rq_new n) = []"
  by (simp_all add: rq_ok_def rq_new_def ids_ok_def)

theorem rq_add_reassembles_witness:
  "\<exists>fl r1. rq_add 5 9 0 0 (rq_new 1) = Ok (fl, r1) \<and> rq_bytes (rq_fifo r1) = {5..<9} \<and> rq_total r1 = 4"
proof -
  have "\<forall>x \<in> rq_bytes (rq_fifo (rq_new 1)). rq_rcv_nxt (rq_new 1) < x" "rq_rcv_nxt (rq_new 1) \<le> 5"
    by (simp_all add: rq_new_def)
  from rq_add_reassembles [OF rq_new_ok(1) _ this, of 9 0 0] show ?thesis by (auto simp: rq_new_ok)
qed

lemma cnts_total: "rq_cnts xs = (int (length xs), segs_total xs)"
  by (induction xs) auto

lemma hole_loop:
  "segs_ok xs \<Longrightarrow> case rq_hole_loop sq xs of (h, blks, bytes) \<Rightarrow>
     if xs = [] \<or> sg_end (last xs) < sq then h = -1 \<and> blks = -1 \<and> bytes = -1
     else sq \<le> h \<and> {sq..<h} \<subseteq> rq_bytes xs \<and> h \<notin> rq_bytes xs \<and>
       (if \<exists>x \<in> rq_bytes xs. h < x
        then bytes = int (card {x \<in> rq_bytes xs. h < x}) \<and> blks = int (length (filter (\<lambda>s. h < sg_start s) xs))
        else blks = -1 \<and> bytes = -1)"
proof (induction xs)
  case (Cons p ps)
  have ok: "segs_ok ps" "sg_start p < sg_end p" "\<forall>s \<in> set ps. sg_end p < sg_start s" using Cons.prems by (simp_all add: segs_ok_Cons)
  have pos: "\<forall>s \<in> set ps. sg_start s < sg_end s" using segs_ok_pos [OF ok(1)] by blast
  have above: "\<forall>x \<in> rq_bytes ps. sg_end p < x" using ok(3) by (force simp: rq_bytes_def seg_bytes_def)
  have last: "sg_end p \<le> sg_end (last (p # ps))"
  proof (cases "ps = []")
    case False
    then have "last ps \<in> set ps" by simp
    with ok(3) pos have "sg_end p < sg_start (last ps)" "sg_start (last ps) < sg_end (last ps)" by blast+
    then show ?thesis using False by simp
  qed simp
  consider "sq < sg_start p" | "sg_start p \<le> sq" "sq \<le> sg_end p" | "sg_end p < sq" using ok(2) by linarith
  then show ?case
  proof cases
    case 1
    have all: "\<forall>x \<in> rq_bytes (p # ps). sq < x" using 1 ok(2) above by (force simp: seg_bytes_def)
    then have e: "{x \<in> rq_bytes (p # ps). sq < x} = rq_bytes (p # ps)" by blast
    have f: "filter (\<lambda>s. sq < sg_start s) (p # ps) = p # ps" using 1 ok(2,3) by (force simp: filter_id_conv)
    have "sg_start p \<in> rq_bytes (p # ps)" using ok(2) by (simp add: seg_bytes_def)
    then have "\<exists>x \<in> rq_bytes (p # ps). sq < x" using 1 by blast
    moreover have "\<not> sg_end (last (p # ps)) < sq" using last 1 ok(2) by linarith
    moreover have "sq \<notin> rq_bytes (p # ps)" using all by blast
    ultimately show ?thesis
      using 1 segs_total_card [OF Cons.prems] by (simp only: rq_hole_loop.simps if_True cnts_total prod.case e f) simp
  next
    case 2
    have e: "{x \<in> rq_bytes (p # ps). sg_end p < x} = rq_bytes ps" using above by (auto simp: seg_bytes_def)
    have f: "filter (\<lambda>s. sg_end p < sg_start s) (p # ps) = ps" using ok(2,3) by (simp add: filter_id_conv)
    have f': "filter (\<lambda>s. sg_end p < sg_start s) ps = ps" using ok(3) by (simp add: filter_id_conv)
    have "{sq..<sg_end p} \<subseteq> rq_bytes (p # ps)" using 2 by (auto simp: seg_bytes_def)
    moreover have "sg_end p \<notin> rq_bytes (p # ps)" using above by (auto simp: seg_bytes_def)
    moreover have "(\<exists>x \<in> rq_bytes (p # ps). sg_end p < x) \<longleftrightarrow> ps \<noteq> []"
    proof (cases ps)
      case (Cons c cs)
      then have "sg_start c \<in> rq_bytes (p # ps)" "sg_end p < sg_start c" using ok(3) pos by (simp_all add: seg_bytes_def)
      then show ?thesis using Cons by blast
    qed (auto simp: seg_bytes_def)
    moreover have "\<not> (p # ps = [] \<or> sg_end (last (p # ps)) < sq)" using last 2 by auto
    moreover have "rq_hole_loop sq (p # ps) = (sg_end p, if ps \<noteq> [] then rq_cnts ps else (-1, -1))" using 2 by simp
    ultimately show ?thesis using 2 segs_total_card [OF ok(1)]
      by (cases "ps = []") (simp_all add: cnts_total e f f' del: rq_bytes_simps(2) rq_hole_loop.simps)
  next
    case 3
    have "seg_bytes p \<inter> {sq..} = {}" using 3 by (auto simp: seg_bytes_def)
    then have no: "x \<notin> seg_bytes p" if "sq \<le> x" for x using that by auto
    obtain h bl by' where H: "rq_hole_loop sq ps = (h, bl, by')" by (metis prod_cases3)
    have hl: "rq_hole_loop sq (p # ps) = rq_hole_loop sq ps" using 3 ok(2) by simp
    have e: "{x \<in> rq_bytes (p # ps). h < x} = {x \<in> rq_bytes ps. h < x}" "h \<in> rq_bytes (p # ps) \<longleftrightarrow> h \<in> rq_bytes ps"
      "(\<exists>x \<in> rq_bytes (p # ps). h < x) \<longleftrightarrow> (\<exists>x \<in> rq_bytes ps. h < x)"
      "filter (\<lambda>s. h < sg_start s) (p # ps) = filter (\<lambda>s. h < sg_start s) ps" if "sq \<le> h"
      using that no 3 ok(2) by auto
    show ?thesis
    proof (cases "ps = [] \<or> sg_end (last ps) < sq")
      case True
      have c: "p # ps = [] \<or> sg_end (last (p # ps)) < sq" using True 3 by auto
      show ?thesis using Cons.IH [OF ok(1)] unfolding hl H prod.case if_P [OF c] if_P [OF True] .
    next
      case False
      then show ?thesis using Cons.IH [OF ok(1)] e unfolding hl H by (simp only: prod.case if_False list.discI last_ConsR) auto
    qed
  qed
qed simp

text \<open>
  \<open>nexthole\<close> finds the first byte at or after a sequence number that has not been received, with the numbers of blocks
  and bytes above it (-1 if there are none), and answers -1 exactly beyond the last block.
\<close>

theorem rq_nexthole_first_missing:
  assumes "rq_ok r"
  shows "case fst (rq_nexthole sq r) of (h, blks, bytes) \<Rightarrow>
     if rq_empty r \<or> rq_maxseq r < sq then h = -1 \<and> blks = -1 \<and> bytes = -1
     else sq \<le> h \<and> {sq..<h} \<subseteq> rq_bytes (rq_fifo r) \<and> h \<notin> rq_bytes (rq_fifo r) \<and>
       (if \<exists>x \<in> rq_bytes (rq_fifo r). h < x
        then bytes = int (card {x \<in> rq_bytes (rq_fifo r). h < x}) \<and>
             blks = int (length (filter (\<lambda>s. h < sg_start s) (rq_fifo r)))
        else blks = -1 \<and> bytes = -1)"
proof -
  have "segs_ok (rq_fifo r)" using assms by (simp add: rq_ok_def)
  from hole_loop [OF this, of sq] show ?thesis
    by (cases "rq_fifo r = []") (simp_all add: rq_nexthole_def rq_empty_def rq_maxseq_def)
qed

definition demo_rq :: rqueue where
  "demo_rq = (case rq_add 5 9 0 0 (rq_new 1) of Inr (fl, r) \<Rightarrow> r | Inl e \<Rightarrow> rq_new 1)"

lemma demo_rq: "rq_fifo demo_rq = [\<lparr>sg_id = 0, sg_start = 5, sg_end = 9, sg_pflags = 0, sg_rqflags = 0, sg_cnt = 1\<rparr>]" "rq_lifo demo_rq = [0]"
  "rq_ok demo_rq"
  by (simp_all add: demo_rq_def rq_add_def rq_new_def rq_ok_def ids_ok_def segs_ok_Cons)

theorem rq_nexthole_first_missing_witness:
  "fst (fst (rq_nexthole 6 demo_rq)) = 9"
proof -
  have "fst (fst (rq_nexthole 6 demo_rq)) \<notin> rq_bytes (rq_fifo demo_rq)" "{6..<fst (fst (rq_nexthole 6 demo_rq))} \<subseteq> rq_bytes (rq_fifo demo_rq)"
    "6 \<le> fst (fst (rq_nexthole 6 demo_rq))"
    using rq_nexthole_first_missing [OF demo_rq(3), of 6] by (auto simp: rq_empty_def rq_maxseq_def demo_rq split: prod.splits if_splits)
  then show ?thesis by (auto simp: demo_rq seg_bytes_def)
qed

text \<open>
  \<open>gensack\<close> reports as many different blocks as there are, up to the limit; every one is a block of
  received bytes that cannot be extended on either side.
\<close>

theorem rq_gensack_reports_blocks:
  assumes "rq_ok r"
  shows "length (rq_gensack m r) = min m (length (rq_fifo r)) \<and> distinct (rq_gensack m r) \<and>
    (\<forall>x \<in> set (rq_gensack m r). \<exists>a b. x = Some (a, b) \<and> a < b \<and> {a..<b} \<subseteq> rq_bytes (rq_fifo r) \<and>
       a - 1 \<notin> rq_bytes (rq_fifo r) \<and> b \<notin> rq_bytes (rq_fifo r))"
proof -
  let ?f = "\<lambda>i. find (\<lambda>s. sg_id s = i) (rq_fifo r)"
  have segs: "segs_ok (rq_fifo r)" and ids: "distinct (map sg_id (rq_fifo r))" "distinct (rq_lifo r)" "set (rq_lifo r) = sg_id ` set (rq_fifo r)"
    using assms by (simp_all add: rq_ok_def ids_ok_def)
  have found: "\<exists>s. ?f i = Some s \<and> s \<in> set (rq_fifo r) \<and> sg_id s = i" if "i \<in> set (rq_lifo r)" for i
  proof (cases "?f i")
    case None
    then show ?thesis using that ids(3) by (auto simp: find_None_iff)
  next
    case (Some s)
    then show ?thesis by (auto simp: find_Some_iff)
  qed
  have len: "length (rq_lifo r) = length (rq_fifo r)"
    using ids distinct_card [of "rq_lifo r"] distinct_card [of "map sg_id (rq_fifo r)"] by simp
  have inj: "i = j" if ij: "i \<in> set (rq_lifo r)" "j \<in> set (rq_lifo r)"
    and eq: "map_option (\<lambda>s. (sg_start s, sg_end s)) (?f i) = map_option (\<lambda>s. (sg_start s, sg_end s)) (?f j)" for i j
  proof -
    obtain s t where st: "?f i = Some s" "s \<in> set (rq_fifo r)" "sg_id s = i" "?f j = Some t" "t \<in> set (rq_fifo r)" "sg_id t = j"
      using found ij by blast
    with eq have "covered (sg_start s) (sg_end s) t" by (simp add: covered_def)
    then have "t = s" using exact_excludes [OF segs st(2) refl refl st(5)] by blast
    with st show ?thesis by simp
  qed
  have "inj_on (\<lambda>i. map_option (\<lambda>s. (sg_start s, sg_end s)) (?f i)) (set (take m (rq_lifo r)))"
    using inj by (intro inj_onI) (meson in_set_takeD)
  then have "distinct (rq_gensack m r)" using ids(2) by (simp add: rq_gensack_def distinct_map)
  moreover have "\<exists>a b. x = Some (a, b) \<and> a < b \<and> {a..<b} \<subseteq> rq_bytes (rq_fifo r) \<and> a - 1 \<notin> rq_bytes (rq_fifo r) \<and> b \<notin> rq_bytes (rq_fifo r)"
    if x: "x \<in> set (rq_gensack m r)" for x
  proof -
    obtain i where i: "i \<in> set (rq_lifo r)" "x = map_option (\<lambda>s. (sg_start s, sg_end s)) (?f i)"
      using x by (auto simp: rq_gensack_def dest: in_set_takeD)
    obtain s where s: "?f i = Some s" "s \<in> set (rq_fifo r)" using found [OF i(1)] by blast
    have "x = Some (sg_start s, sg_end s)" using i(2) s(1) by simp
    then show ?thesis using block_edges [OF segs s(2)] segs_ok_pos [OF segs s(2)] unfolding seg_bytes_def by blast
  qed
  ultimately show ?thesis by (simp add: rq_gensack_def len)
qed

theorem rq_gensack_reports_blocks_witness:
  "rq_gensack 4 demo_rq = [Some (5, 9)]"
  using rq_gensack_reports_blocks [OF demo_rq(3), of 4] by (simp add: rq_gensack_def demo_rq)

end
