(* ===== verification/Tcp_Sender.thy ===== *)
theory Tcp_Sender
  imports Timer
begin

text \<open>
  The senders of TCP: class \<open>TcpAgent\<close> (Tahoe) of \<open>tcp/tcp.h\<close> and \<open>tcp/tcp.cc\<close>, and the
  classes derived from it in \<open>tcp/tcp-reno.cc\<close> and \<open>tcp/tcp-newreno.cc\<close>. The parameters that are
  bound to Tcl are a record of their own, with the class of the agent, which selects the virtual functions;
  \<open>wnd_init_\<close>, \<open>wnd_init_option_\<close> and \<open>decrease_num_\<close> are in the state because the code assigns
  them. Sequence numbers count segments. A double is a real number, an int an integer that is not wrapped
  around, but the \<open>short\<close> of the estimator of the round-trip time is. A segment that is sent, and the calls
  of the application and of Tcl, are appended to \<open>tc_out\<close>. A timer is its status and the time at which it
  expires; what \<open>resched\<close> and \<open>force_cancel\<close> do in the scheduler is in the theory Timer.
\<close>

section \<open>Parameters\<close>

datatype tcp_class = TahoeTcp | RenoTcp | NewRenoTcp

record tcp_window_conf =
  cf_wnd :: real
  cf_wnd_const :: real
  cf_wnd_th :: real
  cf_wnd_option :: int
  cf_increase_num :: real
  cf_maxcwnd :: int
  cf_k_parameter :: real
  cf_l_parameter :: real
  cf_precision_reduce :: bool
  cf_low_window :: int
  cf_high_window :: int
  cf_high_p :: real
  cf_high_decrease :: real
  cf_max_ssthresh :: int
  cf_cwnd_range :: int
  cf_delay_growth :: bool
  cf_control_increase :: bool
  cf_QOption :: bool
  cf_EnblRTTCtr :: bool

record tcp_rtt_conf = tcp_window_conf +
  cf_tcp_tick :: real
  cf_srtt_init :: int
  cf_rttvar_init :: int
  cf_rtxcur_init :: real
  cf_T_SRTT_BITS :: nat
  cf_T_RTTVAR_BITS :: nat
  cf_rttvar_exp :: nat
  cf_maxrto :: real
  cf_minrto :: real
  cf_ts_resetRTO :: bool
  cf_timerfix :: bool
  cf_rfc2988 :: bool
  cf_ts_option :: bool
  cf_ts_option_size :: int

record tcp_send_conf = tcp_rtt_conf +
  cf_class :: tcp_class
  cf_size :: int
  cf_tcpip_base_hdr_size :: int
  cf_useHeaders :: bool
  cf_overhead :: real
  cf_maxburst :: int
  cf_syn :: bool
  cf_max_connects :: int
  cf_ecn :: bool
  cf_old_ecn :: bool
  cf_SetCWRonRetransmit :: bool
  cf_numdupacks :: int
  cf_numdupacksFrac :: int
  cf_singledup :: bool
  cf_noFastRetrans :: bool
  cf_aggressive_maxburst :: bool
  cf_slow_start_restart :: bool
  cf_restart_bugfix :: bool

record tcp_conf = tcp_send_conf +
  cf_bug_fix :: bool
  cf_less_careful :: bool
  cf_exitFastRetrans :: bool
  cf_bugfix_ack :: bool
  cf_bugfix_ts :: bool
  cf_bugfix_ss :: bool
  cf_frto_enabled :: bool
  cf_sfrto_enabled :: bool
  cf_spurious_response :: int
  cf_eln :: bool
  cf_eln_rxmit_thresh :: int
  cf_qs_enabled :: bool
  cf_rate_request :: int
  cf_tcp_qs_recovery :: bool
  cf_qs_request_mode :: int
  cf_qs_thresh :: int
  cf_qs_rtt :: int
  cf_rate_function :: int
  cf_defttl :: int
  cf_newreno_changes :: int
  cf_newreno_changes1 :: bool
  cf_partial_window_deflation :: bool
  cf_exit_recovery_fix :: bool
  cf_uniform :: "nat \<Rightarrow> real"
  cf_random_ttl :: "nat \<Rightarrow> int"

section \<open>Packets and state\<close>

datatype qs_state = QS_DISABLE | QS_REQUEST | QS_RESPONSE

datatype tcp_reason = REASON_NONE | TCP_REASON_TIMEOUT | TCP_REASON_DUPACK | TCP_REASON_PARTIALACK

record tcp_pkt =
  tp_seqno :: int
  tp_ts :: real
  tp_ts_echo :: real
  tp_reason :: tcp_reason
  tp_last_rtt :: int
  tp_size :: int
  tp_qs :: bool
  tp_ect :: bool
  tp_cong_action :: bool
  tp_ecnecho :: bool
  tp_qs_flag :: qs_state
  tp_qs_ttl :: int
  tp_qs_rate :: int

text \<open>An acknowledgement that arrives.\<close>

record tcp_ack =
  ta_seqno :: int
  ta_ts :: real
  ta_ts_echo :: real
  ta_ecnecho :: bool
  ta_cong_action :: bool
  ta_eln :: bool
  ta_no_ts :: bool
  ta_qs_flag :: qs_state
  ta_qs_ttl :: int
  ta_qs_rate :: int

text \<open>\<open>send\<close>, \<open>idle\<close> and \<open>finish\<close>, in the order of the calls.\<close>

datatype tcp_out = Send tcp_pkt | Idle | Done

datatype cwnd_action = CWND_ACTION_NONE | CWND_ACTION_DUPACK | CWND_ACTION_TIMEOUT | CWND_ACTION_ECN | CWND_ACTION_EXITED

datatype close_flag = CLOSE_SSTHRESH_HALF | CLOSE_CWND_HALF | CLOSE_CWND_RESTART | CLOSE_CWND_INIT | CLOSE_CWND_ONE
  | THREE_QUARTER_SSTHRESH | CLOSE_CWND_HALF_WAY | CWND_HALF_WITH_MIN | TCP_IDLE | NO_OUTSTANDING_DATA

record stimer =
  st_status :: timer_status
  st_at :: real

record hstcp =
  hst_low_p :: real
  hst_dec1 :: real
  hst_dec2 :: real
  hst_p1 :: real
  hst_p2 :: real
  hst_cwnd_last :: real
  hst_increase_last :: real

record qoption =
  qo_T_last :: int
  qo_T_prev :: int
  qo_T_start :: int
  qo_RTT_count :: int
  qo_RTT_prev :: int
  qo_RTT_goodcount :: int
  qo_F_counting :: bool
  qo_W_used :: int
  qo_W_timed :: int
  qo_F_full :: bool
  qo_Backoffs :: int

record tcp_counts =
  ct_ndatapack :: int
  ct_ndatabytes :: int
  ct_nackpack :: int
  ct_nrexmit :: int
  ct_nrexmitpack :: int
  ct_nrexmitbytes :: int
  ct_necnresponses :: int
  ct_ncwndcuts :: int
  ct_ncwndcuts1 :: int

record newreno =
  nr_acked :: int
  nr_new_ssthresh :: int
  nr_ack2 :: real
  nr_ack3 :: real
  nr_basertt :: real
  nr_firstpartial :: bool

text \<open>The estimate of the round-trip time and the window, then the rest of the connection.\<close>

record tcp_estimate =
  tc_t_rtt :: int
  tc_t_srtt :: int
  tc_t_rttvar :: int
  tc_t_backoff :: int
  tc_t_rtxcur :: real
  tc_use_rtt :: bool
  tc_boot_time :: real

record tcp_window = tcp_estimate +
  tc_cwnd :: real
  tc_ssthresh :: int
  tc_count :: int
  tc_fcnt :: real
  tc_awnd :: real
  tc_first_decrease :: bool
  tc_last_cwnd_action :: cwnd_action
  tc_decrease_num :: real
  tc_wnd_init :: real
  tc_wnd_init_option :: int
  tc_wnd_restart :: real
  tc_cong_action :: bool
  tc_hstcp :: hstcp
  tc_qo :: qoption
  tc_ct :: tcp_counts
  tc_dupwnd :: int

record tcp = tcp_window +
  tc_t_seqno :: int
  tc_curseq :: int
  tc_maxseq :: int
  tc_highest_ack :: int
  tc_last_ack :: int
  tc_prev_highest_ack :: int
  tc_dupacks :: int
  tc_recover :: int
  tc_rtt_active :: bool
  tc_rtt_seq :: int
  tc_rtt_ts :: real
  tc_firstsent :: real
  tc_lastreset :: real
  tc_closed :: bool
  tc_ts_peer :: real
  tc_ts_echo :: real
  tc_tss :: "real list option"
  tc_tss_size :: int
  tc_syn_connects :: int
  tc_ecn_burst :: bool
  tc_ecn_backoff :: bool
  tc_ect :: bool
  tc_eln_last_rxmit :: int
  tc_qs_requested :: bool
  tc_qs_approved :: bool
  tc_qs_window :: int
  tc_qs_cwnd :: int
  tc_ttl_diff :: int
  tc_frto :: int
  tc_pipe_prev :: int
  tc_nr :: newreno
  tc_rtx :: stimer
  tc_delsnd :: stimer
  tc_burstsnd :: stimer
  tc_draw :: nat
  tc_out :: "tcp_out list"


section \<open>Timers and random numbers\<close>

definition st_resched :: "real \<Rightarrow> real \<Rightarrow> stimer" where
  "st_resched now delay = \<lparr>st_status = TIMER_PENDING, st_at = now + delay\<rparr>"

definition st_force_cancel :: "stimer \<Rightarrow> stimer" where
  "st_force_cancel t = (if st_status t = TIMER_PENDING then t\<lparr>st_status := TIMER_IDLE\<rparr> else t)"

definition tcp_uniform :: "tcp_conf \<Rightarrow> real \<Rightarrow> tcp \<Rightarrow> real \<times> tcp" where
  "tcp_uniform c r s = (r * cf_uniform c (tc_draw s), s\<lparr>tc_draw := Suc (tc_draw s)\<rparr>)"

section \<open>The retransmission timer\<close>

definition rtt_init :: "tcp_conf \<Rightarrow> tcp \<Rightarrow> tcp" where
  "rtt_init c s = s\<lparr>tc_t_rtt := 0,
     tc_t_srtt := push_bit (cf_T_SRTT_BITS c) (trunc (of_int (cf_srtt_init c) / cf_tcp_tick c)),
     tc_t_rttvar := push_bit (cf_T_RTTVAR_BITS c) (trunc (of_int (cf_rttvar_init c) / cf_tcp_tick c)),
     tc_t_rtxcur := cf_rtxcur_init c, tc_t_backoff := 1\<rparr>"

definition rto_scaled :: "tcp_conf \<Rightarrow> tcp \<Rightarrow> real" where
  "rto_scaled c s =
     (if cf_rfc2988 c
      then if tc_t_rtxcur s < cf_minrto c \<and> \<not> tc_use_rtt s then cf_minrto c * of_int (tc_t_backoff s)
           else tc_t_rtxcur s * of_int (tc_t_backoff s)
      else let t = tc_t_rtxcur s * of_int (tc_t_backoff s) in if t < cf_minrto c then cf_minrto c else t)"

definition rtt_timeout :: "tcp_conf \<Rightarrow> tcp \<Rightarrow> (real \<times> tcp) res" where
  "rtt_timeout c s =
     (let t1 = rto_scaled c s;
          t2 = (if t1 > cf_maxrto c then cf_maxrto c else t1)
      in if t2 < 2 * cf_tcp_tick c
         then if t2 < 0 then Fail Exit
              else if tc_use_rtt s \<and> t2 < cf_tcp_tick c then Ok (cf_tcp_tick c, s\<lparr>tc_use_rtt := False\<rparr>)
              else Ok (2 * cf_tcp_tick c, s\<lparr>tc_use_rtt := False\<rparr>)
         else Ok (t2, s\<lparr>tc_use_rtt := False\<rparr>))"

definition rtt_sample :: "tcp_conf \<Rightarrow> real \<Rightarrow> real \<Rightarrow> tcp \<Rightarrow> int" where
  "rtt_sample c now tao s =
     (let r = (if cf_ts_option c then trunc (tao / cf_tcp_tick c + 1 / 2)
               else let sendtime = now - tao + tc_boot_time s;
                        tickoff = fmod sendtime (cf_tcp_tick c)
                    in trunc ((tao + tickoff) / cf_tcp_tick c))
      in if r < 1 then 1 else r)"

text \<open>\<open>delta\<close> is a \<open>short\<close>.\<close>

definition rtt_smooth :: "tcp_conf \<Rightarrow> int \<Rightarrow> int \<Rightarrow> int \<Rightarrow> int \<times> int" where
  "rtt_smooth c rtt srtt rttvar =
     (if srtt \<noteq> 0
      then let d0 = wrap_s16 (rtt - drop_bit (cf_T_SRTT_BITS c) srtt);
               a = srtt + d0;
               d1 = (if d0 < 0 then wrap_s16 (- d0) else d0);
               d2 = wrap_s16 (d1 - drop_bit (cf_T_RTTVAR_BITS c) rttvar);
               b = rttvar + d2
           in (if a \<le> 0 then 1 else a, if b \<le> 0 then 1 else b)
      else (push_bit (cf_T_SRTT_BITS c) rtt, push_bit (cf_T_RTTVAR_BITS c - 1) rtt))"

definition rtt_update :: "tcp_conf \<Rightarrow> real \<Rightarrow> real \<Rightarrow> tcp \<Rightarrow> tcp" where
  "rtt_update c now tao s =
     (let rtt = rtt_sample c now tao s;
          (srtt, rttvar) = rtt_smooth c rtt (tc_t_srtt s) (tc_t_rttvar s);
          k = cf_rttvar_exp c + cf_T_SRTT_BITS c - cf_T_RTTVAR_BITS c
      in s\<lparr>tc_t_rtt := rtt, tc_t_srtt := srtt, tc_t_rttvar := rttvar,
           tc_t_rtxcur := of_int (drop_bit (cf_T_SRTT_BITS c) (push_bit k rttvar + srtt)) * cf_tcp_tick c\<rparr>)"

definition rtt_backoff :: "tcp_conf \<Rightarrow> tcp \<Rightarrow> tcp res" where
  "rtt_backoff c s =
     res_bind (if tc_t_backoff s < 64 then Ok (True, s)
               else if cf_rfc2988 c then res_bind (rtt_timeout c s) (\<lambda>(t, s1). Ok (t < cf_maxrto c, s1))
               else Ok (False, s))
       (\<lambda>(b, s1).
          let s2 = (if b then s1\<lparr>tc_t_backoff := push_bit 1 (tc_t_backoff s1)\<rparr> else s1)
          in Ok (if tc_t_backoff s2 > 8
                 then s2\<lparr>tc_t_rttvar := tc_t_rttvar s2 + drop_bit (cf_T_SRTT_BITS c) (tc_t_srtt s2), tc_t_srtt := 0\<rparr>
                 else s2))"

definition set_rtx_timer :: "tcp_conf \<Rightarrow> real \<Rightarrow> tcp \<Rightarrow> tcp res" where
  "set_rtx_timer c now s =
     res_bind (rtt_timeout c s) (\<lambda>(t, s1). Ok (s1\<lparr>tc_rtx := st_resched now t\<rparr>))"

definition cancel_rtx_timer :: "tcp \<Rightarrow> tcp" where
  "cancel_rtx_timer s = s\<lparr>tc_rtx := st_force_cancel (tc_rtx s)\<rparr>"

definition cancel_timers :: "tcp \<Rightarrow> tcp" where
  "cancel_timers s = s\<lparr>tc_rtx := st_force_cancel (tc_rtx s), tc_burstsnd := st_force_cancel (tc_burstsnd s),
     tc_delsnd := st_force_cancel (tc_delsnd s)\<rparr>"

definition reset_rtx_timer :: "tcp_conf \<Rightarrow> real \<Rightarrow> bool \<Rightarrow> bool \<Rightarrow> tcp \<Rightarrow> tcp res" where
  "reset_rtx_timer c now mild backoff s =
     res_bind (if backoff then rtt_backoff c s else Ok s) (\<lambda>s1.
       res_bind (set_rtx_timer c now s1) (\<lambda>s2.
         Ok ((if mild then s2 else s2\<lparr>tc_t_seqno := tc_highest_ack s2 + 1\<rparr>)\<lparr>tc_rtt_active := False\<rparr>)))"

definition newtimer :: "tcp_conf \<Rightarrow> real \<Rightarrow> tcp_ack \<Rightarrow> tcp \<Rightarrow> tcp res" where
  "newtimer c now p s =
     (if tc_t_seqno s > ta_seqno p \<or> ta_seqno p < tc_maxseq s \<or> tc_cwnd s < 1 then set_rtx_timer c now s
      else Ok (cancel_rtx_timer s))"

section \<open>The window\<close>

definition force_wnd :: "int \<Rightarrow> tcp \<Rightarrow> int" where
  "force_wnd num s = tc_recover s + num - tc_highest_ack s"

definition window :: "tcp_conf \<Rightarrow> tcp \<Rightarrow> int" where
  "window c s =
     (case cf_class c of
        TahoeTcp \<Rightarrow>
          if tc_frto s = 2
          then if of_int (force_wnd 2 s) < cf_wnd c then force_wnd 2 s else trunc (cf_wnd c)
          else if tc_cwnd s < cf_wnd c then trunc (tc_cwnd s) else trunc (cf_wnd c)
      | _ \<Rightarrow>
          let win = (if tc_frto s = 2 then force_wnd 2 s else trunc (tc_cwnd s) + tc_dupwnd s)
          in if win > trunc (cf_wnd c) then trunc (cf_wnd c) else win)"

definition windowd :: "tcp_conf \<Rightarrow> tcp \<Rightarrow> real" where
  "windowd c s =
     (case cf_class c of
        TahoeTcp \<Rightarrow> if tc_cwnd s < cf_wnd c then tc_cwnd s else cf_wnd c
      | _ \<Rightarrow> let win = tc_cwnd s + of_int (tc_dupwnd s) in if win > cf_wnd c then cf_wnd c else win)"

definition initial_window :: "tcp_conf \<Rightarrow> tcp \<Rightarrow> real res" where
  "initial_window c s =
     (if tc_qs_cwnd s \<noteq> 0 then Ok (of_int (tc_qs_cwnd s))
      else if tc_wnd_init_option s = 1 then Ok (tc_wnd_init s)
      else if tc_wnd_init_option s = 2
      then Ok (if cf_size c \<le> 1095 then 4 else if cf_size c < 2190 then 3 else 2)
      else Fail Abort)"

definition set_initial_window :: "tcp_conf \<Rightarrow> tcp \<Rightarrow> tcp res" where
  "set_initial_window c s =
     (if cf_syn c \<and> cf_delay_growth c then Ok (s\<lparr>tc_cwnd := 1, tc_syn_connects := 0\<rparr>)
      else res_bind (initial_window c s) (\<lambda>w. Ok (s\<lparr>tc_cwnd := w\<rparr>)))"

text \<open>\<open>log\<close> is the natural logarithm.\<close>

definition hstcp_init :: "tcp_conf \<Rightarrow> hstcp \<Rightarrow> hstcp" where
  "hstcp_init c h =
     (let low_p = 1.5 / of_int (cf_low_window c * cf_low_window c);
          highLowWin = ln (of_int (cf_high_window c)) - ln (of_int (cf_low_window c));
          highLowP = ln (cf_high_p c) - ln low_p
      in h\<lparr>hst_low_p := low_p,
           hst_dec1 := 0.5 - ln (of_int (cf_low_window c)) * (cf_high_decrease c - 0.5) / highLowWin,
           hst_dec2 := (cf_high_decrease c - 0.5) / highLowWin,
           hst_p1 := ln low_p - ln (of_int (cf_low_window c)) * highLowP / highLowWin,
           hst_p2 := highLowP / highLowWin\<rparr>)"

definition limited_slow_start :: "real \<Rightarrow> int \<Rightarrow> real \<Rightarrow> real" where
  "limited_slow_start cwnd max_ssthresh increment =
     (if max_ssthresh \<le> 0 then increment
      else let round = trunc (cwnd / (of_int max_ssthresh / 2));
               increment1 = (if round > 0 then 1 / of_int round else 0)
           in if increment < increment1 then increment1 else increment)"

definition numdupacks :: "tcp_conf \<Rightarrow> real \<Rightarrow> int res" where
  "numdupacks c cwnd =
     (if cf_numdupacksFrac c = 0 then Fail Div_By_Zero
      else let cwndfraction = c_div (trunc cwnd) (cf_numdupacksFrac c)
           in Ok (if cf_numdupacks c > cwndfraction then cf_numdupacks c else cwndfraction))"

definition decrease_param :: "tcp \<Rightarrow> real" where
  "decrease_param s = hst_dec1 (tc_hstcp s) + ln (tc_cwnd s) * hst_dec2 (tc_hstcp s)"

definition increase_param :: "tcp_conf \<Rightarrow> tcp \<Rightarrow> real \<times> tcp" where
  "increase_param c s =
     (let h = tc_hstcp s; cwnd = tc_cwnd s
      in if cwnd \<le> of_int (cf_low_window c) then (1 / cwnd, s)
         else if cwnd \<ge> hst_cwnd_last h \<and> cwnd < hst_cwnd_last h + of_int (cf_cwnd_range c)
         then (hst_increase_last h / cwnd, s)
         else let p = exp (hst_p1 h + ln cwnd * hst_p2 h);
                  increase = cwnd * cwnd * p / (1 / decrease_param s - 0.5)
              in (increase / cwnd, s\<lparr>tc_hstcp := h\<lparr>hst_cwnd_last := cwnd, hst_increase_last := increase\<rparr>\<rparr>))"

text \<open>Options 2 to 5 add \<open>f\<close> to a fraction until it exceeds the window.\<close>

definition grow_fraction :: "real \<Rightarrow> tcp \<Rightarrow> tcp" where
  "grow_fraction f0 s =
     (let f = f0 + tc_fcnt s
      in if f > tc_cwnd s then s\<lparr>tc_fcnt := 0, tc_cwnd := tc_cwnd s + 1\<rparr> else s\<lparr>tc_fcnt := f\<rparr>)"

definition slow_start_limit :: "tcp_conf \<Rightarrow> real \<Rightarrow> tcp \<Rightarrow> real" where
  "slow_start_limit c increment s =
     (if (tc_last_cwnd_action s = CWND_ACTION_NONE \<or> tc_last_cwnd_action s = CWND_ACTION_TIMEOUT) \<and> cf_max_ssthresh c > 0
      then limited_slow_start (tc_cwnd s) (cf_max_ssthresh c) increment else increment)"

definition srtt_seconds :: "tcp_conf \<Rightarrow> tcp \<Rightarrow> real" where
  "srtt_seconds c s = of_int (drop_bit (cf_T_SRTT_BITS c) (tc_t_srtt s)) * cf_tcp_tick c"

definition congestion_avoidance :: "tcp_conf \<Rightarrow> tcp \<Rightarrow> tcp res" where
  "congestion_avoidance c s =
     (if cf_wnd_option c = 0 then
        Ok (if of_int (tc_count s + 1) \<ge> tc_cwnd s then s\<lparr>tc_count := 0, tc_cwnd := tc_cwnd s + 1\<rparr>
            else s\<lparr>tc_count := tc_count s + 1\<rparr>)
      else if cf_wnd_option c = 1 then
        Ok (s\<lparr>tc_cwnd := tc_cwnd s + slow_start_limit c (cf_increase_num c / tc_cwnd s) s\<rparr>)
      else if cf_wnd_option c = 2 then
        Ok (grow_fraction (srtt_seconds c s * srtt_seconds c s * cf_wnd_const c) s)
      else if cf_wnd_option c = 3 then Ok (grow_fraction (tc_awnd s * tc_awnd s * cf_wnd_const c) s)
      else if cf_wnd_option c = 4 then Ok (grow_fraction (tc_awnd s * cf_wnd_const c) s)
      else if cf_wnd_option c = 5 then Ok (grow_fraction (srtt_seconds c s * cf_wnd_const c) s)
      else if cf_wnd_option c = 6 then
        Ok (s\<lparr>tc_cwnd := tc_cwnd s + cf_increase_num c / (tc_cwnd s * (tc_cwnd s powr cf_k_parameter c))\<rparr>)
      else if cf_wnd_option c = 8 then
        (case increase_param c s of (increment, s1) \<Rightarrow>
           Ok (s1\<lparr>tc_cwnd := tc_cwnd s1 + slow_start_limit c increment s1\<rparr>))
      else Fail Abort)"

definition opencwnd :: "tcp_conf \<Rightarrow> tcp \<Rightarrow> tcp res" where
  "opencwnd c s =
     res_bind (if tc_cwnd s < of_int (tc_ssthresh s) then Ok (s\<lparr>tc_cwnd := tc_cwnd s + 1\<rparr>)
               else congestion_avoidance c s)
       (\<lambda>s1. Ok (if cf_maxcwnd c \<noteq> 0 \<and> trunc (tc_cwnd s1) > cf_maxcwnd c
                 then s1\<lparr>tc_cwnd := of_int (cf_maxcwnd c)\<rparr> else s1))"

text \<open>\<open>win\<close>, \<open>halfwin\<close> and \<open>decreasewin\<close> of \<open>slowdown\<close>, and the new \<open>decrease_num_\<close>.\<close>

definition slowdown_highspeed :: "tcp_conf \<Rightarrow> tcp \<Rightarrow> bool" where
  "slowdown_highspeed c s \<longleftrightarrow> cf_wnd_option c = 8 \<and> tc_cwnd s > of_int (cf_low_window c)"

definition slowdown_dnum :: "tcp_conf \<Rightarrow> tcp \<Rightarrow> real" where
  "slowdown_dnum c s = (if slowdown_highspeed c s then decrease_param s else tc_decrease_num s)"

definition slowdown_win :: "tcp_conf \<Rightarrow> tcp \<Rightarrow> real" where
  "slowdown_win c s = (if cf_precision_reduce c then windowd c s else of_int (window c s))"

definition slowdown_halfwin :: "tcp_conf \<Rightarrow> tcp \<Rightarrow> real" where
  "slowdown_halfwin c s =
     (if cf_precision_reduce c then windowd c s / 2 else of_int (c_div (window c s) 2))"

definition slowdown_decreasewin :: "tcp_conf \<Rightarrow> tcp \<Rightarrow> real" where
  "slowdown_decreasewin c s =
     (if cf_precision_reduce c
      then if cf_wnd_option c = 6
           then windowd c s - (1 - tc_decrease_num s) * (windowd c s powr cf_l_parameter c)
           else if slowdown_highspeed c s then windowd c s - decrease_param s * windowd c s
           else tc_decrease_num s * windowd c s
      else of_int (trunc
            (if cf_wnd_option c = 6
             then of_int (window c s) - (1 - tc_decrease_num s) * (of_int (window c s) powr cf_l_parameter c)
             else if slowdown_highspeed c s then windowd c s - decrease_param s * windowd c s
             else tc_decrease_num s * of_int (window c s))))"

definition slowdown_ssthresh :: "tcp_conf \<Rightarrow> close_flag set \<Rightarrow> tcp \<Rightarrow> int" where
  "slowdown_ssthresh c how s =
     (let t = (if CLOSE_SSTHRESH_HALF \<in> how
               then if tc_first_decrease s \<or> tc_cwnd s < of_int (tc_ssthresh s) \<or> tc_last_cwnd_action s = CWND_ACTION_TIMEOUT
                    then trunc (slowdown_halfwin c s) else trunc (slowdown_decreasewin c s)
               else if THREE_QUARTER_SSTHRESH \<in> how \<and> of_int (tc_ssthresh s) < 3 * tc_cwnd s / 4
               then trunc (3 * tc_cwnd s / 4) else tc_ssthresh s)
      in if t < 2 then 2 else t)"

definition slowdown_cwnd :: "tcp_conf \<Rightarrow> close_flag set \<Rightarrow> tcp \<Rightarrow> real" where
  "slowdown_cwnd c how s =
     (if CLOSE_CWND_HALF \<in> how
      then if tc_first_decrease s \<or> tc_cwnd s < of_int (tc_ssthresh s) \<or> slowdown_dnum c s = 1 / 2
           then slowdown_halfwin c s else slowdown_decreasewin c s
      else if CWND_HALF_WITH_MIN \<in> how
      then if slowdown_decreasewin c s < 1 then 1 else slowdown_decreasewin c s
      else if CLOSE_CWND_RESTART \<in> how then of_int (trunc (tc_wnd_restart s))
      else if CLOSE_CWND_INIT \<in> how then of_int (trunc (tc_wnd_init s))
      else if CLOSE_CWND_ONE \<in> how then 1
      else if CLOSE_CWND_HALF_WAY \<in> how
      then let w = of_int (qo_W_used (tc_qo s));
               x = w + slowdown_dnum c s * (slowdown_win c s - w)
           in if x < 1 then 1 else x
      else tc_cwnd s)"

definition slowdown :: "tcp_conf \<Rightarrow> close_flag set \<Rightarrow> tcp \<Rightarrow> tcp" where
  "slowdown c how s =
     (let n = tc_ct s
      in s\<lparr>tc_cwnd := slowdown_cwnd c how s, tc_ssthresh := slowdown_ssthresh c how s,
           tc_decrease_num := slowdown_dnum c s, tc_fcnt := 0, tc_count := 0, tc_first_decrease := False,
           tc_cong_action := tc_cong_action s \<or>
             how \<inter> {CLOSE_CWND_HALF, CLOSE_CWND_RESTART, CLOSE_CWND_INIT, CLOSE_CWND_ONE} \<noteq> {},
           tc_ct := n\<lparr>ct_ncwndcuts := ct_ncwndcuts n + 1,
                      ct_ncwndcuts1 := ct_ncwndcuts1 n + (if TCP_IDLE \<notin> how \<and> NO_OUTSTANDING_DATA \<notin> how then 1 else 0)\<rparr>\<rparr>)"

definition ecn :: "tcp_conf \<Rightarrow> int \<Rightarrow> tcp \<Rightarrow> tcp res" where
  "ecn c seqno s =
     (if seqno > tc_recover s \<or> tc_last_cwnd_action s = CWND_ACTION_TIMEOUT
      then let s1 = s\<lparr>tc_recover := tc_maxseq s, tc_last_cwnd_action := CWND_ACTION_ECN\<rparr>
           in res_bind (if tc_cwnd s1 \<le> 1
                        then if tc_ecn_backoff s1 then rtt_backoff c s1 else Ok (s1\<lparr>tc_ecn_backoff := True\<rparr>)
                        else Ok (s1\<lparr>tc_ecn_backoff := False\<rparr>))
                (\<lambda>s2. let s3 = slowdown c {CLOSE_CWND_HALF, CLOSE_SSTHRESH_HALF} s2; n = tc_ct s3
                      in Ok (s3\<lparr>tc_ct := n\<lparr>ct_necnresponses := ct_necnresponses n + 1\<rparr>\<rparr>))
      else Ok s)"

definition network_limited :: "tcp_conf \<Rightarrow> tcp \<Rightarrow> bool" where
  "network_limited c s \<longleftrightarrow> tc_t_seqno s > tc_prev_highest_ack s + window c s"


text \<open>The functions that \<open>slowdown\<close> and \<open>ecn\<close> have replaced, kept for other agents.\<close>

definition closecwnd_ssthresh :: "int \<Rightarrow> int" where
  "closecwnd_ssthresh t = (if t < 2 then 2 else t)"

definition closecwnd :: "tcp_conf \<Rightarrow> int \<Rightarrow> tcp \<Rightarrow> tcp res" where
  "closecwnd c how s =
     res_bind
       (if how = 0 then
          Ok (s\<lparr>tc_ssthresh := closecwnd_ssthresh (c_div (window c s) 2), tc_cwnd := of_int (trunc (tc_wnd_restart s))\<rparr>)
        else if how = 1 then
          let w = tc_decrease_num s * of_int (window c s)
          in Ok (s\<lparr>tc_cwnd := w, tc_ssthresh := closecwnd_ssthresh (trunc w)\<rparr>)
        else if how = 2 then Ok (s\<lparr>tc_cwnd := tc_wnd_init s\<rparr>)
        else if how = 3 then Ok (s\<lparr>tc_cwnd := of_int (trunc (tc_wnd_init s))\<rparr>)
        else if how = 4 then Ok (s\<lparr>tc_ssthresh := closecwnd_ssthresh (c_div (window c s) 2), tc_cwnd := 1\<rparr>)
        else Fail Abort)
       (\<lambda>s1. Ok (s1\<lparr>tc_fcnt := 0, tc_count := 0\<rparr>))"

definition quench :: "tcp_conf \<Rightarrow> int \<Rightarrow> tcp \<Rightarrow> tcp res" where
  "quench c how s =
     (if tc_highest_ack s \<ge> tc_recover s
      then closecwnd c how (s\<lparr>tc_recover := tc_maxseq s, tc_last_cwnd_action := CWND_ACTION_ECN\<rparr>)
      else Ok s)"

section \<open>Quick-Start\<close>

definition fuzzy_cast :: "real \<Rightarrow> int" where
  "fuzzy_cast f = (let temp = trunc f in if f - of_int temp \<ge> 1 - 0.000001 then trunc (f + 0.5) else temp)"

definition rate_to_Bps :: "int \<Rightarrow> int \<Rightarrow> real" where
  "rate_to_Bps rate_function rate =
     (if rate = 0 then 0 else if rate_function = 2 then 2 powr of_int rate * 5000 else of_int (rate * 10240))"

definition Bps_to_rate :: "int \<Rightarrow> real \<Rightarrow> int" where
  "Bps_to_rate rate_function Bps =
     (if Bps = 0 then 0
      else if rate_function = 2
      then let r = fuzzy_cast (ln (Bps / 5000) / ln 2) in if r \<ge> 1 then r else 0
      else c_div (trunc Bps) 10240)"

definition headersize :: "tcp_conf \<Rightarrow> int" where
  "headersize c = cf_tcpip_base_hdr_size c + (if cf_ts_option c then cf_ts_option_size c else 0)"

text \<open>The rate that a SYN asks for.\<close>

definition qs_rate_request :: "tcp_conf \<Rightarrow> tcp \<Rightarrow> int" where
  "qs_rate_request c s =
     (let unsent = tc_curseq s - tc_maxseq s - 1;
          dataout = c_div (unsent * (cf_size c + headersize c)) 1024;
          qs_rr = cf_rate_request c
      in if cf_qs_request_mode c = 1 \<and> cf_qs_rtt c > 0
         then if unsent < cf_qs_thresh c then 0
              else if c_div (dataout * 1000) (cf_qs_rtt c) < qs_rr then c_div (dataout * 1000) (cf_qs_rtt c) else qs_rr
         else qs_rr)"

definition endQuickStart :: "tcp_conf \<Rightarrow> tcp \<Rightarrow> tcp res" where
  "endQuickStart c s =
     (let s1 = s\<lparr>tc_qs_approved := False, tc_qs_cwnd := 0, tc_qs_window := tc_maxseq s\<rparr>;
          new_cwnd = tc_maxseq s1 - tc_last_ack s1
      in if new_cwnd > 1 \<and> of_int new_cwnd < tc_cwnd s1
         then res_bind (initial_window c s1) (\<lambda>w. Ok (s1\<lparr>tc_cwnd := if of_int new_cwnd < w then w else of_int new_cwnd\<rparr>))
         else Ok s1)"

definition processQuickStart :: "tcp_conf \<Rightarrow> real \<Rightarrow> tcp_ack \<Rightarrow> tcp \<Rightarrow> tcp res" where
  "processQuickStart c now p s =
     (let s1 = s\<lparr>tc_qs_requested := False, tc_qs_approved := False\<rparr>
      in if ta_qs_flag p = QS_RESPONSE \<and> ta_qs_ttl p = tc_ttl_diff s1 \<and> ta_qs_rate p > 0
         then let app_rate = trunc (rate_to_Bps (cf_rate_function c) (ta_qs_rate p) * (now - ta_ts_echo p)
                                      / of_int (cf_size c + headersize c))
              in res_bind (initial_window c s1) (\<lambda>w.
                   Ok (if of_int app_rate > w then s1\<lparr>tc_qs_cwnd := app_rate, tc_qs_approved := True\<rparr> else s1))
         else Ok s1)"

section \<open>Sending\<close>

text \<open>The table of time stamps of \<open>bugfix_ts_\<close>, with its accesses out of bounds.\<close>

definition tss_at :: "int \<Rightarrow> int \<Rightarrow> real list \<Rightarrow> real res" where
  "tss_at seqno sz t =
     (if sz = 0 then Fail Div_By_Zero
      else let i = c_mod seqno sz in if 0 \<le> i \<and> i < int (length t) then Ok (t ! nat i) else Fail Bad_Index)"

definition tss_put :: "int \<Rightarrow> int \<Rightarrow> real \<Rightarrow> real list \<Rightarrow> real list res" where
  "tss_put seqno sz v t =
     (if sz = 0 then Fail Div_By_Zero
      else let i = c_mod seqno sz in if 0 \<le> i \<and> i < int (length t) then Ok (t[nat i := v]) else Fail Bad_Index)"

primrec tss_copy :: "int \<Rightarrow> int \<Rightarrow> real list \<Rightarrow> nat \<Rightarrow> real list res" where
  "tss_copy h sz t 0 = Ok (replicate (nat (sz * 2)) 0)"
| "tss_copy h sz t (Suc n) =
     res_bind (tss_copy h sz t n) (\<lambda>nt.
       res_bind (tss_at (h + int n) sz t) (\<lambda>v. tss_put (h + int n) (sz * 2) v nt))"

definition tss_store :: "tcp_conf \<Rightarrow> int \<Rightarrow> real \<Rightarrow> tcp \<Rightarrow> tcp res" where
  "tss_store c seqno ts s =
     (let t0 = (if cf_bugfix_ts c \<and> tc_tss s = None then Some (replicate (nat (tc_tss_size s)) 0) else tc_tss s);
          sz = tc_tss_size s
      in case t0 of
           None \<Rightarrow> Ok s
         | Some t \<Rightarrow>
             res_bind (if cf_bugfix_ts c \<and> of_int (seqno - tc_highest_ack s) > of_int sz * (0.9::real)
                       then res_bind (tss_copy (tc_highest_ack s) sz t (nat sz)) (\<lambda>nt. Ok (nt, sz * 2))
                       else Ok (t, sz))
               (\<lambda>(t1, sz1). res_bind (tss_put seqno sz1 ts t1) (\<lambda>t2. Ok (s\<lparr>tc_tss := Some t2, tc_tss_size := sz1\<rparr>))))"

text \<open>
  The header of a segment, as far as \<open>output\<close> fills it in for every segment, and the flag
  \<open>cong_action_\<close> that goes with it.
\<close>

definition output_pkt :: "tcp_conf \<Rightarrow> real \<Rightarrow> int \<Rightarrow> tcp_reason \<Rightarrow> tcp \<Rightarrow> tcp_pkt \<times> tcp" where
  "output_pkt c now seqno reason s =
     (let cong = tc_cong_action s \<and> (\<not> seqno < tc_maxseq s \<or> cf_SetCWRonRetransmit c)
      in (\<lparr>tp_seqno = seqno, tp_ts = now, tp_ts_echo = tc_ts_peer s, tp_reason = reason,
            tp_last_rtt = trunc (of_int (tc_t_rtt s) * cf_tcp_tick c * 1000), tp_size = cf_size c,
            tp_qs = tc_qs_approved s, tp_ect = cf_ecn c, tp_cong_action = cong, tp_ecnecho = False,
            tp_qs_flag = QS_DISABLE, tp_qs_ttl = 0, tp_qs_rate = 0\<rparr>,
          if cong then s\<lparr>tc_cong_action := False\<rparr> else s))"

text \<open>The request for a Quick-Start that a SYN carries.\<close>

definition output_qs :: "tcp_conf \<Rightarrow> tcp_pkt \<times> tcp \<Rightarrow> tcp_pkt \<times> tcp" where
  "output_qs c ps =
     (case ps of (p, s) \<Rightarrow>
        if qs_rate_request c s > 0
        then let t = cf_random_ttl c (tc_draw s)
             in (p\<lparr>tp_qs_flag := QS_REQUEST, tp_qs_ttl := t,
                   tp_qs_rate := Bps_to_rate (cf_rate_function c) (of_int (qs_rate_request c s * 1024))\<rparr>,
                 s\<lparr>tc_draw := Suc (tc_draw s), tc_ttl_diff := c_mod (cf_defttl c - t) 256, tc_qs_requested := True\<rparr>)
        else (p\<lparr>tp_qs_flag := QS_DISABLE\<rparr>, s))"

text \<open>Segment 0, which stands for the SYN: the number of data bytes, and \<open>None\<close> when the connection is given up.\<close>

definition output_syn :: "tcp_conf \<Rightarrow> tcp_pkt \<times> tcp \<Rightarrow> int \<times> (tcp_pkt option) \<times> tcp" where
  "output_syn c ps =
     (case ps of (p0, s0) \<Rightarrow>
        let s1 = (if cf_syn c
                  then s0\<lparr>tc_curseq := tc_curseq s0 + (if tc_maxseq s0 = -1 then 1 else 0),
                          tc_syn_connects := tc_syn_connects s0 + 1\<rparr> else s0);
            p1 = (if cf_syn c then p0\<lparr>tp_size := cf_tcpip_base_hdr_size c\<rparr> else p0);
            databytes = (if cf_syn c then 0 else cf_size c)
        in if cf_syn c \<and> cf_max_connects c > 0 \<and> tc_syn_connects s1 > cf_max_connects c
           then (databytes, None, s1\<lparr>tc_curseq := 0\<rparr>)
           else let p2 = (if cf_ecn c then p1\<lparr>tp_ecnecho := True, tp_ect := False\<rparr> else p1);
                    (p3, s2) = (if cf_qs_enabled c then output_qs c (p2, s1) else (p2, s1))
                in (databytes, Some p3, s2))"

definition output_header :: "tcp_conf \<Rightarrow> real \<Rightarrow> int \<Rightarrow> tcp_reason \<Rightarrow> tcp \<Rightarrow> int \<times> (tcp_pkt option) \<times> tcp" where
  "output_header c now seqno reason s =
     (case output_pkt c now seqno reason s of (p, s1) \<Rightarrow>
        if seqno = 0 then output_syn c (p, s1)
        else (cf_size c, Some (if cf_useHeaders c then p\<lparr>tp_size := tp_size p + headersize c\<rparr> else p), s1))"

text \<open>From \<open>send\<close> to the end: the counters, the highest segment sent and the segment that is timed.\<close>

definition output_sent :: "real \<Rightarrow> int \<Rightarrow> int \<Rightarrow> tcp_pkt \<Rightarrow> tcp \<Rightarrow> tcp" where
  "output_sent now seqno databytes p s =
     (let n = (tc_ct s)\<lparr>ct_ndatapack := ct_ndatapack (tc_ct s) + 1, ct_ndatabytes := ct_ndatabytes (tc_ct s) + databytes\<rparr>;
          out = tc_out s @ Send p # (if seqno = tc_curseq s \<and> seqno > tc_maxseq s then [Idle] else [])
      in if seqno > tc_maxseq s
         then s\<lparr>tc_ct := n, tc_out := out, tc_maxseq := seqno, tc_rtt_active := True,
                tc_rtt_seq := if \<not> tc_rtt_active s \<and> seqno > tc_rtt_seq s then seqno else tc_rtt_seq s,
                tc_rtt_ts := if \<not> tc_rtt_active s \<and> seqno > tc_rtt_seq s then now else tc_rtt_ts s\<rparr>
         else s\<lparr>tc_ct := n\<lparr>ct_nrexmitpack := ct_nrexmitpack n + 1, ct_nrexmitbytes := ct_nrexmitbytes n + databytes\<rparr>,
                tc_out := out\<rparr>)"

definition output_send :: "tcp_conf \<Rightarrow> real \<Rightarrow> int \<Rightarrow> int \<Rightarrow> tcp_pkt \<Rightarrow> tcp \<Rightarrow> tcp res" where
  "output_send c now seqno databytes p s =
     (let s1 = output_sent now seqno databytes p s
      in if st_status (tc_rtx s1) \<noteq> TIMER_PENDING \<or> tc_highest_ack s = tc_maxseq s then set_rtx_timer c now s1 else Ok s1)"

definition tcp_output :: "tcp_conf \<Rightarrow> real \<Rightarrow> int \<Rightarrow> tcp_reason \<Rightarrow> tcp \<Rightarrow> tcp res" where
  "tcp_output c now seqno reason s =
     res_bind (tss_store c seqno now s) (\<lambda>s1.
       case output_header c now seqno reason s1 of
         (_, None, s2) \<Rightarrow> Ok (s2\<lparr>tc_rtx := st_resched now 10000\<rparr>)
       | (databytes, Some p, s2) \<Rightarrow> output_send c now seqno databytes p s2)"

section \<open>Quiescence\<close>

definition tcp_ticks :: "tcp_conf \<Rightarrow> real \<Rightarrow> int" where
  "tcp_ticks c now = trunc (now / cf_tcp_tick c + 1 / 2)"

definition reset_qoption :: "tcp_conf \<Rightarrow> real \<Rightarrow> tcp \<Rightarrow> tcp" where
  "reset_qoption c now s = s\<lparr>tc_qo := (tc_qo s)\<lparr>qo_T_start := tcp_ticks c now, qo_RTT_count := 0, qo_RTT_prev := 0,
     qo_RTT_goodcount := 1, qo_F_counting := False, qo_W_timed := -1, qo_F_full := False, qo_Backoffs := 0\<rparr>\<rparr>"

text \<open>The sender is limited by the application: half of the part of the window that is not used is given up.\<close>

definition slowdown_limited :: "tcp_conf \<Rightarrow> tcp \<Rightarrow> tcp" where
  "slowdown_limited c s =
     slowdown c {CLOSE_CWND_HALF_WAY, TCP_IDLE} (slowdown c {THREE_QUARTER_SSTHRESH, TCP_IDLE} s)"

definition note_used :: "tcp \<Rightarrow> tcp" where
  "note_used s = s\<lparr>tc_qo := (tc_qo s)\<lparr>qo_W_used := max (qo_W_used (tc_qo s)) (tc_t_seqno s - tc_highest_ack s)\<rparr>\<rparr>"

definition qoption_idle :: "tcp_conf \<Rightarrow> int \<Rightarrow> int \<Rightarrow> tcp \<Rightarrow> tcp res" where
  "qoption_idle c tcp_now rto s =
     (if tcp_now - qo_T_last (tc_qo s) \<ge> rto
      then if rto = 0 then Fail Div_By_Zero
           else let n = nat (c_div (tcp_now - qo_T_last (tc_qo s)) rto);
                    s1 = (slowdown c {CWND_HALF_WITH_MIN, TCP_IDLE} ^^ n) (slowdown c {THREE_QUARTER_SSTHRESH, TCP_IDLE} s)
                in Ok (s1\<lparr>tc_qo := (tc_qo s1)\<lparr>qo_T_prev := tcp_now, qo_W_used := 0\<rparr>\<rparr>)
      else Ok s)"

definition qoption_limited :: "tcp_conf \<Rightarrow> int \<Rightarrow> int \<Rightarrow> tcp \<Rightarrow> tcp" where
  "qoption_limited c tcp_now rto s =
     (if tc_t_seqno s = tc_highest_ack s + window c s
      then s\<lparr>tc_qo := (tc_qo s)\<lparr>qo_T_prev := tcp_now, qo_W_used := 0\<rparr>\<rparr>
      else if tc_t_seqno s = tc_curseq s - 1
      then let s1 = note_used s
           in if tcp_now - qo_T_prev (tc_qo s1) \<ge> rto
              then let s2 = slowdown_limited c s1 in s2\<lparr>tc_qo := (tc_qo s2)\<lparr>qo_T_prev := tcp_now, qo_W_used := 0\<rparr>\<rparr>
              else s1
      else s)"

definition rtt_counting_idle :: "tcp_conf \<Rightarrow> int \<Rightarrow> int \<Rightarrow> tcp \<Rightarrow> tcp" where
  "rtt_counting_idle c tcp_now rtt s =
     (let q = tc_qo s
      in if tcp_now - qo_T_last q \<ge> 2 * rtt
         then let RTTs = c_div ((tcp_now - qo_T_last q) * qo_RTT_goodcount q) (rtt * 2) - qo_Backoffs q;
                  s1 = s\<lparr>tc_qo := q\<lparr>qo_Backoffs := 0\<rparr>\<rparr>
              in if RTTs > 0
                 then ((\<lambda>t. let t1 = slowdown c {CWND_HALF_WITH_MIN, TCP_IDLE} t
                            in t1\<lparr>tc_qo := (tc_qo t1)\<lparr>qo_RTT_prev := qo_RTT_count (tc_qo t1), qo_W_used := 0\<rparr>\<rparr>) ^^ nat RTTs)
                        (slowdown c {THREE_QUARTER_SSTHRESH, TCP_IDLE} s1)
                 else s1
         else s)"

definition rtt_counting_window :: "int \<Rightarrow> int \<Rightarrow> qoption \<Rightarrow> qoption" where
  "rtt_counting_window tcp_now rtt q =
     (if tcp_now - qo_T_start q \<ge> 2 * rtt
      then q\<lparr>qo_RTT_goodcount := if qo_RTT_count q > qo_RTT_goodcount q \<or> qo_F_full q
                                 then max (qo_RTT_count q) 1 else qo_RTT_goodcount q,
             qo_RTT_prev := qo_RTT_prev q - qo_RTT_count q, qo_RTT_count := 0, qo_T_start := tcp_now, qo_F_full := False\<rparr>
      else q)"

definition rtt_counting_limited :: "tcp_conf \<Rightarrow> tcp \<Rightarrow> tcp" where
  "rtt_counting_limited c s =
     (if tc_t_seqno s = tc_highest_ack s + window c s
      then s\<lparr>tc_qo := (tc_qo s)\<lparr>qo_W_used := 0, qo_F_full := True, qo_RTT_prev := qo_RTT_count (tc_qo s)\<rparr>\<rparr>
      else if tc_t_seqno s = tc_curseq s - 1
      then let s1 = note_used s
           in if qo_RTT_count (tc_qo s1) - qo_RTT_prev (tc_qo s1) \<ge> 2
              then let s2 = slowdown_limited c s1
                   in s2\<lparr>tc_qo := (tc_qo s2)\<lparr>qo_RTT_prev := qo_RTT_count (tc_qo s2), qo_Backoffs := qo_Backoffs (tc_qo s2) + 1,
                                              qo_W_used := 0\<rparr>\<rparr>
              else s1
      else s)"

definition rtt_counting :: "tcp_conf \<Rightarrow> real \<Rightarrow> tcp \<Rightarrow> tcp" where
  "rtt_counting c now s =
     (let tcp_now = tcp_ticks c now;
          rtt = max 1 (drop_bit (cf_T_SRTT_BITS c) (tc_t_srtt s));
          s1 = rtt_counting_idle c tcp_now rtt s;
          s2 = s1\<lparr>tc_qo := rtt_counting_window tcp_now rtt ((tc_qo s1)\<lparr>qo_T_last := tcp_now\<rparr>)\<rparr>;
          s3 = rtt_counting_limited c s2
      in if \<not> qo_F_counting (tc_qo s3)
         then s3\<lparr>tc_qo := (tc_qo s3)\<lparr>qo_W_timed := tc_t_seqno s3, qo_F_counting := True\<rparr>\<rparr> else s3)"

definition process_qoption_after_send :: "tcp_conf \<Rightarrow> real \<Rightarrow> tcp \<Rightarrow> tcp res" where
  "process_qoption_after_send c now s =
     (let tcp_now = tcp_ticks c now; rto = trunc (tc_t_rtxcur s / cf_tcp_tick c)
      in if \<not> cf_EnblRTTCtr c
         then res_bind (qoption_idle c tcp_now rto s) (\<lambda>s1.
                Ok (qoption_limited c tcp_now rto (s1\<lparr>tc_qo := (tc_qo s1)\<lparr>qo_T_last := tcp_now\<rparr>\<rparr>)))
         else Ok (rtt_counting c now s))"

definition process_qoption_after_ack :: "tcp_conf \<Rightarrow> int \<Rightarrow> tcp \<Rightarrow> tcp" where
  "process_qoption_after_ack c seqno s =
     (let q = tc_qo s
      in if qo_F_counting q
         then if seqno \<ge> qo_W_timed q
              then s\<lparr>tc_qo := q\<lparr>qo_RTT_count := qo_RTT_count q + 1, qo_F_counting := False\<rparr>\<rparr>
              else if tc_dupacks s = cf_numdupacks c then s\<lparr>tc_qo := q\<lparr>qo_RTT_count := qo_RTT_count q + 1\<rparr>\<rparr> else s
         else s)"


end
