(* ===== verification/Tcp_Agent.thy ===== *)
theory Tcp_Agent
  imports Tcp_Sender
begin

text \<open>
  The entry points of the senders of TCP: what the application asks for, the acknowledgements that arrive
  (\<open>recv\<close>) and the timers (\<open>timeout\<close>), with the loop that fills the window (\<open>send_much\<close>) and
  the reactions to duplicate acknowledgements. The lemmas that come before a definition say which fields the
  procedures it calls may change.
\<close>

section \<open>What the procedures change\<close>

lemma set_rtx_timerE:
  assumes "set_rtx_timer c now s = Inr s'"
  obtains t where "s' = s\<lparr>tc_use_rtt := False, tc_rtx := st_resched now t\<rparr>"
  using assms by (auto simp: set_rtx_timer_def rtt_timeout_def Let_def split: if_splits)

lemma tss_storeE:
  assumes "tss_store c seqno ts s = Inr s'"
  obtains a b where "s' = s\<lparr>tc_tss := a, tc_tss_size := b\<rparr>"
proof -
  have "s' = s\<lparr>tc_tss := tc_tss s', tc_tss_size := tc_tss_size s'\<rparr>"
    using assms by (auto simp: tss_store_def Let_def split: option.splits prod.splits if_splits)
  then show ?thesis using that by blast
qed

lemma output_qsE:
  assumes "output_qs c (p, s) = (p', s')"
  obtains u v w where "s' = s\<lparr>tc_draw := u, tc_ttl_diff := v, tc_qs_requested := w\<rparr>"
    "tp_seqno p' = tp_seqno p" "tp_reason p' = tp_reason p"
proof -
  have "s' = s\<lparr>tc_draw := tc_draw s', tc_ttl_diff := tc_ttl_diff s', tc_qs_requested := tc_qs_requested s'\<rparr>"
    "tp_seqno p' = tp_seqno p" "tp_reason p' = tp_reason p"
    using assms by (auto simp: output_qs_def Let_def split: if_splits)
  then show ?thesis using that by blast
qed

lemma output_header_None:
  assumes "output_header c now seqno reason s = (d, None, s')"
  obtains u k where "s' = s\<lparr>tc_cong_action := u, tc_curseq := 0, tc_syn_connects := k\<rparr>"
    "seqno = 0" "cf_syn c" "cf_max_connects c > 0"
proof -
  have "s' = s\<lparr>tc_cong_action := tc_cong_action s', tc_curseq := 0, tc_syn_connects := tc_syn_connects s'\<rparr>"
    "seqno = 0" "cf_syn c" "cf_max_connects c > 0"
    using assms
    by (auto simp: output_header_def output_pkt_def output_syn_def Let_def split: if_splits prod.splits)
  then show ?thesis using that by blast
qed

lemma output_header_Some:
  assumes "output_header c now seqno reason s = (d, Some p, s')"
  obtains u k i v w where
    "s' = s\<lparr>tc_cong_action := u,
            tc_curseq := tc_curseq s + (if seqno = 0 \<and> cf_syn c \<and> tc_maxseq s = -1 then 1 else 0), tc_syn_connects := k,
            tc_draw := i, tc_ttl_diff := v, tc_qs_requested := w\<rparr>"
    "tp_seqno p = seqno" "tp_reason p = reason"
proof -
  have "s' = s\<lparr>tc_cong_action := tc_cong_action s',
               tc_curseq := tc_curseq s + (if seqno = 0 \<and> cf_syn c \<and> tc_maxseq s = -1 then 1 else 0),
               tc_syn_connects := tc_syn_connects s',
               tc_draw := tc_draw s', tc_ttl_diff := tc_ttl_diff s', tc_qs_requested := tc_qs_requested s'\<rparr>
      \<and> tp_seqno p = seqno \<and> tp_reason p = reason"
    using assms
    by (auto simp: output_header_def output_pkt_def output_syn_def Let_def split: if_splits prod.splits elim!: output_qsE)
  then show ?thesis using that by blast
qed

lemma output_sendE:
  assumes "output_send c now seqno d p s = Inr s'"
  obtains ct act rs rt ur rx where
    "s' = s\<lparr>tc_ct := ct, tc_out := tc_out s @ Send p # (if seqno = tc_curseq s \<and> seqno > tc_maxseq s then [Idle] else []),
            tc_maxseq := max (tc_maxseq s) seqno, tc_rtt_active := act, tc_rtt_seq := rs, tc_rtt_ts := rt,
            tc_use_rtt := ur, tc_rtx := rx\<rparr>"
    "st_status rx = TIMER_PENDING"
    "seqno > tc_maxseq s \<Longrightarrow> act" "seqno \<le> tc_maxseq s \<Longrightarrow> act = tc_rtt_active s \<and> rs = tc_rtt_seq s \<and> rt = tc_rtt_ts s"
    "tc_rtt_active s \<Longrightarrow> rs = tc_rtt_seq s \<and> rt = tc_rtt_ts s"
    "\<not> tc_rtt_active s \<Longrightarrow> seqno > tc_maxseq s \<Longrightarrow> rs = max (tc_rtt_seq s) seqno"
proof -
  define o1 where "o1 = output_sent now seqno d p s"
  define act rs rt where "act = tc_rtt_active o1" and "rs = tc_rtt_seq o1" and "rt = tc_rtt_ts o1"
  have o: "o1 =
      s\<lparr>tc_ct := tc_ct o1,
        tc_out := tc_out s @ Send p # (if seqno = tc_curseq s \<and> seqno > tc_maxseq s then [Idle] else []),
        tc_maxseq := max (tc_maxseq s) seqno, tc_rtt_active := act, tc_rtt_seq := rs, tc_rtt_ts := rt\<rparr>"
    by (auto simp: o1_def act_def rs_def rt_def output_sent_def Let_def)
  have f: "seqno > tc_maxseq s \<Longrightarrow> act"
      "seqno \<le> tc_maxseq s \<Longrightarrow> act = tc_rtt_active s \<and> rs = tc_rtt_seq s \<and> rt = tc_rtt_ts s"
      "tc_rtt_active s \<Longrightarrow> rs = tc_rtt_seq s \<and> rt = tc_rtt_ts s"
      "\<not> tc_rtt_active s \<Longrightarrow> seqno > tc_maxseq s \<Longrightarrow> rs = max (tc_rtt_seq s) seqno"
    by (auto simp: o1_def act_def rs_def rt_def output_sent_def Let_def)
  note that' = that
  show ?thesis
  proof (cases "st_status (tc_rtx o1) \<noteq> TIMER_PENDING \<or> tc_highest_ack s = tc_maxseq s")
    case True
    then have "set_rtx_timer c now o1 = Inr s'"
      using assms unfolding output_send_def Let_def o1_def by simp
    then obtain t where t: "s' = o1\<lparr>tc_use_rtt := False, tc_rtx := st_resched now t\<rparr>"
      by (rule set_rtx_timerE)
    show ?thesis
      by (rule that' [where ct = "tc_ct o1" and act = act and rs = rs and rt = rt and ur = False and rx = "st_resched now t"])
         (unfold t, rule arg_cong [OF o, of "\<lambda>x. x\<lparr>tc_use_rtt := False, tc_rtx := st_resched now t\<rparr>"],
           simp add: st_resched_def, (use f in blast)+)
  next
    case False
    then have t: "s' = o1" "st_status (tc_rtx o1) = TIMER_PENDING"
      using assms unfolding output_send_def Let_def o1_def by auto
    have r: "tc_rtx o1 = tc_rtx s" by (simp add: o1_def output_sent_def Let_def)
    show ?thesis
      by (rule that' [where ct = "tc_ct o1" and act = act and rs = rs and rt = rt and ur = "tc_use_rtt s" and rx = "tc_rtx s"])
         (unfold t (1), rule trans [OF o], simp, simp add: r [symmetric] t (2), (use f in blast)+)
  qed
qed

text \<open>
  A segment 0 that is one too many gives up the connection; any other call sends one segment and leaves the
  retransmission timer pending.
\<close>

lemma tcp_outputE:
  assumes "tcp_output c now seqno reason s = Inr s'"
  obtains
    (Abort) a b u k where "seqno = 0" "cf_syn c" "cf_max_connects c > 0"
      "s' = s\<lparr>tc_tss := a, tc_tss_size := b, tc_cong_action := u, tc_curseq := 0, tc_syn_connects := k,
              tc_rtx := st_resched now 10000\<rparr>"
  | (Sent) p a b u cs k i v w ct act rs rt ur rx where "tp_seqno p = seqno" "tp_reason p = reason"
      "cs = tc_curseq s + (if seqno = 0 \<and> cf_syn c \<and> tc_maxseq s = -1 then 1 else 0)"
      "s' = s\<lparr>tc_tss := a, tc_tss_size := b, tc_cong_action := u, tc_curseq := cs, tc_syn_connects := k,
              tc_draw := i, tc_ttl_diff := v, tc_qs_requested := w, tc_ct := ct,
              tc_out := tc_out s @ Send p # (if seqno = cs \<and> seqno > tc_maxseq s then [Idle] else []),
              tc_maxseq := max (tc_maxseq s) seqno, tc_rtt_active := act, tc_rtt_seq := rs, tc_rtt_ts := rt,
              tc_use_rtt := ur, tc_rtx := rx\<rparr>"
      "st_status rx = TIMER_PENDING"
      "seqno > tc_maxseq s \<Longrightarrow> act"
      "seqno \<le> tc_maxseq s \<Longrightarrow> act = tc_rtt_active s \<and> rs = tc_rtt_seq s \<and> rt = tc_rtt_ts s"
      "tc_rtt_active s \<Longrightarrow> rs = tc_rtt_seq s \<and> rt = tc_rtt_ts s"
      "\<not> tc_rtt_active s \<Longrightarrow> seqno > tc_maxseq s \<Longrightarrow> rs = max (tc_rtt_seq s) seqno"
proof -
  note that1 = that
  obtain s1 where t: "tss_store c seqno now s = Inr s1"
    using assms by (auto simp: tcp_output_def)
  obtain d po s2 where h: "output_header c now seqno reason s1 = (d, po, s2)"
    by (metis prod_cases3)
  obtain a b where s1: "s1 = s\<lparr>tc_tss := a, tc_tss_size := b\<rparr>"
    using t by (rule tss_storeE)
  show ?thesis
  proof (cases po)
    case None
    have "s' = s2\<lparr>tc_rtx := st_resched now 10000\<rparr>"
      using assms t h None by (simp add: tcp_output_def)
    with h None s1 show ?thesis
      by (auto elim!: output_header_None intro: that1(1))
  next
    case (Some p)
    then have o: "output_send c now seqno d p s2 = Inr s'"
      using assms t h by (simp add: tcp_output_def)
    obtain u k i v w where s2: "s2 = s1\<lparr>tc_cong_action := u,
          tc_curseq := tc_curseq s1 + (if seqno = 0 \<and> cf_syn c \<and> tc_maxseq s1 = -1 then 1 else 0), tc_syn_connects := k,
          tc_draw := i, tc_ttl_diff := v, tc_qs_requested := w\<rparr>"
      and p: "tp_seqno p = seqno" "tp_reason p = reason"
      by (rule output_header_Some [OF h [unfolded Some]])
    show ?thesis
      by (rule output_sendE [OF o]; rule that1(2) [OF p refl]) (simp_all add: s1 s2)
  qed
qed

text \<open>\<open>slowdown\<close> and the quiescence option touch the window and its counters only.\<close>

definition only_window :: "tcp \<Rightarrow> tcp \<Rightarrow> bool" where
  "only_window s s' \<longleftrightarrow> (\<exists>cw th fc cn dn fd ca ct qo.
     s' = s\<lparr>tc_cwnd := cw, tc_ssthresh := th, tc_fcnt := fc, tc_count := cn, tc_decrease_num := dn,
            tc_first_decrease := fd, tc_cong_action := ca, tc_ct := ct, tc_qo := qo\<rparr>)"

lemma only_windowE:
  assumes "only_window s s'"
  obtains cw th fc cn dn fd ca ct qo where
    "s' = s\<lparr>tc_cwnd := cw, tc_ssthresh := th, tc_fcnt := fc, tc_count := cn, tc_decrease_num := dn,
            tc_first_decrease := fd, tc_cong_action := ca, tc_ct := ct, tc_qo := qo\<rparr>"
  using assms unfolding only_window_def by blast

lemma only_windowI:
  "s' = s\<lparr>tc_cwnd := tc_cwnd s', tc_ssthresh := tc_ssthresh s', tc_fcnt := tc_fcnt s', tc_count := tc_count s',
          tc_decrease_num := tc_decrease_num s', tc_first_decrease := tc_first_decrease s',
          tc_cong_action := tc_cong_action s', tc_ct := tc_ct s', tc_qo := tc_qo s'\<rparr> \<Longrightarrow> only_window s s'"
  unfolding only_window_def by blast

lemma only_window_refl [intro, simp]: "only_window s s"
  by (rule only_windowI) simp

lemma only_window_trans [trans]: "only_window s t \<Longrightarrow> only_window t u \<Longrightarrow> only_window s u"
  by (elim only_windowE, rule only_windowI) simp

lemma only_window_slowdown [simp]: "only_window s t \<Longrightarrow> only_window s (slowdown c h t)"
  by (rule only_window_trans, assumption, rule only_windowI) (simp add: slowdown_def Let_def)

lemma only_window_qo [simp]: "only_window s t \<Longrightarrow> only_window s (t\<lparr>tc_qo := q\<rparr>)"
  by (rule only_window_trans, assumption, rule only_windowI) simp

lemma only_window_iterate [simp]:
  "(\<And>u. only_window s u \<Longrightarrow> only_window s (f u)) \<Longrightarrow> only_window s t \<Longrightarrow> only_window s ((f ^^ n) t)"
  by (induction n) simp_all

lemma only_window_limited [simp]: "only_window s t \<Longrightarrow> only_window s (slowdown_limited c t)"
  by (simp add: slowdown_limited_def)

lemma only_window_used [simp]: "only_window s t \<Longrightarrow> only_window s (note_used t)"
  by (simp add: note_used_def)

lemma only_window_qoption_idle:
  "qoption_idle c n r s = Inr s' \<Longrightarrow> only_window s s'"
  by (auto simp: qoption_idle_def Let_def split: if_splits)

lemma only_window_qoption_limited [simp]: "only_window s t \<Longrightarrow> only_window s (qoption_limited c n r t)"
  by (simp add: qoption_limited_def Let_def)

lemma only_window_rtt_counting_idle [simp]: "only_window s t \<Longrightarrow> only_window s (rtt_counting_idle c n r t)"
  by (simp add: rtt_counting_idle_def Let_def)

lemma only_window_rtt_counting_limited [simp]: "only_window s t \<Longrightarrow> only_window s (rtt_counting_limited c t)"
  by (simp add: rtt_counting_limited_def Let_def)

lemma only_window_rtt_counting [simp]: "only_window s t \<Longrightarrow> only_window s (rtt_counting c n t)"
  by (simp add: rtt_counting_def Let_def)

lemma only_window_qoption:
  "process_qoption_after_send c now s = Inr s' \<Longrightarrow> only_window s s'"
  by (auto simp: process_qoption_after_send_def Let_def split: if_splits dest: only_window_qoption_idle)

section \<open>Filling the window\<close>

lemma tcp_output_curseq:
  assumes "tcp_output c now seqno reason s = Inr s'"
  shows "tc_t_seqno s' = tc_t_seqno s" "tc_curseq s' \<le> max 0 (tc_curseq s + (if seqno = 0 then 1 else 0))"
    "seqno \<noteq> 0 \<Longrightarrow> tc_curseq s' = tc_curseq s"
proof -
  have "tc_t_seqno s' = tc_t_seqno s \<and> tc_curseq s' \<le> max 0 (tc_curseq s + (if seqno = 0 then 1 else 0)) \<and>
    (seqno \<noteq> 0 \<longrightarrow> tc_curseq s' = tc_curseq s)"
    using assms
  proof (cases rule: tcp_outputE)
    case Abort
    show ?thesis unfolding Abort(4) using Abort(1) by simp
  next
    case (Sent p a b u cs k i v w ct act rs rt ur rx)
    show ?thesis unfolding Sent(4) Sent(3) by (auto simp: max_def)
  qed
  then show "tc_t_seqno s' = tc_t_seqno s" "tc_curseq s' \<le> max 0 (tc_curseq s + (if seqno = 0 then 1 else 0))"
    "seqno \<noteq> 0 \<Longrightarrow> tc_curseq s' = tc_curseq s"
    by auto
qed

lemma only_window_curseq:
  "only_window s s' \<Longrightarrow> tc_t_seqno s' = tc_t_seqno s \<and> tc_curseq s' = tc_curseq s"
  by (elim only_windowE) simp

definition qoption_sent :: "tcp_conf \<Rightarrow> real \<Rightarrow> tcp \<Rightarrow> tcp res" where
  "qoption_sent c now s = (if cf_QOption c then process_qoption_after_send c now s else Ok s)"

lemma only_window_qoption_sent: "qoption_sent c now s = Inr s' \<Longrightarrow> only_window s s'"
  by (auto simp: qoption_sent_def only_window_qoption split: if_splits)

text \<open>The delay until the next segment of a Quick-Start window.\<close>

definition resched_quickstart :: "tcp_conf \<Rightarrow> real \<Rightarrow> int \<Rightarrow> tcp \<Rightarrow> tcp" where
  "resched_quickstart c now win s =
     (let delay = of_int (tc_t_rtt s) * cf_tcp_tick c / of_int win
      in if cf_overhead c \<noteq> 0
         then case tcp_uniform c (cf_overhead c) s of (u, s1) \<Rightarrow> s1\<lparr>tc_delsnd := st_resched now (delay + u)\<rparr>
         else s\<lparr>tc_delsnd := st_resched now delay\<rparr>)"

text \<open>With an overhead, a segment is sent after a random delay.\<close>

definition send_later :: "tcp_conf \<Rightarrow> real \<Rightarrow> tcp \<Rightarrow> tcp" where
  "send_later c now s =
     (case tcp_uniform c (cf_overhead c) s of (u, s1) \<Rightarrow> s1\<lparr>tc_delsnd := st_resched now u\<rparr>)"

text \<open>
  The body of the loop of \<open>send_much\<close>, with whether the loop goes on. When the timer of the delayed send
  is pending and nothing may be sent, the body changes nothing and the loop does not end.
\<close>

definition send_step :: "tcp_conf \<Rightarrow> real \<Rightarrow> bool \<Rightarrow> tcp_reason \<Rightarrow> int \<Rightarrow> int \<Rightarrow> int \<Rightarrow> tcp \<Rightarrow> (bool \<times> tcp) res" where
  "send_step c now force reason maxburst npackets win s =
     (if cf_overhead c = 0 \<or> force \<or> tc_qs_approved s
      then res_bind (tcp_output c now (tc_t_seqno s) reason s) (\<lambda>s1.
             res_bind (qoption_sent c now s1) (\<lambda>s2.
               let s3 = s2\<lparr>tc_t_seqno := tc_t_seqno s2 + 1\<rparr>
               in if tc_qs_approved s3 then Ok (False, resched_quickstart c now win s3)
                  else Ok (\<not> (maxburst \<noteq> 0 \<and> npackets + 1 = maxburst), s3)))
      else if st_status (tc_delsnd s) \<noteq> TIMER_PENDING
      then Ok (False, send_later c now s)
      else if maxburst \<noteq> 0 \<and> npackets = maxburst then Ok (False, s)
      else if tc_t_seqno s \<le> tc_highest_ack s + window c s then Fail No_Return
      else Ok (False, s))"

lemma send_step_curseq:
  assumes "send_step c now force reason maxburst npackets win s = Inr (True, s')"
  shows "tc_t_seqno s' = tc_t_seqno s + 1" "tc_curseq s' \<le> max 0 (tc_curseq s + (if tc_t_seqno s = 0 then 1 else 0))"
    "tc_t_seqno s \<noteq> 0 \<Longrightarrow> tc_curseq s' = tc_curseq s"
proof -
  obtain s1 s2 where s1: "tcp_output c now (tc_t_seqno s) reason s = Inr s1" and s2: "qoption_sent c now s1 = Inr s2"
    and s': "s' = s2\<lparr>tc_t_seqno := tc_t_seqno s2 + 1\<rparr>"
    using assms unfolding send_step_def Let_def by (auto split: if_split_asm)
  show "tc_t_seqno s' = tc_t_seqno s + 1" "tc_curseq s' \<le> max 0 (tc_curseq s + (if tc_t_seqno s = 0 then 1 else 0))"
    "tc_t_seqno s \<noteq> 0 \<Longrightarrow> tc_curseq s' = tc_curseq s"
    using tcp_output_curseq [OF s1] only_window_curseq [OF only_window_qoption_sent [OF s2]] by (simp_all add: s')
qed

function send_loop :: "tcp_conf \<Rightarrow> real \<Rightarrow> bool \<Rightarrow> tcp_reason \<Rightarrow> int \<Rightarrow> int \<Rightarrow> int \<Rightarrow> tcp \<Rightarrow> tcp res" where
  "send_loop c now force reason maxburst npackets win s =
     (if tc_t_seqno s \<le> tc_highest_ack s + win \<and> tc_t_seqno s < tc_curseq s
      then res_bind (send_step c now force reason maxburst npackets win s) (\<lambda>r.
             if fst r then send_loop c now force reason maxburst (npackets + 1) (window c (snd r)) (snd r)
             else Ok (snd r))
      else Ok s)"
  by pat_completeness auto
termination
proof (relation "measure (\<lambda>(c, now, force, reason, maxburst, npackets, win, s).
    nat (tc_curseq s - tc_t_seqno s + (if tc_t_seqno s \<le> 0 then 1 else 0)))", goal_cases)
  case (2 c now force reason maxburst npackets win s r)
  then have "send_step c now force reason maxburst npackets win s = Inr (True, snd r)"
    by (cases r) simp
  then show ?case
    using 2(1) send_step_curseq by (fastforce split: if_splits)
qed simp

declare send_loop.simps [simp del]

definition send_much :: "tcp_conf \<Rightarrow> real \<Rightarrow> bool \<Rightarrow> tcp_reason \<Rightarrow> int \<Rightarrow> tcp \<Rightarrow> tcp res" where
  "send_much c now force reason maxburst s =
     (if \<not> force \<and> st_status (tc_delsnd s) = TIMER_PENDING then Ok s
      else let s1 = (if tc_t_seqno s = 0 then s\<lparr>tc_firstsent := now\<rparr> else s)
           in if st_status (tc_burstsnd s1) = TIMER_PENDING then Ok s1
              else send_loop c now force reason maxburst 0 (window c s1) s1)"

definition send_one :: "tcp_conf \<Rightarrow> real \<Rightarrow> tcp \<Rightarrow> tcp res" where
  "send_one c now s =
     (if of_int (tc_t_seqno s) \<le> of_int (tc_highest_ack s) + cf_wnd c \<and> tc_t_seqno s < tc_curseq s \<and>
         of_int (tc_t_seqno s) \<le> of_int (tc_highest_ack s) + tc_cwnd s + of_int (tc_dupacks s)
      then res_bind (tcp_output c now (tc_t_seqno s) REASON_NONE s) (\<lambda>s1.
             res_bind (qoption_sent c now s1) (\<lambda>s2. Ok (s2\<lparr>tc_t_seqno := tc_t_seqno s2 + 1\<rparr>)))
      else Ok s)"

section \<open>What the application asks for\<close>

definition TCP_MAXSEQ :: int where
  "TCP_MAXSEQ = 1073741824"

definition tcp_sendmsg :: "tcp_conf \<Rightarrow> real \<Rightarrow> int \<Rightarrow> tcp \<Rightarrow> tcp res" where
  "tcp_sendmsg c now nbytes s =
     res_bind (if nbytes = -1 \<and> tc_curseq s \<le> TCP_MAXSEQ then Ok TCP_MAXSEQ
               else if cf_size c = 0 then Fail Div_By_Zero
               else Ok (tc_curseq s + (c_div nbytes (cf_size c) + (if c_mod nbytes (cf_size c) \<noteq> 0 then 1 else 0))))
       (\<lambda>n. send_much c now False REASON_NONE (cf_maxburst c) (s\<lparr>tc_curseq := n\<rparr>))"

definition tcp_advanceby :: "tcp_conf \<Rightarrow> real \<Rightarrow> int \<Rightarrow> tcp \<Rightarrow> tcp res" where
  "tcp_advanceby c now delta s =
     send_much c now False REASON_NONE (cf_maxburst c)
       (s\<lparr>tc_curseq := tc_curseq s + delta, tc_closed := tc_closed s \<and> \<not> delta > 0\<rparr>)"

definition tcp_advance :: "tcp_conf \<Rightarrow> real \<Rightarrow> int \<Rightarrow> tcp \<Rightarrow> tcp res" where
  "tcp_advance c now newseq s =
     (if newseq > tc_maxseq s then tcp_advanceby c now (newseq - tc_curseq s) s
      else tcp_advanceby c now (tc_maxseq s - tc_curseq s) s)"

definition tcp_persist :: "tcp \<Rightarrow> tcp \<Rightarrow> tcp" where
  "tcp_persist other s =
     s\<lparr>tc_cwnd := tc_cwnd other, tc_awnd := tc_awnd other, tc_ssthresh := tc_ssthresh other, tc_t_rtt := tc_t_rtt other,
       tc_t_srtt := tc_t_srtt other, tc_t_rttvar := tc_t_rttvar other, tc_t_backoff := tc_t_backoff other\<rparr>"

definition reset_counts :: tcp_counts where
  "reset_counts = \<lparr>ct_ndatapack = 0, ct_ndatabytes = 0, ct_nackpack = 0, ct_nrexmit = 0, ct_nrexmitpack = 0,
     ct_nrexmitbytes = 0, ct_necnresponses = 0, ct_ncwndcuts = 0, ct_ncwndcuts1 = 0\<rparr>"

definition reset_connection :: "tcp_conf \<Rightarrow> tcp \<Rightarrow> tcp" where
  "reset_connection c s =
     (let th = trunc (cf_wnd c)
      in s\<lparr>tc_t_seqno := 0, tc_maxseq := -1, tc_last_ack := -1, tc_highest_ack := -1,
           tc_ssthresh := if cf_max_ssthresh c > 0 \<and> cf_max_ssthresh c < th then cf_max_ssthresh c else th,
           tc_wnd_restart := 1, tc_awnd := tc_wnd_init s / 2, tc_recover := 0, tc_closed := False,
           tc_last_cwnd_action := CWND_ACTION_NONE\<rparr>)"

definition reset_options :: "tcp_conf \<Rightarrow> real \<Rightarrow> tcp \<Rightarrow> tcp" where
  "reset_options c now s =
     (let s1 = (if cf_control_increase c then s\<lparr>tc_prev_highest_ack := tc_highest_ack s\<rparr> else s);
          s2 = (if cf_wnd_option c = 8 then s1\<lparr>tc_hstcp := hstcp_init c (tc_hstcp s1)\<rparr> else s1);
          t = tcp_ticks c now
      in if cf_QOption c
         then let s3 = s2\<lparr>tc_qo := (tc_qo s2)\<lparr>qo_T_last := t, qo_T_prev := t, qo_W_used := 0\<rparr>\<rparr>
              in if cf_EnblRTTCtr c then reset_qoption c now s3 else s3
         else s2)"

definition tcp_reset :: "tcp_conf \<Rightarrow> real \<Rightarrow> tcp \<Rightarrow> tcp res" where
  "tcp_reset c now s =
     res_bind (set_initial_window c ((rtt_init c s)\<lparr>tc_rtt_seq := -1, tc_dupacks := 0, tc_curseq := 0\<rparr>)) (\<lambda>s1.
       case tcp_uniform c (cf_tcp_tick c) (reset_connection c s1) of (u, s2) \<Rightarrow>
         Ok (reset_options c now (cancel_timers
              (s2\<lparr>tc_boot_time := u, tc_first_decrease := True, tc_lastreset := now, tc_ct := reset_counts\<rparr>))))"

section \<open>New acknowledgements\<close>

definition newack_rtt :: "tcp_conf \<Rightarrow> real \<Rightarrow> tcp_ack \<Rightarrow> tcp \<Rightarrow> tcp" where
  "newack_rtt c now p s =
     (if ta_no_ts p then s
      else let unbackoff = (\<lambda>t. if \<not> tc_ect t \<or> \<not> tc_ecn_backoff t \<or> \<not> ta_ecnecho p
                                then t\<lparr>tc_t_backoff := 1, tc_ecn_backoff := False\<rparr> else t);
               s1 = (if cf_ts_option c
                     then let t = rtt_update c now (now - ta_ts_echo p) (s\<lparr>tc_ts_echo := ta_ts_echo p\<rparr>)
                          in if cf_ts_resetRTO c then unbackoff t else t
                     else s)
           in if tc_rtt_active s1 \<and> ta_seqno p \<ge> tc_rtt_seq s1
              then let t = (unbackoff s1)\<lparr>tc_rtt_active := False\<rparr>
                   in if \<not> cf_ts_option c then rtt_update c now (now - tc_rtt_ts t) t else t
              else s1)"

definition newack :: "tcp_conf \<Rightarrow> real \<Rightarrow> tcp_ack \<Rightarrow> tcp \<Rightarrow> tcp res" where
  "newack c now p s =
     res_bind (if \<not> cf_timerfix c then newtimer c now p s else Ok s) (\<lambda>s1.
       let s2 = s1\<lparr>tc_dupacks := 0, tc_last_ack := ta_seqno p, tc_prev_highest_ack := tc_highest_ack s1,
                   tc_highest_ack := ta_seqno p,
                   tc_t_seqno := if tc_t_seqno s1 < ta_seqno p + 1 then ta_seqno p + 1 else tc_t_seqno s1\<rparr>
       in res_bind (if cf_timerfix c then newtimer c now p (newack_rtt c now p s2) else Ok (newack_rtt c now p s2)) (\<lambda>s3.
            Ok (s3\<lparr>tc_awnd := tc_awnd s3 * (1 - cf_wnd_th c) + cf_wnd_th c * tc_cwnd s3\<rparr>)))"

definition spurious_timeout :: "tcp_conf \<Rightarrow> tcp \<Rightarrow> tcp" where
  "spurious_timeout c s =
     (let w = (if cf_spurious_response c = 2 then of_int (tc_ssthresh s)
               else if cf_spurious_response c = 3 then 1
               else of_int (tc_t_seqno s - tc_prev_highest_ack s))
      in s\<lparr>tc_frto := 0, tc_cwnd := w, tc_ssthresh := tc_pipe_prev s, tc_recover := tc_highest_ack s - 1\<rparr>)"

text \<open>What a new acknowledgement means for ECN, and for the detection of spurious timeouts.\<close>

definition newack_ecn :: "tcp_ack \<Rightarrow> tcp \<Rightarrow> tcp" where
  "newack_ecn p s =
     (let s1 = (if tc_ect s
                then s\<lparr>tc_ecn_backoff := tc_ecn_backoff s \<and> ta_ecnecho p, tc_ecn_burst := ta_ecnecho p\<rparr> else s)
      in if \<not> tc_ect s1 \<and> ta_ecnecho p \<and> \<not> ta_cong_action p then s1\<lparr>tc_ect := True\<rparr> else s1)"

definition newack_frto :: "tcp_conf \<Rightarrow> tcp \<Rightarrow> tcp" where
  "newack_frto c s =
     (if tc_frto s = 1
      then if of_int (tc_recover s + 1) \<ge> of_int (tc_highest_ack s) + cf_wnd c \<or> tc_recover s + 1 \<ge> tc_curseq s
           then s\<lparr>tc_frto := 0\<rparr>
           else if tc_highest_ack s = tc_recover s then s\<lparr>tc_frto := 0\<rparr>
           else s\<lparr>tc_t_seqno := tc_recover s + 1, tc_frto := 2\<rparr>
      else if tc_frto s = 2 then spurious_timeout c s else s)"

definition recv_newack_helper :: "tcp_conf \<Rightarrow> real \<Rightarrow> tcp_ack \<Rightarrow> tcp \<Rightarrow> tcp res" where
  "recv_newack_helper c now p s =
     res_bind (newack c now p s) (\<lambda>s1.
       let s2 = (if tc_qs_window s1 \<noteq> 0 \<and> tc_highest_ack s1 \<ge> tc_qs_window s1 then s1\<lparr>tc_qs_window := 0\<rparr> else s1)
       in res_bind (if (\<not> tc_ect s2 \<or> \<not> ta_ecnecho p \<or> (cf_old_ecn c \<and> tc_ecn_burst s2)) \<and>
                       (\<not> cf_control_increase c \<or> network_limited c s2)
                    then opencwnd c s2 else Ok s2) (\<lambda>s3.
            let s4 = newack_ecn p s3;
                s5 = (if tc_highest_ack s4 \<ge> tc_curseq s4 - 1 \<and> \<not> tc_closed s4
                      then s4\<lparr>tc_closed := True, tc_out := tc_out s4 @ [Done]\<rparr> else s4);
                s6 = (if cf_QOption c \<and> tc_curseq s5 = tc_highest_ack s5 + 1 then cancel_rtx_timer s5 else s5)
            in Ok (newack_frto c s6)))"

section \<open>Duplicate acknowledgements\<close>

text \<open>Whether the loss was in a Quick-Start window, which is then given up.\<close>

definition lossQuickStart :: "tcp_conf \<Rightarrow> real \<Rightarrow> tcp \<Rightarrow> (bool \<times> tcp) res" where
  "lossQuickStart c now s =
     (if tc_qs_window s \<noteq> 0 \<and> cf_tcp_qs_recovery c
      then let s1 = (slowdown c {CLOSE_CWND_INIT} s)\<lparr>tc_qs_window := 0\<rparr>
           in res_bind (tcp_output c now (tc_last_ack s1 + 1) TCP_REASON_DUPACK s1) (\<lambda>s2. Ok (True, s2))
      else Ok (False, s))"

definition tahoe_action :: "tcp_conf \<Rightarrow> real \<Rightarrow> tcp \<Rightarrow> tcp res" where
  "tahoe_action c now s =
     res_bind (lossQuickStart c now (s\<lparr>tc_recover := tc_maxseq s\<rparr>)) (\<lambda>r.
       reset_rtx_timer c now False False
         (if fst r then snd r
          else slowdown c {CLOSE_SSTHRESH_HALF, CLOSE_CWND_ONE} ((snd r)\<lparr>tc_last_cwnd_action := CWND_ACTION_DUPACK\<rparr>)))"

definition tahoe_dupack_action :: "tcp_conf \<Rightarrow> real \<Rightarrow> tcp \<Rightarrow> tcp res" where
  "tahoe_dupack_action c now s =
     (if tc_highest_ack s > tc_recover s \<or> (\<not> cf_bug_fix c \<and> \<not> cf_ecn c) \<or> (cf_bugfix_ss c \<and> tc_highest_ack s = 0)
      then tahoe_action c now s
      else if cf_ecn c \<and> tc_last_cwnd_action s = CWND_ACTION_ECN
      then reset_rtx_timer c now False False
             (slowdown c {CLOSE_CWND_ONE} (s\<lparr>tc_last_cwnd_action := CWND_ACTION_DUPACK\<rparr>))
      else if cf_bug_fix c then Ok s else tahoe_action c now s)"

definition fast_retransmit :: "tcp_conf \<Rightarrow> real \<Rightarrow> tcp \<Rightarrow> tcp res" where
  "fast_retransmit c now s =
     res_bind (tcp_output c now (tc_last_ack s + 1) TCP_REASON_DUPACK s) (\<lambda>s1. Ok (s1\<lparr>tc_dupwnd := cf_numdupacks c\<rparr>))"

definition reno_action :: "tcp_conf \<Rightarrow> real \<Rightarrow> tcp \<Rightarrow> tcp res" where
  "reno_action c now s =
     res_bind (reset_rtx_timer c now True False
                 (slowdown c {CLOSE_SSTHRESH_HALF, CLOSE_CWND_HALF}
                    (s\<lparr>tc_recover := tc_maxseq s, tc_last_cwnd_action := CWND_ACTION_DUPACK\<rparr>)))
       (fast_retransmit c now)"

text \<open>A duplicate acknowledgement soon after a congestion indication does not halve the window again.\<close>

definition reno_after_ecn :: "tcp_conf \<Rightarrow> real \<Rightarrow> tcp \<Rightarrow> tcp res" where
  "reno_after_ecn c now s =
     res_bind (reset_rtx_timer c now True False (s\<lparr>tc_last_cwnd_action := CWND_ACTION_DUPACK\<rparr>)) (fast_retransmit c now)"

definition reno_dupack_action :: "tcp_conf \<Rightarrow> real \<Rightarrow> tcp \<Rightarrow> tcp res" where
  "reno_dupack_action c now s =
     (if tc_highest_ack s > tc_recover s \<or> (\<not> cf_bug_fix c \<and> \<not> cf_ecn c) \<or>
         tc_last_cwnd_action s = CWND_ACTION_DUPACK \<or> (cf_bugfix_ss c \<and> tc_highest_ack s = 0)
      then reno_action c now s
      else if cf_ecn c \<and> tc_last_cwnd_action s = CWND_ACTION_ECN then reno_after_ecn c now s
      else if cf_bug_fix c then Ok s else reno_action c now s)"

definition newreno_action :: "tcp_conf \<Rightarrow> real \<Rightarrow> tcp \<Rightarrow> tcp res" where
  "newreno_action c now s =
     res_bind (reset_rtx_timer c now True False (s\<lparr>tc_recover := tc_maxseq s\<rparr>)) (\<lambda>s1.
       res_bind (lossQuickStart c now s1) (\<lambda>r.
         if fst r then Ok (snd r)
         else fast_retransmit c now
                (slowdown c {CLOSE_SSTHRESH_HALF, CLOSE_CWND_HALF} ((snd r)\<lparr>tc_last_cwnd_action := CWND_ACTION_DUPACK\<rparr>))))"

text \<open>The two heuristics that allow another fast retransmit before \<open>recover_\<close>.\<close>

definition newreno_heuristic :: "tcp_conf \<Rightarrow> tcp \<Rightarrow> bool res" where
  "newreno_heuristic c s =
     res_bind (if cf_bugfix_ts c
               then case tc_tss s of
                      None \<Rightarrow> Fail Null_Deref
                    | Some t \<Rightarrow> res_bind (tss_at (tc_highest_ack s) (tc_tss_size s) t) (\<lambda>v. Ok (v = tc_ts_echo s))
               else Ok False)
       (\<lambda>b. Ok (b \<or> cf_bugfix_ack c \<and> tc_cwnd s > 1 \<and> tc_highest_ack s - tc_prev_highest_ack s \<le> cf_numdupacks c))"

definition newreno_dupack_action :: "tcp_conf \<Rightarrow> real \<Rightarrow> tcp \<Rightarrow> tcp res" where
  "newreno_dupack_action c now s =
     (if tc_highest_ack s > tc_recover s \<or> (\<not> cf_bug_fix c \<and> \<not> cf_ecn c) \<or> (cf_bugfix_ss c \<and> tc_highest_ack s = 0) \<or>
         (cf_bug_fix c \<and> cf_less_careful c \<and> tc_highest_ack s = tc_recover s)
      then newreno_action c now s
      else if cf_ecn c \<and> tc_last_cwnd_action s = CWND_ACTION_ECN then reno_after_ecn c now s
      else if cf_bug_fix c
      then res_bind (newreno_heuristic c s) (\<lambda>b. if b then newreno_action c now s else Ok s)
      else newreno_action c now s)"

definition dupack_action :: "tcp_conf \<Rightarrow> real \<Rightarrow> tcp \<Rightarrow> tcp res" where
  "dupack_action c now s =
     (case cf_class c of
        TahoeTcp \<Rightarrow> tahoe_dupack_action c now s
      | RenoTcp \<Rightarrow> reno_dupack_action c now s
      | NewRenoTcp \<Rightarrow> newreno_dupack_action c now s)"

section \<open>The arrival of an acknowledgement\<close>

definition tcp_eln :: "tcp_conf \<Rightarrow> real \<Rightarrow> tcp_ack \<Rightarrow> tcp \<Rightarrow> tcp res" where
  "tcp_eln c now p s =
     (let s1 = s\<lparr>tc_dupacks := tc_dupacks s + 1\<rparr>
      in if tc_dupacks s1 = cf_eln_rxmit_thresh c \<and> ta_seqno p > tc_eln_last_rxmit s1
         then res_bind (tcp_output c now (tc_last_ack s1 + 1) TCP_REASON_DUPACK s1)
                (\<lambda>s2. Ok (s2\<lparr>tc_eln_last_rxmit := tc_last_ack s2 + 1\<rparr>))
         else send_much c now False REASON_NONE (cf_maxburst c) s1)"

definition recv_frto_helper :: "tcp_ack \<Rightarrow> tcp \<Rightarrow> tcp" where
  "recv_frto_helper p s =
     (if ta_seqno p = tc_last_ack s \<and> tc_frto s \<noteq> 0
      then s\<lparr>tc_t_seqno := tc_highest_ack s + 1, tc_cwnd := of_int (tc_frto s), tc_frto := 0, tc_dupacks := -1\<rparr> else s)"

text \<open>What the three \<open>recv\<close> functions begin with; \<open>None\<close> when the packet is of an earlier connection.\<close>

definition recv_quickstart :: "tcp_conf \<Rightarrow> real \<Rightarrow> tcp_ack \<Rightarrow> tcp \<Rightarrow> tcp res" where
  "recv_quickstart c now p s =
     res_bind (if tc_qs_approved s \<and> ta_seqno p > tc_last_ack s then endQuickStart c s else Ok s) (\<lambda>s1.
       if tc_qs_requested s1 then processQuickStart c now p s1 else Ok s1)"

definition recv_accept :: "tcp_conf \<Rightarrow> tcp_ack \<Rightarrow> tcp \<Rightarrow> tcp res" where
  "recv_accept c p s =
     (let s1 = s\<lparr>tc_ct := (tc_ct s)\<lparr>ct_nackpack := ct_nackpack (tc_ct s) + 1\<rparr>, tc_ts_peer := ta_ts p\<rparr>
      in res_bind (if ta_ecnecho p \<and> cf_ecn c then ecn c (ta_seqno p) s1 else Ok s1) (\<lambda>s2. Ok (recv_frto_helper p s2)))"

text \<open>A new acknowledgement, and the window when the first data segment may be sent.\<close>

definition recv_newack :: "tcp_conf \<Rightarrow> real \<Rightarrow> tcp_ack \<Rightarrow> tcp \<Rightarrow> tcp res" where
  "recv_newack c now p s =
     res_bind (recv_newack_helper c now p s) (\<lambda>s1.
       if tc_last_ack s1 = 0 \<and> cf_delay_growth c
       then res_bind (initial_window c s1) (\<lambda>w. Ok (s1\<lparr>tc_cwnd := w\<rparr>)) else Ok s1)"

definition tahoe_dupack :: "tcp_conf \<Rightarrow> real \<Rightarrow> tcp \<Rightarrow> tcp res" where
  "tahoe_dupack c now s =
     (let s1 = s\<lparr>tc_dupacks := tc_dupacks s + 1\<rparr>
      in if tc_dupacks s1 = cf_numdupacks c \<and> \<not> cf_noFastRetrans c then dupack_action c now s1
         else if tc_dupacks s1 < cf_numdupacks c \<and> cf_singledup c then send_one c now s1
         else Ok s1)"

definition tahoe_recv :: "tcp_conf \<Rightarrow> real \<Rightarrow> tcp_ack \<Rightarrow> tcp \<Rightarrow> tcp res" where
  "tahoe_recv c now p s =
     res_bind (recv_quickstart c now p s) (\<lambda>s1.
       if ta_ts p < tc_lastreset s1 then Ok s1
       else res_bind (recv_accept c p s1) (\<lambda>s2.
         if ta_seqno p = tc_last_ack s2 \<and> ta_eln p \<and> cf_eln c then tcp_eln c now p s2
         else res_bind (if ta_seqno p > tc_last_ack s2 then recv_newack c now p s2
                        else if ta_seqno p = tc_last_ack s2 then tahoe_dupack c now s2 else Ok s2) (\<lambda>s3.
           let s4 = (if cf_QOption c \<and> cf_EnblRTTCtr c then process_qoption_after_ack c (ta_seqno p) s3 else s3)
           in if ta_seqno p \<ge> tc_last_ack s4 \<or> cf_aggressive_maxburst c
              then send_much c now False REASON_NONE (cf_maxburst c) s4 else Ok s4)))"

definition reno_dupack :: "tcp_conf \<Rightarrow> real \<Rightarrow> tcp \<Rightarrow> tcp res" where
  "reno_dupack c now s =
     (let s1 = s\<lparr>tc_dupacks := tc_dupacks s + 1\<rparr>
      in if tc_dupacks s1 = cf_numdupacks c
         then res_bind (dupack_action c now s1) (\<lambda>s2.
                Ok (if \<not> cf_exitFastRetrans c then s2\<lparr>tc_dupwnd := cf_numdupacks c\<rparr> else s2))
         else if tc_dupacks s1 > cf_numdupacks c \<and>
                 (\<not> cf_exitFastRetrans c \<or> tc_last_cwnd_action s1 = CWND_ACTION_DUPACK)
         then let s2 = s1\<lparr>tc_dupwnd := tc_dupwnd s1 + 1\<rparr>
              in if cf_class c = NewRenoTcp \<and> cf_newreno_changes c > 0 \<and> c_mod (tc_dupacks s2) 2 = 1
                 then tcp_output c now (tc_t_seqno s2) REASON_NONE (s2\<lparr>tc_t_seqno := tc_t_seqno s2 + 1\<rparr>)
                 else Ok s2
         else if tc_dupacks s1 < cf_numdupacks c \<and> cf_singledup c then send_one c now s1
         else Ok s1)"

definition reno_new_data :: "tcp_conf \<Rightarrow> real \<Rightarrow> tcp_ack \<Rightarrow> tcp \<Rightarrow> tcp res" where
  "reno_new_data c now p s =
     (let s1 = (if tc_last_cwnd_action s = CWND_ACTION_DUPACK then s\<lparr>tc_last_cwnd_action := CWND_ACTION_EXITED\<rparr> else s)
      in recv_newack c now p (s1\<lparr>tc_dupwnd := 0\<rparr>))"

definition reno_recv :: "tcp_conf \<Rightarrow> real \<Rightarrow> tcp_ack \<Rightarrow> tcp \<Rightarrow> tcp res" where
  "reno_recv c now p s =
     res_bind (recv_quickstart c now p s) (\<lambda>s1.
       if ta_ts p < tc_lastreset s1 then Ok s1
       else res_bind (recv_accept c p s1) (\<lambda>s2.
         if ta_seqno p = tc_last_ack s2 \<and> ta_eln p \<and> cf_eln c then tcp_eln c now p s2
         else res_bind (if ta_seqno p > tc_last_ack s2 then reno_new_data c now p s2
                        else if ta_seqno p = tc_last_ack s2 then reno_dupack c now s2 else Ok s2) (\<lambda>s3.
           if (ta_seqno p \<ge> tc_last_ack s3 \<or> cf_aggressive_maxburst c) \<and>
              (tc_dupacks s3 = 0 \<or> tc_dupacks s3 > cf_numdupacks c - 1)
           then send_much c now False REASON_NONE (cf_maxburst c) s3 else Ok s3)))"

section \<open>NewReno\<close>

text \<open>\<open>dupwnd_\<close> and \<open>deflate\<close> are unsigned; \<open>deflate\<close> is positive here.\<close>

definition deflate_window :: "int \<Rightarrow> tcp \<Rightarrow> tcp" where
  "deflate_window deflate s =
     (let s1 = (if tc_dupwnd s > deflate then s\<lparr>tc_dupwnd := tc_dupwnd s - (deflate - 1)\<rparr>
                else s\<lparr>tc_cwnd := tc_cwnd s - of_int (deflate - tc_dupwnd s), tc_dupwnd := 1\<rparr>)
      in if tc_cwnd s1 < 1 then s1\<lparr>tc_cwnd := 1\<rparr> else s1)"

definition partialnewack :: "tcp_conf \<Rightarrow> tcp_ack \<Rightarrow> tcp \<Rightarrow> tcp" where
  "partialnewack c p s =
     (let s1 = (if cf_partial_window_deflation c then deflate_window (ta_seqno p - tc_last_ack s) s else s);
          s2 = s1\<lparr>tc_last_ack := ta_seqno p, tc_highest_ack := ta_seqno p,
                  tc_t_seqno := if tc_t_seqno s1 < ta_seqno p + 1 then ta_seqno p + 1 else tc_t_seqno s1\<rparr>
      in if tc_rtt_active s2 \<and> ta_seqno p \<ge> tc_rtt_seq s2 then s2\<lparr>tc_rtt_active := False, tc_t_backoff := 1\<rparr> else s2)"

definition partialnewack_helper :: "tcp_conf \<Rightarrow> real \<Rightarrow> tcp_ack \<Rightarrow> tcp \<Rightarrow> tcp res" where
  "partialnewack_helper c now p s =
     res_bind (if \<not> cf_newreno_changes1 c \<or> \<not> nr_firstpartial (tc_nr s)
               then newtimer c now p (s\<lparr>tc_nr := (tc_nr s)\<lparr>nr_firstpartial := True\<rparr>\<rparr>) else Ok s) (\<lambda>s1.
       let s2 = partialnewack c p s1 in tcp_output c now (tc_last_ack s2 + 1) REASON_NONE s2)"

definition newreno_estimate :: "tcp_conf \<Rightarrow> real \<Rightarrow> tcp \<Rightarrow> tcp" where
  "newreno_estimate c now s =
     (let n = (tc_nr s)\<lparr>nr_acked := nr_acked (tc_nr s) + 1\<rparr>
      in if nr_acked n = 1 then s\<lparr>tc_nr := n\<lparr>nr_basertt := now - tc_firstsent s\<rparr>\<rparr>
         else if nr_acked n = 2 then s\<lparr>tc_nr := n\<lparr>nr_ack2 := now\<rparr>\<rparr>
         else if nr_acked n = 3
         then let th = trunc (nr_basertt n * (of_int (cf_size c) / (now - nr_ack2 n)) / of_int (cf_size c));
                  s1 = s\<lparr>tc_nr := n\<lparr>nr_ack3 := now, nr_new_ssthresh := th\<rparr>\<rparr>
              in if cf_newreno_changes c > 0 \<and> th < tc_ssthresh s1 then s1\<lparr>tc_ssthresh := th\<rparr> else s1
         else s\<lparr>tc_nr := n\<rparr>)"

text \<open>An acknowledgement that ends fast recovery.\<close>

definition newreno_exit :: "tcp_conf \<Rightarrow> tcp_ack \<Rightarrow> tcp \<Rightarrow> tcp" where
  "newreno_exit c p s =
     (if tc_dupwnd s > 0
      then let s1 = s\<lparr>tc_dupwnd := 0\<rparr>;
               s2 = (if tc_last_cwnd_action s1 = CWND_ACTION_DUPACK then s1\<lparr>tc_last_cwnd_action := CWND_ACTION_EXITED\<rparr> else s1);
               outstanding = tc_maxseq s2 - ta_seqno p + 1
           in if cf_exit_recovery_fix c
              then s2\<lparr>tc_cwnd := if tc_ssthresh s2 < outstanding then of_int (tc_ssthresh s2) else of_int outstanding\<rparr>
              else s2
      else s)"

definition newreno_new_data :: "tcp_conf \<Rightarrow> real \<Rightarrow> tcp_ack \<Rightarrow> tcp \<Rightarrow> tcp res" where
  "newreno_new_data c now p s =
     (if ta_seqno p \<ge> tc_recover s \<or> tc_last_cwnd_action s \<noteq> CWND_ACTION_DUPACK
      then let s1 = newreno_exit c p s
           in recv_newack c now p (s1\<lparr>tc_nr := (tc_nr s1)\<lparr>nr_firstpartial := False\<rparr>\<rparr>)
      else partialnewack_helper c now p (if \<not> cf_partial_window_deflation c then s\<lparr>tc_dupwnd := 0\<rparr> else s))"

definition newreno_recv :: "tcp_conf \<Rightarrow> real \<Rightarrow> tcp_ack \<Rightarrow> tcp \<Rightarrow> tcp res" where
  "newreno_recv c now p s =
     res_bind (recv_quickstart c now p s) (\<lambda>s0.
       let s1 = newreno_estimate c now s0
       in if ta_ts p < tc_lastreset s1 then Ok s1
          else res_bind (recv_accept c p s1) (\<lambda>s2.
            if ta_seqno p = tc_last_ack s2 \<and> ta_eln p \<and> cf_eln c then tcp_eln c now p s2
            else res_bind (if ta_seqno p > tc_last_ack s2 then newreno_new_data c now p s2
                           else if ta_seqno p = tc_last_ack s2 then reno_dupack c now s2 else Ok s2) (\<lambda>s3.
              if ta_seqno p \<ge> tc_last_ack s3 \<or> cf_aggressive_maxburst c
              then if tc_dupacks s3 = 0 then send_much c now False REASON_NONE (cf_maxburst c) s3
                   else if tc_dupacks s3 > cf_numdupacks c - 1 \<and> cf_newreno_changes c = 0
                   then send_much c now False REASON_NONE 2 s3 else Ok s3
              else Ok s3)))"

definition tcp_recv :: "tcp_conf \<Rightarrow> real \<Rightarrow> tcp_ack \<Rightarrow> tcp \<Rightarrow> tcp res" where
  "tcp_recv c now p s =
     (case cf_class c of
        TahoeTcp \<Rightarrow> tahoe_recv c now p s
      | RenoTcp \<Rightarrow> reno_recv c now p s
      | NewRenoTcp \<Rightarrow> newreno_recv c now p s)"

section \<open>Timeouts\<close>

datatype tcp_timer = TCP_TIMER_RTX | TCP_TIMER_DELSND | TCP_TIMER_BURSTSND

text \<open>The reaction of the window when the retransmission timer expires.\<close>

definition timeout_window :: "tcp_conf \<Rightarrow> tcp \<Rightarrow> tcp" where
  "timeout_window c s =
     (if tc_highest_ack s = tc_maxseq s \<and> \<not> cf_slow_start_restart c then s
      else let s1 = s\<lparr>tc_recover := tc_maxseq s\<rparr>;
               s2 = (if tc_highest_ack s1 = -1 \<and> tc_wnd_init_option s1 = 2 then s1\<lparr>tc_wnd_init_option := 1\<rparr>
                     else if tc_highest_ack s1 = -1 \<and> tc_wnd_init_option s1 = 1 \<and> tc_wnd_init s1 > 1 \<and> cf_bugfix_ss c
                     then s1\<lparr>tc_wnd_init := 1\<rparr> else s1);
               frto = (\<lambda>t. if cf_frto_enabled c \<or> cf_sfrto_enabled c then t\<lparr>tc_frto := 1\<rparr> else t)
           in if tc_highest_ack s2 = tc_maxseq s2 \<and> cf_restart_bugfix c
              then slowdown c {CLOSE_CWND_ONE, NO_OUTSTANDING_DATA} s2
              else if tc_highest_ack s2 < tc_recover s2 \<and> tc_last_cwnd_action s2 = CWND_ACTION_ECN
              then frto (slowdown c {CLOSE_CWND_ONE} s2)
              else frto (slowdown c {CLOSE_SSTHRESH_HALF, CLOSE_CWND_RESTART}
                     (s2\<lparr>tc_ct := (tc_ct s2)\<lparr>ct_nrexmit := ct_nrexmit (tc_ct s2) + 1\<rparr>,
                         tc_last_cwnd_action := CWND_ACTION_TIMEOUT\<rparr>)))"

definition timeout_start :: "tcp_conf \<Rightarrow> tcp \<Rightarrow> tcp" where
  "timeout_start c s =
     (let s1 = s\<lparr>tc_frto := 0\<rparr>
      in s1\<lparr>tc_pipe_prev := if window c s1 > tc_ssthresh s1 then window c s1 else tc_ssthresh s1,
            tc_cwnd := if tc_cwnd s1 < 1 then 1 else tc_cwnd s1, tc_qs_approved := False\<rparr>)"

definition tcp_timeout_rtx :: "tcp_conf \<Rightarrow> real \<Rightarrow> tcp \<Rightarrow> tcp res" where
  "tcp_timeout_rtx c now s =
     (let s3 = timeout_window c (timeout_start c s)
      in res_bind (reset_rtx_timer c now False (\<not> (tc_highest_ack s3 = tc_maxseq s3 \<and> cf_restart_bugfix c)) s3) (\<lambda>s4.
           send_much c now False TCP_REASON_TIMEOUT (cf_maxburst c) (s4\<lparr>tc_last_cwnd_action := CWND_ACTION_TIMEOUT\<rparr>)))"

text \<open>What Reno adds to it.\<close>

definition reno_timeout :: "tcp_conf \<Rightarrow> tcp \<Rightarrow> tcp" where
  "reno_timeout c s =
     s\<lparr>tc_dupwnd := 0, tc_dupacks := 0, tc_recover := if cf_bug_fix c then tc_maxseq s else tc_recover s\<rparr>"

definition timeout_nonrtx :: "tcp_conf \<Rightarrow> real \<Rightarrow> tcp_timer \<Rightarrow> tcp \<Rightarrow> tcp res" where
  "timeout_nonrtx c now tno s =
     (if tno = TCP_TIMER_DELSND then send_much c now True TCP_REASON_TIMEOUT (cf_maxburst c) s else Ok s)"

definition tcp_timeout :: "tcp_conf \<Rightarrow> real \<Rightarrow> tcp_timer \<Rightarrow> tcp \<Rightarrow> tcp res" where
  "tcp_timeout c now tno s =
     (if tno = TCP_TIMER_RTX
      then tcp_timeout_rtx c now
             (if cf_class c = TahoeTcp then s else reno_timeout c s)
      else timeout_nonrtx c now tno s)"

text \<open>
  \<open>TimerHandler::handle\<close>: the timer is being handled while \<open>expire\<close> runs, and becomes idle
  unless \<open>expire\<close> has scheduled it again.
\<close>

definition st_handling :: "stimer \<Rightarrow> stimer" where
  "st_handling t = t\<lparr>st_status := TIMER_HANDLING\<rparr>"

definition st_handled :: "stimer \<Rightarrow> stimer" where
  "st_handled t = (if st_status t = TIMER_HANDLING then t\<lparr>st_status := TIMER_IDLE\<rparr> else t)"

definition tcp_expire :: "tcp_conf \<Rightarrow> real \<Rightarrow> tcp_timer \<Rightarrow> tcp \<Rightarrow> tcp res" where
  "tcp_expire c now tno s =
     (case tno of
        TCP_TIMER_RTX \<Rightarrow>
          if st_status (tc_rtx s) \<noteq> TIMER_PENDING then Fail Abort
          else res_bind (tcp_timeout c now tno (s\<lparr>tc_rtx := st_handling (tc_rtx s)\<rparr>))
                 (\<lambda>t. Ok (t\<lparr>tc_rtx := st_handled (tc_rtx t)\<rparr>))
      | TCP_TIMER_DELSND \<Rightarrow>
          if st_status (tc_delsnd s) \<noteq> TIMER_PENDING then Fail Abort
          else res_bind (tcp_timeout c now tno (s\<lparr>tc_delsnd := st_handling (tc_delsnd s)\<rparr>))
                 (\<lambda>t. Ok (t\<lparr>tc_delsnd := st_handled (tc_delsnd t)\<rparr>))
      | TCP_TIMER_BURSTSND \<Rightarrow>
          if st_status (tc_burstsnd s) \<noteq> TIMER_PENDING then Fail Abort
          else res_bind (tcp_timeout c now tno (s\<lparr>tc_burstsnd := st_handling (tc_burstsnd s)\<rparr>))
                 (\<lambda>t. Ok (t\<lparr>tc_burstsnd := st_handled (tc_burstsnd t)\<rparr>)))"

end
