(* ===== verification/Tcp_Sender_Correct.thy ===== *)
theory Tcp_Sender_Correct
  imports Tcp_Sender
begin

text \<open>
  What the arithmetic of the senders of TCP guarantees: the retransmission timeout and its backoff, the
  estimate of the round-trip time, and the growth and the reduction of the congestion window.
\<close>

section \<open>The retransmission timeout\<close>

lemma rto_scaled_nonneg:
  assumes "0 \<le> tc_t_rtxcur s" "0 \<le> tc_t_backoff s" "0 \<le> cf_minrto c"
  shows "0 \<le> rto_scaled c s"
  using assms by (auto simp: rto_scaled_def Let_def)

lemma rto_scaled_minrto:
  assumes "0 \<le> tc_t_rtxcur s" "1 \<le> tc_t_backoff s" "0 \<le> cf_minrto c" "\<not> tc_use_rtt s"
  shows "cf_minrto c \<le> rto_scaled c s"
proof -
  have b: "(1::real) \<le> of_int (tc_t_backoff s)" using assms by simp
  have "cf_minrto c \<le> cf_minrto c * of_int (tc_t_backoff s)"
    using mult_left_mono [OF b, of "cf_minrto c"] assms by simp
  moreover have "tc_t_rtxcur s \<le> tc_t_rtxcur s * of_int (tc_t_backoff s)"
    using mult_left_mono [OF b, of "tc_t_rtxcur s"] assms by simp
  ultimately show ?thesis using assms by (auto simp: rto_scaled_def Let_def)
qed

text \<open>C20: The retransmission timeout is the backed-off estimate, limited by \<open>maxrto_\<close> and by two ticks from below
  (one tick with \<open>use_rtt_\<close>), and at least \<open>minrto_\<close> where that is below \<open>maxrto_\<close>; the process does not
  exit with a negative timeout.\<close>

lemma rto_bounds:
  assumes "0 < cf_tcp_tick c" "2 * cf_tcp_tick c \<le> cf_maxrto c" "0 \<le> cf_minrto c"
    and "0 \<le> tc_t_rtxcur s" "1 \<le> tc_t_backoff s"
  shows "\<exists>t. rtt_timeout c s = Inr (t, s\<lparr>tc_use_rtt := False\<rparr>) \<and>
    (if tc_use_rtt s then cf_tcp_tick c else 2 * cf_tcp_tick c) \<le> t \<and> t \<le> cf_maxrto c \<and>
    (\<not> tc_use_rtt s \<longrightarrow> t = max (2 * cf_tcp_tick c) (min (cf_maxrto c) (rto_scaled c s)) \<and>
      min (cf_minrto c) (cf_maxrto c) \<le> t)"
proof -
  define t2 where "t2 = (if rto_scaled c s > cf_maxrto c then cf_maxrto c else rto_scaled c s)"
  have z: "0 \<le> t2" using rto_scaled_nonneg [of s c] assms by (simp add: t2_def)
  have m: "\<not> tc_use_rtt s \<Longrightarrow> min (cf_minrto c) (cf_maxrto c) \<le> t2"
    using rto_scaled_minrto [of s c] assms by (auto simp: t2_def)
  have eq: "rtt_timeout c s = (if t2 < 2 * cf_tcp_tick c
       then if tc_use_rtt s \<and> t2 < cf_tcp_tick c then Ok (cf_tcp_tick c, s\<lparr>tc_use_rtt := False\<rparr>)
            else Ok (2 * cf_tcp_tick c, s\<lparr>tc_use_rtt := False\<rparr>)
       else Ok (t2, s\<lparr>tc_use_rtt := False\<rparr>))"
    using z by (simp add: rtt_timeout_def Let_def t2_def)
  have le: "t2 \<le> cf_maxrto c" by (simp add: t2_def)
  have mn: "t2 = min (cf_maxrto c) (rto_scaled c s)" by (simp add: t2_def min_def)
  show ?thesis
  proof (cases "t2 < 2 * cf_tcp_tick c")
    case True
    then show ?thesis using assms m le unfolding eq mn [symmetric] by (auto simp: max_def)
  next
    case False
    then show ?thesis using assms m le unfolding eq mn [symmetric] by (auto simp: max_def)
  qed
qed

text \<open>The backoff doubles until it is 64, or with RFC 2988 until the timeout has reached its maximum.\<close>

lemma rtt_backoff_cases:
  assumes "rtt_backoff c s = Inr s'"
  shows "tc_t_backoff s' = tc_t_backoff s \<or>
    tc_t_backoff s' = 2 * tc_t_backoff s \<and>
      (tc_t_backoff s < 64 \<or> cf_rfc2988 c \<and> (\<exists>t u. rtt_timeout c s = Inr (t, u) \<and> t < cf_maxrto c))"
    "tc_t_rtxcur s' = tc_t_rtxcur s" "tc_t_backoff s < 64 \<Longrightarrow> tc_t_backoff s' = 2 * tc_t_backoff s"
  using assms
  by (auto simp: rtt_backoff_def Let_def rtt_timeout_def push_bit_eq_mult split: if_splits prod.splits)

section \<open>The estimate of the round-trip time\<close>

lemma ewma_bounds:
  fixes x d lo hi P :: int
  assumes "0 < P" "P * lo \<le> x" "x \<le> P * hi + (P - 1)" "lo \<le> d" "d \<le> hi"
  shows "P * lo \<le> x + (d - x div P)" "x + (d - x div P) \<le> P * hi + (P - 1)"
proof -
  define q r where "q = x div P" and "r = x mod P"
  have x: "x = P * q + r" and r: "0 \<le> r" "r < P"
    using assms by (simp_all add: q_def r_def)
  have "q \<le> hi"
  proof (rule ccontr)
    assume "\<not> q \<le> hi"
    then have "P * (hi + 1) \<le> P * q" using assms(1) by (intro mult_left_mono) auto
    with x r assms(3) show False by (simp add: algebra_simps)
  qed
  moreover have "lo \<le> q"
  proof (rule ccontr)
    assume "\<not> lo \<le> q"
    then have "P * (q + 1) \<le> P * lo" using assms(1) by (intro mult_left_mono) auto
    with x r assms(2) show False by (simp add: algebra_simps)
  qed
  moreover have "(P - 1) * lo \<le> (P - 1) * q" "(P - 1) * q \<le> (P - 1) * hi"
    using assms(1) calculation by (auto intro!: mult_left_mono)
  ultimately show "P * lo \<le> x + (d - x div P)" "x + (d - x div P) \<le> P * hi + (P - 1)"
    using x r assms unfolding q_def [symmetric] by (simp_all add: algebra_simps)
qed

text \<open>As long as nothing wraps around, the update is that of Jacobson.\<close>

lemma rtt_smooth_exact:
  assumes "0 < srtt" "0 < rttvar" "1 \<le> rtt" "rtt < 2 ^ 15"
    and "srtt div 2 ^ cf_T_SRTT_BITS c < 2 ^ 15" "rttvar div 2 ^ cf_T_RTTVAR_BITS c < 2 ^ 15"
  shows "rtt_smooth c rtt srtt rttvar =
    (max 1 (srtt + (rtt - srtt div 2 ^ cf_T_SRTT_BITS c)),
     max 1 (rttvar + (\<bar>rtt - srtt div 2 ^ cf_T_SRTT_BITS c\<bar> - rttvar div 2 ^ cf_T_RTTVAR_BITS c)))"
proof -
  have q: "0 \<le> srtt div 2 ^ cf_T_SRTT_BITS c" "0 \<le> rttvar div 2 ^ cf_T_RTTVAR_BITS c"
    using assms by (simp_all add: pos_imp_zdiv_nonneg_iff)
  have a: "wrap_s16 (rtt - srtt div 2 ^ cf_T_SRTT_BITS c) = rtt - srtt div 2 ^ cf_T_SRTT_BITS c"
    using assms q by (intro wrap_s16_id) simp_all
  have b: "wrap_s16 (- (rtt - srtt div 2 ^ cf_T_SRTT_BITS c)) = - (rtt - srtt div 2 ^ cf_T_SRTT_BITS c)"
    using assms q by (intro wrap_s16_id) simp_all
  have d: "wrap_s16 (\<bar>rtt - srtt div 2 ^ cf_T_SRTT_BITS c\<bar> - rttvar div 2 ^ cf_T_RTTVAR_BITS c) =
      \<bar>rtt - srtt div 2 ^ cf_T_SRTT_BITS c\<bar> - rttvar div 2 ^ cf_T_RTTVAR_BITS c"
    using assms q by (intro wrap_s16_id) simp_all
  show ?thesis
    using assms(1) d unfolding rtt_smooth_def Let_def drop_bit_eq_div a b by (auto simp: abs_if max_def)
qed

definition rtt_inv :: "tcp_conf \<Rightarrow> int \<Rightarrow> int \<Rightarrow> tcp \<Rightarrow> bool" where
  "rtt_inv c m M s \<longleftrightarrow>
     2 ^ cf_T_SRTT_BITS c * m \<le> tc_t_srtt s \<and> tc_t_srtt s < 2 ^ cf_T_SRTT_BITS c * (M + 1) \<and>
     1 \<le> tc_t_rttvar s \<and> tc_t_rttvar s < 2 ^ cf_T_RTTVAR_BITS c * (M + 1) \<and>
     cf_tcp_tick c \<le> tc_t_rtxcur s \<and> tc_t_rtxcur s \<le> of_int ((2 ^ cf_rttvar_exp c + 1) * (M + 1)) * cf_tcp_tick c"

lemma div_between:
  fixes x lo hi P :: int
  assumes "0 < P"
  shows "P * lo \<le> x \<Longrightarrow> lo \<le> x div P" "x < P * hi \<Longrightarrow> x div P < hi"
proof -
  assume "P * lo \<le> x"
  then have "P * lo div P \<le> x div P" using assms by (rule zdiv_mono1)
  then show "lo \<le> x div P" using assms by simp
next
  assume "x < P * hi"
  moreover have "P * (x div P) \<le> x" using assms by (simp add: mult.commute [of P] minus_mod_eq_div_mult [symmetric])
  ultimately show "x div P < hi" using assms mult_less_cancel_left_pos [of P "x div P" hi] by linarith
qed

lemma rtt_smooth_bounds:
  assumes "1 \<le> m" "m \<le> rtt" "rtt \<le> M" "M + 1 < 2 ^ 15" "rtt_smooth c rtt srtt rttvar = (a, b)"
    and "srtt = 0 \<or> 2 ^ cf_T_SRTT_BITS c * m \<le> srtt \<and> srtt < 2 ^ cf_T_SRTT_BITS c * (M + 1) \<and>
           1 \<le> rttvar \<and> rttvar < 2 ^ cf_T_RTTVAR_BITS c * (M + 1)"
  shows "2 ^ cf_T_SRTT_BITS c * m \<le> a" "a < 2 ^ cf_T_SRTT_BITS c * (M + 1)"
    "1 \<le> b" "b < 2 ^ cf_T_RTTVAR_BITS c * (M + 1)"
proof -
  define P V :: int where "P = 2 ^ cf_T_SRTT_BITS c" and "V = 2 ^ cf_T_RTTVAR_BITS c"
  have pos: "0 < P" "0 < V" by (simp_all add: P_def V_def)
  have Pm: "1 \<le> P * m" using pos(1) assms(1) mult_mono [of 1 P 1 m] by simp
  have "P * m \<le> a \<and> a < P * (M + 1) \<and> 1 \<le> b \<and> b < V * (M + 1)"
  proof (cases "srtt = 0")
    case True
    then have a: "a = P * rtt" and b: "b = 2 ^ (cf_T_RTTVAR_BITS c - 1) * rtt"
      using assms(5) by (simp_all add: rtt_smooth_def push_bit_eq_mult P_def mult.commute)
    have V1: "1 \<le> (2::int) ^ (cf_T_RTTVAR_BITS c - 1)" "(2::int) ^ (cf_T_RTTVAR_BITS c - 1) \<le> V"
      by (simp_all add: V_def power_increasing)
    have "2 ^ (cf_T_RTTVAR_BITS c - 1) * rtt \<le> V * rtt" "1 * 1 \<le> 2 ^ (cf_T_RTTVAR_BITS c - 1) * rtt"
      using V1 assms(1,2) by (intro mult_right_mono mult_mono; simp)+
    moreover have "P * m \<le> P * rtt" "P * rtt < P * (M + 1)" "V * rtt < V * (M + 1)"
      using pos assms by simp_all
    ultimately show ?thesis unfolding a b by simp
  next
    case False
    then have i: "P * m \<le> srtt" "srtt < P * (M + 1)" "1 \<le> rttvar" "rttvar < V * (M + 1)"
      using assms(6) by (auto simp: P_def V_def)
    have i': "srtt \<le> P * M + (P - 1)" "rttvar \<le> V * M + (V - 1)"
      using i by (simp_all add: algebra_simps)
    have q: "m \<le> srtt div P" "srtt div P < M + 1" "0 \<le> rttvar div V" "rttvar div V < M + 1"
      using div_between(1) [OF pos(1) i(1)] div_between(2) [OF pos(1) i(2)] div_between(1) [OF pos(2), of 0 rttvar]
        div_between(2) [OF pos(2) i(4)] i(3) by simp_all
    have e: "rtt_smooth c rtt srtt rttvar =
        (max 1 (srtt + (rtt - srtt div P)), max 1 (rttvar + (\<bar>rtt - srtt div P\<bar> - rttvar div V)))"
      unfolding P_def V_def
      by (rule rtt_smooth_exact) (use i q Pm assms in \<open>simp_all add: P_def V_def\<close>)
    have "P * m \<le> srtt + (rtt - srtt div P)" "srtt + (rtt - srtt div P) \<le> P * M + (P - 1)"
      using ewma_bounds [OF pos(1) i(1) i'(1)] assms by simp_all
    moreover have "rttvar + (\<bar>rtt - srtt div P\<bar> - rttvar div V) \<le> V * M + (V - 1)"
      using ewma_bounds(2) [of V 0 rttvar M "\<bar>rtt - srtt div P\<bar>"] pos i i' q assms by simp
    moreover have "1 < V + M * V" using assms(1-3) pos(2) mult_right_mono [of 1 M V] by linarith
    ultimately show ?thesis
      using assms(5) Pm pos unfolding e by (auto simp: max_def algebra_simps)
  qed
  then show "2 ^ cf_T_SRTT_BITS c * m \<le> a" "a < 2 ^ cf_T_SRTT_BITS c * (M + 1)"
    "1 \<le> b" "b < 2 ^ cf_T_RTTVAR_BITS c * (M + 1)"
    by (simp_all add: P_def V_def)
qed

text \<open>C19: While the samples lie between \<open>m\<close> and \<open>M\<close> ticks, so does the smoothed round-trip time, the
  deviation stays positive and below \<open>M + 1\<close> ticks, and the retransmission value lies between one tick
  and a fixed multiple of \<open>M + 1\<close>. The first sample, or the one after a long backoff, starts the
  estimate anew.\<close>

theorem rtt_estimate_bounded:
  assumes "1 \<le> m" "m \<le> rtt_sample c now tao s" "rtt_sample c now tao s \<le> M" "M + 1 < 2 ^ 15"
    and "0 < cf_tcp_tick c" "cf_T_RTTVAR_BITS c \<le> cf_rttvar_exp c + cf_T_SRTT_BITS c"
    and "tc_t_srtt s = 0 \<or> rtt_inv c m M s"
  shows "rtt_inv c m M (rtt_update c now tao s)"
proof -
  obtain a b where ab: "rtt_smooth c (rtt_sample c now tao s) (tc_t_srtt s) (tc_t_rttvar s) = (a, b)"
    by (metis surj_pair)
  define P where "P = (2::int) ^ cf_T_SRTT_BITS c"
  define K where "K = (2::int) ^ (cf_rttvar_exp c + cf_T_SRTT_BITS c - cf_T_RTTVAR_BITS c)"
  define E where "E = (2::int) ^ cf_rttvar_exp c"
  have pos: "0 < P" "0 < K" "0 < E" by (simp_all add: P_def K_def E_def)
  note bd = rtt_smooth_bounds [OF assms(1-4) ab]
  have bounds: "P * m \<le> a" "a < P * (M + 1)" "1 \<le> b" "b < 2 ^ cf_T_RTTVAR_BITS c * (M + 1)"
    using bd assms(7) by (auto simp: rtt_inv_def P_def)
  have VK: "2 ^ cf_T_RTTVAR_BITS c * K = E * P"
    using assms(6) by (simp add: K_def E_def P_def power_add [symmetric])
  define n where "n = (b * K + a) div P"
  have "b * K \<le> 2 ^ cf_T_RTTVAR_BITS c * (M + 1) * K" using bounds pos by (intro mult_right_mono) simp_all
  also have "\<dots> = (2 ^ cf_T_RTTVAR_BITS c * K) * (M + 1)" by simp
  finally have "b * K + a < P * ((E + 1) * (M + 1)) + P * 1"
    using bounds(2) pos unfolding VK by (simp add: algebra_simps)
  then have "b * K + a < ((E + 1) * (M + 1) + 1) * P" by (simp add: algebra_simps)
  then have hi: "n \<le> (E + 1) * (M + 1)"
    using pos(1) div_between(2) [of P "b * K + a" "(E + 1) * (M + 1) + 1"] by (simp add: n_def mult.commute)
  have "P * 1 \<le> P * m" "0 \<le> b * K" using assms(1) bounds pos by (simp_all add: mult_left_mono)
  then have lo: "1 \<le> n"
    using bounds(1) div_between(1) [OF pos(1), of 1 "b * K + a"] by (simp add: n_def)
  have r: "tc_t_rtxcur (rtt_update c now tao s) = of_int n * cf_tcp_tick c"
    "tc_t_srtt (rtt_update c now tao s) = a" "tc_t_rttvar (rtt_update c now tao s) = b"
    by (simp_all add: rtt_update_def Let_def ab drop_bit_eq_div push_bit_eq_mult n_def P_def K_def)
  have "1 * cf_tcp_tick c \<le> of_int n * cf_tcp_tick c" "of_int n * cf_tcp_tick c \<le> of_int ((E + 1) * (M + 1)) * cf_tcp_tick c"
    using lo hi assms(5) by (intro mult_right_mono; simp del: of_int_mult of_int_add)+
  then show ?thesis
    using bounds unfolding rtt_inv_def r P_def E_def by simp
qed

section \<open>Growth of the window\<close>

abbreviation opencwnds :: "tcp_conf \<Rightarrow> nat \<Rightarrow> tcp \<Rightarrow> tcp res" where
  "opencwnds c n s \<equiv> ((\<lambda>r. res_bind r (opencwnd c)) ^^ n) (Ok s)"

lemma opencwnd_slow_start:
  assumes "cf_maxcwnd c = 0" "tc_cwnd s < of_int (tc_ssthresh s)"
  shows "opencwnd c s = Ok (s\<lparr>tc_cwnd := tc_cwnd s + 1\<rparr>)"
  using assms by (simp add: opencwnd_def)

lemma opencwnd_linear:
  assumes "cf_maxcwnd c = 0" "cf_wnd_option c = 1" "cf_max_ssthresh c \<le> 0" "of_int (tc_ssthresh s) \<le> tc_cwnd s"
  shows "opencwnd c s = Ok (s\<lparr>tc_cwnd := tc_cwnd s + cf_increase_num c / tc_cwnd s\<rparr>)"
  using assms by (simp add: opencwnd_def congestion_avoidance_def slow_start_limit_def)

text \<open>In slow start every acknowledgement opens the window by one segment, up to the threshold, so a window of
  acknowledgements doubles it.\<close>

theorem slow_start_exponential:
  assumes "cf_maxcwnd c = 0" "tc_cwnd s + real n \<le> of_int (tc_ssthresh s)"
  shows "opencwnds c n s = Ok (s\<lparr>tc_cwnd := tc_cwnd s + real n\<rparr>)"
  using assms(2)
proof (induction n)
  case (Suc n)
  have "opencwnd c (s\<lparr>tc_cwnd := tc_cwnd s + real n\<rparr>) =
      Ok (s\<lparr>tc_cwnd := tc_cwnd s + real n, tc_cwnd := tc_cwnd s + real n + 1\<rparr>)"
    using opencwnd_slow_start [OF assms(1), of "s\<lparr>tc_cwnd := tc_cwnd s + real n\<rparr>"] Suc.prems by simp
  with Suc show ?case by (simp add: add.assoc add.commute)
qed simp

text \<open>C21: In congestion avoidance a window of acknowledgements opens the window by less than one segment, and by
  \<open>w / (w + 1)\<close> at least: \<open>n\<close> acknowledgements open it by at least \<open>n / (w + 1)\<close> and at
  most \<open>n / w\<close>.\<close>

theorem additive_increase:
  assumes "cf_maxcwnd c = 0" "cf_wnd_option c = 1" "cf_max_ssthresh c \<le> 0" "cf_increase_num c = 1"
    and "of_int (tc_ssthresh s) \<le> tc_cwnd s" "0 < tc_cwnd s" "real n \<le> tc_cwnd s"
  shows "\<exists>w. opencwnds c n s = Ok (s\<lparr>tc_cwnd := w\<rparr>) \<and>
    tc_cwnd s + real n / (tc_cwnd s + 1) \<le> w \<and> w \<le> tc_cwnd s + real n / tc_cwnd s"
  using assms(7)
proof (induction n)
  case 0
  then show ?case by (intro exI [of _ "tc_cwnd s"]) simp
next
  case (Suc n)
  then obtain w where w: "opencwnds c n s = Ok (s\<lparr>tc_cwnd := w\<rparr>)"
    "tc_cwnd s + real n / (tc_cwnd s + 1) \<le> w" "w \<le> tc_cwnd s + real n / tc_cwnd s"
    by auto
  have ge: "tc_cwnd s \<le> w"
    using w(2) assms(6) by (smt (verit) divide_nonneg_pos of_nat_0_le_iff)
  have "real n / tc_cwnd s \<le> 1" using Suc.prems assms(6) by simp
  then have le: "w \<le> tc_cwnd s + 1" using w(3) by simp
  have "opencwnd c (s\<lparr>tc_cwnd := w\<rparr>) = Ok (s\<lparr>tc_cwnd := w + 1 / w\<rparr>)"
    using opencwnd_linear [of c "s\<lparr>tc_cwnd := w\<rparr>"] assms(1-5) ge by simp
  then have "opencwnds c (Suc n) s = Ok (s\<lparr>tc_cwnd := w + 1 / w\<rparr>)" using w(1) by simp
  moreover have "1 / w \<le> 1 / tc_cwnd s" "1 / (tc_cwnd s + 1) \<le> 1 / w"
    using ge le assms(6) by (intro divide_left_mono; simp)+
  ultimately show ?case
    using w(2,3) by (intro exI [of _ "w + 1 / w"]) (simp add: add_divide_distrib)
qed

section \<open>Reduction of the window\<close>

lemma slowdown_ssthresh_ge2: "2 \<le> tc_ssthresh (slowdown c how s)"
  by (simp add: slowdown_def slowdown_ssthresh_def Let_def)

definition standard_decrease :: "tcp_conf \<Rightarrow> tcp \<Rightarrow> bool" where
  "standard_decrease c s \<longleftrightarrow> cf_wnd_option c \<noteq> 6 \<and> cf_wnd_option c \<noteq> 8 \<and> tc_decrease_num s = 1 / 2 \<and>
     0 \<le> tc_cwnd s \<and> 0 \<le> tc_dupwnd s \<and> 0 \<le> cf_wnd c \<and> tc_frto s = 0"

lemma window_nonneg:
  assumes "standard_decrease c s"
  shows "0 \<le> window c s" "0 \<le> windowd c s"
  using assms by (cases "cf_class c"; simp add: standard_decrease_def window_def windowd_def Let_def trunc_nonneg)+

lemma decreasewin_half:
  assumes "standard_decrease c s"
  shows "trunc (slowdown_decreasewin c s) = trunc (slowdown_halfwin c s)" "slowdown_dnum c s = 1 / 2"
proof -
  have f: "\<lfloor>real_of_int (window c s) / 2\<rfloor> = window c s div 2"
    using floor_divide_of_int_eq [of "window c s" 2] by simp
  have d: "tc_decrease_num s = 1 / 2" and o: "cf_wnd_option c \<noteq> 6" "cf_wnd_option c \<noteq> 8"
    using assms by (simp_all add: standard_decrease_def)
  show "trunc (slowdown_decreasewin c s) = trunc (slowdown_halfwin c s)"
    using window_nonneg [OF assms] f o
    by (simp add: slowdown_decreasewin_def slowdown_halfwin_def slowdown_highspeed_def d trunc_nonneg)
qed (use assms in \<open>simp add: slowdown_dnum_def slowdown_highspeed_def standard_decrease_def\<close>)

lemma slowdown_ssthresh_half:
  assumes "standard_decrease c s" "CLOSE_SSTHRESH_HALF \<in> how"
  shows "tc_ssthresh (slowdown c how s) = max 2 (trunc (slowdown_halfwin c s))"
  using assms decreasewin_half [OF assms(1)]
  by (auto simp: slowdown_def slowdown_ssthresh_def Let_def max_def)

lemma slowdown_cwnd_half:
  assumes "standard_decrease c s" "CLOSE_CWND_HALF \<in> how"
  shows "tc_cwnd (slowdown c how s) = slowdown_halfwin c s"
  using assms decreasewin_half [OF assms(1)] by (simp add: slowdown_def slowdown_cwnd_def Let_def)

lemma halfwin_bounds:
  assumes "standard_decrease c s"
  shows "slowdown_win c s / 2 - 1 < slowdown_halfwin c s" "slowdown_halfwin c s \<le> slowdown_win c s / 2"
    "0 \<le> slowdown_halfwin c s"
  using window_nonneg [OF assms] by (auto simp: slowdown_win_def slowdown_halfwin_def)

text \<open>C22: Multiplicative decrease in \<open>slowdown\<close> with the standard parameters (\<open>standard_decrease\<close>): the threshold becomes
  half the window in whole segments, but not less than two, whatever the cause; the congestion window becomes
  half the window (less than one segment below it is lost to rounding) after a fast retransmit or an ECN echo,
  the restart window in whole segments after a timeout and one segment after a loss in Tahoe.\<close>

theorem multiplicative_decrease:
  assumes "standard_decrease c s"
  shows "tc_ssthresh (slowdown c {CLOSE_SSTHRESH_HALF, a} s) = max 2 (trunc (slowdown_halfwin c s)) \<and>
    tc_cwnd (slowdown c {CLOSE_SSTHRESH_HALF, CLOSE_CWND_HALF} s) = slowdown_halfwin c s \<and>
    tc_cwnd (slowdown c {CLOSE_SSTHRESH_HALF, CLOSE_CWND_RESTART} s) = of_int (trunc (tc_wnd_restart s)) \<and>
    tc_cwnd (slowdown c {CLOSE_SSTHRESH_HALF, CLOSE_CWND_ONE} s) = 1 \<and>
    slowdown_win c s / 2 - 1 < slowdown_halfwin c s \<and> slowdown_halfwin c s \<le> slowdown_win c s / 2"
  using slowdown_ssthresh_half [OF assms, of "{CLOSE_SSTHRESH_HALF, a}"]
    slowdown_cwnd_half [OF assms, of "{CLOSE_SSTHRESH_HALF, CLOSE_CWND_HALF}"] halfwin_bounds [OF assms]
  by (simp add: slowdown_def slowdown_cwnd_def Let_def)

section \<open>A connection with the default parameters\<close>

text \<open>The values of \<open>tcl/lib/ns-default.tcl\<close>, with segments of 1000 bytes and no random numbers.\<close>

definition tcp_defaults :: "tcp_class \<Rightarrow> tcp_conf" where
  "tcp_defaults cls = \<lparr>cf_wnd = 20, cf_wnd_const = 4, cf_wnd_th = 0.002, cf_wnd_option = 1, cf_increase_num = 1,
     cf_maxcwnd = 0, cf_k_parameter = 0, cf_l_parameter = 1, cf_precision_reduce = True, cf_low_window = 38,
     cf_high_window = 83000, cf_high_p = 0.0000001, cf_high_decrease = 0.1, cf_max_ssthresh = 0, cf_cwnd_range = 0,
     cf_delay_growth = True, cf_control_increase = False, cf_QOption = False, cf_EnblRTTCtr = False,
     cf_tcp_tick = 0.01, cf_srtt_init = 0, cf_rttvar_init = 12, cf_rtxcur_init = 3, cf_T_SRTT_BITS = 3,
     cf_T_RTTVAR_BITS = 2, cf_rttvar_exp = 2, cf_maxrto = 60, cf_minrto = 0.2, cf_ts_resetRTO = False,
     cf_timerfix = True, cf_rfc2988 = True, cf_ts_option = False, cf_ts_option_size = 10, cf_class = cls,
     cf_size = 1000, cf_tcpip_base_hdr_size = 40, cf_useHeaders = True, cf_overhead = 0, cf_maxburst = 0,
     cf_syn = True, cf_max_connects = -1, cf_ecn = False, cf_old_ecn = False, cf_SetCWRonRetransmit = True,
     cf_numdupacks = 3, cf_numdupacksFrac = -1, cf_singledup = True, cf_noFastRetrans = False,
     cf_aggressive_maxburst = True, cf_slow_start_restart = True, cf_restart_bugfix = True,
     cf_bug_fix = True, cf_less_careful = False, cf_exitFastRetrans = True, cf_bugfix_ack = False,
     cf_bugfix_ts = False, cf_bugfix_ss = True, cf_frto_enabled = False, cf_sfrto_enabled = False,
     cf_spurious_response = 1, cf_eln = False, cf_eln_rxmit_thresh = 1, cf_qs_enabled = False, cf_rate_request = 0,
     cf_tcp_qs_recovery = True, cf_qs_request_mode = 1, cf_qs_thresh = 4, cf_qs_rtt = 50, cf_rate_function = 1,
     cf_defttl = 32, cf_newreno_changes = 0, cf_newreno_changes1 = (cls = NewRenoTcp),
     cf_partial_window_deflation = (cls = NewRenoTcp),
     cf_exit_recovery_fix = False, cf_uniform = (\<lambda>_. 0), cf_random_ttl = (\<lambda>_. 0)\<rparr>"

definition timer_idle :: stimer where
  "timer_idle = \<lparr>st_status = TIMER_IDLE, st_at = 0\<rparr>"

text \<open>A connection after \<open>reset\<close>, and one with ten segments sent of which two are acknowledged.\<close>

definition tcp_start :: tcp where
  "tcp_start = \<lparr>tc_t_rtt = 0, tc_t_srtt = 0, tc_t_rttvar = 4800, tc_t_backoff = 1, tc_t_rtxcur = 3, tc_use_rtt = False,
     tc_boot_time = 0, tc_cwnd = 1, tc_ssthresh = 20, tc_count = 0, tc_fcnt = 0, tc_awnd = 1, tc_first_decrease = True,
     tc_last_cwnd_action = CWND_ACTION_NONE, tc_decrease_num = 1 / 2, tc_wnd_init = 2, tc_wnd_init_option = 1,
     tc_wnd_restart = 1, tc_cong_action = False,
     tc_hstcp = \<lparr>hst_low_p = 0, hst_dec1 = 0, hst_dec2 = 0, hst_p1 = 0, hst_p2 = 0, hst_cwnd_last = 0, hst_increase_last = 0\<rparr>,
     tc_qo = \<lparr>qo_T_last = 0, qo_T_prev = 0, qo_T_start = 0, qo_RTT_count = 0, qo_RTT_prev = 0, qo_RTT_goodcount = 0,
              qo_F_counting = False, qo_W_used = 0, qo_W_timed = 0, qo_F_full = False, qo_Backoffs = 0\<rparr>,
     tc_ct = \<lparr>ct_ndatapack = 0, ct_ndatabytes = 0, ct_nackpack = 0, ct_nrexmit = 0, ct_nrexmitpack = 0,
              ct_nrexmitbytes = 0, ct_necnresponses = 0, ct_ncwndcuts = 0, ct_ncwndcuts1 = 0\<rparr>,
     tc_dupwnd = 0, tc_t_seqno = 0, tc_curseq = 0, tc_maxseq = -1, tc_highest_ack = -1, tc_last_ack = -1,
     tc_prev_highest_ack = -1, tc_dupacks = 0, tc_recover = 0, tc_rtt_active = False, tc_rtt_seq = -1, tc_rtt_ts = 0,
     tc_firstsent = 0, tc_lastreset = 0, tc_closed = False, tc_ts_peer = 0, tc_ts_echo = 0, tc_tss = None,
     tc_tss_size = 100, tc_syn_connects = 0, tc_ecn_burst = False, tc_ecn_backoff = False, tc_ect = False,
     tc_eln_last_rxmit = 0, tc_qs_requested = False, tc_qs_approved = False, tc_qs_window = 0, tc_qs_cwnd = 0,
     tc_ttl_diff = 0, tc_frto = 0, tc_pipe_prev = 0,
     tc_nr = \<lparr>nr_acked = 0, nr_new_ssthresh = 0, nr_ack2 = 0, nr_ack3 = 0, nr_basertt = 0, nr_firstpartial = False\<rparr>,
     tc_rtx = timer_idle, tc_delsnd = timer_idle, tc_burstsnd = timer_idle, tc_draw = 0, tc_out = []\<rparr>"

definition tcp_busy :: tcp where
  "tcp_busy = tcp_start\<lparr>tc_cwnd := 8, tc_ssthresh := 6, tc_t_srtt := 80, tc_t_rttvar := 20, tc_t_rtt := 10,
     tc_t_rtxcur := 0.3, tc_t_seqno := 10, tc_curseq := 100, tc_maxseq := 9, tc_highest_ack := 1, tc_last_ack := 1,
     tc_prev_highest_ack := 0, tc_recover := 0, tc_rtt_active := True, tc_rtt_seq := 5, tc_dupacks := 2,
     tc_first_decrease := False, tc_rtx := \<lparr>st_status = TIMER_PENDING, st_at = 2\<rparr>\<rparr>"

lemma rto_bounds_witness:
  "\<exists>t. rtt_timeout (tcp_defaults RenoTcp) tcp_start = Inr (t, tcp_start\<lparr>tc_use_rtt := False\<rparr>) \<and> 1 / 50 \<le> t \<and> t \<le> 60"
  using rto_bounds [of "tcp_defaults RenoTcp" tcp_start] by (auto simp: tcp_defaults_def tcp_start_def)

lemma rtt_estimate_bounded_witness:
  "rtt_inv (tcp_defaults RenoTcp) 10 20 (rtt_update (tcp_defaults RenoTcp) 1 0.1 tcp_start)"
proof -
  have "rtt_sample (tcp_defaults RenoTcp) 1 0.1 tcp_start = 10"
    by (simp add: rtt_sample_def tcp_defaults_def tcp_start_def fmod_def trunc_def)
  then show ?thesis
    by (intro rtt_estimate_bounded) (simp_all add: tcp_defaults_def tcp_start_def)
qed

lemma slow_start_exponential_witness:
  "\<exists>s. opencwnds (tcp_defaults RenoTcp) 8 tcp_start = Ok s \<and> tc_cwnd s = 9"
  using slow_start_exponential [of "tcp_defaults RenoTcp" tcp_start 8]
  by (simp add: tcp_defaults_def tcp_start_def)

lemma additive_increase_witness:
  "\<exists>w. opencwnds (tcp_defaults RenoTcp) 8 tcp_busy = Ok (tcp_busy\<lparr>tc_cwnd := w\<rparr>) \<and> 8 + 8 / 9 \<le> w \<and> w \<le> 9"
  using additive_increase [of "tcp_defaults RenoTcp" tcp_busy 8]
  by (simp add: tcp_defaults_def tcp_busy_def)

lemma multiplicative_decrease_witness:
  "tc_ssthresh (slowdown (tcp_defaults RenoTcp) {CLOSE_SSTHRESH_HALF, CLOSE_CWND_HALF} tcp_busy) = 4"
  using multiplicative_decrease [of "tcp_defaults RenoTcp" tcp_busy CLOSE_CWND_HALF]
  by (simp add: standard_decrease_def slowdown_halfwin_def windowd_def Let_def trunc_def tcp_defaults_def tcp_busy_def
      tcp_start_def)

end
