(* ===== verification/Tcp_Agent_Correct.thy ===== *)
theory Tcp_Agent_Correct
  imports Tcp_Agent Tcp_Sender_Correct
begin

text \<open>
  The senders of TCP as a whole: the invariant of a connection that every event keeps, what the loop that
  fills the window sends, the retransmission after a timeout and the fast retransmit.
\<close>

section \<open>The sequence numbers and the retransmission timer\<close>

definition seq_inv :: "tcp \<Rightarrow> bool" where
  "seq_inv s \<longleftrightarrow> tc_last_ack s = tc_highest_ack s \<and> -1 \<le> tc_highest_ack s \<and> tc_highest_ack s < tc_t_seqno s \<and>
     tc_t_seqno s \<le> tc_maxseq s + 1 \<and> tc_recover s \<le> max 0 (tc_maxseq s) \<and> tc_frto s = 0"

text \<open>As long as data is outstanding, the retransmission timer is pending.\<close>

definition rtx_armed :: "tcp \<Rightarrow> bool" where
  "rtx_armed s \<longleftrightarrow> (tc_highest_ack s < tc_maxseq s \<longrightarrow> st_status (tc_rtx s) = TIMER_PENDING)"

definition conn_inv :: "tcp \<Rightarrow> bool" where
  "conn_inv s \<longleftrightarrow> seq_inv s \<and> rtx_armed s"

text \<open>The options of the code that the invariant is stated for: unlimited SYNs, neither F-RTO nor the quiescence
  option.\<close>

definition conn_conf :: "tcp_conf \<Rightarrow> bool" where
  "conn_conf c \<longleftrightarrow> cf_max_connects c \<le> 0 \<and> \<not> cf_frto_enabled c \<and> \<not> cf_sfrto_enabled c \<and> \<not> cf_QOption c"

named_theorems conn_frame \<open>the invariants of a connection under changes of other fields\<close>

lemma only_window_seq_inv [conn_frame]: "only_window s s' \<Longrightarrow> seq_inv s \<Longrightarrow> seq_inv s'"
  by (elim only_windowE) (simp add: seq_inv_def)

lemma only_window_armed [conn_frame]: "only_window s s' \<Longrightarrow> rtx_armed s \<Longrightarrow> rtx_armed s'"
  by (elim only_windowE) (simp add: rtx_armed_def)

lemma only_window_conn [conn_frame]: "only_window s s' \<Longrightarrow> conn_inv s \<Longrightarrow> conn_inv s'"
  by (simp add: conn_inv_def only_window_seq_inv only_window_armed)

lemma rtt_backoffE:
  assumes "rtt_backoff c s = Inr s'"
  obtains u b v r where "s' = s\<lparr>tc_use_rtt := u, tc_t_backoff := b, tc_t_rttvar := v, tc_t_srtt := r\<rparr>"
proof -
  have "s' = s\<lparr>tc_use_rtt := tc_use_rtt s', tc_t_backoff := tc_t_backoff s', tc_t_rttvar := tc_t_rttvar s',
               tc_t_srtt := tc_t_srtt s'\<rparr>"
    using assms by (auto simp: rtt_backoff_def Let_def rtt_timeout_def split: if_splits prod.splits)
  then show ?thesis using that by blast
qed

lemma opencwndE:
  assumes "opencwnd c s = Inr s'"
  obtains w n f h where "s' = s\<lparr>tc_cwnd := w, tc_count := n, tc_fcnt := f, tc_hstcp := h\<rparr>"
proof -
  have i: "increase_param c s = (x, t) \<Longrightarrow> t = s\<lparr>tc_hstcp := tc_hstcp t\<rparr>" for x t
    by (auto simp: increase_param_def Let_def split: if_splits)
  have ca: "\<exists>w n f h. s1 = s\<lparr>tc_cwnd := w, tc_count := n, tc_fcnt := f, tc_hstcp := h\<rparr>"
    if h: "congestion_avoidance c s = Inr s1" for s1
  proof -
    have "s1 = s\<lparr>tc_cwnd := tc_cwnd s1, tc_count := tc_count s1, tc_fcnt := tc_fcnt s1, tc_hstcp := tc_hstcp s1\<rparr>"
    proof (cases "cf_wnd_option c = 8")
      case True
      obtain x t where t: "increase_param c s = (x, t)" by fastforce
      obtain k where k: "t = s\<lparr>tc_hstcp := k\<rparr>" using i [OF t] by blast
      have "s1 = t\<lparr>tc_cwnd := tc_cwnd t + slow_start_limit c x t\<rparr>"
        using h True t by (simp add: congestion_avoidance_def)
      then show ?thesis by (simp add: k)
    qed (use h in \<open>auto simp: congestion_avoidance_def grow_fraction_def Let_def split: if_splits\<close>)
    then show ?thesis by blast
  qed
  obtain s1 where s1: "(if tc_cwnd s < of_int (tc_ssthresh s) then Ok (s\<lparr>tc_cwnd := tc_cwnd s + 1\<rparr>)
               else congestion_avoidance c s) = Inr s1"
    and s': "s' = (if cf_maxcwnd c \<noteq> 0 \<and> trunc (tc_cwnd s1) > cf_maxcwnd c
                 then s1\<lparr>tc_cwnd := of_int (cf_maxcwnd c)\<rparr> else s1)"
    using assms by (auto simp: opencwnd_def)
  have "\<exists>w n f h. s1 = s\<lparr>tc_cwnd := w, tc_count := n, tc_fcnt := f, tc_hstcp := h\<rparr>"
  proof (cases "tc_cwnd s < of_int (tc_ssthresh s)")
    case True
    then have "s1 = s\<lparr>tc_cwnd := tc_cwnd s + 1, tc_count := tc_count s, tc_fcnt := tc_fcnt s, tc_hstcp := tc_hstcp s\<rparr>"
      using s1 by (auto simp del: tcp.update_convs)
    then show ?thesis by blast
  qed (use s1 ca in simp)
  then obtain w n f h where "s1 = s\<lparr>tc_cwnd := w, tc_count := n, tc_fcnt := f, tc_hstcp := h\<rparr>" by blast
  then have "s' = s\<lparr>tc_cwnd := tc_cwnd s', tc_count := tc_count s', tc_fcnt := tc_fcnt s', tc_hstcp := tc_hstcp s'\<rparr>"
    unfolding s' by simp
  then show ?thesis using that by blast
qed

lemma set_rtx_timer_inv:
  "set_rtx_timer c now s = Inr s' \<Longrightarrow> seq_inv s \<Longrightarrow> conn_inv s'"
  by (elim set_rtx_timerE) (simp add: conn_inv_def seq_inv_def rtx_armed_def st_resched_def)

lemma rtt_backoff_inv:
  "rtt_backoff c s = Inr s' \<Longrightarrow> seq_inv s \<Longrightarrow> seq_inv s'"
  "rtt_backoff c s = Inr s' \<Longrightarrow> rtx_armed s \<Longrightarrow> rtx_armed s'"
  by (elim rtt_backoffE, simp add: seq_inv_def rtx_armed_def)+

text \<open>After the timer is reset, the invariant holds whatever the timer was before.\<close>

lemma reset_rtx_timer_inv:
  assumes "reset_rtx_timer c now mild backoff s = Inr s'" "seq_inv s"
  shows "conn_inv s'"
proof -
  obtain s1 s2 where s1: "(if backoff then rtt_backoff c s else Ok s) = Inr s1" and s2: "set_rtx_timer c now s1 = Inr s2"
    and s': "s' = (if mild then s2 else s2\<lparr>tc_t_seqno := tc_highest_ack s2 + 1\<rparr>)\<lparr>tc_rtt_active := False\<rparr>"
    using assms(1) by (auto simp: reset_rtx_timer_def)
  have "seq_inv s1" using s1 assms(2) by (auto split: if_splits intro: rtt_backoff_inv)
  then have "conn_inv s2" using s2 by (rule set_rtx_timer_inv [rotated])
  then show ?thesis unfolding s' by (simp add: conn_inv_def seq_inv_def rtx_armed_def)
qed

text \<open>A segment not beyond the next new one keeps the invariant, and afterwards the timer is pending.\<close>

lemma tcp_output_inv:
  assumes "tcp_output c now q reason s = Inr s'" "seq_inv s" "q \<le> tc_maxseq s + 1" "conn_conf c"
  shows "conn_inv s'" "st_status (tc_rtx s') = TIMER_PENDING" "tc_maxseq s' = max (tc_maxseq s) q"
    "tc_t_seqno s' = tc_t_seqno s" "tc_highest_ack s' = tc_highest_ack s"
proof -
  have "conn_inv s' \<and> st_status (tc_rtx s') = TIMER_PENDING \<and> tc_maxseq s' = max (tc_maxseq s) q \<and>
      tc_t_seqno s' = tc_t_seqno s \<and> tc_highest_ack s' = tc_highest_ack s"
    using assms(1)
  proof (cases rule: tcp_outputE)
    case Abort
    then show ?thesis using assms(4) by (simp add: conn_conf_def)
  next
    case (Sent p a b u cs k i v w ct act rs rt ur rx)
    have "conn_inv s'" unfolding Sent(4) using assms(2,3) Sent(5)
      by (auto simp: conn_inv_def seq_inv_def rtx_armed_def)
    then show ?thesis unfolding Sent(4) by (simp add: Sent(5))
  qed
  then show "conn_inv s'" "st_status (tc_rtx s') = TIMER_PENDING" "tc_maxseq s' = max (tc_maxseq s) q"
    "tc_t_seqno s' = tc_t_seqno s" "tc_highest_ack s' = tc_highest_ack s"
    by simp_all
qed

lemma qoption_sent_conf [simp]: "conn_conf c \<Longrightarrow> qoption_sent c now s = Ok s"
  by (simp add: qoption_sent_def conn_conf_def)

lemma next_seqno_inv:
  assumes "tcp_output c now (tc_t_seqno s) reason s = Inr s'" "seq_inv s" "conn_conf c"
  shows "conn_inv (s'\<lparr>tc_t_seqno := tc_t_seqno s' + 1\<rparr>)"
proof -
  have q: "tc_t_seqno s \<le> tc_maxseq s + 1" using assms(2) by (simp add: seq_inv_def)
  note o = tcp_output_inv [OF assms(1,2) q assms(3)]
  show ?thesis using o(1,3,4) by (auto simp: conn_inv_def seq_inv_def rtx_armed_def)
qed

lemma delayed_send_inv [simp]:
  "conn_inv (resched_quickstart c now win s) = conn_inv s" "conn_inv (send_later c now s) = conn_inv s"
  by (simp_all add: resched_quickstart_def send_later_def tcp_uniform_def Let_def conn_inv_def seq_inv_def rtx_armed_def)

lemma send_step_inv:
  assumes "send_step c now force reason mb np win s = Inr (b, s')" "conn_inv s" "conn_conf c"
  shows "conn_inv s'"
proof (cases "cf_overhead c = 0 \<or> force \<or> tc_qs_approved s")
  case True
  then obtain s1 where s1: "tcp_output c now (tc_t_seqno s) reason s = Inr s1"
    and s': "s' = (let s3 = s1\<lparr>tc_t_seqno := tc_t_seqno s1 + 1\<rparr>
                   in if tc_qs_approved s3 then resched_quickstart c now win s3 else s3)"
    using assms(1,3) unfolding send_step_def Let_def by (auto split: if_split_asm)
  have "conn_inv (s1\<lparr>tc_t_seqno := tc_t_seqno s1 + 1\<rparr>)"
    using assms(2) by (intro next_seqno_inv [OF s1 _ assms(3)]) (simp add: conn_inv_def)
  then show ?thesis unfolding s' Let_def by simp
next
  case False
  then show ?thesis using assms(1,2) unfolding send_step_def by (auto split: if_split_asm)
qed

lemma send_loop_inv:
  assumes "send_loop c now force reason mb np win s = Inr s'" "conn_inv s" "conn_conf c"
  shows "conn_inv s'"
  using assms
proof (induction c now force reason mb np win s rule: send_loop.induct)
  case (1 c now force reason mb np win s)
  show ?case
  proof (cases "tc_t_seqno s \<le> tc_highest_ack s + win \<and> tc_t_seqno s < tc_curseq s")
    case True
    then obtain x where t: "send_step c now force reason mb np win s = Inr x"
      and r: "(if fst x then send_loop c now force reason mb (np + 1) (window c (snd x)) (snd x) else Ok (snd x)) = Inr s'"
      using "1.prems"(1) unfolding send_loop.simps [of c now force reason mb np win s] by auto
    have "conn_inv (snd x)" using send_step_inv [of c now force reason mb np win s "fst x" "snd x"] t "1.prems" by simp
    then show ?thesis
      using r "1.IH" [OF True t] "1.prems"(3) by (auto split: if_split_asm)
  next
    case False
    then show ?thesis using "1.prems" unfolding send_loop.simps [of c now force reason mb np win s] by auto
  qed
qed

lemma send_much_inv:
  assumes "send_much c now force reason mb s = Inr s'" "conn_inv s" "conn_conf c"
  shows "conn_inv s'"
proof -
  have "conn_inv (s\<lparr>tc_firstsent := now\<rparr>)" using assms(2) by (simp add: conn_inv_def seq_inv_def rtx_armed_def)
  then show ?thesis
    using assms unfolding send_much_def Let_def by (auto split: if_split_asm dest: send_loop_inv)
qed

lemma send_one_inv:
  assumes "send_one c now s = Inr s'" "conn_inv s" "conn_conf c"
  shows "conn_inv s'"
  using assms next_seqno_inv [OF _ _ assms(3), of now s REASON_NONE]
  by (auto simp: send_one_def conn_inv_def split: if_splits)

section \<open>New acknowledgements\<close>

lemma newtimerE:
  assumes "newtimer c now p s = Inr s'"
  obtains ur rx where "s' = s\<lparr>tc_use_rtt := ur, tc_rtx := rx\<rparr>"
    "ta_seqno p < tc_maxseq s \<Longrightarrow> st_status rx = TIMER_PENDING"
proof (cases "tc_t_seqno s > ta_seqno p \<or> ta_seqno p < tc_maxseq s \<or> tc_cwnd s < 1")
  case True
  then have "set_rtx_timer c now s = Inr s'" using assms by (simp add: newtimer_def)
  then show ?thesis
    by (rule set_rtx_timerE) (rule that, assumption, simp add: st_resched_def)
next
  case False
  then have "s' = s\<lparr>tc_use_rtt := tc_use_rtt s, tc_rtx := st_force_cancel (tc_rtx s)\<rparr>"
    using assms by (simp add: newtimer_def cancel_rtx_timer_def)
  then show ?thesis
    by (rule that [where ur = "tc_use_rtt s" and rx = "st_force_cancel (tc_rtx s)"]) (use False in auto)
qed

lemma newack_rtt_sel [simp]:
  "tc_last_ack (newack_rtt c now p s) = tc_last_ack s" "tc_highest_ack (newack_rtt c now p s) = tc_highest_ack s"
  "tc_t_seqno (newack_rtt c now p s) = tc_t_seqno s" "tc_maxseq (newack_rtt c now p s) = tc_maxseq s"
  "tc_recover (newack_rtt c now p s) = tc_recover s" "tc_frto (newack_rtt c now p s) = tc_frto s"
  "tc_rtx (newack_rtt c now p s) = tc_rtx s"
  by (simp_all add: newack_rtt_def rtt_update_def Let_def split: prod.split)

lemma newack_inv:
  assumes "newack c now p s = Inr s'" "conn_inv s" "-1 \<le> ta_seqno p" "ta_seqno p \<le> tc_maxseq s"
  shows "conn_inv s'" "tc_maxseq s' = tc_maxseq s" "tc_highest_ack s' = ta_seqno p"
proof -
  define f where "f = (\<lambda>t::tcp. t\<lparr>tc_dupacks := 0, tc_last_ack := ta_seqno p, tc_prev_highest_ack := tc_highest_ack t,
                   tc_highest_ack := ta_seqno p,
                   tc_t_seqno := if tc_t_seqno t < ta_seqno p + 1 then ta_seqno p + 1 else tc_t_seqno t\<rparr>)"
  obtain s1 s3 where s1: "(if \<not> cf_timerfix c then newtimer c now p s else Ok s) = Inr s1"
    and s3: "(if cf_timerfix c then newtimer c now p (newack_rtt c now p (f s1)) else Ok (newack_rtt c now p (f s1))) = Inr s3"
    and s': "s' = s3\<lparr>tc_awnd := tc_awnd s3 * (1 - cf_wnd_th c) + cf_wnd_th c * tc_cwnd s3\<rparr>"
    using assms(1) unfolding newack_def res_bind_Ok_iff Let_def f_def by blast
  have "seq_inv s1 \<and> tc_maxseq s1 = tc_maxseq s \<and>
      (\<not> cf_timerfix c \<longrightarrow> ta_seqno p < tc_maxseq s \<longrightarrow> st_status (tc_rtx s1) = TIMER_PENDING)"
    using s1 assms(2) by (auto simp: conn_inv_def seq_inv_def split: if_split_asm elim!: newtimerE)
  then have i1: "seq_inv s1" "tc_maxseq s1 = tc_maxseq s"
    "\<not> cf_timerfix c \<Longrightarrow> ta_seqno p < tc_maxseq s \<Longrightarrow> st_status (tc_rtx s1) = TIMER_PENDING" by simp_all
  define g where "g = newack_rtt c now p (f s1)"
  have i2: "seq_inv g" "tc_maxseq g = tc_maxseq s" "tc_rtx g = tc_rtx s1" "tc_highest_ack g = ta_seqno p"
    using i1 assms(3,4) by (auto simp: g_def seq_inv_def f_def)
  have "conn_inv s3 \<and> tc_maxseq s3 = tc_maxseq s \<and> tc_highest_ack s3 = ta_seqno p"
  proof (cases "cf_timerfix c")
    case True
    then have "newtimer c now p g = Inr s3" using s3 by (simp add: g_def)
    then show ?thesis
      by (rule newtimerE) (use i2 in \<open>simp add: conn_inv_def seq_inv_def rtx_armed_def\<close>)
  next
    case False
    then show ?thesis using s3 i1(3) i2 by (simp add: g_def conn_inv_def rtx_armed_def)
  qed
  then show "conn_inv s'" "tc_maxseq s' = tc_maxseq s" "tc_highest_ack s' = ta_seqno p"
    by (auto simp: s' conn_inv_def seq_inv_def rtx_armed_def)
qed

lemma opencwnd_inv: "opencwnd c s = Inr s' \<Longrightarrow> conn_inv s \<Longrightarrow> conn_inv s'"
  by (elim opencwndE) (simp add: conn_inv_def seq_inv_def rtx_armed_def)

lemma newack_ecn_inv [simp]: "conn_inv (newack_ecn p s) = conn_inv s"
  by (simp add: newack_ecn_def conn_inv_def seq_inv_def rtx_armed_def Let_def)

lemma newack_frto_inv [simp]: "conn_inv s \<Longrightarrow> conn_inv (newack_frto c s)"
  by (simp add: newack_frto_def conn_inv_def seq_inv_def)

lemma recv_newack_helper_inv:
  assumes "recv_newack_helper c now p s = Inr s'" "conn_inv s" "conn_conf c" "-1 \<le> ta_seqno p" "ta_seqno p \<le> tc_maxseq s"
  shows "conn_inv s'"
proof -
  define fin where "fin = (\<lambda>t::tcp. if tc_highest_ack t \<ge> tc_curseq t - 1 \<and> \<not> tc_closed t
                      then t\<lparr>tc_closed := True, tc_out := tc_out t @ [Done]\<rparr> else t)"
  obtain s1 where s1: "newack c now p s = Inr s1"
    and r: "(let s2 = (if tc_qs_window s1 \<noteq> 0 \<and> tc_highest_ack s1 \<ge> tc_qs_window s1 then s1\<lparr>tc_qs_window := 0\<rparr> else s1)
       in res_bind (if (\<not> tc_ect s2 \<or> \<not> ta_ecnecho p \<or> (cf_old_ecn c \<and> tc_ecn_burst s2)) \<and>
                       (\<not> cf_control_increase c \<or> network_limited c s2)
                    then opencwnd c s2 else Ok s2)
            (\<lambda>s3. let s5 = fin (newack_ecn p s3);
                s6 = (if cf_QOption c \<and> tc_curseq s5 = tc_highest_ack s5 + 1 then cancel_rtx_timer s5 else s5)
            in Ok (newack_frto c s6))) = Inr s'"
    using assms(1) unfolding recv_newack_helper_def res_bind_Ok_iff fin_def Let_def by blast
  define s2 where "s2 = (if tc_qs_window s1 \<noteq> 0 \<and> tc_highest_ack s1 \<ge> tc_qs_window s1 then s1\<lparr>tc_qs_window := 0\<rparr> else s1)"
  obtain s3 where s3: "opencwnd c s2 = Inr s3 \<or> s3 = s2" and s': "s' = newack_frto c (fin (newack_ecn p s3))"
    using r assms(3) unfolding s2_def [symmetric] Let_def res_bind_Ok_iff conn_conf_def by (auto split: if_split_asm)
  have "conn_inv s1" using newack_inv [OF s1 assms(2,4,5)] by simp
  then have "conn_inv s2" by (simp add: s2_def conn_inv_def seq_inv_def rtx_armed_def)
  then have "conn_inv s3" using s3 by (auto intro: opencwnd_inv)
  then have "conn_inv (newack_ecn p s3)" by simp
  then have "conn_inv (fin (newack_ecn p s3))" unfolding fin_def by (simp add: conn_inv_def seq_inv_def rtx_armed_def)
  then show ?thesis unfolding s' by (rule newack_frto_inv)
qed

lemma recv_newack_inv:
  assumes "recv_newack c now p s = Inr s'" "conn_inv s" "conn_conf c" "-1 \<le> ta_seqno p" "ta_seqno p \<le> tc_maxseq s"
  shows "conn_inv s'"
proof -
  obtain s1 where s1: "recv_newack_helper c now p s = Inr s1" and s': "s' = s1\<lparr>tc_cwnd := tc_cwnd s'\<rparr>"
    using assms(1) by (auto simp: recv_newack_def split: if_split_asm)
  have "conn_inv s1" by (rule recv_newack_helper_inv [OF s1 assms(2-5)])
  then have "conn_inv (s1\<lparr>tc_cwnd := tc_cwnd s'\<rparr>)" by (simp add: conn_inv_def seq_inv_def rtx_armed_def)
  then show ?thesis using s' by simp
qed

section \<open>Duplicate acknowledgements\<close>

lemma slowdown_inv [simp]:
  "seq_inv (slowdown c h s) = seq_inv s" "rtx_armed (slowdown c h s) = rtx_armed s"
  by (simp_all add: slowdown_def Let_def seq_inv_def rtx_armed_def)

lemma slowdown_conn_inv [simp]: "conn_inv (slowdown c h s) = conn_inv s"
  by (simp add: conn_inv_def)

lemma other_fields_inv [simp]:
  "seq_inv (s\<lparr>tc_last_cwnd_action := a\<rparr>) = seq_inv s" "seq_inv (s\<lparr>tc_dupwnd := d\<rparr>) = seq_inv s"
  "seq_inv (s\<lparr>tc_dupacks := d\<rparr>) = seq_inv s" "seq_inv (s\<lparr>tc_qs_window := i\<rparr>) = seq_inv s"
  "seq_inv (s\<lparr>tc_rtx := r\<rparr>) = seq_inv s" "seq_inv (s\<lparr>tc_nr := n\<rparr>) = seq_inv s"
  "seq_inv (s\<lparr>tc_cwnd := w\<rparr>) = seq_inv s" "seq_inv (s\<lparr>tc_ct := k\<rparr>) = seq_inv s"
  "seq_inv (s\<lparr>tc_ssthresh := i\<rparr>) = seq_inv s" "seq_inv (s\<lparr>tc_curseq := i\<rparr>) = seq_inv s"
  "seq_inv (s\<lparr>tc_ecn_backoff := b\<rparr>) = seq_inv s" "seq_inv (s\<lparr>tc_eln_last_rxmit := i\<rparr>) = seq_inv s"
  "seq_inv (s\<lparr>tc_ts_peer := x\<rparr>) = seq_inv s" "seq_inv (s\<lparr>tc_closed := b\<rparr>) = seq_inv s"
  "seq_inv (s\<lparr>tc_wnd_init := x\<rparr>) = seq_inv s" "seq_inv (s\<lparr>tc_wnd_init_option := i\<rparr>) = seq_inv s"
  by (simp_all add: seq_inv_def)

lemma other_fields_armed [simp]:
  "rtx_armed (s\<lparr>tc_last_cwnd_action := a\<rparr>) = rtx_armed s" "rtx_armed (s\<lparr>tc_dupwnd := d\<rparr>) = rtx_armed s"
  "rtx_armed (s\<lparr>tc_dupacks := d\<rparr>) = rtx_armed s" "rtx_armed (s\<lparr>tc_qs_window := i\<rparr>) = rtx_armed s"
  "rtx_armed (s\<lparr>tc_recover := i\<rparr>) = rtx_armed s" "rtx_armed (s\<lparr>tc_nr := n\<rparr>) = rtx_armed s"
  "rtx_armed (s\<lparr>tc_cwnd := w\<rparr>) = rtx_armed s" "rtx_armed (s\<lparr>tc_ct := k\<rparr>) = rtx_armed s"
  "rtx_armed (s\<lparr>tc_ssthresh := i\<rparr>) = rtx_armed s" "rtx_armed (s\<lparr>tc_curseq := i\<rparr>) = rtx_armed s"
  "rtx_armed (s\<lparr>tc_ecn_backoff := b\<rparr>) = rtx_armed s" "rtx_armed (s\<lparr>tc_eln_last_rxmit := i\<rparr>) = rtx_armed s"
  "rtx_armed (s\<lparr>tc_ts_peer := x\<rparr>) = rtx_armed s" "rtx_armed (s\<lparr>tc_closed := b\<rparr>) = rtx_armed s"
  by (simp_all add: rtx_armed_def)

lemma other_fields_conn [simp]:
  "conn_inv (s\<lparr>tc_last_cwnd_action := a\<rparr>) = conn_inv s" "conn_inv (s\<lparr>tc_dupwnd := d\<rparr>) = conn_inv s"
  "conn_inv (s\<lparr>tc_dupacks := d\<rparr>) = conn_inv s" "conn_inv (s\<lparr>tc_qs_window := i\<rparr>) = conn_inv s"
  "conn_inv (s\<lparr>tc_nr := n\<rparr>) = conn_inv s" "conn_inv (s\<lparr>tc_cwnd := w\<rparr>) = conn_inv s"
  "conn_inv (s\<lparr>tc_ct := k\<rparr>) = conn_inv s" "conn_inv (s\<lparr>tc_ssthresh := i\<rparr>) = conn_inv s"
  "conn_inv (s\<lparr>tc_curseq := i\<rparr>) = conn_inv s" "conn_inv (s\<lparr>tc_ecn_backoff := b\<rparr>) = conn_inv s"
  "conn_inv (s\<lparr>tc_eln_last_rxmit := i\<rparr>) = conn_inv s" "conn_inv (s\<lparr>tc_ts_peer := x\<rparr>) = conn_inv s"
  "conn_inv (s\<lparr>tc_closed := b\<rparr>) = conn_inv s"
  by (simp_all add: conn_inv_def)

lemma slowdown_fields [simp]:
  "tc_maxseq (slowdown c h s) = tc_maxseq s" "tc_highest_ack (slowdown c h s) = tc_highest_ack s"
  "tc_last_ack (slowdown c h s) = tc_last_ack s" "tc_recover (slowdown c h s) = tc_recover s"
  "tc_t_seqno (slowdown c h s) = tc_t_seqno s" "tc_curseq (slowdown c h s) = tc_curseq s"
  "tc_last_cwnd_action (slowdown c h s) = tc_last_cwnd_action s" "tc_out (slowdown c h s) = tc_out s"
  "tc_dupacks (slowdown c h s) = tc_dupacks s" "tc_dupwnd (slowdown c h s) = tc_dupwnd s"
  "tc_frto (slowdown c h s) = tc_frto s" "tc_rtx (slowdown c h s) = tc_rtx s"
  by (simp_all add: slowdown_def Let_def)

lemma recover_maxseq_inv [simp]: "seq_inv s \<Longrightarrow> seq_inv (s\<lparr>tc_recover := tc_maxseq s\<rparr>)"
  by (auto simp: seq_inv_def)

lemma lossQuickStart_inv:
  assumes "lossQuickStart c now s = Inr (b, s')" "conn_inv s" "conn_conf c"
  shows "conn_inv s'"
proof (cases "tc_qs_window s \<noteq> 0 \<and> cf_tcp_qs_recovery c")
  case True
  define s1 where "s1 = (slowdown c {CLOSE_CWND_INIT} s)\<lparr>tc_qs_window := 0\<rparr>"
  have i: "conn_inv s1" using assms(2) by (simp add: s1_def conn_inv_def)
  have o: "tcp_output c now (tc_last_ack s1 + 1) TCP_REASON_DUPACK s1 = Inr s'"
    using assms(1) True by (auto simp: lossQuickStart_def Let_def s1_def)
  show ?thesis
    by (rule tcp_output_inv(1) [OF o _ _ assms(3)]) (use i in \<open>auto simp: conn_inv_def seq_inv_def\<close>)
qed (use assms in \<open>auto simp: lossQuickStart_def\<close>)

lemma fast_retransmit_inv:
  assumes "fast_retransmit c now s = Inr s'" "conn_inv s" "conn_conf c"
  shows "conn_inv s'"
proof -
  obtain s1 where o: "tcp_output c now (tc_last_ack s + 1) TCP_REASON_DUPACK s = Inr s1"
    and s': "s' = s1\<lparr>tc_dupwnd := cf_numdupacks c\<rparr>"
    using assms(1) by (auto simp: fast_retransmit_def)
  have "conn_inv s1"
    by (rule tcp_output_inv(1) [OF o _ _ assms(3)]) (use assms(2) in \<open>auto simp: conn_inv_def seq_inv_def\<close>)
  then show ?thesis by (simp add: s' conn_inv_def)
qed

lemma tahoe_action_inv:
  assumes "tahoe_action c now s = Inr s'" "conn_inv s" "conn_conf c"
  shows "conn_inv s'"
proof -
  obtain r where r: "lossQuickStart c now (s\<lparr>tc_recover := tc_maxseq s\<rparr>) = Inr r"
    and o: "reset_rtx_timer c now False False (if fst r then snd r
        else slowdown c {CLOSE_SSTHRESH_HALF, CLOSE_CWND_ONE} ((snd r)\<lparr>tc_last_cwnd_action := CWND_ACTION_DUPACK\<rparr>)) = Inr s'"
    using assms(1) by (auto simp: tahoe_action_def)
  have "conn_inv (snd r)"
    using lossQuickStart_inv [of c now "s\<lparr>tc_recover := tc_maxseq s\<rparr>" "fst r" "snd r"] r assms(2,3)
    by (simp add: conn_inv_def)
  then show ?thesis by (intro reset_rtx_timer_inv [OF o]) (simp add: conn_inv_def)
qed

lemma reno_action_inv:
  assumes "reno_action c now s = Inr s'" "conn_inv s" "conn_conf c"
  shows "conn_inv s'"
proof -
  define t where "t = s\<lparr>tc_recover := tc_maxseq s, tc_last_cwnd_action := CWND_ACTION_DUPACK\<rparr>"
  obtain s1 where r: "reset_rtx_timer c now True False (slowdown c {CLOSE_SSTHRESH_HALF, CLOSE_CWND_HALF} t) = Inr s1"
    and o: "fast_retransmit c now s1 = Inr s'"
    using assms(1) by (auto simp: reno_action_def t_def)
  have "seq_inv t" using assms(2) by (auto simp: t_def conn_inv_def seq_inv_def)
  then have "conn_inv s1" by (intro reset_rtx_timer_inv [OF r]) simp
  then show ?thesis by (rule fast_retransmit_inv [OF o _ assms(3)])
qed

lemma reno_after_ecn_inv:
  assumes "reno_after_ecn c now s = Inr s'" "conn_inv s" "conn_conf c"
  shows "conn_inv s'"
proof -
  obtain s1 where r: "reset_rtx_timer c now True False (s\<lparr>tc_last_cwnd_action := CWND_ACTION_DUPACK\<rparr>) = Inr s1"
    and o: "fast_retransmit c now s1 = Inr s'"
    using assms(1) by (auto simp: reno_after_ecn_def)
  have "conn_inv s1" by (rule reset_rtx_timer_inv [OF r]) (use assms(2) in \<open>simp add: conn_inv_def\<close>)
  then show ?thesis by (rule fast_retransmit_inv [OF o _ assms(3)])
qed

lemma newreno_action_inv:
  assumes "newreno_action c now s = Inr s'" "conn_inv s" "conn_conf c"
  shows "conn_inv s'"
proof -
  obtain s1 r where r: "reset_rtx_timer c now True False (s\<lparr>tc_recover := tc_maxseq s\<rparr>) = Inr s1"
    and l: "lossQuickStart c now s1 = Inr r"
    and o: "(if fst r then Ok (snd r) else fast_retransmit c now
                (slowdown c {CLOSE_SSTHRESH_HALF, CLOSE_CWND_HALF} ((snd r)\<lparr>tc_last_cwnd_action := CWND_ACTION_DUPACK\<rparr>))) = Inr s'"
    using assms(1) unfolding newreno_action_def res_bind_Ok_iff by blast
  have "conn_inv s1" by (rule reset_rtx_timer_inv [OF r]) (use assms(2) in \<open>simp add: conn_inv_def\<close>)
  then have "conn_inv (snd r)" using lossQuickStart_inv [of c now s1 "fst r" "snd r"] l assms(3) by simp
  moreover from this have "conn_inv (slowdown c {CLOSE_SSTHRESH_HALF, CLOSE_CWND_HALF}
      ((snd r)\<lparr>tc_last_cwnd_action := CWND_ACTION_DUPACK\<rparr>))" by (simp add: conn_inv_def)
  ultimately show ?thesis using o assms(3)
    by (auto split: if_split_asm elim: fast_retransmit_inv)
qed

lemma dupack_action_inv:
  assumes "dupack_action c now s = Inr s'" "conn_inv s" "conn_conf c"
  shows "conn_inv s'"
proof -
  have t: "conn_inv t" if "reset_rtx_timer c now False False
             (slowdown c {CLOSE_CWND_ONE} (s\<lparr>tc_last_cwnd_action := CWND_ACTION_DUPACK\<rparr>)) = Inr t" for t
    by (rule reset_rtx_timer_inv [OF that]) (use assms(2) in \<open>simp add: conn_inv_def\<close>)
  show ?thesis
  proof (cases "cf_class c")
    case TahoeTcp
    then show ?thesis using assms t
      by (auto simp: dupack_action_def tahoe_dupack_action_def split: if_split_asm elim: tahoe_action_inv)
  next
    case RenoTcp
    then show ?thesis using assms
      by (auto simp: dupack_action_def reno_dupack_action_def split: if_split_asm elim: reno_action_inv reno_after_ecn_inv)
  next
    case NewRenoTcp
    then show ?thesis using assms
      by (auto simp: dupack_action_def newreno_dupack_action_def split: if_split_asm
          elim: newreno_action_inv reno_after_ecn_inv)
  qed
qed

section \<open>The arrival of an acknowledgement\<close>

lemma quickstart_fields_inv [simp]:
  "conn_inv (s\<lparr>tc_qs_approved := b\<rparr>) = conn_inv s" "conn_inv (s\<lparr>tc_qs_cwnd := i\<rparr>) = conn_inv s"
  "conn_inv (s\<lparr>tc_qs_requested := b\<rparr>) = conn_inv s"
  by (simp_all add: conn_inv_def seq_inv_def rtx_armed_def)

lemma endQuickStart_inv:
  assumes "endQuickStart c s = Inr s'" "conn_inv s"
  shows "conn_inv s' \<and> tc_maxseq s' = tc_maxseq s"
proof -
  define s1 where "s1 = s\<lparr>tc_qs_approved := False, tc_qs_cwnd := 0, tc_qs_window := tc_maxseq s\<rparr>"
  have "s' = s1 \<or> (\<exists>w. s' = s1\<lparr>tc_cwnd := w\<rparr>)"
    using assms(1) unfolding endQuickStart_def s1_def [symmetric] Let_def res_bind_Ok_iff by (auto split: if_split_asm)
  then show ?thesis using assms(2) by (auto simp: s1_def)
qed

lemma processQuickStart_inv:
  assumes "processQuickStart c now p s = Inr s'" "conn_inv s"
  shows "conn_inv s' \<and> tc_maxseq s' = tc_maxseq s"
proof -
  define s1 where "s1 = s\<lparr>tc_qs_requested := False, tc_qs_approved := False\<rparr>"
  define a where "a = trunc (rate_to_Bps (cf_rate_function c) (ta_qs_rate p) * (now - ta_ts_echo p)
      / of_int (cf_size c + headersize c))"
  have "s' = s1 \<or> s' = s1\<lparr>tc_qs_cwnd := a, tc_qs_approved := True\<rparr>"
    using assms(1) unfolding processQuickStart_def s1_def [symmetric] Let_def a_def [symmetric] res_bind_Ok_iff
    by (auto split: if_split_asm)
  then show ?thesis using assms(2) by (auto simp: s1_def)
qed

lemma recv_quickstart_inv:
  assumes "recv_quickstart c now p s = Inr s'" "conn_inv s"
  shows "conn_inv s'" "tc_maxseq s' = tc_maxseq s"
proof -
  obtain s1 where s1: "(if tc_qs_approved s \<and> ta_seqno p > tc_last_ack s then endQuickStart c s else Ok s) = Inr s1"
    and s': "(if tc_qs_requested s1 then processQuickStart c now p s1 else Ok s1) = Inr s'"
    using assms(1) by (auto simp: recv_quickstart_def)
  have "conn_inv s1 \<and> tc_maxseq s1 = tc_maxseq s"
    using s1 assms(2) endQuickStart_inv by (auto split: if_split_asm)
  moreover from this have "conn_inv s' \<and> tc_maxseq s' = tc_maxseq s1"
    using s' processQuickStart_inv [of c now p s1 s'] by (auto split: if_split_asm)
  ultimately show "conn_inv s'" "tc_maxseq s' = tc_maxseq s" by simp_all
qed

lemma ecn_inv:
  assumes "ecn c q s = Inr s'" "conn_inv s"
  shows "conn_inv s'" "tc_maxseq s' = tc_maxseq s"
proof -
  have "conn_inv s' \<and> tc_maxseq s' = tc_maxseq s"
  proof (cases "q > tc_recover s \<or> tc_last_cwnd_action s = CWND_ACTION_TIMEOUT")
    case True
    define s1 where "s1 = s\<lparr>tc_recover := tc_maxseq s, tc_last_cwnd_action := CWND_ACTION_ECN\<rparr>"
    have i1: "conn_inv s1" using assms(2) by (auto simp: s1_def conn_inv_def)
    obtain s2 where s2: "(if tc_cwnd s1 \<le> 1
                        then if tc_ecn_backoff s1 then rtt_backoff c s1 else Ok (s1\<lparr>tc_ecn_backoff := True\<rparr>)
                        else Ok (s1\<lparr>tc_ecn_backoff := False\<rparr>)) = Inr s2"
      and s': "s' = (let s3 = slowdown c {CLOSE_CWND_HALF, CLOSE_SSTHRESH_HALF} s2; n = tc_ct s3
                      in s3\<lparr>tc_ct := n\<lparr>ct_necnresponses := ct_necnresponses n + 1\<rparr>\<rparr>)"
      using assms(1) True unfolding ecn_def s1_def Let_def by auto
    have "conn_inv s2 \<and> tc_maxseq s2 = tc_maxseq s1"
      using s2 i1 by (auto simp: conn_inv_def split: if_split_asm dest: rtt_backoff_inv elim: rtt_backoffE)
    then show ?thesis by (simp add: s' Let_def s1_def)
  qed (use assms in \<open>auto simp: ecn_def\<close>)
  then show "conn_inv s'" "tc_maxseq s' = tc_maxseq s" by simp_all
qed

lemma recv_frto_helper_inv: "conn_inv s \<Longrightarrow> recv_frto_helper p s = s"
  by (simp add: recv_frto_helper_def conn_inv_def seq_inv_def)

lemma recv_accept_inv:
  assumes "recv_accept c p s = Inr s'" "conn_inv s"
  shows "conn_inv s'" "tc_maxseq s' = tc_maxseq s"
proof -
  define s1 where "s1 = s\<lparr>tc_ct := (tc_ct s)\<lparr>ct_nackpack := ct_nackpack (tc_ct s) + 1\<rparr>, tc_ts_peer := ta_ts p\<rparr>"
  have i1: "conn_inv s1" using assms(2) by (simp add: s1_def conn_inv_def)
  obtain s2 where s2: "(if ta_ecnecho p \<and> cf_ecn c then ecn c (ta_seqno p) s1 else Ok s1) = Inr s2"
    and s': "s' = recv_frto_helper p s2"
    using assms(1) unfolding recv_accept_def s1_def [symmetric] Let_def res_bind_Ok_iff by blast
  have "conn_inv s2 \<and> tc_maxseq s2 = tc_maxseq s"
    using s2 i1 ecn_inv [of c "ta_seqno p" s1 s2] by (auto simp: s1_def split: if_split_asm)
  then show "conn_inv s'" "tc_maxseq s' = tc_maxseq s"
    by (simp_all add: s' recv_frto_helper_inv)
qed

lemma tcp_eln_inv:
  assumes "tcp_eln c now p s = Inr s'" "conn_inv s" "conn_conf c"
  shows "conn_inv s'"
proof -
  define s1 where "s1 = s\<lparr>tc_dupacks := tc_dupacks s + 1\<rparr>"
  have i1: "conn_inv s1" using assms(2) by (simp add: s1_def conn_inv_def)
  have o: "conn_inv t" if "tcp_output c now (tc_last_ack s1 + 1) TCP_REASON_DUPACK s1 = Inr t" for t
    by (rule tcp_output_inv(1) [OF that _ _ assms(3)]) (use i1 in \<open>auto simp: conn_inv_def seq_inv_def\<close>)
  show ?thesis
    using assms(1) o send_much_inv [OF _ i1 assms(3)] unfolding tcp_eln_def s1_def [symmetric] Let_def
    by (auto split: if_split_asm)
qed

lemma tahoe_dupack_inv:
  assumes "tahoe_dupack c now s = Inr s'" "conn_inv s" "conn_conf c"
  shows "conn_inv s'"
proof -
  have "conn_inv (s\<lparr>tc_dupacks := tc_dupacks s + 1\<rparr>)" using assms(2) by (simp add: conn_inv_def)
  note i = dupack_action_inv [OF _ this assms(3)] send_one_inv [OF _ this assms(3)]
  show ?thesis
    using assms(1,2) i unfolding tahoe_dupack_def Let_def by (auto split: if_split_asm)
qed

lemma reno_dupack_inv:
  assumes "reno_dupack c now s = Inr s'" "conn_inv s" "conn_conf c"
  shows "conn_inv s'"
proof -
  define s1 where "s1 = s\<lparr>tc_dupacks := tc_dupacks s + 1\<rparr>"
  define s2 where "s2 = s1\<lparr>tc_dupwnd := tc_dupwnd s1 + 1\<rparr>"
  have i: "conn_inv s1" "conn_inv s2" using assms(2) by (simp_all add: s1_def s2_def conn_inv_def)
  have o: "conn_inv s'" if "tcp_output c now (tc_t_seqno s2) REASON_NONE (s2\<lparr>tc_t_seqno := tc_t_seqno s2 + 1\<rparr>) = Inr s'"
    using that
  proof (cases rule: tcp_outputE)
    case Abort
    then show ?thesis using assms(3) by (simp add: conn_conf_def)
  next
    case (Sent p a b u cs k i v w ct act rs rt ur rx)
    show ?thesis unfolding Sent(4) using \<open>conn_inv s2\<close> Sent(5)
      by (auto simp: conn_inv_def seq_inv_def rtx_armed_def)
  qed
  have d: "conn_inv t" if "dupack_action c now s1 = Inr t" for t
    by (rule dupack_action_inv [OF that i(1) assms(3)])
  have eq: "reno_dupack c now s =
      (if tc_dupacks s1 = cf_numdupacks c
       then res_bind (dupack_action c now s1) (\<lambda>t. Ok (if \<not> cf_exitFastRetrans c then t\<lparr>tc_dupwnd := cf_numdupacks c\<rparr> else t))
       else if tc_dupacks s1 > cf_numdupacks c \<and> (\<not> cf_exitFastRetrans c \<or> tc_last_cwnd_action s1 = CWND_ACTION_DUPACK)
       then if cf_class c = NewRenoTcp \<and> cf_newreno_changes c > 0 \<and> c_mod (tc_dupacks s2) 2 = 1
            then tcp_output c now (tc_t_seqno s2) REASON_NONE (s2\<lparr>tc_t_seqno := tc_t_seqno s2 + 1\<rparr>) else Ok s2
       else if tc_dupacks s1 < cf_numdupacks c \<and> cf_singledup c then send_one c now s1 else Ok s1)"
    unfolding reno_dupack_def s1_def [symmetric] Let_def s2_def [symmetric] by (rule refl)
  show ?thesis
  proof (cases "tc_dupacks s1 = cf_numdupacks c")
    case True
    then obtain t where t: "dupack_action c now s1 = Inr t" "s' = t\<lparr>tc_dupwnd := cf_numdupacks c\<rparr> \<or> s' = t"
      using assms(1) unfolding eq by (auto split: if_split_asm)
    then show ?thesis using d [OF t(1)] by auto
  next
    case False
    have br: "(if A then if B then x else y else if C then z else v) = r \<Longrightarrow> x = r \<or> y = r \<or> z = r \<or> v = r"
      for A B C and x y z v r :: "tcp res" by (auto split: if_split_asm)
    have "tcp_output c now (tc_t_seqno s2) REASON_NONE (s2\<lparr>tc_t_seqno := tc_t_seqno s2 + 1\<rparr>) = Inr s' \<or>
        Ok s2 = Inr s' \<or> send_one c now s1 = Inr s' \<or> Ok s1 = Inr s'"
      using assms(1) unfolding eq if_not_P [OF False] by (rule br)
    then show ?thesis using i o send_one_inv [OF _ i(1) assms(3), of now s'] by blast
  qed
qed

lemma reno_new_data_inv:
  assumes "reno_new_data c now p s = Inr s'" "conn_inv s" "conn_conf c" "-1 \<le> ta_seqno p" "ta_seqno p \<le> tc_maxseq s"
  shows "conn_inv s'"
proof -
  define s1 where "s1 = (if tc_last_cwnd_action s = CWND_ACTION_DUPACK
    then s\<lparr>tc_last_cwnd_action := CWND_ACTION_EXITED\<rparr> else s)\<lparr>tc_dupwnd := 0\<rparr>"
  have "recv_newack c now p s1 = Inr s'"
    using assms(1) unfolding reno_new_data_def Let_def s1_def by simp
  moreover have "conn_inv s1" "tc_maxseq s1 = tc_maxseq s" using assms(2) by (simp_all add: s1_def)
  ultimately show ?thesis using assms(3-5) by (auto intro: recv_newack_inv)
qed

lemma deflate_window_sel [simp]:
  "conn_inv (deflate_window d s) = conn_inv s" "tc_maxseq (deflate_window d s) = tc_maxseq s"
  by (simp_all add: deflate_window_def Let_def)

lemma partialnewack_seq:
  assumes "seq_inv s" "-1 \<le> ta_seqno p" "ta_seqno p \<le> tc_maxseq s"
  shows "seq_inv (partialnewack c p s)" "tc_maxseq (partialnewack c p s) = tc_maxseq s"
    "tc_last_ack (partialnewack c p s) = ta_seqno p"
  using assms by (auto simp: partialnewack_def deflate_window_def seq_inv_def Let_def)

lemma partialnewack_helper_inv:
  assumes "partialnewack_helper c now p s = Inr s'" "conn_inv s" "conn_conf c" "-1 \<le> ta_seqno p" "ta_seqno p \<le> tc_maxseq s"
  shows "conn_inv s'"
proof -
  define n where "n = s\<lparr>tc_nr := (tc_nr s)\<lparr>nr_firstpartial := True\<rparr>\<rparr>"
  obtain s1 where s1: "(if \<not> cf_newreno_changes1 c \<or> \<not> nr_firstpartial (tc_nr s) then newtimer c now p n else Ok s) = Inr s1"
    and o: "tcp_output c now (tc_last_ack (partialnewack c p s1) + 1) REASON_NONE (partialnewack c p s1) = Inr s'"
    using assms(1) unfolding partialnewack_helper_def Let_def res_bind_Ok_iff n_def by blast
  have n: "seq_inv n" "tc_maxseq n = tc_maxseq s" using assms(2) by (simp_all add: n_def conn_inv_def)
  have "seq_inv s1 \<and> tc_maxseq s1 = tc_maxseq s"
  proof (cases "\<not> cf_newreno_changes1 c \<or> \<not> nr_firstpartial (tc_nr s)")
    case True
    then have "newtimer c now p n = Inr s1" using s1 by simp
    then show ?thesis by (rule newtimerE) (use n in \<open>simp add: seq_inv_def\<close>)
  next
    case False
    then show ?thesis using s1 assms(2) by (simp add: conn_inv_def)
  qed
  then have i: "seq_inv s1" "tc_maxseq s1 = tc_maxseq s" by simp_all
  show ?thesis
    by (rule tcp_output_inv(1) [OF o _ _ assms(3)])
       (use i assms(4,5) partialnewack_seq [of s1 p c] in simp_all)
qed

lemma newreno_exit_sel [simp]:
  "conn_inv s \<Longrightarrow> conn_inv (newreno_exit c p s)" "tc_maxseq (newreno_exit c p s) = tc_maxseq s"
  by (simp_all add: newreno_exit_def Let_def)

lemma newreno_estimate_sel [simp]:
  "conn_inv s \<Longrightarrow> conn_inv (newreno_estimate c now s)" "tc_maxseq (newreno_estimate c now s) = tc_maxseq s"
  by (simp_all add: newreno_estimate_def Let_def)

lemma newreno_new_data_inv:
  assumes "newreno_new_data c now p s = Inr s'" "conn_inv s" "conn_conf c" "-1 \<le> ta_seqno p" "ta_seqno p \<le> tc_maxseq s"
  shows "conn_inv s'"
proof (cases "ta_seqno p \<ge> tc_recover s \<or> tc_last_cwnd_action s \<noteq> CWND_ACTION_DUPACK")
  case True
  define s1 where "s1 = (newreno_exit c p s)\<lparr>tc_nr := (tc_nr (newreno_exit c p s))\<lparr>nr_firstpartial := False\<rparr>\<rparr>"
  have "recv_newack c now p s1 = Inr s'" using assms(1) True by (simp add: newreno_new_data_def Let_def s1_def)
  moreover have "conn_inv s1" "tc_maxseq s1 = tc_maxseq s" using assms(2) by (simp_all add: s1_def)
  ultimately show ?thesis using assms(3-5) by (auto intro: recv_newack_inv)
next
  case False
  define s1 where "s1 = (if \<not> cf_partial_window_deflation c then s\<lparr>tc_dupwnd := 0\<rparr> else s)"
  have "partialnewack_helper c now p s1 = Inr s'" using assms(1) False by (simp add: newreno_new_data_def s1_def)
  moreover have "conn_inv s1" "tc_maxseq s1 = tc_maxseq s" using assms(2) by (simp_all add: s1_def)
  ultimately show ?thesis using assms(3-5) by (auto intro: partialnewack_helper_inv)
qed

text \<open>What the three receive functions share.\<close>

lemma recv_rest_inv:
  assumes r: "(if ta_ts p < tc_lastreset s then Ok s
       else res_bind (recv_accept c p s) (\<lambda>s2.
         if ta_seqno p = tc_last_ack s2 \<and> ta_eln p \<and> cf_eln c then tcp_eln c now p s2
         else res_bind (if ta_seqno p > tc_last_ack s2 then new s2 else if ta_seqno p = tc_last_ack s2 then dup s2 else Ok s2)
                fill)) = Inr s'"
    and s: "conn_inv s" "conn_conf c" "-1 \<le> ta_seqno p" "ta_seqno p \<le> tc_maxseq s"
    and new: "\<And>t t'. new t = Inr t' \<Longrightarrow> conn_inv t \<Longrightarrow> ta_seqno p \<le> tc_maxseq t \<Longrightarrow> conn_inv t'"
    and dup: "\<And>t t'. dup t = Inr t' \<Longrightarrow> conn_inv t \<Longrightarrow> conn_inv t'"
    and fill: "\<And>t t'. fill t = Inr t' \<Longrightarrow> conn_inv t \<Longrightarrow> conn_inv t'"
  shows "conn_inv s'"
proof (cases "ta_ts p < tc_lastreset s")
  case old: False
  obtain s2 where s2: "recv_accept c p s = Inr s2"
    and r2: "(if ta_seqno p = tc_last_ack s2 \<and> ta_eln p \<and> cf_eln c then tcp_eln c now p s2
             else res_bind (if ta_seqno p > tc_last_ack s2 then new s2 else if ta_seqno p = tc_last_ack s2 then dup s2 else Ok s2)
                    fill) = Inr s'"
    using r unfolding if_not_P [OF old] res_bind_Ok_iff by blast
  have i: "conn_inv s2" "ta_seqno p \<le> tc_maxseq s2" using recv_accept_inv [OF s2 s(1)] s(4) by simp_all
  show ?thesis
  proof (cases "ta_seqno p = tc_last_ack s2 \<and> ta_eln p \<and> cf_eln c")
    case True
    then show ?thesis using r2 tcp_eln_inv [OF _ i(1) s(2)] by simp
  next
    case False
    then obtain s3 where s3: "(if ta_seqno p > tc_last_ack s2 then new s2 else if ta_seqno p = tc_last_ack s2 then dup s2 else Ok s2) = Inr s3"
      and f: "fill s3 = Inr s'"
      using r2 unfolding if_not_P [OF False] res_bind_Ok_iff by blast
    have "conn_inv s3"
      using s3 new [OF _ i] dup [OF _ i(1)] i(1) by (auto split: if_split_asm)
    then show ?thesis by (rule fill [OF f])
  qed
qed (use assms in simp)

lemma fill_inv:
  assumes "(if b then send_much c now False REASON_NONE k t else Ok t) = Inr t'" "conn_inv t" "conn_conf c"
  shows "conn_inv t'"
  using assms send_much_inv by (auto split: if_split_asm)

lemma tcp_recv_inv:
  assumes "tcp_recv c now p s = Inr s'" "conn_inv s" "conn_conf c" "-1 \<le> ta_seqno p" "ta_seqno p \<le> tc_maxseq s"
  shows "conn_inv s'"
proof (cases "cf_class c")
  case TahoeTcp
  have q: "\<not> (cf_QOption c \<and> cf_EnblRTTCtr c)" using assms(3) by (simp add: conn_conf_def)
  obtain s1 where s1: "recv_quickstart c now p s = Inr s1"
    and r: "(if ta_ts p < tc_lastreset s1 then Ok s1
       else res_bind (recv_accept c p s1) (\<lambda>s2.
         if ta_seqno p = tc_last_ack s2 \<and> ta_eln p \<and> cf_eln c then tcp_eln c now p s2
         else res_bind (if ta_seqno p > tc_last_ack s2 then recv_newack c now p s2
                        else if ta_seqno p = tc_last_ack s2 then tahoe_dupack c now s2 else Ok s2) (\<lambda>s3.
              if ta_seqno p \<ge> tc_last_ack s3 \<or> cf_aggressive_maxburst c
              then send_much c now False REASON_NONE (cf_maxburst c) s3 else Ok s3))) = Inr s'"
    using assms(1) TahoeTcp unfolding tcp_recv_def tahoe_recv_def res_bind_Ok_iff Let_def if_not_P [OF q] by auto
  note i = recv_quickstart_inv [OF s1 assms(2)]
  show ?thesis
    by (rule recv_rest_inv [where new = "recv_newack c now p" and dup = "tahoe_dupack c now", OF r i(1) assms(3,4)])
       (use assms(3-5) i(2) in \<open>auto intro: recv_newack_inv tahoe_dupack_inv fill_inv\<close>)
next
  case RenoTcp
  obtain s1 where s1: "recv_quickstart c now p s = Inr s1"
    and r: "(if ta_ts p < tc_lastreset s1 then Ok s1
       else res_bind (recv_accept c p s1) (\<lambda>s2.
         if ta_seqno p = tc_last_ack s2 \<and> ta_eln p \<and> cf_eln c then tcp_eln c now p s2
         else res_bind (if ta_seqno p > tc_last_ack s2 then reno_new_data c now p s2
                        else if ta_seqno p = tc_last_ack s2 then reno_dupack c now s2 else Ok s2) (\<lambda>s3.
              if (ta_seqno p \<ge> tc_last_ack s3 \<or> cf_aggressive_maxburst c) \<and>
                 (tc_dupacks s3 = 0 \<or> tc_dupacks s3 > cf_numdupacks c - 1)
              then send_much c now False REASON_NONE (cf_maxburst c) s3 else Ok s3))) = Inr s'"
    using assms(1) RenoTcp unfolding tcp_recv_def reno_recv_def res_bind_Ok_iff Let_def by auto
  note i = recv_quickstart_inv [OF s1 assms(2)]
  show ?thesis
    by (rule recv_rest_inv [where new = "reno_new_data c now p" and dup = "reno_dupack c now", OF r i(1) assms(3,4)])
       (use assms(3-5) i(2) in \<open>auto intro: reno_new_data_inv reno_dupack_inv fill_inv\<close>)
next
  case NewRenoTcp
  obtain s0 where s0: "recv_quickstart c now p s = Inr s0"
    and r: "(if ta_ts p < tc_lastreset (newreno_estimate c now s0) then Ok (newreno_estimate c now s0)
       else res_bind (recv_accept c p (newreno_estimate c now s0)) (\<lambda>s2.
         if ta_seqno p = tc_last_ack s2 \<and> ta_eln p \<and> cf_eln c then tcp_eln c now p s2
         else res_bind (if ta_seqno p > tc_last_ack s2 then newreno_new_data c now p s2
                        else if ta_seqno p = tc_last_ack s2 then reno_dupack c now s2 else Ok s2) (\<lambda>s3.
              if ta_seqno p \<ge> tc_last_ack s3 \<or> cf_aggressive_maxburst c
              then if tc_dupacks s3 = 0 then send_much c now False REASON_NONE (cf_maxburst c) s3
                   else if tc_dupacks s3 > cf_numdupacks c - 1 \<and> cf_newreno_changes c = 0
                   then send_much c now False REASON_NONE 2 s3 else Ok s3
              else Ok s3))) = Inr s'"
    using assms(1) NewRenoTcp unfolding tcp_recv_def newreno_recv_def res_bind_Ok_iff Let_def by auto
  note i = recv_quickstart_inv [OF s0 assms(2)]
  have f: "conn_inv t'" if "(if ta_seqno p \<ge> tc_last_ack t \<or> cf_aggressive_maxburst c
              then if tc_dupacks t = 0 then send_much c now False REASON_NONE (cf_maxburst c) t
                   else if tc_dupacks t > cf_numdupacks c - 1 \<and> cf_newreno_changes c = 0
                   then send_much c now False REASON_NONE 2 t else Ok t
              else Ok t) = Inr t'" "conn_inv t" for t t'
    using that assms(3) send_much_inv by (auto split: if_split_asm)
  show ?thesis
    by (rule recv_rest_inv [where new = "newreno_new_data c now p" and dup = "reno_dupack c now",
          OF r newreno_estimate_sel(1) [OF i(1)] assms(3,4)])
       (use assms(3-5) i(2) f in \<open>auto intro: newreno_new_data_inv reno_dupack_inv\<close>)
qed

section \<open>Timers, the application and reset\<close>

lemma timeout_window_inv:
  assumes "seq_inv s" "conn_conf c"
  shows "seq_inv (timeout_window c s)" "tc_maxseq (timeout_window c s) = tc_maxseq s"
    "tc_highest_ack (timeout_window c s) = tc_highest_ack s"
  using assms recover_maxseq_inv [OF assms(1)] by (simp_all add: timeout_window_def conn_conf_def Let_def)

lemma tcp_timeout_rtx_inv:
  assumes "tcp_timeout_rtx c now s = Inr s'" "seq_inv s" "conn_conf c"
  shows "conn_inv s'"
proof -
  obtain b s4 where r: "reset_rtx_timer c now False b (timeout_window c (timeout_start c s)) = Inr s4"
    and o: "send_much c now False TCP_REASON_TIMEOUT (cf_maxburst c) (s4\<lparr>tc_last_cwnd_action := CWND_ACTION_TIMEOUT\<rparr>) = Inr s'"
    using assms(1) unfolding tcp_timeout_rtx_def Let_def res_bind_Ok_iff by blast
  have "seq_inv (timeout_start c s)" using assms(2) by (simp add: timeout_start_def seq_inv_def Let_def)
  then have "conn_inv s4" by (intro reset_rtx_timer_inv [OF r] timeout_window_inv(1) assms(3))
  then show ?thesis by (intro send_much_inv [OF o _ assms(3)]) simp
qed

lemma st_handled_pending [simp]: "st_status t = TIMER_PENDING \<Longrightarrow> st_handled t = t"
  by (simp add: st_handled_def)

lemma tcp_expire_inv:
  assumes "tcp_expire c now tno s = Inr s'" "conn_inv s" "conn_conf c"
  shows "conn_inv s'"
proof (cases tno)
  case TCP_TIMER_RTX
  obtain t where t: "tcp_timeout c now tno (s\<lparr>tc_rtx := st_handling (tc_rtx s)\<rparr>) = Inr t"
    and s': "s' = t\<lparr>tc_rtx := st_handled (tc_rtx t)\<rparr>"
    using assms(1) TCP_TIMER_RTX by (auto simp: tcp_expire_def split: if_split_asm)
  define u where "u = (if cf_class c = TahoeTcp then s\<lparr>tc_rtx := st_handling (tc_rtx s)\<rparr>
    else reno_timeout c (s\<lparr>tc_rtx := st_handling (tc_rtx s)\<rparr>))"
  have "tcp_timeout_rtx c now u = Inr t" using t TCP_TIMER_RTX unfolding tcp_timeout_def u_def by simp
  moreover have "seq_inv u" using assms(2) by (auto simp: u_def reno_timeout_def conn_inv_def seq_inv_def)
  ultimately have "conn_inv t" using assms(3) by (rule tcp_timeout_rtx_inv)
  then show ?thesis by (simp add: s' conn_inv_def rtx_armed_def)
next
  case TCP_TIMER_DELSND
  obtain t where t: "tcp_timeout c now tno (s\<lparr>tc_delsnd := st_handling (tc_delsnd s)\<rparr>) = Inr t"
    and s': "s' = t\<lparr>tc_delsnd := st_handled (tc_delsnd t)\<rparr>"
    using assms(1) TCP_TIMER_DELSND by (auto simp: tcp_expire_def split: if_split_asm)
  have "conn_inv (s\<lparr>tc_delsnd := st_handling (tc_delsnd s)\<rparr>)"
    using assms(2) by (simp add: conn_inv_def seq_inv_def rtx_armed_def)
  then have "conn_inv t" using t TCP_TIMER_DELSND assms(3)
    by (auto simp: tcp_timeout_def timeout_nonrtx_def intro: send_much_inv)
  then show ?thesis by (simp add: s' conn_inv_def seq_inv_def rtx_armed_def)
next
  case TCP_TIMER_BURSTSND
  then show ?thesis using assms(1,2)
    by (auto simp: tcp_expire_def tcp_timeout_def timeout_nonrtx_def conn_inv_def seq_inv_def rtx_armed_def split: if_split_asm)
qed

lemma tcp_sendmsg_inv:
  assumes "tcp_sendmsg c now n s = Inr s'" "conn_inv s" "conn_conf c"
  shows "conn_inv s'"
proof -
  obtain k where "send_much c now False REASON_NONE (cf_maxburst c) (s\<lparr>tc_curseq := k\<rparr>) = Inr s'"
    using assms(1) unfolding tcp_sendmsg_def res_bind_Ok_iff by blast
  then show ?thesis by (rule send_much_inv) (use assms in simp_all)
qed

lemma tcp_advanceby_inv:
  assumes "tcp_advanceby c now n s = Inr s'" "conn_inv s" "conn_conf c"
  shows "conn_inv s'"
  by (rule send_much_inv [OF assms(1) [unfolded tcp_advanceby_def]]) (use assms in simp_all)

lemma tcp_advance_inv:
  assumes "tcp_advance c now n s = Inr s'" "conn_inv s" "conn_conf c"
  shows "conn_inv s'"
  using assms tcp_advanceby_inv by (auto simp: tcp_advance_def split: if_split_asm)

lemma tcp_persist_inv: "conn_inv s \<Longrightarrow> conn_inv (tcp_persist other s)"
  by (simp add: tcp_persist_def conn_inv_def seq_inv_def rtx_armed_def)

lemma reset_options_sel [simp]:
  "tc_last_ack (reset_options c now s) = tc_last_ack s" "tc_highest_ack (reset_options c now s) = tc_highest_ack s"
  "tc_t_seqno (reset_options c now s) = tc_t_seqno s" "tc_maxseq (reset_options c now s) = tc_maxseq s"
  "tc_recover (reset_options c now s) = tc_recover s" "tc_frto (reset_options c now s) = tc_frto s"
  by (simp_all add: reset_options_def reset_qoption_def Let_def)

text \<open>\<open>reset\<close> does not touch \<open>frto_\<close>.\<close>

lemma tcp_reset_inv:
  assumes "tcp_reset c now s = Inr s'" "tc_frto s = 0"
  shows "conn_inv s'"
proof -
  obtain s1 where s1: "set_initial_window c ((rtt_init c s)\<lparr>tc_rtt_seq := -1, tc_dupacks := 0, tc_curseq := 0\<rparr>) = Inr s1"
    using assms(1) unfolding tcp_reset_def res_bind_Ok_iff by blast
  have f: "tc_frto s1 = 0"
    using s1 assms(2) by (auto simp: set_initial_window_def rtt_init_def split: if_split_asm)
  define u where "u = reset_connection c s1"
  have "s' = reset_options c now (cancel_timers
              ((snd (tcp_uniform c (cf_tcp_tick c) u))\<lparr>tc_boot_time := fst (tcp_uniform c (cf_tcp_tick c) u),
                tc_first_decrease := True, tc_lastreset := now, tc_ct := reset_counts\<rparr>))"
    using assms(1) unfolding tcp_reset_def s1 res_bind.simps u_def [symmetric] by (simp split: prod.splits)
  then have "tc_last_ack s' = tc_last_ack u \<and> tc_highest_ack s' = tc_highest_ack u \<and> tc_t_seqno s' = tc_t_seqno u \<and>
      tc_maxseq s' = tc_maxseq u \<and> tc_recover s' = tc_recover u \<and> tc_frto s' = tc_frto u"
    by (simp add: tcp_uniform_def cancel_timers_def)
  then have "tc_last_ack s' = -1 \<and> tc_highest_ack s' = -1 \<and> tc_t_seqno s' = 0 \<and> tc_maxseq s' = -1 \<and> tc_recover s' = 0 \<and>
      tc_frto s' = tc_frto s1"
    by (simp add: u_def reset_connection_def Let_def)
  then show ?thesis using f by (simp add: conn_inv_def seq_inv_def rtx_armed_def)
qed

section \<open>The life of a connection\<close>

text \<open>
  The events of a connection: the application, acknowledgements of segments that were sent, and timers that
  expire; a step in which the process ends is no step.
\<close>

datatype tcp_event = SendMsg int | Advance int | AdvanceBy int | Persist tcp | Ack tcp_ack | Expire tcp_timer | Reset

definition tcp_handle :: "tcp_conf \<Rightarrow> real \<Rightarrow> tcp_event \<Rightarrow> tcp \<Rightarrow> tcp res" where
  "tcp_handle c now e s =
     (case e of
        SendMsg n \<Rightarrow> tcp_sendmsg c now n s
      | Advance n \<Rightarrow> tcp_advance c now n s
      | AdvanceBy n \<Rightarrow> tcp_advanceby c now n s
      | Persist u \<Rightarrow> Ok (tcp_persist u s)
      | Ack p \<Rightarrow> tcp_recv c now p s
      | Expire t \<Rightarrow> tcp_expire c now t s
      | Reset \<Rightarrow> tcp_reset c now s)"

inductive tcp_reachable :: "tcp_conf \<Rightarrow> tcp \<Rightarrow> bool" for c :: tcp_conf where
  Init: "tc_frto s0 = 0 \<Longrightarrow> tcp_reset c now s0 = Inr s \<Longrightarrow> tcp_reachable c s"
| Step: "tcp_reachable c s \<Longrightarrow> (\<And>p. e = Ack p \<Longrightarrow> -1 \<le> ta_seqno p \<and> ta_seqno p \<le> tc_maxseq s) \<Longrightarrow>
    tcp_handle c now e s = Inr s' \<Longrightarrow> tcp_reachable c s'"

text \<open>C4: In every state that a connection reaches, of Tahoe, Reno or NewReno, the next segment to be sent lies above
  the highest acknowledgement and at most one above the highest segment sent, and the retransmission timer is
  pending as long as a segment that was sent is not acknowledged: a loss never stops the connection for
  good.\<close>

theorem tcp_connection_invariant:
  assumes "tcp_reachable c s" "conn_conf c"
  shows "tc_last_ack s = tc_highest_ack s \<and> -1 \<le> tc_highest_ack s \<and> tc_highest_ack s < tc_t_seqno s \<and>
    tc_t_seqno s \<le> tc_maxseq s + 1 \<and> tc_recover s \<le> max 0 (tc_maxseq s) \<and>
    (tc_highest_ack s < tc_maxseq s \<longrightarrow> st_status (tc_rtx s) = TIMER_PENDING)"
proof -
  have "conn_inv s"
    using assms(1)
  proof induction
    case (Init s0 now s)
    then show ?case by (intro tcp_reset_inv)
  next
    case (Step s e now s')
    then have f: "tc_frto s = 0" by (simp add: conn_inv_def seq_inv_def)
    show ?case
    proof (cases e)
      case (Ack p)
      then have "-1 \<le> ta_seqno p" "ta_seqno p \<le> tc_maxseq s" using Step(2) by auto
      then show ?thesis using Step(3,4) Ack assms(2) by (auto simp: tcp_handle_def intro: tcp_recv_inv)
    qed (use Step(3,4) f assms(2) in \<open>auto simp: tcp_handle_def
          intro: tcp_sendmsg_inv tcp_advance_inv tcp_advanceby_inv tcp_persist_inv tcp_expire_inv tcp_reset_inv\<close>)
  qed
  then show ?thesis by (simp add: conn_inv_def seq_inv_def rtx_armed_def)
qed

end
