(* ===== verification/Tcp_Loss.thy ===== *)
theory Tcp_Loss
  imports Tcp_Agent_Correct
begin

text \<open>
  What the senders of TCP send: the segments with which the loop fills the window, the retransmission after
  a timeout and the fast retransmit of Reno after three duplicate acknowledgements.
\<close>

section \<open>Filling the window\<close>

text \<open>What the window and the estimate of the timeout depend on.\<close>

definition same_window :: "tcp \<Rightarrow> tcp \<Rightarrow> bool" where
  "same_window s t \<longleftrightarrow> tc_cwnd t = tc_cwnd s \<and> tc_dupwnd t = tc_dupwnd s \<and> tc_frto t = tc_frto s \<and>
     tc_recover t = tc_recover s \<and> tc_highest_ack t = tc_highest_ack s \<and> tc_ssthresh t = tc_ssthresh s \<and>
     tc_t_rtxcur t = tc_t_rtxcur s \<and> tc_t_backoff t = tc_t_backoff s \<and> tc_last_ack t = tc_last_ack s"

lemma same_window_refl [simp]: "same_window s s"
  by (simp add: same_window_def)

lemma same_window_trans [trans]: "same_window s t \<Longrightarrow> same_window t u \<Longrightarrow> same_window s u"
  by (simp add: same_window_def)

lemma same_window_window: "same_window s t \<Longrightarrow> window c t = window c s"
  by (cases "cf_class c") (simp_all add: same_window_def window_def force_wnd_def)

text \<open>Without a limit on the SYNs, \<open>output\<close> sends one segment; it does not tell the application that all is
  sent when the segment lies below \<open>curseq_\<close>.\<close>

lemma tcp_output_sends:
  assumes "tcp_output c now q reason s = Inr s'" "cf_max_connects c \<le> 0" "q < tc_curseq s \<or> q \<le> tc_maxseq s"
  shows "\<exists>p. tc_out s' = tc_out s @ [Send p] \<and> tp_seqno p = q \<and> tp_reason p = reason"
    "same_window s s'" "tc_curseq s \<le> tc_curseq s'" "tc_t_seqno s' = tc_t_seqno s"
proof -
  have "(\<exists>p. tc_out s' = tc_out s @ [Send p] \<and> tp_seqno p = q \<and> tp_reason p = reason) \<and> same_window s s' \<and>
      tc_curseq s \<le> tc_curseq s' \<and> tc_t_seqno s' = tc_t_seqno s"
    using assms(1)
  proof (cases rule: tcp_outputE)
    case Abort
    then show ?thesis using assms(2) by simp
  next
    case (Sent p a b u cs k i v w ct act rs rt ur rx)
    have "\<not> (q = cs \<and> q > tc_maxseq s)" using assms(3) Sent(3) by (auto split: if_splits)
    then show ?thesis unfolding Sent(4) using Sent(1,2,3) by (auto simp: same_window_def)
  qed
  then show "\<exists>p. tc_out s' = tc_out s @ [Send p] \<and> tp_seqno p = q \<and> tp_reason p = reason"
    "same_window s s'" "tc_curseq s \<le> tc_curseq s'" "tc_t_seqno s' = tc_t_seqno s"
    by blast+
qed

lemma delayed_send_sel [simp]:
  "tc_out (resched_quickstart c now win s) = tc_out s" "tc_out (send_later c now s) = tc_out s"
  "tc_t_seqno (resched_quickstart c now win s) = tc_t_seqno s" "tc_t_seqno (send_later c now s) = tc_t_seqno s"
  "tc_curseq (resched_quickstart c now win s) = tc_curseq s" "tc_curseq (send_later c now s) = tc_curseq s"
  "same_window t (resched_quickstart c now win s) = same_window t s" "same_window t (send_later c now s) = same_window t s"
  by (simp_all add: resched_quickstart_def send_later_def tcp_uniform_def same_window_def Let_def)

lemma same_window_seqno [simp]: "same_window t (s\<lparr>tc_t_seqno := n\<rparr>) = same_window t s"
  by (simp add: same_window_def)

lemma send_step_sends:
  assumes "send_step c now force reason mb np win s = Inr (b, s')" "cf_max_connects c \<le> 0" "\<not> cf_QOption c"
    and "tc_t_seqno s < tc_curseq s"
  shows "(\<exists>p. tc_out s' = tc_out s @ [Send p] \<and> tp_seqno p = tc_t_seqno s \<and> tp_reason p = reason \<and>
            tc_t_seqno s' = tc_t_seqno s + 1 \<and> (b \<longrightarrow> mb \<noteq> 0 \<longrightarrow> np + 1 \<noteq> mb)) \<or>
         tc_out s' = tc_out s \<and> tc_t_seqno s' = tc_t_seqno s \<and> \<not> b"
    "same_window s s'" "tc_curseq s \<le> tc_curseq s'"
proof -
  have q: "qoption_sent c now t = Ok t" for t using assms(3) by (simp add: qoption_sent_def)
  have "((\<exists>p. tc_out s' = tc_out s @ [Send p] \<and> tp_seqno p = tc_t_seqno s \<and> tp_reason p = reason \<and>
            tc_t_seqno s' = tc_t_seqno s + 1 \<and> (b \<longrightarrow> mb \<noteq> 0 \<longrightarrow> np + 1 \<noteq> mb)) \<or>
         tc_out s' = tc_out s \<and> tc_t_seqno s' = tc_t_seqno s \<and> \<not> b) \<and> same_window s s' \<and> tc_curseq s \<le> tc_curseq s'"
  proof (cases "cf_overhead c = 0 \<or> force \<or> tc_qs_approved s")
    case True
    then obtain s1 where s1: "tcp_output c now (tc_t_seqno s) reason s = Inr s1"
      and r: "(let s3 = s1\<lparr>tc_t_seqno := tc_t_seqno s1 + 1\<rparr>
               in if tc_qs_approved s3 then Ok (False, resched_quickstart c now win s3)
                  else Ok (\<not> (mb \<noteq> 0 \<and> np + 1 = mb), s3)) = Inr (b, s')"
      using assms(1) unfolding send_step_def q res_bind.simps by auto
    note o = tcp_output_sends [OF s1 assms(2)]
    show ?thesis
      using o(1-4) assms(4) r unfolding Let_def by (auto split: if_split_asm)
  next
    case False
    then show ?thesis using assms(1) unfolding send_step_def if_not_P [OF False] by (auto split: if_split_asm)
  qed
  then show "(\<exists>p. tc_out s' = tc_out s @ [Send p] \<and> tp_seqno p = tc_t_seqno s \<and> tp_reason p = reason \<and>
            tc_t_seqno s' = tc_t_seqno s + 1 \<and> (b \<longrightarrow> mb \<noteq> 0 \<longrightarrow> np + 1 \<noteq> mb)) \<or>
         tc_out s' = tc_out s \<and> tc_t_seqno s' = tc_t_seqno s \<and> \<not> b"
    "same_window s s'" "tc_curseq s \<le> tc_curseq s'"
    by blast+
qed

text \<open>The segments that a call sends: in sequence, for one reason, inside the window and below \<open>curseq_\<close>.\<close>

definition sends_window :: "tcp_reason \<Rightarrow> int \<Rightarrow> tcp \<Rightarrow> tcp \<Rightarrow> tcp_pkt list \<Rightarrow> bool" where
  "sends_window reason edge s s' ps \<longleftrightarrow>
     tc_t_seqno s \<le> tc_t_seqno s' \<and> tc_out s' = tc_out s @ map Send ps \<and> map tp_seqno ps = [tc_t_seqno s..tc_t_seqno s' - 1] \<and>
     (\<forall>p\<in>set ps. tp_reason p = reason \<and> tp_seqno p \<le> edge \<and> tp_seqno p < tc_curseq s')"

lemma send_loop_sends:
  assumes "send_loop c now force reason mb np win s = Inr s'" "cf_max_connects c \<le> 0" "\<not> cf_QOption c" "win = window c s"
  shows "(\<exists>ps. sends_window reason (tc_highest_ack s + window c s) s s' ps \<and>
           (mb \<noteq> 0 \<longrightarrow> np < mb \<longrightarrow> int (length ps) \<le> mb - np)) \<and> same_window s s' \<and> tc_curseq s \<le> tc_curseq s'"
  using assms
proof (induction c now force reason mb np win s rule: send_loop.induct)
  case (1 c now force reason mb np win s)
  show ?case
  proof (cases "tc_t_seqno s \<le> tc_highest_ack s + win \<and> tc_t_seqno s < tc_curseq s")
    case True
    then obtain x where x: "send_step c now force reason mb np win s = Inr x"
      and r: "(if fst x then send_loop c now force reason mb (np + 1) (window c (snd x)) (snd x) else Ok (snd x)) = Inr s'"
      using "1.prems"(1) unfolding send_loop.simps [of c now force reason mb np win s] by auto
    define b t where "b = fst x" and "t = snd x"
    have st: "send_step c now force reason mb np win s = Inr (b, t)" using x by (simp add: b_def t_def)
    note o = send_step_sends [OF st "1.prems"(2,3)]
    have sw: "same_window s t" "tc_curseq s \<le> tc_curseq t" using o(2,3) True by simp_all
    have edge: "tc_highest_ack t + window c t = tc_highest_ack s + window c s"
      using sw(1) same_window_window [OF sw(1)] by (simp add: same_window_def)
    show ?thesis
    proof (cases b)
      case b: True
      then obtain p where p: "tc_out t = tc_out s @ [Send p]" "tp_seqno p = tc_t_seqno s" "tp_reason p = reason"
        "tc_t_seqno t = tc_t_seqno s + 1" "mb \<noteq> 0 \<longrightarrow> np + 1 \<noteq> mb"
        using o(1) True by auto
      have r': "send_loop c now force reason mb (np + 1) (window c t) t = Inr s'" using r b by (simp add: b_def t_def)
      obtain ps where ps: "sends_window reason (tc_highest_ack s + window c s) t s' ps"
        "mb \<noteq> 0 \<longrightarrow> np + 1 < mb \<longrightarrow> int (length ps) \<le> mb - (np + 1)" and sw': "same_window t s'" "tc_curseq t \<le> tc_curseq s'"
        using "1.IH" [OF True x] r' "1.prems"(2,3) b unfolding b_def t_def edge [unfolded t_def] by auto
      have le: "tc_t_seqno t \<le> tc_t_seqno s'" using ps(1) by (simp add: sends_window_def)
      have le': "tc_t_seqno s \<le> tc_t_seqno s'" using le p(4) by linarith
      have "[tc_t_seqno s..tc_t_seqno s' - 1] = tc_t_seqno s # [tc_t_seqno t..tc_t_seqno s' - 1]"
        using le p(4) by (simp add: upto_rec1)
      then have e1: "map tp_seqno (p # ps) = [tc_t_seqno s..tc_t_seqno s' - 1]"
        using ps(1) p(2) by (simp add: sends_window_def)
      have e2: "\<forall>x\<in>set (p # ps). tp_reason x = reason \<and> tp_seqno x \<le> tc_highest_ack s + window c s \<and>
          tp_seqno x < tc_curseq s'"
      proof -
        have "tp_reason p = reason" "tp_seqno p \<le> tc_highest_ack s + window c s" "tp_seqno p < tc_curseq s'"
          using p(2,3) True "1.prems"(4) sw(2) sw'(2) by linarith+
        then show ?thesis using ps(1) unfolding sends_window_def by simp
      qed
      have e3: "tc_out s' = tc_out s @ map Send (p # ps)"
        using ps(1) p(1) by (simp add: sends_window_def)
      have w: "sends_window reason (tc_highest_ack s + window c s) s s' (p # ps)"
        unfolding sends_window_def by (intro conjI le' e1 e2 e3)
      have m: "mb \<noteq> 0 \<longrightarrow> np < mb \<longrightarrow> int (length (p # ps)) \<le> mb - np"
        using ps(2) p(5) by auto
      show ?thesis
        by (intro conjI exI [of _ "p # ps"] w m same_window_trans [OF sw(1) sw'(1)] order_trans [OF sw(2) sw'(2)])
    next
      case b: False
      then have s': "s' = t" using r by (simp add: b_def t_def)
      have "(\<exists>p. sends_window reason (tc_highest_ack s + window c s) s s' [p]) \<or>
            sends_window reason (tc_highest_ack s + window c s) s s' []"
        using o(1) True "1.prems"(4) sw unfolding s' by (auto simp: sends_window_def)
      then obtain ps where "sends_window reason (tc_highest_ack s + window c s) s s' ps" "length ps \<le> 1"
        by fastforce
      then show ?thesis using sw s' by (intro conjI exI [of _ ps]) auto
    qed
  next
    case False
    then have "s' = s" using "1.prems" unfolding send_loop.simps [of c now force reason mb np win s] by auto
    then show ?thesis by (auto simp: sends_window_def)
  qed
qed

text \<open>C5: \<open>send_much\<close> sends the segments from \<open>t_seqno_\<close> on, each once and in order, never beyond the
  window above the highest acknowledgement and never beyond the data that the application has
  produced, and at most \<open>maxburst\<close> of them; it does not call \<open>idle\<close>.\<close>

theorem send_much_in_window:
  assumes "send_much c now force reason mb s = Inr s'" "cf_max_connects c \<le> 0" "\<not> cf_QOption c" "0 \<le> mb"
  shows "\<exists>ps. tc_out s' = tc_out s @ map Send ps \<and> map tp_seqno ps = [tc_t_seqno s..tc_t_seqno s' - 1] \<and>
    (\<forall>p\<in>set ps. tp_reason p = reason \<and> tp_seqno p \<le> tc_highest_ack s + window c s \<and> tp_seqno p < tc_curseq s') \<and>
    (mb \<noteq> 0 \<longrightarrow> int (length ps) \<le> mb)"
proof -
  define t where "t = (if tc_t_seqno s = 0 then s\<lparr>tc_firstsent := now\<rparr> else s)"
  have t: "tc_out t = tc_out s" "tc_t_seqno t = tc_t_seqno s" "tc_highest_ack t = tc_highest_ack s"
    by (simp_all add: t_def)
  have w: "window c t = window c s" by (rule same_window_window) (simp add: t_def same_window_def)
  have "(tc_out s' = tc_out s \<and> tc_t_seqno s' = tc_t_seqno s) \<or> send_loop c now force reason mb 0 (window c t) t = Inr s'"
    using assms(1) unfolding send_much_def Let_def t_def [symmetric] using t(1,2)
    by (auto split: if_split_asm)
  then show ?thesis
  proof
    assume "tc_out s' = tc_out s \<and> tc_t_seqno s' = tc_t_seqno s"
    then show ?thesis using assms(4) by (intro exI [of _ "[]"]) simp
  next
    assume "send_loop c now force reason mb 0 (window c t) t = Inr s'"
    then obtain ps where "sends_window reason (tc_highest_ack t + window c t) t s' ps"
      "mb \<noteq> 0 \<longrightarrow> 0 < mb \<longrightarrow> int (length ps) \<le> mb - 0"
      using send_loop_sends [OF _ assms(2,3) refl] by blast
    then show ?thesis using assms(4) unfolding sends_window_def t w by (intro exI [of _ ps]) auto
  qed
qed

section \<open>The loop returns\<close>

definition rto_ok :: "tcp_conf \<Rightarrow> tcp \<Rightarrow> bool" where
  "rto_ok c s \<longleftrightarrow> 0 < cf_tcp_tick c \<and> 2 * cf_tcp_tick c \<le> cf_maxrto c \<and> 0 \<le> cf_minrto c \<and>
     0 \<le> tc_t_rtxcur s \<and> 1 \<le> tc_t_backoff s"

text \<open>The parameters are sensible and the table of time stamps is not used.\<close>

definition can_send :: "tcp_conf \<Rightarrow> tcp \<Rightarrow> bool" where
  "can_send c s \<longleftrightarrow> rto_ok c s \<and> \<not> cf_bugfix_ts c \<and> tc_tss s = None \<and> cf_max_connects c \<le> 0 \<and> \<not> cf_QOption c"

lemma rtt_timeout_returns:
  assumes "rto_ok c s"
  shows "\<exists>t. rtt_timeout c s = Inr (t, s\<lparr>tc_use_rtt := False\<rparr>)"
proof -
  have z: "0 \<le> rto_scaled c s" by (rule rto_scaled_nonneg) (use assms in \<open>simp_all add: rto_ok_def\<close>)
  then show ?thesis using assms by (simp add: rtt_timeout_def rto_ok_def Let_def)
qed

lemma set_rtx_timer_returns: "rto_ok c s \<Longrightarrow> \<exists>s'. set_rtx_timer c now s = Inr s'"
  using rtt_timeout_returns [of c s] by (auto simp: set_rtx_timer_def)

lemma tcp_output_returns:
  assumes "can_send c s"
  shows "\<exists>s'. tcp_output c now q reason s = Inr s' \<and> can_send c s'"
proof -
  have t: "tss_store c q now s = Ok s" using assms by (simp add: can_send_def tss_store_def Let_def)
  obtain d po s2 where h: "output_header c now q reason s = (d, po, s2)" by (metis prod_cases3)
  show ?thesis
  proof (cases po)
    case None
    then show ?thesis using output_header_None [OF h [unfolded None]] assms by (auto simp: can_send_def)
  next
    case (Some p)
    have s2: "can_send c s2"
      by (rule output_header_Some [OF h [unfolded Some]]) (use assms in \<open>simp add: can_send_def rto_ok_def\<close>)
    define s3 where "s3 = output_sent now q d p s2"
    have s3: "can_send c s3" using s2 by (simp add: s3_def output_sent_def can_send_def rto_ok_def Let_def)
    then obtain s4 where s4: "set_rtx_timer c now s3 = Inr s4"
      using set_rtx_timer_returns [of c s3 now] by (auto simp: can_send_def)
    have c4: "can_send c s4"
      by (rule set_rtx_timerE [OF s4]) (use s3 in \<open>simp add: can_send_def rto_ok_def\<close>)
    have "output_send c now q d p s2 = Inr s4 \<or> output_send c now q d p s2 = Inr s3"
      unfolding output_send_def Let_def s3_def [symmetric] s4 by simp
    then show ?thesis using t h Some s3 c4 by (auto simp: tcp_output_def)
  qed
qed

lemma send_step_returns:
  assumes "can_send c s" "cf_overhead c = 0"
  shows "\<exists>b s'. send_step c now force reason mb np win s = Inr (b, s') \<and> can_send c s'"
proof -
  obtain s1 where s1: "tcp_output c now (tc_t_seqno s) reason s = Inr s1" and i: "can_send c s1"
    using tcp_output_returns [OF assms(1)] by blast
  have q: "qoption_sent c now s1 = Ok s1" using assms(1) by (simp add: qoption_sent_def can_send_def)
  have "can_send c (s1\<lparr>tc_t_seqno := tc_t_seqno s1 + 1\<rparr>)"
    "can_send c (resched_quickstart c now win (s1\<lparr>tc_t_seqno := tc_t_seqno s1 + 1\<rparr>))"
    using i by (simp_all add: can_send_def rto_ok_def resched_quickstart_def tcp_uniform_def Let_def)
  then show ?thesis unfolding send_step_def s1 res_bind.simps q Let_def using assms(2)
    by (cases "tc_qs_approved s1") auto
qed

lemma send_loop_returns:
  assumes "can_send c s" "cf_overhead c = 0"
  shows "\<exists>s'. send_loop c now force reason mb np win s = Inr s'"
  using assms
proof (induction c now force reason mb np win s rule: send_loop.induct)
  case (1 c now force reason mb np win s)
  show ?case
  proof (cases "tc_t_seqno s \<le> tc_highest_ack s + win \<and> tc_t_seqno s < tc_curseq s")
    case True
    obtain b t where t: "send_step c now force reason mb np win s = Inr (b, t)" "can_send c t"
      using send_step_returns [OF "1.prems"] by blast
    show ?thesis
    proof (cases b)
      case b: True
      obtain s' where "send_loop c now force reason mb (np + 1) (window c t) t = Inr s'"
        using "1.IH" [OF True t(1)] b t(2) "1.prems"(2) by auto
      then show ?thesis unfolding send_loop.simps [of c now force reason mb np win s] using True t(1) b by simp
    next
      case False
      then show ?thesis unfolding send_loop.simps [of c now force reason mb np win s] using True t(1) by simp
    qed
  next
    case False
    show ?thesis unfolding send_loop.simps [of c now force reason mb np win s] if_not_P [OF False] by blast
  qed
qed

text \<open>A window with room makes the loop send the next segment first.\<close>

lemma send_loop_first:
  assumes "can_send c s" "cf_overhead c = 0" "1 \<le> window c s" "tc_t_seqno s = tc_highest_ack s + 1"
    "tc_t_seqno s < tc_curseq s"
  shows "\<exists>s' p ps. send_loop c now force reason mb np (window c s) s = Inr s' \<and> tc_out s' = tc_out s @ Send p # map Send ps \<and>
    tp_seqno p = tc_t_seqno s \<and> tp_reason p = reason \<and> same_window s s'"
proof -
  obtain b t where t: "send_step c now force reason mb np (window c s) s = Inr (b, t)" "can_send c t"
    using send_step_returns [OF assms(1,2)] by blast
  have mc: "cf_max_connects c \<le> 0" "\<not> cf_QOption c" using assms(1) by (simp_all add: can_send_def)
  have g: "tc_t_seqno s \<le> tc_highest_ack s + window c s \<and> tc_t_seqno s < tc_curseq s" using assms(3-5) by simp
  obtain s1 where s1: "tcp_output c now (tc_t_seqno s) reason s = Inr s1"
    using tcp_output_returns [OF assms(1)] by blast
  have q: "qoption_sent c now s1 = Ok s1" using mc by (simp add: qoption_sent_def)
  note o = tcp_output_sends [OF s1 mc(1)]
  have oo: "tc_out t = tc_out s1" 
    using t(1) assms(2) unfolding send_step_def s1 res_bind.simps q Let_def by (auto split: if_split_asm)
  obtain p where p: "tc_out s1 = tc_out s @ [Send p]" "tp_seqno p = tc_t_seqno s" "tp_reason p = reason"
    using o(1) assms(5) by auto
  have sw: "same_window s t" using send_step_sends(2) [OF t(1) mc assms(5)] .
  show ?thesis
  proof (cases b)
    case True
    obtain s' where s': "send_loop c now force reason mb (np + 1) (window c t) t = Inr s'"
      using send_loop_returns [OF t(2) assms(2)] by blast
    obtain ps where ps: "sends_window reason (tc_highest_ack t + window c t) t s' ps" and sw': "same_window t s'"
      using send_loop_sends [OF s' mc refl] by blast
    have "send_loop c now force reason mb np (window c s) s = Inr s'"
      unfolding send_loop.simps [of c now force reason mb np "window c s" s] using g t(1) True s' by simp
    moreover have "tc_out s' = tc_out s @ Send p # map Send ps"
      using ps oo p(1) by (simp add: sends_window_def)
    ultimately show ?thesis using p(2,3) same_window_trans [OF sw sw'] by blast
  next
    case False
    have "send_loop c now force reason mb np (window c s) s = Inr t"
      unfolding send_loop.simps [of c now force reason mb np "window c s" s] using g t(1) False by simp
    moreover have "tc_out t = tc_out s @ Send p # map Send []" using oo p(1) by simp
    ultimately show ?thesis using p(2,3) sw by blast
  qed
qed

section \<open>The retransmission timeout\<close>

lemma rtt_backoff_returns:
  assumes "rto_ok c s"
  shows "\<exists>s' u b v r. rtt_backoff c s = Inr s' \<and> s' = s\<lparr>tc_use_rtt := u, tc_t_backoff := b, tc_t_rttvar := v, tc_t_srtt := r\<rparr> \<and>
    1 \<le> b \<and> (tc_t_backoff s < 64 \<longrightarrow> b = 2 * tc_t_backoff s)"
proof -
  obtain t where t: "rtt_timeout c s = Inr (t, s\<lparr>tc_use_rtt := False\<rparr>)"
    using rtt_timeout_returns [OF assms] by blast
  have "rtt_backoff c s \<noteq> Inl e" for e
    by (auto simp: rtt_backoff_def t res_bind_Fail_iff Let_def split: prod.splits if_split_asm)
  then obtain s' where s': "rtt_backoff c s = Inr s'" by (cases "rtt_backoff c s") auto
  obtain u b v r where e: "s' = s\<lparr>tc_use_rtt := u, tc_t_backoff := b, tc_t_rttvar := v, tc_t_srtt := r\<rparr>"
    by (rule rtt_backoffE [OF s'])
  have "1 \<le> b \<and> (tc_t_backoff s < 64 \<longrightarrow> b = 2 * tc_t_backoff s)"
    using rtt_backoff_cases (1,3) [OF s'] assms unfolding e rto_ok_def by auto
  then show ?thesis using s' e by blast
qed

lemma reset_rtx_timer_returns:
  assumes "can_send c s"
  shows "\<exists>s' u b v r rx. reset_rtx_timer c now mild backoff s = Inr s' \<and>
    s' = s\<lparr>tc_use_rtt := u, tc_t_backoff := b, tc_t_rttvar := v, tc_t_srtt := r, tc_rtx := rx,
           tc_t_seqno := if mild then tc_t_seqno s else tc_highest_ack s + 1, tc_rtt_active := False\<rparr> \<and>
    1 \<le> b \<and> (if backoff then tc_t_backoff s < 64 \<longrightarrow> b = 2 * tc_t_backoff s else b = tc_t_backoff s)"
proof -
  have ok: "rto_ok c s" using assms by (simp add: can_send_def)
  obtain s1 u b v r where s1: "(if backoff then rtt_backoff c s else Ok s) = Inr s1"
    and e1: "s1 = s\<lparr>tc_use_rtt := u, tc_t_backoff := b, tc_t_rttvar := v, tc_t_srtt := r\<rparr>" "1 \<le> b"
    "if backoff then tc_t_backoff s < 64 \<longrightarrow> b = 2 * tc_t_backoff s else b = tc_t_backoff s"
  proof (cases backoff)
    case True
    then show ?thesis using that rtt_backoff_returns [OF ok] by auto
  next
    case False
    show ?thesis
      by (rule that [of s "tc_t_srtt s" "tc_t_rttvar s" "tc_t_backoff s" "tc_use_rtt s"])
         (use False ok in \<open>simp_all add: rto_ok_def\<close>)
  qed
  have "rto_ok c s1" using ok e1 by (simp add: rto_ok_def)
  then obtain s2 where s2: "set_rtx_timer c now s1 = Inr s2" using set_rtx_timer_returns by blast
  obtain t where t: "s2 = s1\<lparr>tc_use_rtt := False, tc_rtx := st_resched now t\<rparr>" by (rule set_rtx_timerE [OF s2])
  define s' where "s' = (if mild then s2 else s2\<lparr>tc_t_seqno := tc_highest_ack s2 + 1\<rparr>)\<lparr>tc_rtt_active := False\<rparr>"
  have "reset_rtx_timer c now mild backoff s = Inr s'"
    unfolding reset_rtx_timer_def s1 res_bind.simps s2 s'_def ..
  moreover have "s' = s\<lparr>tc_use_rtt := False, tc_t_backoff := b, tc_t_rttvar := v, tc_t_srtt := r, tc_rtx := st_resched now t,
           tc_t_seqno := if mild then tc_t_seqno s else tc_highest_ack s + 1, tc_rtt_active := False\<rparr>"
    unfolding s'_def t e1(1) by simp
  ultimately show ?thesis using e1(2,3) by blast
qed

lemma window_ge1:
  assumes "1 \<le> cf_wnd c" "1 \<le> tc_cwnd s" "tc_frto s = 0" "cf_class c \<noteq> TahoeTcp \<Longrightarrow> tc_dupwnd s \<ge> 0"
  shows "1 \<le> window c s"
proof -
  have "1 \<le> trunc (cf_wnd c)" "1 \<le> trunc (tc_cwnd s)" using assms(1,2) by (simp_all add: trunc_nonneg le_floor_iff)
  then show ?thesis using assms(3,4) by (cases "cf_class c") (auto simp: window_def Let_def)
qed

text \<open>What is left of the state when the window has been reduced.\<close>

lemma timeout_reduced:
  assumes "\<not> cf_frto_enabled c" "\<not> cf_sfrto_enabled c" "tc_highest_ack s < tc_maxseq s" "1 \<le> tc_wnd_restart s"
  defines "v \<equiv> timeout_window c (timeout_start c s)"
  shows "tc_highest_ack v = tc_highest_ack s" "tc_maxseq v = tc_maxseq s" "tc_curseq v = tc_curseq s" "tc_out v = tc_out s"
    "tc_frto v = 0" "tc_dupwnd v = tc_dupwnd s" "tc_t_rtxcur v = tc_t_rtxcur s" "tc_t_backoff v = tc_t_backoff s"
    "tc_tss v = tc_tss s" "tc_delsnd v = tc_delsnd s" "tc_burstsnd v = tc_burstsnd s"
    "1 \<le> tc_cwnd v" "tc_cwnd v \<le> tc_wnd_restart s" "2 \<le> tc_ssthresh v"
proof -
  define t where "t = timeout_start c s"
  have t: "tc_highest_ack t = tc_highest_ack s" "tc_maxseq t = tc_maxseq s" "tc_curseq t = tc_curseq s" "tc_out t = tc_out s"
    "tc_frto t = 0" "tc_dupwnd t = tc_dupwnd s" "tc_t_rtxcur t = tc_t_rtxcur s" "tc_t_backoff t = tc_t_backoff s"
    "tc_tss t = tc_tss s" "tc_delsnd t = tc_delsnd s" "tc_burstsnd t = tc_burstsnd s" "tc_wnd_restart t = tc_wnd_restart s"
    by (simp_all add: t_def timeout_start_def Let_def)
  define w where "w = (if tc_highest_ack t = -1 \<and> tc_wnd_init_option t = 2 then (t\<lparr>tc_recover := tc_maxseq t\<rparr>)\<lparr>tc_wnd_init_option := 1\<rparr>
      else if tc_highest_ack t = -1 \<and> tc_wnd_init_option t = 1 \<and> tc_wnd_init t > 1 \<and> cf_bugfix_ss c
      then (t\<lparr>tc_recover := tc_maxseq t\<rparr>)\<lparr>tc_wnd_init := 1\<rparr> else t\<lparr>tc_recover := tc_maxseq t\<rparr>)"
  have w: "tc_highest_ack w = tc_highest_ack s" "tc_maxseq w = tc_maxseq s" "tc_curseq w = tc_curseq s" "tc_out w = tc_out s"
    "tc_frto w = 0" "tc_dupwnd w = tc_dupwnd s" "tc_t_rtxcur w = tc_t_rtxcur s" "tc_t_backoff w = tc_t_backoff s"
    "tc_tss w = tc_tss s" "tc_delsnd w = tc_delsnd s" "tc_burstsnd w = tc_burstsnd s" "tc_wnd_restart w = tc_wnd_restart s"
    by (simp_all add: w_def t)
  have "v = slowdown c {CLOSE_CWND_ONE} w \<or>
      v = slowdown c {CLOSE_SSTHRESH_HALF, CLOSE_CWND_RESTART}
                     (w\<lparr>tc_ct := (tc_ct w)\<lparr>ct_nrexmit := ct_nrexmit (tc_ct w) + 1\<rparr>,
                         tc_last_cwnd_action := CWND_ACTION_TIMEOUT\<rparr>)"
    using assms(1-3) t(1,2) w(1,2)
    unfolding v_def timeout_window_def t_def [symmetric] Let_def by (auto simp: w_def)
  moreover have "1 \<le> \<lfloor>tc_wnd_restart s\<rfloor>" "of_int (trunc (tc_wnd_restart s)) \<le> tc_wnd_restart s"
    using assms(4) by (simp_all add: le_floor_iff trunc_nonneg)
  ultimately show "tc_highest_ack v = tc_highest_ack s" "tc_maxseq v = tc_maxseq s" "tc_curseq v = tc_curseq s" "tc_out v = tc_out s"
    "tc_frto v = 0" "tc_dupwnd v = tc_dupwnd s" "tc_t_rtxcur v = tc_t_rtxcur s" "tc_t_backoff v = tc_t_backoff s"
    "tc_tss v = tc_tss s" "tc_delsnd v = tc_delsnd s" "tc_burstsnd v = tc_burstsnd s"
    "1 \<le> tc_cwnd v" "tc_cwnd v \<le> tc_wnd_restart s" "2 \<le> tc_ssthresh v"
    using w assms(4) by (auto simp: slowdown_def slowdown_cwnd_def slowdown_ssthresh_def Let_def trunc_nonneg)
qed

lemma send_much_first:
  assumes "can_send c s" "cf_overhead c = 0" "1 \<le> window c s" "tc_t_seqno s = tc_highest_ack s + 1"
    "tc_t_seqno s < tc_curseq s" "st_status (tc_delsnd s) \<noteq> TIMER_PENDING" "st_status (tc_burstsnd s) \<noteq> TIMER_PENDING"
  shows "\<exists>s' p ps. send_much c now force reason mb s = Inr s' \<and> tc_out s' = tc_out s @ Send p # map Send ps \<and>
    tp_seqno p = tc_t_seqno s \<and> tp_reason p = reason \<and> same_window s s'"
proof -
  define t where "t = (if tc_t_seqno s = 0 then s\<lparr>tc_firstsent := now\<rparr> else s)"
  have t: "can_send c t" "tc_out t = tc_out s" "tc_t_seqno t = tc_t_seqno s" "tc_highest_ack t = tc_highest_ack s"
    "tc_curseq t = tc_curseq s" "same_window s t" "tc_burstsnd t = tc_burstsnd s"
    using assms(1) by (simp_all add: t_def can_send_def rto_ok_def same_window_def)
  have w: "window c t = window c s" by (rule same_window_window [OF t(6)])
  obtain s' p ps where "send_loop c now force reason mb 0 (window c t) t = Inr s'" "tc_out s' = tc_out t @ Send p # map Send ps"
    "tp_seqno p = tc_t_seqno t" "tp_reason p = reason" "same_window t s'"
    using send_loop_first [of c t now force reason mb 0] assms t w by auto
  moreover have "send_much c now force reason mb s = send_loop c now force reason mb 0 (window c t) t"
    unfolding send_much_def Let_def t_def [symmetric] t(7) using assms(6,7) by simp
  ultimately show ?thesis using t same_window_trans [OF t(6)] by auto
qed

text \<open>C6: When the retransmission timer expires with data outstanding, the code returns, and has sent the first
  segment that is not acknowledged before any other; the window is the restart window or smaller, the
  threshold at least two segments, and the backoff has doubled.\<close>

theorem timeout_resends_first:
  assumes "can_send c s" "cf_overhead c = 0" "\<not> cf_frto_enabled c" "\<not> cf_sfrto_enabled c" "1 \<le> cf_wnd c" "1 \<le> tc_wnd_restart s"
    and "tc_highest_ack s < tc_maxseq s" "tc_highest_ack s + 1 < tc_curseq s"
    and "st_status (tc_rtx s) = TIMER_PENDING" "st_status (tc_delsnd s) \<noteq> TIMER_PENDING" "st_status (tc_burstsnd s) \<noteq> TIMER_PENDING"
  shows "\<exists>s' p ps. tcp_expire c now TCP_TIMER_RTX s = Inr s' \<and> tc_out s' = tc_out s @ Send p # map Send ps \<and>
    tp_seqno p = tc_highest_ack s + 1 \<and> tp_reason p = TCP_REASON_TIMEOUT \<and>
    1 \<le> tc_cwnd s' \<and> tc_cwnd s' \<le> tc_wnd_restart s \<and> 2 \<le> tc_ssthresh s' \<and>
    (tc_t_backoff s < 64 \<longrightarrow> tc_t_backoff s' = 2 * tc_t_backoff s)"
proof -
  define h where "h = s\<lparr>tc_rtx := st_handling (tc_rtx s)\<rparr>"
  define u where "u = (if cf_class c = TahoeTcp then h else reno_timeout c h)"
  have u: "can_send c u" "tc_highest_ack u = tc_highest_ack s" "tc_maxseq u = tc_maxseq s" "tc_curseq u = tc_curseq s"
    "tc_out u = tc_out s" "cf_class c \<noteq> TahoeTcp \<Longrightarrow> tc_dupwnd u = 0" "tc_t_rtxcur u = tc_t_rtxcur s"
    "tc_t_backoff u = tc_t_backoff s" "tc_wnd_restart u = tc_wnd_restart s" "tc_delsnd u = tc_delsnd s"
    "tc_burstsnd u = tc_burstsnd s" "tc_tss u = tc_tss s"
    using assms(1) by (simp_all add: u_def h_def reno_timeout_def can_send_def rto_ok_def)
  define v where "v = timeout_window c (timeout_start c u)"
  have hu: "tc_highest_ack u < tc_maxseq u" "1 \<le> tc_wnd_restart u" using assms(6,7) u by simp_all
  note v = timeout_reduced [OF assms(3,4) hu, folded v_def]
  have cv: "can_send c v" using u(1) v by (simp add: can_send_def rto_ok_def)
  define bo where "bo = (\<not> (tc_highest_ack v = tc_maxseq v \<and> cf_restart_bugfix c))"
  have bo: bo using v(1,2) hu by (simp add: bo_def)
  obtain w b rt rv rx us where r: "reset_rtx_timer c now False bo v = Inr w"
    and w: "w = v\<lparr>tc_use_rtt := us, tc_t_backoff := b, tc_t_rttvar := rv, tc_t_srtt := rt, tc_rtx := rx,
           tc_t_seqno := if False then tc_t_seqno v else tc_highest_ack v + 1, tc_rtt_active := False\<rparr>"
    and b: "1 \<le> b" "if bo then tc_t_backoff v < 64 \<longrightarrow> b = 2 * tc_t_backoff v else b = tc_t_backoff v"
    using reset_rtx_timer_returns [OF cv, of now False bo] by blast
  define x where "x = w\<lparr>tc_last_cwnd_action := CWND_ACTION_TIMEOUT\<rparr>"
  have x: "can_send c x" "tc_t_seqno x = tc_highest_ack x + 1" "tc_highest_ack x = tc_highest_ack s" "tc_curseq x = tc_curseq s"
    "tc_out x = tc_out s" "tc_cwnd x = tc_cwnd v" "tc_ssthresh x = tc_ssthresh v" "tc_t_backoff x = b"
    "tc_delsnd x = tc_delsnd s" "tc_burstsnd x = tc_burstsnd s" "tc_frto x = 0" "tc_dupwnd x = tc_dupwnd v"
    using cv b(1) v u unfolding x_def w by (simp_all add: can_send_def rto_ok_def)
  have "1 \<le> window c x" by (rule window_ge1) (use assms(5) v(6,12) x u(6) in auto)
  then obtain s' p ps where s': "send_much c now False TCP_REASON_TIMEOUT (cf_maxburst c) x = Inr s'"
    "tc_out s' = tc_out s @ Send p # map Send ps" "tp_seqno p = tc_highest_ack s + 1" "tp_reason p = TCP_REASON_TIMEOUT"
    "same_window x s'"
    using send_much_first [of c x now False TCP_REASON_TIMEOUT "cf_maxburst c"] assms(2,8,10,11) x by auto
  have "tcp_timeout_rtx c now u = Inr s'"
    unfolding tcp_timeout_rtx_def Let_def v_def [symmetric] bo_def [symmetric] r res_bind.simps x_def [symmetric] by (rule s'(1))
  then have "tcp_timeout c now TCP_TIMER_RTX h = Inr s'"
    unfolding tcp_timeout_def u_def if_P [OF refl] .
  then have e: "tcp_expire c now TCP_TIMER_RTX s = Ok (s'\<lparr>tc_rtx := st_handled (tc_rtx s')\<rparr>)"
    using assms(9) by (simp add: tcp_expire_def h_def)
  show ?thesis
    unfolding e using s' x b bo v(8,12,13,14) u(8,9)
    by (intro exI [of _ "s'\<lparr>tc_rtx := st_handled (tc_rtx s')\<rparr>"] exI [of _ p] exI [of _ ps]) (simp add: same_window_def)
qed

section \<open>The fast retransmit of Reno\<close>

lemma send_much_effect:
  assumes "can_send c s" "cf_overhead c = 0"
  shows "\<exists>s' ps. send_much c now force reason mb s = Inr s' \<and> tc_out s' = tc_out s @ map Send ps \<and>
    (\<forall>p\<in>set ps. tc_t_seqno s \<le> tp_seqno p) \<and> same_window s s'"
proof -
  define t where "t = (if tc_t_seqno s = 0 then s\<lparr>tc_firstsent := now\<rparr> else s)"
  have t: "can_send c t" "tc_out t = tc_out s" "tc_t_seqno t = tc_t_seqno s" "same_window s t"
    using assms(1) by (simp_all add: t_def can_send_def rto_ok_def same_window_def)
  have mc: "cf_max_connects c \<le> 0" "\<not> cf_QOption c" using assms(1) by (simp_all add: can_send_def)
  obtain s' where s': "send_loop c now force reason mb 0 (window c t) t = Inr s'"
    using send_loop_returns [OF t(1) assms(2)] by blast
  obtain ps where ps: "sends_window reason (tc_highest_ack t + window c t) t s' ps" "same_window t s'"
    using send_loop_sends [OF s' mc refl] by blast
  have "\<forall>p\<in>set ps. tp_seqno p \<in> set [tc_t_seqno t..tc_t_seqno s' - 1]"
  proof
    fix p assume "p \<in> set ps"
    then have "tp_seqno p \<in> set (map tp_seqno ps)" by simp
    then show "tp_seqno p \<in> set [tc_t_seqno t..tc_t_seqno s' - 1]"
      using ps(1) unfolding sends_window_def by simp
  qed
  then have ge: "\<forall>p\<in>set ps. tc_t_seqno s \<le> tp_seqno p" using t(3) by simp
  have "send_much c now force reason mb s = Inr s \<or> send_much c now force reason mb s = Inr t \<or>
      send_much c now force reason mb s = Inr s'"
    unfolding send_much_def Let_def t_def [symmetric] s' by simp
  moreover have "tc_out s' = tc_out s @ map Send ps" using ps(1) t(2) by (simp add: sends_window_def)
  moreover have "tc_out s = tc_out s @ map Send []" "tc_out t = tc_out s @ map Send []" using t(2) by simp_all
  ultimately show ?thesis
    using ge same_window_trans [OF t(4) ps(2)] t(4)
    by (metis empty_iff list.set(1) same_window_refl)
qed

lemma halfwin_cong:
  assumes "tc_cwnd t = tc_cwnd s" "tc_dupwnd t = tc_dupwnd s" "tc_frto t = 0" "tc_frto s = 0"
  shows "slowdown_halfwin c t = slowdown_halfwin c s"
  using assms by (cases "cf_class c") (simp_all add: slowdown_halfwin_def windowd_def window_def)

lemma reno_action_effect:
  assumes "can_send c s" "standard_decrease c s" "tc_last_ack s + 1 \<le> tc_maxseq s"
  shows "\<exists>s' q. reno_action c now s = Inr s' \<and> can_send c s' \<and> tc_out s' = tc_out s @ [Send q] \<and>
    tp_seqno q = tc_last_ack s + 1 \<and> tp_reason q = TCP_REASON_DUPACK \<and>
    tc_ssthresh s' = max 2 (trunc (slowdown_halfwin c s)) \<and> tc_cwnd s' = slowdown_halfwin c s \<and>
    tc_dupwnd s' = cf_numdupacks c \<and> tc_recover s' = tc_maxseq s \<and> tc_t_seqno s' = tc_t_seqno s \<and>
    tc_last_ack s' = tc_last_ack s"
proof -
  define t where "t = s\<lparr>tc_recover := tc_maxseq s, tc_last_cwnd_action := CWND_ACTION_DUPACK\<rparr>"
  have sd: "standard_decrease c t" using assms(2) by (simp add: t_def standard_decrease_def)
  have hw: "slowdown_halfwin c t = slowdown_halfwin c s"
    by (rule halfwin_cong) (use assms(2) in \<open>simp_all add: t_def standard_decrease_def\<close>)
  define v where "v = slowdown c {CLOSE_SSTHRESH_HALF, CLOSE_CWND_HALF} t"
  have v: "tc_ssthresh v = max 2 (trunc (slowdown_halfwin c s))" "tc_cwnd v = slowdown_halfwin c s"
    using slowdown_ssthresh_half [OF sd] slowdown_cwnd_half [OF sd] by (simp_all add: v_def hw)
  have vt: "tc_out v = tc_out s" "tc_last_ack v = tc_last_ack s" "tc_maxseq v = tc_maxseq s" "tc_recover v = tc_maxseq s"
    "tc_t_seqno v = tc_t_seqno s" "can_send c v"
    using assms(1) by (simp_all add: v_def t_def slowdown_def can_send_def rto_ok_def Let_def)
  obtain w b rt rv rx us where r: "reset_rtx_timer c now True False v = Inr w"
    and w: "w = v\<lparr>tc_use_rtt := us, tc_t_backoff := b, tc_t_rttvar := rv, tc_t_srtt := rt, tc_rtx := rx,
           tc_t_seqno := if True then tc_t_seqno v else tc_highest_ack v + 1, tc_rtt_active := False\<rparr>"
    and b: "1 \<le> b" "if False then tc_t_backoff v < 64 \<longrightarrow> b = 2 * tc_t_backoff v else b = tc_t_backoff v"
    using reset_rtx_timer_returns [OF vt(6), of now True False] by blast
  have ws: "can_send c w" "tc_out w = tc_out s" "tc_last_ack w = tc_last_ack s" "tc_maxseq w = tc_maxseq s"
    "tc_recover w = tc_maxseq s" "tc_t_seqno w = tc_t_seqno s" "tc_ssthresh w = tc_ssthresh v" "tc_cwnd w = tc_cwnd v"
    using vt b(1) unfolding w by (simp_all add: can_send_def rto_ok_def)
  obtain x where x: "tcp_output c now (tc_last_ack w + 1) TCP_REASON_DUPACK w = Inr x" "can_send c x"
    using tcp_output_returns [OF ws(1)] by blast
  have mc: "cf_max_connects c \<le> 0" using assms(1) by (simp add: can_send_def)
  have le: "tc_last_ack w + 1 < tc_curseq w \<or> tc_last_ack w + 1 \<le> tc_maxseq w" using assms(3) ws(3,4) by simp
  note o = tcp_output_sends [OF x(1) mc le]
  obtain q where q: "tc_out x = tc_out s @ [Send q]" "tp_seqno q = tc_last_ack s + 1" "tp_reason q = TCP_REASON_DUPACK"
    using o(1) ws(2,3) by auto
  have "reno_action c now s = Ok (x\<lparr>tc_dupwnd := cf_numdupacks c\<rparr>)"
    unfolding reno_action_def t_def [symmetric] v_def [symmetric] r res_bind.simps fast_retransmit_def x(1) ..
  moreover have "can_send c (x\<lparr>tc_dupwnd := cf_numdupacks c\<rparr>)" using x(2) by (simp add: can_send_def rto_ok_def)
  ultimately show ?thesis
    using q o(2,4) ws v by (auto simp: same_window_def)
qed

text \<open>C7: Fast retransmit: the duplicate acknowledgement that makes \<open>numdupacks_\<close> of them resends the first
  segment that is not acknowledged, at once and before any new one; the threshold and the window become
  half the window, the window is inflated by the duplicate acknowledgements, and \<open>recover_\<close>
  remembers the highest segment sent. The code returns.\<close>

theorem reno_fast_retransmit:
  assumes "can_send c s" "standard_decrease c s" "cf_overhead c = 0" "cf_class c = RenoTcp"
    and "\<not> tc_qs_approved s" "\<not> tc_qs_requested s" "tc_lastreset s \<le> ta_ts p" "\<not> (ta_ecnecho p \<and> cf_ecn c)"
    and "ta_seqno p = tc_last_ack s" "\<not> (ta_eln p \<and> cf_eln c)" "tc_dupacks s + 1 = cf_numdupacks c"
    and "tc_recover s < tc_highest_ack s" "tc_last_ack s < tc_maxseq s"
  shows "\<exists>s' q ps. tcp_recv c now p s = Inr s' \<and> tc_out s' = tc_out s @ Send q # map Send ps \<and>
    tp_seqno q = tc_last_ack s + 1 \<and> tp_reason q = TCP_REASON_DUPACK \<and> (\<forall>r\<in>set ps. tc_t_seqno s \<le> tp_seqno r) \<and>
    tc_ssthresh s' = max 2 (trunc (slowdown_halfwin c s)) \<and> tc_cwnd s' = slowdown_halfwin c s \<and>
    tc_dupwnd s' = cf_numdupacks c \<and> tc_recover s' = tc_maxseq s"
proof -
  have f: "tc_frto s = 0" using assms(2) by (simp add: standard_decrease_def)
  define s1 where "s1 = s\<lparr>tc_ct := (tc_ct s)\<lparr>ct_nackpack := ct_nackpack (tc_ct s) + 1\<rparr>, tc_ts_peer := ta_ts p\<rparr>"
  have a: "recv_accept c p s = Ok s1"
    using assms(8) f unfolding recv_accept_def Let_def s1_def [symmetric] by (auto simp: recv_frto_helper_def s1_def)
  define s2 where "s2 = s1\<lparr>tc_dupacks := tc_dupacks s1 + 1\<rparr>"
  have s2: "tc_dupacks s2 = cf_numdupacks c" "tc_out s2 = tc_out s" "tc_last_ack s2 = tc_last_ack s" "tc_maxseq s2 = tc_maxseq s"
    "tc_t_seqno s2 = tc_t_seqno s" "tc_recover s2 < tc_highest_ack s2" "can_send c s2" "standard_decrease c s2"
    using assms(1,2,11,12) by (simp_all add: s2_def s1_def can_send_def rto_ok_def standard_decrease_def)
  have hw: "slowdown_halfwin c s2 = slowdown_halfwin c s"
    by (rule halfwin_cong) (simp_all add: s2_def s1_def f)
  obtain t q where t: "reno_action c now s2 = Inr t" "can_send c t" "tc_out t = tc_out s @ [Send q]"
    "tp_seqno q = tc_last_ack s + 1" "tp_reason q = TCP_REASON_DUPACK" "tc_ssthresh t = max 2 (trunc (slowdown_halfwin c s))"
    "tc_cwnd t = slowdown_halfwin c s" "tc_dupwnd t = cf_numdupacks c" "tc_recover t = tc_maxseq s" "tc_t_seqno t = tc_t_seqno s"
    using reno_action_effect [OF s2(7,8), of now] assms(13) unfolding s2 hw by auto
  define t' where "t' = (if \<not> cf_exitFastRetrans c then t\<lparr>tc_dupwnd := cf_numdupacks c\<rparr> else t)"
  have t': "can_send c t'" "tc_out t' = tc_out s @ [Send q]" "tc_ssthresh t' = max 2 (trunc (slowdown_halfwin c s))"
    "tc_cwnd t' = slowdown_halfwin c s" "tc_dupwnd t' = cf_numdupacks c" "tc_recover t' = tc_maxseq s" "tc_t_seqno t' = tc_t_seqno s"
    using t by (simp_all add: t'_def can_send_def rto_ok_def)
  have "dupack_action c now s2 = Inr t"
    using assms(4) s2(6) t(1) by (simp add: dupack_action_def reno_dupack_action_def)
  then have d: "reno_dupack c now s1 = Ok t'"
    using s2(1) unfolding reno_dupack_def Let_def s2_def [symmetric] t'_def by simp
  obtain s' ps where s': "send_much c now False REASON_NONE (cf_maxburst c) t' = Inr s'"
    "tc_out s' = tc_out t' @ map Send ps" "\<forall>r\<in>set ps. tc_t_seqno t' \<le> tp_seqno r" "same_window t' s'"
    using send_much_effect [OF t'(1) assms(3)] by blast
  have l: "tc_last_ack s1 = ta_seqno p" using assms(9) by (simp add: s1_def)
  have "reno_recv c now p s = Inr s' \<or> reno_recv c now p s = Inr t'"
    unfolding reno_recv_def recv_quickstart_def using assms(5-7,10) l by (auto simp: a d s'(1))
  then have "tcp_recv c now p s = Inr s' \<or> tcp_recv c now p s = Inr t'"
    using assms(4) by (simp add: tcp_recv_def)
  moreover have "tc_out s' = tc_out s @ Send q # map Send ps" "tc_out t' = tc_out s @ Send q # map Send []"
    using s'(2) t'(2) by simp_all
  moreover have "tc_ssthresh s' = tc_ssthresh t'" "tc_cwnd s' = tc_cwnd t'" "tc_dupwnd s' = tc_dupwnd t'" "tc_recover s' = tc_recover t'"
    using s'(4) by (simp_all add: same_window_def)
  ultimately show ?thesis using t(4,5) t' s'(3) by (metis empty_iff list.set(1))
qed

section \<open>Witnesses\<close>

lemma can_send_busy [simp]: "can_send (tcp_defaults cls) tcp_busy"
  by (simp add: can_send_def rto_ok_def tcp_defaults_def tcp_busy_def tcp_start_def)

definition tcp_half_sent :: tcp where
  "tcp_half_sent = tcp_busy\<lparr>tc_t_seqno := 6\<rparr>"

lemma defaults_facts:
  "cf_overhead (tcp_defaults cls) = 0" "cf_max_connects (tcp_defaults cls) = -1" "\<not> cf_QOption (tcp_defaults cls)"
  "\<not> cf_frto_enabled (tcp_defaults cls)" "\<not> cf_sfrto_enabled (tcp_defaults cls)" "cf_wnd (tcp_defaults cls) = 20"
  "cf_class (tcp_defaults cls) = cls" "cf_numdupacks (tcp_defaults cls) = 3" "\<not> cf_ecn (tcp_defaults cls)"
  "\<not> cf_eln (tcp_defaults cls)"
  by (simp_all add: tcp_defaults_def)

lemma timing_facts:
  "cf_syn (tcp_defaults cls)" "cf_delay_growth (tcp_defaults cls)" "cf_tcp_tick (tcp_defaults cls) = 1 / 100"
  "cf_maxrto (tcp_defaults cls) = 60" "cf_minrto (tcp_defaults cls) = 1 / 5" "cf_rtxcur_init (tcp_defaults cls) = 3"
  "\<not> cf_bugfix_ts (tcp_defaults cls)" "tc_tss tcp_start = None"
  by (simp_all add: tcp_defaults_def tcp_start_def)

lemma busy_facts:
  "tc_wnd_restart tcp_busy = 1" "tc_out tcp_busy = []" "tc_highest_ack tcp_busy = 1" "tc_last_ack tcp_busy = 1"
  "tc_t_backoff tcp_busy = 1" "tc_maxseq tcp_busy = 9" "tc_curseq tcp_busy = 100" "tc_recover tcp_busy = 0"
  "tc_dupacks tcp_busy = 2" "\<not> tc_qs_approved tcp_busy" "\<not> tc_qs_requested tcp_busy" "tc_lastreset tcp_busy = 0"
  "st_status (tc_rtx tcp_busy) = TIMER_PENDING" "st_status (tc_delsnd tcp_busy) = TIMER_IDLE"
  "st_status (tc_burstsnd tcp_busy) = TIMER_IDLE"
  by (simp_all add: tcp_busy_def tcp_start_def timer_idle_def)

lemma send_much_in_window_witness:
  "\<exists>s' ps. send_much (tcp_defaults RenoTcp) 1 False REASON_NONE 3 tcp_half_sent = Inr s' \<and>
     tc_out s' = map Send ps \<and> map tp_seqno ps = [6..tc_t_seqno s' - 1] \<and> (\<forall>p\<in>set ps. tp_seqno p \<le> 9) \<and> length ps \<le> 3"
proof -
  have k: "can_send (tcp_defaults RenoTcp) tcp_half_sent"
    using can_send_busy [of RenoTcp] by (simp add: tcp_half_sent_def can_send_def rto_ok_def)
  obtain s' where s': "send_much (tcp_defaults RenoTcp) 1 False REASON_NONE 3 tcp_half_sent = Inr s'"
    using send_much_effect [OF k defaults_facts(1), of 1 False REASON_NONE 3] by blast
  have w: "tc_out tcp_half_sent = []" "tc_t_seqno tcp_half_sent = 6" "tc_highest_ack tcp_half_sent + window (tcp_defaults RenoTcp) tcp_half_sent = 9"
    by (simp_all add: tcp_half_sent_def tcp_busy_def tcp_start_def tcp_defaults_def window_def trunc_def)
  obtain ps where "tc_out s' = map Send ps" "map tp_seqno ps = [6..tc_t_seqno s' - 1]" "\<forall>p\<in>set ps. tp_seqno p \<le> 9" "length ps \<le> 3"
    using send_much_in_window [OF s'] unfolding w by (auto simp: defaults_facts)
  then show ?thesis using s' by blast
qed

lemma timeout_resends_first_witness:
  "\<exists>s' p ps. tcp_expire (tcp_defaults TahoeTcp) 2 TCP_TIMER_RTX tcp_busy = Inr s' \<and> tc_out s' = Send p # map Send ps \<and>
     tp_seqno p = 2 \<and> tc_cwnd s' = 1 \<and> tc_t_backoff s' = 2"
  using timeout_resends_first [OF can_send_busy, of TahoeTcp 2] by (auto simp: busy_facts defaults_facts)

definition tcp_dupack :: tcp_ack where
  "tcp_dupack = \<lparr>ta_seqno = 1, ta_ts = 1, ta_ts_echo = 0, ta_ecnecho = False, ta_cong_action = False, ta_eln = False,
     ta_no_ts = False, ta_qs_flag = QS_DISABLE, ta_qs_ttl = 0, ta_qs_rate = 0\<rparr>"

lemma reno_fast_retransmit_witness:
  "\<exists>s' q ps. tcp_recv (tcp_defaults RenoTcp) 1 tcp_dupack tcp_busy = Inr s' \<and> tc_out s' = Send q # map Send ps \<and>
     tp_seqno q = 2 \<and> tc_ssthresh s' = 4 \<and> tc_cwnd s' = 4 \<and> tc_dupwnd s' = 3 \<and> tc_recover s' = 9"
proof -
  have h: "slowdown_halfwin (tcp_defaults RenoTcp) tcp_busy = 4" "trunc 4 = 4"
    by (simp_all add: slowdown_halfwin_def windowd_def tcp_defaults_def tcp_busy_def tcp_start_def trunc_def)
  have d: "standard_decrease (tcp_defaults RenoTcp) tcp_busy"
    by (simp add: standard_decrease_def tcp_defaults_def tcp_busy_def tcp_start_def)
  have p: "ta_ts tcp_dupack = 1" "ta_seqno tcp_dupack = 1" by (simp_all add: tcp_dupack_def)
  show ?thesis
    using reno_fast_retransmit [OF can_send_busy d, where p = tcp_dupack and now = 1]
    by (auto simp: h p busy_facts defaults_facts)
qed

lemma reset_options_can_send:
  assumes "\<not> cf_QOption c"
  shows "can_send c ((reset_options c now (cancel_timers s))\<lparr>tc_curseq := n\<rparr>) = can_send c s"
    and "tc_curseq (reset_options c now (cancel_timers s)) = tc_curseq s"
  using assms by (simp_all add: can_send_def rto_ok_def reset_options_def cancel_timers_def Let_def)

lemma tcp_reset_can_send:
  assumes "cf_syn c" "cf_delay_growth c" "0 < cf_tcp_tick c" "2 * cf_tcp_tick c \<le> cf_maxrto c" "0 \<le> cf_minrto c"
    "0 \<le> cf_rtxcur_init c" "\<not> cf_bugfix_ts c" "tc_tss s = None" "cf_max_connects c \<le> 0" "\<not> cf_QOption c"
  shows "\<exists>s0. tcp_reset c now s = Inr s0 \<and> can_send c (s0\<lparr>tc_curseq := n\<rparr>) \<and> tc_curseq s0 = 0"
proof -
  define r where "r = (rtt_init c s)\<lparr>tc_rtt_seq := -1, tc_dupacks := 0, tc_curseq := 0, tc_cwnd := 1, tc_syn_connects := 0\<rparr>"
  have i: "set_initial_window c ((rtt_init c s)\<lparr>tc_rtt_seq := -1, tc_dupacks := 0, tc_curseq := 0\<rparr>) = Ok r"
    using assms(1,2) by (simp add: set_initial_window_def r_def)
  have "can_send c r" using assms(3-) by (simp add: can_send_def rto_ok_def r_def rtt_init_def)
  then show ?thesis
    unfolding tcp_reset_def i res_bind.simps
    by (simp add: reset_options_can_send [OF assms(10)] tcp_uniform_def reset_connection_def Let_def)
      (simp add: can_send_def rto_ok_def r_def)
qed

lemma tcp_connection_invariant_witness:
  "\<exists>s0 s. tcp_reset (tcp_defaults NewRenoTcp) 0 tcp_start = Inr s0 \<and>
     tcp_handle (tcp_defaults NewRenoTcp) 0 (SendMsg 5000) s0 = Inr s \<and>
     tc_highest_ack s < tc_t_seqno s \<and> tc_t_seqno s \<le> tc_maxseq s + 1"
proof -
  let ?c = "tcp_defaults NewRenoTcp"
  have c: "conn_conf ?c" by (simp add: conn_conf_def tcp_defaults_def)
  obtain s0 where s0: "tcp_reset ?c 0 tcp_start = Inr s0"
    and k: "can_send ?c (s0\<lparr>tc_curseq := 5\<rparr>)" "tc_curseq s0 = 0"
    using tcp_reset_can_send [of ?c tcp_start 0 5] by (auto simp: defaults_facts timing_facts)
  obtain s where s: "send_much ?c 0 False REASON_NONE 0 (s0\<lparr>tc_curseq := 5\<rparr>) = Inr s"
    using send_much_effect [OF k(1) defaults_facts(1)] by blast
  have e: "c_div 5000 1000 = 5" "c_mod 5000 1000 = 0" by (simp_all add: c_div_nonneg c_mod_nonneg)
  have z: "cf_size ?c = 1000" "cf_maxburst ?c = 0" by (simp_all add: tcp_defaults_def)
  have h: "tcp_handle ?c 0 (SendMsg 5000) s0 = Inr s"
    using s by (simp add: tcp_handle_def tcp_sendmsg_def k(2) e z)
  have "tcp_reachable ?c s0"
    by (rule tcp_reachable.Init [OF _ s0]) (simp add: tcp_start_def)
  then have "tcp_reachable ?c s" by (rule tcp_reachable.Step [OF _ _ h]) simp_all
  then show ?thesis using tcp_connection_invariant [OF _ c] s0 h by meson
qed

end
