(* ===== verification/Scoreboard.thy ===== *)
theory Scoreboard
  imports Prelude
begin

text \<open>
  The scoreboard of a SACK sender as an array: class \<open>ScoreBoard\<close> of \<open>tcp/scoreboard.h\<close> and
  \<open>tcp/scoreboard.cc\<close>. The array \<open>SBN\<close> is indexed modulo \<open>sbsize_\<close>; memory that
  \<open>new\<close> returns is not initialised, so what an array of a given size holds at an index is an argument \<open>junk\<close> of
  the definitions that allocate. The blocks of an acknowledgement are pairs of the first number and the one past the last. The macros
  \<open>ASSERT\<close> exit.
\<close>

section \<open>State\<close>

record sb_node =
  sn_seq_no :: int
  sn_ack_flag :: bool
  sn_sack_flag :: bool
  sn_retran :: bool
  sn_snd_nxt :: int

record scoreboard =
  sb_first :: int
  sb_length :: int
  sb_sbsize :: int
  sb_changed :: int
  sb_SBN :: "sb_node list"

definition sb_new :: "sb_node list \<Rightarrow> int \<Rightarrow> scoreboard" where
  "sb_new sbn sz = \<lparr>sb_first = 0, sb_length = 0, sb_sbsize = sz, sb_changed = 0, sb_SBN = sbn\<rparr>"

definition array_at :: "'a list \<Rightarrow> int \<Rightarrow> int \<Rightarrow> 'a res" where
  "array_at xs sz i =
     (if sz = 0 then Fail Div_By_Zero
      else if c_mod i sz < 0 \<or> int (length xs) \<le> c_mod i sz then Fail Bad_Index else Ok (xs ! nat (c_mod i sz)))"

definition array_put :: "'a list \<Rightarrow> int \<Rightarrow> int \<Rightarrow> 'a \<Rightarrow> 'a list res" where
  "array_put xs sz i v =
     (if sz = 0 then Fail Div_By_Zero
      else if c_mod i sz < 0 \<or> int (length xs) \<le> c_mod i sz then Fail Bad_Index else Ok (xs[nat (c_mod i sz) := v]))"

definition sb_at :: "int \<Rightarrow> scoreboard \<Rightarrow> sb_node res" where
  "sb_at i b = array_at (sb_SBN b) (sb_sbsize b) i"

definition sb_put :: "int \<Rightarrow> sb_node \<Rightarrow> scoreboard \<Rightarrow> scoreboard res" where
  "sb_put i n b = res_bind (array_put (sb_SBN b) (sb_sbsize b) i n) (\<lambda>xs. Ok (b\<lparr>sb_SBN := xs\<rparr>))"

definition sb_ClearScoreBoard :: "scoreboard \<Rightarrow> scoreboard" where
  "sb_ClearScoreBoard b = b\<lparr>sb_length := 0\<rparr>"

section \<open>Retransmissions\<close>

definition sb_MarkRetran :: "int \<Rightarrow> scoreboard \<Rightarrow> scoreboard res" where
  "sb_MarkRetran retran_seqno b =
     res_bind (sb_at retran_seqno b) (\<lambda>n. sb_put retran_seqno (n\<lparr>sn_retran := True\<rparr>) b)"

definition sb_MarkRetran_nxt :: "int \<Rightarrow> int \<Rightarrow> scoreboard \<Rightarrow> scoreboard res" where
  "sb_MarkRetran_nxt retran_seqno snd_nxt b =
     res_bind (sb_at retran_seqno b) (\<lambda>n. sb_put retran_seqno (n\<lparr>sn_retran := True, sn_snd_nxt := snd_nxt\<rparr>) b)"

text \<open>The first of the numbers whose node satisfies \<open>P\<close>, or -1.\<close>

fun sb_find :: "(sb_node \<Rightarrow> bool) \<Rightarrow> int list \<Rightarrow> scoreboard \<Rightarrow> int res" where
  "sb_find P [] b = Ok (-1)"
| "sb_find P (i # is) b = res_bind (sb_at i b) (\<lambda>n. if P n then Ok i else sb_find P is b)"

definition sb_GetNextRetran :: "scoreboard \<Rightarrow> int res" where
  "sb_GetNextRetran b =
     (if sb_length b = 0 then Ok (-1)
      else res_bind (sb_at (sb_first b) b) (\<lambda>f.
        sb_find (\<lambda>n. \<not> sn_ack_flag n \<and> \<not> sn_sack_flag n \<and> \<not> sn_retran n)
          [sn_seq_no f..sn_seq_no f + sb_length b - 1] b))"

definition sb_GetNextUnacked :: "int \<Rightarrow> scoreboard \<Rightarrow> int res" where
  "sb_GetNextUnacked seqno b =
     (if sb_length b = 0 then Ok (-1)
      else res_bind (sb_at (sb_first b) b) (\<lambda>f.
        if seqno < sn_seq_no f \<or> seqno \<ge> sn_seq_no f + sb_length b then Ok (-1)
        else sb_find (\<lambda>n. \<not> sn_ack_flag n \<and> \<not> sn_sack_flag n) [seqno..sn_seq_no f + sb_length b - 1] b))"

text \<open>Whether a retransmitted segment was lost again; the segments of one block, then all blocks.\<close>

fun sb_check_block :: "int \<Rightarrow> int list \<Rightarrow> bool \<times> scoreboard \<Rightarrow> (bool \<times> scoreboard) res" where
  "sb_check_block r [] fb = Ok fb"
| "sb_check_block r (i # is) (forced, b) =
     res_bind (sb_at i b) (\<lambda>n.
       if sn_retran n \<and> sn_snd_nxt n < r
       then res_bind (sb_put i (n\<lparr>sn_retran := False, sn_snd_nxt := 0\<rparr>) b) (\<lambda>b'. sb_check_block r is (True, b'))
       else sb_check_block r is (forced, b))"

fun sb_check_blocks :: "(int \<times> int) list \<Rightarrow> bool \<times> scoreboard \<Rightarrow> (bool \<times> scoreboard) res" where
  "sb_check_blocks [] fb = Ok fb"
| "sb_check_blocks ((l, r) # bs) (forced, b) =
     res_bind (sb_at (sb_first b) b) (\<lambda>f.
       res_bind (sb_check_block r [sn_seq_no f..r - 1] (forced, b)) (sb_check_blocks bs))"

definition sb_CheckSndNxt :: "(int \<times> int) list \<Rightarrow> scoreboard \<Rightarrow> (bool \<times> scoreboard) res" where
  "sb_CheckSndNxt bs b = sb_check_blocks bs (False, b)"

section \<open>Growth\<close>

fun sb_copy :: "int list \<Rightarrow> int \<Rightarrow> scoreboard \<Rightarrow> sb_node list \<Rightarrow> sb_node list res" where
  "sb_copy [] sz b new = Ok new"
| "sb_copy (i # is) sz b new =
     res_bind (sb_at i b) (\<lambda>n. res_bind (array_put new sz i n) (sb_copy is sz b))"

text \<open>The upper bound of the copy is inclusive.\<close>

definition sb_resizeSB :: "(int \<Rightarrow> int \<Rightarrow> sb_node) \<Rightarrow> int \<Rightarrow> scoreboard \<Rightarrow> scoreboard res" where
  "sb_resizeSB junk sz b =
     res_bind (sb_at (sb_first b) b) (\<lambda>f.
       res_bind (sb_copy [sn_seq_no f..sn_seq_no f + sb_length b] sz b (map (junk sz) [0..sz])) (\<lambda>new.
         Ok (b\<lparr>sb_SBN := new, sb_sbsize := sz\<rparr>)))"

text \<open>The loop does not end when the size is not positive.\<close>

function sb_make_room :: "(int \<Rightarrow> int \<Rightarrow> sb_node) \<Rightarrow> int \<Rightarrow> scoreboard \<Rightarrow> scoreboard res" where
  "sb_make_room junk need b =
     (if need \<ge> sb_sbsize b - 1
      then if sb_sbsize b \<le> 0 then Fail No_Return
           else res_bind (sb_resizeSB junk (sb_sbsize b * 2) b) (sb_make_room junk need)
      else Ok b)"
  by pat_completeness auto
termination
  by (relation "measure (\<lambda>(junk, need, b). nat (need + 2 - sb_sbsize b))")
    (auto simp: sb_resizeSB_def)

declare sb_make_room.simps [simp del]

section \<open>Acknowledgements\<close>

text \<open>The left edge moves to the right; the result counts the retransmitted segments that left.\<close>

fun sb_advance :: "int list \<Rightarrow> int \<Rightarrow> int \<Rightarrow> scoreboard \<Rightarrow> (int \<times> scoreboard) res" where
  "sb_advance [] last_ack decr b = Ok (decr, b)"
| "sb_advance (i # is) last_ack decr b =
     res_bind (sb_at i b) (\<lambda>n.
       if sn_seq_no n \<le> last_ack
       then if sb_first b \<noteq> i \<or> sb_length b - 1 < 0 then Fail Exit
            else let n1 = n\<lparr>sn_ack_flag := True, sn_sack_flag := True\<rparr>;
                     n2 = (if sn_retran n1 then n1\<lparr>sn_retran := False, sn_snd_nxt := 0\<rparr> else n1);
                     decr1 = (if sn_retran n1 then decr + 1 else decr)
                 in res_bind (sb_put i n2 (b\<lparr>sb_first := sb_first b + 1, sb_length := sb_length b - 1\<rparr>)) (\<lambda>b1.
                      let b2 = b1\<lparr>sb_changed := sb_changed b1 + 1\<rparr>
                      in if sb_length b2 = 0 then Ok (decr1, b2) else sb_advance is last_ack decr1 b2)
       else sb_advance is last_ack decr b)"

definition sb_left_edge :: "int \<Rightarrow> scoreboard \<Rightarrow> (int \<times> scoreboard) res" where
  "sb_left_edge last_ack b =
     (if sb_length b = 0 then Ok (0, b)
      else res_bind (sb_at (sb_first b) b) (\<lambda>f.
        if sn_seq_no f \<le> last_ack then sb_advance [sn_seq_no f..last_ack] last_ack 0 b else Ok (0, b)))"

definition sb_blank :: "int \<Rightarrow> sb_node" where
  "sb_blank i = \<lparr>sn_seq_no = i, sn_ack_flag = False, sn_sack_flag = False, sn_retran = False, sn_snd_nxt = 0\<rparr>"

text \<open>A node at the right edge.\<close>

definition sb_add_node :: "int \<Rightarrow> scoreboard \<Rightarrow> scoreboard res" where
  "sb_add_node i b =
     res_bind (sb_put i (sb_blank i) b) (\<lambda>b1.
       let b2 = b1\<lparr>sb_length := sb_length b1 + 1\<rparr>
       in if sb_length b2 \<ge> sb_sbsize b2 then Fail Exit else Ok (b2\<lparr>sb_changed := sb_changed b2 + 1\<rparr>))"

fun sb_add_nodes :: "int list \<Rightarrow> scoreboard \<Rightarrow> scoreboard res" where
  "sb_add_nodes [] b = Ok b"
| "sb_add_nodes (i # is) b = res_bind (sb_add_node i b) (sb_add_nodes is)"

definition sb_last_seq :: "scoreboard \<Rightarrow> int res" where
  "sb_last_seq b =
     res_bind (sb_at (sb_first b + sb_length b + sb_sbsize b - 1) b) (\<lambda>n. Ok (sn_seq_no n))"

definition sb_right_edge :: "(int \<Rightarrow> int \<Rightarrow> sb_node) \<Rightarrow> int \<Rightarrow> int \<Rightarrow> scoreboard \<Rightarrow> scoreboard res" where
  "sb_right_edge junk last_ack r b =
     res_bind (sb_last_seq b) (\<lambda>m.
       if r > m
       then res_bind (sb_make_room junk (r - last_ack) b) (\<lambda>b1.
              res_bind (sb_last_seq b1) (\<lambda>m1. sb_add_nodes [m1 + 1..r - 1] b1))
       else Ok b)"

fun sb_mark_sacked :: "int \<Rightarrow> int \<Rightarrow> int list \<Rightarrow> int \<Rightarrow> scoreboard \<Rightarrow> (int \<times> scoreboard) res" where
  "sb_mark_sacked l r [] decr b = Ok (decr, b)"
| "sb_mark_sacked l r (i # is) decr b =
     res_bind (sb_at i b) (\<lambda>n.
       if l \<le> sn_seq_no n \<and> sn_seq_no n < r
       then let b1 = (if sn_sack_flag n then b else b\<lparr>sb_changed := sb_changed b + 1\<rparr>)
            in res_bind (sb_put i (n\<lparr>sn_sack_flag := True, sn_retran := False\<rparr>) b1)
                 (sb_mark_sacked l r is (if sn_retran n then decr + 1 else decr))
       else sb_mark_sacked l r is decr b)"

definition sb_block :: "(int \<Rightarrow> int \<Rightarrow> sb_node) \<Rightarrow> int \<Rightarrow> int \<Rightarrow> int \<Rightarrow> int \<Rightarrow> scoreboard \<Rightarrow> (int \<times> scoreboard) res" where
  "sb_block junk last_ack l r decr b =
     res_bind (sb_right_edge junk last_ack r b) (\<lambda>b1.
       res_bind (sb_at (sb_first b1) b1) (\<lambda>f. sb_mark_sacked l r [sn_seq_no f..r - 1] decr b1))"

fun sb_blocks :: "(int \<Rightarrow> int \<Rightarrow> sb_node) \<Rightarrow> int \<Rightarrow> (int \<times> int) list \<Rightarrow> int \<Rightarrow> scoreboard \<Rightarrow> (int \<times> scoreboard) res" where
  "sb_blocks junk last_ack [] decr b = Ok (decr, b)"
| "sb_blocks junk last_ack ((l, r) # bs) decr b =
     res_bind (sb_block junk last_ack l r decr b) (\<lambda>(decr1, b1). sb_blocks junk last_ack bs decr1 b1)"

definition sb_UpdateScoreBoard :: "(int \<Rightarrow> int \<Rightarrow> sb_node) \<Rightarrow> int \<Rightarrow> (int \<times> int) list \<Rightarrow> scoreboard \<Rightarrow> (int \<times> scoreboard) res" where
  "sb_UpdateScoreBoard junk last_ack bs b =
     res_bind (sb_left_edge last_ack (b\<lparr>sb_changed := 0\<rparr>)) (\<lambda>(decr, b1).
       res_bind (if sb_length b1 = 0 \<and> bs \<noteq> [] then sb_add_node (last_ack + 1) (b1\<lparr>sb_first := last_ack + 1\<rparr>) else Ok b1)
         (sb_blocks junk last_ack bs decr))"

end
