(* ===== verification/Sack_Board.thy ===== *)
theory Sack_Board
  imports Prelude
begin

text \<open>
  What a SACK sender needs of its scoreboard, whatever its data structure. The abstract state is the
  first segment that is not acknowledged, the set of the segments above it that were selectively
  acknowledged, and a bound below which every missing segment has been sent again. The locale
  \<open>sack_board\<close> is the interface: \<open>UpdateScoreBoard\<close> with \<open>CheckUpdate\<close>,
  \<open>GetNextRetran\<close>, \<open>MarkRetran\<close> and \<open>ClearScoreBoard\<close>.
\<close>

record board =
  bd_una :: int
  bd_sacked :: "int set"
  bd_high :: int

definition block_set :: "(int \<times> int) list \<Rightarrow> int set" where
  "block_set bs = (\<Union>(l, r) \<in> set bs. {l..<r})"

lemma block_set_simps [simp]: "block_set [] = {}" "block_set ((l, r) # bs) = {l..<r} \<union> block_set bs"
  by (simp_all add: block_set_def)

lemma finite_block_set [simp]: "finite (block_set bs)"
  by (auto simp: block_set_def)

definition board_ok :: "board \<Rightarrow> bool" where
  "board_ok B \<longleftrightarrow> finite (bd_sacked B) \<and> (\<forall>x \<in> bd_sacked B. bd_una B < x) \<and> -1 \<le> bd_una B \<and>
     (bd_sacked B \<noteq> {} \<longrightarrow> 1 \<le> bd_una B) \<and>
     (bd_high B \<le> bd_una B \<or> bd_sacked B \<noteq> {} \<and> bd_high B \<le> Max (bd_sacked B))"

text \<open>
  The acknowledgements on which the scoreboards are compared: the number does not move back, the
  segment after it has not been reported as received, and the blocks lie above that segment. There is a block only
  after the first segment, number 0, has been acknowledged. A sender also gets others: a block while
  segment 0 is missing, stale blocks, and numbers that begin again after a reset. On those the two
  scoreboards differ (\<open>Scoreboard_Rq\<close>).
\<close>

definition update_ok :: "int \<Rightarrow> (int \<times> int) list \<Rightarrow> board \<Rightarrow> bool" where
  "update_ok a bs B \<longleftrightarrow> -1 \<le> a \<and> bd_una B \<le> a + 1 \<and> a + 1 \<notin> bd_sacked B \<and>
     (\<forall>(l, r) \<in> set bs. a + 1 < l \<and> l < r) \<and> (bs \<noteq> [] \<longrightarrow> 0 \<le> a)"

definition board_update :: "int \<Rightarrow> (int \<times> int) list \<Rightarrow> board \<Rightarrow> board" where
  "board_update a bs B = B\<lparr>bd_una := a + 1, bd_sacked := {x \<in> bd_sacked B. a < x} \<union> block_set bs\<rparr>"

definition board_changed :: "int \<Rightarrow> (int \<times> int) list \<Rightarrow> board \<Rightarrow> bool" where
  "board_changed a bs B \<longleftrightarrow> bd_sacked B \<noteq> {} \<and> bd_una B \<le> a \<or> \<not> block_set bs \<subseteq> {x \<in> bd_sacked B. a < x}"

definition board_next :: "board \<Rightarrow> int" where
  "board_next B =
     (if bd_sacked B = {} then -1
      else case find (\<lambda>x. x \<notin> bd_sacked B) [max (bd_una B) (bd_high B)..Max (bd_sacked B)] of None \<Rightarrow> -1 | Some x \<Rightarrow> x)"

definition board_mark :: "int \<Rightarrow> board \<Rightarrow> board" where
  "board_mark x B = B\<lparr>bd_high := max (bd_high B) (x + 1)\<rparr>"

text \<open>To look for the next retransmission may move the bound over segments that are not missing.\<close>

definition board_seek :: "board \<Rightarrow> board" where
  "board_seek B = (if board_next B = -1 then B else B\<lparr>bd_high := max (bd_high B) (board_next B)\<rparr>)"

definition board_clear :: "board \<Rightarrow> board" where
  "board_clear B = B\<lparr>bd_sacked := {}, bd_high := -1\<rparr>"

text \<open>Segments are sent again in order: everything missing below \<open>x\<close> has been.\<close>

definition mark_ok :: "int \<Rightarrow> board \<Rightarrow> bool" where
  "mark_ok x B \<longleftrightarrow> bd_sacked B \<noteq> {} \<and> bd_una B \<le> x \<and> x < Max (bd_sacked B) \<and> x \<notin> bd_sacked B \<and>
     {max (bd_una B) (bd_high B)..<x} \<subseteq> bd_sacked B"

lemma mark_ok_covers: "mark_ok x B \<Longrightarrow> bd_una B \<le> y \<Longrightarrow> y < x \<Longrightarrow> y \<notin> bd_sacked B \<Longrightarrow> y < bd_high B"
  unfolding mark_ok_def by (meson atLeastLessThan_iff max_less_iff_conj not_le subsetD max.boundedI)

lemma find_upto_Some:
  "i \<le> x \<Longrightarrow> x \<le> j \<Longrightarrow> P x \<Longrightarrow> \<forall>y. i \<le> y \<and> y < x \<longrightarrow> \<not> P y \<Longrightarrow> find P [i..j] = Some (x::int)"
proof (induction i j rule: upto.induct)
  case (1 i j)
  then have "[i..j] = i # [i + 1..j]" by (intro upto_rec1) simp
  then show ?case using 1 by (cases "i = x") simp_all
qed

lemma find_upto_None: "\<forall>y. i \<le> y \<and> y \<le> j \<longrightarrow> \<not> P y \<Longrightarrow> find P [i..j] = None"
  unfolding find_None_iff set_upto by (meson atLeastAtMost_iff)

lemma find_upto_cases:
  obtains (None) "find P [i..j] = None" "\<forall>y. i \<le> y \<and> y \<le> j \<longrightarrow> \<not> P y"
  | (Some) x where "find P [i..j] = Some (x::int)" "i \<le> x" "x \<le> j" "P x" "\<forall>y. i \<le> y \<and> y < x \<longrightarrow> \<not> P y"
proof (cases "\<exists>x. i \<le> x \<and> x \<le> j \<and> P x")
  case True
  then obtain x where x: "i \<le> x" "x \<le> j" "P x" by blast
  define m where "m = (LEAST n. P (i + int n))"
  have P: "P (i + int m)" unfolding m_def by (rule LeastI [of _ "nat (x - i)"]) (use x in simp)
  have least: "m \<le> n" if "P (i + int n)" for n unfolding m_def using that by (rule Least_le)
  have "m \<le> nat (x - i)" using least [of "nat (x - i)"] x by simp
  moreover have "\<not> P y" if "i \<le> y" "y < i + int m" for y
    using least [of "nat (y - i)"] that by auto
  ultimately have *: "i + int m \<le> j" "\<forall>y. i \<le> y \<and> y < i + int m \<longrightarrow> \<not> P y" using x by auto
  then have "find P [i..j] = Some (i + int m)" using P by (intro find_upto_Some) auto
  then show ?thesis using Some [of "i + int m"] * P by simp
next
  case False
  then have n: "\<forall>y. i \<le> y \<and> y \<le> j \<longrightarrow> \<not> P y" by blast
  show ?thesis by (rule None [OF find_upto_None [OF n] n])
qed

lemma board_next_cases:
  assumes "board_ok B"
  shows "board_next B = -1 \<and> (bd_sacked B = {} \<or> {max (bd_una B) (bd_high B)..Max (bd_sacked B)} \<subseteq> bd_sacked B) \<or>
    mark_ok (board_next B) B \<and> 0 < board_next B \<and> max (bd_una B) (bd_high B) \<le> board_next B"
proof (cases "bd_sacked B = {}")
  case False
  have max: "Max (bd_sacked B) \<in> bd_sacked B" using assms False by (simp add: board_ok_def)
  show ?thesis
  proof (cases rule: find_upto_cases [of "\<lambda>x. x \<notin> bd_sacked B" "max (bd_una B) (bd_high B)" "Max (bd_sacked B)"])
    case None
    then show ?thesis using False by (auto simp: board_next_def)
  next
    case (Some x)
    then have "x \<noteq> Max (bd_sacked B)" using max by blast
    then show ?thesis using Some False assms by (auto simp: board_next_def mark_ok_def board_ok_def)
  qed
qed (simp add: board_next_def)

lemma board_mark_ok: "board_ok B \<Longrightarrow> mark_ok x B \<Longrightarrow> board_ok (board_mark x B)"
  by (auto simp: board_ok_def board_mark_def mark_ok_def)

lemma board_seek_simps [simp]: "bd_una (board_seek B) = bd_una B" "bd_sacked (board_seek B) = bd_sacked B"
  by (simp_all add: board_seek_def)

lemma board_seek_ok:
  assumes "board_ok B"
  shows "board_ok (board_seek B)"
  using board_next_cases [OF assms] assms by (auto simp: board_ok_def board_seek_def mark_ok_def)

lemma board_seek_mark:
  assumes "board_ok B" "board_next B \<noteq> -1"
  shows "mark_ok (board_next B) (board_seek B)" "board_mark (board_next B) (board_seek B) = board_mark (board_next B) B"
  using board_next_cases [OF assms(1)] assms(2) by (auto simp: mark_ok_def board_seek_def board_mark_def)

lemma board_clear_ok: "board_ok B \<Longrightarrow> board_ok (board_clear B)"
  by (auto simp: board_ok_def board_clear_def)

lemma board_update_ok:
  assumes B: "board_ok B" and u: "update_ok a bs B"
  shows "board_ok (board_update a bs B)"
proof -
  let ?S = "{x \<in> bd_sacked B. a < x} \<union> block_set bs"
  have fin: "finite ?S" using B by (simp add: board_ok_def)
  have above: "\<forall>x \<in> ?S. a + 1 < x"
    using u unfolding update_ok_def block_set_def by (fastforce simp: less_le)
  have pos: "?S \<noteq> {} \<Longrightarrow> 1 \<le> a + 1"
    using u B by (auto simp: update_ok_def board_ok_def block_set_def)
  have "bd_high B \<le> a + 1 \<or> ?S \<noteq> {} \<and> bd_high B \<le> Max ?S"
  proof (cases "bd_high B \<le> a + 1")
    case False
    then have h: "bd_sacked B \<noteq> {}" "bd_high B \<le> Max (bd_sacked B)" using B u by (auto simp: board_ok_def update_ok_def)
    have m: "Max (bd_sacked B) \<in> ?S" using h False B by (simp add: board_ok_def)
    have "bd_high B \<le> Max ?S" using h(2) Max_ge [OF fin m] by (rule order_trans)
    then show ?thesis using m by blast
  qed simp
  moreover have eq: "bd_una (board_update a bs B) = a + 1" "bd_sacked (board_update a bs B) = ?S"
    "bd_high (board_update a bs B) = bd_high B"
    by (simp_all add: board_update_def)
  moreover have "-1 \<le> a + 1" using u by (simp add: update_ok_def)
  ultimately show ?thesis using fin above pos unfolding board_ok_def eq by blast
qed

section \<open>The interface\<close>

datatype board_op = Update int "(int \<times> int) list" | Retransmit | Retransmit_first | Clear

datatype board_answer = Changed bool | Sent int | Cleared

fun board_step :: "board_op \<Rightarrow> board \<Rightarrow> board_answer \<times> board" where
  "board_step (Update a bs) B = (Changed (board_changed a bs B), board_update a bs B)"
| "board_step Retransmit B =
     (Sent (board_next B), if board_next B = -1 then B else board_mark (board_next B) B)"
| "board_step Retransmit_first B = (Sent (bd_una B), board_mark (bd_una B) B)"
| "board_step Clear B = (Cleared, board_clear B)"

fun op_ok :: "board_op \<Rightarrow> board \<Rightarrow> bool" where
  "op_ok (Update a bs) B = update_ok a bs B"
| "op_ok Retransmit_first B = (bd_sacked B \<noteq> {})"
| "op_ok _ B = True"

fun ops_ok :: "board_op list \<Rightarrow> board \<Rightarrow> bool" where
  "ops_ok [] B = True"
| "ops_ok (x # xs) B \<longleftrightarrow> op_ok x B \<and> ops_ok xs (snd (board_step x B))"

fun board_run :: "board_op list \<Rightarrow> board \<Rightarrow> board_answer list" where
  "board_run [] B = []"
| "board_run (x # xs) B = fst (board_step x B) # board_run xs (snd (board_step x B))"

text \<open>A scoreboard that runs the operations; \<open>dupack_action\<close> marks the first missing segment itself.\<close>

fun sack_step ::
  "(int \<Rightarrow> (int \<times> int) list \<Rightarrow> 's \<Rightarrow> (bool \<times> 's) res) \<Rightarrow> ('s \<Rightarrow> (int \<times> 's) res) \<Rightarrow> (int \<Rightarrow> 's \<Rightarrow> 's res) \<Rightarrow> ('s \<Rightarrow> 's) \<Rightarrow>
   board_op \<Rightarrow> int \<Rightarrow> 's \<Rightarrow> (board_answer \<times> 's) res" where
  "sack_step upd nxt mrk clr (Update a bs) una s = res_bind (upd a bs s) (\<lambda>(c, s'). Ok (Changed c, s'))"
| "sack_step upd nxt mrk clr Retransmit una s =
     res_bind (nxt s) (\<lambda>(x, s1). if x = -1 then Ok (Sent x, s1) else res_bind (mrk x s1) (\<lambda>s2. Ok (Sent x, s2)))"
| "sack_step upd nxt mrk clr Retransmit_first una s = res_bind (mrk una s) (\<lambda>s'. Ok (Sent una, s'))"
| "sack_step upd nxt mrk clr Clear una s = Ok (Cleared, clr s)"

fun sack_run ::
  "(int \<Rightarrow> (int \<times> int) list \<Rightarrow> 's \<Rightarrow> (bool \<times> 's) res) \<Rightarrow> ('s \<Rightarrow> (int \<times> 's) res) \<Rightarrow> (int \<Rightarrow> 's \<Rightarrow> 's res) \<Rightarrow> ('s \<Rightarrow> 's) \<Rightarrow>
   board_op list \<Rightarrow> int \<Rightarrow> 's \<Rightarrow> board_answer list res" where
  "sack_run upd nxt mrk clr [] una s = Ok []"
| "sack_run upd nxt mrk clr (x # xs) una s =
     res_bind (sack_step upd nxt mrk clr x una s) (\<lambda>(r, s').
       res_bind (sack_run upd nxt mrk clr xs (case x of Update a bs \<Rightarrow> a + 1 | _ \<Rightarrow> una) s') (\<lambda>rs. Ok (r # rs)))"

locale sack_board =
  fixes upd :: "int \<Rightarrow> (int \<times> int) list \<Rightarrow> 's \<Rightarrow> (bool \<times> 's) res"
    and nxt :: "'s \<Rightarrow> (int \<times> 's) res"
    and mrk :: "int \<Rightarrow> 's \<Rightarrow> 's res"
    and clr :: "'s \<Rightarrow> 's"
    and repr :: "board \<Rightarrow> 's \<Rightarrow> bool"
  assumes repr_ok: "repr B s \<Longrightarrow> board_ok B"
    and upd: "repr B s \<Longrightarrow> update_ok a bs B \<Longrightarrow>
      \<exists>s'. upd a bs s = Ok (board_changed a bs B, s') \<and> repr (board_update a bs B) s'"
    and nxt: "repr B s \<Longrightarrow> \<exists>s'. nxt s = Ok (board_next B, s') \<and> repr (board_seek B) s'"
    and mrk: "repr B s \<Longrightarrow> mark_ok x B \<Longrightarrow> \<exists>s'. mrk x s = Ok s' \<and> repr (board_mark x B) s'"
    and clr: "repr B s \<Longrightarrow> repr (board_clear B) (clr s)"
begin

lemma step_ok:
  assumes r: "repr B s" and ok: "op_ok x B"
  shows "\<exists>s'. sack_step upd nxt mrk clr x (bd_una B) s = Ok (fst (board_step x B), s') \<and> repr (snd (board_step x B)) s'"
proof (cases x)
  case (Update a bs)
  then show ?thesis using upd [OF r, of a bs] ok by auto
next
  case Retransmit
  obtain s' where s': "nxt s = Ok (board_next B, s')" "repr (board_seek B) s'" using nxt [OF r] by blast
  show ?thesis
  proof (cases "board_next B = -1")
    case False
    note m = board_seek_mark [OF repr_ok [OF r] False]
    from mrk [OF s'(2) m(1)] show ?thesis using s'(1) False Retransmit by (auto simp: m(2))
  next
    case True
    then show ?thesis using s' Retransmit by (simp add: board_seek_def)
  qed
next
  case Retransmit_first
  have "bd_sacked B \<noteq> {}" using ok Retransmit_first by simp
  moreover from this have "bd_una B < Max (bd_sacked B)" "bd_una B \<notin> bd_sacked B"
    using repr_ok [OF r] by (auto simp: board_ok_def)
  ultimately have "mark_ok (bd_una B) B" by (simp add: mark_ok_def)
  then show ?thesis using mrk [OF r] Retransmit_first by fastforce
next
  case Clear
  then show ?thesis using clr [OF r] by simp
qed

lemma una_step: "bd_una (snd (board_step x B)) = (case x of Update a bs \<Rightarrow> a + 1 | _ \<Rightarrow> bd_una B)"
  by (cases x) (auto simp: board_update_def board_mark_def board_clear_def)

lemma run_ok: "repr B s \<Longrightarrow> ops_ok xs B \<Longrightarrow> sack_run upd nxt mrk clr xs (bd_una B) s = Ok (board_run xs B)"
proof (induction xs arbitrary: B s)
  case (Cons x xs)
  obtain s' where s': "sack_step upd nxt mrk clr x (bd_una B) s = Ok (fst (board_step x B), s')" "repr (snd (board_step x B)) s'"
    using step_ok [OF Cons.prems(1)] Cons.prems(2) by auto
  have "sack_run upd nxt mrk clr xs (bd_una (snd (board_step x B))) s' = Ok (board_run xs (snd (board_step x B)))"
    using Cons.IH [OF s'(2)] Cons.prems(2) by simp
  then show ?case using s'(1) by (simp add: una_step)
qed simp

end

end
