(* ===== verification/Scoreboard_Correct.thy ===== *)
theory Scoreboard_Correct
  imports Scoreboard Sack_Board
begin

text \<open>
  What the array of \<open>Scoreboard\<close> holds: the nodes of the segments from the first one not acknowledged
  to the last one that was selectively acknowledged, each with what is known of it. The window is smaller than
  the array, so that no two of its numbers have the same index.
\<close>

section \<open>The array\<close>

lemma mod_below: "0 < sz \<Longrightarrow> sz \<le> int n \<Longrightarrow> \<not> int n \<le> i mod sz"
  by (metis not_le order.strict_trans2 pos_mod_bound)

lemma array_at_ok: "0 \<le> i \<Longrightarrow> 0 < sz \<Longrightarrow> sz \<le> int (length xs) \<Longrightarrow> array_at xs sz i = Ok (xs ! nat (i mod sz))"
  by (simp add: array_at_def mod_below not_less)

lemma array_put_ok: "0 \<le> i \<Longrightarrow> 0 < sz \<Longrightarrow> sz \<le> int (length xs) \<Longrightarrow> array_put xs sz i v = Ok (xs[nat (i mod sz) := v])"
  by (simp add: array_put_def mod_below not_less)

lemma mod_near_eq:
  fixes i j sz :: int
  assumes "\<bar>i - j\<bar> < sz" "i mod sz = j mod sz"
  shows "i = j"
proof (rule ccontr)
  assume "i \<noteq> j"
  moreover have "sz dvd i - j" using assms(2) by (simp add: mod_eq_dvd_iff)
  ultimately have "\<bar>sz\<bar> \<le> \<bar>i - j\<bar>" by (intro dvd_imp_le_int) simp_all
  with assms(1) show False by simp
qed

lemma array_at_put:
  assumes "0 \<le> i" "0 \<le> j" "0 < sz" "sz \<le> int (length xs)" "\<bar>i - j\<bar> < sz"
  shows "array_at (xs[nat (i mod sz) := v]) sz j = (if j = i then Ok v else array_at xs sz j)"
proof -
  have "nat (i mod sz) < length xs" using assms(3,4) by (simp add: nat_less_iff order.strict_trans2 [OF pos_mod_bound])
  moreover have "nat (i mod sz) = nat (j mod sz) \<longleftrightarrow> i = j"
    using mod_near_eq [OF assms(5)] assms(3) by (metis eq_nat_nat_iff pos_mod_sign)
  ultimately show ?thesis using assms(2-4) by (auto simp: array_at_ok nth_list_update)
qed

definition sb_room :: "scoreboard \<Rightarrow> bool" where
  "sb_room b \<longleftrightarrow> 1 < sb_sbsize b \<and> sb_sbsize b \<le> int (length (sb_SBN b))"

lemma sb_at_frame [simp]:
  "sb_at i (b\<lparr>sb_first := f\<rparr>) = sb_at i b" "sb_at i (b\<lparr>sb_length := n\<rparr>) = sb_at i b"
  "sb_at i (b\<lparr>sb_changed := k\<rparr>) = sb_at i b"
  by (simp_all add: sb_at_def)

lemma sb_room_frame [simp]:
  "sb_room (b\<lparr>sb_first := f\<rparr>) = sb_room b" "sb_room (b\<lparr>sb_length := n\<rparr>) = sb_room b" "sb_room (b\<lparr>sb_changed := k\<rparr>) = sb_room b"
  by (simp_all add: sb_room_def)

lemma sb_put_ok:
  assumes "sb_room b" "0 \<le> i"
  shows "\<exists>xs. sb_put i n b = Ok (b\<lparr>sb_SBN := xs\<rparr>) \<and> sb_room (b\<lparr>sb_SBN := xs\<rparr>) \<and>
    (\<forall>j. 0 \<le> j \<longrightarrow> \<bar>i - j\<bar> < sb_sbsize b \<longrightarrow> sb_at j (b\<lparr>sb_SBN := xs\<rparr>) = (if j = i then Ok n else sb_at j b))"
  using assms by (auto simp: sb_put_def sb_at_def sb_room_def array_put_ok array_at_put)

section \<open>The window\<close>

definition node_ok :: "int set \<Rightarrow> int set \<Rightarrow> int \<Rightarrow> sb_node \<Rightarrow> bool" where
  "node_ok S R i n \<longleftrightarrow> sn_seq_no n = i \<and> \<not> sn_ack_flag n \<and> sn_sack_flag n = (i \<in> S) \<and> sn_retran n = (i \<in> R)"

definition sb_window :: "int \<Rightarrow> int \<Rightarrow> int set \<Rightarrow> int set \<Rightarrow> scoreboard \<Rightarrow> bool" where
  "sb_window f m S R b \<longleftrightarrow> 0 \<le> f \<and> f \<le> m \<and> sb_first b = f \<and> sb_length b = m + 1 - f \<and> m + 1 - f < sb_sbsize b \<and> sb_room b \<and>
     (\<forall>i. f \<le> i \<and> i \<le> m \<longrightarrow> (\<exists>n. sb_at i b = Ok n \<and> node_ok S R i n))"

lemma window_at:
  assumes "sb_window f m S R b" "f \<le> i" "i \<le> m"
  obtains n where "sb_at i b = Ok n" "node_ok S R i n"
  using assms by (auto simp: sb_window_def)

lemma window_cong:
  assumes "sb_window f m S R b" "\<And>i. f \<le> i \<Longrightarrow> i \<le> m \<Longrightarrow> i \<in> S \<longleftrightarrow> i \<in> S'" "\<And>i. f \<le> i \<Longrightarrow> i \<le> m \<Longrightarrow> i \<in> R \<longleftrightarrow> i \<in> R'"
  shows "sb_window f m S' R' b"
  using assms unfolding sb_window_def node_ok_def by blast

lemma window_changed [simp]: "sb_window f m S R (b\<lparr>sb_changed := k\<rparr>) = sb_window f m S R b"
  by (simp add: sb_window_def)

text \<open>A node of the window is replaced.\<close>

lemma window_put:
  assumes w: "sb_window f m S R b" and i: "f \<le> i" "i \<le> m" and n: "node_ok S' R' i n"
    and eq: "\<And>j. f \<le> j \<Longrightarrow> j \<le> m \<Longrightarrow> j \<noteq> i \<Longrightarrow> (j \<in> S \<longleftrightarrow> j \<in> S') \<and> (j \<in> R \<longleftrightarrow> j \<in> R')"
  shows "\<exists>xs. sb_put i n b = Ok (b\<lparr>sb_SBN := xs\<rparr>) \<and> sb_window f m S' R' (b\<lparr>sb_SBN := xs\<rparr>)"
proof -
  have r: "sb_room b" "0 \<le> i" "m + 1 - f < sb_sbsize b" "0 \<le> f" "0 < sb_sbsize b"
    using w i by (auto simp: sb_window_def)
  obtain xs where xs: "sb_put i n b = Ok (b\<lparr>sb_SBN := xs\<rparr>)" "sb_room (b\<lparr>sb_SBN := xs\<rparr>)"
    "\<And>j. 0 \<le> j \<Longrightarrow> \<bar>i - j\<bar> < sb_sbsize b \<Longrightarrow> sb_at j (b\<lparr>sb_SBN := xs\<rparr>) = (if j = i then Ok n else sb_at j b)"
    using sb_put_ok [OF r(1,2)] by blast
  have "\<exists>k. sb_at j (b\<lparr>sb_SBN := xs\<rparr>) = Ok k \<and> node_ok S' R' j k" if j: "f \<le> j" "j \<le> m" for j
  proof (cases "j = i")
    case True
    then show ?thesis using xs(3) [of j] r n by simp
  next
    case False
    obtain k where "sb_at j b = Ok k" "node_ok S R j k" using window_at [OF w j] .
    then show ?thesis using xs(3) [of j] r i j False eq [OF j False] by (simp add: node_ok_def)
  qed
  then show ?thesis using xs(1,2) w by (auto simp: sb_window_def)
qed

section \<open>The left edge\<close>

lemma window_tail:
  assumes w: "sb_window f m S R b" and lt: "f < m"
    and b1: "sb_SBN b1 = xs" "sb_sbsize b1 = sb_sbsize b" "sb_first b1 = f + 1" "sb_length b1 = m - f"
    and xs: "sb_room (b\<lparr>sb_SBN := xs\<rparr>)"
      "\<And>j. 0 \<le> j \<Longrightarrow> \<bar>f - j\<bar> < sb_sbsize b \<Longrightarrow> sb_at j (b\<lparr>sb_SBN := xs\<rparr>) = (if j = f then Ok n else sb_at j b)"
  shows "sb_window (f + 1) m S R b1"
proof -
  have "sb_at j b1 = sb_at j b" if "f + 1 \<le> j" "j \<le> m" for j
    using xs(2) [of j] that w b1(1,2) by (simp add: sb_window_def sb_at_def)
  moreover have "sb_room b1" using xs(1) b1(1,2) by (simp add: sb_room_def)
  ultimately show ?thesis using w lt b1 by (auto simp: sb_window_def)
qed

lemma sb_advance_ok:
  assumes "sb_window f m S R b" "f \<le> a"
  shows "\<exists>d' b'. sb_advance [f..a] a d b = Ok (d', b') \<and> sb_changed b < sb_changed b' \<and>
    (if a < m then sb_window (a + 1) m S R b' else sb_length b' = 0 \<and> sb_room b')"
  using assms
proof (induction "nat (a - f)" arbitrary: f b d rule: less_induct)
  case less
  have w: "0 \<le> f" "f \<le> m" "sb_first b = f" "sb_length b = m + 1 - f" "sb_room b" "0 < sb_sbsize b"
    using less.prems by (auto simp: sb_window_def)
  obtain n where n: "sb_at f b = Ok n" "sn_seq_no n = f" using window_at [OF less.prems(1)] w(2) by (auto simp: node_ok_def)
  define n2 where "n2 = (let n1 = n\<lparr>sn_ack_flag := True, sn_sack_flag := True\<rparr>
    in if sn_retran n1 then n1\<lparr>sn_retran := False, sn_snd_nxt := 0\<rparr> else n1)"
  define d1 where "d1 = (if sn_retran n then d + 1 else d)"
  define b0 where "b0 = b\<lparr>sb_first := f + 1, sb_length := m - f\<rparr>"
  have r0: "sb_room b0" using w(5) by (simp add: b0_def)
  obtain xs where xs: "sb_put f n2 b0 = Ok (b0\<lparr>sb_SBN := xs\<rparr>)" "sb_room (b\<lparr>sb_SBN := xs\<rparr>)"
    "\<And>j. 0 \<le> j \<Longrightarrow> \<bar>f - j\<bar> < sb_sbsize b \<Longrightarrow> sb_at j (b\<lparr>sb_SBN := xs\<rparr>) = (if j = f then Ok n2 else sb_at j b)"
    using sb_put_ok [OF r0 w(1), of n2] by (auto simp: b0_def sb_at_def sb_room_def)
  define b1 where "b1 = b0\<lparr>sb_SBN := xs, sb_changed := sb_changed b + 1\<rparr>"
  have "sb_advance (f # is) a d b = res_bind (sb_put f n2 b0) (\<lambda>b1. let b2 = b1\<lparr>sb_changed := sb_changed b1 + 1\<rparr>
      in if sb_length b2 = 0 then Ok (d1, b2) else sb_advance is a d1 b2)" for "is"
    using n w less.prems(2) by (cases "sn_retran n") (simp_all add: n2_def d1_def b0_def Let_def cong del: if_weak_cong)
  moreover have "[f..a] = f # [f + 1..a]" using less.prems(2) by (rule upto_rec1)
  ultimately have eq: "sb_advance [f..a] a d b = (if m = f then Ok (d1, b1) else sb_advance [f + 1..a] a d1 b1)"
    unfolding xs(1) by (simp add: b1_def b0_def Let_def)
  have r: "sb_room b1" using xs(2) by (simp add: b1_def b0_def sb_room_def)
  show ?case
  proof (cases "m = f")
    case True
    then show ?thesis using eq r less.prems(2) by (simp add: b1_def b0_def)
  next
    case False
    then have w1: "sb_window (f + 1) m S R b1"
      using window_tail [OF less.prems(1) _ _ _ _ _ xs(2,3), of b1] w(2) by (simp add: b1_def b0_def)
    show ?thesis
    proof (cases "f = a")
      case True
      then show ?thesis unfolding eq using False w1 w(2) by (simp add: b1_def b0_def)
    next
      case F: False
      then have "nat (a - (f + 1)) < nat (a - f)" "f + 1 \<le> a" using less.prems(2) by simp_all
      from less.hyps [OF this(1) w1 this(2), of d1] show ?thesis
        using eq False by (simp add: b1_def b0_def) (smt (verit))
    qed
  qed
qed

text \<open>Nodes below the window do not matter.\<close>

definition sb_holds :: "int \<Rightarrow> int set \<Rightarrow> int set \<Rightarrow> scoreboard \<Rightarrow> bool" where
  "sb_holds f S R b \<longleftrightarrow> (if S = {} then sb_length b = 0 \<and> sb_room b else sb_window f (Max S) S R b)"

lemma sb_left_edge_ok:
  assumes h: "sb_holds f S R b" and S: "finite S" "\<forall>x \<in> S. f \<le> x" and a: "f \<le> a + 1"
  shows "\<exists>d b'. sb_left_edge a b = Ok (d, b') \<and> sb_holds (a + 1) {x \<in> S. a < x} {x \<in> R. a < x} b' \<and>
    (if S \<noteq> {} \<and> f \<le> a then sb_changed b < sb_changed b' else b' = b)"
proof (cases "S = {}")
  case True
  then show ?thesis using h by (simp add: sb_left_edge_def sb_holds_def)
next
  case ne: False
  then have w: "sb_window f (Max S) S R b" using h by (simp add: sb_holds_def)
  then have f: "f \<le> Max S" "sb_first b = f" "sb_length b \<noteq> 0" by (auto simp: sb_window_def)
  obtain n where n: "sb_at f b = Ok n" "sn_seq_no n = f" using window_at [OF w, of f] f(1) by (auto simp: node_ok_def)
  show ?thesis
  proof (cases "f \<le> a")
    case True
    obtain d' b' where b': "sb_advance [f..a] a 0 b = Ok (d', b')" "sb_changed b < sb_changed b'"
      "if a < Max S then sb_window (a + 1) (Max S) S R b' else sb_length b' = 0 \<and> sb_room b'"
      using sb_advance_ok [OF w True] by blast
    have m: "a < Max S \<Longrightarrow> Max {x \<in> S. a < x} = Max S" using S(1) ne by (intro Max_eqI) auto
    have "sb_holds (a + 1) {x \<in> S. a < x} {x \<in> R. a < x} b'"
    proof (cases "a < Max S")
      case T: True
      then have "Max S \<in> {x \<in> S. a < x}" using S(1) ne by simp
      then have "{x \<in> S. a < x} \<noteq> {}" by blast
      moreover have "sb_window (a + 1) (Max S) {x \<in> S. a < x} {x \<in> R. a < x} b'"
        by (rule window_cong [where S = S and R = R]) (use b'(3) T in auto)
      ultimately show ?thesis unfolding sb_holds_def m [OF T] by auto
    next
      case F: False
      then have "{x \<in> S. a < x} = {}" using S(1) Max_ge [OF S(1)] by fastforce
      then show ?thesis using b'(3) F unfolding sb_holds_def by simp
    qed
    then show ?thesis using b' n f True ne by (simp add: sb_left_edge_def)
  next
    case False
    then have "a + 1 = f" using a by simp
    then have "{x \<in> S. a < x} = S" using S(2) by auto
    moreover have "sb_window f (Max S) S {x \<in> R. a < x} b"
      by (rule window_cong [OF w]) (use \<open>a + 1 = f\<close> in auto)
    ultimately show ?thesis using n f False ne \<open>a + 1 = f\<close> by (simp add: sb_left_edge_def sb_holds_def)
  qed
qed

section \<open>Growth\<close>

lemma sb_copy_ok:
  assumes "sb_room b" "0 < sz"
  shows "0 \<le> i \<Longrightarrow> j - i < sz \<Longrightarrow> sz \<le> int (length new) \<Longrightarrow>
    \<exists>new'. sb_copy [i..j] sz b new = Ok new' \<and> length new' = length new \<and>
      (\<forall>k. 0 \<le> k \<longrightarrow> (\<forall>x \<in> {i..j}. \<bar>x - k\<bar> < sz) \<longrightarrow> array_at new' sz k = (if k \<in> {i..j} then sb_at k b else array_at new sz k))"
proof (induction i j arbitrary: new rule: upto.induct)
  case (1 i j)
  show ?case
  proof (cases "i \<le> j")
    case True
    obtain n where n: "sb_at i b = Ok n" using assms(1) 1(2) by (simp add: sb_at_def sb_room_def array_at_ok)
    let ?new = "new[nat (i mod sz) := n]"
    obtain new' where new': "sb_copy [i + 1..j] sz b ?new = Ok new'" "length new' = length new"
      "\<And>k. 0 \<le> k \<Longrightarrow> \<forall>x \<in> {i + 1..j}. \<bar>x - k\<bar> < sz \<Longrightarrow>
         array_at new' sz k = (if k \<in> {i + 1..j} then sb_at k b else array_at ?new sz k)"
      using 1(1) [OF True, of ?new] 1(2-4) by auto
    have "array_at new' sz k = (if k \<in> {i..j} then sb_at k b else array_at new sz k)"
      if "0 \<le> k" "\<forall>x \<in> {i..j}. \<bar>x - k\<bar> < sz" for k
    proof -
      have "array_at ?new sz k = (if k = i then Ok n else array_at new sz k)"
        using that True 1(2,4) assms(2) by (intro array_at_put) auto
      then show ?thesis using new'(3) [of k] that n True by auto
    qed
    then show ?thesis
      using new'(1,2) n 1(2,4) assms(2) True by (simp add: upto_rec1 array_put_ok)
  qed simp
qed

lemma sb_resize_ok:
  assumes w: "sb_window f m S R b"
  shows "\<exists>b'. sb_resizeSB junk (sb_sbsize b * 2) b = Ok b' \<and> sb_window f m S R b' \<and> sb_sbsize b' = sb_sbsize b * 2 \<and>
    sb_changed b' = sb_changed b"
proof -
  have r: "0 \<le> f" "f \<le> m" "m + 1 - f < sb_sbsize b" "sb_room b" "sb_first b = f" "sb_length b = m + 1 - f"
    using w by (auto simp: sb_window_def)
  let ?sz = "sb_sbsize b * 2"
  let ?new = "map (junk ?sz) [0..?sz]"
  obtain n where n: "sb_at f b = Ok n" "sn_seq_no n = f" using window_at [OF w, of f] r(2) by (auto simp: node_ok_def)
  have "m + 1 - f < ?sz" "0 < ?sz" "?sz \<le> int (length ?new)" using r by simp_all
  then obtain new' where new': "sb_copy [f..m + 1] ?sz b ?new = Ok new'" "length new' = length ?new"
    "\<And>k. 0 \<le> k \<Longrightarrow> \<forall>x \<in> {f..m + 1}. \<bar>x - k\<bar> < ?sz \<Longrightarrow> array_at new' ?sz k = (if k \<in> {f..m + 1} then sb_at k b else array_at ?new ?sz k)"
    using sb_copy_ok [OF r(4) _ r(1), of ?sz "m + 1" ?new] by blast
  define b' where "b' = b\<lparr>sb_SBN := new', sb_sbsize := ?sz\<rparr>"
  have "sb_at k b' = sb_at k b" if "f \<le> k" "k \<le> m" for k
  proof -
    have "\<forall>x \<in> {f..m + 1}. \<bar>x - k\<bar> < ?sz" using that r(3) by auto
    then show ?thesis using new'(3) [of k] that r(1) by (simp add: b'_def sb_at_def)
  qed
  moreover have "sb_room b'" using r new'(2) by (simp add: b'_def sb_room_def)
  ultimately have "sb_window f m S R b'" using w r by (auto simp: sb_window_def b'_def)
  then show ?thesis using new'(1) n r(5,6) by (simp add: sb_resizeSB_def b'_def add.commute)
qed

lemma sb_make_room_ok:
  "sb_window f m S R b \<Longrightarrow> \<exists>b'. sb_make_room junk need b = Ok b' \<and> sb_window f m S R b' \<and> need < sb_sbsize b' - 1 \<and>
     sb_changed b' = sb_changed b"
proof (induction "nat (need + 2 - sb_sbsize b)" arbitrary: b rule: less_induct)
  case less
  show ?case
  proof (cases "need \<ge> sb_sbsize b - 1")
    case True
    have pos: "0 < sb_sbsize b" using less.prems by (simp add: sb_window_def sb_room_def)
    obtain b1 where b1: "sb_resizeSB junk (sb_sbsize b * 2) b = Ok b1" "sb_window f m S R b1" "sb_sbsize b1 = sb_sbsize b * 2"
      "sb_changed b1 = sb_changed b"
      using sb_resize_ok [OF less.prems] by blast
    have "nat (need + 2 - sb_sbsize b1) < nat (need + 2 - sb_sbsize b)" using b1(3) pos True by simp
    from less.hyps [OF this b1(2)] show ?thesis using b1(1,4) True pos by (subst sb_make_room.simps) simp
  next
    case False
    then show ?thesis using less.prems by (subst sb_make_room.simps) simp
  qed
qed

section \<open>The right edge\<close>

lemma sb_last_seq_ok: "sb_window f m S R b \<Longrightarrow> sb_last_seq b = Ok m"
proof -
  assume w: "sb_window f m S R b"
  then have r: "0 \<le> f" "f \<le> m" "sb_room b" "sb_first b = f" "sb_length b = m + 1 - f" by (auto simp: sb_window_def)
  obtain n where n: "sb_at m b = Ok n" "sn_seq_no n = m" using window_at [OF w, of m] r(2) by (auto simp: node_ok_def)
  have "sb_at (m + sb_sbsize b) b = sb_at m b" using r(1-3) by (simp add: sb_at_def sb_room_def array_at_ok)
  moreover have e: "sb_first b + sb_length b + sb_sbsize b - 1 = m + sb_sbsize b" using r by simp
  ultimately show ?thesis using n unfolding sb_last_seq_def e by simp
qed

lemma sb_add_nodes_ok:
  "sb_window f m S R b \<Longrightarrow> \<forall>x \<in> S \<union> R. x \<le> m \<Longrightarrow> m' + 1 - f < sb_sbsize b \<Longrightarrow> m \<le> m' \<Longrightarrow>
   \<exists>b'. sb_add_nodes [m + 1..m'] b = Ok b' \<and> sb_window f m' S R b' \<and> sb_changed b' = sb_changed b + (m' - m)"
proof (induction "nat (m' - m)" arbitrary: m b)
  case 0
  then show ?case by simp
next
  case (Suc k)
  then have lt: "m < m'" by simp
  have w: "0 \<le> f" "f \<le> m" "sb_room b" "0 \<le> m + 1" "sb_length b = m + 1 - f" "sb_first b = f" using Suc.prems(1) by (auto simp: sb_window_def)
  obtain xs where xs: "sb_put (m + 1) (sb_blank (m + 1)) b = Ok (b\<lparr>sb_SBN := xs\<rparr>)" "sb_room (b\<lparr>sb_SBN := xs\<rparr>)"
    "\<And>j. 0 \<le> j \<Longrightarrow> \<bar>m + 1 - j\<bar> < sb_sbsize b \<Longrightarrow>
       sb_at j (b\<lparr>sb_SBN := xs\<rparr>) = (if j = m + 1 then Ok (sb_blank (m + 1)) else sb_at j b)"
    using sb_put_ok [OF w(3,4)] by blast
  define b1 where "b1 = b\<lparr>sb_SBN := xs, sb_length := m + 2 - f, sb_changed := sb_changed b + 1\<rparr>"
  have at: "sb_at j b1 = (if j = m + 1 then Ok (sb_blank (m + 1)) else sb_at j b)" if "f \<le> j" "j \<le> m + 1" for j
    using xs(3) [of j] that w Suc.prems(3) lt by (simp add: b1_def sb_at_def)
  have blank: "node_ok S R (m + 1) (sb_blank (m + 1))"
    using bspec [OF Suc.prems(2), of "m + 1"] by (auto simp: node_ok_def sb_blank_def)
  have "\<exists>n. sb_at j b1 = Ok n \<and> node_ok S R j n" if "f \<le> j" "j \<le> m + 1" for j
    using at [OF that] blank window_at [OF Suc.prems(1), of j] that by (cases "j = m + 1") auto
  then have w1: "sb_window f (m + 1) S R b1"
    using w xs(2) Suc.prems(3) lt by (auto simp: sb_window_def b1_def sb_room_def)
  have add: "sb_add_node (m + 1) b = Ok b1"
    using xs(1) w Suc.prems(3) lt by (simp add: sb_add_node_def Let_def b1_def)
  have "[m + 1..m'] = (m + 1) # [m + 1 + 1..m']" using lt by (intro upto_rec1) simp
  then have eq: "sb_add_nodes [m + 1..m'] b = sb_add_nodes [m + 1 + 1..m'] b1" by (simp add: add)
  have k: "k = nat (m' - (m + 1))" using Suc.hyps(2) by simp
  have "x \<le> m + 1" if "x \<in> S \<union> R" for x using bspec [OF Suc.prems(2) that] by simp
  then have le: "\<forall>x \<in> S \<union> R. x \<le> m + 1" by blast
  have room: "m' + 1 - f < sb_sbsize b1" "m + 1 \<le> m'"
    using Suc.prems(3) lt by (simp_all add: b1_def)
  from Suc.hyps(1) [OF k w1 le room] show ?case unfolding eq by (simp add: b1_def algebra_simps)
qed

lemma sb_right_edge_ok:
  assumes w: "sb_window f m S R b" and le: "\<forall>x \<in> S \<union> R. x \<le> m" and a: "a + 1 = f"
  shows "\<exists>b'. sb_right_edge junk a r b = Ok b' \<and> sb_window f (max m (r - 1)) S R b' \<and>
    sb_changed b' = sb_changed b + (max m (r - 1) - m)"
proof (cases "m < r")
  case True
  obtain b1 where b1: "sb_make_room junk (r - a) b = Ok b1" "sb_window f m S R b1" "r - a < sb_sbsize b1 - 1" "sb_changed b1 = sb_changed b"
    using sb_make_room_ok [OF w] by blast
  obtain b2 where b2: "sb_add_nodes [m + 1..r - 1] b1 = Ok b2" "sb_window f (r - 1) S R b2" "sb_changed b2 = sb_changed b1 + (r - 1 - m)"
    using sb_add_nodes_ok [OF b1(2) le, of "r - 1"] b1(3) a True by auto
  have "max m (r - 1) = r - 1" using True by simp
  then show ?thesis using b1 b2 True by (simp add: sb_right_edge_def sb_last_seq_ok [OF w] sb_last_seq_ok [OF b1(2)])
next
  case False
  then show ?thesis using w by (simp add: sb_right_edge_def sb_last_seq_ok [OF w] max_def)
qed

section \<open>The blocks of an acknowledgement\<close>

lemma sb_mark_step:
  assumes w: "sb_window f m S R b" and i: "f \<le> i" "i \<le> m" "l \<le> i" "i < r"
  shows "\<exists>d' b'. sb_mark_sacked l r (i # is) d b = sb_mark_sacked l r is d' b' \<and> sb_window f m (insert i S) (R - {i}) b' \<and>
    sb_changed b' = sb_changed b + (if i \<in> S then 0 else 1)"
proof -
  obtain n where n: "sb_at i b = Ok n" "node_ok S R i n" using window_at [OF w i(1,2)] .
  define b1 where "b1 = (if sn_sack_flag n then b else b\<lparr>sb_changed := sb_changed b + 1\<rparr>)"
  have w1: "sb_window f m S R b1" using w by (simp add: b1_def)
  have ok: "node_ok (insert i S) (R - {i}) i (n\<lparr>sn_sack_flag := True, sn_retran := False\<rparr>)" using n(2) by (simp add: node_ok_def)
  obtain xs where xs: "sb_put i (n\<lparr>sn_sack_flag := True, sn_retran := False\<rparr>) b1 = Ok (b1\<lparr>sb_SBN := xs\<rparr>)"
    "sb_window f m (insert i S) (R - {i}) (b1\<lparr>sb_SBN := xs\<rparr>)"
    using window_put [OF w1 i(1,2) ok] by auto
  have n': "sn_seq_no n = i" "sn_sack_flag n = (i \<in> S)" using n(2) by (simp_all add: node_ok_def)
  have eq: "sb_mark_sacked l r (i # is) d b = sb_mark_sacked l r is (if sn_retran n then d + 1 else d) (b1\<lparr>sb_SBN := xs\<rparr>)"
    unfolding sb_mark_sacked.simps n(1) res_bind.simps Let_def b1_def [symmetric] xs(1) using n'(1) i by simp
  have "sb_changed (b1\<lparr>sb_SBN := xs\<rparr>) = sb_changed b + (if i \<in> S then 0 else 1)" using n'(2) by (simp add: b1_def)
  then show ?thesis using xs(2) unfolding eq by blast
qed

lemma sb_mark_sacked_ok:
  assumes "r \<le> m + 1"
  shows "sb_window f m S R b \<Longrightarrow> f \<le> i \<Longrightarrow> \<exists>d' b'. sb_mark_sacked l r [i..r - 1] d b = Ok (d', b') \<and>
    sb_window f m (S \<union> {max l i..<r}) (R - {max l i..<r}) b' \<and>
    sb_changed b' = sb_changed b + int (card ({max l i..<r} - S))"
proof (induction "nat (r - i)" arbitrary: i d b S R)
  case 0
  then show ?case by simp
next
  case (Suc k)
  then have lt: "i < r" by simp
  then have u: "[i..r - 1] = i # [i + 1..r - 1]" by (intro upto_rec1) simp
  have k: "k = nat (r - (i + 1))" "f \<le> i + 1" using Suc by simp_all
  show ?case
  proof (cases "l \<le> i")
    case True
    then have T: "{max l i..<r} = insert i {max l (i + 1)..<r}" using lt by auto
    obtain d1 b1 where b1: "sb_mark_sacked l r (i # [i + 1..r - 1]) d b = sb_mark_sacked l r [i + 1..r - 1] d1 b1"
      "sb_window f m (insert i S) (R - {i}) b1" "sb_changed b1 = sb_changed b + (if i \<in> S then 0 else 1)"
      using sb_mark_step [OF Suc.prems(1,2), of l r "[i + 1..r - 1]" d] lt True assms by auto
    obtain d' b' where b': "sb_mark_sacked l r [i + 1..r - 1] d1 b1 = Ok (d', b')"
      "sb_window f m (insert i S \<union> {max l (i + 1)..<r}) (R - {i} - {max l (i + 1)..<r}) b'"
      "sb_changed b' = sb_changed b1 + int (card ({max l (i + 1)..<r} - insert i S))"
      using Suc.hyps(1) [OF k(1) b1(2) k(2), of d1] by blast
    have sets: "insert i S \<union> {max l (i + 1)..<r} = S \<union> {max l i..<r}"
      "R - {i} - {max l (i + 1)..<r} = R - {max l i..<r}"
      using T by auto
    have "{max l (i + 1)..<r} - insert i S = ({max l i..<r} - S) - {i}" unfolding T by auto
    then have "sb_changed b' = sb_changed b + int (card ({max l i..<r} - S))"
      using b'(3) b1(3) card_Suc_Diff1 [of "{max l i..<r} - S" i] T by (cases "i \<in> S") auto
    then show ?thesis using b'(1,2) unfolding sets u b1(1) by blast
  next
    case False
    obtain n where n: "sb_at i b = Ok n" "node_ok S R i n" using window_at [OF Suc.prems(1,2)] lt assms by auto
    then have "sb_mark_sacked l r (i # [i + 1..r - 1]) d b = sb_mark_sacked l r [i + 1..r - 1] d b"
      using False by (simp add: node_ok_def)
    moreover have "max l (i + 1) = max l i" using False by simp
    ultimately show ?thesis using Suc.hyps(1) [OF k(1) Suc.prems(1) k(2), of d] unfolding u by simp
  qed
qed

lemma sb_block_ok:
  assumes w: "sb_window f m S R b" and le: "\<forall>x \<in> S \<union> R. x \<le> m" and a: "a + 1 = f" and lr: "f \<le> l" "l < r"
  shows "\<exists>d' b'. sb_block junk a l r d b = Ok (d', b') \<and> sb_window f (max m (r - 1)) (S \<union> {l..<r}) (R - {l..<r}) b' \<and>
    sb_changed b' = sb_changed b + (max m (r - 1) - m) + int (card ({l..<r} - S))"
proof -
  obtain b1 where b1: "sb_right_edge junk a r b = Ok b1" "sb_window f (max m (r - 1)) S R b1"
    "sb_changed b1 = sb_changed b + (max m (r - 1) - m)"
    using sb_right_edge_ok [OF w le a] by blast
  obtain n where n: "sb_at f b1 = Ok n" "sn_seq_no n = f" "sb_first b1 = f"
    using window_at [OF b1(2), of f] b1(2) by (auto simp: node_ok_def sb_window_def)
  have "r \<le> max m (r - 1) + 1" by simp
  from sb_mark_sacked_ok [OF this b1(2) order.refl, of l d] show ?thesis
    using b1(1,3) n lr(1) by (auto simp: sb_block_def max_absorb1)
qed

lemma sb_blocks_ok:
  "sb_window f m S R b \<Longrightarrow> \<forall>x \<in> S \<union> R. x \<le> m \<Longrightarrow> a + 1 = f \<Longrightarrow> \<forall>(l, r) \<in> set bs. f \<le> l \<and> l < r \<Longrightarrow>
   \<exists>d' b'. sb_blocks junk a bs d b = Ok (d', b') \<and>
     sb_window f (Max (insert m (block_set bs))) (S \<union> block_set bs) (R - block_set bs) b' \<and>
     sb_changed b \<le> sb_changed b' \<and> (sb_changed b' = sb_changed b \<longleftrightarrow> block_set bs \<subseteq> S)"
proof (induction bs arbitrary: m S R d b)
  case (Cons x bs)
  obtain l r where x: "x = (l, r)" by (cases x)
  then have lr: "f \<le> l" "l < r" using Cons.prems(4) by simp_all
  obtain d1 b1 where b1: "sb_block junk a l r d b = Ok (d1, b1)" "sb_window f (max m (r - 1)) (S \<union> {l..<r}) (R - {l..<r}) b1"
    "sb_changed b1 = sb_changed b + (max m (r - 1) - m) + int (card ({l..<r} - S))"
    using sb_block_ok [OF Cons.prems(1-3) lr] by blast
  have "y \<le> max m (r - 1)" if "y \<in> (S \<union> {l..<r}) \<union> (R - {l..<r})" for y
    using bspec [OF Cons.prems(2), of y] that by auto
  moreover have "\<forall>(l, r) \<in> set bs. f \<le> l \<and> l < r" using Cons.prems(4) by simp
  ultimately have "\<exists>d' b'. sb_blocks junk a bs d1 b1 = Ok (d', b') \<and>
     sb_window f (Max (insert (max m (r - 1)) (block_set bs))) (S \<union> {l..<r} \<union> block_set bs) (R - {l..<r} - block_set bs) b' \<and>
     sb_changed b1 \<le> sb_changed b' \<and> (sb_changed b' = sb_changed b1 \<longleftrightarrow> block_set bs \<subseteq> S \<union> {l..<r})"
    by (intro Cons.IH [OF b1(2) _ Cons.prems(3)]) blast+
  then
  obtain d' b' where b': "sb_blocks junk a bs d1 b1 = Ok (d', b')"
    "sb_window f (Max (insert (max m (r - 1)) (block_set bs))) (S \<union> {l..<r} \<union> block_set bs) (R - {l..<r} - block_set bs) b'"
    "sb_changed b1 \<le> sb_changed b'" "sb_changed b' = sb_changed b1 \<longleftrightarrow> block_set bs \<subseteq> S \<union> {l..<r}"
    by blast
  have ne: "{l..<r} \<noteq> {}" "Max {l..<r} = r - 1" using lr(2) by (auto intro!: Max_eqI)
  have "Max (insert m ({l..<r} \<union> block_set bs)) = Max (insert (max m (r - 1)) (block_set bs))"
    using ne by (cases "block_set bs = {}") (simp_all add: Max.union max.assoc)
  moreover have "S \<union> {l..<r} \<union> block_set bs = S \<union> ({l..<r} \<union> block_set bs)" "R - {l..<r} - block_set bs = R - ({l..<r} \<union> block_set bs)"
    by auto
  moreover have "sb_changed b1 = sb_changed b \<longleftrightarrow> {l..<r} \<subseteq> S"
  proof
    assume "sb_changed b1 = sb_changed b"
    then have "card ({l..<r} - S) = 0" using b1(3) by linarith
    then show "{l..<r} \<subseteq> S" by simp
  next
    assume sub: "{l..<r} \<subseteq> S"
    then have "r - 1 \<in> S" using lr(2) by auto
    then have "r - 1 \<le> m" using Cons.prems(2) by blast
    moreover have "{l..<r} - S = {}" using sub by blast
    ultimately show "sb_changed b1 = sb_changed b" using b1(3) by simp
  qed
  moreover have "sb_changed b \<le> sb_changed b1" using b1(3) by simp
  ultimately show ?case using b1(1) b' by (auto simp: x)
qed simp

section \<open>The interface\<close>

definition sb_missing :: "board \<Rightarrow> int set" where
  "sb_missing B = {bd_una B..<bd_high B} - bd_sacked B"

definition sb_repr :: "board \<Rightarrow> scoreboard \<Rightarrow> bool" where
  "sb_repr B b \<longleftrightarrow> board_ok B \<and> sb_holds (bd_una B) (bd_sacked B) (sb_missing B) b"

definition sb_upd :: "(int \<Rightarrow> int \<Rightarrow> sb_node) \<Rightarrow> int \<Rightarrow> (int \<times> int) list \<Rightarrow> scoreboard \<Rightarrow> (bool \<times> scoreboard) res" where
  "sb_upd junk a bs b = res_bind (sb_UpdateScoreBoard junk a bs b) (\<lambda>(d, b'). Ok (sb_changed b' \<noteq> 0, b'))"

definition sb_nxt :: "scoreboard \<Rightarrow> (int \<times> scoreboard) res" where
  "sb_nxt b = res_bind (sb_GetNextRetran b) (\<lambda>x. Ok (x, b))"

lemma sb_first_node:
  assumes "sb_room b" "0 \<le> i" "sb_length b = 0" "sb_first b = i"
  shows "\<exists>b'. sb_add_node i b = Ok b' \<and> sb_window i i {} {} b' \<and> sb_changed b' = sb_changed b + 1"
proof -
  obtain xs where xs: "sb_put i (sb_blank i) b = Ok (b\<lparr>sb_SBN := xs\<rparr>)" "sb_room (b\<lparr>sb_SBN := xs\<rparr>)"
    "\<And>j. 0 \<le> j \<Longrightarrow> \<bar>i - j\<bar> < sb_sbsize b \<Longrightarrow> sb_at j (b\<lparr>sb_SBN := xs\<rparr>) = (if j = i then Ok (sb_blank i) else sb_at j b)"
    using sb_put_ok [OF assms(1,2)] by blast
  define b' where "b' = b\<lparr>sb_SBN := xs, sb_length := 1, sb_changed := sb_changed b + 1\<rparr>"
  have sz: "1 < sb_sbsize b" using assms(1) by (simp add: sb_room_def)
  have "sb_at i b' = Ok (sb_blank i)" using xs(3) [of i] assms(2) sz by (simp add: b'_def sb_at_def)
  moreover have "node_ok {} {} i (sb_blank i)" by (simp add: node_ok_def sb_blank_def)
  ultimately have "sb_window i i {} {} b'"
    using assms sz xs(2) by (auto simp: sb_window_def b'_def sb_room_def dest: antisym)
  moreover have "sb_add_node i b = Ok b'" using xs(1) assms(3) sz by (simp add: sb_add_node_def Let_def b'_def)
  ultimately show ?thesis by (auto simp: b'_def)
qed

lemma missing_below:
  assumes "board_ok B" "x \<in> sb_missing B" "x \<in> {x. a < x}"
  shows "{x \<in> bd_sacked B. a < x} \<noteq> {} \<and> x \<le> Max {x \<in> bd_sacked B. a < x}"
proof -
  have x: "x < bd_high B" "bd_una B \<le> x" using assms(2) by (auto simp: sb_missing_def)
  then have S: "bd_sacked B \<noteq> {}" "x < Max (bd_sacked B)" "finite (bd_sacked B)" using assms(1) by (auto simp: board_ok_def)
  then have m: "Max (bd_sacked B) \<in> {x \<in> bd_sacked B. a < x}" using assms(3) by simp
  have "Max (bd_sacked B) \<le> Max {x \<in> bd_sacked B. a < x}" using S(3) by (intro Max_ge [OF _ m]) simp
  then show ?thesis using S(2) m by auto
qed

lemma sb_window_blocks:
  assumes w: "sb_window (a + 1) m S R b" and le: "\<forall>x \<in> S \<union> R. x \<le> m" and bs: "\<forall>(l, r) \<in> set bs. a + 1 < l \<and> l < r"
    and ne: "S \<union> block_set bs \<noteq> {}" and fin: "finite S" and m: "S = {} \<and> m = a + 1 \<or> S \<noteq> {} \<and> m = Max S"
  shows "\<exists>d' b'. sb_blocks junk a bs d b = Ok (d', b') \<and> sb_holds (a + 1) (S \<union> block_set bs) (R - block_set bs) b' \<and>
    sb_changed b \<le> sb_changed b' \<and> (sb_changed b' = sb_changed b \<longleftrightarrow> block_set bs \<subseteq> S)"
proof -
  have "\<forall>(l, r) \<in> set bs. a + 1 \<le> l \<and> l < r" using bs by auto
  then obtain d' b' where b': "sb_blocks junk a bs d b = Ok (d', b')"
    "sb_window (a + 1) (Max (insert m (block_set bs))) (S \<union> block_set bs) (R - block_set bs) b'"
    "sb_changed b \<le> sb_changed b'" "sb_changed b' = sb_changed b \<longleftrightarrow> block_set bs \<subseteq> S"
    using sb_blocks_ok [OF w le refl] by blast
  have above: "x \<in> block_set bs \<Longrightarrow> a + 1 < x" for x using bs by (fastforce simp: block_set_def)
  have "Max (insert m (block_set bs)) = Max (S \<union> block_set bs)"
  proof (cases "S = {}")
    case True
    then have B: "block_set bs \<noteq> {}" "m = a + 1" using ne m by auto
    then have "m < Max (block_set bs)" using above Max_in [OF finite_block_set B(1)] by blast
    then show ?thesis using True B by simp
  next
    case False
    then show ?thesis using fin m by (cases "block_set bs = {}") (simp_all add: Max.union)
  qed
  then show ?thesis using b' ne by (auto simp: sb_holds_def)
qed

lemma sb_upd_ok:
  assumes r: "sb_repr B b" and u: "update_ok a bs B"
  shows "\<exists>b'. sb_upd junk a bs b = Ok (board_changed a bs B, b') \<and> sb_repr (board_update a bs B) b'"
proof -
  let ?S = "bd_sacked B" and ?S1 = "{x \<in> bd_sacked B. a < x}" and ?R1 = "{x \<in> sb_missing B. a < x}"
  let ?b0 = "b\<lparr>sb_changed := 0\<rparr>"
  have ok: "board_ok B" "board_ok (board_update a bs B)" using r board_update_ok [OF _ u] by (simp_all add: sb_repr_def)
  then have fin: "finite ?S" "\<forall>x \<in> ?S. bd_una B \<le> x" by (auto simp: board_ok_def)
  have a: "-1 \<le> a" "bd_una B \<le> a + 1" "\<forall>(l, r) \<in> set bs. a + 1 < l \<and> l < r" using u by (simp_all add: update_ok_def)
  have h0: "sb_holds (bd_una B) ?S (sb_missing B) ?b0" using r by (simp add: sb_repr_def sb_holds_def)
  obtain d b1 where b1: "sb_left_edge a ?b0 = Ok (d, b1)" "sb_holds (a + 1) ?S1 ?R1 b1"
    "if ?S \<noteq> {} \<and> bd_una B \<le> a then sb_changed ?b0 < sb_changed b1 else b1 = ?b0"
    using sb_left_edge_ok [OF h0 fin a(2)] by blast
  have c1: "0 \<le> sb_changed b1" "sb_changed b1 = 0 \<longleftrightarrow> \<not> (?S \<noteq> {} \<and> bd_una B \<le> a)" using b1(3) by (auto split: if_split_asm)
  have R1: "x \<le> Max ?S1 \<and> ?S1 \<noteq> {}" if "x \<in> ?R1" for x using missing_below [OF ok(1), of x a] that by auto
  have final: "\<exists>b'. sb_upd junk a bs b = Ok (board_changed a bs B, b') \<and> sb_repr (board_update a bs B) b'"
    if "sb_blocks junk a bs d b2 = Ok (d', b')" "sb_holds (a + 1) (?S1 \<union> block_set bs) (?R1 - block_set bs) b'"
      "sb_changed b' \<noteq> 0 \<longleftrightarrow> board_changed a bs B"
      "(if sb_length b1 = 0 \<and> bs \<noteq> [] then sb_add_node (a + 1) (b1\<lparr>sb_first := a + 1\<rparr>) else Ok b1) = Ok b2" for b2 d' b'
  proof -
    have "sb_upd junk a bs b = Ok (board_changed a bs B, b')"
      using b1(1) that(1,3,4) by (simp add: sb_upd_def sb_UpdateScoreBoard_def)
    moreover have "sb_holds (a + 1) (?S1 \<union> block_set bs) (sb_missing (board_update a bs B)) b'"
    proof (cases "?S1 \<union> block_set bs = {}")
      case False
      then have "sb_window (a + 1) (Max (?S1 \<union> block_set bs)) (?S1 \<union> block_set bs) (?R1 - block_set bs) b'"
        using that(2) by (simp only: sb_holds_def if_False)
      then have "sb_window (a + 1) (Max (?S1 \<union> block_set bs)) (?S1 \<union> block_set bs) (sb_missing (board_update a bs B)) b'"
        by (rule window_cong) (use a(2) in \<open>auto simp: sb_missing_def board_update_def\<close>)
      then show ?thesis using False by (simp only: sb_holds_def if_False)
    next
      case True
      then show ?thesis using that(2) unfolding sb_holds_def True by simp
    qed
    ultimately show ?thesis using ok(2) by (simp add: sb_repr_def) (simp add: board_update_def)
  qed
  show ?thesis
  proof (cases "?S1 = {}")
    case True
    then have R: "?R1 = {}" and l: "sb_length b1 = 0" "sb_room b1" using R1 b1(2) unfolding sb_holds_def by auto
    show ?thesis
    proof (cases "bs = []")
      case T: True
      show ?thesis by (rule final [of b1 d b1]) (use T True R l c1 in \<open>simp_all add: sb_holds_def board_changed_def\<close>)
    next
      case F: False
      then have ne: "block_set bs \<noteq> {}" using a(3) by (cases bs) auto
      obtain b2 where b2: "sb_add_node (a + 1) (b1\<lparr>sb_first := a + 1\<rparr>) = Ok b2" "sb_window (a + 1) (a + 1) {} {} b2"
        "sb_changed b2 = sb_changed b1 + 1"
        using sb_first_node [of "b1\<lparr>sb_first := a + 1\<rparr>" "a + 1"] l a(1) by auto
      obtain d' b' where b': "sb_blocks junk a bs d b2 = Ok (d', b')" "sb_holds (a + 1) ({} \<union> block_set bs) ({} - block_set bs) b'"
        "sb_changed b2 \<le> sb_changed b'"
        using sb_window_blocks [OF b2(2) _ a(3), where junk = junk and d = d] ne by auto
      have h: "sb_holds (a + 1) (?S1 \<union> block_set bs) (?R1 - block_set bs) b'" using b'(2) unfolding True R .
      have "sb_changed b' \<noteq> 0" using b'(3) b2(3) c1(1) by simp
      moreover have "board_changed a bs B" using ne unfolding board_changed_def True by blast
      moreover have "(if sb_length b1 = 0 \<and> bs \<noteq> [] then sb_add_node (a + 1) (b1\<lparr>sb_first := a + 1\<rparr>) else Ok b1) = Ok b2"
        using F l b2(1) by simp
      ultimately show ?thesis by (intro final [OF b'(1) h]) simp_all
    qed
  next
    case False
    then have w: "sb_window (a + 1) (Max ?S1) ?S1 ?R1 b1" using b1(2) unfolding sb_holds_def by auto
    have f1: "finite ?S1" using fin(1) by simp
    have le: "\<forall>x \<in> ?S1 \<union> ?R1. x \<le> Max ?S1" using R1 fin(1) by (auto intro: Max_ge)
    obtain d' b' where b': "sb_blocks junk a bs d b1 = Ok (d', b')" "sb_holds (a + 1) (?S1 \<union> block_set bs) (?R1 - block_set bs) b'"
      "sb_changed b1 \<le> sb_changed b'" "sb_changed b' = sb_changed b1 \<longleftrightarrow> block_set bs \<subseteq> ?S1"
      using sb_window_blocks [OF w le a(3) _ f1 disjI2, where junk = junk and d = d] False by blast
    have "sb_length b1 \<noteq> 0" using w by (simp add: sb_window_def)
    then show ?thesis by (intro final [OF b'(1,2)]) (use b'(3,4) c1 in \<open>auto simp: board_changed_def\<close>)
  qed
qed

lemma sb_find_ok:
  assumes w: "sb_window f m S R b" and P: "\<And>i n. node_ok S R i n \<Longrightarrow> P n \<longleftrightarrow> i \<notin> S \<and> i \<notin> R"
  shows "f \<le> i \<Longrightarrow> sb_find P [i..m] b = Ok (case find (\<lambda>x. x \<notin> S \<and> x \<notin> R) [i..m] of None \<Rightarrow> -1 | Some x \<Rightarrow> x)"
proof (induction "nat (m + 1 - i)" arbitrary: i)
  case (Suc k)
  then have le: "i \<le> m" by simp
  then have u: "[i..m] = i # [i + 1..m]" by (rule upto_rec1)
  obtain n where n: "sb_at i b = Ok n" "node_ok S R i n" using window_at [OF w Suc.prems le] .
  have "k = nat (m + 1 - (i + 1))" "f \<le> i + 1" using Suc by simp_all
  from Suc.hyps(1) [OF this] show ?case unfolding u using n(1) P [OF n(2)] by simp
qed simp

lemma find_skip:
  assumes "i \<le> k" "k \<le> m + 1" "\<forall>y. i \<le> y \<and> y < k \<longrightarrow> \<not> P y" "\<forall>y. k \<le> y \<and> y \<le> m \<longrightarrow> P y = Q y"
  shows "find P [i..m] = find Q [k..(m::int)]"
proof (cases rule: find_upto_cases [of Q k m])
  case None
  then have "\<forall>y. i \<le> y \<and> y \<le> m \<longrightarrow> \<not> P y" using assms(3,4) by (metis linorder_not_le)
  then show ?thesis using None(1) find_upto_None by metis
next
  case (Some x)
  then have "\<forall>y. i \<le> y \<and> y < x \<longrightarrow> \<not> P y" using assms(3,4) by (smt (verit))
  moreover have "P x" "i \<le> x" using Some assms(1,4) by auto
  ultimately show ?thesis using Some(1,3) find_upto_Some [of i x m P] by simp
qed

lemma sb_nxt_ok:
  assumes r: "sb_repr B b"
  shows "\<exists>b'. sb_nxt b = Ok (board_next B, b') \<and> sb_repr (board_seek B) b'"
proof (cases "bd_sacked B = {}")
  case True
  then show ?thesis using r by (simp add: sb_nxt_def sb_GetNextRetran_def sb_repr_def sb_holds_def board_next_def board_seek_def sb_missing_def)
next
  case False
  let ?S = "bd_sacked B" and ?R = "sb_missing B"
  have w: "sb_window (bd_una B) (Max ?S) ?S ?R b" and ok: "board_ok B" using r False by (simp_all add: sb_repr_def sb_holds_def)
  then have f: "sb_first b = bd_una B" "sb_length b = Max ?S + 1 - bd_una B" "bd_una B \<le> Max ?S" by (simp_all add: sb_window_def)
  obtain n where n: "sb_at (bd_una B) b = Ok n" "sn_seq_no n = bd_una B" using window_at [OF w, of "bd_una B"] f(3) by (auto simp: node_ok_def)
  have "find (\<lambda>x. x \<notin> ?S \<and> x \<notin> ?R) [bd_una B..Max ?S] = find (\<lambda>x. x \<notin> ?S) [max (bd_una B) (bd_high B)..Max ?S]"
    using ok False f(3) by (intro find_skip) (auto simp: sb_missing_def board_ok_def)
  moreover have "sb_find (\<lambda>n. \<not> sn_ack_flag n \<and> \<not> sn_sack_flag n \<and> \<not> sn_retran n) [bd_una B..Max ?S] b =
      Ok (case find (\<lambda>x. x \<notin> ?S \<and> x \<notin> ?R) [bd_una B..Max ?S] of None \<Rightarrow> -1 | Some x \<Rightarrow> x)"
    by (rule sb_find_ok [OF w]) (auto simp: node_ok_def)
  ultimately have "sb_GetNextRetran b = Ok (board_next B)"
    using n f False by (simp add: sb_GetNextRetran_def board_next_def)
  moreover have "sb_missing (board_seek B) = sb_missing B"
    using board_next_cases [OF ok] mark_ok_covers [of "board_next B" B] by (auto simp: sb_missing_def board_seek_def)
  ultimately show ?thesis using r board_seek_ok [OF ok] by (simp add: sb_nxt_def sb_repr_def)
qed

lemma sb_mark_ok:
  assumes r: "sb_repr B b" and m: "mark_ok x B"
  shows "\<exists>b'. sb_MarkRetran x b = Ok b' \<and> sb_repr (board_mark x B) b'"
proof -
  let ?S = "bd_sacked B"
  have ne: "?S \<noteq> {}" and x: "bd_una B \<le> x" "x \<le> Max ?S" "x \<notin> ?S" using m by (simp_all add: mark_ok_def)
  then have w: "sb_window (bd_una B) (Max ?S) ?S (sb_missing B) b" using r by (simp add: sb_repr_def sb_holds_def)
  obtain n where n: "sb_at x b = Ok n" "node_ok ?S (sb_missing B) x n" using window_at [OF w x(1,2)] .
  have ok: "node_ok ?S (sb_missing (board_mark x B)) x (n\<lparr>sn_retran := True\<rparr>)"
    using n(2) x by (auto simp: node_ok_def sb_missing_def board_mark_def)
  have eq: "(j \<in> ?S \<longleftrightarrow> j \<in> ?S) \<and> (j \<in> sb_missing B \<longleftrightarrow> j \<in> sb_missing (board_mark x B))"
    if "bd_una B \<le> j" "j \<le> Max ?S" "j \<noteq> x" for j
  proof -
    have "j \<in> ?S \<or> j < max (bd_una B) (bd_high B) \<or> x \<le> j"
      using m unfolding mark_ok_def by (meson atLeastLessThan_iff not_le subsetD)
    then show ?thesis using that by (auto simp: sb_missing_def board_mark_def)
  qed
  obtain xs where "sb_put x (n\<lparr>sn_retran := True\<rparr>) b = Ok (b\<lparr>sb_SBN := xs\<rparr>)"
    "sb_window (bd_una B) (Max ?S) ?S (sb_missing (board_mark x B)) (b\<lparr>sb_SBN := xs\<rparr>)"
    using window_put [OF w x(1,2) ok eq] by blast
  then show ?thesis using n(1) r ne board_mark_ok [OF _ m]
    by (auto simp: sb_MarkRetran_def sb_repr_def sb_holds_def) (simp_all add: board_mark_def)
qed

lemma sb_clear_ok:
  assumes "sb_repr B b"
  shows "sb_repr (board_clear B) (sb_ClearScoreBoard b)"
proof -
  have "sb_room b" using assms by (auto simp: sb_repr_def sb_holds_def sb_window_def split: if_split_asm)
  then show ?thesis using assms board_clear_ok by (auto simp: sb_repr_def sb_holds_def board_clear_def sb_ClearScoreBoard_def)
qed

interpretation array_board: sack_board "sb_upd junk" sb_nxt sb_MarkRetran sb_ClearScoreBoard sb_repr for junk
  by unfold_locales (blast intro: sb_upd_ok sb_nxt_ok sb_mark_ok sb_clear_ok | simp add: sb_repr_def)+

definition board_new :: board where
  "board_new = \<lparr>bd_una = -1, bd_sacked = {}, bd_high = -1\<rparr>"

lemma sb_new_repr: "1 < sz \<Longrightarrow> sz \<le> int (length sbn) \<Longrightarrow> sb_repr board_new (sb_new sbn sz)"
  by (simp add: sb_repr_def board_ok_def sb_holds_def board_new_def sb_new_def sb_room_def)

end
