(* ===== verification/Scoreboard_Rq.thy ===== *)
theory Scoreboard_Rq
  imports Reassembly_Correct Scoreboard_Correct
begin

text \<open>
  The scoreboard over a reassembly queue: class \<open>ScoreBoardRQ\<close> of \<open>tcp/scoreboard-rq.h\<close> and
  \<open>tcp/scoreboard-rq.cc\<close>, which the SACK sender uses. The queue has a reference to \<open>sack_min\<close> as its
  \<open>rcv_nxt_\<close>, so \<open>sack_min\<close> is the field \<open>rq_rcv_nxt\<close> of the queue, which the methods of both
  classes change. Both scoreboards are shown to give the same answers.
\<close>

record scoreboard_rq =
  rb_h_seqno :: int
  rb_changed :: bool
  rb_rq :: rqueue

definition rb_new :: scoreboard_rq where
  "rb_new = \<lparr>rb_h_seqno = -1, rb_changed = False, rb_rq = rq_new (-1)\<rparr>"

definition rb_ClearScoreBoard :: "scoreboard_rq \<Rightarrow> scoreboard_rq" where
  "rb_ClearScoreBoard b = b\<lparr>rb_rq := rq_clear (rb_rq b), rb_h_seqno := -1\<rparr>"

definition rb_MarkRetran :: "int \<Rightarrow> scoreboard_rq \<Rightarrow> scoreboard_rq" where
  "rb_MarkRetran retran_seqno b =
     (if retran_seqno \<ge> rb_h_seqno b then b\<lparr>rb_h_seqno := retran_seqno + 1\<rparr> else b)"

definition rb_GetNextRetran :: "scoreboard_rq \<Rightarrow> int \<times> scoreboard_rq" where
  "rb_GetNextRetran b =
     (let b1 = (if rb_h_seqno b < rq_rcv_nxt (rb_rq b) then b\<lparr>rb_h_seqno := rq_rcv_nxt (rb_rq b)\<rparr> else b)
      in case rq_nexthole (rb_h_seqno b1) (rb_rq b1) of ((sq, fcnt, fbytes), r) \<Rightarrow>
           let b2 = b1\<lparr>rb_rq := r\<rparr>
           in if sq > 0
              then if fcnt \<le> 0 then (-1, b2)
                   else (sq, if sq > rb_h_seqno b2 then b2\<lparr>rb_h_seqno := sq\<rparr> else b2)
              else (-1, b2))"

definition rb_GetNextUnacked :: "int \<Rightarrow> scoreboard_rq \<Rightarrow> int \<times> scoreboard_rq" where
  "rb_GetNextUnacked seqno b =
     (case rq_nexthole seqno (rb_rq b) of ((sq, nxtcnt, nxtbytes), r) \<Rightarrow> (sq, b\<lparr>rb_rq := r\<rparr>))"

fun rb_add :: "(int \<times> int) list \<Rightarrow> rqueue \<Rightarrow> rqueue res" where
  "rb_add [] r = Ok r"
| "rb_add ((left, right) # bs) r = res_bind (rq_add left right 0 0 r) (\<lambda>(fl, r'). rb_add bs r')"

definition rb_UpdateScoreBoard :: "int \<Rightarrow> (int \<times> int) list \<Rightarrow> scoreboard_rq \<Rightarrow> scoreboard_rq res" where
  "rb_UpdateScoreBoard last_ack bs b =
     (let old_total = rq_total (rb_rq b);
          b1 = b\<lparr>rb_changed := False\<rparr>;
          b2 = (if rq_rcv_nxt (rb_rq b1) \<le> last_ack
                then let r = (rb_rq b1)\<lparr>rq_rcv_nxt := last_ack + 1\<rparr>
                     in if \<not> rq_empty r then b1\<lparr>rb_rq := snd (rq_cleartonxt r), rb_changed := True\<rparr> else b1\<lparr>rb_rq := r\<rparr>
                else b1)
      in res_bind (rb_add bs (rb_rq b2)) (\<lambda>r.
           Ok (b2\<lparr>rb_rq := r, rb_changed := rb_changed b2 \<or> old_total \<noteq> rq_total r\<rparr>)))"

section \<open>What the queue holds\<close>

definition rb_repr :: "board \<Rightarrow> scoreboard_rq \<Rightarrow> bool" where
  "rb_repr B b \<longleftrightarrow> board_ok B \<and> rq_ok (rb_rq b) \<and> rq_bytes (rq_fifo (rb_rq b)) = bd_sacked B \<and>
     rq_rcv_nxt (rb_rq b) = bd_una B \<and> max (bd_una B) (rb_h_seqno b) = max (bd_una B) (bd_high B)"

lemma rq_bytes_empty: "rq_ok r \<Longrightarrow> rq_empty r \<longleftrightarrow> rq_bytes (rq_fifo r) = {}"
  by (cases "rq_fifo r") (auto simp: rq_empty_def rq_ok_def segs_ok_Cons seg_bytes_def)

lemma rq_total_card: "rq_ok r \<Longrightarrow> rq_total r = int (card (rq_bytes (rq_fifo r)))"
  by (simp add: rq_ok_def segs_total_card)

text \<open>A block above the first missing number leaves it where it is.\<close>

lemma rq_add_above:
  assumes ok: "rq_ok r" and l: "rq_rcv_nxt r < l" "l < e" and S: "\<forall>x \<in> rq_bytes (rq_fifo r). rq_rcv_nxt r < x"
  shows "\<exists>fl r'. rq_add l e tf rf r = Ok (fl, r') \<and> rq_ok r' \<and> rq_rcv_nxt r' = rq_rcv_nxt r \<and>
    rq_bytes (rq_fifo r') = rq_bytes (rq_fifo r) \<union> {l..<e}"
proof -
  obtain fl r' b where r': "rq_add l e tf rf r = Ok (fl, r')" and g: "rq_grown l e r r' b"
    using rq_add_grows [OF ok l(2) S] l(1) by fastforce
  have "rq_rcv_nxt r < sg_start b"
  proof (rule ccontr)
    assume "\<not> rq_rcv_nxt r < sg_start b"
    then have "rq_rcv_nxt r \<in> seg_bytes b" using g l by (simp add: rq_grown_def seg_bytes_def)
    then have "rq_rcv_nxt r \<in> rq_bytes (rq_fifo r')" using g by (auto simp: rq_grown_def rq_bytes_def)
    then show False using g S l(1) by (auto simp: rq_grown_def)
  qed
  then show ?thesis using r' g by (simp add: rq_grown_def)
qed

lemma rb_add_ok:
  "rq_ok r \<Longrightarrow> \<forall>(l, e) \<in> set bs. rq_rcv_nxt r < l \<and> l < e \<Longrightarrow> \<forall>x \<in> rq_bytes (rq_fifo r). rq_rcv_nxt r < x \<Longrightarrow>
   \<exists>r'. rb_add bs r = Ok r' \<and> rq_ok r' \<and> rq_rcv_nxt r' = rq_rcv_nxt r \<and>
     rq_bytes (rq_fifo r') = rq_bytes (rq_fifo r) \<union> block_set bs"
proof (induction bs arbitrary: r)
  case (Cons x bs)
  obtain l e where x: "x = (l, e)" by (cases x)
  have le: "rq_rcv_nxt r < l" "l < e" "\<forall>(l, e) \<in> set bs. rq_rcv_nxt r < l \<and> l < e" using Cons.prems(2) by (simp_all add: x)
  obtain fl r1 where r1: "rq_add l e 0 0 r = Ok (fl, r1)" "rq_ok r1" "rq_rcv_nxt r1 = rq_rcv_nxt r"
    "rq_bytes (rq_fifo r1) = rq_bytes (rq_fifo r) \<union> {l..<e}"
    using rq_add_above [OF Cons.prems(1) le(1,2) Cons.prems(3)] by blast
  have above: "\<forall>x \<in> rq_bytes (rq_fifo r1). rq_rcv_nxt r1 < x" using r1(3,4) Cons.prems(3) le(1) by auto
  then show ?case using Cons.IH [OF r1(2) _ above] r1 le(3) by (auto simp: x Un_assoc)
qed simp

lemma rb_upd_ok:
  assumes r: "rb_repr B b" and u: "update_ok a bs B"
  shows "\<exists>b'. rb_UpdateScoreBoard a bs b = Ok b' \<and> rb_changed b' = board_changed a bs B \<and> rb_repr (board_update a bs B) b'"
proof -
  let ?S = "bd_sacked B" and ?S1 = "{x \<in> bd_sacked B. a < x}"
  have ok: "board_ok B" "rq_ok (rb_rq b)" "rq_bytes (rq_fifo (rb_rq b)) = ?S" "rq_rcv_nxt (rb_rq b) = bd_una B"
    "max (bd_una B) (rb_h_seqno b) = max (bd_una B) (bd_high B)"
    using r by (simp_all add: rb_repr_def)
  have a: "bd_una B \<le> a + 1" "a + 1 \<notin> ?S" "\<forall>(l, r) \<in> set bs. a + 1 < l \<and> l < r" using u by (simp_all add: update_ok_def)
  define r1 where "r1 = (if bd_una B \<le> a
     then (if ?S \<noteq> {} then snd (rq_cleartonxt ((rb_rq b)\<lparr>rq_rcv_nxt := a + 1\<rparr>)) else (rb_rq b)\<lparr>rq_rcv_nxt := a + 1\<rparr>)
     else rb_rq b)"
  define c1 where "c1 \<longleftrightarrow> bd_una B \<le> a \<and> ?S \<noteq> {}"
  have r1: "rq_ok r1" "rq_rcv_nxt r1 = a + 1" "rq_bytes (rq_fifo r1) = ?S1"
  proof -
    have k: "rq_ok ((rb_rq b)\<lparr>rq_rcv_nxt := a + 1\<rparr>)" using ok(2) by (simp add: rq_ok_def ids_ok_def)
    obtain fl r2 where r2: "rq_cleartonxt ((rb_rq b)\<lparr>rq_rcv_nxt := a + 1\<rparr>) = (fl, r2)" "rq_ok r2"
      "rq_bytes (rq_fifo r2) = {x \<in> ?S. a + 1 \<le> x}" "rq_rcv_nxt r2 = a + 1"
      using clearto_bytes [OF k, of "a + 1"] ok(3) by (auto simp: rq_cleartonxt_def)
    have "?S1 = ?S" if "\<not> bd_una B \<le> a" using that ok(1) by (force simp: board_ok_def)
    moreover have "{x \<in> ?S. a + 1 \<le> x} = ?S1" by auto
    ultimately show "rq_ok r1" "rq_rcv_nxt r1 = a + 1" "rq_bytes (rq_fifo r1) = ?S1"
      using k r2 ok(2-4) a(1) by (auto simp: r1_def)
  qed
  have "\<forall>x \<in> rq_bytes (rq_fifo r1). rq_rcv_nxt r1 < x" using r1(2,3) a(2) by (force simp: less_le)
  then obtain r2 where r2: "rb_add bs r1 = Ok r2" "rq_ok r2" "rq_rcv_nxt r2 = a + 1" "rq_bytes (rq_fifo r2) = ?S1 \<union> block_set bs"
    using rb_add_ok [OF r1(1)] r1(2,3) a(3) by force
  define b' where "b' = b\<lparr>rb_changed := c1 \<or> rq_total (rb_rq b) \<noteq> rq_total r2, rb_rq := r2\<rparr>"
  have "rb_UpdateScoreBoard a bs b = Ok b'"
  proof -
    have e: "rq_empty ((rb_rq b)\<lparr>rq_rcv_nxt := a + 1\<rparr>) \<longleftrightarrow> ?S = {}"
      using rq_bytes_empty [OF ok(2)] ok(3) by (simp add: rq_empty_def)
    show ?thesis
      using r2(1) unfolding r1_def b'_def c1_def
      by (cases "bd_una B \<le> a"; cases "?S = {}") (simp_all add: rb_UpdateScoreBoard_def Let_def e ok(4))
  qed
  moreover have "rb_changed b' = board_changed a bs B"
  proof (cases c1)
    case False
    then have S1: "?S1 = ?S" using ok(1) a(1) by (force simp: c1_def board_ok_def)
    have "rq_total (rb_rq b) = rq_total r2 \<longleftrightarrow> card ?S = card (?S \<union> block_set bs)"
      using rq_total_card [OF ok(2)] rq_total_card [OF r2(2)] ok(3) r2(4) S1 by simp
    also have "\<dots> \<longleftrightarrow> block_set bs \<subseteq> ?S"
      using card_subset_eq [of "?S \<union> block_set bs" ?S] ok(1) by (auto simp: board_ok_def sup_absorb1)
    finally show ?thesis using False S1 by (auto simp: b'_def board_changed_def c1_def)
  qed (simp add: b'_def board_changed_def c1_def)
  moreover have "rb_repr (board_update a bs B) b'"
    using board_update_ok [OF ok(1) u] r2(2-4) ok(5) a(1) by (auto simp: rb_repr_def b'_def board_update_def max_def split: if_splits)
  ultimately show ?thesis by blast
qed

lemma segs_last: "segs_ok xs \<Longrightarrow> x \<in> rq_bytes xs \<Longrightarrow> x < sg_end (last xs)"
proof (induction xs)
  case (Cons s xs)
  show ?case
  proof (cases "xs = []")
    case True
    then show ?thesis using Cons.prems by (simp add: seg_bytes_def)
  next
    case False
    then have "last xs \<in> set xs" by simp
    then have "sg_end s < sg_end (last xs)" using Cons.prems(1) segs_ok_pos [of xs "last xs"] by (fastforce simp: segs_ok_Cons)
    then show ?thesis using Cons False by (auto simp: segs_ok_Cons seg_bytes_def)
  qed
qed simp

lemma hole_above:
  assumes "x \<in> rq_bytes xs" "h < x" "h \<notin> rq_bytes xs"
  shows "0 < length (filter (\<lambda>s. h < sg_start s) xs)"
proof -
  obtain s where s: "s \<in> set xs" "sg_start s \<le> x" "x < sg_end s" using assms(1) by (auto simp: rq_bytes_def seg_bytes_def)
  then have "h \<notin> seg_bytes s" using assms(3) by (auto simp: rq_bytes_def)
  then have "h < sg_start s" using s assms(2) by (auto simp: seg_bytes_def)
  then show ?thesis using s(1) by (auto simp: filter_empty_conv)
qed

lemma rb_nxt_ok:
  assumes r: "rb_repr B b"
  shows "\<exists>b'. rb_GetNextRetran b = (board_next B, b') \<and> rb_repr (board_seek B) b'"
proof -
  let ?S = "bd_sacked B" and ?xs = "rq_fifo (rb_rq b)"
  define k where "k = max (bd_una B) (bd_high B)"
  have ok: "board_ok B" "rq_ok (rb_rq b)" "rq_bytes ?xs = ?S" "rq_rcv_nxt (rb_rq b) = bd_una B" "max (bd_una B) (rb_h_seqno b) = k"
    using r by (simp_all add: rb_repr_def k_def)
  have segs: "segs_ok ?xs" using ok(2) by (simp add: rq_ok_def)
  define r' where "r' = snd (rq_nexthole k (rb_rq b))"
  have r': "rq_ok r'" "rq_fifo r' = ?xs" "rq_rcv_nxt r' = bd_una B"
    using ok(2,4) by (simp_all add: r'_def rq_nexthole_def rq_ok_def ids_ok_def)
  define b1 where "b1 = b\<lparr>rb_h_seqno := k, rb_rq := r'\<rparr>"
  obtain h blks bytes where H: "rq_hole_loop k ?xs = (h, blks, bytes)" by (metis prod_cases3)
  have "(if rb_h_seqno b < rq_rcv_nxt (rb_rq b) then b\<lparr>rb_h_seqno := rq_rcv_nxt (rb_rq b)\<rparr> else b) = b\<lparr>rb_h_seqno := k\<rparr>"
    using ok(4,5) by (auto simp: max_def split: if_splits)
  moreover have "rq_nexthole k (rb_rq b) = ((h, blks, bytes), r')" by (simp add: r'_def rq_nexthole_def H)
  ultimately have G: "rb_GetNextRetran b = (if h > 0 \<and> blks > 0 then (h, if h > k then b1\<lparr>rb_h_seqno := h\<rparr> else b1) else (-1, b1))"
    by (auto simp: rb_GetNextRetran_def b1_def Let_def not_less)
  have repr: "rb_repr B b1" using ok r' by (simp add: rb_repr_def b1_def k_def)
  note L = hole_loop [OF segs, of k, unfolded H, simplified]
  have none: ?thesis if "\<forall>x \<in> ?S. x < k \<or> {k..x} \<subseteq> ?S" "\<not> (h > 0 \<and> blks > 0)"
  proof -
    have "board_next B = -1"
    proof (cases "?S = {}")
      case False
      then have "Max ?S \<in> ?S" using ok(1) by (simp add: board_ok_def)
      with that(1) have "Max ?S < k \<or> {k..Max ?S} \<subseteq> ?S" by blast
      then have "find (\<lambda>x. x \<notin> ?S) [k..Max ?S] = None" by (auto simp: find_None_iff)
      then show ?thesis by (simp add: board_next_def k_def)
    qed (simp add: board_next_def)
    then show ?thesis using G that(2) repr by (auto simp: board_seek_def)
  qed
  show ?thesis
  proof (cases "?xs = [] \<or> sg_end (last ?xs) < k")
    case True
    then have "h = -1" using L by (auto split: if_split_asm)
    moreover have "\<forall>x \<in> ?S. x < k" using True segs_last [OF segs] ok(3) by force
    ultimately show ?thesis using none by simp
  next
    case False
    then have h: "k \<le> h" "{k..<h} \<subseteq> ?S" "h \<notin> ?S"
      "if \<exists>x \<in> ?S. h < x then blks = int (length (filter (\<lambda>s. h < sg_start s) ?xs)) else blks = -1"
      using L ok(3) by (auto split: if_split_asm)
    show ?thesis
    proof (cases "\<exists>x \<in> ?S. h < x")
      case True
      then obtain x where x: "x \<in> ?S" "h < x" by blast
      have pos: "1 \<le> bd_una B" "finite ?S" "?S \<noteq> {}" using ok(1) x(1) by (auto simp: board_ok_def)
      then have p: "h > 0" "blks > 0" using h k_def True hole_above [of x ?xs h] x ok(3) by auto
      have "h \<le> Max ?S" using x Max_ge [OF pos(2) x(1)] by simp
      moreover have "\<forall>y. k \<le> y \<and> y < h \<longrightarrow> \<not> y \<notin> ?S" using h(2) by auto
      ultimately have "find (\<lambda>x. x \<notin> ?S) [k..Max ?S] = Some h" using h(1,3) by (intro find_upto_Some) simp_all
      then have n: "board_next B = h" using pos by (simp add: board_next_def k_def)
      then have "rb_repr (board_seek B) (if h > k then b1\<lparr>rb_h_seqno := h\<rparr> else b1)"
        using board_seek_ok [OF ok(1)] r' h(1) p(1) ok(3) by (auto simp: rb_repr_def board_seek_def b1_def k_def)
      then show ?thesis using G p n by simp
    next
      case F: False
      have "{k..x} \<subseteq> ?S" if x: "x \<in> ?S" for x
      proof -
        have "x < h" using x F h(3) by (metis linorder_neqE_linordered_idom)
        then have "{k..x} \<subseteq> {k..<h}" by auto
        then show ?thesis using h(2) by blast
      qed
      then show ?thesis using none h(4) F by auto
    qed
  qed
qed

lemma rb_mark_ok:
  assumes "rb_repr B b" "mark_ok x B"
  shows "rb_repr (board_mark x B) (rb_MarkRetran x b)"
  using assms board_mark_ok [of B x] by (auto simp: rb_repr_def rb_MarkRetran_def board_mark_def mark_ok_def max_def split: if_splits)

lemma rb_clear_ok: "rb_repr B b \<Longrightarrow> rb_repr (board_clear B) (rb_ClearScoreBoard b)"
  using board_clear_ok [of B]
  by (auto simp: rb_repr_def rb_ClearScoreBoard_def board_clear_def rq_clear_def rq_ok_def ids_ok_def board_ok_def)

definition rb_upd :: "int \<Rightarrow> (int \<times> int) list \<Rightarrow> scoreboard_rq \<Rightarrow> (bool \<times> scoreboard_rq) res" where
  "rb_upd a bs b = res_bind (rb_UpdateScoreBoard a bs b) (\<lambda>b'. Ok (rb_changed b', b'))"

interpretation rq_board: sack_board rb_upd "\<lambda>b. Ok (rb_GetNextRetran b)" "\<lambda>x b. Ok (rb_MarkRetran x b)" rb_ClearScoreBoard rb_repr
proof unfold_locales
  show "rb_repr B s \<Longrightarrow> board_ok B" for B s by (simp add: rb_repr_def)
  show "\<exists>s'. rb_upd a bs s = Ok (board_changed a bs B, s') \<and> rb_repr (board_update a bs B) s'"
    if "rb_repr B s" "update_ok a bs B" for a bs B s
    using rb_upd_ok [OF that] by (auto simp: rb_upd_def)
qed (use rb_nxt_ok rb_mark_ok rb_clear_ok in auto)

lemma rb_new_repr: "rb_repr board_new rb_new"
  by (simp add: rb_repr_def board_new_def rb_new_def board_ok_def rq_new_ok) (simp add: rq_new_def)

section \<open>Both scoreboards agree\<close>

text \<open>
  Outside the sequences of \<open>ops_ok\<close> the two scoreboards give different answers. \<open>rq_answers\<close> and
  \<open>array_answers\<close> are those of new scoreboards, the array with 8 entries.
\<close>

definition rq_answers :: "board_op list \<Rightarrow> board_answer list res" where
  "rq_answers xs = sack_run rb_upd (\<lambda>b. Ok (rb_GetNextRetran b)) (\<lambda>x b. Ok (rb_MarkRetran x b)) rb_ClearScoreBoard xs (-1) rb_new"

definition array_answers :: "board_op list \<Rightarrow> board_answer list res" where
  "array_answers xs =
     sack_run (sb_upd (\<lambda>sz i. sb_blank 99)) sb_nxt sb_MarkRetran sb_ClearScoreBoard xs (-1) (sb_new (replicate 8 (sb_blank 3)) 8)"

text \<open>A block while segment 0 is missing: the queue never reports 0.\<close>

lemma scoreboards_differ_first:
  "rq_answers [Update (-1) [(1, 2)], Retransmit] = Ok [Changed True, Sent (-1)]"
  "array_answers [Update (-1) [(1, 2)], Retransmit] = Ok [Changed True, Sent 0]"
  by code_simp+

text \<open>A block below what is acknowledged: the queue moves its left edge back and reports an acknowledged segment.\<close>

lemma scoreboards_differ_stale:
  "rq_answers [Update 4 [(7, 8)], Update 5 [(2, 4)], Retransmit] = Ok [Changed True, Changed True, Sent 4]"
  "array_answers [Update 4 [(7, 8)], Update 5 [(2, 4)], Retransmit] = Ok [Changed True, Changed True, Sent 6]"
  by code_simp+

text \<open>Acknowledgements that begin again after a reset: the queue keeps the old left edge and finds no hole.\<close>

lemma scoreboards_differ_reset:
  "rq_answers [Update 9 [(12, 13)], Clear, Update 0 [(2, 3)], Retransmit] =
     Ok [Changed True, Cleared, Changed True, Sent (-1)]"
  "array_answers [Update 9 [(12, 13)], Clear, Update 0 [(2, 3)], Retransmit] =
     Ok [Changed True, Cleared, Changed True, Sent 1]"
  by code_simp+


definition demo_acks :: "board_op list" where
  "demo_acks = [Update 4 [(7, 8)], Retransmit_first, Retransmit, Update 7 []]"


end
