(* ===== verification/Sack_Sender.thy ===== *)
theory Sack_Sender
  imports Tcp_Agent Scoreboard_Rq
begin

text \<open>
  The SACK sender: class \<open>Sack1TcpAgent\<close> of \<open>tcp/tcp-sack1.cc\<close>, derived from \<open>TcpAgent\<close>, with the
  scoreboard of \<open>Scoreboard_Rq\<close>. The state is that of \<open>TcpAgent\<close> with the fields of the class; the
  class of the configuration is \<open>TahoeTcp\<close>, so the functions of \<open>TcpAgent\<close> that are not overridden are
  those of \<open>Tcp_Agent\<close>; those that call an overridden \<open>send_much\<close> or \<open>dupack_action\<close> are given again.
  An acknowledgement comes with its SACK blocks. The byte \<open>timeout_\<close>, which the constructor does not set, is part of the
  state.
\<close>

record sack_conf =
  sc_tcp :: tcp_conf
  sc_partial_ack :: bool
  sc_oldCode :: bool
  sc_LimTransmitFix :: bool

record sack =
  sa_tcp :: tcp
  sa_scb :: scoreboard_rq
  sa_timeout :: bool
  sa_fastrecov :: bool
  sa_pipe :: int
  sa_next_pkt :: int
  sa_firstpartial :: bool

definition on_tcp :: "(tcp \<Rightarrow> tcp) \<Rightarrow> sack \<Rightarrow> sack" where
  "on_tcp f s = s\<lparr>sa_tcp := f (sa_tcp s)\<rparr>"

definition run_tcp :: "(tcp \<Rightarrow> tcp res) \<Rightarrow> sack \<Rightarrow> sack res" where
  "run_tcp f s = res_bind (f (sa_tcp s)) (\<lambda>t. Ok (s\<lparr>sa_tcp := t\<rparr>))"

definition sack_reset :: "sack_conf \<Rightarrow> real \<Rightarrow> sack \<Rightarrow> sack res" where
  "sack_reset c now s = run_tcp (tcp_reset (sc_tcp c) now) (s\<lparr>sa_scb := rb_ClearScoreBoard (sa_scb s)\<rparr>)"

section \<open>Sending\<close>

text \<open>Which segment is sent next: one to send again, or a new one if the window and the data allow it.\<close>

definition sack_choose :: "sack_conf \<Rightarrow> int \<Rightarrow> sack \<Rightarrow> int option \<times> int \<times> sack" where
  "sack_choose c win s =
     (let (xmit, scb) = rb_GetNextRetran (sa_scb s);
          s1 = s\<lparr>sa_scb := scb\<rparr>;
          t = sa_tcp s1;
          wnd = trunc (cf_wnd (sc_tcp c))
      in if xmit = -1
         then if (\<not> sa_fastrecov s1 \<and> tc_t_seqno t \<le> tc_highest_ack t + win \<or>
                  sa_fastrecov s1 \<and> tc_t_seqno t \<le> tc_highest_ack t + wnd) \<and> tc_t_seqno t < tc_curseq t
              then (Some (tc_t_seqno t), win, s1\<lparr>sa_tcp := t\<lparr>tc_t_seqno := tc_t_seqno t + 1\<rparr>\<rparr>)
              else (None, win, s1)
         else if tc_recover t > 0 \<and> xmit \<le> tc_highest_ack t + wnd
         then (Some xmit, window (sc_tcp c) t, s1\<lparr>sa_scb := rb_MarkRetran xmit scb\<rparr>)
         else (None, win, s1))"

definition sack_transmit :: "sack_conf \<Rightarrow> real \<Rightarrow> tcp_reason \<Rightarrow> int \<Rightarrow> sack \<Rightarrow> sack res" where
  "sack_transmit c now reason xmit s =
     res_bind (tcp_output (sc_tcp c) now xmit reason (sa_tcp s)) (\<lambda>t.
       let t1 = (if tc_t_seqno t \<le> xmit then t\<lparr>tc_t_seqno := xmit + 1\<rparr> else t)
       in res_bind (qoption_sent (sc_tcp c) now t1) (\<lambda>t2. Ok (s\<lparr>sa_tcp := t2, sa_pipe := sa_pipe s + 1\<rparr>)))"

text \<open>The delay until the next segment of a Quick-Start window.\<close>

definition sack_resched :: "sack_conf \<Rightarrow> real \<Rightarrow> tcp \<Rightarrow> tcp" where
  "sack_resched c now t =
     t\<lparr>tc_delsnd := st_resched now (of_int (tc_t_rtt t) * cf_tcp_tick (sc_tcp c) / tc_cwnd t)\<rparr>"

definition sack_may_send :: "int \<Rightarrow> sack \<Rightarrow> bool" where
  "sack_may_send win s \<longleftrightarrow>
     (\<not> sa_fastrecov s \<and> tc_t_seqno (sa_tcp s) \<le> tc_last_ack (sa_tcp s) + win \<or>
      sa_fastrecov s \<and> sa_pipe s < trunc (tc_cwnd (sa_tcp s))) \<and>
     tc_last_ack (sa_tcp s) + 1 < tc_curseq (sa_tcp s)"

text \<open>The body of the loop, with whether the loop goes on, and the window that its condition tests then.\<close>

definition sack_send_step ::
  "sack_conf \<Rightarrow> real \<Rightarrow> bool \<Rightarrow> tcp_reason \<Rightarrow> int \<Rightarrow> int \<Rightarrow> int \<Rightarrow> sack \<Rightarrow> (bool \<times> int \<times> sack) res" where
  "sack_send_step c now force reason maxburst npacket win s =
     (if cf_overhead (sc_tcp c) = 0 \<or> force
      then case sack_choose c win s of
             (None, win1, s1) \<Rightarrow> Ok (False, win1, s1)
           | (Some xmit, win1, s1) \<Rightarrow>
               res_bind (sack_transmit c now reason xmit s1) (\<lambda>s2.
                 if tc_qs_approved (sa_tcp s2) then Ok (False, win1, on_tcp (sack_resched c now) s2)
                 else Ok (\<not> (maxburst \<noteq> 0 \<and> npacket + 1 = maxburst), win1, s2))
      else if st_status (tc_delsnd (sa_tcp s)) \<noteq> TIMER_PENDING
      then Ok (False, win, on_tcp (send_later (sc_tcp c) now) s)
      else if maxburst \<noteq> 0 \<and> npacket = maxburst then Ok (False, win, s)
      else Fail No_Return)"

text \<open>Each turn sends a segment of higher number, new or again.\<close>

definition rq_top :: "rqueue \<Rightarrow> int" where
  "rq_top r = foldr (\<lambda>x m. max (max (sg_start x) (sg_end x)) m) (rq_fifo r) 0"

lemma le_rq_top: "x \<in> set xs \<Longrightarrow> sg_start x \<le> foldr (\<lambda>x m. max (max (sg_start x) (sg_end x)) m) xs 0 \<and>
  sg_end x \<le> foldr (\<lambda>x m. max (max (sg_start x) (sg_end x)) m) xs 0"
  by (induction xs) auto

lemma hole_loop_top:
  "rq_hole_loop h xs = (x, blks, bytes) \<Longrightarrow> 0 < blks \<Longrightarrow> 0 < x \<Longrightarrow>
     h \<le> x \<and> x \<le> foldr (\<lambda>x m. max (max (sg_start x) (sg_end x)) m) xs 0"
  by (induction h xs arbitrary: x blks bytes rule: rq_hole_loop.induct)
    (simp, auto simp: le_max_iff_disj split: if_split_asm)

lemma rb_GetNextRetran_top:
  assumes "rb_GetNextRetran b = (x, b')"
  shows "rq_fifo (rb_rq b') = rq_fifo (rb_rq b)" "rb_h_seqno b \<le> rb_h_seqno b'"
    "x \<noteq> -1 \<Longrightarrow> 0 < x \<and> rb_h_seqno b' = x \<and> x \<le> rq_top (rb_rq b)"
proof -
  obtain h blks bytes where H: "rq_hole_loop (max (rb_h_seqno b) (rq_rcv_nxt (rb_rq b))) (rq_fifo (rb_rq b)) = (h, blks, bytes)"
    by (metis prod_cases3)
  define b1 where "b1 = b\<lparr>rb_h_seqno := max (rb_h_seqno b) (rq_rcv_nxt (rb_rq b))\<rparr>"
  have e: "(if rb_h_seqno b < rq_rcv_nxt (rb_rq b) then b\<lparr>rb_h_seqno := rq_rcv_nxt (rb_rq b)\<rparr> else b) = b1"
    by (simp add: b1_def)
  show "rq_fifo (rb_rq b') = rq_fifo (rb_rq b)" "rb_h_seqno b \<le> rb_h_seqno b'"
    "x \<noteq> -1 \<Longrightarrow> 0 < x \<and> rb_h_seqno b' = x \<and> x \<le> rq_top (rb_rq b)"
    using assms H hole_loop_top [OF H]
    unfolding rb_GetNextRetran_def e Let_def
    by (auto simp: b1_def rq_nexthole_def rq_top_def split: if_split_asm)
qed


lemma sack_choose_turn:
  assumes "sack_choose c win s = (Some x, win', s')"
  shows "tc_curseq (sa_tcp s') = tc_curseq (sa_tcp s)" "rq_fifo (rb_rq (sa_scb s')) = rq_fifo (rb_rq (sa_scb s))"
    "rb_h_seqno (sa_scb s) \<le> rb_h_seqno (sa_scb s')"
    "(x = tc_t_seqno (sa_tcp s) \<and> x < tc_curseq (sa_tcp s) \<and> tc_t_seqno (sa_tcp s') = x + 1) \<or>
     (0 < x \<and> tc_t_seqno (sa_tcp s') = tc_t_seqno (sa_tcp s) \<and> rb_h_seqno (sa_scb s) \<le> x \<and>
      x \<le> rq_top (rb_rq (sa_scb s)) \<and> rb_h_seqno (sa_scb s') = x + 1)"
proof -
  obtain xm scb where g: "rb_GetNextRetran (sa_scb s) = (xm, scb)" by (cases "rb_GetNextRetran (sa_scb s)")
  note t = rb_GetNextRetran_top [OF g]
  show "tc_curseq (sa_tcp s') = tc_curseq (sa_tcp s)" "rq_fifo (rb_rq (sa_scb s')) = rq_fifo (rb_rq (sa_scb s))"
    "rb_h_seqno (sa_scb s) \<le> rb_h_seqno (sa_scb s')"
    "(x = tc_t_seqno (sa_tcp s) \<and> x < tc_curseq (sa_tcp s) \<and> tc_t_seqno (sa_tcp s') = x + 1) \<or>
     (0 < x \<and> tc_t_seqno (sa_tcp s') = tc_t_seqno (sa_tcp s) \<and> rb_h_seqno (sa_scb s) \<le> x \<and>
      x \<le> rq_top (rb_rq (sa_scb s)) \<and> rb_h_seqno (sa_scb s') = x + 1)"
    using assms t by (auto simp: sack_choose_def g Let_def rb_MarkRetran_def split: if_split_asm)
qed

lemma sack_transmit_turn:
  assumes "sack_transmit c now reason x s = Inr s'"
  shows "sa_scb s' = sa_scb s" "tc_t_seqno (sa_tcp s) \<le> tc_t_seqno (sa_tcp s')" "x < tc_t_seqno (sa_tcp s')"
    "tc_curseq (sa_tcp s') \<le> max 0 (tc_curseq (sa_tcp s) + (if x = 0 then 1 else 0))"
    "x \<noteq> 0 \<Longrightarrow> tc_curseq (sa_tcp s') = tc_curseq (sa_tcp s)"
proof -
  obtain t where t: "tcp_output (sc_tcp c) now x reason (sa_tcp s) = Inr t"
    using assms by (auto simp: sack_transmit_def)
  define t1 where "t1 = (if tc_t_seqno t \<le> x then t\<lparr>tc_t_seqno := x + 1\<rparr> else t)"
  obtain t2 where t2: "qoption_sent (sc_tcp c) now t1 = Inr t2" "s' = s\<lparr>sa_tcp := t2, sa_pipe := sa_pipe s + 1\<rparr>"
    using assms t by (auto simp: sack_transmit_def Let_def t1_def)
  note o = tcp_output_curseq [OF t] only_window_curseq [OF only_window_qoption_sent [OF t2(1)]]
  show "sa_scb s' = sa_scb s" "tc_t_seqno (sa_tcp s) \<le> tc_t_seqno (sa_tcp s')" "x < tc_t_seqno (sa_tcp s')"
    "tc_curseq (sa_tcp s') \<le> max 0 (tc_curseq (sa_tcp s) + (if x = 0 then 1 else 0))"
    "x \<noteq> 0 \<Longrightarrow> tc_curseq (sa_tcp s') = tc_curseq (sa_tcp s)"
    using o by (auto simp: t2(2) t1_def)
qed

definition sack_left :: "sack \<Rightarrow> nat" where
  "sack_left s =
     nat (tc_curseq (sa_tcp s) - tc_t_seqno (sa_tcp s) + (if tc_t_seqno (sa_tcp s) \<le> 0 then 1 else 0)) +
     nat (rq_top (rb_rq (sa_scb s)) + 1 - rb_h_seqno (sa_scb s))"

lemma sack_send_step_left:
  assumes "sack_send_step c now force reason mb np win s = Inr (True, win', s')"
  shows "sack_left s' < sack_left s"
proof -
  obtain x s1 where c: "sack_choose c win s = (Some x, win', s1)" and o: "sack_transmit c now reason x s1 = Inr s'"
    using assms unfolding sack_send_step_def
    by (auto split: if_split_asm prod.splits option.splits)
  note k = sack_choose_turn [OF c] and l = sack_transmit_turn [OF o]
  have top: "rq_top (rb_rq (sa_scb s')) = rq_top (rb_rq (sa_scb s))" using k(2) l(1) by (simp add: rq_top_def)
  have h: "rb_h_seqno (sa_scb s') = rb_h_seqno (sa_scb s1)" using l(1) by simp
  show ?thesis
    using k l unfolding sack_left_def top h
    by (elim disjE) (auto simp: max_def split: if_split_asm)
qed

function sack_send_loop ::
  "sack_conf \<Rightarrow> real \<Rightarrow> bool \<Rightarrow> tcp_reason \<Rightarrow> int \<Rightarrow> int \<Rightarrow> int \<Rightarrow> sack \<Rightarrow> sack res" where
  "sack_send_loop c now force reason maxburst npacket win s =
     (if sack_may_send win s
      then res_bind (sack_send_step c now force reason maxburst npacket win s) (\<lambda>r.
             if fst r then sack_send_loop c now force reason maxburst (npacket + 1) (fst (snd r)) (snd (snd r))
             else Ok (snd (snd r)))
      else Ok s)"
  by pat_completeness auto
termination
proof (relation "measure (\<lambda>(c, now, force, reason, mb, np, win, s). sack_left s)", goal_cases)
  case (2 c now force reason mb np win s r)
  then have "sack_send_step c now force reason mb np win s = Inr (True, fst (snd r), snd (snd r))"
    by (cases r) simp
  then have "sack_left (snd (snd r)) < sack_left s" by (rule sack_send_step_left)
  then show ?case by (simp add: case_prod_beta)
qed simp

declare sack_send_loop.simps [simp del]

definition sack_send_much :: "sack_conf \<Rightarrow> real \<Rightarrow> bool \<Rightarrow> tcp_reason \<Rightarrow> int \<Rightarrow> sack \<Rightarrow> sack res" where
  "sack_send_much c now force reason maxburst s =
     (if \<not> force \<and> st_status (tc_delsnd (sa_tcp s)) = TIMER_PENDING then Ok s
      else sack_send_loop c now force reason maxburst 0 (window (sc_tcp c) (sa_tcp s)) s)"


definition sack_sendmsg :: "sack_conf \<Rightarrow> real \<Rightarrow> int \<Rightarrow> sack \<Rightarrow> sack res" where
  "sack_sendmsg c now nbytes s =
     (let k = sc_tcp c; t = sa_tcp s
      in res_bind (if nbytes = -1 \<and> tc_curseq t \<le> TCP_MAXSEQ then Ok TCP_MAXSEQ
                   else if cf_size k = 0 then Fail Div_By_Zero
                   else Ok (tc_curseq t + (c_div nbytes (cf_size k) + (if c_mod nbytes (cf_size k) \<noteq> 0 then 1 else 0))))
           (\<lambda>n. sack_send_much c now False REASON_NONE (cf_maxburst k) (s\<lparr>sa_tcp := t\<lparr>tc_curseq := n\<rparr>\<rparr>)))"

definition sack_advanceby :: "sack_conf \<Rightarrow> real \<Rightarrow> int \<Rightarrow> sack \<Rightarrow> sack res" where
  "sack_advanceby c now delta s =
     sack_send_much c now False REASON_NONE (cf_maxburst (sc_tcp c))
       (on_tcp (\<lambda>t. t\<lparr>tc_curseq := tc_curseq t + delta, tc_closed := tc_closed t \<and> \<not> delta > 0\<rparr>) s)"

definition sack_advance :: "sack_conf \<Rightarrow> real \<Rightarrow> int \<Rightarrow> sack \<Rightarrow> sack res" where
  "sack_advance c now newseq s =
     (if newseq > tc_maxseq (sa_tcp s) then sack_advanceby c now (newseq - tc_curseq (sa_tcp s)) s
      else sack_advanceby c now (tc_maxseq (sa_tcp s) - tc_curseq (sa_tcp s)) s)"

section \<open>Duplicate acknowledgements\<close>

text \<open>The estimate of the segments in the network when fast recovery begins.\<close>

definition sack_outstanding :: "sack_conf \<Rightarrow> tcp \<Rightarrow> int res" where
  "sack_outstanding c t =
     (if cf_singledup (sc_tcp c) \<and> sc_LimTransmitFix c then Ok (tc_maxseq t - tc_highest_ack t - 1)
      else res_bind (numdupacks (sc_tcp c) (tc_cwnd t)) (\<lambda>n. Ok (tc_maxseq t - tc_highest_ack t - n)))"

definition sack_recover :: "int \<Rightarrow> sack \<Rightarrow> sack" where
  "sack_recover pipe s =
     s\<lparr>sa_pipe := pipe, sa_fastrecov := True, sa_scb := rb_MarkRetran (tc_highest_ack (sa_tcp s) + 1) (sa_scb s)\<rparr>"

definition sack_action :: "sack_conf \<Rightarrow> real \<Rightarrow> sack \<Rightarrow> sack res" where
  "sack_action c now s =
     (let s1 = on_tcp (\<lambda>t. t\<lparr>tc_recover := tc_maxseq t\<rparr>) s; t = sa_tcp s1
      in res_bind (if sc_oldCode c then res_bind (numdupacks (sc_tcp c) (tc_cwnd t)) (\<lambda>n. Ok (trunc (tc_cwnd t) - n))
                   else sack_outstanding c t) (\<lambda>pipe.
         res_bind (run_tcp (reset_rtx_timer (sc_tcp c) now True False) s1) (\<lambda>s2.
           let s3 = sack_recover pipe s2
           in res_bind (lossQuickStart (sc_tcp c) now (sa_tcp s3)) (\<lambda>(lost, t3).
                if lost then Ok (s3\<lparr>sa_tcp := t3\<rparr>)
                else let t4 = slowdown (sc_tcp c) {CLOSE_SSTHRESH_HALF, CLOSE_CWND_HALF}
                                (t3\<lparr>tc_last_cwnd_action := CWND_ACTION_DUPACK\<rparr>)
                     in run_tcp (tcp_output (sc_tcp c) now (tc_last_ack t4 + 1) TCP_REASON_DUPACK) (s3\<lparr>sa_tcp := t4\<rparr>)))))"

definition sack_after_ecn :: "sack_conf \<Rightarrow> real \<Rightarrow> sack \<Rightarrow> sack res" where
  "sack_after_ecn c now s =
     res_bind (run_tcp (reset_rtx_timer (sc_tcp c) now True False)
                 (on_tcp (\<lambda>t. t\<lparr>tc_last_cwnd_action := CWND_ACTION_DUPACK\<rparr>) s)) (\<lambda>s1.
       res_bind (sack_outstanding c (sa_tcp s1)) (\<lambda>pipe.
         let s2 = sack_recover pipe s1
         in run_tcp (tcp_output (sc_tcp c) now (tc_last_ack (sa_tcp s2) + 1) TCP_REASON_DUPACK) s2))"

definition sack_dupack_action :: "sack_conf \<Rightarrow> real \<Rightarrow> sack \<Rightarrow> sack res" where
  "sack_dupack_action c now s =
     (let k = sc_tcp c; t = sa_tcp s
      in if tc_highest_ack t > tc_recover t \<or> (\<not> cf_bug_fix k \<and> \<not> cf_ecn k) \<or> (cf_bugfix_ss k \<and> tc_highest_ack t = 0)
         then sack_action c now s
         else if cf_ecn k \<and> tc_last_cwnd_action t = CWND_ACTION_ECN then sack_after_ecn c now s
         else if cf_bug_fix k then Ok s else sack_action c now s)"

section \<open>Partial acknowledgements\<close>

definition sack_partial_step :: "sack_conf \<Rightarrow> real \<Rightarrow> sack \<Rightarrow> sack res" where
  "sack_partial_step c now s =
     (let (getNext, scb) = rb_GetNextUnacked (sa_next_pkt s) (sa_scb s);
          n = (if getNext > sa_next_pkt s then getNext else sa_next_pkt s);
          t = (if tc_t_seqno (sa_tcp s) < n then (sa_tcp s)\<lparr>tc_t_seqno := n\<rparr> else sa_tcp s)
      in res_bind (tcp_output (sc_tcp c) now n TCP_REASON_PARTIALACK t) (\<lambda>t1.
           Ok (s\<lparr>sa_tcp := t1, sa_scb := rb_MarkRetran n scb, sa_next_pkt := n + 1\<rparr>)))"

definition sack_partial_ack_action :: "sack_conf \<Rightarrow> real \<Rightarrow> sack \<Rightarrow> sack res" where
  "sack_partial_ack_action c now s =
     (let n = tc_highest_ack (sa_tcp s) + 1;
          s1 = (if sa_next_pkt s < n then s\<lparr>sa_next_pkt := n\<rparr> else s)
      in res_bind (sack_partial_step c now s1) (sack_partial_step c now))"

section \<open>The arrival of an acknowledgement\<close>

definition is_sacked :: "(int \<times> int) list \<Rightarrow> int \<Rightarrow> int \<Rightarrow> bool" where
  "is_sacked bs seqlo seqhi \<longleftrightarrow>
     (\<exists>(sleft, sright) \<in> set bs. (sright > seqlo \<and> sright \<le> seqhi) \<or> (sleft \<ge> seqlo \<and> sleft < seqhi) \<or>
        (sleft < seqlo \<and> sright > seqhi))"

text \<open>The scoreboard is updated with the blocks of the acknowledgement.\<close>

definition sack_update :: "(int \<times> int) list \<Rightarrow> sack \<Rightarrow> sack res" where
  "sack_update bs s =
     res_bind (rb_UpdateScoreBoard (tc_highest_ack (sa_tcp s)) bs (sa_scb s)) (\<lambda>b. Ok (s\<lparr>sa_scb := b\<rparr>))"

definition sack_frto :: "sack_conf \<Rightarrow> (int \<times> int) list \<Rightarrow> sack \<Rightarrow> sack" where
  "sack_frto c bs s =
     (if cf_sfrto_enabled (sc_tcp c) \<and> tc_frto (sa_tcp s) = 2
      then if rb_changed (sa_scb s) \<and> \<not> is_sacked bs (tc_recover (sa_tcp s)) (tc_maxseq (sa_tcp s))
           then on_tcp (spurious_timeout (sc_tcp c)) s
           else on_tcp (\<lambda>t. t\<lparr>tc_t_seqno := tc_highest_ack t + 1, tc_cwnd := of_int (tc_frto t), tc_frto := 0,
                              tc_dupacks := 0\<rparr>) s
      else s)"

definition sack_dupack :: "sack_conf \<Rightarrow> real \<Rightarrow> (int \<times> int) list \<Rightarrow> sack \<Rightarrow> sack res" where
  "sack_dupack c now bs s =
     res_bind (sack_update bs s) (\<lambda>s1.
       res_bind (if rb_changed (sa_scb s1)
                 then let s2 = on_tcp (\<lambda>t. t\<lparr>tc_dupacks := tc_dupacks t + 1\<rparr>) s1
                      in res_bind (numdupacks (sc_tcp c) (tc_cwnd (sa_tcp s2))) (\<lambda>n.
                           if tc_dupacks (sa_tcp s2) = n then sack_dupack_action c now s2
                           else if tc_dupacks (sa_tcp s2) < n \<and> cf_singledup (sc_tcp c)
                           then run_tcp (send_one (sc_tcp c) now) s2 else Ok s2)
                 else Ok s1) (\<lambda>s3. Ok (sack_frto c bs s3)))"

text \<open>Outside of fast recovery.\<close>

definition sack_normal :: "sack_conf \<Rightarrow> real \<Rightarrow> tcp_ack \<Rightarrow> (int \<times> int) list \<Rightarrow> sack \<Rightarrow> sack res" where
  "sack_normal c now p bs s =
     (if ta_seqno p > tc_last_ack (sa_tcp s)
      then res_bind (run_tcp (recv_newack (sc_tcp c) now p) (s\<lparr>sa_firstpartial := False\<rparr>)) (\<lambda>s1.
             Ok (s1\<lparr>sa_timeout := False, sa_scb := rb_ClearScoreBoard (sa_scb s1)\<rparr>))
      else if ta_seqno p < tc_last_ack (sa_tcp s) \<or> sa_timeout s then Ok s
      else sack_dupack c now bs s)"

text \<open>An acknowledgement of everything that was sent before fast recovery ends it.\<close>

definition sack_exit :: "sack_conf \<Rightarrow> real \<Rightarrow> tcp_ack \<Rightarrow> sack \<Rightarrow> sack res" where
  "sack_exit c now p s =
     res_bind (run_tcp (newack (sc_tcp c) now p) (on_tcp (\<lambda>t. t\<lparr>tc_recover := 0\<rparr>) (s\<lparr>sa_fastrecov := False\<rparr>))) (\<lambda>s1.
       let s2 = (if tc_highest_ack (sa_tcp s1) \<ge> tc_curseq (sa_tcp s1) - 1 \<and> \<not> tc_closed (sa_tcp s1)
                 then on_tcp (\<lambda>t. t\<lparr>tc_closed := True, tc_out := tc_out t @ [Done]\<rparr>) s1 else s1)
       in Ok (s2\<lparr>sa_timeout := False, sa_scb := rb_ClearScoreBoard (sa_scb s2)\<rparr>))"

definition sack_partial :: "sack_conf \<Rightarrow> real \<Rightarrow> tcp_ack \<Rightarrow> (int \<times> int) list \<Rightarrow> sack \<Rightarrow> sack res" where
  "sack_partial c now p bs s =
     res_bind (sack_update bs (on_tcp (\<lambda>t. t\<lparr>tc_highest_ack := ta_seqno p\<rparr>) s)) (\<lambda>s1.
       let restart = (\<lambda>s. res_bind (run_tcp (newtimer (sc_tcp c) now p) s) (\<lambda>s'.
                            Ok (on_tcp (\<lambda>t. t\<lparr>tc_t_backoff := 1\<rparr>) s')))
       in if sc_partial_ack c
          then res_bind (sack_partial_ack_action c now s1) (\<lambda>s2.
                 let s3 = s2\<lparr>sa_pipe := sa_pipe s2 + 1\<rparr>
                 in if \<not> sa_firstpartial s3
                    then res_bind (restart s3) (\<lambda>s4. Ok (s4\<lparr>sa_firstpartial := True\<rparr>)) else Ok s3)
          else restart (s1\<lparr>sa_pipe := sa_pipe s1 - 1\<rparr>))"

definition sack_recovering :: "sack_conf \<Rightarrow> real \<Rightarrow> tcp_ack \<Rightarrow> (int \<times> int) list \<Rightarrow> sack \<Rightarrow> sack res" where
  "sack_recovering c now p bs s =
     (let s1 = s\<lparr>sa_pipe := sa_pipe s - 1\<rparr>
      in if ta_seqno p \<ge> tc_recover (sa_tcp s1) then sack_exit c now p s1
         else if ta_seqno p > tc_highest_ack (sa_tcp s1) then sack_partial c now p bs s1
         else if sa_timeout s1 then Ok s1
         else res_bind (sack_update bs s1) (\<lambda>s2.
                Ok (if rb_changed (sa_scb s2) \<and> tc_dupacks (sa_tcp s2) > 0
                    then on_tcp (\<lambda>t. t\<lparr>tc_dupacks := tc_dupacks t + 1\<rparr>) s2 else s2)))"

definition sack_recv :: "sack_conf \<Rightarrow> real \<Rightarrow> tcp_ack \<Rightarrow> (int \<times> int) list \<Rightarrow> sack \<Rightarrow> sack res" where
  "sack_recv c now p bs s0 =
     (let k = sc_tcp c
      in res_bind (run_tcp (recv_quickstart k now p) s0) (\<lambda>s1.
           if ta_ts p < tc_lastreset (sa_tcp s1) then Ok s1
           else let s2 = on_tcp (\<lambda>t. t\<lparr>tc_ct := (tc_ct t)\<lparr>ct_nackpack := ct_nackpack (tc_ct t) + 1\<rparr>\<rparr>) s1
                in res_bind (if ta_ecnecho p \<and> cf_ecn k then run_tcp (ecn k (ta_seqno p)) s2 else Ok s2) (\<lambda>s3.
                     let valid_ack = (ta_seqno p \<ge> tc_last_ack (sa_tcp s3))
                     in if \<not> sa_fastrecov s3
                        then res_bind (sack_normal c now p bs s3) (\<lambda>s4.
                               if (valid_ack \<or> cf_aggressive_maxburst k) \<and> tc_dupacks (sa_tcp s4) = 0
                               then sack_send_much c now False REASON_NONE (cf_maxburst k) s4 else Ok s4)
                        else res_bind (sack_recovering c now p bs s3) (\<lambda>s4.
                               if valid_ack \<or> cf_aggressive_maxburst k
                               then sack_send_much c now False REASON_NONE (cf_maxburst k) s4 else Ok s4))))"

section \<open>Timeouts\<close>

text \<open>\<open>TcpAgent::timeout\<close>, which calls the \<open>send_much\<close> of this class.\<close>

definition sack_base_timeout :: "sack_conf \<Rightarrow> real \<Rightarrow> tcp_timer \<Rightarrow> sack \<Rightarrow> sack res" where
  "sack_base_timeout c now tno s =
     (let k = sc_tcp c
      in case tno of
           TCP_TIMER_RTX \<Rightarrow>
             let s1 = on_tcp (\<lambda>t. timeout_window k (timeout_start k t)) s; t = sa_tcp s1
             in res_bind (run_tcp (reset_rtx_timer k now False (\<not> (tc_highest_ack t = tc_maxseq t \<and> cf_restart_bugfix k))) s1)
                  (\<lambda>s2. sack_send_much c now False TCP_REASON_TIMEOUT (cf_maxburst k)
                           (on_tcp (\<lambda>t. t\<lparr>tc_last_cwnd_action := CWND_ACTION_TIMEOUT\<rparr>) s2))
         | TCP_TIMER_DELSND \<Rightarrow> sack_send_much c now True TCP_REASON_TIMEOUT (cf_maxburst k) s
         | TCP_TIMER_BURSTSND \<Rightarrow> Ok s)"

definition sack_timeout_start :: "sack \<Rightarrow> sack" where
  "sack_timeout_start s =
     on_tcp (\<lambda>t. t\<lparr>tc_dupacks := 0, tc_last_ack := max (tc_last_ack t) (tc_highest_ack t), tc_recover := tc_maxseq t\<rparr>)
       (s\<lparr>sa_fastrecov := False, sa_timeout := True, sa_scb := rb_ClearScoreBoard (sa_scb s)\<rparr>)"

definition sack_timeout :: "sack_conf \<Rightarrow> real \<Rightarrow> tcp_timer \<Rightarrow> sack \<Rightarrow> sack res" where
  "sack_timeout c now tno s =
     res_bind (sack_base_timeout c now tno (if tno = TCP_TIMER_RTX then sack_timeout_start s else s)) (\<lambda>s1.
       Ok (if sa_fastrecov s then on_tcp (\<lambda>t. t\<lparr>tc_frto := 0\<rparr>) s1 else s1))"

text \<open>The timers expire as those of \<open>TcpAgent\<close>.\<close>

definition sack_expire :: "sack_conf \<Rightarrow> real \<Rightarrow> tcp_timer \<Rightarrow> sack \<Rightarrow> sack res" where
  "sack_expire c now tno s =
     (case tno of
        TCP_TIMER_RTX \<Rightarrow>
          if st_status (tc_rtx (sa_tcp s)) \<noteq> TIMER_PENDING then Fail Abort
          else res_bind (sack_timeout c now tno (on_tcp (\<lambda>t. t\<lparr>tc_rtx := st_handling (tc_rtx t)\<rparr>) s))
                 (\<lambda>s1. Ok (on_tcp (\<lambda>t. t\<lparr>tc_rtx := st_handled (tc_rtx t)\<rparr>) s1))
      | TCP_TIMER_DELSND \<Rightarrow>
          if st_status (tc_delsnd (sa_tcp s)) \<noteq> TIMER_PENDING then Fail Abort
          else res_bind (sack_timeout c now tno (on_tcp (\<lambda>t. t\<lparr>tc_delsnd := st_handling (tc_delsnd t)\<rparr>) s))
                 (\<lambda>s1. Ok (on_tcp (\<lambda>t. t\<lparr>tc_delsnd := st_handled (tc_delsnd t)\<rparr>) s1))
      | TCP_TIMER_BURSTSND \<Rightarrow>
          if st_status (tc_burstsnd (sa_tcp s)) \<noteq> TIMER_PENDING then Fail Abort
          else res_bind (sack_timeout c now tno (on_tcp (\<lambda>t. t\<lparr>tc_burstsnd := st_handling (tc_burstsnd t)\<rparr>) s))
                 (\<lambda>s1. Ok (on_tcp (\<lambda>t. t\<lparr>tc_burstsnd := st_handled (tc_burstsnd t)\<rparr>) s1)))"

end
