(* ===== verification/Sack_Recovery.thy ===== *)
theory Sack_Recovery
  imports Sack_Sender Tcp_Loss
begin

text \<open>
  Fast recovery of the SACK sender: what \<open>send_much\<close> sends while the scoreboard has missing segments, and
  how fast recovery begins.
\<close>

section \<open>The missing segments\<close>

text \<open>The segments below the highest one received that are missing and have not been sent again, in order.\<close>

definition board_holes :: "board \<Rightarrow> int list" where
  "board_holes B =
     (if bd_sacked B = {} then []
      else filter (\<lambda>x. x \<notin> bd_sacked B) [max (bd_una B) (bd_high B)..Max (bd_sacked B)])"

lemma find_filter: "find P xs = (case filter P xs of [] \<Rightarrow> None | x # _ \<Rightarrow> Some x)"
  by (induction xs) auto

lemma board_next_holes: "board_next B = (case board_holes B of [] \<Rightarrow> -1 | x # _ \<Rightarrow> x)"
  by (simp add: board_next_def board_holes_def find_filter split: list.splits)

lemma holes_pos:
  assumes "board_ok B" "x \<in> set (board_holes B)"
  shows "0 < x" "x < Max (bd_sacked B)"
proof -
  have s: "bd_sacked B \<noteq> {}" "max (bd_una B) (bd_high B) \<le> x" "x \<le> Max (bd_sacked B)" "x \<notin> bd_sacked B"
    using assms(2) by (auto simp: board_holes_def split: if_split_asm)
  have "Max (bd_sacked B) \<in> bd_sacked B" "1 \<le> bd_una B" using assms(1) s(1) by (simp_all add: board_ok_def)
  then show "0 < x" "x < Max (bd_sacked B)" using s by (auto simp: less_le)
qed

lemma holes_sorted: "sorted_wrt (<) (board_holes B)"
  by (simp add: board_holes_def sorted_wrt_filter)

lemma holes_next:
  assumes "board_ok B" "board_holes B = x # xs"
  shows "board_next B = x" "board_holes (board_mark x B) = xs" "mark_ok x (board_seek B)"
    "board_mark x (board_seek B) = board_mark x B" "bd_sacked (board_mark x B) = bd_sacked B"
proof -
  show n: "board_next B = x" using assms(2) by (simp add: board_next_holes)
  have p: "0 < x" using holes_pos(1) [OF assms(1)] assms(2) by simp
  have m: "mark_ok x B" "max (bd_una B) (bd_high B) \<le> x"
    using board_next_cases [OF assms(1)] n p by auto
  show "mark_ok x (board_seek B)" "board_mark x (board_seek B) = board_mark x B"
    using board_seek_mark [OF assms(1)] n p by auto
  show "bd_sacked (board_mark x B) = bd_sacked B" by (simp add: board_mark_def)
  define l where "l = max (bd_una B) (bd_high B)"
  have s: "bd_sacked B \<noteq> {}" "x < Max (bd_sacked B)" "x \<notin> bd_sacked B" "{l..<x} \<subseteq> bd_sacked B" "l \<le> x"
    using m by (auto simp: mark_ok_def l_def)
  have "[l..Max (bd_sacked B)] = [l..x - 1] @ x # [x + 1..Max (bd_sacked B)]"
    using s(2,5) by (metis less_imp_le upto_split3)
  moreover have "filter (\<lambda>x. x \<notin> bd_sacked B) [l..x - 1] = []"
    using s(4) by (auto simp: filter_empty_conv)
  ultimately have "board_holes B = x # filter (\<lambda>x. x \<notin> bd_sacked B) [x + 1..Max (bd_sacked B)]"
    using s(1,3) by (simp add: board_holes_def l_def)
  moreover have "max (bd_una B) (max (bd_high B) (x + 1)) = x + 1" using m(2) by simp
  ultimately show "board_holes (board_mark x B) = xs"
    using assms(2) s(1) by (simp add: board_holes_def board_mark_def)
qed

section \<open>One segment\<close>

text \<open>
  The sender is in fast recovery, its scoreboard represents \<open>B\<close>, and only what has been sent was reported
  as received.
\<close>

definition sack_ready :: "sack_conf \<Rightarrow> sack \<Rightarrow> board \<Rightarrow> bool" where
  "sack_ready c s B \<longleftrightarrow> can_send (sc_tcp c) (sa_tcp s) \<and> sa_fastrecov s \<and> \<not> tc_qs_approved (sa_tcp s) \<and>
     rb_repr B (sa_scb s) \<and> 0 < tc_t_seqno (sa_tcp s) \<and> 0 < tc_recover (sa_tcp s) \<and>
     (\<forall>x \<in> bd_sacked B. x \<le> tc_maxseq (sa_tcp s))"

text \<open>The segment to send next, if the receiver has room for it.\<close>

definition sack_pick :: "int \<Rightarrow> int list \<Rightarrow> int \<Rightarrow> int \<Rightarrow> int option" where
  "sack_pick edge hs t_seqno curseq =
     (case hs of
        x # _ \<Rightarrow> if x \<le> edge then Some x else None
      | [] \<Rightarrow> if t_seqno \<le> edge \<and> t_seqno < curseq then Some t_seqno else None)"

definition sack_edge :: "sack_conf \<Rightarrow> sack \<Rightarrow> int" where
  "sack_edge c s = tc_highest_ack (sa_tcp s) + trunc (cf_wnd (sc_tcp c))"

lemma output_keeps:
  assumes "tcp_output c now q reason s = Inr s'" "cf_max_connects c \<le> 0"
  shows "tc_qs_approved s' = tc_qs_approved s" "tc_maxseq s \<le> tc_maxseq s'" "tc_dupacks s' = tc_dupacks s"
    "q \<noteq> 0 \<Longrightarrow> tc_curseq s' = tc_curseq s"
proof -
  have "tc_qs_approved s' = tc_qs_approved s \<and> tc_maxseq s \<le> tc_maxseq s' \<and> tc_dupacks s' = tc_dupacks s \<and>
      (q \<noteq> 0 \<longrightarrow> tc_curseq s' = tc_curseq s)"
    using assms(1)
  proof (cases rule: tcp_outputE)
    case Abort
    then show ?thesis using assms(2) by simp
  next
    case (Sent p a b u cs k i v w ct act rs rt ur rx)
    show ?thesis unfolding Sent(4) Sent(3) by simp
  qed
  then show "tc_qs_approved s' = tc_qs_approved s" "tc_maxseq s \<le> tc_maxseq s'" "tc_dupacks s' = tc_dupacks s"
    "q \<noteq> 0 \<Longrightarrow> tc_curseq s' = tc_curseq s"
    by simp_all
qed

lemma repr_board_ok: "rb_repr B b \<Longrightarrow> board_ok B"
  by (simp add: rb_repr_def)

lemma choose_Some:
  assumes r: "sack_ready c s B" and x: "sack_pick (sack_edge c s) (board_holes B) (tc_t_seqno (sa_tcp s)) (tc_curseq (sa_tcp s)) = Some x"
  shows "\<exists>win' s' B'. sack_choose c win s = (Some x, win', s') \<and> rb_repr B' (sa_scb s') \<and> bd_sacked B' = bd_sacked B \<and>
    board_holes B' = tl (board_holes B) \<and> 0 < x \<and> (x < tc_curseq (sa_tcp s) \<or> x \<le> tc_maxseq (sa_tcp s)) \<and>
    s' = s\<lparr>sa_scb := sa_scb s',
           sa_tcp := (sa_tcp s)\<lparr>tc_t_seqno := tc_t_seqno (sa_tcp s) + (if board_holes B = [] then 1 else 0)\<rparr>\<rparr> \<and>
    (board_holes B = [] \<longrightarrow> x = tc_t_seqno (sa_tcp s))"
proof -
  have R: "rb_repr B (sa_scb s)" "board_ok B" using r by (auto simp: sack_ready_def dest: repr_board_ok)
  obtain b where b: "rb_GetNextRetran (sa_scb s) = (board_next B, b)" "rb_repr (board_seek B) b"
    using rb_nxt_ok [OF R(1)] by blast
  show ?thesis
  proof (cases "board_holes B")
    case Nil
    then have n: "board_next B = -1" by (simp add: board_next_holes)
    then have b': "rb_repr B b" using b(2) by (simp add: board_seek_def)
    have e: "x = tc_t_seqno (sa_tcp s)" "x \<le> sack_edge c s" "x < tc_curseq (sa_tcp s)"
      using x Nil by (simp_all add: sack_pick_def split: if_split_asm)
    have k: "sa_fastrecov s" "0 < x" using r e(1) by (simp_all add: sack_ready_def)
    define s' where "s' = s\<lparr>sa_scb := b, sa_tcp := (sa_tcp s)\<lparr>tc_t_seqno := tc_t_seqno (sa_tcp s) + 1\<rparr>\<rparr>"
    have "sack_choose c win s = (Some x, win, s')"
      using e k by (simp add: sack_choose_def b(1) n sack_edge_def s'_def Let_def)
    moreover have "rb_repr B (sa_scb s')" using b' by (simp add: s'_def)
    moreover have "s' = s\<lparr>sa_scb := sa_scb s', sa_tcp := (sa_tcp s)\<lparr>tc_t_seqno := tc_t_seqno (sa_tcp s) + 1\<rparr>\<rparr>"
      by (simp add: s'_def)
    ultimately show ?thesis using Nil e k by (intro exI [of _ win] exI [of _ s'] exI [of _ B]) simp
  next
    case (Cons y ys)
    note h = holes_next [OF R(2) Cons]
    have y: "0 < y" "y < Max (bd_sacked B)" using holes_pos [OF R(2)] Cons by simp_all
    have xy: "x = y" "y \<le> sack_edge c s" using x Cons by (simp_all add: sack_pick_def split: if_split_asm)
    have "rb_repr (board_mark y B) (rb_MarkRetran y b)"
      using rb_mark_ok [OF b(2) h(3)] h(4) by simp
    moreover have "bd_sacked B \<noteq> {}" using Cons by (auto simp: board_holes_def)
    then have "Max (bd_sacked B) \<in> bd_sacked B" using R(2) by (simp add: board_ok_def)
    then have "Max (bd_sacked B) \<le> tc_maxseq (sa_tcp s)" using r by (simp add: sack_ready_def)
    then have "y \<le> tc_maxseq (sa_tcp s)" using y(2) by simp
    moreover define s' where "s' = s\<lparr>sa_scb := rb_MarkRetran y b\<rparr>"
    moreover have "sack_choose c win s = (Some y, window (sc_tcp c) (sa_tcp s), s')"
      using xy(2) y(1) r by (simp add: sack_choose_def b(1) h(1) sack_edge_def s'_def sack_ready_def Let_def)
    ultimately show ?thesis
      using h(2,5) xy(1) y(1) Cons
      by (intro exI [of _ "window (sc_tcp c) (sa_tcp s)"] exI [of _ s'] exI [of _ "board_mark y B"]) simp
  qed
qed


lemma choose_None:
  assumes r: "sack_ready c s B" and x: "sack_pick (sack_edge c s) (board_holes B) (tc_t_seqno (sa_tcp s)) (tc_curseq (sa_tcp s)) = None"
  shows "\<exists>s'. sack_choose c win s = (None, win, s') \<and> sa_tcp s' = sa_tcp s \<and> sa_pipe s' = sa_pipe s"
proof -
  have R: "rb_repr B (sa_scb s)" "board_ok B" using r by (auto simp: sack_ready_def dest: repr_board_ok)
  obtain b where b: "rb_GetNextRetran (sa_scb s) = (board_next B, b)"
    using rb_nxt_ok [OF R(1)] by blast
  have f: "sa_fastrecov s" using r by (simp add: sack_ready_def)
  have "sack_choose c win s = (None, win, s\<lparr>sa_scb := b\<rparr>)"
  proof (cases "board_holes B")
    case Nil
    then show ?thesis using x f
      by (auto simp: sack_choose_def b board_next_holes sack_pick_def sack_edge_def Let_def split: if_split_asm)
  next
    case (Cons y ys)
    then have "0 < y" "board_next B = y" using holes_pos(1) [OF R(2)] by (simp_all add: board_next_holes)
    then show ?thesis using x f Cons
      by (auto simp: sack_choose_def b sack_pick_def sack_edge_def Let_def split: if_split_asm)
  qed
  then show ?thesis by simp
qed

text \<open>A turn of the loop that sends a segment.\<close>

lemma sack_step_sends:
  assumes r: "sack_ready c s B" and o: "cf_overhead (sc_tcp c) = 0 \<or> force"
    and x: "sack_pick (sack_edge c s) (board_holes B) (tc_t_seqno (sa_tcp s)) (tc_curseq (sa_tcp s)) = Some x"
  shows "\<exists>win' s' B' p. sack_send_step c now force reason mb np win s = Inr (\<not> (mb \<noteq> 0 \<and> np + 1 = mb), win', s') \<and>
    sack_ready c s' B' \<and> board_holes B' = tl (board_holes B) \<and> tc_out (sa_tcp s') = tc_out (sa_tcp s) @ [Send p] \<and>
    tp_seqno p = x \<and> tp_reason p = reason \<and> sa_pipe s' = sa_pipe s + 1 \<and> same_window (sa_tcp s) (sa_tcp s') \<and>
    tc_curseq (sa_tcp s') = tc_curseq (sa_tcp s) \<and> tc_t_seqno (sa_tcp s') = max (tc_t_seqno (sa_tcp s)) (x + 1)"
proof -
  let ?k = "sc_tcp c" and ?t = "sa_tcp s"
  obtain win' s1 B' where c: "sack_choose c win s = (Some x, win', s1)" and B': "rb_repr B' (sa_scb s1)"
    "bd_sacked B' = bd_sacked B" "board_holes B' = tl (board_holes B)" and pos: "0 < x" "x < tc_curseq ?t \<or> x \<le> tc_maxseq ?t"
    and s1: "s1 = s\<lparr>sa_scb := sa_scb s1, sa_tcp := ?t\<lparr>tc_t_seqno := tc_t_seqno ?t + (if board_holes B = [] then 1 else 0)\<rparr>\<rparr>"
    and nw: "board_holes B = [] \<longrightarrow> x = tc_t_seqno ?t"
    using choose_Some [OF r x] by blast
  define t1 where "t1 = ?t\<lparr>tc_t_seqno := tc_t_seqno ?t + (if board_holes B = [] then 1 else 0)\<rparr>"
  have st: "sa_tcp s1 = t1" using arg_cong [OF s1, of sa_tcp] by (simp add: t1_def)
  have sp: "sa_pipe s1 = sa_pipe s" "sa_fastrecov s1 = sa_fastrecov s"
    using arg_cong [OF s1, of sa_pipe] arg_cong [OF s1, of sa_fastrecov] by simp_all
  have k1: "can_send ?k t1" using r by (simp add: sack_ready_def t1_def can_send_def rto_ok_def)
  have mc: "cf_max_connects ?k \<le> 0" "\<not> cf_QOption ?k" using k1 by (simp_all add: can_send_def)
  obtain t2 where t2: "tcp_output ?k now x reason t1 = Inr t2" "can_send ?k t2"
    using tcp_output_returns [OF k1] by blast
  have "x < tc_curseq t1 \<or> x \<le> tc_maxseq t1" using pos(2) by (simp add: t1_def)
  note w = tcp_output_sends [OF t2(1) mc(1) this] and e = output_keeps [OF t2(1) mc(1)]
  define t3 where "t3 = (if tc_t_seqno t2 \<le> x then t2\<lparr>tc_t_seqno := x + 1\<rparr> else t2)"
  define s3 where "s3 = s1\<lparr>sa_tcp := t3, sa_pipe := sa_pipe s1 + 1\<rparr>"
  have t3: "can_send ?k t3" "tc_out t3 = tc_out t2" "same_window t1 t3" "tc_qs_approved t3 = tc_qs_approved t1"
    "tc_maxseq t1 \<le> tc_maxseq t3" "tc_curseq t3 = tc_curseq t1"
    using t2(2) w(2) e pos(1) by (simp_all add: t3_def can_send_def rto_ok_def)
  have sq: "tc_t_seqno t3 = max (tc_t_seqno ?t) (x + 1)"
    using w(4) nw by (auto simp: t3_def t1_def max_def)
  have "sack_transmit c now reason x s1 = Ok s3"
    by (simp add: sack_transmit_def st t2(1) Let_def t3_def [symmetric] qoption_sent_def mc(2) s3_def)
  then have "sack_send_step c now force reason mb np win s = Inr (\<not> (mb \<noteq> 0 \<and> np + 1 = mb), win', s3)"
    using o t3(4) r by (simp add: sack_send_step_def c s3_def t1_def sack_ready_def)
  moreover have w1: "same_window ?t t1" by (simp add: t1_def)
  moreover have "sack_ready c s3 B'"
    using r B'(1,2) t3 sq pos(1) sp(2) same_window_trans [OF w1 t3(3)]
    by (auto simp: sack_ready_def s3_def t1_def same_window_def)
  moreover obtain p where "tc_out t2 = tc_out ?t @ [Send p]" "tp_seqno p = x" "tp_reason p = reason"
    using w(1) by (auto simp: t1_def)
  ultimately show ?thesis
    using B'(3) t3 sq sp same_window_trans [OF w1 t3(3)]
    by (intro exI [of _ win'] exI [of _ s3] exI [of _ B'] exI [of _ p]) (simp add: s3_def t1_def)
qed


section \<open>The loop\<close>

text \<open>
  What a call sends: the first of the missing segments \<open>H\<close>, then, if all of those were sent, new ones; \<open>hs\<close> are
  the missing segments that are left.
\<close>

definition sack_burst ::
  "sack_conf \<Rightarrow> tcp_reason \<Rightarrow> int list \<Rightarrow> sack \<Rightarrow> sack \<Rightarrow> tcp_pkt list \<Rightarrow> tcp_pkt list \<Rightarrow> int list \<Rightarrow> bool" where
  "sack_burst c reason H s s' rs ns hs \<longleftrightarrow>
     H = map tp_seqno rs @ hs \<and> (ns \<noteq> [] \<longrightarrow> hs = []) \<and>
     tc_out (sa_tcp s') = tc_out (sa_tcp s) @ map Send (rs @ ns) \<and>
     map tp_seqno ns = [fold max (map (\<lambda>p. tp_seqno p + 1) rs) (tc_t_seqno (sa_tcp s))..tc_t_seqno (sa_tcp s') - 1] \<and>
     fold max (map (\<lambda>p. tp_seqno p + 1) rs) (tc_t_seqno (sa_tcp s)) \<le> tc_t_seqno (sa_tcp s') \<and>
     (\<forall>p\<in>set (rs @ ns). tp_reason p = reason \<and> tp_seqno p \<le> sack_edge c s) \<and>
     (\<forall>p\<in>set ns. tp_seqno p < tc_curseq (sa_tcp s)) \<and>
     sa_pipe s' = sa_pipe s + int (length (rs @ ns)) \<and> (rs @ ns \<noteq> [] \<longrightarrow> sa_pipe s' \<le> trunc (tc_cwnd (sa_tcp s))) \<and>
     same_window (sa_tcp s) (sa_tcp s') \<and> tc_curseq (sa_tcp s') = tc_curseq (sa_tcp s)"

lemma burst_Nil:
  "sa_tcp s' = sa_tcp s \<Longrightarrow> sa_pipe s' = sa_pipe s \<Longrightarrow> sack_burst c reason H s s' [] [] H"
  by (simp add: sack_burst_def)

lemma burst_old:
  assumes b: "sack_burst c reason H s1 s' rs ns hs"
    and p: "tc_out (sa_tcp s1) = tc_out (sa_tcp s) @ [Send p]" "tp_reason p = reason" "tp_seqno p \<le> sack_edge c s"
    and s: "sa_pipe s1 = sa_pipe s + 1" "same_window (sa_tcp s) (sa_tcp s1)" "tc_curseq (sa_tcp s1) = tc_curseq (sa_tcp s)"
      "sa_pipe s < trunc (tc_cwnd (sa_tcp s))" "tc_t_seqno (sa_tcp s1) = max (tc_t_seqno (sa_tcp s)) (tp_seqno p + 1)"
  shows "sack_burst c reason (tp_seqno p # H) s s' (p # rs) ns hs"
proof -
  have e: "sack_edge c s1 = sack_edge c s" "tc_cwnd (sa_tcp s1) = tc_cwnd (sa_tcp s)"
    using s(2) by (simp_all add: same_window_def sack_edge_def)
  have f: "fold max (map (\<lambda>p. tp_seqno p + 1) (p # rs)) (tc_t_seqno (sa_tcp s)) =
      fold max (map (\<lambda>p. tp_seqno p + 1) rs) (tc_t_seqno (sa_tcp s1))"
    by (simp add: s(5) max.commute)
  have "rs @ ns = [] \<Longrightarrow> sa_pipe s' = sa_pipe s + 1" using b s(1) by (simp add: sack_burst_def)
  then have pipe: "sa_pipe s' \<le> trunc (tc_cwnd (sa_tcp s))"
    using b s(4) e(2) by (cases "rs @ ns = []") (simp_all add: sack_burst_def)
  show ?thesis
    unfolding sack_burst_def f
    using b p s(1,3) pipe same_window_trans [OF s(2)] unfolding sack_burst_def e by simp
qed

lemma burst_new:
  assumes b: "sack_burst c reason [] s1 s' [] ns hs"
    and p: "tc_out (sa_tcp s1) = tc_out (sa_tcp s) @ [Send p]" "tp_reason p = reason" "tp_seqno p \<le> sack_edge c s"
      "tp_seqno p < tc_curseq (sa_tcp s)" "tp_seqno p = tc_t_seqno (sa_tcp s)"
    and s: "sa_pipe s1 = sa_pipe s + 1" "same_window (sa_tcp s) (sa_tcp s1)" "tc_curseq (sa_tcp s1) = tc_curseq (sa_tcp s)"
      "sa_pipe s < trunc (tc_cwnd (sa_tcp s))" "tc_t_seqno (sa_tcp s1) = tc_t_seqno (sa_tcp s) + 1"
  shows "sack_burst c reason [] s s' [] (p # ns) []"
proof -
  have e: "sack_edge c s1 = sack_edge c s" "tc_cwnd (sa_tcp s1) = tc_cwnd (sa_tcp s)"
    using s(2) by (simp_all add: same_window_def sack_edge_def)
  have le: "tc_t_seqno (sa_tcp s) + 1 \<le> tc_t_seqno (sa_tcp s')" using b s(5) by (simp add: sack_burst_def)
  have "[tc_t_seqno (sa_tcp s)..tc_t_seqno (sa_tcp s') - 1] =
      tc_t_seqno (sa_tcp s) # [tc_t_seqno (sa_tcp s) + 1..tc_t_seqno (sa_tcp s') - 1]"
    using le by (intro upto_rec1) simp
  then have m: "map tp_seqno (p # ns) = [tc_t_seqno (sa_tcp s)..tc_t_seqno (sa_tcp s') - 1]"
    using b p(5) s(5) by (simp add: sack_burst_def)
  have "ns = [] \<Longrightarrow> sa_pipe s' = sa_pipe s + 1" using b s(1) by (simp add: sack_burst_def)
  then have pipe: "sa_pipe s' \<le> trunc (tc_cwnd (sa_tcp s))"
    using b s(4) e(2) by (cases "ns = []") (simp_all add: sack_burst_def)
  show ?thesis
    using b p(1-4) s(1,3) pipe m le same_window_trans [OF s(2)] unfolding sack_burst_def e by simp
qed

text \<open>Why the call stops.\<close>

definition sack_stops :: "sack_conf \<Rightarrow> sack \<Rightarrow> int list \<Rightarrow> bool" where
  "sack_stops c s hs \<longleftrightarrow>
     trunc (tc_cwnd (sa_tcp s)) \<le> sa_pipe s \<or> tc_curseq (sa_tcp s) \<le> tc_last_ack (sa_tcp s) + 1 \<or>
     sack_pick (sack_edge c s) hs (tc_t_seqno (sa_tcp s)) (tc_curseq (sa_tcp s)) = None"

lemma sack_loop_sends:
  assumes "sack_ready c s B" "cf_overhead (sc_tcp c) = 0 \<or> force"
  shows "\<exists>s' rs ns hs. sack_send_loop c now force reason mb np win s = Inr s' \<and> sack_burst c reason (board_holes B) s s' rs ns hs \<and>
    (0 \<le> np \<longrightarrow> np < mb \<longrightarrow> np + int (length (rs @ ns)) \<le> mb) \<and> (sack_stops c s' hs \<or> mb \<noteq> 0 \<and> np + int (length (rs @ ns)) = mb)"
  using assms
proof (induction c now force reason mb np win s arbitrary: B rule: sack_send_loop.induct)
  case (1 c now force reason mb np win s)
  note loop = sack_send_loop.simps [of c now force reason mb np win s]
  have f: "sa_fastrecov s" using "1.prems"(1) by (simp add: sack_ready_def)
  show ?case
  proof (cases "sack_may_send win s")
    case False
    then have "sack_stops c s (board_holes B)" using f by (auto simp: sack_stops_def sack_may_send_def)
    then show ?thesis unfolding loop using False burst_Nil [of s s]
      by (intro exI [of _ s] exI [of _ "[]"] exI [of _ "board_holes B"]) simp
  next
    case True
    then have pipe: "sa_pipe s < trunc (tc_cwnd (sa_tcp s))" using f by (simp add: sack_may_send_def)
    show ?thesis
    proof (cases "sack_pick (sack_edge c s) (board_holes B) (tc_t_seqno (sa_tcp s)) (tc_curseq (sa_tcp s))")
      case None
      obtain s' where c: "sack_choose c win s = (None, win, s')" and s': "sa_tcp s' = sa_tcp s" "sa_pipe s' = sa_pipe s"
        using choose_None [OF "1.prems"(1) None] by blast
      have "sack_send_step c now force reason mb np win s = Inr (False, win, s')"
        using c "1.prems"(2) by (simp add: sack_send_step_def)
      then have l: "sack_send_loop c now force reason mb np win s = Inr s'" unfolding loop using True by simp
      have "sack_stops c s' (board_holes B)" using None s' by (simp add: sack_stops_def sack_edge_def)
      then show ?thesis using l burst_Nil [OF s']
        by (intro exI [of _ s'] exI [of _ "[]"] exI [of _ "board_holes B"]) simp
    next
      case (Some x)
      obtain win' s1 B1 p where st: "sack_send_step c now force reason mb np win s = Inr (\<not> (mb \<noteq> 0 \<and> np + 1 = mb), win', s1)"
        and r1: "sack_ready c s1 B1" "board_holes B1 = tl (board_holes B)"
        and p: "tc_out (sa_tcp s1) = tc_out (sa_tcp s) @ [Send p]" "tp_seqno p = x" "tp_reason p = reason"
        and e: "sa_pipe s1 = sa_pipe s + 1" "same_window (sa_tcp s) (sa_tcp s1)" "tc_curseq (sa_tcp s1) = tc_curseq (sa_tcp s)"
          "tc_t_seqno (sa_tcp s1) = max (tc_t_seqno (sa_tcp s)) (x + 1)"
        using sack_step_sends [OF "1.prems" Some] by blast
      have xe: "x \<le> sack_edge c s" "board_holes B = [] \<Longrightarrow> x = tc_t_seqno (sa_tcp s) \<and> x < tc_curseq (sa_tcp s)"
          "board_holes B \<noteq> [] \<Longrightarrow> board_holes B = x # board_holes B1"
        using Some r1(2) by (auto simp: sack_pick_def split: list.splits if_split_asm)
      have more: "\<exists>rs' ns' hs'. sack_burst c reason (board_holes B) s s' rs' ns' hs' \<and>
          length (rs' @ ns') = Suc (length (rs @ ns)) \<and> hs' = hs"
        if b: "sack_burst c reason (board_holes B1) s1 s' rs ns hs" for s' rs ns hs
      proof (cases "board_holes B = []")
        case holes: True
        then have b1: "board_holes B1 = []" using r1(2) by simp
        then have b2: "rs = []" "hs = []" using b by (simp_all add: sack_burst_def)
        have "sack_burst c reason [] s s' [] (p # ns) []"
          using burst_new [OF b [unfolded b1 b2] p(1,3)] p(2) xe(1) xe(2) [OF holes] e pipe by simp
        then show ?thesis using holes b2 by (intro exI [of _ "[]"] exI [of _ "p # ns"] exI [of _ "[]"]) simp
      next
        case False
        have "sack_burst c reason (tp_seqno p # board_holes B1) s s' (p # rs) ns hs"
          using burst_old [OF b p(1,3)] p(2) xe(1) e pipe by simp
        then show ?thesis using xe(3) [OF False] p(2) by (intro exI [of _ "p # rs"] exI [of _ ns] exI [of _ hs]) simp
      qed
      show ?thesis
      proof (cases "mb \<noteq> 0 \<and> np + 1 = mb")
        case stop: True
        have l: "sack_send_loop c now force reason mb np win s = Inr s1" unfolding loop using True st stop by simp
        obtain rs ns hs where "sack_burst c reason (board_holes B) s s1 rs ns hs" "length (rs @ ns) = 1"
          using more [OF burst_Nil [of s1 s1]] by auto
        then show ?thesis using l stop by (intro exI [of _ s1] exI [of _ rs] exI [of _ ns] exI [of _ hs]) simp
      next
        case False
        obtain s' rs ns hs where i: "sack_send_loop c now force reason mb (np + 1) win' s1 = Inr s'"
          "sack_burst c reason (board_holes B1) s1 s' rs ns hs"
          "0 \<le> np + 1 \<longrightarrow> np + 1 < mb \<longrightarrow> np + 1 + int (length (rs @ ns)) \<le> mb"
          "sack_stops c s' hs \<or> mb \<noteq> 0 \<and> np + 1 + int (length (rs @ ns)) = mb"
          using "1.IH" [OF True st] False r1(1) "1.prems"(2) unfolding fst_conv snd_conv by blast
        obtain rs' ns' hs' where m: "sack_burst c reason (board_holes B) s s' rs' ns' hs'"
          "length (rs' @ ns') = Suc (length (rs @ ns))" "hs' = hs"
          using more [OF i(2)] by blast
        have "int (length (rs' @ ns')) = 1 + int (length (rs @ ns))" using m(2) by simp
        then have "0 \<le> np \<longrightarrow> np < mb \<longrightarrow> np + int (length (rs' @ ns')) \<le> mb"
          "sack_stops c s' hs \<or> mb \<noteq> 0 \<and> np + int (length (rs' @ ns')) = mb"
          using i(3,4) False by linarith+
        moreover have "sack_send_loop c now force reason mb np win s = Inr s'" unfolding loop using True st False i(1) by auto
        ultimately show ?thesis using m(1,3) by blast
      qed
    qed
  qed
qed


lemma fold_max_bounds:
  "(a::int) \<le> fold max xs a" "\<forall>x\<in>set xs. x \<le> fold max xs a"
proof -
  have "a \<le> fold max xs a \<and> (\<forall>x\<in>set xs. x \<le> fold max xs a)"
  proof (induction xs arbitrary: a)
    case (Cons y xs)
    have "max y a \<le> fold max xs (max y a) \<and> (\<forall>x\<in>set xs. x \<le> fold max xs (max y a))" by (rule Cons)
    then show ?case by (simp add: max.coboundedI1)
  qed simp
  then show "a \<le> fold max xs a" "\<forall>x\<in>set xs. x \<le> fold max xs a" by simp_all
qed

lemma burst_sorted:
  assumes "sack_burst c reason (board_holes B) s s' rs ns hs"
  shows "sorted_wrt (<) (map tp_seqno (rs @ ns))"
    "map tp_seqno ns = [tc_t_seqno (sa_tcp s') - int (length ns)..tc_t_seqno (sa_tcp s') - 1]"
    "\<forall>p\<in>set ns. tc_t_seqno (sa_tcp s) \<le> tp_seqno p"
proof -
  let ?n = "fold max (map (\<lambda>p. tp_seqno p + 1) rs) (tc_t_seqno (sa_tcp s))"
  have b: "board_holes B = map tp_seqno rs @ hs" "map tp_seqno ns = [?n..tc_t_seqno (sa_tcp s') - 1]"
    "?n \<le> tc_t_seqno (sa_tcp s')"
    using assms by (simp_all add: sack_burst_def)
  have "\<forall>x\<in>set (map (\<lambda>p. tp_seqno p + 1) rs). x \<le> ?n" using fold_max_bounds by blast
  then have n: "tc_t_seqno (sa_tcp s) \<le> ?n" "\<forall>p\<in>set rs. tp_seqno p < ?n"
    using fold_max_bounds(1) by auto
  have "int (length ns) = tc_t_seqno (sa_tcp s') - ?n"
    using arg_cong [OF b(2), of length] b(3) by simp
  then show "map tp_seqno ns = [tc_t_seqno (sa_tcp s') - int (length ns)..tc_t_seqno (sa_tcp s') - 1]"
    using b(2) by simp
  have ge: "\<forall>x\<in>set (map tp_seqno ns). ?n \<le> x" unfolding b(2) by simp
  then show "\<forall>p\<in>set ns. tc_t_seqno (sa_tcp s) \<le> tp_seqno p" using n(1) by fastforce
  have "sorted_wrt (<) (map tp_seqno rs)" using holes_sorted [of B] b(1) by (simp add: sorted_wrt_append)
  moreover have "sorted_wrt (<) (map tp_seqno ns)" unfolding b(2) by simp
  ultimately show "sorted_wrt (<) (map tp_seqno (rs @ ns))"
    using n(2) ge by (fastforce simp: sorted_wrt_append)
qed

text \<open>C8: In fast recovery \<open>send_much\<close> returns, and what it sends are first the missing segments that have not been sent
  again, from the lowest on, and then, only when none of them is left, new segments from \<open>t_seqno_\<close> on that the
  application has provided; no segment twice and none beyond the receiver's window. The estimate
  \<open>pipe_\<close> grows by the number of segments and does not exceed the congestion window. The call stops only
  because the window is full, \<open>maxburst\<close> segments have been sent, all data is acknowledged, or there is nothing
  that the receiver has room for. This is for calls without a Quick-Start approval (\<open>sack_ready\<close>), that do not delay
  segments (\<open>overhead_\<close> is 0 or the call is forced) and that do not find the delay timer pending (or are
  forced).\<close>

theorem sack_recovery_sends:
  assumes "sack_ready c s B" "cf_overhead (sc_tcp c) = 0 \<or> force" "force \<or> st_status (tc_delsnd (sa_tcp s)) \<noteq> TIMER_PENDING"
    and "0 \<le> mb"
  shows "\<exists>s' rs ns hs. sack_send_much c now force reason mb s = Inr s' \<and>
    tc_out (sa_tcp s') = tc_out (sa_tcp s) @ map Send (rs @ ns) \<and>
    board_holes B = map tp_seqno rs @ hs \<and> (ns \<noteq> [] \<longrightarrow> hs = []) \<and>
    map tp_seqno ns = [tc_t_seqno (sa_tcp s') - int (length ns)..tc_t_seqno (sa_tcp s') - 1] \<and>
    (\<forall>p\<in>set ns. tc_t_seqno (sa_tcp s) \<le> tp_seqno p \<and> tp_seqno p < tc_curseq (sa_tcp s)) \<and>
    sorted_wrt (<) (map tp_seqno (rs @ ns)) \<and>
    (\<forall>p\<in>set (rs @ ns). tp_reason p = reason \<and> tp_seqno p \<le> sack_edge c s) \<and>
    sa_pipe s' = sa_pipe s + int (length (rs @ ns)) \<and> (rs @ ns \<noteq> [] \<longrightarrow> sa_pipe s' \<le> trunc (tc_cwnd (sa_tcp s))) \<and>
    (mb \<noteq> 0 \<longrightarrow> int (length (rs @ ns)) \<le> mb) \<and>
    (trunc (tc_cwnd (sa_tcp s)) \<le> sa_pipe s' \<or> mb \<noteq> 0 \<and> int (length (rs @ ns)) = mb \<or>
     tc_curseq (sa_tcp s) \<le> tc_last_ack (sa_tcp s) + 1 \<or>
     sack_pick (sack_edge c s) hs (tc_t_seqno (sa_tcp s')) (tc_curseq (sa_tcp s)) = None)"
proof -
  obtain s' rs ns hs where l: "sack_send_loop c now force reason mb 0 (window (sc_tcp c) (sa_tcp s)) s = Inr s'"
    and b: "sack_burst c reason (board_holes B) s s' rs ns hs"
    and m: "0 \<le> (0::int) \<longrightarrow> 0 < mb \<longrightarrow> 0 + int (length (rs @ ns)) \<le> mb"
      "sack_stops c s' hs \<or> mb \<noteq> 0 \<and> 0 + int (length (rs @ ns)) = mb"
    using sack_loop_sends [OF assms(1,2), of now reason mb 0] by blast
  have r: "sack_send_much c now force reason mb s = Inr s'" using l assms(3) by (auto simp: sack_send_much_def)
  have "same_window (sa_tcp s) (sa_tcp s')" "tc_curseq (sa_tcp s') = tc_curseq (sa_tcp s)" using b by (simp_all add: sack_burst_def)
  then have stop: "trunc (tc_cwnd (sa_tcp s)) \<le> sa_pipe s' \<or> mb \<noteq> 0 \<and> int (length (rs @ ns)) = mb \<or>
     tc_curseq (sa_tcp s) \<le> tc_last_ack (sa_tcp s) + 1 \<or>
     sack_pick (sack_edge c s) hs (tc_t_seqno (sa_tcp s')) (tc_curseq (sa_tcp s)) = None"
    using m(2) by (auto simp: sack_stops_def sack_edge_def same_window_def)
  have B: "tc_out (sa_tcp s') = tc_out (sa_tcp s) @ map Send (rs @ ns)" "board_holes B = map tp_seqno rs @ hs"
    "ns \<noteq> [] \<longrightarrow> hs = []" "\<forall>p\<in>set (rs @ ns). tp_reason p = reason \<and> tp_seqno p \<le> sack_edge c s"
    "sa_pipe s' = sa_pipe s + int (length (rs @ ns))" "rs @ ns \<noteq> [] \<longrightarrow> sa_pipe s' \<le> trunc (tc_cwnd (sa_tcp s))"
    using b unfolding sack_burst_def by blast+
  have N: "\<forall>p\<in>set ns. tc_t_seqno (sa_tcp s) \<le> tp_seqno p \<and> tp_seqno p < tc_curseq (sa_tcp s)"
    using b burst_sorted(3) [OF b] unfolding sack_burst_def by blast
  have M: "mb \<noteq> 0 \<longrightarrow> int (length (rs @ ns)) \<le> mb" using m(1) assms(4) by auto
  show ?thesis
    by (rule exI [of _ s'], rule exI [of _ rs], rule exI [of _ ns], rule exI [of _ hs])
      (intro conjI r B N M stop burst_sorted [OF b])
qed


text \<open>Fast recovery begins.\<close>

lemma sack_action_effect:
  assumes k: "can_send (sc_tcp c) (sa_tcp s)" and sd: "standard_decrease (sc_tcp c) (sa_tcp s)"
    and o: "sack_outstanding c (sa_tcp s) = Ok n" "\<not> sc_oldCode c" and q: "tc_qs_window (sa_tcp s) = 0"
    and le: "tc_last_ack (sa_tcp s) + 1 \<le> tc_maxseq (sa_tcp s)"
  shows "\<exists>s' p. sack_action c now s = Inr s' \<and> can_send (sc_tcp c) (sa_tcp s') \<and>
    tc_out (sa_tcp s') = tc_out (sa_tcp s) @ [Send p] \<and> tp_seqno p = tc_last_ack (sa_tcp s) + 1 \<and> tp_reason p = TCP_REASON_DUPACK \<and>
    tc_ssthresh (sa_tcp s') = max 2 (trunc (slowdown_halfwin (sc_tcp c) (sa_tcp s))) \<and>
    tc_cwnd (sa_tcp s') = slowdown_halfwin (sc_tcp c) (sa_tcp s) \<and> tc_recover (sa_tcp s') = tc_maxseq (sa_tcp s) \<and>
    tc_t_seqno (sa_tcp s') = tc_t_seqno (sa_tcp s) \<and> tc_maxseq (sa_tcp s) \<le> tc_maxseq (sa_tcp s') \<and>
    tc_qs_approved (sa_tcp s') = tc_qs_approved (sa_tcp s) \<and> tc_frto (sa_tcp s') = 0 \<and>
    tc_dupacks (sa_tcp s') = tc_dupacks (sa_tcp s) \<and> sa_fastrecov s' \<and> sa_pipe s' = n \<and>
    sa_scb s' = rb_MarkRetran (tc_highest_ack (sa_tcp s) + 1) (sa_scb s)"
proof -
  let ?k = "sc_tcp c"
  define t where "t = (sa_tcp s)\<lparr>tc_recover := tc_maxseq (sa_tcp s)\<rparr>"
  have t: "can_send ?k t" using k by (simp add: t_def can_send_def rto_ok_def)
  have "sack_outstanding c t = sack_outstanding c (sa_tcp s)" by (simp add: t_def sack_outstanding_def)
  then have on: "sack_outstanding c t = Ok n" using o(1) by simp
  obtain w b rt rv rx us where r: "reset_rtx_timer ?k now True False t = Inr w"
    and w: "w = t\<lparr>tc_use_rtt := us, tc_t_backoff := b, tc_t_rttvar := rv, tc_t_srtt := rt, tc_rtx := rx,
           tc_t_seqno := if True then tc_t_seqno t else tc_highest_ack t + 1, tc_rtt_active := False\<rparr>"
    and b: "1 \<le> b"
    using reset_rtx_timer_returns [OF t, of now True False] by blast
  define v where "v = w\<lparr>tc_last_cwnd_action := CWND_ACTION_DUPACK\<rparr>"
  have sv: "standard_decrease ?k v" using sd by (simp add: v_def w t_def standard_decrease_def)
  have hw: "slowdown_halfwin ?k v = slowdown_halfwin ?k (sa_tcp s)"
    by (rule halfwin_cong) (use sd in \<open>simp_all add: v_def w t_def standard_decrease_def\<close>)
  define u where "u = slowdown ?k {CLOSE_SSTHRESH_HALF, CLOSE_CWND_HALF} v"
  have u: "tc_ssthresh u = max 2 (trunc (slowdown_halfwin ?k (sa_tcp s)))" "tc_cwnd u = slowdown_halfwin ?k (sa_tcp s)"
    using slowdown_ssthresh_half [OF sv] slowdown_cwnd_half [OF sv] by (simp_all add: u_def hw)
  have ku: "can_send ?k u" using k b by (simp add: u_def slowdown_def v_def w t_def can_send_def rto_ok_def Let_def)
  have us: "tc_last_ack u = tc_last_ack (sa_tcp s)" "tc_out u = tc_out (sa_tcp s)" "tc_maxseq u = tc_maxseq (sa_tcp s)"
    "tc_recover u = tc_maxseq (sa_tcp s)" "tc_t_seqno u = tc_t_seqno (sa_tcp s)" "tc_frto u = 0"
    "tc_dupacks u = tc_dupacks (sa_tcp s)" "tc_qs_approved u = tc_qs_approved (sa_tcp s)"
    using sd by (simp_all add: u_def slowdown_def v_def w t_def standard_decrease_def Let_def)
  obtain x where x: "tcp_output ?k now (tc_last_ack u + 1) TCP_REASON_DUPACK u = Inr x" "can_send ?k x"
    using tcp_output_returns [OF ku] by blast
  have mc: "cf_max_connects ?k \<le> 0" using k by (simp add: can_send_def)
  have "tc_last_ack u + 1 < tc_curseq u \<or> tc_last_ack u + 1 \<le> tc_maxseq u" using le us by simp
  note xs = tcp_output_sends [OF x(1) mc this]
  then obtain p where p: "tc_out x = tc_out (sa_tcp s) @ [Send p]" "tp_seqno p = tc_last_ack (sa_tcp s) + 1"
    "tp_reason p = TCP_REASON_DUPACK"
    using tcp_output_sends(1) [OF x(1) mc] us by auto
  define s' where "s' = s\<lparr>sa_tcp := x, sa_pipe := n, sa_fastrecov := True,
    sa_scb := rb_MarkRetran (tc_highest_ack (sa_tcp s) + 1) (sa_scb s)\<rparr>"
  have hi: "tc_highest_ack w = tc_highest_ack (sa_tcp s)" "tc_qs_window w = 0" using q by (simp_all add: w t_def)
  have l: "lossQuickStart ?k now w = Ok (False, w)" using hi(2) by (simp add: lossQuickStart_def)
  have lw: "tc_last_ack w = tc_last_ack u" by (simp add: u_def v_def)
  have "sack_action c now s = Ok s'"
    using o(2) on r
    by (simp add: sack_action_def on_tcp_def run_tcp_def sack_recover_def l hi(1) lw Let_def
        t_def [symmetric] v_def [symmetric] u_def [symmetric] x(1) s'_def)
  then show ?thesis
    using x(2) p u us xs output_keeps [OF x(1) mc]
    by (intro exI [of _ s'] exI [of _ p]) (simp add: s'_def same_window_def)
qed


text \<open>C9: The duplicate acknowledgement that makes \<open>numdupacks\<close> of them, and that selectively acknowledges something
  new, begins fast recovery: exactly the first missing segment is sent again, the threshold and the window become half
  the window, \<open>recover_\<close> is the highest segment sent, \<open>pipe_\<close> counts the segments outstanding less those that
  the duplicate acknowledgements report as received, and the scoreboard holds what the
  acknowledgement reported with the first segment marked as sent again. The state is one in which
  \<open>send_much\<close> fills the window with missing segments.\<close>

theorem sack_recovery_begins:
  assumes "can_send (sc_tcp c) (sa_tcp s)" "standard_decrease (sc_tcp c) (sa_tcp s)" "\<not> sc_oldCode c"
    and "\<not> sa_fastrecov s" "\<not> sa_timeout s" "\<not> tc_qs_approved (sa_tcp s)" "\<not> tc_qs_requested (sa_tcp s)"
    and "tc_qs_window (sa_tcp s) = 0" "tc_lastreset (sa_tcp s) \<le> ta_ts p" "\<not> (ta_ecnecho p \<and> cf_ecn (sc_tcp c))"
    and "ta_seqno p = tc_last_ack (sa_tcp s)" "tc_highest_ack (sa_tcp s) = tc_last_ack (sa_tcp s)"
    and "rb_repr B (sa_scb s)" "update_ok (tc_last_ack (sa_tcp s)) bs B" "board_changed (tc_last_ack (sa_tcp s)) bs B" "bs \<noteq> []"
    and "numdupacks (sc_tcp c) (tc_cwnd (sa_tcp s)) = Ok n" "tc_dupacks (sa_tcp s) + 1 = n" "0 < n"
    and "tc_recover (sa_tcp s) < tc_last_ack (sa_tcp s)" "tc_last_ack (sa_tcp s) < tc_maxseq (sa_tcp s)"
    and "0 < tc_t_seqno (sa_tcp s)" "\<forall>x \<in> bd_sacked (board_update (tc_last_ack (sa_tcp s)) bs B). x \<le> tc_maxseq (sa_tcp s)"
  shows "\<exists>s' q. sack_recv c now p bs s = Inr s' \<and> tc_out (sa_tcp s') = tc_out (sa_tcp s) @ [Send q] \<and>
    tp_seqno q = tc_last_ack (sa_tcp s) + 1 \<and> tp_reason q = TCP_REASON_DUPACK \<and>
    tc_ssthresh (sa_tcp s') = max 2 (trunc (slowdown_halfwin (sc_tcp c) (sa_tcp s))) \<and>
    tc_cwnd (sa_tcp s') = slowdown_halfwin (sc_tcp c) (sa_tcp s) \<and> tc_recover (sa_tcp s') = tc_maxseq (sa_tcp s) \<and>
    sa_pipe s' = tc_maxseq (sa_tcp s) - tc_last_ack (sa_tcp s) -
      (if cf_singledup (sc_tcp c) \<and> sc_LimTransmitFix c then 1 else n) \<and>
    sack_ready c s' (board_mark (tc_last_ack (sa_tcp s) + 1) (board_update (tc_last_ack (sa_tcp s)) bs B))"
proof -
  let ?k = "sc_tcp c" and ?a = "tc_last_ack (sa_tcp s)"
  let ?B = "board_update ?a bs B"
  define s1 where "s1 = on_tcp (\<lambda>t. t\<lparr>tc_ct := (tc_ct t)\<lparr>ct_nackpack := ct_nackpack (tc_ct t) + 1\<rparr>\<rparr>) s"
  obtain b where b: "rb_UpdateScoreBoard ?a bs (sa_scb s) = Ok b" "rb_changed b" "rb_repr ?B b"
    using rb_upd_ok [OF assms(13,14)] assms(15) by blast
  define s2 where "s2 = on_tcp (\<lambda>t. t\<lparr>tc_dupacks := tc_dupacks t + 1\<rparr>) (s1\<lparr>sa_scb := b\<rparr>)"
  have s1: "sa_scb s1 = sa_scb s" "tc_highest_ack (sa_tcp s1) = ?a" "tc_last_ack (sa_tcp s1) = ?a"
    "sa_fastrecov s1 = sa_fastrecov s" "sa_timeout s1 = sa_timeout s"
    using assms(12) by (simp_all add: s1_def on_tcp_def)
  have s2: "can_send ?k (sa_tcp s2)" "standard_decrease ?k (sa_tcp s2)" "tc_qs_window (sa_tcp s2) = 0"
    "tc_last_ack (sa_tcp s2) + 1 \<le> tc_maxseq (sa_tcp s2)" "tc_dupacks (sa_tcp s2) = n" "tc_recover (sa_tcp s2) < tc_highest_ack (sa_tcp s2)"
    "numdupacks ?k (tc_cwnd (sa_tcp s2)) = Ok n" "sa_scb s2 = b" "tc_highest_ack (sa_tcp s2) = ?a" "tc_last_ack (sa_tcp s2) = ?a"
    "tc_maxseq (sa_tcp s2) = tc_maxseq (sa_tcp s)" "tc_out (sa_tcp s2) = tc_out (sa_tcp s)" "tc_t_seqno (sa_tcp s2) = tc_t_seqno (sa_tcp s)"
    "tc_qs_approved (sa_tcp s2) = tc_qs_approved (sa_tcp s)"
    using assms by (simp_all add: s2_def s1_def on_tcp_def can_send_def rto_ok_def standard_decrease_def)
  have hw: "slowdown_halfwin ?k (sa_tcp s2) = slowdown_halfwin ?k (sa_tcp s)"
    by (rule halfwin_cong) (use assms(2) in \<open>simp_all add: s2_def s1_def on_tcp_def standard_decrease_def\<close>)
  define m where "m = tc_maxseq (sa_tcp s) - ?a - (if cf_singledup ?k \<and> sc_LimTransmitFix c then 1 else n)"
  have on: "sack_outstanding c (sa_tcp s2) = Ok m" using s2(7,9,11) by (simp add: sack_outstanding_def m_def)
  obtain s3 q where s3: "sack_action c now s2 = Inr s3" "can_send ?k (sa_tcp s3)"
    "tc_out (sa_tcp s3) = tc_out (sa_tcp s) @ [Send q]" "tp_seqno q = ?a + 1" "tp_reason q = TCP_REASON_DUPACK"
    "tc_ssthresh (sa_tcp s3) = max 2 (trunc (slowdown_halfwin ?k (sa_tcp s)))" "tc_cwnd (sa_tcp s3) = slowdown_halfwin ?k (sa_tcp s)"
    "tc_recover (sa_tcp s3) = tc_maxseq (sa_tcp s)" "tc_t_seqno (sa_tcp s3) = tc_t_seqno (sa_tcp s)"
    "tc_maxseq (sa_tcp s) \<le> tc_maxseq (sa_tcp s3)" "\<not> tc_qs_approved (sa_tcp s3)" "tc_frto (sa_tcp s3) = 0"
    "tc_dupacks (sa_tcp s3) = n" "sa_fastrecov s3" "sa_pipe s3 = m" "sa_scb s3 = rb_MarkRetran (?a + 1) b"
    using sack_action_effect [OF s2(1,2) on assms(3) s2(3,4), of now] assms(6) unfolding s2 hw by blast
  have d: "sack_dupack_action c now s2 = Ok s3" using s2(6) s3(1) by (simp add: sack_dupack_action_def)
  have f: "sack_frto c bs s3 = s3" using s3(12) by (simp add: sack_frto_def)
  have up: "sack_update bs s1 = Ok (s1\<lparr>sa_scb := b\<rparr>)" by (simp add: sack_update_def s1(1,2) b(1))
  have "sack_dupack c now bs s1 = Ok s3"
    unfolding sack_dupack_def up res_bind.simps Let_def s2_def [symmetric] s2(5,7) d using b(2) f by simp
  then have n: "sack_normal c now p bs s1 = Ok s3"
    using assms(5,11) by (simp add: sack_normal_def s1)
  have q1: "run_tcp (recv_quickstart ?k now p) s = Ok s"
    using assms(6,7) by (simp add: run_tcp_def recv_quickstart_def)
  have r: "sack_recv c now p bs s = Inr s3"
    unfolding sack_recv_def Let_def q1 res_bind.simps s1_def [symmetric]
    using assms(4,9,10,19) s3(13) by (auto simp: n s1(4))
  obtain l e bs' where bs: "bs = (l, e) # bs'" using assms(16) by (metis list.exhaust surj_pair)
  then have "l < e" using assms(14) by (simp add: update_ok_def)
  then have l: "l \<in> bd_sacked ?B" using bs by (simp add: board_update_def)
  have B: "board_ok ?B" "bd_una ?B = ?a + 1" using b(3) by (auto dest: repr_board_ok simp: board_update_def)
  have fin: "finite (bd_sacked ?B)" and above: "\<forall>x \<in> bd_sacked ?B. bd_una ?B < x" using B(1) by (simp_all add: board_ok_def)
  have "Max (bd_sacked ?B) \<in> bd_sacked ?B" using fin l by (intro Max_in) auto
  then have "bd_una ?B < Max (bd_sacked ?B)" "bd_una ?B \<notin> bd_sacked ?B" using above by blast+
  then have "mark_ok (bd_una ?B) ?B" using l by (auto simp: mark_ok_def)
  then have mk: "mark_ok (?a + 1) ?B" by (simp only: B(2))
  have "0 \<le> ?a" using assms(14,16) by (simp add: update_ok_def)
  then have "0 < tc_maxseq (sa_tcp s)" using assms(21) by simp
  then have "sack_ready c s3 (board_mark (?a + 1) ?B)"
    using s3 rb_mark_ok [OF b(3) mk] assms(20-23) by (auto simp: sack_ready_def board_mark_def)
  then show ?thesis using r s3 unfolding m_def by blast
qed


section \<open>Witnesses\<close>

definition sack_defaults :: sack_conf where
  "sack_defaults = \<lparr>sc_tcp = tcp_defaults TahoeTcp, sc_partial_ack = False, sc_oldCode = False, sc_LimTransmitFix = False\<rparr>"

text \<open>Segments 2 to 9 are outstanding, and two duplicate acknowledgements have arrived.\<close>

definition sack_busy :: sack where
  "sack_busy = \<lparr>sa_tcp = tcp_busy, sa_scb = rb_new, sa_timeout = False, sa_fastrecov = False, sa_pipe = -1,
     sa_next_pkt = 0, sa_firstpartial = False\<rparr>"

lemma sack_defaults_facts:
  "sc_tcp sack_defaults = tcp_defaults TahoeTcp" "\<not> sc_oldCode sack_defaults" "\<not> sc_LimTransmitFix sack_defaults"
  by (simp_all add: sack_defaults_def)

lemma demo_board:
  "update_ok 1 [(4, 6)] board_new" "board_changed 1 [(4, 6)] board_new"
  "board_update 1 [(4, 6)] board_new = \<lparr>bd_una = 2, bd_sacked = {4, 5}, bd_high = -1\<rparr>"
proof -
  have "{4..<6::int} = {4, 5}" by auto
  then show "update_ok 1 [(4, 6)] board_new" "board_changed 1 [(4, 6)] board_new"
    "board_update 1 [(4, 6)] board_new = \<lparr>bd_una = 2, bd_sacked = {4, 5}, bd_high = -1\<rparr>"
    by (auto simp: update_ok_def board_changed_def board_update_def board_new_def)
qed

lemma demo_mark: "board_mark 2 \<lparr>bd_una = 2, bd_sacked = {4, 5}, bd_high = -1\<rparr> = \<lparr>bd_una = 2, bd_sacked = {4, 5}, bd_high = 3\<rparr>"
  by (simp add: board_mark_def)

lemma sack_recovery_begins_witness:
  "\<exists>s' q. sack_recv sack_defaults 1 tcp_dupack [(4, 6)] sack_busy = Inr s' \<and> tc_out (sa_tcp s') = [Send q] \<and> tp_seqno q = 2 \<and>
     tc_cwnd (sa_tcp s') = 4 \<and> sa_pipe s' = 5 \<and> sack_ready sack_defaults s' \<lparr>bd_una = 2, bd_sacked = {4, 5}, bd_high = 3\<rparr>"
proof -
  have t: "sa_tcp sack_busy = tcp_busy" "\<not> sa_fastrecov sack_busy" "\<not> sa_timeout sack_busy" "sa_scb sack_busy = rb_new"
    by (simp_all add: sack_busy_def)
  have b: "tc_qs_window tcp_busy = 0" "tc_t_seqno tcp_busy = 10" "numdupacks (tcp_defaults TahoeTcp) (tc_cwnd tcp_busy) = Ok 3"
    by (simp_all add: tcp_busy_def tcp_start_def numdupacks_def tcp_defaults_def c_div_def trunc_def)
  have h: "slowdown_halfwin (tcp_defaults TahoeTcp) tcp_busy = 4"
    by (simp add: slowdown_halfwin_def windowd_def tcp_defaults_def tcp_busy_def tcp_start_def)
  have d: "standard_decrease (tcp_defaults TahoeTcp) tcp_busy"
    by (simp add: standard_decrease_def tcp_defaults_def tcp_busy_def tcp_start_def)
  have p: "ta_ts tcp_dupack = 1" "ta_seqno tcp_dupack = 1" by (simp_all add: tcp_dupack_def)
  show ?thesis
    using sack_recovery_begins [where c = sack_defaults and s = sack_busy and p = tcp_dupack and bs = "[(4, 6)]" and B = board_new
        and n = 3 and now = 1, unfolded t sack_defaults_facts busy_facts p b h demo_board(3)]
    by (simp add: d rb_new_repr demo_board(1,2) demo_mark defaults_facts t busy_facts sack_defaults_facts) blast
qed

definition sack_halfway :: "scoreboard_rq \<Rightarrow> sack" where
  "sack_halfway b = sack_busy\<lparr>sa_tcp := tcp_busy\<lparr>tc_recover := 9\<rparr>, sa_scb := b, sa_fastrecov := True, sa_pipe := 5\<rparr>"

lemma sack_recovery_sends_witness:
  "\<exists>b s' p ps. sack_ready sack_defaults (sack_halfway b) \<lparr>bd_una = 2, bd_sacked = {4, 5}, bd_high = 3\<rparr> \<and>
     sack_send_much sack_defaults 1 False REASON_NONE 0 (sack_halfway b) = Inr s' \<and>
     tc_out (sa_tcp s') = Send p # map Send ps \<and> tp_seqno p = 3 \<and> length ps \<le> 2 \<and> sa_pipe s' \<le> 8"
proof -
  let ?B = "\<lparr>bd_una = 2, bd_sacked = {4, 5}, bd_high = 3\<rparr>"
  obtain b where b: "rb_repr \<lparr>bd_una = 2, bd_sacked = {4, 5}, bd_high = -1\<rparr> b"
    using rb_upd_ok [OF rb_new_repr demo_board(1)] demo_board(3) by auto
  have "mark_ok 2 \<lparr>bd_una = 2, bd_sacked = {4, 5}, bd_high = -1\<rparr>" by (simp add: mark_ok_def)
  then have r: "rb_repr ?B (rb_MarkRetran 2 b)" using rb_mark_ok [OF b] demo_mark by metis
  define s where "s = sack_halfway (rb_MarkRetran 2 b)"
  have k: "can_send (tcp_defaults TahoeTcp) (tcp_busy\<lparr>tc_recover := 9\<rparr>)"
    using can_send_busy [of TahoeTcp] by (simp add: can_send_def rto_ok_def)
  have s: "sack_ready sack_defaults s ?B"
    using r k by (simp add: sack_ready_def s_def sack_halfway_def sack_defaults_facts)
      (simp add: tcp_busy_def tcp_start_def)
  have t: "tc_cwnd (sa_tcp s) = 8" "tc_out (sa_tcp s) = []" "tc_curseq (sa_tcp s) = 100" "tc_last_ack (sa_tcp s) = 1"
    "sack_edge sack_defaults s = 21" "sa_pipe s = 5" "st_status (tc_delsnd (sa_tcp s)) \<noteq> TIMER_PENDING"
    by (simp_all add: s_def sack_halfway_def sack_edge_def sack_defaults_facts defaults_facts busy_facts trunc_def)
      (simp_all add: tcp_busy_def tcp_start_def)
  have H: "board_holes ?B = [3]" by (simp add: board_holes_def upto.simps)
  have P: "cf_overhead (sc_tcp sack_defaults) = 0 \<or> False" "False \<or> st_status (tc_delsnd (sa_tcp s)) \<noteq> TIMER_PENDING"
    "(0::int) \<le> 0"
    using t(7) by (simp_all add: sack_defaults_facts defaults_facts)
  have tr: "trunc 8 = 8" by (simp add: trunc_def)
  obtain s' rs ns hs where c: "sack_send_much sack_defaults 1 False REASON_NONE 0 s = Inr s'"
    "tc_out (sa_tcp s') = map Send (rs @ ns)" "[3] = map tp_seqno rs @ hs" "ns \<noteq> [] \<longrightarrow> hs = []"
    "sa_pipe s' = 5 + int (length (rs @ ns))" "rs @ ns \<noteq> [] \<longrightarrow> sa_pipe s' \<le> 8"
    "8 \<le> sa_pipe s' \<or> (100::int) \<le> 1 + 1 \<or> sack_pick 21 hs (tc_t_seqno (sa_tcp s')) 100 = None"
    using sack_recovery_sends [OF s P, of 1 REASON_NONE] unfolding t(1-6) H tr append_Nil by blast
  have "rs \<noteq> []"
  proof
    assume "rs = []"
    then show False using c(3-5,7) by (auto simp: sack_pick_def)
  qed
  then obtain p where "rs = [p]" "tp_seqno p = 3" using c(3) by (cases rs) auto
  moreover have "sa_pipe s' \<le> 8" using c(6) \<open>rs \<noteq> []\<close> by simp
  ultimately show ?thesis using s c(1,2,5) unfolding s_def
    by (intro exI [of _ "rb_MarkRetran 2 b"] exI [of _ s'] exI [of _ p] exI [of _ ns]) simp
qed

end
