(* ===== verification/Spec2Isabelle.thy ===== *)
theory Spec2Isabelle
  imports List_Scheduler Heap_Scheduler Splay_Scheduler Calendar_Scheduler Scheduler Timer Packet_Queue Queue_Base Drop_Tail
    Red Red_Correct Red_Probability Own_Red Weighted_Round_Robin Delayed_Ack Rng_Correct Routing_Correct Reassembly_Correct
    Tcp_Loss Sack_Recovery
begin

text \<open>
  This library verifies the parts of the network simulator in
  \<open>src/ns-allinone-2.35/ns-2.35\<close> (ns-2.35 with the queue disciplines of this repository)
  that decide what a simulation computes: the event schedulers and timers, the packet
  queues, and the queue disciplines that a link calls.

  \<^bold>\<open>How the parts interact.\<close> Every component schedules events with the scheduler, which
  hands them back in time order to the handlers. A link owns a queue (class \<open>Queue\<close>):
  \<open>recv\<close> passes an arriving packet to the discipline's \<open>enque\<close> and, when the link is free, calls
  \<open>deque\<close> and sends; when the link has sent a packet it calls \<open>resume\<close>. Time is a real
  number; the rounding of C++ doubles is modelled only for the random number generator.

  \<^bold>\<open>Theories.\<close>
  \<^item> \<open>Prelude\<close>: failures as values (\<open>abort\<close>, \<open>assert\<close>, null pointers, array bounds, \<open>exit\<close>, loops
    without end), the wrap-around of machine integers, division of C, lemmas on lists.
  \<^item> \<open>Event_Queue\<close>: events and the interface that schedulers share (locale \<open>event_queue\<close>): insert,
    cancel, deque refine a list in order of insertion from which the earliest event is taken
    first. \<open>Scheduler\<close> models \<open>schedule\<close>, \<open>dispatch\<close> and \<open>run\<close> of \<open>common/scheduler.cc\<close> over any
    implementation of it, \<open>Timer\<close> the timers of \<open>common/timer-handler.cc\<close>.
  \<^item> \<open>List_Scheduler\<close>, \<open>Binary_Heap\<close> and \<open>Heap_Scheduler\<close> (\<open>common/heap.h\<close>),
    \<open>Splay_Scheduler\<close> (\<open>common/splay-scheduler.cc\<close>),
    \<open>Calendar_Queue\<close> and \<open>Calendar_Scheduler\<close> (\<open>common/scheduler.cc\<close>): the schedulers, each
    with an interpretation of \<open>event_queue\<close>. The list of the list scheduler is linear, the splay
    tree a datatype whose rotations are those of the pointer code.
  \<^item> \<open>Packet_Queue\<close>: \<open>PacketQueue\<close> of \<open>queue/queue.h\<close> with its \<open>head_\<close>, \<open>tail_\<close> and \<open>next_\<close>
    pointers in an explicit store, refined to a list of packets; the disciplines build on the list.
  \<^item> \<open>Queue_Base\<close>: \<open>Queue\<close> of \<open>queue/queue.cc\<close>, the link that calls it as a step relation, and
    the interface \<open>queue_discipline\<close> (no step fails, no packet is lost or invented, a queue that
    holds packets delivers one) with \<open>fifo_discipline\<close> for those that keep the order.
  \<^item> \<open>Drop_Tail\<close> (\<open>queue/drop-tail.cc\<close>, \<open>drop-tailT.cc\<close>, \<open>tque.cc\<close>), \<open>Red\<close> with \<open>Red_Correct\<close>
    and \<open>Red_Probability\<close> (\<open>queue/red.cc\<close>), \<open>Deficit_Round_Robin\<close> (\<open>queue/drr.cc\<close>),
    \<open>Weighted_Round_Robin\<close> (\<open>queue/dwrr.cc\<close>),
    \<open>Own_Red\<close> (\<open>queue/myred.cc\<close>, \<open>ared.cc\<close>, \<open>pared.cc\<close>; locale \<open>own_red\<close> extends the interface by the
    commands and counters):
    the disciplines, each with the interpretation for its \<open>enque\<close> and \<open>deque\<close> and the lemmas on
    what it adds: limits, drop probabilities, averages, fairness.

  \<^item> \<open>Tcp_Sink\<close> with \<open>Tcp_Sink_Correct\<close>: the TCP receiver of \<open>tcp/tcp-sink.cc\<close> with its ring
    buffer and selective acknowledgements, against the set of the segments received;
    \<open>Delayed_Ack\<close>: the receiver that delays acknowledgements, over \<open>Timer\<close>.
  \<^item> \<open>Rounding\<close>: doubles and rounding to a nearest one (\<open>nearest\<close>), with the instance \<open>dbl\<close>.
  \<^item> \<open>Rng\<close> with \<open>Rng_Correct\<close>: the random number generator of \<open>tools/rng.cc\<close>, with the rounding of
    operations on doubles as an argument \<open>fl\<close>; of it \<open>ieee fl\<close> is assumed for the states and \<open>nearest fl\<close>
    for the random numbers.
  \<^item> \<open>Routing\<close> with \<open>Routing_Correct\<close>: the matrix of link costs and the shortest routes of \<open>routing/route.cc\<close>,
    against paths of links and their costs.
  \<^item> \<open>Reassembly\<close> with \<open>Reassembly_Correct\<close>: the reassembly queue of \<open>tcp/rq.cc\<close>, a list and a stack
    of the same blocks, against the set of the bytes received.
  \<^item> \<open>Tcp_Sender\<close> and \<open>Tcp_Agent\<close>: the TCP senders Tahoe, Reno and NewReno (\<open>tcp/tcp.cc\<close>,
    \<open>tcp-reno.cc\<close>, \<open>tcp-newreno.cc\<close>). \<open>Tcp_Sender\<close> holds the state, the estimate of the round-trip
    time, the window algorithms and \<open>output\<close>; \<open>Tcp_Agent\<close> holds \<open>send_much\<close>, \<open>recv\<close>,
    \<open>timeout\<close> and the calls of the application. \<open>Tcp_Sender_Correct\<close> shows the bounds of the
    estimate and the laws of the window, \<open>Tcp_Agent_Correct\<close> the invariant of every reachable connection,
    \<open>Tcp_Loss\<close> what is sent, and the reaction to timeouts and duplicate acknowledgements. The virtual
    methods of the three classes are one definition that tests \<open>cf_class\<close>; a timer is its status and
    its time; packets and calls of the application are appended to \<open>tc_out\<close>. The difference in
    \<open>rtt_update\<close> is a 16-bit integer. The invariant is for connections without the options
    \<open>QOption_\<close> and F-RTO (\<open>conn_conf\<close>).
  \<^item> \<open>Scoreboard\<close> and \<open>Scoreboard_Rq\<close>: the scoreboards of SACK senders, an array that grows
    (\<open>tcp/scoreboard.cc\<close>) and a reassembly queue (\<open>tcp/scoreboard-rq.cc\<close>). \<open>Sack_Board\<close> has the abstract
    scoreboard and the interface (locale \<open>sack_board\<close>), which \<open>Scoreboard_Correct\<close> and
    \<open>Scoreboard_Rq\<close> interpret on the two, for the sequences of \<open>ops_ok\<close>; three sequences outside are
    evaluated on which the two give different answers.
  \<^item> \<open>Sack_Sender\<close>: the SACK sender (\<open>tcp/tcp-sack1.cc\<close>), whose state is that of \<open>TcpAgent\<close> with a
    scoreboard; the functions that \<open>TcpAgent\<close> calls virtually are given again for it. \<open>Sack_Recovery\<close>
    shows what it sends in fast recovery, in terms of the abstract scoreboard.

  \<^bold>\<open>Correspondence.\<close> An object is a record with the fields of its class; a method is a
  definition that returns the new record, with \<open>Fail\<close> for each abort, failed assertion, null
  pointer, index out of bounds or call of \<open>exit\<close>. A circular list of flows is the list of their
  indexes from the current one on. A loop that need not end is a \<open>partial_function\<close> in
  \<open>option\<close>, whose \<open>None\<close> is reported as \<open>No_Return\<close>; each property that a loop ends proves that
  the result is not \<open>None\<close>. Loops with a decreasing measure are total functions. No
  definition uses fuel. Random draws and \<open>expire\<close>, handlers and other virtual methods are
  arguments of the definitions.

  \<^bold>\<open>Not modelled.\<close> The Tcl bindings and the parsing of \<open>command\<close>, tracing and output, the wireless
  layers, and the components the manifest lists as not modelled. Integer counters are
  unbounded except where a property is about their wrap-around.
\<close>

section \<open>The schedulers\<close>

text \<open>
  C1: on every valid sequence of insertions, cancellations and deques the list, heap and
  splay schedulers return the same events, those of the abstract queue: the earliest
  pending event, the first inserted one among those of equal time. For the heap the bound
  is the range of its 32-bit insertion counter.
\<close>

theorem schedulers_equivalent:
  assumes "valid_ops ops []" "count_inserts ops < 2 ^ 32"
  shows "eq_run ls_insert ls_deque ls_can ops [] = spec_run ops [] \<and>
    eq_run hs_insert hs_deque hs_can ops hs_new = spec_run ops [] \<and>
    eq_run sp_insert sp_deque sp_can ops sp_new = spec_run ops []"
proof (intro conjI)
  have "hs_room hs_new (count_inserts ops)"
    using assms(2) by (simp add: hs_room_def hs_new_def heap_new_def)
  then show "eq_run hs_insert hs_deque hs_can ops hs_new = spec_run ops []"
    by (rule hsq.run_refines [OF hsq.repr_empty _ assms(1)]) simp_all
qed (rule lsq.run_refines [OF lsq.repr_empty _ assms(1)] spq.run_refines [OF spq.repr_empty _ assms(1)], simp_all)+

definition demo_event :: "nat \<Rightarrow> real \<Rightarrow> event" where
  "demo_event n t = \<lparr>ev_addr = n, ev_handler = 1, ev_time = t, ev_uid = int n + 1\<rparr>"

definition demo_ops :: "eq_op list" where
  "demo_ops = [Insert (demo_event 0 5), Insert (demo_event 1 2), Insert (demo_event 2 2),
     Insert (demo_event 3 7), Deque, Cancel (demo_event 0 5), Deque, Deque, Deque]"

lemmas demo_simps = demo_event_def demo_ops_def

theorem schedulers_equivalent_witness:
  "eq_run hs_insert hs_deque hs_can demo_ops hs_new =
     [Some (demo_event 1 2), Some (demo_event 2 2), Some (demo_event 3 7), None]"
  using schedulers_equivalent [of demo_ops] by (simp add: demo_simps)

text \<open>
  C2: the outcome of a simulation (network state, clock, halted or not, next identifier)
  does not depend on the scheduler queue (list, heap, splay tree or calendar), the program never aborts and the clock never
  goes below zero, when the handlers schedule fresh events with a delay that is not
  negative and cancel pending events only.
\<close>

theorem simulation_queue_independent:
  assumes "bound \<le> 2 ^ 32" "acts_valid bound init (sched_new [])"
    and "sched_perform abs_insert abs_cancel init (sched_new []) = Ok a"
    and "run_valid bound hdl n (w, a)"
  shows "\<exists>sl sh sp sc. sched_perform ls_insert ls_can init (sched_new []) = Ok sl \<and>
    sched_perform hs_insert hs_can init (sched_new hs_new) = Ok sh \<and>
    sched_perform sp_insert sp_can init (sched_new sp_new) = Ok sp \<and>
    sched_perform cal_ins cal_can init (sched_new (cal_new adjust min_width c0)) = Ok sc \<and>
    run_outcome (sched_run ls_insert ls_deque ls_can hdl n (w, sl)) =
      run_outcome (sched_run hs_insert hs_deque hs_can hdl n (w, sh)) \<and>
    run_outcome (sched_run sp_insert sp_deque sp_can hdl n (w, sp)) =
      run_outcome (sched_run hs_insert hs_deque hs_can hdl n (w, sh)) \<and>
    run_outcome (sched_run cal_ins cal_deq cal_can hdl n (w, sc)) =
      run_outcome (sched_run hs_insert hs_deque hs_can hdl n (w, sh)) \<and>
    sched_run hs_insert hs_deque hs_can hdl n (w, sh) \<noteq> Some (Fail err)"
proof -
  have b: "bound < 2 ^ 63" using assms(1) by simp
  have room: "hs_room hs_new (nat (bound - 1))"
    using assms(1) by (simp add: hs_room_def hs_new_def heap_new_def)
  obtain sl where sl: "sched_perform ls_insert ls_can init (sched_new []) = Ok sl"
    "lsq.run_rel bound 0 (sched_run ls_insert ls_deque ls_can hdl n (w, sl))
       (sched_run abs_insert abs_deque abs_cancel hdl n (w, a))"
    using lsq.run_refines_abs [OF _ b assms(2-4)] by blast
  obtain sp where sp: "sched_perform sp_insert sp_can init (sched_new sp_new) = Ok sp"
    "spq.run_rel bound 0 (sched_run sp_insert sp_deque sp_can hdl n (w, sp))
       (sched_run abs_insert abs_deque abs_cancel hdl n (w, a))"
    using spq.run_refines_abs [OF _ b assms(2-4)] by blast
  obtain sh where sh: "sched_perform hs_insert hs_can init (sched_new hs_new) = Ok sh"
    "hsq.run_rel bound 0 (sched_run hs_insert hs_deque hs_can hdl n (w, sh))
       (sched_run abs_insert abs_deque abs_cancel hdl n (w, a))"
    using hsq.run_refines_abs [OF room b assms(2-4)] by blast
  obtain sc where sc: "sched_perform cal_ins cal_can init (sched_new (cal_new adjust min_width c0)) = Ok sc"
    "calq.run_rel bound 0 (sched_run cal_ins cal_deq cal_can hdl n (w, sc))
       (sched_run abs_insert abs_deque abs_cancel hdl n (w, a))"
    using calq.run_refines_abs [OF _ b assms(2-4)] by blast
  note lsq.run_rel_outcome [OF sl(2)] spq.run_rel_outcome [OF sp(2)] hsq.run_rel_outcome [OF sh(2)]
    calq.run_rel_outcome [OF sc(2)] hsq.run_rel_safe [OF sh(2)]
  with sl(1) sp(1) sh(1) sc(1) show ?thesis by simp
qed

definition demo_handler :: "nat handler" where
  "demo_handler t e w = (Suc w, if w < 2 then [Act_Schedule (Some 7) e 1] else [Act_Halt])"

definition demo_init :: "action list" where
  "demo_init = [Act_Schedule (Some 7) \<lparr>ev_addr = 4, ev_handler = 0, ev_time = 0, ev_uid = 0\<rparr> 5]"

theorem simulation_queue_independent_witness:
  "\<exists>sh. sched_perform hs_insert hs_can demo_init (sched_new hs_new) = Ok sh \<and>
    sched_run hs_insert hs_deque hs_can demo_handler 4 (0, sh) \<noteq> Some (Fail Abort)"
  using simulation_queue_independent [where bound = 9 and init = demo_init and hdl = demo_handler and n = 4
      and w = 0 and err = Abort and a = "projr (sched_perform abs_insert abs_cancel demo_init (sched_new []))"]
  by (auto simp: demo_init_def sched_new_def sched_schedule_def abs_insert_def abs_deque_def
      abs_cancel_def demo_handler_def Let_def ev_negate_uid_def numeral_eq_Suc)

text \<open>
  C26: the heap of \<open>common/heap.h\<close>: an insertion keeps the heap order, the array and the
  counters consistent and appends the new element to the insertion order; extraction
  returns the element of least key, the first inserted one among equal keys, and removes
  just this one.
\<close>

theorem heap_insert_extract:
  assumes "heap_wf h" "Suc (h_s_key h) < 2 ^ 32"
  shows "let g = heap_insert key v h in heap_wf g \<and>
    heap_seq g = heap_seq h @ [\<lparr>he_key = key, he_s_key = h_s_key h, he_elem = v\<rparr>] \<and>
    (\<exists>r \<in> set (heap_seq g). (\<forall>y \<in> set (heap_seq g). he_rank r \<le> he_rank y) \<and>
       fst (heap_extract_min g) = he_elem r \<and> heap_wf (snd (heap_extract_min g)) \<and>
       heap_seq (snd (heap_extract_min g)) = remove1 r (heap_seq g))"
proof -
  let ?g = "heap_insert key v h"
  note ins = heap_insert_correct [OF assms, of key v]
  then have "set (heap_content ?g) \<noteq> {}" using set_heap_seq [of ?g] by auto
  then have "0 < h_size ?g" by (auto simp: heap_content_def)
  with heap_extract_min_correct [of ?g] ins show ?thesis by (metis (no_types, lifting))
qed

theorem heap_insert_extract_witness:
  "heap_wf (heap_insert 3 (Some CHR ''a'') (heap_new 2))"
  using heap_insert_extract [of "heap_new 2" 3 "Some CHR ''a''"]
  by (simp add: heap_wf_new Let_def) (simp add: heap_new_def)

text \<open>
  C27: setting a timer, whatever its state, leaves exactly one event of it pending, at the
  current time plus the delay; cancelling it then removes just this event. Shown for the
  heap scheduler.
\<close>

theorem timer_resched_cancel:
  assumes "timer_inv hs_repr tm s xs" "hs_room (sc_queue s) 1" "sc_next_uid s < 2 ^ 63 - 1"
  shows "\<exists>tm1 s1 tm2 s2. timer_resched hs_insert hs_can d (tm, s) = Ok (tm1, s1) \<and>
    tm_status tm1 = TIMER_PENDING \<and> tm_event tm1 = timer_armed tm s d \<and>
    timer_inv hs_repr tm1 s1 (remove1 (tm_event tm) xs @ [timer_armed tm s d]) \<and>
    timer_cancel hs_can (tm1, s1) = Ok (tm2, s2) \<and> tm_status tm2 = TIMER_IDLE \<and>
    timer_inv hs_repr tm2 s2 (remove1 (tm_event tm) xs)"
proof -
  let ?e = "timer_armed tm s d" and ?ys = "remove1 (tm_event tm) xs"
  have room: "hs_room (sc_queue s) (Suc 0)" using assms(2) by simp
  obtain tm1 s1 where a: "timer_resched hs_insert hs_can d (tm, s) = Ok (tm1, s1)"
    "tm_status tm1 = TIMER_PENDING" "tm_event tm1 = ?e" "timer_inv hs_repr tm1 s1 (?ys @ [?e])"
    "hs_room (sc_queue s1) 0"
    using hsq.timer_resched_pending [OF assms(1) room assms(3), of d] by auto
  obtain tm2 s2 where b: "timer_cancel hs_can (tm1, s1) = Ok (tm2, s2)" "tm_status tm2 = TIMER_IDLE"
    "timer_inv hs_repr tm2 s2 (remove1 ?e (?ys @ [?e]))"
    using hsq.timer_cancel_idle [OF a(4,2,5)] a(3) by auto
  have "?e \<notin> set ?ys"
    using hsq.repr_distinct [of "sc_queue s1" "?ys @ [?e]"] a(4) by (auto simp: timer_inv_def)
  then have "remove1 ?e (?ys @ [?e]) = ?ys" by simp
  with a b show ?thesis by auto
qed

theorem timer_resched_cancel_witness:
  "\<exists>tm1 s1. timer_resched hs_insert hs_can 2 (timer_new 3 4, sched_new hs_new) = Ok (tm1, s1) \<and>
    tm_status tm1 = TIMER_PENDING \<and> ev_time (tm_event tm1) = 2"
proof -
  have "timer_inv hs_repr (timer_new 3 4) (sched_new hs_new) []"
    using hsq.repr_empty by (simp add: timer_inv_def timer_new_def sched_new_def)
  moreover have "hs_room (sc_queue (sched_new hs_new)) 1"
    by (simp add: hs_room_def hs_new_def heap_new_def sched_new_def)
  moreover have "sc_next_uid (sched_new hs_new) < 2 ^ 63 - 1" by (simp add: sched_new_def)
  ultimately obtain tm1 s1 where
    "timer_resched hs_insert hs_can 2 (timer_new 3 4, sched_new hs_new) = Ok (tm1, s1)"
    "tm_status tm1 = TIMER_PENDING" "tm_event tm1 = timer_armed (timer_new 3 4) (sched_new hs_new) 2"
    using timer_resched_cancel by blast
  then show ?thesis by (simp add: timer_armed_def sched_new_def)
qed

text \<open>
  the insertion counter of the heap has 32 bits. When it wraps around, of two events
  of the same time the one inserted last is delivered first.
\<close>

theorem hs_wrap_breaks_fifo:
  assumes "ev_time a = ev_time b"
  shows "fst (hs_deque (hs_insert b (hs_insert a (hs_new\<lparr>h_s_key := 2 ^ 32 - 1\<rparr>)))) = Some b"
  using assms
  by (simp add: hs_deque_def hs_insert_def hs_new_def heap_insert_def heap_grow_def heap_new_def
      heap_extract_min_def heap_sift.simps [of _ _ _ "Suc 0"] heap_sift.simps [of _ _ _ 0]
      key_less_than_def heap_parent_def wrap_u32_def Let_def)

theorem hs_wrap_breaks_fifo_witness:
  "fst (hs_deque (hs_insert (demo_event 1 2) (hs_insert (demo_event 2 2)
     (hs_new\<lparr>h_s_key := 2 ^ 32 - 1\<rparr>)))) = Some (demo_event 1 2)"
  using hs_wrap_breaks_fifo [of "demo_event 2 2" "demo_event 1 2"] by (simp add: demo_simps)

end
